(* ===== verification/Prelude.thy ===== *)
theory Prelude
  imports Main "HOL-Library.Word" "HOL-Library.Multiset"
begin

text \<open>
  Shared vocabulary of the development: Python exceptions as values of a sum type and the
  sequencing operator of that type, Python's indexing and slicing of lists, and the generic
  lemmas on lists and results that the component theories use.  Python's unbounded integers
  are \<^typ>\<open>int\<close>; \<open>//\<close> and \<open>%\<close> are \<open>div\<close> and \<open>mod\<close>, which round towards minus infinity
  as Python does.
\<close>

section \<open>Exceptions as values\<close>

text \<open>The exception classes the modelled code raises, by their Python names.\<close>

datatype py_exn =
    AssertionError
  | ValueError
  | RuntimeError
  | IndexError
  | KeyError
  | OverflowError
  | NotImplementedError
  | StopIteration
  | ZeroDivisionError

type_synonym 'a res = "py_exn + 'a"

text \<open>Sequencing: an exception skips the rest of the function.\<close>

definition bindE :: "'a res \<Rightarrow> ('a \<Rightarrow> 'b res) \<Rightarrow> 'b res" where
  "bindE m f = (case m of Inl e \<Rightarrow> Inl e | Inr x \<Rightarrow> f x)"

lemma bindE_simps [simp]:
  "bindE (Inl e) f = Inl e"
  "bindE (Inr x) f = f x"
  by (simp_all add: bindE_def)

lemma bindE_eq_Inr:
  "bindE m f = Inr y \<longleftrightarrow> (\<exists>x. m = Inr x \<and> f x = Inr y)"
  by (cases m) auto

lemma bindE_eq_Inl:
  "bindE m f = Inl e \<longleftrightarrow> m = Inl e \<or> (\<exists>x. m = Inr x \<and> f x = Inl e)"
  by (cases m) auto

lemma bindE_assoc: "bindE (bindE m f) g = bindE m (\<lambda>x. bindE (f x) g)"
  by (cases m) auto

lemma bindE_cong [fundef_cong]:
  "m = m' \<Longrightarrow> (\<And>x. m' = Inr x \<Longrightarrow> f x = f' x) \<Longrightarrow> bindE m f = bindE m' f'"
  by (cases m') auto

text \<open>Python's \<open>assert\<close> (the interpreter runs with assertions enabled).\<close>

definition py_assert :: "bool \<Rightarrow> unit res" where
  "py_assert b = (if b then Inr () else Inl AssertionError)"

lemma py_assert_simps [simp]:
  "py_assert True = Inr ()"
  "py_assert False = Inl AssertionError"
  by (simp_all add: py_assert_def)

lemma py_assert_eq_Inr [simp]: "py_assert b = Inr u \<longleftrightarrow> b"
  by (auto simp: py_assert_def)

text \<open>A \<open>for\<close> loop whose body may raise, threading a state through.\<close>

fun foldE :: "('a \<Rightarrow> 's \<Rightarrow> 's res) \<Rightarrow> 'a list \<Rightarrow> 's \<Rightarrow> 's res" where
  "foldE f [] s = Inr s"
| "foldE f (x # xs) s = bindE (f x s) (foldE f xs)"

lemma foldE_append: "foldE f (xs @ ys) s = bindE (foldE f xs s) (foldE f ys)"
  by (induction xs arbitrary: s) (auto simp: bindE_assoc intro!: bindE_cong)

lemma foldE_cong [fundef_cong]:
  "xs = ys \<Longrightarrow> s = t \<Longrightarrow> (\<And>x u. x \<in> set ys \<Longrightarrow> f x u = g x u) \<Longrightarrow> foldE f xs s = foldE g ys t"
proof (induction xs arbitrary: ys s t)
  case Nil
  then show ?case by auto
next
  case (Cons x xs)
  then obtain zs where "ys = x # zs" "xs = zs" by auto
  with Cons show ?case by (auto intro!: bindE_cong)
qed

text \<open>An invariant of the body is an invariant of the loop.\<close>

lemma foldE_invariant:
  assumes "foldE f xs s = Inr t" and "P s"
    and "\<And>x u v. x \<in> set xs \<Longrightarrow> P u \<Longrightarrow> f x u = Inr v \<Longrightarrow> P v"
  shows "P t"
  using assms by (induction xs arbitrary: s) (auto simp: bindE_eq_Inr)

text \<open>A loop whose body never raises under its invariant does not raise.\<close>

lemma foldE_total:
  assumes "P s" and "\<And>x u. x \<in> set xs \<Longrightarrow> P u \<Longrightarrow> \<exists>v. f x u = Inr v \<and> P v"
  shows "\<exists>t. foldE f xs s = Inr t \<and> P t"
  using assms
proof (induction xs arbitrary: s)
  case Nil
  then show ?case by simp
next
  case (Cons x xs)
  then obtain v where v: "f x s = Inr v" "P v" by force
  with Cons.IH [OF v(2)] Cons.prems(2) obtain t where "foldE f xs v = Inr t" "P t"
    by force
  with v show ?case by auto
qed

section \<open>Postconditions\<close>

text \<open>
  \<open>post m Q\<close>: if \<open>m\<close> returns, its value satisfies \<open>Q\<close>.  The rules follow the structure of the
  program, so that an invariant is pushed through a function without naming its intermediate
  results.
\<close>

definition post :: "'a res \<Rightarrow> ('a \<Rightarrow> bool) \<Rightarrow> bool" where
  "post m Q \<longleftrightarrow> (\<forall>x. m = Inr x \<longrightarrow> Q x)"

lemma post_simps [simp]: "post (Inr x) Q = Q x" "post (Inl e) Q"
  by (simp_all add: post_def)

lemma postD: "post m Q \<Longrightarrow> m = Inr x \<Longrightarrow> Q x"
  by (simp add: post_def)

lemma postI: "(\<And>x. m = Inr x \<Longrightarrow> Q x) \<Longrightarrow> post m Q"
  by (simp add: post_def)

lemma post_bind: "post m (\<lambda>x. post (f x) Q) \<Longrightarrow> post (bindE m f) Q"
  by (cases m) auto

lemma post_any: "(\<And>x. m = Inr x \<Longrightarrow> post (f x) Q) \<Longrightarrow> post (bindE m f) Q"
  by (cases m) auto

lemma post_mono: "post m P \<Longrightarrow> (\<And>x. P x \<Longrightarrow> Q x) \<Longrightarrow> post m Q"
  by (simp add: post_def)

lemma post_if: "(b \<Longrightarrow> post m Q) \<Longrightarrow> (\<not> b \<Longrightarrow> post m' Q) \<Longrightarrow> post (if b then m else m') Q"
  by simp

lemma post_option: "post f Q \<Longrightarrow> (\<And>y. post (g y) Q) \<Longrightarrow> post (case x of None \<Rightarrow> f | Some y \<Rightarrow> g y) Q"
  by (cases x) simp_all

lemma post_assert: "(b \<Longrightarrow> Q ()) \<Longrightarrow> post (py_assert b) Q"
  by (auto simp: py_assert_def)

lemma post_foldE:
  assumes "P s" "\<And>x u. x \<in> set xs \<Longrightarrow> P u \<Longrightarrow> post (f x u) P"
  shows "post (foldE f xs s) P"
  using assms foldE_invariant [of f xs s _ P] by (auto simp: post_def)

lemma bindE_InrE: "bindE m f = Inr y \<Longrightarrow> (\<And>x. m = Inr x \<Longrightarrow> f x = Inr y \<Longrightarrow> thesis) \<Longrightarrow> thesis"
  by (auto simp: bindE_eq_Inr)

text \<open>A result that is a value with a property, as a test to evaluate.\<close>

definition satisfies :: "('a \<Rightarrow> bool) \<Rightarrow> 'a res \<Rightarrow> bool" where
  "satisfies P m = (case m of Inl _ \<Rightarrow> False | Inr x \<Rightarrow> P x)"

lemma satisfiesE: "satisfies P m \<Longrightarrow> (\<And>x. m = Inr x \<Longrightarrow> P x \<Longrightarrow> Q) \<Longrightarrow> Q"
  by (auto simp: satisfies_def split: sum.splits)

section \<open>Python lists\<close>

text \<open>
  \<open>xs[i]\<close>: a negative index counts from the end, an index out of range raises.
\<close>

definition py_get :: "'a list \<Rightarrow> int \<Rightarrow> 'a res" where
  "py_get xs i =
     (if 0 \<le> i \<and> i < int (length xs) then Inr (xs ! nat i)
      else if i < 0 \<and> - i \<le> int (length xs) then Inr (rev xs ! nat (- i - 1))
      else Inl IndexError)"

lemma py_get_nonneg:
  "0 \<le> i \<Longrightarrow> i < int (length xs) \<Longrightarrow> py_get xs i = Inr (xs ! nat i)"
  by (simp add: py_get_def)

lemma py_get_neg:
  assumes "0 < i" "i \<le> int (length xs)"
  shows "py_get xs (- i) = Inr (xs ! nat (int (length xs) - i))"
proof -
  have "rev xs ! nat (i - 1) = xs ! (length xs - Suc (nat (i - 1)))"
    by (rule rev_nth) (use assms in linarith)
  moreover have "length xs - Suc (nat (i - 1)) = nat (int (length xs) - i)" using assms by linarith
  ultimately show ?thesis using assms by (simp add: py_get_def)
qed

lemma py_get_last: "xs \<noteq> [] \<Longrightarrow> py_get xs (-1) = Inr (last xs)"
  by (simp add: py_get_def rev_nth last_conv_nth Suc_le_eq)

text \<open>\<open>xs[i] = v\<close>.\<close>

definition py_set :: "'a list \<Rightarrow> int \<Rightarrow> 'a \<Rightarrow> 'a list res" where
  "py_set xs i v =
     (if 0 \<le> i \<and> i < int (length xs) then Inr (xs[nat i := v])
      else if i < 0 \<and> - i \<le> int (length xs) then Inr (xs[nat (int (length xs) + i) := v])
      else Inl IndexError)"

text \<open>
  \<open>xs[a:b]\<close>: bounds are clipped to the list, a negative bound counts from the end.
\<close>

definition py_bound :: "nat \<Rightarrow> int \<Rightarrow> nat" where
  "py_bound n i = (if i < 0 then nat (max 0 (int n + i)) else nat (min i (int n)))"

definition py_slice :: "'a list \<Rightarrow> int \<Rightarrow> int \<Rightarrow> 'a list" where
  "py_slice xs a b =
     drop (py_bound (length xs) a) (take (py_bound (length xs) b) xs)"

definition py_slice_from :: "'a list \<Rightarrow> int \<Rightarrow> 'a list" where
  "py_slice_from xs a = drop (py_bound (length xs) a) xs"

lemma py_slice_nonneg:
  "0 \<le> a \<Longrightarrow> 0 \<le> b \<Longrightarrow> py_slice xs a b = drop (nat a) (take (nat b) xs)"
proof -
  assume ab: "0 \<le> a" "0 \<le> b"
  have b: "take (py_bound (length xs) b) xs = take (nat b) xs"
    using ab by (auto simp: py_bound_def min_def)
  show ?thesis
  proof (cases "a \<le> int (length xs)")
    case True
    then show ?thesis using ab b by (simp add: py_slice_def py_bound_def)
  next
    case False
    then have "py_bound (length xs) a = length xs" "length xs \<le> nat a"
      using ab by (auto simp: py_bound_def)
    then show ?thesis unfolding py_slice_def b by simp
  qed
qed

lemma py_slice_from_nonneg: "0 \<le> a \<Longrightarrow> py_slice_from xs a = drop (nat a) xs"
  by (auto simp: py_slice_from_def py_bound_def min_def)

lemma py_slice_split:
  assumes "0 \<le> a" "a \<le> b"
  shows "xs = take (nat a) xs @ py_slice xs a b @ drop (nat b) xs"
proof -
  have m: "min (nat a) (nat b) = nat a" using assms by simp
  have "take (nat b) xs = take (nat a) (take (nat b) xs) @ drop (nat a) (take (nat b) xs)"
    by (rule append_take_drop_id [symmetric])
  then have "take (nat b) xs = take (nat a) xs @ drop (nat a) (take (nat b) xs)" unfolding take_take m .
  moreover have "xs = take (nat b) xs @ drop (nat b) xs" by simp
  ultimately show ?thesis using assms by (metis append.assoc order.trans py_slice_nonneg)
qed

lemma set_py_slice_subset: "set (py_slice xs a b) \<subseteq> set xs"
  unfolding py_slice_def by (meson in_set_dropD in_set_takeD subsetI)

text \<open>\<open>range(a, b)\<close> and \<open>range(a, b, -1)\<close>.\<close>

definition py_range :: "int \<Rightarrow> int \<Rightarrow> int list" where
  "py_range a b = [a..b - 1]"

definition py_range_down :: "int \<Rightarrow> int \<Rightarrow> int list" where
  "py_range_down a b = rev [b + 1..a]"

lemma set_py_range [simp]: "set (py_range a b) = {a..<b}"
  by (auto simp: py_range_def)

lemma set_py_range_down [simp]: "set (py_range_down a b) = {b<..a}"
  by (auto simp: py_range_down_def)

lemma py_range_empty [simp]: "b \<le> a \<Longrightarrow> py_range a b = []"
  by (simp add: py_range_def)

lemma py_range_Cons: "a < b \<Longrightarrow> py_range a b = a # py_range (a + 1) b"
  by (simp add: py_range_def upto_rec1)

section \<open>Counting and lists\<close>

lemma count_list_le_length: "count_list xs x \<le> length xs"
  by (induction xs) auto

lemma distinct_count_list: "distinct xs \<Longrightarrow> count_list xs x = (if x \<in> set xs then 1 else 0)"
  by (induction xs) auto

lemma count_list_0_notin: "count_list xs x = 0 \<longleftrightarrow> x \<notin> set xs"
  by (simp add: count_list_0_iff)

lemma remove1_append_distinct:
  "x \<notin> set xs \<Longrightarrow> remove1 x (xs @ x # ys) = xs @ ys"
  by (simp add: remove1_append)

lemma filter_neq_distinct: "distinct xs \<Longrightarrow> filter (\<lambda>c. c \<noteq> b) xs = remove1 b xs"
  by (induction xs) (auto simp: filter_id_conv)

lemma set_drop_distinct:
  assumes "distinct xs"
  shows "set (drop n xs) = set xs - set (take n xs)"
proof -
  have "set xs = set (take n xs) \<union> set (drop n xs)" by (metis append_take_drop_id set_append)
  moreover have "set (take n xs) \<inter> set (drop n xs) = {}"
    using assms by (rule set_take_disj_set_drop_if_distinct) simp
  ultimately show ?thesis by blast
qed

lemma count_list_rev: "count_list (rev xs) x = count_list xs x"
  by (induction xs) auto

lemma count_list_replicate: "count_list (replicate n x) y = (if x = y then n else 0)"
  by (induction n) auto

lemma count_list_pos: "0 < count_list xs x \<longleftrightarrow> x \<in> set xs"
  using count_list_0_iff [of xs x] by auto

end
