(* ===== verification/Math_Utils.thy ===== *)
theory Math_Utils
  imports Prelude
begin

text \<open>
  The integer helpers of \<^verbatim>\<open>vllm/utils/math_utils.py\<close>, on Python's unbounded integers.
  Every caller passes a positive divisor (block sizes and window sizes); at a zero divisor
  Python raises \<open>ZeroDivisionError\<close>, so the lemmas below assume \<open>0 < b\<close>.
\<close>

unbundle bit_operations_syntax

section \<open>Definitions\<close>

definition cdiv :: "int \<Rightarrow> int \<Rightarrow> int" where
  "cdiv a b = - (a div (- b))"

text \<open>\<open>int.bit_length\<close>: the number of binary digits of the absolute value.\<close>

fun nat_bit_length :: "nat \<Rightarrow> nat" where
  "nat_bit_length n = (if n = 0 then 0 else Suc (nat_bit_length (n div 2)))"

declare nat_bit_length.simps [simp del]

definition bit_length :: "int \<Rightarrow> nat" where
  "bit_length n = nat_bit_length (nat \<bar>n\<bar>)"

definition next_power_of_2 :: "int \<Rightarrow> int" where
  "next_power_of_2 n = (if n < 1 then 1 else push_bit (bit_length (n - 1)) 1)"

definition round_up :: "int \<Rightarrow> int \<Rightarrow> int" where
  "round_up x y = ((x + y - 1) div y) * y"

definition round_down :: "int \<Rightarrow> int \<Rightarrow> int" where
  "round_down x y = (x div y) * y"

definition largest_power_of_2_divisor :: "int \<Rightarrow> int" where
  "largest_power_of_2_divisor n = n AND (- n)"

section \<open>Ceiling division and rounding\<close>

lemma cdiv_bounds:
  assumes "0 < b"
  shows "a \<le> cdiv a b * b" and "(cdiv a b - 1) * b < a"
proof -
  let ?q = "a div (- b)" and ?r = "a mod (- b)"
  have eq: "a = ?q * (- b) + ?r" by (rule div_mult_mod_eq [symmetric])
  have r: "- b < ?r" "?r \<le> 0"
    using assms neg_mod_bound [of "- b" a] neg_mod_sign [of "- b" a] by simp_all
  have "cdiv a b * b = a - ?r" unfolding cdiv_def using eq by linarith
  with r show "a \<le> cdiv a b * b" "(cdiv a b - 1) * b < a"
    by (simp_all add: algebra_simps)
qed

lemma cdiv_le_iff:
  assumes "0 < b"
  shows "cdiv a b \<le> k \<longleftrightarrow> a \<le> k * b"
proof
  assume "cdiv a b \<le> k"
  then have "cdiv a b * b \<le> k * b" using assms by (simp add: mult_right_mono)
  with cdiv_bounds(1) [OF assms, of a] show "a \<le> k * b" by simp
next
  assume "a \<le> k * b"
  with cdiv_bounds(2) [OF assms, of a] have "(cdiv a b - 1) * b < k * b" by simp
  with assms have "cdiv a b - 1 < k" by (simp add: mult_less_cancel_right)
  then show "cdiv a b \<le> k" by simp
qed

lemma cdiv_eqI: "0 < b \<Longrightarrow> (k - 1) * b < a \<Longrightarrow> a \<le> k * b \<Longrightarrow> cdiv a b = k"
  using cdiv_le_iff [of b a k] cdiv_le_iff [of b a "k - 1"] by linarith

lemma cdiv_nonneg: "0 < b \<Longrightarrow> 0 \<le> a \<Longrightarrow> 0 \<le> cdiv a b"
  using cdiv_le_iff [of b a "- 1"] by linarith

lemma cdiv_pos: "0 < b \<Longrightarrow> 0 < a \<Longrightarrow> 0 < cdiv a b"
  using cdiv_le_iff [of b a 0] by linarith

lemma cdiv_mono: "0 < b \<Longrightarrow> a \<le> a' \<Longrightarrow> cdiv a b \<le> cdiv a' b"
  using cdiv_le_iff [of b a "cdiv a' b"] cdiv_bounds(1) [of b a'] by linarith

lemma cdiv_mult [simp]: "0 < b \<Longrightarrow> cdiv (k * b) b = k"
  by (rule cdiv_eqI) (auto simp: algebra_simps)

lemma cdiv_eq_div_if_dvd: "0 < b \<Longrightarrow> b dvd a \<Longrightarrow> cdiv a b = a div b"
  by (auto elim!: dvdE simp: mult.commute [of b])

lemma cdiv_div: "0 < b \<Longrightarrow> cdiv a b = (a + b - 1) div b"
proof (rule cdiv_eqI)
  assume b: "0 < b"
  let ?q = "(a + b - 1) div b"
  have "?q * b + (a + b - 1) mod b = a + b - 1" by (rule div_mult_mod_eq)
  moreover have "0 \<le> (a + b - 1) mod b" "(a + b - 1) mod b < b" using b by simp_all
  ultimately have "?q * b - b < a" "a \<le> ?q * b" by linarith+
  then show "(?q - 1) * b < a" "a \<le> ?q * b" by (simp_all add: left_diff_distrib)
qed

lemma round_up_eq_cdiv: "0 < y \<Longrightarrow> round_up x y = cdiv x y * y"
  by (simp add: round_up_def cdiv_div)

lemma div_le_cdiv: "0 < b \<Longrightarrow> a div b \<le> cdiv a b"
  by (simp add: cdiv_div zdiv_mono1)

lemma round_down_bounds: "0 < y \<Longrightarrow> round_down x y \<le> x \<and> x < round_down x y + y"
proof -
  assume y: "0 < y"
  have "x div y * y + x mod y = x" by (rule div_mult_mod_eq)
  moreover have "0 \<le> x mod y" "x mod y < y" using y by simp_all
  ultimately show ?thesis unfolding round_down_def by linarith
qed

lemma le_div_iff_mult_le: "0 < b \<Longrightarrow> k \<le> a div b \<longleftrightarrow> k * b \<le> a" for a b k :: int
proof
  assume b: "0 < b" and "k \<le> a div b"
  then have "k * b \<le> a div b * b" by simp
  also have "\<dots> \<le> a" using round_down_bounds [OF b, of a] by (simp add: round_down_def)
  finally show "k * b \<le> a" .
next
  assume b: "0 < b" and "k * b \<le> a"
  then have "k * b div b \<le> a div b" by (intro zdiv_mono1)
  with b show "k \<le> a div b" by simp
qed

lemma round_down_greatest:
  assumes "0 < y" "z mod y = 0" "z \<le> x"
  shows "z \<le> round_down x y"
proof -
  have "z = z div y * y" using assms(2) by (simp add: minus_mod_eq_div_mult [symmetric])
  also have "\<dots> \<le> x div y * y" using assms(1,3) by (intro mult_right_mono zdiv_mono1) auto
  finally show ?thesis by (simp add: round_down_def)
qed

section \<open>Bit length and powers of two\<close>

lemma nat_bit_length_bounds: "0 < n \<Longrightarrow> 2 ^ (nat_bit_length n - 1) \<le> n \<and> n < 2 ^ nat_bit_length n"
proof (induction n rule: nat_bit_length.induct)
  case (1 n)
  show ?case
  proof (cases "n = 1")
    case True
    then show ?thesis by (simp add: nat_bit_length.simps)
  next
    case False
    with 1 have h: "0 < n div 2" and IH: "2 ^ (nat_bit_length (n div 2) - 1) \<le> n div 2"
        "n div 2 < 2 ^ nat_bit_length (n div 2)"
      by auto
    have pos: "0 < nat_bit_length (n div 2)" using h by (simp add: nat_bit_length.simps)
    have len: "nat_bit_length n = Suc (nat_bit_length (n div 2))"
      using 1 by (simp add: nat_bit_length.simps [of n])
    have "(2::nat) ^ nat_bit_length (n div 2) = 2 * 2 ^ (nat_bit_length (n div 2) - 1)"
      using pos by (cases "nat_bit_length (n div 2)") auto
    with IH(1) have "2 ^ nat_bit_length (n div 2) \<le> n" by linarith
    moreover from IH(2) have "n < 2 * 2 ^ nat_bit_length (n div 2)" by linarith
    ultimately show ?thesis by (simp add: len)
  qed
qed

lemma nat_bit_length_0 [simp]: "nat_bit_length 0 = 0"
  by (simp add: nat_bit_length.simps)

lemma next_power_of_2_eq: "1 \<le> n \<Longrightarrow> next_power_of_2 n = 2 ^ bit_length (n - 1)"
  by (simp add: next_power_of_2_def push_bit_eq_mult)

lemma next_power_of_2_ge: "n \<le> next_power_of_2 n"
proof (cases "n \<le> 1")
  case True
  then show ?thesis by (auto simp: next_power_of_2_def push_bit_eq_mult bit_length_def)
next
  case False
  let ?m = "nat (n - 1)"
  have "?m < 2 ^ nat_bit_length ?m" using False nat_bit_length_bounds [of ?m] by simp
  then have "int ?m < 2 ^ nat_bit_length ?m"
    by (metis of_nat_less_iff of_nat_numeral of_nat_power)
  with False show ?thesis by (simp add: next_power_of_2_eq bit_length_def)
qed

lemma next_power_of_2_least:
  assumes "n \<le> 2 ^ k"
  shows "next_power_of_2 n \<le> 2 ^ k"
proof (cases "n \<le> 1")
  case True
  then show ?thesis by (auto simp: next_power_of_2_def push_bit_eq_mult bit_length_def)
next
  case False
  let ?m = "nat (n - 1)"
  from False have m: "0 < ?m" by simp
  have "?m < 2 ^ k" using assms False by (simp add: nat_less_iff)
  with nat_bit_length_bounds [OF m] have "(2::nat) ^ (nat_bit_length ?m - 1) < 2 ^ k"
    by linarith
  then have "nat_bit_length ?m \<le> k" by simp
  with False show ?thesis by (simp add: next_power_of_2_eq bit_length_def power_increasing)
qed

end
