(* ===== verification/Request_Queue.thy ===== *)
theory Request_Queue
  imports Prelude Complex_Main "HOL-Library.Char_ord" "HOL-Library.List_Lexorder"
begin

text \<open>
  The scheduler's waiting queues, \<^verbatim>\<open>vllm/v1/core/sched/request_queue.py\<close>: the FCFS queue (a
  deque) and the priority queue (a \<open>heapq\<close> list), over the ordering \<open>Request.__lt__\<close> of
  \<^verbatim>\<open>vllm/v1/request.py\<close>.  Of Python's standard library the theory models \<open>heapq\<close>
  (\<open>heappush\<close>, \<open>heappop\<close>, \<open>heapify\<close> with their two sift loops) on array indices, and the
  deque operations used.  The locale \<open>request_queue\<close> is the abstract class both implement.
\<close>

section \<open>The ordering of requests\<close>

text \<open>
  What the queues read of a request: its priority, arrival time (a finite float, hence a
  rational), request id and object identity.  Requests compare equal only to themselves,
  which the identity component makes structural.
\<close>

datatype qreq = QReq (priority: int) (arrival_time: rat) (request_id: string) (obj_id: nat)

definition request_lt :: "qreq \<Rightarrow> qreq \<Rightarrow> bool" where
  "request_lt self other =
     (if priority self \<noteq> priority other then priority self < priority other
      else if arrival_time self \<noteq> arrival_time other then arrival_time self < arrival_time other
      else if request_id self \<noteq> request_id other then request_id self < request_id other
      else obj_id self < obj_id other)"

instantiation qreq :: linorder
begin

definition less_qreq :: "qreq \<Rightarrow> qreq \<Rightarrow> bool" where
  "less_qreq a b = request_lt a b"

definition less_eq_qreq :: "qreq \<Rightarrow> qreq \<Rightarrow> bool" where
  "less_eq_qreq a b \<longleftrightarrow> a = b \<or> a < b"

instance
proof
  fix a b c :: qreq
  have irrefl: "\<not> a < a" for a :: qreq by (simp add: less_qreq_def request_lt_def)
  have trans: "a < b \<Longrightarrow> b < c \<Longrightarrow> a < c" for a b c :: qreq
    by (auto simp: less_qreq_def request_lt_def split: if_splits)
  show "a < b \<longleftrightarrow> a \<le> b \<and> \<not> b \<le> a"
    using irrefl [of a] irrefl [of b] trans [of a b a] by (auto simp: less_eq_qreq_def)
  show "a \<le> a" by (simp add: less_eq_qreq_def)
  show "a \<le> b \<Longrightarrow> b \<le> c \<Longrightarrow> a \<le> c" using trans [of a b c] by (auto simp: less_eq_qreq_def)
  show "a \<le> b \<Longrightarrow> b \<le> a \<Longrightarrow> a = b"
    using irrefl [of a] trans [of a b a] by (auto simp: less_eq_qreq_def)
  show "a \<le> b \<or> b \<le> a"
    by (cases a; cases b) (auto simp: less_eq_qreq_def less_qreq_def request_lt_def)
qed

end

section \<open>\<open>heapq\<close>\<close>

definition parent :: "nat \<Rightarrow> nat" where
  "parent i = (i - 1) div 2"

text \<open>\<open>_siftdown\<close>: move the new item towards the root while it is smaller than its parent.\<close>

function siftdown_loop :: "'a::linorder list \<Rightarrow> nat \<Rightarrow> nat \<Rightarrow> 'a \<Rightarrow> 'a list" where
  "siftdown_loop heap startpos pos newitem =
     (if startpos < pos \<and> newitem < heap ! parent pos
      then siftdown_loop (heap[pos := heap ! parent pos]) startpos (parent pos) newitem
      else heap[pos := newitem])"
  by pat_completeness auto
termination
  by (relation "measure (\<lambda>(h, s, p, x). p)") (auto simp: parent_def)

declare siftdown_loop.simps [simp del]

definition siftdown :: "'a::linorder list \<Rightarrow> nat \<Rightarrow> nat \<Rightarrow> 'a list" where
  "siftdown heap startpos pos = siftdown_loop heap startpos pos (heap ! pos)"

text \<open>\<open>_siftup\<close>: bubble the smaller child up until a leaf, then sift the item down from there.\<close>

definition smaller_child :: "'a::linorder list \<Rightarrow> nat \<Rightarrow> nat" where
  "smaller_child heap pos =
     (let childpos = 2 * pos + 1; rightpos = childpos + 1
      in if rightpos < length heap \<and> \<not> heap ! childpos < heap ! rightpos
         then rightpos else childpos)"

function siftup_loop :: "'a::linorder list \<Rightarrow> nat \<Rightarrow> 'a list \<times> nat" where
  "siftup_loop heap pos =
     (if 2 * pos + 1 < length heap
      then siftup_loop (heap[pos := heap ! smaller_child heap pos]) (smaller_child heap pos)
      else (heap, pos))"
  by pat_completeness auto
termination
  by (relation "measure (\<lambda>(h, p). length h - p)") (auto simp: smaller_child_def Let_def)

declare siftup_loop.simps [simp del]

definition siftup :: "'a::linorder list \<Rightarrow> nat \<Rightarrow> 'a list" where
  "siftup heap pos =
     (let newitem = heap ! pos; (heap', pos') = siftup_loop heap pos
      in siftdown (heap'[pos' := newitem]) pos pos')"

definition heappush :: "'a::linorder list \<Rightarrow> 'a \<Rightarrow> 'a list" where
  "heappush heap item = siftdown (heap @ [item]) 0 (length heap)"

text \<open>\<open>heap.pop()\<close> on an empty list raises \<open>IndexError\<close>.\<close>

definition heappop :: "'a::linorder list \<Rightarrow> ('a \<times> 'a list) res" where
  "heappop heap =
     (if heap = [] then Inl IndexError
      else let lastelt = last heap; heap' = butlast heap in
        if heap' \<noteq> [] then Inr (heap' ! 0, siftup (heap'[0 := lastelt]) 0)
        else Inr (lastelt, heap'))"

definition heapify :: "'a::linorder list \<Rightarrow> 'a list" where
  "heapify x = fold (\<lambda>i h. siftup h i) (rev [0..<length x div 2]) x"

section \<open>Correctness of the heap operations\<close>

text \<open>\<open>heap_from s h\<close>: the heap order holds wherever the parent is at index \<open>s\<close> or later.\<close>

definition heap_from :: "nat \<Rightarrow> 'a::linorder list \<Rightarrow> bool" where
  "heap_from s h \<longleftrightarrow> (\<forall>j < length h. 0 < j \<longrightarrow> s \<le> parent j \<longrightarrow> h ! parent j \<le> h ! j)"

lemma parent_less: "0 < j \<Longrightarrow> parent j < j"
  by (auto simp: parent_def)

lemma parent_child [simp]: "parent (2 * p + 1) = p" "parent (Suc (2 * p)) = p"
  "parent (2 * p + 2) = p" "parent (Suc (Suc (2 * p))) = p"
  by (simp_all add: parent_def)

lemma child_of_parent: "0 < j \<Longrightarrow> parent j = p \<Longrightarrow> j = 2 * p + 1 \<or> j = 2 * p + 2"
  unfolding parent_def by presburger

text \<open>Positions below \<open>s\<close> in the tree: following parents from \<open>p\<close> meets \<open>s\<close>.\<close>

function in_subtree :: "nat \<Rightarrow> nat \<Rightarrow> bool" where
  "in_subtree s p = (if p \<le> s then p = s else in_subtree s (parent p))"
  by pat_completeness auto
termination
  by (relation "measure (\<lambda>(s, p). p)") (auto simp: parent_def)

declare in_subtree.simps [simp del]

lemma in_subtree_self [simp]: "in_subtree s s"
  by (simp add: in_subtree.simps)

lemma in_subtree_ge: "in_subtree s p \<Longrightarrow> s \<le> p"
  by (cases "p \<le> s") (auto simp: in_subtree.simps [of s p])

lemma in_subtree_parent: "in_subtree s p \<Longrightarrow> s < p \<Longrightarrow> in_subtree s (parent p) \<and> s \<le> parent p"
  using in_subtree_ge [of s "parent p"] by (simp add: in_subtree.simps [of s p])

lemma in_subtree_child: "in_subtree s (parent c) \<Longrightarrow> 0 < c \<Longrightarrow> in_subtree s c"
  using in_subtree_ge [of s "parent c"] parent_less [of c] by (simp add: in_subtree.simps [of s c])

lemma in_subtree_0: "in_subtree 0 p"
proof (induction p rule: less_induct)
  case (less p)
  then have "0 < p \<Longrightarrow> in_subtree 0 (parent p)" using parent_less [of p] by simp
  then show ?case using in_subtree_child [of 0 p] by (cases "p = 0") auto
qed

lemma mset_swap_hole:
  assumes "i < length h" "j < length h" "i \<noteq> j"
  shows "mset ((h[i := h ! j])[j := x]) = mset (h[i := x])"
proof -
  let ?g = "h[i := x]"
  have "mset (?g[i := ?g ! j, j := ?g ! i]) = mset ?g"
    using assms by (intro mset_swap) simp_all
  moreover have "?g[i := ?g ! j, j := ?g ! i] = (h[i := h ! j])[j := x]"
    using assms by simp
  ultimately show ?thesis by simp
qed

lemma siftdown_loop_rec:
  "s < p \<Longrightarrow> x < h ! parent p \<Longrightarrow>
     siftdown_loop h s p x = siftdown_loop (h[p := h ! parent p]) s (parent p) x"
  "\<not> (s < p \<and> x < h ! parent p) \<Longrightarrow> siftdown_loop h s p x = h[p := x]"
  by (auto simp: siftdown_loop.simps [of h s p x])

lemma siftdown_loop_length [simp]: "length (siftdown_loop h s p x) = length h"
proof (induction h s p x rule: siftdown_loop.induct)
  case (1 h s p x)
  then show ?case
    by (cases "s < p \<and> x < h ! parent p") (simp_all add: siftdown_loop_rec)
qed

lemma mset_siftdown_loop: "p < length h \<Longrightarrow> mset (siftdown_loop h s p x) = mset (h[p := x])"
proof (induction h s p x rule: siftdown_loop.induct)
  case (1 h s p x)
  show ?case
  proof (cases "s < p \<and> x < h ! parent p")
    case True
    then have "parent p < length h" "parent p \<noteq> p" using "1.prems" parent_less [of p] by auto
    with 1 True show ?thesis by (simp add: siftdown_loop_rec(1) mset_swap_hole)
  next
    case False
    then show ?thesis by (simp add: siftdown_loop_rec(2))
  qed
qed

text \<open>
  While an item is out of the heap, the hole at \<open>p\<close> is the only place where the order may fail,
  and the hole's parent is below the hole's children.
\<close>

definition hole_inv :: "nat \<Rightarrow> 'a::linorder list \<Rightarrow> nat \<Rightarrow> bool" where
  "hole_inv s h p \<longleftrightarrow>
     (\<forall>j < length h. 0 < j \<longrightarrow> s \<le> parent j \<longrightarrow> parent j \<noteq> p \<longrightarrow> j \<noteq> p \<longrightarrow> h ! parent j \<le> h ! j)
     \<and> (\<forall>c < length h. 0 < c \<longrightarrow> parent c = p \<longrightarrow> 0 < p \<longrightarrow> s \<le> parent p \<longrightarrow> h ! parent p \<le> h ! c)"

lemma siftdown_loop_heap:
  assumes "p < length h" and "hole_inv s h p" and "in_subtree s p"
    and "\<And>c. c < length h \<Longrightarrow> 0 < c \<Longrightarrow> parent c = p \<Longrightarrow> s \<le> p \<Longrightarrow> x \<le> h ! c"
  shows "heap_from s (siftdown_loop h s p x)"
  using assms
proof (induction h s p x rule: siftdown_loop.induct)
  case (1 h s p x)
  note hole = "1.prems"(2) [unfolded hole_inv_def]
  show ?case
  proof (cases "s < p \<and> x < h ! parent p")
    case True
    let ?pp = "parent p" and ?h = "h[p := h ! parent p]"
    have pp: "?pp < p" "?pp < length h" using True "1.prems"(1) parent_less [of p] by auto
    have sub: "in_subtree s ?pp" "s \<le> ?pp" using in_subtree_parent "1.prems"(3) True by auto
    have "hole_inv s ?h ?pp"
      unfolding hole_inv_def
    proof (intro conjI allI impI)
      fix j assume j: "j < length ?h" "0 < j" "s \<le> parent j" "parent j \<noteq> ?pp" "j \<noteq> ?pp"
      then have "j \<noteq> p" by auto
      with j hole pp sub "1.prems"(1) show "?h ! parent j \<le> ?h ! j"
        by (cases "parent j = p") auto
    next
      fix c assume c: "c < length ?h" "0 < c" "parent c = ?pp" "0 < ?pp" "s \<le> parent ?pp"
      have sp: "s \<le> ?pp" using c(4,5) parent_less [of ?pp] by simp
      have "h ! parent ?pp \<le> h ! ?pp" using hole pp c parent_less [of ?pp] by auto
      moreover have "h ! ?pp \<le> h ! c" if "c \<noteq> p" using hole that c sp pp by auto
      ultimately show "?h ! parent ?pp \<le> ?h ! c"
        using pp c parent_less [of ?pp] by (cases "c = p") auto
    qed
    moreover have "x \<le> ?h ! c" if "c < length ?h" "0 < c" "parent c = ?pp" "s \<le> ?pp" for c
      using hole that pp True by (cases "c = p") (auto intro: less_imp_le order.trans)
    ultimately show ?thesis
      using "1.IH" [OF True] pp sub True by (simp add: siftdown_loop_rec(1))
  next
    case False
    have "h[p := x] ! parent j \<le> h[p := x] ! j"
      if j: "j < length h" "0 < j" "s \<le> parent j" for j
    proof -
      consider "j = p" | "j \<noteq> p" "parent j = p" | "j \<noteq> p" "parent j \<noteq> p" by blast
      then show ?thesis
      proof cases
        case 1
        with j parent_less [of j] have "s < p" "parent p \<noteq> p" by auto
        with 1 False \<open>p < length h\<close> show ?thesis by auto
      qed (use j hole "1.prems" in auto)
    qed
    with False show ?thesis by (simp add: siftdown_loop_rec(2) heap_from_def)
  qed
qed

lemma smaller_child_props:
  assumes "2 * p + 1 < length h"
  shows "smaller_child h p < length h" "parent (smaller_child h p) = p" "p < smaller_child h p"
    and "\<And>j. j < length h \<Longrightarrow> 0 < j \<Longrightarrow> parent j = p \<Longrightarrow> h ! smaller_child h p \<le> h ! j"
proof -
  show "smaller_child h p < length h" "parent (smaller_child h p) = p" "p < smaller_child h p"
    using assms by (auto simp: smaller_child_def Let_def)
  fix j assume "j < length h" "0 < j" "parent j = p"
  then show "h ! smaller_child h p \<le> h ! j"
    using child_of_parent [of j p] by (auto simp: smaller_child_def Let_def not_less)
qed

lemma siftup_loop_result:
  assumes "siftup_loop h p = (h', p')" and "p < length h" and "in_subtree s p" and "hole_inv s h p"
  shows "length h' = length h \<and> p' < length h \<and> length h \<le> 2 * p' + 1
    \<and> (\<forall>x. mset (h'[p' := x]) = mset (h[p := x])) \<and> hole_inv s h' p' \<and> in_subtree s p'"
  using assms
proof (induction h p rule: siftup_loop.induct)
  case (1 h p)
  show ?case
  proof (cases "2 * p + 1 < length h")
    case True
    let ?c = "smaller_child h p"
    let ?h = "h[p := h ! ?c]"
    note c = smaller_child_props [OF True]
    note hole = "1.prems"(4) [unfolded hole_inv_def]
    have "hole_inv s ?h ?c"
      unfolding hole_inv_def
    proof (intro conjI allI impI)
      fix j assume j: "j < length ?h" "0 < j" "s \<le> parent j" "parent j \<noteq> ?c" "j \<noteq> ?c"
      consider "j = p" | "j \<noteq> p" "parent j = p" | "j \<noteq> p" "parent j \<noteq> p" by blast
      then show "?h ! parent j \<le> ?h ! j"
      proof cases
        case 1
        with hole j c parent_less [of p] show ?thesis by auto
      qed (use j c hole "1.prems"(2) in auto)
    next
      fix d assume d: "d < length ?h" "0 < d" "parent d = ?c" "0 < ?c" "s \<le> parent ?c"
      then have "d \<noteq> p" using c parent_less [of d] by auto
      with d hole c "1.prems"(2) show "?h ! parent ?c \<le> ?h ! d" by auto
    qed
    moreover have "siftup_loop ?h ?c = (h', p')"
      using "1.prems"(1) True by (simp add: siftup_loop.simps [of h p])
    ultimately have "length h' = length ?h \<and> p' < length ?h \<and> length ?h \<le> 2 * p' + 1
        \<and> (\<forall>x. mset (h'[p' := x]) = mset (?h[?c := x])) \<and> hole_inv s h' p' \<and> in_subtree s p'"
      using "1.IH" [OF True] c "1.prems"(2,3) in_subtree_child [of s ?c] by simp
    moreover have "mset (?h[?c := x]) = mset (h[p := x])" for x
      using mset_swap_hole [of p h ?c x] c "1.prems"(2) by simp
    ultimately show ?thesis by simp
  next
    case False
    with "1.prems" show ?thesis by (simp add: siftup_loop.simps [of h p])
  qed
qed

lemma siftup_correct:
  assumes "p < length h" and "heap_from (Suc p) h"
  shows "length (siftup h p) = length h" "mset (siftup h p) = mset h" "heap_from p (siftup h p)"
proof -
  obtain h' p' where su: "siftup_loop h p = (h', p')" by fastforce
  have "hole_inv p h p"
    unfolding hole_inv_def
  proof (intro conjI allI impI)
    fix j assume "j < length h" "0 < j" "p \<le> parent j" "parent j \<noteq> p" "j \<noteq> p"
    with assms(2) show "h ! parent j \<le> h ! j" by (simp add: heap_from_def)
  qed (use parent_less [of p] in simp)
  from siftup_loop_result [OF su assms(1) in_subtree_self this]
  have r: "length h' = length h" "p' < length h" "length h \<le> 2 * p' + 1"
    "\<And>x. mset (h'[p' := x]) = mset (h[p := x])" "hole_inv p h' p'" "in_subtree p p'" by auto
  let ?x = "h ! p"
  have eq: "siftup h p = siftdown_loop (h'[p' := ?x]) p p' ?x"
    using r by (simp add: siftup_def su siftdown_def Let_def)
  show "length (siftup h p) = length h" using r eq by simp
  show "mset (siftup h p) = mset h" using r eq by (simp add: mset_siftdown_loop)
  have nochild: "parent c \<noteq> p'" if "c < length h" "0 < c" for c
    using child_of_parent [of c p'] that r(3) by auto
  have "hole_inv p (h'[p' := ?x]) p'"
    unfolding hole_inv_def
  proof (intro conjI allI impI)
    fix j assume "j < length (h'[p' := ?x])" "0 < j" "p \<le> parent j" "parent j \<noteq> p'" "j \<noteq> p'"
    with r(5) show "h'[p' := ?x] ! parent j \<le> h'[p' := ?x] ! j" by (simp add: hole_inv_def)
  qed (use nochild r(1) in simp)
  then show "heap_from p (siftup h p)"
    unfolding eq by (rule siftdown_loop_heap [rotated]) (use r nochild in auto)
qed

lemma heap_min: "heap_from 0 h \<Longrightarrow> i < length h \<Longrightarrow> h ! 0 \<le> h ! i"
proof (induction i rule: less_induct)
  case (less i)
  show ?case
  proof (cases "i = 0")
    case False
    with less parent_less [of i] have "h ! 0 \<le> h ! parent i" by simp
    also have "\<dots> \<le> h ! i" using less.prems False by (simp add: heap_from_def)
    finally show ?thesis .
  qed simp
qed

lemma heappush_correct:
  assumes "heap_from 0 h"
  shows "heap_from 0 (heappush h x)" "mset (heappush h x) = add_mset x (mset h)"
proof -
  let ?n = "length h" and ?h = "h @ [x]"
  have eq: "heappush h x = siftdown_loop ?h 0 ?n x"
    by (simp add: heappush_def siftdown_def)
  have nochild: "parent c \<noteq> ?n" if "c < length ?h" "0 < c" for c
    using parent_less [of c] that by auto
  have hole: "hole_inv 0 ?h ?n"
    unfolding hole_inv_def
  proof (intro conjI allI impI)
    fix j assume j: "j < length ?h" "0 < j" "j \<noteq> ?n"
    then have "j < ?n" "parent j < ?n" using parent_less [of j] by auto
    with j(2) assms show "?h ! parent j \<le> ?h ! j" by (simp add: heap_from_def nth_append)
  qed (use nochild in auto)
  have "?n < length ?h" by simp
  with siftdown_loop_heap [OF this hole in_subtree_0] nochild
  show "heap_from 0 (heappush h x)" unfolding eq by blast
  show "mset (heappush h x) = add_mset x (mset h)"
    unfolding eq by (simp add: mset_siftdown_loop)
qed

lemma heappop_correct:
  assumes "heap_from 0 h" and "h \<noteq> []"
  obtains h' where "heappop h = Inr (h ! 0, h')" "heap_from 0 h'" "mset h = add_mset (h ! 0) (mset h')"
proof (cases "butlast h = []")
  case True
  with assms(2) have "h = [last h]" by (metis append_butlast_last_id append_Nil)
  then obtain x where "h = [x]" by blast
  then show thesis by (intro that) (auto simp: heappop_def heap_from_def)
next
  case False
  let ?b = "butlast h"
  let ?g = "?b[0 := last h]"
  have h: "h = ?b @ [last h]" using assms(2) by simp
  have b0: "?b ! 0 = h ! 0" by (rule nth_butlast) (use False length_greater_0_conv [of ?b] in blast)
  have "heap_from (Suc 0) ?g"
    unfolding heap_from_def
  proof (intro allI impI)
    fix j assume j: "j < length ?g" "0 < j" "Suc 0 \<le> parent j"
    with parent_less [of j] have "parent j < length ?b" by simp
    with j have "?g ! parent j = h ! parent j" "?g ! j = h ! j" by (simp_all add: nth_butlast)
    with j assms(1) show "?g ! parent j \<le> ?g ! j" by (simp add: heap_from_def)
  qed
  moreover have "0 < length ?g" using False by (metis length_greater_0_conv length_list_update)
  ultimately have su: "mset (siftup ?g 0) = mset ?g" "heap_from 0 (siftup ?g 0)"
    using siftup_correct [of 0 ?g] by blast+
  obtain y ys where "?b = y # ys" using False by (cases ?b) auto
  with b0 h have "mset h = add_mset (h ! 0) (mset ?g)"
    by (metis add_mset_commute list_update_code(2) mset.simps(2) mset_append nth_Cons_0
        union_mset_add_mset_right add.right_neutral mset.simps(1))
  with su False assms(2) show thesis
    by (intro that [of "siftup ?g 0"]) (simp_all add: heappop_def b0 Let_def)
qed

lemma heapify_correct: "heap_from 0 (heapify h)" "mset (heapify h) = mset h"
proof -
  have "heap_from 0 (fold (\<lambda>i h. siftup h i) (rev [0..<k]) g)
      \<and> mset (fold (\<lambda>i h. siftup h i) (rev [0..<k]) g) = mset g"
    if "k \<le> length g" "heap_from k g" for k and g :: "'a list"
    using that
  proof (induction k arbitrary: g)
    case (Suc k)
    then have "k < length g" by simp
    note su = siftup_correct [OF this Suc.prems(2)]
    with Suc show ?case by simp
  qed simp
  moreover have "heap_from (length h div 2) h"
    unfolding heap_from_def parent_def by auto
  ultimately show "heap_from 0 (heapify h)" "mset (heapify h) = mset h"
    by (auto simp: heapify_def)
qed

section \<open>The queue classes\<close>

datatype scheduling_policy = FCFS | PRIORITY

text \<open>\<open>FCFSRequestQueue\<close>, a deque: the list from left to right.\<close>

definition fcfs_add_request :: "qreq list \<Rightarrow> qreq \<Rightarrow> qreq list" where
  "fcfs_add_request q request = q @ [request]"

definition fcfs_pop_request :: "qreq list \<Rightarrow> (qreq \<times> qreq list) res" where
  "fcfs_pop_request q = (case q of [] \<Rightarrow> Inl IndexError | r # rs \<Rightarrow> Inr (r, rs))"

definition fcfs_peek_request :: "qreq list \<Rightarrow> qreq res" where
  "fcfs_peek_request q = (if q = [] then Inl IndexError else Inr (q ! 0))"

definition fcfs_prepend_request :: "qreq list \<Rightarrow> qreq \<Rightarrow> qreq list" where
  "fcfs_prepend_request q request = request # q"

text \<open>\<open>deque.extendleft\<close> pushes the elements to the left one at a time.\<close>

definition fcfs_prepend_requests :: "qreq list \<Rightarrow> qreq list \<Rightarrow> qreq list" where
  "fcfs_prepend_requests q requests = fold (\<lambda>r d. r # d) requests q"

definition fcfs_remove_request :: "qreq list \<Rightarrow> qreq \<Rightarrow> qreq list res" where
  "fcfs_remove_request q request =
     (if request \<in> set q then Inr (remove1 request q) else Inl ValueError)"

definition fcfs_remove_requests :: "qreq list \<Rightarrow> qreq set \<Rightarrow> qreq list" where
  "fcfs_remove_requests q requests_to_remove = filter (\<lambda>req. req \<notin> requests_to_remove) q"

text \<open>\<open>PriorityRequestQueue\<close>: the \<open>heapq\<close> list.\<close>

definition pq_add_request :: "qreq list \<Rightarrow> qreq \<Rightarrow> qreq list" where
  "pq_add_request heap request = heappush heap request"

definition pq_pop_request :: "qreq list \<Rightarrow> (qreq \<times> qreq list) res" where
  "pq_pop_request heap = (if heap = [] then Inl IndexError else heappop heap)"

definition pq_peek_request :: "qreq list \<Rightarrow> qreq res" where
  "pq_peek_request heap = (if heap = [] then Inl IndexError else Inr (heap ! 0))"

definition pq_prepend_request :: "qreq list \<Rightarrow> qreq \<Rightarrow> qreq list" where
  "pq_prepend_request heap request = pq_add_request heap request"

definition pq_prepend_requests :: "qreq list \<Rightarrow> qreq list \<Rightarrow> qreq list" where
  "pq_prepend_requests heap requests = fold (\<lambda>r h. pq_add_request h r) requests heap"

definition pq_remove_request :: "qreq list \<Rightarrow> qreq \<Rightarrow> qreq list res" where
  "pq_remove_request heap request =
     (if request \<in> set heap then Inr (heapify (remove1 request heap)) else Inl ValueError)"

definition pq_remove_requests :: "qreq list \<Rightarrow> qreq set \<Rightarrow> qreq list" where
  "pq_remove_requests heap requests_to_remove =
     heapify (filter (\<lambda>r. r \<notin> requests_to_remove) heap)"

text \<open>\<open>__iter__\<close>: pop from a copy until it is empty (one pop per element).\<close>

fun pq_iter_loop :: "nat \<Rightarrow> qreq list \<Rightarrow> qreq list" where
  "pq_iter_loop 0 heap_copy = []"
| "pq_iter_loop (Suc k) heap_copy =
     (case heappop heap_copy of Inl _ \<Rightarrow> [] | Inr (r, rest) \<Rightarrow> r # pq_iter_loop k rest)"

definition pq_iter :: "qreq list \<Rightarrow> qreq list" where
  "pq_iter heap = pq_iter_loop (length heap) heap"

text \<open>The object \<open>create_request_queue\<close> returns, and the dispatch on its class.\<close>

datatype rqueue = FCFSRequestQueue "qreq list" | PriorityRequestQueue "qreq list"

definition create_request_queue :: "scheduling_policy \<Rightarrow> rqueue" where
  "create_request_queue policy =
     (case policy of PRIORITY \<Rightarrow> PriorityRequestQueue [] | FCFS \<Rightarrow> FCFSRequestQueue [])"

fun rq_add :: "rqueue \<Rightarrow> qreq \<Rightarrow> rqueue" where
  "rq_add (FCFSRequestQueue q) r = FCFSRequestQueue (fcfs_add_request q r)"
| "rq_add (PriorityRequestQueue h) r = PriorityRequestQueue (pq_add_request h r)"

fun rq_pop :: "rqueue \<Rightarrow> (qreq \<times> rqueue) res" where
  "rq_pop (FCFSRequestQueue q) = bindE (fcfs_pop_request q) (\<lambda>(r, q'). Inr (r, FCFSRequestQueue q'))"
| "rq_pop (PriorityRequestQueue h) = bindE (pq_pop_request h) (\<lambda>(r, h'). Inr (r, PriorityRequestQueue h'))"

fun rq_peek :: "rqueue \<Rightarrow> qreq res" where
  "rq_peek (FCFSRequestQueue q) = fcfs_peek_request q"
| "rq_peek (PriorityRequestQueue h) = pq_peek_request h"

fun rq_prepend :: "rqueue \<Rightarrow> qreq \<Rightarrow> rqueue" where
  "rq_prepend (FCFSRequestQueue q) r = FCFSRequestQueue (fcfs_prepend_request q r)"
| "rq_prepend (PriorityRequestQueue h) r = PriorityRequestQueue (pq_prepend_request h r)"

text \<open>The other queue is given by the requests in its order of iteration.\<close>

fun rq_prepend_many :: "rqueue \<Rightarrow> qreq list \<Rightarrow> rqueue" where
  "rq_prepend_many (FCFSRequestQueue q) rs = FCFSRequestQueue (fcfs_prepend_requests q rs)"
| "rq_prepend_many (PriorityRequestQueue h) rs = PriorityRequestQueue (pq_prepend_requests h rs)"

fun rq_remove :: "rqueue \<Rightarrow> qreq \<Rightarrow> rqueue res" where
  "rq_remove (FCFSRequestQueue q) r = bindE (fcfs_remove_request q r) (\<lambda>q'. Inr (FCFSRequestQueue q'))"
| "rq_remove (PriorityRequestQueue h) r = bindE (pq_remove_request h r) (\<lambda>h'. Inr (PriorityRequestQueue h'))"

fun rq_remove_many :: "rqueue \<Rightarrow> qreq set \<Rightarrow> rqueue" where
  "rq_remove_many (FCFSRequestQueue q) S = FCFSRequestQueue (fcfs_remove_requests q S)"
| "rq_remove_many (PriorityRequestQueue h) S = PriorityRequestQueue (pq_remove_requests h S)"

fun rq_iter :: "rqueue \<Rightarrow> qreq list" where
  "rq_iter (FCFSRequestQueue q) = q"
| "rq_iter (PriorityRequestQueue h) = pq_iter h"

fun rq_len :: "rqueue \<Rightarrow> nat" where
  "rq_len (FCFSRequestQueue q) = length q"
| "rq_len (PriorityRequestQueue h) = length h"

fun rq_inv :: "rqueue \<Rightarrow> bool" where
  "rq_inv (FCFSRequestQueue q) = True"
| "rq_inv (PriorityRequestQueue h) = heap_from 0 h"

section \<open>Iteration of the priority queue\<close>

lemma pq_iter_loop_sorted:
  "heap_from 0 h \<Longrightarrow> pq_iter_loop (length h) h = sorted_list_of_multiset (mset h)"
proof (induction "length h" arbitrary: h)
  case 0
  then show ?case by simp
next
  case (Suc k)
  then have "h \<noteq> []" by auto
  from heappop_correct [OF Suc.prems this] obtain h' where
    h': "heappop h = Inr (h ! 0, h')" "heap_from 0 h'" "mset h = add_mset (h ! 0) (mset h')" .
  have "length h = Suc (length h')" using arg_cong [OF h'(3), of size] by simp
  with Suc.hyps h' have it: "pq_iter_loop (length h) h = h ! 0 # sorted_list_of_multiset (mset h')"
    by simp
  have "\<forall>x \<in># mset h'. h ! 0 \<le> x"
  proof
    fix x assume "x \<in># mset h'"
    then have "x \<in> set h" using h'(3) by (metis set_mset_mset union_single_eq_member add_mset_commute
          insert_iff set_mset_add_mset_insert)
    then obtain i where "i < length h" "x = h ! i" by (auto simp: in_set_conv_nth)
    with heap_min [OF Suc.prems] show "h ! 0 \<le> x" by simp
  qed
  then have "sorted (h ! 0 # sorted_list_of_multiset (mset h'))" by simp
  moreover have "mset (h ! 0 # sorted_list_of_multiset (mset h')) = mset h" using h'(3) by simp
  ultimately have "sorted_list_of_multiset (mset h) = h ! 0 # sorted_list_of_multiset (mset h')"
    by (metis mset_sorted_list_of_multiset properties_for_sort sorted_list_of_multiset_mset)
  with it show ?case by simp
qed

lemma pq_iter_sorted: "heap_from 0 h \<Longrightarrow> pq_iter h = sorted_list_of_multiset (mset h)"
  by (simp add: pq_iter_def pq_iter_loop_sorted)

lemma pq_iter_sort: "heap_from 0 h \<Longrightarrow> pq_iter h = sort h"
  by (simp add: pq_iter_sorted)

lemma pq_iter_heapify: "pq_iter (heapify h) = sort h"
  using pq_iter_sorted [OF heapify_correct(1)] by (simp add: heapify_correct(2))

lemma pq_prepend_requests_correct:
  assumes "heap_from 0 h"
  shows "heap_from 0 (pq_prepend_requests h rs)" "mset (pq_prepend_requests h rs) = mset rs + mset h"
proof -
  have "heap_from 0 (pq_prepend_requests h rs) \<and> mset (pq_prepend_requests h rs) = mset rs + mset h"
    using assms unfolding pq_prepend_requests_def
    by (induction rs arbitrary: h) (simp_all add: pq_add_request_def heappush_correct)
  then show "heap_from 0 (pq_prepend_requests h rs)" "mset (pq_prepend_requests h rs) = mset rs + mset h" by simp_all
qed

lemma fcfs_prepend_requests_rev: "fcfs_prepend_requests q rs = rev rs @ q"
  unfolding fcfs_prepend_requests_def by (induction rs arbitrary: q) simp_all

section \<open>The contract of a request queue\<close>

text \<open>
  The abstract class \<open>RequestQueue\<close>: \<open>seq\<close> is the order in which the policy iterates, and
  \<open>pop\<close>/\<open>peek\<close> follow it.  The clients' lemma, that draining a queue hands out every waiting
  request exactly once and in that order, is proved from the contract.
\<close>

fun pops :: "('q \<Rightarrow> ('a \<times> 'q) res) \<Rightarrow> nat \<Rightarrow> 'q \<Rightarrow> ('a list \<times> 'q) res" where
  "pops pop 0 q = Inr ([], q)"
| "pops pop (Suc k) q = bindE (pop q) (\<lambda>(r, q'). bindE (pops pop k q') (\<lambda>(rs, q''). Inr (r # rs, q'')))"

locale request_queue =
  fixes inv :: "'q \<Rightarrow> bool"
    and seq :: "'q \<Rightarrow> 'a list"
    and add :: "'q \<Rightarrow> 'a \<Rightarrow> 'q"
    and pop :: "'q \<Rightarrow> ('a \<times> 'q) res"
    and peek :: "'q \<Rightarrow> 'a res"
    and prepend :: "'q \<Rightarrow> 'a \<Rightarrow> 'q"
    and prepend_many :: "'q \<Rightarrow> 'a list \<Rightarrow> 'q"
    and remove_one :: "'q \<Rightarrow> 'a \<Rightarrow> 'q res"
    and remove_many :: "'q \<Rightarrow> 'a set \<Rightarrow> 'q"
    and len :: "'q \<Rightarrow> nat"
  assumes add_ok: "inv q \<Longrightarrow> inv (add q r) \<and> mset (seq (add q r)) = add_mset r (mset (seq q))"
    and prepend_ok: "inv q \<Longrightarrow> inv (prepend q r) \<and> mset (seq (prepend q r)) = add_mset r (mset (seq q))"
    and prepend_many_ok: "inv q \<Longrightarrow> inv (prepend_many q rs) \<and> mset (seq (prepend_many q rs)) = mset rs + mset (seq q)"
    and pop_ok: "inv q \<Longrightarrow> seq q = r # rs \<Longrightarrow> \<exists>q'. pop q = Inr (r, q') \<and> inv q' \<and> seq q' = rs"
    and pop_empty: "inv q \<Longrightarrow> seq q = [] \<Longrightarrow> pop q = Inl IndexError"
    and peek_ok: "inv q \<Longrightarrow> peek q = (case seq q of [] \<Rightarrow> Inl IndexError | r # rs \<Rightarrow> Inr r)"
    and remove_ok: "inv q \<Longrightarrow> r \<in> set (seq q) \<Longrightarrow>
      \<exists>q'. remove_one q r = Inr q' \<and> inv q' \<and> seq q' = remove1 r (seq q)"
    and remove_absent: "inv q \<Longrightarrow> r \<notin> set (seq q) \<Longrightarrow> remove_one q r = Inl ValueError"
    and remove_many_ok: "inv q \<Longrightarrow> inv (remove_many q S) \<and> seq (remove_many q S) = filter (\<lambda>r. r \<notin> S) (seq q)"
    and len_ok: "inv q \<Longrightarrow> len q = length (seq q)"
begin

lemma drain:
  assumes "inv q"
  shows "\<exists>q'. pops pop (len q) q = Inr (seq q, q') \<and> inv q' \<and> seq q' = []"
proof -
  have "\<exists>q'. pops pop (length (seq q)) q = Inr (seq q, q') \<and> inv q' \<and> seq q' = []"
    using assms
  proof (induction "seq q" arbitrary: q)
    case Nil
    then show ?case by (metis list.size(3) pops.simps(1))
  next
    case (Cons r rs)
    from pop_ok [OF Cons.prems Cons.hyps(2) [symmetric]] obtain q' where
      q': "pop q = Inr (r, q')" "inv q'" "seq q' = rs" by blast
    with Cons.hyps(1) [of q'] obtain q'' where
      "pops pop (length rs) q' = Inr (rs, q'')" "inv q''" "seq q'' = []" by auto
    with q' Cons.hyps(2) show ?case by (metis (no_types, lifting) bindE_simps(2) case_prod_conv
          length_Cons pops.simps(2))
  qed
  with len_ok [OF assms] show ?thesis by simp
qed

lemma drain_after_adds:
  assumes "inv q"
  shows "\<exists>out q'. pops pop (len (fold (\<lambda>r q. add q r) rs q)) (fold (\<lambda>r q. add q r) rs q) = Inr (out, q')
     \<and> mset out = mset (seq q) + mset rs"
proof -
  have "inv (fold (\<lambda>r q. add q r) rs q)
      \<and> mset (seq (fold (\<lambda>r q. add q r) rs q)) = mset (seq q) + mset rs"
    using assms
  proof (induction rs arbitrary: q)
    case (Cons r rs)
    with Cons.IH [of "add q r"] add_ok [of q r] show ?case by simp
  qed simp
  with drain [of "fold (\<lambda>r q. add q r) rs q"] show ?thesis by auto
qed

end

lemma remove1_sort: "remove1 x (sort xs) = sort (remove1 x (xs :: 'a::linorder list))"
  by (metis mset_remove1 mset_sort properties_for_sort sort_key_stable sorted_remove1 sorted_sort)

lemma sort_Nil_iff: "sort xs = [] \<longleftrightarrow> xs = []"
  by (metis length_0_conv length_sort)

interpretation rq: request_queue rq_inv rq_iter rq_add rq_pop rq_peek rq_prepend rq_prepend_many rq_remove rq_remove_many rq_len
proof unfold_locales
  fix q r rs S
  assume inv: "rq_inv q"
  show "rq_inv (rq_add q r) \<and> mset (rq_iter (rq_add q r)) = add_mset r (mset (rq_iter q))"
    "rq_inv (rq_prepend q r) \<and> mset (rq_iter (rq_prepend q r)) = add_mset r (mset (rq_iter q))"
    using inv by (cases q; simp add: fcfs_add_request_def fcfs_prepend_request_def
        pq_prepend_request_def pq_add_request_def heappush_correct pq_iter_sorted)+
  show "rq_inv (rq_prepend_many q rs) \<and> mset (rq_iter (rq_prepend_many q rs)) = mset rs + mset (rq_iter q)"
    using inv by (cases q) (simp_all add: fcfs_prepend_requests_rev pq_prepend_requests_correct pq_iter_sorted)
  show "rq_inv (rq_remove_many q S) \<and> rq_iter (rq_remove_many q S) = filter (\<lambda>r. r \<notin> S) (rq_iter q)"
    using inv by (cases q) (simp_all add: fcfs_remove_requests_def pq_remove_requests_def
        heapify_correct pq_iter_heapify pq_iter_sort filter_sort)
  show "rq_len q = length (rq_iter q)"
    using inv by (cases q) (simp_all add: pq_iter_sort)
  show "r \<in> set (rq_iter q) \<Longrightarrow>
      \<exists>q'. rq_remove q r = Inr q' \<and> rq_inv q' \<and> rq_iter q' = remove1 r (rq_iter q)"
    using inv by (cases q) (simp_all add: fcfs_remove_request_def pq_remove_request_def
        heapify_correct pq_iter_heapify pq_iter_sort remove1_sort)
  show "r \<notin> set (rq_iter q) \<Longrightarrow> rq_remove q r = Inl ValueError"
    using inv by (cases q) (simp_all add: fcfs_remove_request_def pq_remove_request_def pq_iter_sort)
  show "rq_iter q = [] \<Longrightarrow> rq_pop q = Inl IndexError"
    using inv by (cases q) (simp_all add: fcfs_pop_request_def pq_pop_request_def pq_iter_sort sort_Nil_iff)
  show "rq_iter q = r # rs \<Longrightarrow> \<exists>q'. rq_pop q = Inr (r, q') \<and> rq_inv q' \<and> rq_iter q' = rs"
  proof (cases q)
    case (PriorityRequestQueue h)
    assume it: "rq_iter q = r # rs"
    with inv PriorityRequestQueue have h: "heap_from 0 h" "sort h = r # rs" by (simp_all add: pq_iter_sort)
    then have "h \<noteq> []" by auto
    from heappop_correct [OF h(1) this] obtain h' where
      h': "heappop h = Inr (h ! 0, h')" "heap_from 0 h'" "mset h = add_mset (h ! 0) (mset h')" .
    have "length h = Suc (length h')" using arg_cong [OF h'(3), of size] by simp
    then have "pq_iter h = h ! 0 # pq_iter h'" by (simp add: pq_iter_def h'(1))
    with h h' \<open>h \<noteq> []\<close> PriorityRequestQueue it show ?thesis by (auto simp: pq_pop_request_def)
  qed (auto simp: fcfs_pop_request_def)
  show "rq_peek q = (case rq_iter q of [] \<Rightarrow> Inl IndexError | r # rs \<Rightarrow> Inr r)"
  proof (cases q)
    case (PriorityRequestQueue h)
    show ?thesis
    proof (cases "h = []")
      case False
      from inv PriorityRequestQueue have "heap_from 0 h" by simp
      from heappop_correct [OF this False] obtain h' where
        h': "heappop h = Inr (h ! 0, h')" "mset h = add_mset (h ! 0) (mset h')" .
      have "length h = Suc (length h')" using arg_cong [OF h'(2), of size] by simp
      with False h' PriorityRequestQueue show ?thesis by (simp add: pq_iter_def pq_peek_request_def)
    qed (simp add: PriorityRequestQueue pq_iter_def pq_peek_request_def)
  qed (auto simp: fcfs_peek_request_def split: list.split)
qed

section \<open>Histories of a queue\<close>

text \<open>
  \<open>rq_run policy q rs\<close>: some sequence of operations on a queue created for \<open>policy\<close> ends in
  \<open>q\<close>, and \<open>rs\<close> lists the requests added and not yet removed as they arrived: an addition goes to
  the end, a re-insertion to the front.  The keys of a request do not change while it is queued.
\<close>

inductive rq_run :: "scheduling_policy \<Rightarrow> rqueue \<Rightarrow> qreq list \<Rightarrow> bool" where
  run_create: "rq_run policy (create_request_queue policy) []"
| run_add: "rq_run policy q rs \<Longrightarrow> rq_run policy (rq_add q r) (rs @ [r])"
| run_prepend: "rq_run policy q rs \<Longrightarrow> rq_run policy (rq_prepend q r) (r # rs)"
| run_prepend_many: "rq_run policy q rs \<Longrightarrow> rq_run policy (rq_prepend_many q ps) (rev ps @ rs)"
| run_pop: "rq_run policy q rs \<Longrightarrow> rq_pop q = Inr (r, q') \<Longrightarrow> rq_run policy q' (remove1 r rs)"
| run_remove: "rq_run policy q rs \<Longrightarrow> rq_remove q r = Inr q' \<Longrightarrow> rq_run policy q' (remove1 r rs)"
| run_remove_many: "rq_run policy q rs \<Longrightarrow> rq_run policy (rq_remove_many q S) (filter (\<lambda>r. r \<notin> S) rs)"

text \<open>The order in which a policy serves them.\<close>

definition service_order :: "scheduling_policy \<Rightarrow> qreq list \<Rightarrow> qreq list" where
  "service_order policy rs = (case policy of FCFS \<Rightarrow> rs | PRIORITY \<Rightarrow> sort rs)"

definition rq_policy_of :: "scheduling_policy \<Rightarrow> rqueue \<Rightarrow> bool" where
  "rq_policy_of policy q = (case q of FCFSRequestQueue _ \<Rightarrow> policy = FCFS | PriorityRequestQueue _ \<Rightarrow> policy = PRIORITY)"

lemma rq_policy_step:
  "rq_policy_of policy (rq_add q r) = rq_policy_of policy q"
  "rq_policy_of policy (rq_prepend q r) = rq_policy_of policy q"
  "rq_policy_of policy (rq_prepend_many q rs) = rq_policy_of policy q"
  "rq_policy_of policy (rq_remove_many q S) = rq_policy_of policy q"
  "rq_pop q = Inr (r, q') \<Longrightarrow> rq_policy_of policy q' = rq_policy_of policy q"
  "rq_remove q r = Inr q' \<Longrightarrow> rq_policy_of policy q' = rq_policy_of policy q"
  by (cases q; auto simp: rq_policy_of_def bindE_eq_Inr)+

text \<open>A priority queue is in service order as soon as it holds the right requests.\<close>

lemma priority_order:
  assumes "rq_inv q" "rq_policy_of PRIORITY q" "mset (rq_iter q) = mset rs"
  shows "rq_iter q = service_order PRIORITY rs"
proof -
  have "sorted (rq_iter q)" using assms(1,2) by (cases q) (simp_all add: rq_policy_of_def pq_iter_sort)
  then show ?thesis using assms(3) by (simp add: service_order_def properties_for_sort)
qed

lemma service_order_mset: "mset (service_order policy rs) = mset rs"
  by (cases policy) (simp_all add: service_order_def)

lemma rq_run_inv:
  "rq_run policy q rs \<Longrightarrow> rq_inv q \<and> rq_policy_of policy q \<and> rq_iter q = service_order policy rs"
proof (induction rule: rq_run.induct)
  case (run_create policy)
  then show ?case
    by (cases policy) (simp_all add: create_request_queue_def rq_policy_of_def heap_from_def pq_iter_def service_order_def)
next
  case (run_add policy q rs r)
  show ?case
  proof (cases policy)
    case FCFS
    then show ?thesis using run_add.IH by (cases q) (simp_all add: rq_policy_of_def service_order_def fcfs_add_request_def)
  next
    case PRIORITY
    with run_add.IH rq.add_ok [of q r] show ?thesis
      by (intro conjI) (simp_all add: rq_policy_step priority_order service_order_mset)
  qed
next
  case (run_prepend policy q rs r)
  show ?case
  proof (cases policy)
    case FCFS
    then show ?thesis using run_prepend.IH by (cases q) (simp_all add: rq_policy_of_def service_order_def fcfs_prepend_request_def)
  next
    case PRIORITY
    with run_prepend.IH rq.prepend_ok [of q r] show ?thesis
      by (intro conjI) (simp_all add: rq_policy_step priority_order service_order_mset)
  qed
next
  case (run_prepend_many policy q rs ps)
  show ?case
  proof (cases policy)
    case FCFS
    then show ?thesis using run_prepend_many.IH by (cases q) (simp_all add: rq_policy_of_def service_order_def fcfs_prepend_requests_rev)
  next
    case PRIORITY
    with run_prepend_many.IH rq.prepend_many_ok [of q ps] show ?thesis
      by (intro conjI) (simp_all add: rq_policy_step priority_order service_order_mset)
  qed
next
  case (run_pop policy q rs r q')
  then have "rq_iter q \<noteq> []" using rq.pop_empty [of q] by auto
  then obtain x xs where seq: "rq_iter q = x # xs" by (cases "rq_iter q") blast+
  with rq.pop_ok [OF _ seq] run_pop have q': "rq_inv q'" "rq_policy_of policy q'" "rq_iter q' = xs" "x = r" by (auto simp: rq_policy_step(5))
  have "service_order policy (remove1 r rs) = remove1 r (service_order policy rs)"
    by (cases policy) (simp_all add: service_order_def remove1_sort)
  with q' seq run_pop show ?case by simp
next
  case (run_remove policy q rs r q')
  then have "r \<in> set (rq_iter q)" using rq.remove_absent [of q r] by auto
  moreover have "service_order policy (remove1 r rs) = remove1 r (service_order policy rs)"
    by (cases policy) (simp_all add: service_order_def remove1_sort)
  ultimately show ?case using rq.remove_ok [of q r] run_remove by (auto simp: rq_policy_step(6))
next
  case (run_remove_many policy q rs S)
  have "service_order policy (filter (\<lambda>r. r \<notin> S) rs) = filter (\<lambda>r. r \<notin> S) (service_order policy rs)"
    by (cases policy) (simp_all add: service_order_def filter_sort)
  with run_remove_many rq.remove_many_ok [of q S] show ?case by (simp add: rq_policy_step)
qed

section \<open>Properties\<close>

text \<open>
  C40. No waiting request is lost, duplicated or reordered against the policy.  After any
  sequence of additions, re-insertions of one or several requests, removals and pops, draining
  the queue succeeds, empties it and hands out exactly the requests added and not removed: under
  FCFS in the order of arrival, re-inserted ones first; under the priority policy in the order of
  \<open>Request.__lt__\<close> (priority, then arrival time, then request id).  Requests are values here: the
  key of a request does not change while it is queued.
\<close>

theorem queue_drain_complete:
  assumes "rq_run policy q rs"
  shows "\<exists>q'. pops rq_pop (rq_len q) q = Inr (case policy of FCFS \<Rightarrow> rs | PRIORITY \<Rightarrow> sort rs, q') \<and> rq_iter q' = []"
  using rq_run_inv [OF assms] rq.drain [of q] by (auto simp: service_order_def)

lemma rq_run_len: "rq_run policy q rs \<Longrightarrow> rq_len q = length rs"
  using rq_run_inv [of policy q rs] rq.len_ok [of q] arg_cong [OF service_order_mset [of policy rs], of size] by auto

theorem queue_drain_complete_witness:
  "(\<exists>q'. pops rq_pop 2 (rq_add (rq_add (create_request_queue PRIORITY) (QReq 5 0 ''a'' 0)) (QReq 1 3 ''b'' 1))
      = Inr (sort [QReq 5 0 ''a'' 0, QReq 1 3 ''b'' 1], q') \<and> rq_iter q' = [])
   \<and> (\<exists>q'. pops rq_pop 3 (rq_prepend (rq_add (rq_add (create_request_queue FCFS) (QReq 5 0 ''a'' 0)) (QReq 1 3 ''b'' 1)) (QReq 7 7 ''c'' 2))
      = Inr ([QReq 7 7 ''c'' 2, QReq 5 0 ''a'' 0, QReq 1 3 ''b'' 1], q') \<and> rq_iter q' = [])"
proof -
  let ?q = "\<lambda>policy. rq_add (rq_add (create_request_queue policy) (QReq 5 0 ''a'' 0)) (QReq 1 3 ''b'' 1)"
  have run: "rq_run policy (?q policy) [QReq 5 0 ''a'' 0, QReq 1 3 ''b'' 1]" for policy
    using run_add [OF run_add [OF run_create]] by force
  note run' = run_prepend [OF run [of FCFS], of "QReq 7 7 ''c'' 2"]
  show ?thesis
    using queue_drain_complete [OF run [of PRIORITY]] queue_drain_complete [OF run'] rq_run_len [OF run [of PRIORITY]] rq_run_len [OF run']
    by (simp add: eval_nat_numeral)
qed

text \<open>
  First come, first served: requests added to an empty FCFS queue are handed out in the
  order of arrival, a request put back with \<open>prepend_request\<close> (a preempted one) comes before
  all of them, and \<open>prepend_requests\<close> puts its argument in front in reverse order.
\<close>

theorem fcfs_order:
  "pops fcfs_pop_request (Suc (length rs))
     (fcfs_prepend_request (fold (\<lambda>r q. fcfs_add_request q r) rs []) p) = Inr (p # rs, [])
   \<and> fcfs_prepend_requests q ps = rev ps @ q"
proof -
  have fold: "fold (\<lambda>r q. fcfs_add_request q r) rs q = q @ rs" for q
    by (induction rs arbitrary: q) (auto simp: fcfs_add_request_def)
  have pops: "pops fcfs_pop_request (length xs) xs = Inr (xs, [])" for xs
    by (induction xs) (auto simp: fcfs_pop_request_def)
  with pops [of "p # rs"] show ?thesis by (simp add: fold fcfs_prepend_request_def fcfs_prepend_requests_rev)
qed

end
