(* ===== verification/Free_Queue.thy ===== *)
theory Free_Queue
  imports Prelude
begin

text \<open>
  \<^verbatim>\<open>FreeKVCacheBlockQueue\<close> of \<^verbatim>\<open>vllm/v1/core/kv_cache_utils.py\<close>: the doubly linked list of
  free KV-cache blocks.  The links live in the \<open>prev_free_block\<close>/\<open>next_free_block\<close> attributes
  of the block objects; only this class writes them, so the queue's state carries one store per
  attribute (address to address), beside the counter \<open>num_free_blocks\<close>.  A block object is
  addressed by \<open>Blk i\<close>, the two sentinels by \<open>FakeHead\<close> and \<open>FakeTail\<close>.

  The invariant \<open>fq_inv q xs\<close> says that the queue represents the list \<open>xs\<close>; the locale
  \<open>free_block_queue\<close> states the queue's contract over that abstraction and is interpreted by
  the linked list.
\<close>

section \<open>Operations\<close>

datatype bref = FakeHead | FakeTail | Blk nat

record freeq =
  num_free_blocks :: int
  next_free_block :: "bref \<Rightarrow> bref option"
  prev_free_block :: "bref \<Rightarrow> bref option"

definition set_next :: "bref \<Rightarrow> bref option \<Rightarrow> freeq \<Rightarrow> freeq" where
  "set_next r v q = q\<lparr>next_free_block := (next_free_block q)(r := v)\<rparr>"

definition set_prev :: "bref \<Rightarrow> bref option \<Rightarrow> freeq \<Rightarrow> freeq" where
  "set_prev r v q = q\<lparr>prev_free_block := (prev_free_block q)(r := v)\<rparr>"

definition add_num_free :: "int \<Rightarrow> freeq \<Rightarrow> freeq" where
  "add_num_free d q = q\<lparr>num_free_blocks := num_free_blocks q + d\<rparr>"

text \<open>The constructor: the loop over the indices, then the sentinels.\<close>

definition init_link_step :: "bref list \<Rightarrow> nat \<Rightarrow> freeq \<Rightarrow> freeq" where
  "init_link_step blocks i q =
     (let q1 = (if 0 < i then set_prev (blocks ! i) (Some (blocks ! (i - 1))) q else q)
      in if i < length blocks - 1 then set_next (blocks ! i) (Some (blocks ! (i + 1))) q1
         else q1)"

definition freeq_init :: "bref list \<Rightarrow> freeq" where
  "freeq_init blocks =
     (let q0 = \<lparr>num_free_blocks = int (length blocks),
                next_free_block = (\<lambda>_. None), prev_free_block = (\<lambda>_. None)\<rparr>;
          q1 = fold (init_link_step blocks) [0..<length blocks] q0
      in if 0 < length blocks
         then set_next (last blocks) (Some FakeTail)
                (set_prev FakeTail (Some (last blocks))
                  (set_prev (hd blocks) (Some FakeHead)
                    (set_next FakeHead (Some (hd blocks)) q1)))
         else set_prev FakeTail (Some FakeHead) (set_next FakeHead (Some FakeTail) q1))"

definition popleft :: "freeq \<Rightarrow> (bref \<times> freeq) res" where
  "popleft q =
     (case next_free_block q FakeHead of
        None \<Rightarrow> bindE (py_assert (num_free_blocks q = 0)) (\<lambda>_. Inl ValueError)
      | Some first_block \<Rightarrow>
          if first_block = FakeTail
          then bindE (py_assert (num_free_blocks q = 0)) (\<lambda>_. Inl ValueError)
          else (case next_free_block q first_block of
                  None \<Rightarrow> Inl RuntimeError
                | Some nxt \<Rightarrow>
                    Inr (first_block,
                      add_num_free (- 1)
                        (set_next first_block None (set_prev first_block None
                          (set_prev nxt (Some FakeHead) (set_next FakeHead (Some nxt) q)))))))"

fun popleft_n_loop ::
    "nat \<Rightarrow> bref option \<Rightarrow> bref list \<Rightarrow> freeq \<Rightarrow> (bref list \<times> bref option \<times> freeq) res" where
  "popleft_n_loop 0 cur ret q = Inr (ret, cur, q)"
| "popleft_n_loop (Suc k) None ret q = Inl AssertionError"
| "popleft_n_loop (Suc k) (Some c) ret q =
     popleft_n_loop k (next_free_block q c) (ret @ [c]) (set_next c None (set_prev c None q))"

definition popleft_n :: "int \<Rightarrow> freeq \<Rightarrow> (bref list \<times> freeq) res" where
  "popleft_n n q =
     (if n = 0 then Inr ([], q)
      else bindE (py_assert (n \<le> num_free_blocks q)) (\<lambda>_.
           let q1 = add_num_free (- n) q in
           bindE (popleft_n_loop (nat n) (next_free_block q1 FakeHead) [] q1) (\<lambda>(ret, cur, q2).
             case cur of
               None \<Rightarrow> Inr (ret, q2)
             | Some c \<Rightarrow> Inr (ret, set_prev c (Some FakeHead) (set_next FakeHead (Some c) q2)))))"

definition remove_fq :: "bref \<Rightarrow> freeq \<Rightarrow> freeq res" where
  "remove_fq block q =
     (case (prev_free_block q block, next_free_block q block) of
        (Some p, Some n) \<Rightarrow>
          Inr (add_num_free (- 1)
                (set_next block None (set_prev block None
                  (set_prev n (Some p) (set_next p (Some n) q)))))
      | _ \<Rightarrow> Inl RuntimeError)"

definition append_fq :: "bref \<Rightarrow> freeq \<Rightarrow> freeq res" where
  "append_fq block q =
     (case prev_free_block q FakeTail of
        None \<Rightarrow> Inl RuntimeError
      | Some last_block \<Rightarrow>
          Inr (add_num_free 1
                (set_prev FakeTail (Some block) (set_next block (Some FakeTail)
                  (set_prev block (Some last_block) (set_next last_block (Some block) q))))))"

text \<open>The loop shared by \<open>prepend_n\<close> and \<open>append_n\<close>: link the blocks one after the other.\<close>

fun link_loop :: "bref list \<Rightarrow> bref \<Rightarrow> freeq \<Rightarrow> bref \<times> freeq" where
  "link_loop [] prev_block q = (prev_block, q)"
| "link_loop (block # blocks) prev_block q =
     link_loop blocks block (set_next prev_block (Some block) (set_prev block (Some prev_block) q))"

definition prepend_n :: "bref list \<Rightarrow> freeq \<Rightarrow> freeq res" where
  "prepend_n blocks q =
     (if length blocks = 0 then Inr q
      else case next_free_block q FakeHead of
        None \<Rightarrow> Inl AssertionError
      | Some first_block \<Rightarrow>
          (let (prev_block, q1) = link_loop blocks FakeHead q
           in Inr (add_num_free (int (length blocks))
                (set_prev first_block (Some prev_block)
                  (set_next prev_block (Some first_block) q1)))))"

definition append_n :: "bref list \<Rightarrow> freeq \<Rightarrow> freeq res" where
  "append_n blocks q =
     (if length blocks = 0 then Inr q
      else case prev_free_block q FakeTail of
        None \<Rightarrow> Inl AssertionError
      | Some last_block \<Rightarrow>
          (let (last_block', q1) = link_loop blocks last_block q
           in Inr (add_num_free (int (length blocks))
                (set_prev FakeTail (Some last_block')
                  (set_next last_block' (Some FakeTail) q1)))))"

text \<open>
  The two traversals.  Whether they end depends on the links, so the loops are partial:
  \<open>None\<close> is a loop that never leaves the list.
\<close>

partial_function (option) all_free_loop :: "freeq \<Rightarrow> bref \<Rightarrow> bref list \<Rightarrow> bref list option" where
  "all_free_loop q curr_block ret =
     (case next_free_block q curr_block of
        None \<Rightarrow> Some ret
      | Some nxt \<Rightarrow> all_free_loop q nxt (ret @ [curr_block]))"

definition get_all_free_blocks :: "freeq \<Rightarrow> bref list res option" where
  "get_all_free_blocks q =
     (case next_free_block q FakeHead of
        None \<Rightarrow> Some (Inl RuntimeError)
      | Some curr_block \<Rightarrow> map_option Inr (all_free_loop q curr_block []))"

partial_function (option) iter_loop :: "freeq \<Rightarrow> bref option \<Rightarrow> bref list \<Rightarrow> bref list option" where
  "iter_loop q curr_block ret =
     (case curr_block of
        None \<Rightarrow> Some ret
      | Some c \<Rightarrow>
          if c = FakeTail then Some ret
          else iter_loop q (next_free_block q c) (ret @ [c]))"

definition iter_blocks_after :: "bref option \<Rightarrow> freeq \<Rightarrow> bref list option" where
  "iter_blocks_after cursor q =
     iter_loop q (case cursor of None \<Rightarrow> next_free_block q FakeHead
                  | Some c \<Rightarrow> next_free_block q c) []"

section \<open>Chains of links\<close>

lemma link_simps [simp]:
  "next_free_block (set_next r v q) = (next_free_block q)(r := v)"
  "prev_free_block (set_next r v q) = prev_free_block q"
  "num_free_blocks (set_next r v q) = num_free_blocks q"
  "next_free_block (set_prev r v q) = next_free_block q"
  "prev_free_block (set_prev r v q) = (prev_free_block q)(r := v)"
  "num_free_blocks (set_prev r v q) = num_free_blocks q"
  "next_free_block (add_num_free d q) = next_free_block q"
  "prev_free_block (add_num_free d q) = prev_free_block q"
  "num_free_blocks (add_num_free d q) = num_free_blocks q + d"
  by (simp_all add: set_next_def set_prev_def add_num_free_def)

text \<open>\<open>chain q L\<close>: neighbours in \<open>L\<close> point at each other.\<close>

fun chain :: "freeq \<Rightarrow> bref list \<Rightarrow> bool" where
  "chain q [] = True"
| "chain q [x] = True"
| "chain q (x # y # zs) \<longleftrightarrow>
     next_free_block q x = Some y \<and> prev_free_block q y = Some x \<and> chain q (y # zs)"

lemma chain_append:
  "chain q (xs @ ys) \<longleftrightarrow> chain q xs \<and> chain q ys \<and>
     (xs \<noteq> [] \<longrightarrow> ys \<noteq> [] \<longrightarrow>
       next_free_block q (last xs) = Some (hd ys) \<and> prev_free_block q (hd ys) = Some (last xs))"
proof (induction q xs rule: chain.induct)
  case (2 q x)
  then show ?case by (cases ys) auto
qed auto

lemma chain_cong:
  "(\<And>r. r \<in> set (butlast L) \<Longrightarrow> next_free_block q r = next_free_block q' r) \<Longrightarrow>
   (\<And>r. r \<in> set (tl L) \<Longrightarrow> prev_free_block q r = prev_free_block q' r) \<Longrightarrow>
   chain q L = chain q' L"
proof (induction q L rule: chain.induct)
  case (3 q x y zs)
  have "chain q (y # zs) = chain q' (y # zs)"
    by (rule 3) (use "3.prems" in auto)
  with 3 show ?case by auto
qed auto

lemma chain_set_next [simp]: "r \<notin> set (butlast L) \<Longrightarrow> chain (set_next r v q) L = chain q L"
  by (rule chain_cong) auto

lemma chain_set_prev [simp]: "r \<notin> set (tl L) \<Longrightarrow> chain (set_prev r v q) L = chain q L"
  by (rule chain_cong) auto

lemma chain_add_num_free [simp]: "chain (add_num_free d q) L = chain q L"
  by (rule chain_cong) auto

lemma chain_next: "chain q (xs @ x # y # ys) \<Longrightarrow> next_free_block q x = Some y"
  by (simp add: chain_append)

lemma chain_prev: "chain q (xs @ x # y # ys) \<Longrightarrow> prev_free_block q y = Some x"
  by (simp add: chain_append)

lemma link_loop_result:
  assumes "link_loop bs p q = (p', q')" and "distinct (p # bs)"
  shows "p' = last (p # bs)" and "chain q' (p # bs)"
    and "num_free_blocks q' = num_free_blocks q"
    and "\<And>r. r \<notin> set (butlast (p # bs)) \<Longrightarrow> next_free_block q' r = next_free_block q r"
    and "\<And>r. r \<notin> set bs \<Longrightarrow> prev_free_block q' r = prev_free_block q r"
proof -
  have "p' = last (p # bs) \<and> chain q' (p # bs) \<and> num_free_blocks q' = num_free_blocks q
      \<and> (\<forall>r. r \<notin> set (butlast (p # bs)) \<longrightarrow> next_free_block q' r = next_free_block q r)
      \<and> (\<forall>r. r \<notin> set bs \<longrightarrow> prev_free_block q' r = prev_free_block q r)"
    using assms
  proof (induction bs arbitrary: p q)
    case Nil
    then show ?case by simp
  next
    case (Cons b bs)
    let ?q = "set_next p (Some b) (set_prev b (Some p) q)"
    from Cons.prems have "link_loop bs b ?q = (p', q')" "distinct (b # bs)" by auto
    note IH = Cons.IH [OF this]
    have "p \<notin> set (butlast (b # bs))" "b \<notin> set bs"
      using Cons.prems(2) in_set_butlastD [of p "b # bs"] by auto
    with IH have "next_free_block q' p = Some b" "prev_free_block q' b = Some p"
      by auto
    with IH show ?case by auto
  qed
  then show "p' = last (p # bs)" "chain q' (p # bs)" "num_free_blocks q' = num_free_blocks q"
    "\<And>r. r \<notin> set (butlast (p # bs)) \<Longrightarrow> next_free_block q' r = next_free_block q r"
    "\<And>r. r \<notin> set bs \<Longrightarrow> prev_free_block q' r = prev_free_block q r"
    by blast+
qed

text \<open>
  Re-linking: two chains of \<open>q\<close> become one chain of \<open>q'\<close> when \<open>q'\<close> keeps their inner links
  and joins their ends.
\<close>

lemma set_butlast_distinct: "distinct A \<Longrightarrow> A \<noteq> [] \<Longrightarrow> set (butlast A) = set A - {last A}"
  by (cases A rule: rev_cases) auto

lemma set_tl_distinct: "distinct A \<Longrightarrow> A \<noteq> [] \<Longrightarrow> set (tl A) = set A - {hd A}"
  by (cases A) auto

lemma chain_frame:
  assumes "distinct L" "L \<noteq> []"
    and "\<And>r. r \<in> set L \<Longrightarrow> r \<noteq> last L \<Longrightarrow> next_free_block q' r = next_free_block q r"
    and "\<And>r. r \<in> set L \<Longrightarrow> r \<noteq> hd L \<Longrightarrow> prev_free_block q' r = prev_free_block q r"
  shows "chain q' L = chain q L"
  by (rule chain_cong) (simp_all add: assms set_butlast_distinct set_tl_distinct)

lemma chain_join:
  assumes "chain q A" "chain q B" "A \<noteq> []" "B \<noteq> []" "distinct (A @ B)"
    and "\<And>r. r \<in> set A - {last A} \<union> (set B - {last B}) \<Longrightarrow> next_free_block q' r = next_free_block q r"
    and "\<And>r. r \<in> set A - {hd A} \<union> (set B - {hd B}) \<Longrightarrow> prev_free_block q' r = prev_free_block q r"
    and "next_free_block q' (last A) = Some (hd B)" "prev_free_block q' (hd B) = Some (last A)"
  shows "chain q' (A @ B)"
proof -
  have "chain q' A = chain q A" "chain q' B = chain q B"
    by (rule chain_frame; use assms(3-7) in simp)+
  with assms(1,2,8,9) show ?thesis by (simp add: chain_append)
qed

section \<open>The invariant\<close>

text \<open>
  The queue represents \<open>xs\<close>: the links run from the head sentinel through \<open>xs\<close> to the tail
  sentinel and back, the counter is the length, and a block outside has no links (which is how
  \<open>remove\<close> recognises it).
\<close>

definition real_block :: "bref \<Rightarrow> bool" where
  "real_block r \<longleftrightarrow> r \<noteq> FakeHead \<and> r \<noteq> FakeTail"

lemma real_block_simps [simp]:
  "real_block (Blk i)" "\<not> real_block FakeHead" "\<not> real_block FakeTail"
  by (simp_all add: real_block_def)

definition fq_inv :: "freeq \<Rightarrow> bref list \<Rightarrow> bool" where
  "fq_inv q xs \<longleftrightarrow>
     chain q (FakeHead # xs @ [FakeTail]) \<and> distinct xs \<and> (\<forall>x \<in> set xs. real_block x)
     \<and> num_free_blocks q = int (length xs)
     \<and> prev_free_block q FakeHead = None \<and> next_free_block q FakeTail = None
     \<and> (\<forall>r. real_block r \<longrightarrow> r \<notin> set xs \<longrightarrow>
            next_free_block q r = None \<and> prev_free_block q r = None)"

lemma fq_inv_distinct: "fq_inv q xs \<Longrightarrow> distinct (FakeHead # xs @ [FakeTail])"
  by (auto simp: fq_inv_def real_block_def)

lemma fq_inv_len: "fq_inv q xs \<Longrightarrow> num_free_blocks q = int (length xs)"
  by (simp add: fq_inv_def)

lemma fq_inv_real: "fq_inv q xs \<Longrightarrow> x \<in> set xs \<Longrightarrow> real_block x"
  by (simp add: fq_inv_def)

lemma fq_inv_head: "fq_inv q xs \<Longrightarrow> next_free_block q FakeHead = Some (hd (xs @ [FakeTail]))"
  by (cases xs) (auto simp: fq_inv_def)

lemma fq_inv_tail: "fq_inv q xs \<Longrightarrow> prev_free_block q FakeTail = Some (last (FakeHead # xs))"
  using chain_append [of q "FakeHead # xs" "[FakeTail]"] by (simp add: fq_inv_def)

lemma fq_inv_unique: "fq_inv q xs \<Longrightarrow> fq_inv q ys \<Longrightarrow> xs = ys"
proof -
  have aux: "xs = ys" if "chain q (r # xs @ [FakeTail])" "chain q (r # ys @ [FakeTail])"
    "FakeTail \<notin> set xs" "FakeTail \<notin> set ys" for r xs ys
    using that
  proof (induction xs arbitrary: r ys)
    case Nil
    then show ?case by (cases ys) auto
  next
    case (Cons x xs)
    then obtain zs where "ys = x # zs" by (cases ys) auto
    with Cons show ?case by auto
  qed
  assume xs: "fq_inv q xs" and ys: "fq_inv q ys"
  have "FakeTail \<notin> set xs" "FakeTail \<notin> set ys"
    using fq_inv_distinct [OF xs] fq_inv_distinct [OF ys] by auto
  then show ?thesis using aux [of FakeHead xs ys] xs ys unfolding fq_inv_def by blast
qed

section \<open>Every operation implements its list counterpart\<close>

text \<open>
  How the invariant is re-established: \<open>q'\<close> has the chain, and every real block outside the new
  list has lost its links.
\<close>

lemma fq_invI:
  assumes "chain q' (FakeHead # ys @ [FakeTail])" "distinct (FakeHead # ys @ [FakeTail])"
    "num_free_blocks q' = int (length ys)"
    "prev_free_block q' FakeHead = None" "next_free_block q' FakeTail = None"
    "\<And>r. real_block r \<Longrightarrow> r \<notin> set ys \<Longrightarrow> next_free_block q' r = None \<and> prev_free_block q' r = None"
  shows "fq_inv q' ys"
  using assms by (auto simp: fq_inv_def real_block_def)

lemma fq_remove:
  assumes "fq_inv q (as @ x # bs)"
  shows "\<exists>q'. remove_fq x q = Inr q' \<and> fq_inv q' (as @ bs)"
proof -
  let ?A = "FakeHead # as" and ?B = "bs @ [FakeTail]"
  let ?p = "last ?A" and ?n = "hd ?B"
  let ?q = "add_num_free (- 1) (set_next x None (set_prev x None
              (set_prev ?n (Some ?p) (set_next ?p (Some ?n) q))))"
  note d = fq_inv_distinct [OF assms]
  from assms have "chain q (?A @ ([x] @ ?B))" by (simp add: fq_inv_def)
  then have c: "chain q ?A" "chain q ?B" and p: "prev_free_block q x = Some ?p"
    and n: "next_free_block q x = Some ?n"
    unfolding chain_append by simp_all
  have "remove_fq x q = Inr ?q" by (simp add: remove_fq_def p n)
  moreover have dAB: "distinct (?A @ ?B)" using d by auto
  have px: "?p \<in> set ?A" by (rule last_in_set) simp
  have nx: "?n \<in> set ?B" by (rule hd_in_set) simp
  have ne: "?p \<noteq> x" "?n \<noteq> x" "?p \<noteq> ?n" "?p \<noteq> FakeTail" "?n \<noteq> FakeHead"
    using px nx d dAB by auto
  have "chain ?q (?A @ ?B)"
    by (rule chain_join [OF c _ _ dAB]) (use ne d px nx in auto)
  then have "fq_inv ?q (as @ bs)"
  proof (intro fq_invI)
    fix r assume r: "real_block r" "r \<notin> set (as @ bs)"
    then have "r \<noteq> ?p" "r \<noteq> ?n" using px nx by auto
    with r assms show "next_free_block ?q r = None \<and> prev_free_block ?q r = None"
      by (auto simp: fq_inv_def)
  qed (use assms d ne in \<open>auto simp: fq_inv_def\<close>)
  ultimately show ?thesis by blast
qed

lemma fq_remove_outside: "fq_inv q xs \<Longrightarrow> real_block x \<Longrightarrow> x \<notin> set xs \<Longrightarrow> remove_fq x q = Inl RuntimeError"
  by (simp add: fq_inv_def remove_fq_def)

lemma fq_popleft:
  assumes "fq_inv q (x # xs)"
  shows "\<exists>q'. popleft q = Inr (x, q') \<and> fq_inv q' xs"
proof -
  have hd: "next_free_block q FakeHead = Some x" using fq_inv_head [OF assms] by simp
  have x: "x \<noteq> FakeTail" "prev_free_block q x = Some FakeHead"
    using assms fq_inv_distinct [OF assms] by (auto simp: fq_inv_def)
  obtain q' where q': "remove_fq x q = Inr q'" "fq_inv q' xs"
    using fq_remove [of q "[]" x xs] assms by auto
  with x obtain n where "next_free_block q x = Some n"
    by (auto simp: remove_fq_def split: option.splits)
  with q' x have "popleft q = Inr (x, q')"
    by (simp add: popleft_def hd remove_fq_def)
  with q' show ?thesis by blast
qed

lemma fq_popleft_empty: "fq_inv q [] \<Longrightarrow> popleft q = Inl ValueError"
  using fq_inv_head [of q "[]"] by (simp add: popleft_def fq_inv_def)

text \<open>The \<open>popleft_n\<close> loop: the popped blocks lose their links, the rest of the chain stays.\<close>

lemma popleft_n_loop_result:
  assumes "chain q (ys @ zs)" and "zs \<noteq> []" and "distinct (ys @ zs)"
  shows "\<exists>q'. popleft_n_loop (length ys) (Some (hd (ys @ zs))) ret q = Inr (ret @ ys, Some (hd zs), q')
     \<and> num_free_blocks q' = num_free_blocks q
     \<and> (\<forall>r. next_free_block q' r = (if r \<in> set ys then None else next_free_block q r))
     \<and> (\<forall>r. prev_free_block q' r = (if r \<in> set ys then None else prev_free_block q r))"
  using assms
proof (induction ys arbitrary: q ret)
  case Nil
  then show ?case by simp
next
  case (Cons y ys)
  let ?q = "set_next y None (set_prev y None q)"
  from Cons.prems have "chain q ([y] @ (ys @ zs))" by simp
  then have nx: "next_free_block q y = Some (hd (ys @ zs))" and c: "chain q (ys @ zs)"
    using Cons.prems(2) unfolding chain_append by auto
  have "chain ?q (ys @ zs) = chain q (ys @ zs)"
    by (rule chain_cong) (use Cons.prems in \<open>auto simp: set_butlast_distinct set_tl_distinct\<close>)
  with Cons.IH [of ?q "ret @ [y]"] Cons.prems c obtain q' where
    "popleft_n_loop (length ys) (Some (hd (ys @ zs))) (ret @ [y]) ?q
       = Inr (ret @ y # ys, Some (hd zs), q')"
    "num_free_blocks q' = num_free_blocks q"
    "\<forall>r. next_free_block q' r = (if r \<in> set ys then None else next_free_block ?q r)"
    "\<forall>r. prev_free_block q' r = (if r \<in> set ys then None else prev_free_block ?q r)"
    by auto
  with nx show ?case by (intro exI [of _ q']) auto
qed

lemma fq_popleft_n:
  assumes inv: "fq_inv q xs" and n: "0 \<le> n" "n \<le> int (length xs)"
  shows "\<exists>q'. popleft_n n q = Inr (take (nat n) xs, q') \<and> fq_inv q' (drop (nat n) xs)"
proof (cases "n = 0")
  case True
  with inv show ?thesis by (simp add: popleft_n_def)
next
  case False
  let ?ys = "take (nat n) xs" and ?zs = "drop (nat n) xs @ [FakeTail]"
  let ?c = "hd ?zs"
  note d = fq_inv_distinct [OF inv]
  have eq: "FakeHead # xs @ [FakeTail] = [FakeHead] @ (?ys @ ?zs)" by simp
  have len: "length ?ys = nat n" using n by simp
  have "chain q (?ys @ ?zs)"
    using inv unfolding fq_inv_def eq chain_append by blast
  moreover have dz: "distinct (?ys @ ?zs)"
    using d unfolding append_assoc [symmetric] append_take_drop_id by simp
  ultimately obtain q2 where q2:
    "popleft_n_loop (nat n) (Some (hd (?ys @ ?zs))) [] (add_num_free (- n) q) = Inr (?ys, Some ?c, q2)"
    "num_free_blocks q2 = num_free_blocks q - n"
    "\<forall>r. next_free_block q2 r = (if r \<in> set ?ys then None else next_free_block q r)"
    "\<forall>r. prev_free_block q2 r = (if r \<in> set ?ys then None else prev_free_block q r)"
    using popleft_n_loop_result [of "add_num_free (- n) q" ?ys ?zs "[]"] len
    by (auto simp del: append_take_drop_id)
  let ?q = "set_prev ?c (Some FakeHead) (set_next FakeHead (Some ?c) q2)"
  have pop: "popleft_n n q = Inr (?ys, ?q)"
    using False n q2(1) fq_inv_head [OF inv] fq_inv_len [OF inv]
    unfolding append_assoc [symmetric] append_take_drop_id by (simp add: popleft_n_def)
  have c: "?c \<in> set ?zs" by (rule hd_in_set) simp
  have ys: "FakeHead \<notin> set ?ys" "FakeTail \<notin> set ?ys" "set ?ys \<inter> set ?zs = {}"
    using d dz by (auto dest: in_set_takeD)
  have "chain ?q ([FakeHead] @ ?zs)"
  proof (rule chain_join [where q = q])
    show "chain q ?zs" using inv unfolding fq_inv_def eq chain_append by blast
  qed (use d c ys q2 in \<open>auto dest: in_set_dropD\<close>)
  then have "fq_inv ?q (drop (nat n) xs)"
  proof (intro fq_invI)
    fix r assume r: "real_block r" "r \<notin> set (drop (nat n) xs)"
    then have "r \<noteq> ?c" "r \<noteq> FakeHead" using c by auto
    moreover have "r \<in> set ?ys \<or> r \<notin> set xs"
      using r(2) set_append [of ?ys "drop (nat n) xs"] by auto
    ultimately show "next_free_block ?q r = None \<and> prev_free_block ?q r = None"
      using q2 inv r(1) by (auto simp: fq_inv_def)
  qed (use inv n d ys c q2 in \<open>auto simp: fq_inv_def dest: in_set_dropD\<close>)
  with pop show ?thesis by blast
qed

lemma fq_popleft_n_short: "fq_inv q xs \<Longrightarrow> int (length xs) < n \<Longrightarrow> popleft_n n q = Inl AssertionError"
  by (auto simp: popleft_n_def fq_inv_def)

text \<open>\<open>prepend_n\<close> and \<open>append_n\<close> splice a chain of new blocks between two neighbours.\<close>

lemma fq_splice:
  assumes inv: "fq_inv q (as @ cs)"
    and bs: "bs \<noteq> []" "distinct bs" "\<forall>b \<in> set bs. real_block b" "set bs \<inter> set (as @ cs) = {}"
    and ll: "link_loop bs (last (FakeHead # as)) q = (l, q1)"
  shows "fq_inv (add_num_free (int (length bs))
           (set_prev (hd (cs @ [FakeTail])) (Some l) (set_next l (Some (hd (cs @ [FakeTail]))) q1)))
         (as @ bs @ cs)" (is "fq_inv ?q _")
proof -
  let ?A = "FakeHead # as" and ?C = "cs @ [FakeTail]"
  let ?p = "last ?A" and ?n = "hd ?C"
  note d = fq_inv_distinct [OF inv]
  have p: "?p \<in> set ?A" and n: "?n \<in> set ?C" by (rule last_in_set hd_in_set, simp)+
  have sep: "set ?A \<inter> set ?C = {}" "set ?A \<inter> set bs = {}" "set ?C \<inter> set bs = {}"
    using d bs by (auto simp: real_block_def)
  have dp: "distinct (?p # bs)" using p bs sep by auto
  note ll' = link_loop_result [OF ll dp]
  have l: "l = last bs" "l \<in> set bs" using ll'(1) bs(1) by auto
  have bl: "set (butlast (?p # bs)) = insert ?p (set bs - {l})"
    using dp bs(1) l by (simp add: set_butlast_distinct)
  have nx: "next_free_block ?q r = next_free_block q r" if "r \<notin> insert ?p (set bs)" for r
    using that ll'(4) [of r] l bl by auto
  have pv: "prev_free_block ?q r = prev_free_block q r" if "r \<notin> insert ?n (set bs)" for r
    using that ll'(5) [of r] by auto
  have cAC: "chain q ?A" "chain q ?C"
    using inv chain_append [of q ?A ?C] by (simp_all add: fq_inv_def)
  have lp: "l \<noteq> ?p" "?n \<notin> set bs" using l(2) p n sep by auto
  have "chain ?q (?p # bs) = chain q1 (?p # bs)"
    by (rule chain_frame) (use dp bs(1) l lp in auto)
  with ll'(2) have cb: "chain ?q (?p # bs)" by simp
  have "chain ?q bs" "next_free_block ?q ?p = Some (hd bs)" "prev_free_block ?q (hd bs) = Some ?p"
    using cb bs(1) by (cases bs; auto)+
  moreover have "chain ?q ?A = chain q ?A"
  proof (rule chain_frame)
    fix r assume r: "r \<in> set ?A"
    then have "r \<notin> set bs" "r \<noteq> ?n" using sep n by auto
    then show "r \<noteq> last ?A \<Longrightarrow> next_free_block ?q r = next_free_block q r"
      "r \<noteq> hd ?A \<Longrightarrow> prev_free_block ?q r = prev_free_block q r"
      by (simp_all only: nx pv insert_iff simp_thms)
  qed (use d in auto)
  with cAC(1) have "chain ?q ?A" by simp
  moreover have "chain ?q ?C = chain q ?C"
  proof (rule chain_frame)
    fix r assume r: "r \<in> set ?C"
    then have "r \<notin> set bs" "r \<noteq> ?p" using sep p by auto
    then show "r \<noteq> last ?C \<Longrightarrow> next_free_block ?q r = next_free_block q r"
      "r \<noteq> hd ?C \<Longrightarrow> prev_free_block ?q r = prev_free_block q r"
      by (simp_all only: nx pv insert_iff simp_thms)
  qed (use d in auto)
  with cAC(2) have "chain ?q ?C" by simp
  moreover have "next_free_block ?q (last bs) = Some ?n" "prev_free_block ?q ?n = Some (last bs)"
    using l by simp_all
  ultimately have "chain ?q (?A @ (bs @ ?C))"
    unfolding chain_append [of ?q ?A] chain_append [of ?q bs] hd_append2 [OF bs(1)] by blast
  then show ?thesis
  proof (intro fq_invI)
    fix r assume r: "real_block r" "r \<notin> set (as @ bs @ cs)"
    then have "r \<notin> insert ?p (set bs)" "r \<notin> insert ?n (set bs)" using p n by auto
    then have "next_free_block ?q r = next_free_block q r" "prev_free_block ?q r = prev_free_block q r"
      by (simp_all only: nx pv simp_thms)
    with r inv show "next_free_block ?q r = None \<and> prev_free_block ?q r = None"
      unfolding fq_inv_def by auto
  next
    have out: "FakeHead \<notin> insert ?n (set bs)" "FakeTail \<notin> insert ?p (set bs)"
      using p n sep by (metis disjoint_iff insert_iff list.set_intros(1) last_in_set
          append_is_Nil_conv in_set_conv_decomp list.distinct(1))+
    show "num_free_blocks ?q = int (length (as @ bs @ cs))"
      using ll'(3) inv by (simp add: fq_inv_def)
    show "prev_free_block ?q FakeHead = None" "next_free_block ?q FakeTail = None"
      using pv [OF out(1)] nx [OF out(2)] inv by (simp_all only: fq_inv_def simp_thms)
  qed (use d sep bs in auto)
qed

lemma fq_prepend_n:
  assumes inv: "fq_inv q xs"
    and bs: "distinct bs" "\<forall>b \<in> set bs. real_block b" "set bs \<inter> set xs = {}"
  shows "\<exists>q'. prepend_n bs q = Inr q' \<and> fq_inv q' (bs @ xs)"
proof (cases "bs = []")
  case True
  with inv show ?thesis by (simp add: prepend_n_def)
next
  case False
  obtain l q1 where ll: "link_loop bs FakeHead q = (l, q1)" by fastforce
  with fq_splice [of q "[]" xs bs l q1] inv bs False show ?thesis
    by (auto simp: prepend_n_def fq_inv_head [OF inv])
qed

lemma fq_append_n:
  assumes inv: "fq_inv q xs"
    and bs: "distinct bs" "\<forall>b \<in> set bs. real_block b" "set bs \<inter> set xs = {}"
  shows "\<exists>q'. append_n bs q = Inr q' \<and> fq_inv q' (xs @ bs)"
proof (cases "bs = []")
  case True
  with inv show ?thesis by (simp add: append_n_def)
next
  case False
  obtain l q1 where ll: "link_loop bs (last (FakeHead # xs)) q = (l, q1)" by fastforce
  with fq_splice [of q xs "[]" bs l q1] inv bs False show ?thesis
    unfolding append_n_def fq_inv_tail [OF inv] by auto
qed

lemma fq_append:
  assumes inv: "fq_inv q xs" and b: "real_block b" "b \<notin> set xs"
  shows "\<exists>q'. append_fq b q = Inr q' \<and> fq_inv q' (xs @ [b])"
proof -
  have "append_fq b q = append_n [b] q"
    unfolding append_fq_def append_n_def fq_inv_tail [OF inv]
    by (simp add: set_next_def set_prev_def add_num_free_def fun_upd_twist)
  with fq_append_n [OF inv, of "[b]"] b show ?thesis by simp
qed

section \<open>Traversals and the constructor\<close>

lemma all_free_loop_chain:
  assumes "chain q (xs @ [FakeTail])" and "next_free_block q FakeTail = None"
  shows "all_free_loop q (hd (xs @ [FakeTail])) ret = Some (ret @ xs)"
  using assms
proof (induction xs arbitrary: ret)
  case Nil
  then show ?case by (simp add: all_free_loop.simps)
next
  case (Cons x xs)
  from Cons.prems(1) have "chain q ([x] @ (xs @ [FakeTail]))" by simp
  then have "next_free_block q x = Some (hd (xs @ [FakeTail]))" "chain q (xs @ [FakeTail])"
    unfolding chain_append by auto
  with Cons.IH [of "ret @ [x]"] Cons.prems(2) show ?case by (simp add: all_free_loop.simps)
qed

lemma fq_get_all_free_blocks: "fq_inv q xs \<Longrightarrow> get_all_free_blocks q = Some (Inr xs)"
proof -
  assume inv: "fq_inv q xs"
  then have "chain q ([FakeHead] @ (xs @ [FakeTail]))" by (simp add: fq_inv_def)
  then have "chain q (xs @ [FakeTail])" unfolding chain_append by blast
  with inv all_free_loop_chain [of q xs "[]"] show ?thesis
    by (simp add: get_all_free_blocks_def fq_inv_head [OF inv] fq_inv_def)
qed

lemma iter_loop_chain:
  assumes "chain q (xs @ [FakeTail])" and "FakeTail \<notin> set xs"
  shows "iter_loop q (Some (hd (xs @ [FakeTail]))) ret = Some (ret @ xs)"
  using assms
proof (induction xs arbitrary: ret)
  case Nil
  then show ?case by (simp add: iter_loop.simps)
next
  case (Cons x xs)
  from Cons.prems(1) have "chain q ([x] @ (xs @ [FakeTail]))" by simp
  then have "next_free_block q x = Some (hd (xs @ [FakeTail]))" "chain q (xs @ [FakeTail])"
    unfolding chain_append by auto
  moreover from Cons.prems(2) have "x \<noteq> FakeTail" "FakeTail \<notin> set xs" by auto
  ultimately show ?case using Cons.IH [of "ret @ [x]"]
    by (simp add: iter_loop.simps [of q "Some x"])
qed

lemma fq_iter_blocks_after:
  assumes inv: "fq_inv q xs"
  shows "iter_blocks_after None q = Some xs"
    and "xs = as @ c # bs \<Longrightarrow> iter_blocks_after (Some c) q = Some bs"
proof -
  note d = fq_inv_distinct [OF inv]
  have "chain q ([FakeHead] @ (xs @ [FakeTail]))" using inv by (simp add: fq_inv_def)
  then have "chain q (xs @ [FakeTail])" unfolding chain_append by blast
  with d iter_loop_chain [of q xs "[]"] show "iter_blocks_after None q = Some xs"
    by (simp add: iter_blocks_after_def fq_inv_head [OF inv])
  assume xs: "xs = as @ c # bs"
  with inv have "chain q ((FakeHead # as) @ ([c] @ (bs @ [FakeTail])))" by (simp add: fq_inv_def)
  then have "chain q (bs @ [FakeTail])" "next_free_block q c = Some (hd (bs @ [FakeTail]))"
    unfolding chain_append by auto
  with d xs iter_loop_chain [of q bs "[]"] show "iter_blocks_after (Some c) q = Some bs"
    by (simp add: iter_blocks_after_def)
qed

text \<open>The constructor's loop writes the inner links of each block exactly once.\<close>

lemma init_links:
  assumes "distinct blocks" and "k \<le> length blocks"
    and "q = fold (init_link_step blocks) [0..<k]
               \<lparr>num_free_blocks = m, next_free_block = (\<lambda>_. None), prev_free_block = (\<lambda>_. None)\<rparr>"
  shows "num_free_blocks q = m
    \<and> (\<forall>i < length blocks. next_free_block q (blocks ! i) =
         (if i < k \<and> i + 1 < length blocks then Some (blocks ! (i + 1)) else None))
    \<and> (\<forall>i < length blocks. prev_free_block q (blocks ! i) =
         (if i < k \<and> 0 < i then Some (blocks ! (i - 1)) else None))
    \<and> (\<forall>r. r \<notin> set blocks \<longrightarrow> next_free_block q r = None \<and> prev_free_block q r = None)"
  using assms(2,3)
proof (induction k arbitrary: q)
  case 0
  then show ?case by simp
next
  case (Suc k)
  let ?q = "fold (init_link_step blocks) [0..<k]
      \<lparr>num_free_blocks = m, next_free_block = (\<lambda>_. None), prev_free_block = (\<lambda>_. None)\<rparr>"
  have q: "q = init_link_step blocks k ?q" using Suc.prems by simp
  have IH: "num_free_blocks ?q = m"
    "\<And>i. i < length blocks \<Longrightarrow> next_free_block ?q (blocks ! i) =
         (if i < k \<and> i + 1 < length blocks then Some (blocks ! (i + 1)) else None)"
    "\<And>i. i < length blocks \<Longrightarrow> prev_free_block ?q (blocks ! i) =
         (if i < k \<and> 0 < i then Some (blocks ! (i - 1)) else None)"
    "\<And>r. r \<notin> set blocks \<Longrightarrow> next_free_block ?q r = None \<and> prev_free_block ?q r = None"
    using Suc.IH [OF _ refl] Suc.prems(1) by simp_all
  have k: "k < length blocks" "blocks ! k \<in> set blocks" using Suc.prems(1) by auto
  have inj: "blocks ! i = blocks ! k \<longleftrightarrow> i = k" if "i < length blocks" for i
    using that k(1) assms(1) by (simp add: nth_eq_iff_index_eq)
  have "next_free_block q (blocks ! i) =
      (if i < Suc k \<and> i + 1 < length blocks then Some (blocks ! (i + 1)) else None)"
    "prev_free_block q (blocks ! i) =
      (if i < Suc k \<and> 0 < i then Some (blocks ! (i - 1)) else None)" if "i < length blocks" for i
    using that k by (cases "i = k"; simp add: q init_link_step_def Let_def inj IH; linarith)+
  moreover have "next_free_block q r = None \<and> prev_free_block q r = None" if "r \<notin> set blocks" for r
    using that k IH(4) [of r] by (auto simp: q init_link_step_def Let_def)
  moreover have "num_free_blocks q = m" by (simp add: q init_link_step_def Let_def IH(1))
  ultimately show ?case by blast
qed

lemma fq_init:
  assumes "distinct blocks" and "\<forall>b \<in> set blocks. real_block b"
  shows "fq_inv (freeq_init blocks) blocks"
proof (cases "blocks = []")
  case True
  then show ?thesis by (auto simp: freeq_init_def fq_inv_def)
next
  case False
  let ?n = "length blocks"
  define q1 where "q1 = fold (init_link_step blocks) [0..<?n]
      \<lparr>num_free_blocks = int ?n, next_free_block = (\<lambda>_. None), prev_free_block = (\<lambda>_. None)\<rparr>"
  note q1 = init_links [OF assms(1) le_refl q1_def]
  have out: "FakeHead \<notin> set blocks" "FakeTail \<notin> set blocks" using assms(2) by auto
  have chain: "chain q1 (drop j blocks)" for j
  proof (induction "?n - j" arbitrary: j)
    case (Suc k)
    then have j: "j < ?n" by simp
    show ?case
    proof (cases "Suc j < ?n")
      case True
      have "drop j blocks = blocks ! j # blocks ! Suc j # drop (Suc (Suc j)) blocks"
        using j True by (simp add: Cons_nth_drop_Suc)
      moreover have "chain q1 (blocks ! Suc j # drop (Suc (Suc j)) blocks)"
        using Suc(1) [of "Suc j"] Suc(2) True by (simp add: Cons_nth_drop_Suc)
      ultimately show ?thesis using q1 j True by simp
    next
      case False
      with j have "drop j blocks = [blocks ! j]"
        by (simp add: Cons_nth_drop_Suc [symmetric])
      then show ?thesis by simp
    qed
  qed simp
  let ?q = "freeq_init blocks"
  have q: "?q = set_next (last blocks) (Some FakeTail) (set_prev FakeTail (Some (last blocks))
      (set_prev (hd blocks) (Some FakeHead) (set_next FakeHead (Some (hd blocks)) q1)))"
    using False by (simp add: freeq_init_def q1_def Let_def)
  have ends: "hd blocks \<in> set blocks" "last blocks \<in> set blocks" using False by auto
  have "chain ?q blocks = chain q1 blocks"
    by (rule chain_frame) (use assms(1) False out ends in \<open>auto simp: q\<close>)
  then have "chain ?q blocks" using chain [of 0] by simp
  moreover have "next_free_block ?q FakeHead = Some (hd blocks)"
    "prev_free_block ?q (hd blocks) = Some FakeHead"
    "next_free_block ?q (last blocks) = Some FakeTail"
    "prev_free_block ?q FakeTail = Some (last blocks)"
    using out ends by (auto simp: q)
  ultimately have "chain ?q ([FakeHead] @ (blocks @ [FakeTail]))"
    unfolding chain_append [of ?q "[FakeHead]"] chain_append [of ?q blocks] hd_append2 [OF False]
    by simp
  then show ?thesis
    by (intro fq_invI) (use assms(1) out q1 ends in \<open>auto simp: q\<close>)
qed

section \<open>The contract of the queue\<close>

text \<open>
  What the block pool relies on, over the list \<open>xs\<close> the queue represents.  The client lemmas of
  the pool's allocation and release order are proved once, here.
\<close>

locale free_block_queue =
  fixes inv :: "'q \<Rightarrow> 'b list \<Rightarrow> bool"
    and valid :: "'b \<Rightarrow> bool"
    and size_q :: "'q \<Rightarrow> int"
    and pop :: "int \<Rightarrow> 'q \<Rightarrow> ('b list \<times> 'q) res"
    and rem :: "'b \<Rightarrow> 'q \<Rightarrow> 'q res"
    and prep :: "'b list \<Rightarrow> 'q \<Rightarrow> 'q res"
    and app :: "'b list \<Rightarrow> 'q \<Rightarrow> 'q res"
  assumes inv_distinct: "inv q xs \<Longrightarrow> distinct xs"
    and inv_valid: "inv q xs \<Longrightarrow> x \<in> set xs \<Longrightarrow> valid x"
    and inv_unique: "inv q xs \<Longrightarrow> inv q ys \<Longrightarrow> xs = ys"
    and size_q: "inv q xs \<Longrightarrow> size_q q = int (length xs)"
    and pop_ok: "inv q xs \<Longrightarrow> 0 \<le> n \<Longrightarrow> n \<le> int (length xs) \<Longrightarrow>
      \<exists>q'. pop n q = Inr (take (nat n) xs, q') \<and> inv q' (drop (nat n) xs)"
    and pop_short: "inv q xs \<Longrightarrow> int (length xs) < n \<Longrightarrow> pop n q = Inl AssertionError"
    and rem_ok: "inv q (as @ x # bs) \<Longrightarrow> \<exists>q'. rem x q = Inr q' \<and> inv q' (as @ bs)"
    and rem_outside: "inv q xs \<Longrightarrow> valid x \<Longrightarrow> x \<notin> set xs \<Longrightarrow> rem x q = Inl RuntimeError"
    and prep_ok: "inv q xs \<Longrightarrow> distinct bs \<Longrightarrow> \<forall>b \<in> set bs. valid b \<Longrightarrow> set bs \<inter> set xs = {} \<Longrightarrow>
      \<exists>q'. prep bs q = Inr q' \<and> inv q' (bs @ xs)"
    and app_ok: "inv q xs \<Longrightarrow> distinct bs \<Longrightarrow> \<forall>b \<in> set bs. valid b \<Longrightarrow> set bs \<inter> set xs = {} \<Longrightarrow>
      \<exists>q'. app bs q = Inr q' \<and> inv q' (xs @ bs)"
begin

lemma rem_set:
  assumes "inv q xs" and "x \<in> set xs"
  shows "\<exists>q'. rem x q = Inr q' \<and> inv q' (remove1 x xs)"
proof -
  from assms(2) obtain as bs where xs: "xs = as @ x # bs" "x \<notin> set as"
    by (meson split_list_first)
  with rem_ok [of q as x bs] assms(1) show ?thesis by (simp add: remove1_append_distinct)
qed

lemma rem_raises_iff:
  assumes "inv q xs" and "valid x"
  shows "rem x q = Inl RuntimeError \<longleftrightarrow> x \<notin> set xs"
  using rem_set [OF assms(1), of x] rem_outside [OF assms] by force

text \<open>Release (prepend the uncached, append the cached) in one step.\<close>

lemma release_ok:
  assumes "inv q xs" and "distinct (bs @ cs)" and "\<forall>b \<in> set bs \<union> set cs. valid b"
    and "(set bs \<union> set cs) \<inter> set xs = {}"
  shows "\<exists>q'. bindE (prep bs q) (app cs) = Inr q' \<and> inv q' (bs @ xs @ cs)"
proof -
  obtain q1 where q1: "prep bs q = Inr q1" "inv q1 (bs @ xs)"
    using prep_ok [of q xs bs] assms by auto
  then obtain q2 where "app cs q1 = Inr q2" "inv q2 ((bs @ xs) @ cs)"
    using app_ok [of q1 "bs @ xs" cs] assms by auto
  with q1 show ?thesis by auto
qed

text \<open>Blocks released to the front are the next ones handed out (LIFO reuse).\<close>

lemma prep_then_pop:
  assumes "inv q xs" and "distinct bs" and "\<forall>b \<in> set bs. valid b" and "set bs \<inter> set xs = {}"
  shows "\<exists>q'. bindE (prep bs q) (pop (int (length bs))) = Inr (bs, q') \<and> inv q' xs"
proof -
  obtain q1 where q1: "prep bs q = Inr q1" "inv q1 (bs @ xs)"
    using prep_ok [OF assms] by auto
  with pop_ok [OF q1(2), of "int (length bs)"] show ?thesis by auto
qed

text \<open>Blocks released to the back are handed out only after everything already free (FIFO).\<close>

lemma app_then_pop:
  assumes "inv q xs" and "distinct bs" and "\<forall>b \<in> set bs. valid b" and "set bs \<inter> set xs = {}"
    and "0 \<le> n" "n \<le> int (length xs)"
  shows "\<exists>q'. bindE (app bs q) (pop n) = Inr (take (nat n) xs, q') \<and> inv q' (drop (nat n) xs @ bs)"
proof -
  obtain q1 where q1: "app bs q = Inr q1" "inv q1 (xs @ bs)"
    using app_ok [OF assms(1-4)] by auto
  with pop_ok [OF q1(2), of n] assms(5,6) show ?thesis by auto
qed

end

interpretation lq: free_block_queue fq_inv real_block num_free_blocks popleft_n remove_fq prepend_n append_n
proof unfold_locales
  fix q xs x n as bs
  show "fq_inv q xs \<Longrightarrow> distinct xs" by (simp add: fq_inv_def)
  show "fq_inv q xs \<Longrightarrow> x \<in> set xs \<Longrightarrow> real_block x" by (rule fq_inv_real)
  show "fq_inv q xs \<Longrightarrow> num_free_blocks q = int (length xs)" by (rule fq_inv_len)
  show "fq_inv q xs \<Longrightarrow> fq_inv q bs \<Longrightarrow> xs = bs" by (rule fq_inv_unique)
  show "fq_inv q xs \<Longrightarrow> 0 \<le> n \<Longrightarrow> n \<le> int (length xs) \<Longrightarrow>
      \<exists>q'. popleft_n n q = Inr (take (nat n) xs, q') \<and> fq_inv q' (drop (nat n) xs)"
    by (rule fq_popleft_n)
  show "fq_inv q xs \<Longrightarrow> int (length xs) < n \<Longrightarrow> popleft_n n q = Inl AssertionError"
    by (rule fq_popleft_n_short)
  show "fq_inv q (as @ x # bs) \<Longrightarrow> \<exists>q'. remove_fq x q = Inr q' \<and> fq_inv q' (as @ bs)"
    by (rule fq_remove)
  show "fq_inv q xs \<Longrightarrow> real_block x \<Longrightarrow> x \<notin> set xs \<Longrightarrow> remove_fq x q = Inl RuntimeError"
    by (rule fq_remove_outside)
  show "fq_inv q xs \<Longrightarrow> distinct bs \<Longrightarrow> \<forall>b \<in> set bs. real_block b \<Longrightarrow> set bs \<inter> set xs = {} \<Longrightarrow>
      \<exists>q'. prepend_n bs q = Inr q' \<and> fq_inv q' (bs @ xs)"
    by (rule fq_prepend_n)
  show "fq_inv q xs \<Longrightarrow> distinct bs \<Longrightarrow> \<forall>b \<in> set bs. real_block b \<Longrightarrow> set bs \<inter> set xs = {} \<Longrightarrow>
      \<exists>q'. append_n bs q = Inr q' \<and> fq_inv q' (xs @ bs)"
    by (rule fq_append_n)
qed

section \<open>Sequences of queue operations\<close>

text \<open>
  The operations as data: \<open>qstep\<close> runs one on the linked list, \<open>qspec\<close> on the list it
  represents; both return the blocks handed out.  \<open>qop_ok\<close> is the callers' duty: block
  arguments are real blocks, and a block is not inserted twice.
\<close>

datatype qop = PopLeft | PopLeftN int | Remove bref | Append bref
  | PrependN "bref list" | AppendN "bref list"

fun qstep :: "qop \<Rightarrow> freeq \<Rightarrow> (bref list \<times> freeq) res" where
  "qstep PopLeft q = bindE (popleft q) (\<lambda>(b, q'). Inr ([b], q'))"
| "qstep (PopLeftN n) q = popleft_n n q"
| "qstep (Remove b) q = bindE (remove_fq b q) (\<lambda>q'. Inr ([], q'))"
| "qstep (Append b) q = bindE (append_fq b q) (\<lambda>q'. Inr ([], q'))"
| "qstep (PrependN bs) q = bindE (prepend_n bs q) (\<lambda>q'. Inr ([], q'))"
| "qstep (AppendN bs) q = bindE (append_n bs q) (\<lambda>q'. Inr ([], q'))"

fun qspec :: "qop \<Rightarrow> bref list \<Rightarrow> (bref list \<times> bref list) res" where
  "qspec PopLeft xs = (case xs of [] \<Rightarrow> Inl ValueError | x # ys \<Rightarrow> Inr ([x], ys))"
| "qspec (PopLeftN n) xs =
     (if int (length xs) < n then Inl AssertionError
      else Inr (take (nat n) xs, drop (nat n) xs))"
| "qspec (Remove b) xs = (if b \<in> set xs then Inr ([], remove1 b xs) else Inl RuntimeError)"
| "qspec (Append b) xs = Inr ([], xs @ [b])"
| "qspec (PrependN bs) xs = Inr ([], bs @ xs)"
| "qspec (AppendN bs) xs = Inr ([], xs @ bs)"

fun qop_ok :: "qop \<Rightarrow> bref list \<Rightarrow> bool" where
  "qop_ok PopLeft xs = True"
| "qop_ok (PopLeftN n) xs = (0 \<le> n)"
| "qop_ok (Remove b) xs = real_block b"
| "qop_ok (Append b) xs = (real_block b \<and> b \<notin> set xs)"
| "qop_ok (PrependN bs) xs = (distinct bs \<and> list_all real_block bs \<and> list_all (\<lambda>b. b \<notin> set xs) bs)"
| "qop_ok (AppendN bs) xs = (distinct bs \<and> list_all real_block bs \<and> list_all (\<lambda>b. b \<notin> set xs) bs)"

fun qrun :: "qop list \<Rightarrow> freeq \<Rightarrow> (bref list \<times> freeq) res" where
  "qrun [] q = Inr ([], q)"
| "qrun (p # ps) q = bindE (qstep p q) (\<lambda>(out, q'). bindE (qrun ps q') (\<lambda>(outs, q''). Inr (out @ outs, q'')))"

fun qrun_spec :: "qop list \<Rightarrow> bref list \<Rightarrow> (bref list \<times> bref list) res" where
  "qrun_spec [] xs = Inr ([], xs)"
| "qrun_spec (p # ps) xs =
     bindE (qspec p xs) (\<lambda>(out, ys). bindE (qrun_spec ps ys) (\<lambda>(outs, zs). Inr (out @ outs, zs)))"

fun qrun_ok :: "qop list \<Rightarrow> bref list \<Rightarrow> bool" where
  "qrun_ok [] xs = True"
| "qrun_ok (p # ps) xs =
     (qop_ok p xs \<and> (case qspec p xs of Inl e \<Rightarrow> True | Inr (out, ys) \<Rightarrow> qrun_ok ps ys))"

lemma qstep_refines:
  assumes "fq_inv q xs" and "qop_ok p xs"
  shows "(\<exists>e. qspec p xs = Inl e \<and> qstep p q = Inl e)
    \<or> (\<exists>out ys q'. qspec p xs = Inr (out, ys) \<and> qstep p q = Inr (out, q') \<and> fq_inv q' ys)"
proof (cases p)
  case PopLeft
  then show ?thesis
    using assms fq_popleft [of q] fq_popleft_empty [of q] by (cases xs) fastforce+
next
  case (PopLeftN n)
  then show ?thesis
    using assms fq_popleft_n [of q xs n] fq_popleft_n_short [of q xs n]
    by (cases "int (length xs) < n") auto
next
  case (Remove b)
  then show ?thesis
    using assms lq.rem_set [of q xs b] fq_remove_outside [of q xs b] by fastforce
next
  case (Append b)
  then show ?thesis using assms fq_append [of q xs b] by auto
next
  case (PrependN bs)
  then show ?thesis using assms fq_prepend_n [of q xs bs] by (fastforce simp: list_all_iff)
next
  case (AppendN bs)
  then show ?thesis using assms fq_append_n [of q xs bs] by (fastforce simp: list_all_iff)
qed

lemma qrun_refines:
  assumes "fq_inv q xs" and "qrun_ok ops xs"
  shows "(\<exists>e. qrun_spec ops xs = Inl e \<and> qrun ops q = Inl e)
    \<or> (\<exists>out ys q'. qrun_spec ops xs = Inr (out, ys) \<and> qrun ops q = Inr (out, q') \<and> fq_inv q' ys)"
  using assms
proof (induction ops arbitrary: q xs)
  case Nil
  then show ?case by simp
next
  case (Cons p ps)
  then have "qop_ok p xs" by simp
  from qstep_refines [OF Cons.prems(1) this] show ?case
  proof (elim disjE exE conjE)
    fix out ys q'
    assume *: "qspec p xs = Inr (out, ys)" "qstep p q = Inr (out, q')" "fq_inv q' ys"
    with Cons.prems(2) have "qrun_ok ps ys" by simp
    from Cons.IH [OF *(3) this] * show ?thesis by auto
  qed auto
qed

section \<open>Properties\<close>

text \<open>
  C39. The linked list of free blocks refines a plain list.  Take a free-block queue whose links
  represent the list \<open>xs\<close> and any sequence of its operations (\<open>popleft\<close>, \<open>popleft_n\<close>, \<open>remove\<close>,
  \<open>append\<close>, \<open>prepend_n\<close>, \<open>append_n\<close>) that never inserts a block twice.  Running the pointer
  code raises exactly the exception the list specification raises, and otherwise hands out
  exactly the blocks the specification hands out and leaves links that represent the
  specification's final list.
\<close>

theorem free_queue_refines_list:
  assumes "fq_inv q xs" and "qrun_ok ops xs"
  shows "case qrun_spec ops xs of
           Inl e \<Rightarrow> qrun ops q = Inl e
         | Inr (out, ys) \<Rightarrow> \<exists>q'. qrun ops q = Inr (out, q') \<and> fq_inv q' ys"
  using qrun_refines [OF assms] by auto

theorem free_queue_refines_list_witness:
  "qrun_ok [PopLeftN 2, Remove (Blk 3), PrependN [Blk 1], AppendN [Blk 0, Blk 3], PopLeft]
      [Blk 0, Blk 1, Blk 2, Blk 3]
   \<and> (\<exists>q'. qrun [PopLeftN 2, Remove (Blk 3), PrependN [Blk 1], AppendN [Blk 0, Blk 3], PopLeft]
            (freeq_init [Blk 0, Blk 1, Blk 2, Blk 3])
          = Inr ([Blk 0, Blk 1, Blk 1], q') \<and> fq_inv q' [Blk 2, Blk 0, Blk 3])"
proof -
  let ?ops = "[PopLeftN 2, Remove (Blk 3), PrependN [Blk 1], AppendN [Blk 0, Blk 3], PopLeft]"
  let ?xs = "[Blk 0, Blk 1, Blk 2, Blk 3]"
  have inv: "fq_inv (freeq_init ?xs) ?xs" by (rule fq_init) auto
  have ok: "qrun_ok ?ops ?xs" by (simp add: numeral_2_eq_2)
  have "qrun_spec ?ops ?xs = Inr ([Blk 0, Blk 1, Blk 1], [Blk 2, Blk 0, Blk 3])"
    by (simp add: numeral_2_eq_2)
  with free_queue_refines_list [OF inv ok] ok show ?thesis by simp
qed

text \<open>
  C38. Traversal ends and is exact: on a well-formed queue \<open>get_all_free_blocks\<close> terminates and
  returns the free blocks in eviction order, \<open>iter_blocks_after(None)\<close> yields the same blocks,
  and \<open>iter_blocks_after(c)\<close> yields exactly the blocks behind the cursor \<open>c\<close>.
\<close>

theorem free_queue_traversals:
  assumes "fq_inv q (as @ c # bs)"
  shows "get_all_free_blocks q = Some (Inr (as @ c # bs))
    \<and> iter_blocks_after None q = Some (as @ c # bs)
    \<and> iter_blocks_after (Some c) q = Some bs"
  using fq_get_all_free_blocks [OF assms] fq_iter_blocks_after [OF assms] by simp

theorem free_queue_traversals_witness:
  "iter_blocks_after (Some (Blk 1)) (freeq_init [Blk 0, Blk 1, Blk 2]) = Some [Blk 2]
   \<and> get_all_free_blocks (freeq_init [Blk 0, Blk 1, Blk 2]) = Some (Inr [Blk 0, Blk 1, Blk 2])"
  using free_queue_traversals [of "freeq_init [Blk 0, Blk 1, Blk 2]" "[Blk 0]" "Blk 1" "[Blk 2]"]
    fq_init [of "[Blk 0, Blk 1, Blk 2]"] by simp

end
