(* ===== verification/Request_Status.thy ===== *)
theory Request_Status
  imports Prelude
begin

text \<open>
  The life cycle of a request: \<^verbatim>\<open>RequestStatus\<close> of \<^verbatim>\<open>vllm/v1/request.py\<close> and \<^verbatim>\<open>FinishReason\<close> of
  \<^verbatim>\<open>vllm/v1/engine/__init__.py\<close>.  \<open>RequestStatus\<close> is an \<open>IntEnum\<close> whose members are numbered in
  order from 1, and the code compares them by that number.
\<close>

datatype request_status =
    WAITING
  | WAITING_FOR_STRUCTURED_OUTPUT_GRAMMAR
  | WAITING_FOR_REMOTE_KVS
  | WAITING_FOR_STREAMING_REQ
  | RUNNING
  | PREEMPTED
  | FINISHED_STOPPED
  | FINISHED_LENGTH_CAPPED
  | FINISHED_ABORTED
  | FINISHED_IGNORED
  | FINISHED_ERROR
  | FINISHED_REPETITION

datatype finish_reason = Reason_STOP | Reason_LENGTH | Reason_ABORT | Reason_ERROR | Reason_REPETITION

primrec status_value :: "request_status \<Rightarrow> int" where
  "status_value WAITING = 1"
| "status_value WAITING_FOR_STRUCTURED_OUTPUT_GRAMMAR = 2"
| "status_value WAITING_FOR_REMOTE_KVS = 3"
| "status_value WAITING_FOR_STREAMING_REQ = 4"
| "status_value RUNNING = 5"
| "status_value PREEMPTED = 6"
| "status_value FINISHED_STOPPED = 7"
| "status_value FINISHED_LENGTH_CAPPED = 8"
| "status_value FINISHED_ABORTED = 9"
| "status_value FINISHED_IGNORED = 10"
| "status_value FINISHED_ERROR = 11"
| "status_value FINISHED_REPETITION = 12"

lemma status_value_inj: "status_value s = status_value t \<Longrightarrow> s = t"
  by (cases s; cases t) simp_all

text \<open>The order of the enumeration, so that the library's order lemmas apply to it.\<close>

instantiation request_status :: linorder
begin

definition less_eq_request_status :: "request_status \<Rightarrow> request_status \<Rightarrow> bool" where
  "less_eq_request_status s t \<longleftrightarrow> status_value s \<le> status_value t"

definition less_request_status :: "request_status \<Rightarrow> request_status \<Rightarrow> bool" where
  "less_request_status s t \<longleftrightarrow> status_value s < status_value t"

instance
  by standard (auto simp: less_eq_request_status_def less_request_status_def dest: status_value_inj)

end

definition is_finished :: "request_status \<Rightarrow> bool" where
  "is_finished status \<longleftrightarrow> PREEMPTED < status"

fun get_finished_reason :: "request_status \<Rightarrow> finish_reason option" where
  "get_finished_reason FINISHED_STOPPED = Some Reason_STOP"
| "get_finished_reason FINISHED_LENGTH_CAPPED = Some Reason_LENGTH"
| "get_finished_reason FINISHED_ABORTED = Some Reason_ABORT"
| "get_finished_reason FINISHED_IGNORED = Some Reason_LENGTH"
| "get_finished_reason FINISHED_ERROR = Some Reason_ERROR"
| "get_finished_reason WAITING_FOR_STREAMING_REQ = Some Reason_STOP"
| "get_finished_reason FINISHED_REPETITION = Some Reason_REPETITION"
| "get_finished_reason _ = None"

lemma finished_reason_defined:
  "is_finished s \<Longrightarrow> get_finished_reason s \<noteq> None"
  by (cases s) (simp_all add: is_finished_def less_request_status_def)

end
