(* ===== verification/Block_Hash.thy ===== *)
theory Block_Hash
  imports Math_Utils Request_Status
begin

text \<open>
  Block hashing for prefix caching, from \<^verbatim>\<open>vllm/v1/core/kv_cache_utils.py\<close>: cache keys (a
  block hash with a group id appended), the extra keys of a block, the chained hash of a
  request's full blocks and the view of those hashes at a coarser block size.

  Parameters of the model: the hash function \<open>H\<close> (hashlib or xxhash, not part of the
  repository) and its initial value \<open>NONE_HASH\<close>; the digest of a slice of prompt embeddings.
\<close>

section \<open>Bytes and cache keys\<close>

type_synonym bytes = "8 word list"

text \<open>\<open>int.to_bytes(4, "big", signed=False)\<close> and \<open>int.from_bytes(\<dots>, "big")\<close>.\<close>

definition to_bytes_4_big :: "int \<Rightarrow> bytes res" where
  "to_bytes_4_big n =
     (if 0 \<le> n \<and> n < 2 ^ 32
      then Inr [word_of_int (n div 2 ^ 24), word_of_int (n div 2 ^ 16),
                word_of_int (n div 2 ^ 8), word_of_int n]
      else Inl OverflowError)"

definition from_bytes_big :: "bytes \<Rightarrow> int" where
  "from_bytes_big bs = foldl (\<lambda>acc b. acc * 256 + uint b) 0 bs"

definition make_block_hash_with_group_id :: "bytes \<Rightarrow> int \<Rightarrow> bytes res" where
  "make_block_hash_with_group_id block_hash group_id =
     bindE (to_bytes_4_big group_id) (\<lambda>g. Inr (block_hash @ g))"

definition get_block_hash :: "bytes \<Rightarrow> bytes" where
  "get_block_hash key = py_slice key 0 (- 4)"

definition get_group_id :: "bytes \<Rightarrow> int" where
  "get_group_id key = from_bytes_big (py_slice_from key (- 4))"

text \<open>
  The hash published in KV events: the bytes, or, when
  \<open>VLLM_KV_EVENTS_USE_INT_BLOCK_HASHES\<close> is set, their low 64 bits as an integer.
\<close>

datatype ext_hash = ExtBytes bytes | ExtInt int

definition maybe_convert_block_hash :: "bool \<Rightarrow> bytes \<Rightarrow> ext_hash" where
  "maybe_convert_block_hash use_int hash_bytes =
     (if \<not> use_int then ExtBytes hash_bytes
      else ExtInt (from_bytes_big hash_bytes AND (push_bit 64 1 - 1)))"

section \<open>Requests, as hashing and caching read them\<close>

record mm_feature =
  mm_identifier :: string
  mm_offset :: int
  mm_length :: int

record lora_req =
  lora_name :: string
  adapter_id :: int

text \<open>
  \<open>kv_cache_report_full\<close> is \<open>kv_cache_report_mode == "full"\<close>.  \<open>prompt_embeds\<close> is the digest \<open>sha256(tensor_data(prompt_embeds[s:e]))\<close> of each slice; the
  table \<open>_prompt_embeds_per_block_hashes\<close> only caches that pure function.
\<close>

record request =
  req_id :: string
  all_token_ids :: "int list"
  num_prompt_tokens :: int
  block_hashes :: "bytes list"
  mm_features :: "mm_feature list"
  lora_request :: "lora_req option"
  cache_salt :: "string option"
  prompt_embeds :: "(int \<Rightarrow> int \<Rightarrow> bytes) option"
  num_computed_tokens :: int
  num_in_flight_tokens :: int
  shared_prefix_boundary :: int
  status :: request_status
  skip_reading_prefix_cache :: bool
  kv_cache_report_full :: bool

definition num_tokens :: "request \<Rightarrow> int" where
  "num_tokens r = int (length (all_token_ids r))"

text \<open>One entry of the extra keys: a string (LoRA name or cache salt), an item of multi-modal
  input with its offset in the block, or a digest.\<close>

datatype extra_key = KStr string | KMM string int | KBytes bytes

section \<open>Extra keys of a block\<close>

fun mm_keys_loop ::
    "mm_feature list \<Rightarrow> int \<Rightarrow> int \<Rightarrow> int \<Rightarrow> extra_key list \<Rightarrow> extra_key list \<times> int" where
  "mm_keys_loop [] start_token_idx end_token_idx curr_mm_idx extra_keys = (extra_keys, curr_mm_idx)"
| "mm_keys_loop (f # fs) start_token_idx end_token_idx curr_mm_idx extra_keys =
     (if mm_offset f < end_token_idx
      then if mm_offset f + mm_length f \<le> start_token_idx
           then mm_keys_loop fs start_token_idx end_token_idx (curr_mm_idx + 1) extra_keys
           else (let keys = extra_keys @ [KMM (mm_identifier f) (mm_offset f - start_token_idx)]
                 in if mm_offset f + mm_length f \<le> end_token_idx
                    then mm_keys_loop fs start_token_idx end_token_idx (curr_mm_idx + 1) keys
                    else (keys, curr_mm_idx))
      else (extra_keys, curr_mm_idx))"

definition gen_mm_extra_hash_keys ::
    "request \<Rightarrow> int \<Rightarrow> int \<Rightarrow> int \<Rightarrow> (extra_key list \<times> int) res" where
  "gen_mm_extra_hash_keys r start_token_idx end_token_idx start_mm_idx =
     (let fs = mm_features r in
      if fs = [] then Inr ([], start_mm_idx)
      else if mm_offset (last fs) + mm_length (last fs) \<le> start_token_idx
      then Inr ([], start_mm_idx)
      else bindE (if start_mm_idx < 0
                  then bindE (py_assert (- start_mm_idx \<le> int (length fs)))
                         (\<lambda>_. Inr (int (length fs) + start_mm_idx))
                  else Inr start_mm_idx)
             (\<lambda>i. Inr (mm_keys_loop (drop (nat i) fs) start_token_idx end_token_idx i [])))"

definition gen_lora_extra_hash_keys :: "request \<Rightarrow> extra_key list" where
  "gen_lora_extra_hash_keys r =
     (case lora_request r of None \<Rightarrow> [] | Some l \<Rightarrow> [KStr (lora_name l)])"

definition gen_prompt_embeds_extra_hash_keys :: "request \<Rightarrow> int \<Rightarrow> int \<Rightarrow> extra_key list" where
  "gen_prompt_embeds_extra_hash_keys r start_token_idx end_token_idx =
     (case prompt_embeds r of None \<Rightarrow> [] | Some digest \<Rightarrow> [KBytes (digest start_token_idx end_token_idx)])"

definition generate_block_hash_extra_keys ::
    "request \<Rightarrow> int \<Rightarrow> int \<Rightarrow> int \<Rightarrow> (extra_key list option \<times> int) res" where
  "generate_block_hash_extra_keys r start_token_idx end_token_idx start_mm_idx =
     bindE (gen_mm_extra_hash_keys r start_token_idx end_token_idx start_mm_idx)
       (\<lambda>(mm_extra_keys, new_start_mm_idx).
          let cache_salt_keys =
                (case cache_salt r of
                   None \<Rightarrow> []
                 | Some salt \<Rightarrow> if start_token_idx = 0 \<and> salt \<noteq> [] then [KStr salt] else []);
              extra_keys = gen_lora_extra_hash_keys r @ mm_extra_keys @ cache_salt_keys
                @ gen_prompt_embeds_extra_hash_keys r start_token_idx end_token_idx
          in Inr (if extra_keys = [] then None else Some extra_keys, new_start_mm_idx))"

section \<open>Chained block hashes\<close>

type_synonym hash_fn = "bytes \<times> int list \<times> extra_key list option \<Rightarrow> bytes"

definition hash_block_tokens ::
    "hash_fn \<Rightarrow> bytes \<Rightarrow> bytes option \<Rightarrow> int list \<Rightarrow> extra_key list option \<Rightarrow> bytes" where
  "hash_block_tokens hash_function none_hash parent_block_hash curr_block_token_ids extra_keys =
     (let parent = (case parent_block_hash of
                      None \<Rightarrow> none_hash
                    | Some h \<Rightarrow> if h = [] then none_hash else h)
      in hash_function (parent, curr_block_token_ids, extra_keys))"

text \<open>The hasher's loop; with a non-positive block size it would not end, hence the option.\<close>

partial_function (option) hasher_loop ::
    "hash_fn \<Rightarrow> bytes \<Rightarrow> int \<Rightarrow> request \<Rightarrow> int \<Rightarrow> int \<Rightarrow> bytes option \<Rightarrow> bytes list \<Rightarrow> bytes list res option"
where
  "hasher_loop H none_hash hash_block_size r start_token_idx curr_mm_idx prev new_block_hashes =
     (let end_token_idx = start_token_idx + hash_block_size in
      if num_tokens r < end_token_idx then Some (Inr new_block_hashes)
      else case generate_block_hash_extra_keys r start_token_idx end_token_idx curr_mm_idx of
             Inl e \<Rightarrow> Some (Inl e)
           | Inr (extra_keys, curr_mm_idx') \<Rightarrow>
               (let h = hash_block_tokens H none_hash prev
                          (py_slice (all_token_ids r) start_token_idx end_token_idx) extra_keys
                in hasher_loop H none_hash hash_block_size r (start_token_idx + hash_block_size)
                     curr_mm_idx' (Some h) (new_block_hashes @ [h])))"

definition request_block_hasher ::
    "hash_fn \<Rightarrow> bytes \<Rightarrow> int \<Rightarrow> request \<Rightarrow> bytes list res option" where
  "request_block_hasher H none_hash hash_block_size r =
     (let start_token_idx = int (length (block_hashes r)) * hash_block_size in
      if num_tokens r < start_token_idx + hash_block_size then Some (Inr [])
      else hasher_loop H none_hash hash_block_size r start_token_idx
             (if 0 < start_token_idx then - 1 else 0)
             (if block_hashes r = [] then None else Some (last (block_hashes r))) [])"

text \<open>\<open>Request.update_block_hashes\<close> with a hasher installed, and \<open>append_output_token_ids\<close>.\<close>

definition update_block_hashes :: "hash_fn \<Rightarrow> bytes \<Rightarrow> int \<Rightarrow> request \<Rightarrow> request res option" where
  "update_block_hashes H none_hash hash_block_size r =
     map_option (\<lambda>res. bindE res (\<lambda>hs. Inr (r\<lparr>block_hashes := block_hashes r @ hs\<rparr>)))
       (request_block_hasher H none_hash hash_block_size r)"

definition append_output_token_ids ::
    "hash_fn \<Rightarrow> bytes \<Rightarrow> int \<Rightarrow> int list \<Rightarrow> request \<Rightarrow> request res option" where
  "append_output_token_ids H none_hash hash_block_size token_ids r =
     update_block_hashes H none_hash hash_block_size
       (r\<lparr>all_token_ids := all_token_ids r @ token_ids\<rparr>)"

section \<open>Hashes at a coarser block size\<close>

text \<open>\<open>BlockHashList\<close>: a list, or the view \<open>BlockHashListWithBlockSize\<close> with its scale factor.\<close>

datatype block_hash_list = RawHashes "bytes list" | ScaledHashes "bytes list" int

definition block_hash_list_with_block_size :: "bytes list \<Rightarrow> int \<Rightarrow> int \<Rightarrow> block_hash_list res" where
  "block_hash_list_with_block_size hashes hash_block_size target_block_size =
     bindE (py_assert (target_block_size mod hash_block_size = 0))
       (\<lambda>_. Inr (ScaledHashes hashes (target_block_size div hash_block_size)))"

fun bhl_len :: "block_hash_list \<Rightarrow> int" where
  "bhl_len (RawHashes hs) = int (length hs)"
| "bhl_len (ScaledHashes hs scale_factor) = int (length hs) div scale_factor"

text \<open>\<open>__getitem__\<close> at an integer (\<open>_get_value_at\<close> for the view).\<close>

fun bhl_get :: "block_hash_list \<Rightarrow> int \<Rightarrow> bytes res" where
  "bhl_get (RawHashes hs) idx = py_get hs idx"
| "bhl_get (ScaledHashes hs scale_factor) idx = py_get hs ((idx + 1) * scale_factor - 1)"

fun mapE :: "('a \<Rightarrow> 'b res) \<Rightarrow> 'a list \<Rightarrow> 'b list res" where
  "mapE f [] = Inr []"
| "mapE f (x # xs) = bindE (f x) (\<lambda>y. bindE (mapE f xs) (\<lambda>ys. Inr (y # ys)))"

text \<open>\<open>hashes[start:]\<close> and \<open>list(hashes)\<close>.\<close>

fun bhl_from :: "block_hash_list \<Rightarrow> int \<Rightarrow> bytes list res" where
  "bhl_from (RawHashes hs) start = Inr (py_slice_from hs start)"
| "bhl_from (ScaledHashes hs scale_factor) start =
     (let n = bhl_len (ScaledHashes hs scale_factor)
      in mapE (bhl_get (ScaledHashes hs scale_factor)) (py_range (int (py_bound (nat n) start)) n))"

definition bhl_iter :: "block_hash_list \<Rightarrow> bytes list res" where
  "bhl_iter hs = bhl_from hs 0"

definition resolve_block_hashes ::
    "block_hash_list \<Rightarrow> int \<Rightarrow> int \<Rightarrow> bool \<Rightarrow> int option \<Rightarrow> block_hash_list res" where
  "resolve_block_hashes hashes hash_block_size block_size fine_grained alignment_tokens =
     (if block_size = hash_block_size then Inr hashes
      else case hashes of
        ScaledHashes hs scale_factor \<Rightarrow>
          bindE (py_assert (scale_factor = block_size div hash_block_size)) (\<lambda>_. Inr hashes)
      | RawHashes hs \<Rightarrow>
          if fine_grained \<and> (case alignment_tokens of None \<Rightarrow> False
                             | Some a \<Rightarrow> a < block_size \<and> block_size mod a = 0)
          then Inr hashes
          else bindE (py_assert (block_size mod hash_block_size = 0))
                 (\<lambda>_. block_hash_list_with_block_size hs hash_block_size block_size))"

section \<open>Lemmas: keys\<close>

lemma uint_word_of_int_8: "uint (word_of_int n :: 8 word) = n mod 256"
  by (simp add: uint_word_of_int)

lemma from_to_bytes_4:
  assumes "to_bytes_4_big n = Inr bs"
  shows "from_bytes_big bs = n" "length bs = 4"
proof -
  from assms have n: "0 \<le> n" "n < 4294967296" and
    bs: "bs = [word_of_int (n div 16777216), word_of_int (n div 65536), word_of_int (n div 256), word_of_int n]"
    by (auto simp: to_bytes_4_big_def split: if_splits)
  define m1 where "m1 = n div 256"
  define m2 where "m2 = m1 div 256"
  define m3 where "m3 = m2 div 256"
  have q: "n div 65536 = m2" "n div 16777216 = m3"
    using zdiv_zmult2_eq [of 256 n 256] zdiv_zmult2_eq [of 256 n 65536] zdiv_zmult2_eq [of 256 m1 256]
    by (simp_all add: m1_def m2_def m3_def)
  have "0 \<le> m3" "m3 < 256" using n by (simp_all add: q [symmetric])
  then have d3: "m3 mod 256 = m3" by simp
  have step: "m1 * 256 + n mod 256 = n" "m2 * 256 + m1 mod 256 = m1" "m3 * 256 + m2 mod 256 = m2"
    by (simp_all add: m1_def m2_def m3_def)
  have "from_bytes_big bs = ((m3 mod 256 * 256 + m2 mod 256) * 256 + m1 mod 256) * 256 + n mod 256"
    unfolding bs q from_bytes_big_def by (simp only: foldl_Cons foldl_Nil uint_word_of_int_8 m1_def [symmetric] mult_zero_left add_0)
  also have "\<dots> = n" unfolding d3 step ..
  finally show "from_bytes_big bs = n" .
  show "length bs = 4" by (simp add: bs)
qed

lemma key_parts:
  assumes "make_block_hash_with_group_id h g = Inr k"
  shows "get_block_hash k = h" "get_group_id k = g" "0 \<le> g" "g < 2 ^ 32" "length k = length h + 4"
proof -
  from assms obtain bs where bs: "to_bytes_4_big g = Inr bs" "k = h @ bs"
    by (auto simp: make_block_hash_with_group_id_def bindE_eq_Inr)
  note fb = from_to_bytes_4 [OF bs(1)]
  have "py_bound (length k) (- 4) = length h" using bs fb by (simp add: py_bound_def)
  then show "get_block_hash k = h" "get_group_id k = g"
    using bs fb by (simp_all add: get_block_hash_def get_group_id_def py_slice_def py_slice_from_def py_bound_def)
  show "0 \<le> g" "g < 2 ^ 32" using bs(1) by (auto simp: to_bytes_4_big_def split: if_splits)
  show "length k = length h + 4" using bs fb by simp
qed

lemma make_key_total: "0 \<le> g \<Longrightarrow> g < 2 ^ 32 \<Longrightarrow> \<exists>k. make_block_hash_with_group_id h g = Inr k"
  by (simp add: make_block_hash_with_group_id_def to_bytes_4_big_def)

section \<open>Lemmas: the view at a coarser block size\<close>

lemma mapE_map: "(\<And>x. x \<in> set xs \<Longrightarrow> f x = Inr (g x)) \<Longrightarrow> mapE f xs = Inr (map g xs)"
  by (induction xs) auto

lemma bhl_get_scaled:
  assumes "0 < k" "0 \<le> i" "i < int (length hs) div k"
  shows "bhl_get (ScaledHashes hs k) i = Inr (hs ! nat ((i + 1) * k - 1))"
    and "(i + 1) * k \<le> int (length hs)"
proof -
  have "(i + 1) * k \<le> (int (length hs) div k) * k"
    using assms by (intro mult_right_mono) auto
  also have "\<dots> \<le> int (length hs)" using round_down_bounds [OF assms(1), of "int (length hs)"]
    by (simp add: round_down_def)
  finally show le: "(i + 1) * k \<le> int (length hs)" .
  have "0 < (i + 1) * k" using assms by simp
  with le show "bhl_get (ScaledHashes hs k) i = Inr (hs ! nat ((i + 1) * k - 1))"
    by (simp add: py_get_nonneg)
qed

section \<open>Lemmas: the hash chain\<close>

text \<open>
  The reference: \<open>contents\<close> lists what the hasher hashes for \<open>n\<close> consecutive blocks (tokens and
  extra keys), \<open>chain_hashes\<close> chains the hash over such a list, \<open>chain_inputs\<close> are the hash
  function's arguments on the way.
\<close>

fun contents :: "request \<Rightarrow> int \<Rightarrow> nat \<Rightarrow> int \<Rightarrow> int \<Rightarrow> (int list \<times> extra_key list option) list" where
  "contents r hash_block_size 0 start idx = []"
| "contents r hash_block_size (Suc n) start idx =
     (case generate_block_hash_extra_keys r start (start + hash_block_size) idx of
        Inl e \<Rightarrow> []
      | Inr (ek, idx') \<Rightarrow>
          (py_slice (all_token_ids r) start (start + hash_block_size), ek)
          # contents r hash_block_size n (start + hash_block_size) idx')"

definition norm_parent :: "bytes \<Rightarrow> bytes option \<Rightarrow> bytes" where
  "norm_parent none_hash prev =
     (case prev of None \<Rightarrow> none_hash | Some h \<Rightarrow> if h = [] then none_hash else h)"

fun chain_hashes :: "hash_fn \<Rightarrow> bytes \<Rightarrow> bytes option \<Rightarrow> (int list \<times> extra_key list option) list \<Rightarrow> bytes list" where
  "chain_hashes H none_hash prev [] = []"
| "chain_hashes H none_hash prev (b # bs) =
     (let h = H (norm_parent none_hash prev, fst b, snd b)
      in h # chain_hashes H none_hash (Some h) bs)"

fun chain_inputs ::
    "hash_fn \<Rightarrow> bytes \<Rightarrow> bytes option \<Rightarrow> (int list \<times> extra_key list option) list
      \<Rightarrow> (bytes \<times> int list \<times> extra_key list option) list" where
  "chain_inputs H none_hash prev [] = []"
| "chain_inputs H none_hash prev (b # bs) =
     (norm_parent none_hash prev, fst b, snd b)
     # chain_inputs H none_hash (Some (H (norm_parent none_hash prev, fst b, snd b))) bs"


lemma chain_length [simp]: "length (chain_hashes H none_hash prev bs) = length bs"
  "length (chain_inputs H none_hash prev bs) = length bs"
  by (induction bs arbitrary: prev) (auto simp: Let_def)


lemma chain_hashes_append:
  "chain_hashes H none_hash prev (as @ bs) =
     chain_hashes H none_hash prev as
     @ chain_hashes H none_hash (if as = [] then prev else Some (last (chain_hashes H none_hash prev as))) bs"
proof (induction as arbitrary: prev)
  case (Cons a as)
  then show ?case by (cases as) (auto simp: Let_def)
qed simp

text \<open>The extra-key generator never raises on the indices the hasher passes.\<close>

lemma mm_keys_loop_idx: "mm_keys_loop fs s e i ks = (ks', i') \<Longrightarrow> i \<le> i'"
proof (induction fs s e i ks rule: mm_keys_loop.induct)
  case (2 f fs s e i ks)
  then show ?case by (fastforce simp: Let_def split: if_splits)
qed simp

lemma generate_keys_total:
  assumes "- 1 \<le> idx"
  shows "\<exists>ek idx'. generate_block_hash_extra_keys r s e idx = Inr (ek, idx') \<and> - 1 \<le> idx'"
proof -
  have "\<exists>ks i. gen_mm_extra_hash_keys r s e idx = Inr (ks, i) \<and> - 1 \<le> i"
  proof (cases "mm_features r = [] \<or> mm_offset (last (mm_features r)) + mm_length (last (mm_features r)) \<le> s")
    case True
    with assms show ?thesis by (auto simp: gen_mm_extra_hash_keys_def Let_def)
  next
    case False
    define i where "i = (if idx < 0 then int (length (mm_features r)) + idx else idx)"
    from False have len: "1 \<le> int (length (mm_features r))" by (cases "mm_features r") auto
    have i: "0 \<le> i" using len assms by (auto simp: i_def)
    obtain ks i' where loop: "mm_keys_loop (drop (nat i) (mm_features r)) s e i [] = (ks, i')" by fastforce
    from mm_keys_loop_idx [OF loop] i have "- 1 \<le> i'" by simp
    moreover have "gen_mm_extra_hash_keys r s e idx = Inr (ks, i')"
      using False len assms loop by (auto simp: gen_mm_extra_hash_keys_def Let_def i_def)
    ultimately show ?thesis by blast
  qed
  then show ?thesis by (auto simp: generate_block_hash_extra_keys_def Let_def)
qed

lemma contents_length: "- 1 \<le> idx \<Longrightarrow> length (contents r hbs n s idx) = n"
proof (induction n arbitrary: s idx)
  case (Suc n)
  with generate_keys_total [OF Suc.prems, of r s "s + hbs"] show ?case by fastforce
qed simp

text \<open>The loop computes the chain over the remaining full blocks, for any positive block size.\<close>

lemma hasher_loop_result:
  assumes "0 < hbs" "0 \<le> s" "s + int n * hbs \<le> num_tokens r" "num_tokens r < s + (int n + 1) * hbs" "- 1 \<le> idx"
  shows "hasher_loop H none_hash hbs r s idx prev acc =
     Some (Inr (acc @ chain_hashes H none_hash prev (contents r hbs n s idx)))"
  using assms(2-5)
proof (induction n arbitrary: s idx prev acc)
  case 0
  then show ?case by (simp add: hasher_loop.simps Let_def)
next
  case (Suc n)
  obtain ek idx' where g: "generate_block_hash_extra_keys r s (s + hbs) idx = Inr (ek, idx')" "- 1 \<le> idx'"
    using generate_keys_total [OF Suc.prems(4)] by blast
  have "s + hbs \<le> s + int (Suc n) * hbs" using assms(1) by (simp add: algebra_simps)
  with Suc.prems(2) have "\<not> num_tokens r < s + hbs" by linarith
  moreover have "s + hbs + int n * hbs \<le> num_tokens r" "num_tokens r < s + hbs + (int n + 1) * hbs"
    using Suc.prems(2,3) by (simp_all add: algebra_simps)
  ultimately show ?case
    using Suc.IH [of "s + hbs" idx'] Suc.prems(1) assms(1) g
    by (simp add: hasher_loop.simps [of H none_hash hbs r s] Let_def hash_block_tokens_def norm_parent_def)
qed





lemma update_block_hashes_fresh:
  assumes "0 < hbs" "block_hashes r = []"
  shows "update_block_hashes H none_hash hbs r =
    Some (Inr (r\<lparr>block_hashes := chain_hashes H none_hash None (contents r hbs (nat (num_tokens r div hbs)) 0 0)\<rparr>))"
proof -
  define n where "n = nat (num_tokens r div hbs)"
  have n: "int n = num_tokens r div hbs" using assms(1) by (simp add: n_def num_tokens_def pos_imp_zdiv_nonneg_iff)
  have "num_tokens r = hbs * int n + num_tokens r mod hbs" by (simp add: n)
  moreover have "0 \<le> num_tokens r mod hbs" "num_tokens r mod hbs < hbs" using assms(1) by simp_all
  ultimately have b: "0 + int n * hbs \<le> num_tokens r" "num_tokens r < 0 + (int n + 1) * hbs"
    by (simp_all add: algebra_simps)
  note loop = hasher_loop_result [OF assms(1) order_refl b, of 0 H none_hash None "[]"]
  show ?thesis
  proof (cases "num_tokens r < hbs")
    case True
    then have "n = 0" by (simp add: n_def num_tokens_def)
    with True assms show ?thesis
      by (simp add: update_block_hashes_def request_block_hasher_def n_def)
  next
    case False
    with assms loop show ?thesis
      by (simp add: update_block_hashes_def request_block_hasher_def n_def)
  qed
qed


section \<open>Lemmas: multi-modal keys, and hashing in steps\<close>

text \<open>
  Items of a prompt are sorted and do not overlap.  Started at the first item, the generator
  then yields a key for exactly the items the block overlaps.
\<close>

fun mm_sorted :: "mm_feature list \<Rightarrow> bool" where
  "mm_sorted [] \<longleftrightarrow> True"
| "mm_sorted (f # fs) \<longleftrightarrow>
     0 < mm_length f \<and> (\<forall>g\<in>set fs. mm_offset f + mm_length f \<le> mm_offset g) \<and> mm_sorted fs"

definition overlaps :: "int \<Rightarrow> int \<Rightarrow> mm_feature \<Rightarrow> bool" where
  "overlaps s e f \<longleftrightarrow> mm_offset f < e \<and> s < mm_offset f + mm_length f"

definition mm_key :: "int \<Rightarrow> mm_feature \<Rightarrow> extra_key" where
  "mm_key s f = KMM (mm_identifier f) (mm_offset f - s)"

lemma filter_overlaps_None: "(\<And>g. g \<in> set fs \<Longrightarrow> \<not> overlaps s e g) \<Longrightarrow> filter (overlaps s e) fs = []"
  by (simp add: filter_empty_conv)

lemma mm_keys_loop_complete:
  "mm_sorted fs \<Longrightarrow>
     fst (mm_keys_loop fs s e i ks) = ks @ map (mm_key s) (filter (overlaps s e) fs)"
proof (induction fs s e i ks rule: mm_keys_loop.induct)
  case (2 f fs s e i ks)
  have sub: "mm_sorted fs" and later: "\<And>g. g \<in> set fs \<Longrightarrow> mm_offset f + mm_length f \<le> mm_offset g"
    and pos: "0 < mm_length f" using 2 by auto
  consider (past) "mm_offset f < e" "mm_offset f + mm_length f \<le> s"
    | (inside) "mm_offset f < e" "s < mm_offset f + mm_length f" "mm_offset f + mm_length f \<le> e"
    | (cut) "mm_offset f < e" "s < mm_offset f + mm_length f" "e < mm_offset f + mm_length f"
    | (before) "e \<le> mm_offset f" by linarith
  then show ?case
  proof cases
    case past
    with 2(1) sub show ?thesis by (simp add: overlaps_def)
  next
    case inside
    with 2(2) [of "ks @ [KMM (mm_identifier f) (mm_offset f - s)]"] sub show ?thesis
      by (simp add: overlaps_def mm_key_def)
  next
    case cut
    then have "filter (overlaps s e) fs = []"
      using later by (intro filter_overlaps_None) (force simp: overlaps_def)
    moreover have "overlaps s e f" using cut by (simp add: overlaps_def)
    ultimately show ?thesis using cut by (simp add: mm_key_def)
  next
    case before
    then have "filter (overlaps s e) fs = []"
      using later pos by (intro filter_overlaps_None) (force simp: overlaps_def)
    moreover have "\<not> overlaps s e f" using before by (simp add: overlaps_def)
    ultimately show ?thesis using before by simp
  qed
qed simp

lemma mm_sorted_pos: "mm_sorted fs \<Longrightarrow> g \<in> set fs \<Longrightarrow> 0 < mm_length g"
  by (induction fs) auto

lemma mm_sorted_last:
  "mm_sorted fs \<Longrightarrow> g \<in> set fs \<Longrightarrow> mm_offset g + mm_length g \<le> mm_offset (last fs) + mm_length (last fs)"
proof (induction fs)
  case (Cons f fs)
  show ?case
  proof (cases "fs = []")
    case True
    with Cons show ?thesis by simp
  next
    case False
    then have "mm_offset f + mm_length f \<le> mm_offset (last fs)" using Cons.prems(1) by simp
    moreover have "0 < mm_length (last fs)" using Cons.prems(1) False mm_sorted_pos [of fs "last fs"] by simp
    ultimately have "mm_offset f + mm_length f \<le> mm_offset (last fs) + mm_length (last fs)" by linarith
    moreover have "g \<in> set fs \<Longrightarrow> mm_offset g + mm_length g \<le> mm_offset (last fs) + mm_length (last fs)"
      using Cons by simp
    ultimately show ?thesis using Cons.prems(2) False by auto
  qed
qed simp

abbreviation mm_end :: "mm_feature \<Rightarrow> int" where
  "mm_end f \<equiv> mm_offset f + mm_length f"

text \<open>The index that the loop returns: the first item that does not end within the block.\<close>

lemma mm_keys_loop_index:
  "\<lbrakk>mm_sorted fs; s \<le> e\<rbrakk> \<Longrightarrow> snd (mm_keys_loop fs s e i ks) = i + int (length (takeWhile (\<lambda>f. mm_end f \<le> e) fs))"
proof (induction fs s e i ks rule: mm_keys_loop.induct)
  case (2 f fs s e i ks)
  have sub: "mm_sorted fs" and pos: "0 < mm_length f" using "2.prems" by simp_all
  consider (past) "mm_offset f < e" "mm_end f \<le> s" | (inside) "mm_offset f < e" "s < mm_end f" "mm_end f \<le> e"
    | (other) "s < mm_end f" "e < mm_end f" using pos "2.prems"(2) by linarith
  then show ?case
  proof cases
    case past
    with 2(1) sub "2.prems"(2) show ?thesis by simp
  next
    case inside
    with 2(2) [of "ks @ [KMM (mm_identifier f) (mm_offset f - s)]"] sub "2.prems"(2) show ?thesis by simp
  next
    case other
    then show ?thesis by (auto simp: Let_def)
  qed
qed simp

text \<open>The item that a start index denotes; negative ones count from the end.\<close>

definition start_item :: "request \<Rightarrow> int \<Rightarrow> nat" where
  "start_item r idx = nat (if idx < 0 then int (length (mm_features r)) + idx else idx)"

lemma mm_sorted_drop: "mm_sorted fs \<Longrightarrow> mm_sorted (drop n fs)"
  by (induction fs arbitrary: n) (auto simp: drop_Cons split: nat.splits)

lemma overlaps_mm_end: "overlaps s e f \<Longrightarrow> s < mm_end f"
  by (simp add: overlaps_def)

lemma gen_mm_complete:
  fixes idx :: int
  assumes "mm_sorted (mm_features r)" "s \<le> e" "mm_features r = [] \<or> - int (length (mm_features r)) \<le> idx"
  defines "fs \<equiv> mm_features r" and "i \<equiv> start_item r idx"
  shows "gen_mm_extra_hash_keys r s e idx = Inr (map (mm_key s) (filter (overlaps s e) (drop i fs)),
    if fs = [] \<or> mm_end (last fs) \<le> s then idx else int (i + length (takeWhile (\<lambda>f. mm_end f \<le> e) (drop i fs))))"
proof (cases "fs = [] \<or> mm_end (last fs) \<le> s")
  case True
  have "\<not> overlaps s e g" if "g \<in> set (drop i fs)" for g
    using True mm_sorted_last [OF assms(1), of g] in_set_dropD [OF that] overlaps_mm_end [of s e g] by (auto simp: fs_def)
  then have "filter (overlaps s e) (drop i fs) = []" by (rule filter_overlaps_None)
  with True show ?thesis by (auto simp: gen_mm_extra_hash_keys_def Let_def fs_def)
next
  case False
  have i: "int i = (if idx < 0 then int (length fs) + idx else idx)"
    using assms(3) False by (auto simp: i_def start_item_def fs_def)
  have "gen_mm_extra_hash_keys r s e idx = Inr (mm_keys_loop (drop i fs) s e (int i) [])"
  proof (cases "idx < 0")
    case True
    then have "- idx \<le> int (length fs)" using assms(3) False by (auto simp: fs_def)
    moreover have "int (length fs) + idx = int i" using True i by simp
    ultimately show ?thesis using False True by (simp add: gen_mm_extra_hash_keys_def Let_def fs_def)
  next
    case neg: False
    then have "idx = int i" using i by simp
    then show ?thesis using False by (simp add: gen_mm_extra_hash_keys_def Let_def fs_def)
  qed
  moreover have "mm_sorted (drop i fs)" using assms(1) by (simp add: fs_def mm_sorted_drop)
  note loop = mm_keys_loop_complete [OF this, of s e "int i" "[]"] mm_keys_loop_index [OF this assms(2), of "int i" "[]"]
  ultimately show ?thesis using False loop by (simp add: prod_eq_iff)
qed

text \<open>If every item before the start item has ended, no item of the block is missed, and the same holds for the next block.\<close>

lemma overlaps_from_start:
  assumes "\<forall>f \<in> set (take i fs). mm_end f \<le> s"
  shows "filter (overlaps s e) (drop i fs) = filter (overlaps s e) fs"
proof -
  have "filter (overlaps s e) (take i fs) = []" using assms by (intro filter_overlaps_None) (force simp: overlaps_def)
  then show ?thesis using filter_append [of "overlaps s e" "take i fs" "drop i fs"] by simp
qed

lemma ended_before_next:
  assumes "\<forall>f \<in> set (take i fs). mm_end f \<le> s" "s \<le> e"
  shows "\<forall>f \<in> set (take (i + length (takeWhile (\<lambda>f. mm_end f \<le> e) (drop i fs))) fs). mm_end f \<le> e"
proof -
  have "take (i + length (takeWhile (\<lambda>f. mm_end f \<le> e) (drop i fs))) fs = take i fs @ takeWhile (\<lambda>f. mm_end f \<le> e) (drop i fs)"
    by (simp add: take_add takeWhile_eq_take [symmetric])
  then show ?thesis using assms by (auto dest: set_takeWhileD)
qed

text \<open>
  Once the block starts at or after the end of the last item, the key generator's start index
  is irrelevant; \<open>contents\<close> of later blocks then depends on the tokens only.
\<close>

definition mm_done :: "request \<Rightarrow> int \<Rightarrow> bool" where
  "mm_done r s \<longleftrightarrow>
     mm_features r = [] \<or> mm_offset (last (mm_features r)) + mm_length (last (mm_features r)) \<le> s"

lemma generate_keys_done:
  "mm_done r s \<Longrightarrow> \<exists>ek. \<forall>idx. generate_block_hash_extra_keys r s e idx = Inr (ek, idx)"
  by (auto simp: generate_block_hash_extra_keys_def gen_mm_extra_hash_keys_def mm_done_def Let_def)

lemma contents_done:
  "0 < hbs \<Longrightarrow> mm_done r s \<Longrightarrow> contents r hbs n s i = contents r hbs n s j"
proof (induction n arbitrary: s i j)
  case (Suc n)
  from generate_keys_done [OF Suc.prems(2), of "s + hbs"] obtain ek where
    "\<And>idx. generate_block_hash_extra_keys r s (s + hbs) idx = Inr (ek, idx)" by blast
  moreover have "mm_done r (s + hbs)" using Suc.prems by (auto simp: mm_done_def)
  ultimately show ?case using Suc.IH [OF Suc.prems(1)] by simp
qed simp

text \<open>The index after \<open>n\<close> blocks, and splitting the contents there.\<close>

fun idx_after :: "request \<Rightarrow> int \<Rightarrow> nat \<Rightarrow> int \<Rightarrow> int \<Rightarrow> int" where
  "idx_after r hbs 0 s idx = idx"
| "idx_after r hbs (Suc n) s idx =
     (case generate_block_hash_extra_keys r s (s + hbs) idx of
        Inl e \<Rightarrow> idx | Inr (ek, idx') \<Rightarrow> idx_after r hbs n (s + hbs) idx')"

lemma idx_after_ge: "- 1 \<le> idx \<Longrightarrow> - 1 \<le> idx_after r hbs n s idx"
proof (induction n arbitrary: s idx)
  case (Suc n)
  with generate_keys_total [OF Suc.prems, of r s "s + hbs"] show ?case by fastforce
qed simp

lemma contents_split:
  "- 1 \<le> idx \<Longrightarrow> contents r hbs (m + n) s idx =
     contents r hbs m s idx @ contents r hbs n (s + int m * hbs) (idx_after r hbs m s idx)"
proof (induction m arbitrary: s idx)
  case (Suc m)
  obtain ek idx' where "generate_block_hash_extra_keys r s (s + hbs) idx = Inr (ek, idx')" "- 1 \<le> idx'"
    using generate_keys_total [OF Suc.prems(1)] by blast
  with Suc.IH [of idx' "s + hbs"] show ?case by (simp add: algebra_simps)
qed simp

lemma contents_extend:
  assumes "0 < hbs" "0 \<le> s" "s + int n * hbs \<le> int (length (all_token_ids r))" "- 1 \<le> idx"
  shows "contents (r\<lparr>all_token_ids := all_token_ids r @ toks, block_hashes := hs\<rparr>) hbs n s idx = contents r hbs n s idx"
  using assms(2-4)
proof (induction n arbitrary: s idx)
  case (Suc n)
  let ?r = "r\<lparr>all_token_ids := all_token_ids r @ toks, block_hashes := hs\<rparr>"
  obtain ek idx' where g: "generate_block_hash_extra_keys r s (s + hbs) idx = Inr (ek, idx')" "- 1 \<le> idx'"
    using generate_keys_total [OF Suc.prems(3)] by blast
  have g': "generate_block_hash_extra_keys ?r s (s + hbs) idx = Inr (ek, idx')"
    using g by (simp add: generate_block_hash_extra_keys_def gen_mm_extra_hash_keys_def
        gen_lora_extra_hash_keys_def gen_prompt_embeds_extra_hash_keys_def)
  have "0 \<le> int n * hbs" using assms(1) by simp
  with Suc.prems have le: "s + hbs \<le> int (length (all_token_ids r))"
    and nxt: "s + hbs + int n * hbs \<le> int (length (all_token_ids r))" by (simp_all add: algebra_simps)
  have "py_slice (all_token_ids r @ toks) s (s + hbs) = py_slice (all_token_ids r) s (s + hbs)"
    using le Suc.prems(1) assms(1) by (simp add: py_slice_nonneg)
  with Suc.IH [OF _ nxt g(2)] Suc.prems(1) assms(1) g g' show ?case by simp
qed simp


lemma contents_block_hashes: "contents (r\<lparr>block_hashes := hs\<rparr>) hbs n s idx = contents r hbs n s idx"
proof (induction n arbitrary: s idx)
  case (Suc n)
  have "generate_block_hash_extra_keys (r\<lparr>block_hashes := hs\<rparr>) s e idx = generate_block_hash_extra_keys r s e idx" for e
    by (simp add: generate_block_hash_extra_keys_def gen_mm_extra_hash_keys_def gen_lora_extra_hash_keys_def
        gen_prompt_embeds_extra_hash_keys_def)
  with Suc show ?case by (simp split: sum.splits prod.splits)
qed simp

lemma chain_hashes_eq_Nil [simp]: "chain_hashes H none_hash prev bs = [] \<longleftrightarrow> bs = []"
  by (cases bs) (auto simp: Let_def)

section \<open>Properties\<close>

text \<open>
  A cache key is the block hash followed by the group id in four big-endian bytes: for a
  group id that fits in 32 bits, both parts are read back from the key unchanged (so keys of
  different groups or different hashes never coincide); any other group id raises
  \<open>OverflowError\<close>.
\<close>

theorem block_key_roundtrip:
  "if 0 \<le> g \<and> g < 2 ^ 32
   then (\<exists>k. make_block_hash_with_group_id h g = Inr k \<and> get_block_hash k = h \<and> get_group_id k = g)
   else make_block_hash_with_group_id h g = Inl OverflowError"
proof (cases "0 \<le> g \<and> g < 2 ^ 32")
  case True
  with make_key_total [of g h] key_parts [of h g] show ?thesis by auto
next
  case False
  then have "make_block_hash_with_group_id h g = Inl OverflowError"
    unfolding make_block_hash_with_group_id_def to_bytes_4_big_def by simp
  with False show ?thesis by (simp only: if_False)
qed

text \<open>
  C38. The extra keys a block's hash covers, for a prompt whose multi-modal items are sorted and
  disjoint: started at any item (a negative index counts from the end), the generator yields,
  besides the LoRA name, the cache salt (first block only) and the digest of the prompt
  embeddings, the identifier and relative position of every item from the start item on that the
  block overlaps, in order, and of no other.  The index it returns is the first item that does not
  end within the block.  If the items before the start item ended before the block, the keys cover
  all items that the block overlaps, and the index returned has the same property for the next
  block; so a hashing that starts at the first item misses none.
\<close>

theorem extra_keys_complete:
  assumes "mm_sorted (mm_features r)" "s \<le> e" "mm_features r = [] \<or> - int (length (mm_features r)) \<le> idx"
  shows "\<exists>idx' ks. generate_block_hash_extra_keys r s e idx = Inr (if ks = [] then None else Some ks, idx')
    \<and> ks = gen_lora_extra_hash_keys r
          @ map (mm_key s) (filter (overlaps s e) (drop (start_item r idx) (mm_features r)))
          @ (case cache_salt r of None \<Rightarrow> [] | Some salt \<Rightarrow> if s = 0 \<and> salt \<noteq> [] then [KStr salt] else [])
          @ gen_prompt_embeds_extra_hash_keys r s e
    \<and> idx' = (if mm_done r s then idx
          else int (start_item r idx + length (takeWhile (\<lambda>f. mm_end f \<le> e) (drop (start_item r idx) (mm_features r)))))
    \<and> ((\<forall>f \<in> set (take (start_item r idx) (mm_features r)). mm_end f \<le> s) \<longrightarrow>
          filter (overlaps s e) (drop (start_item r idx) (mm_features r)) = filter (overlaps s e) (mm_features r)
          \<and> (\<forall>f \<in> set (take (start_item r idx') (mm_features r)). mm_end f \<le> e))"
proof -
  let ?fs = "mm_features r" and ?i = "start_item r idx"
  let ?idx = "if mm_done r s then idx else int (?i + length (takeWhile (\<lambda>f. mm_end f \<le> e) (drop ?i ?fs)))"
  define keys where "keys = map (mm_key s) (filter (overlaps s e) (drop ?i ?fs))"
  define idx' where "idx' = ?idx"
  have run: "gen_mm_extra_hash_keys r s e idx = Inr (keys, idx')"
    unfolding keys_def idx'_def mm_done_def by (rule gen_mm_complete [OF assms])
  have "\<forall>f \<in> set (take (start_item r ?idx) ?fs). mm_end f \<le> e" if "\<forall>f \<in> set (take ?i ?fs). mm_end f \<le> s"
  proof (cases "mm_done r s")
    case True
    then show ?thesis using that assms(2) by (simp add: order_trans [OF _ assms(2)])
  next
    case False
    have "start_item r (int n) = n" for n by (simp add: start_item_def)
    then show ?thesis unfolding if_not_P [OF False] using ended_before_next [OF that assms(2)] by (simp only:)
  qed
  then have carried: "(\<forall>f \<in> set (take ?i ?fs). mm_end f \<le> s) \<longrightarrow> filter (overlaps s e) (drop ?i ?fs) = filter (overlaps s e) ?fs
      \<and> (\<forall>f \<in> set (take (start_item r idx') ?fs). mm_end f \<le> e)"
    using overlaps_from_start unfolding idx'_def by blast
  let ?ks = "gen_lora_extra_hash_keys r @ keys
    @ (case cache_salt r of None \<Rightarrow> [] | Some salt \<Rightarrow> if s = 0 \<and> salt \<noteq> [] then [KStr salt] else []) @ gen_prompt_embeds_extra_hash_keys r s e"
  have "generate_block_hash_extra_keys r s e idx = Inr (if ?ks = [] then None else Some ?ks, idx')"
    unfolding generate_block_hash_extra_keys_def run Let_def bindE_simps prod.case ..
  with carried show ?thesis unfolding keys_def [symmetric] idx'_def [symmetric] by blast
qed

definition sample_request :: "string \<Rightarrow> int list \<Rightarrow> mm_feature list \<Rightarrow> request" where
  "sample_request i toks fs = \<lparr>req_id = i, all_token_ids = toks, num_prompt_tokens = int (length toks),
     block_hashes = [], mm_features = fs, lora_request = None, cache_salt = None, prompt_embeds = None,
     num_computed_tokens = 0, num_in_flight_tokens = 0, shared_prefix_boundary = 0,
     status = WAITING, skip_reading_prefix_cache = False, kv_cache_report_full = False\<rparr>"

definition sample_item :: "string \<Rightarrow> int \<Rightarrow> int \<Rightarrow> mm_feature" where
  "sample_item i off len = \<lparr>mm_identifier = i, mm_offset = off, mm_length = len\<rparr>"

theorem extra_keys_complete_witness:
  "\<exists>idx'. generate_block_hash_extra_keys
      (sample_request ''r'' [1, 2, 3, 4, 5, 6] [sample_item ''a'' 0 3, sample_item ''b'' 3 2]) 2 4 0
    = Inr (Some [KMM ''a'' (- 2), KMM ''b'' 1], idx') \<and> idx' = 1"
proof -
  let ?r = "sample_request ''r'' [1, 2, 3, 4, 5, 6] [sample_item ''a'' 0 3, sample_item ''b'' 3 2]"
  have "mm_sorted (mm_features ?r)" "mm_features ?r = [] \<or> - int (length (mm_features ?r)) \<le> 0"
    by (simp_all add: sample_request_def sample_item_def)
  from extra_keys_complete [OF this(1) _ this(2), of 2 4] show ?thesis
    by (simp add: sample_request_def sample_item_def overlaps_def mm_key_def gen_lora_extra_hash_keys_def
        gen_prompt_embeds_extra_hash_keys_def start_item_def mm_done_def)
qed

text \<open>
  C37. Hashing a request ends for every positive hash block size, never raises, and leaves one
  hash per full block of the request.
\<close>

theorem block_hashes_complete:
  assumes "0 < hbs" "block_hashes r = []"
  shows "\<exists>hs. update_block_hashes H none_hash hbs r = Some (Inr (r\<lparr>block_hashes := hs\<rparr>))
    \<and> int (length hs) = num_tokens r div hbs"
  using assms(1)
  by (intro exI [of _ "chain_hashes H none_hash None (contents r hbs (nat (num_tokens r div hbs)) 0 0)"])
    (simp add: update_block_hashes_fresh [OF assms] contents_length num_tokens_def pos_imp_zdiv_nonneg_iff)

theorem block_hashes_complete_witness:
  "\<exists>hs. update_block_hashes (\<lambda>(p, ts, k). p @ map word_of_int ts) [1] 2 (sample_request ''r'' [5, 6, 7, 8, 9] [])
      = Some (Inr ((sample_request ''r'' [5, 6, 7, 8, 9] [])\<lparr>block_hashes := hs\<rparr>)) \<and> int (length hs) = 2"
  using block_hashes_complete [of 2 "sample_request ''r'' [5, 6, 7, 8, 9] []" "\<lambda>(p, ts, k). p @ map word_of_int ts" "[1]"]
  by (simp add: sample_request_def num_tokens_def)





text \<open>The hasher continues after the blocks that are hashed already.\<close>

lemma request_block_hasher_result:
  assumes "0 < hbs" "length (block_hashes q) = n" "n \<le> m" "int m * hbs \<le> num_tokens q" "num_tokens q < int m * hbs + hbs"
  shows "\<exists>i. request_block_hasher H none_hash hbs q = Some (Inr (chain_hashes H none_hash
    (if block_hashes q = [] then None else Some (last (block_hashes q))) (contents q hbs (m - n) (int n * hbs) i)))"
proof (cases "num_tokens q < int n * hbs + hbs")
  case True
  have "\<not> n < m"
  proof
    assume "n < m"
    then have "(int n + 1) * hbs \<le> int m * hbs" using assms(1) by (intro mult_right_mono) simp_all
    with assms(4) True show False by (simp add: algebra_simps)
  qed
  with True assms(2,3) show ?thesis by (simp add: request_block_hasher_def)
next
  case False
  define i :: int where "i = (if 0 < int n * hbs then - 1 else 0)"
  have i: "- 1 \<le> i" by (simp add: i_def)
  have bnd: "int n * hbs + int (m - n) * hbs \<le> num_tokens q" "num_tokens q < int n * hbs + (int (m - n) + 1) * hbs"
    using assms(3-5) by (simp_all add: of_nat_diff algebra_simps)
  from False hasher_loop_result [OF assms(1) _ bnd i] assms(1) show ?thesis
    unfolding request_block_hasher_def Let_def assms(2) i_def [symmetric] by (intro exI [of _ i]) simp
qed

text \<open>
  C36. Hashing incrementally equals hashing from scratch: once every multi-modal item lies in
  blocks that are already hashed, appending output tokens to a hashed request gives exactly the
  hashes of the whole token sequence.
\<close>

theorem incremental_hashing:
  assumes "0 < hbs" "block_hashes r = []" "update_block_hashes H none_hash hbs r = Some (Inr r')"
    and "mm_done r (int (length (block_hashes r')) * hbs)"
  shows "append_output_token_ids H none_hash hbs toks r'
    = update_block_hashes H none_hash hbs (r\<lparr>all_token_ids := all_token_ids r @ toks\<rparr>)"
proof -
  define n where "n = nat (num_tokens r div hbs)"
  define hs where "hs = chain_hashes H none_hash None (contents r hbs n 0 0)"
  define R where "R = r\<lparr>all_token_ids := all_token_ids r @ toks\<rparr>"
  define Q where "Q = R\<lparr>block_hashes := hs\<rparr>"
  define m where "m = nat (num_tokens R div hbs)"
  have r': "r' = r\<lparr>block_hashes := hs\<rparr>"
    using assms(3) update_block_hashes_fresh [OF assms(1,2)] by (simp add: hs_def n_def)
  have len: "length hs = n" by (simp add: hs_def contents_length)
  have n: "int n = num_tokens r div hbs" and m: "int m = num_tokens R div hbs"
    using assms(1) by (simp_all add: n_def m_def num_tokens_def pos_imp_zdiv_nonneg_iff)
  have nm: "n \<le> m" unfolding n_def m_def
    using assms(1) by (intro nat_mono zdiv_mono1) (simp_all add: R_def num_tokens_def)
  note mb = round_down_bounds [OF assms(1), of "num_tokens R", unfolded round_down_def, folded m]
  note nb = round_down_bounds [OF assms(1), of "num_tokens r", unfolded round_down_def, folded n]
  have R: "R = r\<lparr>all_token_ids := all_token_ids r @ toks, block_hashes := []\<rparr>"
    and Q: "Q = r\<lparr>all_token_ids := all_token_ids r @ toks, block_hashes := hs\<rparr>"
    using assms(2) by (simp_all add: R_def Q_def)
  have pre: "contents R hbs n 0 0 = contents r hbs n 0 0"
    unfolding R using assms(1) nb by (intro contents_extend) (simp_all add: num_tokens_def)
  have same: "contents Q hbs k s i = contents R hbs k s i" for k s i
    unfolding Q_def by (rule contents_block_hashes)
  have mmd: "mm_done R (int n * hbs)" using assms(4) by (simp add: r' len R_def mm_done_def)
  have split: "contents R hbs m 0 0 = contents r hbs n 0 0 @ contents Q hbs (m - n) (int n * hbs) i" for i
    using contents_split [of 0 R hbs n "m - n" 0] nm pre same contents_done [OF assms(1) mmd] by simp
  have chain: "chain_hashes H none_hash None (contents r hbs n 0 0 @ X)
      = hs @ chain_hashes H none_hash (if hs = [] then None else Some (last hs)) X" for X
    by (simp add: chain_hashes_append hs_def)
  have Rb: "block_hashes R = []" using assms(2) by (simp add: R_def)
  have scratch: "update_block_hashes H none_hash hbs R = Some (Inr (R\<lparr>block_hashes :=
      hs @ chain_hashes H none_hash (if hs = [] then None else Some (last hs)) (contents Q hbs (m - n) (int n * hbs) i)\<rparr>))" for i
    by (simp only: update_block_hashes_fresh [OF assms(1) Rb, folded m_def] split [of i] chain)
  have Qn: "num_tokens Q = num_tokens R" "block_hashes Q = hs" by (simp_all add: Q_def num_tokens_def)
  have upd: "r'\<lparr>all_token_ids := all_token_ids r' @ toks\<rparr> = Q" by (simp add: r' Q)
  have "int m * hbs \<le> num_tokens Q" "num_tokens Q < int m * hbs + hbs" using mb Qn(1) by (simp_all add: algebra_simps)
  from request_block_hasher_result [OF assms(1) _ nm this, of H none_hash] obtain i where
    "request_block_hasher H none_hash hbs Q = Some (Inr
        (chain_hashes H none_hash (if hs = [] then None else Some (last hs)) (contents Q hbs (m - n) (int n * hbs) i)))"
    unfolding Qn using len by blast
  then show ?thesis unfolding append_output_token_ids_def upd R_def [symmetric] scratch [of i]
    by (simp add: update_block_hashes_def Qn) (simp add: Q_def)
qed


theorem incremental_hashing_witness:
  "\<exists>r'. update_block_hashes (\<lambda>(p, ts, k). p @ map word_of_int ts) [1] 2 (sample_request ''r'' [5, 6, 7] []) = Some (Inr r')
    \<and> append_output_token_ids (\<lambda>(p, ts, k). p @ map word_of_int ts) [1] 2 [8] r'
      = update_block_hashes (\<lambda>(p, ts, k). p @ map word_of_int ts) [1] 2 (sample_request ''r'' [5, 6, 7, 8] []\<lparr>num_prompt_tokens := 3\<rparr>)"
proof -
  define H :: hash_fn where "H = (\<lambda>(p, ts, k). p @ map word_of_int ts)"
  define r where "r = sample_request ''r'' [5, 6, 7] []"
  have bh: "block_hashes r = []" by (simp add: r_def sample_request_def)
  have R: "r\<lparr>all_token_ids := all_token_ids r @ [8]\<rparr> = sample_request ''r'' [5, 6, 7, 8] []\<lparr>num_prompt_tokens := 3\<rparr>"
    by (simp add: r_def sample_request_def)
  obtain r' where r': "update_block_hashes H [1] 2 r = Some (Inr r')"
    using update_block_hashes_fresh [of 2 r H "[1]"] bh by simp
  have "append_output_token_ids H [1] 2 [8] r' = update_block_hashes H [1] 2 (r\<lparr>all_token_ids := all_token_ids r @ [8]\<rparr>)"
    by (rule incremental_hashing [OF _ bh r']) (simp_all add: mm_done_def r_def sample_request_def)
  with r' show ?thesis unfolding R by (auto simp: H_def r_def)
qed

definition tail_request :: "string \<Rightarrow> request" where
  "tail_request item = sample_request ''r'' [1, 2, 3, 4, 5] [sample_item item 3 1, sample_item ''z'' 4 1]"

definition hash_then_append ::
    "hash_fn \<Rightarrow> bytes \<Rightarrow> int \<Rightarrow> int list \<Rightarrow> request \<Rightarrow> bytes list res option" where
  "hash_then_append H none_hash hbs toks r =
     (case update_block_hashes H none_hash hbs r of
        Some (Inr r') \<Rightarrow> map_option (\<lambda>x. bindE x (\<lambda>q. Inr (block_hashes q))) (append_output_token_ids H none_hash hbs toks r')
      | Some (Inl e) \<Rightarrow> Some (Inl e)
      | None \<Rightarrow> None)"

lemma tail_request_hashes:
  "hash_then_append H none_hash 3 [6] (tail_request item) =
     (let h0 = H (none_hash, [1, 2, 3], None)
      in Some (Inr [h0, H (if h0 = [] then none_hash else h0, [4, 5, 6], Some [KMM ''z'' 1])]))"
  by (simp add: hash_then_append_def update_block_hashes_def append_output_token_ids_def request_block_hasher_def
      tail_request_def sample_request_def sample_item_def num_tokens_def hasher_loop.simps Let_def
      generate_block_hash_extra_keys_def gen_mm_extra_hash_keys_def gen_lora_extra_hash_keys_def
      gen_prompt_embeds_extra_hash_keys_def hash_block_tokens_def py_slice_def py_bound_def)

text \<open>
  The side condition of incremental hashing is needed.  When two multi-modal items lie in
  the unfinished tail of a prompt, the block that generated tokens complete is hashed with the
  last item's key only: two requests that differ in the first of these items get the same block
  hashes, whatever the hash function, although their blocks have different extra keys.
\<close>

theorem tail_mm_items_not_hashed:
  "hash_then_append H none_hash 3 [6] (tail_request a) = hash_then_append H none_hash 3 [6] (tail_request b)
   \<and> generate_block_hash_extra_keys (tail_request a) 3 6 0 = Inr (Some [KMM a 0, KMM ''z'' 1], 2)"
  by (simp add: tail_request_hashes)
    (simp add: tail_request_def sample_request_def sample_item_def generate_block_hash_extra_keys_def
      gen_mm_extra_hash_keys_def gen_lora_extra_hash_keys_def gen_prompt_embeds_extra_hash_keys_def)

text \<open>
  The view of the hashes at a coarser block size: for a block size that is a positive
  multiple of the hash block size the view has one entry per coarse block, and entry \<open>i\<close> is the
  fine-grained hash at the coarse block's last token, so it identifies the same prefix.
\<close>

theorem coarse_view_picks_boundaries:
  assumes "0 < hbs" "0 < k" "0 \<le> i" "i < int (length hs) div k"
  shows "\<exists>v. block_hash_list_with_block_size hs hbs (k * hbs) = Inr v
    \<and> bhl_len v = int (length hs) div k
    \<and> bhl_get v i = Inr (hs ! nat (((i + 1) * (k * hbs)) div hbs - 1))
    \<and> bhl_from v i = Inr (map (\<lambda>j. hs ! nat ((j + 1) * k - 1)) (py_range i (int (length hs) div k)))"
proof -
  have v: "block_hash_list_with_block_size hs hbs (k * hbs) = Inr (ScaledHashes hs k)"
    using assms(1) by (simp add: block_hash_list_with_block_size_def)
  have idx: "((i + 1) * (k * hbs)) div hbs = (i + 1) * k"
    using assms(1) by (metis mult.assoc nonzero_mult_div_cancel_right less_numeral_extra(3))
  have nat0: "int (py_bound (nat (int (length hs) div k)) i) = i"
    using assms by (simp add: py_bound_def)
  have "mapE (bhl_get (ScaledHashes hs k)) (py_range i (int (length hs) div k))
      = Inr (map (\<lambda>j. hs ! nat ((j + 1) * k - 1)) (py_range i (int (length hs) div k)))"
    by (rule mapE_map, rule bhl_get_scaled(1)) (use assms in auto)
  then show ?thesis
    using v idx nat0 bhl_get_scaled(1) [OF assms(2-4)] by (simp del: bhl_get.simps)
qed

end
