(* ===== verification/Block_Map.thy ===== *)
theory Block_Map
  imports Free_Queue Block_Hash
begin

text \<open>
  \<^verbatim>\<open>BlockHashToBlockMap\<close> of \<^verbatim>\<open>vllm/v1/core/block_pool.py\<close>: the prefix-cache index from cache keys
  to blocks.  A key maps to one block directly or to an insertion-ordered dict of blocks.  A
  block object is its \<^typ>\<open>bref\<close>; block ids and block objects are in bijection, so an id
  argument is the block itself and the inner dict is the list of its blocks in order.
\<close>

section \<open>The map and its operations\<close>

datatype map_entry = Single bref | Dict "bref list"

type_synonym block_map = "bytes \<rightharpoonup> map_entry"

definition get_one_block :: "block_map \<Rightarrow> bytes \<Rightarrow> bref option res" where
  "get_one_block m key =
     (case m key of
        None \<Rightarrow> Inr None
      | Some (Single b) \<Rightarrow> Inr (Some b)
      | Some (Dict []) \<Rightarrow> Inl StopIteration
      | Some (Dict (b # bs)) \<Rightarrow> Inr (Some b))"

definition contain :: "block_map \<Rightarrow> bytes \<Rightarrow> bref \<Rightarrow> bool" where
  "contain m key block_id =
     (case m key of
        None \<Rightarrow> False
      | Some (Single b) \<Rightarrow> b = block_id
      | Some (Dict bs) \<Rightarrow> block_id \<in> set bs)"

definition dict_add :: "bref list \<Rightarrow> bref \<Rightarrow> bref list" where
  "dict_add bs b = (if b \<in> set bs then bs else bs @ [b])"

definition insert_bm :: "block_map \<Rightarrow> bytes \<Rightarrow> bref \<Rightarrow> block_map" where
  "insert_bm m key block =
     (case m key of
        None \<Rightarrow> m(key \<mapsto> Single block)
      | Some (Single b) \<Rightarrow> m(key \<mapsto> Dict (dict_add [b] block))
      | Some (Dict bs) \<Rightarrow> m(key \<mapsto> Dict (dict_add bs block)))"

definition pop_bm :: "block_map \<Rightarrow> bytes \<Rightarrow> bref \<Rightarrow> bref option \<times> block_map" where
  "pop_bm m key block_id =
     (case m key of
        None \<Rightarrow> (None, m)
      | Some (Single b) \<Rightarrow> if b = block_id then (Some b, m(key := None)) else (None, m)
      | Some (Dict bs) \<Rightarrow>
          (let block = (if block_id \<in> set bs then Some block_id else None);
               bs' = remove1 block_id bs
           in (block, if 0 < length bs' then m(key \<mapsto> Dict bs') else m(key := None))))"

section \<open>The contract\<close>

text \<open>
  What the pool relies on: an index whose abstraction gives, for each key, the candidate blocks
  in order, without repetition; lookup returns the first candidate.
\<close>

locale block_index =
  fixes inv :: "'m \<Rightarrow> bool"
    and cands :: "'m \<Rightarrow> 'k \<Rightarrow> 'b list"
    and lookup :: "'m \<Rightarrow> 'k \<Rightarrow> 'b option res"
    and member :: "'m \<Rightarrow> 'k \<Rightarrow> 'b \<Rightarrow> bool"
    and ins :: "'m \<Rightarrow> 'k \<Rightarrow> 'b \<Rightarrow> 'm"
    and rem :: "'m \<Rightarrow> 'k \<Rightarrow> 'b \<Rightarrow> 'b option \<times> 'm"
    and empty :: 'm
  assumes inv_empty: "inv empty" and cands_empty: "cands empty k = []"
    and cands_distinct: "inv m \<Longrightarrow> distinct (cands m k)"
    and lookup_cands: "inv m \<Longrightarrow> lookup m k = Inr (case cands m k of [] \<Rightarrow> None | b # _ \<Rightarrow> Some b)"
    and member_cands: "inv m \<Longrightarrow> member m k b \<longleftrightarrow> b \<in> set (cands m k)"
    and ins_inv: "inv m \<Longrightarrow> inv (ins m k b)"
    and ins_cands: "inv m \<Longrightarrow> b \<notin> set (cands m k) \<Longrightarrow> cands (ins m k b) = (cands m)(k := cands m k @ [b])"
    and rem_inv: "inv m \<Longrightarrow> inv (snd (rem m k b))"
    and rem_result: "inv m \<Longrightarrow> fst (rem m k b) = (if b \<in> set (cands m k) then Some b else None)"
    and rem_cands: "inv m \<Longrightarrow> cands (snd (rem m k b)) = (cands m)(k := remove1 b (cands m k))"
begin

lemma lookup_total: "inv m \<Longrightarrow> \<exists>r. lookup m k = Inr r"
  by (simp add: lookup_cands)

lemma lookup_sound: "inv m \<Longrightarrow> lookup m k = Inr (Some b) \<Longrightarrow> b \<in> set (cands m k)"
  by (auto simp: lookup_cands split: list.splits)

lemma lookup_miss: "inv m \<Longrightarrow> lookup m k = Inr None \<longleftrightarrow> cands m k = []"
  by (auto simp: lookup_cands split: list.splits)

lemma lookup_ins:
  "inv m \<Longrightarrow> b \<notin> set (cands m k) \<Longrightarrow>
     lookup (ins m k b) k' = (if k' = k \<and> cands m k = [] then Inr (Some b) else lookup m k')"
  by (auto simp: lookup_cands ins_inv ins_cands split: list.splits)

lemma rem_not_member: "inv m \<Longrightarrow> b \<notin> set (cands (snd (rem m k b)) k)"
  by (simp add: rem_cands cands_distinct)

lemma ins_rem_cands:
  "inv m \<Longrightarrow> b \<notin> set (cands m k) \<Longrightarrow> cands (snd (rem (ins m k b) k b)) = cands m"
  by (simp add: rem_cands ins_inv ins_cands remove1_append)

lemma rem_set:
  "inv m \<Longrightarrow> set (cands (snd (rem m k b)) k') = (if k' = k then set (cands m k) - {b} else set (cands m k'))"
  by (simp add: rem_cands cands_distinct)

end

section \<open>The dict-based index meets the contract\<close>

fun entry_blocks :: "map_entry \<Rightarrow> bref list" where
  "entry_blocks (Single b) = [b]"
| "entry_blocks (Dict bs) = bs"

definition bm_blocks :: "block_map \<Rightarrow> bytes \<Rightarrow> bref list" where
  "bm_blocks m key = (case m key of None \<Rightarrow> [] | Some e \<Rightarrow> entry_blocks e)"

definition bm_inv :: "block_map \<Rightarrow> bool" where
  "bm_inv m \<longleftrightarrow> (\<forall>key e. m key = Some e \<longrightarrow> entry_blocks e \<noteq> [] \<and> distinct (entry_blocks e))"

lemma bm_cands_ins: "b \<notin> set (bm_blocks m k) \<Longrightarrow> bm_blocks (insert_bm m k b) = (bm_blocks m)(k := bm_blocks m k @ [b])"
  by (auto simp: fun_eq_iff bm_blocks_def insert_bm_def dict_add_def split: option.splits map_entry.splits)

lemma bm_cands_rem: "bm_blocks (snd (pop_bm m k b)) = (bm_blocks m)(k := remove1 b (bm_blocks m k))"
  by (auto simp: fun_eq_iff bm_blocks_def pop_bm_def Let_def split: option.splits map_entry.splits)

lemma bm_inv_dict: "bm_inv m \<Longrightarrow> m k = Some (Dict bs) \<Longrightarrow> distinct bs \<and> bs \<noteq> []"
  by (force simp: bm_inv_def)

interpretation bm: block_index bm_inv bm_blocks get_one_block contain insert_bm pop_bm Map.empty
proof
  show "bm_inv Map.empty" by (simp add: bm_inv_def)
  show "bm_blocks Map.empty k = []" for k by (simp add: bm_blocks_def)
  fix m k b assume inv: "bm_inv m"
  show "distinct (bm_blocks m k)" using inv by (auto simp: bm_inv_def bm_blocks_def split: option.splits)
  show "get_one_block m k = Inr (case bm_blocks m k of [] \<Rightarrow> None | b # _ \<Rightarrow> Some b)"
    using inv by (fastforce simp: bm_inv_def bm_blocks_def get_one_block_def split: option.splits map_entry.splits list.splits)
  show "contain m k b \<longleftrightarrow> b \<in> set (bm_blocks m k)"
    by (auto simp: bm_blocks_def contain_def split: option.splits map_entry.splits)
  show "bm_inv (insert_bm m k b)"
    using inv bm_inv_dict [OF inv]
    by (auto simp: bm_inv_def insert_bm_def dict_add_def split: option.splits map_entry.splits if_splits)
  show "bm_blocks (insert_bm m k b) = (bm_blocks m)(k := bm_blocks m k @ [b])" if "b \<notin> set (bm_blocks m k)"
    using that by (rule bm_cands_ins)
  show "bm_inv (snd (pop_bm m k b))"
    using inv bm_inv_dict [OF inv]
    by (auto simp: bm_inv_def pop_bm_def Let_def split: option.splits map_entry.splits if_splits)
  show "fst (pop_bm m k b) = (if b \<in> set (bm_blocks m k) then Some b else None)"
    by (auto simp: bm_blocks_def pop_bm_def Let_def split: option.splits map_entry.splits)
  show "bm_blocks (snd (pop_bm m k b)) = (bm_blocks m)(k := remove1 b (bm_blocks m k))"
    by (rule bm_cands_rem)
qed

end
