(* ===== verification/Block_Pool.thy ===== *)
theory Block_Pool
  imports Complex_Main Block_Map
begin

text \<open>
  \<^verbatim>\<open>BlockPool\<close> of \<^verbatim>\<open>vllm/v1/core/block_pool.py\<close>: reference counts, the free queue, the
  prefix-cache index and the KV events.  Block objects live in a store from references to
  \<open>kv_block\<close> records.  A Python \<open>set\<close> of keys is a list without duplicates, in insertion order;
  the metrics collector (\<open>None\<close> unless metrics are sampled) is left out.
\<close>

section \<open>State\<close>

record kv_block =
  ref_cnt :: int
  block_hash :: "bytes option"
  block_hash_num_tokens :: "int option"
  is_null :: bool

datatype kv_event =
    BlockStored "ext_hash list" "ext_hash option" "int list" int "int option" "string option"
      "extra_key list option list option" int
  | BlockRemoved "ext_hash list" int
  | AllBlocksCleared

record pool =
  num_gpu_blocks :: int
  enable_caching :: bool
  hash_block_size :: int
  enable_kv_cache_events :: bool
  use_int_block_hashes :: bool
  blocks :: "bref \<Rightarrow> kv_block"
  free_block_queue :: freeq
  cached_block_hash_to_block :: block_map
  cached_block_hashes_by_block :: "bref \<rightharpoonup> bytes list"
  null_block :: bref
  kv_event_queue :: "kv_event list"

definition fresh_block :: kv_block where
  "fresh_block = \<lparr>ref_cnt = 0, block_hash = None, block_hash_num_tokens = None, is_null = False\<rparr>"

definition upd_block :: "bref \<Rightarrow> (kv_block \<Rightarrow> kv_block) \<Rightarrow> pool \<Rightarrow> pool" where
  "upd_block b f p = p\<lparr>blocks := (blocks p)(b := f (blocks p b))\<rparr>"

definition block_refs :: "pool \<Rightarrow> bref list" where
  "block_refs p = map Blk [0..<nat (num_gpu_blocks p)]"

definition block_pool_init :: "int \<Rightarrow> bool \<Rightarrow> int \<Rightarrow> bool \<Rightarrow> bool \<Rightarrow> pool res" where
  "block_pool_init n caching hbs events use_int =
     bindE (py_assert (0 < n)) (\<lambda>_.
     bindE (popleft (freeq_init (map Blk [0..<nat n]))) (\<lambda>(null, q).
       Inr \<lparr>num_gpu_blocks = n, enable_caching = caching, hash_block_size = hbs,
            enable_kv_cache_events = events, use_int_block_hashes = use_int,
            blocks = (\<lambda>_. fresh_block)(null := fresh_block\<lparr>is_null := True\<rparr>),
            free_block_queue = q, cached_block_hash_to_block = Map.empty,
            cached_block_hashes_by_block = Map.empty, null_block = null, kv_event_queue = []\<rparr>))"

section \<open>Block metadata (\<^verbatim>\<open>KVCacheBlock\<close>)\<close>

definition set_block_hash :: "bytes \<Rightarrow> int option \<Rightarrow> kv_block \<Rightarrow> kv_block res" where
  "set_block_hash h num_toks b =
     bindE (py_assert (block_hash b = None \<and> block_hash_num_tokens b = None))
       (\<lambda>_. Inr (b\<lparr>block_hash := Some h, block_hash_num_tokens := num_toks\<rparr>))"

definition reset_hash :: "kv_block \<Rightarrow> kv_block" where
  "reset_hash b = b\<lparr>block_hash := None, block_hash_num_tokens := None\<rparr>"

section \<open>Lookup\<close>

fun get_cached_loop :: "pool \<Rightarrow> bytes \<Rightarrow> int list \<Rightarrow> bref list \<Rightarrow> bref list option res" where
  "get_cached_loop p h [] cached_blocks = Inr (Some cached_blocks)"
| "get_cached_loop p h (group_id # gs) cached_blocks =
     bindE (make_block_hash_with_group_id h group_id) (\<lambda>key.
     bindE (get_one_block (cached_block_hash_to_block p) key) (\<lambda>found.
       case found of
         None \<Rightarrow> Inr None
       | Some b \<Rightarrow> get_cached_loop p h gs (cached_blocks @ [b])))"

definition get_cached_block :: "pool \<Rightarrow> bytes \<Rightarrow> int list \<Rightarrow> bref list option res" where
  "get_cached_block p h kv_cache_group_ids = get_cached_loop p h kv_cache_group_ids []"

section \<open>Cache entries of a block\<close>

fun pop_hashes :: "bref \<Rightarrow> bytes list \<Rightarrow> block_map \<Rightarrow> bytes list \<Rightarrow> bytes list \<times> block_map" where
  "pop_hashes b [] m removed = (removed, m)"
| "pop_hashes b (h # hs) m removed =
     (let (r, m') = pop_bm m h b
      in pop_hashes b hs m' (if r \<noteq> None then removed @ [h] else removed))"

definition remove_cached_block_hashes :: "bref \<Rightarrow> pool \<Rightarrow> bytes list \<times> pool" where
  "remove_cached_block_hashes b p =
     (let hs = (case block_hash (blocks p b) of None \<Rightarrow> [] | Some h \<Rightarrow> [h])
               @ (case cached_block_hashes_by_block p b of None \<Rightarrow> [] | Some ks \<Rightarrow> ks);
          p1 = p\<lparr>cached_block_hashes_by_block := (cached_block_hashes_by_block p)(b := None)\<rparr>
      in if hs = [] then ([], p1)
         else let (removed, m) = pop_hashes b hs (cached_block_hash_to_block p1) []
              in (removed, upd_block b reset_hash (p1\<lparr>cached_block_hash_to_block := m\<rparr>)))"

definition emit_block_removed_events :: "bytes list \<Rightarrow> pool \<Rightarrow> pool" where
  "emit_block_removed_events hs p =
     (if \<not> enable_kv_cache_events p then p
      else p\<lparr>kv_event_queue := kv_event_queue p @
             map (\<lambda>h. BlockRemoved [maybe_convert_block_hash (use_int_block_hashes p) (get_block_hash h)]
                        (get_group_id h)) hs\<rparr>)"

definition insert_block_hash :: "bytes \<Rightarrow> bref \<Rightarrow> int option \<Rightarrow> pool \<Rightarrow> pool res" where
  "insert_block_hash key b num_toks p =
     (if block_hash (blocks p b) = Some key then Inr p
      else if contain (cached_block_hash_to_block p) key b then Inr p
      else bindE
        (if block_hash (blocks p b) = None
         then bindE (set_block_hash key num_toks (blocks p b)) (\<lambda>blk. Inr (upd_block b (\<lambda>_. blk) p))
         else (let ks = (case cached_block_hashes_by_block p b of None \<Rightarrow> [] | Some ks \<Rightarrow> ks)
               in Inr (p\<lparr>cached_block_hashes_by_block :=
                     (cached_block_hashes_by_block p)(b \<mapsto> (if key \<in> set ks then ks else ks @ [key]))\<rparr>)))
        (\<lambda>p1. Inr (p1\<lparr>cached_block_hash_to_block := insert_bm (cached_block_hash_to_block p1) key b\<rparr>)))"

definition maybe_evict_cached_block :: "bref \<Rightarrow> pool \<Rightarrow> bool \<times> pool" where
  "maybe_evict_cached_block b p =
     (let (evicted_hashes, p1) = remove_cached_block_hashes b p
      in if evicted_hashes = [] then (False, p1)
         else (True, emit_block_removed_events evicted_hashes p1))"

definition move_block_hashes :: "bref \<Rightarrow> bref \<Rightarrow> pool \<Rightarrow> pool res" where
  "move_block_hashes src dst p =
     bindE (py_assert (block_hash (blocks p dst) = None)) (\<lambda>_.
     bindE (py_assert (cached_block_hashes_by_block p dst = None)) (\<lambda>_.
       let num_toks = block_hash_num_tokens (blocks p src);
           (removed, p1) = remove_cached_block_hashes src p
       in foldE (\<lambda>h. insert_block_hash h dst num_toks) removed p1))"

section \<open>Allocation, reference counts, freeing\<close>

definition get_num_free_blocks :: "pool \<Rightarrow> int" where
  "get_num_free_blocks p = num_free_blocks (free_block_queue p)"

definition add_ref :: "int \<Rightarrow> kv_block \<Rightarrow> kv_block" where
  "add_ref d b = b\<lparr>ref_cnt := ref_cnt b + d\<rparr>"

definition take_block :: "bref \<Rightarrow> pool \<Rightarrow> pool res" where
  "take_block b p =
     (let p1 = (if enable_caching p then snd (maybe_evict_cached_block b p) else p)
      in bindE (py_assert (ref_cnt (blocks p1 b) = 0)) (\<lambda>_. Inr (upd_block b (add_ref 1) p1)))"

definition get_new_blocks :: "int \<Rightarrow> pool \<Rightarrow> (bref list \<times> pool) res" where
  "get_new_blocks num_blocks p =
     (if get_num_free_blocks p < num_blocks then Inl ValueError
      else bindE (popleft_n num_blocks (free_block_queue p)) (\<lambda>(ret, q).
           bindE (foldE take_block ret (p\<lparr>free_block_queue := q\<rparr>)) (\<lambda>p1. Inr (ret, p1))))"

definition touch_block :: "bref \<Rightarrow> pool \<Rightarrow> pool res" where
  "touch_block b p =
     bindE (if ref_cnt (blocks p b) = 0 \<and> \<not> is_null (blocks p b)
            then bindE (remove_fq b (free_block_queue p)) (\<lambda>q. Inr (p\<lparr>free_block_queue := q\<rparr>))
            else Inr p)
       (\<lambda>p1. Inr (upd_block b (add_ref 1) p1))"

definition touch :: "bref list \<Rightarrow> pool \<Rightarrow> pool res" where
  "touch bs p = foldE touch_block bs p"

definition is_block_writable :: "pool \<Rightarrow> bref \<Rightarrow> bool" where
  "is_block_writable p b \<longleftrightarrow>
     \<not> is_null (blocks p b) \<and> ref_cnt (blocks p b) = 1 \<and> block_hash (blocks p b) = None"

text \<open>The loop of \<open>free_blocks\<close>: blocks to evict first, blocks to evict last.\<close>

fun free_loop :: "bref list \<Rightarrow> bref list \<Rightarrow> bref list \<Rightarrow> pool \<Rightarrow> bref list \<times> bref list \<times> pool" where
  "free_loop [] firsts lasts p = (firsts, lasts, p)"
| "free_loop (b # bs) firsts lasts p =
     (let p1 = upd_block b (add_ref (- 1)) p;
          blk = blocks p1 b
      in if ref_cnt blk = 0 \<and> \<not> is_null blk
         then if block_hash blk = None \<or> \<not> enable_caching p1
              then free_loop bs (firsts @ [b]) lasts p1
              else free_loop bs firsts (lasts @ [b]) p1
         else free_loop bs firsts lasts p1)"

definition free_blocks :: "bref list \<Rightarrow> pool \<Rightarrow> pool res" where
  "free_blocks ordered_blocks p =
     (let (firsts, lasts, p1) = free_loop ordered_blocks [] [] p
      in bindE (prepend_n firsts (free_block_queue p1)) (\<lambda>q1.
         bindE (append_n lasts q1) (\<lambda>q2. Inr (p1\<lparr>free_block_queue := q2\<rparr>))))"

definition evict_one :: "int \<Rightarrow> pool \<Rightarrow> pool res" where
  "evict_one block_id p =
     bindE (py_assert (block_id < num_gpu_blocks p)) (\<lambda>_.
     bindE (py_get (block_refs p) block_id) (\<lambda>b. Inr (snd (maybe_evict_cached_block b p))))"

definition evict_blocks :: "int list \<Rightarrow> pool \<Rightarrow> pool res" where
  "evict_blocks block_ids p = foldE evict_one block_ids p"

definition reset_prefix_cache :: "pool \<Rightarrow> bool \<times> pool" where
  "reset_prefix_cache p =
     (if num_gpu_blocks p - get_num_free_blocks p \<noteq> 1 then (False, p)
      else let p1 = p\<lparr>cached_block_hash_to_block := Map.empty, cached_block_hashes_by_block := Map.empty,
                      blocks := (\<lambda>b. if b \<in> set (block_refs p) then reset_hash (blocks p b) else blocks p b)\<rparr>
           in (True, if enable_kv_cache_events p1
                     then p1\<lparr>kv_event_queue := kv_event_queue p1 @ [AllBlocksCleared]\<rparr> else p1))"

text \<open>The usage ratio, as an exact rational where Python rounds to a float.\<close>

definition get_usage :: "pool \<Rightarrow> rat" where
  "get_usage p =
     (let total_gpu_blocks = num_gpu_blocks p - 1
      in if total_gpu_blocks = 0 then 0
         else 1 - of_int (get_num_free_blocks p) / of_int total_gpu_blocks)"

definition take_events :: "pool \<Rightarrow> kv_event list \<times> pool" where
  "take_events p =
     (if \<not> enable_kv_cache_events p then ([], p)
      else (kv_event_queue p, p\<lparr>kv_event_queue := []\<rparr>))"

section \<open>Caching blocks\<close>

definition build_block_stored_event ::
    "request \<Rightarrow> ext_hash list \<Rightarrow> ext_hash option \<Rightarrow> int \<Rightarrow> int \<Rightarrow> int \<Rightarrow> int \<Rightarrow> extra_key list option list \<Rightarrow> kv_event"
where
  "build_block_stored_event r hs parent start_token_idx end_token_idx block_size group_id extra_keys_list =
     BlockStored hs parent (py_slice (all_token_ids r) start_token_idx end_token_idx) block_size
       (map_option adapter_id (lora_request r)) (map_option lora_name (lora_request r))
       (if extra_keys_list = [] then None else Some extra_keys_list) group_id"

text \<open>
  The loop over the new full blocks; \<open>i\<close> is the index of \<open>enumerate\<close>.  The mask, when given, has
  the length of the list of blocks (asserted before the loop).
\<close>

fun cache_full_loop ::
    "bytes list \<Rightarrow> int \<Rightarrow> int \<Rightarrow> int \<Rightarrow> bool list option \<Rightarrow> bref list \<Rightarrow> int \<Rightarrow> ext_hash list \<Rightarrow> pool
      \<Rightarrow> (ext_hash list \<times> pool) res" where
  "cache_full_loop new_block_hashes num_cached_blocks block_size group_id block_mask [] i new_hashes p = Inr (new_hashes, p)"
| "cache_full_loop new_block_hashes num_cached_blocks block_size group_id block_mask (blk # bs) i new_hashes p =
     (if is_null (blocks p blk) \<or> (case block_mask of None \<Rightarrow> False | Some msk \<Rightarrow> \<not> msk ! nat i)
      then cache_full_loop new_block_hashes num_cached_blocks block_size group_id block_mask bs (i + 1) new_hashes p
      else
        bindE (py_get new_block_hashes i) (\<lambda>h.
        let num_hash_tokens = (num_cached_blocks + i + 1) * block_size in
        bindE (make_block_hash_with_group_id h group_id) (\<lambda>key.
        bindE (if block_hash (blocks p blk) \<noteq> None
               then bindE (py_assert (case block_hash_num_tokens (blocks p blk) of
                                        None \<Rightarrow> False | Some n \<Rightarrow> n < num_hash_tokens))
                      (\<lambda>_. let (removed, p1) = remove_cached_block_hashes blk p
                           in Inr (emit_block_removed_events removed p1))
               else Inr p) (\<lambda>p2.
        bindE (insert_block_hash key blk (Some num_hash_tokens) p2) (\<lambda>p3.
          cache_full_loop new_block_hashes num_cached_blocks block_size group_id block_mask bs (i + 1)
            (if enable_kv_cache_events p3
             then new_hashes @ [maybe_convert_block_hash (use_int_block_hashes p3) h] else new_hashes) p3)))))"

text \<open>The extra keys published with the event, one entry per cached block.\<close>

fun event_keys_loop ::
    "request \<Rightarrow> pool \<Rightarrow> bref list \<Rightarrow> int \<Rightarrow> int \<Rightarrow> bool list option \<Rightarrow> int list \<Rightarrow> int
      \<Rightarrow> extra_key list option list \<Rightarrow> extra_key list option list res" where
  "event_keys_loop r p bs num_cached_blocks block_size block_mask [] curr_mm_idx acc = Inr acc"
| "event_keys_loop r p bs num_cached_blocks block_size block_mask (i # is) curr_mm_idx acc =
     bindE (py_get bs i) (\<lambda>b.
       if is_null (blocks p b) then event_keys_loop r p bs num_cached_blocks block_size block_mask is curr_mm_idx acc
       else bindE (case block_mask of None \<Rightarrow> Inr True | Some msk \<Rightarrow> py_get msk (i - num_cached_blocks)) (\<lambda>keep.
         if \<not> keep then event_keys_loop r p bs num_cached_blocks block_size block_mask is curr_mm_idx acc
         else bindE (generate_block_hash_extra_keys r (i * block_size) (i * block_size + block_size) curr_mm_idx)
           (\<lambda>(extra_keys, curr_mm_idx').
              event_keys_loop r p bs num_cached_blocks block_size block_mask is curr_mm_idx' (acc @ [extra_keys]))))"

definition cache_full_blocks ::
    "request \<Rightarrow> bref list \<Rightarrow> int \<Rightarrow> int \<Rightarrow> int \<Rightarrow> int \<Rightarrow> bool list option \<Rightarrow> pool \<Rightarrow> pool res" where
  "cache_full_blocks r bs num_cached_blocks num_full_blocks block_size group_id block_mask p =
     (if num_full_blocks \<le> num_cached_blocks then Inr p
      else
        let new_full_blocks = py_slice bs num_cached_blocks num_full_blocks in
        bindE (py_assert (case block_mask of None \<Rightarrow> True | Some msk \<Rightarrow> length msk = length new_full_blocks)) (\<lambda>_.
        bindE (resolve_block_hashes (RawHashes (block_hashes r)) (hash_block_size p) block_size False None) (\<lambda>hs.
        bindE (bhl_from hs num_cached_blocks) (\<lambda>new_block_hashes.
        bindE (cache_full_loop new_block_hashes num_cached_blocks block_size group_id block_mask new_full_blocks 0 [] p)
          (\<lambda>(new_hashes, p1).
        if \<not> enable_kv_cache_events p1 then Inr p1
        else
          bindE (if num_cached_blocks = 0 then Inr None
                 else bindE (bhl_get hs (num_cached_blocks - 1))
                        (\<lambda>h. Inr (Some (maybe_convert_block_hash (use_int_block_hashes p1) h)))) (\<lambda>parent.
          bindE (event_keys_loop r p1 bs num_cached_blocks block_size block_mask
                   (py_range num_cached_blocks num_full_blocks) 0 []) (\<lambda>extra_keys_list.
          Inr (p1\<lparr>kv_event_queue := kv_event_queue p1 @
            [build_block_stored_event r new_hashes parent (num_cached_blocks * block_size)
               (num_full_blocks * block_size) block_size group_id extra_keys_list]\<rparr>))))))))"

fun cached_events_loop ::
    "request \<Rightarrow> pool \<Rightarrow> block_hash_list \<Rightarrow> int \<Rightarrow> int list \<Rightarrow> int \<Rightarrow> ext_hash list \<Rightarrow> extra_key list option list
      \<Rightarrow> (ext_hash list \<times> extra_key list option list) res" where
  "cached_events_loop r p hs block_size [] curr_mm_idx cached_hashes acc = Inr (cached_hashes, acc)"
| "cached_events_loop r p hs block_size (i # is) curr_mm_idx cached_hashes acc =
     bindE (bhl_get hs i) (\<lambda>h.
     bindE (generate_block_hash_extra_keys r (i * block_size) (i * block_size + block_size) curr_mm_idx)
       (\<lambda>(extra_keys, curr_mm_idx').
          cached_events_loop r p hs block_size is curr_mm_idx'
            (cached_hashes @ [maybe_convert_block_hash (use_int_block_hashes p) h]) (acc @ [extra_keys])))"

definition emit_cached_block_events :: "request \<Rightarrow> int \<Rightarrow> int \<Rightarrow> int \<Rightarrow> pool \<Rightarrow> pool res" where
  "emit_cached_block_events r num_cached_blocks block_size group_id p =
     (if \<not> enable_kv_cache_events p \<or> num_cached_blocks = 0 then Inr p
      else
        bindE (resolve_block_hashes (RawHashes (block_hashes r)) (hash_block_size p) block_size False None) (\<lambda>hs.
        bindE (cached_events_loop r p hs block_size (py_range 0 num_cached_blocks) 0 [] [])
          (\<lambda>(cached_hashes, extra_keys_list).
        if cached_hashes = [] then Inr p
        else Inr (p\<lparr>kv_event_queue := kv_event_queue p @
          [build_block_stored_event r cached_hashes None 0 (num_cached_blocks * block_size) block_size group_id
             extra_keys_list]\<rparr>))))"

definition get_partial_block_hash :: "pool \<Rightarrow> request \<Rightarrow> int \<Rightarrow> bytes res" where
  "get_partial_block_hash p r num_toks =
     bindE (py_assert (num_toks mod hash_block_size p = 0)) (\<lambda>_.
       let num_hash_blocks = num_toks div hash_block_size p in
       bindE (py_assert (0 < num_hash_blocks \<and> num_hash_blocks \<le> int (length (block_hashes r)))) (\<lambda>_.
         py_get (block_hashes r) (num_hash_blocks - 1)))"

definition get_partial_block_parent_hash_and_start :: "pool \<Rightarrow> request \<Rightarrow> int \<Rightarrow> (bytes option \<times> int) res" where
  "get_partial_block_parent_hash_and_start p r num_toks =
     (let num_hash_blocks = num_toks div hash_block_size p in
      bindE (if 1 < num_hash_blocks
             then bindE (py_get (block_hashes r) (num_hash_blocks - 2)) (\<lambda>h. Inr (Some h)) else Inr None)
        (\<lambda>parent_hash. Inr (parent_hash, (num_hash_blocks - 1) * hash_block_size p)))"

definition cache_partial_block ::
    "request \<Rightarrow> bref \<Rightarrow> int \<Rightarrow> int \<Rightarrow> int \<Rightarrow> pool \<Rightarrow> (bytes option \<times> pool) res" where
  "cache_partial_block r b num_toks group_id block_size p =
     (if is_null (blocks p b) then Inr (None, p)
      else
        bindE (py_assert (hash_block_size p < block_size)) (\<lambda>_.
        bindE (py_assert (block_size mod hash_block_size p = 0)) (\<lambda>_.
        bindE (py_assert (num_toks mod block_size \<noteq> 0)) (\<lambda>_.
        bindE (get_partial_block_hash p r num_toks) (\<lambda>h.
        let num_hash_blocks = num_toks div hash_block_size p in
        bindE (make_block_hash_with_group_id h group_id) (\<lambda>key.
        let already_cached = block_hash (blocks p b) = Some key \<or> contain (cached_block_hash_to_block p) key b;
            p1 = (if \<not> already_cached \<and> block_hash (blocks p b) \<noteq> None \<and>
                     (case block_hash_num_tokens (blocks p b) of
                        None \<Rightarrow> False | Some n \<Rightarrow> n < num_hash_blocks * hash_block_size p)
                  then let (removed, p') = remove_cached_block_hashes b p in emit_block_removed_events removed p'
                  else p) in
        bindE (insert_block_hash key b (Some (num_hash_blocks * hash_block_size p)) p1) (\<lambda>p2.
        if enable_kv_cache_events p2 \<and> \<not> already_cached
        then
          bindE (get_partial_block_parent_hash_and_start p2 r num_toks) (\<lambda>(parent_hash, block_start).
          bindE (generate_block_hash_extra_keys r block_start num_toks (if 0 < block_start then - 1 else 0))
            (\<lambda>(extra_keys, _).
          Inr (Some key, p2\<lparr>kv_event_queue := kv_event_queue p2 @
            [BlockStored [maybe_convert_block_hash (use_int_block_hashes p2) h]
               (map_option (maybe_convert_block_hash (use_int_block_hashes p2)) parent_hash)
               (py_slice (all_token_ids r) block_start num_toks) (num_toks - block_start)
               (map_option adapter_id (lora_request r)) (map_option lora_name (lora_request r))
               (Some [extra_keys]) group_id]\<rparr>)))
        else Inr (Some key, p2))))))))"

end
