(* ===== verification/Pool_Inv.thy ===== *)
theory Pool_Inv
  imports Block_Pool
begin

text \<open>
  The invariant of the block pool and the effect of every pool operation on it.  \<open>pool_inv p xs\<close>
  says that the free queue represents the list \<open>xs\<close>, that \<open>xs\<close> holds exactly the blocks other
  than the null block with reference count 0, and that the prefix-cache index and the hash
  metadata of the blocks describe the same relation between keys and blocks.
\<close>

section \<open>The invariant\<close>

definition block_keys :: "pool \<Rightarrow> bref \<Rightarrow> bytes list" where
  "block_keys p b = (case block_hash (blocks p b) of None \<Rightarrow> [] | Some h \<Rightarrow> [h])
     @ (case cached_block_hashes_by_block p b of None \<Rightarrow> [] | Some ks \<Rightarrow> ks)"

definition valid_block :: "pool \<Rightarrow> bref \<Rightarrow> bool" where
  "valid_block p b \<longleftrightarrow> b \<in> set (block_refs p)"

definition cache_inv :: "pool \<Rightarrow> bool" where
  "cache_inv p \<longleftrightarrow> bm_inv (cached_block_hash_to_block p)
     \<and> (\<forall>k b. b \<in> set (bm_blocks (cached_block_hash_to_block p) k) \<longleftrightarrow> k \<in> set (block_keys p b))
     \<and> (\<forall>b. distinct (block_keys p b))
     \<and> (\<forall>b. block_hash (blocks p b) = None \<longrightarrow>
          cached_block_hashes_by_block p b = None \<and> block_hash_num_tokens (blocks p b) = None)
     \<and> (\<forall>b. block_keys p b \<noteq> [] \<longrightarrow> valid_block p b \<and> b \<noteq> null_block p)"

definition ref_inv :: "pool \<Rightarrow> bool" where
  "ref_inv p \<longleftrightarrow> 0 < num_gpu_blocks p \<and> null_block p = Blk 0
     \<and> (\<forall>b. valid_block p b \<longrightarrow> (is_null (blocks p b) \<longleftrightarrow> b = null_block p))
     \<and> (\<forall>b. valid_block p b \<longrightarrow> b \<noteq> null_block p \<longrightarrow> 0 \<le> ref_cnt (blocks p b))"

definition free_set :: "pool \<Rightarrow> bref set" where
  "free_set p = {b. valid_block p b \<and> b \<noteq> null_block p \<and> ref_cnt (blocks p b) = 0}"

definition pool_inv :: "pool \<Rightarrow> bref list \<Rightarrow> bool" where
  "pool_inv p xs \<longleftrightarrow> cache_inv p \<and> ref_inv p \<and> fq_inv (free_block_queue p) xs \<and> set xs = free_set p"

text \<open>What never changes, and what an operation on the cache metadata leaves alone.\<close>

definition same_config :: "pool \<Rightarrow> pool \<Rightarrow> bool" where
  "same_config p p' \<longleftrightarrow> num_gpu_blocks p' = num_gpu_blocks p \<and> enable_caching p' = enable_caching p
     \<and> hash_block_size p' = hash_block_size p \<and> enable_kv_cache_events p' = enable_kv_cache_events p
     \<and> use_int_block_hashes p' = use_int_block_hashes p \<and> null_block p' = null_block p
     \<and> (\<forall>b. is_null (blocks p' b) = is_null (blocks p b))"

definition same_refs :: "pool \<Rightarrow> pool \<Rightarrow> bool" where
  "same_refs p p' \<longleftrightarrow> same_config p p' \<and> free_block_queue p' = free_block_queue p
     \<and> (\<forall>b. ref_cnt (blocks p' b) = ref_cnt (blocks p b))"

definition same_cache :: "pool \<Rightarrow> pool \<Rightarrow> bool" where
  "same_cache p p' \<longleftrightarrow> same_config p p' \<and> cached_block_hash_to_block p' = cached_block_hash_to_block p
     \<and> cached_block_hashes_by_block p' = cached_block_hashes_by_block p
     \<and> (\<forall>b. block_hash (blocks p' b) = block_hash (blocks p b)
            \<and> block_hash_num_tokens (blocks p' b) = block_hash_num_tokens (blocks p b))"

lemma same_config_refl [simp]: "same_config p p" by (simp add: same_config_def)
lemma same_refs_refl [simp]: "same_refs p p" by (simp add: same_refs_def)
lemma same_cache_refl [simp]: "same_cache p p" by (simp add: same_cache_def)

lemma same_config_trans: "same_config p q \<Longrightarrow> same_config q r \<Longrightarrow> same_config p r"
  by (simp add: same_config_def)

lemma same_refs_trans: "same_refs p q \<Longrightarrow> same_refs q r \<Longrightarrow> same_refs p r"
  by (auto simp: same_refs_def intro: same_config_trans)

lemma same_cache_trans: "same_cache p q \<Longrightarrow> same_cache q r \<Longrightarrow> same_cache p r"
  by (auto simp: same_cache_def intro: same_config_trans)

lemma same_refs_config: "same_refs p q \<Longrightarrow> same_config p q" by (simp add: same_refs_def)
lemma same_cache_config: "same_cache p q \<Longrightarrow> same_config p q" by (simp add: same_cache_def)

lemma valid_block_config: "same_config p p' \<Longrightarrow> valid_block p' b \<longleftrightarrow> valid_block p b"
  by (simp add: valid_block_def block_refs_def same_config_def)

lemma valid_block_real: "valid_block p b \<Longrightarrow> real_block b"
  by (auto simp: valid_block_def block_refs_def real_block_def)

lemma same_refs_pool:
  assumes "same_refs p p'" "cache_inv p'" "pool_inv p xs"
  shows "pool_inv p' xs"
proof -
  have c: "same_config p p'" using assms(1) by (rule same_refs_config)
  have "ref_inv p'"
    using assms(1,3) valid_block_config [OF c] by (auto simp: pool_inv_def ref_inv_def same_refs_def same_config_def)
  moreover have "free_set p' = free_set p"
    using assms(1) valid_block_config [OF c] by (auto simp: free_set_def same_refs_def same_config_def)
  ultimately show ?thesis using assms by (simp add: pool_inv_def same_refs_def)
qed

lemma block_keys_cong: "same_cache p p' \<Longrightarrow> block_keys p' b = block_keys p b"
  by (simp add: block_keys_def same_cache_def)

lemma same_cache_inv:
  assumes "same_cache p p'" "cache_inv p"
  shows "cache_inv p'"
proof -
  have "valid_block p' b = valid_block p b" "null_block p' = null_block p" for b
    using valid_block_config [OF same_cache_config [OF assms(1)]] assms(1)
    by (simp_all add: same_cache_def same_config_def)
  then show ?thesis
    using assms block_keys_cong [OF assms(1)] unfolding cache_inv_def same_cache_def by simp
qed

lemma cache_inv_member:
  "cache_inv p \<Longrightarrow> b \<in> set (bm_blocks (cached_block_hash_to_block p) k) \<longleftrightarrow> k \<in> set (block_keys p b)"
  by (simp add: cache_inv_def)

lemma block_keys_Nil: "cache_inv p \<Longrightarrow> block_keys p b = [] \<longleftrightarrow> block_hash (blocks p b) = None"
  by (auto simp: cache_inv_def block_keys_def split: option.splits)

section \<open>Cache metadata operations\<close>

lemma pop_hashes_result:
  "\<lbrakk>bm_inv m; distinct hs; \<And>h. h \<in> set hs \<Longrightarrow> b \<in> set (bm_blocks m h)\<rbrakk> \<Longrightarrow>
     \<exists>m'. pop_hashes b hs m removed = (removed @ hs, m') \<and> bm_inv m'
        \<and> bm_blocks m' = (\<lambda>k. if k \<in> set hs then remove1 b (bm_blocks m k) else bm_blocks m k)"
proof (induction hs arbitrary: m removed)
  case (Cons h hs)
  define m1 where "m1 = snd (pop_bm m h b)"
  have pop: "pop_bm m h b = (Some b, m1)"
    using bm.rem_result [OF Cons.prems(1), of h b] Cons.prems(3) [of h] by (simp add: m1_def prod_eq_iff)
  have m1: "bm_inv m1" "bm_blocks m1 = (bm_blocks m)(h := remove1 b (bm_blocks m h))"
    using bm.rem_inv [OF Cons.prems(1)] bm.rem_cands [OF Cons.prems(1)] by (simp_all add: m1_def)
  have "b \<in> set (bm_blocks m1 k)" if "k \<in> set hs" for k
    using that Cons.prems m1 by auto
  then obtain m' where "pop_hashes b hs m1 (removed @ [h]) = ((removed @ [h]) @ hs, m')" "bm_inv m'"
    "bm_blocks m' = (\<lambda>k. if k \<in> set hs then remove1 b (bm_blocks m1 k) else bm_blocks m1 k)"
    using Cons.IH [of m1 "removed @ [h]"] m1(1) Cons.prems(2) by auto
  with pop m1 Cons.prems(2) show ?case by (auto simp: fun_eq_iff)
qed auto

lemma remove_cached_result:
  assumes "cache_inv p"
  shows "\<exists>p'. remove_cached_block_hashes b p = (block_keys p b, p') \<and> cache_inv p' \<and> same_refs p p'
    \<and> block_keys p' = (block_keys p)(b := [])
    \<and> kv_event_queue p' = kv_event_queue p
    \<and> (\<forall>c. c \<noteq> b \<longrightarrow> blocks p' c = blocks p c)"
proof (cases "block_keys p b = []")
  case True
  let ?p = "p\<lparr>cached_block_hashes_by_block := (cached_block_hashes_by_block p)(b := None)\<rparr>"
  have none: "cached_block_hashes_by_block p b = None"
    using True assms block_keys_Nil [OF assms] by (simp add: cache_inv_def)
  then have eq: "?p = p" by (simp add: fun_upd_idem)
  have "remove_cached_block_hashes b p = ([], p)"
    using True by (simp add: remove_cached_block_hashes_def block_keys_def eq)
  with True assms show ?thesis by auto
next
  case False
  let ?m = "cached_block_hash_to_block p"
  obtain m' where m': "pop_hashes b (block_keys p b) ?m [] = (block_keys p b, m')" "bm_inv m'"
    "bm_blocks m' = (\<lambda>k. if k \<in> set (block_keys p b) then remove1 b (bm_blocks ?m k) else bm_blocks ?m k)"
    using pop_hashes_result [of ?m "block_keys p b" b "[]"] assms by (auto simp: cache_inv_def)
  define p' where "p' = upd_block b reset_hash
      (p\<lparr>cached_block_hashes_by_block := (cached_block_hashes_by_block p)(b := None), cached_block_hash_to_block := m'\<rparr>)"
  have res: "remove_cached_block_hashes b p = (block_keys p b, p')"
    using False m'(1) unfolding remove_cached_block_hashes_def block_keys_def [symmetric] Let_def p'_def by simp
  have keys: "block_keys p' = (block_keys p)(b := [])"
    by (auto simp: fun_eq_iff p'_def block_keys_def upd_block_def reset_hash_def)
  have refs: "same_refs p p'"
    by (auto simp: same_refs_def same_config_def p'_def upd_block_def reset_hash_def)
  have dist: "distinct (bm_blocks ?m k)" for k
    using assms bm.cands_distinct by (simp add: cache_inv_def)
  have "cache_inv p'"
    unfolding cache_inv_def
  proof (intro conjI allI impI)
    show "bm_inv (cached_block_hash_to_block p')" using m'(2) by (simp add: p'_def upd_block_def)
    show "c \<in> set (bm_blocks (cached_block_hash_to_block p') k) \<longleftrightarrow> k \<in> set (block_keys p' c)" for k c
      using m'(3) keys cache_inv_member [OF assms] dist by (simp add: p'_def upd_block_def)
    show "distinct (block_keys p' c)" for c using assms keys by (simp add: cache_inv_def)
  qed (use assms keys refs valid_block_config [OF same_refs_config [OF refs]] in
      \<open>auto simp: cache_inv_def p'_def upd_block_def reset_hash_def split: if_splits\<close>)
  with res keys refs show ?thesis by (auto simp: p'_def upd_block_def)
qed

lemma emit_removed_frame [simp]:
  "blocks (emit_block_removed_events hs p) = blocks p"
  "cached_block_hash_to_block (emit_block_removed_events hs p) = cached_block_hash_to_block p"
  "cached_block_hashes_by_block (emit_block_removed_events hs p) = cached_block_hashes_by_block p"
  "free_block_queue (emit_block_removed_events hs p) = free_block_queue p"
  "same_config p (emit_block_removed_events hs p)"
  by (simp_all add: emit_block_removed_events_def same_config_def)

lemma events_frame:
  "same_refs p (p\<lparr>kv_event_queue := es\<rparr>)" "same_cache p (p\<lparr>kv_event_queue := es\<rparr>)"
  by (simp_all add: same_refs_def same_cache_def same_config_def)

lemma emit_removed_same: "same_refs p (emit_block_removed_events hs p)" "same_cache p (emit_block_removed_events hs p)"
  by (simp_all add: same_refs_def same_cache_def)

lemma maybe_evict_result:
  assumes "cache_inv p"
  shows "\<exists>p'. maybe_evict_cached_block b p = (block_keys p b \<noteq> [], p') \<and> cache_inv p' \<and> same_refs p p'
    \<and> block_keys p' = (block_keys p)(b := []) \<and> (\<forall>c. c \<noteq> b \<longrightarrow> blocks p' c = blocks p c)"
proof -
  obtain p1 where p1: "remove_cached_block_hashes b p = (block_keys p b, p1)" "cache_inv p1" "same_refs p p1"
    "block_keys p1 = (block_keys p)(b := [])" "\<forall>c. c \<noteq> b \<longrightarrow> blocks p1 c = blocks p c"
    using remove_cached_result [OF assms] by blast
  let ?p = "emit_block_removed_events (block_keys p b) p1"
  have "cache_inv ?p" "same_refs p ?p" "block_keys ?p = block_keys p1"
    using same_cache_inv [OF emit_removed_same(2) p1(2)] same_refs_trans [OF p1(3) emit_removed_same(1)]
      block_keys_cong [OF emit_removed_same(2)] by auto
  with p1 show ?thesis by (auto simp: maybe_evict_cached_block_def)
qed

lemma insert_block_hash_result:
  assumes "cache_inv p" "valid_block p b" "b \<noteq> null_block p"
  shows "\<exists>p'. insert_block_hash key b nt p = Inr p' \<and> cache_inv p' \<and> same_refs p p'
    \<and> block_keys p' = (block_keys p)(b := (if key \<in> set (block_keys p b) then block_keys p b else block_keys p b @ [key]))
    \<and> kv_event_queue p' = kv_event_queue p
    \<and> (\<forall>c. c \<noteq> b \<longrightarrow> blocks p' c = blocks p c)
    \<and> (block_keys p b = [] \<longrightarrow> block_hash_num_tokens (blocks p' b) = nt)"
proof (cases "key \<in> set (block_keys p b)")
  case True
  then have "block_hash (blocks p b) = Some key \<or> contain (cached_block_hash_to_block p) key b"
    using assms(1) bm.member_cands [of "cached_block_hash_to_block p" key b] cache_inv_member [OF assms(1)]
    by (simp add: cache_inv_def)
  then have "insert_block_hash key b nt p = Inr p" by (auto simp: insert_block_hash_def)
  with True assms show ?thesis by (auto simp: fun_upd_idem)
next
  case False
  let ?m = "cached_block_hash_to_block p"
  have bm: "bm_inv ?m" "b \<notin> set (bm_blocks ?m key)" using assms(1) False by (auto simp: cache_inv_def)
  have nc: "\<not> contain ?m key b" "block_hash (blocks p b) \<noteq> Some key"
    using bm bm.member_cands False by (auto simp: block_keys_def)
  define ks where "ks = (case cached_block_hashes_by_block p b of None \<Rightarrow> [] | Some ks \<Rightarrow> ks)"
  define p1 where "p1 = (if block_hash (blocks p b) = None
     then upd_block b (\<lambda>_. (blocks p b)\<lparr>block_hash := Some key, block_hash_num_tokens := nt\<rparr>) p
     else p\<lparr>cached_block_hashes_by_block := (cached_block_hashes_by_block p)(b \<mapsto> ks @ [key])\<rparr>)"
  define p' where "p' = p1\<lparr>cached_block_hash_to_block := insert_bm (cached_block_hash_to_block p1) key b\<rparr>"
  have nks: "key \<notin> set ks" using False by (auto simp: block_keys_def ks_def split: option.splits)
  have ins: "insert_block_hash key b nt p = Inr p'"
    using nc assms(1) nks
    by (simp add: insert_block_hash_def p'_def p1_def set_block_hash_def cache_inv_def ks_def [symmetric] Let_def)
  have m': "cached_block_hash_to_block p' = insert_bm ?m key b" by (simp add: p'_def p1_def upd_block_def)
  have keys: "block_keys p' = (block_keys p)(b := block_keys p b @ [key])"
    using assms(1)
    by (auto simp: fun_eq_iff p'_def p1_def block_keys_def upd_block_def ks_def cache_inv_def split: option.splits)
  have refs: "same_refs p p'" by (auto simp: same_refs_def same_config_def p'_def p1_def upd_block_def)
  have "cache_inv p'"
    unfolding cache_inv_def
  proof (intro conjI allI impI)
    show "bm_inv (cached_block_hash_to_block p')" using bm m' bm.ins_inv by simp
    show "c \<in> set (bm_blocks (cached_block_hash_to_block p') k) \<longleftrightarrow> k \<in> set (block_keys p' c)" for k c
      using bm m' keys cache_inv_member [OF assms(1)] by (auto simp: bm.ins_cands)
    show "distinct (block_keys p' c)" for c using assms(1) keys False by (simp add: cache_inv_def)
  qed (use assms keys refs valid_block_config [OF same_refs_config [OF refs]] in
      \<open>auto simp: cache_inv_def p'_def p1_def upd_block_def split: if_splits\<close>)
  moreover have "block_keys p b = [] \<longrightarrow> block_hash_num_tokens (blocks p' b) = nt"
    using block_keys_Nil [OF assms(1)] by (simp add: p'_def p1_def upd_block_def)
  ultimately show ?thesis using ins keys refs False by (auto simp: p'_def p1_def upd_block_def)
qed


lemma same_config_dest:
  assumes "same_config p p'"
  shows "null_block p' = null_block p" "num_gpu_blocks p' = num_gpu_blocks p" "enable_caching p' = enable_caching p"
    "is_null (blocks p' b) = is_null (blocks p b)" "valid_block p' b = valid_block p b"
  using assms valid_block_config [OF assms] by (simp_all add: same_config_def)

lemma ref_invI:
  assumes "pool_inv p xs" "same_config p p'"
    and "\<And>b. valid_block p b \<Longrightarrow> b \<noteq> null_block p \<Longrightarrow> 0 \<le> ref_cnt (blocks p' b)"
  shows "ref_inv p'"
proof -
  note d = same_config_dest [OF assms(2)]
  have "ref_inv p" using assms(1) by (simp add: pool_inv_def)
  with assms(3) show ?thesis by (auto simp: ref_inv_def d)
qed

section \<open>Allocation\<close>

lemma upd_ref_same_cache: "same_cache p (upd_block b (add_ref d) p)"
  by (auto simp: same_cache_def same_config_def upd_block_def add_ref_def)

lemma queue_same_cache: "same_cache p (p\<lparr>free_block_queue := q\<rparr>)"
  by (simp add: same_cache_def same_config_def)

lemma ref_upd_block: "ref_cnt (blocks (upd_block b (add_ref d) p) c) = ref_cnt (blocks p c) + (if c = b then d else 0)"
  by (simp add: upd_block_def add_ref_def)

lemma queue_upd_block [simp]: "free_block_queue (upd_block b f p) = free_block_queue p"
  by (simp add: upd_block_def)

lemma take_block_result:
  assumes "cache_inv p" "ref_cnt (blocks p b) = 0"
  shows "\<exists>p'. take_block b p = Inr p' \<and> cache_inv p' \<and> same_config p p' \<and> free_block_queue p' = free_block_queue p
    \<and> (\<forall>c. ref_cnt (blocks p' c) = ref_cnt (blocks p c) + (if c = b then 1 else 0))
    \<and> block_keys p' = (if enable_caching p then (block_keys p)(b := []) else block_keys p)"
proof -
  define p1 where "p1 = (if enable_caching p then snd (maybe_evict_cached_block b p) else p)"
  have p1: "cache_inv p1" "same_refs p p1"
    "block_keys p1 = (if enable_caching p then (block_keys p)(b := []) else block_keys p)"
    using maybe_evict_result [OF assms(1), of b] assms(1) by (auto simp: p1_def)
  let ?p = "upd_block b (add_ref 1) p1"
  have "take_block b p = Inr ?p"
    using p1(2) assms(2) by (simp add: take_block_def p1_def [symmetric] same_refs_def)
  moreover have "cache_inv ?p" "block_keys ?p = block_keys p1"
    using same_cache_inv [OF upd_ref_same_cache p1(1)] block_keys_cong [OF upd_ref_same_cache] by auto
  moreover have "same_config p ?p"
    using same_config_trans [OF same_refs_config [OF p1(2)] same_cache_config [OF upd_ref_same_cache]] .
  ultimately show ?thesis using p1 by (auto simp: ref_upd_block same_refs_def)
qed

lemma take_blocks_result:
  "\<lbrakk>cache_inv p; distinct bs; \<And>b. b \<in> set bs \<Longrightarrow> ref_cnt (blocks p b) = 0\<rbrakk> \<Longrightarrow>
   \<exists>p'. foldE take_block bs p = Inr p' \<and> cache_inv p' \<and> same_config p p' \<and> free_block_queue p' = free_block_queue p
    \<and> (\<forall>c. ref_cnt (blocks p' c) = ref_cnt (blocks p c) + (if c \<in> set bs then 1 else 0))
    \<and> block_keys p' = (\<lambda>c. if enable_caching p \<and> c \<in> set bs then [] else block_keys p c)"
proof (induction bs arbitrary: p)
  case (Cons b bs)
  obtain p1 where p1: "take_block b p = Inr p1" "cache_inv p1" "same_config p p1" "free_block_queue p1 = free_block_queue p"
    "\<forall>c. ref_cnt (blocks p1 c) = ref_cnt (blocks p c) + (if c = b then 1 else 0)"
    "block_keys p1 = (if enable_caching p then (block_keys p)(b := []) else block_keys p)"
    using take_block_result [OF Cons.prems(1), of b] Cons.prems(3) by auto
  have "ref_cnt (blocks p1 c) = 0" if "c \<in> set bs" for c
    using that Cons.prems(2,3) p1(5) by auto
  then obtain p2 where p2: "foldE take_block bs p1 = Inr p2" "cache_inv p2" "same_config p1 p2"
    "free_block_queue p2 = free_block_queue p1"
    "\<forall>c. ref_cnt (blocks p2 c) = ref_cnt (blocks p1 c) + (if c \<in> set bs then 1 else 0)"
    "block_keys p2 = (\<lambda>c. if enable_caching p1 \<and> c \<in> set bs then [] else block_keys p1 c)"
    using Cons.IH [OF p1(2)] Cons.prems(2) by auto
  have "enable_caching p1 = enable_caching p" using p1(3) by (simp add: same_config_def)
  with p1 p2 Cons.prems(2) same_config_trans [OF p1(3) p2(3)] show ?case by (auto simp: fun_eq_iff)
qed (auto simp: fun_eq_iff)

lemma get_num_free_blocks_inv: "pool_inv p xs \<Longrightarrow> get_num_free_blocks p = int (length xs)"
  by (simp add: pool_inv_def get_num_free_blocks_def lq.size_q)

lemma pool_inv_free: "pool_inv p xs \<Longrightarrow> b \<in> set xs \<longleftrightarrow> valid_block p b \<and> b \<noteq> null_block p \<and> ref_cnt (blocks p b) = 0"
  by (simp add: pool_inv_def free_set_def)

lemma pool_inv_distinct: "pool_inv p xs \<Longrightarrow> distinct xs"
  using lq.inv_distinct by (auto simp: pool_inv_def)

lemma pool_inv_nonneg: "pool_inv p xs \<Longrightarrow> valid_block p b \<Longrightarrow> b \<noteq> null_block p \<Longrightarrow> 0 \<le> ref_cnt (blocks p b)"
  by (simp add: pool_inv_def ref_inv_def)

text \<open>Allocation hands out the front of the free list and evicts the blocks from the cache.\<close>

lemma get_new_blocks_result:
  assumes inv: "pool_inv p xs" and n: "0 \<le> n" "n \<le> int (length xs)"
  shows "\<exists>p'. get_new_blocks n p = Inr (take (nat n) xs, p') \<and> pool_inv p' (drop (nat n) xs) \<and> same_config p p'
    \<and> (\<forall>c. ref_cnt (blocks p' c) = ref_cnt (blocks p c) + (if c \<in> set (take (nat n) xs) then 1 else 0))
    \<and> block_keys p' = (\<lambda>c. if enable_caching p \<and> c \<in> set (take (nat n) xs) then [] else block_keys p c)"
proof -
  let ?ys = "take (nat n) xs"
  have fq: "fq_inv (free_block_queue p) xs" using inv by (simp add: pool_inv_def)
  obtain q where q: "popleft_n n (free_block_queue p) = Inr (?ys, q)" "fq_inv q (drop (nat n) xs)"
    using lq.pop_ok [OF fq n] by blast
  let ?p1 = "p\<lparr>free_block_queue := q\<rparr>"
  have ci: "cache_inv ?p1" using same_cache_inv [OF queue_same_cache] inv by (simp add: pool_inv_def)
  have zero: "ref_cnt (blocks ?p1 b) = 0" if "b \<in> set ?ys" for b
    using pool_inv_free [OF inv, of b] in_set_takeD [OF that] by simp
  have dist: "distinct ?ys" using pool_inv_distinct [OF inv] by simp
  obtain p' where p': "foldE take_block ?ys ?p1 = Inr p'" "cache_inv p'" "same_config ?p1 p'"
    "free_block_queue p' = free_block_queue ?p1"
    "\<forall>c. ref_cnt (blocks p' c) = ref_cnt (blocks ?p1 c) + (if c \<in> set ?ys then 1 else 0)"
    "block_keys p' = (\<lambda>c. if enable_caching ?p1 \<and> c \<in> set ?ys then [] else block_keys ?p1 c)"
    using take_blocks_result [OF ci dist zero] by blast
  have bk: "block_keys ?p1 = block_keys p" using block_keys_cong [OF queue_same_cache] by blast
  have sc: "same_config p p'" using same_config_trans [OF same_cache_config [OF queue_same_cache] p'(3)] .
  note vb = valid_block_config [OF sc]
  have nb: "null_block p' = null_block p" "num_gpu_blocks p' = num_gpu_blocks p" "\<And>b. is_null (blocks p' b) = is_null (blocks p b)"
    using sc by (simp_all add: same_config_def)
  have "ref_inv p'" using p'(5) pool_inv_nonneg [OF inv] by (intro ref_invI [OF inv sc]) simp
  moreover have "set (drop (nat n) xs) = free_set p'"
  proof -
    have "set (drop (nat n) xs) = set xs - set ?ys"
      by (rule set_drop_distinct [OF pool_inv_distinct [OF inv]])
    also have "\<dots> = free_set p'"
    proof (rule set_eqI)
      fix c
      have "valid_block p c \<Longrightarrow> c \<noteq> null_block p \<Longrightarrow> 0 \<le> ref_cnt (blocks p c)" by (rule pool_inv_nonneg [OF inv])
      then show "c \<in> set xs - set ?ys \<longleftrightarrow> c \<in> free_set p'"
        using pool_inv_free [OF inv, of c] p'(5) by (auto simp: free_set_def vb nb)
    qed
    finally show ?thesis .
  qed
  ultimately have "pool_inv p' (drop (nat n) xs)" using p' q by (simp add: pool_inv_def)
  moreover have "get_new_blocks n p = Inr (?ys, p')"
    using q p' n get_num_free_blocks_inv [OF inv] by (simp add: get_new_blocks_def)
  ultimately show ?thesis using p'(5) p'(6) [unfolded bk] sc by (intro exI [of _ p']) simp
qed

lemma get_new_blocks_short: "pool_inv p xs \<Longrightarrow> int (length xs) < n \<Longrightarrow> get_new_blocks n p = Inl ValueError"
  by (simp add: get_new_blocks_def get_num_free_blocks_inv)

section \<open>Reference counts\<close>

text \<open>Changing reference counts and the queue together keeps the invariant if they agree.\<close>

lemma pool_invI_refs:
  assumes inv: "pool_inv p xs" and sc: "same_cache p p'" and fq: "fq_inv (free_block_queue p') ys"
    and nonneg: "\<And>b. valid_block p b \<Longrightarrow> b \<noteq> null_block p \<Longrightarrow> 0 \<le> ref_cnt (blocks p' b)"
    and ys: "\<And>b. b \<in> set ys \<longleftrightarrow> valid_block p b \<and> b \<noteq> null_block p \<and> ref_cnt (blocks p' b) = 0"
  shows "pool_inv p' ys"
proof -
  note d = same_config_dest [OF same_cache_config [OF sc]]
  have "ref_inv p'" using nonneg by (intro ref_invI [OF inv same_cache_config [OF sc]])
  moreover have "set ys = free_set p'" using ys d by (auto simp: free_set_def)
  ultimately show ?thesis using same_cache_inv [OF sc] inv fq by (simp add: pool_inv_def)
qed

lemma touch_block_result:
  assumes inv: "pool_inv p xs" and b: "valid_block p b"
  shows "\<exists>p'. touch_block b p = Inr p' \<and> pool_inv p' (filter (\<lambda>c. c \<noteq> b) xs) \<and> same_cache p p'
    \<and> (\<forall>c. ref_cnt (blocks p' c) = ref_cnt (blocks p c) + (if c = b then 1 else 0))"
proof -
  have null: "is_null (blocks p b) \<longleftrightarrow> b = null_block p" using inv b by (auto simp: pool_inv_def ref_inv_def)
  have fq: "fq_inv (free_block_queue p) xs" using inv by (simp add: pool_inv_def)
  have filt: "filter (\<lambda>c. c \<noteq> b) xs = remove1 b xs" by (rule filter_neq_distinct [OF pool_inv_distinct [OF inv]])
  obtain p1 where p1: "(if ref_cnt (blocks p b) = 0 \<and> \<not> is_null (blocks p b)
        then bindE (remove_fq b (free_block_queue p)) (\<lambda>q. Inr (p\<lparr>free_block_queue := q\<rparr>)) else Inr p) = Inr p1"
    "same_cache p p1" "blocks p1 = blocks p" "fq_inv (free_block_queue p1) (filter (\<lambda>c. c \<noteq> b) xs)"
  proof (cases "b \<in> set xs")
    case True
    with lq.rem_set [OF fq] obtain q where "remove_fq b (free_block_queue p) = Inr q" "fq_inv q (remove1 b xs)" by blast
    with that [of "p\<lparr>free_block_queue := q\<rparr>"] True pool_inv_free [OF inv, of b] null queue_same_cache filt
    show ?thesis by simp
  next
    case False
    then have "\<not> (ref_cnt (blocks p b) = 0 \<and> \<not> is_null (blocks p b))" "filter (\<lambda>c. c \<noteq> b) xs = xs"
      using pool_inv_free [OF inv, of b] null b filt by (auto simp: remove1_idem)
    with that [of p] fq show ?thesis by simp
  qed
  let ?p = "upd_block b (add_ref 1) p1"
  have sc: "same_cache p ?p" using same_cache_trans [OF p1(2) upd_ref_same_cache] .
  have refs: "ref_cnt (blocks ?p c) = ref_cnt (blocks p c) + (if c = b then 1 else 0)" for c
    by (simp add: ref_upd_block p1(3))
  have "pool_inv ?p (filter (\<lambda>c. c \<noteq> b) xs)"
  proof (rule pool_invI_refs [OF inv sc])
    show "0 \<le> ref_cnt (blocks ?p c)" if "valid_block p c" "c \<noteq> null_block p" for c
      using pool_inv_nonneg [OF inv that] refs [of c] by simp
    show "c \<in> set (filter (\<lambda>c. c \<noteq> b) xs) \<longleftrightarrow> valid_block p c \<and> c \<noteq> null_block p \<and> ref_cnt (blocks ?p c) = 0" for c
      using pool_inv_free [OF inv, of c] refs [of c] pool_inv_nonneg [OF inv, of c] by auto
  qed (use p1 in simp)
  moreover have "touch_block b p = Inr ?p" using p1(1) by (simp add: touch_block_def)
  ultimately show ?thesis using sc refs by blast
qed

lemma touch_result:
  "\<lbrakk>pool_inv p xs; \<And>b. b \<in> set bs \<Longrightarrow> valid_block p b\<rbrakk> \<Longrightarrow>
   \<exists>p'. touch bs p = Inr p' \<and> pool_inv p' (filter (\<lambda>c. c \<notin> set bs) xs) \<and> same_cache p p'
    \<and> (\<forall>c. ref_cnt (blocks p' c) = ref_cnt (blocks p c) + int (count_list bs c))"
proof (induction bs arbitrary: p xs)
  case Nil
  then show ?case by (simp add: touch_def)
next
  case (Cons b bs)
  obtain p1 where p1: "touch_block b p = Inr p1" "pool_inv p1 (filter (\<lambda>c. c \<noteq> b) xs)" "same_cache p p1"
    "\<forall>c. ref_cnt (blocks p1 c) = ref_cnt (blocks p c) + (if c = b then 1 else 0)"
    using touch_block_result [OF Cons.prems(1)] Cons.prems(2) by force
  have "valid_block p1 c" if "c \<in> set bs" for c
    using that Cons.prems(2) valid_block_config [OF same_cache_config [OF p1(3)]] by simp
  from Cons.IH [OF p1(2) this] obtain p2 where p2: "touch bs p1 = Inr p2"
    "pool_inv p2 (filter (\<lambda>c. c \<notin> set bs) (filter (\<lambda>c. c \<noteq> b) xs))" "same_cache p1 p2"
    "\<forall>c. ref_cnt (blocks p2 c) = ref_cnt (blocks p1 c) + int (count_list bs c)" by blast
  have "filter (\<lambda>c. c \<notin> set bs) (filter (\<lambda>c. c \<noteq> b) xs) = filter (\<lambda>c. c \<notin> set (b # bs)) xs"
    by (simp add: conj_commute)
  with p1 p2 same_cache_trans [OF p1(3) p2(3)] show ?case by (auto simp: touch_def)
qed

section \<open>Freeing\<close>

text \<open>
  The blocks a call of \<open>free_blocks\<close> returns to the queue: those whose last reference is
  dropped, each at its last occurrence, in the order given.
\<close>

definition dropped :: "pool \<Rightarrow> bref list \<Rightarrow> bref list" where
  "dropped p bs = filter (\<lambda>b. \<not> is_null (blocks p b) \<and> ref_cnt (blocks p b) = int (count_list bs b)) (remdups bs)"

definition evict_first :: "pool \<Rightarrow> bref \<Rightarrow> bool" where
  "evict_first p b \<longleftrightarrow> block_hash (blocks p b) = None \<or> \<not> enable_caching p"

lemma upd_ref_simps [simp]:
  "is_null (blocks (upd_block b (add_ref d) p) c) = is_null (blocks p c)"
  "block_hash (blocks (upd_block b (add_ref d) p) c) = block_hash (blocks p c)"
  "enable_caching (upd_block b (add_ref d) p) = enable_caching p"
  by (simp_all add: upd_block_def add_ref_def)

lemma evict_first_upd [simp]: "evict_first (upd_block b (add_ref d) p) = evict_first p"
  by (simp add: evict_first_def fun_eq_iff)

lemma dropped_Cons:
  assumes "\<And>c. c \<in> set (b # bs) \<Longrightarrow> \<not> is_null (blocks p c) \<Longrightarrow> int (count_list (b # bs) c) \<le> ref_cnt (blocks p c)"
  shows "dropped p (b # bs) =
    (if ref_cnt (blocks p b) = 1 \<and> \<not> is_null (blocks p b) then [b] else []) @ dropped (upd_block b (add_ref (- 1)) p) bs"
proof -
  let ?P = "\<lambda>c. \<not> is_null (blocks p c) \<and> ref_cnt (blocks p c) = int (count_list (b # bs) c)"
  have "dropped (upd_block b (add_ref (- 1)) p) bs = filter ?P (remdups bs)"
    unfolding dropped_def by (intro filter_cong refl) (auto simp: ref_upd_block)
  moreover have "ref_cnt (blocks p b) = 1 \<and> \<not> is_null (blocks p b) \<longleftrightarrow> b \<notin> set bs \<and> ?P b"
    using assms [of b] count_list_pos [of bs b] by auto
  ultimately show ?thesis by (auto simp: dropped_def)
qed

lemma free_loop_result:
  "(\<And>c. c \<in> set bs \<Longrightarrow> \<not> is_null (blocks p c) \<Longrightarrow> int (count_list bs c) \<le> ref_cnt (blocks p c)) \<Longrightarrow>
   \<exists>p'. free_loop bs firsts lasts p
      = (firsts @ filter (evict_first p) (dropped p bs), lasts @ filter (\<lambda>b. \<not> evict_first p b) (dropped p bs), p')
    \<and> same_cache p p' \<and> free_block_queue p' = free_block_queue p \<and> kv_event_queue p' = kv_event_queue p
    \<and> (\<forall>c. ref_cnt (blocks p' c) = ref_cnt (blocks p c) - int (count_list bs c))"
proof (induction bs arbitrary: p firsts lasts)
  case Nil
  then show ?case by (simp add: dropped_def)
next
  case (Cons b bs)
  let ?p1 = "upd_block b (add_ref (- 1)) p"
  have drop: "dropped p (b # bs) = (if ref_cnt (blocks p b) = 1 \<and> \<not> is_null (blocks p b) then [b] else []) @ dropped ?p1 bs"
    by (rule dropped_Cons) (rule Cons.prems)
  have pre: "int (count_list bs c) \<le> ref_cnt (blocks ?p1 c)" if "c \<in> set bs" "\<not> is_null (blocks ?p1 c)" for c
    using Cons.prems [of c] that by (auto simp: ref_upd_block)
  define fs where "fs = (if ref_cnt (blocks p b) = 1 \<and> \<not> is_null (blocks p b) \<and> evict_first p b then firsts @ [b] else firsts)"
  define ls where "ls = (if ref_cnt (blocks p b) = 1 \<and> \<not> is_null (blocks p b) \<and> \<not> evict_first p b then lasts @ [b] else lasts)"
  have step: "free_loop (b # bs) firsts lasts p = free_loop bs fs ls ?p1"
    by (simp add: fs_def ls_def ref_upd_block evict_first_def Let_def)
  obtain p' where p': "free_loop bs fs ls ?p1
      = (fs @ filter (evict_first p) (dropped ?p1 bs), ls @ filter (\<lambda>b. \<not> evict_first p b) (dropped ?p1 bs), p')"
    "same_cache ?p1 p'" "free_block_queue p' = free_block_queue ?p1" "kv_event_queue p' = kv_event_queue ?p1"
    "\<forall>c. ref_cnt (blocks p' c) = ref_cnt (blocks ?p1 c) - int (count_list bs c)"
    using Cons.IH [of ?p1 fs ls, OF pre] by auto
  have "same_cache p p'" using same_cache_trans [OF upd_ref_same_cache p'(2)] .
  moreover have "ref_cnt (blocks p' c) = ref_cnt (blocks p c) - int (count_list (b # bs) c)" for c
    using p'(5) by (simp add: ref_upd_block)
  moreover have "kv_event_queue p' = kv_event_queue p" using p'(4) by (simp add: upd_block_def)
  moreover have "fs @ filter (evict_first p) (dropped ?p1 bs) = firsts @ filter (evict_first p) (dropped p (b # bs))"
    "ls @ filter (\<lambda>b. \<not> evict_first p b) (dropped ?p1 bs) = lasts @ filter (\<lambda>b. \<not> evict_first p b) (dropped p (b # bs))"
    unfolding drop by (auto simp: fs_def ls_def)
  ultimately show ?case using p'(3) unfolding step p'(1) by auto
qed

text \<open>
  Freeing drops one reference per occurrence.  Blocks that become free go to the front of the
  free list if they hold no cached hash, to the back otherwise.
\<close>

lemma free_blocks_result:
  assumes inv: "pool_inv p xs" and valid: "\<And>b. b \<in> set bs \<Longrightarrow> valid_block p b"
    and owned: "\<And>b. b \<in> set bs \<Longrightarrow> b \<noteq> null_block p \<Longrightarrow> int (count_list bs b) \<le> ref_cnt (blocks p b)"
  shows "\<exists>p'. free_blocks bs p = Inr p' \<and> same_cache p p'
    \<and> pool_inv p' (filter (evict_first p) (dropped p bs) @ xs @ filter (\<lambda>b. \<not> evict_first p b) (dropped p bs))
    \<and> (\<forall>c. ref_cnt (blocks p' c) = ref_cnt (blocks p c) - int (count_list bs c))"
proof -
  let ?fs = "filter (evict_first p) (dropped p bs)" and ?ls = "filter (\<lambda>b. \<not> evict_first p b) (dropped p bs)"
  have null: "is_null (blocks p b) \<longleftrightarrow> b = null_block p" if "valid_block p b" for b
    using that inv by (simp add: pool_inv_def ref_inv_def)
  obtain p1 where p1: "free_loop bs [] [] p = (?fs, ?ls, p1)" "same_cache p p1" "free_block_queue p1 = free_block_queue p"
    "\<forall>c. ref_cnt (blocks p1 c) = ref_cnt (blocks p c) - int (count_list bs c)"
    using free_loop_result [of bs p "[]" "[]"] owned null [OF valid] by auto
  have mem: "b \<in> set (dropped p bs) \<longleftrightarrow> b \<in> set bs \<and> b \<noteq> null_block p \<and> ref_cnt (blocks p1 b) = 0" for b
    using null [OF valid] p1(4) by (auto simp: dropped_def)
  have fresh: "b \<notin> set xs" if "b \<in> set (dropped p bs)" for b
    using that pool_inv_free [OF inv, of b] p1(4) by (auto simp: mem count_list_0_iff)
  obtain q where q: "bindE (prepend_n ?fs (free_block_queue p)) (append_n ?ls) = Inr q" "fq_inv q (?fs @ xs @ ?ls)"
    using lq.release_ok [of "free_block_queue p" xs ?fs ?ls] inv fresh valid_block_real [OF valid] mem
    by (fastforce simp: pool_inv_def dropped_def)
  let ?p = "p1\<lparr>free_block_queue := q\<rparr>"
  have run: "free_blocks bs p = Inr ?p"
    using p1 q(1) by (auto simp: free_blocks_def bindE_eq_Inr)
  have sc: "same_cache p ?p" using same_cache_trans [OF p1(2) queue_same_cache] .
  have "pool_inv ?p (?fs @ xs @ ?ls)"
  proof (rule pool_invI_refs [OF inv sc])
    show "fq_inv (free_block_queue ?p) (?fs @ xs @ ?ls)" using q(2) by simp
    fix b
    show "0 \<le> ref_cnt (blocks ?p b)" if "valid_block p b" "b \<noteq> null_block p"
      using pool_inv_nonneg [OF inv that] owned [of b] that p1(4) by (cases "b \<in> set bs") (auto simp: count_list_0_iff)
    have "b \<in> set (?fs @ xs @ ?ls) \<longleftrightarrow> b \<in> set xs \<or> b \<in> set (dropped p bs)" by auto
    moreover have "b \<notin> set bs \<Longrightarrow> ref_cnt (blocks p1 b) = ref_cnt (blocks p b)" using p1(4) by (simp add: count_list_0_iff)
    moreover have "b \<in> set xs \<Longrightarrow> b \<notin> set bs"
      using owned [of b] pool_inv_free [OF inv, of b] count_list_pos [of bs b] by auto
    ultimately show "b \<in> set (?fs @ xs @ ?ls) \<longleftrightarrow> valid_block p b \<and> b \<noteq> null_block p \<and> ref_cnt (blocks ?p b) = 0"
      using mem [of b] pool_inv_free [OF inv, of b] valid [of b] by auto
  qed
  with run sc p1(4) show ?thesis by (intro exI [of _ ?p]) simp
qed

section \<open>Construction, eviction, reset\<close>

lemma block_pool_init_result:
  assumes "0 < n"
  shows "\<exists>p. block_pool_init n caching hbs events use_int = Inr p
    \<and> pool_inv p (map Blk [1..<nat n]) \<and> num_gpu_blocks p = n \<and> enable_caching p = caching \<and> hash_block_size p = hbs
    \<and> (\<forall>b. block_keys p b = []) \<and> (\<forall>b. ref_cnt (blocks p b) = 0)"
proof -
  let ?bs = "map Blk [0..<nat n]"
  have bs: "?bs = Blk 0 # map Blk [1..<nat n]" using assms by (simp add: upt_conv_Cons)
  have "fq_inv (freeq_init ?bs) ?bs" by (rule fq_init) (auto simp: distinct_map inj_on_def)
  then obtain q where q: "popleft (freeq_init ?bs) = Inr (Blk 0, q)" "fq_inv q (map Blk [1..<nat n])"
    using fq_popleft [of "freeq_init ?bs" "Blk 0" "map Blk [1..<nat n]"] unfolding bs by blast
  define p where "p = \<lparr>num_gpu_blocks = n, enable_caching = caching, hash_block_size = hbs,
            enable_kv_cache_events = events, use_int_block_hashes = use_int,
            blocks = (\<lambda>_. fresh_block)(Blk 0 := fresh_block\<lparr>is_null := True\<rparr>),
            free_block_queue = q, cached_block_hash_to_block = Map.empty,
            cached_block_hashes_by_block = Map.empty, null_block = Blk 0, kv_event_queue = []\<rparr>"
  have run: "block_pool_init n caching hbs events use_int = Inr p"
    using q(1) assms by (simp add: block_pool_init_def p_def)
  have keys: "block_keys p b = []" for b by (simp add: p_def block_keys_def fresh_block_def)
  have "cache_inv p"
    using keys bm.inv_empty bm.cands_empty by (auto simp: cache_inv_def) (auto simp: p_def fresh_block_def)
  moreover have "ref_inv p" using assms by (auto simp: ref_inv_def p_def fresh_block_def)
  moreover have "set (map Blk [1..<nat n]) = free_set p"
    by (auto simp: free_set_def p_def valid_block_def block_refs_def fresh_block_def)
  ultimately have "pool_inv p (map Blk [1..<nat n])" using q(2) by (simp add: pool_inv_def p_def)
  with run keys show ?thesis by (intro exI [of _ p]) (simp add: p_def fresh_block_def)
qed

lemma evict_one_result:
  assumes "cache_inv p" "0 \<le> i" "i < num_gpu_blocks p"
  shows "\<exists>p'. evict_one i p = Inr p' \<and> cache_inv p' \<and> same_refs p p' \<and> block_keys p' = (block_keys p)(Blk (nat i) := [])"
proof -
  have "py_get (block_refs p) i = Inr (Blk (nat i))"
    using assms by (simp add: py_get_nonneg block_refs_def nat_less_iff)
  with maybe_evict_result [OF assms(1), of "Blk (nat i)"] assms show ?thesis by (auto simp: evict_one_def)
qed

lemma evict_blocks_result:
  "\<lbrakk>cache_inv p; \<And>i. i \<in> set ids \<Longrightarrow> 0 \<le> i \<and> i < num_gpu_blocks p\<rbrakk> \<Longrightarrow>
   \<exists>p'. evict_blocks ids p = Inr p' \<and> cache_inv p' \<and> same_refs p p'
     \<and> block_keys p' = (\<lambda>b. if b \<in> (\<lambda>i. Blk (nat i)) ` set ids then [] else block_keys p b)"
proof (induction ids arbitrary: p)
  case Nil
  then show ?case by (simp add: evict_blocks_def)
next
  case (Cons i ids)
  obtain p1 where p1: "evict_one i p = Inr p1" "cache_inv p1" "same_refs p p1"
    "block_keys p1 = (block_keys p)(Blk (nat i) := [])"
    using evict_one_result [OF Cons.prems(1), of i] Cons.prems(2) [of i] by auto
  have "0 \<le> j \<and> j < num_gpu_blocks p1" if "j \<in> set ids" for j
    using that Cons.prems(2) p1(3) by (simp add: same_refs_def same_config_def)
  from Cons.IH [OF p1(2) this] obtain p2 where p2: "evict_blocks ids p1 = Inr p2" "cache_inv p2" "same_refs p1 p2"
    "block_keys p2 = (\<lambda>b. if b \<in> (\<lambda>i. Blk (nat i)) ` set ids then [] else block_keys p1 b)" by blast
  have "block_keys p2 = (\<lambda>b. if b \<in> (\<lambda>i. Blk (nat i)) ` set (i # ids) then [] else block_keys p b)"
    unfolding p2(4) p1(4) by (auto simp: fun_eq_iff)
  with p1 p2 same_refs_trans [OF p1(3) p2(3)] show ?case by (auto simp: evict_blocks_def)
qed

lemma card_free_set: "pool_inv p xs \<Longrightarrow> int (length xs) = int (card (free_set p))"
  using pool_inv_distinct [of p xs] by (simp add: pool_inv_def distinct_card [symmetric])

definition used_set :: "pool \<Rightarrow> bref set" where
  "used_set p = {b. valid_block p b \<and> b \<noteq> null_block p \<and> 0 < ref_cnt (blocks p b)}"

lemma valid_blocks: "{b. valid_block p b} = set (block_refs p)"
  by (simp add: valid_block_def)

lemma block_conservation:
  assumes "pool_inv p xs"
  shows "get_num_free_blocks p + int (card (used_set p)) + 1 = num_gpu_blocks p"
proof -
  have nb: "null_block p = Blk 0" "0 < num_gpu_blocks p" using assms by (auto simp: pool_inv_def ref_inv_def)
  have part: "free_set p \<union> used_set p = set (block_refs p) - {Blk 0}"
    using nb pool_inv_nonneg [OF assms] by (force simp: free_set_def used_set_def valid_block_def)
  have "card (free_set p) + card (used_set p) = card (free_set p \<union> used_set p)"
    by (rule card_Un_disjoint [symmetric])
      (auto simp: free_set_def used_set_def valid_block_def)
  also have "\<dots> = nat (num_gpu_blocks p) - 1"
    unfolding part using nb by (subst card_Diff_singleton) (auto simp: block_refs_def card_image inj_on_def)
  finally show ?thesis
    using nb card_free_set [OF assms] get_num_free_blocks_inv [OF assms] by linarith
qed

lemma reset_prefix_cache_result:
  assumes inv: "pool_inv p xs"
  shows "\<exists>p'. reset_prefix_cache p = (used_set p = {}, p') \<and> pool_inv p' xs \<and> same_refs p p'
    \<and> (used_set p = {} \<longrightarrow> (\<forall>b. block_keys p' b = [])) \<and> (used_set p \<noteq> {} \<longrightarrow> p' = p)"
proof -
  have fin: "finite (used_set p)" by (rule finite_subset [of _ "set (block_refs p)"]) (auto simp: used_set_def valid_block_def)
  have iff: "num_gpu_blocks p - get_num_free_blocks p \<noteq> 1 \<longleftrightarrow> used_set p \<noteq> {}"
    using block_conservation [OF inv] fin by (auto simp: card_0_eq [symmetric] simp del: card_0_eq)
  show ?thesis
  proof (cases "used_set p = {}")
    case False
    with iff inv show ?thesis by (simp add: reset_prefix_cache_def)
  next
    case True
    let ?p = "p\<lparr>cached_block_hash_to_block := Map.empty, cached_block_hashes_by_block := Map.empty,
        blocks := (\<lambda>b. if b \<in> set (block_refs p) then reset_hash (blocks p b) else blocks p b)\<rparr>"
    define p' where "p' = (if enable_kv_cache_events ?p then ?p\<lparr>kv_event_queue := kv_event_queue ?p @ [AllBlocksCleared]\<rparr> else ?p)"
    have run: "reset_prefix_cache p = (True, p')"
      using True iff by (simp add: reset_prefix_cache_def p'_def Let_def)
    have none: "block_hash (blocks p b) = None" if "b \<notin> set (block_refs p)" for b
      using that inv block_keys_Nil [of p b] by (auto simp: pool_inv_def cache_inv_def valid_block_def)
    have f: "blocks p' = (\<lambda>b. if b \<in> set (block_refs p) then reset_hash (blocks p b) else blocks p b)"
      "cached_block_hash_to_block p' = Map.empty" "cached_block_hashes_by_block p' = Map.empty"
      by (simp_all add: p'_def)
    have keys: "block_keys p' b = []" for b
      using none [of b] by (auto simp: block_keys_def f reset_hash_def)
    have "cache_inv p'"
      using keys bm.inv_empty bm.cands_empty none inv
      by (auto simp: cache_inv_def f reset_hash_def pool_inv_def)
    moreover have refs: "same_refs p p'" by (auto simp: same_refs_def same_config_def p'_def reset_hash_def)
    ultimately have "pool_inv p' xs" using same_refs_pool inv by blast
    with run refs keys True show ?thesis by simp
  qed
qed

text \<open>Moving the entries of one block to another.\<close>

lemma insert_hashes_result:
  "\<lbrakk>cache_inv p; valid_block p dst; dst \<noteq> null_block p\<rbrakk> \<Longrightarrow>
   \<exists>p'. foldE (\<lambda>h. insert_block_hash h dst nt) hs p = Inr p' \<and> cache_inv p' \<and> same_refs p p'
     \<and> (\<forall>b. set (block_keys p' b) = set (block_keys p b) \<union> (if b = dst then set hs else {}))"
proof (induction hs arbitrary: p)
  case Nil
  then show ?case by simp
next
  case (Cons h hs)
  obtain p1 where p1: "insert_block_hash h dst nt p = Inr p1" "cache_inv p1" "same_refs p p1"
    "block_keys p1 = (block_keys p)(dst := (if h \<in> set (block_keys p dst) then block_keys p dst else block_keys p dst @ [h]))"
    using insert_block_hash_result [OF Cons.prems, of h nt] by blast
  note d = same_config_dest [OF same_refs_config [OF p1(3)]]
  obtain p2 where p2: "foldE (\<lambda>h. insert_block_hash h dst nt) hs p1 = Inr p2" "cache_inv p2" "same_refs p1 p2"
    "\<forall>b. set (block_keys p2 b) = set (block_keys p1 b) \<union> (if b = dst then set hs else {})"
    using Cons.IH [OF p1(2)] Cons.prems d by auto
  with p1 same_refs_trans [OF p1(3) p2(3)] show ?case by auto
qed

lemma move_block_hashes_result:
  assumes "cache_inv p" "valid_block p dst" "dst \<noteq> null_block p" "block_keys p dst = []" "src \<noteq> dst"
  shows "\<exists>p'. move_block_hashes src dst p = Inr p' \<and> cache_inv p' \<and> same_refs p p'
    \<and> set (block_keys p' dst) = set (block_keys p src) \<and> block_keys p' src = []
    \<and> (\<forall>b. b \<noteq> src \<longrightarrow> b \<noteq> dst \<longrightarrow> set (block_keys p' b) = set (block_keys p b))"
proof -
  obtain p1 where p1: "remove_cached_block_hashes src p = (block_keys p src, p1)" "cache_inv p1" "same_refs p p1"
    "block_keys p1 = (block_keys p)(src := [])"
    using remove_cached_result [OF assms(1)] by blast
  note d = same_config_dest [OF same_refs_config [OF p1(3)]]
  obtain p2 where p2: "foldE (\<lambda>h. insert_block_hash h dst (block_hash_num_tokens (blocks p src))) (block_keys p src) p1 = Inr p2"
    "cache_inv p2" "same_refs p1 p2"
    "\<forall>b. set (block_keys p2 b) = set (block_keys p1 b) \<union> (if b = dst then set (block_keys p src) else {})"
    using insert_hashes_result [OF p1(2), of dst "block_hash_num_tokens (blocks p src)" "block_keys p src"] assms(2,3)
    unfolding d by blast
  have "block_hash (blocks p dst) = None" "cached_block_hashes_by_block p dst = None"
    using assms(1,4) block_keys_Nil [OF assms(1), of dst] by (auto simp: cache_inv_def)
  with p1 p2 have "move_block_hashes src dst p = Inr p2" by (simp add: move_block_hashes_def)
  moreover have "block_keys p2 src = []" using p2(4) p1(4) assms(5) by (metis fun_upd_same set_empty sup_bot.right_neutral)
  ultimately show ?thesis using p2 p1 assms(4,5) same_refs_trans [OF p1(3) p2(3)] by auto
qed

section \<open>Caching full and partial blocks\<close>

text \<open>Replacing all entries of a block by one: promotion of a partially cached block.\<close>

definition promotable :: "pool \<Rightarrow> int \<Rightarrow> bref \<Rightarrow> bool" where
  "promotable p num_toks b \<longleftrightarrow>
     block_hash (blocks p b) = None \<or> (\<exists>n. block_hash_num_tokens (blocks p b) = Some n \<and> n < num_toks)"

definition cache_one :: "bytes \<Rightarrow> int \<Rightarrow> bref \<Rightarrow> pool \<Rightarrow> pool res" where
  "cache_one key num_hash_tokens blk p =
     bindE (if block_hash (blocks p blk) \<noteq> None
            then bindE (py_assert (case block_hash_num_tokens (blocks p blk) of
                                     None \<Rightarrow> False | Some n \<Rightarrow> n < num_hash_tokens))
                   (\<lambda>_. let (removed, p1) = remove_cached_block_hashes blk p
                        in Inr (emit_block_removed_events removed p1))
            else Inr p) (\<lambda>p2. insert_block_hash key blk (Some num_hash_tokens) p2)"

lemma cache_one_result:
  assumes "cache_inv p" "valid_block p b" "b \<noteq> null_block p"
  shows "if promotable p n b
    then \<exists>p'. cache_one key n b p = Inr p' \<and> cache_inv p' \<and> same_refs p p' \<and> block_keys p' = (block_keys p)(b := [key])
       \<and> (\<forall>c. c \<noteq> b \<longrightarrow> blocks p' c = blocks p c)
    else cache_one key n b p = Inl AssertionError"
proof (cases "promotable p n b")
  case False
  then have "block_hash (blocks p b) \<noteq> None"
    and "\<not> (case block_hash_num_tokens (blocks p b) of None \<Rightarrow> False | Some m \<Rightarrow> m < n)"
    by (auto simp: promotable_def split: option.splits)
  with False show ?thesis by (simp add: cache_one_def)
next
  case True
  obtain p2 where p2: "(if block_hash (blocks p b) \<noteq> None
            then bindE (py_assert (case block_hash_num_tokens (blocks p b) of None \<Rightarrow> False | Some m \<Rightarrow> m < n))
                   (\<lambda>_. let (removed, p1) = remove_cached_block_hashes b p
                        in Inr (emit_block_removed_events removed p1))
            else Inr p) = Inr p2"
    "cache_inv p2" "same_refs p p2" "block_keys p2 = (block_keys p)(b := [])" "\<forall>c. c \<noteq> b \<longrightarrow> blocks p2 c = blocks p c"
  proof (cases "block_hash (blocks p b) = None")
    case True
    then have "block_keys p b = []" using block_keys_Nil [OF assms(1)] by simp
    with True that [of p] assms(1) show ?thesis by (simp add: fun_upd_idem)
  next
    case False
    obtain p1 where p1: "remove_cached_block_hashes b p = (block_keys p b, p1)" "cache_inv p1" "same_refs p p1"
      "block_keys p1 = (block_keys p)(b := [])" "\<forall>c. c \<noteq> b \<longrightarrow> blocks p1 c = blocks p c"
      using remove_cached_result [OF assms(1)] by blast
    let ?p = "emit_block_removed_events (block_keys p b) p1"
    have "cache_inv ?p" "same_refs p ?p" "block_keys ?p = block_keys p1"
      using same_cache_inv [OF emit_removed_same(2) p1(2)] same_refs_trans [OF p1(3) emit_removed_same(1)]
        block_keys_cong [OF emit_removed_same(2)] by auto
    with that [of ?p] p1 False \<open>promotable p n b\<close> show ?thesis by (auto simp: promotable_def)
  qed
  note d = same_config_dest [OF same_refs_config [OF p2(3)]]
  obtain p' where p': "insert_block_hash key b (Some n) p2 = Inr p'" "cache_inv p'" "same_refs p2 p'"
    "block_keys p' = (block_keys p2)(b := (if key \<in> set (block_keys p2 b) then block_keys p2 b else block_keys p2 b @ [key]))"
    "\<forall>c. c \<noteq> b \<longrightarrow> blocks p' c = blocks p2 c"
    using insert_block_hash_result [OF p2(2), of b key "Some n"] assms(2,3) unfolding d by blast
  have "cache_one key n b p = Inr p'" unfolding cache_one_def p2(1) by (simp add: p'(1))
  with True p' p2 same_refs_trans [OF p2(3) p'(3)] show ?thesis by simp
qed

lemma cache_full_loop_Cons:
  "cache_full_loop nbh nc bs g msk (blk # rest) i hs p =
     (if is_null (blocks p blk) \<or> (case msk of None \<Rightarrow> False | Some m \<Rightarrow> \<not> m ! nat i)
      then cache_full_loop nbh nc bs g msk rest (i + 1) hs p
      else bindE (py_get nbh i) (\<lambda>h.
           bindE (make_block_hash_with_group_id h g) (\<lambda>key.
           bindE (cache_one key ((nc + i + 1) * bs) blk p) (\<lambda>p3.
             cache_full_loop nbh nc bs g msk rest (i + 1)
               (if enable_kv_cache_events p3 then hs @ [maybe_convert_block_hash (use_int_block_hashes p3) h] else hs) p3))))"
  by (simp add: cache_one_def Let_def bindE_assoc)

text \<open>Whatever its arguments, caching full blocks keeps the invariant when it returns.\<close>

lemma cache_full_loop_inv:
  "\<lbrakk>cache_full_loop nbh nc bs g msk blks i hs p = Inr (hs', p'); cache_inv p; ref_inv p; \<And>b. b \<in> set blks \<Longrightarrow> valid_block p b\<rbrakk>
   \<Longrightarrow> cache_inv p' \<and> same_refs p p'"
proof (induction blks arbitrary: i hs p)
  case (Cons blk blks)
  show ?case
  proof (cases "is_null (blocks p blk) \<or> (case msk of None \<Rightarrow> False | Some m \<Rightarrow> \<not> m ! nat i)")
    case True
    with Cons.prems Cons.IH [of "i + 1" hs p] show ?thesis by (simp only: cache_full_loop_Cons if_True) auto
  next
    case False
    with Cons.prems(1) obtain h key p1 hs1 where
      step: "cache_one key ((nc + i + 1) * bs) blk p = Inr p1" and
      rest: "cache_full_loop nbh nc bs g msk blks (i + 1) hs1 p1 = Inr (hs', p')"
      unfolding cache_full_loop_Cons by (auto simp: bindE_eq_Inr)
    have nn: "blk \<noteq> null_block p" using False Cons.prems(3,4) by (auto simp: ref_inv_def)
    have vb: "valid_block p blk" using Cons.prems(4) by simp
    have p1: "cache_inv p1" "same_refs p p1"
      using cache_one_result [OF Cons.prems(2) vb nn, of "(nc + i + 1) * bs" key] step by (auto split: if_splits)
    note d = same_config_dest [OF same_refs_config [OF p1(2)]]
    have "ref_inv p1" using Cons.prems(3) p1(2) by (simp add: ref_inv_def same_refs_def d)
    with Cons.IH [OF rest p1(1)] Cons.prems(4) have "cache_inv p'" "same_refs p1 p'" by (auto simp: d)
    with p1(2) same_refs_trans show ?thesis by blast
  qed
qed auto

lemma cache_full_blocks_inv:
  assumes "cache_full_blocks r blks nc nf bs g msk p = Inr p'" "pool_inv p xs" "\<And>b. b \<in> set blks \<Longrightarrow> valid_block p b"
  shows "pool_inv p' xs \<and> same_refs p p'"
proof (cases "nf \<le> nc")
  case True
  with assms show ?thesis by (simp add: cache_full_blocks_def)
next
  case False
  with assms(1) obtain nbh hs p1 where loop: "cache_full_loop nbh nc bs g msk (py_slice blks nc nf) 0 [] p = Inr (hs, p1)"
    and p': "\<exists>es. p' = p1 \<or> p' = p1\<lparr>kv_event_queue := es\<rparr>"
    by (auto simp: cache_full_blocks_def bindE_eq_Inr Let_def split: if_splits)
  have "set (py_slice blks nc nf) \<subseteq> set blks" by (rule set_py_slice_subset)
  with cache_full_loop_inv [OF loop] assms(2,3) have p1: "cache_inv p1" "same_refs p p1"
    by (auto simp: pool_inv_def)
  have "cache_inv p'" "same_refs p1 p'"
    using p' p1(1) same_cache_inv [OF events_frame(2)] events_frame(1) by auto
  then show ?thesis using p1(2) same_refs_trans same_refs_pool assms(2) by blast
qed

text \<open>
  With distinct, promotable blocks, enough hashes and a 32-bit group id the loop does not raise,
  and leaves each block it does not skip with exactly the key of its position.
\<close>

definition skipped :: "pool \<Rightarrow> bool list option \<Rightarrow> int \<Rightarrow> bref \<Rightarrow> bool" where
  "skipped p msk i b \<longleftrightarrow> is_null (blocks p b) \<or> (case msk of None \<Rightarrow> False | Some m \<Rightarrow> \<not> m ! nat i)"

lemma skipped_refs: "same_refs p p' \<Longrightarrow> skipped p' msk i b = skipped p msk i b"
  by (simp add: skipped_def same_refs_def same_config_def)

lemma cache_full_loop_total:
  "\<lbrakk>cache_inv p; ref_inv p; \<And>b. b \<in> set blks \<Longrightarrow> valid_block p b;
    distinct (filter (\<lambda>b. b \<noteq> null_block p) blks);
    0 \<le> i; i + int (length blks) \<le> int (length nbh); 0 \<le> g; g < 2 ^ 32;
    \<And>j. j < length blks \<Longrightarrow> \<not> skipped p msk (i + int j) (blks ! j) \<Longrightarrow> promotable p ((nc + (i + int j) + 1) * bs) (blks ! j)\<rbrakk>
   \<Longrightarrow> \<exists>hs' p'. cache_full_loop nbh nc bs g msk blks i hs p = Inr (hs', p') \<and> cache_inv p' \<and> same_refs p p'
      \<and> (\<forall>j < length blks. \<not> skipped p msk (i + int j) (blks ! j) \<longrightarrow>
           make_block_hash_with_group_id (nbh ! nat (i + int j)) g = Inr (hd (block_keys p' (blks ! j)))
           \<and> block_keys p' (blks ! j) = [hd (block_keys p' (blks ! j))])
      \<and> (\<forall>c. (\<forall>j < length blks. \<not> skipped p msk (i + int j) (blks ! j) \<longrightarrow> blks ! j \<noteq> c) \<longrightarrow> block_keys p' c = block_keys p c)"
proof (induction blks arbitrary: i hs p)
  case (Cons blk blks)
  have shift: "i + int (Suc j) = i + 1 + int j" for j by simp
  have vb: "valid_block p blk" using Cons.prems(3) by simp
  have null: "is_null (blocks p b) \<longleftrightarrow> b = null_block p" if "valid_block p b" for b
    using that Cons.prems(2) by (simp add: ref_inv_def)
  have IHpre: "distinct (filter (\<lambda>b. b \<noteq> null_block p) blks)" "0 \<le> i + 1" "i + 1 + int (length blks) \<le> int (length nbh)"
    using Cons.prems(4-6) by (auto split: if_splits)
  show ?case
  proof (cases "skipped p msk i blk")
    case True
    then have step: "cache_full_loop nbh nc bs g msk (blk # blks) i hs p = cache_full_loop nbh nc bs g msk blks (i + 1) hs p"
      unfolding cache_full_loop_Cons by (simp add: skipped_def)
    have "\<exists>hs' p'. cache_full_loop nbh nc bs g msk blks (i + 1) hs p = Inr (hs', p') \<and> cache_inv p' \<and> same_refs p p'
      \<and> (\<forall>j < length blks. \<not> skipped p msk (i + 1 + int j) (blks ! j) \<longrightarrow>
           make_block_hash_with_group_id (nbh ! nat (i + 1 + int j)) g = Inr (hd (block_keys p' (blks ! j)))
           \<and> block_keys p' (blks ! j) = [hd (block_keys p' (blks ! j))])
      \<and> (\<forall>c. (\<forall>j < length blks. \<not> skipped p msk (i + 1 + int j) (blks ! j) \<longrightarrow> blks ! j \<noteq> c) \<longrightarrow> block_keys p' c = block_keys p c)"
      using Cons.IH [OF Cons.prems(1,2) _ IHpre Cons.prems(7,8)] Cons.prems(3) Cons.prems(9) [of "Suc _", unfolded shift] by simp
    with True show ?thesis unfolding step by (simp add: All_less_Suc2 add.assoc)
  next
    case False
    then have nn: "blk \<noteq> null_block p" using null [OF vb] by (simp add: skipped_def)
    have i: "i < int (length nbh)" using Cons.prems(6) by simp
    obtain key where key: "make_block_hash_with_group_id (nbh ! nat i) g = Inr key"
      using make_key_total [OF Cons.prems(7,8)] by blast
    have prom: "promotable p ((nc + i + 1) * bs) blk" using Cons.prems(9) [of 0] False by simp
    obtain p1 where p1: "cache_one key ((nc + i + 1) * bs) blk p = Inr p1" "cache_inv p1" "same_refs p p1"
      "block_keys p1 = (block_keys p)(blk := [key])" "\<forall>c. c \<noteq> blk \<longrightarrow> blocks p1 c = blocks p c"
      using cache_one_result [OF Cons.prems(1) vb nn, of "(nc + i + 1) * bs" key] prom by auto
    note d = same_config_dest [OF same_refs_config [OF p1(3)]] and sk = skipped_refs [OF p1(3)]
    define hs1 where "hs1 = (if enable_kv_cache_events p1
        then hs @ [maybe_convert_block_hash (use_int_block_hashes p1) (nbh ! nat i)] else hs)"
    have step: "cache_full_loop nbh nc bs g msk (blk # blks) i hs p = cache_full_loop nbh nc bs g msk blks (i + 1) hs1 p1"
      unfolding cache_full_loop_Cons using False key p1(1) i Cons.prems(5)
      by (simp add: skipped_def py_get_nonneg hs1_def)
    have "ref_inv p1" using Cons.prems(2) p1(3) by (simp add: ref_inv_def same_refs_def d)
    have other: "blks ! j \<noteq> blk" if "j < length blks" "\<not> skipped p msk (i + 1 + int j) (blks ! j)" for j
      using that Cons.prems(3) [of "blks ! j"] Cons.prems(4) nn null [of "blks ! j"] by (auto simp: skipped_def)
    have prom1: "promotable p1 ((nc + (i + 1 + int j) + 1) * bs) (blks ! j)"
      if "j < length blks" "\<not> skipped p1 msk (i + 1 + int j) (blks ! j)" for j
      using Cons.prems(9) [of "Suc j", unfolded shift] that other [of j] p1(5) by (simp add: sk promotable_def)
    obtain hs' p' where p': "cache_full_loop nbh nc bs g msk blks (i + 1) hs1 p1 = Inr (hs', p')" "cache_inv p'" "same_refs p1 p'"
      "\<forall>j < length blks. \<not> skipped p1 msk (i + 1 + int j) (blks ! j) \<longrightarrow>
           make_block_hash_with_group_id (nbh ! nat (i + 1 + int j)) g = Inr (hd (block_keys p' (blks ! j)))
           \<and> block_keys p' (blks ! j) = [hd (block_keys p' (blks ! j))]"
      "\<forall>c. (\<forall>j < length blks. \<not> skipped p1 msk (i + 1 + int j) (blks ! j) \<longrightarrow> blks ! j \<noteq> c) \<longrightarrow> block_keys p' c = block_keys p1 c"
      using Cons.IH [OF p1(2) \<open>ref_inv p1\<close> _ _ IHpre(2,3) Cons.prems(7,8) prom1, of hs1] IHpre(1) Cons.prems(3)
      unfolding d by auto
    have "block_keys p' blk = [key]" using p'(5) p1(4) other by (simp add: sk)
    then show ?thesis
      unfolding step using p' key False same_refs_trans [OF p1(3) p'(3)] p1(4)
      by (intro exI [of _ hs'] exI [of _ p']) (simp add: All_less_Suc2 add.assoc sk)
  qed
qed simp

lemma event_keys_total:
  "\<lbrakk>\<And>i. i \<in> set is \<Longrightarrow> 0 \<le> i \<and> i < int (length blks);
    \<And>i m. i \<in> set is \<Longrightarrow> msk = Some m \<Longrightarrow> nc \<le> i \<and> i - nc < int (length m); - 1 \<le> idx\<rbrakk>
   \<Longrightarrow> \<exists>ks. event_keys_loop r p blks nc bs msk is idx acc = Inr ks"
proof (induction "is" arbitrary: idx acc)
  case (Cons i "is")
  obtain ek idx' where g: "generate_block_hash_extra_keys r (i * bs) (i * bs + bs) idx = Inr (ek, idx')" "- 1 \<le> idx'"
    using generate_keys_total [OF Cons.prems(3)] by blast
  have b: "py_get blks i = Inr (blks ! nat i)" using Cons.prems(1) [of i] by (simp add: py_get_nonneg)
  obtain keep where k: "(case msk of None \<Rightarrow> Inr True | Some m \<Rightarrow> py_get m (i - nc)) = Inr keep"
    using Cons.prems(2) [of i] by (cases msk) (auto simp: py_get_nonneg)
  have "\<exists>ks. event_keys_loop r p blks nc bs msk is j a = Inr ks" if "- 1 \<le> j" for j a
    using Cons.IH [OF _ _ that] Cons.prems(1,2) by auto
  with g b k Cons.prems(3) show ?case by auto
qed simp

text \<open>The hashes at block size \<open>k\<close> times the hash block size.\<close>

definition coarse_hash :: "bytes list \<Rightarrow> int \<Rightarrow> int \<Rightarrow> bytes" where
  "coarse_hash hs k i = hs ! nat ((i + 1) * k - 1)"

lemma resolve_coarse:
  assumes "0 < hbs" "0 < k"
  shows "\<exists>v. resolve_block_hashes (RawHashes hs) hbs (k * hbs) False None = Inr v
    \<and> (\<forall>i. 0 \<le> i \<longrightarrow> i < int (length hs) div k \<longrightarrow> bhl_get v i = Inr (coarse_hash hs k i))
    \<and> (\<forall>i. 0 \<le> i \<longrightarrow> i \<le> int (length hs) div k \<longrightarrow>
         bhl_from v i = Inr (map (coarse_hash hs k) (py_range i (int (length hs) div k))))"
proof (cases "k = 1")
  case True
  have "py_slice_from hs i = map (coarse_hash hs 1) (py_range i (int (length hs)))" if "0 \<le> i" "i \<le> int (length hs)" for i
    using that by (intro nth_equalityI) (auto simp: py_slice_from_nonneg py_range_def coarse_hash_def nat_add_distrib nth_upto)
  with True assms show ?thesis
    by (intro exI [of _ "RawHashes hs"]) (auto simp: resolve_block_hashes_def py_get_nonneg coarse_hash_def)
next
  case False
  then have "k * hbs \<noteq> hbs" using assms by simp
  then have v: "resolve_block_hashes (RawHashes hs) hbs (k * hbs) False None = Inr (ScaledHashes hs k)"
    using assms by (simp add: resolve_block_hashes_def block_hash_list_with_block_size_def)
  have get: "bhl_get (ScaledHashes hs k) i = Inr (coarse_hash hs k i)" if "0 \<le> i" "i < int (length hs) div k" for i
    using bhl_get_scaled(1) [OF assms(2) that] by (simp add: coarse_hash_def)
  have "bhl_from (ScaledHashes hs k) i = Inr (map (coarse_hash hs k) (py_range i (int (length hs) div k)))"
    if "0 \<le> i" "i \<le> int (length hs) div k" for i
  proof -
    have "int (py_bound (nat (int (length hs) div k)) i) = i" using that by (simp add: py_bound_def)
    then show ?thesis
      using mapE_map [of "py_range i (int (length hs) div k)" "bhl_get (ScaledHashes hs k)" "coarse_hash hs k"] get that
      by (simp del: bhl_get.simps)
  qed
  with v get show ?thesis by blast
qed

lemma cache_full_blocks_result:
  assumes inv: "pool_inv p xs" and valid: "\<And>b. b \<in> set blks \<Longrightarrow> valid_block p b"
    and sz: "0 < hash_block_size p" "0 < k" and rng: "0 \<le> nc" "nc < nf" "nf \<le> int (length blks)"
    and hs: "nf \<le> int (length (block_hashes r)) div k" and g: "0 \<le> g" "g < 2 ^ 32"
    and msk: "\<And>m. msk = Some m \<Longrightarrow> int (length m) = nf - nc"
    and dist: "distinct (filter (\<lambda>b. b \<noteq> null_block p) blks)"
    and prom: "\<And>j. nc \<le> j \<Longrightarrow> j < nf \<Longrightarrow> \<not> skipped p msk (j - nc) (blks ! nat j) \<Longrightarrow>
      promotable p ((j + 1) * (k * hash_block_size p)) (blks ! nat j)"
  shows "\<exists>p'. cache_full_blocks r blks nc nf (k * hash_block_size p) g msk p = Inr p' \<and> pool_inv p' xs \<and> same_refs p p'
    \<and> (\<forall>j. nc \<le> j \<longrightarrow> j < nf \<longrightarrow> \<not> skipped p msk (j - nc) (blks ! nat j) \<longrightarrow>
        (\<exists>key. make_block_hash_with_group_id (coarse_hash (block_hashes r) k j) g = Inr key
            \<and> block_keys p' (blks ! nat j) = [key]))"
proof -
  let ?bs = "k * hash_block_size p" and ?new = "py_slice blks nc nf" and ?N = "int (length (block_hashes r)) div k"
  obtain v where v: "resolve_block_hashes (RawHashes (block_hashes r)) (hash_block_size p) ?bs False None = Inr v"
    "\<And>i. 0 \<le> i \<Longrightarrow> i < ?N \<Longrightarrow> bhl_get v i = Inr (coarse_hash (block_hashes r) k i)"
    "bhl_from v nc = Inr (map (coarse_hash (block_hashes r) k) (py_range nc ?N))"
    using resolve_coarse [OF sz, of "block_hashes r"] rng hs by force
  define nbh where "nbh = map (coarse_hash (block_hashes r) k) (py_range nc ?N)"
  have new: "length ?new = nat (nf - nc)" and new_nth: "\<And>j. j < nat (nf - nc) \<Longrightarrow> ?new ! j = blks ! nat (nc + int j)"
    using rng by (auto simp: py_slice_nonneg nat_add_distrib nat_diff_distrib')
  have nbh_nth: "nbh ! nat j = coarse_hash (block_hashes r) k (nc + j)" and nbh_len: "int (length nbh) = ?N - nc"
    if "0 \<le> j" "j < ?N - nc" for j
    using that by (auto simp: nbh_def py_range_def nth_upto)
  have sub: "set ?new \<subseteq> set blks" by (rule set_py_slice_subset)
  have ci: "cache_inv p" "ref_inv p" using inv by (auto simp: pool_inv_def)
  have "blks = take (nat nc) blks @ ?new @ drop (nat nf) blks" using rng by (intro py_slice_split) simp_all
  then have "filter (\<lambda>b. b \<noteq> null_block p) blks = filter (\<lambda>b. b \<noteq> null_block p) (take (nat nc) blks)
      @ filter (\<lambda>b. b \<noteq> null_block p) ?new @ filter (\<lambda>b. b \<noteq> null_block p) (drop (nat nf) blks)"
    by (metis filter_append)
  with dist have dnew: "distinct (filter (\<lambda>b. b \<noteq> null_block p) ?new)" by simp
  obtain hs' p1 where p1: "cache_full_loop nbh nc ?bs g msk ?new 0 [] p = Inr (hs', p1)" "cache_inv p1" "same_refs p p1"
    "\<forall>j < length ?new. \<not> skipped p msk (0 + int j) (?new ! j) \<longrightarrow>
       make_block_hash_with_group_id (nbh ! nat (0 + int j)) g = Inr (hd (block_keys p1 (?new ! j)))
       \<and> block_keys p1 (?new ! j) = [hd (block_keys p1 (?new ! j))]"
  proof -
    have pr: "promotable p ((nc + (0 + int j) + 1) * ?bs) (?new ! j)"
      if "j < length ?new" "\<not> skipped p msk (0 + int j) (?new ! j)" for j
      using prom [of "nc + int j"] that new new_nth [of j] by simp
    have len: "0 + int (length ?new) \<le> int (length nbh)" using new nbh_len [of 0] rng hs by simp
    have vn: "valid_block p b" if "b \<in> set ?new" for b using valid sub that by blast
    show ?thesis using cache_full_loop_total [where hs = "[]", OF ci vn dnew order_refl len g pr] that by blast
  qed
  have keys: "\<exists>key. make_block_hash_with_group_id (coarse_hash (block_hashes r) k j) g = Inr key
            \<and> block_keys p1 (blks ! nat j) = [key]"
    if "nc \<le> j" "j < nf" "\<not> skipped p msk (j - nc) (blks ! nat j)" for j
    using p1(4) [rule_format, of "nat (j - nc)"] new new_nth [of "nat (j - nc)"] nbh_nth [of "j - nc"] that hs by auto
  have mlen: "case msk of None \<Rightarrow> True | Some m \<Rightarrow> length m = length ?new"
    using msk new rng by (cases msk) auto
  obtain ks where ks: "event_keys_loop r p1 blks nc ?bs msk (py_range nc nf) 0 [] = Inr ks"
    using event_keys_total [of "py_range nc nf" blks msk nc 0 r p1 ?bs "[]"] rng msk by force
  obtain par where par: "(if nc = 0 then Inr None else bindE (bhl_get v (nc - 1))
      (\<lambda>h. Inr (Some (maybe_convert_block_hash (use_int_block_hashes p1) h)))) = Inr par"
    using v(2) [of "nc - 1"] rng hs by (cases "nc = 0") auto
  define p' where "p' = (if \<not> enable_kv_cache_events p1 then p1 else p1\<lparr>kv_event_queue := kv_event_queue p1 @
     [build_block_stored_event r hs' par (nc * ?bs) (nf * ?bs) ?bs g ks]\<rparr>)"
  have run: "cache_full_blocks r blks nc nf ?bs g msk p = Inr p'"
    using rng mlen v(1,3) p1(1) ks par unfolding cache_full_blocks_def Let_def nbh_def [symmetric]
    by (simp add: p'_def)
  have "cache_inv p'" "same_refs p1 p'" "block_keys p' = block_keys p1"
    using p1(2) same_cache_inv [OF events_frame(2)] events_frame block_keys_cong [OF events_frame(2)]
    by (auto simp: p'_def)
  with keys run p1(3) same_refs_trans same_refs_pool inv show ?thesis by (intro exI [of _ p']) (metis (no_types, lifting))
qed

lemma emit_cached_result:
  assumes "emit_cached_block_events r n bs g p = Inr p'"
  shows "same_refs p p' \<and> same_cache p p'"
proof -
  have "p' = p \<or> (\<exists>es. p' = p\<lparr>kv_event_queue := es\<rparr>)"
    using assms by (auto simp: emit_cached_block_events_def bindE_eq_Inr split: if_splits)
  then show ?thesis using events_frame by auto
qed

lemma cache_partial_block_inv:
  assumes run: "cache_partial_block r b n g bs p = Inr (k, p')" and inv: "pool_inv p xs" and b: "valid_block p b"
  shows "pool_inv p' xs \<and> same_refs p p'
    \<and> (case k of None \<Rightarrow> p' = p
       | Some key \<Rightarrow> key \<in> set (block_keys p' b) \<and> make_block_hash_with_group_id
           (block_hashes r ! nat (n div hash_block_size p - 1)) g = Inr key)"
proof (cases "is_null (blocks p b)")
  case True
  with run inv show ?thesis by (auto simp: cache_partial_block_def)
next
  case False
  then have nn: "b \<noteq> null_block p" using inv b by (auto simp: pool_inv_def ref_inv_def)
  have ci: "cache_inv p" using inv by (simp add: pool_inv_def)
  define p1 where "p1 key = (if \<not> (block_hash (blocks p b) = Some key \<or> contain (cached_block_hash_to_block p) key b)
      \<and> block_hash (blocks p b) \<noteq> None \<and>
      (case block_hash_num_tokens (blocks p b) of None \<Rightarrow> False | Some m \<Rightarrow> m < n div hash_block_size p * hash_block_size p)
      then (case remove_cached_block_hashes b p of (removed, p') \<Rightarrow> emit_block_removed_events removed p') else p)" for key
  from run False obtain h key p2 where key: "get_partial_block_hash p r n = Inr h" "make_block_hash_with_group_id h g = Inr key"
    and ins: "insert_block_hash key b (Some (n div hash_block_size p * hash_block_size p)) (p1 key) = Inr p2"
    and p': "p' = p2 \<or> (\<exists>es. p' = p2\<lparr>kv_event_queue := es\<rparr>)" and k: "k = Some key"
    unfolding cache_partial_block_def Let_def p1_def [symmetric] by (auto simp: bindE_eq_Inr split: if_splits)
  have p1: "cache_inv (p1 key)" "same_refs p (p1 key)"
  proof -
    obtain q where q: "remove_cached_block_hashes b p = (block_keys p b, q)" "cache_inv q" "same_refs p q"
      using remove_cached_result [OF ci] by blast
    show "cache_inv (p1 key)" "same_refs p (p1 key)"
      using q ci same_cache_inv [OF emit_removed_same(2) q(2)] same_refs_trans [OF q(3) emit_removed_same(1)]
      by (auto simp: p1_def)
  qed
  note d = same_config_dest [OF same_refs_config [OF p1(2)]]
  have p2: "cache_inv p2" "same_refs (p1 key) p2" "key \<in> set (block_keys p2 b)"
    using insert_block_hash_result [OF p1(1), of b key "Some (n div hash_block_size p * hash_block_size p)"] ins b nn d by auto
  have p2': "cache_inv p'" "same_refs p2 p'" "block_keys p' = block_keys p2"
    using p' p2(1) same_cache_inv [OF events_frame(2)] events_frame block_keys_cong [OF events_frame(2)] by auto
  have refs: "same_refs p p'" using same_refs_trans [OF p1(2) same_refs_trans [OF p2(2) p2'(2)]] .
  have "h = block_hashes r ! nat (n div hash_block_size p - 1)"
    using key(1) by (auto simp: get_partial_block_hash_def bindE_eq_Inr Let_def py_get_nonneg)
  with refs p2' p2(3) key k same_refs_pool [OF refs p2'(1) inv] show ?thesis by simp
qed

section \<open>Lookup\<close>

text \<open>Block \<open>b\<close> is registered under hash \<open>h\<close> in group \<open>g\<close>.\<close>

definition cached_under :: "pool \<Rightarrow> bytes \<Rightarrow> int \<Rightarrow> bref \<Rightarrow> bool" where
  "cached_under p h g b \<longleftrightarrow> (\<exists>k. make_block_hash_with_group_id h g = Inr k \<and> k \<in> set (block_keys p b))"

lemma cached_under_valid: "cache_inv p \<Longrightarrow> cached_under p h g b \<Longrightarrow> valid_block p b \<and> b \<noteq> null_block p"
  by (force simp: cached_under_def cache_inv_def)

lemma get_one_block_result:
  assumes "cache_inv p" "make_block_hash_with_group_id h g = Inr k"
  shows "\<exists>f. get_one_block (cached_block_hash_to_block p) k = Inr f
    \<and> (case f of None \<Rightarrow> \<forall>b. \<not> cached_under p h g b | Some b \<Rightarrow> cached_under p h g b)"
proof -
  let ?m = "cached_block_hash_to_block p"
  have bi: "bm_inv ?m" using assms(1) by (simp add: cache_inv_def)
  obtain f where f: "get_one_block ?m k = Inr f" using bm.lookup_total [OF bi] by blast
  show ?thesis
  proof (cases f)
    case None
    with f bm.lookup_miss [OF bi] have "bm_blocks ?m k = []" by simp
    then have "\<not> cached_under p h g b" for b
      using cache_inv_member [OF assms(1), of b k] assms(2) by (simp add: cached_under_def)
    with f None show ?thesis by simp
  next
    case (Some b)
    with f bm.lookup_sound [OF bi, of k b] cache_inv_member [OF assms(1), of b k] assms(2) show ?thesis
      by (simp add: cached_under_def)
  qed
qed

lemma get_cached_loop_result:
  "\<lbrakk>cache_inv p; \<And>g. g \<in> set gs \<Longrightarrow> 0 \<le> g \<and> g < 2 ^ 32\<rbrakk> \<Longrightarrow>
   \<exists>f. get_cached_loop p h gs acc = Inr f
    \<and> (case f of None \<Rightarrow> \<exists>g \<in> set gs. \<forall>b. \<not> cached_under p h g b
       | Some bs \<Rightarrow> \<exists>cs. bs = acc @ cs \<and> list_all2 (\<lambda>g b. cached_under p h g b) gs cs)"
proof (induction gs arbitrary: acc)
  case (Cons g gs)
  obtain k where k: "make_block_hash_with_group_id h g = Inr k" using make_key_total [of g h] Cons.prems(2) [of g] by auto
  obtain f where f: "get_one_block (cached_block_hash_to_block p) k = Inr f"
    "case f of None \<Rightarrow> \<forall>b. \<not> cached_under p h g b | Some b \<Rightarrow> cached_under p h g b"
    using get_one_block_result [OF Cons.prems(1) k] by blast
  show ?case
  proof (cases f)
    case None
    with k f show ?thesis by auto
  next
    case (Some b)
    obtain f' where f': "get_cached_loop p h gs (acc @ [b]) = Inr f'"
      "case f' of None \<Rightarrow> \<exists>g \<in> set gs. \<forall>b. \<not> cached_under p h g b
       | Some bs \<Rightarrow> \<exists>cs. bs = (acc @ [b]) @ cs \<and> list_all2 (\<lambda>g b. cached_under p h g b) gs cs"
      using Cons.IH [OF Cons.prems(1), of "acc @ [b]"] Cons.prems(2) by auto
    with k f Some show ?thesis by (cases f') auto
  qed
qed simp

lemma get_cached_block_result:
  assumes "cache_inv p" "\<And>g. g \<in> set gs \<Longrightarrow> 0 \<le> g \<and> g < 2 ^ 32"
  shows "\<exists>f. get_cached_block p h gs = Inr f
    \<and> (case f of None \<Rightarrow> \<exists>g \<in> set gs. \<forall>b. \<not> cached_under p h g b
       | Some bs \<Rightarrow> list_all2 (\<lambda>g b. cached_under p h g b) gs bs)"
proof -
  obtain f where "get_cached_loop p h gs [] = Inr f"
    "case f of None \<Rightarrow> \<exists>g \<in> set gs. \<forall>b. \<not> cached_under p h g b
       | Some bs \<Rightarrow> \<exists>cs. bs = [] @ cs \<and> list_all2 (\<lambda>g b. cached_under p h g b) gs cs"
    using get_cached_loop_result [OF assms, where h = h and acc = "[]"] by auto
  then show ?thesis by (auto simp: get_cached_block_def split: option.splits)
qed

end
