(* ===== verification/Pool_Props.thy ===== *)
theory Pool_Props
  imports Pool_Inv
begin

text \<open>
  Properties of the block pool: every state reachable through the pool's operations satisfies
  the invariant, and the functional behaviour of allocation, touching, freeing, caching, lookup
  and reset.
\<close>

section \<open>Reachable pools\<close>

text \<open>
  One call on the pool, with what the callers guarantee: block arguments are blocks of the pool,
  a caller frees no more references than are held, and copies go to blocks that are not null.
\<close>

inductive pool_step :: "pool \<Rightarrow> pool \<Rightarrow> bool" where
  alloc: "0 \<le> n \<Longrightarrow> get_new_blocks n p = Inr (bs, p') \<Longrightarrow> pool_step p p'"
| touch: "\<forall>b \<in> set bs. valid_block p b \<Longrightarrow> touch bs p = Inr p' \<Longrightarrow> pool_step p p'"
| free: "\<forall>b \<in> set bs. valid_block p b \<and> (b = null_block p \<or> int (count_list bs b) \<le> ref_cnt (blocks p b))
    \<Longrightarrow> free_blocks bs p = Inr p' \<Longrightarrow> pool_step p p'"
| cache_full: "\<forall>b \<in> set bs. valid_block p b \<Longrightarrow> cache_full_blocks r bs nc nf sz g msk p = Inr p' \<Longrightarrow> pool_step p p'"
| cache_partial: "valid_block p b \<Longrightarrow> cache_partial_block r b n g sz p = Inr (k, p') \<Longrightarrow> pool_step p p'"
| emit_cached: "emit_cached_block_events r n sz g p = Inr p' \<Longrightarrow> pool_step p p'"
| move: "valid_block p dst \<Longrightarrow> dst \<noteq> null_block p \<Longrightarrow> src \<noteq> dst \<Longrightarrow> move_block_hashes src dst p = Inr p'
    \<Longrightarrow> pool_step p p'"
| evict: "\<forall>i \<in> set ids. 0 \<le> i \<and> i < num_gpu_blocks p \<Longrightarrow> evict_blocks ids p = Inr p' \<Longrightarrow> pool_step p p'"
| reset: "reset_prefix_cache p = (ok, p') \<Longrightarrow> pool_step p p'"
| events: "take_events p = (es, p') \<Longrightarrow> pool_step p p'"

inductive pool_reachable :: "int \<Rightarrow> bool \<Rightarrow> int \<Rightarrow> bool \<Rightarrow> bool \<Rightarrow> pool \<Rightarrow> bool"
  for n caching hbs ev ui where
  init: "block_pool_init n caching hbs ev ui = Inr p \<Longrightarrow> pool_reachable n caching hbs ev ui p"
| step: "pool_reachable n caching hbs ev ui p \<Longrightarrow> pool_step p p' \<Longrightarrow> pool_reachable n caching hbs ev ui p'"

lemma pool_step_inv:
  assumes step: "pool_step p p'" and inv: "pool_inv p xs"
  shows "(\<exists>ys. pool_inv p' ys) \<and> same_config p p'"
proof -
  have ci: "cache_inv p" using inv by (simp add: pool_inv_def)
  have refs: "(\<exists>ys. pool_inv p' ys) \<and> same_config p p'" if "same_refs p p'" "cache_inv p'"
    using same_refs_pool [OF that inv] same_refs_config [OF that(1)] by blast
  show ?thesis
    using step
  proof cases
    case (alloc n bs)
    then have n: "n \<le> int (length xs)" using get_new_blocks_short [OF inv, of n] by (cases "int (length xs) < n") auto
    obtain q where "get_new_blocks n p = Inr (take (nat n) xs, q)" "pool_inv q (drop (nat n) xs)" "same_config p q"
      using get_new_blocks_result [OF inv alloc(1) n] by blast
    with alloc(2) show ?thesis by auto
  next
    case (touch bs)
    obtain q where "touch bs p = Inr q" "pool_inv q (filter (\<lambda>c. c \<notin> set bs) xs)" "same_cache p q"
      using touch_result [OF inv, of bs] touch(1) by blast
    with touch(2) show ?thesis using same_cache_config by auto
  next
    case (free bs)
    obtain q ys where "free_blocks bs p = Inr q" "pool_inv q ys" "same_cache p q"
      using free_blocks_result [OF inv, of bs] free(1) by blast
    with free(2) show ?thesis using same_cache_config by auto
  next
    case (cache_full bs)
    with cache_full_blocks_inv [OF _ inv] same_refs_config show ?thesis by blast
  next
    case (cache_partial b)
    with cache_partial_block_inv [OF _ inv] same_refs_config show ?thesis by blast
  next
    case emit_cached
    with emit_cached_result same_cache_inv [OF _ ci] refs show ?thesis by blast
  next
    case (move dst src)
    then have "block_keys p dst = []"
      by (auto simp: move_block_hashes_def bindE_eq_Inr block_keys_def)
    then obtain q where "move_block_hashes src dst p = Inr q" "cache_inv q" "same_refs p q"
      using move_block_hashes_result [OF ci move(1,2) _ move(3)] by blast
    with move(4) refs show ?thesis by auto
  next
    case (evict ids)
    obtain q where "evict_blocks ids p = Inr q" "cache_inv q" "same_refs p q"
      using evict_blocks_result [OF ci, of ids] evict(1) by blast
    with evict(2) refs show ?thesis by auto
  next
    case (reset ok)
    obtain q where "reset_prefix_cache p = (used_set p = {}, q)" "pool_inv q xs" "same_refs p q"
      using reset_prefix_cache_result [OF inv] by blast
    with reset show ?thesis using same_refs_config by auto
  next
    case (events es)
    then have "p' = p \<or> (\<exists>es. p' = p\<lparr>kv_event_queue := es\<rparr>)" by (auto simp: take_events_def split: if_splits)
    with refs same_cache_inv [OF _ ci] events_frame ci same_refs_refl show ?thesis by metis
  qed
qed

lemma pool_reachable_inv:
  assumes "pool_reachable n caching hbs ev ui p"
  shows "\<exists>xs. pool_inv p xs \<and> num_gpu_blocks p = n"
  using assms
proof (induction rule: pool_reachable.induct)
  case (init p)
  then have "0 < n" by (cases "0 < n") (auto simp: block_pool_init_def)
  with block_pool_init_result [of n caching hbs ev ui] init show ?case by auto
next
  case (step p p')
  then obtain xs where xs: "pool_inv p xs" "num_gpu_blocks p = n" by blast
  with pool_step_inv [OF step(2) xs(1)] show ?case by (auto simp: same_config_def)
qed

text \<open>
  C24. In every state the pool can reach, walking the free queue ends and yields, without
  repetition, exactly the blocks other than the null block whose reference count is 0; free
  blocks, blocks in use and the null block add up to the pool size; and a block is a candidate
  of a key in the prefix-cache index if and only if the block's own metadata lists that key.
\<close>

theorem pool_consistent:
  assumes "pool_reachable n caching hbs ev ui p"
  shows "(\<exists>xs. get_all_free_blocks (free_block_queue p) = Some (Inr xs) \<and> distinct xs
      \<and> set xs = {b. valid_block p b \<and> b \<noteq> null_block p \<and> ref_cnt (blocks p b) = 0}
      \<and> get_num_free_blocks p = int (length xs))
    \<and> get_num_free_blocks p + int (card {b. valid_block p b \<and> b \<noteq> null_block p \<and> 0 < ref_cnt (blocks p b)}) + 1 = n
    \<and> (\<forall>b k. b \<in> set (bm_blocks (cached_block_hash_to_block p) k) \<longleftrightarrow> k \<in> set (block_keys p b))"
proof -
  obtain xs where inv: "pool_inv p xs" "num_gpu_blocks p = n" using pool_reachable_inv [OF assms] by blast
  have "\<exists>xs. get_all_free_blocks (free_block_queue p) = Some (Inr xs) \<and> distinct xs
      \<and> set xs = {b. valid_block p b \<and> b \<noteq> null_block p \<and> ref_cnt (blocks p b) = 0}
      \<and> get_num_free_blocks p = int (length xs)"
    using inv(1) pool_inv_distinct [OF inv(1)] get_num_free_blocks_inv [OF inv(1)] fq_get_all_free_blocks
    by (intro exI [of _ xs]) (simp add: pool_inv_def free_set_def)
  moreover have "get_num_free_blocks p
      + int (card {b. valid_block p b \<and> b \<noteq> null_block p \<and> 0 < ref_cnt (blocks p b)}) + 1 = n"
    using block_conservation [OF inv(1)] inv(2) by (simp add: used_set_def)
  moreover have "b \<in> set (bm_blocks (cached_block_hash_to_block p) k) \<longleftrightarrow> k \<in> set (block_keys p b)" for b k
    using inv(1) cache_inv_member by (simp add: pool_inv_def)
  ultimately show ?thesis by blast
qed

theorem pool_consistent_witness:
  "\<exists>p. pool_reachable 4 True 2 False False p
    \<and> get_num_free_blocks p + int (card {b. valid_block p b \<and> b \<noteq> null_block p \<and> 0 < ref_cnt (blocks p b)}) + 1 = 4"
proof -
  obtain p where "block_pool_init 4 True 2 False False = Inr p" using block_pool_init_result [of 4 True 2 False False] by auto
  then have "pool_reachable 4 True 2 False False p" by (rule pool_reachable.init)
  then show ?thesis using pool_consistent by blast
qed

section \<open>Operations\<close>

text \<open>
  C25. Allocating \<open>n\<close> blocks raises \<open>ValueError\<close> if fewer than \<open>n\<close> are free.  Otherwise it returns
  the first \<open>n\<close> blocks of the free list in order: pairwise different, none the null block, each
  now held once, and, with caching enabled, none any longer reachable through the cache.  The
  other blocks keep their reference counts and cache entries.
\<close>

theorem allocation_correct:
  assumes "pool_inv p xs" "0 \<le> n"
  shows "if int (length xs) < n then get_new_blocks n p = Inl ValueError
    else \<exists>bs p'. get_new_blocks n p = Inr (bs, p') \<and> bs = take (nat n) xs \<and> pool_inv p' (drop (nat n) xs)
      \<and> distinct bs \<and> int (length bs) = n
      \<and> (\<forall>b \<in> set bs. b \<noteq> null_block p' \<and> ref_cnt (blocks p' b) = 1
            \<and> (enable_caching p \<longrightarrow> (\<forall>k. b \<notin> set (bm_blocks (cached_block_hash_to_block p') k))))
      \<and> (\<forall>b. b \<notin> set bs \<longrightarrow> ref_cnt (blocks p' b) = ref_cnt (blocks p b) \<and> block_keys p' b = block_keys p b)"
proof (cases "int (length xs) < n")
  case True
  with get_new_blocks_short [OF assms(1)] show ?thesis by simp
next
  case False
  let ?bs = "take (nat n) xs"
  obtain p' where p': "get_new_blocks n p = Inr (?bs, p')" "pool_inv p' (drop (nat n) xs)" "same_config p p'"
    "\<forall>c. ref_cnt (blocks p' c) = ref_cnt (blocks p c) + (if c \<in> set ?bs then 1 else 0)"
    "block_keys p' = (\<lambda>c. if enable_caching p \<and> c \<in> set ?bs then [] else block_keys p c)"
    using get_new_blocks_result [OF assms] False by auto
  have ci: "cache_inv p'" using p'(2) by (simp add: pool_inv_def)
  have free: "b \<noteq> null_block p \<and> ref_cnt (blocks p b) = 0" if "b \<in> set ?bs" for b
    using pool_inv_free [OF assms(1), of b] in_set_takeD [OF that] by simp
  have "b \<noteq> null_block p' \<and> ref_cnt (blocks p' b) = 1
      \<and> (enable_caching p \<longrightarrow> (\<forall>k. b \<notin> set (bm_blocks (cached_block_hash_to_block p') k)))" if "b \<in> set ?bs" for b
    using free [OF that] that p'(3,4,5) cache_inv_member [OF ci, of b] by (simp add: same_config_def)
  then show ?thesis
    using False p' assms(2) pool_inv_distinct [OF assms(1)] by (intro if_not_P [THEN iffD2] exI [of _ ?bs] exI [of _ p']) auto
qed

theorem allocation_correct_witness:
  "\<exists>p p'. block_pool_init 4 True 2 False False = Inr p \<and> get_new_blocks 2 p = Inr ([Blk 1, Blk 2], p')
    \<and> ref_cnt (blocks p' (Blk 1)) = 1"
proof -
  obtain p where p: "block_pool_init 4 True 2 False False = Inr p" "pool_inv p (map Blk [1..<nat 4])"
    using block_pool_init_result [of 4 True 2 False False] by auto
  have xs: "map Blk [1..<nat 4] = [Blk 1, Blk 2, Blk 3]" by (simp add: upt_rec)
  have "\<exists>bs p'. get_new_blocks 2 p = Inr (bs, p') \<and> bs = take (nat 2) (map Blk [1..<nat 4]) \<and> (\<forall>b \<in> set bs. ref_cnt (blocks p' b) = 1)"
    using allocation_correct [OF p(2), of 2] by auto
  with p(1) xs show ?thesis by auto
qed

text \<open>
  Freeing drops one reference per listed block.  The blocks whose last reference goes away
  join the free list: those without a cached hash (or all, with caching off) in front, to be
  reused first, the cached ones at the back, to be evicted last; each group in the given order.
  No block loses its cache entries.
\<close>

theorem freeing_correct:
  assumes "pool_inv p xs"
    and "\<And>b. b \<in> set bs \<Longrightarrow> valid_block p b"
    and "\<And>b. b \<in> set bs \<Longrightarrow> b \<noteq> null_block p \<Longrightarrow> int (count_list bs b) \<le> ref_cnt (blocks p b)"
    and "distinct bs"
  shows "\<exists>p'. free_blocks bs p = Inr p'
    \<and> pool_inv p' (filter (\<lambda>b. b \<noteq> null_block p \<and> ref_cnt (blocks p b) = 1 \<and> (block_hash (blocks p b) = None \<or> \<not> enable_caching p)) bs
        @ xs @ filter (\<lambda>b. b \<noteq> null_block p \<and> ref_cnt (blocks p b) = 1 \<and> block_hash (blocks p b) \<noteq> None \<and> enable_caching p) bs)
    \<and> (\<forall>b. ref_cnt (blocks p' b) = ref_cnt (blocks p b) - (if b \<in> set bs then 1 else 0))
    \<and> block_keys p' = block_keys p"
proof -
  have null: "is_null (blocks p b) \<longleftrightarrow> b = null_block p" if "b \<in> set bs" for b
    using assms(1) assms(2) [OF that] by (simp add: pool_inv_def ref_inv_def)
  have cnt: "count_list bs b = (if b \<in> set bs then 1 else 0)" for b by (rule distinct_count_list [OF assms(4)])
  have drop: "dropped p bs = filter (\<lambda>b. b \<noteq> null_block p \<and> ref_cnt (blocks p b) = 1) bs"
    using assms(4) unfolding dropped_def by (auto simp: distinct_remdups_id null cnt intro!: filter_cong)
  have parts: "filter (evict_first p) (dropped p bs)
      = filter (\<lambda>b. b \<noteq> null_block p \<and> ref_cnt (blocks p b) = 1 \<and> (block_hash (blocks p b) = None \<or> \<not> enable_caching p)) bs"
    "filter (\<lambda>b. \<not> evict_first p b) (dropped p bs)
      = filter (\<lambda>b. b \<noteq> null_block p \<and> ref_cnt (blocks p b) = 1 \<and> block_hash (blocks p b) \<noteq> None \<and> enable_caching p) bs"
    unfolding drop filter_filter evict_first_def by (auto intro!: filter_cong)
  obtain p' where p': "free_blocks bs p = Inr p'" "same_cache p p'"
    "pool_inv p' (filter (evict_first p) (dropped p bs) @ xs @ filter (\<lambda>b. \<not> evict_first p b) (dropped p bs))"
    "\<forall>c. ref_cnt (blocks p' c) = ref_cnt (blocks p c) - int (count_list bs c)"
    using free_blocks_result [OF assms(1-3)] by blast
  have "block_keys p' = block_keys p" using block_keys_cong [OF p'(2)] by blast
  with p' show ?thesis unfolding parts cnt by (intro exI [of _ p']) auto
qed

text \<open>
  C26. Touching blocks that were found in the cache always succeeds for blocks of the pool: each
  gains one reference per occurrence, the ones that were free leave the free list (the others
  keep their order), and freeing the same blocks again restores every reference count.
\<close>

theorem touching_correct:
  assumes "pool_inv p xs" and "\<And>b. b \<in> set bs \<Longrightarrow> valid_block p b"
  shows "\<exists>p' p''. touch bs p = Inr p' \<and> pool_inv p' (filter (\<lambda>b. b \<notin> set bs) xs)
    \<and> (\<forall>b. ref_cnt (blocks p' b) = ref_cnt (blocks p b) + int (count_list bs b))
    \<and> block_keys p' = block_keys p
    \<and> free_blocks bs p' = Inr p'' \<and> (\<forall>b. ref_cnt (blocks p'' b) = ref_cnt (blocks p b))"
proof -
  obtain p' where p': "touch bs p = Inr p'" "pool_inv p' (filter (\<lambda>c. c \<notin> set bs) xs)" "same_cache p p'"
    "\<forall>c. ref_cnt (blocks p' c) = ref_cnt (blocks p c) + int (count_list bs c)"
    using touch_result [OF assms] by blast
  note d = same_config_dest [OF same_cache_config [OF p'(3)]]
  have v: "valid_block p' b" if "b \<in> set bs" for b using assms(2) [OF that] by (simp add: d)
  have own: "int (count_list bs b) \<le> ref_cnt (blocks p' b)" if "b \<in> set bs" "b \<noteq> null_block p'" for b
    using p'(4) pool_inv_nonneg [OF assms(1) assms(2) [OF that(1)]] that(2) d by simp
  obtain p'' where "free_blocks bs p' = Inr p''" "\<forall>c. ref_cnt (blocks p'' c) = ref_cnt (blocks p' c) - int (count_list bs c)"
    using free_blocks_result [OF p'(2) v own] by blast
  moreover have "block_keys p' = block_keys p" using block_keys_cong [OF p'(3)] by blast
  ultimately show ?thesis using p' by (intro exI [of _ p'] exI [of _ p'']) simp
qed

theorem touching_correct_witness:
  "\<exists>p p'. block_pool_init 4 True 2 False False = Inr p \<and> touch [Blk 2] p = Inr p' \<and> pool_inv p' [Blk 1, Blk 3]"
proof -
  obtain p where p: "block_pool_init 4 True 2 False False = Inr p" "pool_inv p (map Blk [1..<nat 4])" "num_gpu_blocks p = 4"
    using block_pool_init_result [of 4 True 2 False False] by auto
  have xs: "map Blk [1..<nat 4] = [Blk 1, Blk 2, Blk 3]" by (simp add: upt_rec)
  have "valid_block p b" if "b \<in> set [Blk 2]" for b
    using that p(3) unfolding valid_block_def block_refs_def by (auto simp: upt_rec)
  from touching_correct [of p "map Blk [1..<nat 4]" "[Blk 2]", OF p(2) this] have "\<exists>p'. touch [Blk 2] p = Inr p' \<and> pool_inv p' [Blk 1, Blk 3]"
    unfolding xs by auto
  with p(1) show ?thesis by blast
qed

text \<open>
  A lookup by hash is sound and complete: for group ids of 32 bits \<open>get_cached_block\<close> never
  raises; it returns, for each group, a block whose metadata carries the hash in that group (so
  never the null block), and reports a miss only if some group has no such block.
\<close>

theorem lookup_correct:
  assumes "pool_inv p xs" and "\<And>g. g \<in> set gs \<Longrightarrow> 0 \<le> g \<and> g < 2 ^ 32"
  shows "(\<exists>bs. get_cached_block p h gs = Inr (Some bs)
        \<and> list_all2 (\<lambda>g b. cached_under p h g b \<and> valid_block p b \<and> b \<noteq> null_block p) gs bs)
    \<or> (get_cached_block p h gs = Inr None \<and> (\<exists>g \<in> set gs. \<forall>b. \<not> cached_under p h g b))"
proof -
  have ci: "cache_inv p" using assms(1) by (simp add: pool_inv_def)
  obtain f where f: "get_cached_block p h gs = Inr f"
    "case f of None \<Rightarrow> \<exists>g \<in> set gs. \<forall>b. \<not> cached_under p h g b | Some bs \<Rightarrow> list_all2 (\<lambda>g b. cached_under p h g b) gs bs"
    using get_cached_block_result [OF ci assms(2)] by blast
  have "list_all2 (\<lambda>g b. cached_under p h g b \<and> valid_block p b \<and> b \<noteq> null_block p) gs bs" if "f = Some bs" for bs
    using f(2) that cached_under_valid [OF ci] by (auto elim!: list_all2_mono)
  with f show ?thesis by (cases f) auto
qed

text \<open>
  C27. Caching full blocks: for a request whose hashes cover the blocks (block size a multiple
  \<open>k\<close> of the hash block size), distinct blocks that are new or hold a shorter partial entry, and
  a 32-bit group id, \<open>cache_full_blocks\<close> does not raise, changes no reference count and no free
  list, and afterwards the hash of every block it did not skip is found by a lookup in its
  group.
\<close>

theorem cached_blocks_are_found:
  assumes "pool_inv p xs" and "\<And>b. b \<in> set blks \<Longrightarrow> valid_block p b"
    and "0 < hash_block_size p" "0 < k" "0 \<le> nc" "nc < nf" "nf \<le> int (length blks)"
    and "nf \<le> int (length (block_hashes r)) div k" "0 \<le> g" "g < 2 ^ 32"
    and "\<And>m. msk = Some m \<Longrightarrow> int (length m) = nf - nc"
    and "distinct (filter (\<lambda>b. b \<noteq> null_block p) blks)"
    and "\<And>j. nc \<le> j \<Longrightarrow> j < nf \<Longrightarrow> \<not> skipped p msk (j - nc) (blks ! nat j) \<Longrightarrow>
      promotable p ((j + 1) * (k * hash_block_size p)) (blks ! nat j)"
  shows "\<exists>p'. cache_full_blocks r blks nc nf (k * hash_block_size p) g msk p = Inr p' \<and> pool_inv p' xs
    \<and> (\<forall>b. ref_cnt (blocks p' b) = ref_cnt (blocks p b))
    \<and> (\<forall>j. nc \<le> j \<longrightarrow> j < nf \<longrightarrow> \<not> skipped p msk (j - nc) (blks ! nat j) \<longrightarrow>
        cached_under p' (block_hashes r ! nat ((j + 1) * k - 1)) g (blks ! nat j)
        \<and> (\<exists>b. get_cached_block p' (block_hashes r ! nat ((j + 1) * k - 1)) [g] = Inr (Some [b])
              \<and> cached_under p' (block_hashes r ! nat ((j + 1) * k - 1)) g b))"
proof -
  obtain p' where p': "cache_full_blocks r blks nc nf (k * hash_block_size p) g msk p = Inr p'" "pool_inv p' xs" "same_refs p p'"
    "\<forall>j. nc \<le> j \<longrightarrow> j < nf \<longrightarrow> \<not> skipped p msk (j - nc) (blks ! nat j) \<longrightarrow>
        (\<exists>key. make_block_hash_with_group_id (coarse_hash (block_hashes r) k j) g = Inr key
            \<and> block_keys p' (blks ! nat j) = [key])"
    using cache_full_blocks_result [OF assms] by blast
  have ci: "cache_inv p'" using p'(2) by (simp add: pool_inv_def)
  have hit: "\<exists>b. get_cached_block p' h [g] = Inr (Some [b]) \<and> cached_under p' h g b" if "cached_under p' h g c" for h c
  proof -
    have "0 \<le> i \<and> i < 2 ^ 32" if "i \<in> set [g]" for i using that assms(9,10) by simp
    with get_cached_block_result [OF ci, of "[g]" h] obtain f where f: "get_cached_block p' h [g] = Inr f"
      "case f of None \<Rightarrow> \<exists>i \<in> set [g]. \<forall>b. \<not> cached_under p' h i b
        | Some bs \<Rightarrow> list_all2 (\<lambda>i b. cached_under p' h i b) [g] bs" by blast
    with \<open>cached_under p' h g c\<close> show ?thesis by (cases f) (auto simp: list_all2_Cons1)
  qed
  have cu: "cached_under p' (block_hashes r ! nat ((j + 1) * k - 1)) g (blks ! nat j)"
    if "nc \<le> j" "j < nf" "\<not> skipped p msk (j - nc) (blks ! nat j)" for j
    using p'(4) that by (force simp: cached_under_def coarse_hash_def)
  show ?thesis
    using p'(1-3) cu hit by (intro exI [of _ p']) (auto simp: same_refs_def)
qed

theorem cached_blocks_are_found_witness:
  "\<exists>p p'. block_pool_init 4 True 2 False False = Inr p
    \<and> cache_full_blocks (sample_request ''r'' [5, 6, 7, 8] []\<lparr>block_hashes := [[1], [2]]\<rparr>) [Blk 1, Blk 2] 0 2 (1 * hash_block_size p) 0 None p = Inr p'
    \<and> cached_under p' [2] 0 (Blk 2)"
proof -
  obtain p where p: "block_pool_init 4 True 2 False False = Inr p" "pool_inv p (map Blk [1..<nat 4])"
    "num_gpu_blocks p = 4" "hash_block_size p = 2" "\<forall>b. block_keys p b = []"
    using block_pool_init_result [of 4 True 2 False False] by auto
  let ?r = "sample_request ''r'' [5, 6, 7, 8] []\<lparr>block_hashes := [[1], [2]]\<rparr>"
  have bh: "block_hashes ?r = [[1], [2]]" by (simp add: sample_request_def)
  have valid: "valid_block p b" if "b \<in> set [Blk 1, Blk 2]" for b
    using that p(3) unfolding valid_block_def block_refs_def by (auto simp: upt_rec)
  have nb: "null_block p = Blk 0" using p(2) by (simp add: pool_inv_def ref_inv_def)
  have none: "block_hash (blocks p b) = None" for b
    using p(2,5) block_keys_Nil [of p b] by (simp add: pool_inv_def)
  have sk: "\<not> skipped p None i b" if "b \<in> set [Blk 1, Blk 2]" for i b
    using p(2) valid [OF that] that nb by (auto simp: skipped_def pool_inv_def ref_inv_def)
  have "\<exists>p'. cache_full_blocks ?r [Blk 1, Blk 2] 0 2 (1 * hash_block_size p) 0 None p = Inr p' \<and> pool_inv p' (map Blk [1..<nat 4])
    \<and> (\<forall>b. ref_cnt (blocks p' b) = ref_cnt (blocks p b))
    \<and> (\<forall>j. 0 \<le> j \<longrightarrow> j < 2 \<longrightarrow> \<not> skipped p None (j - 0) ([Blk 1, Blk 2] ! nat j) \<longrightarrow>
        cached_under p' (block_hashes ?r ! nat ((j + 1) * 1 - 1)) 0 ([Blk 1, Blk 2] ! nat j)
        \<and> (\<exists>b. get_cached_block p' (block_hashes ?r ! nat ((j + 1) * 1 - 1)) [0] = Inr (Some [b])
              \<and> cached_under p' (block_hashes ?r ! nat ((j + 1) * 1 - 1)) 0 b))"
    by (rule cached_blocks_are_found) (use p valid nb none in \<open>auto simp: bh promotable_def\<close>)
  then obtain p' where p': "cache_full_blocks ?r [Blk 1, Blk 2] 0 2 (1 * hash_block_size p) 0 None p = Inr p'"
    "\<forall>j. 0 \<le> j \<longrightarrow> j < 2 \<longrightarrow> \<not> skipped p None (j - 0) ([Blk 1, Blk 2] ! nat j) \<longrightarrow>
        cached_under p' (block_hashes ?r ! nat ((j + 1) * 1 - 1)) 0 ([Blk 1, Blk 2] ! nat j)" by blast
  from p'(2) [rule_format, of 1] sk [of "Blk 2" 1] have "cached_under p' [2] 0 (Blk 2)" by (simp add: bh)
  with p(1) p'(1) show ?thesis by blast
qed

text \<open>
  Resetting the prefix cache succeeds exactly when no block but the null block is in use;
  then every lookup misses afterwards.  When it fails it changes nothing.  The free list and the
  reference counts are the same in both cases.
\<close>

theorem reset_correct:
  assumes "pool_inv p xs" "gs \<noteq> []" "\<And>g. g \<in> set gs \<Longrightarrow> 0 \<le> g \<and> g < 2 ^ 32"
  shows "\<exists>p'. reset_prefix_cache p = (get_num_free_blocks p = num_gpu_blocks p - 1, p') \<and> pool_inv p' xs
    \<and> (if get_num_free_blocks p = num_gpu_blocks p - 1 then \<forall>h. get_cached_block p' h gs = Inr None else p' = p)"
proof -
  obtain p' where p': "reset_prefix_cache p = (used_set p = {}, p')" "pool_inv p' xs"
    "used_set p = {} \<longrightarrow> (\<forall>b. block_keys p' b = [])" "used_set p \<noteq> {} \<longrightarrow> p' = p"
    using reset_prefix_cache_result [OF assms(1)] by blast
  have fin: "finite (used_set p)" by (rule finite_subset [of _ "set (block_refs p)"]) (auto simp: used_set_def valid_block_def)
  have iff: "get_num_free_blocks p = num_gpu_blocks p - 1 \<longleftrightarrow> used_set p = {}"
    using block_conservation [OF assms(1)] fin by (auto simp: card_0_eq [symmetric] simp del: card_0_eq)
  have "get_cached_block p' h gs = Inr None" if "used_set p = {}" for h
  proof -
    have ci: "cache_inv p'" using p'(2) by (simp add: pool_inv_def)
    have none: "\<not> cached_under p' h g b" for g b using p'(3) that by (simp add: cached_under_def)
    obtain f where "get_cached_block p' h gs = Inr f" "case f of None \<Rightarrow> True | Some bs \<Rightarrow> list_all2 (\<lambda>g b. cached_under p' h g b) gs bs"
      using get_cached_block_result [where h = h and gs = gs, OF ci assms(3)] by (cases "get_cached_block p' h gs") (auto split: option.splits)
    with none assms(2) show ?thesis by (cases f; cases gs) (auto simp: list_all2_Cons1)
  qed
  with p' iff show ?thesis by auto
qed

end
