(* ===== verification/Managers.thy ===== *)
theory Managers
  imports Pool_Props
begin

text \<open>
  The single-type KV-cache managers of \<^verbatim>\<open>vllm/v1/core/single_type_kv_cache_manager.py\<close>: the block
  tables of the requests of one KV-cache group, over the shared block pool.  One record models
  \<^verbatim>\<open>SingleTypeKVCacheManager\<close>; the subclass is its \<open>kind\<close>, and an operation that a subclass
  overrides dispatches on it.  \<^verbatim>\<open>MambaManager\<close> and \<^verbatim>\<open>SinkFullAttentionManager\<close> are not modelled.
\<close>

section \<open>State\<close>

text \<open>
  \<open>RSWA rswa_window\<close>, \<open>SlidingWindow sliding_window extra_retained_tokens\<close>,
  \<open>ChunkedLocal attention_chunk_size\<close>.
\<close>

datatype mgr_kind = FullAttention | RSWA int | SlidingWindow int int | ChunkedLocal int
  | CircularBuffer | CrossAttention

record mgr =
  kind :: mgr_kind
  spec_block_size :: int
  block_size :: int
  cache_hit_alignment_tokens :: int
  mgr_enable_caching :: bool
  max_admission_blocks_per_request :: "int option"
  record_new_block_ids :: bool
  new_block_ids :: "bref list"
  req_to_blocks :: "string \<rightharpoonup> bref list"
  num_cached_block :: "string \<rightharpoonup> int"
  kv_cache_group_id :: int
  use_eagle :: bool
  partial_hit_reqs :: "string \<rightharpoonup> int \<times> bref"
  pending_cow_copies :: "(bref \<times> bref) list"

text \<open>The constructor; \<open>is_attention\<close> is \<open>isinstance(kv_cache_spec, AttentionSpec)\<close>.\<close>

definition manager_init ::
    "mgr_kind \<Rightarrow> int \<Rightarrow> bool \<Rightarrow> bool \<Rightarrow> int \<Rightarrow> int \<Rightarrow> int \<Rightarrow> bool \<Rightarrow> int option \<Rightarrow> mgr" where
  "manager_init k spec_bs is_attention caching group_id scheduler_block_size dcp_world_size needs_zeroing cap =
     \<lparr>kind = k, spec_block_size = spec_bs,
      block_size = (if 1 < dcp_world_size then spec_bs * dcp_world_size else spec_bs),
      cache_hit_alignment_tokens = scheduler_block_size, mgr_enable_caching = caching,
      max_admission_blocks_per_request = cap,
      record_new_block_ids = (needs_zeroing \<and> is_attention \<and> k \<noteq> CircularBuffer),
      new_block_ids = [], req_to_blocks = Map.empty, num_cached_block = Map.empty,
      kv_cache_group_id = group_id, use_eagle = False, partial_hit_reqs = Map.empty,
      pending_cow_copies = []\<rparr>"

text \<open>
  \<open>req_to_blocks\<close> is a \<open>defaultdict(list)\<close>: reading a missing key yields the empty list, and
  \<open>req_to_blocks[request_id]\<close> also inserts it.
\<close>

definition blocks_of :: "mgr \<Rightarrow> string \<Rightarrow> bref list" where
  "blocks_of m request_id = (case req_to_blocks m request_id of None \<Rightarrow> [] | Some bs \<Rightarrow> bs)"

definition set_blocks :: "string \<Rightarrow> bref list \<Rightarrow> mgr \<Rightarrow> mgr" where
  "set_blocks request_id bs m = m\<lparr>req_to_blocks := (req_to_blocks m)(request_id \<mapsto> bs)\<rparr>"

definition access_blocks :: "string \<Rightarrow> mgr \<Rightarrow> mgr" where
  "access_blocks request_id m = set_blocks request_id (blocks_of m request_id) m"

section \<open>Skipped tokens and demand\<close>

definition swa_num_skipped_tokens :: "int \<Rightarrow> int \<Rightarrow> int \<Rightarrow> int" where
  "swa_num_skipped_tokens sliding_window extra_retained_tokens num_computed =
     max 0 (num_computed - sliding_window + 1 - extra_retained_tokens)"

definition chunked_num_skipped_tokens :: "int \<Rightarrow> int \<Rightarrow> int" where
  "chunked_num_skipped_tokens attention_chunk_size num_computed = num_computed div attention_chunk_size * attention_chunk_size"

definition get_num_skipped_tokens :: "mgr \<Rightarrow> int \<Rightarrow> int" where
  "get_num_skipped_tokens m num_computed =
     (case kind m of
        SlidingWindow sliding_window extra_retained_tokens \<Rightarrow>
          swa_num_skipped_tokens sliding_window extra_retained_tokens num_computed
      | ChunkedLocal attention_chunk_size \<Rightarrow> chunked_num_skipped_tokens attention_chunk_size num_computed
      | _ \<Rightarrow> 0)"

definition get_num_evictable_blocks :: "pool \<Rightarrow> bref list \<Rightarrow> int" where
  "get_num_evictable_blocks p bs =
     int (length (filter (\<lambda>b. ref_cnt (blocks p b) = 0 \<and> \<not> is_null (blocks p b)) bs))"

definition has_partial_local_hit :: "mgr \<Rightarrow> bref list \<Rightarrow> int \<Rightarrow> bool" where
  "has_partial_local_hit m new_computed_blocks num_local \<longleftrightarrow>
     0 < length new_computed_blocks \<and> num_local mod block_size m \<noteq> 0"

definition get_num_blocks_to_allocate ::
    "mgr \<Rightarrow> pool \<Rightarrow> string \<Rightarrow> int \<Rightarrow> bref list \<Rightarrow> int \<Rightarrow> int \<Rightarrow> bool \<Rightarrow> int res" where
  "get_num_blocks_to_allocate m p request_id num_toks new_computed_blocks total_computed num_local apply_admission_cap =
     (if kind m = CircularBuffer
      then Inr (if blocks_of m request_id \<noteq> [] then 0 else 1)
      else
        let num_required0 = cdiv num_toks (block_size m);
            num_required = (case max_admission_blocks_per_request m of
                None \<Rightarrow> num_required0
              | Some cap \<Rightarrow> if apply_admission_cap then min num_required0 cap else num_required0);
            num_req_blocks = int (length (blocks_of m request_id))
        in if num_cached_block m request_id \<noteq> None
           then bindE (py_assert (length new_computed_blocks = 0))
                  (\<lambda>_. Inr (max (num_required - num_req_blocks) 0))
           else
             let num_skipped_tokens = get_num_skipped_tokens m total_computed;
                 num_local_computed_blocks = int (length new_computed_blocks) + num_req_blocks;
                 num_skipped_blocks = num_skipped_tokens div block_size m;
                 num_new_blocks = max (num_required - max num_skipped_blocks num_local_computed_blocks) 0;
                 num_skipped_new = max 0 (num_skipped_blocks - num_req_blocks);
                 num_evictable = get_num_evictable_blocks p (py_slice_from new_computed_blocks num_skipped_new)
             in Inr ((if has_partial_local_hit m new_computed_blocks num_local then num_new_blocks + 1 else num_new_blocks)
                     + num_evictable))"

section \<open>Allocation\<close>

definition base_add_local_computed_blocks ::
    "string \<Rightarrow> bref list \<Rightarrow> int \<Rightarrow> int \<Rightarrow> mgr \<times> pool \<Rightarrow> (mgr \<times> pool) res" where
  "base_add_local_computed_blocks request_id new_computed_blocks num_local num_external = (\<lambda>(m, p).
     bindE (py_assert (length (blocks_of m request_id) = 0)) (\<lambda>_.
     let num_skipped_blocks = get_num_skipped_tokens m (num_local + num_external) div block_size m;
         ncb = (if 0 < num_skipped_blocks then py_slice_from new_computed_blocks num_skipped_blocks
                else new_computed_blocks)
     in bindE (if mgr_enable_caching m then touch ncb p
               else bindE (py_assert (ncb = [])) (\<lambda>_. Inr p)) (\<lambda>p1.
        let req_blocks = replicate (nat num_skipped_blocks) (null_block p1) @ ncb;
            m1 = set_blocks request_id req_blocks m;
            m2 = m1\<lparr>num_cached_block := (num_cached_block m1)(request_id \<mapsto> int (length req_blocks))\<rparr>
        in if has_partial_local_hit m2 ncb num_local
           then let block_idx = num_local div block_size m2
                in Inr (m2\<lparr>partial_hit_reqs := (partial_hit_reqs m2)(request_id \<mapsto> (block_idx, last ncb)),
                           num_cached_block := (num_cached_block m2)(request_id \<mapsto> block_idx)\<rparr>, p1)
           else Inr (m2, p1))))"

definition add_local_computed_blocks ::
    "string \<Rightarrow> bref list \<Rightarrow> int \<Rightarrow> int \<Rightarrow> mgr \<times> pool \<Rightarrow> (mgr \<times> pool) res" where
  "add_local_computed_blocks request_id new_computed_blocks num_local num_external s =
     (case kind (fst s) of
        CircularBuffer \<Rightarrow> Inr s
      | CrossAttention \<Rightarrow> bindE (py_assert (length new_computed_blocks = 0)) (\<lambda>_. Inr s)
      | _ \<Rightarrow> base_add_local_computed_blocks request_id new_computed_blocks num_local num_external s)"

text \<open>Append freshly allocated blocks to the request, recording their ids for zeroing.\<close>

definition extend_with_new :: "string \<Rightarrow> int \<Rightarrow> mgr \<times> pool \<Rightarrow> (bref list \<times> mgr \<times> pool) res" where
  "extend_with_new request_id n = (\<lambda>(m, p).
     bindE (get_new_blocks n p) (\<lambda>(new_blocks, p1).
       let m1 = set_blocks request_id (blocks_of m request_id @ new_blocks) m
       in Inr (new_blocks,
               (if record_new_block_ids m1 then m1\<lparr>new_block_ids := new_block_ids m1 @ new_blocks\<rparr> else m1), p1)))"

definition claim_ring_block :: "string \<Rightarrow> mgr \<times> pool \<Rightarrow> (bref list \<times> mgr \<times> pool) res" where
  "claim_ring_block request_id = (\<lambda>(m, p).
     if blocks_of m request_id \<noteq> [] then Inr ([], access_blocks request_id m, p)
     else extend_with_new request_id 1 (m, p))"

definition base_allocate_external_computed_blocks ::
    "string \<Rightarrow> int \<Rightarrow> int \<Rightarrow> mgr \<times> pool \<Rightarrow> (mgr \<times> pool) res" where
  "base_allocate_external_computed_blocks request_id num_local num_external = (\<lambda>(m, p).
     let total = num_local + num_external;
         num_skipped_tokens = get_num_skipped_tokens m total;
         ext = (if 0 < num_skipped_tokens then min (total - num_skipped_tokens) num_external else num_external)
     in if ext \<le> 0 then Inr (m, p)
        else bindE (extend_with_new request_id
                      (max 0 (cdiv total (block_size m) - int (length (blocks_of m request_id)))) (m, p))
               (\<lambda>(_, s). Inr s))"

definition allocate_external_computed_blocks ::
    "string \<Rightarrow> int \<Rightarrow> int \<Rightarrow> mgr \<times> pool \<Rightarrow> (mgr \<times> pool) res" where
  "allocate_external_computed_blocks request_id num_local num_external s =
     (case kind (fst s) of
        CircularBuffer \<Rightarrow> bindE (claim_ring_block request_id s) (\<lambda>(_, s'). Inr s')
      | CrossAttention \<Rightarrow> Inr s
      | _ \<Rightarrow> base_allocate_external_computed_blocks request_id num_local num_external s)"

definition apply_cow :: "string \<Rightarrow> int \<Rightarrow> bref \<Rightarrow> bref \<Rightarrow> mgr \<times> pool \<Rightarrow> (mgr \<times> pool) res" where
  "apply_cow request_id block_idx source_block cow_block = (\<lambda>(m, p).
     let req_blocks = blocks_of m request_id in
     bindE (py_assert (block_idx < int (length req_blocks))) (\<lambda>_.
     bindE (py_get req_blocks block_idx) (\<lambda>b.
     bindE (py_assert (b = source_block)) (\<lambda>_.
     bindE (py_assert (\<not> is_null (blocks p source_block) \<and> 0 < ref_cnt (blocks p source_block))) (\<lambda>_.
     bindE (py_set req_blocks block_idx cow_block) (\<lambda>req_blocks'.
       Inr ((set_blocks request_id req_blocks' m)
              \<lparr>pending_cow_copies := pending_cow_copies m @ [(source_block, cow_block)]\<rparr>,
            upd_block cow_block (add_ref 1) p)))))))"

text \<open>The first half of \<open>allocate_new_blocks\<close>: the redirect of a partially hit tail block.\<close>

definition redirect_partial_hit :: "string \<Rightarrow> mgr \<times> pool \<Rightarrow> (bref list \<times> mgr \<times> pool) res" where
  "redirect_partial_hit request_id = (\<lambda>(m, p).
     case partial_hit_reqs m request_id of
       None \<Rightarrow> Inr ([], m, p)
     | Some (block_idx, source_block) \<Rightarrow>
         bindE (get_new_blocks 1 p) (\<lambda>(new, p1).
         bindE (py_get new 0) (\<lambda>cow_block.
         bindE (apply_cow request_id block_idx source_block cow_block
                  (m\<lparr>partial_hit_reqs := (partial_hit_reqs m)(request_id := None)\<rparr>, p1)) (\<lambda>(m1, p2).
           Inr ([cow_block], m1\<lparr>new_block_ids := new_block_ids m1 @ [cow_block]\<rparr>, p2)))))"

definition base_allocate_new_blocks :: "string \<Rightarrow> int \<Rightarrow> mgr \<times> pool \<Rightarrow> (bref list \<times> mgr \<times> pool) res" where
  "base_allocate_new_blocks request_id num_toks s =
     bindE (redirect_partial_hit request_id s) (\<lambda>(cow_blocks, m, p).
       let num_new_blocks = cdiv num_toks (block_size m) - int (length (blocks_of m request_id))
       in if num_new_blocks \<le> 0 then Inr (cow_blocks, access_blocks request_id m, p)
          else bindE (extend_with_new request_id num_new_blocks (m, p)) (\<lambda>(new_blocks, s').
                 Inr (cow_blocks @ new_blocks, s')))"

definition allocate_new_blocks :: "string \<Rightarrow> int \<Rightarrow> mgr \<times> pool \<Rightarrow> (bref list \<times> mgr \<times> pool) res" where
  "allocate_new_blocks request_id num_toks s =
     (if kind (fst s) = CircularBuffer then claim_ring_block request_id s
      else base_allocate_new_blocks request_id num_toks s)"

definition take_new_block_ids :: "mgr \<Rightarrow> bref list \<times> mgr" where
  "take_new_block_ids m = (new_block_ids m, m\<lparr>new_block_ids := []\<rparr>)"

definition take_pending_cow_copies :: "mgr \<Rightarrow> (bref \<times> bref) list \<times> mgr" where
  "take_pending_cow_copies m = (pending_cow_copies m, m\<lparr>pending_cow_copies := []\<rparr>)"

section \<open>Caching\<close>

definition contiguous_blocks_for_hit :: "int \<Rightarrow> int \<Rightarrow> bool \<Rightarrow> int" where
  "contiguous_blocks_for_hit window_size bs eagle = cdiv (window_size - 1) bs + (if eagle then 1 else 0)"

text \<open>\<open>SlidingWindowManager.reachable_block_mask\<close>; the mask as a function of the block index.\<close>

definition swa_segment_mask :: "int \<Rightarrow> int \<Rightarrow> int \<Rightarrow> int \<Rightarrow> bool" where
  "swa_segment_mask shift per_segment need i \<longleftrightarrow> shift \<le> i \<and> per_segment - need \<le> (i - shift) mod per_segment"

definition swa_boundary_mask :: "int \<Rightarrow> int \<Rightarrow> int \<Rightarrow> int \<Rightarrow> int list \<Rightarrow> int \<Rightarrow> bool" where
  "swa_boundary_mask shift need alignment bs boundaries j \<longleftrightarrow>
     (\<exists>t \<in> set boundaries. let e = (t div alignment * alignment) div bs + shift in e - need \<le> j \<and> j < e)"

definition swa_reachable_block_mask ::
    "int \<Rightarrow> int \<Rightarrow> int option \<Rightarrow> int \<Rightarrow> int \<Rightarrow> bool \<Rightarrow> int option \<Rightarrow> int list \<Rightarrow> bool list option res" where
  "swa_reachable_block_mask start_block end_block alignment_tokens bs sliding_window eagle retention boundaries =
     (case alignment_tokens of
        None \<Rightarrow> Inr None
      | Some alignment \<Rightarrow>
          bindE (py_assert (alignment mod bs = 0)) (\<lambda>_.
          let need = contiguous_blocks_for_hit sliding_window bs eagle;
              shift = (if eagle then 1 else 0);
              segment_tokens = (case retention of None \<Rightarrow> Some alignment
                                | Some i \<Rightarrow> if i = 0 then None else Some i);
              all_reachable = (case segment_tokens of None \<Rightarrow> False | Some t \<Rightarrow> t div bs \<le> need)
          in if all_reachable then Inr None
             else Inr (Some (map (\<lambda>i.
               (case segment_tokens of None \<Rightarrow> False | Some t \<Rightarrow> swa_segment_mask shift (t div bs) need i)
               \<or> (retention \<noteq> None \<and> swa_boundary_mask shift need alignment bs boundaries i))
               (py_range start_block end_block)))))"

definition reachable_block_mask :: "mgr \<Rightarrow> int \<Rightarrow> int \<Rightarrow> int option \<Rightarrow> int list \<Rightarrow> bool list option res" where
  "reachable_block_mask m start_block end_block retention boundaries =
     (case kind m of
        SlidingWindow sliding_window _ \<Rightarrow>
          swa_reachable_block_mask start_block end_block (Some (cache_hit_alignment_tokens m))
            (spec_block_size m) sliding_window (use_eagle m) retention boundaries
      | _ \<Rightarrow> Inr None)"

definition base_cache_blocks :: "request \<Rightarrow> int \<Rightarrow> int option \<Rightarrow> mgr \<times> pool \<Rightarrow> (mgr \<times> pool) res" where
  "base_cache_blocks r num_toks retention = (\<lambda>(m, p).
     let num_cached = (case num_cached_block m (req_id r) of None \<Rightarrow> 0 | Some n \<Rightarrow> n);
         num_full = num_toks div block_size m
     in if num_full \<le> num_cached then Inr (m, p)
        else
          let boundaries = [num_prompt_tokens r - 1]
                @ (if shared_prefix_boundary r \<noteq> 0 then [shared_prefix_boundary r] else [])
          in bindE (reachable_block_mask m num_cached num_full retention boundaries) (\<lambda>msk.
             bindE (cache_full_blocks r (blocks_of m (req_id r)) num_cached num_full (block_size m)
                      (kv_cache_group_id m) msk p) (\<lambda>p1.
               let m1 = access_blocks (req_id r) m
               in Inr (m1\<lparr>num_cached_block := (num_cached_block m1)(req_id r \<mapsto> num_full)\<rparr>, p1))))"

text \<open>\<open>FullAttentionManager._cache_partial_tail_block\<close>.\<close>

definition cache_partial_tail_block :: "request \<Rightarrow> int \<Rightarrow> mgr \<times> pool \<Rightarrow> (mgr \<times> pool) res" where
  "cache_partial_tail_block r num_toks = (\<lambda>(m, p).
     let boundary = num_prompt_tokens r div hash_block_size p * hash_block_size p
     in if boundary = 0 \<or> num_toks < boundary then Inr (m, p)
        else if boundary mod block_size m = 0 then Inr (m, p)
        else
          let m1 = access_blocks (req_id r) m;
              bs = blocks_of m1 (req_id r);
              block_idx = boundary div block_size m1
          in if int (length bs) \<le> block_idx then Inr (m1, p)
             else bindE (py_get bs block_idx) (\<lambda>b.
                  bindE (cache_partial_block r b boundary (kv_cache_group_id m1) (block_size m1) p) (\<lambda>(_, p1).
                    Inr (m1, p1))))"

definition cache_blocks :: "request \<Rightarrow> int \<Rightarrow> int option \<Rightarrow> mgr \<times> pool \<Rightarrow> (mgr \<times> pool) res" where
  "cache_blocks r num_toks retention s =
     (case kind (fst s) of
        CircularBuffer \<Rightarrow> Inr s
      | CrossAttention \<Rightarrow> Inl ValueError
      | SlidingWindow _ _ \<Rightarrow> base_cache_blocks r num_toks retention s
      | ChunkedLocal _ \<Rightarrow> base_cache_blocks r num_toks retention s
      | _ \<Rightarrow>
          bindE (base_cache_blocks r num_toks retention s) (\<lambda>(m, p).
            if block_size m = hash_block_size p then Inr (m, p)
            else cache_partial_tail_block r num_toks (m, p)))"

section \<open>Freeing\<close>

definition pop_blocks_for_free :: "string \<Rightarrow> mgr \<Rightarrow> bref list \<times> mgr" where
  "pop_blocks_for_free request_id m =
     (blocks_of m request_id,
      m\<lparr>req_to_blocks := (req_to_blocks m)(request_id := None),
        num_cached_block := (num_cached_block m)(request_id := None),
        partial_hit_reqs := (partial_hit_reqs m)(request_id := None)\<rparr>)"

definition free_mgr :: "string \<Rightarrow> mgr \<times> pool \<Rightarrow> (mgr \<times> pool) res" where
  "free_mgr request_id = (\<lambda>(m, p).
     let (bs, m1) = pop_blocks_for_free request_id m
     in bindE (free_blocks (rev bs) p) (\<lambda>p1. Inr (m1, p1)))"

text \<open>The backward loop of \<open>_remove_blocks_in_range\<close>, over the indices in descending order.\<close>

fun remove_loop :: "bref \<Rightarrow> nat list \<Rightarrow> bref list \<Rightarrow> bref list \<Rightarrow> bref list \<times> bref list" where
  "remove_loop null [] bs freed = (freed, bs)"
| "remove_loop null (i # is) bs freed =
     (if bs ! i = null then (freed, bs)
      else remove_loop null is (bs[i := null]) (freed @ [bs ! i]))"

definition remove_blocks_in_range :: "string \<Rightarrow> int \<Rightarrow> int \<Rightarrow> mgr \<times> pool \<Rightarrow> (mgr \<times> pool) res" where
  "remove_blocks_in_range request_id first_block last_block = (\<lambda>(m, p).
     if req_to_blocks m request_id = None then Inr (m, p)
     else if last_block \<le> first_block then Inr (m, p)
     else
       let bs = blocks_of m request_id;
           last' = min last_block (int (length bs));
           (freed, bs') = remove_loop (null_block p) (map nat (py_range_down (last' - 1) (first_block - 1))) bs [];
           m1 = set_blocks request_id bs' m
       in if freed = [] then Inr (m1, p)
          else bindE (free_blocks freed p) (\<lambda>p1. Inr (m1, p1)))"

definition base_remove_skipped_blocks :: "string \<Rightarrow> int \<Rightarrow> mgr \<times> pool \<Rightarrow> (mgr \<times> pool) res" where
  "base_remove_skipped_blocks request_id processed = (\<lambda>(m, p).
     let num_skipped_tokens = get_num_skipped_tokens m processed
     in if num_skipped_tokens \<le> 0 then Inr (m, p)
        else let m1 = access_blocks request_id m
             in remove_blocks_in_range request_id 0
                  (min (num_skipped_tokens div block_size m1) (int (length (blocks_of m1 request_id)))) (m1, p))"

definition remove_skipped_blocks :: "string \<Rightarrow> int \<Rightarrow> int option \<Rightarrow> mgr \<times> pool \<Rightarrow> (mgr \<times> pool) res" where
  "remove_skipped_blocks request_id processed num_prompt s =
     (case kind (fst s) of
        CircularBuffer \<Rightarrow> Inr s
      | RSWA rswa_window \<Rightarrow>
          (case num_prompt of
             None \<Rightarrow> base_remove_skipped_blocks request_id processed s
           | Some num_prompt \<Rightarrow>
               (let bs = block_size (fst s);
                    window_start = max num_prompt (processed - rswa_window)
                in remove_blocks_in_range request_id (cdiv num_prompt bs) (window_start div bs) s))
      | _ \<Rightarrow> base_remove_skipped_blocks request_id processed s)"

text \<open>\<open>get_num_common_prefix_blocks\<close>: blocks that every request of the manager holds.\<close>

fun common_prefix_loop :: "pool \<Rightarrow> int \<Rightarrow> bref list \<Rightarrow> int" where
  "common_prefix_loop p n [] = 0"
| "common_prefix_loop p n (b # bs) =
     (if ref_cnt (blocks p b) = n then 1 + common_prefix_loop p n bs else 0)"

definition get_num_common_prefix_blocks :: "string \<Rightarrow> mgr \<times> pool \<Rightarrow> int \<times> mgr" where
  "get_num_common_prefix_blocks request_id = (\<lambda>(m, p).
     case kind m of
       FullAttention \<Rightarrow>
         (let m1 = access_blocks request_id m
          in (common_prefix_loop p (int (card (dom (req_to_blocks m1)))) (blocks_of m1 request_id), m1))
     | RSWA _ \<Rightarrow>
         (let m1 = access_blocks request_id m
          in (common_prefix_loop p (int (card (dom (req_to_blocks m1)))) (blocks_of m1 request_id), m1))
     | _ \<Rightarrow> (0, m))"

end
