(* ===== verification/Cache_Hit.thy ===== *)
theory Cache_Hit
  imports Managers
begin

text \<open>
  The prefix-cache lookups \<open>find_longest_cache_hit\<close> of the manager classes in
  \<^verbatim>\<open>vllm/v1/core/single_type_kv_cache_manager.py\<close>, and what a hit guarantees.  A lookup reads the
  pool and returns, for every group id, the blocks of the hit, with the hit length in tokens.
\<close>

section \<open>Full attention\<close>

definition append_each :: "bref list list \<Rightarrow> bref list \<Rightarrow> bref list list" where
  "append_each computed cached = map2 (\<lambda>c x. c @ [x]) computed cached"

fun full_hit_loop :: "pool \<Rightarrow> int list \<Rightarrow> bytes list \<Rightarrow> bref list list \<Rightarrow> bref list list res" where
  "full_hit_loop p gids [] computed = Inr computed"
| "full_hit_loop p gids (h # hs) computed =
     bindE (get_cached_block p h gids) (\<lambda>c.
       case c of
         None \<Rightarrow> Inr computed
       | Some [] \<Rightarrow> Inr computed
       | Some (x # xs) \<Rightarrow> full_hit_loop p gids hs (append_each computed (x # xs)))"

text \<open>The probe of interior hash boundaries, over the candidate indices from high to low.\<close>

fun partial_hit_loop ::
    "pool \<Rightarrow> int list \<Rightarrow> block_hash_list \<Rightarrow> int \<Rightarrow> int list \<Rightarrow> bref list list \<Rightarrow> int \<Rightarrow> (bref list list \<times> int) res" where
  "partial_hit_loop p gids hs alignment [] computed hit_length = Inr (computed, hit_length)"
| "partial_hit_loop p gids hs alignment (i # is) computed hit_length =
     bindE (bhl_get hs i) (\<lambda>h.
     bindE (get_cached_block p h gids) (\<lambda>c.
       case c of
         None \<Rightarrow> partial_hit_loop p gids hs alignment is computed hit_length
       | Some [] \<Rightarrow> partial_hit_loop p gids hs alignment is computed hit_length
       | Some (x # xs) \<Rightarrow> Inr (append_each computed (x # xs), (i + 1) * alignment)))"

definition full_find_longest_cache_hit ::
    "block_hash_list \<Rightarrow> int \<Rightarrow> int list \<Rightarrow> pool \<Rightarrow> int \<Rightarrow> bool \<Rightarrow> int \<Rightarrow> int \<Rightarrow> (bref list list \<times> int) res" where
  "full_find_longest_cache_hit hashes max_length gids p spec_bs drop_eagle_block alignment dcp_world_size =
     (let bs = (if 1 < dcp_world_size then spec_bs * dcp_world_size else spec_bs);
          fine_grained = alignment < bs \<and> bs mod alignment = 0
      in bindE (resolve_block_hashes hashes (hash_block_size p) bs True (Some alignment)) (\<lambda>hs.
         bindE (if fine_grained
                then case hs of RawHashes l \<Rightarrow> block_hash_list_with_block_size l alignment bs
                              | ScaledHashes _ _ \<Rightarrow> Inl AssertionError
                else Inr hs) (\<lambda>full_hs.
         bindE (if max_length div bs < 0 then Inl ValueError else bhl_iter full_hs) (\<lambda>hash_list.
         bindE (full_hit_loop p gids (take (nat (max_length div bs)) hash_list) (replicate (length gids) [])) (\<lambda>computed.
         bindE (py_get computed 0) (\<lambda>c0.
         bindE (if fine_grained
                then let scale_factor = bs div alignment;
                         first_partial_idx = int (length c0) * scale_factor;
                         max_partial_idx = min (first_partial_idx + scale_factor - 1)
                                             (min (max_length div alignment) (bhl_len hs))
                     in partial_hit_loop p gids hs alignment
                          (py_range_down (max_partial_idx - 1) (first_partial_idx - 1)) computed (int (length c0) * bs)
                else Inr (computed, int (length c0) * bs)) (\<lambda>(computed', hit0).
         let hit1 = (if drop_eagle_block \<and> 0 < hit0 then hit0 - min alignment bs else hit0);
             hit2 = hit1 - hit1 mod alignment
         in Inr (map (\<lambda>c. py_slice c 0 (cdiv hit2 bs)) computed', hit2))))))))"

section \<open>Sliding window\<close>

text \<open>\<open>while len(computed[0]) * block_size % alignment_tokens != 0: computed.pop()\<close>.\<close>

fun align_pop :: "int \<Rightarrow> int \<Rightarrow> nat \<Rightarrow> bref list list \<Rightarrow> bref list list" where
  "align_pop bs alignment 0 computed = computed"
| "align_pop bs alignment (Suc n) computed =
     (if bs \<noteq> alignment \<and> (int (Suc n) * bs) mod alignment \<noteq> 0
      then align_pop bs alignment n (map butlast computed) else computed)"

text \<open>The scan from right to left: blocks found, the length of the current run, whether it is long enough.\<close>

fun swa_hit_loop ::
    "pool \<Rightarrow> int list \<Rightarrow> block_hash_list \<Rightarrow> int \<Rightarrow> int \<Rightarrow> bool \<Rightarrow> int \<Rightarrow> int list \<Rightarrow> bref list list \<Rightarrow> int
      \<Rightarrow> (bref list list \<times> int \<times> bool) res" where
  "swa_hit_loop p gids hs bs alignment eagle need [] computed num_contiguous = Inr (computed, num_contiguous, False)"
| "swa_hit_loop p gids hs bs alignment eagle need (i # is) computed num_contiguous =
     bindE (bhl_get hs i) (\<lambda>h.
     bindE (get_cached_block p h gids) (\<lambda>c.
       case c of
         None \<Rightarrow> swa_hit_loop p gids hs bs alignment eagle need is computed 0
       | Some [] \<Rightarrow> swa_hit_loop p gids hs bs alignment eagle need is computed 0
       | Some (x # xs) \<Rightarrow>
           if num_contiguous = 0 \<and> bs \<noteq> alignment \<and> ((if eagle then i else i + 1) * bs) mod alignment \<noteq> 0
           then swa_hit_loop p gids hs bs alignment eagle need is computed num_contiguous
           else
             let computed1 = map2 (\<lambda>cs y. cs[nat i := y]) computed (x # xs);
                 n = num_contiguous + 1
             in if need \<le> n then Inr (map (take (nat (i + n))) computed1, n, True)
                else swa_hit_loop p gids hs bs alignment eagle need is computed1 n))"

definition swa_find_longest_cache_hit ::
    "block_hash_list \<Rightarrow> int \<Rightarrow> int list \<Rightarrow> pool \<Rightarrow> int \<Rightarrow> int \<Rightarrow> bool \<Rightarrow> int \<Rightarrow> int \<Rightarrow> int \<Rightarrow> (bref list list \<times> int) res" where
  "swa_find_longest_cache_hit hashes max_length gids p bs sliding_window drop_eagle_block alignment dcp_world_size pcp_world_size =
     bindE (py_assert (dcp_world_size = 1)) (\<lambda>_.
     bindE (py_assert (pcp_world_size = 1)) (\<lambda>_.
     bindE (py_assert (alignment mod bs = 0)) (\<lambda>_.
     bindE (resolve_block_hashes hashes (hash_block_size p) bs False (Some alignment)) (\<lambda>hs.
     let need = contiguous_blocks_for_hit sliding_window bs drop_eagle_block;
         max_num_blocks = max_length div bs;
         start = replicate (length gids) (replicate (nat max_num_blocks) (null_block p))
     in bindE (swa_hit_loop p gids hs bs alignment drop_eagle_block need (py_range_down (max_num_blocks - 1) (- 1)) start 0)
          (\<lambda>(computed, num_contiguous, match_found).
        let computed1 = (if match_found then computed
              else let trimmed = map (take (nat num_contiguous)) computed
                   in align_pop bs alignment (length (hd (trimmed @ [[]]))) trimmed)
        in bindE (py_get computed1 0) (\<lambda>c0.
           let computed2 = (if drop_eagle_block \<and> c0 \<noteq> []
                 then align_pop bs alignment (length c0 - 1) (map butlast computed1) else computed1)
           in bindE (py_get computed2 0) (\<lambda>c0'. Inr (computed2, int (length c0') * bs))))))))"

section \<open>Chunked local attention\<close>

fun chunked_hit_loop :: "pool \<Rightarrow> int list \<Rightarrow> block_hash_list \<Rightarrow> int list \<Rightarrow> bref list list \<Rightarrow> bref list list res" where
  "chunked_hit_loop p gids hs [] computed = Inr computed"
| "chunked_hit_loop p gids hs (i # is) computed =
     bindE (bhl_get hs i) (\<lambda>h.
     bindE (get_cached_block p h gids) (\<lambda>c.
       case c of
         None \<Rightarrow> Inr computed
       | Some [] \<Rightarrow> Inr computed
       | Some (x # xs) \<Rightarrow> chunked_hit_loop p gids hs is (append_each computed (x # xs))))"

definition chunked_find_longest_cache_hit ::
    "block_hash_list \<Rightarrow> int \<Rightarrow> int list \<Rightarrow> pool \<Rightarrow> int \<Rightarrow> int \<Rightarrow> bool \<Rightarrow> int \<Rightarrow> int \<Rightarrow> int \<Rightarrow> (bref list list \<times> int) res" where
  "chunked_find_longest_cache_hit hashes max_length gids p bs chunk drop_eagle_block alignment dcp_world_size pcp_world_size =
     bindE (py_assert (\<not> drop_eagle_block)) (\<lambda>_.
     bindE (py_assert (dcp_world_size = 1)) (\<lambda>_.
     bindE (py_assert (pcp_world_size = 1)) (\<lambda>_.
     bindE (py_assert (bs = alignment)) (\<lambda>_.
     bindE (resolve_block_hashes hashes (hash_block_size p) bs False (Some alignment)) (\<lambda>hs.
     let max_num_blocks = max_length div bs;
         local_start = (if 0 < max_length then max_length div chunk * chunk else 0);
         start_idx = local_start div bs
     in bindE (chunked_hit_loop p gids hs (py_range start_idx max_num_blocks)
                 (replicate (length gids) (replicate (nat start_idx) (null_block p)))) (\<lambda>computed.
        bindE (py_get computed 0) (\<lambda>c0. Inr (computed, int (length c0) * bs))))))))"

section \<open>Dispatch\<close>

definition find_longest_cache_hit ::
    "mgr_kind \<Rightarrow> block_hash_list \<Rightarrow> int \<Rightarrow> int list \<Rightarrow> pool \<Rightarrow> int \<Rightarrow> bool \<Rightarrow> int \<Rightarrow> int \<Rightarrow> int \<Rightarrow> (bref list list \<times> int) res" where
  "find_longest_cache_hit k hashes max_length gids p spec_bs drop_eagle_block alignment dcp_world_size pcp_world_size =
     (case k of
        SlidingWindow sliding_window _ \<Rightarrow>
          swa_find_longest_cache_hit hashes max_length gids p spec_bs sliding_window drop_eagle_block alignment
            dcp_world_size pcp_world_size
      | ChunkedLocal chunk \<Rightarrow>
          chunked_find_longest_cache_hit hashes max_length gids p spec_bs chunk drop_eagle_block alignment
            dcp_world_size pcp_world_size
      | CircularBuffer \<Rightarrow> Inr (map (\<lambda>_. []) gids, 0)
      | CrossAttention \<Rightarrow> Inl NotImplementedError
      | _ \<Rightarrow> full_find_longest_cache_hit hashes max_length gids p spec_bs drop_eagle_block alignment dcp_world_size)"

end
