(* ===== verification/Cache_Hit_Props.thy ===== *)
theory Cache_Hit_Props
  imports Cache_Hit
begin

text \<open>
  What the prefix-cache lookups guarantee: the lookup ends without raising, the hit is aligned
  and not longer than allowed, every block it claims is registered in the cache under the hash
  of its position in its group, and the blocks the attention window needs are all there.
\<close>

section \<open>Lookups over several groups\<close>

definition groups_ok :: "int list \<Rightarrow> bool" where
  "groups_ok gids \<longleftrightarrow> gids \<noteq> [] \<and> (\<forall>g \<in> set gids. 0 \<le> g \<and> g < 2 ^ 32)"

definition all_cached :: "pool \<Rightarrow> bytes \<Rightarrow> int list \<Rightarrow> bool" where
  "all_cached p h gids \<longleftrightarrow> (\<forall>g \<in> set gids. \<exists>b. cached_under p h g b)"

lemma lookup_groups:
  assumes "cache_inv p" "groups_ok gids"
  obtains (hit) x xs where "get_cached_block p h gids = Inr (Some (x # xs))"
      "list_all2 (\<lambda>g b. cached_under p h g b) gids (x # xs)" "all_cached p h gids"
    | (miss) "get_cached_block p h gids = Inr None" "\<not> all_cached p h gids"
proof -
  obtain f where f: "get_cached_block p h gids = Inr f"
    "case f of None \<Rightarrow> \<exists>g \<in> set gids. \<forall>b. \<not> cached_under p h g b
     | Some bs \<Rightarrow> list_all2 (\<lambda>g b. cached_under p h g b) gids bs"
    using get_cached_block_result [OF assms(1), of gids h] assms(2) by (auto simp: groups_ok_def)
  show thesis
  proof (cases f)
    case None
    with f miss show thesis by (auto simp: all_cached_def)
  next
    case (Some bs)
    with f have la: "list_all2 (\<lambda>g b. cached_under p h g b) gids bs" by simp
    have "\<exists>b. cached_under p h g b" if "g \<in> set gids" for g
      using la that by (metis in_set_conv_nth list_all2_conv_all_nth)
    then have ac: "all_cached p h gids" by (simp add: all_cached_def)
    from la assms(2) obtain x xs where "bs = x # xs" by (cases bs) (auto simp: groups_ok_def)
    with la ac f Some hit show thesis by auto
  qed
qed

text \<open>\<open>cols gids n C\<close>: one column of \<open>n\<close> blocks per group; \<open>cell\<close>: position \<open>i\<close> is cached in every group.\<close>

definition cols :: "int list \<Rightarrow> nat \<Rightarrow> bref list list \<Rightarrow> bool" where
  "cols gids n C \<longleftrightarrow> length C = length gids \<and> (\<forall>k < length gids. length (C ! k) = n)"

definition cell :: "pool \<Rightarrow> int list \<Rightarrow> bref list list \<Rightarrow> nat \<Rightarrow> bytes \<Rightarrow> bool" where
  "cell p gids C i h \<longleftrightarrow> (\<forall>k < length gids. cached_under p h (gids ! k) (C ! k ! i))"

lemma append_each_cols:
  assumes "cols gids n C" "list_all2 (\<lambda>g b. cached_under p h g b) gids xs"
  shows "cols gids (Suc n) (append_each C xs)" "cell p gids (append_each C xs) n h"
    and "i < n \<Longrightarrow> cell p gids (append_each C xs) i h' = cell p gids C i h'"
    and "i < n \<Longrightarrow> k < length gids \<Longrightarrow> append_each C xs ! k ! i = C ! k ! i"
  using assms by (auto simp: cols_def cell_def append_each_def list_all2_conv_all_nth nth_append)

lemma full_hit_loop_result:
  assumes inv: "cache_inv p" "groups_ok gids"
  shows "\<lbrakk>cols gids n C; \<And>i. i < n \<Longrightarrow> cell p gids C i (H i); \<And>j. j < length hs \<Longrightarrow> hs ! j = H (n + j)\<rbrakk> \<Longrightarrow>
   \<exists>C' n'. full_hit_loop p gids hs C = Inr C' \<and> cols gids n' C' \<and> n \<le> n' \<and> n' \<le> n + length hs
     \<and> (\<forall>i < n'. cell p gids C' i (H i)) \<and> (n' < n + length hs \<longrightarrow> \<not> all_cached p (H n') gids)"
proof (induction hs arbitrary: n C)
  case (Cons h hs)
  have h: "h = H n" using Cons.prems(3) [of 0] by simp
  from inv show ?case
  proof (cases rule: lookup_groups [where h = h])
    case (hit x xs)
    note a = append_each_cols [OF Cons.prems(1) hit(2)]
    have "cell p gids (append_each C (x # xs)) i (H i)" if "i < Suc n" for i
      using that a(2) a(3) [of i "H i"] Cons.prems(2) [of i] h by (cases "i = n") auto
    moreover have "hs ! j = H (Suc n + j)" if "j < length hs" for j using Cons.prems(3) [of "Suc j"] that by simp
    ultimately obtain C' n' where "full_hit_loop p gids hs (append_each C (x # xs)) = Inr C'" "cols gids n' C'"
      "Suc n \<le> n'" "n' \<le> Suc n + length hs" "\<forall>i < n'. cell p gids C' i (H i)"
      "n' < Suc n + length hs \<longrightarrow> \<not> all_cached p (H n') gids"
      using Cons.IH [OF a(1)] by blast
    with hit(1) show ?thesis by (intro exI [of _ C'] exI [of _ n']) auto
  next
    case miss
    with Cons.prems h show ?thesis by (intro exI [of _ C] exI [of _ n]) auto
  qed
qed auto

text \<open>The view of the hashes for hits aligned to whole blocks.\<close>

lemma resolve_aligned:
  assumes "0 < hbs" "0 < k" "\<not> fine \<or> k * hbs \<le> alignment"
  shows "\<exists>v. resolve_block_hashes (RawHashes hs) hbs (k * hbs) fine (Some alignment) = Inr v
    \<and> (\<forall>i. 0 \<le> i \<longrightarrow> i < int (length hs) div k \<longrightarrow> bhl_get v i = Inr (coarse_hash hs k i))
    \<and> bhl_iter v = Inr (map (coarse_hash hs k) (py_range 0 (int (length hs) div k)))"
proof -
  have same: "resolve_block_hashes (RawHashes hs) hbs (k * hbs) fine (Some alignment)
      = resolve_block_hashes (RawHashes hs) hbs (k * hbs) False None"
    using assms(3) by (auto simp: resolve_block_hashes_def)
  have "0 \<le> int (length hs) div k" using assms(2) by (simp add: pos_imp_zdiv_nonneg_iff)
  with resolve_coarse [OF assms(1,2), of hs] show ?thesis unfolding same bhl_iter_def by blast
qed

section \<open>Full attention\<close>

lemma cols_py_get: "groups_ok gids \<Longrightarrow> cols gids n C \<Longrightarrow> \<exists>c. py_get C 0 = Inr c \<and> length c = n"
  by (auto simp: groups_ok_def cols_def py_get_def)

text \<open>The length of a full-attention hit of \<open>n\<close> blocks after the EAGLE drop and the alignment.\<close>

definition full_hit_len :: "bool \<Rightarrow> int \<Rightarrow> int \<Rightarrow> nat \<Rightarrow> int" where
  "full_hit_len drop_eagle bs alignment n =
     round_down (if drop_eagle \<and> 0 < int n * bs then int n * bs - bs else int n * bs) alignment"

lemma full_hit_len_bounds:
  assumes "0 < bs" "0 < m" "alignment = m * bs"
  shows "0 \<le> full_hit_len e bs alignment n" "full_hit_len e bs alignment n \<le> int n * bs" "full_hit_len e bs alignment n mod alignment = 0"
    "\<exists>q \<le> n. int q * bs = full_hit_len e bs alignment n \<and> cdiv (full_hit_len e bs alignment n) bs = int q"
    "\<not> e \<Longrightarrow> j \<le> n \<Longrightarrow> (int j * bs) mod alignment = 0 \<Longrightarrow> int j * bs \<le> full_hit_len e bs alignment n"
proof -
  let ?hit1 = "if e \<and> 0 < int n * bs then int n * bs - bs else int n * bs" and ?hit = "full_hit_len e bs alignment n"
  have al0: "0 < alignment" using assms by simp
  have hit1: "0 \<le> ?hit1" "?hit1 \<le> int n * bs" using assms(1) by (cases n; simp add: algebra_simps)+
  show hit: "0 \<le> ?hit" "?hit mod alignment = 0" and le: "?hit \<le> int n * bs"
    using hit1 al0 round_down_bounds [OF al0, of ?hit1] by (simp_all add: full_hit_len_def round_down_def pos_imp_zdiv_nonneg_iff)
  have "bs dvd ?hit" using hit(2) assms(3) by (metis dvd_mult_left dvd_triv_right mod_0_imp_dvd dvd_trans)
  then have q: "int (nat (?hit div bs)) * bs = ?hit" "cdiv ?hit bs = int (nat (?hit div bs))"
    using hit(1) assms(1) by (simp_all add: pos_imp_zdiv_nonneg_iff cdiv_eq_div_if_dvd)
  with le have "int (nat (?hit div bs)) * bs \<le> int n * bs" by linarith
  then have "nat (?hit div bs) \<le> n" using assms(1) by (simp only: mult_le_cancel_right_pos of_nat_le_iff)
  with q show "\<exists>q \<le> n. int q * bs = ?hit \<and> cdiv ?hit bs = int q" by blast
  show "int j * bs \<le> ?hit" if "\<not> e" "j \<le> n" "(int j * bs) mod alignment = 0"
    unfolding full_hit_len_def by (rule round_down_greatest [OF al0 that(3)]) (use that(1,2) assms(1) in simp)
qed

text \<open>The lookup scans a prefix of cached positions, which ends before a position that is not cached.\<close>

lemma full_hit_scan:
  assumes inv: "pool_inv p xs" and grp: "groups_ok gids" and sz: "0 < hash_block_size p" "0 < k" "0 < m" "0 \<le> max_length"
    and bs: "bs = k * hash_block_size p" and al: "alignment = m * bs"
    and len: "max_length div bs \<le> int (length hs) div k"
  obtains C n where "cols gids n C" "n \<le> nat (max_length div bs)" "\<forall>i < n. cell p gids C i (coarse_hash hs k (int i))"
    "n < nat (max_length div bs) \<longrightarrow> \<not> all_cached p (coarse_hash hs k (int n)) gids"
    "full_find_longest_cache_hit (RawHashes hs) max_length gids p bs drop_eagle alignment 1
       = Inr (map (take (nat (cdiv (full_hit_len drop_eagle bs alignment n) bs))) C, full_hit_len drop_eagle bs alignment n)"
proof -
  have bs0: "0 < bs" and al0: "0 < alignment" and le: "bs \<le> alignment" using sz(1-3) bs al by simp_all
  have ci: "cache_inv p" using inv by (simp add: pool_inv_def)
  let ?N = "nat (max_length div bs)" and ?H = "\<lambda>i. coarse_hash hs k (int i)"
  obtain v where v: "resolve_block_hashes (RawHashes hs) (hash_block_size p) bs True (Some alignment) = Inr v"
    and iter: "bhl_iter v = Inr (map (coarse_hash hs k) (py_range 0 (int (length hs) div k)))"
    using resolve_aligned [OF sz(1,2), of True alignment hs] le unfolding bs by blast
  define L where "L = take ?N (map (coarse_hash hs k) (py_range 0 (int (length hs) div k)))"
  have L: "length L = ?N" "\<And>j. j < length L \<Longrightarrow> L ! j = ?H (0 + j)"
    using len sz(4) bs0 by (auto simp: L_def py_range_def nth_upto)
  obtain C n where C: "full_hit_loop p gids L (replicate (length gids) []) = Inr C" "cols gids n C" "n \<le> 0 + length L"
    "\<forall>i < n. cell p gids C i (?H i)" "n < 0 + length L \<longrightarrow> \<not> all_cached p (?H n) gids"
    using full_hit_loop_result [OF ci grp, of 0 "replicate (length gids) []" ?H L] L(2) by (auto simp: cols_def)
  define hit0 hit where "hit0 = int n * bs" and "hit = full_hit_len drop_eagle bs alignment n"
  obtain q where q: "cdiv hit bs = int q" using full_hit_len_bounds(4) [OF bs0 sz(3) al] unfolding hit_def by blast
  obtain c0 where c0: "py_get C 0 = Inr c0" "length c0 = n" using cols_py_get [OF grp C(2)] by blast
  have slice: "py_slice c 0 (int q) = take q c" for c :: "bref list" by (simp add: py_slice_nonneg)
  have cuts: "\<not> alignment < bs" "\<not> max_length div bs < 0" using le sz(4) bs0 by (simp_all add: pos_imp_zdiv_nonneg_iff not_less)
  have hits: "drop_eagle \<and> 0 < hit0 \<Longrightarrow> hit0 - bs - (hit0 - bs) mod alignment = hit"
    "\<not> (drop_eagle \<and> 0 < hit0) \<Longrightarrow> hit0 - hit0 mod alignment = hit"
    by (auto simp: hit_def hit0_def full_hit_len_def round_down_def minus_mod_eq_div_mult)
  have "full_find_longest_cache_hit (RawHashes hs) max_length gids p bs drop_eagle alignment 1 = Inr (map (take q) C, hit)"
    using v iter C(1) c0 q cuts hits slice by (simp add: full_find_longest_cache_hit_def Let_def L_def hit0_def [symmetric])
  with C(2-5) L(1) q that show thesis by (simp add: hit_def)
qed

text \<open>
  C20. The prefix-cache lookup of full attention is sound and maximal.  For hashes covering the
  request, a block size that is a multiple of the hash block size and hits aligned to a multiple
  of the block size, the lookup does not raise.  The hit is aligned, at most the allowed length,
  and consists, in every group, of one block per block of the hit, each registered under the
  hash of its position.  Without the EAGLE drop no longer aligned prefix is cached in all groups.
\<close>

theorem full_hit_correct:
  assumes "pool_inv p xs" "groups_ok gids" "0 < hash_block_size p" "0 < k" "0 < m" "0 \<le> max_length"
    and bs: "bs = k * hash_block_size p" and al: "alignment = m * bs"
    and len: "max_length div bs \<le> int (length hs) div k"
  shows "\<exists>C hit. full_find_longest_cache_hit (RawHashes hs) max_length gids p bs drop_eagle alignment 1 = Inr (C, hit)
    \<and> 0 \<le> hit \<and> hit \<le> max_length \<and> hit mod alignment = 0 \<and> length C = length gids
    \<and> (\<forall>g < length gids. int (length (C ! g)) * bs = hit
        \<and> (\<forall>i < length (C ! g). cached_under p (coarse_hash hs k (int i)) (gids ! g) (C ! g ! i)))
    \<and> (\<not> drop_eagle \<longrightarrow> (\<forall>n. int n * bs \<le> max_length \<longrightarrow> (int n * bs) mod alignment = 0 \<longrightarrow>
          (\<forall>i < n. all_cached p (coarse_hash hs k (int i)) gids) \<longrightarrow> int n * bs \<le> hit))"
proof -
  have bs0: "0 < bs" using assms(3,4) bs by simp
  let ?H = "\<lambda>i. coarse_hash hs k (int i)" and ?N = "nat (max_length div bs)"
  obtain C n where C: "cols gids n C" "n \<le> ?N" "\<forall>i < n. cell p gids C i (?H i)" "n < ?N \<longrightarrow> \<not> all_cached p (?H n) gids"
    and run: "full_find_longest_cache_hit (RawHashes hs) max_length gids p bs drop_eagle alignment 1
       = Inr (map (take (nat (cdiv (full_hit_len drop_eagle bs alignment n) bs))) C, full_hit_len drop_eagle bs alignment n)"
    by (rule full_hit_scan [OF assms])
  let ?hit = "full_hit_len drop_eagle bs alignment n"
  note hit = full_hit_len_bounds [OF bs0 assms(5) al, where e = drop_eagle and n = n]
  obtain q where q: "q \<le> n" "int q * bs = ?hit" "cdiv ?hit bs = int q" using hit(4) by blast
  have "int n * bs \<le> int ?N * bs" using C(2) bs0 by (simp only: mult_le_cancel_right_pos of_nat_le_iff)
  also have "\<dots> \<le> max_length" using assms(6) bs0 round_down_bounds [OF bs0, of max_length] by (simp add: round_down_def pos_imp_zdiv_nonneg_iff)
  finally have "?hit \<le> max_length" using hit(2) by simp
  moreover have "int j * bs \<le> ?hit" if "\<not> drop_eagle" "int j * bs \<le> max_length" "(int j * bs) mod alignment = 0"
    "\<forall>i < j. all_cached p (?H i) gids" for j
  proof (rule hit(5) [OF that(1) _ that(3)], rule ccontr)
    assume "\<not> j \<le> n"
    moreover have "int j \<le> max_length div bs" using that(2) bs0 by (simp add: le_div_iff_mult_le)
    ultimately have "n < ?N" "n < j" by linarith+
    with C(4) that(4) show False by blast
  qed
  moreover have "length C = length gids" "\<And>g. g < length gids \<Longrightarrow> length (C ! g) = n" using C(1) by (auto simp: cols_def)
  ultimately show ?thesis
    using run hit(1,3) q C(3) by (intro exI [of _ "map (take q) C"] exI [of _ ?hit]) (auto simp: cell_def)
qed

text \<open>A pool in which two blocks are cached under the hashes \<open>[1]\<close> and \<open>[2]\<close>, for concrete instances.\<close>

lemma sample_cached_pool:
  obtains p xs where "pool_inv p xs" "hash_block_size p = 2" "cached_under p [1] 0 (Blk 1)" "cached_under p [2] 0 (Blk 2)"
proof -
  obtain p where p: "block_pool_init 4 True 2 False False = Inr p" "pool_inv p (map Blk [1..<nat 4])"
    "num_gpu_blocks p = 4" "hash_block_size p = 2" "\<forall>b. block_keys p b = []"
    using block_pool_init_result [of 4 True 2 False False] by auto
  define r where "r = sample_request ''r'' [5, 6, 7, 8] []\<lparr>block_hashes := [[1], [2]]\<rparr>"
  have bh: "block_hashes r = [[1], [2]]" by (simp add: r_def sample_request_def)
  have valid: "valid_block p b" if "b \<in> set [Blk 1, Blk 2]" for b
    using that p(3) unfolding valid_block_def block_refs_def by (auto simp: upt_rec)
  have nb: "null_block p = Blk 0" using p(2) by (simp add: pool_inv_def ref_inv_def)
  have none: "block_hash (blocks p b) = None" for b
    using p(2,5) block_keys_Nil [of p b] by (simp add: pool_inv_def)
  have sk: "\<not> skipped p None i b" if "b \<in> set [Blk 1, Blk 2]" for i b
    using p(2) valid [OF that] that nb by (auto simp: skipped_def pool_inv_def ref_inv_def)
  have "\<exists>p'. cache_full_blocks r [Blk 1, Blk 2] 0 2 (1 * hash_block_size p) 0 None p = Inr p' \<and> pool_inv p' (map Blk [1..<nat 4])
    \<and> same_refs p p' \<and> (\<forall>j. 0 \<le> j \<longrightarrow> j < 2 \<longrightarrow> \<not> skipped p None (j - 0) ([Blk 1, Blk 2] ! nat j) \<longrightarrow>
        (\<exists>key. make_block_hash_with_group_id (coarse_hash (block_hashes r) 1 j) 0 = Inr key
            \<and> block_keys p' ([Blk 1, Blk 2] ! nat j) = [key]))"
    using cache_full_blocks_result [of p "map Blk [1..<nat 4]" "[Blk 1, Blk 2]" 1 0 2 r 0 None] p valid nb none
    by (auto simp: bh promotable_def)
  then obtain p' where p': "pool_inv p' (map Blk [1..<nat 4])" "same_refs p p'"
    and keys: "\<forall>j. 0 \<le> j \<longrightarrow> j < 2 \<longrightarrow> \<not> skipped p None (j - 0) ([Blk 1, Blk 2] ! nat j) \<longrightarrow>
        (\<exists>key. make_block_hash_with_group_id (coarse_hash (block_hashes r) 1 j) 0 = Inr key
            \<and> block_keys p' ([Blk 1, Blk 2] ! nat j) = [key])" by blast
  have "cached_under p' [1] 0 (Blk 1)" using keys [rule_format, of 0] sk [of "Blk 1" 0] by (auto simp: bh coarse_hash_def cached_under_def)
  moreover have "cached_under p' [2] 0 (Blk 2)" using keys [rule_format, of 1] sk [of "Blk 2" 1] by (auto simp: bh coarse_hash_def cached_under_def)
  moreover have "hash_block_size p' = 2" using same_refs_config [OF p'(2)] p(4) by (simp add: same_config_def)
  ultimately show thesis using that [of p'] p'(1) by blast
qed

theorem full_hit_correct_witness:
  "\<exists>p C. full_find_longest_cache_hit (RawHashes [[1], [2], [3]]) 5 [0] p 2 False 2 1 = Inr (C, 4) \<and> length C = 1"
proof -
  obtain p xs where p: "pool_inv p xs" "hash_block_size p = 2" "cached_under p [1] 0 (Blk 1)" "cached_under p [2] 0 (Blk 2)"
    by (rule sample_cached_pool)
  let ?hs = "[[1], [2], [3]] :: bytes list"
  have "groups_ok [0]" "0 < hash_block_size p" "(0::int) < 1" "(0::int) \<le> 5" "2 = 1 * hash_block_size p" "(2::int) = 1 * 2"
    "5 div 2 \<le> int (length ?hs) div 1" using p(2) by (simp_all add: groups_ok_def)
  from full_hit_correct [OF p(1) this(1,2,3) this(3-7), of False] show ?thesis
  proof (elim exE conjE)
    fix C hit
    assume r: "full_find_longest_cache_hit (RawHashes ?hs) 5 [0] p 2 False 2 1 = Inr (C, hit)" "hit \<le> 5" "hit mod 2 = 0"
      "length C = length [0::int]"
      and best: "\<not> False \<longrightarrow> (\<forall>n. int n * 2 \<le> 5 \<longrightarrow> (int n * 2) mod 2 = 0 \<longrightarrow>
        (\<forall>i < n. all_cached p (coarse_hash ?hs 1 (int i)) [0]) \<longrightarrow> int n * 2 \<le> hit)"
    have "all_cached p (coarse_hash ?hs 1 (int 0)) [0]" "all_cached p (coarse_hash ?hs 1 (int 1)) [0]"
      using p(3,4) by (auto simp: all_cached_def coarse_hash_def)
    then have "\<forall>i < 2. all_cached p (coarse_hash ?hs 1 (int i)) [0]" by (metis One_nat_def less_2_cases)
    with best [rule_format, of 2] have "4 \<le> hit" by simp
    moreover have "hit \<noteq> 5" using r(3) by auto
    ultimately have "hit = 4" using r(2) by linarith
    with r show ?thesis by auto
  qed
qed

section \<open>Sliding window\<close>

lemma range_down_Suc: "py_range_down (int (Suc i) - 1) (- 1) = int i # py_range_down (int i - 1) (- 1)"
  by (simp add: py_range_down_def upto_rec2)

lemma range_down_0: "py_range_down (int 0 - 1) (- 1) = []"
  by (simp add: py_range_down_def)

definition null_or_hit :: "pool \<Rightarrow> int list \<Rightarrow> (nat \<Rightarrow> bytes) \<Rightarrow> nat \<Rightarrow> bref list list \<Rightarrow> bool" where
  "null_or_hit p gids H n C \<longleftrightarrow> (\<forall>k < length gids. \<forall>j < n.
     C ! k ! j = null_block p \<or> cached_under p (H j) (gids ! k) (C ! k ! j))"

definition block_aligned :: "int \<Rightarrow> int \<Rightarrow> int \<Rightarrow> bool" where
  "block_aligned bs alignment r \<longleftrightarrow> bs = alignment \<or> (r * bs) mod alignment = 0"

definition edge_aligned :: "int \<Rightarrow> int \<Rightarrow> bool \<Rightarrow> int \<Rightarrow> bool" where
  "edge_aligned bs alignment eagle r \<longleftrightarrow> block_aligned bs alignment (if eagle then r - 1 else r)"

text \<open>Setting position \<open>i\<close> in every group.\<close>

lemma set_each_cols:
  assumes "cols gids n C" "list_all2 (\<lambda>g b. cached_under p h g b) gids xs" "i < n"
  shows "cols gids n (map2 (\<lambda>cs y. cs[i := y]) C xs)" "cell p gids (map2 (\<lambda>cs y. cs[i := y]) C xs) i h"
    and "j \<noteq> i \<Longrightarrow> cell p gids (map2 (\<lambda>cs y. cs[i := y]) C xs) j h' = cell p gids C j h'"
    and "h = H i \<Longrightarrow> null_or_hit p gids H n C \<Longrightarrow> null_or_hit p gids H n (map2 (\<lambda>cs y. cs[i := y]) C xs)"
  using assms by (auto simp: cols_def cell_def null_or_hit_def list_all2_conv_all_nth nth_list_update)

lemma swa_hit_loop_result:
  assumes inv: "cache_inv p" "groups_ok gids"
    and get: "\<And>i. i < M \<Longrightarrow> bhl_get hs (int i) = Inr (H i)"
  shows "\<lbrakk>i + n \<le> M; cols gids M C; null_or_hit p gids H M C; \<And>j. i \<le> j \<Longrightarrow> j < i + n \<Longrightarrow> cell p gids C j (H j);
    int n < max 1 need; 0 < n \<Longrightarrow> edge_aligned bs al eagle (int (i + n))\<rbrakk> \<Longrightarrow>
    (\<exists>C' r n'. swa_hit_loop p gids hs bs al eagle need (py_range_down (int i - 1) (- 1)) C (int n) = Inr (C', n', True)
        \<and> r \<le> M \<and> cols gids r C' \<and> null_or_hit p gids H r C' \<and> edge_aligned bs al eagle (int r) \<and> 0 < r
        \<and> (\<forall>j < r. int r - need \<le> int j \<longrightarrow> cell p gids C' j (H j)))
    \<or> (\<exists>C' n'. swa_hit_loop p gids hs bs al eagle need (py_range_down (int i - 1) (- 1)) C (int n) = Inr (C', int n', False)
        \<and> n' \<le> M \<and> cols gids M C' \<and> (\<forall>j < n'. cell p gids C' j (H j)))"
proof (induction i arbitrary: n C)
  case 0
  then show ?case by (intro disjI2 exI [of _ C] exI [of _ n]) (auto simp: py_range_down_def)
next
  case (Suc i)
  have iM: "i < M" using Suc.prems(1) by simp
  note g = get [OF iM]
  let ?loop = "\<lambda>C n. swa_hit_loop p gids hs bs al eagle need (py_range_down (int i - 1) (- 1)) C (int n)"
  from inv show ?case
  proof (cases rule: lookup_groups [where h = "H i"])
    case miss
    then have step: "swa_hit_loop p gids hs bs al eagle need (py_range_down (int (Suc i) - 1) (- 1)) C (int n) = ?loop C 0"
      unfolding range_down_Suc using g by simp
    show ?thesis unfolding step by (rule Suc.IH) (use Suc.prems(2,3) iM in auto)
  next
    case (hit x xs)
    let ?mis = "int n = 0 \<and> bs \<noteq> al \<and> ((if eagle then int i else int i + 1) * bs) mod al \<noteq> 0"
    show ?thesis
    proof (cases ?mis)
      case True
      then have step: "swa_hit_loop p gids hs bs al eagle need (py_range_down (int (Suc i) - 1) (- 1)) C (int n) = ?loop C 0"
        unfolding range_down_Suc using g hit(1) by simp
      show ?thesis unfolding step by (rule Suc.IH) (use Suc.prems(2,3) iM in auto)
    next
      case False
      let ?C = "map2 (\<lambda>cs y. cs[i := y]) C (x # xs)"
      note a = set_each_cols [OF Suc.prems(2) hit(2) iM]
      have cells: "cell p gids ?C j (H j)" if "i \<le> j" "j < i + Suc n" for j
        using a(2) a(3) [of j "H j"] Suc.prems(4) [of j] that by (cases "j = i") auto
      have edge: "edge_aligned bs al eagle (int (i + Suc n))"
        using False Suc.prems(6) by (cases "n = 0") (auto simp: edge_aligned_def block_aligned_def add.commute)
      show ?thesis
      proof (cases "need \<le> int n + 1")
        case True
        have "nat (int i + (int n + 1)) = i + Suc n" by simp
        then have run: "swa_hit_loop p gids hs bs al eagle need (py_range_down (int (Suc i) - 1) (- 1)) C (int n)
            = Inr (map (take (i + Suc n)) ?C, int n + 1, True)"
          unfolding range_down_Suc using g hit(1) False True
          by (simp only: swa_hit_loop.simps bindE_simps option.case list.case if_False if_True Let_def nat_int)
        have "cols gids (i + Suc n) (map (take (i + Suc n)) ?C)" "null_or_hit p gids H (i + Suc n) (map (take (i + Suc n)) ?C)"
          using a(1) a(4) [of H] Suc.prems(1,3) by (auto simp: cols_def null_or_hit_def simp del: zip_Cons)
        moreover have "cell p gids (map (take (i + Suc n)) ?C) j (H j)" if "j < i + Suc n" "int (i + Suc n) - need \<le> int j" for j
          using cells [of j] that True a(1) by (auto simp: cell_def cols_def)
        ultimately show ?thesis using run edge Suc.prems(1) by (intro disjI1 exI [of _ "map (take (i + Suc n)) ?C"] exI [of _ "i + Suc n"]) auto
      next
        case need: False
        have "int (Suc n) = int n + 1" by simp
        then have step: "swa_hit_loop p gids hs bs al eagle need (py_range_down (int (Suc i) - 1) (- 1)) C (int n) = ?loop ?C (Suc n)"
          unfolding range_down_Suc using g hit(1) False need
          by (simp only: swa_hit_loop.simps bindE_simps option.case list.case if_False Let_def nat_int)
        show ?thesis unfolding step
          by (rule Suc.IH) (use Suc.prems(1,3) a(1) a(4) [of H] cells edge need in auto)
      qed
    qed
  qed
qed

lemma cols_take: "cols gids n C \<Longrightarrow> m \<le> n \<Longrightarrow> cols gids m (map (take m) C)"
  by (auto simp: cols_def)

lemma cell_take: "cols gids n C \<Longrightarrow> j < m \<Longrightarrow> m \<le> n \<Longrightarrow> cell p gids (map (take m) C) j h = cell p gids C j h"
  by (auto simp: cell_def cols_def)

lemma null_or_hit_take: "cols gids n C \<Longrightarrow> m \<le> n \<Longrightarrow> null_or_hit p gids H n C \<Longrightarrow> null_or_hit p gids H m (map (take m) C)"
  by (auto simp: null_or_hit_def cols_def)

lemma cells_null_or_hit: "(\<And>j. j < n \<Longrightarrow> cell p gids C j (H j)) \<Longrightarrow> null_or_hit p gids H n C"
  by (auto simp: null_or_hit_def cell_def)

lemma cols_butlast: "cols gids (Suc n) C \<Longrightarrow> map butlast C = map (take n) C"
  by (auto simp: cols_def butlast_conv_take in_set_conv_nth)

lemma align_pop_result:
  "cols gids n C \<Longrightarrow> \<exists>m \<le> n. align_pop bs al n C = map (take m) C \<and> block_aligned bs al (int m)
     \<and> (block_aligned bs al (int n) \<longrightarrow> m = n)"
proof (induction n arbitrary: C)
  case 0
  then have "C = map (take 0) C" by (auto simp: cols_def intro!: nth_equalityI)
  then show ?case by (simp add: block_aligned_def)
next
  case (Suc n)
  show ?case
  proof (cases "bs \<noteq> al \<and> (int (Suc n) * bs) mod al \<noteq> 0")
    case True
    have C': "cols gids n (map butlast C)" unfolding cols_butlast [OF Suc.prems] by (rule cols_take [OF Suc.prems]) simp
    obtain m where m: "m \<le> n" "align_pop bs al n (map butlast C) = map (take m) (map butlast C)"
      "block_aligned bs al (int m)"
      using Suc.IH [OF C'] by blast
    have "map (take m) (map butlast C) = map (take m) C"
      unfolding cols_butlast [OF Suc.prems] using m(1) by (simp add: min_def)
    with m True show ?thesis by (intro exI [of _ m]) (auto simp: block_aligned_def)
  next
    case False
    have "map (take (Suc n)) C = C" using Suc.prems by (auto simp: cols_def intro!: nth_equalityI)
    with False show ?thesis by (intro exI [of _ "Suc n"]) (auto simp: block_aligned_def)
  qed
qed

text \<open>The scan with the trimming of a run that reached the start of the request.\<close>

definition swa_scanned :: "int \<Rightarrow> int \<Rightarrow> bref list list \<times> int \<times> bool \<Rightarrow> bref list list" where
  "swa_scanned bs al = (\<lambda>(computed, num_contiguous, match_found).
     if match_found then computed
     else let trimmed = map (take (nat num_contiguous)) computed
          in align_pop bs al (length (hd (trimmed @ [[]]))) trimmed)"

lemma swa_find_longest_cache_hit_eq:
  "swa_find_longest_cache_hit hashes max_length gids p bs sliding_window drop_eagle_block alignment dcp_world_size pcp_world_size =
     bindE (py_assert (dcp_world_size = 1)) (\<lambda>_.
     bindE (py_assert (pcp_world_size = 1)) (\<lambda>_.
     bindE (py_assert (alignment mod bs = 0)) (\<lambda>_.
     bindE (resolve_block_hashes hashes (hash_block_size p) bs False (Some alignment)) (\<lambda>hs.
     bindE (swa_hit_loop p gids hs bs alignment drop_eagle_block (contiguous_blocks_for_hit sliding_window bs drop_eagle_block)
         (py_range_down (max_length div bs - 1) (- 1))
         (replicate (length gids) (replicate (nat (max_length div bs)) (null_block p))) 0) (\<lambda>res.
     let computed1 = swa_scanned bs alignment res
     in bindE (py_get computed1 0) (\<lambda>c0.
        let computed2 = (if drop_eagle_block \<and> c0 \<noteq> []
              then align_pop bs alignment (length c0 - 1) (map butlast computed1) else computed1)
        in bindE (py_get computed2 0) (\<lambda>c0'. Inr (computed2, int (length c0') * bs))))))))"
  by (simp add: swa_find_longest_cache_hit_def swa_scanned_def Let_def case_prod_unfold)

lemma cols_hd: "groups_ok gids \<Longrightarrow> cols gids n C \<Longrightarrow> length (hd (C @ D)) = n"
  by (cases C) (auto simp: groups_ok_def cols_def)

lemma swa_scanned_result:
  assumes inv: "cache_inv p" "groups_ok gids"
    and get: "\<And>i. i < M \<Longrightarrow> bhl_get hs (int i) = Inr (H i)"
    and start: "cols gids M C0" "null_or_hit p gids H M C0"
  shows "\<exists>res r C. swa_hit_loop p gids hs bs al eagle need (py_range_down (int M - 1) (- 1)) C0 0 = Inr res
    \<and> swa_scanned bs al res = C \<and> r \<le> M \<and> cols gids r C \<and> null_or_hit p gids H r C
    \<and> (edge_aligned bs al eagle (int r) \<and> 0 < r \<and> (\<forall>j < r. int r - need \<le> int j \<longrightarrow> cell p gids C j (H j))
       \<or> block_aligned bs al (int r) \<and> (\<forall>j < r. cell p gids C j (H j)))"
proof -
  let ?loop = "swa_hit_loop p gids hs bs al eagle need (py_range_down (int M - 1) (- 1)) C0 (int 0)"
  have "(\<exists>C' r n'. ?loop = Inr (C', n', True)
        \<and> r \<le> M \<and> cols gids r C' \<and> null_or_hit p gids H r C' \<and> edge_aligned bs al eagle (int r) \<and> 0 < r
        \<and> (\<forall>j < r. int r - need \<le> int j \<longrightarrow> cell p gids C' j (H j)))
    \<or> (\<exists>C' n'. ?loop = Inr (C', int n', False) \<and> n' \<le> M \<and> cols gids M C' \<and> (\<forall>j < n'. cell p gids C' j (H j)))"
    by (rule swa_hit_loop_result [OF inv get]) (use start in auto)
  then show ?thesis
  proof (elim disjE exE conjE)
    fix C' r n'
    assume "?loop = Inr (C', n', True)" "r \<le> M" "cols gids r C'" "null_or_hit p gids H r C'"
      "edge_aligned bs al eagle (int r)" "0 < r" "\<forall>j < r. int r - need \<le> int j \<longrightarrow> cell p gids C' j (H j)"
    then show ?thesis by (intro exI [of _ "(C', n', True)"] exI [of _ r] exI [of _ C']) (simp add: swa_scanned_def)
  next
    fix C' n'
    assume l: "?loop = Inr (C', int n', False)" "n' \<le> M" "cols gids M C'" "\<forall>j < n'. cell p gids C' j (H j)"
    let ?T = "map (take n') C'"
    note T = cols_take [OF l(3,2)]
    obtain m where m: "m \<le> n'" "align_pop bs al n' ?T = map (take m) ?T" "block_aligned bs al (int m)"
      using align_pop_result [OF T] by blast
    have sc: "swa_scanned bs al (C', int n', False) = map (take m) ?T"
      using cols_hd [OF inv(2) T] m(2) by (simp add: swa_scanned_def)
    have cells: "cell p gids (map (take m) ?T) j (H j)" if "j < m" for j
      using that m(1) l(4) cell_take [OF T that m(1)] cell_take [OF l(3) _ l(2), of j] by simp
    show ?thesis
      using l(1,2) sc m cols_take [OF T m(1)] cells cells_null_or_hit [of m p gids "map (take m) ?T" H]
      by (intro exI [of _ "(C', int n', False)"] exI [of _ m] exI [of _ "map (take m) ?T"]) simp
  qed
qed

text \<open>The drop of the last block for EAGLE.\<close>

lemma swa_dropped_result:
  assumes C: "cols gids r C" "null_or_hit p gids H r C"
    and cov: "edge_aligned bs al eagle (int r) \<and> 0 < r \<and> (\<forall>j < r. int r - (w + (if eagle then 1 else 0)) \<le> int j \<longrightarrow> cell p gids C j (H j))
       \<or> block_aligned bs al (int r) \<and> (\<forall>j < r. cell p gids C j (H j))"
  shows "\<exists>n. n \<le> r \<and> (if eagle \<and> 0 < r then align_pop bs al (r - 1) (map butlast C) else C) = map (take n) C
    \<and> block_aligned bs al (int n) \<and> (\<forall>j < n. int n - w \<le> int j \<longrightarrow> cell p gids C j (H j))"
proof (cases "eagle \<and> 0 < r")
  case True
  then obtain q where q: "r = Suc q" by (cases r) auto
  have C': "map butlast C = map (take q) C" "cols gids q (map (take q) C)"
    using C(1) cols_butlast cols_take unfolding q by (blast, force)
  obtain n where n: "n \<le> q" "align_pop bs al q (map (take q) C) = map (take n) (map (take q) C)"
    "block_aligned bs al (int n)" "block_aligned bs al (int q) \<longrightarrow> n = q"
    using align_pop_result [OF C'(2), of bs al] by blast
  have tt: "map (take n) (map (take q) C) = map (take n) C" using n(1) by (simp add: min_def)
  have "cell p gids C j (H j)" if "j < n" "int n - w \<le> int j" for j
    using cov
  proof (elim disjE conjE)
    assume e: "edge_aligned bs al eagle (int r)" and *: "\<forall>j < r. int r - (w + (if eagle then 1 else 0)) \<le> int j \<longrightarrow> cell p gids C j (H j)"
    have "block_aligned bs al (int q)" using e True by (simp add: edge_aligned_def q)
    with n(4) have "n = q" by blast
    with * that True q show ?thesis by simp
  qed (use that n(1) q in auto)
  moreover have "(if eagle \<and> 0 < r then align_pop bs al (r - 1) (map butlast C) else C) = map (take n) C"
    using True n(2) unfolding C'(1) tt by (simp add: q)
  ultimately show ?thesis using n(1,3) q by (intro exI [of _ n]) simp
next
  case False
  have "C = map (take r) C" using C(1) by (auto simp: cols_def intro!: nth_equalityI)
  with False cov show ?thesis by (intro exI [of _ r]) (auto simp: edge_aligned_def)
qed

lemma window_covered:
  assumes "0 < bs" "int n * bs - (w - 1) \<le> t" "t < int n * bs"
  shows "t div bs < int n" "int n - cdiv (w - 1) bs \<le> t div bs"
proof -
  show "t div bs < int n" using assms(1,3) by (meson le_div_iff_mult_le not_le)
  have "w - 1 \<le> cdiv (w - 1) bs * bs" by (rule cdiv_bounds(1) [OF assms(1)])
  then have "(int n - cdiv (w - 1) bs) * bs \<le> t" using assms(2) by (simp add: algebra_simps)
  then show "int n - cdiv (w - 1) bs \<le> t div bs" using assms(1) by (simp add: le_div_iff_mult_le)
qed

lemma swa_tail:
  assumes "groups_ok gids" "cols gids r C" "C2 = (if eagle \<and> 0 < r then align_pop bs alignment (r - 1) (map butlast C) else C)" "cols gids n C2"
  shows "bindE (py_get C 0) (\<lambda>c0.
       let computed2 = (if eagle \<and> c0 \<noteq> [] then align_pop bs alignment (length c0 - 1) (map butlast C) else C)
       in bindE (py_get computed2 0) (\<lambda>c0'. Inr (computed2, int (length c0') * bs))) = Inr (C2, int n * bs)"
proof -
  obtain c c' where c: "py_get C 0 = Inr c" "length c = r" and c': "py_get C2 0 = Inr c'" "length c' = n"
    using cols_py_get [OF assms(1,2)] cols_py_get [OF assms(1,4)] by blast
  have "(if eagle \<and> c \<noteq> [] then align_pop bs alignment (length c - 1) (map butlast C) else C) = C2"
    using c(2) by (auto simp: assms(3))
  then show ?thesis unfolding c(1) bindE_simps Let_def using c' by simp
qed

text \<open>The scan from the end finds enough contiguous blocks for a window, or reaches the start.\<close>

lemma swa_hit_scan:
  assumes inv: "pool_inv p xs" and grp: "groups_ok gids" and sz: "0 < hash_block_size p" "0 < k" "0 < m" "0 \<le> max_length"
    and bs: "bs = k * hash_block_size p" and al: "alignment = m * bs"
    and len: "max_length div bs \<le> int (length hs) div k"
  obtains C n where
    "swa_find_longest_cache_hit (RawHashes hs) max_length gids p bs sliding_window eagle alignment 1 1 = Inr (C, int n * bs)"
    "n \<le> nat (max_length div bs)" "block_aligned bs alignment (int n)" "cols gids n C"
    "null_or_hit p gids (\<lambda>i. coarse_hash hs k (int i)) n C"
    "\<forall>j < n. int n - cdiv (sliding_window - 1) bs \<le> int j \<longrightarrow> cell p gids C j (coarse_hash hs k (int j))"
proof -
  have ci: "cache_inv p" using inv by (simp add: pool_inv_def)
  let ?H = "\<lambda>i. coarse_hash hs k (int i)"
  define M where "M = nat (max_length div bs)"
  have M: "max_length div bs = int M" using sz bs by (simp add: M_def pos_imp_zdiv_nonneg_iff)
  define need where "need = contiguous_blocks_for_hit sliding_window bs eagle"
  obtain v where v: "resolve_block_hashes (RawHashes hs) (hash_block_size p) bs False (Some alignment) = Inr v"
    and get0: "\<forall>i. 0 \<le> i \<longrightarrow> i < int (length hs) div k \<longrightarrow> bhl_get v i = Inr (coarse_hash hs k i)"
    using resolve_aligned [OF sz(1,2), of False alignment hs] unfolding bs by blast
  have get: "bhl_get v (int i) = Inr (?H i)" if "i < M" for i
    using get0 [rule_format, of "int i"] len M that by simp
  let ?S = "replicate (length gids) (replicate M (null_block p))"
  have S: "cols gids M ?S" "null_or_hit p gids ?H M ?S" by (auto simp: cols_def null_or_hit_def)
  obtain res r C where loop: "swa_hit_loop p gids v bs alignment eagle need (py_range_down (int M - 1) (- 1)) ?S 0 = Inr res"
    and C: "swa_scanned bs alignment res = C" "r \<le> M" "cols gids r C" "null_or_hit p gids ?H r C"
    and cov: "edge_aligned bs alignment eagle (int r) \<and> 0 < r \<and> (\<forall>j < r. int r - need \<le> int j \<longrightarrow> cell p gids C j (?H j))
       \<or> block_aligned bs alignment (int r) \<and> (\<forall>j < r. cell p gids C j (?H j))"
    using swa_scanned_result [OF ci grp get S, of bs alignment eagle need] by blast
  define C2 where "C2 = (if eagle \<and> 0 < r then align_pop bs alignment (r - 1) (map butlast C) else C)"
  obtain n where n: "n \<le> r" "C2 = map (take n) C" "block_aligned bs alignment (int n)"
    and reach: "\<forall>j < n. int n - cdiv (sliding_window - 1) bs \<le> int j \<longrightarrow> cell p gids C j (?H j)"
    using swa_dropped_result [OF C(3,4) cov [unfolded need_def contiguous_blocks_for_hit_def]] unfolding C2_def by blast
  have C2: "cols gids n C2" "null_or_hit p gids ?H n C2"
    using cols_take [OF C(3) n(1)] null_or_hit_take [OF C(3) n(1) C(4)] n(2) by simp_all
  have amod: "alignment mod bs = 0" using al by simp
  have run: "swa_find_longest_cache_hit (RawHashes hs) max_length gids p bs sliding_window eagle alignment 1 1 = Inr (C2, int n * bs)"
    unfolding swa_find_longest_cache_hit_eq need_def [symmetric] M M_def [symmetric] nat_int
    by (simp only: v loop C(1) swa_tail [OF grp C(3) C2_def C2(1), unfolded Let_def] amod py_assert_def bindE_simps if_True Let_def simp_thms)
  have "\<forall>j < n. int n - cdiv (sliding_window - 1) bs \<le> int j \<longrightarrow> cell p gids C2 j (?H j)"
    using reach cell_take [OF C(3) _ n(1)] n(2) by metis
  moreover have "n \<le> nat (max_length div bs)" using n(1) C(2) by (simp add: M_def)
  ultimately show thesis using that [OF run _ n(3) C2] by blast
qed

text \<open>
  C21. The prefix-cache lookup of sliding-window attention: for hashes covering the request and
  hits aligned to a multiple of the block size it does not raise; the hit is aligned and at most
  the allowed length; in every group each position holds the null block or a block registered
  under the hash of that position; and every token the window of the next token reaches, that is
  the last \<open>sliding_window - 1\<close> tokens of the hit, lies in a block that is cached in all groups,
  also when the last block is dropped for EAGLE.
\<close>

theorem swa_hit_correct:
  assumes inv: "pool_inv p xs" and grp: "groups_ok gids" and sz: "0 < hash_block_size p" "0 < k" "0 < m" "0 \<le> max_length"
    and bs: "bs = k * hash_block_size p" and al: "alignment = m * bs"
    and len: "max_length div bs \<le> int (length hs) div k"
  shows "\<exists>C n. swa_find_longest_cache_hit (RawHashes hs) max_length gids p bs sliding_window eagle alignment 1 1 = Inr (C, int n * bs)
    \<and> int n * bs \<le> max_length \<and> (int n * bs) mod alignment = 0 \<and> cols gids n C
    \<and> null_or_hit p gids (\<lambda>i. coarse_hash hs k (int i)) n C
    \<and> (\<forall>t. 0 \<le> t \<longrightarrow> int n * bs - (sliding_window - 1) \<le> t \<longrightarrow> t < int n * bs \<longrightarrow>
        cell p gids C (nat (t div bs)) (coarse_hash hs k (t div bs)))"
proof -
  have bs0: "0 < bs" and al0: "0 < alignment" using sz bs al by simp_all
  obtain C n where run: "swa_find_longest_cache_hit (RawHashes hs) max_length gids p bs sliding_window eagle alignment 1 1 = Inr (C, int n * bs)"
    and n: "n \<le> nat (max_length div bs)" "block_aligned bs alignment (int n)"
    and C: "cols gids n C" "null_or_hit p gids (\<lambda>i. coarse_hash hs k (int i)) n C"
    and reach: "\<forall>j < n. int n - cdiv (sliding_window - 1) bs \<le> int j \<longrightarrow> cell p gids C j (coarse_hash hs k (int j))"
    by (rule swa_hit_scan [OF assms])
  have "int n * bs \<le> int (nat (max_length div bs)) * bs" using n(1) bs0 by (simp only: mult_le_cancel_right_pos of_nat_le_iff)
  also have "\<dots> \<le> max_length" using sz(4) bs0 round_down_bounds [OF bs0, of max_length] by (simp add: round_down_def pos_imp_zdiv_nonneg_iff)
  finally have "int n * bs \<le> max_length" .
  moreover have "(int n * bs) mod alignment = 0" using n(2) by (auto simp: block_aligned_def)
  moreover have "cell p gids C (nat (t div bs)) (coarse_hash hs k (t div bs))"
    if t: "0 \<le> t" "int n * bs - (sliding_window - 1) \<le> t" "t < int n * bs" for t
  proof -
    have j: "int (nat (t div bs)) = t div bs" using t(1) bs0 by (simp add: pos_imp_zdiv_nonneg_iff)
    have "nat (t div bs) < n" "int n - cdiv (sliding_window - 1) bs \<le> int (nat (t div bs))"
      using window_covered [OF bs0 t(2,3)] j by linarith+
    then show ?thesis using reach j by metis
  qed
  ultimately show ?thesis using run C by (intro exI [of _ C] exI [of _ n]) blast
qed

theorem swa_hit_correct_witness:
  "\<exists>p C n. swa_find_longest_cache_hit (RawHashes [[1], [2], [3]]) 5 [0] p 2 3 False 2 1 1 = Inr (C, int n * 2)
     \<and> cols [0] n C \<and> int n * 2 \<le> 5"
proof -
  obtain p xs where p: "pool_inv p xs" "hash_block_size p = 2" by (rule sample_cached_pool)
  let ?hs = "[[1], [2], [3]] :: bytes list"
  have "\<exists>C n. swa_find_longest_cache_hit (RawHashes ?hs) 5 [0] p 2 3 False 2 1 1 = Inr (C, int n * 2) \<and> int n * 2 \<le> 5 \<and> cols [0] n C"
  proof -
    have "groups_ok [0]" "0 < hash_block_size p" "(0::int) < 1" "(0::int) \<le> 5" "2 = 1 * hash_block_size p" "(2::int) = 1 * 2"
      "5 div 2 \<le> int (length ?hs) div 1" using p(2) by (simp_all add: groups_ok_def)
    from swa_hit_correct [OF p(1) this(1,2,3) this(3-7), of 3 False] show ?thesis by (elim exE conjE) (intro exI conjI)
  qed
  then show ?thesis by blast
qed

section \<open>Chunked local attention\<close>

lemma range_up_Cons: "n < M \<Longrightarrow> py_range (int n) (int M) = int n # py_range (int (Suc n)) (int M)"
  by (simp add: py_range_def upto_rec1 add.commute)

lemma chunked_hit_loop_result:
  assumes inv: "cache_inv p" "groups_ok gids"
    and get: "\<And>i. i < M \<Longrightarrow> bhl_get hs (int i) = Inr (H i)"
  shows "\<lbrakk>d = M - n; n \<le> M; s \<le> n; cols gids n C; \<And>i. s \<le> i \<Longrightarrow> i < n \<Longrightarrow> cell p gids C i (H i)\<rbrakk> \<Longrightarrow>
   \<exists>C' n'. chunked_hit_loop p gids hs (py_range (int n) (int M)) C = Inr C' \<and> cols gids n' C' \<and> n \<le> n' \<and> n' \<le> M
     \<and> (\<forall>i. s \<le> i \<longrightarrow> i < n' \<longrightarrow> cell p gids C' i (H i)) \<and> (\<forall>k < length gids. \<forall>i < n. C' ! k ! i = C ! k ! i)
     \<and> (n' < M \<longrightarrow> \<not> all_cached p (H n') gids)"
proof (induction d arbitrary: n C)
  case 0
  then have "n = M" by simp
  with 0 show ?case by (intro exI [of _ C] exI [of _ n]) (simp add: py_range_def)
next
  case (Suc d)
  have nM: "n < M" using Suc.prems(1) by simp
  note g = get [OF nM]
  from inv show ?case
  proof (cases rule: lookup_groups [where h = "H n"])
    case (hit x xs)
    note a = append_each_cols [OF Suc.prems(4) hit(2)]
    let ?C = "append_each C (x # xs)"
    have "cell p gids ?C i (H i)" if "s \<le> i" "i < Suc n" for i
      using that a(2) a(3) [of i "H i"] Suc.prems(5) [of i] by (cases "i = n") auto
    then obtain C' n' where r: "chunked_hit_loop p gids hs (py_range (int (Suc n)) (int M)) ?C = Inr C'" "cols gids n' C'"
      "Suc n \<le> n'" "n' \<le> M" "\<forall>i. s \<le> i \<longrightarrow> i < n' \<longrightarrow> cell p gids C' i (H i)"
      "\<forall>k < length gids. \<forall>i < Suc n. C' ! k ! i = ?C ! k ! i" "n' < M \<longrightarrow> \<not> all_cached p (H n') gids"
      using Suc.IH [of "Suc n" ?C, OF _ Suc_leI [OF nM] le_SucI [OF Suc.prems(3)] a(1)] Suc.prems(1)
      by (metis Suc_diff_Suc diff_Suc_1 nM)
    have "C' ! k ! i = C ! k ! i" if "k < length gids" "i < n" for k i using r(6) a(4) [OF that(2,1)] that by simp
    with r hit(1) g show ?thesis unfolding range_up_Cons [OF nM] by (intro exI [of _ C'] exI [of _ n']) simp
  next
    case miss
    with Suc.prems g show ?thesis unfolding range_up_Cons [OF nM] by (intro exI [of _ C] exI [of _ n]) simp
  qed
qed

text \<open>
  C22. The prefix-cache lookup of chunked local attention: for hashes covering the request it does
  not raise.  The blocks before the chunk of the next token are null blocks, which attention
  never reads; from the chunk's first block on, each position holds in every group a block
  registered under the hash of that position; the hit stops at the allowed length or at the
  first block that some group misses.
\<close>

theorem chunked_hit_correct:
  assumes inv: "pool_inv p xs" and grp: "groups_ok gids" and sz: "0 < hash_block_size p" "0 < k" "0 \<le> max_length" "0 < chunk"
    and bs: "bs = k * hash_block_size p" and len: "max_length div bs \<le> int (length hs) div k"
    and start: "s = nat (max_length div chunk * chunk div bs)"
  shows "\<exists>C n. chunked_find_longest_cache_hit (RawHashes hs) max_length gids p bs chunk False bs 1 1 = Inr (C, int n * bs)
    \<and> int n * bs \<le> max_length \<and> cols gids n C \<and> s \<le> n
    \<and> (\<forall>g < length gids. \<forall>i < s. C ! g ! i = null_block p)
    \<and> (\<forall>i. s \<le> i \<longrightarrow> i < n \<longrightarrow> cell p gids C i (coarse_hash hs k (int i)))
    \<and> (int n < max_length div bs \<longrightarrow> \<not> all_cached p (coarse_hash hs k (int n)) gids)"
proof -
  have bs0: "0 < bs" using sz bs by simp
  have ci: "cache_inv p" using inv by (simp add: pool_inv_def)
  let ?H = "\<lambda>i. coarse_hash hs k (int i)"
  define M where "M = nat (max_length div bs)"
  have M: "int M = max_length div bs" "int M * bs \<le> max_length"
    using sz(3) bs0 round_down_bounds [OF bs0, of max_length] by (auto simp: M_def round_down_def pos_imp_zdiv_nonneg_iff)
  have "max_length div chunk * chunk \<le> max_length" "0 \<le> max_length div chunk * chunk"
    using round_down_bounds [OF sz(4), of max_length] sz(3,4) by (auto simp: round_down_def pos_imp_zdiv_nonneg_iff)
  then have s: "int s = (if 0 < max_length then max_length div chunk * chunk else 0) div bs" "s \<le> M"
    using sz(3) bs0 zdiv_mono1 [of "max_length div chunk * chunk" max_length bs] start
    by (auto simp: M_def pos_imp_zdiv_nonneg_iff intro!: nat_mono)
  obtain v where v: "resolve_block_hashes (RawHashes hs) (hash_block_size p) bs False (Some bs) = Inr v"
    and get0: "\<forall>i. 0 \<le> i \<longrightarrow> i < int (length hs) div k \<longrightarrow> bhl_get v i = Inr (coarse_hash hs k i)"
    using resolve_aligned [OF sz(1,2), of False bs hs] unfolding bs by blast
  have get: "bhl_get v (int i) = Inr (?H i)" if "i < M" for i
    using get0 [rule_format, of "int i"] len M(1) that by simp
  let ?S = "replicate (length gids) (replicate s (null_block p))"
  have S: "cols gids s ?S" by (simp add: cols_def)
  obtain C n where loop: "chunked_hit_loop p gids v (py_range (int s) (int M)) ?S = Inr C" and C: "cols gids n C" "s \<le> n" "n \<le> M"
    "\<forall>i. s \<le> i \<longrightarrow> i < n \<longrightarrow> cell p gids C i (?H i)" "\<forall>k < length gids. \<forall>i < s. C ! k ! i = ?S ! k ! i"
    "n < M \<longrightarrow> \<not> all_cached p (?H n) gids"
    using chunked_hit_loop_result [OF ci grp get refl s(2) order_refl S] by force
  obtain c where c: "py_get C 0 = Inr c" "length c = n" using cols_py_get [OF grp C(1)] by blast
  have run: "chunked_find_longest_cache_hit (RawHashes hs) max_length gids p bs chunk False bs 1 1 = Inr (C, int n * bs)"
    unfolding chunked_find_longest_cache_hit_def Let_def s(1) [symmetric] M(1) [symmetric] nat_int
    by (simp add: v loop c)
  have "int n * bs \<le> int M * bs" using C(3) bs0 by (intro mult_right_mono) simp_all
  then have "int n * bs \<le> max_length" using M(2) by linarith
  with run C M(1) show ?thesis by (intro exI [of _ C] exI [of _ n]) auto
qed

theorem chunked_hit_correct_witness:
  "\<exists>p C n. chunked_find_longest_cache_hit (RawHashes [[1], [2], [3]]) 5 [0] p 2 4 False 2 1 1 = Inr (C, int n * 2)
     \<and> cols [0] n C \<and> 2 \<le> n"
proof -
  obtain p xs where p: "pool_inv p xs" "hash_block_size p = 2" by (rule sample_cached_pool)
  let ?hs = "[[1], [2], [3]] :: bytes list"
  have "\<exists>C n. chunked_find_longest_cache_hit (RawHashes ?hs) 5 [0] p 2 4 False 2 1 1 = Inr (C, int n * 2) \<and> cols [0] n C \<and> 2 \<le> n"
  proof -
    have "groups_ok [0]" "0 < hash_block_size p" "(0::int) < 1" "(0::int) \<le> 5" "(0::int) < 4" "2 = 1 * hash_block_size p"
      "5 div 2 \<le> int (length ?hs) div 1" "2 = nat (5 div 4 * 4 div 2)" using p(2) by (simp_all add: groups_ok_def)
    from chunked_hit_correct [OF p(1) this] show ?thesis by (elim exE conjE) (intro exI conjI)
  qed
  then show ?thesis by blast
qed

end
