(* ===== verification/Manager_Inv.thy ===== *)
theory Manager_Inv
  imports Managers
begin

text \<open>
  Reference accounting of the managers: the reference count of every block is the number of
  times it occurs in the block tables and pending copies of the manager, plus the references
  \<open>ext\<close> that others hold (other managers of the pool, copies in flight).  Every manager
  operation preserves this, so no reference leaks and none is dropped twice.
\<close>

section \<open>The accounting invariant\<close>

definition table_refs :: "mgr \<Rightarrow> bref \<Rightarrow> int" where
  "table_refs m b = (\<Sum>r\<in>dom (req_to_blocks m). int (count_list (blocks_of m r) b))"

definition cow_refs :: "mgr \<Rightarrow> bref \<Rightarrow> int" where
  "cow_refs m b = int (count_list (map fst (pending_cow_copies m)) b + count_list (map snd (pending_cow_copies m)) b)"

definition mgr_refs :: "mgr \<Rightarrow> bref \<Rightarrow> int" where
  "mgr_refs m b = table_refs m b + cow_refs m b"

definition mgr_ok :: "pool \<Rightarrow> mgr \<Rightarrow> bool" where
  "mgr_ok p m \<longleftrightarrow> finite (dom (req_to_blocks m))
     \<and> (\<forall>r. \<forall>b \<in> set (blocks_of m r). valid_block p b)
     \<and> (\<forall>(s, c) \<in> set (pending_cow_copies m). valid_block p s \<and> valid_block p c)"

definition refs_ok :: "pool \<Rightarrow> (bref \<Rightarrow> int) \<Rightarrow> bool" where
  "refs_ok p R \<longleftrightarrow> (\<forall>b. valid_block p b \<longrightarrow> b \<noteq> null_block p \<longrightarrow> ref_cnt (blocks p b) = R b)"

definition sys_inv :: "(bref \<Rightarrow> int) \<Rightarrow> mgr \<times> pool \<Rightarrow> bool" where
  "sys_inv ext = (\<lambda>(m, p). (\<exists>xs. pool_inv p xs) \<and> mgr_ok p m \<and> (\<forall>b. 0 \<le> ext b)
     \<and> refs_ok p (\<lambda>b. mgr_refs m b + ext b))"

lemma sys_invI:
  "\<lbrakk>pool_inv p xs; mgr_ok p m; \<forall>b. 0 \<le> ext b; refs_ok p (\<lambda>b. mgr_refs m b + ext b)\<rbrakk> \<Longrightarrow> sys_inv ext (m, p)"
  by (auto simp: sys_inv_def)

lemma sys_invE:
  assumes "sys_inv ext (m, p)"
  obtains xs where "pool_inv p xs" "mgr_ok p m" "\<forall>b. 0 \<le> ext b" "refs_ok p (\<lambda>b. mgr_refs m b + ext b)"
  using assms by (auto simp: sys_inv_def)

lemma blocks_of_set [simp]: "blocks_of (set_blocks r bs m) q = (if q = r then bs else blocks_of m q)"
  by (simp add: blocks_of_def set_blocks_def)

lemma blocks_of_none: "r \<notin> dom (req_to_blocks m) \<Longrightarrow> blocks_of m r = []"
  by (auto simp: blocks_of_def dom_def)

lemma table_refs_split:
  assumes "finite (dom (req_to_blocks m))"
  shows "table_refs m b = (\<Sum>q\<in>dom (req_to_blocks m) - {r}. int (count_list (blocks_of m q) b))
    + int (count_list (blocks_of m r) b)"
proof (cases "r \<in> dom (req_to_blocks m)")
  case True
  then show ?thesis using assms by (simp add: table_refs_def sum.remove)
next
  case False
  then show ?thesis using blocks_of_none [of r m] by (simp add: table_refs_def)
qed

lemma table_refs_set:
  assumes "finite (dom (req_to_blocks m))"
  shows "table_refs (set_blocks r bs m) b
    = table_refs m b - int (count_list (blocks_of m r) b) + int (count_list bs b)"
proof -
  let ?m = "set_blocks r bs m"
  have dom: "dom (req_to_blocks ?m) = insert r (dom (req_to_blocks m))" by (simp add: set_blocks_def)
  have "(\<Sum>q\<in>dom (req_to_blocks ?m) - {r}. int (count_list (blocks_of ?m q) b))
      = (\<Sum>q\<in>dom (req_to_blocks m) - {r}. int (count_list (blocks_of m q) b))"
    unfolding dom by (rule sum.cong) auto
  with table_refs_split [of ?m b r] table_refs_split [OF assms, of b r] assms show ?thesis by (simp add: dom)
qed

lemma table_refs_pop:
  assumes "finite (dom (req_to_blocks m))"
  shows "table_refs (snd (pop_blocks_for_free r m)) b = table_refs m b - int (count_list (blocks_of m r) b)"
proof -
  let ?m = "snd (pop_blocks_for_free r m)"
  have dom: "dom (req_to_blocks ?m) = dom (req_to_blocks m) - {r}" by (simp add: pop_blocks_for_free_def)
  have "table_refs ?m b = (\<Sum>q\<in>dom (req_to_blocks m) - {r}. int (count_list (blocks_of m q) b))"
    unfolding table_refs_def dom by (rule sum.cong) (auto simp: pop_blocks_for_free_def blocks_of_def)
  with table_refs_split [OF assms, of b r] show ?thesis by simp
qed

lemma table_refs_ge:
  assumes "finite (dom (req_to_blocks m))"
  shows "int (count_list (blocks_of m r) b) \<le> table_refs m b"
  unfolding table_refs_split [OF assms, of b r] by (simp add: sum_nonneg)

lemma cow_refs_nonneg: "0 \<le> cow_refs m b" by (simp add: cow_refs_def)

lemma mgr_refs_ge:
  "finite (dom (req_to_blocks m)) \<Longrightarrow> int (count_list (blocks_of m r) b) \<le> mgr_refs m b"
  using table_refs_ge [of m r b] cow_refs_nonneg [of m b] by (simp add: mgr_refs_def)

text \<open>Fields that the accounting does not read.\<close>

definition same_tables :: "mgr \<Rightarrow> mgr \<Rightarrow> bool" where
  "same_tables m m' \<longleftrightarrow> req_to_blocks m' = req_to_blocks m \<and> pending_cow_copies m' = pending_cow_copies m"

lemma same_tables_refs: "same_tables m m' \<Longrightarrow> mgr_refs m' b = mgr_refs m b \<and> blocks_of m' r = blocks_of m r"
  by (simp add: same_tables_def mgr_refs_def table_refs_def cow_refs_def blocks_of_def)

lemma same_tables_sys: "same_tables m m' \<Longrightarrow> sys_inv ext (m, p) \<Longrightarrow> sys_inv ext (m', p)"
  by (simp add: sys_inv_def refs_ok_def mgr_ok_def same_tables_refs) (simp add: same_tables_def)

lemma mgr_ok_config: "same_config p p' \<Longrightarrow> mgr_ok p' m = mgr_ok p m"
  by (simp add: mgr_ok_def valid_block_config)

lemma refs_ok_same: "same_refs p p' \<Longrightarrow> refs_ok p' R = refs_ok p R"
  using valid_block_config [OF same_refs_config, of p p'] by (auto simp: refs_ok_def same_refs_def same_config_def)

lemma sys_inv_same_refs:
  assumes "sys_inv ext (m, p)" "same_refs p p'" "\<And>xs. pool_inv p xs \<Longrightarrow> pool_inv p' xs"
  shows "sys_inv ext (m, p')"
  using assms mgr_ok_config [OF same_refs_config [OF assms(2)]] refs_ok_same [OF assms(2)]
  by (auto simp: sys_inv_def)

lemma mgr_ok_set_blocks:
  "mgr_ok p m \<Longrightarrow> (\<And>b. b \<in> set bs \<Longrightarrow> valid_block p b) \<Longrightarrow> mgr_ok p (set_blocks r bs m)"
  by (auto simp: mgr_ok_def) (auto simp: set_blocks_def)

lemma mgr_refs_set_blocks:
  "mgr_ok p m \<Longrightarrow> mgr_refs (set_blocks r bs m) b
     = mgr_refs m b - int (count_list (blocks_of m r) b) + int (count_list bs b)"
  by (simp add: mgr_refs_def mgr_ok_def table_refs_set) (simp add: cow_refs_def set_blocks_def)

lemma access_blocks_sys: "sys_inv ext (m, p) \<Longrightarrow> sys_inv ext (access_blocks r m, p)"
  by (elim sys_invE, intro sys_invI, assumption)
    (auto simp: access_blocks_def mgr_refs_set_blocks refs_ok_def mgr_ok_def intro!: mgr_ok_set_blocks,
      auto simp: set_blocks_def)

section \<open>Operations\<close>

lemma get_new_blocks_Inr:
  assumes inv: "pool_inv p xs" and n: "0 \<le> n" and run: "get_new_blocks n p = Inr (bs, p')"
  shows "pool_inv p' (drop (nat n) xs) \<and> same_config p p' \<and> int (length bs) = n \<and> distinct bs
    \<and> n \<le> int (length xs) \<and> (\<forall>b \<in> set bs. valid_block p b \<and> b \<noteq> null_block p)
    \<and> (\<forall>b. ref_cnt (blocks p' b) = ref_cnt (blocks p b) + int (count_list bs b))"
proof -
  have le: "n \<le> int (length xs)" using get_new_blocks_short [OF inv, of n] run by (cases "int (length xs) < n") auto
  obtain q where q: "get_new_blocks n p = Inr (take (nat n) xs, q)" "pool_inv q (drop (nat n) xs)" "same_config p q"
    "\<forall>c. ref_cnt (blocks q c) = ref_cnt (blocks p c) + (if c \<in> set (take (nat n) xs) then 1 else 0)"
    using get_new_blocks_result [OF inv n le] by blast
  have eq: "bs = take (nat n) xs" "p' = q" using q(1) run by auto
  have d: "distinct bs" using pool_inv_distinct [OF inv] eq by simp
  have "valid_block p b \<and> b \<noteq> null_block p" if "b \<in> set bs" for b
    using pool_inv_free [OF inv, of b] in_set_takeD [of b "nat n" xs] that eq(1) by simp
  moreover have "ref_cnt (blocks p' b) = ref_cnt (blocks p b) + int (count_list bs b)" for b
    using q(4) by (simp add: eq distinct_count_list [OF d [unfolded eq]])
  ultimately show ?thesis using q(2,3) d le n by (simp add: eq)
qed

lemma extend_with_new_sys:
  assumes "sys_inv ext (m, p)" "0 \<le> n" "extend_with_new r n (m, p) = Inr (bs, m', p')"
  shows "sys_inv ext (m', p') \<and> same_config p p' \<and> int (length bs) = n
    \<and> blocks_of m' r = blocks_of m r @ bs \<and> get_num_free_blocks p' = get_num_free_blocks p - n"
proof -
  from assms(1) obtain xs where inv: "pool_inv p xs" "mgr_ok p m" "\<forall>b. 0 \<le> ext b" "refs_ok p (\<lambda>b. mgr_refs m b + ext b)"
    by (rule sys_invE)
  let ?m = "set_blocks r (blocks_of m r @ bs) m"
  from assms(3) have run: "get_new_blocks n p = Inr (bs, p')" and m': "same_tables ?m m'"
    by (auto simp: extend_with_new_def bindE_eq_Inr Let_def same_tables_def split: if_splits)
  note g = get_new_blocks_Inr [OF inv(1) assms(2) run]
  then have sc: "same_config p p'" by blast
  have "sys_inv ext (?m, p')"
  proof (rule sys_invI)
    show "pool_inv p' (drop (nat n) xs)" using g by blast
    show "mgr_ok p' ?m" unfolding mgr_ok_config [OF sc]
      using g inv(2) by (intro mgr_ok_set_blocks) (auto simp: mgr_ok_def)
    show "refs_ok p' (\<lambda>b. mgr_refs ?m b + ext b)"
      using g inv(4) by (simp add: refs_ok_def mgr_refs_set_blocks [OF inv(2)] same_config_dest [OF sc])
  qed (use inv in blast)
  with same_tables_sys [OF m'] have "sys_inv ext (m', p')" by blast
  moreover have "get_num_free_blocks p' = get_num_free_blocks p - n"
    using g get_num_free_blocks_inv [OF inv(1)] get_num_free_blocks_inv [of p' "drop (nat n) xs"] assms(2) by auto
  ultimately show ?thesis using g same_tables_refs [OF m', of _ r] by auto
qed

lemma extend_with_new_total:
  assumes "sys_inv ext (m, p)" "0 \<le> n" "n \<le> get_num_free_blocks p"
  shows "\<exists>bs m' p'. extend_with_new r n (m, p) = Inr (bs, m', p')"
proof -
  obtain xs where inv: "pool_inv p xs" using assms(1) by (auto simp: sys_inv_def)
  have "n \<le> int (length xs)" using assms(3) get_num_free_blocks_inv [OF inv] by simp
  from get_new_blocks_result [OF inv assms(2) this] show ?thesis by (auto simp: extend_with_new_def Let_def)
qed

lemma claim_ring_block_sys:
  assumes "sys_inv ext (m, p)" "claim_ring_block r (m, p) = Inr (bs, m', p')"
  shows "sys_inv ext (m', p') \<and> same_config p p'"
proof (cases "blocks_of m r = []")
  case True
  with assms(2) have "extend_with_new r 1 (m, p) = Inr (bs, m', p')" by (simp add: claim_ring_block_def)
  with extend_with_new_sys [OF assms(1), of 1 r bs m' p'] show ?thesis by simp
next
  case False
  with assms access_blocks_sys show ?thesis by (auto simp: claim_ring_block_def)
qed

lemma free_blocks_Inr:
  assumes inv: "pool_inv p xs" and run: "free_blocks bs p = Inr p'"
    and valid: "\<And>b. b \<in> set bs \<Longrightarrow> valid_block p b"
    and own: "\<And>b. b \<in> set bs \<Longrightarrow> b \<noteq> null_block p \<Longrightarrow> int (count_list bs b) \<le> ref_cnt (blocks p b)"
  shows "(\<exists>ys. pool_inv p' ys) \<and> same_config p p' \<and> (\<forall>b. ref_cnt (blocks p' b) = ref_cnt (blocks p b) - int (count_list bs b))"
proof -
  obtain q ys where "free_blocks bs p = Inr q" "same_cache p q" "pool_inv q ys"
    "\<forall>c. ref_cnt (blocks q c) = ref_cnt (blocks p c) - int (count_list bs c)"
    using free_blocks_result [OF inv valid own] by blast
  with run same_cache_config show ?thesis by auto
qed

lemma free_mgr_sys:
  assumes sys: "sys_inv ext (m, p)"
  shows "\<exists>m' p'. free_mgr r (m, p) = Inr (m', p') \<and> sys_inv ext (m', p') \<and> same_config p p'
    \<and> req_to_blocks m' = (req_to_blocks m)(r := None) \<and> blocks_of m' r = []
    \<and> pending_cow_copies m' = pending_cow_copies m"
proof -
  from sys obtain xs where inv: "pool_inv p xs" "mgr_ok p m" "\<forall>b. 0 \<le> ext b" "refs_ok p (\<lambda>b. mgr_refs m b + ext b)"
    by (rule sys_invE)
  let ?bs = "rev (blocks_of m r)" and ?m = "snd (pop_blocks_for_free r m)"
  have valid: "valid_block p b" if "b \<in> set ?bs" for b using that inv(2) by (auto simp: mgr_ok_def)
  have own: "int (count_list ?bs b) \<le> ref_cnt (blocks p b)" if "b \<in> set ?bs" "b \<noteq> null_block p" for b
    using inv(2,4) inv(3) [rule_format, of b] valid [OF that(1)] that(2) mgr_refs_ge [of m r b]
    by (simp add: refs_ok_def mgr_ok_def count_list_rev)
  obtain p' where p': "free_blocks ?bs p = Inr p'" using free_blocks_result [OF inv(1) valid own] by blast
  have f: "(\<exists>ys. pool_inv p' ys) \<and> same_config p p' \<and> (\<forall>b. ref_cnt (blocks p' b) = ref_cnt (blocks p b) - int (count_list ?bs b))"
    using free_blocks_Inr [OF inv(1) p'] valid own by blast
  then obtain ys where ys: "pool_inv p' ys" and sc: "same_config p p'" by blast
  have "sys_inv ext (?m, p')"
  proof (rule sys_invI [OF ys])
    show "mgr_ok p' ?m" using inv(2) unfolding mgr_ok_config [OF sc]
      by (auto simp: mgr_ok_def pop_blocks_for_free_def blocks_of_def split: if_splits)
    have "mgr_refs ?m b = mgr_refs m b - int (count_list (blocks_of m r) b)" for b
      using table_refs_pop [of m r b] inv(2) by (simp add: mgr_refs_def mgr_ok_def cow_refs_def pop_blocks_for_free_def)
    with f inv(4) show "refs_ok p' (\<lambda>b. mgr_refs ?m b + ext b)"
      by (simp add: refs_ok_def same_config_dest [OF sc] count_list_rev)
  qed (use inv in blast)
  moreover have "free_mgr r (m, p) = Inr (?m, p')"
    using p' by (simp add: free_mgr_def pop_blocks_for_free_def)
  ultimately show ?thesis using sc by (auto simp: pop_blocks_for_free_def blocks_of_def)
qed

text \<open>A locally cached prefix: the touched blocks enter the table of the request.\<close>

lemma add_local_sys:
  assumes sys: "sys_inv ext (m, p)" and valid: "\<And>b. b \<in> set ncb \<Longrightarrow> valid_block p b"
    and run: "base_add_local_computed_blocks r ncb nl ne (m, p) = Inr (m', p')"
  shows "sys_inv ext (m', p') \<and> same_config p p'"
proof -
  from sys obtain xs where inv: "pool_inv p xs" "mgr_ok p m" "\<forall>b. 0 \<le> ext b" "refs_ok p (\<lambda>b. mgr_refs m b + ext b)"
    by (rule sys_invE)
  define k where "k = get_num_skipped_tokens m (nl + ne) div block_size m"
  define bs where "bs = (if 0 < k then py_slice_from ncb k else ncb)"
  from run have empty: "blocks_of m r = []"
    by (auto simp: base_add_local_computed_blocks_def bindE_eq_Inr)
  let ?T = "if mgr_enable_caching m then touch bs p else bindE (py_assert (bs = [])) (\<lambda>_. Inr p)"
  define F where "F p1 = (let m1 = set_blocks r (replicate (nat k) (null_block p1) @ bs) m;
      m2 = m1\<lparr>num_cached_block := (num_cached_block m1)(r \<mapsto> int (length (replicate (nat k) (null_block p1) @ bs)))\<rparr>
    in if has_partial_local_hit m2 bs nl
       then (m2\<lparr>partial_hit_reqs := (partial_hit_reqs m2)(r \<mapsto> (nl div block_size m2, last bs)),
                num_cached_block := (num_cached_block m2)(r \<mapsto> nl div block_size m2)\<rparr>, p1)
       else (m2, p1))" for p1 :: pool
  have "bindE ?T (\<lambda>p1. Inr (F p1)) = Inr (m', p')"
    using run empty unfolding base_add_local_computed_blocks_def prod.case Let_def k_def [symmetric] bs_def [symmetric] F_def
    by (simp add: if_distrib [of Inr])
  then obtain p1 where t: "?T = Inr p1" and F: "F p1 = (m', p')" unfolding bindE_eq_Inr by auto
  have m': "same_tables (set_blocks r (replicate (nat k) (null_block p1) @ bs) m) m'" and p': "p' = p1"
    using F by (auto simp: F_def Let_def same_tables_def split: if_splits)
  have sub: "set bs \<subseteq> set ncb" unfolding bs_def py_slice_from_def by (auto dest: in_set_dropD)
  have vb: "valid_block p b" if "b \<in> set bs" for b using that sub valid by blast
  have p1: "(\<exists>ys. pool_inv p1 ys) \<and> same_config p p1 \<and> (\<forall>b. ref_cnt (blocks p1 b) = ref_cnt (blocks p b) + int (count_list bs b))"
  proof (cases "mgr_enable_caching m")
    case True
    obtain q where "touch bs p = Inr q" "pool_inv q (filter (\<lambda>c. c \<notin> set bs) xs)" "same_cache p q"
      "\<forall>c. ref_cnt (blocks q c) = ref_cnt (blocks p c) + int (count_list bs c)"
      using touch_result [OF inv(1) vb] by blast
    with t True same_cache_config show ?thesis by auto
  next
    case False
    with t inv(1) show ?thesis by (auto simp: bindE_eq_Inr)
  qed
  then obtain ys where ys: "pool_inv p1 ys" and sc: "same_config p p1" by blast
  let ?bs = "replicate (nat k) (null_block p1) @ bs"
  have nv: "valid_block p (null_block p)" "null_block p1 = null_block p"
    using inv(1) sc by (auto simp: pool_inv_def ref_inv_def valid_block_def block_refs_def same_config_def)
  have "sys_inv ext (set_blocks r ?bs m, p1)"
  proof (rule sys_invI [OF ys])
    show "mgr_ok p1 (set_blocks r ?bs m)"
      unfolding mgr_ok_config [OF sc] using inv(2) vb nv by (intro mgr_ok_set_blocks) auto
    show "refs_ok p1 (\<lambda>b. mgr_refs (set_blocks r ?bs m) b + ext b)"
      using inv(4) p1 nv(2)
      by (auto simp: refs_ok_def mgr_refs_set_blocks [OF inv(2)] empty same_config_dest [OF sc] count_list_replicate)
  qed (use inv in blast)
  with same_tables_sys [OF m'] p' sc show ?thesis by blast
qed

lemma add_local_computed_blocks_sys:
  assumes "sys_inv ext (m, p)" "\<And>b. b \<in> set ncb \<Longrightarrow> valid_block p b"
    and "add_local_computed_blocks r ncb nl ne (m, p) = Inr (m', p')"
  shows "sys_inv ext (m', p') \<and> same_config p p'"
  using assms add_local_sys [of ext m p ncb r nl ne m' p']
  by (cases "kind m") (auto simp: add_local_computed_blocks_def bindE_eq_Inr)

lemma allocate_external_sys:
  assumes "sys_inv ext (m, p)" "allocate_external_computed_blocks r nl ne (m, p) = Inr (m', p')"
  shows "sys_inv ext (m', p') \<and> same_config p p'"
proof -
  have base: "sys_inv ext (m', p') \<and> same_config p p'"
    if "base_allocate_external_computed_blocks r nl ne (m, p) = Inr (m', p')"
  proof -
    from that have "(m', p') = (m, p) \<or> (\<exists>n bs. 0 \<le> n \<and> extend_with_new r n (m, p) = Inr (bs, m', p'))"
      by (auto simp: base_allocate_external_computed_blocks_def Let_def bindE_eq_Inr split: if_splits)
    with assms(1) extend_with_new_sys [OF assms(1)] show ?thesis by fastforce
  qed
  have ring: "sys_inv ext (m', p') \<and> same_config p p'" if "bindE (claim_ring_block r (m, p)) (\<lambda>(_, s'). Inr s') = Inr (m', p')"
    using that claim_ring_block_sys [OF assms(1)] by (auto simp: bindE_eq_Inr)
  show ?thesis using assms base ring by (cases "kind m") (auto simp: allocate_external_computed_blocks_def)
qed

text \<open>Copy on write: the request's reference moves to the copy, the source stays pinned.\<close>

lemma count_list_update:
  "i < length xs \<Longrightarrow> int (count_list (xs[i := v]) b)
     = int (count_list xs b) - (if xs ! i = b then 1 else 0) + (if v = b then 1 else 0)"
proof (induction xs arbitrary: i)
  case (Cons x xs)
  show ?case
  proof (cases i)
    case (Suc j)
    with Cons.IH [of j] Cons.prems show ?thesis by (auto split: if_splits)
  qed simp
qed simp

lemma apply_cow_result:
  assumes "apply_cow r idx src cow (m, p) = Inr (m', p')"
  shows "\<exists>i < length (blocks_of m r). blocks_of m r ! i = src
    \<and> m' = (set_blocks r ((blocks_of m r)[i := cow]) m)\<lparr>pending_cow_copies := pending_cow_copies m @ [(src, cow)]\<rparr>
    \<and> p' = upd_block cow (add_ref 1) p"
proof -
  let ?bs = "blocks_of m r"
  from assms obtain bs' where get: "py_get ?bs idx = Inr src" and set: "py_set ?bs idx cow = Inr bs'"
    and m': "m' = (set_blocks r bs' m)\<lparr>pending_cow_copies := pending_cow_copies m @ [(src, cow)]\<rparr>"
    and p': "p' = upd_block cow (add_ref 1) p"
    by (auto simp: apply_cow_def bindE_eq_Inr Let_def)
  define i where "i = (if 0 \<le> idx then nat idx else nat (int (length ?bs) + idx))"
  have "i < length ?bs" "bs' = ?bs[i := cow]"
    using set by (auto simp: py_set_def i_def split: if_splits)
  moreover have "?bs ! i = src"
    using get py_get_neg [of "- idx" ?bs] by (auto simp: py_get_def i_def split: if_splits)
  ultimately show ?thesis using m' p' by blast
qed

lemma apply_cow_sys:
  assumes sys: "sys_inv (\<lambda>b. ext b + (if b = cow then 1 else 0)) (m, p)" and ext: "\<forall>b. 0 \<le> ext b"
    and cow: "valid_block p cow" "cow \<noteq> null_block p"
    and run: "apply_cow r idx src cow (m, p) = Inr (m', p')"
  shows "sys_inv ext (m', p') \<and> same_config p p'"
proof -
  from sys obtain xs where inv: "pool_inv p xs" "mgr_ok p m"
    "refs_ok p (\<lambda>b. mgr_refs m b + (ext b + (if b = cow then 1 else 0)))"
    by (rule sys_invE)
  obtain i where i: "i < length (blocks_of m r)" "blocks_of m r ! i = src"
    and m': "m' = (set_blocks r ((blocks_of m r)[i := cow]) m)\<lparr>pending_cow_copies := pending_cow_copies m @ [(src, cow)]\<rparr>"
    and p': "p' = upd_block cow (add_ref 1) p"
    using apply_cow_result [OF run] by blast
  let ?m = "set_blocks r ((blocks_of m r)[i := cow]) m"
  have sc: "same_cache p p'" unfolding p' by (rule upd_ref_same_cache)
  note d = same_config_dest [OF same_cache_config [OF sc]]
  have ref: "ref_cnt (blocks p' b) = ref_cnt (blocks p b) + (if b = cow then 1 else 0)" for b
    unfolding p' by (simp add: ref_upd_block)
  have src: "valid_block p src" using i inv(2) nth_mem [of i "blocks_of m r"] by (auto simp: mgr_ok_def)
  have pos: "0 < ref_cnt (blocks p cow)"
    using inv(3) cow mgr_refs_ge [of m r cow] inv(2) ext [rule_format, of cow] by (auto simp: refs_ok_def mgr_ok_def)
  have notin: "cow \<notin> set xs" using pool_inv_free [OF inv(1), of cow] pos by simp
  have pool: "pool_inv p' xs"
  proof (rule pool_invI_refs [OF inv(1) sc])
    show "fq_inv (free_block_queue p') xs" using inv(1) by (simp add: p' pool_inv_def)
    show "0 \<le> ref_cnt (blocks p' b)" if "valid_block p b" "b \<noteq> null_block p" for b
      using pool_inv_nonneg [OF inv(1) that] by (simp add: ref)
    show "b \<in> set xs \<longleftrightarrow> valid_block p b \<and> b \<noteq> null_block p \<and> ref_cnt (blocks p' b) = 0" for b
      using pool_inv_free [OF inv(1), of b] notin pos by (auto simp: ref)
  qed
  have ok: "mgr_ok p ?m"
    using inv(2) cow set_update_subset_insert [of "blocks_of m r" i cow]
    by (intro mgr_ok_set_blocks) (auto simp: mgr_ok_def)
  have refs: "mgr_refs m' b = mgr_refs ?m b + (if b = src then 1 else 0) + (if b = cow then 1 else 0)" for b
    by (auto simp: m' mgr_refs_def table_refs_def cow_refs_def blocks_of_def set_blocks_def)
  have "sys_inv ext (m', p')"
  proof (rule sys_invI [OF pool _ ext])
    show "mgr_ok p' m'" unfolding mgr_ok_config [OF same_cache_config [OF sc]]
      using ok src cow by (auto simp: mgr_ok_def m' blocks_of_def set_blocks_def)
    show "refs_ok p' (\<lambda>b. mgr_refs m' b + ext b)"
      using inv(3) i
      by (auto simp: refs_ok_def d ref refs mgr_refs_set_blocks [OF inv(2)] count_list_update)
  qed
  with same_cache_config [OF sc] show ?thesis by blast
qed

lemma redirect_sys:
  assumes sys: "sys_inv ext (m, p)" and run: "redirect_partial_hit r (m, p) = Inr (bs, m', p')"
  shows "sys_inv ext (m', p') \<and> same_config p p'"
proof (cases "partial_hit_reqs m r")
  case None
  with sys run show ?thesis by (auto simp: redirect_partial_hit_def)
next
  case (Some e)
  obtain idx src where e: "e = (idx, src)" by (cases e)
  let ?m = "m\<lparr>partial_hit_reqs := (partial_hit_reqs m)(r := None)\<rparr>"
  from run Some e obtain new p1 cow m1 where new: "get_new_blocks 1 p = Inr (new, p1)" "py_get new 0 = Inr cow"
    and cow: "apply_cow r idx src cow (?m, p1) = Inr (m1, p')" and m': "same_tables m1 m'"
    by (auto simp: redirect_partial_hit_def bindE_eq_Inr same_tables_def)
  from sys obtain xs where inv: "pool_inv p xs" "mgr_ok p m" "\<forall>b. 0 \<le> ext b" "refs_ok p (\<lambda>b. mgr_refs m b + ext b)"
    by (rule sys_invE)
  note g = get_new_blocks_Inr [OF inv(1) _ new(1), simplified]
  then have sc: "same_config p p1" by blast
  note d = same_config_dest [OF sc]
  have "length new = Suc 0" using g by linarith
  then have bs: "new = [cow]" using new(2) by (cases new) (auto simp: py_get_def)
  have st: "same_tables m ?m" by (simp add: same_tables_def)
  have "sys_inv (\<lambda>b. ext b + (if b = cow then 1 else 0)) (?m, p1)"
  proof (rule sys_invI)
    show "pool_inv p1 (drop (Suc 0) xs)" using g by simp
    show "mgr_ok p1 ?m" unfolding mgr_ok_config [OF sc] using inv(2) by (simp add: mgr_ok_def blocks_of_def)
    show "\<forall>b. 0 \<le> ext b + (if b = cow then 1 else 0)" using inv(3) by simp
    show "refs_ok p1 (\<lambda>b. mgr_refs ?m b + (ext b + (if b = cow then 1 else 0)))"
      using inv(4) g by (auto simp: refs_ok_def d bs same_tables_refs [OF st])
  qed
  from apply_cow_sys [OF this inv(3) _ _ cow] g bs d have "sys_inv ext (m1, p') \<and> same_config p1 p'" by auto
  then show ?thesis using same_tables_sys [OF m'] same_config_trans [OF sc] by blast
qed

lemma allocate_new_blocks_sys:
  assumes "sys_inv ext (m, p)" "allocate_new_blocks r n (m, p) = Inr (bs, m', p')"
  shows "sys_inv ext (m', p') \<and> same_config p p'"
proof (cases "kind m = CircularBuffer")
  case True
  with assms claim_ring_block_sys [OF assms(1)] show ?thesis by (simp add: allocate_new_blocks_def)
next
  case False
  with assms(2) obtain cs m1 p1 where r1: "redirect_partial_hit r (m, p) = Inr (cs, m1, p1)"
    and r2: "(m', p') = (access_blocks r m1, p1)
      \<or> (\<exists>k new. 0 \<le> k \<and> extend_with_new r k (m1, p1) = Inr (new, m', p'))"
    by (fastforce simp: allocate_new_blocks_def base_allocate_new_blocks_def bindE_eq_Inr Let_def split: if_splits)
  have s1: "sys_inv ext (m1, p1)" "same_config p p1" using redirect_sys [OF assms(1) r1] by auto
  from r2 show ?thesis
  proof
    assume "(m', p') = (access_blocks r m1, p1)"
    with access_blocks_sys [OF s1(1)] s1(2) show ?thesis by simp
  next
    assume "\<exists>k new. 0 \<le> k \<and> extend_with_new r k (m1, p1) = Inr (new, m', p')"
    then obtain k new where "0 \<le> k" "extend_with_new r k (m1, p1) = Inr (new, m', p')" by blast
    from extend_with_new_sys [OF s1(1) this] same_config_trans [OF s1(2)] show ?thesis by blast
  qed
qed

text \<open>Removing blocks from a range of a request's table.\<close>

lemma remove_loop_result:
  "\<lbrakk>remove_loop null is bs freed = (freed', bs'); distinct is; \<And>i. i \<in> set is \<Longrightarrow> i < length bs\<rbrakk> \<Longrightarrow>
   \<exists>fs. freed' = freed @ fs \<and> length bs' = length bs \<and> null \<notin> set fs \<and> set fs \<subseteq> set bs \<and> set bs' \<subseteq> insert null (set bs)
     \<and> (\<forall>b. b \<noteq> null \<longrightarrow> int (count_list bs' b) = int (count_list bs b) - int (count_list fs b))
     \<and> (\<forall>i. i \<notin> set is \<longrightarrow> bs' ! i = bs ! i)"
proof (induction "is" arbitrary: bs freed)
  case (Cons i "is")
  show ?case
  proof (cases "bs ! i = null")
    case True
    with Cons.prems(1) show ?thesis by auto
  next
    case False
    have i: "i < length bs" using Cons.prems(3) by simp
    from False Cons.prems(1) have "remove_loop null is (bs[i := null]) (freed @ [bs ! i]) = (freed', bs')" by simp
    from Cons.IH [OF this] Cons.prems(2,3) obtain fs where fs: "freed' = (freed @ [bs ! i]) @ fs"
      "length bs' = length bs" "null \<notin> set fs" "set fs \<subseteq> set (bs[i := null])" "set bs' \<subseteq> insert null (set (bs[i := null]))"
      "\<forall>b. b \<noteq> null \<longrightarrow> int (count_list bs' b) = int (count_list (bs[i := null]) b) - int (count_list fs b)"
      "\<forall>j. j \<notin> set is \<longrightarrow> bs' ! j = bs[i := null] ! j" by auto
    have sub: "set (bs[i := null]) \<subseteq> insert null (set bs)" by (rule set_update_subset_insert)
    have "set fs \<subseteq> set bs" using fs(3,4) sub by blast
    moreover have "set bs' \<subseteq> insert null (set bs)" using fs(5) sub by blast
    moreover have "int (count_list bs' b) = int (count_list bs b) - int (count_list ((bs ! i) # fs) b)" if "b \<noteq> null" for b
      using fs(6) that count_list_update [OF i, of null b] by auto
    moreover have "bs' ! j = bs ! j" if "j \<notin> set (i # is)" for j using fs(7) that by auto
    ultimately show ?thesis using fs(1-3) False i by (intro exI [of _ "bs ! i # fs"]) auto
  qed
qed auto

lemma remove_blocks_in_range_sys:
  assumes sys: "sys_inv ext (m, p)" and first: "0 \<le> first_block"
  shows "\<exists>m' p'. remove_blocks_in_range r first_block last_block (m, p) = Inr (m', p') \<and> sys_inv ext (m', p') \<and> same_config p p'
    \<and> (\<forall>b. b \<noteq> null_block p \<longrightarrow> mgr_refs m' b \<le> mgr_refs m b)"
proof (cases "req_to_blocks m r = None \<or> last_block \<le> first_block")
  case True
  with sys show ?thesis by (auto simp: remove_blocks_in_range_def)
next
  case False
  from sys obtain xs where inv: "pool_inv p xs" "mgr_ok p m" "\<forall>b. 0 \<le> ext b" "refs_ok p (\<lambda>b. mgr_refs m b + ext b)"
    by (rule sys_invE)
  let ?bs = "blocks_of m r" and ?null = "null_block p"
  define idx where "idx = map nat (py_range_down (min last_block (int (length ?bs)) - 1) (first_block - 1))"
  have "distinct idx" "\<And>i. i \<in> set idx \<Longrightarrow> i < length ?bs"
    using first by (auto simp: idx_def py_range_down_def distinct_map inj_on_def rev_map [symmetric])
  obtain fs bs' where loop: "remove_loop ?null idx ?bs [] = (fs, bs')" by fastforce
  have l: "length bs' = length ?bs" "?null \<notin> set fs" "set fs \<subseteq> set ?bs" "set bs' \<subseteq> insert ?null (set ?bs)"
    "\<forall>b. b \<noteq> ?null \<longrightarrow> int (count_list bs' b) = int (count_list ?bs b) - int (count_list fs b)"
    using remove_loop_result [OF loop \<open>distinct idx\<close>] \<open>\<And>i. i \<in> set idx \<Longrightarrow> i < length ?bs\<close> by auto
  have valid: "valid_block p b" if "b \<in> set fs" for b using that l(3) inv(2) by (auto simp: mgr_ok_def)
  have own: "int (count_list fs b) \<le> ref_cnt (blocks p b)" if "b \<in> set fs" "b \<noteq> ?null" for b
  proof -
    have "int (count_list fs b) \<le> int (count_list ?bs b)" using l(5) [rule_format, OF that(2)] by linarith
    also have "\<dots> \<le> mgr_refs m b + ext b"
      using mgr_refs_ge [of m r b] inv(2) inv(3) [rule_format, of b] by (simp add: mgr_ok_def)
    finally show ?thesis using inv(4) valid [OF that(1)] that(2) by (simp add: refs_ok_def)
  qed
  let ?m = "set_blocks r bs' m"
  have nv: "valid_block p ?null" using inv(1) by (auto simp: pool_inv_def ref_inv_def valid_block_def block_refs_def)
  have ok: "mgr_ok p ?m" using inv(2) l(4) nv by (intro mgr_ok_set_blocks) (auto simp: mgr_ok_def)
  obtain p' ys where p': "(if fs = [] then Inr p else free_blocks fs p) = Inr p'" "pool_inv p' ys" "same_config p p'"
    "\<forall>b. ref_cnt (blocks p' b) = ref_cnt (blocks p b) - int (count_list fs b)"
  proof (cases "fs = []")
    case True
    with that [of p xs] inv(1) show ?thesis by simp
  next
    case False
    obtain q ys where "free_blocks fs p = Inr q" "same_cache p q" "pool_inv q ys"
      "\<forall>c. ref_cnt (blocks q c) = ref_cnt (blocks p c) - int (count_list fs c)"
      using free_blocks_result [OF inv(1) valid own] by blast
    with that [of q ys] False same_cache_config show ?thesis by simp
  qed
  have "sys_inv ext (?m, p')"
  proof (rule sys_invI [OF p'(2) _ inv(3)])
    show "mgr_ok p' ?m" using ok by (simp add: mgr_ok_config [OF p'(3)])
    show "refs_ok p' (\<lambda>b. mgr_refs ?m b + ext b)"
      using inv(4) p'(4) l(5) by (simp add: refs_ok_def same_config_dest [OF p'(3)] mgr_refs_set_blocks [OF inv(2)])
  qed
  moreover have "remove_blocks_in_range r first_block last_block (m, p) = Inr (?m, p')"
    using False p'(1) loop unfolding remove_blocks_in_range_def prod.case Let_def idx_def [symmetric]
    by (auto split: if_splits)
  moreover have "mgr_refs ?m b \<le> mgr_refs m b" if "b \<noteq> null_block p" for b
    using l(5) [rule_format, OF that] by (simp add: mgr_refs_set_blocks [OF inv(2)])
  ultimately show ?thesis using p'(3) by blast
qed

lemma mgr_refs_access: "mgr_ok p m \<Longrightarrow> mgr_refs (access_blocks r m) b = mgr_refs m b"
  by (simp add: access_blocks_def mgr_refs_set_blocks)

lemma base_remove_skipped_sys:
  assumes "sys_inv ext (m, p)"
  shows "\<exists>m' p'. base_remove_skipped_blocks r n (m, p) = Inr (m', p') \<and> sys_inv ext (m', p') \<and> same_config p p'
    \<and> (\<forall>b. b \<noteq> null_block p \<longrightarrow> mgr_refs m' b \<le> mgr_refs m b)"
proof -
  have ok: "mgr_ok p m" using assms by (auto simp: sys_inv_def)
  show ?thesis
    using assms remove_blocks_in_range_sys [OF access_blocks_sys [OF assms], of 0] mgr_refs_access [OF ok]
    by (auto simp: base_remove_skipped_blocks_def Let_def)
qed

lemma remove_skipped_blocks_sys:
  assumes "sys_inv ext (m, p)" "0 < block_size m" "\<And>n. np = Some n \<Longrightarrow> 0 \<le> n"
  shows "\<exists>m' p'. remove_skipped_blocks r n np (m, p) = Inr (m', p') \<and> sys_inv ext (m', p') \<and> same_config p p'
    \<and> (\<forall>b. b \<noteq> null_block p \<longrightarrow> mgr_refs m' b \<le> mgr_refs m b)"
proof -
  have "\<exists>m' p'. remove_blocks_in_range r (cdiv k (block_size m)) e (m, p) = Inr (m', p') \<and> sys_inv ext (m', p') \<and> same_config p p'
      \<and> (\<forall>b. b \<noteq> null_block p \<longrightarrow> mgr_refs m' b \<le> mgr_refs m b)"
    if "np = Some k" for k e
    using remove_blocks_in_range_sys [OF assms(1)] cdiv_nonneg [OF assms(2) assms(3) [OF that]] by blast
  with base_remove_skipped_sys [OF assms(1)] assms(1) show ?thesis
    by (cases "kind m"; cases np) (simp_all add: remove_skipped_blocks_def Let_def)
qed

text \<open>Caching touches metadata only.\<close>

lemma base_cache_blocks_sys:
  assumes sys: "sys_inv ext (m, p)" and run: "base_cache_blocks r n ret (m, p) = Inr (m', p')"
  shows "sys_inv ext (m', p') \<and> same_config p p' \<and> kind m' = kind m"
proof -
  let ?nc = "case num_cached_block m (req_id r) of None \<Rightarrow> 0 | Some k \<Rightarrow> k"
  show ?thesis
  proof (cases "n div block_size m \<le> ?nc")
    case True
    with run sys show ?thesis by (auto simp: base_cache_blocks_def Let_def)
  next
    case False
    with run obtain msk where c: "cache_full_blocks r (blocks_of m (req_id r)) ?nc (n div block_size m) (block_size m)
        (kv_cache_group_id m) msk p = Inr p'"
      and m': "m' = (access_blocks (req_id r) m)\<lparr>num_cached_block := (num_cached_block (access_blocks (req_id r) m))
        (req_id r \<mapsto> n div block_size m)\<rparr>"
      by (auto simp: base_cache_blocks_def Let_def bindE_eq_Inr)
    from sys obtain xs where inv: "pool_inv p xs" "mgr_ok p m" by (rule sys_invE)
    have f: "pool_inv p' xs \<and> same_refs p p'"
      by (rule cache_full_blocks_inv [OF c inv(1)]) (use inv(2) in \<open>auto simp: mgr_ok_def\<close>)
    have "pool_inv p' ys" if "pool_inv p ys" for ys
      by (rule cache_full_blocks_inv [OF c that, THEN conjunct1]) (use inv(2) in \<open>auto simp: mgr_ok_def\<close>)
    then have "sys_inv ext (access_blocks (req_id r) m, p')"
      using sys_inv_same_refs [OF access_blocks_sys [OF sys]] f by blast
    moreover have "same_tables (access_blocks (req_id r) m) m'" by (simp add: m' same_tables_def)
    ultimately show ?thesis
      using same_tables_sys same_refs_config f by (auto simp: m' access_blocks_def set_blocks_def)
  qed
qed

lemma cache_partial_tail_sys:
  assumes sys: "sys_inv ext (m, p)" and bs: "0 < block_size m" "0 \<le> num_prompt_tokens r" "0 < hash_block_size p"
    and run: "cache_partial_tail_block r n (m, p) = Inr (m', p')"
  shows "sys_inv ext (m', p') \<and> same_config p p'"
proof -
  define boundary where "boundary = num_prompt_tokens r div hash_block_size p * hash_block_size p"
  define m1 where "m1 = access_blocks (req_id r) m"
  have s1: "sys_inv ext (m1, p)" unfolding m1_def by (rule access_blocks_sys [OF sys])
  have run': "(m', p') = (m, p) \<or> (m', p') = (m1, p) \<or>
    (m' = m1 \<and> (\<exists>b k. py_get (blocks_of m1 (req_id r)) (boundary div block_size m1) = Inr b \<and>
       cache_partial_block r b boundary (kv_cache_group_id m1) (block_size m1) p = Inr (k, p')))"
    using run unfolding cache_partial_tail_block_def prod.case Let_def boundary_def [symmetric] m1_def [symmetric]
    by (auto simp: bindE_eq_Inr split: if_splits)
  then consider "(m', p') = (m, p)" | "(m', p') = (m1, p)"
    | b k where "m' = m1" "py_get (blocks_of m1 (req_id r)) (boundary div block_size m1) = Inr b"
      "cache_partial_block r b boundary (kv_cache_group_id m1) (block_size m1) p = Inr (k, p')" by blast
  then show ?thesis
  proof cases
    case 3
    have "b \<in> set (blocks_of m1 (req_id r))"
      using 3(2) by (auto simp: py_get_def rev_nth split: if_splits)
    then have vb: "valid_block p b" using s1 by (auto simp: sys_inv_def mgr_ok_def)
    have "pool_inv p' xs \<and> same_refs p p'" if "pool_inv p xs" for xs
      using cache_partial_block_inv [OF 3(3) that vb] by blast
    moreover obtain xs where "pool_inv p xs" using s1 by (auto simp: sys_inv_def)
    ultimately show ?thesis using sys_inv_same_refs [OF s1] same_refs_config 3(1) by blast
  qed (use sys s1 in simp_all)
qed

lemma cache_blocks_sys:
  assumes sys: "sys_inv ext (m, p)" and bs: "0 < block_size m" "0 \<le> num_prompt_tokens r" "0 < hash_block_size p"
    and run: "cache_blocks r n ret (m, p) = Inr (m', p')"
  shows "sys_inv ext (m', p') \<and> same_config p p'"
proof -
  have full: "sys_inv ext (m', p') \<and> same_config p p'"
    if "bindE (base_cache_blocks r n ret (m, p)) (\<lambda>(m, p).
            if block_size m = hash_block_size p then Inr (m, p) else cache_partial_tail_block r n (m, p)) = Inr (m', p')"
  proof -
    from that obtain m1 p1 where b: "base_cache_blocks r n ret (m, p) = Inr (m1, p1)"
      and t: "(m', p') = (m1, p1) \<or> cache_partial_tail_block r n (m1, p1) = Inr (m', p')"
      by (auto simp: bindE_eq_Inr split: if_splits)
    have s1: "sys_inv ext (m1, p1)" "same_config p p1" using base_cache_blocks_sys [OF sys b] by auto
    have "block_size m1 = block_size m"
      using b by (auto simp: base_cache_blocks_def Let_def bindE_eq_Inr access_blocks_def set_blocks_def split: if_splits)
    moreover have "hash_block_size p1 = hash_block_size p" using s1(2) by (simp add: same_config_def)
    ultimately show ?thesis
      using t s1 cache_partial_tail_sys [OF s1(1) _ bs(2), of n m' p'] bs same_config_trans [OF s1(2)] by auto
  qed
  show ?thesis
    using run sys full base_cache_blocks_sys [OF sys, of r n ret m' p']
    by (cases "kind m") (auto simp: cache_blocks_def)
qed

lemma take_pending_sys:
  assumes "sys_inv ext (m, p)"
  shows "sys_inv (\<lambda>b. ext b + cow_refs m b) (snd (take_pending_cow_copies m), p)"
proof -
  let ?m = "snd (take_pending_cow_copies m)"
  have refs: "mgr_refs m b = mgr_refs ?m b + cow_refs m b" for b
    by (simp add: mgr_refs_def table_refs_def cow_refs_def take_pending_cow_copies_def blocks_of_def)
  from assms obtain xs where inv: "pool_inv p xs" "mgr_ok p m" "\<forall>b. 0 \<le> ext b" "refs_ok p (\<lambda>b. mgr_refs m b + ext b)"
    by (rule sys_invE)
  show ?thesis
  proof (rule sys_invI [OF inv(1)])
    show "mgr_ok p ?m" using inv(2) by (simp add: mgr_ok_def take_pending_cow_copies_def blocks_of_def)
    show "\<forall>b. 0 \<le> ext b + cow_refs m b" using inv(3) cow_refs_nonneg by (simp add: add_nonneg_nonneg)
    show "refs_ok p (\<lambda>b. mgr_refs ?m b + (ext b + cow_refs m b))"
      using inv(4) by (simp add: refs_ok_def refs algebra_simps)
  qed
qed

section \<open>Fields that no operation changes\<close>

definition same_static :: "mgr \<Rightarrow> mgr \<Rightarrow> bool" where
  "same_static m m' \<longleftrightarrow> kind m' = kind m \<and> spec_block_size m' = spec_block_size m \<and> block_size m' = block_size m
     \<and> mgr_enable_caching m' = mgr_enable_caching m \<and> kv_cache_group_id m' = kv_cache_group_id m
     \<and> cache_hit_alignment_tokens m' = cache_hit_alignment_tokens m \<and> use_eagle m' = use_eagle m
     \<and> max_admission_blocks_per_request m' = max_admission_blocks_per_request m"

lemma same_static_refl [simp]: "same_static m m"
  by (simp add: same_static_def)

lemma same_static_trans: "same_static m m1 \<Longrightarrow> same_static m1 m2 \<Longrightarrow> same_static m m2"
  by (simp add: same_static_def)

lemma same_static_set_blocks [simp]: "same_static m (set_blocks r bs m)" "same_static m (access_blocks r m)"
  by (simp_all add: same_static_def set_blocks_def access_blocks_def)

lemma free_mgr_static: "free_mgr r (m, p) = Inr (m', p') \<Longrightarrow> same_static m m'"
  by (auto simp: free_mgr_def pop_blocks_for_free_def bindE_eq_Inr same_static_def)

lemma remove_blocks_in_range_static: "remove_blocks_in_range r a b (m, p) = Inr (m', p') \<Longrightarrow> same_static m m'"
  by (auto simp: remove_blocks_in_range_def bindE_eq_Inr Let_def split: if_splits prod.splits)

lemma base_remove_skipped_static: "base_remove_skipped_blocks r n (m, p) = Inr (m', p') \<Longrightarrow> same_static m m'"
  unfolding base_remove_skipped_blocks_def prod.case Let_def
  by (cases "get_num_skipped_tokens m n \<le> 0") (auto dest!: remove_blocks_in_range_static intro: same_static_trans [OF same_static_set_blocks(2)])

lemma remove_skipped_blocks_static: "remove_skipped_blocks r n np (m, p) = Inr (m', p') \<Longrightarrow> same_static m m'"
  by (auto simp: remove_skipped_blocks_def Let_def dest: base_remove_skipped_static remove_blocks_in_range_static
      split: mgr_kind.splits option.splits)

lemma base_add_local_static:
  assumes "base_add_local_computed_blocks r ncb nl ne (m, p) = Inr (m', p')"
  shows "same_static m m'"
proof -
  define k where "k = get_num_skipped_tokens m (nl + ne) div block_size m"
  define bs where "bs = (if 0 < k then py_slice_from ncb k else ncb)"
  define T where "T = (if mgr_enable_caching m then touch bs p else bindE (py_assert (bs = [])) (\<lambda>_. Inr p))"
  obtain p1 where "T = Inr p1"
    using assms unfolding base_add_local_computed_blocks_def prod.case Let_def k_def [symmetric] bs_def [symmetric] T_def [symmetric]
    by (auto simp: bindE_eq_Inr)
  with assms show ?thesis
    unfolding base_add_local_computed_blocks_def prod.case Let_def k_def [symmetric] bs_def [symmetric] T_def [symmetric]
    by (auto simp: bindE_eq_Inr same_static_def set_blocks_def split: if_splits)
qed

lemma add_local_static: "add_local_computed_blocks r ncb nl ne (m, p) = Inr (m', p') \<Longrightarrow> same_static m m'"
  by (auto simp: add_local_computed_blocks_def bindE_eq_Inr dest: base_add_local_static split: mgr_kind.splits)

lemma extend_with_new_static: "extend_with_new r n (m, p) = Inr (bs, m', p') \<Longrightarrow> same_static m m'"
  by (auto simp: extend_with_new_def bindE_eq_Inr Let_def same_static_def set_blocks_def split: if_splits)

lemma claim_ring_static: "claim_ring_block r (m, p) = Inr (bs, m', p') \<Longrightarrow> same_static m m'"
  by (auto simp: claim_ring_block_def dest: extend_with_new_static split: if_splits)

lemma allocate_external_static: "allocate_external_computed_blocks r nl ne (m, p) = Inr (m', p') \<Longrightarrow> same_static m m'"
  by (auto simp: allocate_external_computed_blocks_def base_allocate_external_computed_blocks_def bindE_eq_Inr Let_def
      dest: extend_with_new_static claim_ring_static split: mgr_kind.splits if_splits)

lemma redirect_static: "redirect_partial_hit r (m, p) = Inr (bs, m', p') \<Longrightarrow> same_static m m'"
  by (auto simp: redirect_partial_hit_def apply_cow_def bindE_eq_Inr Let_def same_static_def set_blocks_def split: option.splits)

lemma allocate_new_blocks_static:
  assumes "allocate_new_blocks r n (m, p) = Inr (bs, m', p')"
  shows "same_static m m'"
proof (cases "kind m = CircularBuffer")
  case True
  with assms claim_ring_static show ?thesis by (simp add: allocate_new_blocks_def)
next
  case False
  with assms obtain cs m1 p1 where "redirect_partial_hit r (m, p) = Inr (cs, m1, p1)"
    and r2: "m' = access_blocks r m1 \<or> (\<exists>k new. extend_with_new r k (m1, p1) = Inr (new, m', p'))"
    by (fastforce simp: allocate_new_blocks_def base_allocate_new_blocks_def bindE_eq_Inr Let_def split: if_splits)
  from redirect_static [OF this(1)] r2 show ?thesis
    by (auto dest: extend_with_new_static intro: same_static_trans)
qed

lemma cache_blocks_static:
  assumes "cache_blocks r n ret (m, p) = Inr (m', p')"
  shows "same_static m m'"
proof -
  have base: "same_static m m1" if "base_cache_blocks r n ret (m, p) = Inr (m1, p1)" for m1 p1
    using that by (auto simp: base_cache_blocks_def bindE_eq_Inr Let_def same_static_def access_blocks_def set_blocks_def split: if_splits)
  have tail: "same_static m1 m2" if "cache_partial_tail_block r n (m1, p1) = Inr (m2, p2)" for m1 p1 m2 p2
    using that by (auto simp: cache_partial_tail_block_def bindE_eq_Inr Let_def split: if_splits)
  show ?thesis
    using assms by (auto simp: cache_blocks_def bindE_eq_Inr split: mgr_kind.splits if_splits
        dest: base tail intro: same_static_trans)
qed

end
