(* ===== verification/Coordinator.thy ===== *)
theory Coordinator
  imports Manager_Inv Cache_Hit
begin

text \<open>
  \<^verbatim>\<open>vllm/v1/core/kv_cache_coordinator.py\<close>: the coordinator of the KV-cache groups of a model.  It
  owns the block pool and one single-type manager per group.  The record \<open>coord\<close> models the base
  class; the subclass is its \<open>coord_class\<close>.  Groups with a \<open>MambaSpec\<close> are not modelled, so
  \<open>enable_partial_hash_hits\<close>, which only such a group turns on, is false throughout.
\<close>

section \<open>Configuration\<close>

text \<open>
  A KV-cache spec: its class with the class's own fields (\<open>spec_kind\<close>), the block size, and the
  fields that only matter to the equality of specs (\<open>spec_rest\<close>: heads, head size, data type).
\<close>

record kv_spec =
  spec_kind :: mgr_kind
  spec_bs :: int
  spec_rest :: string

record kv_group =
  kv_cache_spec :: kv_spec
  is_eagle_group :: bool

record kv_config =
  num_blocks :: int
  kv_cache_groups :: "kv_group list"
  prefix_cache_retention_interval :: "int option"
  needs_kv_cache_zeroing :: bool

text \<open>\<open>isinstance(spec, FullAttentionSpec)\<close>; \<open>RSWASpec\<close> is a subclass.\<close>

definition is_full_spec :: "kv_spec \<Rightarrow> bool" where
  "is_full_spec s = (case spec_kind s of FullAttention \<Rightarrow> True | RSWA _ \<Rightarrow> True | _ \<Rightarrow> False)"

definition is_sliding_spec :: "kv_spec \<Rightarrow> bool" where
  "is_sliding_spec s = (case spec_kind s of SlidingWindow _ _ \<Rightarrow> True | _ \<Rightarrow> False)"

definition prefix_cacheable :: "kv_spec \<Rightarrow> bool" where
  "prefix_cacheable s \<longleftrightarrow> spec_kind s \<noteq> CircularBuffer"

definition dcp_world_size_for_kv_cache_spec :: "kv_spec \<Rightarrow> int \<Rightarrow> int" where
  "dcp_world_size_for_kv_cache_spec s dcp = (if dcp \<le> 1 then 1 else if is_full_spec s then dcp else 1)"

text \<open>\<open>max_admission_blocks_per_request\<close> of \<open>SlidingWindowSpec\<close> and \<open>ChunkedLocalAttentionSpec\<close>.\<close>

definition swa_max_admission_blocks_per_request :: "int \<Rightarrow> int \<Rightarrow> int \<Rightarrow> int \<Rightarrow> int \<Rightarrow> int" where
  "swa_max_admission_blocks_per_request sliding_window extra_retained_tokens bs max_in_flight_tokens max_model_len =
     cdiv (min (sliding_window - 1 + extra_retained_tokens + max_in_flight_tokens) max_model_len) bs + 1"

definition chunked_max_admission_blocks_per_request :: "int \<Rightarrow> int \<Rightarrow> int \<Rightarrow> int \<Rightarrow> int" where
  "chunked_max_admission_blocks_per_request attention_chunk_size bs max_in_flight_tokens max_model_len =
     cdiv (min (attention_chunk_size + max_in_flight_tokens) max_model_len) bs"

definition get_manager_for_kv_cache_spec :: "kv_spec \<Rightarrow> int \<Rightarrow> int \<Rightarrow> bool \<Rightarrow> int \<Rightarrow> int \<Rightarrow> int \<Rightarrow> bool \<Rightarrow> mgr" where
  "get_manager_for_kv_cache_spec s max_in_flight_tokens max_model_len caching group_id dcp sched_bs zeroing =
     manager_init (spec_kind s) (spec_bs s) True caching group_id sched_bs dcp zeroing
       (case spec_kind s of
          SlidingWindow w extra \<Rightarrow> Some (swa_max_admission_blocks_per_request w extra (spec_bs s) max_in_flight_tokens max_model_len)
        | ChunkedLocal c \<Rightarrow> Some (chunked_max_admission_blocks_per_request c (spec_bs s) max_in_flight_tokens max_model_len)
        | _ \<Rightarrow> None)"

definition validate_prefix_cache_retention_interval :: "int option \<Rightarrow> int \<Rightarrow> kv_config \<Rightarrow> unit res" where
  "validate_prefix_cache_retention_interval retention sched_bs cfg =
     (case retention of
        None \<Rightarrow> Inr ()
      | Some i \<Rightarrow>
          if \<not> list_ex (\<lambda>g. is_sliding_spec (kv_cache_spec g)) (kv_cache_groups cfg)
          then if i = 0 then Inr () else Inl ValueError
          else if i < 0 \<or> i mod sched_bs \<noteq> 0 then Inl ValueError else Inr ())"

section \<open>State\<close>

datatype coord_class = NoPrefixCache | Unitary | Hybrid

text \<open>\<open>SpecGroup\<close>: groups that share a spec and are looked up together.\<close>

record spec_group =
  sg_spec :: kv_spec
  sg_group_ids :: "int list"
  sg_use_eagle :: bool

record coord =
  coord_class :: coord_class
  coord_config :: kv_config
  coord_enable_caching :: bool
  scheduler_block_size :: int
  num_reprefillable_tokens :: int
  block_pool :: pool
  eagle_group_ids :: "int list"
  single_type_managers :: "mgr list"
  retention_interval :: "int option"
  coord_dcp_world_size :: int
  coord_pcp_world_size :: int
  attention_groups :: "spec_group list"

text \<open>The group ids paired with the groups, as \<open>enumerate\<close> does.\<close>

definition enum :: "'a list \<Rightarrow> (int \<times> 'a) list" where
  "enum xs = zip (py_range 0 (int (length xs))) xs"

definition base_eagle_group_ids :: "kv_config \<Rightarrow> bool \<Rightarrow> int list" where
  "base_eagle_group_ids cfg eagle =
     (let ids = map fst (filter (\<lambda>(i, g). is_eagle_group g) (enum (kv_cache_groups cfg)))
      in if eagle \<and> ids = [] then py_range 0 (int (length (kv_cache_groups cfg))) else ids)"

text \<open>\<open>KVCacheCoordinator.__init__\<close>.\<close>

definition base_coord_init ::
    "coord_class \<Rightarrow> kv_config \<Rightarrow> int \<Rightarrow> int \<Rightarrow> bool \<Rightarrow> bool \<Rightarrow> bool \<Rightarrow> bool \<Rightarrow> int \<Rightarrow> int \<Rightarrow> int \<Rightarrow> int \<Rightarrow> int \<Rightarrow> coord res" where
  "base_coord_init cls cfg max_model_len max_in_flight_tokens eagle caching events use_int dcp pcp sched_bs hash_bs num_prefill_lookahead =
     bindE (py_assert (sched_bs mod hash_bs = 0 \<and>
              list_all (\<lambda>g. sched_bs mod spec_bs (kv_cache_spec g) = 0) (kv_cache_groups cfg))) (\<lambda>_.
     bindE (block_pool_init (num_blocks cfg) caching hash_bs events use_int) (\<lambda>p.
     let ids = base_eagle_group_ids cfg eagle in
     if caching \<and> ids \<noteq> [] \<and> sched_bs < num_prefill_lookahead then Inl ValueError
     else
       let managers = map (\<lambda>(i, g). get_manager_for_kv_cache_spec (kv_cache_spec g) max_in_flight_tokens max_model_len
             caching i (dcp_world_size_for_kv_cache_spec (kv_cache_spec g) dcp) sched_bs (needs_kv_cache_zeroing cfg))
             (enum (kv_cache_groups cfg))
       in bindE (validate_prefix_cache_retention_interval (prefix_cache_retention_interval cfg) sched_bs cfg) (\<lambda>_.
          Inr \<lparr>coord_class = cls, coord_config = cfg, coord_enable_caching = caching, scheduler_block_size = sched_bs,
               num_reprefillable_tokens = max 0 (num_prefill_lookahead - 1), block_pool = p, eagle_group_ids = ids,
               single_type_managers = managers, retention_interval = prefix_cache_retention_interval cfg,
               coord_dcp_world_size = dcp, coord_pcp_world_size = pcp, attention_groups = []\<rparr>)))"

text \<open>\<open>UnitaryKVCacheCoordinator.__init__\<close> after the base constructor.\<close>

definition unitary_init :: "int \<Rightarrow> coord \<Rightarrow> coord res" where
  "unitary_init hash_bs c =
     bindE (py_get (single_type_managers c) 0) (\<lambda>m.
     bindE (py_assert (\<not> coord_enable_caching c \<or> hash_bs = block_size m)) (\<lambda>_.
     bindE (py_assert (length (kv_cache_groups (coord_config c)) = 1)) (\<lambda>_.
       Inr (c\<lparr>single_type_managers := (single_type_managers c)[0 := m\<lparr>use_eagle := 0 \<in> set (eagle_group_ids c)\<rparr>]\<rparr>))))"

text \<open>Adding one group to the list of spec groups, in \<open>verify_and_split_kv_cache_groups\<close>.\<close>

fun add_to_spec_groups :: "kv_spec \<Rightarrow> int \<Rightarrow> bool \<Rightarrow> spec_group list \<Rightarrow> spec_group list" where
  "add_to_spec_groups s i eagle [] = [\<lparr>sg_spec = s, sg_group_ids = [i], sg_use_eagle = eagle\<rparr>]"
| "add_to_spec_groups s i eagle (g # gs) =
     (if sg_spec g = s
      then g\<lparr>sg_group_ids := sg_group_ids g @ [i], sg_use_eagle := sg_use_eagle g \<or> eagle\<rparr> # gs
      else g # add_to_spec_groups s i eagle gs)"

text \<open>
  \<open>verify_and_split_kv_cache_groups\<close>.  The manager class is a function of the spec, so the
  assertion that groups with equal specs have the same class holds by construction.
\<close>

definition split_groups :: "kv_group list \<Rightarrow> int list \<Rightarrow> spec_group list" where
  "split_groups groups eagle_ids =
     foldl (\<lambda>gs (i, g). if prefix_cacheable (kv_cache_spec g)
                        then add_to_spec_groups (kv_cache_spec g) i (i \<in> set eagle_ids) gs else gs) [] (enum groups)"

definition verify_and_split_kv_cache_groups :: "coord \<Rightarrow> coord res" where
  "verify_and_split_kv_cache_groups c =
     (let gs = split_groups (kv_cache_groups (coord_config c)) (eagle_group_ids c)
      in bindE (py_assert (gs \<noteq> [])) (\<lambda>_.
         let sorted = filter (\<lambda>g. is_full_spec (sg_spec g)) gs @ filter (\<lambda>g. \<not> is_full_spec (sg_spec g)) gs;
             eagle_members = concat (map sg_group_ids (filter sg_use_eagle sorted))
         in Inr (c\<lparr>attention_groups := sorted,
                  single_type_managers := map (\<lambda>(i, m). if i \<in> set eagle_members then m\<lparr>use_eagle := True\<rparr> else m)
                    (enum (single_type_managers c))\<rparr>)))"

definition hybrid_init :: "int \<Rightarrow> coord \<Rightarrow> coord res" where
  "hybrid_init hash_bs c =
     bindE (py_assert (list_all (\<lambda>(m, g). prefix_cacheable (kv_cache_spec g) \<longrightarrow> block_size m mod hash_bs = 0)
              (zip (single_type_managers c) (kv_cache_groups (coord_config c))))) (\<lambda>_.
     bindE (py_assert (coord_pcp_world_size c = 1)) (\<lambda>_.
     bindE (if 1 < coord_dcp_world_size c
            then py_assert (list_all (\<lambda>g. is_full_spec (kv_cache_spec g)) (kv_cache_groups (coord_config c)))
            else Inr ()) (\<lambda>_.
       verify_and_split_kv_cache_groups (c\<lparr>single_type_managers :=
         map (\<lambda>m. m\<lparr>cache_hit_alignment_tokens := scheduler_block_size c\<rparr>) (single_type_managers c)\<rparr>))))"

definition get_kv_cache_coordinator ::
    "kv_config \<Rightarrow> int \<Rightarrow> int \<Rightarrow> bool \<Rightarrow> bool \<Rightarrow> bool \<Rightarrow> bool \<Rightarrow> int \<Rightarrow> int \<Rightarrow> int \<Rightarrow> int \<Rightarrow> int \<Rightarrow> coord res" where
  "get_kv_cache_coordinator cfg max_model_len max_in_flight_tokens eagle caching events use_int dcp pcp sched_bs hash_bs lookahead =
     (if \<not> caching
      then base_coord_init NoPrefixCache cfg max_model_len max_in_flight_tokens eagle False events use_int dcp pcp sched_bs hash_bs lookahead
      else if length (kv_cache_groups cfg) = 1
      then bindE (base_coord_init Unitary cfg max_model_len max_in_flight_tokens eagle caching events use_int dcp pcp sched_bs hash_bs lookahead)
             (unitary_init hash_bs)
      else bindE (base_coord_init Hybrid cfg max_model_len max_in_flight_tokens eagle caching events use_int dcp pcp sched_bs hash_bs lookahead)
             (hybrid_init hash_bs))"

section \<open>Operations over all managers\<close>

text \<open>
  \<open>for i, manager in enumerate(self.single_type_managers)\<close>: every manager in turn, over the shared
  pool, collecting the results.
\<close>

fun for_mgrs :: "(int \<Rightarrow> mgr \<times> pool \<Rightarrow> ('r \<times> mgr \<times> pool) res) \<Rightarrow> int \<Rightarrow> mgr list \<Rightarrow> pool \<Rightarrow> ('r list \<times> mgr list \<times> pool) res" where
  "for_mgrs f i [] p = Inr ([], [], p)"
| "for_mgrs f i (m # ms) p =
     bindE (f i (m, p)) (\<lambda>(r, m', p').
     bindE (for_mgrs f (i + 1) ms p') (\<lambda>(rs, ms', p''). Inr (r # rs, m' # ms', p'')))"

definition on_coord :: "(int \<Rightarrow> mgr \<times> pool \<Rightarrow> ('r \<times> mgr \<times> pool) res) \<Rightarrow> coord \<Rightarrow> ('r list \<times> coord) res" where
  "on_coord f c = bindE (for_mgrs f 0 (single_type_managers c) (block_pool c)) (\<lambda>(rs, ms, p).
     Inr (rs, c\<lparr>single_type_managers := ms, block_pool := p\<rparr>))"

definition no_result :: "(mgr \<times> pool \<Rightarrow> (mgr \<times> pool) res) \<Rightarrow> mgr \<times> pool \<Rightarrow> (unit \<times> mgr \<times> pool) res" where
  "no_result f s = bindE (f s) (\<lambda>s'. Inr ((), s'))"

definition do_coord :: "(int \<Rightarrow> mgr \<times> pool \<Rightarrow> (mgr \<times> pool) res) \<Rightarrow> coord \<Rightarrow> coord res" where
  "do_coord f c = bindE (on_coord (\<lambda>i. no_result (f i)) c) (\<lambda>(_, c'). Inr c')"

text \<open>The demand of one manager, in \<open>get_num_blocks_to_allocate\<close>.\<close>

definition mgr_demand ::
    "pool \<Rightarrow> string \<Rightarrow> int \<Rightarrow> bref list list \<Rightarrow> int \<Rightarrow> int \<Rightarrow> int \<Rightarrow> bool \<Rightarrow> int \<Rightarrow> mgr \<Rightarrow> int res" where
  "mgr_demand p request_id num_toks new_computed num_encoder_tokens total_computed num_local cap i m =
     (if kind m = CrossAttention
      then get_num_blocks_to_allocate m p request_id num_encoder_tokens [] 0 0 cap
      else bindE (py_get new_computed i) (\<lambda>ncb.
             get_num_blocks_to_allocate m p request_id num_toks ncb total_computed num_local cap))"

definition coord_get_num_blocks_to_allocate ::
    "string \<Rightarrow> int \<Rightarrow> bref list list \<Rightarrow> int \<Rightarrow> int \<Rightarrow> int \<Rightarrow> bool \<Rightarrow> coord \<Rightarrow> int res" where
  "coord_get_num_blocks_to_allocate request_id num_toks new_computed num_encoder_tokens total_computed num_local cap c =
     foldE (\<lambda>(i, m) n. bindE (mgr_demand (block_pool c) request_id num_toks new_computed num_encoder_tokens total_computed
                num_local cap i m) (\<lambda>k. Inr (n + k)))
       (enum (single_type_managers c)) 0"

definition allocate_new_computed_blocks :: "string \<Rightarrow> bref list list \<Rightarrow> int \<Rightarrow> int \<Rightarrow> coord \<Rightarrow> coord res" where
  "allocate_new_computed_blocks request_id new_computed num_local num_external c =
     (if list_ex (\<lambda>m. num_cached_block m request_id \<noteq> None) (single_type_managers c)
      then bindE (py_assert (list_all (\<lambda>bs. bs = []) new_computed)) (\<lambda>_. Inr c)
      else bindE (do_coord (\<lambda>i s. bindE (py_get new_computed i) (\<lambda>ncb.
                add_local_computed_blocks request_id ncb num_local num_external s)) c) (\<lambda>c1.
           if 0 < num_external
           then do_coord (\<lambda>_. allocate_external_computed_blocks request_id num_local num_external) c1
           else Inr c1))"

definition coord_allocate_new_blocks :: "string \<Rightarrow> int \<Rightarrow> int \<Rightarrow> coord \<Rightarrow> (bref list list \<times> coord) res" where
  "coord_allocate_new_blocks request_id num_toks num_encoder_tokens =
     on_coord (\<lambda>_ s. allocate_new_blocks request_id
       (if kind (fst s) = CrossAttention then num_encoder_tokens else num_toks) s)"

definition base_coord_cache_blocks :: "request \<Rightarrow> int \<Rightarrow> coord \<Rightarrow> coord res" where
  "base_coord_cache_blocks r num_computed c =
     do_coord (\<lambda>_. cache_blocks r (max 0 (num_computed - num_reprefillable_tokens c)) (retention_interval c)) c"

text \<open>The number of tokens that \<open>HybridKVCacheCoordinator.cache_blocks\<close> passes to one manager.\<close>

definition hybrid_tokens_to_cache :: "coord \<Rightarrow> int \<Rightarrow> mgr \<Rightarrow> int" where
  "hybrid_tokens_to_cache c num_computed m =
     (let cached = round_down num_computed (scheduler_block_size c)
      in if use_eagle m \<and> 0 < cached
         then let finalized = max 0 (num_computed - num_reprefillable_tokens c)
              in min finalized (round_down finalized (scheduler_block_size c) + block_size m)
         else cached)"

definition coord_cache_blocks :: "request \<Rightarrow> int \<Rightarrow> coord \<Rightarrow> coord res" where
  "coord_cache_blocks r num_computed c =
     (if coord_class c = Hybrid
      then do_coord (\<lambda>_ s. cache_blocks r (hybrid_tokens_to_cache c num_computed (fst s)) (retention_interval c) s) c
      else base_coord_cache_blocks r num_computed c)"

definition coord_free :: "string \<Rightarrow> coord \<Rightarrow> coord res" where
  "coord_free request_id = do_coord (\<lambda>_. free_mgr request_id)"

definition coord_pop_blocks_for_free :: "string \<Rightarrow> coord \<Rightarrow> bref list \<times> coord" where
  "coord_pop_blocks_for_free request_id c =
     (let popped = map (pop_blocks_for_free request_id) (single_type_managers c)
      in (concat (map fst popped), c\<lparr>single_type_managers := map snd popped\<rparr>))"

definition coord_get_num_common_prefix_blocks :: "string \<Rightarrow> coord \<Rightarrow> int list \<times> coord" where
  "coord_get_num_common_prefix_blocks request_id c =
     (if coord_class c = NoPrefixCache then (replicate (length (single_type_managers c)) 0, c)
      else let rs = map (\<lambda>m. get_num_common_prefix_blocks request_id (m, block_pool c)) (single_type_managers c)
           in (map fst rs, c\<lparr>single_type_managers := map snd rs\<rparr>))"

definition coord_remove_skipped_blocks :: "string \<Rightarrow> int \<Rightarrow> int option \<Rightarrow> coord \<Rightarrow> coord res" where
  "coord_remove_skipped_blocks request_id processed num_prompt = do_coord (\<lambda>_. remove_skipped_blocks request_id processed num_prompt)"

definition coord_get_blocks :: "string \<Rightarrow> coord \<Rightarrow> bref list list" where
  "coord_get_blocks request_id c = map (\<lambda>m. blocks_of m request_id) (single_type_managers c)"

section \<open>Prefix-cache lookup\<close>

definition unitary_find_longest_cache_hit :: "bytes list \<Rightarrow> int \<Rightarrow> coord \<Rightarrow> (bref list list \<times> int \<times> int) res" where
  "unitary_find_longest_cache_hit hashes max_length c =
     bindE (py_get (single_type_managers c) 0) (\<lambda>m.
     bindE (py_get (kv_cache_groups (coord_config c)) 0) (\<lambda>g.
     bindE (find_longest_cache_hit (kind m) (RawHashes hashes) max_length [0] (block_pool c) (spec_bs (kv_cache_spec g))
              (0 \<in> set (eagle_group_ids c)) (block_size m)
              (dcp_world_size_for_kv_cache_spec (kv_cache_spec g) (coord_dcp_world_size c)) (coord_pcp_world_size c))
       (\<lambda>(hit_blocks, hit_length). Inr (hit_blocks, hit_length, 0))))"

text \<open>The variables of the fixed-point iteration of \<open>HybridKVCacheCoordinator.find_longest_cache_hit\<close>.\<close>

record hybrid_state =
  hit_blocks_by_group :: "bref list option list"
  hit_length_by_group :: "int list"
  eagle_verified :: "int list"
  longest_hit_length :: int

text \<open>Lookup of one spec group, with the EAGLE margin.\<close>

definition spec_group_lookup :: "coord \<Rightarrow> bytes list \<Rightarrow> int \<Rightarrow> spec_group \<Rightarrow> bool \<Rightarrow> int \<Rightarrow> (bref list list \<times> int) res" where
  "spec_group_lookup c hashes max_hit g drop_eagle curr_hit =
     (let first = hd (sg_group_ids g);
          bs = block_size (single_type_managers c ! nat first);
          max_length = (if drop_eagle then min (curr_hit + bs) max_hit else curr_hit)
      in find_longest_cache_hit (spec_kind (sg_spec g)) (RawHashes hashes) max_length (sg_group_ids g) (block_pool c)
           (spec_bs (sg_spec g)) drop_eagle (scheduler_block_size c)
           (dcp_world_size_for_kv_cache_spec (sg_spec g) (coord_dcp_world_size c)) (coord_pcp_world_size c))"

definition record_hit :: "int list \<Rightarrow> bref list list \<Rightarrow> int \<Rightarrow> hybrid_state \<Rightarrow> hybrid_state" where
  "record_hit gids hit_blocks new_length h =
     h\<lparr>hit_blocks_by_group := foldl (\<lambda>xs (g, bs). xs[nat g := Some bs]) (hit_blocks_by_group h) (zip gids hit_blocks),
       hit_length_by_group := foldl (\<lambda>xs (g, bs). xs[nat g := new_length]) (hit_length_by_group h) (zip gids hit_blocks)\<rparr>"

text \<open>One iteration of the \<open>while\<close> loop: the candidate length through all spec groups.\<close>

fun hybrid_pass :: "coord \<Rightarrow> bytes list \<Rightarrow> int \<Rightarrow> (int \<times> spec_group) list \<Rightarrow> int \<Rightarrow> hybrid_state \<Rightarrow> (int \<times> hybrid_state) res" where
  "hybrid_pass c hashes max_hit [] curr_hit h = Inr (curr_hit, h)"
| "hybrid_pass c hashes max_hit ((idx, g) # gs) curr_hit h =
     (let first = nat (hd (sg_group_ids g)) in
      if is_full_spec (sg_spec g) \<and> hit_blocks_by_group h ! first \<noteq> None
      then hybrid_pass c hashes max_hit gs (min curr_hit (hit_length_by_group h ! first)) h
      else
        let drop_eagle = (sg_use_eagle g \<and> idx \<notin> set (eagle_verified h)) in
        bindE (spec_group_lookup c hashes max_hit g drop_eagle curr_hit) (\<lambda>(hit_blocks, new_length).
          let verified = (if drop_eagle then idx # eagle_verified h
                          else if new_length < curr_hit then [] else eagle_verified h);
              h1 = record_hit (sg_group_ids g) hit_blocks new_length (h\<lparr>eagle_verified := verified\<rparr>);
              h2 = h1\<lparr>longest_hit_length := max (longest_hit_length h1) new_length\<rparr>
          in hybrid_pass c hashes max_hit gs new_length h2))"

partial_function (option) hybrid_loop ::
    "coord \<Rightarrow> bytes list \<Rightarrow> int \<Rightarrow> bool \<Rightarrow> int \<Rightarrow> hybrid_state \<Rightarrow> (int \<times> hybrid_state) res option" where
  "hybrid_loop c hashes max_hit simple hit_length h =
     (case hybrid_pass c hashes max_hit (enum (attention_groups c)) hit_length h of
        Inl e \<Rightarrow> Some (Inl e)
      | Inr (curr_hit, h') \<Rightarrow>
          if hit_length \<le> curr_hit then Some (Inr (hit_length, h'))
          else if simple then Some (Inr (curr_hit, h'))
          else hybrid_loop c hashes max_hit simple curr_hit h')"

text \<open>The truncation of the full-attention groups to the final length.\<close>

definition truncate_full :: "coord \<Rightarrow> int \<Rightarrow> hybrid_state \<Rightarrow> bref list option list" where
  "truncate_full c hit_length h =
     foldl (\<lambda>xs g. if is_full_spec (sg_spec g)
        then let num_blocks = cdiv hit_length (block_size (single_type_managers c ! nat (hd (sg_group_ids g))))
             in foldl (\<lambda>xs i. xs[nat i := map_option (\<lambda>bs. py_slice bs 0 num_blocks) (xs ! nat i)]) xs (sg_group_ids g)
        else xs) (hit_blocks_by_group h) (attention_groups c)"

definition hybrid_find_longest_cache_hit :: "bytes list \<Rightarrow> int \<Rightarrow> coord \<Rightarrow> (bref list list \<times> int \<times> int) res option" where
  "hybrid_find_longest_cache_hit hashes max_hit c =
     (let num_groups = length (kv_cache_groups (coord_config c));
          simple = (length (attention_groups c) = 2 \<and> is_full_spec (sg_spec (hd (attention_groups c))));
          h0 = \<lparr>hit_blocks_by_group = replicate num_groups None, hit_length_by_group = replicate num_groups 0,
                eagle_verified = [], longest_hit_length = 0\<rparr>
      in case hybrid_loop c hashes max_hit simple max_hit h0 of
           None \<Rightarrow> None
         | Some (Inl e) \<Rightarrow> Some (Inl e)
         | Some (Inr (hit_length, h)) \<Rightarrow>
             Some (Inr (map (\<lambda>b. case b of None \<Rightarrow> [] | Some bs \<Rightarrow> bs) (truncate_full c hit_length h),
                        hit_length, longest_hit_length h - hit_length)))"

text \<open>\<open>None\<close> stands for a lookup that does not return.\<close>

definition coord_find_longest_cache_hit :: "bytes list \<Rightarrow> int \<Rightarrow> coord \<Rightarrow> (bref list list \<times> int \<times> int) res option" where
  "coord_find_longest_cache_hit hashes max_length c =
     (case coord_class c of
        NoPrefixCache \<Rightarrow> Some (Inr (replicate (length (single_type_managers c)) [], 0, 0))
      | Unitary \<Rightarrow> Some (unitary_find_longest_cache_hit hashes max_length c)
      | Hybrid \<Rightarrow> hybrid_find_longest_cache_hit hashes max_length c)"

text \<open>\<open>find_longest_cache_hit_per_group\<close>: every spec group on its own.\<close>

definition find_longest_cache_hit_per_group :: "bytes list \<Rightarrow> int \<Rightarrow> coord \<Rightarrow> (bref list list \<times> int list) res" where
  "find_longest_cache_hit_per_group hashes max_hit c =
     (let num_groups = length (kv_cache_groups (coord_config c)) in
      foldE (\<lambda>g (hit_blocks, hit_lengths).
        bindE (find_longest_cache_hit (spec_kind (sg_spec g)) (RawHashes hashes) max_hit (sg_group_ids g) (block_pool c)
                 (spec_bs (sg_spec g)) (sg_use_eagle g) (scheduler_block_size c)
                 (dcp_world_size_for_kv_cache_spec (sg_spec g) (coord_dcp_world_size c)) (coord_pcp_world_size c))
          (\<lambda>(bs, group_hit).
             Inr (foldl (\<lambda>xs (i, b). xs[nat i := b]) hit_blocks (zip (sg_group_ids g) bs),
                  foldl (\<lambda>xs (i, b). xs[nat i := group_hit]) hit_lengths (zip (sg_group_ids g) bs))))
        (attention_groups c) (replicate num_groups [], replicate num_groups 0))"

end
