(* ===== verification/KV_Manager.thy ===== *)
theory KV_Manager
  imports Coordinator
begin

text \<open>
  \<^verbatim>\<open>vllm/v1/core/kv_cache_manager.py\<close>: the KV-cache manager that the scheduler calls.  The state
  is the coordinator (with the block pool and the per-group managers) and the prefix-cache
  statistics.  \<^verbatim>\<open>KVCacheBlocks\<close> is the list of its per-group block lists.  Lookups return an
  option, \<open>None\<close> standing for one that does not return.  Not modelled: the Mamba-specific
  \<open>take_boundary_state_offloads\<close> and the Mamba branch of \<open>get_computed_blocks_for_connector\<close>.
\<close>

section \<open>\<^verbatim>\<open>KVCacheBlocks\<close>\<close>

definition kv_blocks_add :: "bref list list \<Rightarrow> bref list list \<Rightarrow> bref list list" where
  "kv_blocks_add a b = map2 (@) a b"

fun block_id :: "bref \<Rightarrow> int" where
  "block_id (Blk n) = int n"
| "block_id _ = - 1"

definition get_block_ids :: "bool \<Rightarrow> bref list list \<Rightarrow> int list list option" where
  "get_block_ids allow_none bs =
     (if allow_none \<and> list_all (\<lambda>g. g = []) bs then None else Some (map (map block_id) bs))"

definition get_unhashed_block_ids :: "pool \<Rightarrow> bref list list \<Rightarrow> int list res" where
  "get_unhashed_block_ids p bs =
     bindE (py_assert (length bs = 1)) (\<lambda>_.
       Inr (map block_id (filter (\<lambda>b. block_hash (blocks p b) = None) (bs ! 0))))"

definition get_unhashed_block_ids_all_groups :: "pool \<Rightarrow> bref list list \<Rightarrow> int list list" where
  "get_unhashed_block_ids_all_groups p bs =
     map (\<lambda>g. map block_id (filter (\<lambda>b. block_hash (blocks p b) = None \<and> \<not> is_null (blocks p b)) g)) bs"

definition new_empty :: "bref list list \<Rightarrow> bref list list" where
  "new_empty bs = replicate (length bs) []"

section \<open>State\<close>

record prefix_stats =
  stats_reset :: bool
  requests :: int
  queries :: int
  hits :: int
  preempted_requests :: int
  preempted_queries :: int
  preempted_hits :: int

definition empty_stats :: prefix_stats where
  "empty_stats = \<lparr>stats_reset = False, requests = 0, queries = 0, hits = 0,
     preempted_requests = 0, preempted_queries = 0, preempted_hits = 0\<rparr>"

definition stats_record :: "int \<Rightarrow> int \<Rightarrow> bool \<Rightarrow> prefix_stats \<Rightarrow> prefix_stats" where
  "stats_record num_toks num_hits preempted s =
     (if preempted
      then s\<lparr>preempted_requests := preempted_requests s + 1, preempted_queries := preempted_queries s + num_toks,
             preempted_hits := preempted_hits s + num_hits\<rparr>
      else s\<lparr>requests := requests s + 1, queries := queries s + num_toks, hits := hits s + num_hits\<rparr>)"

record kvm =
  max_model_len :: int
  kvm_enable_caching :: bool
  kvm_enable_kv_cache_events :: bool
  log_stats :: bool
  prefix_cache_stats :: "prefix_stats option"
  coordinator :: coord
  watermark_blocks :: int
  kv_cache_event_metadata :: "(string \<times> int option) list"

text \<open>
  The constructor.  \<open>watermark_blocks\<close> is \<open>int(watermark * num_blocks)\<close> for a non-negative float
  \<open>watermark\<close>; \<open>metadata\<close> the pairs of spec kind and sliding window of the groups.
\<close>

definition kv_cache_manager_init ::
    "kv_config \<Rightarrow> int \<Rightarrow> int \<Rightarrow> int \<Rightarrow> int option \<Rightarrow> bool \<Rightarrow> bool \<Rightarrow> int \<Rightarrow> bool \<Rightarrow> bool \<Rightarrow> bool \<Rightarrow> int \<Rightarrow> int \<Rightarrow> int
      \<Rightarrow> (string \<times> int option) list \<Rightarrow> kvm res" where
  "kv_cache_manager_init cfg max_len sched_bs hash_bs in_flight caching eagle lookahead stats events use_int dcp pcp watermark metadata =
     bindE (get_kv_cache_coordinator cfg max_len (case in_flight of None \<Rightarrow> max_len | Some n \<Rightarrow> n) eagle caching events use_int
              dcp pcp sched_bs hash_bs lookahead) (\<lambda>c.
     bindE (py_assert (0 \<le> watermark)) (\<lambda>_.
       Inr \<lparr>max_model_len = max_len, kvm_enable_caching = caching, kvm_enable_kv_cache_events = events, log_stats = stats,
            prefix_cache_stats = (if stats then Some empty_stats else None), coordinator = c,
            watermark_blocks = watermark, kv_cache_event_metadata = metadata\<rparr>))"

definition num_kv_cache_groups :: "kvm \<Rightarrow> nat" where
  "num_kv_cache_groups k = length (kv_cache_groups (coord_config (coordinator k)))"

definition empty_kv_cache_blocks :: "kvm \<Rightarrow> bref list list" where
  "empty_kv_cache_blocks k = replicate (num_kv_cache_groups k) []"

definition create_kv_cache_blocks :: "kvm \<Rightarrow> bref list list \<Rightarrow> bref list list" where
  "create_kv_cache_blocks k bs = (if list_ex (\<lambda>g. g \<noteq> []) bs then bs else empty_kv_cache_blocks k)"

definition on_pool :: "(pool \<Rightarrow> pool) \<Rightarrow> kvm \<Rightarrow> kvm" where
  "on_pool f k = k\<lparr>coordinator := (coordinator k)\<lparr>block_pool := f (block_pool (coordinator k))\<rparr>\<rparr>"

definition kvm_pool :: "kvm \<Rightarrow> pool" where
  "kvm_pool k = block_pool (coordinator k)"

section \<open>Statistics and lookups\<close>

definition make_prefix_cache_stats :: "kvm \<Rightarrow> prefix_stats option \<times> kvm" where
  "make_prefix_cache_stats k =
     (if \<not> log_stats k then (None, k) else (prefix_cache_stats k, k\<lparr>prefix_cache_stats := Some empty_stats\<rparr>))"

definition prefix_cache_lookup_enabled :: "kvm \<Rightarrow> request \<Rightarrow> bool" where
  "prefix_cache_lookup_enabled k r \<longleftrightarrow> kvm_enable_caching k \<and> \<not> skip_reading_prefix_cache r"

definition record_prefix_cache_stats :: "request \<Rightarrow> int \<Rightarrow> int \<Rightarrow> kvm \<Rightarrow> kvm res" where
  "record_prefix_cache_stats r num_preemptions num_hits k =
     (if \<not> log_stats k \<or> \<not> prefix_cache_lookup_enabled k r then Inr k
      else case prefix_cache_stats k of
             None \<Rightarrow> Inl AssertionError
           | Some s \<Rightarrow> Inr (k\<lparr>prefix_cache_stats := Some (stats_record (num_tokens r) num_hits (0 < num_preemptions) s)\<rparr>))"

definition emit_hit_events :: "request \<Rightarrow> bref list list \<Rightarrow> kvm \<Rightarrow> kvm res" where
  "emit_hit_events r computed k =
     foldE (\<lambda>(i, bs) k. if bs = [] then Inr k
        else bindE (py_get (kv_cache_groups (coord_config (coordinator k))) i) (\<lambda>g.
             bindE (emit_cached_block_events r (int (length bs)) (spec_bs (kv_cache_spec g)) i (kvm_pool k)) (\<lambda>p.
               Inr (on_pool (\<lambda>_. p) k)))) (enum computed) k"

definition get_computed_blocks :: "request \<Rightarrow> kvm \<Rightarrow> ((bref list list \<times> int \<times> int) \<times> kvm) res option" where
  "get_computed_blocks r k =
     (if \<not> prefix_cache_lookup_enabled k r then Some (Inr ((empty_kv_cache_blocks k, 0, 0), k))
      else case coord_find_longest_cache_hit (block_hashes r) (num_tokens r - 1) (coordinator k) of
             None \<Rightarrow> None
           | Some m \<Rightarrow> Some (bindE m (\<lambda>(computed, num_new_computed, num_uncached).
               bindE (if 0 < num_new_computed \<and> kvm_enable_kv_cache_events k \<and> kv_cache_report_full r
                      then emit_hit_events r computed k else Inr k) (\<lambda>k1.
               Inr ((create_kv_cache_blocks k1 computed, num_new_computed,
                     if num_uncached \<noteq> 0 then num_new_computed + num_uncached else 0), k1)))))"

text \<open>Without Mamba layers \<open>get_computed_blocks_for_connector\<close> is the lookup with \<open>hit_diverged = False\<close>.\<close>

definition get_computed_blocks_for_connector ::
    "request \<Rightarrow> kvm \<Rightarrow> ((bref list list \<times> int \<times> int \<times> bool) \<times> kvm) res option" where
  "get_computed_blocks_for_connector r k =
     (case get_computed_blocks r k of
        None \<Rightarrow> None
      | Some m \<Rightarrow> Some (bindE m (\<lambda>((bs, n, boundary), k'). Inr ((bs, n, boundary, False), k'))))"

section \<open>Allocation\<close>

text \<open>
  \<open>allocate_slots\<close>.  \<open>new_computed = None\<close> stands for an absent argument and for the shared empty
  value \<open>empty_kv_cache_blocks\<close>, which the code recognises by identity.  The result \<open>None\<close> means
  that the request does not fit.
\<close>

definition fits_full_sequence :: "request \<Rightarrow> bref list list \<Rightarrow> int \<Rightarrow> int \<Rightarrow> int \<Rightarrow> int \<Rightarrow> kvm \<Rightarrow> bool res" where
  "fits_full_sequence r new_computed num_encoder_tokens total_computed num_local watermark k =
     bindE (coord_get_num_blocks_to_allocate (req_id r) (min (num_tokens r) (max_model_len k)) new_computed num_encoder_tokens
              total_computed num_local True (coordinator k)) (\<lambda>n.
       Inr (n + watermark \<le> get_num_free_blocks (kvm_pool k)))"

definition allocate_and_cache ::
    "request \<Rightarrow> int \<Rightarrow> bref list list option \<Rightarrow> bref list list \<Rightarrow> int \<Rightarrow> int \<Rightarrow> int \<Rightarrow> int \<Rightarrow> int \<Rightarrow> bool \<Rightarrow> kvm
      \<Rightarrow> (bref list list option \<times> kvm) res" where
  "allocate_and_cache r num_new new_computed new_computed_list num_need_slot total_computed num_local num_external num_encoder_tokens
     delay_cache k =
     bindE (if new_computed \<noteq> None \<or> 0 < num_external
            then allocate_new_computed_blocks (req_id r) new_computed_list num_local num_external (coordinator k)
            else Inr (coordinator k)) (\<lambda>c1.
     bindE (coord_allocate_new_blocks (req_id r) num_need_slot num_encoder_tokens c1) (\<lambda>(new_blocks, c2).
     if \<not> kvm_enable_caching k \<or> delay_cache
     then Inr (Some (create_kv_cache_blocks k new_blocks), k\<lparr>coordinator := c2\<rparr>)
     else bindE (coord_cache_blocks r (min (total_computed + num_new) (num_tokens r)) c2) (\<lambda>c3.
            Inr (Some (create_kv_cache_blocks k new_blocks), k\<lparr>coordinator := c3\<rparr>))))"

definition allocate_slots ::
    "request \<Rightarrow> int \<Rightarrow> int \<Rightarrow> bref list list option \<Rightarrow> int \<Rightarrow> int \<Rightarrow> bool \<Rightarrow> int \<Rightarrow> bool \<Rightarrow> int \<Rightarrow> bool \<Rightarrow> kvm
      \<Rightarrow> (bref list list option \<times> kvm) res" where
  "allocate_slots r num_new num_new_computed new_computed num_lookahead num_external delay_cache num_encoder_tokens
     full_sequence_must_fit reserved_blocks has_scheduled_reqs k =
     (if num_new = 0 \<and> num_external = 0 then Inl ValueError
      else
        let new_computed_list = (case new_computed of None \<Rightarrow> empty_kv_cache_blocks k | Some bs \<Rightarrow> bs);
            num_local = num_computed_tokens r + num_new_computed;
            total_computed = min (num_local + num_external) (max_model_len k);
            watermark = (if has_scheduled_reqs \<and> (status r = WAITING \<or> status r = PREEMPTED) then watermark_blocks k else 0)
        in bindE (if full_sequence_must_fit
                  then fits_full_sequence r new_computed_list num_encoder_tokens total_computed num_local watermark k
                  else Inr True) (\<lambda>fits.
           if \<not> fits then Inr (None, k)
           else
             let num_main = total_computed + num_new;
                 num_need_slot = min (num_main + num_lookahead) (max_model_len k)
             in bindE (coord_remove_skipped_blocks (req_id r) (max 0 (total_computed - num_in_flight_tokens r))
                         (Some (num_prompt_tokens r)) (coordinator k)) (\<lambda>c1.
                let k1 = k\<lparr>coordinator := c1\<rparr> in
                bindE (coord_get_num_blocks_to_allocate (req_id r) num_need_slot new_computed_list num_encoder_tokens
                         (num_local + num_external) num_local False c1) (\<lambda>n.
                if get_num_free_blocks (kvm_pool k1) - reserved_blocks < n + watermark then Inr (None, k1)
                else allocate_and_cache r num_new new_computed new_computed_list num_need_slot total_computed num_local
                       num_external num_encoder_tokens delay_cache k1))))"

section \<open>Freeing and cache control\<close>

definition on_coordinator :: "(coord \<Rightarrow> coord res) \<Rightarrow> kvm \<Rightarrow> kvm res" where
  "on_coordinator f k = bindE (f (coordinator k)) (\<lambda>c. Inr (k\<lparr>coordinator := c\<rparr>))"

definition kvm_free :: "request \<Rightarrow> kvm \<Rightarrow> kvm res" where
  "kvm_free r = on_coordinator (coord_free (req_id r))"

definition kvm_remove_skipped_blocks :: "string \<Rightarrow> int \<Rightarrow> int option \<Rightarrow> kvm \<Rightarrow> kvm res" where
  "kvm_remove_skipped_blocks request_id processed num_prompt = on_coordinator (coord_remove_skipped_blocks request_id processed num_prompt)"

definition kvm_pop_blocks_for_free :: "request \<Rightarrow> kvm \<Rightarrow> bref list \<times> kvm" where
  "kvm_pop_blocks_for_free r k =
     (let (bs, c) = coord_pop_blocks_for_free (req_id r) (coordinator k) in (bs, k\<lparr>coordinator := c\<rparr>))"

definition kvm_evict_blocks :: "int list \<Rightarrow> kvm \<Rightarrow> kvm res" where
  "kvm_evict_blocks ids k = bindE (evict_blocks ids (kvm_pool k)) (\<lambda>p. Inr (on_pool (\<lambda>_. p) k))"

definition kvm_reset_prefix_cache :: "kvm \<Rightarrow> (bool \<times> kvm) res" where
  "kvm_reset_prefix_cache k =
     (let (ok, p) = reset_prefix_cache (kvm_pool k); k1 = on_pool (\<lambda>_. p) k
      in if \<not> ok then Inr (False, k1)
         else if log_stats k1
         then case prefix_cache_stats k1 of
                None \<Rightarrow> Inl AssertionError
              | Some s \<Rightarrow> Inr (True, k1\<lparr>prefix_cache_stats := Some (s\<lparr>stats_reset := True\<rparr>)\<rparr>)
         else Inr (True, k1))"

definition kvm_cache_blocks :: "request \<Rightarrow> int \<Rightarrow> kvm \<Rightarrow> kvm res" where
  "kvm_cache_blocks r num_computed k =
     (if kvm_enable_caching k then on_coordinator (coord_cache_blocks r num_computed) k else Inr k)"

definition kvm_get_num_common_prefix_blocks :: "string \<Rightarrow> kvm \<Rightarrow> int list \<times> kvm" where
  "kvm_get_num_common_prefix_blocks request_id k =
     (let (ns, c) = coord_get_num_common_prefix_blocks request_id (coordinator k) in (ns, k\<lparr>coordinator := c\<rparr>))"

text \<open>\<open>take_events\<close>: a stored-block event of a known group is annotated with the group's metadata.\<close>

definition annotate_event :: "(string \<times> int option) list \<Rightarrow> kv_event \<Rightarrow> kv_event \<times> (string \<times> int option) option" where
  "annotate_event metadata e =
     (case e of
        BlockStored _ _ _ _ _ _ _ g \<Rightarrow> (e, if 0 \<le> g \<and> g < int (length metadata) then Some (metadata ! nat g) else None)
      | _ \<Rightarrow> (e, None))"

definition kvm_take_events :: "kvm \<Rightarrow> (kv_event \<times> (string \<times> int option) option) list \<times> kvm" where
  "kvm_take_events k =
     (let (es, p) = take_events (kvm_pool k)
      in (map (annotate_event (kv_cache_event_metadata k)) es, on_pool (\<lambda>_. p) k))"

section \<open>Views of a request's blocks\<close>

definition kvm_get_blocks :: "string \<Rightarrow> kvm \<Rightarrow> bref list list" where
  "kvm_get_blocks request_id k = create_kv_cache_blocks k (coord_get_blocks request_id (coordinator k))"

definition kvm_get_block_ids :: "string \<Rightarrow> kvm \<Rightarrow> int list list" where
  "kvm_get_block_ids request_id k = map (map block_id) (kvm_get_blocks request_id k)"

definition get_block_ids_for_computed_tokens :: "string \<Rightarrow> int \<Rightarrow> kvm \<Rightarrow> int list list" where
  "get_block_ids_for_computed_tokens request_id num_computed k =
     map2 (\<lambda>g ids. if spec_kind (kv_cache_spec g) = CrossAttention then ids
                   else py_slice ids 0 (cdiv num_computed (spec_bs (kv_cache_spec g))))
       (kv_cache_groups (coord_config (coordinator k))) (kvm_get_block_ids request_id k)"

definition group_cached_tokens :: "pool \<Rightarrow> bref list \<Rightarrow> int" where
  "group_cached_tokens p bs =
     foldl (\<lambda>n b. max n (case block_hash_num_tokens (blocks p b) of None \<Rightarrow> 0 | Some t \<Rightarrow> t)) 0 bs"

definition estimate_cached_tokens :: "request \<Rightarrow> kvm \<Rightarrow> int" where
  "estimate_cached_tokens r k =
     (let cached = foldl (\<lambda>acc (g, bs).
          if spec_kind (kv_cache_spec g) = CrossAttention then acc
          else Some (case acc of None \<Rightarrow> group_cached_tokens (kvm_pool k) bs
                               | Some n \<Rightarrow> min n (group_cached_tokens (kvm_pool k) bs))) None
          (zip (kv_cache_groups (coord_config (coordinator k))) (kvm_get_blocks (req_id r) k))
      in case cached of None \<Rightarrow> 0 | Some n \<Rightarrow> n)"

definition truncate_group :: "int \<Rightarrow> bref list \<Rightarrow> mgr \<Rightarrow> kv_group \<Rightarrow> bref list res" where
  "truncate_group num_computed bs m g =
     (if \<not> prefix_cacheable (kv_cache_spec g) then bindE (py_assert (bs = [])) (\<lambda>_. Inr [])
      else bindE (py_assert (num_computed mod block_size m = 0)) (\<lambda>_.
           let n = num_computed div block_size m
           in bindE (py_assert (n \<le> int (length bs))) (\<lambda>_. Inr (py_slice bs 0 n))))"

text \<open>\<open>zip(\<dots>, strict=True)\<close> raises \<open>ValueError\<close> for lists of different lengths.\<close>

definition truncate_computed_blocks :: "bref list list \<Rightarrow> int \<Rightarrow> kvm \<Rightarrow> bref list list res" where
  "truncate_computed_blocks bs num_computed k =
     (let ms = single_type_managers (coordinator k); gs = kv_cache_groups (coord_config (coordinator k))
      in bindE (mapE (\<lambda>(b, m, g). truncate_group num_computed b m g) (zip bs (zip ms gs))) (\<lambda>truncated.
         if length bs = length ms \<and> length ms = length gs then Inr (create_kv_cache_blocks k truncated)
         else Inl ValueError))"

section \<open>Zeroing and copies\<close>

definition on_managers :: "(mgr \<Rightarrow> 'r list \<times> mgr) \<Rightarrow> kvm \<Rightarrow> 'r list \<times> kvm" where
  "on_managers f k =
     (let rs = map f (single_type_managers (coordinator k))
      in (concat (map fst rs), k\<lparr>coordinator := (coordinator k)\<lparr>single_type_managers := map snd rs\<rparr>\<rparr>))"

definition kvm_take_new_block_ids :: "kvm \<Rightarrow> int list \<times> kvm" where
  "kvm_take_new_block_ids = on_managers (\<lambda>m. let (ids, m') = take_new_block_ids m in (map block_id ids, m'))"

definition get_zeroing_block_ids_in_range :: "string \<Rightarrow> int \<Rightarrow> int \<Rightarrow> kvm \<Rightarrow> int list \<times> kvm" where
  "get_zeroing_block_ids_in_range request_id start_token end_token =
     on_managers (\<lambda>m. if record_new_block_ids m
       then (map block_id (py_slice (blocks_of m request_id) (start_token div block_size m) (cdiv end_token (block_size m))),
             access_blocks request_id m)
       else ([], m))"

definition record_blocks_for_zeroing :: "string \<Rightarrow> int \<Rightarrow> kvm \<Rightarrow> kvm res" where
  "record_blocks_for_zeroing request_id start_token k =
     bindE (mapE (\<lambda>m. if record_new_block_ids m
         then bindE (py_assert (start_token mod block_size m = 0)) (\<lambda>_.
              let m1 = access_blocks request_id m
              in Inr (m1\<lparr>new_block_ids := new_block_ids m1 @ py_slice_from (blocks_of m1 request_id) (start_token div block_size m1)\<rparr>))
         else Inr m) (single_type_managers (coordinator k))) (\<lambda>ms.
       Inr (k\<lparr>coordinator := (coordinator k)\<lparr>single_type_managers := ms\<rparr>\<rparr>))"

definition take_kv_cache_block_copies :: "kvm \<Rightarrow> ((int \<times> int) list \<times> bref list) \<times> kvm" where
  "take_kv_cache_block_copies k =
     (let (pending, k') = on_managers take_pending_cow_copies k
      in ((map (\<lambda>(s, c). (block_id s, block_id c)) pending, concat (map (\<lambda>(s, c). [s, c]) pending)), k'))"

end
