(* ===== verification/Coordinator_Inv.thy ===== *)
theory Coordinator_Inv
  imports KV_Manager
begin

text \<open>
  Reference accounting over all managers of a pool.  The contract of a manager operation is a
  locale: the operation keeps the accounting of its manager, and, where it may allocate, states
  a cost in free blocks that is enough for it to succeed.  The loop of the coordinator over all
  managers then keeps the accounting of all of them, and succeeds when the costs add up to no
  more than the free blocks.  Every operation of the managers is an instance.
\<close>

section \<open>The invariant of a set of managers\<close>

definition all_refs :: "mgr list \<Rightarrow> bref \<Rightarrow> int" where
  "all_refs ms b = sum_list (map (\<lambda>m. mgr_refs m b) ms)"

definition mgrs_inv :: "(bref \<Rightarrow> int) \<Rightarrow> mgr list \<Rightarrow> pool \<Rightarrow> bool" where
  "mgrs_inv ext ms p \<longleftrightarrow> (\<exists>xs. pool_inv p xs) \<and> (\<forall>m \<in> set ms. mgr_ok p m) \<and> (\<forall>b. 0 \<le> ext b)
     \<and> refs_ok p (\<lambda>b. all_refs ms b + ext b)"

lemma all_refs_simps [simp]:
  "all_refs [] b = 0" "all_refs (m # ms) b = mgr_refs m b + all_refs ms b"
  "all_refs (ms @ ns) b = all_refs ms b + all_refs ns b"
  by (simp_all add: all_refs_def)

lemma mgr_refs_nonneg: "0 \<le> mgr_refs m b"
  by (simp add: mgr_refs_def table_refs_def cow_refs_def sum_nonneg)

lemma all_refs_nonneg: "0 \<le> all_refs ms b"
  by (induction ms) (simp_all add: mgr_refs_nonneg add_nonneg_nonneg)

text \<open>One manager seen alone: the others' references are external to it.\<close>

lemma mgrs_inv_focus:
  "mgrs_inv ext (ms @ m # ns) p \<longleftrightarrow>
     sys_inv (\<lambda>b. all_refs (ms @ ns) b + ext b) (m, p) \<and> (\<forall>b. 0 \<le> ext b) \<and> (\<forall>n \<in> set (ms @ ns). mgr_ok p n)"
proof -
  have "refs_ok p (\<lambda>b. all_refs (ms @ m # ns) b + ext b) = refs_ok p (\<lambda>b. mgr_refs m b + (all_refs (ms @ ns) b + ext b))"
    by (simp add: algebra_simps)
  moreover have "(\<forall>b. 0 \<le> ext b) \<longrightarrow> (\<forall>b. 0 \<le> all_refs (ms @ ns) b + ext b)"
    using all_refs_nonneg [of "ms @ ns"] by (simp add: add_nonneg_nonneg)
  ultimately show ?thesis by (auto simp: mgrs_inv_def sys_inv_def)
qed

lemma mgrs_inv_step:
  assumes inv: "mgrs_inv ext (ms @ m # ns) p"
    and step: "\<And>e. sys_inv e (m, p) \<Longrightarrow> sys_inv e (m', p') \<and> same_config p p'"
  shows "mgrs_inv ext (ms @ m' # ns) p'" and "same_config p p'"
proof -
  note f = inv [unfolded mgrs_inv_focus]
  have s: "sys_inv (\<lambda>b. all_refs (ms @ ns) b + ext b) (m', p')" and sc: "same_config p p'" using step f by blast+
  show "mgrs_inv ext (ms @ m' # ns) p'"
    unfolding mgrs_inv_focus using s f mgr_ok_config [OF sc] by blast
  show "same_config p p'" by (rule sc)
qed

lemma mgrs_inv_member: "mgrs_inv ext ms p \<Longrightarrow> m \<in> set ms \<Longrightarrow> \<exists>e. sys_inv e (m, p)"
  by (metis mgrs_inv_focus split_list)

section \<open>The contract of a manager operation\<close>

locale mgr_op =
  fixes op :: "int \<Rightarrow> mgr \<times> pool \<Rightarrow> ('r \<times> mgr \<times> pool) res" and guard :: "int \<Rightarrow> pool \<Rightarrow> mgr \<Rightarrow> bool"
  assumes keeps: "\<lbrakk>sys_inv ext (m, p); guard i p m; op i (m, p) = Inr (r, m', p')\<rbrakk> \<Longrightarrow>
      sys_inv ext (m', p') \<and> same_config p p'"
    and guard_config: "same_config p p' \<Longrightarrow> guard i p m \<Longrightarrow> guard i p' m"
begin

lemma for_mgrs_keeps:
  "\<lbrakk>mgrs_inv ext (ns @ ms) p; \<And>j. j < length ms \<Longrightarrow> guard (i + int j) p (ms ! j);
    for_mgrs op i ms p = Inr (rs, ms', p')\<rbrakk> \<Longrightarrow>
   mgrs_inv ext (ns @ ms') p' \<and> same_config p p' \<and> length ms' = length ms \<and> length rs = length ms"
proof (induction ms arbitrary: ns i p rs ms' p')
  case (Cons m ms)
  from Cons.prems(3) obtain r m1 p1 rs1 ms1 where op: "op i (m, p) = Inr (r, m1, p1)"
    and rest: "for_mgrs op (i + 1) ms p1 = Inr (rs1, ms1, p')" and eq: "rs = r # rs1" "ms' = m1 # ms1"
    by (auto simp: bindE_eq_Inr)
  have g: "guard i p m" using Cons.prems(2) [of 0] by simp
  have inv1: "mgrs_inv ext (ns @ m1 # ms) p1" and sc: "same_config p p1"
    by (rule mgrs_inv_step [OF Cons.prems(1)], rule keeps [OF _ g op], assumption)+
  have "guard (i + 1 + int j) p1 (ms ! j)" if "j < length ms" for j
    using guard_config [OF sc Cons.prems(2) [of "Suc j"]] that by (simp add: algebra_simps)
  from Cons.IH [OF _ this rest, of "ns @ [m1]"] inv1 same_config_trans [OF sc] show ?case by (simp add: eq)
qed auto

text \<open>What every single step did, with the accounting of its manager at that moment.\<close>

lemma for_mgrs_steps:
  "\<lbrakk>mgrs_inv ext (ns @ ms) p; \<And>j. j < length ms \<Longrightarrow> guard (i + int j) p (ms ! j);
    for_mgrs op i ms p = Inr (rs, ms', p'); k < length ms\<rbrakk> \<Longrightarrow>
   \<exists>e q q'. sys_inv e (ms ! k, q) \<and> same_config p q \<and> op (i + int k) (ms ! k, q) = Inr (rs ! k, ms' ! k, q')"
proof (induction ms arbitrary: ns i p rs ms' k)
  case (Cons m ms)
  from Cons.prems(3) obtain r m1 p1 rs1 ms1 where op: "op i (m, p) = Inr (r, m1, p1)"
    and rest: "for_mgrs op (i + 1) ms p1 = Inr (rs1, ms1, p')" and eq: "rs = r # rs1" "ms' = m1 # ms1"
    by (auto simp: bindE_eq_Inr)
  have g: "guard i p m" using Cons.prems(2) [of 0] by simp
  have inv1: "mgrs_inv ext (ns @ m1 # ms) p1" and sc: "same_config p p1"
    by (rule mgrs_inv_step [OF Cons.prems(1)], rule keeps [OF _ g op], assumption)+
  show ?case
  proof (cases k)
    case 0
    with op Cons.prems(1) show ?thesis by (auto simp: eq mgrs_inv_focus intro!: exI)
  next
    case (Suc l)
    have "guard (i + 1 + int j) p1 (ms ! j)" if "j < length ms" for j
      using guard_config [OF sc Cons.prems(2) [of "Suc j"]] that by (simp add: algebra_simps)
    from Cons.IH [OF _ this rest, of "ns @ [m1]" l] inv1 Cons.prems(4) Suc
    obtain e q q' where "sys_inv e (ms ! l, q)" "same_config p1 q" "op (i + 1 + int l) (ms ! l, q) = Inr (rs1 ! l, ms1 ! l, q')"
      by auto
    with same_config_trans [OF sc] Suc show ?thesis by (auto simp: eq algebra_simps)
  qed
qed simp

end

definition total_cost :: "(int \<Rightarrow> pool \<Rightarrow> mgr \<Rightarrow> int) \<Rightarrow> int \<Rightarrow> pool \<Rightarrow> mgr list \<Rightarrow> int" where
  "total_cost cost i p ms = (\<Sum>j<length ms. cost (i + int j) p (ms ! j))"

lemma total_cost_Cons: "total_cost cost i p (m # ms) = cost i p m + total_cost cost (i + 1) p ms"
  unfolding total_cost_def by (simp add: sum.lessThan_Suc_shift algebra_simps del: sum.lessThan_Suc)

text \<open>An operation that succeeds when its cost is covered by the free blocks.\<close>

locale mgr_alloc = mgr_op op guard
  for op :: "int \<Rightarrow> mgr \<times> pool \<Rightarrow> ('r \<times> mgr \<times> pool) res" and guard :: "int \<Rightarrow> pool \<Rightarrow> mgr \<Rightarrow> bool" +
  fixes cost :: "int \<Rightarrow> pool \<Rightarrow> mgr \<Rightarrow> int"
  assumes runs: "\<lbrakk>sys_inv ext (m, p); guard i p m; cost i p m \<le> get_num_free_blocks p\<rbrakk> \<Longrightarrow>
      \<exists>r m' p'. op i (m, p) = Inr (r, m', p') \<and> get_num_free_blocks p - cost i p m \<le> get_num_free_blocks p'"
    and cost_nonneg: "guard i p m \<Longrightarrow> 0 \<le> cost i p m"
    and cost_later: "\<lbrakk>sys_inv ext (m, p); guard i p m; op i (m, p) = Inr (r, m', p')\<rbrakk> \<Longrightarrow> cost j p' n \<le> cost j p n"
begin

lemma for_mgrs_runs:
  "\<lbrakk>mgrs_inv ext (ns @ ms) p; \<And>j. j < length ms \<Longrightarrow> guard (i + int j) p (ms ! j);
    total_cost cost i p ms \<le> get_num_free_blocks p\<rbrakk> \<Longrightarrow>
   \<exists>rs ms' p'. for_mgrs op i ms p = Inr (rs, ms', p')
     \<and> get_num_free_blocks p - total_cost cost i p ms \<le> get_num_free_blocks p'"
proof (induction ms arbitrary: ns i p)
  case Nil
  then show ?case by (simp add: total_cost_def)
next
  case (Cons m ms)
  have g: "guard i p m" using Cons.prems(2) [of 0] by simp
  have nonneg: "0 \<le> total_cost cost (i + 1) p ms"
    unfolding total_cost_def
  proof (rule sum_nonneg)
    fix j assume "j \<in> {..<length ms}"
    then show "0 \<le> cost (i + 1 + int j) p (ms ! j)"
      using cost_nonneg [OF Cons.prems(2) [of "Suc j"]] by (simp add: algebra_simps)
  qed
  obtain e where sys: "sys_inv e (m, p)" using Cons.prems(1) by (auto simp: mgrs_inv_focus)
  have "cost i p m \<le> get_num_free_blocks p" using Cons.prems(3) nonneg by (simp add: total_cost_Cons)
  from runs [OF sys g this] obtain r m1 p1 where op: "op i (m, p) = Inr (r, m1, p1)"
    and f1: "get_num_free_blocks p - cost i p m \<le> get_num_free_blocks p1" by blast
  have inv1: "mgrs_inv ext (ns @ m1 # ms) p1" and sc: "same_config p p1"
    by (rule mgrs_inv_step [OF Cons.prems(1)], rule keeps [OF _ g op], assumption)+
  have g1: "guard (i + 1 + int j) p1 (ms ! j)" if "j < length ms" for j
    using guard_config [OF sc Cons.prems(2) [of "Suc j"]] that by (simp add: algebra_simps)
  have less: "total_cost cost (i + 1) p1 ms \<le> total_cost cost (i + 1) p ms"
    unfolding total_cost_def by (intro sum_mono) (rule cost_later [OF sys g op])
  then have "total_cost cost (i + 1) p1 ms \<le> get_num_free_blocks p1" using f1 Cons.prems(3) by (simp add: total_cost_Cons)
  from Cons.IH [of "ns @ [m1]", OF _ g1 this] inv1 obtain rs ms' p' where
    "for_mgrs op (i + 1) ms p1 = Inr (rs, ms', p')"
    "get_num_free_blocks p1 - total_cost cost (i + 1) p1 ms \<le> get_num_free_blocks p'" by auto
  with op f1 less show ?case by (simp add: total_cost_Cons)
qed

end

section \<open>Free blocks\<close>

lemma free_blocks_mono:
  assumes "pool_inv p xs" "pool_inv p' ys" "same_config p p'"
    and "\<And>b. valid_block p b \<Longrightarrow> b \<noteq> null_block p \<Longrightarrow> ref_cnt (blocks p' b) \<le> ref_cnt (blocks p b)"
  shows "get_num_free_blocks p \<le> get_num_free_blocks p'"
proof -
  note d = same_config_dest [OF assms(3)]
  have "b \<in> set ys" if "b \<in> set xs" for b
  proof -
    have b: "valid_block p b" "b \<noteq> null_block p" "ref_cnt (blocks p b) = 0" using that pool_inv_free [OF assms(1)] by auto
    moreover have "0 \<le> ref_cnt (blocks p' b)" using pool_inv_nonneg [OF assms(2), of b] b d by simp
    ultimately show ?thesis using pool_inv_free [OF assms(2), of b] assms(4) [of b] d by auto
  qed
  then have "card (set xs) \<le> card (set ys)" by (intro card_mono) auto
  then show ?thesis
    using pool_inv_distinct [OF assms(1)] pool_inv_distinct [OF assms(2)]
    by (simp add: get_num_free_blocks_inv [OF assms(1)] get_num_free_blocks_inv [OF assms(2)] distinct_card)
qed

lemma sys_free_mono:
  assumes "sys_inv e (m, p)" "sys_inv e (m', p')" "same_config p p'"
    and "\<And>b. b \<noteq> null_block p \<Longrightarrow> mgr_refs m' b \<le> mgr_refs m b"
  shows "get_num_free_blocks p \<le> get_num_free_blocks p'"
proof -
  obtain xs ys where inv: "pool_inv p xs" "refs_ok p (\<lambda>b. mgr_refs m b + e b)" "pool_inv p' ys" "refs_ok p' (\<lambda>b. mgr_refs m' b + e b)"
    using assms(1,2) by (auto simp: sys_inv_def)
  show ?thesis
    by (rule free_blocks_mono [OF inv(1,3) assms(3)])
      (use inv(2,4) assms(4) in \<open>auto simp: refs_ok_def same_config_dest [OF assms(3)]\<close>)
qed

text \<open>Touching takes at most the evictable blocks among its arguments off the free list.\<close>

lemma touch_free:
  assumes "pool_inv p xs" "\<And>b. b \<in> set bs \<Longrightarrow> valid_block p b" "touch bs p = Inr p'"
  shows "get_num_free_blocks p - get_num_evictable_blocks p bs \<le> get_num_free_blocks p'"
    and "get_num_evictable_blocks p' cs \<le> get_num_evictable_blocks p cs"
proof -
  obtain q where q: "touch bs p = Inr q" "pool_inv q (filter (\<lambda>c. c \<notin> set bs) xs)" "same_cache p q"
    "\<forall>c. ref_cnt (blocks q c) = ref_cnt (blocks p c) + int (count_list bs c)"
    using touch_result [OF assms(1,2)] by blast
  have p': "p' = q" using q(1) assms(3) by simp
  let ?E = "filter (\<lambda>b. ref_cnt (blocks p b) = 0 \<and> \<not> is_null (blocks p b)) bs"
  have sub: "set (filter (\<lambda>c. c \<in> set bs) xs) \<subseteq> set ?E"
    using pool_inv_free [OF assms(1)] assms(1) by (auto simp: pool_inv_def ref_inv_def)
  have "length (filter (\<lambda>c. c \<in> set bs) xs) = card (set (filter (\<lambda>c. c \<in> set bs) xs))"
    using pool_inv_distinct [OF assms(1)] by (simp add: distinct_card [symmetric])
  also have "\<dots> \<le> card (set ?E)" by (rule card_mono [OF _ sub]) simp
  also have "\<dots> \<le> length ?E" by (rule card_length)
  finally have "length (filter (\<lambda>c. c \<in> set bs) xs) \<le> length ?E" .
  moreover have "length (filter (\<lambda>c. c \<in> set bs) xs) + length (filter (\<lambda>c. c \<notin> set bs) xs) = length xs"
    by (rule sum_length_filter_compl)
  ultimately show "get_num_free_blocks p - get_num_evictable_blocks p bs \<le> get_num_free_blocks p'"
    unfolding get_num_free_blocks_inv [OF assms(1)] p' get_num_free_blocks_inv [OF q(2)] get_num_evictable_blocks_def by linarith
  have imp: "ref_cnt (blocks p b) = 0 \<and> \<not> is_null (blocks p b)" if "ref_cnt (blocks p' b) = 0 \<and> \<not> is_null (blocks p' b)" for b
  proof -
    have "b \<in> set bs \<Longrightarrow> False"
    proof -
      assume b: "b \<in> set bs"
      then have "0 < int (count_list bs b)" using count_list_0_iff [of bs b] by linarith
      moreover have "b \<noteq> null_block p" using that assms(1,2) b same_cache_config [OF q(3)]
        by (auto simp: p' pool_inv_def ref_inv_def same_config_def)
      ultimately show False using that q(4) pool_inv_nonneg [OF assms(1) assms(2) [OF b]] by (simp add: p')
    qed
    then have "count_list bs b = 0" using count_list_0_iff [of bs b] by blast
    then show ?thesis using that q(4) same_cache_config [OF q(3)] by (simp add: p' same_config_def)
  qed
  have "length (filter P cs) \<le> length (filter Q cs)" if "\<And>b. P b \<Longrightarrow> Q b" for P Q :: "bref \<Rightarrow> bool"
    using that by (induction cs) (auto simp: le_SucI)
  from this [of "\<lambda>b. ref_cnt (blocks p' b) = 0 \<and> \<not> is_null (blocks p' b)" "\<lambda>b. ref_cnt (blocks p b) = 0 \<and> \<not> is_null (blocks p b)"] imp
  show "get_num_evictable_blocks p' cs \<le> get_num_evictable_blocks p cs" unfolding get_num_evictable_blocks_def by simp
qed

section \<open>Instances: operations that only give blocks back\<close>

lemma no_result_Inr [simp]: "no_result f s = Inr (r, s') \<longleftrightarrow> f s = Inr s'"
  by (cases s') (auto simp: no_result_def bindE_eq_Inr)

interpretation free_op: mgr_alloc "\<lambda>_. no_result (free_mgr r)" "\<lambda>_ _ _. True" "\<lambda>_ _ _. 0" for r
proof (unfold_locales, goal_cases)
  case (1 ext m p i u m' p')
  then show ?case using free_mgr_sys [OF 1(1), of r] by auto
next
  case (3 ext m p i)
  obtain m' p' where f: "free_mgr r (m, p) = Inr (m', p')" "sys_inv ext (m', p')" "same_config p p'"
    "req_to_blocks m' = (req_to_blocks m)(r := None)" "pending_cow_copies m' = pending_cow_copies m"
    using free_mgr_sys [OF 3(1), of r] by blast
  have "mgr_refs m' b \<le> mgr_refs m b" for b
  proof -
    have fin: "finite (dom (req_to_blocks m))" using 3(1) by (auto simp: sys_inv_def mgr_ok_def)
    have "table_refs m' b = table_refs (snd (pop_blocks_for_free r m)) b"
      using f(4) by (simp add: table_refs_def blocks_of_def pop_blocks_for_free_def)
    then show ?thesis using table_refs_pop [OF fin, of r b] f(5) by (simp add: mgr_refs_def cow_refs_def)
  qed
  with sys_free_mono [OF 3(1) f(2,3)] f(1) show ?case by auto
qed simp_all

definition remove_guard :: "int option \<Rightarrow> mgr \<Rightarrow> bool" where
  "remove_guard np m \<longleftrightarrow> 0 < block_size m \<and> (\<forall>n. np = Some n \<longrightarrow> 0 \<le> n)"

interpretation remove_op: mgr_alloc "\<lambda>_. no_result (remove_skipped_blocks r n np)" "\<lambda>_ _. remove_guard np" "\<lambda>_ _ _. 0" for r n np
proof (unfold_locales, goal_cases)
  case (1 ext m p i u m' p')
  then show ?case using remove_skipped_blocks_sys [OF 1(1), of np r n] by (auto simp: remove_guard_def)
next
  case (3 ext m p i)
  obtain m' p' where f: "remove_skipped_blocks r n np (m, p) = Inr (m', p')" "sys_inv ext (m', p')" "same_config p p'"
    "\<forall>b. b \<noteq> null_block p \<longrightarrow> mgr_refs m' b \<le> mgr_refs m b"
    using remove_skipped_blocks_sys [OF 3(1), of np r n] 3(2) by (auto simp: remove_guard_def)
  with sys_free_mono [OF 3(1) f(2,3)] show ?case by auto
qed simp_all

section \<open>Instances: caching\<close>

definition cache_guard :: "request \<Rightarrow> pool \<Rightarrow> mgr \<Rightarrow> bool" where
  "cache_guard r p m \<longleftrightarrow> 0 < block_size m \<and> 0 \<le> num_prompt_tokens r \<and> 0 < hash_block_size p"

interpretation cache_op: mgr_op "\<lambda>_ s. no_result (cache_blocks r (f (fst s)) ret) s" "\<lambda>_. cache_guard r" for r f ret
proof (unfold_locales, goal_cases)
  case (1 ext m p i u m' p')
  then show ?case using cache_blocks_sys [OF 1(1)] by (auto simp: cache_guard_def)
qed (simp add: cache_guard_def same_config_def)

end
