(* ===== verification/Admission.thy ===== *)
theory Admission
  imports Coordinator_Inv
begin

text \<open>
  The admission check of \<open>allocate_slots\<close> is enough: when the predicted number of blocks is at
  most the number of free blocks, adding the cached prefix, allocating for externally computed
  tokens and allocating for new tokens all succeed, in every group.  The three manager
  operations are instances of the allocation contract, with costs that the prediction of
  \<open>get_num_blocks_to_allocate\<close> dominates.
\<close>

section \<open>Costs\<close>

definition base_kind :: "mgr \<Rightarrow> bool" where
  "base_kind m \<longleftrightarrow> kind m \<noteq> CircularBuffer \<and> kind m \<noteq> CrossAttention"

definition skip_blocks :: "mgr \<Rightarrow> int \<Rightarrow> int" where
  "skip_blocks m tot = get_num_skipped_tokens m tot div block_size m"

definition touched :: "bref list \<Rightarrow> int \<Rightarrow> mgr \<Rightarrow> bref list" where
  "touched ncb tot m = py_slice_from ncb (max 0 (skip_blocks m tot))"

definition ring_cost :: "string \<Rightarrow> mgr \<Rightarrow> int" where
  "ring_cost r m = (if blocks_of m r = [] then 1 else 0)"

definition external_tokens :: "int \<Rightarrow> int \<Rightarrow> mgr \<Rightarrow> int" where
  "external_tokens nl ne m =
     (if 0 < get_num_skipped_tokens m (nl + ne) then min (nl + ne - get_num_skipped_tokens m (nl + ne)) ne else ne)"

definition shortfall :: "string \<Rightarrow> int \<Rightarrow> mgr \<Rightarrow> int" where
  "shortfall r n m = max 0 (cdiv n (block_size m) - int (length (blocks_of m r)))"

definition local_cost :: "bref list list \<Rightarrow> int \<Rightarrow> int \<Rightarrow> pool \<Rightarrow> mgr \<Rightarrow> int" where
  "local_cost nc tot i p m = (if base_kind m then
     case py_get nc i of Inr ncb \<Rightarrow> get_num_evictable_blocks p (touched ncb tot m) | Inl _ \<Rightarrow> 0 else 0)"

definition external_cost :: "string \<Rightarrow> int \<Rightarrow> int \<Rightarrow> mgr \<Rightarrow> int" where
  "external_cost r nl ne m =
     (if kind m = CircularBuffer then ring_cost r m
      else if base_kind m \<and> 0 < external_tokens nl ne m then shortfall r (nl + ne) m else 0)"

definition new_cost :: "string \<Rightarrow> int \<Rightarrow> int \<Rightarrow> mgr \<Rightarrow> int" where
  "new_cost r n enc m =
     (if kind m = CircularBuffer then ring_cost r m
      else shortfall r (if kind m = CrossAttention then enc else n) m)"

definition local_guard :: "string \<Rightarrow> bref list list \<Rightarrow> int \<Rightarrow> pool \<Rightarrow> mgr \<Rightarrow> bool" where
  "local_guard r nc i p m \<longleftrightarrow> (\<exists>ncb. py_get nc i = Inr ncb \<and> (\<forall>b \<in> set ncb. valid_block p b)
     \<and> (kind m = CrossAttention \<longrightarrow> ncb = [])
     \<and> (base_kind m \<longrightarrow> blocks_of m r = [] \<and> (mgr_enable_caching m \<or> ncb = [])))"

section \<open>The locally cached prefix\<close>

lemma touched_eq: "(if 0 < k then py_slice_from ncb k else ncb) = py_slice_from ncb (max 0 k)"
  by (auto simp: py_slice_from_nonneg max_def)

lemma touched_subset: "set (touched ncb tot m) \<subseteq> set ncb"
  unfolding touched_def py_slice_from_def by (rule set_drop_subset)

lemma length_touched:
  "int (length (replicate (nat (skip_blocks m tot)) (null_block p) @ touched ncb tot m)) = max (max 0 (skip_blocks m tot)) (int (length ncb))"
  by (auto simp: touched_def py_slice_from_nonneg)

text \<open>The state after adding a cached prefix that ends on a block boundary.\<close>

definition with_prefix :: "string \<Rightarrow> bref list \<Rightarrow> int \<Rightarrow> pool \<Rightarrow> mgr \<Rightarrow> mgr" where
  "with_prefix r ncb tot p m =
     (let bs = replicate (nat (skip_blocks m tot)) (null_block p) @ touched ncb tot m;
          m1 = set_blocks r bs m
      in m1\<lparr>num_cached_block := (num_cached_block m1)(r \<mapsto> int (length bs))\<rparr>)"

lemma base_add_local_eq:
  assumes "blocks_of m r = []"
  shows "base_add_local_computed_blocks r ncb nl ne (m, p) =
    bindE (if mgr_enable_caching m then touch (touched ncb (nl + ne) m) p
           else bindE (py_assert (touched ncb (nl + ne) m = [])) (\<lambda>_. Inr p)) (\<lambda>p1.
      let m2 = with_prefix r ncb (nl + ne) p1 m; bs = touched ncb (nl + ne) m
      in if has_partial_local_hit m2 bs nl
         then Inr (m2\<lparr>partial_hit_reqs := (partial_hit_reqs m2)(r \<mapsto> (nl div block_size m2, last bs)),
                      num_cached_block := (num_cached_block m2)(r \<mapsto> nl div block_size m2)\<rparr>, p1)
         else Inr (m2, p1))"
  unfolding base_add_local_computed_blocks_def prod.case Let_def touched_eq touched_def [symmetric] skip_blocks_def [symmetric] with_prefix_def
  using assms by simp

lemma with_prefix_block_size [simp]: "block_size (with_prefix r ncb tot p m) = block_size m"
  by (simp add: with_prefix_def Let_def set_blocks_def)

lemma base_add_local_runs:
  assumes sys: "sys_inv ext (m, p)" and valid: "\<forall>b \<in> set ncb. valid_block p b"
    and empty: "blocks_of m r = []" and caching: "mgr_enable_caching m \<or> ncb = []"
  shows "\<exists>m' p'. base_add_local_computed_blocks r ncb nl ne (m, p) = Inr (m', p')
    \<and> get_num_free_blocks p - get_num_evictable_blocks p (touched ncb (nl + ne) m) \<le> get_num_free_blocks p'
    \<and> (\<forall>cs. get_num_evictable_blocks p' cs \<le> get_num_evictable_blocks p cs)
    \<and> (nl mod block_size m = 0 \<or> ncb = [] \<longrightarrow> m' = with_prefix r ncb (nl + ne) p' m)"
proof -
  let ?bs = "touched ncb (nl + ne) m"
  obtain xs where inv: "pool_inv p xs" using sys by (auto simp: sys_inv_def)
  have vb: "valid_block p b" if "b \<in> set ?bs" for b using that touched_subset valid by blast
  obtain p1 where t: "(if mgr_enable_caching m then touch ?bs p else bindE (py_assert (?bs = [])) (\<lambda>_. Inr p)) = Inr p1"
    and f: "get_num_free_blocks p - get_num_evictable_blocks p ?bs \<le> get_num_free_blocks p1"
      "\<forall>cs. get_num_evictable_blocks p1 cs \<le> get_num_evictable_blocks p cs"
  proof (cases "mgr_enable_caching m")
    case True
    obtain q where q: "touch ?bs p = Inr q" using touch_result [OF inv vb] by blast
    show ?thesis by (rule that [of q]) (use True q touch_free [OF inv vb q] in auto)
  next
    case False
    then have "?bs = []" using caching touched_subset [of ncb] by auto
    with False that [of p] show ?thesis by (simp add: get_num_evictable_blocks_def)
  qed
  have "\<not> has_partial_local_hit (with_prefix r ncb (nl + ne) p1 m) ?bs nl" if "nl mod block_size m = 0 \<or> ncb = []"
    using that touched_subset [of ncb "nl + ne" m] by (auto simp: has_partial_local_hit_def)
  with t f show ?thesis unfolding base_add_local_eq [OF empty] by (auto simp: Let_def)
qed

lemma add_local_runs:
  assumes sys: "sys_inv ext (m, p)" and g: "local_guard r nc i p m"
  shows "\<exists>ncb m' p'. py_get nc i = Inr ncb \<and> add_local_computed_blocks r ncb nl ne (m, p) = Inr (m', p')
    \<and> get_num_free_blocks p - local_cost nc (nl + ne) i p m \<le> get_num_free_blocks p'
    \<and> (\<forall>cs. get_num_evictable_blocks p' cs \<le> get_num_evictable_blocks p cs)
    \<and> (base_kind m \<and> (nl mod block_size m = 0 \<or> ncb = []) \<longrightarrow> m' = with_prefix r ncb (nl + ne) p' m)
    \<and> (\<not> base_kind m \<longrightarrow> m' = m)"
proof -
  from g obtain ncb where ncb: "py_get nc i = Inr ncb" "\<forall>b \<in> set ncb. valid_block p b" "kind m = CrossAttention \<longrightarrow> ncb = []"
    "base_kind m \<longrightarrow> blocks_of m r = [] \<and> (mgr_enable_caching m \<or> ncb = [])" unfolding local_guard_def by blast
  show ?thesis
  proof (cases "base_kind m")
    case True
    then have "add_local_computed_blocks r ncb nl ne (m, p) = base_add_local_computed_blocks r ncb nl ne (m, p)"
      by (cases "kind m") (simp_all add: add_local_computed_blocks_def base_kind_def)
    moreover obtain m' p' where "base_add_local_computed_blocks r ncb nl ne (m, p) = Inr (m', p')"
      "get_num_free_blocks p - get_num_evictable_blocks p (touched ncb (nl + ne) m) \<le> get_num_free_blocks p'"
      "\<forall>cs. get_num_evictable_blocks p' cs \<le> get_num_evictable_blocks p cs"
      "nl mod block_size m = 0 \<or> ncb = [] \<longrightarrow> m' = with_prefix r ncb (nl + ne) p' m"
      using base_add_local_runs [OF sys ncb(2), of r nl ne] ncb(4) True by blast
    ultimately show ?thesis using ncb(1) True by (intro exI [of _ ncb] exI [of _ m'] exI [of _ p']) (simp add: local_cost_def)
  next
    case False
    then have "add_local_computed_blocks r ncb nl ne (m, p) = Inr (m, p)"
      using ncb(3) by (cases "kind m") (simp_all add: add_local_computed_blocks_def base_kind_def)
    with ncb(1) False show ?thesis by (intro exI [of _ ncb] exI [of _ m] exI [of _ p]) (simp add: local_cost_def)
  qed
qed

abbreviation add_local_op :: "string \<Rightarrow> bref list list \<Rightarrow> int \<Rightarrow> int \<Rightarrow> int \<Rightarrow> mgr \<times> pool \<Rightarrow> (unit \<times> mgr \<times> pool) res" where
  "add_local_op r nc nl ne \<equiv> \<lambda>i. no_result (\<lambda>s. bindE (py_get nc i) (\<lambda>ncb. add_local_computed_blocks r ncb nl ne s))"

lemma evictable_later: "(\<forall>cs. get_num_evictable_blocks p' cs \<le> get_num_evictable_blocks p cs) \<Longrightarrow> local_cost nc t j p' n \<le> local_cost nc t j p n"
  by (auto simp: local_cost_def split: sum.splits)

interpretation local_op: mgr_alloc "add_local_op r nc nl ne" "local_guard r nc" "local_cost nc (nl + ne)" for r nc nl ne
proof (unfold_locales, goal_cases)
  case (1 ext m p i u m' p')
  then obtain ncb where "py_get nc i = Inr ncb" "\<forall>b \<in> set ncb. valid_block p b"
    "add_local_computed_blocks r ncb nl ne (m, p) = Inr (m', p')" by (auto simp: local_guard_def)
  with add_local_computed_blocks_sys [OF 1(1)] show ?case by blast
next
  case (2 p p' i m)
  then show ?case by (auto simp: local_guard_def valid_block_config)
next
  case (3 ext m p i)
  from add_local_runs [OF 3(1,2), of nl ne] show ?case by fastforce
next
  case (4 i p m)
  show ?case by (simp add: local_cost_def get_num_evictable_blocks_def split: sum.split)
next
  case (5 ext m p i u m' p' j n)
  from add_local_runs [OF 5(1,2), of nl ne] 5(3) show ?case by (auto intro!: evictable_later)
qed

section \<open>New blocks\<close>

lemma ring_runs:
  assumes "sys_inv ext (m, p)" "ring_cost r m \<le> get_num_free_blocks p"
  shows "\<exists>bs m' p'. claim_ring_block r (m, p) = Inr (bs, m', p') \<and> get_num_free_blocks p' = get_num_free_blocks p - ring_cost r m
    \<and> blocks_of m' r \<noteq> []"
proof (cases "blocks_of m r = []")
  case True
  with assms(2) obtain bs m' p' where e: "extend_with_new r 1 (m, p) = Inr (bs, m', p')"
    using extend_with_new_total [OF assms(1), of 1 r] by (auto simp: ring_cost_def)
  from extend_with_new_sys [OF assms(1) _ e] have x: "int (length bs) = 1" "blocks_of m' r = bs"
    "get_num_free_blocks p' = get_num_free_blocks p - 1" using True by simp_all
  then have "bs \<noteq> []" by auto
  with e x True show ?thesis by (auto simp: claim_ring_block_def ring_cost_def)
next
  case False
  then show ?thesis by (simp add: claim_ring_block_def ring_cost_def access_blocks_def)
qed

lemma extend_runs:
  assumes "sys_inv ext (m, p)" "0 \<le> n" "n \<le> get_num_free_blocks p"
  shows "\<exists>bs m' p'. extend_with_new r n (m, p) = Inr (bs, m', p') \<and> get_num_free_blocks p' = get_num_free_blocks p - n
    \<and> int (length (blocks_of m' r)) = int (length (blocks_of m r)) + n \<and> partial_hit_reqs m' = partial_hit_reqs m"
proof -
  obtain bs m' p' where e: "extend_with_new r n (m, p) = Inr (bs, m', p')" using extend_with_new_total [OF assms] by blast
  moreover have "partial_hit_reqs m' = partial_hit_reqs m"
    using e by (auto simp: extend_with_new_def bindE_eq_Inr Let_def set_blocks_def split: if_splits)
  ultimately show ?thesis using extend_with_new_sys [OF assms(1,2) e] by auto
qed

lemma external_runs:
  assumes sys: "sys_inv ext (m, p)" and c: "external_cost r nl ne m \<le> get_num_free_blocks p"
  shows "\<exists>m' p'. allocate_external_computed_blocks r nl ne (m, p) = Inr (m', p')
    \<and> get_num_free_blocks p' = get_num_free_blocks p - external_cost r nl ne m
    \<and> (kind m = CircularBuffer \<longrightarrow> blocks_of m' r \<noteq> [])
    \<and> (kind m \<noteq> CircularBuffer \<longrightarrow> int (length (blocks_of m' r)) = int (length (blocks_of m r)) + external_cost r nl ne m
        \<and> partial_hit_reqs m' = partial_hit_reqs m)"
proof (cases "kind m = CircularBuffer")
  case True
  with ring_runs [OF sys, of r] c show ?thesis
    by (fastforce simp: allocate_external_computed_blocks_def external_cost_def)
next
  case notring: False
  show ?thesis
  proof (cases "base_kind m \<and> 0 < external_tokens nl ne m")
    case True
    then have eq: "allocate_external_computed_blocks r nl ne (m, p) = bindE (extend_with_new r (shortfall r (nl + ne) m) (m, p)) (\<lambda>(_, s). Inr s)"
      unfolding allocate_external_computed_blocks_def base_allocate_external_computed_blocks_def external_tokens_def shortfall_def
      by (cases "kind m") (auto simp: base_kind_def Let_def)
    have cost: "external_cost r nl ne m = shortfall r (nl + ne) m" using True notring by (simp add: external_cost_def)
    have "0 \<le> shortfall r (nl + ne) m" by (simp add: shortfall_def)
    from extend_runs [OF sys this, of r] c show ?thesis unfolding eq cost using notring by auto
  next
    case False
    then have "allocate_external_computed_blocks r nl ne (m, p) = Inr (m, p)"
      using notring unfolding allocate_external_computed_blocks_def base_allocate_external_computed_blocks_def external_tokens_def
      by (cases "kind m") (auto simp: base_kind_def Let_def)
    moreover have "external_cost r nl ne m = 0" using False notring unfolding external_cost_def by auto
    ultimately show ?thesis using notring by simp
  qed
qed

text \<open>An external allocation that returned had enough free blocks.\<close>

lemma extend_needs:
  assumes "sys_inv ext (m, p)" "0 \<le> n" "extend_with_new r n (m, p) = Inr (bs, m', p')"
  shows "n \<le> get_num_free_blocks p"
proof -
  obtain xs ys where "pool_inv p xs" "pool_inv p' ys"
    using assms(1) extend_with_new_sys [OF assms] by (auto simp: sys_inv_def)
  then show ?thesis using extend_with_new_sys [OF assms] get_num_free_blocks_inv [of p' ys] by simp
qed

lemma external_needs:
  assumes sys: "sys_inv ext (m, p)" and run: "allocate_external_computed_blocks r nl ne (m, p) = Inr (m', p')"
  shows "external_cost r nl ne m \<le> get_num_free_blocks p"
proof -
  obtain xs where nn: "0 \<le> get_num_free_blocks p" using sys get_num_free_blocks_inv by (fastforce simp: sys_inv_def)
  show ?thesis
  proof (cases "kind m = CircularBuffer \<and> blocks_of m r = []")
    case True
    then obtain bs where "extend_with_new r 1 (m, p) = Inr (bs, m', p')"
      using run by (auto simp: allocate_external_computed_blocks_def claim_ring_block_def bindE_eq_Inr)
    from extend_needs [OF sys _ this] True show ?thesis by (simp add: external_cost_def ring_cost_def)
  next
    case notring: False
    show ?thesis
    proof (cases "base_kind m \<and> 0 < external_tokens nl ne m")
      case True
      then obtain bs where "extend_with_new r (shortfall r (nl + ne) m) (m, p) = Inr (bs, m', p')"
        using run unfolding allocate_external_computed_blocks_def base_allocate_external_computed_blocks_def external_tokens_def shortfall_def
        by (cases "kind m") (auto simp: base_kind_def Let_def bindE_eq_Inr split: if_splits)
      from extend_needs [OF sys _ this] True show ?thesis by (simp add: external_cost_def base_kind_def shortfall_def)
    next
      case False
      then have "external_cost r nl ne m = 0" using notring unfolding external_cost_def ring_cost_def by auto
      with nn show ?thesis by simp
    qed
  qed
qed

interpretation external_op: mgr_alloc "\<lambda>_. no_result (allocate_external_computed_blocks r nl ne)" "\<lambda>_ _ _. True"
  "\<lambda>_ _. external_cost r nl ne" for r nl ne
proof (unfold_locales, goal_cases)
  case (1 ext m p i u m' p')
  then show ?case using allocate_external_sys [OF 1(1)] by simp
next
  case (3 ext m p i)
  from external_runs [OF 3(1,3)] show ?case by auto
qed (simp_all add: external_cost_def ring_cost_def shortfall_def)

lemma new_runs:
  assumes sys: "sys_inv ext (m, p)" and part: "kind m \<noteq> CircularBuffer \<longrightarrow> partial_hit_reqs m r = None" and c: "new_cost r n enc m \<le> get_num_free_blocks p"
  shows "\<exists>bs m' p'. allocate_new_blocks r (if kind m = CrossAttention then enc else n) (m, p) = Inr (bs, m', p')
    \<and> get_num_free_blocks p' = get_num_free_blocks p - new_cost r n enc m
    \<and> (kind m \<noteq> CircularBuffer \<longrightarrow> cdiv (if kind m = CrossAttention then enc else n) (block_size m) \<le> int (length (blocks_of m' r)))"
proof (cases "kind m = CircularBuffer")
  case True
  with ring_runs [OF sys, of r] c show ?thesis by (fastforce simp: allocate_new_blocks_def new_cost_def)
next
  case False
  let ?n = "if kind m = CrossAttention then enc else n"
  let ?k = "cdiv ?n (block_size m) - int (length (blocks_of m r))"
  have eq: "allocate_new_blocks r ?n (m, p) = (if ?k \<le> 0 then Inr ([], access_blocks r m, p)
      else bindE (extend_with_new r ?k (m, p)) (\<lambda>(new, s'). Inr (new, s')))"
    using False part by (simp add: allocate_new_blocks_def base_allocate_new_blocks_def redirect_partial_hit_def Let_def)
  show ?thesis
  proof (cases "?k \<le> 0")
    case True
    then have "new_cost r n enc m = 0" using False by (simp add: new_cost_def shortfall_def)
    with True show ?thesis unfolding eq by (simp add: access_blocks_def)
  next
    case k: False
    have cost: "new_cost r n enc m = ?k" using k False by (simp add: new_cost_def shortfall_def)
    have "0 \<le> ?k" "?k \<le> get_num_free_blocks p" using k c cost by simp_all
    from extend_runs [OF sys this, of r] k show ?thesis unfolding eq cost by auto
  qed
qed

lemma new_needs:
  assumes sys: "sys_inv ext (m, p)" and part: "kind m \<noteq> CircularBuffer \<longrightarrow> partial_hit_reqs m r = None"
    and run: "allocate_new_blocks r (if kind m = CrossAttention then enc else n) (m, p) = Inr (bs, m', p')"
  shows "new_cost r n enc m \<le> get_num_free_blocks p"
proof -
  have nn: "0 \<le> get_num_free_blocks p" using sys get_num_free_blocks_inv by (fastforce simp: sys_inv_def)
  show ?thesis
  proof (cases "new_cost r n enc m = 0")
    case False
    have "\<exists>bs. extend_with_new r (new_cost r n enc m) (m, p) = Inr (bs, m', p')"
      using run part False
      by (cases "kind m = CircularBuffer")
        (auto simp: allocate_new_blocks_def base_allocate_new_blocks_def redirect_partial_hit_def claim_ring_block_def
          new_cost_def ring_cost_def shortfall_def Let_def bindE_eq_Inr max_def split: if_splits)
    moreover have "0 \<le> new_cost r n enc m" by (simp add: new_cost_def ring_cost_def shortfall_def)
    ultimately show ?thesis using extend_needs [OF sys] by blast
  qed (use nn in simp)
qed

interpretation new_op: mgr_alloc "\<lambda>_ s. allocate_new_blocks r (if kind (fst s) = CrossAttention then enc else n) s"
  "\<lambda>_ _ m. kind m \<noteq> CircularBuffer \<longrightarrow> partial_hit_reqs m r = None" "\<lambda>_ _. new_cost r n enc" for r n enc
proof (unfold_locales, goal_cases)
  case (1 ext m p i bs m' p')
  then show ?case using allocate_new_blocks_sys [OF 1(1)] by simp
next
  case (3 ext m p i)
  from new_runs [OF 3(1-3)] show ?case by (auto simp del: if_split)
qed (simp_all add: new_cost_def ring_cost_def shortfall_def)

section \<open>The prediction covers the costs\<close>

text \<open>What the code relies on for a manager that keeps its table: the request holds blocks for its computed tokens.\<close>

definition continues :: "string \<Rightarrow> int \<Rightarrow> mgr \<Rightarrow> bool" where
  "continues r tot m \<longleftrightarrow> partial_hit_reqs m r = None
     \<and> (base_kind m \<and> num_cached_block m r = None \<longrightarrow> skip_blocks m tot \<le> int (length (blocks_of m r)))"

definition starts :: "string \<Rightarrow> int \<Rightarrow> bref list \<Rightarrow> pool \<Rightarrow> mgr \<Rightarrow> bool" where
  "starts r nl ncb p m \<longleftrightarrow> partial_hit_reqs m r = None \<and> num_cached_block m r = None \<and> (\<forall>b \<in> set ncb. valid_block p b)
     \<and> (kind m = CrossAttention \<longrightarrow> ncb = [])
     \<and> (base_kind m \<longrightarrow> blocks_of m r = [] \<and> 0 < block_size m \<and> (mgr_enable_caching m \<or> ncb = [])
          \<and> (nl mod block_size m = 0 \<or> ncb = []))"

lemma demand_continues:
  assumes "continues r tot m" "kind m \<noteq> CrossAttention \<longrightarrow> py_get nc i = Inr []"
    and "mgr_demand p r n nc enc tot nl False i m = Inr d"
  shows "new_cost r n enc m \<le> d"
proof -
  have ev: "get_num_evictable_blocks p (py_slice_from [] k) = 0" for k by (simp add: get_num_evictable_blocks_def py_slice_from_def)
  consider "kind m = CircularBuffer" | "kind m = CrossAttention" | "base_kind m" by (auto simp: base_kind_def)
  then show ?thesis
  proof cases
    case 1
    with assms(2,3) show ?thesis by (auto simp: mgr_demand_def get_num_blocks_to_allocate_def new_cost_def ring_cost_def split: if_splits)
  next
    case 2
    then have "get_num_skipped_tokens m 0 = 0" by (simp add: get_num_skipped_tokens_def)
    with 2 assms(3) show ?thesis
      by (auto simp: mgr_demand_def get_num_blocks_to_allocate_def new_cost_def shortfall_def Let_def has_partial_local_hit_def ev
          bindE_eq_Inr split: option.splits if_splits)
  next
    case 3
    then have k: "kind m \<noteq> CircularBuffer" "kind m \<noteq> CrossAttention" by (auto simp: base_kind_def)
    show ?thesis
    proof (cases "num_cached_block m r")
      case None
      then have "skip_blocks m tot \<le> int (length (blocks_of m r))" using assms(1) 3 by (simp add: continues_def)
      with None k assms(2,3) show ?thesis
        by (auto simp: mgr_demand_def get_num_blocks_to_allocate_def new_cost_def shortfall_def Let_def has_partial_local_hit_def ev
            skip_blocks_def split: option.splits)
    next
      case (Some x)
      with k assms(2,3) show ?thesis
        by (auto simp: mgr_demand_def get_num_blocks_to_allocate_def new_cost_def shortfall_def Let_def split: option.splits)
    qed
  qed
qed

lemma demand_base:
  assumes "base_kind m" "blocks_of m r = []" "num_cached_block m r = None" "nl mod block_size m = 0 \<or> ncb = []" "py_get nc i = Inr ncb"
    and "mgr_demand p r n nc enc (nl + ne) nl False i m = Inr d"
  shows "d = max (cdiv n (block_size m) - max (skip_blocks m (nl + ne)) (int (length ncb))) 0 + local_cost nc (nl + ne) i p m"
proof -
  have k: "kind m \<noteq> CircularBuffer" "kind m \<noteq> CrossAttention" using assms(1) by (auto simp: base_kind_def)
  have np: "\<not> has_partial_local_hit m ncb nl" using assms(4) by (auto simp: has_partial_local_hit_def)
  have "Inr d = mgr_demand p r n nc enc (nl + ne) nl False i m" using assms(6) by simp
  also have "\<dots> = Inr (max (cdiv n (block_size m) - max (skip_blocks m (nl + ne)) (int (length ncb))) 0 + local_cost nc (nl + ne) i p m)"
    using k np assms(1,2,3,5)
    by (simp add: mgr_demand_def get_num_blocks_to_allocate_def Let_def local_cost_def touched_def skip_blocks_def split: option.split)
  finally show ?thesis by simp
qed

text \<open>Adding the prefix, then external, then new blocks: the sum of the costs along the way.\<close>

lemma cost_arith:
  fixes e w l s c ct cn d lc :: int
  assumes "e = 0 \<or> e = max 0 (ct - l)" "w = max 0 (cn - (l + e))" "l = max (max 0 s) c" "ct \<le> cn"
    "d = max (cn - max s c) 0 + lc" "0 \<le> c"
  shows "lc + e + w \<le> d"
  using assms by (simp add: max_def split: if_splits)

lemma demand_starts:
  assumes st: "starts r nl ncb p m" "py_get nc i = Inr ncb" and le: "nl + ne \<le> n"
    and d: "mgr_demand p r n nc enc (nl + ne) nl False i m = Inr d"
    and m1: "base_kind m \<Longrightarrow> m1 = with_prefix r ncb (nl + ne) q m" "\<not> base_kind m \<Longrightarrow> m1 = m"
    and m2: "same_static m1 m2" "kind m1 = CircularBuffer \<Longrightarrow> (if x then blocks_of m2 r \<noteq> [] else m2 = m1)"
      "kind m1 \<noteq> CircularBuffer \<Longrightarrow> int (length (blocks_of m2 r)) = int (length (blocks_of m1 r)) + (if x then external_cost r nl ne m1 else 0)"
  shows "local_cost nc (nl + ne) i p m + (if x then external_cost r nl ne m1 else 0) + new_cost r n enc m2 \<le> d"
proof (cases "base_kind m")
  case False
  then have "new_cost r n enc m \<le> d"
    using demand_continues [of r "nl + ne" m nc i p n enc nl d] st d
    by (cases "kind m = CrossAttention") (auto simp: continues_def starts_def base_kind_def mgr_demand_def get_num_blocks_to_allocate_def new_cost_def ring_cost_def)
  moreover have "kind m2 = kind m" "block_size m2 = block_size m" using m1(2) [OF False] m2(1) by (auto simp: same_static_def)
  ultimately show ?thesis
    using False m1(2) [OF False] m2(2,3)
    by (auto simp: base_kind_def local_cost_def external_cost_def new_cost_def ring_cost_def shortfall_def split: if_splits)
next
  case True
  then have k: "kind m \<noteq> CircularBuffer" "kind m \<noteq> CrossAttention" by (auto simp: base_kind_def)
  have bs: "0 < block_size m" using st(1) True by (simp add: starts_def)
  have k1: "kind m1 = kind m" "block_size m1 = block_size m" "base_kind m1"
    using m1(1) [OF True] True by (auto simp: with_prefix_def Let_def set_blocks_def base_kind_def)
  have k2: "kind m2 = kind m" "block_size m2 = block_size m" using m2(1) k1 by (auto simp: same_static_def)
  have len1: "int (length (blocks_of m1 r)) = max (max 0 (skip_blocks m (nl + ne))) (int (length ncb))"
    using length_touched [of m "nl + ne" q ncb] m1(1) [OF True]
    by (simp add: with_prefix_def Let_def blocks_of_def set_blocks_def)
  have mono: "cdiv (nl + ne) (block_size m) \<le> cdiv n (block_size m)" by (rule cdiv_mono [OF bs le])
  have dd: "d = max (cdiv n (block_size m) - max (skip_blocks m (nl + ne)) (int (length ncb))) 0 + local_cost nc (nl + ne) i p m"
    by (rule demand_base [OF True _ _ _ st(2) d]) (use st(1) True in \<open>auto simp: starts_def\<close>)
  have "external_cost r nl ne m1 = 0 \<or> external_cost r nl ne m1 = max 0 (cdiv (nl + ne) (block_size m) - int (length (blocks_of m1 r)))"
    using k1 k by (auto simp: external_cost_def shortfall_def)
  moreover have "new_cost r n enc m2 = max 0 (cdiv n (block_size m) - int (length (blocks_of m2 r)))"
    using k2 k by (simp add: new_cost_def shortfall_def)
  moreover have "int (length (blocks_of m2 r)) = int (length (blocks_of m1 r)) + (if x then external_cost r nl ne m1 else 0)"
    using m2(3) k1 k by simp
  ultimately show ?thesis using cost_arith [OF _ _ len1 mono dd, of "if x then external_cost r nl ne m1 else 0"] by simp
qed

section \<open>All groups together\<close>

lemma enum_nth: "j < length xs \<Longrightarrow> enum xs ! j = (int j, xs ! j)"
  by (simp add: enum_def py_range_def nth_upto)

lemma length_enum [simp]: "length (enum xs) = length xs"
  by (simp add: enum_def py_range_def)

lemma foldE_sum:
  "foldE (\<lambda>y n. bindE (f y) (\<lambda>k. Inr (n + k))) ys (a :: int) = Inr n \<Longrightarrow>
   (\<forall>j < length ys. \<exists>k. f (ys ! j) = Inr k) \<and> n = a + (\<Sum>j<length ys. case f (ys ! j) of Inr k \<Rightarrow> k | Inl _ \<Rightarrow> 0)"
proof (induction ys arbitrary: a)
  case (Cons y ys)
  from Cons.prems obtain k where k: "f y = Inr k" and r: "foldE (\<lambda>y n. bindE (f y) (\<lambda>k. Inr (n + k))) ys (a + k) = Inr n"
    by (auto simp: bindE_eq_Inr)
  note ih = Cons.IH [OF r]
  have "\<exists>k. f ((y # ys) ! j) = Inr k" if "j < length (y # ys)" for j using that ih k by (cases j) auto
  then show ?case using ih k by (simp add: sum.lessThan_Suc_shift del: sum.lessThan_Suc)
qed simp

lemma coord_demand:
  assumes "coord_get_num_blocks_to_allocate r n nc enc tot nl cap c = Inr d"
  obtains D where "\<And>j. j < length (single_type_managers c) \<Longrightarrow>
      mgr_demand (block_pool c) r n nc enc tot nl cap (int j) (single_type_managers c ! j) = Inr (D j)"
    and "d = (\<Sum>j<length (single_type_managers c). D j)"
proof -
  let ?ms = "single_type_managers c" and ?f = "\<lambda>(i, m). mgr_demand (block_pool c) r n nc enc tot nl cap i m"
  define D where "D j = (case ?f (enum ?ms ! j) of Inr k \<Rightarrow> k | Inl _ \<Rightarrow> 0)" for j
  have "foldE (\<lambda>y n. bindE (?f y) (\<lambda>k. Inr (n + k))) (enum ?ms) 0 = Inr d"
    using assms by (simp add: coord_get_num_blocks_to_allocate_def case_prod_unfold)
  from foldE_sum [OF this] have *: "\<forall>j < length ?ms. \<exists>k. ?f (enum ?ms ! j) = Inr k" "d = (\<Sum>j<length ?ms. D j)" by (simp_all add: D_def)
  have "mgr_demand (block_pool c) r n nc enc tot nl cap (int j) (?ms ! j) = Inr (D j)" if "j < length ?ms" for j
    using *(1) that unfolding D_def by (auto simp: enum_nth)
  with *(2) show thesis by (rule that [rotated])
qed

text \<open>A state with any given number of further blocks, to compare costs before the operations run.\<close>

lemma demand_parts:
  assumes st: "starts r nl ncb p m" "py_get nc i = Inr ncb" and le: "nl + ne \<le> n"
    and d: "mgr_demand p r n nc enc (nl + ne) nl False i m = Inr d"
    and m1: "base_kind m \<Longrightarrow> m1 = with_prefix r ncb (nl + ne) q m" "\<not> base_kind m \<Longrightarrow> m1 = m"
  shows "local_cost nc (nl + ne) i p m + external_cost r nl ne m1 \<le> d" and "local_cost nc (nl + ne) i p m \<le> d"
proof -
  define m2 where "m2 = set_blocks r (blocks_of m1 r @ replicate (nat (external_cost r nl ne m1)) (null_block p)) m1"
  have nn: "0 \<le> new_cost r n enc m'" "0 \<le> external_cost r nl ne m'" for m'
    by (simp_all add: new_cost_def external_cost_def ring_cost_def shortfall_def)
  have ring: "blocks_of m2 r \<noteq> []" if "kind m1 = CircularBuffer"
    using that by (auto simp: m2_def external_cost_def ring_cost_def)
  have len: "int (length (blocks_of m2 r)) = int (length (blocks_of m1 r)) + external_cost r nl ne m1"
    using nn(2) [of m1] by (simp add: m2_def)
  have "same_static m1 m2" by (simp add: m2_def)
  from demand_starts [where x = True, OF st le d m1 this] ring len nn(1) [of m2]
  show "local_cost nc (nl + ne) i p m + external_cost r nl ne m1 \<le> d" by simp
  then show "local_cost nc (nl + ne) i p m \<le> d" using nn(2) [of m1] by linarith
qed

lemma py_get_nat: "j < length xs \<Longrightarrow> py_get xs (int j) = Inr (xs ! j)"
  by (simp add: py_get_def)

lemma local_steps:
  assumes inv: "mgrs_inv ext ms p" and len: "length nc = length ms"
    and st: "\<And>j. j < length ms \<Longrightarrow> starts r nl (nc ! j) p (ms ! j)"
    and run: "for_mgrs (add_local_op r nc nl ne) 0 ms p = Inr (rs, ms1, p1)" and j: "j < length ms"
  shows "\<exists>q. (base_kind (ms ! j) \<longrightarrow> ms1 ! j = with_prefix r (nc ! j) (nl + ne) q (ms ! j)) \<and> (\<not> base_kind (ms ! j) \<longrightarrow> ms1 ! j = ms ! j)"
proof -
  have g: "local_guard r nc (0 + int k) p (ms ! k)" if "k < length ms" for k
    using st [OF that] len that by (auto simp: local_guard_def starts_def py_get_nat)
  obtain e q q' where s: "sys_inv e (ms ! j, q)" "same_config p q" "add_local_op r nc nl ne (0 + int j) (ms ! j, q) = Inr (rs ! j, ms1 ! j, q')"
    using local_op.for_mgrs_steps [of ext "[]", OF _ g run j] inv by auto
  have gq: "local_guard r nc (int j) q (ms ! j)" using local_op.guard_config [OF s(2) g [OF j]] by simp
  have "nl mod block_size (ms ! j) = 0 \<or> nc ! j = []" if "base_kind (ms ! j)" using st [OF j] that by (simp add: starts_def)
  with add_local_runs [OF s(1) gq, of nl ne] s(3) py_get_nat [of j nc] len j show ?thesis by auto
qed

lemma total_cost_le: "(\<And>j. j < length ms \<Longrightarrow> cost (i + int j) p (ms ! j) \<le> D j) \<Longrightarrow> total_cost cost i p ms \<le> (\<Sum>j<length ms. D j)"
  unfolding total_cost_def by (intro sum_mono) simp

text \<open>The external phase, which runs only for a positive number of external tokens.\<close>

lemma external_phase:
  assumes inv: "mgrs_inv ext ms p" and c: "0 < ne \<Longrightarrow> total_cost (\<lambda>_ _. external_cost r nl ne) 0 p ms \<le> get_num_free_blocks p"
  shows "\<exists>rs ms2 p2. (if 0 < ne then for_mgrs (\<lambda>_. no_result (allocate_external_computed_blocks r nl ne)) 0 ms p = Inr (rs, ms2, p2)
        else ms2 = ms \<and> p2 = p)
    \<and> mgrs_inv ext ms2 p2 \<and> same_config p p2 \<and> length ms2 = length ms
    \<and> get_num_free_blocks p - (if 0 < ne then total_cost (\<lambda>_ _. external_cost r nl ne) 0 p ms else 0) \<le> get_num_free_blocks p2
    \<and> (\<forall>j < length ms. same_static (ms ! j) (ms2 ! j)
        \<and> (kind (ms ! j) = CircularBuffer \<longrightarrow> (if 0 < ne then blocks_of (ms2 ! j) r \<noteq> [] else ms2 ! j = ms ! j))
        \<and> (kind (ms ! j) \<noteq> CircularBuffer \<longrightarrow> partial_hit_reqs (ms2 ! j) r = partial_hit_reqs (ms ! j) r
            \<and> int (length (blocks_of (ms2 ! j) r)) = int (length (blocks_of (ms ! j) r)) + (if 0 < ne then external_cost r nl ne (ms ! j) else 0)))"
proof (cases "0 < ne")
  case False
  with inv show ?thesis by auto
next
  case True
  have inv0: "mgrs_inv ext ([] @ ms) p" using inv by simp
  obtain rs ms2 p2 where run: "for_mgrs (\<lambda>_. no_result (allocate_external_computed_blocks r nl ne)) 0 ms p = Inr (rs, ms2, p2)"
    and f: "get_num_free_blocks p - total_cost (\<lambda>_ _. external_cost r nl ne) 0 p ms \<le> get_num_free_blocks p2"
    using external_op.for_mgrs_runs [OF inv0 _ c [OF True]] by blast
  have k: "mgrs_inv ext ms2 p2" "same_config p p2" "length ms2 = length ms"
    using external_op.for_mgrs_keeps [OF inv0 _ run] by simp_all
  have step: "same_static (ms ! j) (ms2 ! j) \<and> (kind (ms ! j) = CircularBuffer \<longrightarrow> blocks_of (ms2 ! j) r \<noteq> [])
      \<and> (kind (ms ! j) \<noteq> CircularBuffer \<longrightarrow> partial_hit_reqs (ms2 ! j) r = partial_hit_reqs (ms ! j) r
            \<and> int (length (blocks_of (ms2 ! j) r)) = int (length (blocks_of (ms ! j) r)) + external_cost r nl ne (ms ! j))"
    if j: "j < length ms" for j
  proof -
    obtain e q q' where s: "sys_inv e (ms ! j, q)" "allocate_external_computed_blocks r nl ne (ms ! j, q) = Inr (ms2 ! j, q')"
      using external_op.for_mgrs_steps [OF inv0 _ run j] by auto
    have "external_cost r nl ne (ms ! j) \<le> get_num_free_blocks q"
      by (rule external_needs [OF s])
    from external_runs [OF s(1) this] s(2) allocate_external_static [OF s(2)] show ?thesis by auto
  qed
  with True run f k show ?thesis by auto
qed

end
