(* ===== verification/KVM_Props.thy ===== *)
theory KVM_Props
  imports Admission
begin

text \<open>
  Properties of the coordinator and the KV-cache manager: the admission check is enough for the
  allocation to succeed, and in every state that the operations reach each block's reference
  count is the number of its holders (block tables, pending copies, and blocks that the
  scheduler took over and has not released).
\<close>

section \<open>Coordinator states\<close>

definition coord_ok :: "(bref \<Rightarrow> int) \<Rightarrow> coord \<Rightarrow> bool" where
  "coord_ok ext c \<longleftrightarrow> mgrs_inv ext (single_type_managers c) (block_pool c)
     \<and> (\<forall>m \<in> set (single_type_managers c). 0 < block_size m) \<and> 0 < hash_block_size (block_pool c)"

lemma on_coord_Inr:
  "on_coord f c = Inr (rs, c') \<longleftrightarrow> (\<exists>ms p. for_mgrs f 0 (single_type_managers c) (block_pool c) = Inr (rs, ms, p)
     \<and> c' = c\<lparr>single_type_managers := ms, block_pool := p\<rparr>)"
  by (auto simp: on_coord_def bindE_eq_Inr)

lemma do_coord_Inr: "do_coord f c = Inr c' \<longleftrightarrow> (\<exists>rs. on_coord (\<lambda>i. no_result (f i)) c = Inr (rs, c'))"
  by (auto simp: do_coord_def bindE_eq_Inr)

lemma for_mgrs_all2:
  "\<lbrakk>\<And>i m p r m' p'. op i (m, p) = Inr (r, m', p') \<Longrightarrow> Q m m'; for_mgrs op i ms p = Inr (rs, ms', p')\<rbrakk> \<Longrightarrow> list_all2 Q ms ms'"
proof (induction ms arbitrary: i p rs ms' p')
  case (Cons m ms)
  from Cons.prems(2) obtain r m1 p1 rs1 ms1 where op: "op i (m, p) = Inr (r, m1, p1)"
    and rest: "for_mgrs op (i + 1) ms p1 = Inr (rs1, ms1, p')" and eq: "ms' = m1 # ms1"
    by (auto simp: bindE_eq_Inr)
  show ?case using Cons.prems(1) [OF op] Cons.IH [OF Cons.prems(1) rest] by (simp add: eq)
qed simp

lemmas for_mgrs_static = for_mgrs_all2 [where Q = same_static]

lemma static_block_size: "list_all2 same_static ms ms' \<Longrightarrow> \<forall>m \<in> set ms. 0 < block_size m \<Longrightarrow> \<forall>m \<in> set ms'. 0 < block_size m"
  by (induction rule: list_all2_induct) (auto simp: same_static_def)

context mgr_op
begin

lemma on_coord_keeps:
  assumes ok: "coord_ok ext c" and g: "\<And>j. j < length (single_type_managers c) \<Longrightarrow> guard (int j) (block_pool c) (single_type_managers c ! j)"
    and st: "\<And>i m p r m' p'. op i (m, p) = Inr (r, m', p') \<Longrightarrow> same_static m m'"
    and run: "on_coord op c = Inr (rs, c')"
  shows "coord_ok ext c' \<and> same_config (block_pool c) (block_pool c')
    \<and> length (single_type_managers c') = length (single_type_managers c)"
proof -
  from run obtain ms p where f: "for_mgrs op 0 (single_type_managers c) (block_pool c) = Inr (rs, ms, p)"
    and c': "c' = c\<lparr>single_type_managers := ms, block_pool := p\<rparr>" unfolding on_coord_Inr by blast
  have k: "mgrs_inv ext ms p \<and> same_config (block_pool c) p \<and> length ms = length (single_type_managers c)"
    using for_mgrs_keeps [of ext "[]", OF _ _ f] ok g by (simp add: coord_ok_def)
  moreover have "\<forall>m \<in> set ms. 0 < block_size m"
    by (rule static_block_size [OF for_mgrs_static [OF st f]]) (use ok in \<open>auto simp: coord_ok_def\<close>)
  ultimately show ?thesis using ok by (auto simp: coord_ok_def c' same_config_def)
qed

end

lemma coord_free_ok:
  assumes "coord_ok ext c"
  shows "\<exists>c'. coord_free r c = Inr c' \<and> coord_ok ext c'"
proof -
  have inv: "mgrs_inv ext ([] @ single_type_managers c) (block_pool c)" using assms by (simp add: coord_ok_def)
  obtain rs ms p where f: "for_mgrs (\<lambda>_. no_result (free_mgr r)) 0 (single_type_managers c) (block_pool c) = Inr (rs, ms, p)"
    using free_op.for_mgrs_runs [OF inv, of 0 r] get_num_free_blocks_inv assms
    by (auto simp: total_cost_def coord_ok_def mgrs_inv_def)
  let ?c = "c\<lparr>single_type_managers := ms, block_pool := p\<rparr>"
  have run: "on_coord (\<lambda>_. no_result (free_mgr r)) c = Inr (rs, ?c)" using f by (auto simp: on_coord_Inr)
  then have "coord_free r c = Inr ?c" by (auto simp: coord_free_def do_coord_Inr)
  moreover have "coord_ok ext ?c"
    using free_op.on_coord_keeps [OF assms _ _ run] free_mgr_static by auto
  ultimately show ?thesis by blast
qed

lemma coord_remove_ok:
  assumes "coord_ok ext c" "\<And>k. np = Some k \<Longrightarrow> 0 \<le> k"
  shows "\<exists>c'. coord_remove_skipped_blocks r n np c = Inr c' \<and> coord_ok ext c' \<and> same_config (block_pool c) (block_pool c')
    \<and> length (single_type_managers c') = length (single_type_managers c)"
proof -
  have inv: "mgrs_inv ext ([] @ single_type_managers c) (block_pool c)" using assms(1) by (simp add: coord_ok_def)
  have g: "remove_guard np (single_type_managers c ! j)" if "j < length (single_type_managers c)" for j
    using assms that by (auto simp: remove_guard_def coord_ok_def)
  obtain rs ms p where f: "for_mgrs (\<lambda>_. no_result (remove_skipped_blocks r n np)) 0 (single_type_managers c) (block_pool c) = Inr (rs, ms, p)"
    using remove_op.for_mgrs_runs [OF inv, of np 0 r n] get_num_free_blocks_inv assms(1) g
    by (auto simp: total_cost_def coord_ok_def mgrs_inv_def)
  let ?c = "c\<lparr>single_type_managers := ms, block_pool := p\<rparr>"
  have run: "on_coord (\<lambda>_. no_result (remove_skipped_blocks r n np)) c = Inr (rs, ?c)" using f by (auto simp: on_coord_Inr)
  then have "coord_remove_skipped_blocks r n np c = Inr ?c" by (auto simp: coord_remove_skipped_blocks_def do_coord_Inr)
  moreover have "coord_ok ext ?c \<and> same_config (block_pool c) (block_pool ?c)
    \<and> length (single_type_managers ?c) = length (single_type_managers c)"
    by (rule remove_op.on_coord_keeps [OF assms(1) g _ run]) (auto dest: remove_skipped_blocks_static)
  ultimately show ?thesis by blast
qed

lemma no_result_cache: "no_result (\<lambda>s. cache_blocks r (f (fst s)) ret s) = (\<lambda>s. no_result (cache_blocks r (f (fst s)) ret) s)"
  by (rule ext) (simp add: no_result_def)

lemma coord_cache_ok:
  assumes ok: "coord_ok ext c" and np: "0 \<le> num_prompt_tokens r" and run: "coord_cache_blocks r n c = Inr c'"
  shows "coord_ok ext c' \<and> same_config (block_pool c) (block_pool c')"
proof -
  have g: "cache_guard r (block_pool c) (single_type_managers c ! j)" if "j < length (single_type_managers c)" for j
    using ok np that by (auto simp: cache_guard_def coord_ok_def)
  obtain f rs where "on_coord (\<lambda>_ s. no_result (cache_blocks r (f (fst s)) (retention_interval c)) s) c = Inr (rs, c')"
  proof (cases "coord_class c = Hybrid")
    case True
    with run that [of "hybrid_tokens_to_cache c n"] show ?thesis
      by (auto simp: coord_cache_blocks_def do_coord_Inr no_result_cache)
  next
    case False
    with run that [of "\<lambda>_. max 0 (n - num_reprefillable_tokens c)"] show ?thesis
      by (auto simp: coord_cache_blocks_def base_coord_cache_blocks_def do_coord_Inr)
  qed
  from cache_op.on_coord_keeps [OF ok g _ this] show ?thesis using cache_blocks_static by fastforce
qed

interpretation new_any: mgr_op "\<lambda>_ s. allocate_new_blocks r (if kind (fst s) = CrossAttention then enc else n) s" "\<lambda>_ _ _. True" for r n enc
proof (unfold_locales, goal_cases)
  case (1 ext m p i bs m' p')
  then show ?case using allocate_new_blocks_sys [OF 1(1)] by simp
qed simp

definition valid_hit :: "bref list list \<Rightarrow> int \<Rightarrow> pool \<Rightarrow> mgr \<Rightarrow> bool" where
  "valid_hit nc i p m \<longleftrightarrow> (\<forall>ncb. py_get nc i = Inr ncb \<longrightarrow> (\<forall>b \<in> set ncb. valid_block p b))"

interpretation local_any: mgr_op "add_local_op r nc nl ne" "valid_hit nc" for r nc nl ne
proof (unfold_locales, goal_cases)
  case (1 ext m p i u m' p')
  then obtain ncb where "py_get nc i = Inr ncb" "add_local_computed_blocks r ncb nl ne (m, p) = Inr (m', p')"
    by (auto simp: bindE_eq_Inr)
  with 1(2) add_local_computed_blocks_sys [OF 1(1) _ this(2)] show ?case by (auto simp: valid_hit_def)
qed (auto simp: valid_hit_def valid_block_config)

lemma coord_allocate_new_ok:
  assumes "coord_ok ext c" "coord_allocate_new_blocks r n enc c = Inr (bs, c')"
  shows "coord_ok ext c' \<and> same_config (block_pool c) (block_pool c')"
  using new_any.on_coord_keeps [OF assms(1) _ _ assms(2) [unfolded coord_allocate_new_blocks_def]] allocate_new_blocks_static
  by fastforce

lemma py_get_mem: "py_get xs i = Inr x \<Longrightarrow> x \<in> set xs"
  by (auto simp: py_get_def rev_nth split: if_splits)

lemma coord_new_computed_ok:
  assumes ok: "coord_ok ext c" and valid: "\<forall>bs \<in> set nc. \<forall>b \<in> set bs. valid_block (block_pool c) b"
    and run: "allocate_new_computed_blocks r nc nl ne c = Inr c'"
  shows "coord_ok ext c' \<and> same_config (block_pool c) (block_pool c')"
proof (cases "list_ex (\<lambda>m. num_cached_block m r \<noteq> None) (single_type_managers c)")
  case True
  with run ok show ?thesis by (auto simp: allocate_new_computed_blocks_def bindE_eq_Inr)
next
  case False
  with run obtain c1 where r1: "do_coord (\<lambda>i s. bindE (py_get nc i) (\<lambda>ncb. add_local_computed_blocks r ncb nl ne s)) c = Inr c1"
    and r2: "c' = c1 \<or> do_coord (\<lambda>_. allocate_external_computed_blocks r nl ne) c1 = Inr c'"
    by (auto simp: allocate_new_computed_blocks_def bindE_eq_Inr split: if_splits)
  have "coord_ok ext c1 \<and> same_config (block_pool c) (block_pool c1)"
  proof -
    obtain rs where "on_coord (add_local_op r nc nl ne) c = Inr (rs, c1)" using r1 by (auto simp: do_coord_Inr)
    then show ?thesis
      using local_any.on_coord_keeps [OF ok, of nc r nl ne rs c1] valid by (auto simp: valid_hit_def bindE_eq_Inr dest: py_get_mem add_local_static)
  qed
  then have c1: "coord_ok ext c1" "same_config (block_pool c) (block_pool c1)" by blast+
  from r2 show ?thesis
  proof
    assume "do_coord (\<lambda>_. allocate_external_computed_blocks r nl ne) c1 = Inr c'"
    then obtain rs where "on_coord (\<lambda>_. no_result (allocate_external_computed_blocks r nl ne)) c1 = Inr (rs, c')" by (auto simp: do_coord_Inr)
    from external_op.on_coord_keeps [OF c1(1) _ _ this] allocate_external_static same_config_trans [OF c1(2)] show ?thesis by fastforce
  qed (use c1 in simp)
qed

section \<open>Admission\<close>

definition enough_slots :: "string \<Rightarrow> int \<Rightarrow> int \<Rightarrow> coord \<Rightarrow> bool" where
  "enough_slots r n enc c \<longleftrightarrow> (\<forall>m \<in> set (single_type_managers c). kind m \<noteq> CircularBuffer \<longrightarrow>
     cdiv (if kind m = CrossAttention then enc else n) (block_size m) \<le> int (length (blocks_of m r)))"

text \<open>The last phase: new blocks in every group.\<close>

lemma new_phase:
  assumes ok: "coord_ok ext c" and part: "\<And>m. m \<in> set (single_type_managers c) \<Longrightarrow> kind m \<noteq> CircularBuffer \<Longrightarrow> partial_hit_reqs m r = None"
    and cost: "total_cost (\<lambda>_ _. new_cost r n enc) 0 (block_pool c) (single_type_managers c) \<le> get_num_free_blocks (block_pool c)"
  shows "\<exists>bs c'. coord_allocate_new_blocks r n enc c = Inr (bs, c') \<and> coord_ok ext c' \<and> enough_slots r n enc c'"
proof -
  let ?ms = "single_type_managers c" and ?op = "\<lambda>_ s. allocate_new_blocks r (if kind (fst s) = CrossAttention then enc else n) s"
  have inv: "mgrs_inv ext ([] @ ?ms) (block_pool c)" using ok by (simp add: coord_ok_def)
  have g: "kind (?ms ! j) \<noteq> CircularBuffer \<longrightarrow> partial_hit_reqs (?ms ! j) r = None" if "j < length ?ms" for j
    using part that by auto
  obtain rs ms p where run: "for_mgrs ?op 0 ?ms (block_pool c) = Inr (rs, ms, p)"
    using new_op.for_mgrs_runs [OF inv g cost] by blast
  let ?c = "c\<lparr>single_type_managers := ms, block_pool := p\<rparr>"
  have al: "coord_allocate_new_blocks r n enc c = Inr (rs, ?c)" using run by (auto simp: coord_allocate_new_blocks_def on_coord_Inr)
  have st: "list_all2 same_static ?ms ms" by (rule for_mgrs_static [OF _ run]) (auto dest: allocate_new_blocks_static)
  have "kind m \<noteq> CircularBuffer \<longrightarrow> cdiv (if kind m = CrossAttention then enc else n) (block_size m) \<le> int (length (blocks_of m r))"
    if m: "m \<in> set ms" for m
  proof -
    obtain j where j: "j < length ?ms" "m = ms ! j" using m st by (auto simp: in_set_conv_nth list_all2_lengthD)
    have s0: "same_static (?ms ! j) m" using st j by (simp add: list_all2_nthD)
    obtain e q q' where s: "sys_inv e (?ms ! j, q)" "?op 0 (?ms ! j, q) = Inr (rs ! j, m, q')"
      using new_op.for_mgrs_steps [OF inv g run j(1)] j(2) by auto
    have "new_cost r n enc (?ms ! j) \<le> get_num_free_blocks q" by (rule new_needs [OF s(1) g [OF j(1)]]) (use s(2) in simp)
    from new_runs [OF s(1) g [OF j(1)] this] s(2) s0 show ?thesis by (auto simp: same_static_def)
  qed
  then have "enough_slots r n enc ?c" by (simp add: enough_slots_def)
  with al coord_allocate_new_ok [OF ok al] show ?thesis by blast
qed

text \<open>
  \<open>ready r nl ne n nc c\<close>: what the scheduler guarantees when it asks for slots.  Either the request is known to
  a manager and brings no new cache hits, or it is new: no blocks yet, hits that are blocks of the
  pool and end on a block boundary, and a target length that covers the computed tokens.
\<close>

definition ready :: "string \<Rightarrow> int \<Rightarrow> int \<Rightarrow> int \<Rightarrow> bref list list \<Rightarrow> coord \<Rightarrow> bool" where
  "ready r nl ne n nc c \<longleftrightarrow> length nc = length (single_type_managers c) \<and>
     (if list_ex (\<lambda>m. num_cached_block m r \<noteq> None) (single_type_managers c)
      then list_all (\<lambda>bs. bs = []) nc \<and> list_all (continues r (nl + ne)) (single_type_managers c)
      else nl + ne \<le> n \<and> list_all2 (\<lambda>ncb. starts r nl ncb (block_pool c)) nc (single_type_managers c))"

lemma admit_running:
  assumes ok: "coord_ok ext c" and nc: "length nc = length (single_type_managers c)" "list_all (\<lambda>bs. bs = []) nc"
    and cont: "list_all (continues r tot) (single_type_managers c)"
    and d: "coord_get_num_blocks_to_allocate r n nc enc tot nl False c = Inr d" "d \<le> get_num_free_blocks (block_pool c)"
  shows "\<exists>bs c'. coord_allocate_new_blocks r n enc c = Inr (bs, c') \<and> coord_ok ext c' \<and> enough_slots r n enc c'"
proof (rule new_phase [OF ok])
  let ?ms = "single_type_managers c"
  show "partial_hit_reqs m r = None" if "m \<in> set ?ms" for m using cont that by (auto simp: list_all_iff continues_def)
  obtain D where D: "\<And>j. j < length ?ms \<Longrightarrow> mgr_demand (block_pool c) r n nc enc tot nl False (int j) (?ms ! j) = Inr (D j)"
    "d = (\<Sum>j<length ?ms. D j)" using coord_demand [OF d(1)] by blast
  have "total_cost (\<lambda>_ _. new_cost r n enc) 0 (block_pool c) ?ms \<le> (\<Sum>j<length ?ms. D j)"
  proof (rule total_cost_le)
    fix j assume j: "j < length ?ms"
    have "py_get nc (int j) = Inr []" using nc j by (simp add: py_get_nat list_all_length)
    then show "new_cost r n enc (?ms ! j) \<le> D j"
      using demand_continues [OF _ _ D(1) [OF j]] cont j by (simp add: list_all_length)
  qed
  with D(2) d(2) show "total_cost (\<lambda>_ _. new_cost r n enc) 0 (block_pool c) ?ms \<le> get_num_free_blocks (block_pool c)" by linarith
qed

lemma sum_split: "(\<Sum>j<k. f j + g j + h j) = (\<Sum>j<k. f j) + (\<Sum>j<k. g j) + (\<Sum>j<k. h j)" for f g h :: "nat \<Rightarrow> int"
  by (simp add: sum.distrib)

lemma admit_new:
  assumes ok: "coord_ok ext c" and le: "nl + ne \<le> n"
    and st: "list_all2 (\<lambda>ncb. starts r nl ncb (block_pool c)) nc (single_type_managers c)"
    and untracked: "\<not> list_ex (\<lambda>m. num_cached_block m r \<noteq> None) (single_type_managers c)"
    and d: "coord_get_num_blocks_to_allocate r n nc enc (nl + ne) nl False c = Inr d" "d \<le> get_num_free_blocks (block_pool c)"
  shows "\<exists>c1 bs c2. allocate_new_computed_blocks r nc nl ne c = Inr c1 \<and> coord_allocate_new_blocks r n enc c1 = Inr (bs, c2)
    \<and> coord_ok ext c2 \<and> enough_slots r n enc c2"
proof -
  let ?ms = "single_type_managers c" and ?p = "block_pool c" and ?L = "length (single_type_managers c)"
  have inv: "mgrs_inv ext ([] @ ?ms) ?p" using ok by (simp add: coord_ok_def)
  have len: "length nc = ?L" using st by (rule list_all2_lengthD)
  have stj: "starts r nl (nc ! j) ?p (?ms ! j)" "py_get nc (int j) = Inr (nc ! j)" if "j < ?L" for j
    using st that len by (auto simp: list_all2_conv_all_nth py_get_nat)
  obtain D where D: "\<And>j. j < ?L \<Longrightarrow> mgr_demand ?p r n nc enc (nl + ne) nl False (int j) (?ms ! j) = Inr (D j)"
    "d = (\<Sum>j<?L. D j)" using coord_demand [OF d(1)] by blast
  let ?l = "\<lambda>j. local_cost nc (nl + ne) (int j) ?p (?ms ! j)"
  have g: "local_guard r nc (0 + int j) ?p (?ms ! j)" if "j < ?L" for j
    using stj [OF that] by (auto simp: local_guard_def starts_def)
  have lc: "total_cost (local_cost nc (nl + ne)) 0 ?p ?ms = (\<Sum>j<?L. ?l j)" by (simp add: total_cost_def)
  have "total_cost (local_cost nc (nl + ne)) 0 ?p ?ms \<le> (\<Sum>j<?L. D j)"
  proof (rule total_cost_le)
    fix j assume j: "j < ?L"
    show "local_cost nc (nl + ne) (0 + int j) ?p (?ms ! j) \<le> D j"
      using demand_parts(2) [OF stj [OF j] le D(1) [OF j], of "if base_kind (?ms ! j) then with_prefix r (nc ! j) (nl + ne) ?p (?ms ! j) else ?ms ! j"]
      by (cases "base_kind (?ms ! j)") simp_all
  qed
  with D(2) d(2) have "total_cost (local_cost nc (nl + ne)) 0 ?p ?ms \<le> get_num_free_blocks ?p" by linarith
  from local_op.for_mgrs_runs [OF inv g this] obtain rs ms1 p1 where
    run1: "for_mgrs (add_local_op r nc nl ne) 0 ?ms ?p = Inr (rs, ms1, p1)"
    and f1: "get_num_free_blocks ?p - (\<Sum>j<?L. ?l j) \<le> get_num_free_blocks p1" unfolding lc by blast
  have k1: "mgrs_inv ext ms1 p1" "same_config ?p p1" "length ms1 = ?L"
    using local_op.for_mgrs_keeps [OF inv g run1] by simp_all
  have m1: "\<exists>q. (base_kind (?ms ! j) \<longrightarrow> ms1 ! j = with_prefix r (nc ! j) (nl + ne) q (?ms ! j)) \<and> (\<not> base_kind (?ms ! j) \<longrightarrow> ms1 ! j = ?ms ! j)"
    if "j < ?L" for j
    by (rule local_steps [OF inv [simplified] len _ run1 that]) (use stj in blast)
  let ?e = "\<lambda>j. if 0 < ne then external_cost r nl ne (ms1 ! j) else 0"
  have ec: "total_cost (\<lambda>_ _. external_cost r nl ne) 0 p1 ms1 = (\<Sum>j<?L. ?e j)" if "0 < ne"
    using that k1(3) by (simp add: total_cost_def)
  have le12: "?l j + ?e j \<le> D j" if jL: "j < ?L" for j
  proof -
    obtain q where "base_kind (?ms ! j) \<longrightarrow> ms1 ! j = with_prefix r (nc ! j) (nl + ne) q (?ms ! j)" "\<not> base_kind (?ms ! j) \<longrightarrow> ms1 ! j = ?ms ! j"
      using m1 [OF jL] by blast
    then show ?thesis using demand_parts [OF stj [OF jL] le D(1) [OF jL], of "ms1 ! j" q] by auto
  qed
  have "(\<Sum>j<?L. ?l j) + (\<Sum>j<?L. ?e j) \<le> (\<Sum>j<?L. D j)"
    unfolding sum.distrib [symmetric] by (rule sum_mono) (use le12 in simp)
  then have "0 < ne \<Longrightarrow> total_cost (\<lambda>_ _. external_cost r nl ne) 0 p1 ms1 \<le> get_num_free_blocks p1"
    using ec f1 D(2) d(2) by linarith
  from external_phase [OF k1(1) this] obtain rs2 ms2 p2 where
    run2: "if 0 < ne then for_mgrs (\<lambda>_. no_result (allocate_external_computed_blocks r nl ne)) 0 ms1 p1 = Inr (rs2, ms2, p2)
        else ms2 = ms1 \<and> p2 = p1"
    and k2: "mgrs_inv ext ms2 p2" "same_config p1 p2" "length ms2 = length ms1"
    and f2: "get_num_free_blocks p1 - (if 0 < ne then total_cost (\<lambda>_ _. external_cost r nl ne) 0 p1 ms1 else 0) \<le> get_num_free_blocks p2"
    and m2: "\<forall>j < length ms1. same_static (ms1 ! j) (ms2 ! j)
        \<and> (kind (ms1 ! j) = CircularBuffer \<longrightarrow> (if 0 < ne then blocks_of (ms2 ! j) r \<noteq> [] else ms2 ! j = ms1 ! j))
        \<and> (kind (ms1 ! j) \<noteq> CircularBuffer \<longrightarrow> partial_hit_reqs (ms2 ! j) r = partial_hit_reqs (ms1 ! j) r
            \<and> int (length (blocks_of (ms2 ! j) r)) = int (length (blocks_of (ms1 ! j) r)) + (if 0 < ne then external_cost r nl ne (ms1 ! j) else 0))"
    by blast
  let ?c1 = "c\<lparr>single_type_managers := ms2, block_pool := p2\<rparr>"
  have al1: "allocate_new_computed_blocks r nc nl ne c = Inr ?c1"
    using untracked run1 run2
    by (auto simp: allocate_new_computed_blocks_def do_coord_def on_coord_def split: if_splits)
  have ok1: "coord_ok ext ?c1"
  proof -
    have "\<forall>b \<in> set bs. valid_block ?p b" if "bs \<in> set nc" for bs
    proof -
      from that obtain j where "j < ?L" "bs = nc ! j" using len by (auto simp: in_set_conv_nth)
      with stj(1) show ?thesis by (simp add: starts_def)
    qed
    with coord_new_computed_ok [OF ok _ al1] show ?thesis by blast
  qed
  have "\<exists>bs c'. coord_allocate_new_blocks r n enc ?c1 = Inr (bs, c') \<and> coord_ok ext c' \<and> enough_slots r n enc c'"
  proof (rule new_phase [OF ok1])
    show "partial_hit_reqs m r = None" if m: "m \<in> set (single_type_managers ?c1)" "kind m \<noteq> CircularBuffer" for m
    proof -
      obtain j where j: "j < ?L" "m = ms2 ! j" using m k1(3) k2(3) by (auto simp: in_set_conv_nth)
      have "kind (ms1 ! j) \<noteq> CircularBuffer" using m2 j k1(3) m(2) by (auto simp: same_static_def)
      then have "partial_hit_reqs m r = partial_hit_reqs (ms1 ! j) r" using m2 j k1(3) by simp
      also have "\<dots> = partial_hit_reqs (?ms ! j) r" using m1 [OF j(1)] by (cases "base_kind (?ms ! j)") (auto simp: with_prefix_def Let_def set_blocks_def)
      finally show ?thesis using stj [OF j(1)] by (simp add: starts_def)
    qed
    have "?l j + ?e j + new_cost r n enc (ms2 ! j) \<le> D j" if jL: "j < ?L" for j
    proof -
      obtain q where q: "base_kind (?ms ! j) \<longrightarrow> ms1 ! j = with_prefix r (nc ! j) (nl + ne) q (?ms ! j)" "\<not> base_kind (?ms ! j) \<longrightarrow> ms1 ! j = ?ms ! j"
        using m1 [OF jL] by blast
      show ?thesis
        by (rule demand_starts [OF stj [OF jL] le D(1) [OF jL], of "ms1 ! j" q "ms2 ! j" "0 < ne"])
          (use q m2 jL k1(3) in auto)
    qed
    then have "(\<Sum>j<?L. ?l j) + (\<Sum>j<?L. ?e j) + (\<Sum>j<?L. new_cost r n enc (ms2 ! j)) \<le> (\<Sum>j<?L. D j)"
      unfolding sum_split [symmetric] by (intro sum_mono) simp
    moreover have "total_cost (\<lambda>_ _. new_cost r n enc) 0 p2 ms2 = (\<Sum>j<?L. new_cost r n enc (ms2 ! j))"
      using k1(3) k2(3) by (simp add: total_cost_def)
    ultimately show "total_cost (\<lambda>_ _. new_cost r n enc) 0 (block_pool ?c1) (single_type_managers ?c1) \<le> get_num_free_blocks (block_pool ?c1)"
      using f1 f2 ec D(2) d(2) by (auto split: if_splits)
  qed
  with al1 show ?thesis by blast
qed

lemma admit_ready:
  assumes ok: "coord_ok ext c" and rdy: "ready r nl ne n nc c"
    and d: "coord_get_num_blocks_to_allocate r n nc enc (nl + ne) nl False c = Inr d" "d \<le> get_num_free_blocks (block_pool c)"
  shows "\<exists>c1 bs c2. allocate_new_computed_blocks r nc nl ne c = Inr c1 \<and> coord_allocate_new_blocks r n enc c1 = Inr (bs, c2)
    \<and> coord_ok ext c2 \<and> enough_slots r n enc c2"
proof (cases "list_ex (\<lambda>m. num_cached_block m r \<noteq> None) (single_type_managers c)")
  case True
  then have nc: "list_all (\<lambda>bs. bs = []) nc" and "list_all (continues r (nl + ne)) (single_type_managers c)"
    "length nc = length (single_type_managers c)" using rdy by (auto simp: ready_def)
  from admit_running [OF ok this(3) nc this(2) d] True nc show ?thesis by (auto simp: allocate_new_computed_blocks_def)
next
  case False
  then show ?thesis using admit_new [OF ok _ _ False d] rdy by (auto simp: ready_def)
qed

section \<open>Shape of the coordinator\<close>

definition same_shape :: "coord \<Rightarrow> coord \<Rightarrow> bool" where
  "same_shape c c' \<longleftrightarrow> coord_config c' = coord_config c \<and> length (single_type_managers c') = length (single_type_managers c)"

lemma same_shape_refl [simp]: "same_shape c c" by (simp add: same_shape_def)

lemma same_shape_trans: "same_shape c c1 \<Longrightarrow> same_shape c1 c2 \<Longrightarrow> same_shape c c2" by (simp add: same_shape_def)

lemma for_mgrs_length: "for_mgrs f i ms p = Inr (rs, ms', p') \<Longrightarrow> length ms' = length ms"
  by (induction ms arbitrary: i p rs ms' p') (auto simp: bindE_eq_Inr)

lemma on_coord_shape: "on_coord f c = Inr (rs, c') \<Longrightarrow> same_shape c c'"
  by (auto simp: on_coord_Inr same_shape_def dest: for_mgrs_length)

lemma do_coord_shape: "do_coord f c = Inr c' \<Longrightarrow> same_shape c c'"
  by (auto simp: do_coord_Inr dest: on_coord_shape)

lemmas coord_op_defs = coord_free_def coord_remove_skipped_blocks_def coord_cache_blocks_def base_coord_cache_blocks_def
  coord_allocate_new_blocks_def

lemma coord_op_shape:
  "coord_free r c = Inr c' \<Longrightarrow> same_shape c c'"
  "coord_remove_skipped_blocks r n np c = Inr c' \<Longrightarrow> same_shape c c'"
  "coord_cache_blocks q n c = Inr c' \<Longrightarrow> same_shape c c'"
  "coord_allocate_new_blocks r n enc c = Inr (bs, c') \<Longrightarrow> same_shape c c'"
  by (auto simp: coord_op_defs dest: do_coord_shape on_coord_shape split: if_splits)

lemma new_computed_shape:
  assumes "allocate_new_computed_blocks r nc nl ne c = Inr c'"
  shows "same_shape c c'"
proof (cases "list_ex (\<lambda>m. num_cached_block m r \<noteq> None) (single_type_managers c)")
  case True
  with assms show ?thesis by (auto simp: allocate_new_computed_blocks_def bindE_eq_Inr)
next
  case False
  with assms obtain c1 where "same_shape c c1" "c' = c1 \<or> same_shape c1 c'"
    by (auto simp: allocate_new_computed_blocks_def bindE_eq_Inr split: if_splits dest: do_coord_shape)
  then show ?thesis by (auto intro: same_shape_trans)
qed

section \<open>The request's state under the removal of skipped blocks\<close>

definition same_request :: "string \<Rightarrow> mgr \<Rightarrow> mgr \<Rightarrow> bool" where
  "same_request r m m' \<longleftrightarrow> same_static m m' \<and> num_cached_block m' = num_cached_block m
     \<and> partial_hit_reqs m' = partial_hit_reqs m \<and> length (blocks_of m' r) = length (blocks_of m r)"

lemma same_request_refl [simp]: "same_request r m m" by (simp add: same_request_def)

lemma remove_loop_length: "remove_loop null is bs freed = (freed', bs') \<Longrightarrow> length bs' = length bs"
  by (induction "is" arbitrary: bs freed) (auto split: if_splits)

lemma remove_in_range_request: "remove_blocks_in_range r a b (m, p) = Inr (m', p') \<Longrightarrow> same_request r m m'"
  by (auto simp: remove_blocks_in_range_def same_request_def bindE_eq_Inr Let_def split: if_splits prod.splits dest: remove_loop_length)
    (auto simp: set_blocks_def)

lemma same_request_access: "same_request r (access_blocks r m) m' \<Longrightarrow> same_request r m m'"
  by (auto simp: same_request_def access_blocks_def same_static_def) (auto simp: set_blocks_def)

lemma base_remove_request: "base_remove_skipped_blocks r n (m, p) = Inr (m', p') \<Longrightarrow> same_request r m m'"
  unfolding base_remove_skipped_blocks_def prod.case Let_def
  by (cases "get_num_skipped_tokens m n \<le> 0") (auto dest!: remove_in_range_request intro: same_request_access)

lemma remove_skipped_request: "remove_skipped_blocks r n np (m, p) = Inr (m', p') \<Longrightarrow> same_request r m m'"
  by (auto simp: remove_skipped_blocks_def Let_def dest: base_remove_request remove_in_range_request
      split: mgr_kind.splits option.splits)

lemma coord_remove_request:
  "coord_remove_skipped_blocks r n np c = Inr c' \<Longrightarrow> list_all2 (same_request r) (single_type_managers c) (single_type_managers c')"
  by (auto simp: coord_remove_skipped_blocks_def do_coord_Inr on_coord_Inr
      intro!: for_mgrs_all2 [of "\<lambda>_. no_result (remove_skipped_blocks r n np)"] dest: remove_skipped_request)

lemma same_request_ready:
  assumes "list_all2 (same_request r) (single_type_managers c) (single_type_managers c')" "same_config (block_pool c) (block_pool c')"
  shows "ready r nl ne n nc c \<Longrightarrow> ready r nl ne n nc c'"
    and "list_all (continues r tot) (single_type_managers c) \<Longrightarrow> list_all (continues r tot) (single_type_managers c')"
proof -
  let ?ms = "single_type_managers c" and ?ms' = "single_type_managers c'"
  have len: "length ?ms' = length ?ms" using assms(1) by (simp add: list_all2_lengthD)
  have eq: "num_cached_block (?ms' ! j) r = num_cached_block (?ms ! j) r"
    "continues r t (?ms' ! j) = continues r t (?ms ! j)"
    "starts r nl ncb (block_pool c') (?ms' ! j) = starts r nl ncb (block_pool c) (?ms ! j)" if "j < length ?ms" for j ncb t
    using list_all2_nthD [OF assms(1) that] same_config_dest(5) [OF assms(2)]
    by (auto simp: same_request_def same_static_def continues_def starts_def base_kind_def skip_blocks_def get_num_skipped_tokens_def)
  show "list_all (continues r tot) ?ms \<Longrightarrow> list_all (continues r tot) ?ms'"
    using eq(2) len by (auto simp: list_all_length)
  have "list_ex (\<lambda>m. num_cached_block m r \<noteq> None) ?ms' = list_ex (\<lambda>m. num_cached_block m r \<noteq> None) ?ms"
    using eq(1) len by (auto simp: list_ex_length)
  then show "ready r nl ne n nc c \<Longrightarrow> ready r nl ne n nc c'"
    using eq(2,3) len by (auto simp: ready_def list_all_length list_all2_conv_all_nth split: if_splits)
qed

section \<open>The KV-cache manager\<close>

text \<open>\<open>held\<close>: blocks the scheduler took over (popped blocks, endpoints of copies) and has not released.\<close>

definition held_refs :: "bref list \<Rightarrow> bref \<Rightarrow> int" where
  "held_refs held b = int (count_list held b)"

definition kvm_ok :: "bref list \<Rightarrow> kvm \<Rightarrow> bool" where
  "kvm_ok held k \<longleftrightarrow> coord_ok (held_refs held) (coordinator k) \<and> (\<forall>b \<in> set held. valid_block (kvm_pool k) b)
     \<and> num_kv_cache_groups k = length (single_type_managers (coordinator k))"

lemma kvm_ok_coord:
  assumes "kvm_ok held k" "coord_ok (held_refs held) c" "same_shape (coordinator k) c" "same_config (kvm_pool k) (block_pool c)"
  shows "kvm_ok held (k\<lparr>coordinator := c\<rparr>)"
  using assms same_config_dest(5) [OF assms(4)] by (auto simp: kvm_ok_def kvm_pool_def num_kv_cache_groups_def same_shape_def)

text \<open>What the prediction needs in order not to raise.\<close>

lemma foldE_sum_total:
  "\<forall>y \<in> set ys. \<exists>k. f y = Inr k \<Longrightarrow> \<exists>n. foldE (\<lambda>y n. bindE (f y) (\<lambda>k. Inr (n + k))) ys (a :: int) = Inr n"
  by (induction ys arbitrary: a) auto

lemma demand_total:
  assumes "length nc = length (single_type_managers c)"
    and "\<And>j. j < length nc \<Longrightarrow> num_cached_block (single_type_managers c ! j) r \<noteq> None \<Longrightarrow> nc ! j = []"
  shows "\<exists>d. coord_get_num_blocks_to_allocate r n nc enc tot nl cap c = Inr d"
proof -
  let ?f = "\<lambda>(i, m). mgr_demand (block_pool c) r n nc enc tot nl cap i m"
  have "\<exists>k. ?f y = Inr k" if y: "y \<in> set (enum (single_type_managers c))" for y
  proof -
    obtain j where "j < length nc" "y = (int j, single_type_managers c ! j)"
      using y assms(1) by (auto simp: in_set_conv_nth enum_nth)
    with assms(2) show ?thesis by (simp add: mgr_demand_def get_num_blocks_to_allocate_def py_get_nat Let_def)
  qed
  from foldE_sum_total [of "enum (single_type_managers c)" ?f 0] this show ?thesis
    by (simp add: coord_get_num_blocks_to_allocate_def case_prod_unfold)
qed

lemma ready_demand:
  assumes "ready r nl ne n nc c"
  shows "\<exists>d. coord_get_num_blocks_to_allocate r n' nc enc tot nl' cap c = Inr d"
  by (rule demand_total) (use assms in \<open>auto simp: ready_def list_all_length list_ex_length split: if_splits\<close>)

text \<open>The arguments of \<open>allocate_slots\<close>: cache hits and external tokens need \<open>ready\<close>, a plain extension only \<open>continues\<close>.\<close>

definition hit_list :: "coord \<Rightarrow> bref list list option \<Rightarrow> bref list list" where
  "hit_list c nc = (case nc of None \<Rightarrow> replicate (length (single_type_managers c)) [] | Some bs \<Rightarrow> bs)"

definition slots_ready :: "string \<Rightarrow> int \<Rightarrow> int \<Rightarrow> int \<Rightarrow> bref list list option \<Rightarrow> coord \<Rightarrow> bool" where
  "slots_ready r nl ne n new_computed c \<longleftrightarrow>
     (if new_computed \<noteq> None \<or> 0 < ne
      then ready r nl ne n (hit_list c new_computed) c
      else list_all (continues r (nl + ne)) (single_type_managers c))"

lemma slots_ready_keeps:
  assumes "list_all2 (same_request r) (single_type_managers c) (single_type_managers c')" "same_config (block_pool c) (block_pool c')"
    and "slots_ready r nl ne n nc c"
  shows "slots_ready r nl ne n nc c'"
proof -
  have "hit_list c' nc = hit_list c nc" using list_all2_lengthD [OF assms(1)] by (simp add: hit_list_def split: option.split)
  with assms(3) same_request_ready [OF assms(1,2)] show ?thesis by (simp add: slots_ready_def split: if_splits)
qed

lemma ready_valid:
  assumes "ready r nl ne n nc c"
  shows "\<forall>bs \<in> set nc. \<forall>b \<in> set bs. valid_block (block_pool c) b"
proof (cases "list_ex (\<lambda>m. num_cached_block m r \<noteq> None) (single_type_managers c)")
  case True
  with assms have "list_all (\<lambda>bs. bs = []) nc" by (simp add: ready_def)
  then show ?thesis by (auto simp: list_all_iff)
next
  case False
  with assms have "list_all2 (\<lambda>ncb. starts r nl ncb (block_pool c)) nc (single_type_managers c)" by (simp add: ready_def)
  then show ?thesis by (induction rule: list_all2_induct) (auto simp: starts_def)
qed

lemma slots_ready_demand:
  assumes "slots_ready r nl ne n nc c"
  shows "\<exists>d. coord_get_num_blocks_to_allocate r n' (hit_list c nc) enc tot nl' cap c = Inr d"
proof (cases "nc \<noteq> None \<or> 0 < ne")
  case True
  with assms ready_demand show ?thesis by (auto simp: slots_ready_def)
next
  case False
  then have "hit_list c nc = replicate (length (single_type_managers c)) []" by (auto simp: hit_list_def)
  then show ?thesis using demand_total [of "replicate (length (single_type_managers c)) []" c r] by simp
qed

lemma hit_list_eq:
  "kvm_ok held k \<Longrightarrow> (case nc of None \<Rightarrow> empty_kv_cache_blocks k | Some bs \<Rightarrow> bs) = hit_list (coordinator k) nc"
  by (simp add: kvm_ok_def empty_kv_cache_blocks_def hit_list_def split: option.split)

text \<open>Caching leaves the blocks of every request as they are.\<close>

definition same_blocks :: "mgr \<Rightarrow> mgr \<Rightarrow> bool" where
  "same_blocks m m' \<longleftrightarrow> same_static m m' \<and> blocks_of m' = blocks_of m"

lemma same_blocks_trans: "same_blocks m m1 \<Longrightarrow> same_blocks m1 m2 \<Longrightarrow> same_blocks m m2"
  by (auto simp: same_blocks_def intro: same_static_trans)

lemma same_blocks_access [simp]: "same_blocks m m" "same_blocks m (access_blocks r m)"
  by (auto simp: same_blocks_def access_blocks_def)

lemma cache_blocks_same_blocks:
  assumes "cache_blocks r n ret (m, p) = Inr (m', p')"
  shows "same_blocks m m'"
proof -
  have upd: "same_blocks m1 (m2\<lparr>num_cached_block := f\<rparr>) \<longleftrightarrow> same_blocks m1 m2" for m1 m2 f
    by (simp add: same_blocks_def same_static_def blocks_of_def fun_eq_iff)
  have base: "same_blocks m m1" if "base_cache_blocks r n ret (m, p) = Inr (m1, p1)" for m1 p1
    using that by (auto simp: base_cache_blocks_def bindE_eq_Inr Let_def upd split: if_splits)
  have tail: "same_blocks m1 m2" if "cache_partial_tail_block r n (m1, p1) = Inr (m2, p2)" for m1 p1 m2 p2
    using that by (auto simp: cache_partial_tail_block_def bindE_eq_Inr Let_def split: if_splits)
  show ?thesis
    using assms by (auto simp: cache_blocks_def bindE_eq_Inr split: mgr_kind.splits if_splits
        dest: base tail intro: same_blocks_trans)
qed

lemma do_coord_all2:
  assumes "\<And>i m p m' p'. f i (m, p) = Inr (m', p') \<Longrightarrow> Q m m'" "do_coord f c = Inr c'"
  shows "list_all2 Q (single_type_managers c) (single_type_managers c')"
  using assms for_mgrs_all2 [of "\<lambda>i. no_result (f i)" Q]
  by (fastforce simp: do_coord_Inr on_coord_Inr no_result_def bindE_eq_Inr)

lemma coord_cache_same_blocks:
  assumes "coord_cache_blocks r n c = Inr c'"
  shows "list_all2 same_blocks (single_type_managers c) (single_type_managers c')"
proof (cases "coord_class c = Hybrid")
  case True
  with assms show ?thesis
    by (intro do_coord_all2 [where f = "\<lambda>_ s. cache_blocks r (hybrid_tokens_to_cache c n (fst s)) (retention_interval c) s"])
      (auto simp: coord_cache_blocks_def dest: cache_blocks_same_blocks)
next
  case False
  with assms show ?thesis
    by (intro do_coord_all2 [where f = "\<lambda>_. cache_blocks r (max 0 (n - num_reprefillable_tokens c)) (retention_interval c)"])
      (auto simp: coord_cache_blocks_def base_coord_cache_blocks_def dest: cache_blocks_same_blocks)
qed

lemma same_blocks_enough:
  "list_all2 same_blocks (single_type_managers c) (single_type_managers c') \<Longrightarrow> enough_slots r n enc c \<Longrightarrow> enough_slots r n enc c'"
  unfolding enough_slots_def list_all2_conv_all_nth all_set_conv_all_nth same_blocks_def same_static_def by simp

lemma kvm_cache_keeps:
  assumes ok: "kvm_ok held k" and np: "0 \<le> num_prompt_tokens q" and run: "kvm_cache_blocks q t k = Inr k'"
  shows "kvm_ok held k' \<and> (enough_slots r n enc (coordinator k) \<longrightarrow> enough_slots r n enc (coordinator k'))"
proof (cases "kvm_enable_caching k")
  case True
  with run obtain c where c: "coord_cache_blocks q t (coordinator k) = Inr c" and k': "k' = k\<lparr>coordinator := c\<rparr>"
    by (auto simp: kvm_cache_blocks_def on_coordinator_def bindE_eq_Inr)
  have "coord_ok (held_refs held) c \<and> same_config (kvm_pool k) (block_pool c)"
    using coord_cache_ok [OF _ np c, of "held_refs held"] ok by (simp add: kvm_ok_def kvm_pool_def)
  then have "kvm_ok held k'" using kvm_ok_coord [OF ok _ coord_op_shape(3) [OF c]] by (simp add: k')
  with same_blocks_enough [OF coord_cache_same_blocks [OF c]] show ?thesis by (simp add: k')
next
  case False
  with run ok show ?thesis by (simp add: kvm_cache_blocks_def)
qed

text \<open>The allocation after the check: the blocks are provided, then \<open>kvm_cache_blocks\<close> runs unless it is delayed.\<close>

lemma allocate_then_cache:
  assumes ok: "kvm_ok held k" and rdy: "slots_ready (req_id r) nl ne n nc (coordinator k)"
    and l: "l = hit_list (coordinator k) nc"
    and d: "coord_get_num_blocks_to_allocate (req_id r) n l enc (nl + ne) nl False (coordinator k) = Inr d"
      "d \<le> get_num_free_blocks (kvm_pool k)"
  shows "\<exists>bs k'. allocate_and_cache r num_new nc l n tot nl ne enc delay k
      = bindE (if delay then Inr k' else kvm_cache_blocks r (min (tot + num_new) (num_tokens r)) k') (\<lambda>k''. Inr (Some bs, k''))
    \<and> kvm_ok held k' \<and> enough_slots (req_id r) n enc (coordinator k')"
proof -
  let ?c = "coordinator k"
  have cok: "coord_ok (held_refs held) ?c" using ok by (simp add: kvm_ok_def)
  note d' = d [unfolded kvm_pool_def]
  obtain c1 bs c2 where a: "(if nc \<noteq> None \<or> 0 < ne then allocate_new_computed_blocks (req_id r) l nl ne ?c else Inr ?c) = Inr c1"
    "coord_allocate_new_blocks (req_id r) n enc c1 = Inr (bs, c2)" "coord_ok (held_refs held) c2" "enough_slots (req_id r) n enc c2"
    and c1: "coord_ok (held_refs held) c1" "same_config (block_pool ?c) (block_pool c1)" "same_shape ?c c1"
  proof (cases "nc \<noteq> None \<or> 0 < ne")
    case True
    then have rd: "ready (req_id r) nl ne n l ?c" using rdy l by (simp add: slots_ready_def)
    obtain c1 bs c2 where *: "allocate_new_computed_blocks (req_id r) l nl ne ?c = Inr c1"
      "coord_allocate_new_blocks (req_id r) n enc c1 = Inr (bs, c2)" "coord_ok (held_refs held) c2" "enough_slots (req_id r) n enc c2"
      using admit_ready [OF cok rd d'] by blast
    from that [OF _ *(2-4)] coord_new_computed_ok [OF cok ready_valid [OF rd] *(1)] new_computed_shape [OF *(1)] *(1) True
    show ?thesis by simp
  next
    case False
    then have cont: "list_all (continues (req_id r) (nl + ne)) (single_type_managers ?c)" "l = replicate (length (single_type_managers ?c)) []"
      using rdy l by (auto simp: slots_ready_def hit_list_def)
    have "length l = length (single_type_managers ?c)" "list_all (\<lambda>bs. bs = []) l" by (simp_all add: cont(2) list_all_iff)
    from admit_running [OF cok this cont(1) d'] that [of ?c] cok False show ?thesis by auto
  qed
  have sc: "same_config (kvm_pool k) (block_pool c2)"
    using coord_allocate_new_ok [OF c1(1) a(2)] same_config_trans [OF c1(2)] unfolding kvm_pool_def by blast
  have "kvm_ok held (k\<lparr>coordinator := c2\<rparr>)"
    by (rule kvm_ok_coord [OF ok a(3) same_shape_trans [OF c1(3) coord_op_shape(4) [OF a(2)]] sc])
  moreover have "allocate_and_cache r num_new nc l n tot nl ne enc delay k
    = bindE (if delay then Inr (k\<lparr>coordinator := c2\<rparr>) else kvm_cache_blocks r (min (tot + num_new) (num_tokens r)) (k\<lparr>coordinator := c2\<rparr>))
        (\<lambda>k''. Inr (Some (create_kv_cache_blocks k bs), k''))"
    unfolding allocate_and_cache_def a(1) bindE_simps a(2) prod.case
    by (simp add: kvm_cache_blocks_def on_coordinator_def split: sum.split) (simp add: bindE_def split: sum.split)
  ultimately show ?thesis using a(4) by (intro exI [of _ "create_kv_cache_blocks k bs"] exI [of _ "k\<lparr>coordinator := c2\<rparr>"]) simp
qed

text \<open>
  Why \<open>allocate_slots\<close> may refuse a request: the whole sequence was asked for and its predicted
  demand exceeds the free blocks, or, once the blocks outside the attention window are released, the
  predicted demand of this step exceeds the free blocks that are not reserved.  \<open>k'\<close> is the state
  it returns.
\<close>

definition refused ::
    "request \<Rightarrow> bref list list \<Rightarrow> int \<Rightarrow> int \<Rightarrow> int \<Rightarrow> int \<Rightarrow> bool \<Rightarrow> int \<Rightarrow> int \<Rightarrow> kvm \<Rightarrow> kvm \<Rightarrow> bool" where
  "refused r l n nl ne enc must_fit reserved w k k' \<longleftrightarrow>
     (must_fit \<and> k' = k
       \<and> satisfies (\<lambda>d. get_num_free_blocks (kvm_pool k) < d + w)
           (coord_get_num_blocks_to_allocate (req_id r) (min (num_tokens r) (max_model_len k)) l enc
              (min (nl + ne) (max_model_len k)) nl True (coordinator k)))
     \<or> satisfies (\<lambda>d. get_num_free_blocks (kvm_pool k') - reserved < d + w)
         (coord_get_num_blocks_to_allocate (req_id r) n l enc (nl + ne) nl False (coordinator k'))"

lemma allocate_slots_result:
  assumes ok: "kvm_ok held k" and "\<not> (num_new = 0 \<and> num_external = 0)" and "0 \<le> num_prompt_tokens r"
    and wm: "0 \<le> watermark_blocks k" "0 \<le> reserved" and nl: "nl = num_computed_tokens r + num_new_computed"
    and n: "n = min (min (nl + num_external) (max_model_len k) + num_new + num_lookahead) (max_model_len k)"
    and rdy: "slots_ready (req_id r) nl num_external n new_computed (coordinator k)"
    and w: "w = (if sched \<and> (status r = WAITING \<or> status r = PREEMPTED) then watermark_blocks k else 0)"
    and A: "A = allocate_slots r num_new num_new_computed new_computed num_lookahead num_external delay enc must_fit reserved sched k"
  shows "(\<exists>k'. A = Inr (None, k') \<and> kvm_ok held k'
        \<and> refused r (hit_list (coordinator k) new_computed) n nl num_external enc must_fit reserved w k k')
    \<or> (\<exists>bs k'. A = bindE (if delay then Inr k'
          else kvm_cache_blocks r (min (min (nl + num_external) (max_model_len k) + num_new) (num_tokens r)) k') (\<lambda>k''. Inr (Some bs, k''))
        \<and> kvm_ok held k' \<and> enough_slots (req_id r) n enc (coordinator k'))"
proof -
  let ?c = "coordinator k" and ?tot = "min (nl + num_external) (max_model_len k)"
  define l where "l = hit_list ?c new_computed"
  have w0: "0 \<le> w" using wm(1) by (simp add: w)
  obtain d0 where d0: "coord_get_num_blocks_to_allocate (req_id r) (min (num_tokens r) (max_model_len k)) l enc ?tot nl True ?c = Inr d0"
    using slots_ready_demand [OF rdy] unfolding l_def by blast
  define fits where "fits = (must_fit \<longrightarrow> d0 + w \<le> get_num_free_blocks (kvm_pool k))"
  have fits: "(if must_fit then fits_full_sequence r l enc ?tot nl w k else Inr True) = Inr fits"
    by (simp add: fits_full_sequence_def d0 fits_def)
  have cok: "coord_ok (held_refs held) ?c" using ok by (simp add: kvm_ok_def)
  obtain c1 where c1: "coord_remove_skipped_blocks (req_id r) (max 0 (?tot - num_in_flight_tokens r)) (Some (num_prompt_tokens r)) ?c = Inr c1"
    "coord_ok (held_refs held) c1" "same_config (block_pool ?c) (block_pool c1)"
    using coord_remove_ok [OF cok, of "Some (num_prompt_tokens r)"] assms(3) by fastforce
  let ?k1 = "k\<lparr>coordinator := c1\<rparr>"
  note shape = coord_op_shape(2) [OF c1(1)]
  have ok1: "kvm_ok held ?k1"
    by (rule kvm_ok_coord [OF ok c1(2) shape]) (use c1(3) in \<open>simp add: kvm_pool_def\<close>)
  have rdy1: "slots_ready (req_id r) nl num_external n new_computed c1"
    by (rule slots_ready_keeps [OF coord_remove_request [OF c1(1)] c1(3) rdy])
  have l1: "l = hit_list c1 new_computed" using shape by (simp add: l_def hit_list_def same_shape_def split: option.split)
  obtain d where d: "coord_get_num_blocks_to_allocate (req_id r) n l enc (nl + num_external) nl False c1 = Inr d"
    using slots_ready_demand [OF rdy1] unfolding l1 by blast
  let ?R = "allocate_and_cache r num_new new_computed l n ?tot nl num_external enc delay ?k1"
  have eq: "A = (if \<not> fits then Inr (None, k)
       else if get_num_free_blocks (kvm_pool ?k1) - reserved < d + w then Inr (None, ?k1) else ?R)"
    unfolding A allocate_slots_def Let_def hit_list_eq [OF ok] w [symmetric] nl [symmetric] n [symmetric] l_def [symmetric]
    using assms(2) by (simp only: fits c1(1) d bindE_simps if_False)
  consider "\<not> fits" | "fits" "get_num_free_blocks (kvm_pool ?k1) - reserved < d + w"
    | "fits" "\<not> get_num_free_blocks (kvm_pool ?k1) - reserved < d + w" by blast
  then show ?thesis
  proof cases
    case 1
    then have "refused r l n nl num_external enc must_fit reserved w k k" by (simp add: refused_def d0 fits_def satisfies_def)
    with 1 eq ok show ?thesis unfolding l_def by auto
  next
    case 2
    then have "refused r l n nl num_external enc must_fit reserved w k ?k1" by (simp add: refused_def d satisfies_def)
    with 2 eq ok1 show ?thesis unfolding l_def by auto
  next
    case 3
    with eq have "A = ?R" by simp
    moreover have "d \<le> get_num_free_blocks (kvm_pool ?k1)" using 3(2) w0 wm(2) by linarith
    ultimately show ?thesis
      using allocate_then_cache [OF ok1, of r nl num_external n new_computed l enc d num_new ?tot delay] rdy1 l1 d by auto
  qed
qed

end
