(* ===== verification/KVM_Steps.thy ===== *)
theory KVM_Steps
  imports KVM_Props
begin

text \<open>
  The KV-cache manager as a state machine: a state is the manager together with the blocks that
  the scheduler has taken over and not yet released.  Every operation of the manager that
  returns keeps the reference accounting, so no sequence of operations leaks a block or frees
  one twice.
\<close>

section \<open>Changes that keep the accounting\<close>

lemma mgrs_inv_pool:
  assumes "mgrs_inv ext ms p" "same_refs p p'" "cache_inv p'"
  shows "mgrs_inv ext ms p'"
  using assms(1) mgr_ok_config [OF same_refs_config [OF assms(2)]] refs_ok_same [OF assms(2)] same_refs_pool [OF assms(2,3)]
  by (auto simp: mgrs_inv_def)

lemma kvm_ok_pool:
  assumes ok: "kvm_ok held k" and p': "same_refs (kvm_pool k) p'" "cache_inv p'"
  shows "kvm_ok held (on_pool (\<lambda>_. p') k)"
  using ok mgrs_inv_pool [OF _ p'(1) [unfolded kvm_pool_def] p'(2)] same_config_dest(5) [OF same_refs_config [OF p'(1)]]
    same_refs_config [OF p'(1)]
  by (auto simp: kvm_ok_def coord_ok_def on_pool_def kvm_pool_def num_kv_cache_groups_def same_config_def)

lemma kvm_ok_cache_inv: "kvm_ok held k \<Longrightarrow> \<exists>xs. pool_inv (kvm_pool k) xs \<and> cache_inv (kvm_pool k)"
  by (auto simp: kvm_ok_def coord_ok_def mgrs_inv_def kvm_pool_def pool_inv_def)

text \<open>A manager whose tables and copies count the same references.\<close>

definition same_account :: "pool \<Rightarrow> mgr \<Rightarrow> mgr \<Rightarrow> bool" where
  "same_account p m m' \<longleftrightarrow> same_static m m' \<and> (mgr_ok p m \<longrightarrow> mgr_ok p m' \<and> (\<forall>b. mgr_refs m' b = mgr_refs m b))"

lemma same_account_tables: "same_static m m' \<Longrightarrow> same_tables m m' \<Longrightarrow> same_account p m m'"
  by (simp add: same_account_def same_tables_refs mgr_ok_def) (simp add: same_tables_def)

lemma same_account_access: "same_account p m (access_blocks r m)"
  by (auto simp: same_account_def mgr_refs_access) (auto simp: access_blocks_def mgr_ok_def intro!: mgr_ok_set_blocks, auto simp: set_blocks_def)

lemma same_account_trans: "same_account p m m1 \<Longrightarrow> same_account p m1 m2 \<Longrightarrow> same_account p m m2"
  by (auto simp: same_account_def intro: same_static_trans)

lemma mgrs_inv_account:
  assumes "list_all2 (same_account p) ms ms'" "mgrs_inv ext ms p"
  shows "mgrs_inv ext ms' p"
proof -
  have "(\<forall>m \<in> set ms'. mgr_ok p m) \<and> (\<forall>b. all_refs ms' b = all_refs ms b)" if "\<forall>m \<in> set ms. mgr_ok p m"
    using assms(1) that by (induction rule: list_all2_induct) (auto simp: same_account_def)
  with assms(2) show ?thesis by (auto simp: mgrs_inv_def)
qed

lemma kvm_ok_account:
  assumes ok: "kvm_ok held k" and la: "list_all2 (same_account (kvm_pool k)) (single_type_managers (coordinator k)) ms"
  shows "kvm_ok held (k\<lparr>coordinator := (coordinator k)\<lparr>single_type_managers := ms\<rparr>\<rparr>)"
proof -
  have "list_all2 same_static (single_type_managers (coordinator k)) ms"
    using la by (rule list_all2_mono) (simp add: same_account_def)
  then show ?thesis
    using ok mgrs_inv_account [OF la [unfolded kvm_pool_def]] static_block_size list_all2_lengthD [OF la]
    by (auto simp: kvm_ok_def coord_ok_def kvm_pool_def num_kv_cache_groups_def)
qed

lemma kvm_ok_on_managers:
  assumes "kvm_ok held k" "on_managers f k = (xs, k')" "\<And>m. same_account (kvm_pool k) m (snd (f m))"
  shows "kvm_ok held k'"
  using kvm_ok_account [OF assms(1), of "map (snd \<circ> f) (single_type_managers (coordinator k))"] assms(2,3)
  by (auto simp: on_managers_def Let_def list_all2_conv_all_nth)

section \<open>Lookups and allocation\<close>

lemma emit_hit_events_ok:
  assumes "kvm_ok held k" "emit_hit_events r computed k = Inr k'"
  shows "kvm_ok held k'"
proof -
  have step: "kvm_ok held k2" if "kvm_ok held k1"
    "(if bs = [] then Inr k1 else bindE (py_get (kv_cache_groups (coord_config (coordinator k1))) i) (\<lambda>g.
        bindE (emit_cached_block_events r (int (length bs)) (spec_bs (kv_cache_spec g)) i (kvm_pool k1)) (\<lambda>p.
          Inr (on_pool (\<lambda>_. p) k1)))) = Inr k2" for k1 k2 i bs
  proof (cases "bs = []")
    case False
    from that(2) [unfolded if_not_P [OF False] bindE_eq_Inr sum.inject] obtain g :: kv_group and p where
      p: "emit_cached_block_events r (int (length bs)) (spec_bs (kv_cache_spec g)) i (kvm_pool k1) = Inr p"
      and k2: "k2 = on_pool (\<lambda>_. p) k1" by blast
    have "cache_inv p" using emit_cached_result [OF p] kvm_ok_cache_inv [OF that(1)] same_cache_inv by blast
    with emit_cached_result [OF p] kvm_ok_pool [OF that(1)] show ?thesis by (simp add: k2)
  qed (use that in simp)
  have "foldE (\<lambda>(i, bs) k. if bs = [] then Inr k
        else bindE (py_get (kv_cache_groups (coord_config (coordinator k))) i) (\<lambda>g.
             bindE (emit_cached_block_events r (int (length bs)) (spec_bs (kv_cache_spec g)) i (kvm_pool k)) (\<lambda>p.
               Inr (on_pool (\<lambda>_. p) k)))) ys k1 = Inr k2 \<Longrightarrow> kvm_ok held k1 \<Longrightarrow> kvm_ok held k2" for ys k1 k2
  proof (induction ys arbitrary: k1)
    case (Cons y ys)
    from Cons.prems(1) show ?case
      unfolding foldE.simps bindE_eq_Inr by (cases y) (auto dest: step [OF Cons.prems(2)] intro: Cons.IH simp del: foldE.simps)
  qed simp
  from this [OF assms(2) [unfolded emit_hit_events_def] assms(1)] show ?thesis .
qed

lemma get_computed_blocks_ok:
  assumes "kvm_ok held k" "get_computed_blocks r k = Some (Inr (x, k'))"
  shows "kvm_ok held k'"
proof (cases "prefix_cache_lookup_enabled k r")
  case True
  then obtain m where "bindE m (\<lambda>(computed, n, u).
      bindE (if 0 < n \<and> kvm_enable_kv_cache_events k \<and> kv_cache_report_full r then emit_hit_events r computed k else Inr k) (\<lambda>k1.
        Inr ((create_kv_cache_blocks k1 computed, n, if u \<noteq> 0 then n + u else 0), k1))) = Inr (x, k')"
    using assms(2) by (auto simp: get_computed_blocks_def split: option.splits)
  then obtain computed and n :: int where
    "(if 0 < n \<and> kvm_enable_kv_cache_events k \<and> kv_cache_report_full r then emit_hit_events r computed k else Inr k) = Inr k'"
    unfolding bindE_eq_Inr split_paired_Ex prod.case sum.inject prod.inject by blast
  with assms(1) emit_hit_events_ok show ?thesis by (auto split: if_splits)
qed (use assms in \<open>simp add: get_computed_blocks_def\<close>)

lemma allocate_and_cache_ok:
  assumes ok: "kvm_ok held k" and np: "0 \<le> num_prompt_tokens r" and valid: "\<forall>bs \<in> set l. \<forall>b \<in> set bs. valid_block (kvm_pool k) b"
    and run: "allocate_and_cache r num_new nc l n tot nl ne enc delay k = Inr (res, k')"
  shows "kvm_ok held k'"
proof -
  let ?c = "coordinator k"
  have cok: "coord_ok (held_refs held) ?c" using ok by (simp add: kvm_ok_def)
  from run obtain c1 bs c2 where a1: "(if nc \<noteq> None \<or> 0 < ne then allocate_new_computed_blocks (req_id r) l nl ne ?c else Inr ?c) = Inr c1"
    and a2: "coord_allocate_new_blocks (req_id r) n enc c1 = Inr (bs, c2)"
    and a3: "k' = k\<lparr>coordinator := c2\<rparr> \<or> (\<exists>c3 t. coord_cache_blocks r t c2 = Inr c3 \<and> k' = k\<lparr>coordinator := c3\<rparr>)"
    unfolding allocate_and_cache_def bindE_eq_Inr split_paired_Ex prod.case
    by (cases "\<not> kvm_enable_caching k \<or> delay") (simp_all add: bindE_eq_Inr, blast+)
  have c1: "coord_ok (held_refs held) c1 \<and> same_config (block_pool ?c) (block_pool c1) \<and> same_shape ?c c1"
    using a1 coord_new_computed_ok [OF cok valid [unfolded kvm_pool_def]] new_computed_shape cok by (auto split: if_splits)
  have c2: "coord_ok (held_refs held) c2 \<and> same_config (block_pool ?c) (block_pool c2) \<and> same_shape ?c c2"
    using c1 coord_allocate_new_ok [OF _ a2] coord_op_shape(4) [OF a2] same_config_trans same_shape_trans by blast
  from a3 show ?thesis
  proof (elim disjE exE conjE)
    assume "k' = k\<lparr>coordinator := c2\<rparr>"
    with kvm_ok_coord [OF ok] c2 show ?thesis by (simp add: kvm_pool_def)
  next
    fix c3 t assume a: "coord_cache_blocks r t c2 = Inr c3" "k' = k\<lparr>coordinator := c3\<rparr>"
    have "coord_ok (held_refs held) c3 \<and> same_config (block_pool ?c) (block_pool c3) \<and> same_shape ?c c3"
      using c2 coord_cache_ok [OF _ np a(1)] coord_op_shape(3) [OF a(1)] same_config_trans same_shape_trans by blast
    with kvm_ok_coord [OF ok] a(2) show ?thesis by (simp add: kvm_pool_def)
  qed
qed

lemma allocate_slots_ok:
  assumes ok: "kvm_ok held k" and np: "0 \<le> num_prompt_tokens r"
    and valid: "\<forall>nc. new_computed = Some nc \<longrightarrow> (\<forall>bs \<in> set nc. \<forall>b \<in> set bs. valid_block (kvm_pool k) b)"
    and run: "allocate_slots r num_new num_new_computed new_computed num_lookahead num_external delay enc must_fit reserved sched k = Inr (res, k')"
  shows "kvm_ok held k'"
proof -
  let ?nl = "num_computed_tokens r + num_new_computed" and ?c = "coordinator k"
  let ?tot = "min (?nl + num_external) (max_model_len k)" and ?l = "hit_list ?c new_computed"
  have cok: "coord_ok (held_refs held) ?c" using ok by (simp add: kvm_ok_def)
  have vl: "\<forall>bs \<in> set ?l. \<forall>b \<in> set bs. valid_block (kvm_pool k) b" using valid by (cases new_computed) (auto simp: hit_list_def)
  define n where "n = min (?tot + num_new + num_lookahead) (max_model_len k)"
  have cases: "k' = k \<or> (\<exists>c1. coord_remove_skipped_blocks (req_id r) (max 0 (?tot - num_in_flight_tokens r)) (Some (num_prompt_tokens r)) ?c = Inr c1
      \<and> (k' = k\<lparr>coordinator := c1\<rparr> \<or> allocate_and_cache r num_new new_computed ?l n ?tot ?nl num_external enc delay (k\<lparr>coordinator := c1\<rparr>) = Inr (res, k')))"
    using run unfolding allocate_slots_def Let_def hit_list_eq [OF ok] n_def [symmetric]
    by (auto simp: bindE_eq_Inr split: if_splits)
  then show ?thesis
  proof (elim disjE exE conjE)
    fix c1 assume c1: "coord_remove_skipped_blocks (req_id r) (max 0 (?tot - num_in_flight_tokens r)) (Some (num_prompt_tokens r)) ?c = Inr c1"
    obtain "coord_ok (held_refs held) c1" "same_config (block_pool ?c) (block_pool c1)"
      using coord_remove_ok [OF cok, of "Some (num_prompt_tokens r)" "req_id r" "max 0 (?tot - num_in_flight_tokens r)"] c1 np by auto
    note k1 = kvm_ok_coord [OF ok this(1) coord_op_shape(2) [OF c1]] this(2)
    then have ok1: "kvm_ok held (k\<lparr>coordinator := c1\<rparr>)" by (simp add: kvm_pool_def)
    { assume "k' = k\<lparr>coordinator := c1\<rparr>" with ok1 show ?thesis by simp }
    { assume a: "allocate_and_cache r num_new new_computed ?l n ?tot ?nl num_external enc delay (k\<lparr>coordinator := c1\<rparr>) = Inr (res, k')"
      have "\<forall>bs \<in> set ?l. \<forall>b \<in> set bs. valid_block (kvm_pool (k\<lparr>coordinator := c1\<rparr>)) b"
        using vl same_config_dest(5) [OF k1(2)] by (simp add: kvm_pool_def)
      from allocate_and_cache_ok [OF ok1 np this a] show ?thesis . }
  qed (use ok in simp)
qed

section \<open>Operations over the coordinator\<close>

lemma coord_free_kvm_ok:
  assumes "kvm_ok held k"
  shows "\<exists>k'. kvm_free r k = Inr k' \<and> kvm_ok held k'
    \<and> (\<forall>m \<in> set (single_type_managers (coordinator k')). blocks_of m (req_id r) = [])"
proof -
  let ?c = "coordinator k" and ?r = "req_id r"
  have ok: "coord_ok (held_refs held) ?c" using assms by (simp add: kvm_ok_def)
  obtain c where c: "coord_free ?r ?c = Inr c" "coord_ok (held_refs held) c" using coord_free_ok [OF ok] by blast
  then obtain rs ms p where run: "for_mgrs (\<lambda>_. no_result (free_mgr ?r)) 0 (single_type_managers ?c) (block_pool ?c) = Inr (rs, ms, p)"
    and c': "c = ?c\<lparr>single_type_managers := ms, block_pool := p\<rparr>" by (auto simp: coord_free_def do_coord_Inr on_coord_Inr)
  have "same_config (block_pool ?c) (block_pool c)"
    using free_op.for_mgrs_keeps [of "held_refs held" "[]", OF _ _ run] ok by (simp add: coord_ok_def c')
  then have "kvm_ok held (k\<lparr>coordinator := c\<rparr>)"
    using kvm_ok_coord [OF assms c(2) coord_op_shape(1) [OF c(1)]] by (simp add: kvm_pool_def)
  moreover have "list_all2 (\<lambda>_ m. blocks_of m ?r = []) (single_type_managers ?c) ms"
    by (rule for_mgrs_all2 [OF _ run]) (auto simp: free_mgr_def pop_blocks_for_free_def blocks_of_def bindE_eq_Inr)
  then have "\<forall>m \<in> set ms. blocks_of m ?r = []" by (auto simp: list_all2_conv_all_nth in_set_conv_nth)
  ultimately show ?thesis using c(1) by (auto simp: kvm_free_def on_coordinator_def c')
qed

lemma remove_skipped_kvm_ok:
  assumes "kvm_ok held k" "\<And>i. np = Some i \<Longrightarrow> 0 \<le> i"
  shows "\<exists>k'. kvm_remove_skipped_blocks r n np k = Inr k' \<and> kvm_ok held k'"
proof -
  have ok: "coord_ok (held_refs held) (coordinator k)" using assms(1) by (simp add: kvm_ok_def)
  obtain c where c: "coord_remove_skipped_blocks r n np (coordinator k) = Inr c" "coord_ok (held_refs held) c"
    "same_config (kvm_pool k) (block_pool c)" using coord_remove_ok [OF ok assms(2)] unfolding kvm_pool_def by blast
  with kvm_ok_coord [OF assms(1) c(2) coord_op_shape(2) [OF c(1)] c(3)] show ?thesis
    by (auto simp: kvm_remove_skipped_blocks_def on_coordinator_def)
qed

lemma cache_blocks_kvm_ok:
  assumes "kvm_ok held k" "0 \<le> num_prompt_tokens r" "kvm_cache_blocks r n k = Inr k'"
  shows "kvm_ok held k'"
proof (cases "kvm_enable_caching k")
  case True
  with assms(3) obtain c where c: "coord_cache_blocks r n (coordinator k) = Inr c" "k' = k\<lparr>coordinator := c\<rparr>"
    by (auto simp: kvm_cache_blocks_def on_coordinator_def bindE_eq_Inr)
  have "coord_ok (held_refs held) (coordinator k)" using assms(1) by (simp add: kvm_ok_def)
  from coord_cache_ok [OF this assms(2) c(1)] kvm_ok_coord [OF assms(1) _ coord_op_shape(3) [OF c(1)]]
  show ?thesis by (simp add: c(2) kvm_pool_def)
qed (use assms in \<open>simp add: kvm_cache_blocks_def\<close>)

section \<open>Operations over the pool and over the managers\<close>

lemma evict_kvm_ok:
  assumes "kvm_ok held k" "\<forall>i \<in> set ids. 0 \<le> i \<and> i < num_gpu_blocks (kvm_pool k)"
  shows "\<exists>k'. kvm_evict_blocks ids k = Inr k' \<and> kvm_ok held k'"
proof -
  obtain xs where "cache_inv (kvm_pool k)" using kvm_ok_cache_inv [OF assms(1)] by blast
  from evict_blocks_result [OF this, of ids] assms(2) obtain p where
    "evict_blocks ids (kvm_pool k) = Inr p" "cache_inv p" "same_refs (kvm_pool k) p" by blast
  with kvm_ok_pool [OF assms(1)] show ?thesis by (auto simp: kvm_evict_blocks_def)
qed

lemma kvm_ok_stats [simp]: "kvm_ok held (k\<lparr>prefix_cache_stats := s\<rparr>) = kvm_ok held k"
  by (simp add: kvm_ok_def kvm_pool_def num_kv_cache_groups_def)

lemma reset_kvm_ok:
  assumes "kvm_ok held k" "kvm_reset_prefix_cache k = Inr (ok, k')"
  shows "kvm_ok held k'"
proof -
  obtain xs where "pool_inv (kvm_pool k) xs" using kvm_ok_cache_inv [OF assms(1)] by blast
  then obtain p where p: "reset_prefix_cache (kvm_pool k) = (used_set (kvm_pool k) = {}, p)" "pool_inv p xs" "same_refs (kvm_pool k) p"
    using reset_prefix_cache_result by blast
  have "kvm_ok held (on_pool (\<lambda>_. p) k)" using kvm_ok_pool [OF assms(1) p(3)] p(2) by (simp add: pool_inv_def)
  with assms(2) show ?thesis
    unfolding kvm_reset_prefix_cache_def p(1) Let_def prod.case by (auto split: if_splits option.splits)
qed

lemma take_events_kvm_ok:
  assumes "kvm_ok held k" "kvm_take_events k = (es, k')"
  shows "kvm_ok held k'"
proof -
  let ?q = "snd (take_events (kvm_pool k))"
  have q: "same_refs (kvm_pool k) ?q" "same_cache (kvm_pool k) ?q" by (simp_all add: take_events_def events_frame)
  have "k' = on_pool (\<lambda>_. ?q) k" using assms(2) by (auto simp: kvm_take_events_def Let_def split: prod.splits)
  then show ?thesis
    using kvm_ok_pool [OF assms(1) q(1)] kvm_ok_cache_inv [OF assms(1)] same_cache_inv [OF q(2)] by auto
qed

lemma new_block_ids_kvm_ok: "kvm_ok held k \<Longrightarrow> kvm_take_new_block_ids k = (ids, k') \<Longrightarrow> kvm_ok held k'"
  unfolding kvm_take_new_block_ids_def
  by (erule kvm_ok_on_managers, assumption)
    (auto simp: take_new_block_ids_def intro!: same_account_tables, auto simp: same_static_def same_tables_def)

lemma zeroing_range_kvm_ok: "kvm_ok held k \<Longrightarrow> get_zeroing_block_ids_in_range r a b k = (ids, k') \<Longrightarrow> kvm_ok held k'"
  unfolding get_zeroing_block_ids_in_range_def
  by (erule kvm_ok_on_managers, assumption) (auto simp: same_account_access intro!: same_account_tables, auto simp: same_tables_def)

lemma mapE_all2: "(\<And>x y. f x = Inr y \<Longrightarrow> Q x y) \<Longrightarrow> mapE f xs = Inr ys \<Longrightarrow> list_all2 Q xs ys"
  by (induction xs arbitrary: ys) (auto simp: bindE_eq_Inr)

lemma record_zeroing_kvm_ok:
  assumes "kvm_ok held k" "record_blocks_for_zeroing r n k = Inr k'"
  shows "kvm_ok held k'"
proof -
  have step: "same_account p m (m1\<lparr>new_block_ids := ids\<rparr>)" if "same_account p m m1" for p m m1 ids
    by (rule same_account_trans [OF that same_account_tables]) (auto simp: same_static_def same_tables_def)
  have "same_account p m m" for p m by (simp add: same_account_def)
  with assms show ?thesis
    by (auto simp: record_blocks_for_zeroing_def bindE_eq_Inr Let_def
        intro!: kvm_ok_account [OF assms(1)] elim!: mapE_all2 [rotated] split: if_splits intro: step [OF same_account_access])
qed

lemma common_prefix_kvm_ok:
  assumes "kvm_ok held k" "kvm_get_num_common_prefix_blocks r k = (ns, k')"
  shows "kvm_ok held k'"
proof -
  let ?ms = "single_type_managers (coordinator k)" and ?f = "\<lambda>m. get_num_common_prefix_blocks r (m, kvm_pool k)"
  have "same_account (kvm_pool k) m (snd (?f m))" for m
    by (auto simp: get_num_common_prefix_blocks_def same_account_access Let_def split: mgr_kind.splits) (simp_all add: same_account_def)
  then have "kvm_ok held (k\<lparr>coordinator := (coordinator k)\<lparr>single_type_managers := map (snd \<circ> ?f) ?ms\<rparr>\<rparr>)"
    by (intro kvm_ok_account [OF assms(1)]) (simp add: list_all2_conv_all_nth)
  with assms show ?thesis
    by (auto simp: kvm_get_num_common_prefix_blocks_def coord_get_num_common_prefix_blocks_def Let_def kvm_pool_def comp_def split: if_splits)
qed

section \<open>Blocks that change hands\<close>

lemma kvm_ok_hand_over:
  assumes ok: "kvm_ok held k" and ms: "list_all2 same_static (single_type_managers (coordinator k)) ms"
    "\<forall>m \<in> set ms. mgr_ok (kvm_pool k) m" and valid: "\<forall>b \<in> set held'. valid_block (kvm_pool k) b"
    and refs: "\<And>b. all_refs ms b + held_refs held' b = all_refs (single_type_managers (coordinator k)) b + held_refs held b"
  shows "kvm_ok held' (k\<lparr>coordinator := (coordinator k)\<lparr>single_type_managers := ms\<rparr>\<rparr>)"
  using ok ms valid refs static_block_size [OF ms(1)] list_all2_lengthD [OF ms(1)]
  by (auto simp: kvm_ok_def coord_ok_def mgrs_inv_def refs_ok_def kvm_pool_def num_kv_cache_groups_def held_refs_def)

lemma held_refs_append [simp]: "held_refs (xs @ ys) b = held_refs xs b + held_refs ys b" "held_refs [] b = 0"
  by (simp_all add: held_refs_def)

lemma kvm_ok_managers: "kvm_ok held k \<Longrightarrow> \<forall>m \<in> set (single_type_managers (coordinator k)). mgr_ok (kvm_pool k) m"
  by (simp add: kvm_ok_def coord_ok_def mgrs_inv_def kvm_pool_def)

text \<open>\<open>pop_blocks_for_free\<close> moves the request's references from the tables to the caller.\<close>

lemma pop_mgr_ok:
  assumes "mgr_ok p m"
  shows "mgr_ok p (snd (pop_blocks_for_free r m))"
    and "mgr_refs (snd (pop_blocks_for_free r m)) b = mgr_refs m b - held_refs (blocks_of m r) b"
  using assms table_refs_pop [of m r b]
  by (auto simp: mgr_ok_def pop_blocks_for_free_def blocks_of_def mgr_refs_def cow_refs_def held_refs_def split: if_splits)

lemma pop_all_refs:
  "\<forall>m \<in> set ms. mgr_ok p m \<Longrightarrow>
   all_refs (map (snd \<circ> pop_blocks_for_free r) ms) b + held_refs (concat (map (fst \<circ> pop_blocks_for_free r) ms)) b = all_refs ms b"
proof (induction ms)
  case (Cons m ms)
  have "fst (pop_blocks_for_free r m) = blocks_of m r" by (simp add: pop_blocks_for_free_def)
  with Cons pop_mgr_ok(2) [of p m r b] show ?case by simp
qed simp

lemma pop_kvm_ok:
  assumes ok: "kvm_ok held k" and run: "kvm_pop_blocks_for_free r k = (bs, k')"
  shows "kvm_ok (held @ bs) k' \<and> bs = concat (coord_get_blocks (req_id r) (coordinator k))
    \<and> (\<forall>m \<in> set (single_type_managers (coordinator k')). blocks_of m (req_id r) = [])"
proof -
  let ?ms = "single_type_managers (coordinator k)" and ?pop = "pop_blocks_for_free (req_id r)"
  let ?ms' = "map (snd \<circ> ?pop) ?ms"
  have eq: "bs = concat (map (fst \<circ> ?pop) ?ms)" "k' = k\<lparr>coordinator := (coordinator k)\<lparr>single_type_managers := ?ms'\<rparr>\<rparr>"
    using run by (auto simp: kvm_pop_blocks_for_free_def coord_pop_blocks_for_free_def Let_def comp_def)
  have bs: "bs = concat (coord_get_blocks (req_id r) (coordinator k))"
    by (simp add: eq coord_get_blocks_def pop_blocks_for_free_def comp_def)
  have "kvm_ok (held @ bs) k'"
    unfolding eq(2)
  proof (rule kvm_ok_hand_over [OF ok])
    show "list_all2 same_static ?ms ?ms'" by (auto simp: list_all2_conv_all_nth same_static_def pop_blocks_for_free_def)
    show "\<forall>m \<in> set ?ms'. mgr_ok (kvm_pool k) m" using kvm_ok_managers [OF ok] pop_mgr_ok(1) by auto
    show "\<forall>b \<in> set (held @ bs). valid_block (kvm_pool k) b"
      using ok kvm_ok_managers [OF ok] by (auto simp: kvm_ok_def bs coord_get_blocks_def mgr_ok_def)
    show "all_refs ?ms' b + held_refs (held @ bs) b = all_refs ?ms b + held_refs held b" for b
      using pop_all_refs [OF kvm_ok_managers [OF ok], of "req_id r" b] by (simp add: eq(1))
  qed
  then show ?thesis using bs by (auto simp: eq(2) pop_blocks_for_free_def blocks_of_def)
qed

text \<open>\<open>take_kv_cache_block_copies\<close> does so with the references of the pending copies.\<close>

lemma copies_all_refs:
  "all_refs (map (snd \<circ> take_pending_cow_copies) ms) b
     + held_refs (concat (map (\<lambda>(s, c). [s, c]) (concat (map (fst \<circ> take_pending_cow_copies) ms)))) b = all_refs ms b"
proof -
  have pairs: "held_refs (concat (map (\<lambda>(s, c). [s, c]) ps)) b = int (count_list (map fst ps) b + count_list (map snd ps) b)" for ps
    by (induction ps) (auto simp: held_refs_def)
  show ?thesis
    by (induction ms) (auto simp: pairs mgr_refs_def table_refs_def cow_refs_def take_pending_cow_copies_def blocks_of_def)
qed

lemma copies_kvm_ok:
  assumes ok: "kvm_ok held k" and run: "take_kv_cache_block_copies k = ((ids, bs), k')"
  shows "kvm_ok (held @ bs) k'"
proof -
  let ?ms = "single_type_managers (coordinator k)"
  let ?ms' = "map (snd \<circ> take_pending_cow_copies) ?ms"
  have eq: "bs = concat (map (\<lambda>(s, c). [s, c]) (concat (map (fst \<circ> take_pending_cow_copies) ?ms)))"
    "k' = k\<lparr>coordinator := (coordinator k)\<lparr>single_type_managers := ?ms'\<rparr>\<rparr>"
    using run by (auto simp: take_kv_cache_block_copies_def on_managers_def Let_def comp_def)
  show ?thesis
    unfolding eq(2)
  proof (rule kvm_ok_hand_over [OF ok])
    show "list_all2 same_static ?ms ?ms'" by (auto simp: list_all2_conv_all_nth same_static_def take_pending_cow_copies_def)
    show "\<forall>m \<in> set ?ms'. mgr_ok (kvm_pool k) m"
      using kvm_ok_managers [OF ok] by (auto simp: mgr_ok_def take_pending_cow_copies_def blocks_of_def)
    show "\<forall>b \<in> set (held @ bs). valid_block (kvm_pool k) b"
      using ok kvm_ok_managers [OF ok] by (fastforce simp: kvm_ok_def eq(1) mgr_ok_def take_pending_cow_copies_def)
    show "all_refs ?ms' b + held_refs (held @ bs) b = all_refs ?ms b + held_refs held b" for b
      using copies_all_refs [of ?ms b] by (simp add: eq(1))
  qed
qed

text \<open>Blocks that the scheduler holds can be returned to the pool.\<close>

lemma release_kvm_ok:
  assumes ok: "kvm_ok held k" and split: "\<And>b. count_list held b = count_list bs b + count_list held' b"
  shows "\<exists>p. free_blocks bs (kvm_pool k) = Inr p \<and> kvm_ok held' (on_pool (\<lambda>_. p) k)"
proof -
  let ?p = "kvm_pool k" and ?ms = "single_type_managers (coordinator k)"
  have sub: "b \<in> set held" if "b \<in> set bs \<union> set held'" for b
    using that split [of b] count_list_0_iff [of bs b] count_list_0_iff [of held' b] count_list_0_iff [of held b] by auto
  have valid: "valid_block ?p b" if "b \<in> set bs \<union> set held'" for b using ok sub [OF that] by (auto simp: kvm_ok_def)
  obtain xs where inv: "pool_inv ?p xs" "refs_ok ?p (\<lambda>b. all_refs ?ms b + held_refs held b)"
    using ok by (auto simp: kvm_ok_def coord_ok_def mgrs_inv_def kvm_pool_def)
  have own: "int (count_list bs b) \<le> ref_cnt (blocks ?p b)" if "b \<in> set bs" "b \<noteq> null_block ?p" for b
    using inv(2) valid [of b] that split [of b] all_refs_nonneg [of ?ms b] by (simp add: refs_ok_def held_refs_def)
  obtain p where p: "free_blocks bs ?p = Inr p" using free_blocks_result [OF inv(1) valid own] by blast
  obtain ys where f: "pool_inv p ys" "same_config ?p p" "\<And>b. ref_cnt (blocks p b) = ref_cnt (blocks ?p b) - int (count_list bs b)"
    using free_blocks_Inr [OF inv(1) p valid own] by blast
  have "mgrs_inv (held_refs held') ?ms p"
    using f inv(2) kvm_ok_managers [OF ok] split mgr_ok_config [OF f(2)] same_config_dest [OF f(2)]
    by (auto simp: mgrs_inv_def refs_ok_def held_refs_def)
  then have "kvm_ok held' (on_pool (\<lambda>_. p) k)"
    using ok valid same_config_dest [OF f(2)] f(2)
    by (auto simp: same_config_def kvm_ok_def coord_ok_def on_pool_def kvm_pool_def num_kv_cache_groups_def)
  with p show ?thesis by blast
qed

section \<open>The initial state\<close>

lemma manager_init_refs: "mgr_refs (manager_init kd bs att caching g sched dcp zero cap) b = 0"
  by (simp add: manager_init_def mgr_refs_def table_refs_def cow_refs_def)

text \<open>A manager that holds no blocks.\<close>

definition fresh_mgr :: "mgr \<Rightarrow> bool" where
  "fresh_mgr m \<longleftrightarrow> req_to_blocks m = Map.empty \<and> pending_cow_copies m = [] \<and> 0 < block_size m"

lemma fresh_mgr_refs: "fresh_mgr m \<Longrightarrow> mgr_refs m b = 0" "fresh_mgr m \<Longrightarrow> mgr_ok p m"
  by (simp_all add: fresh_mgr_def mgr_refs_def table_refs_def cow_refs_def mgr_ok_def blocks_of_def)

lemma enum_mem: "(i, x) \<in> set (enum xs) \<Longrightarrow> x \<in> set xs"
  by (auto simp: enum_def dest: set_zip_rightD)

lemma list_all_update: "list_all P xs \<Longrightarrow> P x \<Longrightarrow> list_all P (xs[i := x])"
  using set_update_subset_insert [of xs i x] by (auto simp: list_all_iff)

lemma base_coord_init_fresh:
  assumes "base_coord_init cls cfg ml fl eagle caching ev ui dcp pcp sbs hbs la = Inr c"
    and "\<forall>g \<in> set (kv_cache_groups cfg). 0 < spec_bs (kv_cache_spec g)"
  shows "list_all fresh_mgr (single_type_managers c) \<and> block_pool_init (num_blocks cfg) caching hbs ev ui = Inr (block_pool c)
    \<and> length (single_type_managers c) = length (kv_cache_groups (coord_config c))"
proof -
  have "fresh_mgr (get_manager_for_kv_cache_spec sp fl ml caching i d sbs z)" if "0 < spec_bs sp" for sp i d z
    using that by (simp add: fresh_mgr_def get_manager_for_kv_cache_spec_def manager_init_def)
  with assms show ?thesis
    by (auto simp: base_coord_init_def bindE_eq_Inr Let_def list_all_iff dest!: enum_mem split: if_splits)
qed

lemma fresh_mgr_simps [simp]:
  "fresh_mgr (m\<lparr>use_eagle := e\<rparr>) = fresh_mgr m" "fresh_mgr (m\<lparr>cache_hit_alignment_tokens := a\<rparr>) = fresh_mgr m"
  by (simp_all add: fresh_mgr_def)

lemma coordinator_init_fresh:
  assumes run: "get_kv_cache_coordinator cfg ml fl eagle caching ev ui dcp pcp sbs hbs la = Inr c"
    and pos: "\<forall>g \<in> set (kv_cache_groups cfg). 0 < spec_bs (kv_cache_spec g)"
  shows "list_all fresh_mgr (single_type_managers c) \<and> block_pool_init (num_blocks cfg) caching hbs ev ui = Inr (block_pool c)
    \<and> length (single_type_managers c) = length (kv_cache_groups (coord_config c))"
proof -
  from run obtain cls c0 where c0: "base_coord_init cls cfg ml fl eagle caching ev ui dcp pcp sbs hbs la = Inr c0"
    and c: "c = c0 \<or> unitary_init hbs c0 = Inr c \<or> hybrid_init hbs c0 = Inr c"
    by (auto simp: get_kv_cache_coordinator_def bindE_eq_Inr split: if_splits)
  note b = base_coord_init_fresh [OF c0 pos]
  have "block_pool c = block_pool c0 \<and> coord_config c = coord_config c0 \<and> list_all fresh_mgr (single_type_managers c)
    \<and> length (single_type_managers c) = length (single_type_managers c0)"
    using c
  proof (elim disjE)
    assume "unitary_init hbs c0 = Inr c"
    with b show ?thesis
      by (auto simp: unitary_init_def bindE_eq_Inr intro!: list_all_update dest!: py_get_mem) (auto simp: list_all_iff)
  next
    assume "hybrid_init hbs c0 = Inr c"
    with b show ?thesis
      by (auto simp: hybrid_init_def verify_and_split_kv_cache_groups_def bindE_eq_Inr Let_def list_all_iff
          dest!: enum_mem split: if_splits)
  qed (use b in simp)
  with b show ?thesis by simp
qed

lemma kvm_init_fresh:
  assumes run: "kv_cache_manager_init cfg ml sbs hbs fl caching eagle la stats ev ui dcp pcp wm meta = Inr k"
    and pos: "\<forall>g \<in> set (kv_cache_groups cfg). 0 < spec_bs (kv_cache_spec g)"
  shows "list_all fresh_mgr (single_type_managers (coordinator k))
    \<and> block_pool_init (num_blocks cfg) caching hbs ev ui = Inr (block_pool (coordinator k))
    \<and> length (single_type_managers (coordinator k)) = length (kv_cache_groups (coord_config (coordinator k)))"
proof -
  from run obtain c where c: "get_kv_cache_coordinator cfg ml (case fl of None \<Rightarrow> ml | Some n \<Rightarrow> n) eagle caching ev ui dcp pcp sbs hbs la = Inr c"
    "coordinator k = c" unfolding kv_cache_manager_init_def bindE_eq_Inr by force
  from coordinator_init_fresh [OF c(1) pos] show ?thesis unfolding c(2) .
qed

lemma kvm_init_ok:
  assumes run: "kv_cache_manager_init cfg ml sbs hbs fl caching eagle la stats ev ui dcp pcp wm meta = Inr k"
    and pos: "\<forall>g \<in> set (kv_cache_groups cfg). 0 < spec_bs (kv_cache_spec g)" and hbs: "0 < hbs"
  shows "kvm_ok [] k"
proof -
  note c = kvm_init_fresh [OF run pos]
  let ?c = "coordinator k"
  have init: "block_pool_init (num_blocks cfg) caching hbs ev ui = Inr (block_pool ?c)" using c by blast
  then have "0 < num_blocks cfg" by (cases "0 < num_blocks cfg") (auto simp: block_pool_init_def)
  from block_pool_init_result [OF this, of caching hbs ev ui] init obtain xs where
    p: "pool_inv (block_pool ?c) xs" "hash_block_size (block_pool ?c) = hbs" "\<forall>b. ref_cnt (blocks (block_pool ?c) b) = 0" by auto
  have "all_refs ms b = 0" if "list_all fresh_mgr ms" for ms b using that by (induction ms) (simp_all add: fresh_mgr_refs)
  with c p hbs have "coord_ok (held_refs []) ?c"
    by (auto simp: coord_ok_def mgrs_inv_def refs_ok_def list_all_iff fresh_mgr_refs) (simp add: fresh_mgr_def)
  with c show ?thesis by (simp add: kvm_ok_def num_kv_cache_groups_def)
qed

section \<open>Steps\<close>

text \<open>
  One call on the manager that returns, with what the scheduler guarantees of the arguments:
  prompt lengths are not negative, cache hits and evicted ids are blocks of the pool.
\<close>

inductive kvm_step :: "kvm \<Rightarrow> kvm \<Rightarrow> bool" where
  lookup: "get_computed_blocks r k = Some (Inr (x, k')) \<Longrightarrow> kvm_step k k'"
| allocate: "0 \<le> num_prompt_tokens r \<Longrightarrow> \<forall>nc. ncs = Some nc \<longrightarrow> (\<forall>bs \<in> set nc. \<forall>b \<in> set bs. valid_block (kvm_pool k) b) \<Longrightarrow>
    allocate_slots r num_new num_new_computed ncs num_lookahead num_external delay enc must_fit reserved sched k = Inr (res, k')
    \<Longrightarrow> kvm_step k k'"
| free: "kvm_free r k = Inr k' \<Longrightarrow> kvm_step k k'"
| remove_skipped: "\<forall>i. np = Some i \<longrightarrow> 0 \<le> i \<Longrightarrow> kvm_remove_skipped_blocks rid n np k = Inr k' \<Longrightarrow> kvm_step k k'"
| cache: "0 \<le> num_prompt_tokens r \<Longrightarrow> kvm_cache_blocks r n k = Inr k' \<Longrightarrow> kvm_step k k'"
| evict: "\<forall>i \<in> set ids. 0 \<le> i \<and> i < num_gpu_blocks (kvm_pool k) \<Longrightarrow> kvm_evict_blocks ids k = Inr k' \<Longrightarrow> kvm_step k k'"
| reset: "kvm_reset_prefix_cache k = Inr (success, k') \<Longrightarrow> kvm_step k k'"
| events: "kvm_take_events k = (es, k') \<Longrightarrow> kvm_step k k'"
| new_ids: "kvm_take_new_block_ids k = (new, k') \<Longrightarrow> kvm_step k k'"
| zeroing_range: "get_zeroing_block_ids_in_range rid a b k = (zs, k') \<Longrightarrow> kvm_step k k'"
| zeroing: "record_blocks_for_zeroing rid n k = Inr k' \<Longrightarrow> kvm_step k k'"
| common_prefix: "kvm_get_num_common_prefix_blocks rid k = (ns, k') \<Longrightarrow> kvm_step k k'"
| make_stats: "make_prefix_cache_stats k = (st, k') \<Longrightarrow> kvm_step k k'"
| record_stats: "record_prefix_cache_stats r np h k = Inr k' \<Longrightarrow> kvm_step k k'"

lemma stats_kvm_ok:
  "make_prefix_cache_stats k = (st, k') \<Longrightarrow> kvm_ok held k' = kvm_ok held k"
  "record_prefix_cache_stats r np h k = Inr k' \<Longrightarrow> kvm_ok held k' = kvm_ok held k"
  by (auto simp: make_prefix_cache_stats_def record_prefix_cache_stats_def split: if_splits option.splits)

lemma kvm_step_ok:
  assumes "kvm_step k k'" "kvm_ok held k"
  shows "kvm_ok held k'"
  using assms(1)
proof cases
  case (free r)
  with coord_free_kvm_ok [OF assms(2), of r] show ?thesis by auto
next
  case (remove_skipped np rid n)
  with remove_skipped_kvm_ok [OF assms(2), of np rid n] show ?thesis by auto
next
  case (evict ids)
  with evict_kvm_ok [OF assms(2), of ids] show ?thesis by auto
qed (use assms(2) in \<open>auto intro: get_computed_blocks_ok allocate_slots_ok cache_blocks_kvm_ok reset_kvm_ok take_events_kvm_ok
  new_block_ids_kvm_ok zeroing_range_kvm_ok record_zeroing_kvm_ok common_prefix_kvm_ok simp: stats_kvm_ok\<close>)

section \<open>Admission\<close>

text \<open>A concrete manager with two groups over seven usable blocks.\<close>

definition sample_config :: kv_config where
  "sample_config = \<lparr>num_blocks = 8,
     kv_cache_groups = [\<lparr>kv_cache_spec = \<lparr>spec_kind = FullAttention, spec_bs = 2, spec_rest = ''f16''\<rparr>, is_eagle_group = False\<rparr>,
       \<lparr>kv_cache_spec = \<lparr>spec_kind = SlidingWindow 3 0, spec_bs = 2, spec_rest = ''f16''\<rparr>, is_eagle_group = False\<rparr>],
     prefix_cache_retention_interval = None, needs_kv_cache_zeroing = False\<rparr>"

definition sample_kvm :: "kvm res" where
  "sample_kvm = kv_cache_manager_init sample_config 100 2 2 None False False 0 False False False 1 1 0 []"

lemma sample_kvm_ok: "sample_kvm = Inr k \<Longrightarrow> kvm_ok [] k"
  unfolding sample_kvm_def by (erule kvm_init_ok) (simp_all add: sample_config_def)

text \<open>
  C3. The admission check is enough.  In a state with correct reference accounting, if the
  predicted number of blocks for a request (any mix of attention types, with locally cached and
  externally computed tokens) is at most the number of free blocks, then adding the cached
  prefix, the external allocation and the allocation of new blocks all succeed, the accounting
  stays correct, and every group holds enough blocks for the requested number of tokens.
\<close>

theorem admission_sufficient:
  assumes "coord_ok ext c" and "ready r nl ne n nc c"
    and "coord_get_num_blocks_to_allocate r n nc enc (nl + ne) nl False c = Inr d" and "d \<le> get_num_free_blocks (block_pool c)"
  shows "\<exists>c1 bs c2. allocate_new_computed_blocks r nc nl ne c = Inr c1 \<and> coord_allocate_new_blocks r n enc c1 = Inr (bs, c2)
    \<and> coord_ok ext c2 \<and> enough_slots r n enc c2"
  by (rule admit_ready [OF assms])

theorem admission_sufficient_witness:
  "\<exists>k c1 bs c2. sample_kvm = Inr k
     \<and> coord_get_num_blocks_to_allocate ''r'' 3 [[], []] 0 0 0 False (coordinator k) = Inr 4
     \<and> allocate_new_computed_blocks ''r'' [[], []] 0 0 (coordinator k) = Inr c1
     \<and> coord_allocate_new_blocks ''r'' 3 0 c1 = Inr (bs, c2) \<and> enough_slots ''r'' 3 0 c2"
proof -
  have "satisfies (\<lambda>k. ready ''r'' 0 0 3 [[], []] (coordinator k)
      \<and> coord_get_num_blocks_to_allocate ''r'' 3 [[], []] 0 0 0 False (coordinator k) = Inr 4
      \<and> 4 \<le> get_num_free_blocks (block_pool (coordinator k))) sample_kvm" by code_simp
  then obtain k where k: "sample_kvm = Inr k" "ready ''r'' 0 0 3 [[], []] (coordinator k)"
    "coord_get_num_blocks_to_allocate ''r'' 3 [[], []] 0 0 0 False (coordinator k) = Inr 4"
    "4 \<le> get_num_free_blocks (block_pool (coordinator k))" by (elim satisfiesE) blast
  have "coord_ok (held_refs []) (coordinator k)" using sample_kvm_ok [OF k(1)] by (simp add: kvm_ok_def)
  from admission_sufficient [OF this k(2) _ k(4), of 0] k(1,3) show ?thesis by auto
qed

text \<open>
  C2. \<open>allocate_slots\<close> never runs out of blocks half way, with prefix caching or without.  In a state with
  correct accounting, for a request whose arguments are as the scheduler builds them, it does one of
  two things.  It refuses the request (returns \<open>None\<close>), and then the predicted demand plus the
  watermark exceeds the free blocks: those of the state it was called in, for the whole sequence, or
  the unreserved ones of the state it returns, for this step.  Or every allocation succeeds, every
  group holds blocks for all tokens that need a slot, the accounting of every block is correct, and
  the call ends with the caching step \<open>kvm_cache_blocks\<close> (skipped when caching is delayed, empty
  when it is disabled).  An exception can therefore only come from the caching step; when it returns,
  \<open>allocate_slots\<close> returns the new blocks, with the slots still provided and the accounting correct.
\<close>

theorem allocate_slots_correct:
  assumes ok: "kvm_ok held k" and new: "\<not> (num_new = 0 \<and> num_external = 0)" and np: "0 \<le> num_prompt_tokens r"
    and wm: "0 \<le> watermark_blocks k" "0 \<le> reserved" and nl: "nl = num_computed_tokens r + num_new_computed"
    and n: "n = min (min (nl + num_external) (max_model_len k) + num_new + num_lookahead) (max_model_len k)"
    and rdy: "slots_ready (req_id r) nl num_external n new_computed (coordinator k)"
    and w: "w = (if sched \<and> (status r = WAITING \<or> status r = PREEMPTED) then watermark_blocks k else 0)"
    and cached: "cached = min (min (nl + num_external) (max_model_len k) + num_new) (num_tokens r)"
    and run: "run = allocate_slots r num_new num_new_computed new_computed num_lookahead num_external delay enc must_fit reserved sched k"
  shows "(\<exists>k'. run = Inr (None, k') \<and> kvm_ok held k'
        \<and> refused r (hit_list (coordinator k) new_computed) n nl num_external enc must_fit reserved w k k')
    \<or> (\<exists>bs k'. kvm_ok held k' \<and> enough_slots (req_id r) n enc (coordinator k')
        \<and> run = bindE (if delay then Inr k' else kvm_cache_blocks r cached k') (\<lambda>k''. Inr (Some bs, k''))
        \<and> (\<forall>k''. kvm_cache_blocks r cached k' = Inr k'' \<longrightarrow> kvm_ok held k'' \<and> enough_slots (req_id r) n enc (coordinator k'')))"
  using allocate_slots_result [OF ok new np wm nl n rdy w run] kvm_cache_keeps [OF _ np] unfolding cached by blast

text \<open>A manager with prefix caching, for one group of full attention.\<close>

definition caching_config :: kv_config where
  "caching_config = sample_config\<lparr>kv_cache_groups := take 1 (kv_cache_groups sample_config)\<rparr>"

definition caching_kvm :: "kvm res" where
  "caching_kvm = kv_cache_manager_init caching_config 100 2 2 None True False 0 False False False 1 1 0 []"

lemma caching_kvm_ok: "caching_kvm = Inr k \<Longrightarrow> kvm_ok [] k"
  unfolding caching_kvm_def by (erule kvm_init_ok) (simp_all add: caching_config_def sample_config_def)

theorem allocate_slots_correct_witness:
  "\<exists>k bs k'. caching_kvm = Inr k \<and> kvm_enable_caching k
     \<and> allocate_slots (sample_request ''r'' [1, 2, 3] []\<lparr>block_hashes := [[7]]\<rparr>) 3 0 None 0 0 False 0 True 0 False k = Inr (Some bs, k')
     \<and> bs = [[Blk 1, Blk 2]] \<and> kvm_ok [] k' \<and> enough_slots ''r'' 3 0 (coordinator k')"
proof -
  let ?r = "sample_request ''r'' [1, 2, 3] []\<lparr>block_hashes := [[7]]\<rparr>"
  have "satisfies (\<lambda>k. slots_ready ''r'' 0 0 3 None (coordinator k) \<and> watermark_blocks k = 0 \<and> max_model_len k = 100
      \<and> kvm_enable_caching k
      \<and> satisfies (\<lambda>x. fst x = Some [[Blk 1, Blk 2]]) (allocate_slots ?r 3 0 None 0 0 False 0 True 0 False k))
      caching_kvm" by code_simp
  then obtain k k' where k: "caching_kvm = Inr k" "slots_ready ''r'' 0 0 3 None (coordinator k)" "watermark_blocks k = 0"
    "max_model_len k = 100" "kvm_enable_caching k"
    "allocate_slots ?r 3 0 None 0 0 False 0 True 0 False k = Inr (Some [[Blk 1, Blk 2]], k')"
    by (elim satisfiesE conjE) (metis prod.collapse)
  have r: "req_id ?r = ''r''" "num_computed_tokens ?r = 0" "num_prompt_tokens ?r = 3" by (simp_all add: sample_request_def)
  have eq: "Inr y = bindE m f \<longleftrightarrow> (\<exists>x. m = Inr x \<and> f x = Inr y)" for y :: "bref list list option \<times> kvm" and m f
    using bindE_eq_Inr [of m f y] by auto
  from allocate_slots_correct [OF caching_kvm_ok [OF k(1)], of 3 0 ?r 0 0 0 3 0 None 0 False "min 3 (num_tokens ?r)"
      "Inr (Some [[Blk 1, Blk 2]], k')" False 0 True] k r
  have "kvm_ok [] k' \<and> enough_slots ''r'' 3 0 (coordinator k')" by (auto simp: eq)
  with k show ?thesis by blast
qed

end
