(* ===== verification/Sched_Blocks.thy ===== *)
theory Sched_Blocks
  imports KVM_Steps
begin

text \<open>
  The part of \<^verbatim>\<open>vllm/v1/core/sched/scheduler.py\<close> that decides when blocks go back to the pool.  With
  asynchronous scheduling a step may still write the blocks of a request that is freed, so the
  scheduler counts non-empty steps (\<open>sched_step_seq\<close>, \<open>processed_step_seq\<close>) and keeps blocks with
  a fence in \<open>deferred_frees\<close> until the fenced step has been processed.  The state is the KV-cache
  manager with these counters and \<open>request.last_sched_seq\<close> of every request.
\<close>

section \<open>Operations\<close>

record sched_blocks =
  sb_kvm :: kvm
  defer_block_free :: bool
  sched_step_seq :: int
  processed_step_seq :: int
  deferred_frees :: "(int \<times> bref list) list"
  last_sched_seq :: "string \<Rightarrow> int"

definition sched_blocks_init :: "kvm \<Rightarrow> bool \<Rightarrow> sched_blocks" where
  "sched_blocks_init k defer = \<lparr>sb_kvm = k, defer_block_free = defer, sched_step_seq = 0, processed_step_seq = 0,
     deferred_frees = [], last_sched_seq = (\<lambda>_. 0)\<rparr>"

text \<open>\<open>self.kv_cache_manager.block_pool.free_blocks(blocks)\<close>.\<close>

definition pool_free :: "bref list \<Rightarrow> sched_blocks \<Rightarrow> sched_blocks res" where
  "pool_free bs s = bindE (free_blocks bs (kvm_pool (sb_kvm s))) (\<lambda>p. Inr (s\<lparr>sb_kvm := on_pool (\<lambda>_. p) (sb_kvm s)\<rparr>))"

definition free_request_blocks :: "request \<Rightarrow> sched_blocks \<Rightarrow> sched_blocks res" where
  "free_request_blocks r s =
     (if \<not> defer_block_free s \<or> last_sched_seq s (req_id r) \<le> processed_step_seq s
      then bindE (kvm_free r (sb_kvm s)) (\<lambda>k. Inr (s\<lparr>sb_kvm := k\<rparr>))
      else let (bs, k) = kvm_pop_blocks_for_free r (sb_kvm s); s1 = s\<lparr>sb_kvm := k\<rparr>
           in Inr (if bs \<noteq> [] then s1\<lparr>deferred_frees := deferred_frees s1 @ [(sched_step_seq s1, bs)]\<rparr> else s1))"

definition free_cow_retained_blocks :: "bref list \<Rightarrow> int \<Rightarrow> sched_blocks \<Rightarrow> sched_blocks res" where
  "free_cow_retained_blocks bs fence_seq s =
     (if \<not> defer_block_free s \<or> fence_seq \<le> processed_step_seq s then pool_free bs s
      else Inr (s\<lparr>deferred_frees := deferred_frees s @ [(fence_seq, rev bs)]\<rparr>))"

text \<open>The loop of \<open>_drain_deferred_frees\<close> over the queue; it returns the entries that are left.\<close>

fun drain_loop :: "(int \<times> bref list) list \<Rightarrow> sched_blocks \<Rightarrow> ((int \<times> bref list) list \<times> sched_blocks) res" where
  "drain_loop [] s = Inr ([], s)"
| "drain_loop ((fence, bs) # q) s =
     (if processed_step_seq s < fence then Inr ((fence, bs) # q, s)
      else bindE (pool_free (rev bs) s) (drain_loop q))"

definition drain_deferred_frees :: "sched_blocks \<Rightarrow> sched_blocks res" where
  "drain_deferred_frees s = bindE (drain_loop (deferred_frees s) s) (\<lambda>(q, s'). Inr (s'\<lparr>deferred_frees := q\<rparr>))"

text \<open>The copies of a step: \<open>schedule\<close> collects them and releases or fences the retained blocks.\<close>

definition take_step_copies :: "sched_blocks \<Rightarrow> ((int \<times> int) list \<times> sched_blocks) res" where
  "take_step_copies s =
     (let ((copies, retained), k) = take_kv_cache_block_copies (sb_kvm s); s1 = s\<lparr>sb_kvm := k\<rparr>
      in if copies \<noteq> [] then bindE (free_cow_retained_blocks retained (sched_step_seq s1 + 1) s1) (\<lambda>s2. Inr (copies, s2))
         else Inr ([], s1))"

text \<open>
  The end of \<open>schedule\<close>: the step counter, then \<open>_update_after_schedule\<close>, which records the step in
  every scheduled request; \<open>toks\<close> are the scheduled requests with their numbers of tokens.
\<close>

definition update_after_schedule :: "(string \<times> int) list \<Rightarrow> sched_blocks \<Rightarrow> sched_blocks" where
  "update_after_schedule toks s =
     (if defer_block_free s
      then foldl (\<lambda>s (r, n). s\<lparr>last_sched_seq := (last_sched_seq s)(r := sched_step_seq s)\<rparr>) s toks else s)"

definition advance_schedule :: "(string \<times> int) list \<Rightarrow> sched_blocks \<Rightarrow> sched_blocks" where
  "advance_schedule toks s =
     update_after_schedule toks
       (if defer_block_free s \<and> 0 < sum_list (map snd toks) then s\<lparr>sched_step_seq := sched_step_seq s + 1\<rparr> else s)"

text \<open>The start of \<open>update_from_output\<close> for a step with \<open>total_toks\<close> tokens.\<close>

definition process_step :: "int \<Rightarrow> sched_blocks \<Rightarrow> sched_blocks res" where
  "process_step total_toks s =
     (if defer_block_free s \<and> 0 < total_toks
      then drain_deferred_frees (s\<lparr>processed_step_seq := processed_step_seq s + 1\<rparr>)
      else Inr s)"

section \<open>The accounting invariant\<close>

definition deferred_blocks :: "sched_blocks \<Rightarrow> bref list" where
  "deferred_blocks s = concat (map snd (deferred_frees s))"

definition sched_ok :: "sched_blocks \<Rightarrow> bool" where
  "sched_ok s \<longleftrightarrow> kvm_ok (deferred_blocks s) (sb_kvm s)"

lemma kvm_ok_held_cong: "(\<And>b. count_list held' b = count_list held b) \<Longrightarrow> kvm_ok held k \<Longrightarrow> kvm_ok held' k"
proof -
  assume c: "\<And>b. count_list held' b = count_list held b" and ok: "kvm_ok held k"
  have "set held' = set held" using c count_list_0_iff by (metis subsetI subset_antisym)
  moreover have "held_refs held' = held_refs held" using c by (simp add: held_refs_def fun_eq_iff)
  ultimately show ?thesis using ok by (simp add: kvm_ok_def)
qed

lemma pool_free_ok:
  assumes "kvm_ok held (sb_kvm s)" "\<And>b. count_list held b = count_list bs b + count_list held' b"
  shows "\<exists>k. pool_free bs s = Inr (s\<lparr>sb_kvm := k\<rparr>) \<and> kvm_ok held' k"
proof -
  obtain p where "free_blocks bs (kvm_pool (sb_kvm s)) = Inr p" "kvm_ok held' (on_pool (\<lambda>_. p) (sb_kvm s))"
    using release_kvm_ok [OF assms] by blast
  then show ?thesis by (intro exI [of _ "on_pool (\<lambda>_. p) (sb_kvm s)"]) (simp add: pool_free_def)
qed

text \<open>Draining returns the leading entries whose fence has passed.\<close>

definition pending :: "int \<Rightarrow> (int \<times> bref list) list \<Rightarrow> (int \<times> bref list) list" where
  "pending n q = dropWhile (\<lambda>e. fst e \<le> n) q"

lemma drain_loop_ok:
  "kvm_ok (concat (map snd q)) (sb_kvm s) \<Longrightarrow>
   \<exists>k. drain_loop q s = Inr (pending (processed_step_seq s) q, s\<lparr>sb_kvm := k\<rparr>)
     \<and> kvm_ok (concat (map snd (pending (processed_step_seq s) q))) k"
proof (induction q arbitrary: s)
  case Nil
  then show ?case by (intro exI [of _ "sb_kvm s"]) (simp add: pending_def)
next
  case (Cons e q)
  obtain fence bs where e: "e = (fence, bs)" by (cases e)
  show ?case
  proof (cases "processed_step_seq s < fence")
    case True
    then show ?thesis using Cons.prems by (intro exI [of _ "sb_kvm s"]) (simp add: e pending_def)
  next
    case False
    obtain k where k: "pool_free (rev bs) s = Inr (s\<lparr>sb_kvm := k\<rparr>)" "kvm_ok (concat (map snd q)) k"
      using pool_free_ok [OF Cons.prems, of "rev bs" "concat (map snd q)"] by (auto simp: e count_list_rev)
    from Cons.IH [of "s\<lparr>sb_kvm := k\<rparr>"] k False show ?thesis by (simp add: e pending_def)
  qed
qed

lemma drain_ok:
  assumes "sched_ok s"
  shows "\<exists>k. drain_deferred_frees s = Inr (s\<lparr>sb_kvm := k, deferred_frees := pending (processed_step_seq s) (deferred_frees s)\<rparr>)
    \<and> kvm_ok (concat (map snd (pending (processed_step_seq s) (deferred_frees s)))) k"
proof -
  have "kvm_ok (concat (map snd (deferred_frees s))) (sb_kvm s)" using assms by (simp add: sched_ok_def deferred_blocks_def)
  from drain_loop_ok [OF this] obtain k where
    k: "drain_loop (deferred_frees s) s = Inr (pending (processed_step_seq s) (deferred_frees s), s\<lparr>sb_kvm := k\<rparr>)"
    "kvm_ok (concat (map snd (pending (processed_step_seq s) (deferred_frees s)))) k" by blast
  then show ?thesis by (intro exI [of _ k]) (simp add: drain_deferred_frees_def)
qed

lemma free_request_ok:
  assumes "sched_ok s"
  shows "\<exists>s'. free_request_blocks r s = Inr s' \<and> sched_ok s'
    \<and> (\<forall>m \<in> set (single_type_managers (coordinator (sb_kvm s'))). blocks_of m (req_id r) = [])"
proof (cases "\<not> defer_block_free s \<or> last_sched_seq s (req_id r) \<le> processed_step_seq s")
  case True
  from coord_free_kvm_ok [OF assms [unfolded sched_ok_def], of r] True show ?thesis
    unfolding free_request_blocks_def by (elim exE conjE) (simp add: sched_ok_def deferred_blocks_def)
next
  case False
  obtain bs k where pop: "kvm_pop_blocks_for_free r (sb_kvm s) = (bs, k)" by (cases "kvm_pop_blocks_for_free r (sb_kvm s)")
  have k: "kvm_ok (deferred_blocks s @ bs) k" "\<forall>m \<in> set (single_type_managers (coordinator k)). blocks_of m (req_id r) = []"
    using pop_kvm_ok [OF assms [unfolded sched_ok_def] pop] by blast+
  with False show ?thesis
    unfolding free_request_blocks_def pop prod.case Let_def by (cases "bs = []") (simp_all add: sched_ok_def deferred_blocks_def)
qed

lemma take_copies_ok:
  assumes "sched_ok s"
  shows "\<exists>cs s'. take_step_copies s = Inr (cs, s') \<and> sched_ok s'"
proof -
  obtain cs bs k where t: "take_kv_cache_block_copies (sb_kvm s) = ((cs, bs), k)" by (metis prod.exhaust)
  have ok: "kvm_ok (deferred_blocks s @ bs) k" using copies_kvm_ok [OF _ t] assms by (simp add: sched_ok_def)
  have none: "bs = []" if "cs = []"
    using t that by (auto simp: take_kv_cache_block_copies_def Let_def split: prod.splits)
  let ?s = "s\<lparr>sb_kvm := k\<rparr>"
  have "\<exists>s'. free_cow_retained_blocks bs n ?s = Inr s' \<and> sched_ok s'" for n
  proof (cases "\<not> defer_block_free ?s \<or> n \<le> processed_step_seq ?s")
    case True
    obtain k' where "pool_free bs ?s = Inr (?s\<lparr>sb_kvm := k'\<rparr>)" "kvm_ok (deferred_blocks s) k'"
      using pool_free_ok [of "deferred_blocks s @ bs" ?s bs "deferred_blocks s"] ok by auto
    with True show ?thesis
      unfolding free_cow_retained_blocks_def by (intro exI [of _ "s\<lparr>sb_kvm := k'\<rparr>"]) (simp add: sched_ok_def deferred_blocks_def)
  next
    case False
    have "kvm_ok (deferred_blocks s @ rev bs) k" by (rule kvm_ok_held_cong [OF _ ok]) (simp add: count_list_rev)
    with False show ?thesis by (simp add: free_cow_retained_blocks_def sched_ok_def deferred_blocks_def)
  qed
  from this [of "sched_step_seq ?s + 1"] show ?thesis
    using none ok unfolding take_step_copies_def t prod.case Let_def
    by (cases "cs = []") (auto simp: sched_ok_def deferred_blocks_def)
qed

section \<open>Reachable states\<close>

text \<open>
  The steps of the scheduler on its block state: calls of the KV-cache manager, freeing a request,
  collecting the copies of a step, and the two ends of a step.
\<close>

inductive sched_step :: "sched_blocks \<Rightarrow> sched_blocks \<Rightarrow> bool" where
  kvm: "kvm_step (sb_kvm s) k \<Longrightarrow> sched_step s (s\<lparr>sb_kvm := k\<rparr>)"
| free: "free_request_blocks r s = Inr s' \<Longrightarrow> sched_step s s'"
| copies: "take_step_copies s = Inr (cs, s') \<Longrightarrow> sched_step s s'"
| schedule: "sched_step s (advance_schedule toks s)"
| process: "process_step n s = Inr s' \<Longrightarrow> sched_step s s'"

inductive sched_steps :: "sched_blocks \<Rightarrow> sched_blocks \<Rightarrow> bool" where
  start: "sched_steps s s"
| more: "sched_steps s s1 \<Longrightarrow> sched_step s1 s2 \<Longrightarrow> sched_steps s s2"

lemma update_after_schedule_eq:
  "update_after_schedule toks s = s\<lparr>last_sched_seq := (\<lambda>r. if defer_block_free s \<and> r \<in> fst ` set toks
     then sched_step_seq s else last_sched_seq s r)\<rparr>"
proof -
  have "foldl (\<lambda>s (r, n). s\<lparr>last_sched_seq := (last_sched_seq s)(r := sched_step_seq s)\<rparr>) s toks
    = s\<lparr>last_sched_seq := (\<lambda>r. if r \<in> fst ` set toks then sched_step_seq s else last_sched_seq s r)\<rparr>"
    by (induction toks arbitrary: s) (auto simp: fun_eq_iff intro!: arg_cong [where f = "\<lambda>g. s\<lparr>last_sched_seq := g\<rparr>" for s])
  then show ?thesis by (auto simp: update_after_schedule_def)
qed

lemma advance_schedule_simps [simp]:
  "sb_kvm (advance_schedule toks s) = sb_kvm s" "deferred_frees (advance_schedule toks s) = deferred_frees s"
  "processed_step_seq (advance_schedule toks s) = processed_step_seq s"
  "sched_step_seq s \<le> sched_step_seq (advance_schedule toks s)"
  by (simp_all add: advance_schedule_def update_after_schedule_eq)

lemma process_ok:
  assumes "sched_ok s"
  shows "\<exists>s'. process_step n s = Inr s' \<and> sched_ok s'"
proof (cases "defer_block_free s \<and> 0 < n")
  case True
  let ?s = "s\<lparr>processed_step_seq := processed_step_seq s + 1\<rparr>"
  have "sched_ok ?s" using assms by (simp add: sched_ok_def deferred_blocks_def)
  from drain_ok [OF this] obtain k where
    "drain_deferred_frees ?s = Inr (?s\<lparr>sb_kvm := k, deferred_frees := pending (processed_step_seq ?s) (deferred_frees ?s)\<rparr>)"
    "kvm_ok (concat (map snd (pending (processed_step_seq ?s) (deferred_frees ?s)))) k" by blast
  with True show ?thesis by (simp add: process_step_def sched_ok_def deferred_blocks_def)
qed (use assms in \<open>auto simp: process_step_def\<close>)

lemma sched_step_ok:
  assumes "sched_step s s'" "sched_ok s"
  shows "sched_ok s'"
  using assms(1)
proof cases
  case (kvm k)
  with kvm_step_ok assms(2) show ?thesis by (auto simp: sched_ok_def deferred_blocks_def)
next
  case (free r)
  with free_request_ok [OF assms(2), of r] show ?thesis by auto
next
  case (copies cs)
  with take_copies_ok [OF assms(2)] show ?thesis by auto
next
  case (schedule toks)
  with assms(2) show ?thesis by (simp add: sched_ok_def deferred_blocks_def)
next
  case (process n)
  with process_ok [OF assms(2), of n] show ?thesis by auto
qed

text \<open>
  What a step does to the queue of deferred frees: the mode never changes, the counters never go
  back, entries are appended at the end with a fence of at most the next step, and only leading
  entries with a processed fence leave.
\<close>

definition fences_ok :: "sched_blocks \<Rightarrow> bool" where
  "fences_ok s \<longleftrightarrow> (\<forall>e \<in> set (deferred_frees s). fst e \<le> sched_step_seq s + 1)
     \<and> (\<forall>r. last_sched_seq s r \<le> sched_step_seq s)"

definition queue_step :: "sched_blocks \<Rightarrow> sched_blocks \<Rightarrow> bool" where
  "queue_step s s' \<longleftrightarrow> defer_block_free s' = defer_block_free s
     \<and> sched_step_seq s \<le> sched_step_seq s' \<and> processed_step_seq s \<le> processed_step_seq s'
     \<and> (\<exists>new. deferred_frees s' = pending (processed_step_seq s') (deferred_frees s) @ new
          \<or> deferred_frees s' = deferred_frees s @ new)
     \<and> (fences_ok s \<longrightarrow> fences_ok s')"

lemma set_pending: "set (pending n q) \<subseteq> set q"
  by (auto simp: pending_def dest: set_dropWhileD)

lemma pending_keeps: "e \<in> set q \<Longrightarrow> n < fst e \<Longrightarrow> e \<in> set (pending n q)"
  by (induction q) (auto simp: pending_def)

lemma queue_stepI:
  assumes "defer_block_free s' = defer_block_free s" "sched_step_seq s' = sched_step_seq s"
    "processed_step_seq s' = processed_step_seq s" "last_sched_seq s' = last_sched_seq s"
    "deferred_frees s' = deferred_frees s @ new" "\<forall>e \<in> set new. fst e \<le> sched_step_seq s + 1"
  shows "queue_step s s'"
  using assms by (auto simp: queue_step_def fences_ok_def)

lemma pool_free_frame: "pool_free bs s = Inr s' \<Longrightarrow> queue_step s s'"
  by (rule queue_stepI [where new = "[]"]) (auto simp: pool_free_def bindE_eq_Inr)

lemma free_request_queue: "free_request_blocks r s = Inr s' \<Longrightarrow> queue_step s s'"
  by (rule queue_stepI [where new = "drop (length (deferred_frees s)) (deferred_frees s')"])
    (auto simp: free_request_blocks_def bindE_eq_Inr Let_def split: if_splits prod.splits)

lemma take_copies_queue:
  assumes "take_step_copies s = Inr (cs, s')"
  shows "queue_step s s'"
proof -
  obtain cp bs k where t: "take_kv_cache_block_copies (sb_kvm s) = ((cp, bs), k)" by (metis prod.exhaust)
  show ?thesis
    by (rule queue_stepI [where new = "drop (length (deferred_frees s)) (deferred_frees s')"])
      (use assms t in \<open>auto simp: take_step_copies_def Let_def free_cow_retained_blocks_def pool_free_def bindE_eq_Inr split: if_splits\<close>)
qed

lemma process_queue:
  assumes "process_step n s = Inr s'" "sched_ok s"
  shows "queue_step s s' \<and> (defer_block_free s \<and> 0 < n \<longrightarrow> processed_step_seq s' = processed_step_seq s + 1
    \<and> deferred_frees s' = pending (processed_step_seq s') (deferred_frees s) \<and> sched_step_seq s' = sched_step_seq s)"
proof (cases "defer_block_free s \<and> 0 < n")
  case True
  let ?s = "s\<lparr>processed_step_seq := processed_step_seq s + 1\<rparr>"
  have "sched_ok ?s" using assms(2) by (simp add: sched_ok_def deferred_blocks_def)
  from drain_ok [OF this] obtain k where
    "s' = ?s\<lparr>sb_kvm := k, deferred_frees := pending (processed_step_seq ?s) (deferred_frees ?s)\<rparr>"
    using assms(1) True by (auto simp: process_step_def)
  then show ?thesis using set_pending [of "processed_step_seq s + 1" "deferred_frees s"]
    by (auto simp: queue_step_def fences_ok_def)
qed (use assms in \<open>auto simp: process_step_def queue_step_def\<close>)

lemma advance_queue: "queue_step s (advance_schedule toks s)"
proof -
  have seq: "last_sched_seq (advance_schedule toks s) r = last_sched_seq s r
      \<or> last_sched_seq (advance_schedule toks s) r = sched_step_seq (advance_schedule toks s)" for r
    by (simp add: advance_schedule_def update_after_schedule_eq)
  have "fences_ok (advance_schedule toks s)" if "fences_ok s"
    unfolding fences_ok_def
  proof (intro conjI ballI allI)
    fix e assume "e \<in> set (deferred_frees (advance_schedule toks s))"
    then have "fst e \<le> sched_step_seq s + 1" using that by (simp add: fences_ok_def)
    then show "fst e \<le> sched_step_seq (advance_schedule toks s) + 1" using advance_schedule_simps(4) [of s toks] by linarith
  next
    fix r
    have "last_sched_seq s r \<le> sched_step_seq s" using that by (simp add: fences_ok_def)
    with seq [of r] show "last_sched_seq (advance_schedule toks s) r \<le> sched_step_seq (advance_schedule toks s)"
      using advance_schedule_simps(4) [of s toks] by linarith
  qed
  moreover have "defer_block_free (advance_schedule toks s) = defer_block_free s" by (simp add: advance_schedule_def update_after_schedule_eq)
  ultimately show ?thesis by (auto simp: queue_step_def)
qed

lemma sched_step_queue:
  assumes "sched_step s s'" "sched_ok s"
  shows "queue_step s s'"
  using assms(1)
proof cases
  case (kvm k)
  then show ?thesis by (auto intro: queue_stepI [where new = "[]"])
qed (use assms(2) process_queue free_request_queue take_copies_queue advance_queue in blast)+

lemma sched_steps_ok: "sched_steps s s' \<Longrightarrow> sched_ok s \<Longrightarrow> sched_ok s' \<and> (fences_ok s \<longrightarrow> fences_ok s')"
proof (induction rule: sched_steps.induct)
  case (more s s1 s2)
  then show ?case using sched_step_ok [of s1 s2] sched_step_queue [of s1 s2] by (auto simp: queue_step_def)
qed simp

text \<open>An entry stays in the queue until the step of its fence has been processed.\<close>

lemma deferred_entry_stays:
  "sched_steps s s' \<Longrightarrow> sched_ok s \<Longrightarrow> e \<in> set (deferred_frees s) \<Longrightarrow> processed_step_seq s' < fst e \<Longrightarrow>
   e \<in> set (deferred_frees s')"
proof (induction rule: sched_steps.induct)
  case (more s s1 s2)
  have q: "queue_step s1 s2" using sched_step_queue [OF more(2)] sched_steps_ok [OF more(1)] more.prems(1) by blast
  then have "processed_step_seq s1 < fst e" using more.prems(3) by (simp add: queue_step_def)
  then have "e \<in> set (deferred_frees s1)" using more.IH more.prems by blast
  with q more.prems(3) pending_keeps [of e] show ?case by (auto simp: queue_step_def)
qed

text \<open>The states that a freshly constructed manager can reach.\<close>

definition sched_reachable :: "kv_config \<Rightarrow> sched_blocks \<Rightarrow> bool" where
  "sched_reachable cfg s \<longleftrightarrow> (\<exists>ml sbs hbs fl caching eagle la stats ev ui dcp pcp wm meta k defer.
     (\<forall>g \<in> set (kv_cache_groups cfg). 0 < spec_bs (kv_cache_spec g)) \<and> 0 < hbs
     \<and> kv_cache_manager_init cfg ml sbs hbs fl caching eagle la stats ev ui dcp pcp wm meta = Inr k
     \<and> sched_steps (sched_blocks_init k defer) s)"

lemma sched_reachable_ok:
  assumes "sched_reachable cfg s"
  shows "sched_ok s \<and> fences_ok s"
proof -
  obtain ml sbs hbs fl caching eagle la stats ev ui dcp pcp wm meta k deferring where
    pos: "\<forall>g \<in> set (kv_cache_groups cfg). 0 < spec_bs (kv_cache_spec g)" "0 < hbs"
    and run: "kv_cache_manager_init cfg ml sbs hbs fl caching eagle la stats ev ui dcp pcp wm meta = Inr k"
    and steps: "sched_steps (sched_blocks_init k deferring) s"
    using assms unfolding sched_reachable_def by (elim exE conjE) (rule that)
  have "sched_ok (sched_blocks_init k deferring)"
    using kvm_init_ok [OF run pos] by (simp add: sched_ok_def sched_blocks_init_def deferred_blocks_def)
  moreover have "fences_ok (sched_blocks_init k deferring)" by (simp add: fences_ok_def sched_blocks_init_def)
  ultimately show ?thesis using sched_steps_ok [OF steps] by blast
qed

end
