(* ===== verification/Sched_Props.thy ===== *)
theory Sched_Props
  imports Sched_Blocks
begin

text \<open>
  Properties of the block life cycle under the scheduler: exact reference counts in every
  reachable state, no leaks, blocks with writes in flight are never handed out, and every
  deferred block is returned in the end.
\<close>

section \<open>A sample run\<close>

text \<open>One request of three tokens is admitted and scheduled; its step is in flight.\<close>

definition sample_start :: "sched_blocks res" where
  "sample_start = bindE sample_kvm (\<lambda>k. Inr (sched_blocks_init k True))"

definition sample_in_flight :: "sched_blocks res" where
  "sample_in_flight = bindE sample_start (\<lambda>s.
     bindE (allocate_slots (sample_request ''r'' [1, 2, 3] []) 3 0 None 0 0 False 0 True 0 False (sb_kvm s)) (\<lambda>(bs, k).
       Inr (advance_schedule [(''r'', 3)] (s\<lparr>sb_kvm := k\<rparr>))))"

lemma sample_start_reachable:
  assumes "sample_start = Inr s"
  shows "sched_reachable sample_config s"
proof -
  obtain k where k: "sample_kvm = Inr k" "s = sched_blocks_init k True" using assms by (auto simp: sample_start_def bindE_eq_Inr)
  have "kv_cache_manager_init sample_config 100 2 2 None False False 0 False False False 1 1 0 [] = Inr k"
    using k(1) by (simp add: sample_kvm_def)
  moreover have "sched_steps (sched_blocks_init k True) s" unfolding k(2) by (rule sched_steps.start)
  moreover have "\<forall>g \<in> set (kv_cache_groups sample_config). 0 < spec_bs (kv_cache_spec g)" "0 < (2 :: int)"
    by (simp_all add: sample_config_def)
  ultimately show ?thesis unfolding sched_reachable_def by blast
qed

lemma reachable_steps: "sched_reachable cfg s \<Longrightarrow> sched_step s s' \<Longrightarrow> sched_reachable cfg s'"
  unfolding sched_reachable_def by (blast intro: sched_steps.more)

lemma sample_in_flight_reachable:
  assumes "sample_in_flight = Inr s"
  shows "sched_reachable sample_config s"
proof -
  let ?r = "sample_request ''r'' [1, 2, 3] []"
  obtain s0 bs k where s0: "sample_start = Inr s0"
    and a: "allocate_slots ?r 3 0 None 0 0 False 0 True 0 False (sb_kvm s0) = Inr (bs, k)"
    and s: "s = advance_schedule [(''r'', 3)] (s0\<lparr>sb_kvm := k\<rparr>)"
    using assms by (auto simp: sample_in_flight_def bindE_eq_Inr)
  have "kvm_step (sb_kvm s0) k" by (rule kvm_step.allocate [OF _ _ a]) (simp_all add: sample_request_def)
  from reachable_steps [OF reachable_steps [OF sample_start_reachable [OF s0] sched_step.kvm [OF this]] sched_step.schedule]
  show ?thesis unfolding s .
qed

section \<open>Accounting\<close>

lemma sched_ok_pool:
  assumes "sched_ok s"
  shows "\<exists>xs. pool_inv (kvm_pool (sb_kvm s)) xs"
    "valid_block (kvm_pool (sb_kvm s)) b \<Longrightarrow> b \<noteq> null_block (kvm_pool (sb_kvm s)) \<Longrightarrow>
      ref_cnt (blocks (kvm_pool (sb_kvm s)) b)
        = all_refs (single_type_managers (coordinator (sb_kvm s))) b + int (count_list (deferred_blocks s) b)"
  using assms by (auto simp: sched_ok_def kvm_ok_def coord_ok_def mgrs_inv_def refs_ok_def kvm_pool_def held_refs_def)

text \<open>
  C1. In every state that the scheduler can reach, the reference count of a block is exactly the
  number of its holders: its occurrences in the block tables and in the pending copies of all
  managers and in the queue of deferred frees.  The free queue lists, without repetition, exactly
  the blocks that nobody holds.
\<close>

theorem block_accounting:
  assumes "sched_reachable cfg s" "p = kvm_pool (sb_kvm s)" "ms = single_type_managers (coordinator (sb_kvm s))"
  shows "(\<forall>b. valid_block p b \<and> b \<noteq> null_block p \<longrightarrow> ref_cnt (blocks p b) = all_refs ms b + int (count_list (deferred_blocks s) b))
    \<and> (\<exists>xs. get_all_free_blocks (free_block_queue p) = Some (Inr xs) \<and> distinct xs \<and> get_num_free_blocks p = int (length xs)
        \<and> set xs = {b. valid_block p b \<and> b \<noteq> null_block p \<and> all_refs ms b = 0 \<and> b \<notin> set (deferred_blocks s)})"
proof -
  have ok: "sched_ok s" using sched_reachable_ok [OF assms(1)] by blast
  obtain xs where inv: "pool_inv p xs" using sched_ok_pool(1) [OF ok] unfolding assms(2) by blast
  note refs = sched_ok_pool(2) [OF ok, folded assms(2,3)]
  have "set xs = {b. valid_block p b \<and> b \<noteq> null_block p \<and> all_refs ms b = 0 \<and> b \<notin> set (deferred_blocks s)}"
  proof (intro set_eqI iffI CollectI)
    fix b assume "b \<in> set xs"
    then have b: "valid_block p b" "b \<noteq> null_block p" "ref_cnt (blocks p b) = 0" using pool_inv_free [OF inv] by auto
    then have "all_refs ms b = 0" "count_list (deferred_blocks s) b = 0" using refs [OF b(1,2)] all_refs_nonneg [of ms b] by linarith+
    with b show "valid_block p b \<and> b \<noteq> null_block p \<and> all_refs ms b = 0 \<and> b \<notin> set (deferred_blocks s)"
      by (simp add: count_list_0_iff)
  next
    fix b assume "b \<in> {b. valid_block p b \<and> b \<noteq> null_block p \<and> all_refs ms b = 0 \<and> b \<notin> set (deferred_blocks s)}"
    then show "b \<in> set xs" using refs [of b] pool_inv_free [OF inv, of b] by (simp add: count_list_0_iff)
  qed
  then show ?thesis
    using refs inv pool_inv_distinct [OF inv] get_num_free_blocks_inv [OF inv] fq_get_all_free_blocks
    by (simp add: pool_inv_def) blast
qed

theorem block_accounting_witness:
  "\<exists>s. sched_reachable sample_config s
     \<and> ref_cnt (blocks (kvm_pool (sb_kvm s)) (Blk 2)) = all_refs (single_type_managers (coordinator (sb_kvm s))) (Blk 2)
         + int (count_list (deferred_blocks s) (Blk 2))
     \<and> ref_cnt (blocks (kvm_pool (sb_kvm s)) (Blk 2)) = 1"
proof -
  have "satisfies (\<lambda>s. valid_block (kvm_pool (sb_kvm s)) (Blk 2) \<and> null_block (kvm_pool (sb_kvm s)) = Blk 0
    \<and> ref_cnt (blocks (kvm_pool (sb_kvm s)) (Blk 2)) = 1) sample_in_flight" by code_simp
  then obtain s where s: "sample_in_flight = Inr s" "valid_block (kvm_pool (sb_kvm s)) (Blk 2)"
    "null_block (kvm_pool (sb_kvm s)) = Blk 0" "ref_cnt (blocks (kvm_pool (sb_kvm s)) (Blk 2)) = 1"
    by (elim satisfiesE) blast
  note r = sample_in_flight_reachable [OF s(1)]
  from block_accounting [OF r refl refl] s r show ?thesis by auto
qed

section \<open>No leaks\<close>

lemma idle_refs:
  assumes "\<forall>m \<in> set ms. pending_cow_copies m = [] \<and> (\<forall>r. blocks_of m r = [])"
  shows "all_refs ms b = 0"
  using assms by (induction ms) (simp_all add: mgr_refs_def table_refs_def cow_refs_def)

text \<open>
  C19. No block is leaked: when no request holds blocks, no copy is pending and no free is
  deferred, all blocks but the null block are free again, and resetting the prefix cache succeeds.
\<close>

theorem no_block_leaked:
  assumes "sched_reachable cfg s" "deferred_frees s = []"
    and "\<forall>m \<in> set (single_type_managers (coordinator (sb_kvm s))). pending_cow_copies m = [] \<and> (\<forall>r. blocks_of m r = [])"
  shows "get_num_free_blocks (kvm_pool (sb_kvm s)) = num_gpu_blocks (kvm_pool (sb_kvm s)) - 1
    \<and> fst (reset_prefix_cache (kvm_pool (sb_kvm s)))"
proof -
  let ?p = "kvm_pool (sb_kvm s)"
  have ok: "sched_ok s" using sched_reachable_ok [OF assms(1)] by blast
  obtain xs where inv: "pool_inv ?p xs" using sched_ok_pool(1) [OF ok] by blast
  have "used_set ?p = {}" using sched_ok_pool(2) [OF ok] idle_refs [OF assms(3)] assms(2) by (auto simp: used_set_def deferred_blocks_def)
  then show ?thesis using block_conservation [OF inv] reset_prefix_cache_result [OF inv] by auto
qed

theorem no_block_leaked_witness:
  "\<exists>s. sched_reachable sample_config s \<and> get_num_free_blocks (kvm_pool (sb_kvm s)) = num_gpu_blocks (kvm_pool (sb_kvm s)) - 1
     \<and> num_gpu_blocks (kvm_pool (sb_kvm s)) = 8"
proof -
  have "satisfies (\<lambda>s. num_gpu_blocks (kvm_pool (sb_kvm s)) = 8 \<and> deferred_frees s = []) sample_start" by code_simp
  then obtain s where s: "sample_start = Inr s" "num_gpu_blocks (kvm_pool (sb_kvm s)) = 8" "deferred_frees s = []"
    by (elim satisfiesE) blast
  then have "sample_kvm = Inr (sb_kvm s)" by (auto simp: sample_start_def bindE_eq_Inr sched_blocks_init_def)
  from kvm_init_fresh [OF this [unfolded sample_kvm_def]]
  have "list_all fresh_mgr (single_type_managers (coordinator (sb_kvm s)))" by (simp add: sample_config_def)
  then have "\<forall>m \<in> set (single_type_managers (coordinator (sb_kvm s))). pending_cow_copies m = [] \<and> (\<forall>r. blocks_of m r = [])"
    by (simp add: list_all_iff fresh_mgr_def blocks_of_def)
  from no_block_leaked [OF sample_start_reachable [OF s(1)] s(3) this] sample_start_reachable [OF s(1)] s(2) show ?thesis by blast
qed

section \<open>Deferred frees\<close>

text \<open>
  C4. Deferred freeing protects the blocks that a step in flight may still write.  When frees are
  deferred (\<open>defer_block_free\<close>, which the scheduler's constructor sets when a KV-consumer connector is
  used with several batches in flight) and a request is freed while the last step that scheduled it
  has not been processed, every block it held stays referenced (so it is not free and cannot be
  allocated) in every later state until that step has been processed, whatever the scheduler does in
  between.  Without the flag \<open>free_request_blocks\<close> frees the blocks at once and nothing is claimed.
\<close>

theorem in_flight_blocks_protected:
  assumes reach: "sched_reachable cfg s" and dfr: "defer_block_free s" and fly: "processed_step_seq s < last_sched_seq s (req_id r)"
    and free: "free_request_blocks r s = Inr s1" and later: "sched_steps s1 s2"
    and still: "processed_step_seq s2 < last_sched_seq s (req_id r)"
    and b: "b \<in> set (concat (coord_get_blocks (req_id r) (coordinator (sb_kvm s))))" "b \<noteq> null_block (kvm_pool (sb_kvm s2))"
  shows "0 < ref_cnt (blocks (kvm_pool (sb_kvm s2)) b)"
proof -
  have ok: "sched_ok s" "last_sched_seq s (req_id r) \<le> sched_step_seq s"
    using sched_reachable_ok [OF reach] by (auto simp: fences_ok_def)
  obtain bs k where pop: "kvm_pop_blocks_for_free r (sb_kvm s) = (bs, k)" by (cases "kvm_pop_blocks_for_free r (sb_kvm s)")
  have bs: "bs = concat (coord_get_blocks (req_id r) (coordinator (sb_kvm s)))"
    using pop_kvm_ok [OF _ pop] ok(1) by (simp add: sched_ok_def)
  have "bs \<noteq> []" using b(1) unfolding bs by force
  then have s1: "s1 = s\<lparr>sb_kvm := k, deferred_frees := deferred_frees s @ [(sched_step_seq s, bs)]\<rparr>"
    using free dfr fly unfolding free_request_blocks_def pop prod.case Let_def by simp
  have ok1: "sched_ok s1" using free_request_ok [OF ok(1), of r] free by auto
  have "(sched_step_seq s, bs) \<in> set (deferred_frees s2)"
    by (rule deferred_entry_stays [OF later ok1]) (use still ok(2) in \<open>simp_all add: s1\<close>)
  then have mem: "b \<in> set (deferred_blocks s2)" using b(1) bs by (force simp: deferred_blocks_def)
  have ok2: "sched_ok s2" using sched_steps_ok [OF later ok1] by blast
  have valid: "valid_block (kvm_pool (sb_kvm s2)) b" using ok2 mem by (auto simp: sched_ok_def kvm_ok_def)
  have "0 < count_list (deferred_blocks s2) b" using mem count_list_0_iff [of "deferred_blocks s2" b] by auto
  then show ?thesis
    using sched_ok_pool(2) [OF ok2 valid b(2)] all_refs_nonneg [of "single_type_managers (coordinator (sb_kvm s2))" b] by simp
qed

theorem in_flight_blocks_protected_witness:
  "\<exists>s s1. sched_reachable sample_config s \<and> free_request_blocks (sample_request ''r'' [1, 2, 3] []) s = Inr s1
     \<and> 0 < ref_cnt (blocks (kvm_pool (sb_kvm s1)) (Blk 1))"
proof -
  let ?r = "sample_request ''r'' [1, 2, 3] []"
  have "satisfies (\<lambda>s. defer_block_free s \<and> processed_step_seq s < last_sched_seq s (req_id ?r)
      \<and> Blk 1 \<in> set (concat (coord_get_blocks (req_id ?r) (coordinator (sb_kvm s))))
      \<and> satisfies (\<lambda>s1. processed_step_seq s1 < last_sched_seq s (req_id ?r) \<and> null_block (kvm_pool (sb_kvm s1)) = Blk 0)
          (free_request_blocks ?r s)) sample_in_flight" by code_simp
  then obtain s s1 where s: "sample_in_flight = Inr s" "defer_block_free s" "processed_step_seq s < last_sched_seq s (req_id ?r)"
    "Blk 1 \<in> set (concat (coord_get_blocks (req_id ?r) (coordinator (sb_kvm s))))" "free_request_blocks ?r s = Inr s1"
    "processed_step_seq s1 < last_sched_seq s (req_id ?r)" "null_block (kvm_pool (sb_kvm s1)) = Blk 0"
    by (elim satisfiesE conjE) blast
  note r = sample_in_flight_reachable [OF s(1)]
  from in_flight_blocks_protected [OF r s(2,3,5) sched_steps.start s(6,4)] s(5,7) r show ?thesis by auto
qed

lemma process_many:
  "\<lbrakk>sched_ok s; defer_block_free s; \<forall>n \<in> set ns. 0 < n\<rbrakk> \<Longrightarrow>
   \<exists>s'. foldE process_step ns s = Inr s' \<and> sched_ok s' \<and> defer_block_free s'
     \<and> processed_step_seq s' = processed_step_seq s + int (length ns)
     \<and> set (deferred_frees s') \<subseteq> set (deferred_frees s)
     \<and> (ns \<noteq> [] \<longrightarrow> pending (processed_step_seq s') (deferred_frees s') = deferred_frees s')"
proof (induction ns arbitrary: s)
  case (Cons n ns)
  obtain s1 where s1: "process_step n s = Inr s1" "sched_ok s1" using process_ok [OF Cons.prems(1)] by blast
  have q: "defer_block_free s1" "processed_step_seq s1 = processed_step_seq s + 1"
    "deferred_frees s1 = pending (processed_step_seq s1) (deferred_frees s)"
    using process_queue [OF s1(1) Cons.prems(1)] Cons.prems by (auto simp: queue_step_def)
  have idem: "pending m (pending m xs) = pending m xs" for m xs by (simp add: pending_def dropWhile_idem)
  obtain s' where "foldE process_step ns s1 = Inr s'" "sched_ok s'" "defer_block_free s'"
    "processed_step_seq s' = processed_step_seq s1 + int (length ns)" "set (deferred_frees s') \<subseteq> set (deferred_frees s1)"
    "ns \<noteq> [] \<longrightarrow> pending (processed_step_seq s') (deferred_frees s') = deferred_frees s'"
    using Cons.IH [OF s1(2) q(1)] Cons.prems(3) by auto
  with s1 q set_pending [of "processed_step_seq s1" "deferred_frees s"] idem show ?case by (cases "ns = []") auto
qed auto

text \<open>
  C18. Every deferred free happens: when frees are deferred (\<open>defer_block_free\<close>), after enough further
  non-empty steps have been processed (one more than are in flight), the queue of deferred frees is
  empty; none of these calls raises.
\<close>

theorem deferred_frees_drain:
  assumes "sched_reachable cfg s" "defer_block_free s" "\<forall>n \<in> set ns. 0 < n" "ns \<noteq> []"
    and "sched_step_seq s + 1 \<le> processed_step_seq s + int (length ns)"
  shows "\<exists>s'. foldE process_step ns s = Inr s' \<and> deferred_frees s' = []"
proof -
  have ok: "sched_ok s" "\<forall>e \<in> set (deferred_frees s). fst e \<le> sched_step_seq s + 1"
    using sched_reachable_ok [OF assms(1)] by (auto simp: fences_ok_def)
  obtain s' where s': "foldE process_step ns s = Inr s'" "processed_step_seq s' = processed_step_seq s + int (length ns)"
    "set (deferred_frees s') \<subseteq> set (deferred_frees s)" "pending (processed_step_seq s') (deferred_frees s') = deferred_frees s'"
    using process_many [OF ok(1) assms(2,3)] assms(4) by blast
  have "\<forall>e \<in> set (deferred_frees s'). fst e \<le> processed_step_seq s'" using s'(2,3) ok(2) assms(5) by fastforce
  then have "pending (processed_step_seq s') (deferred_frees s') = []" by (simp add: pending_def dropWhile_eq_Nil_conv)
  with s'(1,4) show ?thesis by auto
qed

theorem deferred_frees_drain_witness:
  "\<exists>s s'. sched_reachable sample_config s \<and> deferred_frees s \<noteq> []
     \<and> foldE process_step [3, 1] s = Inr s' \<and> deferred_frees s' = []"
proof -
  let ?r = "sample_request ''r'' [1, 2, 3] []"
  have "satisfies (\<lambda>s. satisfies (\<lambda>s1. deferred_frees s1 \<noteq> [] \<and> defer_block_free s1
      \<and> sched_step_seq s1 + 1 \<le> processed_step_seq s1 + 2) (free_request_blocks ?r s)) sample_in_flight" by code_simp
  then obtain s s1 where s: "sample_in_flight = Inr s" "free_request_blocks ?r s = Inr s1" "deferred_frees s1 \<noteq> []"
    "defer_block_free s1" "sched_step_seq s1 + 1 \<le> processed_step_seq s1 + 2" by (elim satisfiesE) blast
  have r: "sched_reachable sample_config s1"
    by (rule reachable_steps [OF sample_in_flight_reachable [OF s(1)] sched_step.free [OF s(2)]])
  from deferred_frees_drain [OF r s(4), of "[3, 1]"] s(5) have "\<exists>s'. foldE process_step [3, 1] s1 = Inr s' \<and> deferred_frees s' = []"
    by (simp del: foldE.simps)
  with r s(3) show ?thesis by blast
qed

end
