(* ===== verification/Lookup_Total.thy ===== *)
theory Lookup_Total
  imports KVM_Steps
begin

text \<open>
  The prefix-cache lookup always returns.  The lookup of one group is bounded by its arguments; the
  fixed-point iteration of the hybrid coordinator shortens the candidate length in every round
  that does not end it, and never below 0.  The hit leaves at least one token to compute.
\<close>

section \<open>Bounds of the lookups of one group\<close>

definition cols_le :: "int \<Rightarrow> bref list list \<Rightarrow> bool" where
  "cols_le n C \<longleftrightarrow> (\<forall>c \<in> set C. int (length c) \<le> n)"

lemma cols_le_mono: "cols_le n C \<Longrightarrow> n \<le> m \<Longrightarrow> cols_le m C"
  by (auto simp: cols_le_def)

lemma cols_le_map: "cols_le n C \<Longrightarrow> (\<And>c. length (f c) \<le> length c) \<Longrightarrow> cols_le n (map f C)"
  unfolding cols_le_def by (auto intro: order_trans [OF of_nat_mono])

lemma cols_le_append: "cols_le n C \<Longrightarrow> cols_le (n + 1) (append_each C xs)"
  by (auto simp: cols_le_def append_each_def dest: set_zip_leftD)

lemma cols_le_update: "cols_le n C \<Longrightarrow> cols_le n (map2 (\<lambda>cs y. cs[i := y]) C xs)"
  by (auto simp: cols_le_def dest: set_zip_leftD)

lemma cols_le_get: "cols_le n C \<Longrightarrow> py_get C 0 = Inr c \<Longrightarrow> int (length c) \<le> n"
  by (auto simp: cols_le_def py_get_def split: if_splits)

lemma full_hit_loop_le: "cols_le n C \<Longrightarrow> post (full_hit_loop p gids hs C) (cols_le (n + int (length hs)))"
proof (induction hs arbitrary: n C)
  case (Cons h hs)
  have "post (full_hit_loop p gids hs (append_each C xs)) (cols_le (n + int (length (h # hs))))" for xs
    using Cons.IH [OF cols_le_append [OF Cons.prems]] by (simp add: algebra_simps)
  moreover have "cols_le (n + int (length (h # hs))) C" using cols_le_mono [OF Cons.prems] by simp
  ultimately show ?case by (auto intro!: post_any split: option.split list.split)
qed simp

lemma partial_hit_loop_bounds:
  "post (partial_hit_loop p gids hs alignment is C hit) (\<lambda>(C', n). n = hit \<or> (\<exists>i \<in> set is. n = (i + 1) * alignment))"
proof (induction "is")
  case (Cons i "is")
  have rest: "post (partial_hit_loop p gids hs alignment is C hit) (\<lambda>(C', n). n = hit \<or> (\<exists>i \<in> set (i # is). n = (i + 1) * alignment))"
    by (rule post_mono [OF Cons.IH]) auto
  show ?case
    unfolding partial_hit_loop.simps
    by (rule post_any, rule post_any) (use rest in \<open>auto split: option.split list.split\<close>)
qed simp

lemma swa_hit_loop_le: "cols_le n C \<Longrightarrow> post (swa_hit_loop p gids hs bs al e need is C k) (\<lambda>(C', _). cols_le n C')"
proof (induction "is" arbitrary: C k)
  case (Cons i "is")
  note step = cols_le_update [OF Cons.prems, of "nat i"]
  have take: "cols_le n (map (take j) (map2 (\<lambda>cs y. cs[nat i := y]) C xs))" for j xs by (rule cols_le_map [OF step]) simp
  show ?case
    unfolding swa_hit_loop.simps Let_def
    by (rule post_any, rule post_any) (use Cons.IH [OF Cons.prems] Cons.IH [OF step] take in \<open>auto split: option.split list.split\<close>)
qed simp

lemma align_pop_le: "cols_le n C \<Longrightarrow> cols_le n (align_pop bs al m C)"
  by (induction m arbitrary: C) (simp_all add: cols_le_map)

lemma chunked_hit_loop_le: "cols_le n C \<Longrightarrow> post (chunked_hit_loop p gids hs is C) (cols_le (n + int (length is)))"
proof (induction "is" arbitrary: n C)
  case (Cons i "is")
  have "post (chunked_hit_loop p gids hs is (append_each C xs)) (cols_le (n + int (length (i # is))))" for xs
    using Cons.IH [OF cols_le_append [OF Cons.prems]] by (simp add: algebra_simps)
  moreover have "cols_le (n + int (length (i # is))) C" using cols_le_mono [OF Cons.prems] by simp
  ultimately show ?case by (auto intro!: post_any split: option.split list.split)
qed simp

definition hit_bounds :: "int \<Rightarrow> bref list list \<times> int \<Rightarrow> bool" where
  "hit_bounds max_length = (\<lambda>(C, n). 0 \<le> n \<and> n \<le> max_length)"

lemma blocks_bounds:
  assumes "int n \<le> max_length div bs" "0 < bs"
  shows "0 \<le> int n * bs \<and> int n * bs \<le> max_length"
proof -
  have "int n * bs \<le> max_length div bs * bs" using assms by (simp add: mult_right_mono)
  also have "\<dots> \<le> max_length" using div_mult_mod_eq [of max_length bs] pos_mod_sign [OF assms(2), of max_length] by linarith
  finally show ?thesis using assms(2) by simp
qed

lemma swa_hit_bounds:
  assumes "0 < bs" "0 \<le> max_length"
  shows "post (swa_find_longest_cache_hit hashes max_length gids p bs w e al dcp pcp) (hit_bounds max_length)"
proof -
  let ?n = "max_length div bs"
  have n0: "0 \<le> ?n" using assms by (simp add: pos_imp_zdiv_nonneg_iff)
  have start: "cols_le ?n (replicate (length gids) (replicate (nat ?n) (null_block p)))" using n0 by (auto simp: cols_le_def)
  show ?thesis
    unfolding swa_find_longest_cache_hit_def Let_def
    apply (rule post_any, rule post_any, rule post_any, rule post_any)
    apply (rule post_bind, rule post_mono [OF swa_hit_loop_le [OF start]])
    apply (clarsimp split del: if_split)
    apply (rule post_any, rule post_any)
    apply (simp add: hit_bounds_def)
    apply (rule blocks_bounds [OF cols_le_get assms(1)])
     apply (auto intro!: align_pop_le cols_le_map)
    done
qed

lemma chunked_hit_bounds:
  assumes bs: "0 < bs" and n: "0 \<le> max_length" and c: "0 < chunk"
  shows "post (chunked_find_longest_cache_hit hashes max_length gids p bs chunk e al dcp pcp) (hit_bounds max_length)"
proof -
  define start where "start = (if 0 < max_length then max_length div chunk * chunk else 0) div bs"
  have "max_length div chunk * chunk \<le> max_length" using blocks_bounds [of "nat (max_length div chunk)" max_length chunk] n c
    by (simp add: pos_imp_zdiv_nonneg_iff)
  moreover have "0 \<le> max_length div chunk * chunk" using n c by (simp add: pos_imp_zdiv_nonneg_iff)
  ultimately have st: "0 \<le> start" "start \<le> max_length div bs"
    using n bs by (auto simp: start_def pos_imp_zdiv_nonneg_iff intro!: zdiv_mono1)
  have "cols_le start (replicate (length gids) (replicate (nat start) (null_block p)))" using st by (auto simp: cols_le_def)
  note loop = chunked_hit_loop_le [OF this, of p gids _ "py_range start (max_length div bs)"]
  have len: "start + int (length (py_range start (max_length div bs))) = max_length div bs" using st by (simp add: py_range_def)
  show ?thesis
    unfolding chunked_find_longest_cache_hit_def Let_def start_def [symmetric]
    apply (rule post_any, rule post_any, rule post_any, rule post_any, rule post_any)
    apply (rule post_bind, rule post_mono [OF loop [unfolded len]])
    apply (rule post_any)
    apply (unfold hit_bounds_def post_simps prod.case)
    apply (rule blocks_bounds [OF cols_le_get bs])
     apply assumption+
    done
qed

text \<open>The length of a full-attention hit, from the blocks and the interior boundary found.\<close>

lemma full_length_bounds:
  fixes hit0 hit1 bs alignment max_length :: int
  assumes "0 < bs" "0 < alignment" "hit0 \<le> max_length" "hit0 = 0 \<or> bs \<le> hit0 \<or> alignment \<le> hit0"
    and "hit1 = (if e \<and> 0 < hit0 then hit0 - min alignment bs else hit0)"
  shows "0 \<le> hit1 - hit1 mod alignment \<and> hit1 - hit1 mod alignment \<le> max_length"
proof -
  have "0 \<le> hit1" "hit1 \<le> max_length" using assms by (auto split: if_splits)
  moreover have "0 \<le> hit1 mod alignment" using assms(2) by simp
  moreover have "hit1 mod alignment \<le> hit1" using zmod_le_nonneg_dividend \<open>0 \<le> hit1\<close> by blast
  ultimately show ?thesis by linarith
qed

lemma partial_index_bounds:
  assumes "i \<in> set (py_range_down (min x (min (max_length div alignment) y) - 1) (k - 1))" "0 \<le> k" "0 < alignment"
  shows "alignment \<le> (i + 1) * alignment \<and> (i + 1) * alignment \<le> max_length"
proof -
  from assms(1,2) have i: "0 \<le> i" "int (nat (i + 1)) \<le> max_length div alignment" by auto
  have "alignment * 1 \<le> alignment * (i + 1)" by (rule mult_left_mono) (use i(1) assms(3) in auto)
  with blocks_bounds [OF i(2) assms(3)] i(1) show ?thesis by (simp add: mult.commute)
qed

lemma full_probe_bounds:
  assumes b: "0 < b" and al: "0 < alignment" and len: "int (length c0) \<le> max_length div b"
  shows "post (if alignment < b \<and> b mod alignment = 0
      then partial_hit_loop p gids hs alignment
        (py_range_down (min x (min (max_length div alignment) y) - 1) (int (length c0) * (b div alignment) - 1)) computed (int (length c0) * b)
      else Inr (computed, int (length c0) * b)) (\<lambda>(C, h). h \<le> max_length \<and> (h = 0 \<or> b \<le> h \<or> alignment \<le> h))"
proof -
  have whole: "int (length c0) * b \<le> max_length \<and> (int (length c0) * b = 0 \<or> b \<le> int (length c0) * b)"
    using blocks_bounds [OF len b] b by (cases "length c0") (auto simp: algebra_simps)
  have k: "0 \<le> int (length c0) * (b div alignment)" using b al by (simp add: pos_imp_zdiv_nonneg_iff)
  show ?thesis
  proof (rule post_if)
    show "post (partial_hit_loop p gids hs alignment
        (py_range_down (min x (min (max_length div alignment) y) - 1) (int (length c0) * (b div alignment) - 1)) computed (int (length c0) * b))
        (\<lambda>(C, h). h \<le> max_length \<and> (h = 0 \<or> b \<le> h \<or> alignment \<le> h))"
      by (rule post_mono [OF partial_hit_loop_bounds]) (use whole partial_index_bounds [OF _ k al] in blast)
  qed (use whole in auto)
qed

lemma full_hit_bounds:
  assumes bs0: "0 < bs" and al: "0 < alignment" and n: "0 \<le> max_length" and dcp: "0 < dcp"
  shows "post (full_find_longest_cache_hit hashes max_length gids p bs e alignment dcp) (hit_bounds max_length)"
proof -
  define b where "b = (if 1 < dcp then bs * dcp else bs)"
  have b: "0 < b" using bs0 dcp by (simp add: b_def)
  have start: "cols_le 0 (replicate (length gids) [])" by (simp add: cols_le_def)
  have len: "int (length c0) \<le> max_length div b"
    if "cols_le (0 + int (length (take (nat (max_length div b)) l))) C" "py_get C 0 = Inr c0" for l and C :: "bref list list" and c0
  proof -
    have "length (take (nat (max_length div b)) l) \<le> nat (max_length div b)" by simp
    moreover have "0 \<le> max_length div b" using n b by (simp add: pos_imp_zdiv_nonneg_iff)
    ultimately show ?thesis using cols_le_get [OF that] by linarith
  qed
  show ?thesis
    unfolding full_find_longest_cache_hit_def Let_def b_def [symmetric]
    apply (rule post_any, rule post_any, rule post_any)
    apply (rule post_bind, rule post_mono [OF full_hit_loop_le [OF start]])
    apply (rule post_any)
    apply (rule post_bind, rule post_mono [OF full_probe_bounds [OF b al len]], assumption+)
    apply (clarify, unfold post_simps hit_bounds_def prod.case)
    apply (rule full_length_bounds [OF b al _ _ refl])
     apply assumption+
    done
qed

lemma lookup_bounds:
  assumes "0 < bs" "0 < alignment" "0 \<le> max_length" "0 < dcp" "\<And>chunk. k = ChunkedLocal chunk \<Longrightarrow> 0 < chunk"
  shows "post (find_longest_cache_hit k hashes max_length gids p bs e alignment dcp pcp) (hit_bounds max_length)"
  using assms full_hit_bounds [OF assms(1-4)] swa_hit_bounds [OF assms(1,3)] chunked_hit_bounds [OF assms(1,3)]
  by (cases k) (simp_all add: find_longest_cache_hit_def, simp_all add: hit_bounds_def)

section \<open>The hybrid coordinator\<close>

text \<open>Sizes and group ids as the constructor builds them.\<close>

definition lookup_spec_ok :: "kv_spec \<Rightarrow> bool" where
  "lookup_spec_ok s \<longleftrightarrow> 0 < spec_bs s \<and> (case spec_kind s of ChunkedLocal chunk \<Rightarrow> 0 < chunk | _ \<Rightarrow> True)"

definition mgr_sized :: "mgr \<Rightarrow> bool" where
  "mgr_sized m \<longleftrightarrow> 0 < block_size m \<and> (case kind m of ChunkedLocal chunk \<Rightarrow> 0 < chunk | _ \<Rightarrow> True)"

definition spec_group_ok :: "nat \<Rightarrow> spec_group \<Rightarrow> bool" where
  "spec_group_ok n g \<longleftrightarrow> lookup_spec_ok (sg_spec g) \<and> sg_group_ids g \<noteq> [] \<and> list_all (\<lambda>i. 0 \<le> i \<and> i < int n) (sg_group_ids g)"

definition lookup_ok :: "coord \<Rightarrow> bool" where
  "lookup_ok c \<longleftrightarrow> 0 < scheduler_block_size c \<and> length (kv_cache_groups (coord_config c)) = length (single_type_managers c)
     \<and> list_all mgr_sized (single_type_managers c)
     \<and> list_all (\<lambda>g. lookup_spec_ok (kv_cache_spec g)) (kv_cache_groups (coord_config c))
     \<and> list_all (spec_group_ok (length (single_type_managers c))) (attention_groups c)"

lemma lookup_okD:
  assumes "lookup_ok c" "g \<in> set (attention_groups c)"
  shows "lookup_spec_ok (sg_spec g)" "nat (hd (sg_group_ids g)) < length (single_type_managers c)"
    "0 < block_size (single_type_managers c ! nat (hd (sg_group_ids g)))"
proof -
  show "lookup_spec_ok (sg_spec g)" using assms by (simp add: lookup_ok_def list_all_iff spec_group_ok_def mgr_sized_def)
  have "hd (sg_group_ids g) \<in> set (sg_group_ids g)" using assms by (simp add: lookup_ok_def list_all_iff spec_group_ok_def mgr_sized_def)
  then have "0 \<le> hd (sg_group_ids g) \<and> hd (sg_group_ids g) < int (length (single_type_managers c))"
    using assms unfolding lookup_ok_def list_all_iff spec_group_ok_def mgr_sized_def by blast
  then show first: "nat (hd (sg_group_ids g)) < length (single_type_managers c)" by linarith
  show "0 < block_size (single_type_managers c ! nat (hd (sg_group_ids g)))"
    using assms(1) nth_mem [OF first] unfolding lookup_ok_def list_all_iff spec_group_ok_def mgr_sized_def by blast
qed

lemma dcp_pos: "0 < dcp_world_size_for_kv_cache_spec s d"
  by (simp add: dcp_world_size_for_kv_cache_spec_def)

lemma spec_lookup_bounds:
  assumes "lookup_spec_ok s" "0 < alignment" "0 \<le> n"
  shows "post (find_longest_cache_hit (spec_kind s) hashes n gids p (spec_bs s) e alignment (dcp_world_size_for_kv_cache_spec s d) pcp)
    (hit_bounds n)"
  by (rule lookup_bounds [OF _ assms(2,3) dcp_pos]) (use assms(1) in \<open>auto simp: lookup_spec_ok_def\<close>)

definition lengths_ok :: "hybrid_state \<Rightarrow> bool" where
  "lengths_ok h \<longleftrightarrow> (\<forall>n \<in> set (hit_length_by_group h). 0 \<le> n)"

lemma foldl_update_all:
  "\<forall>x \<in> set xs. P x \<Longrightarrow> P n \<Longrightarrow> \<forall>x \<in> set (foldl (\<lambda>xs (g, bs). xs[f g := n]) xs l). P x"
proof (induction l arbitrary: xs)
  case (Cons y l)
  have "\<forall>x \<in> set (xs[f (fst y) := n]). P x" using Cons.prems set_update_subset_insert [of xs "f (fst y)" n] by blast
  with Cons.IH Cons.prems(2) show ?case by (simp add: case_prod_beta)
qed simp

lemma record_hit_lengths: "lengths_ok h \<Longrightarrow> 0 \<le> n \<Longrightarrow> lengths_ok (record_hit gids bs n h)"
  using foldl_update_all [of "hit_length_by_group h" "\<lambda>n. 0 \<le> n" n nat "zip gids bs"] by (simp add: lengths_ok_def record_hit_def)

lemma foldl_update_length: "length (foldl (\<lambda>xs (g, bs). xs[f g := n]) xs l) = length xs"
  by (induction l arbitrary: xs) auto

lemma record_hit_length: "length (hit_length_by_group (record_hit gids bs n h)) = length (hit_length_by_group h)"
  by (simp add: record_hit_def foldl_update_length)

lemma spec_group_lookup_nonneg:
  assumes ok: "lookup_ok c" and g: "g \<in> set (attention_groups c)" and n: "0 \<le> curr_hit" "0 \<le> max_hit"
  shows "post (spec_group_lookup c hashes max_hit g e curr_hit) (\<lambda>(C, n). 0 \<le> n)"
proof -
  note d = lookup_okD [OF ok g]
  let ?n = "if e then min (curr_hit + block_size (single_type_managers c ! nat (hd (sg_group_ids g)))) max_hit else curr_hit"
  have "0 \<le> ?n" "0 < scheduler_block_size c" using n d(3) ok by (auto simp: lookup_ok_def)
  from post_mono [OF spec_lookup_bounds [OF d(1) this(2,1)]]
  show ?thesis unfolding spec_group_lookup_def Let_def by (simp add: hit_bounds_def case_prod_beta)
qed

definition state_ok :: "coord \<Rightarrow> hybrid_state \<Rightarrow> bool" where
  "state_ok c h \<longleftrightarrow> lengths_ok h \<and> length (hit_length_by_group h) = length (single_type_managers c)"

lemma hybrid_pass_nonneg:
  assumes ok: "lookup_ok c" and max: "0 \<le> max_hit"
  shows "\<lbrakk>snd ` set gs \<subseteq> set (attention_groups c); 0 \<le> curr_hit; state_ok c h\<rbrakk> \<Longrightarrow>
    post (hybrid_pass c hashes max_hit gs curr_hit h) (\<lambda>(n, h'). 0 \<le> n \<and> state_ok c h')"
proof (induction gs arbitrary: curr_hit h)
  case (Cons ig gs)
  obtain i g where ig: "ig = (i, g)" by (cases ig)
  have g: "g \<in> set (attention_groups c)" and gs: "snd ` set gs \<subseteq> set (attention_groups c)" using Cons.prems(1) by (auto simp: ig)
  have "hit_length_by_group h ! nat (hd (sg_group_ids g)) \<in> set (hit_length_by_group h)"
    using lookup_okD(2) [OF ok g] Cons.prems(3) by (simp add: state_ok_def)
  then have old: "0 \<le> min curr_hit (hit_length_by_group h ! nat (hd (sg_group_ids g)))"
    using Cons.prems(2,3) by (simp add: state_ok_def lengths_ok_def)
  have new: "state_ok c (record_hit (sg_group_ids g) bs n (h\<lparr>eagle_verified := v\<rparr>)\<lparr>longest_hit_length := l\<rparr>)" if "0 \<le> n" for bs n v l
    using Cons.prems(3) record_hit_lengths [of "h\<lparr>eagle_verified := v\<rparr>" n "sg_group_ids g" bs] that
    by (simp add: state_ok_def record_hit_length) (simp add: lengths_ok_def)
  show ?case
    unfolding ig hybrid_pass.simps Let_def
    apply (rule post_if, rule Cons.IH [OF gs old Cons.prems(3)])
    apply (rule post_bind, rule post_mono [OF spec_group_lookup_nonneg [OF ok g Cons.prems(2) max]])
    apply (clarify, rule Cons.IH [OF gs])
     apply assumption
    apply (erule new)
    done
qed simp

section \<open>The lookup returns\<close>

lemma enum_snd: "snd ` set (enum xs) \<subseteq> set xs"
  by (auto simp: enum_def dest: set_zip_rightD)

lemma hybrid_loop_returns:
  assumes ok: "lookup_ok c" and max: "0 \<le> max_hit"
  shows "\<lbrakk>0 \<le> n; state_ok c h\<rbrakk> \<Longrightarrow> \<exists>m. hybrid_loop c hashes max_hit simple n h = Some m \<and> post m (\<lambda>(n', h'). 0 \<le> n' \<and> n' \<le> n)"
proof (induction "nat n" arbitrary: n h rule: less_induct)
  case less
  note pass = hybrid_pass_nonneg [OF ok max enum_snd less.prems, of hashes]
  show ?case
  proof (cases "hybrid_pass c hashes max_hit (enum (attention_groups c)) n h")
    case (Inl e)
    then show ?thesis by (subst hybrid_loop.simps) simp
  next
    case (Inr x)
    obtain n1 h1 where x: "x = (n1, h1)" by (cases x)
    have n1: "0 \<le> n1" "state_ok c h1" using postD [OF pass Inr] by (simp_all add: x)
    show ?thesis
    proof (cases "n \<le> n1 \<or> simple")
      case True
      with Inr x n1 less.prems show ?thesis by (subst hybrid_loop.simps) auto
    next
      case False
      then have "nat n1 < nat n" using n1 by linarith
      from less.hyps [OF this n1] obtain m where "hybrid_loop c hashes max_hit simple n1 h1 = Some m" "post m (\<lambda>(n', h'). 0 \<le> n' \<and> n' \<le> n1)" by blast
      with False Inr x show ?thesis by (subst hybrid_loop.simps) (auto elim!: post_mono)
    qed
  qed
qed

lemma coord_lookup_returns:
  assumes ok: "lookup_ok c" and n: "0 \<le> max_length"
  shows "\<exists>m. coord_find_longest_cache_hit hashes max_length c = Some m \<and> post m (\<lambda>(C, n, u). 0 \<le> n \<and> n \<le> max_length)"
proof (cases "coord_class c")
  case NoPrefixCache
  with n show ?thesis by (simp add: coord_find_longest_cache_hit_def)
next
  case Unitary
  have "post (unitary_find_longest_cache_hit hashes max_length c) (\<lambda>(C, n, u). 0 \<le> n \<and> n \<le> max_length)"
    unfolding unitary_find_longest_cache_hit_def
  proof (rule post_any, rule post_any)
    fix m g assume "py_get (single_type_managers c) 0 = Inr m" "py_get (kv_cache_groups (coord_config c)) 0 = Inr g"
    then have "m \<in> set (single_type_managers c)" "g \<in> set (kv_cache_groups (coord_config c))" by (auto simp: py_get_def split: if_splits)
    with ok have mg: "0 < block_size m" "0 < spec_bs (kv_cache_spec g)" "\<And>chunk. kind m = ChunkedLocal chunk \<Longrightarrow> 0 < chunk"
      by (auto simp: lookup_ok_def list_all_iff lookup_spec_ok_def mgr_sized_def)
    show "post (bindE (find_longest_cache_hit (kind m) (RawHashes hashes) max_length [0] (block_pool c) (spec_bs (kv_cache_spec g))
        (0 \<in> set (eagle_group_ids c)) (block_size m) (dcp_world_size_for_kv_cache_spec (kv_cache_spec g) (coord_dcp_world_size c))
        (coord_pcp_world_size c)) (\<lambda>(hit_blocks, hit_length). Inr (hit_blocks, hit_length, 0))) (\<lambda>(C, n, u). 0 \<le> n \<and> n \<le> max_length)"
      by (rule post_bind, rule post_mono [OF lookup_bounds [OF mg(2,1) n dcp_pos mg(3)]]) (auto simp: hit_bounds_def)
  qed
  with Unitary show ?thesis by (simp add: coord_find_longest_cache_hit_def)
next
  case Hybrid
  define h where "h = \<lparr>hit_blocks_by_group = replicate (length (kv_cache_groups (coord_config c))) None,
    hit_length_by_group = replicate (length (kv_cache_groups (coord_config c))) 0, eagle_verified = [], longest_hit_length = 0\<rparr>"
  define simple where "simple = (length (attention_groups c) = 2 \<and> is_full_spec (sg_spec (hd (attention_groups c))))"
  have "state_ok c h" using ok by (simp add: state_ok_def lengths_ok_def h_def lookup_ok_def)
  from hybrid_loop_returns [OF ok n n this] obtain m where
    m: "hybrid_loop c hashes max_length simple max_length h = Some m" "post m (\<lambda>(n', h'). 0 \<le> n' \<and> n' \<le> max_length)" by blast
  have "hybrid_find_longest_cache_hit hashes max_length c = Some (bindE m (\<lambda>(n', h').
      Inr (map (\<lambda>b. case b of None \<Rightarrow> [] | Some bs \<Rightarrow> bs) (truncate_full c n' h'), n', longest_hit_length h' - n')))"
    using m(1) unfolding hybrid_find_longest_cache_hit_def Let_def h_def simple_def by (auto split: sum.split)
  moreover have "post (bindE m (\<lambda>(n', h'). Inr (map (\<lambda>b. case b of None \<Rightarrow> [] | Some bs \<Rightarrow> bs) (truncate_full c n' h'), n', longest_hit_length h' - n')))
      (\<lambda>(C, n, u). 0 \<le> n \<and> n \<le> max_length)"
    by (rule post_bind, rule post_mono [OF m(2)]) auto
  ultimately show ?thesis using Hybrid by (simp add: coord_find_longest_cache_hit_def)
qed

section \<open>After construction\<close>

lemma mgr_sized_simps [simp]:
  "mgr_sized (m\<lparr>use_eagle := e\<rparr>) = mgr_sized m" "mgr_sized (m\<lparr>cache_hit_alignment_tokens := a\<rparr>) = mgr_sized m"
  by (simp_all add: mgr_sized_def)

lemma add_to_spec_groups_ok:
  "list_all (spec_group_ok n) gs \<Longrightarrow> lookup_spec_ok s \<Longrightarrow> 0 \<le> i \<Longrightarrow> i < int n \<Longrightarrow> list_all (spec_group_ok n) (add_to_spec_groups s i e gs)"
  by (induction gs) (auto simp: spec_group_ok_def)

lemma split_groups_ok:
  assumes "list_all (\<lambda>g. lookup_spec_ok (kv_cache_spec g)) groups"
  shows "list_all (spec_group_ok (length groups)) (split_groups groups ids)"
proof -
  have step: "list_all (spec_group_ok n) (foldl (\<lambda>gs (i, g). if prefix_cacheable (kv_cache_spec g)
      then add_to_spec_groups (kv_cache_spec g) i (i \<in> set ids) gs else gs) gs l)"
    if "list_all (\<lambda>(i, g). lookup_spec_ok (kv_cache_spec g) \<and> 0 \<le> i \<and> i < int n) l" "list_all (spec_group_ok n) gs" for l gs n
    using that by (induction l arbitrary: gs) (auto simp: add_to_spec_groups_ok)
  have "list_all (\<lambda>(i, g). lookup_spec_ok (kv_cache_spec g) \<and> 0 \<le> i \<and> i < int (length groups)) (enum groups)"
    using assms by (auto simp: list_all_iff enum_def dest: set_zip_leftD set_zip_rightD)
  from step [OF this, of "[]"] show ?thesis by (simp add: split_groups_def)
qed

lemma base_init_sized:
  assumes "base_coord_init cls cfg ml fl eagle caching ev ui dcp pcp sbs hbs la = Inr c"
    and "list_all (\<lambda>g. lookup_spec_ok (kv_cache_spec g)) (kv_cache_groups cfg)"
  shows "list_all mgr_sized (single_type_managers c) \<and> coord_config c = cfg \<and> scheduler_block_size c = sbs \<and> attention_groups c = []
    \<and> length (single_type_managers c) = length (kv_cache_groups cfg)"
proof -
  have "mgr_sized (get_manager_for_kv_cache_spec sp fl ml caching i (dcp_world_size_for_kv_cache_spec sp dcp) sbs z)" if "lookup_spec_ok sp" for sp i z
    using that dcp_pos [of sp dcp]
    by (simp add: mgr_sized_def lookup_spec_ok_def get_manager_for_kv_cache_spec_def manager_init_def)
  with assms show ?thesis
    by (auto simp: base_coord_init_def bindE_eq_Inr Let_def list_all_iff dest!: enum_mem split: if_splits)
qed

lemma lookup_ok_init:
  assumes run: "get_kv_cache_coordinator cfg ml fl eagle caching ev ui dcp pcp sbs hbs la = Inr c"
    and sp: "list_all (\<lambda>g. lookup_spec_ok (kv_cache_spec g)) (kv_cache_groups cfg)" and sbs: "0 < sbs"
  shows "lookup_ok c"
proof -
  from run obtain cls c0 where c0: "base_coord_init cls cfg ml fl eagle caching ev ui dcp pcp sbs hbs la = Inr c0"
    and c: "c = c0 \<or> unitary_init hbs c0 = Inr c \<or> hybrid_init hbs c0 = Inr c"
    by (auto simp: get_kv_cache_coordinator_def bindE_eq_Inr split: if_splits)
  note b = base_init_sized [OF c0 sp]
  have "list_all mgr_sized (single_type_managers c) \<and> coord_config c = cfg \<and> scheduler_block_size c = sbs
    \<and> list_all (spec_group_ok (length (kv_cache_groups cfg))) (attention_groups c) \<and> length (single_type_managers c) = length (kv_cache_groups cfg)"
    using c
  proof (elim disjE)
    assume "unitary_init hbs c0 = Inr c"
    with b show ?thesis
      by (auto simp: unitary_init_def bindE_eq_Inr intro!: list_all_update dest!: py_get_mem) (auto simp: list_all_iff)
  next
    assume "hybrid_init hbs c0 = Inr c"
    with b split_groups_ok [OF sp] show ?thesis
      by (auto simp: hybrid_init_def verify_and_split_kv_cache_groups_def bindE_eq_Inr Let_def list_all_iff
          dest!: enum_mem split: if_splits)
  qed (use b in simp)
  with sp sbs show ?thesis by (simp add: lookup_ok_def)
qed

section \<open>The property\<close>

text \<open>
  C23. The prefix-cache lookup of a request always returns: with one group, with several groups (the
  fixed-point iteration of the hybrid coordinator over groups of full, sliding-window and
  chunked-local attention, with the EAGLE margin) and without a cache.  If it does not raise, the
  number of tokens found is not negative and leaves at least one token of the request to compute.
  The condition \<open>lookup_ok\<close> (positive block sizes and chunks, group ids in range) holds for every
  coordinator built from specs with positive sizes, see \<open>lookup_ok_init\<close>.
\<close>

theorem lookup_returns:
  assumes "lookup_ok (coordinator k)" "0 < num_tokens r"
  shows "\<exists>m. get_computed_blocks r k = Some m
    \<and> (\<forall>C n boundary k'. m = Inr ((C, n, boundary), k') \<longrightarrow> 0 \<le> n \<and> n < num_tokens r)"
proof (cases "prefix_cache_lookup_enabled k r")
  case True
  from assms obtain m where m: "coord_find_longest_cache_hit (block_hashes r) (num_tokens r - 1) (coordinator k) = Some m"
    "post m (\<lambda>(C, n, u). 0 \<le> n \<and> n \<le> num_tokens r - 1)"
    using coord_lookup_returns [of "coordinator k" "num_tokens r - 1" "block_hashes r"] by auto
  with True show ?thesis by (fastforce simp: get_computed_blocks_def bindE_eq_Inr dest: postD)
next
  case False
  with assms(2) show ?thesis by (simp add: get_computed_blocks_def)
qed

theorem lookup_returns_witness:
  "\<exists>k m. kv_cache_manager_init sample_config 100 2 2 None True False 0 False False False 1 1 0 [] = Inr k
     \<and> coord_class (coordinator k) = Hybrid
     \<and> get_computed_blocks (sample_request ''r'' [1, 2, 3] []\<lparr>block_hashes := [[7]]\<rparr>) k = Some m"
proof -
  let ?r = "sample_request ''r'' [1, 2, 3] []\<lparr>block_hashes := [[7]]\<rparr>"
  have "satisfies (\<lambda>k. lookup_ok (coordinator k) \<and> coord_class (coordinator k) = Hybrid)
      (kv_cache_manager_init sample_config 100 2 2 None True False 0 False False False 1 1 0 [])" by code_simp
  then obtain k where k: "kv_cache_manager_init sample_config 100 2 2 None True False 0 False False False 1 1 0 [] = Inr k"
    "lookup_ok (coordinator k)" "coord_class (coordinator k) = Hybrid" by (elim satisfiesE conjE)
  have "0 < num_tokens ?r" by code_simp
  from lookup_returns [OF k(2) this] k show ?thesis by blast
qed

end
