(* ===== verification/Encoder_Cache.thy ===== *)
theory Encoder_Cache
  imports Prelude
begin

text \<open>
  \<^verbatim>\<open>vllm/v1/core/encoder_cache_manager.py\<close>: the cache of encoder outputs for multi-modal inputs, and
  the function of the scheduler that admits encoder inputs (\<open>_try_schedule_encoder_inputs\<close> in
  \<^verbatim>\<open>vllm/v1/core/sched/scheduler.py\<close>) with the placeholder ranges it reads.  A Python \<open>OrderedDict\<close>
  is an association list in insertion order.  The order in which Python iterates over a set is
  not specified: it is the parameter \<open>order\<close> of the operation that does so.
\<close>

section \<open>Multi-modal features\<close>

text \<open>\<open>MultiModalFeatureSpec\<close> with its \<open>PlaceholderRange\<close>; \<open>is_embed\<close> is the boolean mask tensor.\<close>

record enc_feature =
  ef_identifier :: string
  ef_offset :: int
  ef_length :: int
  ef_is_embed :: "bool list option"

fun cumsum :: "int \<Rightarrow> bool list \<Rightarrow> int list" where
  "cumsum n [] = []"
| "cumsum n (b # bs) = (let m = n + of_bool b in m # cumsum m bs)"

definition embeds_cumsum :: "enc_feature \<Rightarrow> int list option" where
  "embeds_cumsum f = map_option (cumsum 0) (ef_is_embed f)"

definition get_num_embeds :: "enc_feature \<Rightarrow> int" where
  "get_num_embeds f =
     (case embeds_cumsum f of None \<Rightarrow> ef_length f | Some cs \<Rightarrow> if cs \<noteq> [] then last cs else 0)"

definition get_embeds_indices_in_range :: "enc_feature \<Rightarrow> int \<Rightarrow> int \<Rightarrow> (int \<times> int) res" where
  "get_embeds_indices_in_range f start_idx end_idx =
     (case embeds_cumsum f of
        None \<Rightarrow> Inr (start_idx, end_idx)
      | Some cs \<Rightarrow>
          bindE (if 0 < start_idx then py_get cs (start_idx - 1) else Inr 0) (\<lambda>a.
          bindE (if 0 < end_idx then py_get cs (end_idx - 1) else Inr 0) (\<lambda>b. Inr (a, b))))"

text \<open>The library's \<open>bisect.bisect_left(a, x, key=key)\<close>.\<close>

function bisect_left_loop :: "('a \<Rightarrow> int) \<Rightarrow> 'a list \<Rightarrow> int \<Rightarrow> nat \<Rightarrow> nat \<Rightarrow> nat" where
  "bisect_left_loop key xs x lo hi =
     (if lo < hi
      then let mid = (lo + hi) div 2
           in if key (xs ! mid) < x then bisect_left_loop key xs x (mid + 1) hi else bisect_left_loop key xs x lo mid
      else lo)"
  by pat_completeness auto
termination by (relation "measure (\<lambda>(key, xs, x, lo, hi). hi - lo)") auto

declare bisect_left_loop.simps [simp del]

definition bisect_left :: "('a \<Rightarrow> int) \<Rightarrow> 'a list \<Rightarrow> int \<Rightarrow> nat" where
  "bisect_left key xs x = bisect_left_loop key xs x 0 (length xs)"

definition get_mm_features_in_window :: "enc_feature list \<Rightarrow> int \<Rightarrow> int \<Rightarrow> int \<times> int" where
  "get_mm_features_in_window fs start_tok end_tok =
     (int (bisect_left (\<lambda>f. ef_offset f + ef_length f) fs (start_tok + 1)), int (bisect_left ef_offset fs end_tok))"

section \<open>\<^verbatim>\<open>EncoderCacheManager\<close>\<close>

text \<open>What the manager reads of a request.\<close>

record enc_request =
  er_id :: string
  er_features :: "enc_feature list"

definition get_num_encoder_embeds :: "enc_request \<Rightarrow> int \<Rightarrow> int res" where
  "get_num_encoder_embeds r i =
     bindE (py_assert (i < int (length (er_features r)))) (\<lambda>_.
     bindE (py_get (er_features r) i) (\<lambda>f. Inr (get_num_embeds f)))"

record enc_cache =
  cache_size :: int
  num_free_slots :: int
  num_freeable_slots :: int
  cached :: "string \<rightharpoonup> string set"
  request_cached_ids :: "string \<rightharpoonup> int set"
  freeable :: "(string \<times> int) list"
  freed :: "string list"

definition enc_init :: "int \<Rightarrow> enc_cache" where
  "enc_init n = \<lparr>cache_size = n, num_free_slots = n, num_freeable_slots = n, cached = Map.empty,
     request_cached_ids = Map.empty, freeable = [], freed = []\<rparr>"

definition enc_reset :: "enc_cache \<Rightarrow> enc_cache" where
  "enc_reset s = s\<lparr>cached := Map.empty, request_cached_ids := Map.empty, freeable := [], freed := [],
     num_free_slots := cache_size s, num_freeable_slots := cache_size s\<rparr>"

text \<open>\<open>OrderedDict.pop\<close> and item assignment.\<close>

definition od_pop :: "string \<Rightarrow> (string \<times> int) list \<Rightarrow> (int \<times> (string \<times> int) list) res" where
  "od_pop k xs = (case map_of xs k of None \<Rightarrow> Inl KeyError | Some n \<Rightarrow> Inr (n, filter (\<lambda>e. fst e \<noteq> k) xs))"

definition od_set :: "string \<Rightarrow> int \<Rightarrow> (string \<times> int) list \<Rightarrow> (string \<times> int) list" where
  "od_set k n xs = (if k \<in> fst ` set xs then map (\<lambda>e. if fst e = k then (k, n) else e) xs else xs @ [(k, n)])"

definition ids_of :: "string \<Rightarrow> enc_cache \<Rightarrow> int set" where
  "ids_of rid s = (case request_cached_ids s rid of None \<Rightarrow> {} | Some ids \<Rightarrow> ids)"

definition refs_of :: "string \<Rightarrow> enc_cache \<Rightarrow> string set" where
  "refs_of h s = (case cached s h of None \<Rightarrow> {} | Some rids \<Rightarrow> rids)"

text \<open>\<open>self.cached[mm_hash].add(\<dots>)\<close> and \<open>self.request_cached_ids.setdefault(\<dots>).add(\<dots>)\<close>.\<close>

definition add_reference :: "string \<Rightarrow> int \<Rightarrow> string \<Rightarrow> enc_cache \<Rightarrow> enc_cache" where
  "add_reference rid i h s =
     s\<lparr>cached := (cached s)(h \<mapsto> insert rid (refs_of h s)),
       request_cached_ids := (request_cached_ids s)(rid \<mapsto> insert i (ids_of rid s))\<rparr>"

definition check_and_update_cache :: "enc_request \<Rightarrow> int \<Rightarrow> enc_cache \<Rightarrow> (bool \<times> enc_cache) res" where
  "check_and_update_cache r i s =
     bindE (py_get (er_features r) i) (\<lambda>f. let h = ef_identifier f in
       case cached s h of
         None \<Rightarrow> Inr (False, s)
       | Some rids \<Rightarrow>
           bindE (if rids = {}
                  then bindE (od_pop h (freeable s)) (\<lambda>(n, fr).
                         Inr (s\<lparr>freeable := fr, num_freeable_slots := num_freeable_slots s - n\<rparr>))
                  else Inr s) (\<lambda>s1.
             Inr (True, add_reference (er_id r) i h s1)))"

text \<open>The eviction loop of \<open>can_allocate\<close>, over the entries of \<open>freeable\<close>; \<open>popitem\<close> raises \<open>KeyError\<close>
  on an empty dictionary.\<close>

fun evict_loop :: "int \<Rightarrow> (string \<times> int) list \<Rightarrow> enc_cache \<Rightarrow> enc_cache res" where
  "evict_loop need [] s = (if num_free_slots s < need then Inl KeyError else Inr (s\<lparr>freeable := []\<rparr>))"
| "evict_loop need ((h, n) # q) s =
     (if num_free_slots s < need
      then if cached s h = None then Inl KeyError
           else evict_loop need q (s\<lparr>cached := (cached s)(h := None), freed := freed s @ [h],
                  num_free_slots := num_free_slots s + n\<rparr>)
      else Inr (s\<lparr>freeable := (h, n) # q\<rparr>))"

definition can_allocate :: "enc_request \<Rightarrow> int \<Rightarrow> int \<Rightarrow> int \<Rightarrow> enc_cache \<Rightarrow> (bool \<times> enc_cache) res" where
  "can_allocate r i encoder_compute_budget num_embeds_to_schedule s =
     bindE (get_num_encoder_embeds r i) (\<lambda>n.
       if encoder_compute_budget < n then Inr (False, s)
       else let need = n + num_embeds_to_schedule in
         if need \<le> num_free_slots s then Inr (True, s)
         else if num_freeable_slots s < need then Inr (False, s)
         else bindE (evict_loop need (freeable s) s) (\<lambda>s1. Inr (True, s1)))"

definition enc_allocate :: "enc_request \<Rightarrow> int \<Rightarrow> enc_cache \<Rightarrow> enc_cache res" where
  "enc_allocate r i s =
     bindE (py_get (er_features r) i) (\<lambda>f.
     bindE (get_num_encoder_embeds r i) (\<lambda>n.
     bindE (py_assert (n \<le> num_free_slots s)) (\<lambda>_.
     bindE (py_assert (n \<le> num_freeable_slots s)) (\<lambda>_.
       let s1 = add_reference (er_id r) i (ef_identifier f) s
       in Inr (s1\<lparr>num_free_slots := num_free_slots s1 - n, num_freeable_slots := num_freeable_slots s1 - n\<rparr>)))))"

definition get_cached_input_ids :: "enc_request \<Rightarrow> enc_cache \<Rightarrow> int set" where
  "get_cached_input_ids r s = ids_of (er_id r) s"

definition discard_input :: "string \<Rightarrow> int \<Rightarrow> enc_cache \<Rightarrow> enc_cache" where
  "discard_input rid i s =
     (case request_cached_ids s rid of
        None \<Rightarrow> s
      | Some ids \<Rightarrow> let ids' = ids - {i}
          in s\<lparr>request_cached_ids := (request_cached_ids s)(rid := if ids' = {} then None else Some ids')\<rparr>)"

text \<open>An input that the request still holds and that is the item \<open>h\<close>.\<close>

definition holds_item :: "enc_request \<Rightarrow> int set \<Rightarrow> string \<Rightarrow> bool" where
  "holds_item r ids h \<longleftrightarrow> (\<exists>j \<in> ids. case py_get (er_features r) j of Inl _ \<Rightarrow> False | Inr g \<Rightarrow> ef_identifier g = h)"

definition free_encoder_input :: "enc_request \<Rightarrow> int \<Rightarrow> enc_cache \<Rightarrow> enc_cache res" where
  "free_encoder_input r i s =
     bindE (py_get (er_features r) i) (\<lambda>f.
       let h = ef_identifier f; s1 = discard_input (er_id r) i s in
       if refs_of h s1 = {} then Inr s1
       else if holds_item r (ids_of (er_id r) s1) h then Inr s1
       else let rids = refs_of h s1 - {er_id r}; s2 = s1\<lparr>cached := (cached s1)(h \<mapsto> rids)\<rparr>
            in if rids = {}
               then bindE (get_num_encoder_embeds r i) (\<lambda>n.
                      Inr (s2\<lparr>freeable := od_set h n (freeable s2), num_freeable_slots := num_freeable_slots s2 + n\<rparr>))
               else Inr s2)"

definition enc_free :: "(int set \<Rightarrow> int list) \<Rightarrow> enc_request \<Rightarrow> enc_cache \<Rightarrow> enc_cache res" where
  "enc_free order r s = foldE (free_encoder_input r) (order (get_cached_input_ids r s)) s"

definition get_freed_mm_hashes :: "enc_cache \<Rightarrow> string list \<times> enc_cache" where
  "get_freed_mm_hashes s = (filter (\<lambda>h. cached s h = None) (freed s), s\<lparr>freed := []\<rparr>)"

text \<open>\<open>max_toks\<close> are the values of \<open>mm_max_toks_per_item\<close>.\<close>

definition compute_mm_encoder_budget :: "bool \<Rightarrow> int \<Rightarrow> int \<Rightarrow> int \<Rightarrow> int list \<Rightarrow> (int \<times> int) res" where
  "compute_mm_encoder_budget disable_chunked_mm_input max_num_batched_tokens max_num_encoder_input_tokens encoder_cache_size max_toks =
     (if max_toks = [] then Inr (0, 0)
      else let m = Max (set max_toks) in
        if disable_chunked_mm_input \<and> max_num_batched_tokens < m then Inl ValueError
        else Inr (max max_num_encoder_input_tokens m, max encoder_cache_size m))"

section \<open>\<^verbatim>\<open>EncoderDecoderCacheManager\<close>\<close>

record encdec_cache =
  ed_cache_size :: int
  ed_num_free_slots :: int
  allocated :: "string list"
  to_free :: "string list"

definition ed_init :: "int \<Rightarrow> encdec_cache" where
  "ed_init n = \<lparr>ed_cache_size = n, ed_num_free_slots = n, allocated = [], to_free = []\<rparr>"

definition ed_reset :: "encdec_cache \<Rightarrow> encdec_cache" where
  "ed_reset s = s\<lparr>ed_num_free_slots := ed_cache_size s, allocated := [], to_free := []\<rparr>"

definition ed_check_and_update_cache :: "enc_request \<Rightarrow> int \<Rightarrow> encdec_cache \<Rightarrow> (bool \<times> encdec_cache) res" where
  "ed_check_and_update_cache r i s = Inr (False, s)"

definition ed_can_allocate :: "enc_request \<Rightarrow> int \<Rightarrow> int \<Rightarrow> int \<Rightarrow> encdec_cache \<Rightarrow> (bool \<times> encdec_cache) res" where
  "ed_can_allocate r i encoder_compute_budget num_embeds_to_schedule s =
     bindE (get_num_encoder_embeds r i) (\<lambda>n.
       if encoder_compute_budget < n then Inr (False, s)
       else Inr (n + num_embeds_to_schedule \<le> ed_num_free_slots s, s))"

definition ed_allocate :: "enc_request \<Rightarrow> int \<Rightarrow> encdec_cache \<Rightarrow> encdec_cache res" where
  "ed_allocate r i s =
     bindE (get_num_encoder_embeds r i) (\<lambda>n.
     bindE (py_get (er_features r) i) (\<lambda>f.
       Inr (s\<lparr>ed_num_free_slots := ed_num_free_slots s - n, allocated := allocated s @ [ef_identifier f]\<rparr>)))"

definition ed_free_encoder_input :: "enc_request \<Rightarrow> int \<Rightarrow> encdec_cache \<Rightarrow> encdec_cache res" where
  "ed_free_encoder_input r i s =
     bindE (get_num_encoder_embeds r i) (\<lambda>n. Inr (s\<lparr>ed_num_free_slots := ed_num_free_slots s + n\<rparr>))"

definition ed_free :: "enc_request \<Rightarrow> encdec_cache \<Rightarrow> encdec_cache res" where
  "ed_free r s = foldE (ed_free_encoder_input r) (py_range 0 (int (length (er_features r)))) s"

definition ed_get_cached_input_ids :: "enc_request \<Rightarrow> encdec_cache \<Rightarrow> int set" where
  "ed_get_cached_input_ids r s = set (py_range 0 (int (length (er_features r))))"

definition ed_get_freed_mm_hashes :: "encdec_cache \<Rightarrow> string list \<times> encdec_cache" where
  "ed_get_freed_mm_hashes s = (to_free s, s\<lparr>to_free := allocated s, allocated := []\<rparr>)"

section \<open>Admission of encoder inputs\<close>

text \<open>
  \<open>_try_schedule_encoder_inputs\<close>.  The class of the cache manager decides which \<open>check\<close> and \<open>can\<close>
  it calls, so both are arguments; \<open>has_item\<close> is the remote encoder cache (\<open>None\<close>: no connector).
  The loop's variables are a record.
\<close>

record enc_sched =
  es_inputs :: "int list"
  es_external :: "int list"
  es_num_new_tokens :: int
  es_budget :: int
  es_hashes :: "string set"
  es_num_embeds :: int

fun enc_sched_loop ::
    "(enc_request \<Rightarrow> int \<Rightarrow> 'm \<Rightarrow> (bool \<times> 'm) res) \<Rightarrow> (enc_request \<Rightarrow> int \<Rightarrow> int \<Rightarrow> int \<Rightarrow> 'm \<Rightarrow> (bool \<times> 'm) res)
      \<Rightarrow> (string \<Rightarrow> bool) option \<Rightarrow> bool \<Rightarrow> bool \<Rightarrow> enc_request \<Rightarrow> int \<Rightarrow> int \<Rightarrow> int \<Rightarrow> int list \<Rightarrow> enc_sched \<Rightarrow> 'm
      \<Rightarrow> (enc_sched \<times> 'm) res" where
  "enc_sched_loop check can has_item enc_dec no_chunk r num_computed shift window_end [] v m = Inr (v, m)"
| "enc_sched_loop check can has_item enc_dec no_chunk r num_computed shift window_end (i # is) v m =
     bindE (py_get (er_features r) i) (\<lambda>f.
     let loop = enc_sched_loop check can has_item enc_dec no_chunk r num_computed shift window_end is;
         start_pos = ef_offset f; h = ef_identifier f; n = get_num_embeds f
     in if enc_dec \<and> 0 < num_computed then bindE (py_assert (start_pos = 0)) (\<lambda>_. loop v m)
        else if \<not> enc_dec \<and> h \<in> es_hashes v then loop v m
        else bindE (if enc_dec then Inr (False, m) else check r i m) (\<lambda>(hit, m1).
          if hit then loop v m1
          else if no_chunk \<and> num_computed < start_pos \<and> num_computed + es_num_new_tokens v < start_pos + ef_length f
          then Inr (v\<lparr>es_num_new_tokens := max 0 (start_pos - (num_computed + shift))\<rparr>, m1)
          else bindE (can r i (es_budget v) (es_num_embeds v) m1) (\<lambda>(ok, m2).
            if \<not> ok
            then Inr (v\<lparr>es_num_new_tokens :=
                   (if num_computed + shift < start_pos then start_pos - (num_computed + shift) else 0)\<rparr>, m2)
            else bindE (get_embeds_indices_in_range f (max 0 (num_computed - start_pos))
                          (min (ef_length f) (window_end - start_pos))) (\<lambda>(a, b).
              if b - a = 0 then loop v m2
              else let v1 = v\<lparr>es_num_embeds := es_num_embeds v + n, es_hashes := insert h (es_hashes v)\<rparr>
                   in if (case has_item of None \<Rightarrow> False | Some p \<Rightarrow> p h)
                      then loop (v1\<lparr>es_external := es_external v1 @ [i]\<rparr>) m2
                      else loop (v1\<lparr>es_budget := es_budget v1 - n, es_inputs := es_inputs v1 @ [i]\<rparr>) m2))))"

definition try_schedule_encoder_inputs ::
    "(enc_request \<Rightarrow> int \<Rightarrow> 'm \<Rightarrow> (bool \<times> 'm) res) \<Rightarrow> (enc_request \<Rightarrow> int \<Rightarrow> int \<Rightarrow> int \<Rightarrow> 'm \<Rightarrow> (bool \<times> 'm) res)
      \<Rightarrow> (string \<Rightarrow> bool) option \<Rightarrow> bool \<Rightarrow> bool \<Rightarrow> enc_request \<Rightarrow> int \<Rightarrow> int \<Rightarrow> int \<Rightarrow> int \<Rightarrow> 'm
      \<Rightarrow> (enc_sched \<times> 'm) res" where
  "try_schedule_encoder_inputs check can has_item enc_dec no_chunk r num_computed num_new budget shift m =
     (let v = \<lparr>es_inputs = [], es_external = [], es_num_new_tokens = num_new, es_budget = budget, es_hashes = {}, es_num_embeds = 0\<rparr>
      in if num_new = 0 \<or> er_features r = [] then Inr (v, m)
         else let window_end = num_computed + num_new + shift;
                  (lo, hi) = get_mm_features_in_window (er_features r) num_computed window_end
              in enc_sched_loop check can has_item enc_dec no_chunk r num_computed shift window_end
                   (py_range (if enc_dec then 0 else lo) hi) v m)"

text \<open>The allocation of the admitted inputs in \<open>schedule\<close>: the computed ones, then the loaded ones.\<close>

definition allocate_scheduled :: "(enc_request \<Rightarrow> int \<Rightarrow> 'm \<Rightarrow> 'm res) \<Rightarrow> enc_request \<Rightarrow> enc_sched \<Rightarrow> 'm \<Rightarrow> 'm res" where
  "allocate_scheduled alloc r v m = bindE (foldE (alloc r) (es_inputs v) m) (foldE (alloc r) (es_external v))"

text \<open>
  \<open>_free_encoder_inputs\<close>, called for every request with encoder inputs after each step: an
  encoder-decoder model is done with its inputs as soon as a token is computed, otherwise an input
  is released when its placeholder lies before all tokens still to be read.
\<close>

definition free_encoder_inputs ::
    "(enc_request \<Rightarrow> 'm \<Rightarrow> int set) \<Rightarrow> (enc_request \<Rightarrow> int \<Rightarrow> 'm \<Rightarrow> 'm res) \<Rightarrow> (int set \<Rightarrow> int list)
     \<Rightarrow> bool \<Rightarrow> int \<Rightarrow> int \<Rightarrow> int \<Rightarrow> enc_request \<Rightarrow> 'm \<Rightarrow> 'm res" where
  "free_encoder_inputs cached_ids free_input order is_encoder_decoder spec_lookahead num_computed num_output_placeholders r s =
     (if cached_ids r s = {} then Inr s
      else foldE (\<lambda>i s. bindE (py_get (er_features r) i) (\<lambda>f.
             if is_encoder_decoder \<and> 0 < num_computed then free_input r i s
             else if ef_offset f + ef_length f + spec_lookahead \<le> num_computed - num_output_placeholders
             then free_input r i s else Inr s))
           (order (cached_ids r s)) s)"

end
