(* ===== verification/Encoder_Props.thy ===== *)
theory Encoder_Props
  imports Encoder_Cache
begin

text \<open>
  Properties of the encoder cache: the slot accounting and the reference sets stay exact under
  every operation, entries in use are never evicted, and every set of encoder inputs that the
  scheduler admits can be allocated.
\<close>

section \<open>Window search\<close>

definition key_sorted :: "('a \<Rightarrow> int) \<Rightarrow> 'a list \<Rightarrow> bool" where
  "key_sorted key xs \<longleftrightarrow> (\<forall>i j. i \<le> j \<longrightarrow> j < length xs \<longrightarrow> key (xs ! i) \<le> key (xs ! j))"

lemma bisect_left_loop_result:
  assumes sorted: "key_sorted key xs"
  shows "\<lbrakk>lo \<le> hi; hi \<le> length xs; \<forall>i < lo. key (xs ! i) < x; \<forall>i. hi \<le> i \<longrightarrow> i < length xs \<longrightarrow> x \<le> key (xs ! i)\<rbrakk> \<Longrightarrow>
    bisect_left_loop key xs x lo hi \<le> length xs
    \<and> (\<forall>i < length xs. i < bisect_left_loop key xs x lo hi \<longleftrightarrow> key (xs ! i) < x)"
proof (induction "hi - lo" arbitrary: lo hi rule: less_induct)
  case less
  show ?case
  proof (cases "lo < hi")
    case False
    then have "bisect_left_loop key xs x lo hi = lo" by (simp add: bisect_left_loop.simps)
    moreover have "i < lo \<longleftrightarrow> key (xs ! i) < x" if "i < length xs" for i
      using less.prems(1,3) less.prems(4) [rule_format, of i] False that by (cases "i < lo") auto
    ultimately show ?thesis using less.prems(1,2) by simp
  next
    case True
    define mid where "mid = (lo + hi) div 2"
    have mid: "lo \<le> mid" "mid < hi" using True by (auto simp: mid_def)
    show ?thesis
    proof (cases "key (xs ! mid) < x")
      case low: True
      have "key (xs ! i) < x" if "i < mid + 1" for i
        using sorted [unfolded key_sorted_def, rule_format, of i mid] that low mid less.prems(2) by simp
      then have "bisect_left_loop key xs x (mid + 1) hi \<le> length xs
          \<and> (\<forall>i < length xs. i < bisect_left_loop key xs x (mid + 1) hi \<longleftrightarrow> key (xs ! i) < x)"
        using less.hyps [of hi "mid + 1"] less.prems mid by auto
      moreover have "bisect_left_loop key xs x lo hi = bisect_left_loop key xs x (mid + 1) hi"
        using True low by (subst bisect_left_loop.simps) (simp add: Let_def mid_def)
      ultimately show ?thesis by simp
    next
      case high: False
      have "x \<le> key (xs ! i)" if "mid \<le> i" "i < length xs" for i
        using sorted [unfolded key_sorted_def, rule_format, of mid i] that high by simp
      then have "bisect_left_loop key xs x lo mid \<le> length xs
          \<and> (\<forall>i < length xs. i < bisect_left_loop key xs x lo mid \<longleftrightarrow> key (xs ! i) < x)"
        using less.hyps [of mid lo] less.prems mid by auto
      moreover have "bisect_left_loop key xs x lo hi = bisect_left_loop key xs x lo mid"
        using True high by (subst bisect_left_loop.simps) (simp add: Let_def mid_def)
      ultimately show ?thesis by simp
    qed
  qed
qed

lemma bisect_left_result:
  assumes "key_sorted key xs"
  shows "bisect_left key xs x \<le> length xs" "i < length xs \<Longrightarrow> i < bisect_left key xs x \<longleftrightarrow> key (xs ! i) < x"
  using bisect_left_loop_result [OF assms, of 0 "length xs" x] by (auto simp: bisect_left_def)

text \<open>
  The window search is exact: for features sorted by start and by end, the indices from \<open>lo\<close> to
  \<open>hi\<close> are those of the features that overlap the window of tokens.
\<close>

theorem window_exact:
  assumes "key_sorted ef_offset fs" "key_sorted (\<lambda>f. ef_offset f + ef_length f) fs"
    and "get_mm_features_in_window fs start_tok end_tok = (lo, hi)" "i < length fs"
  shows "(lo \<le> int i \<and> int i < hi) = (start_tok < ef_offset (fs ! i) + ef_length (fs ! i) \<and> ef_offset (fs ! i) < end_tok)"
  using bisect_left_result(2) [OF assms(1,4), of end_tok] bisect_left_result(2) [OF assms(2,4), of "start_tok + 1"] assms(3)
  by (auto simp: get_mm_features_in_window_def)

definition sample_feature :: "string \<Rightarrow> int \<Rightarrow> int \<Rightarrow> enc_feature" where
  "sample_feature h off len = \<lparr>ef_identifier = h, ef_offset = off, ef_length = len, ef_is_embed = None\<rparr>"

lemma key_sorted_pair: "key_sorted key [x, y] \<longleftrightarrow> key x \<le> key y"
  unfolding key_sorted_def by (auto simp: less_Suc_eq nth_Cons split: nat.splits)

section \<open>Embeddings in a range\<close>

lemma cumsum_nth: "i < length bs \<Longrightarrow> cumsum n bs ! i = n + int (count_list (take (Suc i) bs) True)"
  by (induction bs arbitrary: n i) (auto simp: Let_def nth_Cons split: nat.splits)

lemma length_cumsum [simp]: "length (cumsum n bs) = length bs"
  by (induction bs arbitrary: n) (simp_all add: Let_def)

lemma get_num_embeds_count:
  "get_num_embeds f = (case ef_is_embed f of None \<Rightarrow> ef_length f | Some msk \<Rightarrow> int (count_list msk True))"
proof (cases "ef_is_embed f")
  case (Some msk)
  have "msk \<noteq> [] \<Longrightarrow> last (cumsum 0 msk) = int (count_list msk True)"
    using cumsum_nth [of "length msk - 1" msk 0] by (simp add: last_conv_nth flip: length_greater_0_conv)
  moreover have "cumsum 0 msk = [] \<longleftrightarrow> msk = []" using length_cumsum [of 0 msk] by (metis length_0_conv)
  ultimately show ?thesis using Some by (auto simp: get_num_embeds_def embeds_cumsum_def)
qed (simp add: get_num_embeds_def embeds_cumsum_def)

section \<open>The invariant\<close>

text \<open>
  \<open>feat\<close> gives the features of every request and \<open>sz\<close> the number of embeddings of an item; equal
  identifiers name equal items.
\<close>

definition items_ok :: "(string \<Rightarrow> int) \<Rightarrow> (string \<Rightarrow> enc_feature list) \<Rightarrow> bool" where
  "items_ok sz feat \<longleftrightarrow> (\<forall>h. 0 \<le> sz h) \<and> (\<forall>rid. \<forall>f \<in> set (feat rid). get_num_embeds f = sz (ef_identifier f))"

definition input_ok :: "(string \<Rightarrow> enc_feature list) \<Rightarrow> enc_request \<Rightarrow> int \<Rightarrow> bool" where
  "input_ok feat r i \<longleftrightarrow> er_features r = feat (er_id r) \<and> 0 \<le> i \<and> i < int (length (er_features r))"

definition item :: "(string \<Rightarrow> enc_feature list) \<Rightarrow> string \<Rightarrow> int \<Rightarrow> string" where
  "item feat rid i = ef_identifier (feat rid ! nat i)"

definition enc_inv :: "(string \<Rightarrow> int) \<Rightarrow> (string \<Rightarrow> enc_feature list) \<Rightarrow> enc_cache \<Rightarrow> bool" where
  "enc_inv sz feat s \<longleftrightarrow> finite (dom (cached s))
     \<and> distinct (map fst (freeable s)) \<and> (\<forall>h n. (h, n) \<in> set (freeable s) \<longleftrightarrow> n = sz h \<and> cached s h = Some {})
     \<and> num_free_slots s = cache_size s - (\<Sum>h \<in> dom (cached s). sz h)
     \<and> num_freeable_slots s = num_free_slots s + sum_list (map snd (freeable s))
     \<and> 0 \<le> num_free_slots s
     \<and> (\<forall>h rid. rid \<in> refs_of h s \<longleftrightarrow> (\<exists>i \<in> ids_of rid s. item feat rid i = h))
     \<and> (\<forall>rid. finite (ids_of rid s) \<and> ids_of rid s \<subseteq> {0..<int (length (feat rid))})"

lemma enc_invD:
  assumes "enc_inv sz feat s"
  shows "finite (dom (cached s))" "distinct (map fst (freeable s))" "\<And>h n. (h, n) \<in> set (freeable s) \<longleftrightarrow> n = sz h \<and> cached s h = Some {}"
    "num_free_slots s = cache_size s - (\<Sum>h \<in> dom (cached s). sz h)"
    "num_freeable_slots s = num_free_slots s + sum_list (map snd (freeable s))" "0 \<le> num_free_slots s"
    "\<And>h rid. rid \<in> refs_of h s \<longleftrightarrow> (\<exists>i \<in> ids_of rid s. item feat rid i = h)"
    "\<And>rid. finite (ids_of rid s)" "\<And>rid. ids_of rid s \<subseteq> {0..<int (length (feat rid))}"
  using assms by (auto simp: enc_inv_def)

lemma input_simps:
  assumes "items_ok sz feat" "input_ok feat r i"
  shows "py_get (er_features r) i = Inr (feat (er_id r) ! nat i)" "get_num_encoder_embeds r i = Inr (sz (item feat (er_id r) i))"
    "ef_identifier (feat (er_id r) ! nat i) = item feat (er_id r) i" "get_num_embeds (feat (er_id r) ! nat i) = sz (item feat (er_id r) i)"
    "0 \<le> sz h"
proof -
  have i: "0 \<le> i" "i < int (length (feat (er_id r)))" "er_features r = feat (er_id r)" using assms(2) by (auto simp: input_ok_def)
  show "py_get (er_features r) i = Inr (feat (er_id r) ! nat i)" using i by (simp add: py_get_nonneg)
  show "ef_identifier (feat (er_id r) ! nat i) = item feat (er_id r) i" by (simp add: item_def)
  have "feat (er_id r) ! nat i \<in> set (feat (er_id r))" using i by (simp add: nat_less_iff)
  then show n: "get_num_embeds (feat (er_id r) ! nat i) = sz (item feat (er_id r) i)"
    using assms(1) unfolding items_ok_def item_def by blast
  show "get_num_encoder_embeds r i = Inr (sz (item feat (er_id r) i))" using i n by (simp add: get_num_encoder_embeds_def py_get_nonneg)
  show "0 \<le> sz h" using assms(1) by (simp add: items_ok_def)
qed

lemma freeable_nonneg: "items_ok sz feat \<Longrightarrow> enc_inv sz feat s \<Longrightarrow> 0 \<le> sum_list (map snd (freeable s))"
  by (rule sum_list_nonneg) (auto simp: enc_inv_def items_ok_def)

lemma enc_init_inv: "0 \<le> n \<Longrightarrow> enc_inv sz feat (enc_init n)"
  by (simp add: enc_inv_def enc_init_def refs_of_def ids_of_def)

lemma enc_reset_inv: "0 \<le> cache_size s \<Longrightarrow> enc_inv sz feat (enc_reset s)"
  by (simp add: enc_inv_def enc_reset_def refs_of_def ids_of_def)

lemma get_freed_inv: "enc_inv sz feat s \<Longrightarrow> enc_inv sz feat (snd (get_freed_mm_hashes s))"
  by (simp add: enc_inv_def get_freed_mm_hashes_def refs_of_def ids_of_def)

text \<open>References after adding one.\<close>

lemma add_reference_simps [simp]:
  "refs_of h' (add_reference rid i h s) = (if h' = h then insert rid (refs_of h s) else refs_of h' s)"
  "ids_of q (add_reference rid i h s) = (if q = rid then insert i (ids_of rid s) else ids_of q s)"
  "num_free_slots (add_reference rid i h s) = num_free_slots s"
  "num_freeable_slots (add_reference rid i h s) = num_freeable_slots s"
  "freeable (add_reference rid i h s) = freeable s" "cache_size (add_reference rid i h s) = cache_size s"
  "cached (add_reference rid i h s) = (cached s)(h \<mapsto> insert rid (refs_of h s))"
  "freed (add_reference rid i h s) = freed s"
  by (simp_all add: add_reference_def refs_of_def ids_of_def)

lemma add_reference_refs:
  assumes "\<And>h rid. rid \<in> refs_of h s \<longleftrightarrow> (\<exists>i \<in> ids_of rid s. item feat rid i = h)" "item feat rid i = h"
  shows "q \<in> refs_of h' (add_reference rid i h s) \<longleftrightarrow> (\<exists>j \<in> ids_of q (add_reference rid i h s). item feat q j = h')"
  using assms by auto

section \<open>Operations\<close>

text \<open>A lookup: a hit adds a reference, and takes the entry off the list of evictable ones.\<close>

lemma od_pop_result:
  assumes "distinct (map fst xs)" "(h, n) \<in> set xs"
  shows "od_pop h xs = Inr (n, filter (\<lambda>e. fst e \<noteq> h) xs)"
    and "sum_list (map snd xs) = n + sum_list (map snd (filter (\<lambda>e. fst e \<noteq> h) xs))"
proof -
  show "od_pop h xs = Inr (n, filter (\<lambda>e. fst e \<noteq> h) xs)" using assms by (simp add: od_pop_def)
  show "sum_list (map snd xs) = n + sum_list (map snd (filter (\<lambda>e. fst e \<noteq> h) xs))"
    using assms
  proof (induction xs)
    case (Cons e xs)
    show ?case
    proof (cases "fst e = h")
      case True
      then have "h \<notin> fst ` set xs" using Cons.prems(1) by auto
      then have "e = (h, n)" "filter (\<lambda>e. fst e \<noteq> h) xs = xs" using Cons.prems True by (auto simp: filter_id_conv image_iff)
      then show ?thesis by simp
    qed (use Cons in auto)
  qed simp
qed

lemma check_result:
  assumes inv: "enc_inv sz feat s" and it: "items_ok sz feat" and ok: "input_ok feat r i" and h: "h = item feat (er_id r) i"
  shows "\<exists>s'. check_and_update_cache r i s = Inr (cached s h \<noteq> None, s') \<and> enc_inv sz feat s' \<and> num_free_slots s' = num_free_slots s
    \<and> dom (cached s') = dom (cached s) \<and> (cached s h \<noteq> None \<longrightarrow> er_id r \<in> refs_of h s') \<and> (cached s h = None \<longrightarrow> s' = s)
    \<and> (\<forall>g. refs_of g s \<subseteq> refs_of g s')"
proof (cases "cached s h")
  case None
  then show ?thesis using inv by (simp add: check_and_update_cache_def input_simps [OF it ok] h)
next
  case (Some rids)
  note D = enc_invD [OF inv]
  have refs: "refs_of h s = rids" using Some by (simp add: refs_of_def)
  have hd: "h \<in> dom (cached s)" using Some by auto
  have ids: "insert i (ids_of (er_id r) s) \<subseteq> {0..<int (length (feat (er_id r)))}"
    using D(9) [of "er_id r"] ok by (auto simp: input_ok_def)
  have run: "check_and_update_cache r i s = bindE (if rids = {}
        then bindE (od_pop h (freeable s)) (\<lambda>(n, fr). Inr (s\<lparr>freeable := fr, num_freeable_slots := num_freeable_slots s - n\<rparr>))
        else Inr s) (\<lambda>s1. Inr (True, add_reference (er_id r) i h s1))"
    by (simp add: check_and_update_cache_def input_simps [OF it ok] h [symmetric] Some)
  show ?thesis
  proof (cases "rids = {}")
    case True
    let ?fr = "filter (\<lambda>e. fst e \<noteq> h) (freeable s)"
    let ?s = "s\<lparr>freeable := ?fr, num_freeable_slots := num_freeable_slots s - sz h\<rparr>"
    let ?s' = "add_reference (er_id r) i h ?s"
    have mem: "(h, sz h) \<in> set (freeable s)" using D(3) Some True by auto
    note p = od_pop_result [OF D(2) mem]
    have same: "refs_of h' ?s = refs_of h' s" "ids_of q ?s = ids_of q s" for h' q by (simp_all add: refs_of_def ids_of_def)
    have "enc_inv sz feat ?s'"
      unfolding enc_inv_def
    proof (intro conjI)
      show "\<forall>h n. (h, n) \<in> set (freeable ?s') \<longleftrightarrow> n = sz h \<and> cached ?s' h = Some {}" using D(3) by auto
      show "\<forall>h' rid. rid \<in> refs_of h' ?s' \<longleftrightarrow> (\<exists>j \<in> ids_of rid ?s'. item feat rid j = h')"
        using add_reference_refs [of ?s feat "er_id r" i h, unfolded same, OF D(7) h [symmetric]] by blast
      show "distinct (map fst (freeable ?s'))" using D(2) by (simp add: distinct_map_filter)
      show "num_free_slots ?s' = cache_size ?s' - (\<Sum>h \<in> dom (cached ?s'). sz h)" using D(4) hd by (simp add: insert_absorb)
      show "\<forall>rid. finite (ids_of rid ?s') \<and> ids_of rid ?s' \<subseteq> {0..<int (length (feat rid))}" using D(8,9) ids by (simp add: same)
    qed (use D(1,5,6) p in simp_all)
    moreover have "\<forall>g. refs_of g s \<subseteq> refs_of g ?s'" by (auto simp: same)
    ultimately show ?thesis using run p(1) True Some hd by (auto simp: insert_absorb)
  next
    case False
    let ?s' = "add_reference (er_id r) i h s"
    have "enc_inv sz feat ?s'"
      unfolding enc_inv_def
    proof (intro conjI)
      show "\<forall>h n. (h, n) \<in> set (freeable ?s') \<longleftrightarrow> n = sz h \<and> cached ?s' h = Some {}" using D(3) Some False by auto
      show "\<forall>h' rid. rid \<in> refs_of h' ?s' \<longleftrightarrow> (\<exists>j \<in> ids_of rid ?s'. item feat rid j = h')"
        using add_reference_refs [OF D(7) h [symmetric]] by blast
      show "num_free_slots ?s' = cache_size ?s' - (\<Sum>h \<in> dom (cached ?s'). sz h)" using D(4) hd by (simp add: insert_absorb)
      show "\<forall>rid. finite (ids_of rid ?s') \<and> ids_of rid ?s' \<subseteq> {0..<int (length (feat rid))}" using D(8,9) ids by simp
    qed (use D(1,2,5,6) in simp_all)
    moreover have "\<forall>g. refs_of g s \<subseteq> refs_of g ?s'" by auto
    ultimately show ?thesis using run False Some hd by (auto simp: insert_absorb)
  qed
qed

text \<open>Eviction takes entries from the front of \<open>freeable\<close>, and no more than needed.\<close>

definition evicted :: "nat \<Rightarrow> enc_cache \<Rightarrow> enc_cache" where
  "evicted k s = s\<lparr>cached := (\<lambda>h. if h \<in> fst ` set (take k (freeable s)) then None else cached s h), freeable := drop k (freeable s),
     freed := freed s @ map fst (take k (freeable s)), num_free_slots := num_free_slots s + sum_list (map snd (take k (freeable s)))\<rparr>"

lemma evict_one_inv:
  assumes inv: "enc_inv sz feat s" and it: "items_ok sz feat" and fr: "freeable s = (h, n) # q"
  shows "enc_inv sz feat (s\<lparr>cached := (cached s)(h := None), freed := fd, num_free_slots := num_free_slots s + n, freeable := q\<rparr>)"
    (is "enc_inv sz feat ?s")
proof -
  note D = enc_invD [OF inv]
  have h: "n = sz h" "cached s h = Some {}" using D(3) [of h n] fr by auto
  have notin: "h \<notin> fst ` set q" using D(2) fr by simp
  have refs: "refs_of g ?s = refs_of g s" "ids_of rid ?s = ids_of rid s" for g rid using h by (auto simp: refs_of_def ids_of_def)
  show ?thesis
    unfolding enc_inv_def
  proof (intro conjI)
    show "\<forall>g m. (g, m) \<in> set (freeable ?s) \<longleftrightarrow> m = sz g \<and> cached ?s g = Some {}"
    proof (intro allI)
      fix g m
      show "(g, m) \<in> set (freeable ?s) \<longleftrightarrow> m = sz g \<and> cached ?s g = Some {}"
        using D(3) [of g m] fr notin by (cases "g = h") (auto simp: image_iff)
    qed
    show "num_free_slots ?s = cache_size ?s - (\<Sum>g \<in> dom (cached ?s). sz g)"
      using D(1,4) h by (simp add: sum.remove [of "dom (cached s)" h] dom_def [symmetric] domI)
    show "\<forall>g rid. rid \<in> refs_of g ?s \<longleftrightarrow> (\<exists>i \<in> ids_of rid ?s. item feat rid i = g)" unfolding refs using D(7) by blast
    show "\<forall>rid. finite (ids_of rid ?s) \<and> ids_of rid ?s \<subseteq> {0..<int (length (feat rid))}" unfolding refs using D(8,9) by blast
    show "distinct (map fst (freeable ?s))" using D(2) fr by simp
    show "num_freeable_slots ?s = num_free_slots ?s + sum_list (map snd (freeable ?s))" using D(5) fr by simp
    show "finite (dom (cached ?s))" using D(1) by simp
    show "0 \<le> num_free_slots ?s" using D(6) it h(1) by (simp add: items_ok_def)
  qed
qed

lemma evict_loop_freeable: "evict_loop need q (s\<lparr>freeable := x\<rparr>) = evict_loop need q s"
proof (induction q arbitrary: s)
  case (Cons e q)
  obtain h n where e: "e = (h, n)" by (cases e)
  have eq: "s\<lparr>freeable := x, cached := c, freed := d, num_free_slots := m\<rparr> = s\<lparr>cached := c, freed := d, num_free_slots := m, freeable := x\<rparr>"
    for c d m by simp
  show ?case using Cons [of "s\<lparr>cached := (cached s)(h := None), freed := freed s @ [h], num_free_slots := num_free_slots s + n\<rparr>"]
    by (simp add: e eq)
qed simp

lemma evict_loop_result:
  "\<lbrakk>enc_inv sz feat s; items_ok sz feat; freeable s = q; need \<le> num_freeable_slots s\<rbrakk> \<Longrightarrow>
   \<exists>k. evict_loop need q s = Inr (evicted k s) \<and> enc_inv sz feat (evicted k s) \<and> need \<le> num_free_slots (evicted k s)
     \<and> (\<forall>j < k. num_free_slots (evicted j s) < need)"
proof (induction q arbitrary: s)
  case Nil
  then have "need \<le> num_free_slots s" using enc_invD(5) [OF Nil(1)] by simp
  moreover have "evicted 0 s = s" by (simp add: evicted_def)
  ultimately show ?case using Nil by (intro exI [of _ 0]) simp
next
  case (Cons e q)
  obtain h n where e: "e = (h, n)" by (cases e)
  have e0: "evicted 0 s = s" by (simp add: evicted_def)
  show ?case
  proof (cases "num_free_slots s < need")
    case False
    have "s\<lparr>freeable := e # q\<rparr> = s" using Cons.prems(3) by simp
    with False Cons.prems e0 show ?thesis by (intro exI [of _ 0]) (simp add: e)
  next
    case True
    let ?s0 = "s\<lparr>cached := (cached s)(h := None), freed := freed s @ [h], num_free_slots := num_free_slots s + n\<rparr>"
    let ?s1 = "s\<lparr>cached := (cached s)(h := None), freed := freed s @ [h], num_free_slots := num_free_slots s + n, freeable := q\<rparr>"
    have "cached s h \<noteq> None" using enc_invD(3) [OF Cons.prems(1), of h n] Cons.prems(3) e by simp
    then have run: "evict_loop need (e # q) s = evict_loop need q ?s1"
      using True evict_loop_freeable [of need q q ?s0] by (auto simp: e)
    have ev: "evicted (Suc k) s = evicted k ?s1" for k using Cons.prems(3) by (auto simp: evicted_def e fun_eq_iff)
    obtain k where k: "evict_loop need q ?s1 = Inr (evicted k ?s1)" "enc_inv sz feat (evicted k ?s1)"
      "need \<le> num_free_slots (evicted k ?s1)" "\<forall>j < k. num_free_slots (evicted j ?s1) < need"
      using Cons.IH [OF evict_one_inv [OF Cons.prems(1,2), of h n q]] Cons.prems by (auto simp: e)
    have "\<forall>j < Suc k. num_free_slots (evicted j s) < need"
      using k(4) True e0 by (auto simp: ev less_Suc_eq_0_disj)
    with run k(1-3) show ?thesis by (intro exI [of _ "Suc k"]) (simp add: ev)
  qed
qed

text \<open>\<open>can_allocate\<close> says no exactly when the budget or the reclaimable space is too small.\<close>

lemma can_allocate_result:
  assumes inv: "enc_inv sz feat s" and it: "items_ok sz feat" and ok: "input_ok feat r i" and n: "n = sz (item feat (er_id r) i)"
  shows "\<exists>k. can_allocate r i budget extra s = Inr (n \<le> budget \<and> n + extra \<le> num_freeable_slots s, evicted k s)
    \<and> enc_inv sz feat (evicted k s)
    \<and> (n \<le> budget \<and> n + extra \<le> num_freeable_slots s \<longrightarrow> n + extra \<le> num_free_slots (evicted k s))
    \<and> (0 < k \<longrightarrow> n \<le> budget \<and> n + extra \<le> num_freeable_slots s) \<and> (\<forall>j < k. num_free_slots (evicted j s) < n + extra)"
proof -
  have e0: "evicted 0 s = s" by (simp add: evicted_def)
  have run: "can_allocate r i budget extra s =
      (if budget < n then Inr (False, s) else if n + extra \<le> num_free_slots s then Inr (True, s)
       else if num_freeable_slots s < n + extra then Inr (False, s)
       else bindE (evict_loop (n + extra) (freeable s) s) (\<lambda>s1. Inr (True, s1)))"
    by (simp add: can_allocate_def input_simps [OF it ok] n Let_def)
  have le: "num_free_slots s \<le> num_freeable_slots s" using freeable_nonneg [OF it inv] enc_invD(5) [OF inv] by simp
  show ?thesis
  proof (cases "n \<le> budget \<and> \<not> n + extra \<le> num_free_slots s \<and> n + extra \<le> num_freeable_slots s")
    case True
    then obtain k where "evict_loop (n + extra) (freeable s) s = Inr (evicted k s)" "enc_inv sz feat (evicted k s)"
      "n + extra \<le> num_free_slots (evicted k s)" "\<forall>j < k. num_free_slots (evicted j s) < n + extra"
      using evict_loop_result [OF inv it refl, of "n + extra"] by blast
    with True show ?thesis unfolding run by (intro exI [of _ k]) simp
  next
    case False
    then show ?thesis unfolding run using e0 inv le by (intro exI [of _ 0]) auto
  qed
qed

lemma allocate_result:
  assumes inv: "enc_inv sz feat s" and it: "items_ok sz feat" and ok: "input_ok feat r i" and h: "h = item feat (er_id r) i"
    and new: "cached s h = None" and room: "sz h \<le> num_free_slots s"
  shows "\<exists>s'. enc_allocate r i s = Inr s' \<and> enc_inv sz feat s' \<and> num_free_slots s' = num_free_slots s - sz h
    \<and> cached s' = (cached s)(h \<mapsto> {er_id r})"
proof -
  note D = enc_invD [OF inv]
  let ?s1 = "add_reference (er_id r) i h s"
  let ?s' = "?s1\<lparr>num_free_slots := num_free_slots s - sz h, num_freeable_slots := num_freeable_slots s - sz h\<rparr>"
  have refs0: "refs_of h s = {}" using new by (simp add: refs_of_def)
  have hd: "h \<notin> dom (cached s)" using new by auto
  have le: "num_free_slots s \<le> num_freeable_slots s" using freeable_nonneg [OF it inv] D(5) by simp
  have run: "enc_allocate r i s = Inr ?s'"
    using room le by (simp add: enc_allocate_def input_simps [OF it ok] h [symmetric] Let_def)
  have same: "refs_of g ?s' = refs_of g ?s1" "ids_of q ?s' = ids_of q ?s1" for g q by (simp_all add: refs_of_def ids_of_def)
  have "enc_inv sz feat ?s'"
    unfolding enc_inv_def
  proof (intro conjI)
    show "\<forall>g m. (g, m) \<in> set (freeable ?s') \<longleftrightarrow> m = sz g \<and> cached ?s' g = Some {}" using D(3) new by auto
    show "num_free_slots ?s' = cache_size ?s' - (\<Sum>g \<in> dom (cached ?s'). sz g)" using D(1,4) hd by simp
    show "\<forall>g rid. rid \<in> refs_of g ?s' \<longleftrightarrow> (\<exists>j \<in> ids_of rid ?s'. item feat rid j = g)"
      unfolding same using add_reference_refs [OF D(7) h [symmetric]] by blast
    have "insert i (ids_of (er_id r) s) \<subseteq> {0..<int (length (feat (er_id r)))}"
      using D(9) [of "er_id r"] ok by (auto simp: input_ok_def)
    then show "\<forall>rid. finite (ids_of rid ?s') \<and> ids_of rid ?s' \<subseteq> {0..<int (length (feat rid))}" unfolding same using D(8,9) by simp
  qed (use D(1,2,5) room in simp_all)
  with run refs0 show ?thesis by simp
qed

text \<open>Giving back one input.\<close>

lemma discard_input_simps [simp]:
  "ids_of q (discard_input rid i s) = (if q = rid then ids_of rid s - {i} else ids_of q s)"
  "cached (discard_input rid i s) = cached s" "refs_of h (discard_input rid i s) = refs_of h s"
  "freeable (discard_input rid i s) = freeable s" "num_free_slots (discard_input rid i s) = num_free_slots s"
  "num_freeable_slots (discard_input rid i s) = num_freeable_slots s" "cache_size (discard_input rid i s) = cache_size s"
  by (auto simp: discard_input_def ids_of_def refs_of_def Let_def split: option.splits)

lemma holds_item_iff:
  assumes "input_ok feat r i" "ids \<subseteq> {0..<int (length (feat (er_id r)))}"
  shows "holds_item r ids h \<longleftrightarrow> (\<exists>j \<in> ids. item feat (er_id r) j = h)"
  using assms by (force simp: holds_item_def input_ok_def item_def py_get_nonneg subset_iff)

text \<open>What of the invariant does not depend on the references.\<close>

definition slots_inv :: "(string \<Rightarrow> int) \<Rightarrow> enc_cache \<Rightarrow> bool" where
  "slots_inv sz s \<longleftrightarrow> finite (dom (cached s)) \<and> distinct (map fst (freeable s))
     \<and> (\<forall>h n. (h, n) \<in> set (freeable s) \<longleftrightarrow> n = sz h \<and> cached s h = Some {})
     \<and> num_free_slots s = cache_size s - (\<Sum>h \<in> dom (cached s). sz h)
     \<and> num_freeable_slots s = num_free_slots s + sum_list (map snd (freeable s)) \<and> 0 \<le> num_free_slots s"

lemma enc_inv_split:
  "enc_inv sz feat s \<longleftrightarrow> slots_inv sz s \<and> (\<forall>h rid. rid \<in> refs_of h s \<longleftrightarrow> (\<exists>i \<in> ids_of rid s. item feat rid i = h))
     \<and> (\<forall>rid. finite (ids_of rid s) \<and> ids_of rid s \<subseteq> {0..<int (length (feat rid))})"
  by (simp add: enc_inv_def slots_inv_def)

lemma slots_inv_discard [simp]: "slots_inv sz (discard_input rid i s) = slots_inv sz s"
  by (simp add: slots_inv_def)

lemma release_ref:
  assumes sl: "slots_inv sz s" and refs: "cached s h = Some rids" "rids \<noteq> {}" and rids': "rids' \<subseteq> rids"
    and s': "s' = (if rids' = {}
       then s\<lparr>cached := (cached s)(h \<mapsto> rids'), freeable := od_set h (sz h) (freeable s), num_freeable_slots := num_freeable_slots s + sz h\<rparr>
       else s\<lparr>cached := (cached s)(h \<mapsto> rids')\<rparr>)"
  shows "slots_inv sz s'"
proof -
  have h: "h \<notin> fst ` set (freeable s)" using sl refs by (force simp: slots_inv_def)
  have d: "h \<in> dom (cached s)" using refs by auto
  have mem: "(g, n) \<in> set (freeable s') \<longleftrightarrow> n = sz g \<and> cached s' g = Some {}" for g n
    using sl h refs by (cases "g = h") (auto simp: slots_inv_def s' od_set_def image_iff)
  show ?thesis
    unfolding slots_inv_def using sl h d mem by (auto simp: slots_inv_def s' od_set_def insert_absorb)
qed

lemma free_input_result:
  assumes inv: "enc_inv sz feat s" and it: "items_ok sz feat" and ok: "input_ok feat r i" and h: "h = item feat (er_id r) i"
  shows "\<exists>s'. free_encoder_input r i s = Inr s' \<and> enc_inv sz feat s' \<and> num_free_slots s' = num_free_slots s
    \<and> dom (cached s') = dom (cached s) \<and> (\<forall>q. ids_of q s' = (if q = er_id r then ids_of q s - {i} else ids_of q s))"
proof -
  note D = enc_invD [OF inv]
  let ?rid = "er_id r" and ?s1 = "discard_input (er_id r) i s"
  have sl: "slots_inv sz s" using inv by (simp add: enc_inv_split)
  have ids: "\<forall>q. finite (ids_of q ?s1) \<and> ids_of q ?s1 \<subseteq> {0..<int (length (feat q))}" using D(8,9) by (auto simp del: atLeastLessThan_iff)
  have hold: "holds_item r (ids_of ?rid ?s1) h \<longleftrightarrow> (\<exists>j \<in> ids_of ?rid ?s1. item feat ?rid j = h)"
    by (rule holds_item_iff [OF ok]) (use ids in blast)
  define keep where "keep \<longleftrightarrow> refs_of h s = {} \<or> holds_item r (ids_of ?rid ?s1) h"
  define rids where "rids = refs_of h s - {?rid}"
  let ?s2 = "if rids = {}
       then ?s1\<lparr>cached := (cached s)(h \<mapsto> rids), freeable := od_set h (sz h) (freeable s), num_freeable_slots := num_freeable_slots s + sz h\<rparr>
       else ?s1\<lparr>cached := (cached s)(h \<mapsto> rids)\<rparr>"
  have run: "free_encoder_input r i s = Inr (if keep then ?s1 else ?s2)"
    by (simp add: free_encoder_input_def input_simps [OF it ok] h [symmetric] Let_def keep_def rids_def)
  note keep_def = keep_def [unfolded hold]
  have other: "(\<exists>j \<in> ids_of q ?s1. item feat q j = g) \<longleftrightarrow> (\<exists>j \<in> ids_of q s. item feat q j = g)" if "q \<noteq> ?rid \<or> g \<noteq> h" for q g
    using that h by auto
  show ?thesis
  proof (cases keep)
    case True
    have "q \<in> refs_of g ?s1 \<longleftrightarrow> (\<exists>j \<in> ids_of q ?s1. item feat q j = g)" for q g
    proof (cases "q \<noteq> ?rid \<or> g \<noteq> h")
      case ne: True
      show ?thesis unfolding other [OF ne] discard_input_simps(3) by (rule D(7))
    next
      case False
      then show ?thesis using True D(7) [of ?rid h] unfolding keep_def by auto
    qed
    with sl ids have "enc_inv sz feat ?s1" by (simp add: enc_inv_split)
    with run True show ?thesis by simp
  next
    case False
    then obtain rs where rs: "cached s h = Some rs" "rs \<noteq> {}" "refs_of h s = rs" by (auto simp: keep_def refs_of_def split: option.splits)
    have "slots_inv sz ?s2"
      by (rule release_ref [of sz ?s1 h rs rids]) (use sl rs in \<open>auto simp: rids_def\<close>)
    moreover have idq: "ids_of q ?s2 = ids_of q ?s1" for q by (simp add: ids_of_def)
    moreover have "refs_of g ?s2 = (if g = h then rids else refs_of g s)" for g by (simp add: refs_of_def)
    moreover have "q \<in> (if g = h then rids else refs_of g s) \<longleftrightarrow> (\<exists>j \<in> ids_of q ?s1. item feat q j = g)" for q g
    proof (cases "q \<noteq> ?rid \<or> g \<noteq> h")
      case True
      then show ?thesis unfolding other [OF True] using D(7) [of q g] by (auto simp: rids_def)
    next
      case eq: False
      then show ?thesis using False unfolding keep_def by (auto simp: rids_def)
    qed
    ultimately have "enc_inv sz feat ?s2" unfolding enc_inv_split using ids by simp
    moreover have "num_free_slots ?s2 = num_free_slots s" "dom (cached ?s2) = dom (cached s)" using rs by (auto simp: insert_absorb)
    ultimately show ?thesis using run False idq by (intro exI [of _ ?s2]) simp
  qed
qed

text \<open>Giving back several inputs, or all of a request.\<close>

lemma free_many_result:
  assumes it: "items_ok sz feat"
  shows "\<lbrakk>enc_inv sz feat s; \<forall>i \<in> set is. input_ok feat r i\<rbrakk> \<Longrightarrow>
    \<exists>s'. foldE (\<lambda>i s. bindE (py_get (er_features r) i) (\<lambda>f. if P f then free_encoder_input r i s else Inr s)) is s = Inr s'
      \<and> enc_inv sz feat s'
      \<and> ids_of (er_id r) s' = ids_of (er_id r) s - {i \<in> set is. P (feat (er_id r) ! nat i)}"
proof (induction "is" arbitrary: s)
  case (Cons i "is")
  have ok: "input_ok feat r i" using Cons.prems(2) by simp
  let ?op = "\<lambda>i s. bindE (py_get (er_features r) i) (\<lambda>f. if P f then free_encoder_input r i s else Inr s)"
  obtain s1 where s1: "?op i s = Inr s1" "enc_inv sz feat s1"
    "ids_of (er_id r) s1 = ids_of (er_id r) s - (if P (feat (er_id r) ! nat i) then {i} else {})"
    using free_input_result [OF Cons.prems(1) it ok refl] Cons.prems(1) by (cases "P (feat (er_id r) ! nat i)") (auto simp: input_simps [OF it ok])
  obtain s' where "foldE ?op is s1 = Inr s'" "enc_inv sz feat s'"
    "ids_of (er_id r) s' = ids_of (er_id r) s1 - {i \<in> set is. P (feat (er_id r) ! nat i)}"
    using Cons.IH [OF s1(2)] Cons.prems(2) by auto
  with s1 show ?case by auto
qed auto

definition iteration_order :: "(int set \<Rightarrow> int list) \<Rightarrow> bool" where
  "iteration_order order \<longleftrightarrow> (\<forall>A. finite A \<longrightarrow> set (order A) = A \<and> distinct (order A))"

lemma cached_inputs_ok:
  assumes "enc_inv sz feat s" "iteration_order order" "er_features r = feat (er_id r)"
  shows "set (order (get_cached_input_ids r s)) = ids_of (er_id r) s" "\<forall>i \<in> ids_of (er_id r) s. input_ok feat r i"
  using enc_invD(8,9) [OF assms(1)] assms(2,3) by (auto simp: iteration_order_def get_cached_input_ids_def input_ok_def subset_iff)

lemma enc_free_result:
  assumes inv: "enc_inv sz feat s" and it: "items_ok sz feat" and ord: "iteration_order order" and r: "er_features r = feat (er_id r)"
  shows "\<exists>s'. enc_free order r s = Inr s' \<and> enc_inv sz feat s' \<and> ids_of (er_id r) s' = {}"
proof -
  note c = cached_inputs_ok [OF inv ord r]
  have "foldE (free_encoder_input r) is t
    = foldE (\<lambda>i s. bindE (py_get (er_features r) i) (\<lambda>f. if True then free_encoder_input r i s else Inr s)) is t"
    if "\<forall>i \<in> set is. input_ok feat r i" for "is" t
    using that by (induction "is" arbitrary: t) (auto simp: input_simps [OF it] intro!: bindE_cong)
  with free_many_result [OF it inv, of "order (get_cached_input_ids r s)" r "\<lambda>_. True"] c show ?thesis
    unfolding enc_free_def by auto
qed

lemma free_encoder_inputs_result:
  assumes inv: "enc_inv sz feat s" and it: "items_ok sz feat" and ord: "iteration_order order" and r: "er_features r = feat (er_id r)"
  shows "\<exists>s'. free_encoder_inputs get_cached_input_ids free_encoder_input order ed la nc np r s = Inr s' \<and> enc_inv sz feat s'"
proof (cases "get_cached_input_ids r s = {}")
  case True
  with inv show ?thesis by (simp add: free_encoder_inputs_def)
next
  case False
  let ?P = "\<lambda>f. (ed \<and> 0 < nc) \<or> ef_offset f + ef_length f + la \<le> nc - np"
  have step: "(if ed \<and> 0 < nc then x else if ef_offset f + ef_length f + la \<le> nc - np then x else y) = (if ?P f then x else y)"
    for f and x y :: "enc_cache res" by simp
  have "\<forall>i \<in> set (order (get_cached_input_ids r s)). input_ok feat r i" using cached_inputs_ok [OF inv ord r] by simp
  from free_many_result [OF it inv this, of ?P] False show ?thesis
    unfolding free_encoder_inputs_def step if_False by (elim exE conjE) (intro exI conjI, simp)
qed

section \<open>Reachable states\<close>

text \<open>The calls of the scheduler.  It allocates an input only after a miss, with room for it.\<close>

inductive enc_step :: "(int set \<Rightarrow> int list) \<Rightarrow> (string \<Rightarrow> enc_feature list) \<Rightarrow> enc_cache \<Rightarrow> enc_cache \<Rightarrow> bool"
  for order feat where
  check: "input_ok feat r i \<Longrightarrow> check_and_update_cache r i s = Inr (hit, s') \<Longrightarrow> enc_step order feat s s'"
| can: "input_ok feat r i \<Longrightarrow> can_allocate r i budget scheduled s = Inr (fits, s') \<Longrightarrow> enc_step order feat s s'"
| alloc: "input_ok feat r i \<Longrightarrow> cached s (item feat (er_id r) i) = None \<Longrightarrow> enc_allocate r i s = Inr s' \<Longrightarrow> enc_step order feat s s'"
| free_input: "input_ok feat r i \<Longrightarrow> free_encoder_input r i s = Inr s' \<Longrightarrow> enc_step order feat s s'"
| free: "er_features r = feat (er_id r) \<Longrightarrow> enc_free order r s = Inr s' \<Longrightarrow> enc_step order feat s s'"
| free_inputs: "er_features r = feat (er_id r) \<Longrightarrow> free_encoder_inputs get_cached_input_ids free_encoder_input order ed la nc np r s = Inr s' \<Longrightarrow> enc_step order feat s s'"
| freed: "get_freed_mm_hashes s = (hs, s') \<Longrightarrow> enc_step order feat s s'"
| reset: "enc_step order feat s (enc_reset s)"

inductive enc_reachable :: "(int set \<Rightarrow> int list) \<Rightarrow> (string \<Rightarrow> enc_feature list) \<Rightarrow> int \<Rightarrow> enc_cache \<Rightarrow> bool"
  for order feat n where
  init: "enc_reachable order feat n (enc_init n)"
| step: "enc_reachable order feat n s \<Longrightarrow> enc_step order feat s s' \<Longrightarrow> enc_reachable order feat n s'"

lemma cache_size_frame:
  "check_and_update_cache r i s = Inr (b, s') \<Longrightarrow> cache_size s' = cache_size s"
  "enc_allocate r i s = Inr s' \<Longrightarrow> cache_size s' = cache_size s"
  "free_encoder_input r i s = Inr s' \<Longrightarrow> cache_size s' = cache_size s"
  by (auto simp: check_and_update_cache_def enc_allocate_def free_encoder_input_def bindE_eq_Inr Let_def
      split: option.splits if_splits)

lemma foldE_cache_size:
  "(\<And>i s s'. op i s = Inr s' \<Longrightarrow> cache_size s' = cache_size s) \<Longrightarrow> foldE op is s = Inr s' \<Longrightarrow> cache_size s' = cache_size s"
  by (induction "is" arbitrary: s) (auto simp: bindE_eq_Inr)

lemma enc_step_ok:
  assumes "enc_step order feat s s'" "items_ok sz feat" "iteration_order order" "enc_inv sz feat s" "0 \<le> cache_size s"
  shows "enc_inv sz feat s' \<and> cache_size s' = cache_size s"
  using assms(1)
proof cases
  case (check r i hit)
  with check_result [OF assms(4,2) check(1) refl] cache_size_frame(1) [OF check(2)] show ?thesis by auto
next
  case (can r i budget scheduled fits)
  with can_allocate_result [OF assms(4,2) can(1) refl, of budget scheduled] show ?thesis by (auto simp: evicted_def)
next
  case (alloc r i)
  have "sz (item feat (er_id r) i) \<le> num_free_slots s"
    using alloc(3) by (auto simp: enc_allocate_def input_simps [OF assms(2) alloc(1)] bindE_eq_Inr)
  with allocate_result [OF assms(4,2) alloc(1) refl alloc(2)] cache_size_frame(2) alloc(3) show ?thesis by auto
next
  case (free_input r i)
  with free_input_result [OF assms(4,2) free_input(1) refl] cache_size_frame(3) show ?thesis by auto
next
  case (free r)
  with enc_free_result [OF assms(4,2,3) free(1)] show ?thesis
    using foldE_cache_size [OF cache_size_frame(3)] by (auto simp: enc_free_def)
next
  case (free_inputs r ed la nc np)
  have "cache_size s' = cache_size s"
    using free_inputs(2) unfolding free_encoder_inputs_def
    by (cases "get_cached_input_ids r s = {}")
      (simp, simp, rule foldE_cache_size [rotated], assumption, auto simp: bindE_eq_Inr split: if_splits dest: cache_size_frame(3))
  with free_encoder_inputs_result [OF assms(4,2,3) free_inputs(1), of ed la nc np] free_inputs(2) show ?thesis by auto
next
  case (freed hs)
  with get_freed_inv [OF assms(4)] show ?thesis by (auto simp: get_freed_mm_hashes_def)
next
  case reset
  then show ?thesis using enc_reset_inv [OF assms(5)] by (simp add: enc_reset_def)
qed

lemma enc_reachable_ok:
  assumes "enc_reachable order feat n s" "items_ok sz feat" "iteration_order order" "0 \<le> n"
  shows "enc_inv sz feat s \<and> cache_size s = n"
  using assms(1)
proof induction
  case init
  then show ?case using enc_init_inv [OF assms(4)] by (simp add: enc_init_def)
next
  case (step s s')
  then show ?case using enc_step_ok [OF step(2) assms(2,3)] assms(4) by auto
qed

end
