(* ===== verification/Encoder_Sched.thy ===== *)
theory Encoder_Sched
  imports Encoder_Props
begin

text \<open>
  The encoder cache as the scheduler uses it: the properties of the cache over all reachable
  states, and the admission of encoder inputs.  The contract between the admission loop and a
  cache manager is a locale; both managers of the code are instances.
\<close>

section \<open>The contract of an encoder cache manager\<close>

text \<open>
  \<open>slots m\<close> are the free slots and \<open>absent m h\<close> says that item \<open>h\<close> may be allocated.  \<open>enc_dec\<close> is
  \<open>is_encoder_decoder\<close>: such a manager keeps one allocation per input, not per item.
\<close>

locale encoder_manager =
  fixes check :: "enc_request \<Rightarrow> int \<Rightarrow> 'm \<Rightarrow> (bool \<times> 'm) res"
    and can :: "enc_request \<Rightarrow> int \<Rightarrow> int \<Rightarrow> int \<Rightarrow> 'm \<Rightarrow> (bool \<times> 'm) res"
    and alloc :: "enc_request \<Rightarrow> int \<Rightarrow> 'm \<Rightarrow> 'm res"
    and enc_dec :: bool and inv :: "(string \<Rightarrow> int) \<Rightarrow> (string \<Rightarrow> enc_feature list) \<Rightarrow> 'm \<Rightarrow> bool"
    and slots :: "'m \<Rightarrow> int" and absent :: "'m \<Rightarrow> string \<Rightarrow> bool"
  assumes check_law: "\<lbrakk>items_ok sz feat; inv sz feat m; input_ok feat r i\<rbrakk> \<Longrightarrow>
      \<exists>hit m'. check r i m = Inr (hit, m') \<and> inv sz feat m' \<and> slots m' = slots m \<and> (\<forall>h. absent m h \<longrightarrow> absent m' h)
        \<and> (\<not> hit \<longrightarrow> absent m' (item feat (er_id r) i))"
    and can_law: "\<lbrakk>items_ok sz feat; inv sz feat m; input_ok feat r i\<rbrakk> \<Longrightarrow>
      \<exists>fits m'. can r i budget scheduled m = Inr (fits, m') \<and> inv sz feat m' \<and> slots m \<le> slots m' \<and> (\<forall>h. absent m h \<longrightarrow> absent m' h)
        \<and> (fits \<longrightarrow> sz (item feat (er_id r) i) \<le> budget \<and> sz (item feat (er_id r) i) + scheduled \<le> slots m')"
    and alloc_law: "\<lbrakk>items_ok sz feat; inv sz feat m; input_ok feat r i; absent m (item feat (er_id r) i);
        sz (item feat (er_id r) i) \<le> slots m\<rbrakk> \<Longrightarrow>
      \<exists>m'. alloc r i m = Inr m' \<and> inv sz feat m' \<and> slots m' = slots m - sz (item feat (er_id r) i)
        \<and> (\<forall>h. absent m h \<longrightarrow> enc_dec \<or> h \<noteq> item feat (er_id r) i \<longrightarrow> absent m' h)"
    and enc_dec_law: "enc_dec \<Longrightarrow> absent m h"

text \<open>What the admission loop maintains: its lists, sums and budget, and room for all admitted inputs.\<close>

definition admitted ::
    "(string \<Rightarrow> int) \<Rightarrow> (string \<Rightarrow> enc_feature list) \<Rightarrow> bool \<Rightarrow> ('m \<Rightarrow> int) \<Rightarrow> ('m \<Rightarrow> string \<Rightarrow> bool) \<Rightarrow> enc_request \<Rightarrow> int
      \<Rightarrow> enc_sched \<Rightarrow> 'm \<Rightarrow> bool" where
  "admitted sz feat enc_dec slots absent r budget v m \<longleftrightarrow>
     (\<forall>i \<in> set (es_inputs v) \<union> set (es_external v). input_ok feat r i \<and> absent m (item feat (er_id r) i))
     \<and> (\<not> enc_dec \<longrightarrow> distinct (map (item feat (er_id r)) (es_inputs v @ es_external v))
          \<and> item feat (er_id r) ` (set (es_inputs v) \<union> set (es_external v)) = es_hashes v)
     \<and> es_num_embeds v = sum_list (map (sz \<circ> item feat (er_id r)) (es_inputs v @ es_external v))
     \<and> es_num_embeds v \<le> slots m
     \<and> es_budget v + sum_list (map (sz \<circ> item feat (er_id r)) (es_inputs v)) = budget \<and> (0 \<le> budget \<longrightarrow> 0 \<le> es_budget v)"

text \<open>The inputs the loop looks at have features whose embedding range can be computed.\<close>

definition range_ok :: "(string \<Rightarrow> enc_feature list) \<Rightarrow> bool \<Rightarrow> enc_request \<Rightarrow> int \<Rightarrow> int \<Rightarrow> int \<Rightarrow> bool" where
  "range_ok feat enc_dec r num_computed window_end i \<longleftrightarrow> input_ok feat r i
     \<and> (let f = feat (er_id r) ! nat i in
        (enc_dec \<and> 0 < num_computed \<longrightarrow> ef_offset f = 0)
        \<and> (\<exists>a b. get_embeds_indices_in_range f (max 0 (num_computed - ef_offset f)) (min (ef_length f) (window_end - ef_offset f)) = Inr (a, b)))"

text \<open>One iteration for an input that is not skipped, once the calls it makes are known.\<close>

lemma loop_step:
  assumes f: "py_get (er_features r) i = Inr f" "ef_identifier f = h" "get_num_embeds f = n"
    and skip: "\<not> (enc_dec \<and> 0 < nc \<or> \<not> enc_dec \<and> h \<in> es_hashes v)"
    and check: "(if enc_dec then Inr (False, m) else check r i m) = Inr (hit, m1)"
    and can: "can r i (es_budget v) (es_num_embeds v) m1 = Inr (fits, m2)"
    and rng: "get_embeds_indices_in_range f (max 0 (nc - ef_offset f)) (min (ef_length f) (we - ef_offset f)) = Inr (a, b)"
    and clipped: "clipped \<longleftrightarrow> no_chunk \<and> nc < ef_offset f \<and> nc + es_num_new_tokens v < ef_offset f + ef_length f"
    and v1: "v1 = v\<lparr>es_num_embeds := es_num_embeds v + n, es_hashes := insert h (es_hashes v)\<rparr>"
    and remote: "remote \<longleftrightarrow> (case has_item of None \<Rightarrow> False | Some p \<Rightarrow> p h)"
  shows "enc_sched_loop check can has_item enc_dec no_chunk r nc shift we (i # rest) v m =
    (if hit then enc_sched_loop check can has_item enc_dec no_chunk r nc shift we rest v m1
     else if clipped then Inr (v\<lparr>es_num_new_tokens := max 0 (ef_offset f - (nc + shift))\<rparr>, m1)
     else if \<not> fits then Inr (v\<lparr>es_num_new_tokens := (if nc + shift < ef_offset f then ef_offset f - (nc + shift) else 0)\<rparr>, m2)
     else if b - a = 0 then enc_sched_loop check can has_item enc_dec no_chunk r nc shift we rest v m2
     else if remote
     then enc_sched_loop check can has_item enc_dec no_chunk r nc shift we rest (v1\<lparr>es_external := es_external v1 @ [i]\<rparr>) m2
     else enc_sched_loop check can has_item enc_dec no_chunk r nc shift we rest
            (v1\<lparr>es_budget := es_budget v1 - n, es_inputs := es_inputs v1 @ [i]\<rparr>) m2)"
  using skip by (simp only: enc_sched_loop.simps f Let_def bindE_simps de_Morgan_disj if_False prod.case check can rng v1 clipped remote)

context encoder_manager
begin

lemma admitted_later:
  "admitted sz feat enc_dec slots absent r budget v m \<Longrightarrow> slots m \<le> slots m' \<Longrightarrow> \<forall>h. absent m h \<longrightarrow> absent m' h \<Longrightarrow>
   admitted sz feat enc_dec slots absent r budget (v\<lparr>es_num_new_tokens := n\<rparr>) m'"
  by (auto simp: admitted_def)

lemma admitted_add:
  assumes "admitted sz feat enc_dec slots absent r budget v m" "input_ok feat r i" "h = item feat (er_id r) i" "absent m h"
    "\<not> enc_dec \<longrightarrow> h \<notin> es_hashes v" "sz h + es_num_embeds v \<le> slots m" "sz h \<le> es_budget v"
    and v1: "v1 = v\<lparr>es_num_embeds := es_num_embeds v + sz h, es_hashes := insert h (es_hashes v)\<rparr>"
  shows "admitted sz feat enc_dec slots absent r budget (v1\<lparr>es_external := es_external v1 @ [i]\<rparr>) m"
    "admitted sz feat enc_dec slots absent r budget (v1\<lparr>es_budget := es_budget v1 - sz h, es_inputs := es_inputs v1 @ [i]\<rparr>) m"
  using assms(1-7) unfolding admitted_def v1 by (auto simp: algebra_simps)

lemma loop_admits:
  assumes it: "items_ok sz feat"
  shows "\<lbrakk>inv sz feat m; admitted sz feat enc_dec slots absent r budget v m; \<forall>i \<in> set is. range_ok feat enc_dec r nc we i\<rbrakk> \<Longrightarrow>
    \<exists>v' m'. enc_sched_loop check can has_item enc_dec no_chunk r nc shift we is v m = Inr (v', m')
      \<and> inv sz feat m' \<and> admitted sz feat enc_dec slots absent r budget v' m'"
proof (induction "is" arbitrary: v m)
  case (Cons i "is")
  let ?f = "feat (er_id r) ! nat i" and ?h = "item feat (er_id r) i"
  have ok: "input_ok feat r i" and off: "enc_dec \<and> 0 < nc \<Longrightarrow> ef_offset ?f = 0"
    and rng: "\<exists>a b. get_embeds_indices_in_range ?f (max 0 (nc - ef_offset ?f)) (min (ef_length ?f) (we - ef_offset ?f)) = Inr (a, b)"
    using Cons.prems(3) by (auto simp: range_ok_def Let_def)
  note simps = input_simps(1,3,4) [OF it ok]
  let ?loop = "enc_sched_loop check can has_item enc_dec no_chunk r nc shift we"
  define G where "G x = (\<exists>v' m'. x = Inr (v', m') \<and> inv sz feat m' \<and> admitted sz feat enc_dec slots absent r budget v' m')" for x :: "(enc_sched \<times> 'm) res"
  have IH: "G (?loop is w k)" if "inv sz feat k" "admitted sz feat enc_dec slots absent r budget w k" for w k
    unfolding G_def by (rule Cons.IH [OF that]) (use Cons.prems(3) in simp)
  have now: "G (Inr (v\<lparr>es_num_new_tokens := n\<rparr>, k))"
    if "inv sz feat k" "slots m \<le> slots k" "\<forall>h. absent m h \<longrightarrow> absent k h" for n k
    using admitted_later [OF Cons.prems(2) that(2,3)] that(1) by (simp add: G_def)
  have adm: "admitted sz feat enc_dec slots absent r budget v k" if "slots m \<le> slots k" "\<forall>h. absent m h \<longrightarrow> absent k h" for k
    using admitted_later [OF Cons.prems(2) that, of "es_num_new_tokens v"] by simp
  have "G (?loop (i # is) v m)"
  proof (cases "(enc_dec \<and> 0 < nc) \<or> (\<not> enc_dec \<and> ?h \<in> es_hashes v)")
    case True
    then have "?loop (i # is) v m = ?loop is v m" using off by (auto simp: simps Let_def)
    with IH [OF Cons.prems(1,2)] show ?thesis by simp
  next
    case False
    obtain hit m1 where m1: "(if enc_dec then Inr (False, m) else check r i m) = Inr (hit, m1)" "inv sz feat m1" "slots m1 = slots m"
      "\<forall>h. absent m h \<longrightarrow> absent m1 h" "\<not> hit \<longrightarrow> absent m1 ?h"
      using check_law [OF it Cons.prems(1) ok] enc_dec_law Cons.prems(1) by (cases enc_dec) auto
    obtain fits m2 where m2: "can r i (es_budget v) (es_num_embeds v) m1 = Inr (fits, m2)" "inv sz feat m2" "slots m1 \<le> slots m2"
      "\<forall>h. absent m1 h \<longrightarrow> absent m2 h" "fits \<longrightarrow> sz ?h \<le> es_budget v \<and> sz ?h + es_num_embeds v \<le> slots m2"
      using can_law [OF it m1(2) ok, of "es_budget v" "es_num_embeds v"] by blast
    obtain a b where ab: "get_embeds_indices_in_range ?f (max 0 (nc - ef_offset ?f)) (min (ef_length ?f) (we - ef_offset ?f)) = Inr (a, b)"
      using rng by blast
    define v1 where "v1 = v\<lparr>es_num_embeds := es_num_embeds v + sz ?h, es_hashes := insert ?h (es_hashes v)\<rparr>"
    define clipped where "clipped \<longleftrightarrow> no_chunk \<and> nc < ef_offset ?f \<and> nc + es_num_new_tokens v < ef_offset ?f + ef_length ?f"
    define remote where "remote \<longleftrightarrow> (case has_item of None \<Rightarrow> False | Some p \<Rightarrow> p ?h)"
    note step = loop_step [where rest = "is" and has_item = has_item and shift = shift and check = check and can = can and v = v and nc = nc and enc_dec = enc_dec, OF simps False m1(1) m2(1) ab clipped_def v1_def remote_def]
    have abs: "\<forall>h. absent m h \<longrightarrow> absent m2 h" "slots m \<le> slots m2" using m1(3,4) m2(3,4) by auto
    have add: "admitted sz feat enc_dec slots absent r budget (v1\<lparr>es_external := es_external v1 @ [i]\<rparr>) m2"
      "admitted sz feat enc_dec slots absent r budget (v1\<lparr>es_budget := es_budget v1 - sz ?h, es_inputs := es_inputs v1 @ [i]\<rparr>) m2"
      if "\<not> hit" fits
      using admitted_add [OF adm [OF abs(2,1)] ok refl _ _ _ _ v1_def] that m1(5) m2(4,5) False by auto
    show ?thesis
      unfolding step using IH [OF m1(2) adm] IH [OF m2(2) adm [OF abs(2,1)]] IH [OF m2(2) add(1)] IH [OF m2(2) add(2)]
        now [OF m1(2)] now [OF m2(2) abs(2,1)] m1(3,4) by simp
  qed
  then show ?case by (simp add: G_def)
qed auto

lemma alloc_many:
  assumes it: "items_ok sz feat"
  shows "\<lbrakk>inv sz feat m; \<forall>i \<in> set is. input_ok feat r i \<and> absent m (item feat (er_id r) i);
      enc_dec \<or> distinct (map (item feat (er_id r)) is); sum_list (map (sz \<circ> item feat (er_id r)) is) \<le> slots m\<rbrakk> \<Longrightarrow>
    \<exists>m'. foldE (alloc r) is m = Inr m' \<and> inv sz feat m' \<and> slots m' = slots m - sum_list (map (sz \<circ> item feat (er_id r)) is)"
proof (induction "is" arbitrary: m)
  case (Cons i "is")
  have "0 \<le> sum_list (map (sz \<circ> item feat (er_id r)) is)" using it by (intro sum_list_nonneg) (auto simp: items_ok_def)
  then have room: "sz (item feat (er_id r) i) \<le> slots m" using Cons.prems(4) by (simp add: comp_def)
  obtain m1 where m1: "alloc r i m = Inr m1" "inv sz feat m1" "slots m1 = slots m - sz (item feat (er_id r) i)"
    "\<forall>h. absent m h \<longrightarrow> enc_dec \<or> h \<noteq> item feat (er_id r) i \<longrightarrow> absent m1 h"
    using alloc_law [OF it Cons.prems(1), of r i] Cons.prems(2) room by auto
  have "\<forall>j \<in> set is. input_ok feat r j \<and> absent m1 (item feat (er_id r) j)"
    using Cons.prems(2,3) m1(4) by (auto simp: image_iff)
  from Cons.IH [OF m1(2) this] Cons.prems(3,4) m1(1,3) show ?case by auto
qed simp

lemma admitted_allocates:
  assumes it: "items_ok sz feat" and "inv sz feat m" "admitted sz feat enc_dec slots absent r budget v m"
  shows "\<exists>m'. allocate_scheduled alloc r v m = Inr m' \<and> inv sz feat m'"
  using alloc_many [OF it assms(2), of "es_inputs v @ es_external v" r] assms(3)
  by (auto simp: allocate_scheduled_def admitted_def foldE_append)

lemma try_schedule_admits:
  assumes it: "items_ok sz feat" and "inv sz feat m" "0 \<le> slots m"
    and rng: "\<forall>i. fst (get_mm_features_in_window (er_features r) nc (nc + nn + shift)) \<le> i \<or> enc_dec \<and> 0 \<le> i \<longrightarrow>
        i < snd (get_mm_features_in_window (er_features r) nc (nc + nn + shift)) \<longrightarrow> range_ok feat enc_dec r nc (nc + nn + shift) i"
  shows "\<exists>v m'. try_schedule_encoder_inputs check can has_item enc_dec no_chunk r nc nn budget shift m = Inr (v, m')
    \<and> inv sz feat m' \<and> admitted sz feat enc_dec slots absent r budget v m'"
proof -
  let ?v = "\<lparr>es_inputs = [], es_external = [], es_num_new_tokens = nn, es_budget = budget, es_hashes = {}, es_num_embeds = 0\<rparr>"
  have init: "admitted sz feat enc_dec slots absent r budget ?v m" using assms(3) by (simp add: admitted_def)
  show ?thesis
  proof (cases "nn = 0 \<or> er_features r = []")
    case True
    with init assms(2) show ?thesis by (auto simp: try_schedule_encoder_inputs_def)
  next
    case False
    obtain lo hi where w: "get_mm_features_in_window (er_features r) nc (nc + nn + shift) = (lo, hi)"
      by (cases "get_mm_features_in_window (er_features r) nc (nc + nn + shift)")
    have "\<forall>i \<in> set (py_range (if enc_dec then 0 else lo) hi). range_ok feat enc_dec r nc (nc + nn + shift) i" using rng w by auto
    from loop_admits [OF it assms(2) init this] False w show ?thesis by (simp add: try_schedule_encoder_inputs_def)
  qed
qed

end

text \<open>
  A manager that caches items: \<open>held m rid h\<close> says that request \<open>rid\<close> holds the cached item \<open>h\<close>.
  No call takes an item away from a request that holds it.
\<close>

definition served :: "(string \<Rightarrow> enc_feature list) \<Rightarrow> enc_request \<Rightarrow> int \<Rightarrow> int \<Rightarrow> string set \<Rightarrow> (string \<Rightarrow> bool) \<Rightarrow> int \<Rightarrow> bool" where
  "served feat r nc we hashes holds i \<longleftrightarrow> item feat (er_id r) i \<in> hashes \<or> holds (item feat (er_id r) i)
     \<or> (let f = feat (er_id r) ! nat i in
        \<exists>a. get_embeds_indices_in_range f (max 0 (nc - ef_offset f)) (min (ef_length f) (we - ef_offset f)) = Inr (a, a))"

lemma served_mono:
  "served feat r nc we S H i \<Longrightarrow> \<forall>h \<in> S. H' h \<Longrightarrow> \<forall>h. H h \<longrightarrow> H' h \<Longrightarrow> served feat r nc we {} H' i"
  unfolding served_def by auto

definition stops_at :: "(string \<Rightarrow> enc_feature list) \<Rightarrow> enc_request \<Rightarrow> int \<Rightarrow> int \<Rightarrow> (int \<Rightarrow> bool) \<Rightarrow> int \<Rightarrow> int \<Rightarrow> int list \<Rightarrow> bool" where
  "stops_at feat r nc shift ok before after is \<longleftrightarrow> (\<exists>k. (\<forall>i \<in> set (take k is). ok i) \<and>
     (k = length is \<and> after = before \<or> k < length is \<and> after = max 0 (ef_offset (feat (er_id r) ! nat (is ! k)) - (nc + shift))))"

lemma stops_at_here: "stops_at feat r nc shift ok before (max 0 (ef_offset (feat (er_id r) ! nat i) - (nc + shift))) (i # is)"
  unfolding stops_at_def by (rule exI [of _ 0]) simp

lemma stops_at_later: "ok i \<Longrightarrow> stops_at feat r nc shift ok before after is \<Longrightarrow> stops_at feat r nc shift ok before after (i # is)"
  unfolding stops_at_def by (elim exE, rule_tac x = "Suc k" in exI) auto

locale caching_manager = encoder_manager check can alloc False inv slots absent
  for check :: "enc_request \<Rightarrow> int \<Rightarrow> 'm \<Rightarrow> (bool \<times> 'm) res"
    and can :: "enc_request \<Rightarrow> int \<Rightarrow> int \<Rightarrow> int \<Rightarrow> 'm \<Rightarrow> (bool \<times> 'm) res"
    and alloc :: "enc_request \<Rightarrow> int \<Rightarrow> 'm \<Rightarrow> 'm res"
    and inv :: "(string \<Rightarrow> int) \<Rightarrow> (string \<Rightarrow> enc_feature list) \<Rightarrow> 'm \<Rightarrow> bool"
    and slots :: "'m \<Rightarrow> int" and absent :: "'m \<Rightarrow> string \<Rightarrow> bool" +
  fixes held :: "'m \<Rightarrow> string \<Rightarrow> string \<Rightarrow> bool"
  assumes check_holds: "\<lbrakk>items_ok sz feat; inv sz feat m; input_ok feat r i; check r i m = Inr (hit, m')\<rbrakk> \<Longrightarrow>
      (held m rid h \<longrightarrow> held m' rid h) \<and> (hit \<longrightarrow> held m' (er_id r) (item feat (er_id r) i))"
    and can_holds: "\<lbrakk>items_ok sz feat; inv sz feat m; input_ok feat r i; can r i budget scheduled m = Inr (fits, m')\<rbrakk> \<Longrightarrow>
      held m rid h \<longrightarrow> held m' rid h"
    and alloc_holds: "\<lbrakk>input_ok feat r i; alloc r i m = Inr m'\<rbrakk> \<Longrightarrow>
      (held m rid h \<longrightarrow> held m' rid h) \<and> held m' (er_id r) (item feat (er_id r) i)"
begin

lemma alloc_many_holds:
  "\<lbrakk>\<forall>i \<in> set is. input_ok feat r i; foldE (alloc r) is m = Inr m'\<rbrakk> \<Longrightarrow>
   (held m rid h \<longrightarrow> held m' rid h) \<and> (\<forall>i \<in> set is. held m' (er_id r) (item feat (er_id r) i))"
proof (induction "is" arbitrary: m rid h)
  case (Cons i "is")
  from Cons.prems(2) obtain m1 where m1: "alloc r i m = Inr m1" "foldE (alloc r) is m1 = Inr m'" by (auto simp: bindE_eq_Inr)
  note a = alloc_holds [OF _ m1(1)]
  from Cons.IH [OF _ m1(2), of "er_id r" "item feat (er_id r) i"] Cons.IH [OF _ m1(2), of rid h] a Cons.prems(1)
  show ?case by auto
qed simp

text \<open>The inputs that the loop passes are served; it stops before the first one it cannot serve.\<close>

lemma loop_serves:
  assumes it: "items_ok sz feat"
  shows "\<lbrakk>inv sz feat m; \<forall>i \<in> set is. range_ok feat False r nc we i;
      enc_sched_loop check can has_item False no_chunk r nc shift we is v m = Inr (v', m')\<rbrakk> \<Longrightarrow>
    (\<forall>rid h. held m rid h \<longrightarrow> held m' rid h) \<and> es_hashes v \<subseteq> es_hashes v'
    \<and> stops_at feat r nc shift (served feat r nc we (es_hashes v') (held m' (er_id r))) (es_num_new_tokens v) (es_num_new_tokens v') is"
proof (induction "is" arbitrary: v m)
  case (Cons i "is")
  let ?f = "feat (er_id r) ! nat i" and ?h = "item feat (er_id r) i"
  let ?loop = "enc_sched_loop check can has_item False no_chunk r nc shift we"
  let ?S = "served feat r nc we (es_hashes v') (held m' (er_id r))"
  have ok: "input_ok feat r i"
    and rng: "\<exists>a b. get_embeds_indices_in_range ?f (max 0 (nc - ef_offset ?f)) (min (ef_length ?f) (we - ef_offset ?f)) = Inr (a, b)"
    using Cons.prems(2) by (auto simp: range_ok_def Let_def)
  note simps = input_simps(1,3,4) [OF it ok]
  define G where "G x k \<longleftrightarrow> (\<forall>rid h. held k rid h \<longrightarrow> held m' rid h) \<and> es_hashes x \<subseteq> es_hashes v'
    \<and> stops_at feat r nc shift ?S (es_num_new_tokens x) (es_num_new_tokens v') is" for x :: enc_sched and k
  have IH: "G x k" if "inv sz feat k" "?loop is x k = Inr (v', m')" for x k
    unfolding G_def by (rule Cons.IH [OF that(1) _ that(2)]) (use Cons.prems(2) in simp)
  have ext: ?case if "G x k" "?S i" "\<forall>rid h. held m rid h \<longrightarrow> held k rid h" "es_hashes v \<subseteq> es_hashes x" "es_num_new_tokens x = es_num_new_tokens v" for x k
    using that unfolding G_def by (auto intro: stops_at_later)
  have halt: ?case if "v' = v\<lparr>es_num_new_tokens := max 0 (ef_offset ?f - (nc + shift))\<rparr>" "\<forall>rid h. held m rid h \<longrightarrow> held m' rid h"
    using that by (auto intro: stops_at_here)
  show ?case
  proof (cases "?h \<in> es_hashes v")
    case True
    then have "?loop is v m = Inr (v', m')" using Cons.prems(3) by (simp add: simps Let_def)
    with IH [OF Cons.prems(1)] have g: "G v m" by blast
    with True have "?S i" by (auto simp: served_def G_def)
    with g show ?thesis by (rule ext) auto
  next
    case False
    obtain hit m1 where m1: "check r i m = Inr (hit, m1)" "inv sz feat m1"
      using check_law [OF it Cons.prems(1) ok] by blast
    obtain fits m2 where m2: "can r i (es_budget v) (es_num_embeds v) m1 = Inr (fits, m2)" "inv sz feat m2"
      using can_law [OF it m1(2) ok, of "es_budget v" "es_num_embeds v"] by blast
    obtain a b where ab: "get_embeds_indices_in_range ?f (max 0 (nc - ef_offset ?f)) (min (ef_length ?f) (we - ef_offset ?f)) = Inr (a, b)"
      using rng by blast
    have h1: "\<forall>rid h. held m rid h \<longrightarrow> held m1 rid h" "hit \<longrightarrow> held m1 (er_id r) ?h" using check_holds [OF it Cons.prems(1) ok m1(1)] by blast+
    have h2: "\<forall>rid h. held m rid h \<longrightarrow> held m2 rid h" using h1(1) can_holds [OF it m1(2) ok m2(1)] by blast
    define v1 where "v1 = v\<lparr>es_num_embeds := es_num_embeds v + sz ?h, es_hashes := insert ?h (es_hashes v)\<rparr>"
    define clipped where "clipped \<longleftrightarrow> no_chunk \<and> nc < ef_offset ?f \<and> nc + es_num_new_tokens v < ef_offset ?f + ef_length ?f"
    define remote where "remote \<longleftrightarrow> (case has_item of None \<Rightarrow> False | Some p \<Rightarrow> p ?h)"
    have "\<not> (False \<and> 0 < nc \<or> \<not> False \<and> ?h \<in> es_hashes v)" "(if False then Inr (False, m) else check r i m) = Inr (hit, m1)"
      using False m1(1) by simp_all
    note step = loop_step [where rest = "is" and has_item = has_item and shift = shift and check = check and can = can and v = v and nc = nc and enc_dec = False, OF simps this m2(1) ab clipped_def v1_def remote_def]
    consider (hit) hit "?loop is v m1 = Inr (v', m')"
      | (stop) "v' = v\<lparr>es_num_new_tokens := max 0 (ef_offset ?f - (nc + shift))\<rparr>" "m' = m1 \<or> m' = m2"
      | (none) "a = b" "?loop is v m2 = Inr (v', m')"
      | (add) x where "?loop is x m2 = Inr (v', m')" "es_hashes x = insert ?h (es_hashes v)" "es_num_new_tokens x = es_num_new_tokens v"
      using Cons.prems(3) unfolding step
      by (cases hit; cases clipped; cases fits; cases "b = a"; cases remote) (auto simp: v1_def max_def)
    then show ?thesis
    proof cases
      case hit
      have g: "G v m1" by (rule IH [OF m1(2) hit(2)])
      then have "?S i" using h1(2) hit(1) by (auto simp: served_def G_def)
      with g h1(1) show ?thesis by (intro ext) auto
    next
      case stop
      with h1(1) h2 show ?thesis by (intro halt) auto
    next
      case none
      have g: "G v m2" by (rule IH [OF m2(2) none(2)])
      have "?S i" using ab none(1) by (auto simp: served_def)
      with g h2 show ?thesis by (intro ext) auto
    next
      case (add x)
      have g: "G x m2" by (rule IH [OF m2(2) add(1)])
      then have "?S i" using add(2) by (auto simp: served_def G_def)
      with g h2 add(2,3) show ?thesis by (intro ext [of x m2]) auto
    qed
  qed
qed (simp add: stops_at_def)

end

section \<open>Both managers\<close>

interpretation ec: encoder_manager check_and_update_cache can_allocate enc_allocate False enc_inv num_free_slots "\<lambda>m h. cached m h = None"
proof (unfold_locales, goal_cases)
  case (1 sz feat m r i)
  let ?h = "item feat (er_id r) i"
  obtain s' where s': "check_and_update_cache r i m = Inr (cached m ?h \<noteq> None, s')" "enc_inv sz feat s'"
    "num_free_slots s' = num_free_slots m" "dom (cached s') = dom (cached m)" "cached m ?h = None \<longrightarrow> s' = m"
    using check_result [OF 1(2,1,3) refl] by blast
  have "cached s' h = None \<longleftrightarrow> cached m h = None" for h using s'(4) by (metis domIff)
  with s' show ?case by (intro exI [of _ "cached m ?h \<noteq> None"] exI [of _ s']) simp
next
  case (2 sz feat m r i budget scheduled)
  have nonneg: "0 \<le> sum_list (map snd (take k (freeable m)))" for k
    using enc_invD(3) [OF 2(2)] 2(1) by (intro sum_list_nonneg) (auto simp: items_ok_def dest: in_set_takeD)
  from can_allocate_result [OF 2(2,1,3) refl, of budget scheduled] show ?case
    using nonneg by (auto simp: evicted_def)
next
  case (3 sz feat m r i)
  from allocate_result [OF 3(2,1,3) refl 3(4,5)] show ?case by auto
qed simp

interpretation ed: encoder_manager ed_check_and_update_cache ed_can_allocate ed_allocate True "\<lambda>_ _ _. True" ed_num_free_slots "\<lambda>_ _. True"
  by unfold_locales (auto simp: ed_check_and_update_cache_def ed_can_allocate_def ed_allocate_def input_simps)


interpretation ech: caching_manager check_and_update_cache can_allocate enc_allocate enc_inv num_free_slots "\<lambda>m h. cached m h = None"
    "\<lambda>m rid h. rid \<in> refs_of h m"
proof (unfold_locales, goal_cases)
  case (1 sz feat m r i hit m' rid h)
  then show ?case using check_result [OF 1(2,1,3) refl] by (auto simp: subset_iff)
next
  case (2 sz feat m r i budget scheduled fits m' rid h)
  obtain k where k: "m' = evicted k m" using can_allocate_result [OF 2(2,1,3) refl, of budget scheduled] 2(4) by auto
  have "cached m g = Some {}" if "g \<in> fst ` set (take k (freeable m))" for g
    using that enc_invD(3) [OF 2(2)] by (auto dest!: in_set_takeD)
  then show ?case by (auto simp: k evicted_def refs_of_def split: option.splits)
next
  case (3 feat r i m m' rid h)
  then obtain n where m': "m' = (add_reference (er_id r) i (item feat (er_id r) i) m)\<lparr>num_free_slots := num_free_slots m - n,
      num_freeable_slots := num_freeable_slots m - n\<rparr>"
    by (auto simp: enc_allocate_def bindE_eq_Inr Let_def input_ok_def item_def py_get_nonneg)
  have "refs_of g m' = refs_of g (add_reference (er_id r) i (item feat (er_id r) i) m)" for g by (simp add: m' refs_of_def)
  then show ?case by simp
qed

section \<open>Properties of the cache\<close>

lemma freeable_sum:
  assumes "enc_inv sz feat s"
  shows "sum_list (map snd (freeable s)) = (\<Sum>h \<in> {h. cached s h = Some {}}. sz h)"
proof -
  note D = enc_invD [OF assms]
  have "map snd (freeable s) = map sz (map fst (freeable s))" using D(3) by (auto simp: map_eq_conv)
  then have "sum_list (map snd (freeable s)) = (\<Sum>h \<in> set (map fst (freeable s)). sz h)"
    using D(2) by (metis sum_list_distinct_conv_sum_set)
  also have "set (map fst (freeable s)) = {h. cached s h = Some {}}" using D(3) by (force simp: image_iff)
  finally show ?thesis .
qed

text \<open>
  C32. In every reachable state of the encoder cache the counters are exact: the free slots are the
  capacity less the sizes of all cached items, the reclaimable ones the capacity less the sizes
  of the items some request references, and neither goes negative or beyond the capacity.  A
  request references an item if and only if it holds an input with that item, and the list of
  evictable entries is exactly that of the unreferenced items.
\<close>

theorem encoder_cache_consistent:
  assumes "enc_reachable order feat n s" "items_ok sz feat" "iteration_order order" "0 \<le> n"
  shows "num_free_slots s = n - (\<Sum>h \<in> {h. cached s h \<noteq> None}. sz h)
    \<and> num_freeable_slots s = n - (\<Sum>h \<in> {h. refs_of h s \<noteq> {}}. sz h)
    \<and> 0 \<le> num_free_slots s \<and> num_free_slots s \<le> num_freeable_slots s \<and> num_freeable_slots s \<le> n
    \<and> (\<forall>h rid. rid \<in> refs_of h s \<longleftrightarrow> (\<exists>i \<in> ids_of rid s. ef_identifier (feat rid ! nat i) = h))
    \<and> distinct (map fst (freeable s)) \<and> set (map fst (freeable s)) = {h. cached s h = Some {}}"
proof -
  have inv: "enc_inv sz feat s" and size: "cache_size s = n" using enc_reachable_ok [OF assms] by blast+
  note D = enc_invD [OF inv]
  have dom: "{h. cached s h \<noteq> None} = dom (cached s)" by (simp add: dom_def)
  let ?R = "{h. refs_of h s \<noteq> {}}" and ?E = "{h. cached s h = Some {}}"
  have part: "dom (cached s) = ?R \<union> ?E" "?R \<inter> ?E = {}" by (auto simp: refs_of_def split: option.splits)
  have fin: "finite ?R" "finite ?E" using D(1) part(1) by (metis finite_Un)+
  have sum: "(\<Sum>h \<in> dom (cached s). sz h) = (\<Sum>h \<in> ?R. sz h) + (\<Sum>h \<in> ?E. sz h)"
    unfolding part(1) by (rule sum.union_disjoint [OF fin part(2)])
  have nonneg: "0 \<le> (\<Sum>h \<in> ?R. sz h)" "0 \<le> (\<Sum>h \<in> ?E. sz h)" using assms(2) by (simp_all add: items_ok_def sum_nonneg)
  have keys: "set (map fst (freeable s)) = ?E" using D(3) by (force simp: image_iff)
  have refs: "\<forall>h rid. rid \<in> refs_of h s \<longleftrightarrow> (\<exists>i \<in> ids_of rid s. ef_identifier (feat rid ! nat i) = h)"
    using D(7) by (simp add: item_def)
  have "num_freeable_slots s = n - (\<Sum>h \<in> ?R. sz h)" using D(4,5) freeable_sum [OF inv] sum size by simp
  with D(2,4,6) nonneg refs keys sum size show ?thesis unfolding dom by (intro conjI) (assumption | linarith)+
qed

text \<open>
  \<open>can_allocate\<close> does not raise and says yes exactly when the input fits the compute budget and
  the capacity not referenced by any request.  After a yes the free slots cover the input and all
  inputs scheduled before it.  It evicts a shortest sufficient prefix of the unreferenced items,
  oldest first, reports exactly those as freed, and never touches an item in use.
\<close>

theorem can_allocate_correct:
  assumes "enc_reachable order feat n s" "items_ok sz feat" "iteration_order order" "0 \<le> n"
    and "input_ok feat r i" "need = sz (ef_identifier (er_features r ! nat i))"
  shows "\<exists>k s'. can_allocate r i budget scheduled s = Inr (need \<le> budget \<and> need + scheduled \<le> num_freeable_slots s, s')
    \<and> (need \<le> budget \<and> need + scheduled \<le> num_freeable_slots s \<longrightarrow> need + scheduled \<le> num_free_slots s')
    \<and> freeable s' = drop k (freeable s) \<and> freed s' = freed s @ map fst (take k (freeable s))
    \<and> (\<forall>j < k. num_free_slots s + sum_list (map snd (take j (freeable s))) < need + scheduled)
    \<and> (\<forall>h. cached s' h = (if h \<in> fst ` set (take k (freeable s)) then None else cached s h))
    \<and> (\<forall>h. refs_of h s' = refs_of h s)"
proof -
  have inv: "enc_inv sz feat s" using enc_reachable_ok [OF assms(1-4)] by blast
  have need: "need = sz (item feat (er_id r) i)" using assms(5,6) by (simp add: item_def input_ok_def)
  obtain k where k: "can_allocate r i budget scheduled s = Inr (need \<le> budget \<and> need + scheduled \<le> num_freeable_slots s, evicted k s)"
    "need \<le> budget \<and> need + scheduled \<le> num_freeable_slots s \<longrightarrow> need + scheduled \<le> num_free_slots (evicted k s)"
    "\<forall>j < k. num_free_slots (evicted j s) < need + scheduled"
    using can_allocate_result [OF inv assms(2,5) need] by blast
  have "cached s h = Some {}" if "h \<in> fst ` set (take k (freeable s))" for h
    using that enc_invD(3) [OF inv] by (auto dest!: in_set_takeD)
  then have "refs_of h (evicted k s) = refs_of h s" for h by (auto simp: evicted_def refs_of_def)
  with k show ?thesis by (intro exI [of _ k] exI [of _ "evicted k s"]) (simp add: evicted_def)
qed

section \<open>Admission\<close>

lemma embeds_range_total:
  assumes "\<And>msk. ef_is_embed f = Some msk \<Longrightarrow> int (length msk) = ef_length f" "a \<le> ef_length f" "b \<le> ef_length f"
  shows "\<exists>x y. get_embeds_indices_in_range f a b = Inr (x, y)"
proof (cases "ef_is_embed f")
  case (Some msk)
  let ?cs = "cumsum 0 msk"
  have "\<exists>x. (if 0 < c then py_get ?cs (c - 1) else Inr 0) = Inr x" if "c \<le> ef_length f" for c
    using assms(1) [OF Some] that by (simp add: py_get_nonneg)
  with assms(2,3) obtain x y where "(if 0 < a then py_get ?cs (a - 1) else Inr 0) = Inr x"
    "(if 0 < b then py_get ?cs (b - 1) else Inr 0) = Inr y" by blast
  then show ?thesis using Some by (simp add: get_embeds_indices_in_range_def embeds_cumsum_def)
qed (simp add: get_embeds_indices_in_range_def embeds_cumsum_def)

definition features_ok :: "enc_feature list \<Rightarrow> bool" where
  "features_ok fs \<longleftrightarrow> key_sorted ef_offset fs \<and> key_sorted (\<lambda>f. ef_offset f + ef_length f) fs
     \<and> (\<forall>f \<in> set fs. 0 \<le> ef_length f \<and> (\<forall>msk. ef_is_embed f = Some msk \<longrightarrow> int (length msk) = ef_length f))"

lemma window_ranges:
  assumes ok: "features_ok (er_features r)" and r: "er_features r = feat (er_id r)"
    and w: "get_mm_features_in_window (er_features r) nc we = (lo, hi)" and i: "lo \<le> i" "i < hi"
  shows "range_ok feat False r nc we i \<and> ef_offset (feat (er_id r) ! nat i) < we"
proof -
  have "lo = int (bisect_left (\<lambda>f. ef_offset f + ef_length f) (er_features r) (nc + 1))"
    "hi = int (bisect_left ef_offset (er_features r) we)" using w by (auto simp: get_mm_features_in_window_def)
  then have rng: "0 \<le> i" "i < int (length (er_features r))"
    using i ok bisect_left_result(1) [of ef_offset "er_features r" we] by (auto simp: features_ok_def)
  let ?f = "er_features r ! nat i"
  have f: "?f \<in> set (er_features r)" using rng by (simp add: nat_less_iff)
  have ov: "nc < ef_offset ?f + ef_length ?f" "ef_offset ?f < we"
    using bisect_left_result(2) [of ef_offset "er_features r" "nat i" we]
      bisect_left_result(2) [of "\<lambda>f. ef_offset f + ef_length f" "er_features r" "nat i" "nc + 1"] w i rng ok
    by (auto simp: features_ok_def get_mm_features_in_window_def nat_less_iff)
  have "\<exists>x y. get_embeds_indices_in_range ?f (max 0 (nc - ef_offset ?f)) (min (ef_length ?f) (we - ef_offset ?f)) = Inr (x, y)"
    by (rule embeds_range_total) (use ok f ov in \<open>auto simp: features_ok_def\<close>)
  with rng r ov show ?thesis by (simp add: range_ok_def input_ok_def Let_def)
qed

lemma features_before:
  assumes "features_ok fs" "i < length fs" "k < length fs" "ef_offset (fs ! i) < ef_offset (fs ! k)"
  shows "i < k"
  using assms(1) [unfolded features_ok_def key_sorted_def] assms(2-4) by (metis linorder_not_less)

text \<open>The tokens that remain scheduled only need items that the admission loop served.\<close>

lemma stops_at_window:
  assumes ok: "features_ok (feat (er_id r))" and st: "stops_at feat r nc shift P nn n' (py_range lo hi)"
    and lo: "0 \<le> lo" and hi: "hi \<le> int (length (feat (er_id r)))"
    and i: "lo \<le> int i" "int i < hi" "0 < n'" "ef_offset (feat (er_id r) ! i) < nc + n' + shift"
  shows "P (int i)"
proof -
  obtain k where k: "\<forall>j \<in> set (take k (py_range lo hi)). P j"
    "k = length (py_range lo hi) \<and> n' = nn \<or> k < length (py_range lo hi) \<and> n' = max 0 (ef_offset (feat (er_id r) ! nat (py_range lo hi ! k)) - (nc + shift))"
    using st unfolding stops_at_def by blast
  have len: "length (py_range lo hi) = nat (hi - lo)" by (simp add: py_range_def)
  have nth: "py_range lo hi ! j = lo + int j" if "j < nat (hi - lo)" for j using that by (simp add: py_range_def nth_upto)
  have "nat (int i - lo) < k"
  proof (cases "k = length (py_range lo hi)")
    case True
    then show ?thesis using i len by simp
  next
    case False
    then have kk: "k < nat (hi - lo)" "n' = ef_offset (feat (er_id r) ! nat (lo + int k)) - (nc + shift)"
      using k(2) i(3) len nth [of k] by auto
    have "i < nat (lo + int k)"
      by (rule features_before [OF ok]) (use i hi lo kk in auto)
    then show ?thesis using i lo by linarith
  qed
  moreover have "py_range lo hi ! nat (int i - lo) = int i" using nth [of "nat (int i - lo)"] i by simp
  moreover have "nat (int i - lo) < length (py_range lo hi)" using i len by simp
  ultimately have "int i \<in> set (take k (py_range lo hi))"
    by (metis in_set_conv_nth length_take min_less_iff_conj nth_take)
  with k(1) show ?thesis by blast
qed

lemma admission_result:
  assumes inv: "enc_inv sz feat s" and it: "items_ok sz feat" and r: "er_features r = feat (er_id r)" and ok: "features_ok (er_features r)"
  shows "\<exists>v s1 s2. try_schedule_encoder_inputs check_and_update_cache can_allocate has_item False no_chunk r nc nn budget shift s = Inr (v, s1)
    \<and> allocate_scheduled enc_allocate r v s1 = Inr s2 \<and> enc_inv sz feat s2
    \<and> es_budget v + sum_list (map (sz \<circ> item feat (er_id r)) (es_inputs v)) = budget \<and> (0 \<le> budget \<longrightarrow> 0 \<le> es_budget v)
    \<and> (\<forall>i < length (er_features r). 0 < es_num_new_tokens v \<longrightarrow> nc < ef_offset (er_features r ! i) + ef_length (er_features r ! i) \<longrightarrow>
        ef_offset (er_features r ! i) < nc + es_num_new_tokens v + shift \<longrightarrow>
        served feat r nc (nc + nn + shift) {} (\<lambda>h. er_id r \<in> refs_of h s2) (int i))"
proof -
  let ?we = "nc + nn + shift" and ?fs = "er_features r"
  let ?call = "try_schedule_encoder_inputs check_and_update_cache can_allocate has_item False no_chunk r nc nn budget shift s"
  obtain lo hi where w: "get_mm_features_in_window ?fs nc ?we = (lo, hi)" by (cases "get_mm_features_in_window ?fs nc ?we")
  have rng: "range_ok feat False r nc ?we i" if "lo \<le> i" "i < hi" for i using window_ranges [where feat = feat, OF ok r w that] by blast
  obtain v s1 where t: "?call = Inr (v, s1)" "enc_inv sz feat s1" "admitted sz feat False num_free_slots (\<lambda>m h. cached m h = None) r budget v s1"
    using ec.try_schedule_admits [OF it inv enc_invD(6) [OF inv], of r nc nn shift has_item no_chunk budget] rng w by auto
  obtain s2 where s2: "allocate_scheduled enc_allocate r v s1 = Inr s2" "enc_inv sz feat s2"
    using ec.admitted_allocates [OF it t(2,3)] by blast
  have adm: "\<forall>i \<in> set (es_inputs v @ es_external v). input_ok feat r i"
    "item feat (er_id r) ` set (es_inputs v @ es_external v) = es_hashes v" using t(3) by (auto simp: admitted_def)
  have al: "foldE (enc_allocate r) (es_inputs v @ es_external v) s1 = Inr s2"
    using s2(1) by (simp add: allocate_scheduled_def foldE_append)
  note keep = ech.alloc_many_holds [OF adm(1) al]
  have "served feat r nc ?we {} (\<lambda>h. er_id r \<in> refs_of h s2) (int i)"
    if i: "i < length ?fs" "0 < es_num_new_tokens v" "nc < ef_offset (?fs ! i) + ef_length (?fs ! i)"
      "ef_offset (?fs ! i) < nc + es_num_new_tokens v + shift" for i
  proof -
    let ?v0 = "\<lparr>es_inputs = [], es_external = [], es_num_new_tokens = nn, es_budget = budget, es_hashes = {}, es_num_embeds = 0\<rparr>"
    have ne: "er_features r \<noteq> []" using i(1) by auto
    have nn: "nn \<noteq> 0" using t(1) i(2) by (cases "nn = 0") (auto simp: try_schedule_encoder_inputs_def)
    have run: "enc_sched_loop check_and_update_cache can_allocate has_item False no_chunk r nc shift ?we (py_range lo hi) ?v0 s = Inr (v, s1)"
      using t(1) nn ne w by (simp add: try_schedule_encoder_inputs_def Let_def)
    have st: "stops_at feat r nc shift (served feat r nc ?we (es_hashes v) (\<lambda>h. er_id r \<in> refs_of h s1)) nn (es_num_new_tokens v) (py_range lo hi)"
      using ech.loop_serves [OF it inv _ run] rng by simp
    have lohi: "0 \<le> lo" "hi \<le> int (length ?fs)"
      using w ok bisect_left_result(1) [of ef_offset ?fs ?we] by (auto simp: get_mm_features_in_window_def features_ok_def)
    have le: "nc + es_num_new_tokens v + shift \<le> ?we"
    proof -
      obtain k where "es_num_new_tokens v = nn \<or> k < length (py_range lo hi)
          \<and> es_num_new_tokens v = max 0 (ef_offset (feat (er_id r) ! nat (py_range lo hi ! k)) - (nc + shift))"
        using st unfolding stops_at_def by blast
      then show ?thesis
      proof
        assume k: "k < length (py_range lo hi) \<and> es_num_new_tokens v = max 0 (ef_offset (feat (er_id r) ! nat (py_range lo hi ! k)) - (nc + shift))"
        then have "py_range lo hi ! k \<in> set (py_range lo hi)" by (intro nth_mem) blast
        then have "lo \<le> py_range lo hi ! k" "py_range lo hi ! k < hi" unfolding set_py_range by simp_all
        then have "ef_offset (feat (er_id r) ! nat (py_range lo hi ! k)) < ?we" using window_ranges [where feat = feat, OF ok r w] by blast
        with k i(2) show ?thesis by linarith
      qed simp
    qed
    have "lo \<le> int i \<and> int i < hi"
      using bisect_left_result(2) [of ef_offset ?fs i ?we] bisect_left_result(2) [of "\<lambda>f. ef_offset f + ef_length f" ?fs i "nc + 1"] w i ok le
      by (auto simp: features_ok_def get_mm_features_in_window_def)
    with stops_at_window [OF ok [unfolded r] st lohi(1) lohi(2) [unfolded r]] i
    have "served feat r nc ?we (es_hashes v) (\<lambda>h. er_id r \<in> refs_of h s1) (int i)" by (auto simp: r)
    then show ?thesis
    proof (rule served_mono)
      show "\<forall>h \<in> es_hashes v. er_id r \<in> refs_of h s2" using keep unfolding adm(2) [symmetric] by blast
      show "\<forall>h. er_id r \<in> refs_of h s1 \<longrightarrow> er_id r \<in> refs_of h s2" using keep by blast
    qed
  qed
  with t(1,3) s2 show ?thesis by (auto simp: admitted_def)
qed

text \<open>
  C31. The admission of encoder inputs is sound and complete for the tokens it schedules.  In every
  reachable state, for features sorted by position, the admission loop does not raise, the
  allocation of all inputs it returned succeeds, and the inputs to be computed fit the compute
  budget.  Afterwards the request holds, in the cache, the item of every feature that overlaps the
  tokens still scheduled (including the look-ahead), unless that feature has no embedding in the
  window: a step never computes a token whose encoder output is missing.
\<close>

theorem encoder_admission_sound:
  assumes "enc_reachable order feat n s" "items_ok sz feat" "iteration_order order" "0 \<le> n"
    and "er_features r = feat (er_id r)" "features_ok (er_features r)" "0 \<le> budget"
  shows "\<exists>v s1 s2. try_schedule_encoder_inputs check_and_update_cache can_allocate has_item False no_chunk r nc nn budget shift s = Inr (v, s1)
    \<and> allocate_scheduled enc_allocate r v s1 = Inr s2
    \<and> sum_list (map (\<lambda>i. sz (item feat (er_id r) i)) (es_inputs v)) \<le> budget
    \<and> (\<forall>i < length (er_features r). 0 < es_num_new_tokens v \<longrightarrow> nc < ef_offset (er_features r ! i) + ef_length (er_features r ! i) \<longrightarrow>
        ef_offset (er_features r ! i) < nc + es_num_new_tokens v + shift \<longrightarrow>
        served feat r nc (nc + nn + shift) {} (\<lambda>h. er_id r \<in> refs_of h s2) (int i))"
proof -
  have "enc_inv sz feat s" using enc_reachable_ok [OF assms(1-4)] by blast
  from admission_result [OF this assms(2,5,6), of has_item no_chunk nc nn budget shift] assms(7) show ?thesis
    by (elim exE conjE) (intro exI conjI, assumption, assumption, simp add: comp_def, assumption)
qed

section \<open>Witnesses\<close>

definition sample_feat :: "string \<Rightarrow> enc_feature list" where
  "sample_feat rid = [sample_feature ''a'' 0 4, sample_feature ''b'' 6 4]"

definition sample_sz :: "string \<Rightarrow> int" where
  "sample_sz h = (if h = ''a'' \<or> h = ''b'' then 4 else 0)"

definition sample_enc_request :: enc_request where
  "sample_enc_request = \<lparr>er_id = ''r'', er_features = sample_feat ''r''\<rparr>"

lemma sample_items_ok: "items_ok sample_sz sample_feat"
  by (auto simp: items_ok_def sample_sz_def sample_feat_def sample_feature_def get_num_embeds_count)

lemma sample_order_ok: "iteration_order sorted_list_of_set"
  by (simp add: iteration_order_def)

text \<open>Request \<open>q\<close> has computed and given back the two items, so the cache is full of unreferenced entries.\<close>

definition sample_enc_state :: "enc_cache res" where
  "sample_enc_state =
     (let q = \<lparr>er_id = ''q'', er_features = sample_feat ''q''\<rparr> in
      bindE (enc_allocate q 0 (enc_init 10)) (\<lambda>s. bindE (enc_allocate q 1 s) (\<lambda>s.
      bindE (free_encoder_input q 0 s) (free_encoder_input q 1))))"

lemma sample_enc_reachable:
  assumes "sample_enc_state = Inr s"
  shows "enc_reachable sorted_list_of_set sample_feat 10 s"
proof -
  let ?q = "\<lparr>er_id = ''q'', er_features = sample_feat ''q''\<rparr>"
  have in0: "input_ok sample_feat ?q 0" "input_ok sample_feat ?q 1" by (simp_all add: input_ok_def sample_feat_def)
  obtain s1 s2 s3 where st: "enc_allocate ?q 0 (enc_init 10) = Inr s1" "enc_allocate ?q 1 s1 = Inr s2"
    "free_encoder_input ?q 0 s2 = Inr s3" "free_encoder_input ?q 1 s3 = Inr s"
    using assms by (auto simp: sample_enc_state_def bindE_eq_Inr Let_def)
  have items: "item sample_feat ''q'' 0 = ''a''" "item sample_feat ''q'' 1 = ''b''"
    by (simp_all add: item_def sample_feat_def sample_feature_def)
  have c1: "cached s1 = [''a'' \<mapsto> {''q''}]"
    using allocate_result [OF enc_init_inv [of 10] sample_items_ok in0(1) refl] st(1) by (simp add: items enc_init_def sample_sz_def)
  note r0 = enc_reachable.init [of sorted_list_of_set sample_feat 10]
  note r1 = enc_reachable.step [OF r0 enc_step.alloc [OF in0(1) _ st(1)]]
  note r2 = enc_reachable.step [OF r1 enc_step.alloc [OF in0(2) _ st(2)]]
  note r4 = enc_reachable.step [OF enc_reachable.step [OF r2 enc_step.free_input [OF in0(1) st(3)]] enc_step.free_input [OF in0(2) st(4)]]
  show ?thesis by (rule r4) (simp_all add: items c1 enc_init_def)
qed

lemma sample_enc_exists: "\<exists>s. sample_enc_state = Inr s \<and> num_free_slots s = 2 \<and> num_freeable_slots s = 10 \<and> freeable s = [(''a'', 4), (''b'', 4)]"
proof -
  have "case sample_enc_state of Inl _ \<Rightarrow> False
    | Inr s \<Rightarrow> num_free_slots s = 2 \<and> num_freeable_slots s = 10 \<and> freeable s = [(''a'', 4), (''b'', 4)]" by code_simp
  then show ?thesis by (auto split: sum.splits)
qed

theorem encoder_cache_consistent_witness:
  "\<exists>s. enc_reachable sorted_list_of_set sample_feat 10 s \<and> set (map fst (freeable s)) = {h. cached s h = Some {}} \<and> num_free_slots s = 2"
proof -
  obtain s where s: "sample_enc_state = Inr s" "num_free_slots s = 2" using sample_enc_exists by blast
  from encoder_cache_consistent [OF sample_enc_reachable [OF s(1)] sample_items_ok sample_order_ok]
  have "set (map fst (freeable s)) = {h. cached s h = Some {}}" by simp
  with s sample_enc_reachable [OF s(1)] show ?thesis by blast
qed

theorem encoder_admission_sound_witness:
  "\<exists>s v s1 s2. enc_reachable sorted_list_of_set sample_feat 10 s
     \<and> try_schedule_encoder_inputs check_and_update_cache can_allocate None False False sample_enc_request 0 8 8 0 s = Inr (v, s1)
     \<and> allocate_scheduled enc_allocate sample_enc_request v s1 = Inr s2
     \<and> served sample_feat sample_enc_request 0 8 {} (\<lambda>h. ''r'' \<in> refs_of h s2) 1"
proof -
  obtain s where s: "sample_enc_state = Inr s" using sample_enc_exists by blast
  have fs: "er_features sample_enc_request = sample_feat (er_id sample_enc_request)" "features_ok (er_features sample_enc_request)"
    by (auto simp: sample_enc_request_def features_ok_def sample_feat_def key_sorted_pair sample_feature_def)
  have new: "case sample_enc_state of Inl _ \<Rightarrow> False | Inr s \<Rightarrow>
      (case try_schedule_encoder_inputs check_and_update_cache can_allocate None False False sample_enc_request 0 8 8 0 s of
        Inl _ \<Rightarrow> False | Inr (v, s1) \<Rightarrow> es_num_new_tokens v = 8)" by code_simp
  obtain v s1 s2 where v: "try_schedule_encoder_inputs check_and_update_cache can_allocate None False False sample_enc_request 0 8 8 0 s = Inr (v, s1)"
    "allocate_scheduled enc_allocate sample_enc_request v s1 = Inr s2"
    "\<forall>i < length (er_features sample_enc_request). 0 < es_num_new_tokens v \<longrightarrow>
       0 < ef_offset (er_features sample_enc_request ! i) + ef_length (er_features sample_enc_request ! i) \<longrightarrow>
       ef_offset (er_features sample_enc_request ! i) < 0 + es_num_new_tokens v + 0 \<longrightarrow>
       served sample_feat sample_enc_request 0 (0 + 8 + 0) {} (\<lambda>h. er_id sample_enc_request \<in> refs_of h s2) (int i)"
    using encoder_admission_sound [OF sample_enc_reachable [OF s] sample_items_ok sample_order_ok _ fs, of 8 None False 0 8 0] by auto
  have "es_num_new_tokens v = 8" using new unfolding s sum.case v(1) prod.case .
  then have "served sample_feat sample_enc_request 0 8 {} (\<lambda>h. ''r'' \<in> refs_of h s2) 1"
    using v(3) [rule_format, of 1] by (simp add: sample_enc_request_def sample_feat_def sample_feature_def)
  with v(1,2) sample_enc_reachable [OF s] show ?thesis by blast
qed

end
