(* ===== verification/Encdec_Props.thy ===== *)
theory Encdec_Props
  imports Encoder_Props
begin

text \<open>
  The slot counter of \<^verbatim>\<open>EncoderDecoderCacheManager\<close> under the calls the scheduler makes for one request:
  the inputs are allocated once and \<open>_free_encoder_inputs\<close> runs after every step.
\<close>

definition total_embeds :: "enc_request \<Rightarrow> int" where
  "total_embeds r = sum_list (map get_num_embeds (er_features r))"

lemma ed_free_fold:
  assumes "\<forall>i \<in> set is. 0 \<le> i \<and> i < int (length (er_features r))"
  shows "foldE (\<lambda>i s. bindE (py_get (er_features r) i) (\<lambda>f. ed_free_encoder_input r i s)) is s
    = Inr (s\<lparr>ed_num_free_slots := ed_num_free_slots s + sum_list (map (\<lambda>i. get_num_embeds (er_features r ! nat i)) is)\<rparr>)"
  using assms
  by (induction "is" arbitrary: s)
    (simp_all add: ed_free_encoder_input_def get_num_encoder_embeds_def py_get_def py_assert_def algebra_simps)

lemma ed_alloc_fold:
  assumes "\<forall>i \<in> set is. 0 \<le> i \<and> i < int (length (er_features r))"
  shows "\<exists>s'. foldE (ed_allocate r) is s = Inr s'
    \<and> ed_num_free_slots s' = ed_num_free_slots s - sum_list (map (\<lambda>i. get_num_embeds (er_features r ! nat i)) is)"
  using assms
proof (induction "is" arbitrary: s)
  case (Cons i ks)
  let ?s = "s\<lparr>ed_num_free_slots := ed_num_free_slots s - get_num_embeds (er_features r ! nat i),
    allocated := allocated s @ [ef_identifier (er_features r ! nat i)]\<rparr>"
  have "ed_allocate r i s = Inr ?s"
    using Cons.prems by (simp add: ed_allocate_def get_num_encoder_embeds_def py_get_def py_assert_def)
  with Cons.IH [of ?s] Cons.prems show ?case by (auto simp: algebra_simps)
qed simp

lemma sum_over_inputs:
  fixes f :: "'a \<Rightarrow> int"
  assumes "set is = {0..<int (length xs)}" "distinct is"
  shows "sum_list (map (\<lambda>i. f (xs ! nat i)) is) = sum_list (map f xs)"
proof -
  have "sum_list (map (\<lambda>i. f (xs ! nat i)) is) = (\<Sum>i \<in> {0..<int (length xs)}. f (xs ! nat i))"
    using assms by (simp add: sum_list_distinct_conv_sum_set)
  also have "\<dots> = (\<Sum>i \<in> {0..<length xs}. f (xs ! i))"
    by (rule sum.reindex_bij_witness [of _ int nat]) auto
  also have "\<dots> = sum_list (map f xs)" by (simp add: sum_list_sum_nth)
  finally show ?thesis .
qed

lemma ed_step_result:
  assumes ord: "iteration_order order" and nc: "0 < nc"
  shows "free_encoder_inputs ed_get_cached_input_ids ed_free_encoder_input order True la nc np r s
    = Inr (s\<lparr>ed_num_free_slots := ed_num_free_slots s + total_embeds r\<rparr>)"
proof (cases "er_features r = []")
  case True
  then show ?thesis by (simp add: free_encoder_inputs_def ed_get_cached_input_ids_def total_embeds_def)
next
  case False
  let ?is = "order (ed_get_cached_input_ids r s)"
  have ids: "set ?is = {0..<int (length (er_features r))}" "distinct ?is"
    using ord by (auto simp: iteration_order_def ed_get_cached_input_ids_def)
  have "\<forall>i \<in> set ?is. 0 \<le> i \<and> i < int (length (er_features r))" by (simp add: ids)
  from ed_free_fold [OF this, of s]
  have "foldE (\<lambda>i s. bindE (py_get (er_features r) i) (\<lambda>f. ed_free_encoder_input r i s)) ?is s
    = Inr (s\<lparr>ed_num_free_slots := ed_num_free_slots s + total_embeds r\<rparr>)"
    unfolding sum_over_inputs [OF ids] total_embeds_def .
  with False nc show ?thesis by (simp add: free_encoder_inputs_def ed_get_cached_input_ids_def)
qed

lemma ed_steps_result:
  assumes "iteration_order order" "\<forall>nc \<in> set ncs. 0 < nc"
  shows "\<exists>s'. foldE (\<lambda>nc. free_encoder_inputs ed_get_cached_input_ids ed_free_encoder_input order True la nc np r) ncs s = Inr s'
    \<and> ed_num_free_slots s' = ed_num_free_slots s + int (length ncs) * total_embeds r"
  using assms(2)
proof (induction ncs arbitrary: s)
  case (Cons nc ncs)
  with ed_step_result [OF assms(1), of nc la np r s]
    Cons.IH [of "s\<lparr>ed_num_free_slots := ed_num_free_slots s + total_embeds r\<rparr>"] show ?case
    by (auto simp: algebra_simps)
qed simp

lemma ed_free_result:
  "\<exists>s'. ed_free r s = Inr s' \<and> ed_num_free_slots s' = ed_num_free_slots s + total_embeds r"
proof -
  let ?is = "py_range 0 (int (length (er_features r)))"
  have "foldE (ed_free_encoder_input r) is t = foldE (\<lambda>i s. bindE (py_get (er_features r) i) (\<lambda>f. ed_free_encoder_input r i s)) is t"
    if "set is \<subseteq> {0..<int (length (er_features r))}" for "is" t
    using that by (induction "is" arbitrary: t) (auto simp: py_get_nonneg intro!: bindE_cong)
  then show ?thesis
    using ed_free_fold [of ?is r s] sum_over_inputs [of ?is "er_features r" get_num_embeds]
    by (simp add: ed_free_def total_embeds_def) (simp add: py_range_def)
qed

text \<open>
  The encoder-decoder cache does not balance its slots.  A request whose inputs are allocated
  once, that runs \<open>k\<close> steps with computed tokens and is then freed leaves the counter of free slots
  \<open>k\<close> times the size of its inputs above where it was, without any exception: every step gives the
  same slots back again, and so does the final free.
\<close>

theorem encdec_slots_inflate:
  assumes "iteration_order order" "\<forall>nc \<in> set ncs. 0 < nc"
  shows "\<exists>s1 s2 s3. foldE (ed_allocate r) (py_range 0 (int (length (er_features r)))) s = Inr s1
    \<and> foldE (\<lambda>nc. free_encoder_inputs ed_get_cached_input_ids ed_free_encoder_input order True la nc np r) ncs s1 = Inr s2
    \<and> ed_free r s2 = Inr s3
    \<and> ed_num_free_slots s1 = ed_num_free_slots s - total_embeds r
    \<and> ed_num_free_slots s3 = ed_num_free_slots s + int (length ncs) * total_embeds r"
proof -
  let ?is = "py_range 0 (int (length (er_features r)))"
  have "sum_list (map (\<lambda>i. get_num_embeds (er_features r ! nat i)) ?is) = total_embeds r"
    unfolding total_embeds_def by (rule sum_over_inputs) (simp, simp add: py_range_def)
  then obtain s1 where s1: "foldE (ed_allocate r) ?is s = Inr s1" "ed_num_free_slots s1 = ed_num_free_slots s - total_embeds r"
    using ed_alloc_fold [of ?is r s] by auto
  obtain s2 where s2: "foldE (\<lambda>nc. free_encoder_inputs ed_get_cached_input_ids ed_free_encoder_input order True la nc np r) ncs s1 = Inr s2"
    "ed_num_free_slots s2 = ed_num_free_slots s1 + int (length ncs) * total_embeds r"
    using ed_steps_result [OF assms, of la np r s1] by blast
  obtain s3 where "ed_free r s2 = Inr s3" "ed_num_free_slots s3 = ed_num_free_slots s2 + total_embeds r"
    using ed_free_result by blast
  with s1 s2 show ?thesis by auto
qed

definition sample_audio :: enc_request where
  "sample_audio = \<lparr>er_id = ''r'', er_features = [\<lparr>ef_identifier = ''a'', ef_offset = 0, ef_length = 1500, ef_is_embed = None\<rparr>]\<rparr>"

end
