(* ===== verification/Sched_Utils.thy ===== *)
theory Sched_Utils
  imports Request_Status
begin

text \<open>
  \<^verbatim>\<open>vllm/v1/core/sched/utils.py\<close> and the function of the scheduler that appends sampled tokens to a
  request: detection of repeated patterns, the stop conditions, and the removal of requests from
  a list.
\<close>

section \<open>Repetition detection\<close>

text \<open>The inner loop of \<open>_has_repeating_pattern\<close> over the repetitions, and the outer one over the pattern.\<close>

fun repetition_loop :: "int list \<Rightarrow> int \<Rightarrow> int \<Rightarrow> int \<Rightarrow> int list \<Rightarrow> bool res" where
  "repetition_loop token_ids pattern_len n target_token [] = Inr True"
| "repetition_loop token_ids pattern_len n target_token (m # ms) =
     bindE (py_get token_ids (- (pattern_len * m + n))) (\<lambda>t.
       if t \<noteq> target_token then Inr False else repetition_loop token_ids pattern_len n target_token ms)"

fun pattern_loop :: "int list \<Rightarrow> int \<Rightarrow> int \<Rightarrow> int list \<Rightarrow> bool res" where
  "pattern_loop token_ids pattern_len repetition_min_count [] = Inr True"
| "pattern_loop token_ids pattern_len repetition_min_count (n # ns) =
     bindE (py_get token_ids (- n)) (\<lambda>target_token.
     bindE (repetition_loop token_ids pattern_len n target_token (py_range 1 repetition_min_count)) (\<lambda>ok.
       if ok then pattern_loop token_ids pattern_len repetition_min_count ns else Inr False))"

definition has_repeating_pattern :: "int list \<Rightarrow> int \<Rightarrow> int \<Rightarrow> bool res" where
  "has_repeating_pattern token_ids pattern_len repetition_min_count =
     pattern_loop token_ids pattern_len repetition_min_count (py_range 1 (pattern_len + 1))"

record repetition_params =
  max_pattern_size :: int
  min_pattern_size :: int
  min_count :: int

fun size_loop :: "int list \<Rightarrow> int \<Rightarrow> int list \<Rightarrow> bool res" where
  "size_loop token_ids reps [] = Inr False"
| "size_loop token_ids reps (pattern_len # ps) =
     (if int (length token_ids) < pattern_len * reps then Inr False
      else bindE (has_repeating_pattern token_ids pattern_len reps) (\<lambda>ok.
             if ok then Inr True else size_loop token_ids reps ps))"

definition check_sequence_repetition :: "int list \<Rightarrow> repetition_params \<Rightarrow> bool res" where
  "check_sequence_repetition token_ids params =
     (let smallest = (if min_pattern_size params \<le> 0 then 1 else min_pattern_size params)
      in if max_pattern_size params \<le> 0 \<or> min_count params < 2 \<or> max_pattern_size params < smallest then Inr False
         else size_loop token_ids (min_count params) (py_range smallest (max_pattern_size params + 1)))"

section \<open>Removal from a list\<close>

text \<open>The set of items is given by its elements; \<open>list.remove\<close> removes the first occurrence.\<close>

definition remove_all :: "'a list \<Rightarrow> 'a set \<Rightarrow> 'a list" where
  "remove_all lst items =
     (if items = {} then lst
      else if card items = 1 then remove1 (the_elem items) lst
      else filter (\<lambda>x. x \<notin> items) lst)"

section \<open>Stop conditions\<close>

record sampling_params =
  eos_token_id :: "int option"
  stop_token_ids :: "int list"
  min_tokens :: int
  repetition_detection :: "repetition_params option"

datatype stop_reason = Stop_Token int | Repetition_Detected

text \<open>What the stop check reads and writes of a request.\<close>

record out_request =
  or_all_token_ids :: "int list"
  output_token_ids :: "int list"
  max_tokens :: int
  or_sampling_params :: "sampling_params option"
  or_pooling_params :: bool
  or_status :: request_status
  or_stop_reason :: "stop_reason option"

definition or_num_tokens :: "out_request \<Rightarrow> int" where
  "or_num_tokens r = int (length (or_all_token_ids r))"

definition num_output_tokens :: "out_request \<Rightarrow> int" where
  "num_output_tokens r = int (length (output_token_ids r))"

definition check_stop :: "int \<Rightarrow> out_request \<Rightarrow> (bool \<times> out_request) res" where
  "check_stop max_len r =
     bindE (py_assert (\<not> or_pooling_params r)) (\<lambda>_.
     case or_sampling_params r of
       None \<Rightarrow> Inl AssertionError
     | Some sp \<Rightarrow>
       bindE (py_get (output_token_ids r) (- 1)) (\<lambda>last_token_id.
         if Some last_token_id = eos_token_id sp then Inr (True, r\<lparr>or_status := FINISHED_STOPPED\<rparr>)
         else if last_token_id \<in> set (stop_token_ids sp)
         then Inr (True, r\<lparr>or_status := FINISHED_STOPPED, or_stop_reason := Some (Stop_Token last_token_id)\<rparr>)
         else if max_len \<le> or_num_tokens r \<or> max_tokens r \<le> num_output_tokens r
         then Inr (True, r\<lparr>or_status := FINISHED_LENGTH_CAPPED\<rparr>)
         else if num_output_tokens r < min_tokens sp then Inr (False, r)
         else case repetition_detection sp of
                None \<Rightarrow> Inr (False, r)
              | Some params \<Rightarrow>
                  bindE (check_sequence_repetition (output_token_ids r) params) (\<lambda>repeated.
                    if repeated
                    then Inr (True, r\<lparr>or_status := FINISHED_REPETITION, or_stop_reason := Some Repetition_Detected\<rparr>)
                    else Inr (False, r))))"

text \<open>\<open>append_output_token_ids\<close> for one token; the block hashes that it extends are modelled with the hasher.\<close>

definition append_token :: "int \<Rightarrow> out_request \<Rightarrow> out_request" where
  "append_token t r = r\<lparr>or_all_token_ids := or_all_token_ids r @ [t], output_token_ids := output_token_ids r @ [t]\<rparr>"

text \<open>The loop of \<open>_update_request_with_output\<close>; it returns the tokens that are kept.\<close>

fun update_request_with_output :: "int \<Rightarrow> int list \<Rightarrow> out_request \<Rightarrow> ((int list \<times> bool) \<times> out_request) res" where
  "update_request_with_output max_len [] r = Inr (([], False), r)"
| "update_request_with_output max_len (t # ts) r =
     bindE (check_stop max_len (append_token t r)) (\<lambda>(stopped, r1).
       if stopped then Inr (([t], True), r1)
       else bindE (update_request_with_output max_len ts r1) (\<lambda>((kept, stopped'), r2). Inr ((t # kept, stopped'), r2)))"

section \<open>The detector is exact\<close>

text \<open>The tail of the tokens is the same pattern, \<open>c\<close> times in a row.\<close>

definition tail_repeats :: "int list \<Rightarrow> nat \<Rightarrow> nat \<Rightarrow> bool" where
  "tail_repeats ts p c \<longleftrightarrow> drop (length ts - p * c) ts = concat (replicate c (drop (length ts - p) ts))"

lemma nth_concat_replicate: "j < length xs * c \<Longrightarrow> concat (replicate c xs) ! j = xs ! (j mod length xs)"
proof (induction c arbitrary: j)
  case (Suc c)
  show ?case
  proof (cases "j < length xs")
    case False
    then have "concat (replicate (Suc c) xs) ! j = concat (replicate c xs) ! (j - length xs)" by (simp add: nth_append)
    also have "\<dots> = xs ! ((j - length xs) mod length xs)" by (rule Suc.IH) (use Suc.prems False in auto)
    finally show ?thesis using False by (simp add: le_mod_geq)
  qed (simp add: nth_append)
qed simp

lemma tail_repeats_iff:
  assumes "0 < p" "p * c \<le> length ts" "0 < c"
  shows "tail_repeats ts p c \<longleftrightarrow> (\<forall>n \<in> {1..p}. \<forall>m \<in> {1..<c}. ts ! (length ts - (p * m + n)) = ts ! (length ts - n))"
proof -
  let ?L = "length ts"
  have pL: "p \<le> ?L" using assms(2,3) by (metis One_nat_def Suc_leI mult_le_mono2 mult.right_neutral order.trans)
  have len: "length (drop (?L - p) ts) = p" using pL by simp
  have "tail_repeats ts p c \<longleftrightarrow> (\<forall>j < p * c. ts ! (?L - p * c + j) = ts ! (?L - p + j mod p))"
    unfolding tail_repeats_def list_eq_iff_nth_eq
    using assms(2) pL len nth_concat_replicate [of _ "drop (?L - p) ts" c] by (simp add: length_concat sum_list_replicate)
  also have "\<dots> \<longleftrightarrow> (\<forall>n \<in> {1..p}. \<forall>m \<in> {1..<c}. ts ! (?L - (p * m + n)) = ts ! (?L - n))"
  proof (intro iffI ballI allI impI)
    fix n m assume all: "\<forall>j < p * c. ts ! (?L - p * c + j) = ts ! (?L - p + j mod p)" and n: "n \<in> {1..p}" and m: "m \<in> {1..<c}"
    let ?j = "p * (c - m - 1) + (p - n)"
    obtain d where "c = Suc (m + d)" using m less_imp_Suc_add by auto
    then have c: "p * c = p * m + p * (c - m - 1) + p" by (simp add: algebra_simps)
    have "p - n < p" using n by auto
    then have "?j < p * c" "?j mod p = p - n" using c by (linarith, metis mod_less mod_mult_self4)
    moreover have "?L - p * c + ?j = ?L - (p * m + n)" "?L - p + (p - n) = ?L - n" using n c assms(2) pL by auto
    ultimately show "ts ! (?L - (p * m + n)) = ts ! (?L - n)" using all by metis
  next
    fix j assume all: "\<forall>n \<in> {1..p}. \<forall>m \<in> {1..<c}. ts ! (?L - (p * m + n)) = ts ! (?L - n)" and j: "j < p * c"
    define q where "q = j div p"
    have jq: "j = p * q + j mod p" "j mod p < p" "q < c" using assms(1) j by (auto simp: q_def less_mult_imp_div_less mult.commute)
    let ?n = "p - j mod p" and ?m = "c - 1 - q"
    obtain d where "c = Suc (q + d)" using jq(3) less_imp_Suc_add by auto
    then have c: "p * c = p * ?m + p * q + p" by (simp add: algebra_simps)
    have idx: "?L - p * c + j = ?L - (p * ?m + ?n)" "?L - p + j mod p = ?L - ?n" using jq(1,2) c assms(2) pL by linarith+
    have nm: "?n \<in> {1..p}" "?m \<noteq> 0 \<Longrightarrow> ?m \<in> {1..<c}" using jq(2,3) by auto
    have "ts ! (?L - (p * ?m + ?n)) = ts ! (?L - ?n)"
      by (cases "?m = 0") (simp, rule all [rule_format, OF nm])
    then show "ts ! (?L - p * c + j) = ts ! (?L - p + j mod p)" unfolding idx .
  qed
  finally show ?thesis .
qed

lemma py_get_tail: "1 \<le> k \<Longrightarrow> k \<le> int (length xs) \<Longrightarrow> py_get xs (- k) = Inr (xs ! (length xs - nat k))"
  by (subst py_get_neg) (auto simp: nat_diff_distrib)

lemma repetition_loop_result:
  "\<forall>m \<in> set ms. 1 \<le> p * m + n \<and> p * m + n \<le> int (length ts) \<Longrightarrow>
   repetition_loop ts p n t ms = Inr (\<forall>m \<in> set ms. ts ! (length ts - nat (p * m + n)) = t)"
proof (induction ms)
  case (Cons m ms)
  have "py_get ts (- (p * m + n)) = Inr (ts ! (length ts - nat (p * m + n)))" by (rule py_get_tail) (use Cons.prems in auto)
  with Cons show ?case by (simp only: repetition_loop.simps) auto
qed simp

lemma pattern_loop_result:
  assumes "0 < p" "0 < c" "p * c \<le> int (length ts)"
  shows "\<forall>n \<in> set ns. 1 \<le> n \<and> n \<le> p \<Longrightarrow>
    pattern_loop ts p c ns = Inr (\<forall>n \<in> set ns. \<forall>m \<in> {1..<c}. ts ! (length ts - nat (p * m + n)) = ts ! (length ts - nat n))"
proof (induction ns)
  case (Cons n ns)
  have n: "1 \<le> n" "n \<le> p" using Cons.prems by auto
  have "p * 1 \<le> p * c" using assms(1,2) by (intro mult_left_mono) auto
  then have "n \<le> int (length ts)" using n assms(3) by linarith
  then have g: "py_get ts (- n) = Inr (ts ! (length ts - nat n))" using n by (simp add: py_get_tail)
  have "1 \<le> p * m + n \<and> p * m + n \<le> int (length ts)" if "m \<in> {1..<c}" for m
  proof -
    have "p * m + p \<le> p * c" "0 \<le> p * m" using that assms(1) mult_left_mono [of "m + 1" c p] by (auto simp: algebra_simps)
    then show ?thesis using n assms(3) by linarith
  qed
  then have "repetition_loop ts p n (ts ! (length ts - nat n)) (py_range 1 c)
    = Inr (\<forall>m \<in> {1..<c}. ts ! (length ts - nat (p * m + n)) = ts ! (length ts - nat n))"
    by (subst repetition_loop_result) auto
  with g Cons show ?case by auto
qed simp

lemma has_repeating_pattern_result:
  assumes "0 < p" "0 < c" "p * c \<le> int (length ts)"
  shows "has_repeating_pattern ts p c = Inr (tail_repeats ts (nat p) (nat c))"
proof -
  have le: "nat p * nat c \<le> length ts" using assms by (simp flip: nat_mult_distrib)
  have ball: "(\<forall>x \<in> {1..<b}. P x) \<longleftrightarrow> (\<forall>k \<in> {1..<nat b}. P (int k))" for b :: int and P
  proof
    assume *: "\<forall>k \<in> {1..<nat b}. P (int k)"
    have "P x" if "x \<in> {1..<b}" for x using * [rule_format, of "nat x"] that by auto
    then show "\<forall>x \<in> {1..<b}. P x" by blast
  qed auto
  have idx: "nat (p * int m + int n) = nat p * m + n" for m n using assms(1) by (simp add: nat_add_distrib nat_mult_distrib)
  have "{1..<p + 1} = {1..<p + 1}" "{1..<nat (p + 1)} = {1..nat p}" using assms(1) by auto
  then show ?thesis
    unfolding has_repeating_pattern_def
    by (subst pattern_loop_result [OF assms])
      (auto simp: tail_repeats_iff [OF _ le] ball [of c] ball [of "p + 1"] idx assms)
qed

lemma size_loop_result:
  assumes "0 < c"
  shows "\<lbrakk>0 < a; b - a = int k\<rbrakk> \<Longrightarrow>
    size_loop ts c (py_range a b)
      = Inr (\<exists>p. a \<le> p \<and> p < b \<and> p * c \<le> int (length ts) \<and> tail_repeats ts (nat p) (nat c))"
proof (induction k arbitrary: a)
  case (Suc k)
  have ab: "py_range a b = a # py_range (a + 1) b" using Suc.prems by (intro py_range_Cons) simp
  let ?P = "\<lambda>p. p * c \<le> int (length ts) \<and> tail_repeats ts (nat p) (nat c)"
  have "size_loop ts c (py_range (a + 1) b) = Inr (\<exists>p. a + 1 \<le> p \<and> p < b \<and> ?P p)" by (rule Suc.IH) (use Suc.prems in auto)
  moreover have "(\<exists>p. a \<le> p \<and> p < b \<and> ?P p) \<longleftrightarrow> ?P a \<or> (\<exists>p. a + 1 \<le> p \<and> p < b \<and> ?P p)"
    using Suc.prems by (metis add1_zle_eq dual_order.order_iff_strict of_nat_0_less_iff zero_less_Suc diff_gt_0_iff_gt)
  moreover have "\<not> p * c \<le> int (length ts)" if "int (length ts) < a * c" "a + 1 \<le> p" for p
  proof -
    have "a * c \<le> p * c" using that(2) assms by (intro mult_right_mono) auto
    with that(1) show ?thesis by linarith
  qed
  ultimately show ?case
    unfolding ab using has_repeating_pattern_result [OF Suc.prems(1) assms, of ts]
    by (cases "int (length ts) < a * c") (auto simp: not_less)
qed simp

lemma check_sequence_repetition_result:
  "check_sequence_repetition ts params =
     Inr (2 \<le> min_count params \<and> (\<exists>p. 1 \<le> p \<and> min_pattern_size params \<le> p \<and> p \<le> max_pattern_size params
        \<and> p * min_count params \<le> int (length ts) \<and> tail_repeats ts (nat p) (nat (min_count params))))"
proof -
  let ?a = "if min_pattern_size params \<le> 0 then 1 else min_pattern_size params" and ?c = "min_count params"
  let ?P = "\<lambda>p. p * ?c \<le> int (length ts) \<and> tail_repeats ts (nat p) (nat ?c)"
  have "?a \<le> p \<and> p < max_pattern_size params + 1 \<longleftrightarrow> 1 \<le> p \<and> min_pattern_size params \<le> p \<and> p \<le> max_pattern_size params" for p by auto
  then have iff: "(\<exists>p. ?a \<le> p \<and> p < max_pattern_size params + 1 \<and> ?P p)
    \<longleftrightarrow> (\<exists>p. 1 \<le> p \<and> min_pattern_size params \<le> p \<and> p \<le> max_pattern_size params \<and> ?P p)" by blast
  show ?thesis
  proof (cases "max_pattern_size params \<le> 0 \<or> ?c < 2 \<or> max_pattern_size params < ?a")
    case True
    then show ?thesis unfolding iff [symmetric] by (auto simp: check_sequence_repetition_def Let_def)
  next
    case False
    have "size_loop ts ?c (py_range ?a (max_pattern_size params + 1))
      = Inr (\<exists>p. ?a \<le> p \<and> p < max_pattern_size params + 1 \<and> ?P p)"
      by (rule size_loop_result [where k = "nat (max_pattern_size params + 1 - ?a)"]) (use False in auto)
    with False show ?thesis unfolding iff [symmetric] by (simp add: check_sequence_repetition_def Let_def)
  qed
qed

text \<open>
  C34. Repetition detection is exact: it never raises, and answers yes if and only if the count is at
  least two and, for some pattern length between the configured bounds, the output ends with the
  same pattern repeated the configured number of times.
\<close>

theorem repetition_exact:
  "check_sequence_repetition ts params =
     Inr (2 \<le> min_count params \<and> (\<exists>p. 1 \<le> p \<and> min_pattern_size params \<le> p \<and> p \<le> max_pattern_size params
        \<and> p * min_count params \<le> int (length ts) \<and> tail_repeats ts (nat p) (nat (min_count params))))"
  by (rule check_sequence_repetition_result)

section \<open>Appending sampled tokens\<close>

text \<open>A request that generates text and may go on.\<close>

definition can_generate :: "int \<Rightarrow> out_request \<Rightarrow> bool" where
  "can_generate max_len r \<longleftrightarrow> \<not> or_pooling_params r \<and> or_sampling_params r \<noteq> None
     \<and> or_num_tokens r < max_len \<and> num_output_tokens r < max_tokens r"

text \<open>
  The conditions for a stop, on all tokens and on the output of a request: the last token is the end
  of the text or a stop token, a limit is reached, or the output is long enough and repeats itself.
\<close>

definition stop_token :: "sampling_params \<Rightarrow> int list \<Rightarrow> bool" where
  "stop_token sp out \<longleftrightarrow> eos_token_id sp = Some (last out) \<or> last out \<in> set (stop_token_ids sp)"

definition limit_reached :: "int \<Rightarrow> int \<Rightarrow> int list \<Rightarrow> int list \<Rightarrow> bool" where
  "limit_reached max_len max_toks toks out \<longleftrightarrow> max_len \<le> int (length toks) \<or> max_toks \<le> int (length out)"

definition repeats_itself :: "sampling_params \<Rightarrow> int list \<Rightarrow> bool" where
  "repeats_itself sp out \<longleftrightarrow> min_tokens sp \<le> int (length out)
     \<and> (\<exists>params. repetition_detection sp = Some params \<and> 2 \<le> min_count params
        \<and> (\<exists>p. 1 \<le> p \<and> min_pattern_size params \<le> p \<and> p \<le> max_pattern_size params
          \<and> p * min_count params \<le> int (length out) \<and> tail_repeats out (nat p) (nat (min_count params))))"

definition must_stop :: "int \<Rightarrow> int \<Rightarrow> sampling_params \<Rightarrow> int list \<Rightarrow> int list \<Rightarrow> bool" where
  "must_stop max_len max_toks sp toks out \<longleftrightarrow> stop_token sp out \<or> limit_reached max_len max_toks toks out \<or> repeats_itself sp out"

definition stop_status :: "int \<Rightarrow> int \<Rightarrow> sampling_params \<Rightarrow> int list \<Rightarrow> int list \<Rightarrow> request_status" where
  "stop_status max_len max_toks sp toks out =
     (if stop_token sp out then FINISHED_STOPPED else if limit_reached max_len max_toks toks out then FINISHED_LENGTH_CAPPED else FINISHED_REPETITION)"

lemma stop_status_finished: "is_finished (stop_status max_len max_toks sp toks out)"
  by (simp add: stop_status_def is_finished_def less_request_status_def)

lemma check_stop_result:
  fixes max_len :: int
  assumes "\<not> or_pooling_params r" "or_sampling_params r = Some sp" "output_token_ids r \<noteq> []"
  defines "stop \<equiv> must_stop max_len (max_tokens r) sp (or_all_token_ids r) (output_token_ids r)"
    and "st \<equiv> stop_status max_len (max_tokens r) sp (or_all_token_ids r) (output_token_ids r)"
  shows "\<exists>reason. check_stop max_len r = Inr (stop, if stop then r\<lparr>or_status := st, or_stop_reason := reason\<rparr> else r)"
proof -
  let ?out = "output_token_ids r"
  have last: "py_get ?out (- 1) = Inr (last ?out)" using assms(3) by (rule py_get_last)
  have lim: "max_len \<le> or_num_tokens r \<or> max_tokens r \<le> num_output_tokens r \<longleftrightarrow> limit_reached max_len (max_tokens r) (or_all_token_ids r) ?out"
    by (simp add: limit_reached_def or_num_tokens_def num_output_tokens_def)
  define rep where "rep = (case repetition_detection sp of None \<Rightarrow> Inr False | Some params \<Rightarrow> check_sequence_repetition ?out params)"
  obtain b where b: "rep = Inr b" unfolding rep_def by (cases "repetition_detection sp") (auto simp: check_sequence_repetition_result)
  have repeat: "repeats_itself sp ?out \<longleftrightarrow> \<not> num_output_tokens r < min_tokens sp \<and> b"
    using b by (auto simp: repeats_itself_def rep_def check_sequence_repetition_result num_output_tokens_def split: option.splits)
  have run: "check_stop max_len r =
    (if Some (last ?out) = eos_token_id sp then Inr (True, r\<lparr>or_status := FINISHED_STOPPED\<rparr>)
     else if last ?out \<in> set (stop_token_ids sp)
     then Inr (True, r\<lparr>or_status := FINISHED_STOPPED, or_stop_reason := Some (Stop_Token (last ?out))\<rparr>)
     else if limit_reached max_len (max_tokens r) (or_all_token_ids r) ?out then Inr (True, r\<lparr>or_status := FINISHED_LENGTH_CAPPED\<rparr>)
     else if num_output_tokens r < min_tokens sp then Inr (False, r)
     else if b then Inr (True, r\<lparr>or_status := FINISHED_REPETITION, or_stop_reason := Some Repetition_Detected\<rparr>) else Inr (False, r))"
    using assms(1) b unfolding lim [symmetric] by (simp add: check_stop_def assms(2) last rep_def split: option.splits)
  have same: "r\<lparr>or_status := x, or_stop_reason := or_stop_reason r\<rparr> = r\<lparr>or_status := x\<rparr>" for x by simp
  have tok: "stop_token sp ?out \<longleftrightarrow> Some (last ?out) = eos_token_id sp \<or> last ?out \<in> set (stop_token_ids sp)"
    by (auto simp: stop_token_def)
  let ?reason = "if Some (last ?out) = eos_token_id sp then or_stop_reason r else if last ?out \<in> set (stop_token_ids sp) then Some (Stop_Token (last ?out))
    else if limit_reached max_len (max_tokens r) (or_all_token_ids r) ?out then or_stop_reason r else Some Repetition_Detected"
  have "check_stop max_len r = Inr (stop, if stop then r\<lparr>or_status := st, or_stop_reason := ?reason\<rparr> else r)"
    unfolding run stop_def st_def must_stop_def stop_status_def repeat tok by (simp add: same)
  then show ?thesis by blast
qed

lemma append_token_simps [simp]:
  "or_all_token_ids (append_token t r) = or_all_token_ids r @ [t]" "output_token_ids (append_token t r) = output_token_ids r @ [t]"
  "max_tokens (append_token t r) = max_tokens r" "or_pooling_params (append_token t r) = or_pooling_params r"
  "or_sampling_params (append_token t r) = or_sampling_params r"
  "or_num_tokens (append_token t r) = or_num_tokens r + 1" "num_output_tokens (append_token t r) = num_output_tokens r + 1"
  by (simp_all add: append_token_def or_num_tokens_def num_output_tokens_def)

text \<open>The tokens that are kept: the shortest prefix after which the request has to stop.\<close>

lemma update_request_result:
  assumes "can_generate max_len r" "or_sampling_params r = Some sp"
  shows "\<exists>n stopped r'. update_request_with_output max_len ts r = Inr ((take n ts, stopped), r') \<and> n \<le> length ts
     \<and> or_all_token_ids r' = or_all_token_ids r @ take n ts \<and> output_token_ids r' = output_token_ids r @ take n ts
     \<and> or_num_tokens r' \<le> max_len \<and> num_output_tokens r' \<le> max_tokens r
     \<and> (\<forall>k. 0 < k \<and> k \<le> n \<longrightarrow> (must_stop max_len (max_tokens r) sp (or_all_token_ids r @ take k ts) (output_token_ids r @ take k ts) \<longleftrightarrow> stopped \<and> k = n))
     \<and> (if stopped then 0 < n \<and> or_status r' = stop_status max_len (max_tokens r) sp (or_all_token_ids r @ take n ts) (output_token_ids r @ take n ts)
        else n = length ts \<and> or_status r' = or_status r \<and> can_generate max_len r')"
  using assms
proof (induction ts arbitrary: r)
  case Nil
  then show ?case by (auto simp: can_generate_def)
next
  case (Cons t ts)
  let ?r = "append_token t r"
  let ?stop = "must_stop max_len (max_tokens r) sp (or_all_token_ids r @ [t]) (output_token_ids r @ [t])"
  obtain reason where c: "check_stop max_len ?r = Inr (?stop, if ?stop
      then ?r\<lparr>or_status := stop_status max_len (max_tokens r) sp (or_all_token_ids r @ [t]) (output_token_ids r @ [t]), or_stop_reason := reason\<rparr> else ?r)"
    using check_stop_result [of ?r sp max_len, unfolded append_token_simps] Cons.prems by (auto simp only: can_generate_def snoc_eq_iff_butlast simp_thms)
  show ?case
  proof (cases ?stop)
    case True
    let ?r1 = "?r\<lparr>or_status := stop_status max_len (max_tokens r) sp (or_all_token_ids r @ [t]) (output_token_ids r @ [t]), or_stop_reason := reason\<rparr>"
    have "or_num_tokens ?r1 = or_num_tokens r + 1" "num_output_tokens ?r1 = num_output_tokens r + 1"
      by (simp_all add: or_num_tokens_def num_output_tokens_def)
    moreover have "take k (t # ts) = [t]" if "0 < k" "k \<le> Suc 0" for k using that by (simp add: le_Suc_eq)
    ultimately show ?thesis using c True Cons.prems
      by (intro exI [of _ 1] exI [of _ True] exI [of _ ?r1]) (auto simp: can_generate_def)
  next
    case False
    then have lim: "\<not> limit_reached max_len (max_tokens r) (or_all_token_ids r @ [t]) (output_token_ids r @ [t])" by (simp add: must_stop_def)
    have gen: "can_generate max_len ?r" using lim Cons.prems
      by (simp add: can_generate_def limit_reached_def or_num_tokens_def num_output_tokens_def)
    from Cons.IH [OF gen] Cons.prems(2) obtain n st r' where u: "update_request_with_output max_len ts ?r = Inr ((take n ts, st), r')" "n \<le> length ts"
      "or_all_token_ids r' = or_all_token_ids r @ t # take n ts" "output_token_ids r' = output_token_ids r @ t # take n ts"
      "or_num_tokens r' \<le> max_len" "num_output_tokens r' \<le> max_tokens r"
      "\<forall>k. 0 < k \<and> k \<le> n \<longrightarrow> (must_stop max_len (max_tokens r) sp (or_all_token_ids r @ t # take k ts) (output_token_ids r @ t # take k ts) \<longleftrightarrow> st \<and> k = n)"
      "if st then 0 < n \<and> or_status r' = stop_status max_len (max_tokens r) sp (or_all_token_ids r @ t # take n ts) (output_token_ids r @ t # take n ts)
        else n = length ts \<and> or_status r' = or_status r \<and> can_generate max_len r'"
      by (auto simp: append_token_def)
    have "must_stop max_len (max_tokens r) sp (or_all_token_ids r @ take k (t # ts)) (output_token_ids r @ take k (t # ts)) \<longleftrightarrow> st \<and> k = Suc n"
      if k: "0 < k" "k \<le> Suc n" for k
    proof (cases k)
      case (Suc j)
      show ?thesis
      proof (cases j)
        case 0
        then show ?thesis using False u(8) Suc by (auto split: if_splits)
      next
        case (Suc i)
        then show ?thesis using u(7) [rule_format, of j] k \<open>k = Suc j\<close> by simp
      qed
    qed (use k in simp)
    moreover have "update_request_with_output max_len (t # ts) r = Inr ((take (Suc n) (t # ts), st), r')" using c False u(1) by simp
    ultimately show ?thesis using u by (intro exI [of _ "Suc n"] exI [of _ st] exI [of _ r']) (auto split: if_splits)
  qed
qed

text \<open>
  C33. Appending sampled tokens to a generating request never raises.  It keeps the shortest prefix of
  the new tokens after which the request has to stop (last token an end or a stop token,
  \<open>max_model_len\<close> or \<open>max_tokens\<close> reached, or a repetition in an output of at least \<open>min_tokens\<close>), and
  all of them if there is none; so neither limit is exceeded.  It reports a stop exactly in the
  first case, and exactly then the status is a finished one, the one of the first condition that
  holds; otherwise the status is unchanged and the request may go on.
\<close>

theorem output_bounded:
  assumes "can_generate max_len r" "or_sampling_params r = Some sp" "\<not> is_finished (or_status r)"
  shows "\<exists>n stopped r'. update_request_with_output max_len ts r = Inr ((take n ts, stopped), r') \<and> n \<le> length ts
     \<and> or_all_token_ids r' = or_all_token_ids r @ take n ts \<and> output_token_ids r' = output_token_ids r @ take n ts
     \<and> or_num_tokens r' \<le> max_len \<and> num_output_tokens r' \<le> max_tokens r
     \<and> (\<forall>k. 0 < k \<and> k < n \<longrightarrow> \<not> must_stop max_len (max_tokens r) sp (or_all_token_ids r @ take k ts) (output_token_ids r @ take k ts))
     \<and> (stopped \<longleftrightarrow> 0 < n \<and> must_stop max_len (max_tokens r) sp (or_all_token_ids r @ take n ts) (output_token_ids r @ take n ts))
     \<and> (stopped \<longleftrightarrow> is_finished (or_status r'))
     \<and> (if stopped
        then or_status r' = stop_status max_len (max_tokens r) sp (or_all_token_ids r @ take n ts) (output_token_ids r @ take n ts)
          \<and> get_finished_reason (or_status r') \<noteq> None
        else n = length ts \<and> or_status r' = or_status r \<and> can_generate max_len r')"
proof -
  obtain n stopped r' where u: "update_request_with_output max_len ts r = Inr ((take n ts, stopped), r')" "n \<le> length ts"
     "or_all_token_ids r' = or_all_token_ids r @ take n ts" "output_token_ids r' = output_token_ids r @ take n ts"
     "or_num_tokens r' \<le> max_len" "num_output_tokens r' \<le> max_tokens r"
     "\<forall>k. 0 < k \<and> k \<le> n \<longrightarrow> (must_stop max_len (max_tokens r) sp (or_all_token_ids r @ take k ts) (output_token_ids r @ take k ts) \<longleftrightarrow> stopped \<and> k = n)"
     "if stopped then 0 < n \<and> or_status r' = stop_status max_len (max_tokens r) sp (or_all_token_ids r @ take n ts) (output_token_ids r @ take n ts)
        else n = length ts \<and> or_status r' = or_status r \<and> can_generate max_len r'"
    using update_request_result [OF assms(1,2), of ts] by blast
  have fin: "stopped \<longleftrightarrow> is_finished (or_status r')" using u(8) assms(3) stop_status_finished by (auto split: if_splits)
  have "stopped \<longleftrightarrow> 0 < n \<and> must_stop max_len (max_tokens r) sp (or_all_token_ids r @ take n ts) (output_token_ids r @ take n ts)"
    using u(7) [rule_format, of n] u(8) by (auto split: if_splits)
  moreover have "\<forall>k. 0 < k \<and> k < n \<longrightarrow> \<not> must_stop max_len (max_tokens r) sp (or_all_token_ids r @ take k ts) (output_token_ids r @ take k ts)"
    using u(7) by auto
  moreover have "stopped \<Longrightarrow> get_finished_reason (or_status r') \<noteq> None" using fin finished_reason_defined by blast
  moreover have "if stopped
        then or_status r' = stop_status max_len (max_tokens r) sp (or_all_token_ids r @ take n ts) (output_token_ids r @ take n ts)
          \<and> get_finished_reason (or_status r') \<noteq> None
        else n = length ts \<and> or_status r' = or_status r \<and> can_generate max_len r'"
    using u(8) \<open>stopped \<Longrightarrow> get_finished_reason (or_status r') \<noteq> None\<close> by (cases stopped) simp_all
  ultimately show ?thesis using u(1-6) fin by blast
qed

definition sample_out_request :: out_request where
  "sample_out_request = \<lparr>or_all_token_ids = [5, 6], output_token_ids = [], max_tokens = 3,
     or_sampling_params = Some \<lparr>eos_token_id = Some 0, stop_token_ids = [], min_tokens = 0, repetition_detection = None\<rparr>,
     or_pooling_params = False, or_status = RUNNING, or_stop_reason = None\<rparr>"

theorem output_bounded_witness:
  "\<exists>n stopped r'. update_request_with_output 100 [7, 8, 0, 10] sample_out_request = Inr ((take n [7, 8, 0, 10], stopped), r')
     \<and> num_output_tokens r' \<le> 3 \<and> (stopped \<longleftrightarrow> is_finished (or_status r'))"
proof -
  let ?sp = "\<lparr>eos_token_id = Some 0, stop_token_ids = [], min_tokens = 0, repetition_detection = None\<rparr>"
  have "can_generate 100 sample_out_request" "or_sampling_params sample_out_request = Some ?sp" "\<not> is_finished (or_status sample_out_request)"
    by (simp_all add: can_generate_def sample_out_request_def or_num_tokens_def num_output_tokens_def is_finished_def less_request_status_def)
  from output_bounded [OF this, of "[7, 8, 0, 10]"] have "\<exists>n stopped r'. update_request_with_output 100 [7, 8, 0, 10] sample_out_request
      = Inr ((take n [7, 8, 0, 10], stopped), r') \<and> num_output_tokens r' \<le> max_tokens sample_out_request \<and> (stopped \<longleftrightarrow> is_finished (or_status r'))"
    by blast
  then show ?thesis by (simp add: sample_out_request_def)
qed

lemma remove_all_filter:
  assumes "distinct lst \<or> card items \<noteq> 1"
  shows "remove_all lst items = filter (\<lambda>x. x \<notin> items) lst"
proof (cases "card items = 1")
  case True
  then obtain x where "items = {x}" using card_1_singletonE by blast
  with assms True show ?thesis
    by (simp add: remove_all_def distinct_remove1_removeAll removeAll_filter_not_eq) (metis (mono_tags) filter_cong)
qed (auto simp: remove_all_def)

end
