(* ===== verification/Scheduler.thy ===== *)
theory Scheduler
  imports Sched_Blocks Encoder_Cache Sched_Utils Request_Queue
begin

text \<open>
  The scheduler itself, \<^verbatim>\<open>vllm/v1/core/sched/scheduler.py\<close> with the overrides of
  \<^verbatim>\<open>async_scheduler.py\<close>: the state machine of requests over the waiting queues and the running list,
  one scheduling step (\<open>schedule\<close>), the processing of its output (\<open>update_from_output\<close>), preemption,
  abortion and streaming sessions.

  The configuration modelled has no KV or encoder-cache connector, so that no request waits for
  remote KV blocks.  Request objects live in the table \<open>requests\<close>; the lists and queues hold their
  keys.  The KV-cache manager, the encoder cache and the block hasher are reached through a record
  of operations, so that the statements about the scheduler rest on their contract alone.
\<close>

section \<open>Data\<close>

text \<open>An update of a streaming session (\<open>StreamingUpdate\<close>).\<close>

record stream_update =
  su_mm_features :: "mm_feature list"
  su_enc_features :: "enc_feature list"
  su_prompt_token_ids :: "int list"
  su_max_tokens :: int
  su_arrival_time :: rat
  su_sampling_params :: "sampling_params option"

text \<open>The state of a grammar: none requested, not yet compiled, compiled, or failed to compile.\<close>

datatype grammar_state = No_Grammar | Grammar_Pending | Grammar_Ready | Grammar_Failed

text \<open>
  The fields of \<open>Request\<close> that the scheduler uses beyond those of the KV-cache manager.  \<open>sr_key\<close> holds
  priority, arrival time, id and identity; \<open>streaming_queue\<close> is \<open>None\<close> unless the request is
  resumable, and an entry \<open>None\<close> ends the session.
\<close>

record sreq = request +
  sr_key :: qreq
  sr_enc_features :: "enc_feature list"
  sr_output_token_ids :: "int list"
  sr_max_tokens :: int
  sr_sampling_params :: "sampling_params option"
  sr_pooling_params :: bool
  sr_stop_reason :: "stop_reason option"
  spec_token_ids :: "int list"
  num_output_placeholders :: int
  num_stale_output_tokens :: int
  drop_stale_output :: bool
  is_prefill_chunk :: bool
  next_decode_eligible_step :: int
  num_preemptions :: int
  has_prefill_stats :: bool
  grammar :: grammar_state
  resumable :: bool
  streaming_queue :: "stream_update option list option"

definition sr_num_tokens :: "sreq \<Rightarrow> int" where
  "sr_num_tokens r = int (length (all_token_ids r))"

definition num_tokens_with_spec :: "sreq \<Rightarrow> int" where
  "num_tokens_with_spec r = int (length (all_token_ids r)) + int (length (spec_token_ids r))"

definition enc_view :: "sreq \<Rightarrow> enc_request" where
  "enc_view r = \<lparr>er_id = req_id r, er_features = sr_enc_features r\<rparr>"

definition lora_int_id :: "sreq \<Rightarrow> int option" where
  "lora_int_id r = map_option adapter_id (lora_request r)"

datatype pause_state = UNPAUSED | PAUSED_NEW | PAUSED_ALL

record sched_config =
  policy :: scheduling_policy
  async_scheduling :: bool
  max_num_running_reqs :: int
  max_num_scheduled_tokens :: int
  max_num_batched_tokens :: int
  draft_slots :: int
  long_prefill_token_threshold :: int
  model_len :: int
  num_sampled_tokens_per_step :: int
  num_spec_tokens :: int
  dynamic_sd_lookup :: "int list option"
  num_lookahead_tokens :: int
  num_prefill_lookahead :: int
  enable_chunked_prefill :: bool
  scheduler_reserve_full_isl :: bool
  is_encoder_decoder :: bool
  is_mm_encoder_only :: bool
  max_num_encoder_input_tokens :: int
  max_loras :: "int option"
  use_v2_model_runner :: bool
  pp_size :: int
  need_mamba_block_aligned_split :: bool
  mamba_block_size :: int
  mamba_use_eagle :: bool
  mamba_has_prefill_checkpoint_blocks :: bool
  mamba_partial_cache_hit :: bool
  cfg_hash_block_size :: int

text \<open>
  The operations of the components below: \<open>allocate_slots\<close> (with the arguments the scheduler
  passes), the prefix-cache lookup, the release of a request's blocks, the statistics, the block
  hasher, and the calls of the encoder cache.
\<close>

record ('k, 'm) services =
  svc_alloc :: "request \<Rightarrow> int \<Rightarrow> int \<Rightarrow> bref list list option \<Rightarrow> int \<Rightarrow> int \<Rightarrow> bool \<Rightarrow> bool \<Rightarrow> 'k \<Rightarrow> (bref list list option \<times> 'k) res"
  svc_lookup :: "request \<Rightarrow> 'k \<Rightarrow> ((bref list list \<times> int \<times> int) \<times> 'k) res"
  svc_get_blocks :: "string \<Rightarrow> 'k \<Rightarrow> bref list list"
  svc_record_stats :: "request \<Rightarrow> int \<Rightarrow> int \<Rightarrow> 'k \<Rightarrow> 'k res"
  svc_free :: "request \<Rightarrow> 'k \<Rightarrow> 'k res"
  svc_cache :: "request \<Rightarrow> int \<Rightarrow> 'k \<Rightarrow> 'k res"
  svc_reset_cache :: "'k \<Rightarrow> (bool \<times> 'k) res"
  svc_common_prefix :: "string \<Rightarrow> 'k \<Rightarrow> int list \<times> 'k"
  svc_copies :: "'k \<Rightarrow> ((int \<times> int) list \<times> 'k) res"
  svc_new_block_ids :: "'k \<Rightarrow> int list \<times> 'k"
  svc_advance :: "(string \<times> int) list \<Rightarrow> 'k \<Rightarrow> 'k"
  svc_new_step :: "'k \<Rightarrow> 'k"
  svc_process :: "int \<Rightarrow> 'k \<Rightarrow> 'k res"
  svc_take_events :: "'k \<Rightarrow> (kv_event \<times> (string \<times> int option) option) list \<times> 'k"
  svc_make_stats :: "'k \<Rightarrow> prefix_stats option \<times> 'k"
  svc_set_order :: "string set \<Rightarrow> string list"
  svc_hash :: "request \<Rightarrow> request res"
  svc_enc_try :: "enc_request \<Rightarrow> int \<Rightarrow> int \<Rightarrow> int \<Rightarrow> int \<Rightarrow> 'm \<Rightarrow> (enc_sched \<times> 'm) res"
  svc_enc_alloc :: "enc_request \<Rightarrow> enc_sched \<Rightarrow> 'm \<Rightarrow> 'm res"
  svc_enc_free :: "enc_request \<Rightarrow> 'm \<Rightarrow> 'm res"
  svc_enc_free_inputs :: "int \<Rightarrow> int \<Rightarrow> enc_request \<Rightarrow> 'm \<Rightarrow> 'm res"
  svc_enc_freed :: "'m \<Rightarrow> string list \<times> 'm"
  svc_enc_reset :: "'m \<Rightarrow> 'm"

record ('k, 'm) sched =
  requests :: "string \<rightharpoonup> sreq"
  running :: "string list"
  waiting :: rqueue
  skipped_waiting :: rqueue
  s_kv :: 'k
  s_enc :: 'm
  finished_req_ids :: "string set"
  reset_preempted_req_ids :: "string set"
  inflight_prefills :: "string set"
  grammar_compile_error_reqs :: "string set"
  num_waiting_for_streaming_input :: int
  current_step :: int
  prefill_capacity_bound :: bool
  pause_mode :: pause_state
  spec_token_placeholders :: "int list"

definition sched_init :: "sched_config \<Rightarrow> 'k \<Rightarrow> 'm \<Rightarrow> ('k, 'm) sched" where
  "sched_init c k m = \<lparr>requests = Map.empty, running = [], waiting = create_request_queue (policy c),
     skipped_waiting = create_request_queue (policy c), s_kv = k, s_enc = m, finished_req_ids = {},
     reset_preempted_req_ids = {}, inflight_prefills = {}, grammar_compile_error_reqs = {},
     num_waiting_for_streaming_input = 0, current_step = 0, prefill_capacity_bound = False, pause_mode = UNPAUSED,
     spec_token_placeholders = replicate (nat (num_spec_tokens c)) (- 1)\<rparr>"

definition get_req :: "string \<Rightarrow> ('k, 'm) sched \<Rightarrow> sreq res" where
  "get_req rid s = (case requests s rid of None \<Rightarrow> Inl KeyError | Some r \<Rightarrow> Inr r)"

definition put_req :: "string \<Rightarrow> sreq \<Rightarrow> ('k, 'm) sched \<Rightarrow> ('k, 'm) sched" where
  "put_req rid r s = s\<lparr>requests := (requests s)(rid \<mapsto> r)\<rparr>"

section \<open>The sizes of prefill chunks\<close>

text \<open>\<open>_mamba_block_aligned_split\<close>: the earliest mandatory stop strictly inside the chunk.\<close>

definition mamba_stops :: "sched_config \<Rightarrow> sreq \<Rightarrow> int \<Rightarrow> int \<Rightarrow> int \<Rightarrow> int list" where
  "mamba_stops c r start_pos end_pos last_cache_position =
     (let bs = mamba_block_size c;
          tail_boundary = (if mamba_partial_cache_hit c then num_prompt_tokens r div cfg_hash_block_size c * cfg_hash_block_size c else 0)
      in [if start_pos mod bs \<noteq> 0 then (start_pos div bs + 1) * bs else 0,
          last_cache_position,
          if last_cache_position < tail_boundary \<and> tail_boundary < num_prompt_tokens r then tail_boundary else 0,
          if start_pos < shared_prefix_boundary r \<and> shared_prefix_boundary r < end_pos
          then start_pos + (shared_prefix_boundary r - start_pos) div bs * bs else 0])"

definition mamba_block_aligned_split :: "sched_config \<Rightarrow> sreq \<Rightarrow> int \<Rightarrow> int \<Rightarrow> int \<Rightarrow> int" where
  "mamba_block_aligned_split c r num_new num_local num_external =
     (let start_pos = num_computed_tokens r + num_local + num_external;
          prefill_end = max (num_prompt_tokens r) (sr_num_tokens r - 1);
          bs = mamba_block_size c
      in if prefill_end \<le> start_pos then num_new
         else
           let last0 = sr_num_tokens r - sr_num_tokens r mod bs;
               last1 = (if mamba_use_eagle c then max (last0 - bs) 0 else last0);
               end0 = start_pos + num_new;
               internal = (mamba_has_prefill_checkpoint_blocks c \<and> start_pos mod bs = 0);
               last2 = (if internal then 0 else last1);
               end1 = (if end0 < prefill_end \<and> \<not> internal
                       then let lim = (if 0 < long_prefill_token_threshold c
                                       then min (max_num_scheduled_tokens c) (long_prefill_token_threshold c)
                                       else max_num_scheduled_tokens c);
                                aligned_end = end0 div bs * bs
                            in if start_pos < aligned_end \<or> bs \<le> lim then aligned_end else end0
                       else end0);
               inner = filter (\<lambda>p. start_pos < p \<and> p < end1) (mamba_stops c r start_pos end1 last2)
           in max ((if inner = [] then end1 else Min (set inner)) - start_pos) 0)"

definition reserve_prefill_lookahead :: "sched_config \<Rightarrow> sreq \<Rightarrow> int \<Rightarrow> int \<Rightarrow> int" where
  "reserve_prefill_lookahead c r num_computed num_new =
     (let remaining = sr_num_tokens r - num_computed - num_new
      in max (if 0 < remaining \<and> remaining < num_prefill_lookahead c
              then num_new - (num_prefill_lookahead c - remaining) else num_new) 0)"

section \<open>Queues of waiting requests\<close>

definition is_blocked_waiting_status :: "request_status \<Rightarrow> bool" where
  "is_blocked_waiting_status st \<longleftrightarrow>
     st \<in> {WAITING_FOR_STRUCTURED_OUTPUT_GRAMMAR, WAITING_FOR_REMOTE_KVS, WAITING_FOR_STREAMING_REQ}"

definition enqueue_waiting_request :: "sreq \<Rightarrow> ('k, 'm) sched \<Rightarrow> ('k, 'm) sched" where
  "enqueue_waiting_request r s =
     (if is_blocked_waiting_status (status r) then s\<lparr>skipped_waiting := rq_add (skipped_waiting s) (sr_key r)\<rparr>
      else s\<lparr>waiting := rq_add (waiting s) (sr_key r)\<rparr>)"

text \<open>The queue selected: \<open>Some True\<close> is \<open>waiting\<close>, \<open>Some False\<close> is \<open>skipped_waiting\<close>.\<close>

definition select_waiting_queue :: "sched_config \<Rightarrow> ('k, 'm) sched \<Rightarrow> bool option res" where
  "select_waiting_queue c s =
     (let w = rq_len (waiting s) \<noteq> 0; k = rq_len (skipped_waiting s) \<noteq> 0 in
      case policy c of
        FCFS \<Rightarrow> Inr (if k then Some False else if w then Some True else None)
      | PRIORITY \<Rightarrow>
          if w \<and> k
          then bindE (rq_peek (waiting s)) (\<lambda>a. bindE (rq_peek (skipped_waiting s)) (\<lambda>b. Inr (Some (request_lt a b))))
          else Inr (if w then Some True else if k then Some False else None))"

definition selected_queue :: "bool \<Rightarrow> ('k, 'm) sched \<Rightarrow> rqueue" where
  "selected_queue w s = (if w then waiting s else skipped_waiting s)"

definition pop_selected :: "bool \<Rightarrow> ('k, 'm) sched \<Rightarrow> (qreq \<times> ('k, 'm) sched) res" where
  "pop_selected w s = bindE (rq_pop (selected_queue w s)) (\<lambda>(r, q).
     Inr (r, if w then s\<lparr>waiting := q\<rparr> else s\<lparr>skipped_waiting := q\<rparr>))"

text \<open>A request object changes its sort key while it is in a queue: the entry changes in place.\<close>

fun rq_replace :: "qreq \<Rightarrow> qreq \<Rightarrow> rqueue \<Rightarrow> rqueue" where
  "rq_replace a b (FCFSRequestQueue q) = FCFSRequestQueue (map (\<lambda>x. if x = a then b else x) q)"
| "rq_replace a b (PriorityRequestQueue h) = PriorityRequestQueue (map (\<lambda>x. if x = a then b else x) h)"

section \<open>Releasing requests\<close>

definition free_request :: "('k, 'm) services \<Rightarrow> string \<Rightarrow> ('k, 'm) sched \<Rightarrow> ('k, 'm) sched res" where
  "free_request svc rid s =
     bindE (get_req rid s) (\<lambda>r.
     bindE (py_assert (is_finished (status r))) (\<lambda>_.
     bindE (svc_enc_free svc (enc_view r) (s_enc s)) (\<lambda>m.
     bindE (svc_free svc (request.truncate r) (s_kv s)) (\<lambda>k.
       Inr (s\<lparr>requests := (requests s)(rid := None), s_kv := k, s_enc := m,
              finished_req_ids := insert rid (finished_req_ids s),
              inflight_prefills := inflight_prefills s - {rid}\<rparr>)))))"

definition preempt_request :: "('k, 'm) services \<Rightarrow> string \<Rightarrow> bool \<Rightarrow> ('k, 'm) sched \<Rightarrow> ('k, 'm) sched res" where
  "preempt_request svc rid drop_output s =
     bindE (get_req rid s) (\<lambda>r.
     bindE (py_assert (status r = RUNNING)) (\<lambda>_.
     bindE (svc_free svc (request.truncate r) (s_kv s)) (\<lambda>k.
     bindE (svc_enc_free svc (enc_view r) (s_enc s)) (\<lambda>m.
       let r1 = r\<lparr>status := PREEMPTED, num_computed_tokens := 0, spec_token_ids := [],
                  drop_stale_output := (drop_output \<or> drop_stale_output r \<and> 0 < num_stale_output_tokens r),
                  num_stale_output_tokens := num_in_flight_tokens r, num_output_placeholders := 0,
                  num_preemptions := num_preemptions r + 1\<rparr>
       in Inr (s\<lparr>requests := (requests s)(rid \<mapsto> r1), waiting := rq_prepend (waiting s) (sr_key r), s_kv := k, s_enc := m,
                 reset_preempted_req_ids := insert rid (reset_preempted_req_ids s),
                 inflight_prefills := inflight_prefills s - {rid}\<rparr>)))))"

text \<open>
  \<open>finish_requests\<close> for ids in the order in which the code iterates over them: the queues are
  cleaned first, then every request that was not finished yet is released.
\<close>

definition unfinished :: "('k, 'm) sched \<Rightarrow> string \<Rightarrow> bool" where
  "unfinished s rid \<longleftrightarrow> (case requests s rid of None \<Rightarrow> False | Some r \<Rightarrow> \<not> is_finished (status r))"

definition has_status :: "request_status \<Rightarrow> ('k, 'm) sched \<Rightarrow> string \<Rightarrow> bool" where
  "has_status st s rid \<longleftrightarrow> (case requests s rid of None \<Rightarrow> False | Some r \<Rightarrow> status r = st)"

definition keys_of :: "('k, 'm) sched \<Rightarrow> string list \<Rightarrow> qreq set" where
  "keys_of s ids = set (List.map_filter (\<lambda>rid. map_option sr_key (requests s rid)) ids)"

definition finish_one :: "('k, 'm) services \<Rightarrow> request_status \<Rightarrow> string \<Rightarrow> ('k, 'm) sched \<Rightarrow> ('k, 'm) sched res" where
  "finish_one svc st rid s =
     bindE (get_req rid s) (\<lambda>r. free_request svc rid (put_req rid (r\<lparr>status := st\<rparr>) s))"

definition finish_requests ::
    "('k, 'm) services \<Rightarrow> string list \<Rightarrow> request_status \<Rightarrow> ('k, 'm) sched \<Rightarrow> (string list \<times> ('k, 'm) sched) res" where
  "finish_requests svc ids st s =
     bindE (py_assert (is_finished st)) (\<lambda>_.
       let valid = filter (unfinished s) ids;
           run = filter (has_status RUNNING s) valid;
           wait = filter (\<lambda>rid. \<not> has_status RUNNING s rid) valid;
           streaming = filter (has_status WAITING_FOR_STREAMING_REQ s) wait;
           s1 = s\<lparr>num_waiting_for_streaming_input := num_waiting_for_streaming_input s - int (length streaming),
                  running := (if run \<noteq> [] then remove_all (running s) (set run) else running s)\<rparr>;
           s2 = (if wait \<noteq> []
                 then s1\<lparr>waiting := rq_remove_many (waiting s1) (keys_of s wait),
                         skipped_waiting := rq_remove_many (skipped_waiting s1) (keys_of s wait)\<rparr>
                 else s1)
       in bindE (foldE (finish_one svc st) valid s2) (\<lambda>s3. Inr (valid, s3)))"

section \<open>Streaming sessions and arrival\<close>

text \<open>\<open>_update_request_as_session\<close>: the last sampled token is discarded, the kept outputs join the prompt.\<close>

definition session_request :: "stream_update \<Rightarrow> sreq \<Rightarrow> sreq" where
  "session_request u r =
     (let nc = num_computed_tokens r;
          kept = py_slice (all_token_ids r) (num_prompt_tokens r) nc;
          base = py_slice (all_token_ids r) 0 nc;
          shift = int (length base)
      in r\<lparr>all_token_ids := base @ su_prompt_token_ids u,
           mm_features := mm_features r @ map (\<lambda>f. f\<lparr>mm_offset := mm_offset f + shift\<rparr>) (su_mm_features u),
           sr_enc_features := sr_enc_features r @ map (\<lambda>f. f\<lparr>ef_offset := ef_offset f + shift\<rparr>) (su_enc_features u),
           sr_output_token_ids := []\<rparr>)"

definition session_prompt :: "stream_update \<Rightarrow> sreq \<Rightarrow> int" where
  "session_prompt u r =
     num_prompt_tokens r + int (length (py_slice (all_token_ids r) (num_prompt_tokens r) (num_computed_tokens r)))
       + int (length (su_prompt_token_ids u))"

definition update_request_as_session ::
    "('k, 'm) services \<Rightarrow> string \<Rightarrow> stream_update \<Rightarrow> ('k, 'm) sched \<Rightarrow> ('k, 'm) sched res" where
  "update_request_as_session svc rid u s =
     bindE (get_req rid s) (\<lambda>r.
     bindE (svc_hash svc (request.truncate (session_request u r))) (\<lambda>h.
       let key = QReq (priority (sr_key r)) (su_arrival_time u) (request_id (sr_key r)) (obj_id (sr_key r));
           r1 = (session_request u r)\<lparr>block_hashes := block_hashes h, num_prompt_tokens := session_prompt u r,
                  sr_key := key, sr_sampling_params := su_sampling_params u, status := WAITING\<rparr>
       in Inr (s\<lparr>requests := (requests s)(rid \<mapsto> r1),
                 waiting := rq_replace (sr_key r) key (waiting s),
                 skipped_waiting := rq_replace (sr_key r) key (skipped_waiting s),
                 num_waiting_for_streaming_input := num_waiting_for_streaming_input s
                   - (if status r = WAITING_FOR_STREAMING_REQ then 1 else 0)\<rparr>)))"

definition from_request :: "sreq \<Rightarrow> stream_update option" where
  "from_request r =
     (if \<not> resumable r then None
      else Some \<lparr>su_mm_features = mm_features r, su_enc_features = sr_enc_features r, su_prompt_token_ids = all_token_ids r,
                 su_max_tokens = sr_max_tokens r, su_arrival_time = arrival_time (sr_key r),
                 su_sampling_params = sr_sampling_params r\<rparr>)"

definition add_request :: "('k, 'm) services \<Rightarrow> sreq \<Rightarrow> ('k, 'm) sched \<Rightarrow> ('k, 'm) sched res" where
  "add_request svc r s =
     (case requests s (req_id r) of
        Some e \<Rightarrow>
          if status e \<noteq> WAITING_FOR_STREAMING_REQ
          then (case streaming_queue e of
                  None \<Rightarrow> Inl AssertionError
                | Some q \<Rightarrow> Inr (put_req (req_id r) (e\<lparr>streaming_queue := Some (q @ [from_request r])\<rparr>) s))
          else (case from_request r of
                  Some u \<Rightarrow> update_request_as_session svc (req_id r) u s
                | None \<Rightarrow> bindE (finish_requests svc [req_id r] FINISHED_ABORTED s) (\<lambda>(_, s1). Inr s1))
      | None \<Rightarrow>
          let r1 = (if resumable r then r\<lparr>streaming_queue := Some []\<rparr> else r)
          in Inr (put_req (req_id r) r1 (enqueue_waiting_request r1 s)))"

text \<open>\<open>_handle_stopped_request\<close>: true when the request is finished, false when a session goes on.\<close>

definition handle_stopped_request :: "('k, 'm) services \<Rightarrow> string \<Rightarrow> ('k, 'm) sched \<Rightarrow> (bool \<times> ('k, 'm) sched) res" where
  "handle_stopped_request svc rid s =
     bindE (get_req rid s) (\<lambda>r.
       if \<not> resumable r then Inr (True, s)
       else bindE (case streaming_queue r of
                     Some (None # q) \<Rightarrow> Inr (True, put_req rid (r\<lparr>streaming_queue := Some q\<rparr>) s)
                   | Some (Some u # q) \<Rightarrow>
                       bindE (update_request_as_session svc rid u (put_req rid (r\<lparr>streaming_queue := Some q\<rparr>) s)) (\<lambda>s1. Inr (False, s1))
                   | _ \<Rightarrow> Inr (False, (put_req rid (r\<lparr>status := WAITING_FOR_STREAMING_REQ\<rparr>) s)
                             \<lparr>num_waiting_for_streaming_input := num_waiting_for_streaming_input s + 1\<rparr>))
            (\<lambda>(fin, s1). if fin then Inr (True, s1)
               else bindE (get_req rid s1) (\<lambda>r1. Inr (False, enqueue_waiting_request r1 s1))))"

end
