(* ===== verification/Sched_Step.thy ===== *)
theory Sched_Step
  imports Scheduler
begin

text \<open>
  One call of \<open>schedule\<close> in \<^verbatim>\<open>vllm/v1/core/sched/scheduler.py\<close>: the loop over the running requests with
  its preemptions, the loop over the waiting requests, and the bookkeeping at the end of the step.
  Each loop is a recursive function whose termination is proved where it is defined.
\<close>

section \<open>One step: the running requests\<close>

text \<open>The local variables of \<open>schedule\<close>; Python dictionaries are association lists in insertion order.\<close>

record sloop =
  req_index :: nat
  token_budget :: int
  input_budget :: int
  enc_budget :: int
  scheduled_running :: "string list"
  scheduled_new :: "string list"
  scheduled_resumed :: "string list"
  num_scheduled :: "(string \<times> int) list"
  req_to_new_blocks :: "(string \<times> bref list list) list"
  spec_decode_tokens :: "(string \<times> int list) list"
  encoder_inputs :: "(string \<times> int list) list"
  preempted :: "string list"
  prefill_scheduled :: bool
  scheduled_loras :: "int set"
  step_skipped :: rqueue

definition dict_set :: "string \<Rightarrow> 'v \<Rightarrow> (string \<times> 'v) list \<Rightarrow> (string \<times> 'v) list" where
  "dict_set k v d = (if k \<in> fst ` set d then map (\<lambda>e. if fst e = k then (k, v) else e) d else d @ [(k, v)])"

definition dict_del :: "string \<Rightarrow> (string \<times> 'v) list \<Rightarrow> (string \<times> 'v) list" where
  "dict_del k d = filter (\<lambda>e. fst e \<noteq> k) d"

definition dict_pop :: "string \<Rightarrow> (string \<times> 'v) list \<Rightarrow> ('v \<times> (string \<times> 'v) list) res" where
  "dict_pop k d = (case map_of d k of None \<Rightarrow> Inl KeyError | Some v \<Rightarrow> Inr (v, dict_del k d))"

definition sched_start :: "sched_config \<Rightarrow> pause_state \<Rightarrow> sloop" where
  "sched_start c pause = \<lparr>req_index = 0, token_budget = (if pause = PAUSED_ALL then 0 else max_num_scheduled_tokens c),
     input_budget = max_num_batched_tokens c, enc_budget = max_num_encoder_input_tokens c, scheduled_running = [],
     scheduled_new = [], scheduled_resumed = [], num_scheduled = [], req_to_new_blocks = [], spec_decode_tokens = [],
     encoder_inputs = [], preempted = [], prefill_scheduled = False, scheduled_loras = {},
     step_skipped = create_request_queue (policy c)\<rparr>"

text \<open>
  The victim of a preemption.  Under the priority policy it is the first request with the largest
  priority and arrival time, and what this step had already scheduled for it is given back.
\<close>

definition victim_key :: "('k, 'm) sched \<Rightarrow> string \<Rightarrow> int \<times> rat" where
  "victim_key s rid = (let r = the (requests s rid) in (priority (sr_key r), arrival_time (sr_key r)))"

definition key_less :: "int \<times> rat \<Rightarrow> int \<times> rat \<Rightarrow> bool" where
  "key_less a b \<longleftrightarrow> fst a < fst b \<or> fst a = fst b \<and> snd a < snd b"

definition worst_request :: "('k, 'm) sched \<Rightarrow> string res" where
  "worst_request s =
     (case running s of
        [] \<Rightarrow> Inl ValueError
      | x # xs \<Rightarrow> Inr (foldl (\<lambda>best y. if key_less (victim_key s best) (victim_key s y) then y else best) x xs))"

fun index_of :: "'a \<Rightarrow> 'a list \<Rightarrow> nat" where
  "index_of x [] = 0"
| "index_of x (y # ys) = (if x = y then 0 else Suc (index_of x ys))"

definition take_back :: "sched_config \<Rightarrow> sreq \<Rightarrow> string \<Rightarrow> sloop \<Rightarrow> sloop res" where
  "take_back c r v l =
     bindE (dict_pop v (num_scheduled l)) (\<lambda>(restored, toks).
     bindE (dict_pop v (req_to_new_blocks l)) (\<lambda>(_, nb).
       let ins = (case map_of (encoder_inputs l) v of None \<Rightarrow> [] | Some ins \<Rightarrow> ins)
       in bindE (foldE (\<lambda>i n. bindE (get_num_encoder_embeds (enc_view r) i) (\<lambda>e. Inr (n + e))) ins 0) (\<lambda>embeds.
          Inr (l\<lparr>token_budget := token_budget l + restored, input_budget := input_budget l + restored + draft_slots c,
                 enc_budget := enc_budget l + embeds, scheduled_running := remove1 v (scheduled_running l),
                 num_scheduled := toks, req_to_new_blocks := nb, spec_decode_tokens := dict_del v (spec_decode_tokens l),
                 encoder_inputs := dict_del v (encoder_inputs l)\<rparr>))))"

definition preempt_victim ::
    "sched_config \<Rightarrow> ('k, 'm) services \<Rightarrow> sloop \<Rightarrow> ('k, 'm) sched \<Rightarrow> (string \<times> sloop \<times> ('k, 'm) sched) res" where
  "preempt_victim c svc l s =
     bindE (case policy c of
              PRIORITY \<Rightarrow>
                bindE (worst_request s) (\<lambda>v.
                let i = index_of v (running s);
                    s1 = s\<lparr>running := take i (running s) @ drop (Suc i) (running s)\<rparr>;
                    l1 = (if i < req_index l then l\<lparr>req_index := req_index l - 1\<rparr> else l)
                in if v \<in> set (scheduled_running l1)
                   then bindE (get_req v s1) (\<lambda>r. bindE (take_back c r v l1) (\<lambda>l2. Inr (v, l2, s1)))
                   else Inr (v, l1, s1))
            | FCFS \<Rightarrow>
                if running s = [] then Inl IndexError
                else Inr (last (running s), l, s\<lparr>running := butlast (running s)\<rparr>)) (\<lambda>(v, l1, s1).
     bindE (preempt_request svc v False s1) (\<lambda>s2. Inr (v, l1\<lparr>preempted := preempted l1 @ [v]\<rparr>, s2)))"

lemma preempt_request_running: "preempt_request svc v b s = Inr s' \<Longrightarrow> running s' = running s"
  by (auto simp: preempt_request_def bindE_eq_Inr Let_def)

lemma index_of_less: "x \<in> set xs \<Longrightarrow> index_of x xs < length xs"
  by (induction xs) auto

lemma fold_pick: "foldl (\<lambda>best y. if p best y then y else best) x xs \<in> set (x # xs)"
  by (induction xs arbitrary: x) auto

lemma worst_request_mem: "worst_request s = Inr v \<Longrightarrow> v \<in> set (running s)"
  using fold_pick [of "\<lambda>a b. key_less (victim_key s a) (victim_key s b)"]
  by (auto simp: worst_request_def split: list.splits)

lemma preempt_victim_shrinks: "preempt_victim c svc l s = Inr (v, l', s') \<Longrightarrow> length (running s) = Suc (length (running s'))"
proof (cases "policy c")
  case FCFS
  assume "preempt_victim c svc l s = Inr (v, l', s')"
  with FCFS show ?thesis
    by (auto simp: preempt_victim_def bindE_eq_Inr split: if_splits dest!: preempt_request_running)
next
  case PRIORITY
  assume "preempt_victim c svc l s = Inr (v, l', s')"
  with PRIORITY obtain w where w: "worst_request s = Inr w"
    "running s' = take (index_of w (running s)) (running s) @ drop (Suc (index_of w (running s))) (running s)"
    by (auto simp: preempt_victim_def bindE_eq_Inr Let_def split: if_splits dest!: preempt_request_running)
  with index_of_less [OF worst_request_mem [OF w(1)]] show ?thesis by simp
qed

text \<open>The inner loop: allocate, or preempt and retry, until the request itself is the victim.\<close>

function alloc_loop ::
    "sched_config \<Rightarrow> ('k, 'm) services \<Rightarrow> string \<Rightarrow> int \<Rightarrow> sloop \<Rightarrow> ('k, 'm) sched
      \<Rightarrow> (bref list list option \<times> sloop \<times> ('k, 'm) sched) res" where
  "alloc_loop c svc rid num_new l s =
     bindE (get_req rid s) (\<lambda>r.
     bindE (svc_alloc svc (request.truncate r) num_new 0 None (num_lookahead_tokens c) 0 False True (s_kv s)) (\<lambda>(res, k).
       let s1 = s\<lparr>s_kv := k\<rparr> in
       if res \<noteq> None then Inr (res, l, s1)
       else bindE (preempt_victim c svc l s1) (\<lambda>(v, l2, s2).
              if v = rid then Inr (None, l2, s2) else alloc_loop c svc rid num_new l2 s2)))"
  by pat_completeness auto
termination
  by (relation "measure (\<lambda>(c, svc, rid, n, l, s). length (running s))") (auto dest!: preempt_victim_shrinks)

declare alloc_loop.simps [simp del]

text \<open>The number of tokens a running request would get, before its encoder inputs are considered.\<close>

definition running_num_new :: "sched_config \<Rightarrow> sloop \<Rightarrow> sreq \<Rightarrow> int" where
  "running_num_new c l r =
     (let n0 = num_tokens_with_spec r + num_output_placeholders r - num_computed_tokens r;
          n1 = (if 0 < long_prefill_token_threshold c \<and> long_prefill_token_threshold c < n0
                then long_prefill_token_threshold c else n0);
          n2 = min n1 (min (token_budget l) (input_budget l - draft_slots c));
          n3 = min n2 (model_len c - num_computed_tokens r - num_sampled_tokens_per_step c)
      in if need_mamba_block_aligned_split c then mamba_block_aligned_split c r n3 0 0 else n3)"

definition skip_running :: "('k, 'm) sched \<Rightarrow> bool \<Rightarrow> sreq \<Rightarrow> bool" where
  "skip_running s defer_prefills r \<longleftrightarrow>
     (0 < num_output_placeholders r
        \<and> num_prompt_tokens r + sr_max_tokens r \<le> num_computed_tokens r + 2 - num_output_placeholders r)
     \<or> current_step s < next_decode_eligible_step r
     \<or> defer_prefills \<and> is_prefill_chunk r"

text \<open>\<open>_try_schedule_encoder_inputs\<close>, when the request has any.\<close>

definition try_encoder ::
    "sched_config \<Rightarrow> ('k, 'm) services \<Rightarrow> sreq \<Rightarrow> int \<Rightarrow> int \<Rightarrow> sloop \<Rightarrow> ('k, 'm) sched \<Rightarrow> (enc_sched \<times> ('k, 'm) sched) res" where
  "try_encoder c svc r num_computed num_new l s =
     (if sr_enc_features r \<noteq> []
      then bindE (svc_enc_try svc (enc_view r) num_computed num_new (enc_budget l) (num_prefill_lookahead c) (s_enc s)) (\<lambda>(v, m).
             Inr (v, s\<lparr>s_enc := m\<rparr>))
      else Inr (\<lparr>es_inputs = [], es_external = [], es_num_new_tokens = num_new, es_budget = enc_budget l, es_hashes = {},
                 es_num_embeds = 0\<rparr>, s))"

definition alloc_encoder ::
    "('k, 'm) services \<Rightarrow> sreq \<Rightarrow> enc_sched \<Rightarrow> sloop \<Rightarrow> ('k, 'm) sched \<Rightarrow> (sloop \<times> ('k, 'm) sched) res" where
  "alloc_encoder svc r v l s =
     bindE (svc_enc_alloc svc (enc_view r) v (s_enc s)) (\<lambda>m.
       Inr (if es_inputs v \<noteq> []
            then l\<lparr>encoder_inputs := dict_set (req_id r) (es_inputs v) (encoder_inputs l), enc_budget := es_budget v\<rparr>
            else l, s\<lparr>s_enc := m\<rparr>))"

text \<open>The draft tokens that are verified with the scheduled tokens.\<close>

definition running_spec :: "int \<Rightarrow> sreq \<Rightarrow> sloop \<Rightarrow> sloop" where
  "running_spec num_new r l =
     (if spec_token_ids r = [] then l
      else let n = num_new + num_computed_tokens r - sr_num_tokens r - num_output_placeholders r
           in if 0 < n
              then l\<lparr>spec_decode_tokens := dict_set (req_id r)
                      (if n < int (length (spec_token_ids r)) then py_slice (spec_token_ids r) 0 n else spec_token_ids r)
                      (spec_decode_tokens l)\<rparr>
              else l)"

text \<open>One iteration of the loop over the running requests; the flag says whether the loop goes on.\<close>

definition run_one ::
    "sched_config \<Rightarrow> ('k, 'm) services \<Rightarrow> bool \<Rightarrow> sloop \<Rightarrow> ('k, 'm) sched \<Rightarrow> (bool \<times> sloop \<times> ('k, 'm) sched) res" where
  "run_one c svc defer_prefills l s =
     (let rid = running s ! req_index l; next_l = l\<lparr>req_index := Suc (req_index l)\<rparr> in
      if input_budget l \<le> draft_slots c then Inr (False, l, s)
      else bindE (get_req rid s) (\<lambda>r.
        if skip_running s defer_prefills r then Inr (True, next_l, s)
        else bindE (try_encoder c svc r (num_computed_tokens r) (running_num_new c l r) l s) (\<lambda>(v, s1).
          let n = reserve_prefill_lookahead c r (num_computed_tokens r) (es_num_new_tokens v) in
          if n = 0 then Inr (True, next_l, s1)
          else bindE (alloc_loop c svc rid n l s1) (\<lambda>(res, l2, s2).
            case res of
              None \<Rightarrow> Inr (False, l2, s2)
            | Some bs \<Rightarrow>
                let l3 = l2\<lparr>req_index := Suc (req_index l2), token_budget := token_budget l2 - n,
                            input_budget := input_budget l2 - (n + draft_slots c),
                            scheduled_running := scheduled_running l2 @ [rid],
                            num_scheduled := dict_set rid n (num_scheduled l2),
                            req_to_new_blocks := dict_set rid bs (req_to_new_blocks l2),
                            prefill_scheduled := (prefill_scheduled l2 \<or> is_prefill_chunk r)\<rparr>
                in bindE (alloc_encoder svc r v (running_spec n r l3)
                            (if spec_token_ids r = [] then s2 else put_req rid (r\<lparr>spec_token_ids := []\<rparr>) s2)) (\<lambda>(l4, s4).
                   Inr (True, l4, s4))))))"

lemma take_back_index: "take_back c r v l = Inr l' \<Longrightarrow> req_index l' = req_index l"
  by (auto simp: take_back_def bindE_eq_Inr Let_def)

lemma preempt_victim_index:
  assumes "preempt_victim c svc l s = Inr (v, l', s')"
  shows "length (running s') - req_index l' \<le> length (running s) - req_index l"
proof (cases "policy c")
  case FCFS
  with assms have "req_index l' = req_index l" by (auto simp: preempt_victim_def bindE_eq_Inr split: if_splits)
  with preempt_victim_shrinks [OF assms] show ?thesis by simp
next
  case PRIORITY
  with assms obtain w where w: "worst_request s = Inr w"
    "req_index l' = (if index_of w (running s) < req_index l then req_index l - 1 else req_index l)"
    by (auto simp: preempt_victim_def bindE_eq_Inr Let_def split: if_splits dest!: take_back_index)
  with preempt_victim_shrinks [OF assms] show ?thesis by (auto split: if_splits)
qed

lemma alloc_loop_index:
  assumes "alloc_loop c svc rid n l s = Inr (res, l', s')"
  shows "length (running s') - req_index l' \<le> length (running s) - req_index l"
  using assms
proof (induction c svc rid n l s rule: alloc_loop.induct)
  case (1 c svc rid n l s)
  obtain r res1 k where a: "get_req rid s = Inr r"
    "svc_alloc svc (request.truncate r) n 0 None (num_lookahead_tokens c) 0 False True (s_kv s) = Inr (res1, k)"
    using 1(2) by (subst (asm) alloc_loop.simps) (auto simp: bindE_eq_Inr)
  show ?case
  proof (cases "res1 = None")
    case False
    with 1(2) a show ?thesis by (subst (asm) alloc_loop.simps) (auto simp: Let_def)
  next
    case True
    then obtain v l2 s2 where v: "preempt_victim c svc l (s\<lparr>s_kv := k\<rparr>) = Inr (v, l2, s2)"
      using 1(2) a by (subst (asm) alloc_loop.simps) (auto simp: bindE_eq_Inr Let_def)
    note gap = preempt_victim_index [OF v]
    show ?thesis
    proof (cases "v = rid")
      case True
      with 1(2) a v \<open>res1 = None\<close> gap show ?thesis by (subst (asm) alloc_loop.simps) (auto simp: Let_def)
    next
      case False
      with 1(2) a v \<open>res1 = None\<close> have "alloc_loop c svc rid n l2 s2 = Inr (res, l', s')"
        by (subst (asm) alloc_loop.simps) (auto simp: Let_def)
      with 1(1) [OF a(1) a(2) refl refl _ v refl refl] True False gap show ?thesis by simp
    qed
  qed
qed

lemma try_encoder_running: "try_encoder c svc r nc n l s = Inr (v, s') \<Longrightarrow> running s' = running s"
  by (auto simp: try_encoder_def bindE_eq_Inr split: if_splits)

lemma alloc_encoder_index:
  "alloc_encoder svc r v l s = Inr (l', s') \<Longrightarrow> req_index l' = req_index l \<and> running s' = running s"
  by (auto simp: alloc_encoder_def bindE_eq_Inr)

lemma running_spec_index [simp]: "req_index (running_spec n r l) = req_index l"
  by (simp add: running_spec_def Let_def)

lemma run_one_advances:
  assumes "run_one c svc defer_prefills l s = Inr (True, l', s')" "req_index l < length (running s)"
  shows "length (running s') - req_index l' < length (running s) - req_index l"
proof -
  let ?rid = "running s ! req_index l"
  have b: "\<not> input_budget l \<le> draft_slots c" using assms(1) by (auto simp: run_one_def Let_def)
  obtain r where r: "get_req ?rid s = Inr r" using assms(1) b by (auto simp: run_one_def Let_def bindE_eq_Inr)
  show ?thesis
  proof (cases "skip_running s defer_prefills r")
    case True
    with assms b r show ?thesis by (auto simp: run_one_def Let_def)
  next
    case False
    with assms(1) b r obtain v s1 where v: "try_encoder c svc r (num_computed_tokens r) (running_num_new c l r) l s = Inr (v, s1)"
      by (auto simp: run_one_def Let_def bindE_eq_Inr)
    note run = try_encoder_running [OF v]
    let ?n = "reserve_prefill_lookahead c r (num_computed_tokens r) (es_num_new_tokens v)"
    show ?thesis
    proof (cases "?n = 0")
      case True
      with assms b r v False run show ?thesis by (auto simp: run_one_def Let_def)
    next
      case n: False
      with assms(1) b r v False obtain bs l2 s2 l4 s4 where a: "alloc_loop c svc ?rid ?n l s1 = Inr (Some bs, l2, s2)"
        and "req_index l' = Suc (req_index l2)" "running s' = running s2"
        by (auto simp: run_one_def Let_def bindE_eq_Inr put_req_def split: option.splits if_splits dest!: alloc_encoder_index)
      with alloc_loop_index [OF a] run assms(2) show ?thesis by simp
    qed
  qed
qed

function run_loop ::
    "sched_config \<Rightarrow> ('k, 'm) services \<Rightarrow> bool \<Rightarrow> sloop \<Rightarrow> ('k, 'm) sched \<Rightarrow> (sloop \<times> ('k, 'm) sched) res" where
  "run_loop c svc defer_prefills l s =
     (if req_index l < length (running s) \<and> 0 < token_budget l
      then bindE (run_one c svc defer_prefills l s) (\<lambda>(go, l1, s1).
             if go then run_loop c svc defer_prefills l1 s1 else Inr (l1, s1))
      else Inr (l, s))"
  by pat_completeness auto
termination
  by (relation "measure (\<lambda>(c, svc, d, l, s). length (running s) - req_index l)") (auto dest!: run_one_advances)

declare run_loop.simps [simp del]

section \<open>One step: the waiting requests\<close>

definition try_promote :: "string \<Rightarrow> ('k, 'm) sched \<Rightarrow> (bool \<times> ('k, 'm) sched) res" where
  "try_promote rid s =
     bindE (get_req rid s) (\<lambda>r.
       if status r = WAITING_FOR_REMOTE_KVS then Inr (False, s)
       else if status r = WAITING_FOR_STRUCTURED_OUTPUT_GRAMMAR
       then if grammar r = No_Grammar \<or> grammar r = Grammar_Pending then Inr (False, s)
            else if grammar r = Grammar_Failed
            then Inr (False, s\<lparr>grammar_compile_error_reqs := insert rid (grammar_compile_error_reqs s)\<rparr>)
            else Inr (True, put_req rid (r\<lparr>status := WAITING\<rparr>) s)
       else if status r = WAITING_FOR_STREAMING_REQ
       then bindE (py_assert (streaming_queue r = None \<or> streaming_queue r = Some [])) (\<lambda>_. Inr (False, s))
       else Inl AssertionError)"

definition skip_waiting :: "bool \<Rightarrow> sloop \<Rightarrow> ('k, 'm) sched \<Rightarrow> (bool \<times> sloop \<times> ('k, 'm) sched) res" where
  "skip_waiting w l s = bindE (pop_selected w s) (\<lambda>(q, s1). Inr (True, l\<lparr>step_skipped := rq_prepend (step_skipped l) q\<rparr>, s1))"

definition lora_conflict :: "sched_config \<Rightarrow> sloop \<Rightarrow> sreq \<Rightarrow> bool" where
  "lora_conflict c l r \<longleftrightarrow>
     (case (max_loras c, lora_int_id r) of
        (Some n, Some i) \<Rightarrow> int (card (scheduled_loras l)) = n \<and> i \<notin> scheduled_loras l
      | _ \<Rightarrow> False)"

text \<open>The prefix-cache lookup of a request without computed tokens, with the assertions on its result.\<close>

definition lookup_waiting ::
    "('k, 'm) services \<Rightarrow> string \<Rightarrow> sreq \<Rightarrow> ('k, 'm) sched \<Rightarrow> ((bref list list option \<times> int \<times> int) \<times> ('k, 'm) sched) res" where
  "lookup_waiting svc rid r s =
     (if num_computed_tokens r = 0
      then bindE (svc_lookup svc (request.truncate r) (s_kv s)) (\<lambda>((bs, num_local, boundary), k).
           bindE (py_assert (num_local \<le> sr_num_tokens r)) (\<lambda>_.
           bindE (py_assert (has_prefill_stats r \<and> num_preemptions r \<le> 0 \<longrightarrow> num_local \<le> num_prompt_tokens r)) (\<lambda>_.
             Inr ((Some bs, num_local, num_local), put_req rid (r\<lparr>shared_prefix_boundary := boundary\<rparr>) (s\<lparr>s_kv := k\<rparr>)))))
      else Inr ((None, 0, num_computed_tokens r), s))"

text \<open>The number of tokens for a waiting request and whether it is padded; \<open>None\<close> ends the loop.\<close>

definition waiting_num_new :: "sched_config \<Rightarrow> sloop \<Rightarrow> sreq \<Rightarrow> int \<Rightarrow> (int \<times> bool) option" where
  "waiting_num_new c l r num_computed =
     (let budget = min (token_budget l) (input_budget l - draft_slots c);
          n0 = sr_num_tokens r - num_computed;
          padded = 1 + num_spec_tokens c;
          pad = (0 < num_spec_tokens c \<and> dynamic_sd_lookup c = None \<and> 0 < num_sampled_tokens_per_step c \<and> n0 = 1
                 \<and> scheduled_running l \<noteq> [] \<and> \<not> prefill_scheduled l
                 \<and> num_computed + padded + num_sampled_tokens_per_step c \<le> model_len c)
      in if pad \<and> budget < padded then None
         else let n1 = (if pad then padded else n0);
                  n2 = (if 0 < long_prefill_token_threshold c \<and> long_prefill_token_threshold c < n1
                        then long_prefill_token_threshold c else n1)
              in if \<not> enable_chunked_prefill c \<and> budget < n2 then None else Some (min n2 budget, pad))"

text \<open>The Mamba alignment of a waiting request, which may drop the padding; \<open>None\<close> ends the loop.\<close>

definition align_waiting :: "sched_config \<Rightarrow> sreq \<Rightarrow> int \<Rightarrow> int \<times> bool \<Rightarrow> (int \<times> bool) option" where
  "align_waiting c r num_local = (\<lambda>(n, pad).
     if need_mamba_block_aligned_split c
     then let n1 = mamba_block_aligned_split c r n num_local 0
          in if n1 = 0 then None else Some (if pad \<and> n1 \<noteq> 1 + num_spec_tokens c then (1, False) else (n1, pad))
     else Some (n, pad))"

definition encoder_tokens :: "sched_config \<Rightarrow> sreq \<Rightarrow> enc_sched \<Rightarrow> int res" where
  "encoder_tokens c r v =
     (if is_encoder_decoder c \<and> sr_enc_features r \<noteq> []
      then foldE (\<lambda>i n. bindE (get_num_encoder_embeds (enc_view r) i) (\<lambda>e. Inr (n + e))) (es_inputs v) 0
      else Inr 0)"

text \<open>The bookkeeping of a request that is moved from a waiting queue to the running list.\<close>

definition start_request ::
    "sched_config \<Rightarrow> ('k, 'm) services \<Rightarrow> string \<Rightarrow> sreq \<Rightarrow> int \<Rightarrow> int \<Rightarrow> bool \<Rightarrow> enc_sched \<Rightarrow> sloop \<Rightarrow> ('k, 'm) sched
      \<Rightarrow> (bool \<times> sloop \<times> ('k, 'm) sched) res" where
  "start_request c svc rid r n num_computed pad v l s =
     bindE (if status r = WAITING then Inr (l\<lparr>scheduled_new := scheduled_new l @ [rid]\<rparr>)
            else if status r = PREEMPTED then Inr (l\<lparr>scheduled_resumed := scheduled_resumed l @ [rid]\<rparr>)
            else Inl RuntimeError) (\<lambda>l1.
     bindE (py_assert (pad \<longrightarrow> n = 1 + num_spec_tokens c)) (\<lambda>_.
       let l2 = l1\<lparr>token_budget := token_budget l1 - n, input_budget := input_budget l1 - (n + draft_slots c),
                   num_scheduled := dict_set rid n (num_scheduled l1),
                   req_to_new_blocks := dict_set rid (svc_get_blocks svc rid (s_kv s)) (req_to_new_blocks l1),
                   spec_decode_tokens := (if pad then dict_set rid (replicate (nat (num_spec_tokens c)) (- 1)) (spec_decode_tokens l1)
                                          else spec_decode_tokens l1),
                   scheduled_loras := (case (max_loras c, lora_int_id r) of
                                         (Some _, Some i) \<Rightarrow> insert i (scheduled_loras l1) | _ \<Rightarrow> scheduled_loras l1)\<rparr>;
           s2 = s\<lparr>requests := (requests s)(rid \<mapsto> r\<lparr>status := RUNNING, num_computed_tokens := num_computed\<rparr>),
                  running := running s @ [rid],
                  inflight_prefills := (if num_computed + n < sr_num_tokens r then insert rid (inflight_prefills s)
                                        else inflight_prefills s)\<rparr>
       in bindE (alloc_encoder svc r v l2 s2) (\<lambda>(l3, s3). Inr (True, l3, s3))))"

text \<open>The allocation of a waiting request and what follows on either outcome.\<close>

definition admit_waiting ::
    "sched_config \<Rightarrow> ('k, 'm) services \<Rightarrow> bool \<Rightarrow> string \<Rightarrow> sreq \<Rightarrow> bool \<Rightarrow> bref list list option \<times> int \<times> int \<Rightarrow> int \<Rightarrow> bool
      \<Rightarrow> enc_sched \<Rightarrow> sloop \<Rightarrow> ('k, 'm) sched \<Rightarrow> (bool \<times> sloop \<times> ('k, 'm) sched) res" where
  "admit_waiting c svc w rid r looked_up hit n pad v l s =
     (case hit of (bs, num_local, num_computed) \<Rightarrow>
      bindE (encoder_tokens c r v) (\<lambda>enc_toks.
      bindE (svc_alloc svc (request.truncate r) n num_local bs (num_lookahead_tokens c) enc_toks (scheduler_reserve_full_isl c)
               (running s \<noteq> []) (s_kv s)) (\<lambda>(res, k).
        let s1 = s\<lparr>s_kv := k\<rparr> in
        if res = None
        then bindE (if sr_enc_features r \<noteq> [] then svc_enc_free svc (enc_view r) (s_enc s1) else Inr (s_enc s1)) (\<lambda>m.
               Inr (False, l, s1\<lparr>s_enc := m\<rparr>))
        else bindE (if looked_up then svc_record_stats svc (request.truncate r) (num_preemptions r) num_local (s_kv s1)
                    else Inr (s_kv s1)) (\<lambda>k2.
             bindE (pop_selected w (s1\<lparr>s_kv := k2\<rparr>)) (\<lambda>(_, s2).
               start_request c svc rid r n num_computed pad v l s2)))))"

text \<open>The size of the chunk for a waiting request, its encoder inputs, and its admission.\<close>

definition place_waiting ::
    "sched_config \<Rightarrow> ('k, 'm) services \<Rightarrow> bool \<Rightarrow> string \<Rightarrow> sreq \<Rightarrow> bool \<Rightarrow> bref list list option \<times> int \<times> int \<Rightarrow> sloop
      \<Rightarrow> ('k, 'm) sched \<Rightarrow> (bool \<times> sloop \<times> ('k, 'm) sched) res" where
  "place_waiting c svc w rid r looked_up hit l s =
     (case waiting_num_new c l r (snd (snd hit)) of None \<Rightarrow> Inr (False, l, s) | Some np \<Rightarrow>
      bindE (py_assert (0 < fst np)) (\<lambda>_.
      case align_waiting c r (fst (snd hit)) np of None \<Rightarrow> Inr (False, l, s) | Some aligned \<Rightarrow>
      bindE (try_encoder c svc r (snd (snd hit)) (fst aligned) l s) (\<lambda>(v, s1).
        let n = reserve_prefill_lookahead c r (snd (snd hit)) (es_num_new_tokens v) in
        if n = 0 then Inr (False, l, s1) else admit_waiting c svc w rid r looked_up hit n (snd aligned) v l s1)))"

definition wait_one ::
    "sched_config \<Rightarrow> ('k, 'm) services \<Rightarrow> bool \<Rightarrow> sloop \<Rightarrow> ('k, 'm) sched \<Rightarrow> (bool \<times> sloop \<times> ('k, 'm) sched) res" where
  "wait_one c svc defer_prefills l s =
     bindE (select_waiting_queue c s) (\<lambda>sel.
     case sel of None \<Rightarrow> Inl AssertionError | Some w \<Rightarrow>
     bindE (rq_peek (selected_queue w s)) (\<lambda>q.
     let rid = request_id q in
     bindE (get_req rid s) (\<lambda>r0.
     bindE (if is_blocked_waiting_status (status r0) then try_promote rid s else Inr (True, s)) (\<lambda>(ready, s1).
     if \<not> ready then skip_waiting w l s1
     else bindE (get_req rid s1) (\<lambda>r1.
       if 0 < num_stale_output_tokens r1 \<and> \<not> drop_stale_output r1 \<or> lora_conflict c l r1 then skip_waiting w l s1
       else bindE (lookup_waiting svc rid r1 s1) (\<lambda>(hit, s2).
         if defer_prefills \<and> snd (snd hit) < sr_num_tokens r1 - 1 then Inr (False, l, s2)
         else bindE (get_req rid s2) (\<lambda>r2.
           place_waiting c svc w rid r2 (num_computed_tokens r1 = 0) hit l s2)))))))"

lemma siftup_loop_length: "siftup_loop h p = (h', p') \<Longrightarrow> length h' = length h"
  by (induction h p arbitrary: h' p' rule: siftup_loop.induct) (subst (asm) siftup_loop.simps, auto split: if_splits)

lemma siftup_length: "length (siftup h p) = length h"
  by (auto simp: siftup_def siftdown_def siftdown_loop_length Let_def split: prod.split dest: siftup_loop_length)

lemma butlast_Nil_length: "xs \<noteq> [] \<Longrightarrow> butlast xs = [] \<Longrightarrow> length xs = Suc 0"
  by (cases xs) (auto split: if_splits)

lemma rq_pop_len: "rq_pop q = Inr (x, q') \<Longrightarrow> rq_len q = Suc (rq_len q')"
  by (cases q)
    (auto simp: bindE_eq_Inr fcfs_pop_request_def pq_pop_request_def heappop_def siftup_length Let_def Suc_le_eq butlast_Nil_length
      split: list.splits if_splits)

definition num_queued :: "('k, 'm) sched \<Rightarrow> nat" where
  "num_queued s = rq_len (waiting s) + rq_len (skipped_waiting s)"

lemma pop_selected_len: "pop_selected w s = Inr (q, s') \<Longrightarrow> num_queued s = Suc (num_queued s')"
  by (auto simp: pop_selected_def bindE_eq_Inr num_queued_def selected_queue_def dest!: rq_pop_len split: if_splits)

definition same_queues :: "('k, 'm) sched \<Rightarrow> ('k, 'm) sched \<Rightarrow> bool" where
  "same_queues s s' \<longleftrightarrow> waiting s' = waiting s \<and> skipped_waiting s' = skipped_waiting s"

lemma same_queues_len: "same_queues s s' \<Longrightarrow> num_queued s' = num_queued s"
  by (simp add: same_queues_def num_queued_def)

lemma put_req_queues [simp]: "waiting (put_req rid r s) = waiting s" "skipped_waiting (put_req rid r s) = skipped_waiting s"
  by (simp_all add: put_req_def)

lemma try_promote_queues: "try_promote rid s = Inr (b, s') \<Longrightarrow> same_queues s s'"
  by (auto simp: try_promote_def bindE_eq_Inr same_queues_def split: if_splits)

lemma lookup_waiting_queues: "lookup_waiting svc rid r s = Inr (h, s') \<Longrightarrow> same_queues s s'"
  by (auto simp: lookup_waiting_def bindE_eq_Inr same_queues_def split: if_splits)

lemma try_encoder_queues: "try_encoder c svc r nc n l s = Inr (v, s') \<Longrightarrow> same_queues s s'"
  by (auto simp: try_encoder_def bindE_eq_Inr same_queues_def split: if_splits)

lemma alloc_encoder_queues: "alloc_encoder svc r v l s = Inr (l', s') \<Longrightarrow> same_queues s s'"
  by (auto simp: alloc_encoder_def bindE_eq_Inr same_queues_def)

lemma alloc_encoder_goes:
  assumes "bindE (alloc_encoder svc r v l s) (\<lambda>(l1, s1). Inr (True, l1, s1)) = Inr (b, l', s')"
  shows "alloc_encoder svc r v l s = Inr (l', s') \<and> b"
  using assms by (cases "alloc_encoder svc r v l s") auto

lemma start_request_queues:
  assumes "start_request c svc rid r n nc pad v l s = Inr (b, l', s')"
  shows "same_queues s s'"
proof -
  from assms obtain l2 rs run inf where "alloc_encoder svc r v l2 (s\<lparr>requests := rs, running := run, inflight_prefills := inf\<rparr>) = Inr (l', s')"
    unfolding start_request_def Let_def by (elim bindE_InrE [of "if _ then _ else _"] bindE_InrE [of "py_assert _"]) (drule alloc_encoder_goes, blast)
  from alloc_encoder_queues [OF this] show ?thesis by (simp add: same_queues_def)
qed

lemma admit_waiting_pops:
  assumes "admit_waiting c svc w rid r looked hit n pad v l s = Inr (True, l', s')"
  shows "num_queued s = Suc (num_queued s')"
proof -
  obtain bs nl nc where hit: "hit = (bs, nl, nc)" by (cases hit)
  from assms obtain enc_toks res k where a: "encoder_tokens c r v = Inr enc_toks"
    "svc_alloc svc (request.truncate r) n nl bs (num_lookahead_tokens c) enc_toks (scheduler_reserve_full_isl c) (running s \<noteq> []) (s_kv s)
      = Inr (res, k)"
    by (auto simp: admit_waiting_def hit bindE_eq_Inr)
  with assms have "res \<noteq> None" by (auto simp: admit_waiting_def hit bindE_eq_Inr Let_def split: if_splits)
  with assms a obtain k2 q s2 where "pop_selected w (s\<lparr>s_kv := k2\<rparr>) = Inr (q, s2)"
    "start_request c svc rid r n nc pad v l s2 = Inr (True, l', s')"
    by (auto simp: admit_waiting_def hit bindE_eq_Inr Let_def)
  with pop_selected_len start_request_queues [THEN same_queues_len] show ?thesis by (fastforce simp: num_queued_def)
qed

lemma skip_waiting_pops: "skip_waiting w l s = Inr (b, l', s') \<Longrightarrow> num_queued s = Suc (num_queued s')"
  by (auto simp: skip_waiting_def bindE_eq_Inr dest!: pop_selected_len)

lemma place_waiting_pops:
  assumes "place_waiting c svc w rid r looked hit l s = Inr (True, l', s')"
  shows "num_queued s = Suc (num_queued s')"
proof -
  obtain np where np: "waiting_num_new c l r (snd (snd hit)) = Some np" using assms by (auto simp: place_waiting_def split: option.splits)
  obtain al where al: "align_waiting c r (fst (snd hit)) np = Some al"
    using assms by (auto simp: place_waiting_def np bindE_eq_Inr split: option.splits)
  obtain v s1 where v: "try_encoder c svc r (snd (snd hit)) (fst al) l s = Inr (v, s1)"
    using assms by (auto simp: place_waiting_def np al bindE_eq_Inr)
  have "\<exists>n. admit_waiting c svc w rid r looked hit n (snd al) v l s1 = Inr (True, l', s')"
    using assms by (auto simp: place_waiting_def np al v bindE_eq_Inr Let_def split: if_splits)
  with admit_waiting_pops same_queues_len [OF try_encoder_queues [OF v]] show ?thesis by fastforce
qed

lemma wait_one_pops:
  assumes "wait_one c svc defer_prefills l s = Inr (True, l', s')"
  shows "num_queued s = Suc (num_queued s')"
proof -
  obtain w where w: "select_waiting_queue c s = Inr (Some w)"
    using assms by (auto simp: wait_one_def bindE_eq_Inr split: option.splits)
  obtain q r0 ready s1 where a: "rq_peek (selected_queue w s) = Inr q" "get_req (request_id q) s = Inr r0"
    "(if is_blocked_waiting_status (status r0) then try_promote (request_id q) s else Inr (True, s)) = Inr (ready, s1)"
    using assms by (auto simp: wait_one_def w bindE_eq_Inr Let_def)
  have n1: "num_queued s1 = num_queued s" using a(3) by (auto split: if_splits dest!: try_promote_queues same_queues_len)
  have "num_queued s1 = Suc (num_queued s')"
  proof (cases "\<exists>b. skip_waiting w l s1 = Inr (b, l', s')")
    case True
    then show ?thesis using skip_waiting_pops by blast
  next
    case False
    have "\<exists>r1 hit s2 r2. lookup_waiting svc (request_id q) r1 s1 = Inr (hit, s2)
        \<and> place_waiting c svc w (request_id q) r2 (num_computed_tokens r1 = 0) hit l s2 = Inr (True, l', s')"
      using assms False by (auto simp: wait_one_def w a bindE_eq_Inr Let_def split: if_splits; blast)
    with place_waiting_pops lookup_waiting_queues [THEN same_queues_len] show ?thesis by metis
  qed
  with n1 show ?thesis by simp
qed

function wait_loop ::
    "sched_config \<Rightarrow> ('k, 'm) services \<Rightarrow> bool \<Rightarrow> sloop \<Rightarrow> ('k, 'm) sched \<Rightarrow> (sloop \<times> ('k, 'm) sched) res" where
  "wait_loop c svc defer_prefills l s =
     (if num_queued s \<noteq> 0 \<and> 0 < token_budget l \<and> \<not> input_budget l \<le> draft_slots c
         \<and> \<not> max_num_running_reqs c \<le> int (length (running s)) + num_waiting_for_streaming_input s
      then bindE (wait_one c svc defer_prefills l s) (\<lambda>(go, l1, s1).
             if go then wait_loop c svc defer_prefills l1 s1 else Inr (l1, s1))
      else Inr (l, s))"
  by pat_completeness auto
termination
  by (relation "measure (\<lambda>(c, svc, d, l, s). num_queued s)") (auto dest!: wait_one_pops)

declare wait_loop.simps [simp del]

text \<open>The LoRA adapters of the running requests scheduled so far.\<close>

definition running_loras :: "sched_config \<Rightarrow> sloop \<Rightarrow> ('k, 'm) sched \<Rightarrow> int set res" where
  "running_loras c l s =
     (case max_loras c of
        None \<Rightarrow> Inr {}
      | Some n \<Rightarrow>
          let ids = set (filter (\<lambda>i. 0 < i) (List.map_filter (\<lambda>rid. Option.bind (requests s rid) lora_int_id) (scheduled_running l)))
          in bindE (py_assert (int (card ids) \<le> n)) (\<lambda>_. Inr ids))"

definition schedule_waiting ::
    "sched_config \<Rightarrow> ('k, 'm) services \<Rightarrow> bool \<Rightarrow> sloop \<Rightarrow> ('k, 'm) sched \<Rightarrow> (sloop \<times> ('k, 'm) sched) res" where
  "schedule_waiting c svc defer_prefills l s =
     (if preempted l = [] \<and> pause_mode s = UNPAUSED
      then bindE (wait_loop c svc defer_prefills l s) (\<lambda>(l1, s1).
             let s2 = (if rq_len (step_skipped l1) \<noteq> 0
                       then s1\<lparr>skipped_waiting := rq_prepend_many (skipped_waiting s1) (rq_iter (step_skipped l1))\<rparr> else s1)
             in Inr (l1, if defer_prefills then s2 else s2\<lparr>prefill_capacity_bound := (rq_len (waiting s2) \<noteq> 0)\<rparr>))
      else Inr (l, s))"

section \<open>The end of a step\<close>

text \<open>
  \<open>_update_after_schedule\<close>.  The asynchronous scheduler also adds the placeholders of the tokens
  that the step will sample.
\<close>

definition after_schedule_one :: "string \<times> int \<Rightarrow> ('k, 'm) sched \<Rightarrow> ('k, 'm) sched res" where
  "after_schedule_one = (\<lambda>(rid, n) s.
     bindE (get_req rid s) (\<lambda>r.
       let nc = num_computed_tokens r + n;
           r1 = r\<lparr>num_computed_tokens := nc, num_in_flight_tokens := num_in_flight_tokens r + n,
                  is_prefill_chunk := (nc < sr_num_tokens r + num_output_placeholders r)\<rparr>
       in Inr ((put_req rid r1 s)\<lparr>inflight_prefills :=
                 (if is_prefill_chunk r1 then inflight_prefills s else inflight_prefills s - {rid})\<rparr>)))"

definition async_after_one :: "sched_config \<Rightarrow> (string \<times> int list) list \<Rightarrow> string \<times> int \<Rightarrow> ('k, 'm) sched \<Rightarrow> ('k, 'm) sched res" where
  "async_after_one c spec = (\<lambda>(rid, n) s.
     bindE (get_req rid s) (\<lambda>r.
       if is_prefill_chunk r then Inr s
       else let drafts = (case map_of spec rid of None \<Rightarrow> [] | Some ts \<Rightarrow> ts)
            in Inr (put_req rid (r\<lparr>num_output_placeholders :=
                        num_output_placeholders r + num_sampled_tokens_per_step c + int (length drafts),
                      spec_token_ids := spec_token_placeholders s,
                      next_decode_eligible_step :=
                        (if use_v2_model_runner c then current_step s + pp_size c else next_decode_eligible_step r)\<rparr>) s)))"

definition num_spec_to_schedule :: "sched_config \<Rightarrow> int \<Rightarrow> int res" where
  "num_spec_to_schedule c num_reqs =
     (case dynamic_sd_lookup c of
        Some tbl \<Rightarrow> if 0 < num_reqs then py_get tbl num_reqs else Inr (num_spec_tokens c)
      | None \<Rightarrow> Inr (num_spec_tokens c))"

definition after_schedule :: "sched_config \<Rightarrow> int \<Rightarrow> sloop \<Rightarrow> ('k, 'm) sched \<Rightarrow> ('k, 'm) sched res" where
  "after_schedule c num_spec l s =
     bindE (foldE after_schedule_one (num_scheduled l) s) (\<lambda>s1.
       let s2 = s1\<lparr>finished_req_ids := {}, reset_preempted_req_ids := {}\<rparr>
       in if async_scheduling c
          then foldE (async_after_one c (spec_decode_tokens l)) (num_scheduled l)
                 (s2\<lparr>spec_token_placeholders := replicate (nat num_spec) (- 1)\<rparr>)
          else Inr s2)"

record sched_output =
  out_new :: "string list"
  out_resumed :: "string list"
  out_running :: "string list"
  out_num_scheduled :: "(string \<times> int) list"
  out_total :: int
  out_spec :: "(string \<times> int list) list"
  out_encoder_inputs :: "(string \<times> int list) list"
  out_common_prefix :: "int list"
  out_copies :: "(int \<times> int) list"
  out_new_block_ids :: "int list"
  out_finished :: "string set"
  out_preempted :: "string set"
  out_freed_mm :: "string list"

text \<open>The two loops of \<open>schedule\<close>, up to the assertions on their result.\<close>

definition schedule_loops ::
    "sched_config \<Rightarrow> ('k, 'm) services \<Rightarrow> bool \<Rightarrow> ('k, 'm) sched \<Rightarrow> (sloop \<times> ('k, 'm) sched) res" where
  "schedule_loops c svc throttle_prefills s0 =
     (let s = s0\<lparr>current_step := current_step s0 + 1, s_kv := svc_new_step svc (s_kv s0)\<rparr>;
          defer_prefills = (throttle_prefills \<and> \<not> prefill_capacity_bound s
            \<and> (\<exists>rid \<in> set (running s). case requests s rid of None \<Rightarrow> False | Some r \<Rightarrow> \<not> is_prefill_chunk r))
      in bindE (run_loop c svc defer_prefills (sched_start c (pause_mode s)) s) (\<lambda>(l1, s1).
         bindE (running_loras c l1 s1) (\<lambda>loras.
         schedule_waiting c svc defer_prefills (l1\<lparr>scheduled_loras := loras\<rparr>) s1)))"

definition schedule ::
    "sched_config \<Rightarrow> ('k, 'm) services \<Rightarrow> bool \<Rightarrow> ('k, 'm) sched \<Rightarrow> (sched_output \<times> ('k, 'm) sched) res" where
  "schedule c svc throttle_prefills s =
     bindE (schedule_loops c svc throttle_prefills s) (\<lambda>(l2, s2).
         let total_toks = sum_list (map snd (num_scheduled l2)) in
         bindE (py_assert (total_toks \<le> max_num_scheduled_tokens c)) (\<lambda>_.
         bindE (py_assert (0 \<le> token_budget l2)) (\<lambda>_.
         bindE (py_assert (0 \<le> input_budget l2)) (\<lambda>_.
         bindE (py_assert (int (length (running s2)) \<le> max_num_running_reqs c)) (\<lambda>_.
         bindE (py_assert (length (scheduled_new l2) + length (scheduled_resumed l2) + length (scheduled_running l2)
                             \<le> length (running s2))) (\<lambda>_.
         let (prefix, k3) = (if running s2 \<noteq> [] then svc_common_prefix svc (hd (running s2)) (s_kv s2) else ([], s_kv s2)) in
         bindE (svc_copies svc k3) (\<lambda>(copies, k4).
         bindE (num_spec_to_schedule c (int (length (num_scheduled l2)))) (\<lambda>num_spec.
         let (freed, m4) = svc_enc_freed svc (s_enc s2);
             (block_ids, k5) = svc_new_block_ids svc k4;
             out = \<lparr>out_new = scheduled_new l2, out_resumed = scheduled_resumed l2, out_running = scheduled_running l2,
                    out_num_scheduled = num_scheduled l2, out_total = total_toks, out_spec = spec_decode_tokens l2,
                    out_encoder_inputs = encoder_inputs l2, out_common_prefix = prefix, out_copies = copies,
                    out_new_block_ids = block_ids, out_finished = finished_req_ids s2,
                    out_preempted = reset_preempted_req_ids s2, out_freed_mm = freed\<rparr>
         in bindE (after_schedule c num_spec l2 (s2\<lparr>s_kv := svc_advance svc (num_scheduled l2) k5, s_enc := m4\<rparr>)) (\<lambda>s3.
            Inr (out, s3))))))))))"

end
