(* ===== verification/Sched_Output.thy ===== *)
theory Sched_Output
  imports Sched_Step
begin

text \<open>
  The second half of the scheduler's cycle, \<open>update_from_output\<close> in \<^verbatim>\<open>vllm/v1/core/sched/scheduler.py\<close> with
  the override of \<^verbatim>\<open>async_scheduler.py\<close>, the remaining operations of the scheduler, and the services
  that the other theories model.
\<close>

section \<open>Processing the output of a step\<close>

text \<open>
  What the model runner returns: the sampled tokens of each request, whether it has a pooled
  output, and whether the grammar of the request accepts the tokens (true without a grammar).
\<close>

record model_output =
  mo_sampled :: "string \<Rightarrow> int list"
  mo_pooled :: "string \<Rightarrow> bool"
  mo_accepted :: "string \<Rightarrow> int list \<Rightarrow> bool"

definition out_view :: "sreq \<Rightarrow> out_request" where
  "out_view r = \<lparr>or_all_token_ids = all_token_ids r, output_token_ids = sr_output_token_ids r, max_tokens = sr_max_tokens r,
     or_sampling_params = sr_sampling_params r, or_pooling_params = sr_pooling_params r, or_status = status r,
     or_stop_reason = sr_stop_reason r\<rparr>"

text \<open>\<open>_update_request_with_output\<close> on the request object: every token is hashed as it is appended.\<close>

definition append_sampled :: "int \<Rightarrow> sreq \<Rightarrow> sreq" where
  "append_sampled t r = r\<lparr>all_token_ids := all_token_ids r @ [t], sr_output_token_ids := sr_output_token_ids r @ [t]\<rparr>"

fun deliver :: "sched_config \<Rightarrow> ('k, 'm) services \<Rightarrow> int list \<Rightarrow> sreq \<Rightarrow> ((int list \<times> bool) \<times> sreq) res" where
  "deliver c svc [] r = Inr (([], False), r)"
| "deliver c svc (t # ts) r =
     bindE (svc_hash svc (request.truncate (append_sampled t r))) (\<lambda>h.
       let r1 = (append_sampled t r)\<lparr>block_hashes := block_hashes h\<rparr> in
       bindE (check_stop (model_len c) (out_view r1)) (\<lambda>(stopped, q).
         let r2 = r1\<lparr>status := or_status q, sr_stop_reason := or_stop_reason q\<rparr> in
         if stopped then Inr (([t], True), r2)
         else bindE (deliver c svc ts r2) (\<lambda>((kept, stopped'), r3). Inr ((t # kept, stopped'), r3))))"

text \<open>The override of the asynchronous scheduler: placeholders are paid back and the new blocks cached.\<close>

definition deliver_output ::
    "sched_config \<Rightarrow> ('k, 'm) services \<Rightarrow> bool \<Rightarrow> int list \<Rightarrow> sreq \<Rightarrow> 'k \<Rightarrow> ((int list \<times> bool) \<times> sreq \<times> 'k) res" where
  "deliver_output c svc is_stale ts r k =
     bindE (deliver c svc ts r) (\<lambda>((kept, stopped), r1).
       if \<not> async_scheduling c then Inr ((kept, stopped), r1, k)
       else let r2 = (if is_stale then r1 else r1\<lparr>num_output_placeholders := num_output_placeholders r1 - int (length kept)\<rparr>) in
            bindE (py_assert (is_stale \<or> 0 \<le> num_output_placeholders r2)) (\<lambda>_.
            bindE (if status r = RUNNING
                   then svc_cache svc (request.truncate r2) (num_computed_tokens r2 - num_output_placeholders r2) k
                   else Inr k) (\<lambda>k1. Inr ((kept, stopped), r2, k1))))"

text \<open>The tokens of the step leave the pipeline; a rejected draft rolls the computed tokens back.\<close>

definition settle_step :: "int \<Rightarrow> sreq \<Rightarrow> (bool \<times> sreq) res" where
  "settle_step n r =
     (let r1 = r\<lparr>num_in_flight_tokens := num_in_flight_tokens r - n\<rparr>
      in if 0 < num_stale_output_tokens r1
         then let r2 = r1\<lparr>num_stale_output_tokens := num_stale_output_tokens r1 - n\<rparr>
              in bindE (py_assert (0 \<le> num_stale_output_tokens r2)) (\<lambda>_. Inr (True, r2))
         else Inr (False, r1))"

definition reject_drafts :: "sched_config \<Rightarrow> bool \<Rightarrow> int list \<Rightarrow> int list \<Rightarrow> sreq \<Rightarrow> sreq" where
  "reject_drafts c is_stale drafts ts r =
     (if drafts \<noteq> [] \<and> (ts \<noteq> [] \<or> num_sampled_tokens_per_step c = 0) \<and> \<not> is_stale
      then let rejected = int (length drafts) - max (int (length ts) - num_sampled_tokens_per_step c) 0
           in r\<lparr>num_computed_tokens := (if 0 < num_computed_tokens r then num_computed_tokens r - rejected else num_computed_tokens r),
                num_output_placeholders := (if 0 < num_output_placeholders r then num_output_placeholders r - rejected
                                            else num_output_placeholders r)\<rparr>
      else r)"

text \<open>How a request ends its step: by its tokens, a pooled output, or a consumed prompt of an encoder instance.\<close>

definition finish_step ::
    "sched_config \<Rightarrow> ('k, 'm) services \<Rightarrow> model_output \<Rightarrow> string \<Rightarrow> bool \<Rightarrow> sreq \<Rightarrow> 'k \<Rightarrow> ((int list \<times> bool) \<times> sreq \<times> 'k) res" where
  "finish_step c svc mo rid is_stale r k =
     (let ts = mo_sampled mo rid in
      bindE (if ts \<noteq> [] then deliver_output c svc is_stale ts r k
             else if sr_pooling_params r \<and> mo_pooled mo rid
                  \<or> is_mm_encoder_only c \<and> num_prompt_tokens r \<le> num_computed_tokens r
             then Inr (([], True), r\<lparr>status := FINISHED_STOPPED\<rparr>, k)
             else Inr (([], False), r, k)) (\<lambda>((kept, stopped), r1, k1).
        if kept \<noteq> [] \<and> \<not> mo_accepted mo rid kept
        then Inr ((kept, True), r1\<lparr>status := FINISHED_ERROR, resumable := False\<rparr>, k1)
        else Inr ((kept, stopped), r1, k1)))"

text \<open>The requests that stopped while running, the keys of those that stopped while preempted, and the outputs.\<close>

record upd_loop =
  stopped_running :: "string set"
  stopped_preempted :: "qreq set"
  engine_outputs :: "(string \<times> int list \<times> finish_reason option) list"

definition stop_step ::
    "('k, 'm) services \<Rightarrow> string \<Rightarrow> request_status \<Rightarrow> upd_loop \<times> ('k, 'm) sched \<Rightarrow> (upd_loop \<times> ('k, 'm) sched) res" where
  "stop_step svc rid before = (\<lambda>(u, s).
     bindE (handle_stopped_request svc rid s) (\<lambda>(fin, s1).
     bindE (get_req rid s1) (\<lambda>r1.
     bindE (if fin then free_request svc rid s1 else Inr s1) (\<lambda>s2.
       Inr (if before = RUNNING then u\<lparr>stopped_running := insert rid (stopped_running u)\<rparr>
            else u\<lparr>stopped_preempted := insert (sr_key r1) (stopped_preempted u)\<rparr>, s2)))))"

definition update_one ::
    "sched_config \<Rightarrow> ('k, 'm) services \<Rightarrow> sched_output \<Rightarrow> model_output \<Rightarrow> string \<times> int \<Rightarrow> upd_loop \<times> ('k, 'm) sched
      \<Rightarrow> (upd_loop \<times> ('k, 'm) sched) res" where
  "update_one c svc so mo = (\<lambda>(rid, n) (u, s).
     bindE (py_assert (0 < n)) (\<lambda>_.
     case requests s rid of None \<Rightarrow> Inr (u, s) | Some r \<Rightarrow>
     bindE (settle_step n r) (\<lambda>(is_stale, r1).
     if is_finished (status r1) \<or> is_stale \<and> drop_stale_output r1 then Inr (u, put_req rid r1 s)
     else
       let drafts = (case map_of (out_spec so) rid of None \<Rightarrow> [] | Some ts \<Rightarrow> ts);
           r2 = reject_drafts c is_stale drafts (mo_sampled mo rid) r1 in
       bindE (if sr_enc_features r2 \<noteq> []
              then svc_enc_free_inputs svc (num_computed_tokens r2) (num_output_placeholders r2) (enc_view r2) (s_enc s)
              else Inr (s_enc s)) (\<lambda>m.
       bindE (finish_step c svc mo rid is_stale r2 (s_kv s)) (\<lambda>((kept, stopped), r3, k).
         let emit = (kept \<noteq> [] \<or> mo_pooled mo rid \<or> stopped);
             r4 = (if emit then r3\<lparr>has_prefill_stats := False\<rparr> else r3);
             u1 = (if emit then u\<lparr>engine_outputs := engine_outputs u
                      @ [(rid, kept, if stopped then get_finished_reason (status r3) else None)]\<rparr> else u);
             s1 = (put_req rid r4 s)\<lparr>s_kv := k, s_enc := m\<rparr>
         in if stopped then stop_step svc rid (status r2) (u1, s1) else Inr (u1, s1))))))"

text \<open>After the loop the stopped requests leave the running list and the queues.\<close>

definition remove_stopped :: "upd_loop \<Rightarrow> ('k, 'm) sched \<Rightarrow> ('k, 'm) sched" where
  "remove_stopped u s =
     (let s2 = (if stopped_running u \<noteq> {} then s\<lparr>running := remove_all (running s) (stopped_running u)\<rparr> else s)
      in if stopped_preempted u \<noteq> {}
         then s2\<lparr>waiting := rq_remove_many (waiting s2) (stopped_preempted u),
                 skipped_waiting := rq_remove_many (skipped_waiting s2) (stopped_preempted u)\<rparr>
         else s2)"

definition update_from_output ::
    "sched_config \<Rightarrow> ('k, 'm) services \<Rightarrow> sched_output \<Rightarrow> model_output \<Rightarrow> ('k, 'm) sched
      \<Rightarrow> ((string \<times> int list \<times> finish_reason option) list \<times> ('k, 'm) sched) res" where
  "update_from_output c svc so mo s =
     bindE (svc_process svc (out_total so) (s_kv s)) (\<lambda>k.
     bindE (foldE (update_one c svc so mo) (out_num_scheduled so)
              (\<lparr>stopped_running = {}, stopped_preempted = {}, engine_outputs = []\<rparr>, s\<lparr>s_kv := k\<rparr>)) (\<lambda>(u, s1).
       let s3 = remove_stopped u s1;
           errors = grammar_compile_error_reqs s3; s4 = s3\<lparr>grammar_compile_error_reqs := {}\<rparr> in
       bindE (if errors \<noteq> {} then finish_requests svc (svc_set_order svc errors) FINISHED_ERROR s4 else Inr ([], s4)) (\<lambda>(failed, s5).
         let (events, k6) = svc_take_events svc (s_kv s5); (stats, k7) = svc_make_stats svc k6
         in Inr (engine_outputs u @ map (\<lambda>rid. (rid, [], Some Reason_ERROR)) failed, s5\<lparr>s_kv := k7\<rparr>))))"

section \<open>Draft tokens, pausing and cache resets\<close>

definition update_draft_token_ids :: "(string \<Rightarrow> int list \<Rightarrow> int list) \<Rightarrow> (string \<times> int list) list \<Rightarrow> ('k, 'm) sched \<Rightarrow> ('k, 'm) sched" where
  "update_draft_token_ids validate drafts s =
     foldl (\<lambda>s (rid, ts). case requests s rid of
         None \<Rightarrow> s
       | Some r \<Rightarrow> if is_finished (status r) then s
           else put_req rid (r\<lparr>spec_token_ids := (if is_prefill_chunk r then [] else validate rid ts)\<rparr>) s) s drafts"

definition set_pause_state :: "pause_state \<Rightarrow> ('k, 'm) sched \<Rightarrow> ('k, 'm) sched" where
  "set_pause_state p s = s\<lparr>pause_mode := p\<rparr>"

definition get_request_counts :: "('k, 'm) sched \<Rightarrow> int \<times> int" where
  "get_request_counts s = (int (length (running s)), int (rq_len (waiting s)) + int (rq_len (skipped_waiting s)))"

definition get_num_unfinished_requests :: "('k, 'm) sched \<Rightarrow> int" where
  "get_num_unfinished_requests s =
     (case pause_mode s of
        PAUSED_ALL \<Rightarrow> 0
      | PAUSED_NEW \<Rightarrow> int (length (running s))
      | UNPAUSED \<Rightarrow> int (rq_len (waiting s)) + int (rq_len (skipped_waiting s)) - num_waiting_for_streaming_input s
                   + int (length (running s)))"

fun preempt_all :: "('k, 'm) services \<Rightarrow> string list \<Rightarrow> ('k, 'm) sched \<Rightarrow> ('k, 'm) sched res" where
  "preempt_all svc [] s = Inr s"
| "preempt_all svc (rid # rids) s =
     bindE (preempt_request svc rid True (s\<lparr>running := butlast (running s)\<rparr>)) (preempt_all svc rids)"

definition sched_reset_prefix_cache :: "('k, 'm) services \<Rightarrow> bool \<Rightarrow> ('k, 'm) sched \<Rightarrow> (bool \<times> ('k, 'm) sched) res" where
  "sched_reset_prefix_cache svc reset_running s =
     bindE (if reset_running then preempt_all svc (rev (running s)) s else Inr s) (\<lambda>s1.
     bindE (svc_reset_cache svc (s_kv s1)) (\<lambda>(ok, k).
       if reset_running \<and> \<not> ok then Inl RuntimeError else Inr (ok, s1\<lparr>s_kv := k\<rparr>)))"

definition reset_encoder_cache :: "('k, 'm) services \<Rightarrow> ('k, 'm) sched \<Rightarrow> ('k, 'm) sched" where
  "reset_encoder_cache svc s = s\<lparr>s_enc := svc_enc_reset svc (s_enc s)\<rparr>"

section \<open>The modelled components as services\<close>

text \<open>
  The lookup and the hasher could in general not return (\<open>None\<close>, and then \<open>the\<close> is unspecified); for
  positive block sizes both do, see \<open>lookup_returns\<close> in \<open>Lookup_Total\<close> and \<open>Block_Hash\<close>.
  An all-empty lookup result is the shared object that \<open>allocate_slots\<close> recognises.  The start of a
  step is a notification that concerns Mamba layers only.
\<close>

definition vllm_services ::
    "hash_fn \<Rightarrow> bytes \<Rightarrow> int \<Rightarrow> (int set \<Rightarrow> int list) \<Rightarrow> (string set \<Rightarrow> string list) \<Rightarrow> int \<Rightarrow> bool
      \<Rightarrow> (sched_blocks, enc_cache) services" where
  "vllm_services H none_hash hash_bs input_order id_order lookahead no_chunk =
     \<lparr>svc_alloc = (\<lambda>r n num_local bs look enc must_fit others k.
        bindE (allocate_slots r n num_local (case bs of None \<Rightarrow> None | Some b \<Rightarrow> if list_ex (\<lambda>g. g \<noteq> []) b then Some b else None)
                 look 0 False enc must_fit 0 others (sb_kvm k)) (\<lambda>(res, v). Inr (res, k\<lparr>sb_kvm := v\<rparr>))),
      svc_lookup = (\<lambda>r k. bindE (the (get_computed_blocks r (sb_kvm k))) (\<lambda>(hit, v). Inr (hit, k\<lparr>sb_kvm := v\<rparr>))),
      svc_get_blocks = (\<lambda>rid k. kvm_get_blocks rid (sb_kvm k)),
      svc_record_stats = (\<lambda>r p n k. bindE (record_prefix_cache_stats r p n (sb_kvm k)) (\<lambda>v. Inr (k\<lparr>sb_kvm := v\<rparr>))),
      svc_free = free_request_blocks,
      svc_cache = (\<lambda>r n k. bindE (kvm_cache_blocks r n (sb_kvm k)) (\<lambda>v. Inr (k\<lparr>sb_kvm := v\<rparr>))),
      svc_reset_cache = (\<lambda>k. bindE (kvm_reset_prefix_cache (sb_kvm k)) (\<lambda>(ok, v). Inr (ok, k\<lparr>sb_kvm := v\<rparr>))),
      svc_common_prefix = (\<lambda>rid k. let (ns, v) = kvm_get_num_common_prefix_blocks rid (sb_kvm k) in (ns, k\<lparr>sb_kvm := v\<rparr>)),
      svc_copies = take_step_copies,
      svc_new_block_ids = (\<lambda>k. let (ids, v) = kvm_take_new_block_ids (sb_kvm k) in (ids, k\<lparr>sb_kvm := v\<rparr>)),
      svc_advance = advance_schedule,
      svc_new_step = (\<lambda>k. k),
      svc_process = process_step,
      svc_take_events = (\<lambda>k. let (es, v) = kvm_take_events (sb_kvm k) in (es, k\<lparr>sb_kvm := v\<rparr>)),
      svc_make_stats = (\<lambda>k. let (st, v) = make_prefix_cache_stats (sb_kvm k) in (st, k\<lparr>sb_kvm := v\<rparr>)),
      svc_set_order = id_order,
      svc_hash = (\<lambda>r. the (update_block_hashes H none_hash hash_bs r)),
      svc_enc_try = (\<lambda>r nc n b sh. try_schedule_encoder_inputs check_and_update_cache can_allocate None False no_chunk r nc n b sh),
      svc_enc_alloc = allocate_scheduled enc_allocate,
      svc_enc_free = enc_free input_order,
      svc_enc_free_inputs = (\<lambda>nc np. free_encoder_inputs get_cached_input_ids free_encoder_input input_order False lookahead nc np),
      svc_enc_freed = get_freed_mm_hashes,
      svc_enc_reset = enc_reset\<rparr>"

end
