(* ===== verification/Sched_Queues.thy ===== *)
theory Sched_Queues
  imports Sched_Output
begin

text \<open>
  Where requests are: every live request is in exactly one place, the running list or a waiting
  queue, and its status says which.  The lemmas about queues here speak about their elements only
  and need no heap order, because a streaming session may change the sort key of a queued request.
\<close>

section \<open>Elements of a queue\<close>

fun rq_elems :: "rqueue \<Rightarrow> qreq list" where
  "rq_elems (FCFSRequestQueue q) = q"
| "rq_elems (PriorityRequestQueue h) = h"

lemma siftup_loop_mset:
  "siftup_loop h p = (h', p') \<Longrightarrow> p < length h \<Longrightarrow> p' < length h \<and> mset (h'[p' := x]) = mset (h[p := x])"
proof (induction h p rule: siftup_loop.induct)
  case (1 h p)
  show ?case
  proof (cases "2 * p + 1 < length h")
    case True
    let ?c = "smaller_child h p"
    have c: "?c < length h" "?c \<noteq> p" using True by (auto simp: smaller_child_def Let_def)
    have "siftup_loop (h[p := h ! ?c]) ?c = (h', p')" using 1(2) True by (subst (asm) siftup_loop.simps) simp
    from 1(1) [OF True this] c have "p' < length h" "mset (h'[p' := x]) = mset ((h[p := h ! ?c])[?c := x])" by simp_all
    moreover have "mset ((h[p := h ! ?c])[?c := x]) = mset (h[p := x])" by (rule mset_swap_hole) (use c 1(3) in auto)
    ultimately show ?thesis by simp
  next
    case False
    with 1(2,3) show ?thesis by (subst (asm) siftup_loop.simps) simp
  qed
qed

lemma mset_siftup: "p < length h \<Longrightarrow> mset (siftup h p) = mset h"
proof -
  assume p: "p < length h"
  obtain h' p' where su: "siftup_loop h p = (h', p')" by fastforce
  from siftup_loop_mset [OF su p, of "h ! p"] siftup_loop_length [OF su] have
    "p' < length h'" "mset (h'[p' := h ! p]) = mset h" by simp_all
  then show ?thesis by (simp add: siftup_def su siftdown_def Let_def mset_siftdown_loop)
qed

lemma mset_heappush: "mset (heappush h x) = add_mset x (mset h)"
  by (simp add: heappush_def siftdown_def mset_siftdown_loop nth_append)

lemma mset_heappop:
  assumes "heappop h = Inr (x, h')"
  shows "mset h = add_mset x (mset h') \<and> x = h ! 0"
proof -
  obtain ys y where h: "h = ys @ [y]" using assms by (cases h rule: rev_cases) (auto simp: heappop_def)
  show ?thesis
  proof (cases ys)
    case Nil
    with assms h show ?thesis by (simp add: heappop_def)
  next
    case (Cons z zs)
    with assms h have "x = z" "h' = siftup (y # zs) 0" by (simp_all add: heappop_def Let_def)
    with Cons h mset_siftup [of 0 "y # zs"] show ?thesis by simp
  qed
qed

lemma rq_elems_add: "mset (rq_elems (rq_add q r)) = add_mset r (mset (rq_elems q))"
  by (cases q) (simp_all add: fcfs_add_request_def pq_add_request_def mset_heappush)

lemma rq_elems_prepend: "mset (rq_elems (rq_prepend q r)) = add_mset r (mset (rq_elems q))"
  by (cases q) (simp_all add: fcfs_prepend_request_def pq_prepend_request_def pq_add_request_def mset_heappush)

lemma rq_elems_pop:
  assumes "rq_pop q = Inr (r, q')"
  shows "mset (rq_elems q) = add_mset r (mset (rq_elems q'))" "rq_peek q = Inr r"
proof (atomize (full), cases q)
  case (FCFSRequestQueue l)
  with assms show "mset (rq_elems q) = add_mset r (mset (rq_elems q')) \<and> rq_peek q = Inr r"
    by (auto simp: bindE_eq_Inr fcfs_pop_request_def fcfs_peek_request_def split: list.splits)
next
  case (PriorityRequestQueue h)
  with assms show "mset (rq_elems q) = add_mset r (mset (rq_elems q')) \<and> rq_peek q = Inr r"
    by (auto simp: bindE_eq_Inr pq_pop_request_def pq_peek_request_def split: if_splits dest!: mset_heappop)
qed

lemma rq_elems_remove_many: "mset (rq_elems (rq_remove_many q S)) = filter_mset (\<lambda>r. r \<notin> S) (mset (rq_elems q))"
  by (cases q) (simp_all add: fcfs_remove_requests_def pq_remove_requests_def heapify_correct)

lemma rq_elems_replace: "rq_elems (rq_replace a b q) = map (\<lambda>x. if x = a then b else x) (rq_elems q)"
  by (cases q) simp_all

lemma rq_len_elems: "rq_len q = length (rq_elems q)"
  by (cases q) simp_all

lemma mset_pq_iter_loop: "k = length h \<Longrightarrow> mset (pq_iter_loop k h) = mset h"
proof (induction k arbitrary: h)
  case (Suc k)
  then have "h \<noteq> []" by auto
  then obtain x h' where p: "heappop h = Inr (x, h')" by (cases "heappop h") (auto simp: heappop_def Let_def split: if_splits)
  from mset_heappop [OF p] have m: "mset h = add_mset x (mset h')" by simp
  with Suc(2) have "k = length h'" by (metis Suc_inject size_add_mset size_mset)
  from Suc.IH [OF this] m p show ?case by simp
qed simp

lemma mset_rq_iter: "mset (rq_iter q) = mset (rq_elems q)"
  by (cases q) (simp_all add: pq_iter_def mset_pq_iter_loop)

lemma rq_elems_prepend_many: "mset (rq_elems (rq_prepend_many q rs)) = mset rs + mset (rq_elems q)"
proof (cases q)
  case (FCFSRequestQueue l)
  have "mset (fold (\<lambda>r d. r # d) rs l) = mset rs + mset l" by (induction rs arbitrary: l) auto
  with FCFSRequestQueue show ?thesis by (simp add: fcfs_prepend_requests_def)
next
  case (PriorityRequestQueue h)
  have "mset (fold (\<lambda>r h. pq_add_request h r) rs h) = mset rs + mset h"
    by (induction rs arbitrary: h) (auto simp: pq_add_request_def mset_heappush)
  with PriorityRequestQueue show ?thesis by (simp add: pq_prepend_requests_def)
qed

section \<open>Every request has one place\<close>

definition queued :: "qreq list \<Rightarrow> ('k, 'm) sched \<Rightarrow> qreq multiset" where
  "queued extra s = mset extra + mset (rq_elems (waiting s)) + mset (rq_elems (skipped_waiting s))"

definition queued_status :: "request_status \<Rightarrow> bool" where
  "queued_status st \<longleftrightarrow> \<not> is_finished st \<and> st \<noteq> RUNNING"

text \<open>
  The place of a request: an id without a request is nowhere; a running request is in the running
  list, once; any other unfinished request has one entry in the queues, with its sort key.
\<close>

definition entries :: "string \<Rightarrow> qreq multiset \<Rightarrow> qreq multiset" where
  "entries rid Q = filter_mset (\<lambda>q. request_id q = rid) Q"

definition place_ok :: "string list \<Rightarrow> qreq multiset \<Rightarrow> string \<Rightarrow> sreq option \<Rightarrow> bool" where
  "place_ok run Q rid v \<longleftrightarrow>
     (case v of
        None \<Rightarrow> count (mset run) rid = 0 \<and> entries rid Q = {#}
      | Some r \<Rightarrow> req_id r = rid \<and> request_id (sr_key r) = rid
          \<and> (if status r = RUNNING then count (mset run) rid = 1 \<and> entries rid Q = {#}
             else queued_status (status r) \<and> count (mset run) rid = 0 \<and> entries rid Q = {#sr_key r#}))"

definition streaming :: "(string \<rightharpoonup> sreq) \<Rightarrow> string set" where
  "streaming rs = {rid. \<exists>r. rs rid = Some r \<and> status r = WAITING_FOR_STREAMING_REQ}"

definition located :: "string list \<Rightarrow> qreq multiset \<Rightarrow> (string \<rightharpoonup> sreq) \<Rightarrow> int \<Rightarrow> bool" where
  "located run Q rs n \<longleftrightarrow> (\<forall>rid. place_ok run Q rid (rs rid)) \<and> finite (streaming rs) \<and> n = int (card (streaming rs))"

definition placed :: "qreq list \<Rightarrow> ('k, 'm) sched \<Rightarrow> bool" where
  "placed extra s \<longleftrightarrow> located (running s) (queued extra s) (requests s) (num_waiting_for_streaming_input s)"

lemma located_running:
  assumes "located run Q rs n" "rid \<in> set run"
  obtains r where "rs rid = Some r" "status r = RUNNING" "req_id r = rid" "request_id (sr_key r) = rid"
    "count (mset run) rid = 1" "entries rid Q = {#}"
proof -
  have "count (mset run) rid \<noteq> 0" using assms(2) by (simp add: count_mset_0_iff)
  with assms(1) that show thesis by (fastforce simp: located_def place_ok_def split: option.splits if_splits)
qed

lemma located_queued:
  assumes "located run Q rs n" "q \<in># Q"
  obtains r where "rs (request_id q) = Some r" "sr_key r = q" "queued_status (status r)" "req_id r = request_id q"
    "request_id q \<notin> set run" "entries (request_id q) Q = {#q#}"
proof -
  have m: "q \<in># entries (request_id q) Q" using assms(2) by (simp add: entries_def)
  obtain r where r: "rs (request_id q) = Some r" "status r \<noteq> RUNNING"
    using assms(1) m by (fastforce simp: located_def place_ok_def split: option.splits if_splits)
  then have e: "entries (request_id q) Q = {#sr_key r#}" "queued_status (status r)" "req_id r = request_id q"
    "count (mset run) (request_id q) = 0"
    using spec [OF conjunct1 [OF assms(1) [unfolded located_def]], of "request_id q"] by (simp_all add: place_ok_def)
  with m have "sr_key r = q" by simp
  with that r e show thesis by (simp add: count_mset_0_iff)
qed

lemma located_distinct: "located run Q rs n \<Longrightarrow> distinct run"
  unfolding distinct_count_atmost_1
proof (intro allI)
  fix x assume l: "located run Q rs n"
  show "count (mset run) x = (if x \<in> set run then 1 else 0)"
  proof (cases "x \<in> set run")
    case True
    with l show ?thesis by (metis located_running)
  qed (simp add: count_mset_0_iff)
qed

text \<open>Everything that changes about one request changes its place only.\<close>

definition is_streaming :: "sreq option \<Rightarrow> int" where
  "is_streaming v = (case v of None \<Rightarrow> 0 | Some r \<Rightarrow> of_bool (status r = WAITING_FOR_STREAMING_REQ))"

lemma card_streaming:
  assumes "finite (streaming rs)"
  shows "finite (streaming (rs(rid := v)))"
    "int (card (streaming (rs(rid := v)))) = int (card (streaming rs)) - is_streaming (rs rid) + is_streaming v"
proof -
  have old: "streaming rs = (if is_streaming (rs rid) = 1 then insert rid (streaming rs - {rid}) else streaming rs - {rid})"
    and new: "streaming (rs(rid := v)) = (if is_streaming v = 1 then insert rid (streaming rs - {rid}) else streaming rs - {rid})"
    by (auto simp: streaming_def is_streaming_def split: option.splits if_splits)
  have v: "is_streaming x = 0 \<or> is_streaming x = 1" for x by (auto simp: is_streaming_def split: option.splits)
  have f: "finite (streaming rs - {rid})" using assms by simp
  have ins: "card (insert rid (streaming rs - {rid})) = Suc (card (streaming rs - {rid}))"
    by (rule card_insert_disjoint) (use f in auto)
  have grow: "int (card X) = int (card (streaming rs - {rid})) + is_streaming w"
    if "X = (if is_streaming w = 1 then insert rid (streaming rs - {rid}) else streaming rs - {rid})" for X w
  proof (cases "is_streaming w = 1")
    case True
    then have "card X = Suc (card (streaming rs - {rid}))" using that ins by (simp only: if_True simp_thms)
    with True show ?thesis by simp
  next
    case False
    with that v [of w] show ?thesis by simp
  qed
  have "int (card (streaming rs)) = int (card (streaming rs - {rid})) + is_streaming (rs rid)" by (rule grow) (rule old)
  moreover have "int (card (streaming (rs(rid := v)))) = int (card (streaming rs - {rid})) + is_streaming v" by (rule grow) (rule new)
  ultimately show "int (card (streaming (rs(rid := v)))) = int (card (streaming rs)) - is_streaming (rs rid) + is_streaming v"
    by simp
  show "finite (streaming (rs(rid := v)))" unfolding new using f by simp
qed

lemma located_change:
  assumes "located run Q rs n"
    and "\<And>x. x \<noteq> rid \<Longrightarrow> count (mset run') x = count (mset run) x" "\<And>x. x \<noteq> rid \<Longrightarrow> entries x Q' = entries x Q"
    and "place_ok run' Q' rid v" and "n' = n - is_streaming (rs rid) + is_streaming v"
  shows "located run' Q' (rs(rid := v)) n'"
  unfolding located_def
proof (intro conjI allI)
  fix x
  have "place_ok run Q x (rs x)" using assms(1) by (simp add: located_def)
  moreover have "place_ok run' Q' x = place_ok run Q x" if "x \<noteq> rid"
    by (simp only: fun_eq_iff place_ok_def assms(2) [OF that] assms(3) [OF that]) simp
  ultimately show "place_ok run' Q' x ((rs(rid := v)) x)" using assms(4) by (cases "x = rid") simp_all
next
  have f: "finite (streaming rs)" "n = int (card (streaming rs))" using assms(1) by (simp_all add: located_def)
  show "finite (streaming (rs(rid := v)))" by (rule card_streaming(1) [OF f(1)])
  show "n' = int (card (streaming (rs(rid := v))))" using card_streaming(2) [OF f(1), of rid v] f(2) assms(5) by simp
qed

lemma entries_simps [simp]:
  "entries x {#} = {#}" "entries x (add_mset q Q) = (if request_id q = x then add_mset q (entries x Q) else entries x Q)"
  "entries x (Q + R) = entries x Q + entries x R" "entries x (Q - R) = entries x Q - entries x R"
  by (simp_all add: entries_def)

lemma located_mset: "mset run = mset run' \<Longrightarrow> located run Q rs n = located run' Q rs n"
  by (simp only: located_def place_ok_def)

lemma located_get: "located run Q rs n \<Longrightarrow> place_ok run Q rid (rs rid)"
  by (simp add: located_def)

text \<open>The five ways in which the scheduler changes one request.\<close>

lemma located_put:
  assumes "located run Q rs n" "rs rid = Some r" "req_id r' = req_id r" "sr_key r' = sr_key r" "status r' = status r"
  shows "located run Q (rs(rid \<mapsto> r')) n"
proof (rule located_change [OF assms(1) refl refl])
  show "place_ok run Q rid (Some r')" using located_get [OF assms(1), of rid] assms(2-5) by (simp add: place_ok_def)
  show "n = n - is_streaming (rs rid) + is_streaming (Some r')" using assms(2,5) by (simp add: is_streaming_def)
qed

lemma located_requeue:
  assumes "located run Q rs n" "rs rid = Some r" "status r \<noteq> RUNNING" "req_id r' = req_id r" "request_id (sr_key r') = rid"
    and "queued_status (status r')" "Q' = Q - {#sr_key r#} + {#sr_key r'#}"
  shows "located run Q' (rs(rid \<mapsto> r')) (n - is_streaming (Some r) + is_streaming (Some r'))"
proof (rule located_change [OF assms(1) refl])
  have p: "req_id r = rid" "request_id (sr_key r) = rid" "count (mset run) rid = 0" "entries rid Q = {#sr_key r#}"
    using located_get [OF assms(1), of rid] assms(2,3) by (simp_all add: place_ok_def)
  show "entries x Q' = entries x Q" if "x \<noteq> rid" for x using that p(2) assms(5) by (simp add: assms(7))
  show "place_ok run Q' rid (Some r')"
    using p assms(4-6) by (auto simp: place_ok_def assms(7) queued_status_def)
qed (simp add: assms(2))

lemma located_start:
  assumes "located run Q rs n" "q \<in># Q" "rs (request_id q) = Some r" "req_id r' = req_id r" "sr_key r' = sr_key r" "status r' = RUNNING"
    and "mset run' = add_mset (request_id q) (mset run)" "status r \<noteq> WAITING_FOR_STREAMING_REQ"
  shows "located run' (Q - {#q#}) (rs(request_id q \<mapsto> r')) n"
proof (rule located_change [OF assms(1)])
  obtain r1 where "rs (request_id q) = Some r1" "sr_key r1 = q" "req_id r1 = request_id q" "request_id q \<notin> set run"
    "entries (request_id q) Q = {#q#}"
    by (rule located_queued [OF assms(1,2)]) blast
  then show "place_ok run' (Q - {#q#}) (request_id q) (Some r')"
    using assms(3-7) by (simp add: place_ok_def count_mset_0_iff)
qed (use assms in \<open>auto simp: is_streaming_def\<close>)

lemma located_unrun:
  assumes "located run Q rs n" "mset run = add_mset rid (mset run')" "rs rid = Some r" "req_id r' = req_id r"
    "request_id (sr_key r') = rid" "queued_status (status r')" "Q' = add_mset (sr_key r') Q"
  shows "located run' Q' (rs(rid \<mapsto> r')) (n + is_streaming (Some r'))"
proof (rule located_change [OF assms(1)])
  have "rid \<in> set run" using assms(2) by (metis set_mset_mset union_single_eq_member)
  then obtain r1 where r: "rs rid = Some r1" "status r1 = RUNNING" "req_id r1 = rid" "request_id (sr_key r1) = rid"
    "count (mset run) rid = 1" "entries rid Q = {#}"
    by (rule located_running [OF assms(1)])
  then show "place_ok run' Q' rid (Some r')"
    using assms(2-7) by (auto simp: place_ok_def queued_status_def)
  show "n + is_streaming (Some r') = n - is_streaming (rs rid) + is_streaming (Some r')"
    using r by (simp add: is_streaming_def)
qed (use assms in auto)

lemma located_new:
  assumes "located run Q rs n" "rs rid = None" "req_id r = rid" "request_id (sr_key r) = rid" "queued_status (status r)"
    "Q' = add_mset (sr_key r) Q"
  shows "located run Q' (rs(rid \<mapsto> r)) (n + is_streaming (Some r))"
proof (rule located_change [OF assms(1) refl])
  show "place_ok run Q' rid (Some r)"
    using located_get [OF assms(1), of rid] assms(2-6) by (auto simp: place_ok_def queued_status_def)
qed (use assms in \<open>auto simp: is_streaming_def\<close>)

lemma located_drop:
  assumes "located run Q rs n" "rs rid = Some r"
    and "mset run' = filter_mset (\<lambda>x. x \<noteq> rid) (mset run)" "Q' = filter_mset (\<lambda>q. request_id q \<noteq> rid) Q"
  shows "located run' Q' (rs(rid := None)) (n - is_streaming (Some r))"
proof (rule located_change [OF assms(1)])
  show "entries x Q' = entries x Q" if "x \<noteq> rid" for x
    using that by (auto simp: assms(4) entries_def filter_filter_mset intro!: filter_mset_cong)
  show "place_ok run' Q' rid None" by (simp add: place_ok_def assms(3,4) entries_def filter_filter_mset)
qed (use assms in \<open>auto simp: is_streaming_def\<close>)

end
