(* ===== verification/Sched_Placed.thy ===== *)
theory Sched_Placed
  imports Sched_Queues
begin

text \<open>
  Every operation of the scheduler keeps each request in exactly one place.  Inside \<open>schedule\<close> the
  requests that the current pass skipped form a third queue.
\<close>

section \<open>Preemption and the running requests\<close>

abbreviation in_place :: "sloop \<Rightarrow> ('k, 'm) sched \<Rightarrow> bool" where
  "in_place l s \<equiv> placed (rq_elems (step_skipped l)) s"

lemma get_req_eq: "get_req rid s = Inr r \<longleftrightarrow> requests s rid = Some r"
  by (auto simp: get_req_def split: option.splits)

lemma post_get_req: "(\<And>r. requests s rid = Some r \<Longrightarrow> Q r) \<Longrightarrow> post (get_req rid s) Q"
  by (auto simp: get_req_def split: option.splits)

text \<open>Changes that do not move any request.\<close>

lemma placed_frame [simp]:
  "placed X (s\<lparr>s_kv := k\<rparr>) = placed X s" "placed X (s\<lparr>s_enc := m\<rparr>) = placed X s"
  "placed X (s\<lparr>inflight_prefills := i\<rparr>) = placed X s" "placed X (s\<lparr>finished_req_ids := i\<rparr>) = placed X s"
  "placed X (s\<lparr>reset_preempted_req_ids := i\<rparr>) = placed X s" "placed X (s\<lparr>grammar_compile_error_reqs := i\<rparr>) = placed X s"
  "placed X (s\<lparr>current_step := n\<rparr>) = placed X s" "placed X (s\<lparr>prefill_capacity_bound := b\<rparr>) = placed X s"
  "placed X (s\<lparr>pause_mode := p\<rparr>) = placed X s" "placed X (s\<lparr>spec_token_placeholders := ts\<rparr>) = placed X s"
  by (simp_all add: placed_def queued_def)

lemma placed_put:
  assumes "placed X s" "requests s rid = Some r" "req_id r' = req_id r" "sr_key r' = sr_key r" "status r' = status r"
  shows "placed X (put_req rid r' s)"
  using located_put [OF assms(1) [unfolded placed_def] assms(2-5)] by (simp add: placed_def put_req_def queued_def)

lemma preempt_request_placed:
  assumes "located (rid # running s) (queued X s) (requests s) (num_waiting_for_streaming_input s)"
  shows "post (preempt_request svc rid b s) (\<lambda>s'. placed X s' \<and> running s' = running s)"
  unfolding preempt_request_def
proof (rule post_bind, rule post_get_req, rule post_bind, rule post_assert, rule post_any, rule post_any)
  fix r k m
  assume r: "requests s rid = Some r"
  let ?r = "r\<lparr>status := PREEMPTED, num_computed_tokens := 0, spec_token_ids := [],
    drop_stale_output := (b \<or> drop_stale_output r \<and> 0 < num_stale_output_tokens r),
    num_stale_output_tokens := num_in_flight_tokens r, num_output_placeholders := 0, num_preemptions := num_preemptions r + 1\<rparr>"
  have key: "request_id (sr_key r) = rid"
    using located_get [OF assms, of rid] r by (simp add: place_ok_def)
  have q: "queued_status PREEMPTED" by (simp add: queued_status_def is_finished_def less_request_status_def)
  have "located (running s) (add_mset (sr_key r) (queued X s)) ((requests s)(rid \<mapsto> ?r)) (num_waiting_for_streaming_input s + is_streaming (Some ?r))"
    by (rule located_unrun [OF assms _ r]) (simp_all add: key q)
  then show "post (let r1 = ?r in Inr (s\<lparr>requests := (requests s)(rid \<mapsto> r1), waiting := rq_prepend (waiting s) (sr_key r), s_kv := k, s_enc := m,
      reset_preempted_req_ids := insert rid (reset_preempted_req_ids s), inflight_prefills := inflight_prefills s - {rid}\<rparr>))
      (\<lambda>s'. placed X s' \<and> running s' = running s)"
    by (simp add: placed_def queued_def rq_elems_prepend is_streaming_def Let_def)
qed


lemma take_back_skipped: "take_back c r v l = Inr l' \<Longrightarrow> step_skipped l' = step_skipped l"
  by (auto simp: take_back_def bindE_eq_Inr Let_def)

lemma remove_index_mset: "x \<in> set xs \<Longrightarrow> mset (x # take (index_of x xs) xs @ drop (Suc (index_of x xs)) xs) = mset xs"
  by (induction xs) auto

text \<open>After \<open>self.running.pop\<close> the victim is counted with the running requests until it is queued.\<close>

lemma pop_victim_placed:
  assumes "placed X s" "mset (v # run) = mset (running s)"
  shows "located (v # run) (queued X (s\<lparr>running := run\<rparr>)) (requests s) (num_waiting_for_streaming_input s)"
  using assms by (simp add: placed_def queued_def located_mset [OF assms(2)])

lemma preempt_popped_placed:
  assumes "placed X s" "mset (v # run) = mset (running s)"
  shows "post (preempt_request svc v b (s\<lparr>running := run\<rparr>)) (placed X)"
proof -
  have "post (preempt_request svc v b (s\<lparr>running := run\<rparr>)) (\<lambda>s'. placed X s' \<and> running s' = running (s\<lparr>running := run\<rparr>))"
    by (rule preempt_request_placed) (use pop_victim_placed [OF assms] in simp)
  then show ?thesis by (rule post_mono) simp
qed

lemma preempt_victim_placed:
  assumes "in_place l s"
  shows "post (preempt_victim c svc l s) (\<lambda>(v, l', s'). in_place l' s' \<and> step_skipped l' = step_skipped l)"
proof (rule postI, clarify)
  fix v l' s' assume run: "preempt_victim c svc l s = Inr (v, l', s')"
  obtain run1 s2 where v: "mset (v # run1) = mset (running s)" "preempt_request svc v False (s\<lparr>running := run1\<rparr>) = Inr s2"
    and l': "step_skipped l' = step_skipped l" "s' = s2"
  proof (cases "policy c")
    case FCFS
    with run that [of "butlast (running s)" s'] show thesis
      by (auto simp: preempt_victim_def bindE_eq_Inr split: if_splits) (metis add_mset_commute append_butlast_last_id mset.simps(2) mset_append union_mset_add_mset_right add.right_neutral mset.simps(1))
  next
    case PRIORITY
    with run have "worst_request s = Inr v" "step_skipped l' = step_skipped l"
      "preempt_request svc v False (s\<lparr>running := take (index_of v (running s)) (running s) @ drop (Suc (index_of v (running s))) (running s)\<rparr>) = Inr s'"
      by (auto simp: preempt_victim_def bindE_eq_Inr Let_def split: if_splits dest!: take_back_skipped)
    with that remove_index_mset [OF worst_request_mem] show thesis by fastforce
  qed
  with postD [OF preempt_popped_placed [OF assms v(1)] v(2)] show "in_place l' s' \<and> step_skipped l' = step_skipped l" by simp
qed

lemma preempt_victim_others:
  assumes "preempt_victim c svc l s = Inr (v, l', s')" "w \<noteq> v"
  shows "requests s' w = requests s w"
proof -
  have "requests s2 w = requests s w" if "preempt_request svc v False (s\<lparr>running := run\<rparr>) = Inr s2" for run s2
    using that assms(2) by (auto simp: preempt_request_def bindE_eq_Inr Let_def)
  with assms(1) show ?thesis
    by (cases "policy c") (auto simp: preempt_victim_def bindE_eq_Inr Let_def split: if_splits)
qed

lemma alloc_loop_placed:
  "in_place l s \<Longrightarrow> post (alloc_loop c svc rid n l s)
     (\<lambda>(res, l', s'). in_place l' s' \<and> step_skipped l' = step_skipped l \<and> (res \<noteq> None \<longrightarrow> requests s' rid = requests s rid))"
proof (induction c svc rid n l s rule: alloc_loop.induct)
  case (1 c svc rid n l s)
  show ?case
  proof (rule postI, clarify)
    fix res l' s' assume run: "alloc_loop c svc rid n l s = Inr (res, l', s')"
    obtain r res1 k where a: "get_req rid s = Inr r"
      "svc_alloc svc (request.truncate r) n 0 None (num_lookahead_tokens c) 0 False True (s_kv s) = Inr (res1, k)"
      using run by (subst (asm) alloc_loop.simps) (auto simp: bindE_eq_Inr)
    let ?s = "s\<lparr>s_kv := k\<rparr>"
    show "in_place l' s' \<and> step_skipped l' = step_skipped l \<and> (res \<noteq> None \<longrightarrow> requests s' rid = requests s rid)"
    proof (cases "res1 = None")
      case False
      with run a 1(2) show ?thesis by (subst (asm) alloc_loop.simps) (auto simp: Let_def)
    next
      case True
      then obtain v l2 s2 where v: "preempt_victim c svc l ?s = Inr (v, l2, s2)"
        and rest: "(if v = rid then Inr (None, l2, s2) else alloc_loop c svc rid n l2 s2) = Inr (res, l', s')"
        using run a by (subst (asm) alloc_loop.simps) (auto simp: bindE_eq_Inr Let_def)
      have l2: "in_place l2 s2" "step_skipped l2 = step_skipped l" using postD [OF preempt_victim_placed v] 1(2) by auto
      show ?thesis
      proof (cases "v = rid")
        case False
        with 1(1) [OF a refl refl _ v refl refl False l2(1)] l2(2) rest True preempt_victim_others [OF v, of rid]
        show ?thesis by (auto dest: postD)
      qed (use rest l2 in simp)
    qed
  qed
qed

lemma try_encoder_frame:
  assumes "try_encoder c svc r nc n l s = Inr (v, s')"
  obtains m where "s' = s\<lparr>s_enc := m\<rparr>"
proof (cases "sr_enc_features r = []")
  case True
  with assms that [of "s_enc s"] show thesis by (simp add: try_encoder_def)
next
  case False
  with assms that show thesis by (auto simp: try_encoder_def bindE_eq_Inr)
qed

lemma alloc_encoder_frame:
  assumes "alloc_encoder svc r v l s = Inr (l', s')"
  obtains m where "s' = s\<lparr>s_enc := m\<rparr>" "step_skipped l' = step_skipped l"
  using assms that by (auto simp: alloc_encoder_def bindE_eq_Inr split: if_splits)

lemma running_spec_skipped [simp]: "step_skipped (running_spec n r l) = step_skipped l"
  by (simp add: running_spec_def Let_def)

text \<open>The state in which a scheduled request's encoder inputs are allocated, and the loop variables then.\<close>

definition run_scheduled :: "sched_config \<Rightarrow> string \<Rightarrow> sreq \<Rightarrow> int \<Rightarrow> bref list list \<Rightarrow> sloop \<Rightarrow> sloop" where
  "run_scheduled c rid r n bs l =
     running_spec n r (l\<lparr>req_index := Suc (req_index l), token_budget := token_budget l - n,
       input_budget := input_budget l - (n + draft_slots c), scheduled_running := scheduled_running l @ [rid],
       num_scheduled := dict_set rid n (num_scheduled l), req_to_new_blocks := dict_set rid bs (req_to_new_blocks l),
       prefill_scheduled := (prefill_scheduled l \<or> is_prefill_chunk r)\<rparr>)"

definition drop_drafts :: "string \<Rightarrow> sreq \<Rightarrow> ('k, 'm) sched \<Rightarrow> ('k, 'm) sched" where
  "drop_drafts rid r s = (if spec_token_ids r = [] then s else put_req rid (r\<lparr>spec_token_ids := []\<rparr>) s)"

text \<open>The four ways in which an iteration over the running requests ends.\<close>

lemma run_one_cases:
  assumes "run_one c svc d l s = Inr (b, l', s')"
  obtains (stop) "\<not> b" "l' = l" "s' = s"
    | (skip) m where "b" "l' = l\<lparr>req_index := Suc (req_index l)\<rparr>" "s' = s\<lparr>s_enc := m\<rparr>"
    | (preempted) n m where "\<not> b" "alloc_loop c svc (running s ! req_index l) n l (s\<lparr>s_enc := m\<rparr>) = Inr (None, l', s')"
    | (scheduled) r v m n bs l2 s2 where "b" "requests s (running s ! req_index l) = Some r"
        "try_encoder c svc r (num_computed_tokens r) (running_num_new c l r) l s = Inr (v, s\<lparr>s_enc := m\<rparr>)"
        "n = reserve_prefill_lookahead c r (num_computed_tokens r) (es_num_new_tokens v)" "n \<noteq> 0"
        "alloc_loop c svc (running s ! req_index l) n l (s\<lparr>s_enc := m\<rparr>) = Inr (Some bs, l2, s2)"
        "alloc_encoder svc r v (run_scheduled c (running s ! req_index l) r n bs l2) (drop_drafts (running s ! req_index l) r s2) = Inr (l', s')"
proof (cases "input_budget l \<le> draft_slots c")
  case True
  with assms stop show thesis by (simp add: run_one_def Let_def)
next
  case b: False
  let ?rid = "running s ! req_index l"
  obtain r where r: "requests s ?rid = Some r" "get_req ?rid s = Inr r"
    using assms b by (auto simp: run_one_def Let_def bindE_eq_Inr get_req_eq)
  show thesis
  proof (cases "skip_running s d r")
    case True
    with assms b r skip [of "s_enc s"] show thesis by (simp add: run_one_def Let_def)
  next
    case sk: False
    then obtain v s1 where v: "try_encoder c svc r (num_computed_tokens r) (running_num_new c l r) l s = Inr (v, s1)"
      using assms b r by (auto simp: run_one_def Let_def bindE_eq_Inr)
    obtain m where s1: "s1 = s\<lparr>s_enc := m\<rparr>" by (rule try_encoder_frame [OF v])
    let ?n = "reserve_prefill_lookahead c r (num_computed_tokens r) (es_num_new_tokens v)"
    show thesis
    proof (cases "?n = 0")
      case True
      with assms b r sk v s1 skip [of m] show thesis by (simp add: run_one_def Let_def)
    next
      case n: False
      then obtain res l2 s2 where a: "alloc_loop c svc ?rid ?n l s1 = Inr (res, l2, s2)"
        using assms b r sk v by (auto simp: run_one_def Let_def bindE_eq_Inr)
      show thesis
      proof (cases res)
        case None
        with assms b r sk v n a s1 preempted [of ?n m] show thesis by (simp add: run_one_def Let_def)
      next
        case (Some bs)
        with assms b r sk v n a have "bindE (alloc_encoder svc r v (run_scheduled c ?rid r ?n bs l2) (drop_drafts ?rid r s2))
            (\<lambda>(l4, s4). Inr (True, l4, s4)) = Inr (b, l', s')"
          by (simp add: run_one_def Let_def run_scheduled_def drop_drafts_def)
        note goes = alloc_encoder_goes [OF this]
        show thesis by (rule scheduled [OF conjunct2 [OF goes] r(1) v [unfolded s1] refl n a [unfolded s1 Some] conjunct1 [OF goes]])
      qed
    qed
  qed
qed

lemma drop_drafts_placed: "placed X s \<Longrightarrow> requests s rid = Some r \<Longrightarrow> placed X (drop_drafts rid r s)"
  by (auto simp: drop_drafts_def intro!: placed_put)

lemma run_one_placed:
  assumes "in_place l s"
  shows "post (run_one c svc d l s) (\<lambda>(b, l', s'). in_place l' s' \<and> step_skipped l' = step_skipped l)"
proof (rule postI, clarify)
  fix b l' s' assume "run_one c svc d l s = Inr (b, l', s')"
  then show "in_place l' s' \<and> step_skipped l' = step_skipped l"
  proof (cases rule: run_one_cases)
    case (preempted n m)
    with postD [OF alloc_loop_placed preempted(2)] assms show ?thesis by auto
  next
    case (scheduled r v m n bs l2 s2)
    have p: "in_place l2 s2" "requests s2 (running s ! req_index l) = Some r" and l2: "step_skipped l2 = step_skipped l"
      using postD [OF alloc_loop_placed scheduled(6)] assms scheduled(2) by auto
    from drop_drafts_placed [OF p] l2 show ?thesis
      by (rule_tac alloc_encoder_frame [OF scheduled(7)]) (simp add: run_scheduled_def)
  qed (use assms in simp_all)
qed

lemma run_loop_placed: "in_place l s \<Longrightarrow> post (run_loop c svc d l s) (\<lambda>(l', s'). in_place l' s' \<and> step_skipped l' = step_skipped l)"
proof (induction c svc d l s rule: run_loop.induct)
  case (1 c svc d l s)
  show ?case
  proof (cases "req_index l < length (running s) \<and> 0 < token_budget l")
    case True
    have "post (if b then run_loop c svc d l1 s1 else Inr (l1, s1)) (\<lambda>(l', s'). in_place l' s' \<and> step_skipped l' = step_skipped l)"
      if "run_one c svc d l s = Inr (b, l1, s1)" for b l1 s1
      using 1(1) [OF True that refl refl] postD [OF run_one_placed [OF 1(2)] that] by auto
    with True show ?thesis by (subst run_loop.simps) (auto intro!: post_any)
  next
    case False
    then show ?thesis using 1(2) by (subst run_loop.simps) (simp add: False)
  qed
qed

section \<open>The waiting requests\<close>

text \<open>The head of a queue may be promoted or annotated before it is decided what happens to it.\<close>

definition touched :: "string \<Rightarrow> ('k, 'm) sched \<Rightarrow> ('k, 'm) sched \<Rightarrow> bool" where
  "touched rid s s' \<longleftrightarrow> running s' = running s \<and> waiting s' = waiting s \<and> skipped_waiting s' = skipped_waiting s
     \<and> num_waiting_for_streaming_input s' = num_waiting_for_streaming_input s
     \<and> (\<exists>r r'. requests s rid = Some r \<and> requests s' = (requests s)(rid \<mapsto> r') \<and> req_id r' = req_id r \<and> sr_key r' = sr_key r
          \<and> sr_enc_features r' = sr_enc_features r \<and> (status r' = status r \<or> status r = WAITING_FOR_STRUCTURED_OUTPUT_GRAMMAR \<and> status r' = WAITING))"

lemma touched_refl: "requests s rid = Some r \<Longrightarrow> touched rid s s"
  unfolding touched_def by (metis fun_upd_triv)

lemma touched_frame [simp]:
  "touched rid s (s'\<lparr>s_kv := k\<rparr>) = touched rid s s'" "touched rid s (s'\<lparr>s_enc := m\<rparr>) = touched rid s s'"
  "touched rid s (s'\<lparr>grammar_compile_error_reqs := i\<rparr>) = touched rid s s'"
  by (simp_all add: touched_def)

lemma touched_put:
  assumes "touched rid s s'" "requests s' rid = Some r" "req_id r' = req_id r" "sr_key r' = sr_key r" "sr_enc_features r' = sr_enc_features r"
    "status r' = status r \<or> status r = WAITING_FOR_STRUCTURED_OUTPUT_GRAMMAR \<and> status r' = WAITING"
  shows "touched rid s (put_req rid r' s')"
proof -
  have "\<exists>r0. requests s rid = Some r0 \<and> (requests s')(rid \<mapsto> r') = (requests s)(rid \<mapsto> r') \<and> req_id r' = req_id r0
      \<and> sr_key r' = sr_key r0 \<and> sr_enc_features r' = sr_enc_features r0 \<and> (status r' = status r0 \<or> status r0 = WAITING_FOR_STRUCTURED_OUTPUT_GRAMMAR \<and> status r' = WAITING)"
    using assms by (auto simp: touched_def)
  with assms(1) show ?thesis unfolding touched_def by (auto simp: put_req_def)
qed

lemma touched_some: "touched rid s s' \<Longrightarrow> \<exists>r. requests s' rid = Some r"
  by (auto simp: touched_def)

lemma touched_selected: "touched rid s s' \<Longrightarrow> selected_queue w s' = selected_queue w s"
  by (simp add: selected_queue_def touched_def)

lemma entries_mem: "entries rid Q = {#q#} \<Longrightarrow> q \<in># Q \<and> request_id q = rid"
proof -
  assume "entries rid Q = {#q#}"
  then have "q \<in># entries rid Q" by simp
  then show ?thesis by (simp add: entries_def)
qed

lemma touched_placed:
  assumes "placed X s" "touched rid s s'"
  shows "placed X s'"
proof -
  obtain r r' where r: "requests s rid = Some r" "requests s' = (requests s)(rid \<mapsto> r')" "req_id r' = req_id r" "sr_key r' = sr_key r"
    "status r' = status r \<or> status r = WAITING_FOR_STRUCTURED_OUTPUT_GRAMMAR \<and> status r' = WAITING"
    using assms(2) by (auto simp: touched_def)
  have l: "located (running s) (queued X s) (requests s) (num_waiting_for_streaming_input s)" using assms(1) by (simp add: placed_def)
  have "located (running s) (queued X s) ((requests s)(rid \<mapsto> r')) (num_waiting_for_streaming_input s)"
  proof (cases "status r' = status r")
    case True
    show ?thesis by (rule located_put [OF l r(1,3,4) True])
  next
    case False
    with r(5) have st: "status r = WAITING_FOR_STRUCTURED_OUTPUT_GRAMMAR" "status r' = WAITING" by simp_all
    have "sr_key r \<in># queued X s" "request_id (sr_key r) = rid"
      using located_get [OF l, of rid] r(1) st by (auto simp: place_ok_def dest: entries_mem)
    then show ?thesis
      using located_requeue [OF l r(1) _ r(3), of "queued X s"] r(4) st
      by (simp add: queued_status_def is_finished_def less_request_status_def is_streaming_def)
  qed
  with assms(2) show ?thesis by (simp add: placed_def touched_def queued_def r(2))
qed

lemma try_promote_touched: "requests s rid = Some r \<Longrightarrow> try_promote rid s = Inr (b, s') \<Longrightarrow> touched rid s s'"
  by (auto simp: try_promote_def bindE_eq_Inr get_req_eq intro!: touched_put touched_refl split: if_splits)

lemma lookup_waiting_touched:
  "touched rid s s1 \<Longrightarrow> requests s1 rid = Some r \<Longrightarrow> lookup_waiting svc rid r s1 = Inr (h, s') \<Longrightarrow> touched rid s s'"
  by (auto simp: lookup_waiting_def bindE_eq_Inr split: if_splits intro!: touched_put)


lemma admit_waiting_cases:
  assumes "admit_waiting c svc w rid r looked (bs, nl, nc) n pad v l s = Inr (b, l', s')"
  obtains (stop) k m where "\<not> b" "l' = l" "s' = s\<lparr>s_kv := k, s_enc := m\<rparr>"
    | (started) k q s2 where "pop_selected w (s\<lparr>s_kv := k\<rparr>) = Inr (q, s2)" "start_request c svc rid r n nc pad v l s2 = Inr (b, l', s')"
proof -
  obtain enc_toks res k where a: "encoder_tokens c r v = Inr enc_toks"
    "svc_alloc svc (request.truncate r) n nl bs (num_lookahead_tokens c) enc_toks (scheduler_reserve_full_isl c) (running s \<noteq> []) (s_kv s)
      = Inr (res, k)"
    using assms by (auto simp: admit_waiting_def bindE_eq_Inr)
  show thesis
  proof (cases "res = None")
    case True
    then obtain m where "Inr (False, l, s\<lparr>s_kv := k, s_enc := m\<rparr>) = (Inr (b, l', s') :: _ res)"
      using assms a by (auto simp: admit_waiting_def bindE_eq_Inr Let_def split del: if_split)
    then show thesis by (intro stop) auto
  next
    case False
    with assms a started show thesis by (fastforce simp: admit_waiting_def bindE_eq_Inr Let_def)
  qed
qed

lemma place_waiting_cases:
  assumes "place_waiting c svc w rid r looked (bs, nl, nc) l s = Inr (b, l', s')"
  obtains (stop) k m where "\<not> b" "l' = l" "s' = s\<lparr>s_kv := k, s_enc := m\<rparr>"
    | (started) np al v n k m q s2 where "waiting_num_new c l r nc = Some np" "0 < fst np" "align_waiting c r nl np = Some al"
        "try_encoder c svc r nc (fst al) l s = Inr (v, s\<lparr>s_enc := m\<rparr>)"
        "n = reserve_prefill_lookahead c r nc (es_num_new_tokens v)" "n \<noteq> 0"
        "pop_selected w (s\<lparr>s_enc := m, s_kv := k\<rparr>) = Inr (q, s2)" "start_request c svc rid r n nc (snd al) v l s2 = Inr (b, l', s')"
proof (cases "waiting_num_new c l r nc")
  case None
  with assms stop [where k = "s_kv s" and m = "s_enc s"] show thesis by (simp add: place_waiting_def)
next
  case np: (Some np)
  show thesis
  proof (cases "align_waiting c r nl np")
    case None
    with assms np stop [where k = "s_kv s" and m = "s_enc s"] show thesis by (simp add: place_waiting_def bindE_eq_Inr)
  next
    case al: (Some al)
    have pos: "0 < fst np" using assms np by (auto simp: place_waiting_def bindE_eq_Inr py_assert_def split: if_splits)
    obtain v s1 where v: "try_encoder c svc r nc (fst al) l s = Inr (v, s1)"
      using assms np al by (auto simp: place_waiting_def bindE_eq_Inr)
    obtain m where s1: "s1 = s\<lparr>s_enc := m\<rparr>" by (rule try_encoder_frame [OF v])
    let ?n = "reserve_prefill_lookahead c r nc (es_num_new_tokens v)"
    show thesis
    proof (cases "?n = 0")
      case True
      with assms np al v s1 stop [where k = "s_kv s" and m = m] show thesis by (simp add: place_waiting_def bindE_eq_Inr)
    next
      case n: False
      have "admit_waiting c svc w rid r looked (bs, nl, nc) ?n (snd al) v l s1 = Inr (b, l', s')"
        using assms np al v n by (simp add: place_waiting_def bindE_eq_Inr)
      then show thesis
      proof (cases rule: admit_waiting_cases)
        case (stop k m')
        with that(1) s1 show thesis by simp
      next
        case (started k q s2)
        with that(2) [OF np pos al v [unfolded s1] refl n, of k q s2] s1 show thesis by simp
      qed
    qed
  qed
qed

lemma wait_one_cases:
  assumes "wait_one c svc d l s = Inr (b, l', s')"
  obtains (skip) rid w s1 where "touched rid s s1" "skip_waiting w l s1 = Inr (b, l', s')"
    | (stop) rid where "\<not> b" "l' = l" "touched rid s s'"
    | (started) w q r bs np al nl nc v n m s0 s1 s2 where
        "rq_peek (selected_queue w s) = Inr q" "touched (request_id q) s s1" "requests s1 (request_id q) = Some r"
        "waiting_num_new c l r nc = Some np" "0 < fst np" "align_waiting c r nl np = Some al"
        "try_encoder c svc r nc (fst al) l s0 = Inr (v, s0\<lparr>s_enc := m\<rparr>)"
        "n = reserve_prefill_lookahead c r nc (es_num_new_tokens v)" "n \<noteq> 0"
        "pop_selected w s1 = Inr (bs, s2)" "start_request c svc (request_id q) r n nc (snd al) v l s2 = Inr (b, l', s')"
proof -
  obtain w q r0 where w: "select_waiting_queue c s = Inr (Some w)" "rq_peek (selected_queue w s) = Inr q"
    and r0: "requests s (request_id q) = Some r0"
    using assms by (auto simp: wait_one_def bindE_eq_Inr Let_def get_req_eq split: option.splits)
  let ?rid = "request_id q"
  have g0: "get_req ?rid s = Inr r0" using r0 by (simp add: get_req_def)
  obtain ready s1 where p: "(if is_blocked_waiting_status (status r0) then try_promote ?rid s else Inr (True, s)) = Inr (ready, s1)"
    using assms by (auto simp: wait_one_def w g0 bindE_eq_Inr Let_def)
  have t1: "touched ?rid s s1" using p r0 by (auto split: if_splits intro: touched_refl try_promote_touched)
  obtain r1 where r1: "requests s1 ?rid = Some r1" "get_req ?rid s1 = Inr r1" using touched_some [OF t1] by (auto simp: get_req_def)
  note run = assms [unfolded wait_one_def Let_def w(1) bindE_simps(2) option.case w(2) g0 p prod.case r1(2)]
  show thesis
  proof (cases "\<not> ready \<or> 0 < num_stale_output_tokens r1 \<and> \<not> drop_stale_output r1 \<or> lora_conflict c l r1")
    case True
    with run have "skip_waiting w l s1 = Inr (b, l', s')" by (auto split: if_splits)
    with t1 skip show thesis by blast
  next
    case False
    then obtain bs nl nc s2 where h: "lookup_waiting svc ?rid r1 s1 = Inr ((bs, nl, nc), s2)"
      using run by (auto simp: bindE_eq_Inr)
    note t2 = lookup_waiting_touched [OF t1 r1(1) h]
    obtain r2 where r2: "requests s2 ?rid = Some r2" "get_req ?rid s2 = Inr r2" using touched_some [OF t2] by (auto simp: get_req_def)
    show thesis
    proof (cases "d \<and> nc < sr_num_tokens r1 - 1")
      case True
      with run False h t2 show thesis by (auto intro: stop)
    next
      case go: False
      with run False h r2 have pl: "place_waiting c svc w ?rid r2 (num_computed_tokens r1 = 0) (bs, nl, nc) l s2 = Inr (b, l', s')"
        by (auto split: if_splits)
      show thesis
        using pl
      proof (cases rule: place_waiting_cases)
        case (stop k m)
        with that(2) t2 show thesis by simp
      next
        case (started np al v n k m q2 s3)
        with that(3) [OF w(2) _ _ started(1-6) started(7,8)] t2 r2(1) show thesis by simp
      qed
    qed
  qed
qed

lemma pop_selected_queued:
  assumes "pop_selected w s = Inr (q, s')"
  shows "queued X s = add_mset q (queued X s')" "rq_peek (selected_queue w s) = Inr q" "running s' = running s"
    "requests s' = requests s" "num_waiting_for_streaming_input s' = num_waiting_for_streaming_input s"
proof -
  obtain q' where p: "rq_pop (selected_queue w s) = Inr (q, q')" and s': "s' = (if w then s\<lparr>waiting := q'\<rparr> else s\<lparr>skipped_waiting := q'\<rparr>)"
    using assms by (auto simp: pop_selected_def bindE_eq_Inr)
  show "queued X s = add_mset q (queued X s')" using rq_elems_pop(1) [OF p] by (simp add: s' queued_def selected_queue_def split: if_splits)
  show "rq_peek (selected_queue w s) = Inr q" by (rule rq_elems_pop(2) [OF p])
qed (use assms in \<open>auto simp: pop_selected_def bindE_eq_Inr split: if_splits\<close>)

lemma skip_waiting_placed:
  assumes "in_place l s" "skip_waiting w l s = Inr (b, l', s')"
  shows "in_place l' s'"
proof -
  obtain q where q: "pop_selected w s = Inr (q, s')" "l' = l\<lparr>step_skipped := rq_prepend (step_skipped l) q\<rparr>"
    using assms(2) by (auto simp: skip_waiting_def bindE_eq_Inr)
  have "queued (rq_elems (step_skipped l')) s' = queued (rq_elems (step_skipped l)) s"
    using pop_selected_queued(1) [OF q(1), of "rq_elems (step_skipped l)"] by (simp add: queued_def q(2) rq_elems_prepend)
  with assms(1) pop_selected_queued(3-5) [OF q(1)] show ?thesis by (simp add: placed_def)
qed

definition start_loop :: "sched_config \<Rightarrow> string \<Rightarrow> sreq \<Rightarrow> int \<Rightarrow> bref list list \<Rightarrow> bool \<Rightarrow> sloop \<Rightarrow> sloop" where
  "start_loop c rid r n bs pad l =
     l\<lparr>token_budget := token_budget l - n, input_budget := input_budget l - (n + draft_slots c),
       num_scheduled := dict_set rid n (num_scheduled l), req_to_new_blocks := dict_set rid bs (req_to_new_blocks l),
       spec_decode_tokens := (if pad then dict_set rid (replicate (nat (num_spec_tokens c)) (- 1)) (spec_decode_tokens l)
                              else spec_decode_tokens l),
       scheduled_loras := (case (max_loras c, lora_int_id r) of
                             (Some _, Some i) \<Rightarrow> insert i (scheduled_loras l) | _ \<Rightarrow> scheduled_loras l)\<rparr>"

definition start_state :: "string \<Rightarrow> sreq \<Rightarrow> int \<Rightarrow> int \<Rightarrow> ('k, 'm) sched \<Rightarrow> ('k, 'm) sched" where
  "start_state rid r n nc s =
     s\<lparr>requests := (requests s)(rid \<mapsto> r\<lparr>status := RUNNING, num_computed_tokens := nc\<rparr>), running := running s @ [rid],
       inflight_prefills := (if nc + n < sr_num_tokens r then insert rid (inflight_prefills s) else inflight_prefills s)\<rparr>"

lemma start_request_cases:
  assumes "start_request c svc rid r n nc pad v l s = Inr (b, l', s')"
  obtains (new) "b" "status r = WAITING"
      "alloc_encoder svc r v (start_loop c rid r n (svc_get_blocks svc rid (s_kv s)) pad (l\<lparr>scheduled_new := scheduled_new l @ [rid]\<rparr>))
         (start_state rid r n nc s) = Inr (l', s')"
    | (resumed) "b" "status r = PREEMPTED"
      "alloc_encoder svc r v (start_loop c rid r n (svc_get_blocks svc rid (s_kv s)) pad (l\<lparr>scheduled_resumed := scheduled_resumed l @ [rid]\<rparr>))
         (start_state rid r n nc s) = Inr (l', s')"
proof -
  obtain l1 where l1: "(if status r = WAITING then Inr (l\<lparr>scheduled_new := scheduled_new l @ [rid]\<rparr>)
            else if status r = PREEMPTED then Inr (l\<lparr>scheduled_resumed := scheduled_resumed l @ [rid]\<rparr>)
            else Inl RuntimeError) = Inr l1"
    and "bindE (alloc_encoder svc r v (start_loop c rid r n (svc_get_blocks svc rid (s_kv s)) pad l1) (start_state rid r n nc s))
           (\<lambda>(l3, s3). Inr (True, l3, s3)) = Inr (b, l', s')"
    using assms unfolding start_request_def Let_def
    by (elim bindE_InrE [of "if _ then _ else _"] bindE_InrE [of "py_assert _"])
      (rule that, assumption, unfold start_loop_def start_state_def, assumption)
  note goes = alloc_encoder_goes [OF this(2)]
  show thesis
  proof (cases "status r = WAITING")
    case True
    with l1 goes new show thesis by auto
  next
    case False
    with l1 goes resumed show thesis by (auto split: if_splits)
  qed
qed

lemma start_request_frame:
  assumes "start_request c svc rid r n nc pad v l s = Inr (b, l', s')"
  shows "status r = WAITING \<or> status r = PREEMPTED" "running s' = running s @ [rid]" "queued X s' = queued X s"
    "requests s' = (requests s)(rid \<mapsto> r\<lparr>status := RUNNING, num_computed_tokens := nc\<rparr>)"
    "num_waiting_for_streaming_input s' = num_waiting_for_streaming_input s" "step_skipped l' = step_skipped l"
  by (atomize (full), cases rule: start_request_cases [OF assms])
    (auto elim!: alloc_encoder_frame simp: start_loop_def start_state_def queued_def)

lemma wait_one_placed:
  assumes "in_place l s"
  shows "post (wait_one c svc d l s) (\<lambda>(b, l', s'). in_place l' s')"
proof (rule postI, clarify)
  fix b l' s' assume "wait_one c svc d l s = Inr (b, l', s')"
  then show "in_place l' s'"
  proof (cases rule: wait_one_cases)
    case (skip rid w s1)
    show ?thesis by (rule skip_waiting_placed [OF touched_placed [OF assms skip(1)] skip(2)])
  next
    case (stop rid)
    show ?thesis unfolding stop(2) by (rule touched_placed [OF assms stop(3)])
  next
    case (started w q r q' np al nl nc v n m s0 s1 s2)
    let ?X = "rq_elems (step_skipped l)"
    have q': "q' = q" using pop_selected_queued(2) [OF started(10)] started(1) by (simp add: touched_selected [OF started(2)])
    have Q: "queued ?X s1 = add_mset q (queued ?X s2)" using pop_selected_queued(1) [OF started(10)] q' by simp
    note start = start_request_frame [OF started(11)]
    have l: "located (running s1) (queued ?X s1) (requests s1) (num_waiting_for_streaming_input s1)"
      using touched_placed [OF assms started(2)] by (simp add: placed_def)
    have "located (running s2 @ [request_id q]) (queued ?X s1 - {#q#})
        ((requests s1)(request_id q \<mapsto> r\<lparr>status := RUNNING, num_computed_tokens := nc\<rparr>)) (num_waiting_for_streaming_input s1)"
      by (rule located_start [OF l _ started(3)]) (use Q start(1) pop_selected_queued(3) [OF started(10)] in auto)
    with Q start(2-6) pop_selected_queued(3-5) [OF started(10)] show ?thesis by (simp add: placed_def)
  qed
qed

lemma wait_loop_placed: "in_place l s \<Longrightarrow> post (wait_loop c svc d l s) (\<lambda>(l', s'). in_place l' s')"
proof (induction c svc d l s rule: wait_loop.induct)
  case (1 c svc d l s)
  let ?go = "num_queued s \<noteq> 0 \<and> 0 < token_budget l \<and> \<not> input_budget l \<le> draft_slots c
    \<and> \<not> max_num_running_reqs c \<le> int (length (running s)) + num_waiting_for_streaming_input s"
  show ?case
  proof (cases ?go)
    case True
    have "post (if b then wait_loop c svc d l1 s1 else Inr (l1, s1)) (\<lambda>(l', s'). in_place l' s')"
      if "wait_one c svc d l s = Inr (b, l1, s1)" for b l1 s1
      using 1(1) [OF True that refl refl] postD [OF wait_one_placed [OF 1(2)] that] by simp
    with True show ?thesis by (subst wait_loop.simps) (auto intro!: post_any)
  next
    case False
    show ?thesis using 1(2) by (subst wait_loop.simps, subst if_not_P [OF False]) simp
  qed
qed

lemma schedule_waiting_placed:
  assumes "in_place l s" "rq_elems (step_skipped l) = []"
  shows "post (schedule_waiting c svc d l s) (\<lambda>(l', s'). placed [] s')"
proof (cases "preempted l = [] \<and> pause_mode s = UNPAUSED")
  case True
  have "post (wait_loop c svc d l s) (\<lambda>(l1, s1). placed [] (if rq_len (step_skipped l1) \<noteq> 0
      then s1\<lparr>skipped_waiting := rq_prepend_many (skipped_waiting s1) (rq_iter (step_skipped l1))\<rparr> else s1))"
    by (rule post_mono [OF wait_loop_placed [OF assms(1)]])
      (auto simp: placed_def queued_def rq_elems_prepend_many mset_rq_iter rq_len_elems ac_simps)
  with True show ?thesis
    by (auto simp: schedule_waiting_def Let_def post_def bindE_eq_Inr split del: if_split) (auto split: if_splits)
next
  case False
  show ?thesis unfolding schedule_waiting_def if_not_P [OF False] using assms by simp
qed

section \<open>A whole step\<close>

lemma after_schedule_one_placed: "placed X s \<Longrightarrow> post (after_schedule_one e s) (placed X)"
  by (cases e) (auto simp: after_schedule_one_def Let_def intro!: post_bind post_get_req placed_put)

lemma async_after_one_placed: "placed X s \<Longrightarrow> post (async_after_one c spec e s) (placed X)"
  by (cases e) (auto simp: async_after_one_def Let_def intro!: post_bind post_get_req placed_put)

lemma after_schedule_placed: "placed X s \<Longrightarrow> post (after_schedule c num_spec l s) (placed X)"
  unfolding after_schedule_def Let_def
  by (intro post_bind post_mono [OF post_foldE [where P = "placed X"]])
    (auto intro!: after_schedule_one_placed async_after_one_placed post_foldE)

text \<open>What a step that returns has done.\<close>

definition step_init :: "('k, 'm) services \<Rightarrow> ('k, 'm) sched \<Rightarrow> ('k, 'm) sched" where
  "step_init svc s = s\<lparr>current_step := current_step s + 1, s_kv := svc_new_step svc (s_kv s)\<rparr>"

lemma schedule_loops_cases:
  assumes "schedule_loops c svc throttle s = Inr (l2, s2)"
  obtains d l1 s1 loras where
    "run_loop c svc d (sched_start c (pause_mode s)) (step_init svc s) = Inr (l1, s1)" "running_loras c l1 s1 = Inr loras"
    "schedule_waiting c svc d (l1\<lparr>scheduled_loras := loras\<rparr>) s1 = Inr (l2, s2)"
  using assms unfolding schedule_loops_def Let_def step_init_def [symmetric]
  by (elim bindE_InrE) (auto split: prod.splits simp: step_init_def elim!: bindE_InrE)

lemma schedule_cases:
  assumes "schedule c svc throttle s = Inr (out, s')"
  obtains l2 s2 k m num_spec where "schedule_loops c svc throttle s = Inr (l2, s2)"
    "after_schedule c num_spec l2 (s2\<lparr>s_kv := k, s_enc := m\<rparr>) = Inr s'"
    "out_num_scheduled out = num_scheduled l2" "out_total out = sum_list (map snd (num_scheduled l2))"
    "out_new out = scheduled_new l2" "out_resumed out = scheduled_resumed l2" "out_running out = scheduled_running l2"
    "out_spec out = spec_decode_tokens l2"
  using assms unfolding schedule_def Let_def
  by (elim bindE_InrE) (auto split: prod.splits elim!: bindE_InrE)

lemma empty_queue_elems [simp]: "rq_elems (create_request_queue p) = []"
  by (cases p) (simp_all add: create_request_queue_def)

lemma schedule_loops_placed:
  assumes "placed [] s"
  shows "post (schedule_loops c svc throttle s) (\<lambda>(l, s'). placed [] s')"
proof (rule postI, clarify)
  fix l2 s2 assume "schedule_loops c svc throttle s = Inr (l2, s2)"
  then obtain d l1 s1 loras where
    run: "run_loop c svc d (sched_start c (pause_mode s)) (step_init svc s) = Inr (l1, s1)"
    and wait: "schedule_waiting c svc d (l1\<lparr>scheduled_loras := loras\<rparr>) s1 = Inr (l2, s2)"
    by (rule schedule_loops_cases)
  have "in_place (sched_start c (pause_mode s)) (step_init svc s)" using assms by (simp add: sched_start_def step_init_def)
  from postD [OF run_loop_placed [OF this] run] have "in_place l1 s1" "rq_elems (step_skipped l1) = []"
    by (auto simp: sched_start_def)
  then show "placed [] s2" using postD [OF schedule_waiting_placed wait] by simp
qed

lemma schedule_placed:
  assumes "placed [] s"
  shows "post (schedule c svc throttle s) (\<lambda>(out, s'). placed [] s')"
proof (rule postI, clarify)
  fix out s' assume "schedule c svc throttle s = Inr (out, s')"
  then obtain l2 s2 k m num_spec where loops: "schedule_loops c svc throttle s = Inr (l2, s2)"
    and after: "after_schedule c num_spec l2 (s2\<lparr>s_kv := k, s_enc := m\<rparr>) = Inr s'"
    by (rule schedule_cases)
  have "placed [] s2" using postD [OF schedule_loops_placed [OF assms] loops] by simp
  with postD [OF after_schedule_placed after] show "placed [] s'" by simp
qed

lemma preempt_all_placed: "placed X s \<Longrightarrow> rids = rev (running s) \<Longrightarrow> post (preempt_all svc rids s) (placed X)"
proof (induction rids arbitrary: s)
  case (Cons rid rids)
  then have run: "running s = rev rids @ [rid]" by (metis rev.simps(2) rev_swap)
  have m: "mset (rid # butlast (running s)) = mset (running s)" by (simp add: run)
  show ?case
  proof (simp, rule post_any)
    fix s1 assume p: "preempt_request svc rid True (s\<lparr>running := butlast (running s)\<rparr>) = Inr s1"
    have "placed X s1" by (rule postD [OF preempt_popped_placed [OF Cons.prems(1) m] p])
    then show "post (preempt_all svc rids s1) (placed X)"
      by (rule Cons.IH) (use preempt_request_running [OF p] run in simp)
  qed
qed simp

lemma reset_prefix_cache_placed:
  assumes "placed X s"
  shows "post (sched_reset_prefix_cache svc b s) (\<lambda>(ok, s'). placed X s')"
proof -
  have "post (if b then preempt_all svc (rev (running s)) s else Inr s) (placed X)" using preempt_all_placed [OF assms refl] assms by simp
  then show ?thesis unfolding sched_reset_prefix_cache_def
    by (auto simp: post_def bindE_eq_Inr split: if_splits)
qed

end
