(* ===== verification/Sched_Limits.thy ===== *)
theory Sched_Limits
  imports Sched_Placed Encoder_Sched
begin

text \<open>
  The limits of a step: whatever the two loops of \<open>schedule\<close> do, preemptions included, the tokens
  they schedule stay within the budgets, and what the step reports is exactly what it charged.
\<close>

section \<open>The sizes of chunks\<close>

definition config_ok :: "sched_config \<Rightarrow> bool" where
  "config_ok c \<longleftrightarrow> 0 \<le> draft_slots c \<and> 0 \<le> max_num_scheduled_tokens c \<and> 0 \<le> max_num_batched_tokens c
     \<and> (need_mamba_block_aligned_split c \<longrightarrow> 0 < mamba_block_size c)"

definition room :: "sched_config \<Rightarrow> sloop \<Rightarrow> int" where
  "room c l = min (token_budget l) (input_budget l - draft_slots c)"

lemma first_stop_le:
  assumes "e \<le> st + (n :: int)"
  shows "max ((if filter (\<lambda>p. st < p \<and> p < e) xs = [] then e else Min (set (filter (\<lambda>p. st < p \<and> p < e) xs))) - st) 0 \<le> max n 0"
proof (cases "filter (\<lambda>p. st < p \<and> p < e) xs = []")
  case False
  then have "Min (set (filter (\<lambda>p. st < p \<and> p < e) xs)) \<in> set (filter (\<lambda>p. st < p \<and> p < e) xs)" by (simp only: Min_in finite_set set_empty simp_thms)
  then have "Min (set (filter (\<lambda>p. st < p \<and> p < e) xs)) < e" by simp
  with assms show ?thesis by (subst if_not_P [OF False]) linarith
qed (use assms in simp)

lemma mamba_split_le:
  assumes "0 < mamba_block_size c"
  shows "mamba_block_aligned_split c r n a b \<le> max n 0"
proof -
  have floor: "x div mamba_block_size c * mamba_block_size c \<le> x" for x
    using assms pos_mod_sign [of "mamba_block_size c" x] div_mult_mod_eq [of x "mamba_block_size c"] by linarith
  have cut: "(if p then if q then x div mamba_block_size c * mamba_block_size c else x else x) \<le> x" for p q x
    using floor by simp
  show ?thesis
    unfolding mamba_block_aligned_split_def Let_def by (rule if_split [THEN iffD2], intro conjI impI, simp, rule first_stop_le, rule cut)
qed

lemma reserve_bounds: "0 \<le> reserve_prefill_lookahead c r nc n" "reserve_prefill_lookahead c r nc n \<le> max n 0"
  by (auto simp: reserve_prefill_lookahead_def Let_def)

lemma running_num_new_le:
  assumes "config_ok c" "0 < room c l"
  shows "running_num_new c l r \<le> room c l"
proof -
  have split: "n3 \<le> room c l \<Longrightarrow> (if need_mamba_block_aligned_split c then mamba_block_aligned_split c r n3 0 0 else n3) \<le> room c l" for n3
    using mamba_split_le [of c r n3 0 0] assms by (auto simp: config_ok_def)
  have "min (min x (room c l)) y \<le> room c l" for x y by simp
  from split [OF this] show ?thesis unfolding running_num_new_def Let_def room_def [symmetric] .
qed

lemma waiting_chunk_le:
  assumes "config_ok c" "waiting_num_new c l r nc = Some np" "0 < fst np" "align_waiting c r nl np = Some al"
  shows "fst al \<le> room c l"
proof -
  have clip: "(if p then None else if q then None else Some (min x y, pad)) = Some np \<Longrightarrow> fst np \<le> y" for p q x y pad
    by (auto split: if_splits)
  have np: "fst np \<le> room c l" using assms(2) unfolding waiting_num_new_def Let_def room_def [symmetric] by (rule clip)
  have "fst al \<le> fst np"
  proof (cases "need_mamba_block_aligned_split c")
    case True
    with assms(1) mamba_split_le [of c r "fst np" nl 0] have "mamba_block_aligned_split c r (fst np) nl 0 \<le> fst np"
      using assms(3) by (simp add: config_ok_def)
    with True assms(3,4) show ?thesis by (cases np) (auto simp: align_waiting_def Let_def split: if_splits)
  qed (use assms(4) in \<open>cases np, simp add: align_waiting_def\<close>)
  with np show ?thesis by simp
qed

section \<open>What the scheduler relies on\<close>

text \<open>The only law needed here: the encoder cache may shorten a chunk but never lengthens it.\<close>

locale sched_services =
  fixes svc :: "('k, 'm) services"
  assumes enc_try_le: "svc_enc_try svc e nc n b sh m = Inr (v, m') \<Longrightarrow> key_sorted ef_offset (er_features e) \<Longrightarrow>
    es_num_new_tokens v \<le> max n 0"
begin

lemma try_encoder_le:
  assumes "try_encoder c svc r nc n l s = Inr (v, s')" "key_sorted ef_offset (sr_enc_features r)"
  shows "es_num_new_tokens v \<le> max n 0"
proof (cases "sr_enc_features r = []")
  case True
  with assms(1) show ?thesis by (auto simp: try_encoder_def)
next
  case False
  with assms(1) obtain m' where "svc_enc_try svc (enc_view r) nc n (enc_budget l) (num_prefill_lookahead c) (s_enc s) = Inr (v, m')"
    by (auto simp: try_encoder_def bindE_eq_Inr)
  from enc_try_le [OF this] assms(2) show ?thesis by (simp add: enc_view_def)
qed

end

lemma enc_loop_le:
  assumes "enc_sched_loop check can has_item enc_dec no_chunk r nc shift we is v m = Inr (v', m')"
    and "\<And>i f. i \<in> set is \<Longrightarrow> py_get (er_features r) i = Inr f \<Longrightarrow> ef_offset f < we" "we = nc + n + shift" "es_num_new_tokens v \<le> max n 0"
  shows "es_num_new_tokens v' \<le> max n 0"
  using assms
proof (induction "is" arbitrary: v m)
  case (Cons i rest)
  obtain f where f: "py_get (er_features r) i = Inr f" using Cons.prems(1) by (auto simp: bindE_eq_Inr)
  have lt: "ef_offset f < we" by (rule Cons.prems(2) [OF _ f]) simp
  have ih: "es_num_new_tokens v' \<le> max n 0"
    if "enc_sched_loop check can has_item enc_dec no_chunk r nc shift we rest v1 m1 = Inr (v', m')" "es_num_new_tokens v1 = es_num_new_tokens v" for v1 m1
  proof (rule Cons.IH [OF that(1) Cons.prems(2) Cons.prems(3)])
    show "es_num_new_tokens v1 \<le> max n 0" using Cons.prems(4) that(2) by simp
  qed simp_all
  show ?case
    using Cons.prems(1) lt Cons.prems(3) ih
    by (auto simp: f Let_def bindE_eq_Inr split: if_splits)
qed simp

lemma enc_try_schedule_le:
  assumes "try_schedule_encoder_inputs check can has_item False no_chunk e nc n b shift m = Inr (v, m')" "key_sorted ef_offset (er_features e)"
  shows "es_num_new_tokens v \<le> max n 0"
proof (cases "n = 0 \<or> er_features e = []")
  case True
  with assms(1) show ?thesis by (auto simp: try_schedule_encoder_inputs_def Let_def)
next
  case False
  let ?we = "nc + n + shift"
  obtain lo hi where w: "get_mm_features_in_window (er_features e) nc ?we = (lo, hi)" by fastforce
  have hi: "0 \<le> lo" "hi = int (bisect_left ef_offset (er_features e) ?we)" using w by (auto simp: get_mm_features_in_window_def)
  have loop: "enc_sched_loop check can has_item False no_chunk e nc shift ?we (py_range lo hi)
      \<lparr>es_inputs = [], es_external = [], es_num_new_tokens = n, es_budget = b, es_hashes = {}, es_num_embeds = 0\<rparr> m = Inr (v, m')"
    using assms(1) False w by (simp add: try_schedule_encoder_inputs_def Let_def)
  show ?thesis
  proof (rule enc_loop_le [OF loop _ refl])
    fix i f assume i: "i \<in> set (py_range lo hi)" "py_get (er_features e) i = Inr f"
    then have "0 \<le> i" "nat i < bisect_left ef_offset (er_features e) ?we" using hi by auto
    moreover have "nat i < length (er_features e)" using calculation(2) bisect_left_result(1) [OF assms(2), of ?we] by linarith
    moreover have "f = er_features e ! nat i" using i(2) calculation py_get_nonneg [of i "er_features e"] by simp
    ultimately show "ef_offset f < ?we" using bisect_left_result(2) [OF assms(2), of "nat i" ?we] by simp
  qed simp
qed

interpretation vs: sched_services "vllm_services H none_hash hash_bs input_order id_order lookahead no_chunk"
  by unfold_locales (auto simp: vllm_services_def dest: enc_try_schedule_le)

section \<open>The accounting of a step\<close>

definition scheduled :: "sloop \<Rightarrow> string list" where
  "scheduled l = scheduled_running l @ scheduled_new l @ scheduled_resumed l"

text \<open>
  What has been charged to the budgets is what is in \<open>num_scheduled_tokens\<close>, every request in it
  has tokens, and the three lists of scheduled requests hold exactly its keys.
\<close>

definition accounted :: "sched_config \<Rightarrow> int \<Rightarrow> sloop \<Rightarrow> bool" where
  "accounted c tot l \<longleftrightarrow>
     token_budget l + (\<Sum>e\<leftarrow>num_scheduled l. snd e) = tot
     \<and> input_budget l + (\<Sum>e\<leftarrow>num_scheduled l. snd e + draft_slots c) = max_num_batched_tokens c
     \<and> 0 \<le> token_budget l \<and> 0 \<le> input_budget l \<and> (\<forall>e \<in> set (num_scheduled l). 0 < snd e)
     \<and> distinct (map fst (num_scheduled l)) \<and> mset (map fst (num_scheduled l)) = mset (scheduled l)"

lemma dict_set_new: "rid \<notin> fst ` set d \<Longrightarrow> dict_set rid v d = d @ [(rid, v)]"
  by (simp add: dict_set_def)

lemma accounted_keys: "accounted c tot l \<Longrightarrow> fst ` set (num_scheduled l) = set (scheduled l)"
  by (metis accounted_def list.set_map set_mset_mset)

lemma accounted_distinct: "accounted c tot l \<Longrightarrow> distinct (scheduled l)"
  unfolding accounted_def using mset_eq_imp_distinct_iff by metis

lemma accounted_add:
  assumes "accounted c tot l" "rid \<notin> set (scheduled l)" "0 < n" "n \<le> room c l"
    and "token_budget l' = token_budget l - n" "input_budget l' = input_budget l - (n + draft_slots c)"
    "num_scheduled l' = dict_set rid n (num_scheduled l)" "mset (scheduled l') = add_mset rid (mset (scheduled l))"
  shows "accounted c tot l'"
proof -
  have "rid \<notin> fst ` set (num_scheduled l)" using assms(2) accounted_keys [OF assms(1)] by simp
  then have "num_scheduled l' = num_scheduled l @ [(rid, n)]" using assms(7) by (simp add: dict_set_new)
  with assms(1,3-6,8) \<open>rid \<notin> fst ` set (num_scheduled l)\<close> show ?thesis by (auto simp: accounted_def room_def)
qed

lemma accounted_cong:
  "accounted c tot l \<Longrightarrow> token_budget l' = token_budget l \<Longrightarrow> input_budget l' = input_budget l \<Longrightarrow>
   num_scheduled l' = num_scheduled l \<Longrightarrow> scheduled l' = scheduled l \<Longrightarrow> accounted c tot l'"
  by (simp add: accounted_def)

lemma sum_dict_del:
  assumes "distinct (map fst d)" "map_of d k = Some v"
  shows "(\<Sum>e\<leftarrow>d. (f e :: int)) = f (k, v) + (\<Sum>e\<leftarrow>dict_del k d. f e)"
  using assms
proof (induction d)
  case (Cons e d)
  show ?case
  proof (cases "fst e = k")
    case True
    with Cons.prems have "dict_del k d = d" by (auto simp: dict_del_def filter_id_conv image_iff)
    with True Cons.prems show ?thesis by (cases e) (simp add: dict_del_def)
  next
    case False
    with Cons show ?thesis by (cases e) (simp add: dict_del_def)
  qed
qed simp

text \<open>The budgets of a preempted request are given back in full.\<close>

lemma take_back_accounted:
  assumes "accounted c tot l" "take_back c r v l = Inr l'" "v \<in> set (scheduled_running l)" "0 \<le> draft_slots c"
  shows "accounted c tot l'" "scheduled_running l' = remove1 v (scheduled_running l)" "scheduled_new l' = scheduled_new l"
    "scheduled_resumed l' = scheduled_resumed l" "room c l \<le> room c l'"
proof -
  obtain n where n: "map_of (num_scheduled l) v = Some n" and l': "token_budget l' = token_budget l + n"
    "input_budget l' = input_budget l + n + draft_slots c" "num_scheduled l' = dict_del v (num_scheduled l)"
    "scheduled_running l' = remove1 v (scheduled_running l)" "scheduled_new l' = scheduled_new l" "scheduled_resumed l' = scheduled_resumed l"
    using assms(2) by (auto simp: take_back_def bindE_eq_Inr Let_def dict_pop_def split: option.splits)
  have d: "distinct (map fst (num_scheduled l))" "mset (map fst (num_scheduled l)) = mset (scheduled l)" using assms(1) by (simp_all add: accounted_def)
  have pos: "0 < n" using assms(1) map_of_SomeD [OF n] by (fastforce simp: accounted_def)
  have keys: "map fst (dict_del v (num_scheduled l)) = filter (\<lambda>x. x \<noteq> v) (map fst (num_scheduled l))"
    by (simp add: dict_del_def filter_map comp_def)
  have "mset (map fst (num_scheduled l')) = mset (scheduled l) - {#v#}"
    using d unfolding l'(3) keys by (simp only: filter_neq_distinct mset_remove1)
  also have "\<dots> = mset (scheduled l')" using assms(3) by (simp add: scheduled_def l')
  finally have m: "mset (map fst (num_scheduled l')) = mset (scheduled l')" .
  have "distinct (map fst (num_scheduled l'))" using d(1) unfolding l'(3) keys by simp
  moreover have "\<forall>e \<in> set (num_scheduled l'). 0 < snd e" using assms(1) by (auto simp: l' dict_del_def accounted_def)
  ultimately show "accounted c tot l'"
    using assms(1,4) pos m sum_dict_del [OF d(1) n, of snd] sum_dict_del [OF d(1) n, of "\<lambda>e. snd e + draft_slots c"]
    by (simp add: accounted_def l'(1-3))
  show "scheduled_running l' = remove1 v (scheduled_running l)" "scheduled_new l' = scheduled_new l"
    "scheduled_resumed l' = scheduled_resumed l"
    using l' by simp_all
  show "room c l \<le> room c l'" using l'(1,2) pos assms(4) unfolding room_def by linarith
qed

section \<open>The running requests\<close>

text \<open>In the first loop every scheduled request is before the current index.\<close>

definition run_ok :: "sched_config \<Rightarrow> int \<Rightarrow> sloop \<Rightarrow> ('k, 'm) sched \<Rightarrow> bool" where
  "run_ok c tot l s \<longleftrightarrow> accounted c tot l \<and> scheduled_new l = [] \<and> scheduled_resumed l = []
     \<and> set (scheduled_running l) \<subseteq> set (take (req_index l) (running s)) \<and> distinct (running s)
     \<and> int (length (running s)) \<le> max_num_running_reqs c"

lemma remove_before:
  assumes "j < i" "i < length xs" "distinct xs"
  shows "set (take (i - 1) (take j xs @ drop (Suc j) xs)) = set (take i xs) - {xs ! j}"
    "(take j xs @ drop (Suc j) xs) ! (i - 1) = xs ! i"
proof -
  have j: "j < length xs" using assms by simp
  have xs: "xs = take j xs @ xs ! j # drop (Suc j) xs" by (rule id_take_nth_drop [OF j])
  have "take i xs = take j xs @ xs ! j # take (i - Suc j) (drop (Suc j) xs)"
    using assms(1,2) by (subst xs) (simp add: take_Cons' Suc_diff_Suc min_def)
  moreover have "distinct (take j xs @ xs ! j # drop (Suc j) xs)" using assms(3) xs by metis
  moreover have "take (i - 1) (take j xs @ drop (Suc j) xs) = take j xs @ take (i - Suc j) (drop (Suc j) xs)"
    using assms(1,2) j by (simp add: min_absorb2)
  ultimately show "set (take (i - 1) (take j xs @ drop (Suc j) xs)) = set (take i xs) - {xs ! j}"
    by (auto dest: in_set_takeD)
  show "(take j xs @ drop (Suc j) xs) ! (i - 1) = xs ! i" using assms(1,2) by (auto simp: nth_append min_def)
qed

lemma remove_after:
  assumes "i \<le> j" "j < length xs"
  shows "take i (take j xs @ drop (Suc j) xs) = take i xs" "i < j \<Longrightarrow> (take j xs @ drop (Suc j) xs) ! i = xs ! i"
  using assms by (simp_all add: min_def nth_append)

lemma index_of_nth: "x \<in> set xs \<Longrightarrow> xs ! index_of x xs = x"
  by (induction xs) auto

lemma run_ok_cong:
  "run_ok c tot l s \<Longrightarrow> token_budget l' = token_budget l \<Longrightarrow> input_budget l' = input_budget l \<Longrightarrow> num_scheduled l' = num_scheduled l \<Longrightarrow>
   scheduled_running l' = scheduled_running l \<Longrightarrow> scheduled_new l' = scheduled_new l \<Longrightarrow> scheduled_resumed l' = scheduled_resumed l \<Longrightarrow>
   set (take (req_index l) (running s)) \<subseteq> set (take (req_index l') (running s')) \<Longrightarrow> distinct (running s') \<Longrightarrow> length (running s') \<le> length (running s) \<Longrightarrow> run_ok c tot l' s'"
  by (auto simp: run_ok_def scheduled_def elim!: accounted_cong)

lemma preempt_priority_cases:
  assumes "preempt_victim c svc l s = Inr (v, l', s')" "policy c = PRIORITY"
  obtains l2 where "worst_request s = Inr v"
    "running s' = take (index_of v (running s)) (running s) @ drop (Suc (index_of v (running s))) (running s)"
    "l' = l2\<lparr>preempted := preempted l2 @ [v]\<rparr>"
    "if v \<in> set (scheduled_running l)
     then \<exists>r. take_back c r v (if index_of v (running s) < req_index l then l\<lparr>req_index := req_index l - 1\<rparr> else l) = Inr l2
     else l2 = (if index_of v (running s) < req_index l then l\<lparr>req_index := req_index l - 1\<rparr> else l)"
proof -
  obtain w where w: "worst_request s = Inr w" using assms by (auto simp: preempt_victim_def bindE_eq_Inr)
  let ?l1 = "if index_of w (running s) < req_index l then l\<lparr>req_index := req_index l - 1\<rparr> else l"
  let ?s1 = "s\<lparr>running := take (index_of w (running s)) (running s) @ drop (Suc (index_of w (running s))) (running s)\<rparr>"
  have sr: "scheduled_running ?l1 = scheduled_running l" by simp
  obtain l2 where l2: "(if w \<in> set (scheduled_running l) then bindE (get_req w ?s1) (\<lambda>r. bindE (take_back c r w ?l1) (\<lambda>l2. Inr (w, l2, ?s1)))
      else Inr (w, ?l1, ?s1)) = Inr (w, l2, ?s1)"
    and p: "preempt_request svc w False ?s1 = Inr s'" and v: "v = w" and l': "l' = l2\<lparr>preempted := preempted l2 @ [w]\<rparr>"
    using assms(1) unfolding preempt_victim_def assms(2) scheduling_policy.case w bindE_simps(2) Let_def sr
    by (elim bindE_InrE) (auto split: if_splits elim!: bindE_InrE)
  show thesis
  proof (rule that [of l2])
    show "worst_request s = Inr v" using w v by simp
    show "running s' = take (index_of v (running s)) (running s) @ drop (Suc (index_of v (running s))) (running s)"
      using preempt_request_running [OF p] v by simp
    show "l' = l2\<lparr>preempted := preempted l2 @ [v]\<rparr>" using l' v by simp
    show "if v \<in> set (scheduled_running l)
     then \<exists>r. take_back c r v (if index_of v (running s) < req_index l then l\<lparr>req_index := req_index l - 1\<rparr> else l) = Inr l2
     else l2 = (if index_of v (running s) < req_index l then l\<lparr>req_index := req_index l - 1\<rparr> else l)"
      using l2 v by (cases "w \<in> set (scheduled_running l)") (auto simp: bindE_eq_Inr simp del: if_split)
  qed
qed

lemma preempt_victim_ok:
  assumes "run_ok c tot l s" "config_ok c" "req_index l < length (running s)" "preempt_victim c svc l s = Inr (v, l', s')"
  shows "run_ok c tot l' s' \<and> room c l \<le> room c l' \<and> (v \<noteq> running s ! req_index l \<longrightarrow>
    req_index l' < length (running s') \<and> running s' ! req_index l' = running s ! req_index l)"
proof (cases "policy c")
  case FCFS
  have l': "l' = l\<lparr>preempted := preempted l @ [v]\<rparr>" "v = last (running s)" "running s' = butlast (running s)"
    using assms(4) FCFS by (auto simp: preempt_victim_def bindE_eq_Inr split: if_splits dest!: preempt_request_running)
  have tk: "take (req_index l) (butlast (running s)) = take (req_index l) (running s)"
    using assms(3) by (simp add: take_butlast)
  have "run_ok c tot l' s'"
    by (rule run_ok_cong [OF assms(1)]) (use assms(1) in \<open>auto simp: l' tk run_ok_def distinct_butlast\<close>)
  moreover have "req_index l < length (butlast (running s))" if "v \<noteq> running s ! req_index l"
  proof -
    have "running s \<noteq> []" using assms(3) by auto
    with that l'(2) have "req_index l \<noteq> length (running s) - 1" by (auto simp: last_conv_nth)
    with assms(3) show ?thesis by simp
  qed
  ultimately show ?thesis by (auto simp: l' room_def nth_butlast)
next
  case PRIORITY
  let ?run = "running s" and ?i = "req_index l"
  let ?j = "index_of v ?run"
  let ?l1 = "if ?j < ?i then l\<lparr>req_index := ?i - 1\<rparr> else l"
  obtain l2 where v: "worst_request s = Inr v" and run': "running s' = take ?j ?run @ drop (Suc ?j) ?run"
    and l': "l' = l2\<lparr>preempted := preempted l2 @ [v]\<rparr>"
    and l2: "if v \<in> set (scheduled_running l) then \<exists>r. take_back c r v ?l1 = Inr l2 else l2 = ?l1"
    by (rule preempt_priority_cases [OF assms(4) PRIORITY])
  have j: "?j < length ?run" "?run ! ?j = v" using worst_request_mem [OF v] index_of_less index_of_nth by metis+
  have acc0: "accounted c tot l" "set (scheduled_running l) \<subseteq> set (take ?i ?run)" "distinct ?run" using assms(1) by (simp_all add: run_ok_def)
  have ok: "accounted c tot ?l1" "distinct (scheduled_running l)" "set (scheduled_running l) \<subseteq> set (take ?i ?run)" "distinct ?run"
    by (rule accounted_cong [OF acc0(1)]) (use acc0 accounted_distinct [OF acc0(1)] in \<open>simp_all add: scheduled_def\<close>)
  have b: "accounted c tot l2 \<and> room c l \<le> room c l2 \<and> scheduled_new l2 = [] \<and> scheduled_resumed l2 = [] \<and> req_index l2 = req_index ?l1
      \<and> set (scheduled_running l2) = set (scheduled_running l) - {v}"
  proof (cases "v \<in> set (scheduled_running l)")
    case True
    with l2 obtain r where t: "take_back c r v ?l1 = Inr l2" by auto
    have "v \<in> set (scheduled_running ?l1)" using True by simp
    note t' = take_back_accounted [OF ok(1) t this] take_back_index [OF t]
    have "room c ?l1 = room c l" by (simp add: room_def)
    with t' ok(2) assms(1,2) show ?thesis by (auto simp: config_ok_def run_ok_def set_remove1_eq split: if_splits)
  next
    case False
    with l2 ok(1) assms(1) show ?thesis by (auto simp: run_ok_def room_def)
  qed
  have acc: "accounted c tot l'" "room c l \<le> room c l'"
    by (rule accounted_cong [OF conjunct1 [OF b]]) (use b in \<open>simp_all add: l' scheduled_def room_def\<close>)
  have dist: "distinct (running s')" using ok(4) unfolding run' by (simp add: set_take_disj_set_drop_if_distinct)
  have len: "int (length (running s')) \<le> max_num_running_reqs c"
    using preempt_victim_shrinks [OF assms(4)] assms(1) by (simp add: run_ok_def)
  show ?thesis
  proof (cases "?j < ?i")
    case True
    from remove_before [OF True assms(3) ok(4)] have "set (take (?i - 1) (running s')) = set (take ?i ?run) - {v}" "running s' ! (?i - 1) = ?run ! ?i"
      by (simp_all add: run' j(2))
    then have "run_ok c tot l' s'" using acc b ok(3) dist len True by (auto simp: run_ok_def l')
    moreover have "req_index l' = ?i - 1" using b True by (simp add: l')
    moreover have "?i - 1 < length (running s')" using True assms(3) j(1) by (simp add: run')
    ultimately show ?thesis using acc \<open>running s' ! (?i - 1) = ?run ! ?i\<close> by simp
  next
    case False
    then have "take ?i (running s') = take ?i ?run" using remove_after(1) [of ?i ?j ?run] j(1) by (simp add: run')
    then have "run_ok c tot l' s'" using acc b ok(3) dist len False by (auto simp: run_ok_def l')
    moreover have "?i < length (running s') \<and> running s' ! ?i = ?run ! ?i" if "v \<noteq> ?run ! ?i"
    proof -
      have "?i < ?j" using that j(2) False by (metis linorder_neqE_nat)
      then show ?thesis using remove_after(2) [of ?i ?j ?run] j(1) by (simp add: run')
    qed
    ultimately show ?thesis using acc b False by (simp add: l')
  qed
qed

text \<open>The multi-modal inputs of a request are sorted by position.\<close>

definition feats_sorted :: "('k, 'm) sched \<Rightarrow> bool" where
  "feats_sorted s \<longleftrightarrow> (\<forall>rid r. requests s rid = Some r \<longrightarrow> key_sorted ef_offset (sr_enc_features r))"

lemma feats_sorted_frame [simp]:
  "feats_sorted (s\<lparr>s_kv := k\<rparr>) = feats_sorted s" "feats_sorted (s\<lparr>s_enc := m\<rparr>) = feats_sorted s" "feats_sorted (s\<lparr>running := run\<rparr>) = feats_sorted s"
  by (simp_all add: feats_sorted_def)

lemma feats_sorted_put:
  assumes "feats_sorted s" "requests s rid = Some r" "sr_enc_features r' = sr_enc_features r" "requests s' = (requests s)(rid \<mapsto> r')"
  shows "feats_sorted s'"
  using assms by (auto simp: feats_sorted_def)

lemma preempt_request_sorted:
  assumes "feats_sorted s" "preempt_request svc v b s = Inr s'"
  shows "feats_sorted s'"
proof -
  obtain r r1 where "requests s v = Some r" "requests s' = (requests s)(v \<mapsto> r1)" "sr_enc_features r1 = sr_enc_features r"
    using assms(2) by (auto simp: preempt_request_def bindE_eq_Inr get_req_eq Let_def)
  then show ?thesis by (intro feats_sorted_put [OF assms(1)])
qed

lemma preempt_victim_sorted:
  assumes "feats_sorted s" "preempt_victim c svc l s = Inr (v, l', s')"
  shows "feats_sorted s'"
proof -
  obtain run where "preempt_request svc v False (s\<lparr>running := run\<rparr>) = Inr s'"
    using assms(2) by (cases "policy c") (auto simp: preempt_victim_def bindE_eq_Inr Let_def split: if_splits)
  then show ?thesis by (rule preempt_request_sorted [rotated]) (use assms(1) in simp)
qed

lemma run_ok_frame [simp]: "run_ok c tot l (s\<lparr>s_kv := k\<rparr>) = run_ok c tot l s" "run_ok c tot l (s\<lparr>s_enc := m\<rparr>) = run_ok c tot l s"
  by (simp_all add: run_ok_def)

lemma alloc_loop_ok:
  assumes "alloc_loop c svc rid n l s = Inr (res, l', s')" "run_ok c tot l s" "config_ok c" "feats_sorted s"
    and "req_index l < length (running s)" "rid = running s ! req_index l"
  shows "run_ok c tot l' s' \<and> feats_sorted s' \<and> room c l \<le> room c l'
    \<and> (res \<noteq> None \<longrightarrow> req_index l' < length (running s') \<and> running s' ! req_index l' = rid)"
  using assms
proof (induction c svc rid n l s rule: alloc_loop.induct)
  case (1 c svc rid n l s)
  obtain r res1 k where a: "get_req rid s = Inr r"
    "svc_alloc svc (request.truncate r) n 0 None (num_lookahead_tokens c) 0 False True (s_kv s) = Inr (res1, k)"
    using 1(2) by (subst (asm) alloc_loop.simps) (auto simp: bindE_eq_Inr)
  let ?s = "s\<lparr>s_kv := k\<rparr>"
  show ?case
  proof (cases "res1 = None")
    case False
    with 1(2-) a show ?thesis by (subst (asm) alloc_loop.simps) (auto simp: Let_def)
  next
    case True
    then obtain v l2 s2 where v: "preempt_victim c svc l ?s = Inr (v, l2, s2)"
      and rest: "(if v = rid then Inr (None, l2, s2) else alloc_loop c svc rid n l2 s2) = Inr (res, l', s')"
      using 1(2) a by (subst (asm) alloc_loop.simps) (auto simp: bindE_eq_Inr Let_def)
    have l2: "run_ok c tot l2 s2" "room c l \<le> room c l2" "v \<noteq> rid \<Longrightarrow> req_index l2 < length (running s2) \<and> rid = running s2 ! req_index l2"
      "feats_sorted s2"
      using preempt_victim_ok [OF _ 1(4) _ v, of tot] preempt_victim_sorted [OF _ v] 1(3-7) by auto
    show ?thesis
    proof (cases "v = rid")
      case False
      then have go: "alloc_loop c svc rid n l2 s2 = Inr (res, l', s')" using rest by simp
      have "run_ok c tot l' s' \<and> feats_sorted s' \<and> room c l2 \<le> room c l' \<and> (res \<noteq> None \<longrightarrow> req_index l' < length (running s') \<and> running s' ! req_index l' = rid)"
        by (rule 1(1) [OF a refl refl _ v refl refl False go l2(1) 1(4) l2(4)]) (use l2(3) False True in auto)
      with l2(2) show ?thesis by auto
    qed (use rest l2 in auto)
  qed
qed

lemma run_scheduled_simps [simp]:
  "req_index (run_scheduled c rid r n bs l) = Suc (req_index l)" "token_budget (run_scheduled c rid r n bs l) = token_budget l - n"
  "input_budget (run_scheduled c rid r n bs l) = input_budget l - (n + draft_slots c)"
  "num_scheduled (run_scheduled c rid r n bs l) = dict_set rid n (num_scheduled l)"
  "scheduled_running (run_scheduled c rid r n bs l) = scheduled_running l @ [rid]"
  "scheduled_new (run_scheduled c rid r n bs l) = scheduled_new l" "scheduled_resumed (run_scheduled c rid r n bs l) = scheduled_resumed l"
  by (simp_all add: run_scheduled_def running_spec_def Let_def)

lemma alloc_encoder_keeps:
  assumes "alloc_encoder svc r v l s = Inr (l', s')"
  shows "req_index l' = req_index l" "token_budget l' = token_budget l" "input_budget l' = input_budget l" "num_scheduled l' = num_scheduled l"
    "scheduled_running l' = scheduled_running l" "scheduled_new l' = scheduled_new l" "scheduled_resumed l' = scheduled_resumed l"
    "running s' = running s" "requests s' = requests s"
  using assms by (auto simp: alloc_encoder_def bindE_eq_Inr split: if_splits)

lemma drop_drafts_keeps: "running (drop_drafts rid r s) = running s"
  by (simp add: drop_drafts_def put_req_def)

lemma drop_drafts_sorted: "feats_sorted s \<Longrightarrow> requests s rid = Some r \<Longrightarrow> feats_sorted (drop_drafts rid r s)"
  by (auto simp: drop_drafts_def put_req_def feats_sorted_def)

context sched_services
begin

lemma run_one_ok:
  assumes "run_one c svc d l s = Inr (b, l', s')" "run_ok c tot l s" "config_ok c" "feats_sorted s" "in_place l s"
    and "req_index l < length (running s)" "0 < token_budget l"
  shows "run_ok c tot l' s' \<and> feats_sorted s'"
  using assms(1)
proof (cases rule: run_one_cases)
  case stop
  with assms show ?thesis by simp
next
  case (skip m)
  with assms show ?thesis
    by (auto simp: run_ok_def take_Suc_conv_app_nth scheduled_def elim!: accounted_cong)
next
  case (preempted n m)
  from alloc_loop_ok [OF preempted(2), of tot] assms show ?thesis by simp
next
  case (scheduled r v m n bs l2 s2)
  let ?rid = "running s ! req_index l"
  have r: "requests s2 ?rid = Some r" using postD [OF alloc_loop_placed scheduled(6)] assms(5) scheduled(2) by auto
  have l2: "run_ok c tot l2 s2" "feats_sorted s2" "room c l \<le> room c l2" "req_index l2 < length (running s2)" "running s2 ! req_index l2 = ?rid"
    using alloc_loop_ok [OF scheduled(6), of tot] assms by auto
  have "\<not> input_budget l \<le> draft_slots c" using assms(1) scheduled(1) by (auto simp: run_one_def Let_def)
  then have "running_num_new c l r \<le> room c l" "0 < room c l" using running_num_new_le [OF assms(3), of l r] assms(7) by (simp_all add: room_def)
  moreover have "es_num_new_tokens v \<le> max (running_num_new c l r) 0"
    by (rule try_encoder_le [OF scheduled(3)]) (use assms(4) scheduled(2) in \<open>simp add: feats_sorted_def\<close>)
  ultimately have n: "0 < n" "n \<le> room c l2"
    using reserve_bounds [of c r "num_computed_tokens r" "es_num_new_tokens v"] scheduled(4,5) l2(3) by linarith+
  let ?l3 = "run_scheduled c ?rid r n bs l2"
  have ok: "accounted c tot l2" "set (scheduled_running l2) \<subseteq> set (take (req_index l2) (running s2))" "scheduled_new l2 = []"
    "scheduled_resumed l2 = []" "distinct (running s2)" "int (length (running s2)) \<le> max_num_running_reqs c" using l2(1) by (simp_all add: run_ok_def)
  have "?rid \<notin> set (take (req_index l2) (running s2))"
    using ok(5) l2(4,5) by (metis id_take_nth_drop distinct_append disjoint_iff list.set_intros(1))
  with ok have fresh: "?rid \<notin> set (scheduled_running l2)" by blast
  have "accounted c tot ?l3"
    by (rule accounted_add [OF ok(1) _ n]) (use ok fresh in \<open>auto simp: scheduled_def\<close>)
  moreover have "set (take (Suc (req_index l2)) (running s2)) = insert ?rid (set (take (req_index l2) (running s2)))"
    using l2(4,5) by (simp add: take_Suc_conv_app_nth)
  ultimately have "run_ok c tot ?l3 (drop_drafts ?rid r s2)" using ok by (auto simp: run_ok_def drop_drafts_keeps)
  moreover have "feats_sorted (drop_drafts ?rid r s2)" by (rule drop_drafts_sorted [OF l2(2) r])
  ultimately show ?thesis
    using alloc_encoder_keeps [OF scheduled(7)] by (auto simp: run_ok_def feats_sorted_def scheduled_def elim: accounted_cong)
qed

lemma run_loop_ok:
  assumes "run_loop c svc d l s = Inr (l', s')" "run_ok c tot l s" "config_ok c" "feats_sorted s" "in_place l s"
  shows "run_ok c tot l' s' \<and> feats_sorted s'"
  using assms
proof (induction "length (running s) - req_index l" arbitrary: l s rule: less_induct)
  case less
  show ?case
  proof (cases "req_index l < length (running s) \<and> 0 < token_budget l")
    case True
    then obtain b l1 s1 where one: "run_one c svc d l s = Inr (b, l1, s1)"
      and rest: "(if b then run_loop c svc d l1 s1 else Inr (l1, s1)) = Inr (l', s')"
      using less.prems(1) by (subst (asm) run_loop.simps) (auto simp: bindE_eq_Inr)
    have ok: "run_ok c tot l1 s1" "feats_sorted s1" "in_place l1 s1"
      using run_one_ok [OF one less.prems(2-5)] True postD [OF run_one_placed [OF less.prems(5)] one] by auto
    show ?thesis
    proof (cases b)
      case True
      with one rest less.hyps [of s1 l1] run_one_advances [of c svc d l s l1 s1] \<open>_ \<and> _\<close> ok less.prems(3) show ?thesis by simp
    qed (use rest ok in simp)
  next
    case False
    have "Inr (l, s) = (Inr (l', s') :: _ res)" using less.prems(1) by (subst (asm) run_loop.simps) (simp only: if_not_P [OF False])
    with less.prems show ?thesis by simp
  qed
qed

end

section \<open>The waiting requests\<close>

definition wait_ok :: "sched_config \<Rightarrow> int \<Rightarrow> sloop \<Rightarrow> ('k, 'm) sched \<Rightarrow> bool" where
  "wait_ok c tot l s \<longleftrightarrow> accounted c tot l \<and> set (scheduled l) \<subseteq> set (running s) \<and> feats_sorted s
     \<and> int (length (running s)) \<le> max_num_running_reqs c"

lemma touched_sorted: "feats_sorted s \<Longrightarrow> touched rid s s' \<Longrightarrow> feats_sorted s'"
  by (auto simp: touched_def intro: feats_sorted_put)

text \<open>Starting a request appends it to the running list and charges its tokens.\<close>

lemma start_request_keeps:
  assumes "start_request c svc rid r n nc pad v l s = Inr (b, l', s')"
  shows "token_budget l' = token_budget l - n \<and> input_budget l' = input_budget l - (n + draft_slots c)
    \<and> num_scheduled l' = dict_set rid n (num_scheduled l) \<and> mset (scheduled l') = add_mset rid (mset (scheduled l))"
  using assms
proof (cases rule: start_request_cases)
  case new
  from alloc_encoder_keeps [OF new(3)] show ?thesis by (simp add: start_loop_def scheduled_def)
next
  case resumed
  from alloc_encoder_keeps [OF resumed(3)] show ?thesis by (simp add: start_loop_def scheduled_def)
qed

context sched_services
begin

lemma wait_one_ok:
  assumes "wait_one c svc d l s = Inr (b, l', s')" "wait_ok c tot l s" "config_ok c" "in_place l s"
    and "int (length (running s)) < max_num_running_reqs c" "0 < token_budget l"
  shows "wait_ok c tot l' s'"
  using assms(1)
proof (cases rule: wait_one_cases)
  case (skip rid w s1)
  then obtain q where "pop_selected w s1 = Inr (q, s')" "l' = l\<lparr>step_skipped := rq_prepend (step_skipped l) q\<rparr>"
    by (auto simp: skip_waiting_def bindE_eq_Inr)
  with pop_selected_queued [OF this(1)] touched_sorted [OF _ skip(1)] skip(1) assms(2) show ?thesis
    by (auto simp: wait_ok_def touched_def feats_sorted_def scheduled_def elim!: accounted_cong)
next
  case (stop rid)
  with touched_sorted [OF _ stop(3)] assms(2) show ?thesis by (auto simp: wait_ok_def touched_def)
next
  case (started w q r q' np al nl nc v n m s0 s1 s2)
  let ?X = "rq_elems (step_skipped l)" and ?rid = "request_id q"
  have s1: "placed ?X s1" "feats_sorted s1" "running s1 = running s"
    using touched_placed [OF assms(4) started(2)] touched_sorted [OF _ started(2)] started(2) assms(2) by (auto simp: wait_ok_def touched_def)
  have q': "q' = q" using pop_selected_queued(2) [OF started(10)] started(1) by (simp add: touched_selected [OF started(2)])
  have "q \<in># queued ?X s1" using pop_selected_queued(1) [OF started(10), of ?X] q' by simp
  then have fresh: "?rid \<notin> set (running s)" by (rule located_queued [OF s1(1) [unfolded placed_def]]) (use s1(3) in simp)
  have "es_num_new_tokens v \<le> max (fst al) 0"
    by (rule try_encoder_le [OF started(7)]) (use s1(2) started(3) in \<open>simp add: feats_sorted_def\<close>)
  moreover have "fst al \<le> room c l" by (rule waiting_chunk_le [OF assms(3) started(4-6)])
  ultimately have n: "0 < n" "n \<le> room c l"
    using reserve_bounds [of c r nc "es_num_new_tokens v"] started(8,9) by linarith+
  note start = start_request_frame [OF started(11)]
  have ok: "accounted c tot l" "set (scheduled l) \<subseteq> set (running s)" using assms(2) by (simp_all add: wait_ok_def)
  have "accounted c tot l'"
    by (rule accounted_add [OF ok(1) _ n]) (use start_request_keeps [OF started(11)] fresh ok(2) in auto)
  moreover have "running s' = running s @ [?rid]" using start(2) pop_selected_queued(3) [OF started(10)] s1(3) by simp
  moreover have "set (scheduled l') = insert ?rid (set (scheduled l))"
    using start_request_keeps [OF started(11)] by (metis set_mset_add_mset_insert set_mset_mset)
  moreover have "feats_sorted s'"
    by (rule feats_sorted_put [OF s1(2) started(3)]) (use start(4) pop_selected_queued(4) [OF started(10)] in simp_all)
  ultimately show ?thesis using ok(2) assms(5) by (auto simp: wait_ok_def)
qed

lemma wait_loop_ok:
  assumes "wait_loop c svc d l s = Inr (l', s')" "wait_ok c tot l s" "config_ok c" "in_place l s"
  shows "wait_ok c tot l' s'"
  using assms
proof (induction "num_queued s" arbitrary: l s rule: less_induct)
  case less
  let ?go = "num_queued s \<noteq> 0 \<and> 0 < token_budget l \<and> \<not> input_budget l \<le> draft_slots c
    \<and> \<not> max_num_running_reqs c \<le> int (length (running s)) + num_waiting_for_streaming_input s"
  show ?case
  proof (cases ?go)
    case True
    have "0 \<le> num_waiting_for_streaming_input s" using less.prems(4) by (simp add: placed_def located_def)
    with True have room: "int (length (running s)) < max_num_running_reqs c" by linarith
    obtain b l1 s1 where one: "wait_one c svc d l s = Inr (b, l1, s1)"
      and rest: "(if b then wait_loop c svc d l1 s1 else Inr (l1, s1)) = Inr (l', s')"
      using less.prems(1) by (subst (asm) wait_loop.simps) (auto simp: bindE_eq_Inr True)
    have ok: "wait_ok c tot l1 s1" "in_place l1 s1"
      using wait_one_ok [OF one less.prems(2-4) room] True postD [OF wait_one_placed [OF less.prems(4)] one] by auto
    show ?thesis
    proof (cases b)
      case True
      with one rest less.hyps [of s1 l1] wait_one_pops [of c svc d l s l1 s1] ok less.prems(3) show ?thesis by simp
    qed (use rest ok in simp)
  next
    case False
    have "Inr (l, s) = (Inr (l', s') :: _ res)" using less.prems(1) by (subst (asm) wait_loop.simps) (simp only: if_not_P [OF False])
    with less.prems show ?thesis by simp
  qed
qed

end

section \<open>A whole step\<close>

definition step_budget :: "sched_config \<Rightarrow> ('k, 'm) sched \<Rightarrow> int" where
  "step_budget c s = (if pause_mode s = PAUSED_ALL then 0 else max_num_scheduled_tokens c)"

text \<open>The states between two steps.\<close>

definition step_ok :: "sched_config \<Rightarrow> ('k, 'm) sched \<Rightarrow> bool" where
  "step_ok c s \<longleftrightarrow> placed [] s \<and> feats_sorted s \<and> int (length (running s)) \<le> max_num_running_reqs c"

context sched_services
begin

lemma schedule_loops_ok:
  assumes "schedule_loops c svc throttle s = Inr (l', s')" "config_ok c" "step_ok c s"
  shows "wait_ok c (step_budget c s) l' s'"
proof -
  obtain d l1 s1 loras where
    run: "run_loop c svc d (sched_start c (pause_mode s)) (step_init svc s) = Inr (l1, s1)"
    and wait: "schedule_waiting c svc d (l1\<lparr>scheduled_loras := loras\<rparr>) s1 = Inr (l', s')"
    by (rule schedule_loops_cases [OF assms(1)])
  have p: "placed [] s" "feats_sorted s" "int (length (running s)) \<le> max_num_running_reqs c" using assms(3) by (simp_all add: step_ok_def)
  let ?l = "sched_start c (pause_mode s)" and ?s = "step_init svc s"
  have start: "in_place ?l ?s" "feats_sorted ?s" using p by (simp_all add: sched_start_def step_init_def feats_sorted_def)
  have "run_ok c (step_budget c s) ?l ?s" using p(3) located_distinct [OF p(1) [unfolded placed_def]] assms(2)
    by (simp add: run_ok_def accounted_def sched_start_def scheduled_def step_budget_def step_init_def config_ok_def)
  from run_loop_ok [OF run this assms(2) start(2,1)] have r1: "run_ok c (step_budget c s) l1 s1" "feats_sorted s1" by simp_all
  have p1: "in_place l1 s1" using postD [OF run_loop_placed [OF start(1)] run] by auto
  let ?l1 = "l1\<lparr>scheduled_loras := loras\<rparr>"
  have w1: "wait_ok c (step_budget c s) ?l1 s1"
    using r1 by (auto simp: run_ok_def wait_ok_def scheduled_def elim!: accounted_cong dest: in_set_takeD)
  show ?thesis
  proof (cases "preempted ?l1 = [] \<and> pause_mode s1 = UNPAUSED")
    case True
    then obtain s2 where "wait_loop c svc d ?l1 s1 = Inr (l', s2)" "running s' = running s2" "requests s' = requests s2"
      using wait by (auto simp: schedule_waiting_def bindE_eq_Inr Let_def split: if_splits)
    with wait_loop_ok [OF this(1) w1 assms(2)] p1 show ?thesis by (simp add: wait_ok_def feats_sorted_def)
  next
    case False
    then show ?thesis using wait w1 unfolding schedule_waiting_def if_not_P [OF False] by simp
  qed
qed

lemma step_within_limits:
  assumes "schedule_loops c svc throttle s = Inr (l, s')" "config_ok c" "step_ok c s"
  shows "(\<Sum>e\<leftarrow>num_scheduled l. snd e) \<le> max_num_scheduled_tokens c \<and> 0 \<le> token_budget l \<and> 0 \<le> input_budget l
    \<and> int (length (running s')) \<le> max_num_running_reqs c
    \<and> length (scheduled_new l) + length (scheduled_resumed l) + length (scheduled_running l) \<le> length (running s')
    \<and> (\<forall>e \<in> set (num_scheduled l). 0 < snd e \<and> fst e \<in> set (running s')) \<and> distinct (map fst (num_scheduled l))"
proof -
  have w: "wait_ok c (step_budget c s) l s'" by (rule schedule_loops_ok [OF assms])
  then have acc: "accounted c (step_budget c s) l" and sub: "set (scheduled l) \<subseteq> set (running s')" by (simp_all add: wait_ok_def)
  have "length (scheduled l) = card (set (scheduled l))" using accounted_distinct [OF acc] by (simp add: distinct_card)
  also have "\<dots> \<le> length (running s')" using card_mono [OF _ sub] card_length [of "running s'"] by simp
  finally have "length (scheduled_new l) + length (scheduled_resumed l) + length (scheduled_running l) \<le> length (running s')"
    by (simp add: scheduled_def)
  moreover have "(\<Sum>e\<leftarrow>num_scheduled l. snd e) \<le> max_num_scheduled_tokens c"
    using acc assms(2) by (auto simp: accounted_def step_budget_def config_ok_def split: if_splits)
  moreover have "\<forall>e \<in> set (num_scheduled l). fst e \<in> set (running s')" using accounted_keys [OF acc] sub by blast
  ultimately show ?thesis using acc w by (simp add: accounted_def wait_ok_def)
qed

end

end
