(* ===== verification/Sched_Conserve.thy ===== *)
theory Sched_Conserve
  imports Sched_Limits
begin

text \<open>
  Arrival, streaming sessions, abortion and the processing of outputs keep every request in
  exactly one place.
\<close>

section \<open>Finishing requests\<close>

lemma located_drop_many:
  assumes "located run Q rs n" "distinct ids" "\<And>rid. rid \<in> set ids \<Longrightarrow> rs rid \<noteq> None"
    and "mset run' = filter_mset (\<lambda>x. x \<notin> set ids) (mset run)" "Q' = filter_mset (\<lambda>q. request_id q \<notin> set ids) Q"
  shows "located run' Q' (rs |` (- set ids)) (n - (\<Sum>rid\<leftarrow>ids. is_streaming (rs rid)))"
  using assms
proof (induction ids arbitrary: run Q rs n)
  case Nil
  then show ?case by (simp add: located_mset [of run' run])
next
  case (Cons rid ids)
  obtain r where r: "rs rid = Some r" using Cons.prems(3) [of rid] by auto
  let ?run = "filter (\<lambda>x. x \<noteq> rid) run" and ?Q = "filter_mset (\<lambda>q. request_id q \<noteq> rid) Q" and ?rs = "rs(rid := None)"
  have l: "located ?run ?Q ?rs (n - is_streaming (rs rid))" using located_drop [OF Cons.prems(1) r, of ?run ?Q] r by simp
  have "located run' Q' (?rs |` (- set ids)) (n - is_streaming (rs rid) - (\<Sum>x\<leftarrow>ids. is_streaming (?rs x)))"
    by (rule Cons.IH [OF l]) (use Cons.prems in \<open>auto simp: filter_filter_mset conj_commute\<close>)
  moreover have "?rs |` (- set ids) = rs |` (- set (rid # ids))" by (auto simp: restrict_map_def)
  moreover have "(\<Sum>x\<leftarrow>ids. is_streaming (?rs x)) = (\<Sum>x\<leftarrow>ids. is_streaming (rs x))"
    by (rule arg_cong [where f = sum_list], rule map_cong) (use Cons.prems(2) in auto)
  ultimately show ?case by (simp add: algebra_simps)
qed

lemma finish_all_frame:
  "foldE (finish_one svc st) ids s = Inr s' \<Longrightarrow> distinct ids \<and> (\<forall>rid \<in> set ids. requests s rid \<noteq> None)
     \<and> requests s' = requests s |` (- set ids) \<and> running s' = running s \<and> waiting s' = waiting s
     \<and> skipped_waiting s' = skipped_waiting s \<and> num_waiting_for_streaming_input s' = num_waiting_for_streaming_input s"
proof (induction ids arbitrary: s)
  case (Cons rid ids)
  obtain s1 where f: "finish_one svc st rid s = Inr s1" "foldE (finish_one svc st) ids s1 = Inr s'"
    using Cons.prems by (auto simp: bindE_eq_Inr)
  have s1: "requests s rid \<noteq> None" "requests s1 = (requests s)(rid := None)" "running s1 = running s" "waiting s1 = waiting s"
    "skipped_waiting s1 = skipped_waiting s" "num_waiting_for_streaming_input s1 = num_waiting_for_streaming_input s"
    using f(1) by (auto simp: finish_one_def free_request_def bindE_eq_Inr get_req_eq put_req_def)
  note ih = Cons.IH [OF f(2)]
  have new: "rid \<notin> set ids" using ih s1(2) by auto
  have "requests s x \<noteq> None" if "x \<in> set (rid # ids)" for x
    using ih that s1(1,2) by (cases "x = rid") auto
  moreover have "requests s' = requests s |` (- set (rid # ids))" using ih s1(2) by (simp add: restrict_map_def fun_eq_iff)
  ultimately show ?case using ih s1 new by auto
qed (simp add: restrict_map_def)

text \<open>The entries of the aborted requests are exactly those that carry their ids.\<close>

lemma filter_keys:
  assumes "located run Q rs n" "rs = requests s" "set ids = {rid \<in> set valid. \<not> has_status RUNNING s rid}"
  shows "filter_mset (\<lambda>q. q \<notin> keys_of s ids) Q = filter_mset (\<lambda>q. request_id q \<notin> set valid) Q"
proof (rule filter_mset_cong [OF refl])
  fix q assume q: "q \<in># Q"
  obtain r where r: "rs (request_id q) = Some r" "sr_key r = q" "queued_status (status r)"
    by (rule located_queued [OF assms(1) q]) blast
  have "q \<in> keys_of s ids \<longleftrightarrow> request_id q \<in> set ids"
  proof
    assume "q \<in> keys_of s ids"
    then obtain rid r' where rid: "rid \<in> set ids" "requests s rid = Some r'" "sr_key r' = q"
      by (auto simp: keys_of_def List.map_filter_def split: option.splits)
    have "request_id q = rid" using located_get [OF assms(1), of rid] rid(2,3) assms(2) by (simp add: place_ok_def)
    with rid show "request_id q \<in> set ids" by simp
  next
    assume "request_id q \<in> set ids"
    with r assms(2) show "q \<in> keys_of s ids" by (force simp: keys_of_def List.map_filter_def)
  qed
  moreover have "\<not> has_status RUNNING s (request_id q)" using r assms(2) by (simp add: has_status_def queued_status_def)
  ultimately show "(q \<notin> keys_of s ids) = (request_id q \<notin> set valid)" using assms(3) by blast
qed

lemma filter_running:
  assumes "located run Q rs n" "rs = requests s" "set ids = {rid \<in> set valid. has_status RUNNING s rid}"
  shows "filter (\<lambda>rid. rid \<notin> set ids) run = filter (\<lambda>rid. rid \<notin> set valid) run"
proof (rule filter_cong [OF refl])
  fix rid assume "rid \<in> set run"
  then have "has_status RUNNING s rid" by (rule located_running [OF assms(1)]) (use assms(2) in \<open>simp add: has_status_def\<close>)
  with assms(3) show "(rid \<notin> set ids) = (rid \<notin> set valid)" by blast
qed

lemma count_streaming:
  "int (length (filter (has_status WAITING_FOR_STREAMING_REQ s) (filter (\<lambda>rid. \<not> has_status RUNNING s rid) ids)))
     = (\<Sum>rid\<leftarrow>ids. is_streaming (requests s rid))"
  by (induction ids) (auto simp: has_status_def is_streaming_def split: option.splits)

lemma finish_requests_placed:
  assumes "placed [] s"
  shows "post (finish_requests svc ids st s) (\<lambda>(valid, s'). placed [] s')"
proof (rule postI, clarify)
  fix valid s' assume run: "finish_requests svc ids st s = Inr (valid, s')"
  define live where "live = filter (unfinished s) ids"
  define ws where "ws = filter (\<lambda>rid. \<not> has_status RUNNING s rid) live"
  define rs where "rs = filter (has_status RUNNING s) live"
  define s2 where "s2 = (let s1 = s\<lparr>num_waiting_for_streaming_input := num_waiting_for_streaming_input s
        - int (length (filter (has_status WAITING_FOR_STREAMING_REQ s) ws)),
      running := (if rs \<noteq> [] then remove_all (running s) (set rs) else running s)\<rparr>
    in if ws \<noteq> [] then s1\<lparr>waiting := rq_remove_many (waiting s1) (keys_of s ws),
                         skipped_waiting := rq_remove_many (skipped_waiting s1) (keys_of s ws)\<rparr> else s1)"
  have fold: "foldE (finish_one svc st) live s2 = Inr s'"
    using run unfolding finish_requests_def Let_def live_def [symmetric] ws_def [symmetric] rs_def [symmetric]
    by (elim bindE_InrE [of "py_assert _"] bindE_InrE) (simp add: s2_def Let_def)
  have l: "located (running s) (queued [] s) (requests s) (num_waiting_for_streaming_input s)" using assms by (simp add: placed_def)
  have reqs: "requests s2 = requests s" by (simp add: s2_def Let_def)
  note frame = finish_all_frame [OF fold, unfolded reqs]
  have "set rs = {rid \<in> set live. has_status RUNNING s rid}" "set ws = {rid \<in> set live. \<not> has_status RUNNING s rid}"
    by (auto simp: rs_def ws_def)
  note kept = filter_running [OF l refl this(1)] filter_keys [OF l refl this(2)]
  have "running s2 = filter (\<lambda>rid. rid \<notin> set rs) (running s)"
    using remove_all_filter [of "running s" "set rs"] located_distinct [OF l] by (auto simp: s2_def Let_def)
  then have r2: "running s2 = filter (\<lambda>rid. rid \<notin> set live) (running s)" by (rule trans [OF _ kept(1)])
  have "queued [] s2 = filter_mset (\<lambda>q. q \<notin> keys_of s ws) (queued [] s)"
    by (auto simp: s2_def Let_def queued_def rq_elems_remove_many keys_of_def)
  then have q2: "queued [] s2 = filter_mset (\<lambda>q. request_id q \<notin> set live) (queued [] s)" by (rule trans [OF _ kept(2)])
  have n2: "num_waiting_for_streaming_input s2 = num_waiting_for_streaming_input s - (\<Sum>rid\<leftarrow>live. is_streaming (requests s rid))"
    using count_streaming [of s live] by (simp add: s2_def Let_def ws_def)
  have "located (running s2) (queued [] s2) (requests s |` (- set live)) (num_waiting_for_streaming_input s2)"
    unfolding n2 q2 by (rule located_drop_many [OF l]) (use frame r2 in auto)
  with frame show "placed [] s'" by (simp add: placed_def queued_def)
qed

section \<open>Streaming sessions\<close>

lemma replace_once:
  assumes "count Q a = 1"
  shows "image_mset (\<lambda>x. if x = a then b else x) Q = Q - {#a#} + {#b#}"
proof -
  obtain Q' where Q: "Q = add_mset a Q'" using assms by (metis count_eq_zero_iff mset_add zero_neq_one)
  then have "a \<notin># Q'" using assms by (simp add: not_in_iff)
  then have "image_mset (\<lambda>x. if x = a then b else x) Q' = Q'" by (auto intro!: multiset.map_ident_strong)
  with Q show ?thesis by simp
qed

lemma queued_replace:
  "queued (map (\<lambda>x. if x = a then b else x) X) (s\<lparr>waiting := rq_replace a b (waiting s), skipped_waiting := rq_replace a b (skipped_waiting s)\<rparr>)
     = image_mset (\<lambda>x. if x = a then b else x) (queued X s)"
  by (simp add: queued_def rq_elems_replace)

lemma session_request_id [simp]: "req_id (session_request u r) = req_id r"
  by (simp add: session_request_def Let_def)

text \<open>What the update of a session does to the request and the queues.\<close>

lemma session_update_frame:
  assumes "update_request_as_session svc rid u s = Inr s'" "requests s rid = Some r"
  obtains r' where "requests s' = (requests s)(rid \<mapsto> r')" "req_id r' = req_id r" "request_id (sr_key r') = request_id (sr_key r)"
    "status r' = WAITING" "running s' = running s"
    "queued [] s' = image_mset (\<lambda>x. if x = sr_key r then sr_key r' else x) (queued [] s)"
    "num_waiting_for_streaming_input s' = num_waiting_for_streaming_input s - is_streaming (Some r)"
proof -
  obtain h where h: "svc_hash svc (request.truncate (session_request u r)) = Inr h"
    using assms by (auto simp: update_request_as_session_def get_req_def bindE_eq_Inr)
  let ?key = "QReq (priority (sr_key r)) (su_arrival_time u) (request_id (sr_key r)) (obj_id (sr_key r))"
  let ?r = "(session_request u r)\<lparr>block_hashes := block_hashes h, num_prompt_tokens := session_prompt u r,
                  sr_key := ?key, sr_sampling_params := su_sampling_params u, status := WAITING\<rparr>"
  have s': "s' = s\<lparr>requests := (requests s)(rid \<mapsto> ?r), waiting := rq_replace (sr_key r) ?key (waiting s),
      skipped_waiting := rq_replace (sr_key r) ?key (skipped_waiting s),
      num_waiting_for_streaming_input := num_waiting_for_streaming_input s - (if status r = WAITING_FOR_STREAMING_REQ then 1 else 0)\<rparr>"
    using assms h by (simp add: update_request_as_session_def get_req_def Let_def)
  show thesis
  proof (rule that [of ?r])
    have key: "sr_key ?r = ?key" by simp
    show "queued [] s' = image_mset (\<lambda>x. if x = sr_key r then sr_key ?r else x) (queued [] s)"
      unfolding key by (simp add: s' queued_def rq_elems_replace)
  qed (simp_all add: s' is_streaming_def)
qed

lemma entries_count: "entries rid Q = {#q#} \<Longrightarrow> count Q q = 1"
proof -
  assume e: "entries rid Q = {#q#}"
  then have "count (entries rid Q) q = 1" by simp
  with entries_mem [OF e] show ?thesis by (simp add: entries_def)
qed

lemma session_update_placed:
  assumes "placed [] s" "requests s rid = Some r" "status r = WAITING_FOR_STREAMING_REQ"
  shows "post (update_request_as_session svc rid u s) (placed [])"
proof (rule postI)
  fix s' assume "update_request_as_session svc rid u s = Inr s'"
  then obtain r' where r': "requests s' = (requests s)(rid \<mapsto> r')" "req_id r' = req_id r" "request_id (sr_key r') = request_id (sr_key r)"
    "status r' = WAITING" "running s' = running s"
    "queued [] s' = image_mset (\<lambda>x. if x = sr_key r then sr_key r' else x) (queued [] s)"
    "num_waiting_for_streaming_input s' = num_waiting_for_streaming_input s - is_streaming (Some r)"
    by (rule session_update_frame [OF _ assms(2)])
  have l: "located (running s) (queued [] s) (requests s) (num_waiting_for_streaming_input s)" using assms(1) by (simp add: placed_def)
  have e: "entries rid (queued [] s) = {#sr_key r#}" "request_id (sr_key r) = rid"
    using located_get [OF l, of rid] assms(2,3) by (simp_all add: place_ok_def)
  have "located (running s) (queued [] s') (requests s') (num_waiting_for_streaming_input s - is_streaming (Some r) + is_streaming (Some r'))"
    unfolding r'(1) by (rule located_requeue [OF l assms(2)])
      (use assms(3) r' e in \<open>simp_all add: replace_once [OF entries_count] queued_status_def is_finished_def less_request_status_def\<close>)
  with r' show "placed [] s'" by (simp add: placed_def is_streaming_def)
qed

text \<open>A request as \<open>Request.__init__\<close> builds it.\<close>

definition fresh_request :: "sreq \<Rightarrow> bool" where
  "fresh_request r \<longleftrightarrow> request_id (sr_key r) = req_id r
     \<and> (status r = WAITING \<or> status r = WAITING_FOR_STRUCTURED_OUTPUT_GRAMMAR)"

lemma enqueue_frame:
  "queued X (enqueue_waiting_request r s) = add_mset (sr_key r) (queued X s)"
  "running (enqueue_waiting_request r s) = running s" "requests (enqueue_waiting_request r s) = requests s"
  "num_waiting_for_streaming_input (enqueue_waiting_request r s) = num_waiting_for_streaming_input s"
  by (simp_all add: enqueue_waiting_request_def queued_def rq_elems_add)

lemma put_frame:
  "queued X (put_req rid r s) = queued X s" "running (put_req rid r s) = running s"
  "requests (put_req rid r s) = (requests s)(rid \<mapsto> r)"
  "num_waiting_for_streaming_input (put_req rid r s) = num_waiting_for_streaming_input s"
  "queued X (s\<lparr>num_waiting_for_streaming_input := n\<rparr>) = queued X s"
  by (simp_all add: put_req_def queued_def)

lemma add_request_placed:
  assumes "placed [] s" "fresh_request r"
  shows "post (add_request svc r s) (placed [])"
proof (cases "requests s (req_id r)")
  case None
  define r1 where "r1 = (if resumable r then r\<lparr>streaming_queue := Some []\<rparr> else r)"
  have q: "queued_status (status r1)" "is_streaming (Some r1) = 0" "req_id r1 = req_id r" "request_id (sr_key r1) = req_id r"
    using assms(2) by (auto simp: r1_def fresh_request_def queued_status_def is_finished_def less_request_status_def is_streaming_def)
  have "located (running s) (add_mset (sr_key r1) (queued [] s)) ((requests s)(req_id r \<mapsto> r1))
      (num_waiting_for_streaming_input s + is_streaming (Some r1))"
    by (rule located_new [OF assms(1) [unfolded placed_def] None q(3,4,1) refl])
  then have "placed [] (put_req (req_id r) r1 (enqueue_waiting_request r1 s))"
    using q(2) by (simp add: placed_def put_frame enqueue_frame)
  then show ?thesis by (simp add: add_request_def None Let_def flip: r1_def)
next
  case (Some e)
  show ?thesis
  proof (cases "status e = WAITING_FOR_STREAMING_REQ")
    case True
    have "post (bindE (finish_requests svc [req_id r] FINISHED_ABORTED s) (\<lambda>(_, s1). Inr s1)) (placed [])"
      by (rule post_bind, rule post_mono [OF finish_requests_placed [OF assms(1)]]) auto
    with Some True session_update_placed [OF assms(1) Some] show ?thesis by (simp add: add_request_def split: option.split)
  next
    case False
    with Some assms show ?thesis by (auto simp: add_request_def intro!: placed_put split: option.split)
  qed
qed

text \<open>A stopped request ends, or goes on as a session: then it is queued again.\<close>

lemma handle_stopped_cases:
  assumes "handle_stopped_request svc rid s = Inr (fin, s')" "requests s rid = Some r" "is_finished (status r)" "sr_key r \<notin># queued [] s"
  obtains (finished) r' where "fin" "s' = put_req rid r' s" "sr_key r' = sr_key r"
    | (session) r' where "\<not> fin" "resumable r" "requests s' = (requests s)(rid \<mapsto> r')" "req_id r' = req_id r"
        "request_id (sr_key r') = request_id (sr_key r)" "queued_status (status r')" "running s' = running s"
        "queued [] s' = add_mset (sr_key r') (queued [] s)"
        "num_waiting_for_streaming_input s' = num_waiting_for_streaming_input s + is_streaming (Some r')"
proof -
  have g: "get_req rid s = Inr r" using assms(2) by (simp add: get_req_def)
  have st: "status r \<noteq> WAITING_FOR_STREAMING_REQ" using assms(3) by (auto simp: is_finished_def less_request_status_def)
  have waits: "queued_status WAITING_FOR_STREAMING_REQ" "queued_status WAITING"
    by (simp_all add: queued_status_def is_finished_def less_request_status_def)
  show thesis
  proof (cases "resumable r")
    case False
    with assms(1) g finished [of r] assms(2) show thesis by (simp add: handle_stopped_request_def put_req_def fun_upd_idem)
  next
    case res: True
    consider "streaming_queue r = None \<or> streaming_queue r = Some []" | q where "streaming_queue r = Some (None # q)"
      | u q where "streaming_queue r = Some (Some u # q)"
      by (metis list.exhaust option.exhaust)
    then show thesis
    proof cases
      case 1
      let ?r = "r\<lparr>status := WAITING_FOR_STREAMING_REQ\<rparr>"
      let ?s = "(put_req rid ?r s)\<lparr>num_waiting_for_streaming_input := num_waiting_for_streaming_input s + 1\<rparr>"
      have "\<not> fin" "s' = enqueue_waiting_request ?r ?s"
        using assms(1) g res 1 by (auto simp: handle_stopped_request_def bindE_eq_Inr get_req_def put_frame)
      then show thesis
        by (intro session [of ?r]) (use res waits in \<open>simp_all add: enqueue_frame put_frame is_streaming_def\<close>)
    next
      case (2 q)
      with assms(1) g res finished [of "r\<lparr>streaming_queue := Some q\<rparr>"] show thesis
        by (auto simp: handle_stopped_request_def)
    next
      case (3 u q)
      let ?r = "r\<lparr>streaming_queue := Some q\<rparr>"
      obtain s1 r1 where u: "update_request_as_session svc rid u (put_req rid ?r s) = Inr s1" "requests s1 rid = Some r1" "\<not> fin"
        "s' = enqueue_waiting_request r1 s1"
        using assms(1) g res 3 by (auto simp: handle_stopped_request_def bindE_eq_Inr get_req_eq)
      have "requests (put_req rid ?r s) rid = Some ?r" by (simp add: put_frame)
      from session_update_frame [OF u(1) this] obtain r' where
        r': "requests s1 = (requests s)(rid \<mapsto> r')" "req_id r' = req_id r" "request_id (sr_key r') = request_id (sr_key r)"
        "status r' = WAITING" "running s1 = running s"
        "queued [] s1 = image_mset (\<lambda>x. if x = sr_key r then sr_key r' else x) (queued [] s)"
        "num_waiting_for_streaming_input s1 = num_waiting_for_streaming_input s"
        using st by (auto simp: put_frame is_streaming_def)
      have "image_mset (\<lambda>x. if x = sr_key r then sr_key r' else x) (queued [] s) = queued [] s"
        using assms(4) by (auto intro!: multiset.map_ident_strong)
      with r' u res waits show thesis by (intro session [of r']) (simp_all add: enqueue_frame is_streaming_def)
    qed
  qed
qed

section \<open>Processing outputs\<close>

lemma stop_statuses [simp]:
  "is_finished FINISHED_STOPPED" "is_finished FINISHED_LENGTH_CAPPED" "is_finished FINISHED_REPETITION" "is_finished FINISHED_ERROR"
  by (simp_all add: is_finished_def less_request_status_def)

lemma check_stop_status: "post (check_stop n q) (\<lambda>(stopped, q'). if stopped then is_finished (or_status q') else q' = q)"
  unfolding check_stop_def by (intro post_any post_option post_if) simp_all

text \<open>A request keeps its identity while its tokens are delivered, and its status unless it stops.\<close>

definition delivered :: "bool \<Rightarrow> sreq \<Rightarrow> sreq \<Rightarrow> bool" where
  "delivered stopped r r' \<longleftrightarrow> req_id r' = req_id r \<and> sr_key r' = sr_key r \<and> (resumable r' \<longrightarrow> resumable r)
     \<and> (if stopped then is_finished (status r') else status r' = status r)"

lemma deliver_delivered: "deliver c svc ts r = Inr ((kept, stopped), r') \<Longrightarrow> delivered stopped r r'"
proof (induction ts arbitrary: r kept stopped)
  case (Cons t ts)
  obtain h st q where h: "svc_hash svc (request.truncate (append_sampled t r)) = Inr h"
    and q: "check_stop (model_len c) (out_view ((append_sampled t r)\<lparr>block_hashes := block_hashes h\<rparr>)) = Inr (st, q)"
    using Cons.prems by (auto simp: bindE_eq_Inr Let_def)
  let ?r = "(append_sampled t r)\<lparr>block_hashes := block_hashes h, status := or_status q, sr_stop_reason := or_stop_reason q\<rparr>"
  have d: "delivered st r ?r" using postD [OF check_stop_status q] by (auto simp: delivered_def append_sampled_def out_view_def split: if_splits)
  show ?case
  proof (cases st)
    case True
    with Cons.prems h q d show ?thesis by simp
  next
    case False
    with Cons.prems h q obtain k st' where "deliver c svc ts ?r = Inr ((k, st'), r')" "stopped = st'"
      by (auto simp: bindE_eq_Inr Let_def)
    with Cons.IH [of ?r k st'] d False show ?thesis by (simp add: delivered_def)
  qed
qed (simp add: delivered_def)

lemma deliver_output_delivered:
  assumes "deliver_output c svc is_stale ts r k = Inr ((kept, stopped), r', k')"
  shows "delivered stopped r r'"
proof -
  obtain r1 where "deliver c svc ts r = Inr ((kept, stopped), r1)" and r': "req_id r' = req_id r1" "sr_key r' = sr_key r1"
    "resumable r' = resumable r1" "status r' = status r1"
    using assms by (auto simp: deliver_output_def bindE_eq_Inr Let_def split: if_splits)
  with deliver_delivered show ?thesis by (fastforce simp: delivered_def)
qed

lemma finish_step_delivered:
  assumes "finish_step c svc mo rid is_stale r k = Inr ((kept, stopped), r', k')"
  shows "delivered stopped r r'"
proof -
  obtain kept1 stopped1 r1 k1 where m: "(if mo_sampled mo rid \<noteq> [] then deliver_output c svc is_stale (mo_sampled mo rid) r k
             else if sr_pooling_params r \<and> mo_pooled mo rid \<or> is_mm_encoder_only c \<and> num_prompt_tokens r \<le> num_computed_tokens r
             then Inr (([], True), r\<lparr>status := FINISHED_STOPPED\<rparr>, k) else Inr (([], False), r, k)) = Inr ((kept1, stopped1), r1, k1)"
    and res: "(if kept1 \<noteq> [] \<and> \<not> mo_accepted mo rid kept1 then Inr ((kept1, True), r1\<lparr>status := FINISHED_ERROR, resumable := False\<rparr>, k1)
        else Inr ((kept1, stopped1), r1, k1)) = (Inr ((kept, stopped), r', k') :: _ res)"
    using assms unfolding finish_step_def Let_def by (elim bindE_InrE) auto
  have "delivered stopped1 r r1"
    using m by (auto split: if_splits dest: deliver_output_delivered) (simp_all add: delivered_def)
  with res show ?thesis by (auto simp: delivered_def split: if_splits)
qed

lemma settle_step_frame: "settle_step n r = Inr (b, r') \<Longrightarrow> req_id r' = req_id r \<and> sr_key r' = sr_key r \<and> status r' = status r \<and> resumable r' = resumable r"
  by (auto simp: settle_step_def Let_def bindE_eq_Inr split: if_splits)

lemma reject_drafts_frame [simp]: "req_id (reject_drafts c b d ts r) = req_id r" "sr_key (reject_drafts c b d ts r) = sr_key r"
  "status (reject_drafts c b d ts r) = status r" "resumable (reject_drafts c b d ts r) = resumable r"
  by (simp_all add: reject_drafts_def Let_def)

text \<open>
  While the outputs are processed the requests that stopped are still in the running list and the
  queues; the places below are those that remain when they are removed.
\<close>

definition left_running :: "upd_loop \<Rightarrow> ('k, 'm) sched \<Rightarrow> string list" where
  "left_running u s = filter (\<lambda>rid. rid \<notin> stopped_running u) (running s)"

definition left_queued :: "upd_loop \<Rightarrow> ('k, 'm) sched \<Rightarrow> qreq multiset" where
  "left_queued u s = filter_mset (\<lambda>q. q \<notin> stopped_preempted u) (queued [] s)"

definition settled :: "string set \<Rightarrow> upd_loop \<Rightarrow> ('k, 'm) sched \<Rightarrow> bool" where
  "settled processed u s \<longleftrightarrow>
     located (left_running u s) (left_queued u s) (requests s) (num_waiting_for_streaming_input s)
     \<and> stopped_running u \<subseteq> processed \<and> request_id ` stopped_preempted u \<subseteq> processed"

text \<open>A session that goes on while its request is not running would be queued twice; see the guard below.\<close>

definition session_ok :: "sreq \<Rightarrow> bool" where
  "session_ok r \<longleftrightarrow> (resumable r \<or> status r = WAITING_FOR_STREAMING_REQ \<longrightarrow> status r = RUNNING)"

lemma free_request_frame:
  assumes "free_request svc rid s = Inr s'"
  shows "requests s' = (requests s)(rid := None)" "running s' = running s" "queued X s' = queued X s"
    "num_waiting_for_streaming_input s' = num_waiting_for_streaming_input s"
  using assms by (auto simp: free_request_def bindE_eq_Inr queued_def)

lemma left_entries:
  assumes "settled P u s" "rid \<notin> P"
  shows "entries rid (left_queued u s) = entries rid (queued [] s)" "count (mset (left_running u s)) rid = count (mset (running s)) rid"
proof -
  show "entries rid (left_queued u s) = entries rid (queued [] s)"
    using assms by (auto simp: settled_def left_queued_def entries_def filter_filter_mset intro!: filter_mset_cong)
  have "rid \<notin> stopped_running u" using assms by (auto simp: settled_def)
  then show "count (mset (left_running u s)) rid = count (mset (running s)) rid" by (simp add: left_running_def)
qed

lemma without_entries:
  assumes "entries rid Q = {#}"
  shows "filter_mset (\<lambda>q. request_id q \<noteq> rid) Q = Q" "request_id q = rid \<Longrightarrow> q \<notin># Q"
proof -
  show *: "request_id q = rid \<Longrightarrow> q \<notin># Q" for q
    using assms by (auto simp: entries_def dest!: multi_member_split)
  have "filter_mset (\<lambda>q. request_id q \<noteq> rid) Q = filter_mset (\<lambda>_. True) Q" by (rule filter_mset_cong) (use * in auto)
  then show "filter_mset (\<lambda>q. request_id q \<noteq> rid) Q = Q" by simp
qed

lemma stop_running_settled:
  assumes "settled P u s0" "rid \<notin> P" "requests s0 rid = Some r0" "status r0 = RUNNING"
    and "requests s = (requests s0)(rid \<mapsto> r)" "req_id r = req_id r0" "sr_key r = sr_key r0" "is_finished (status r)"
    and "running s = running s0" "queued [] s = queued [] s0" "num_waiting_for_streaming_input s = num_waiting_for_streaming_input s0"
    and "stop_step svc rid RUNNING (u, s) = Inr (u', s')"
  shows "settled (insert rid P) u' s' \<and> running s' = running s0 \<and> (\<forall>x. x \<noteq> rid \<longrightarrow> requests s' x = requests s0 x)"
proof -
  obtain fin s1 s2 where h: "handle_stopped_request svc rid s = Inr (fin, s1)" "(if fin then free_request svc rid s1 else Inr s1) = Inr s'"
    and u': "u' = u\<lparr>stopped_running := insert rid (stopped_running u)\<rparr>"
    using assms(12) by (auto simp: stop_step_def bindE_eq_Inr)
  have l: "located (left_running u s0) (left_queued u s0) (requests s0) (num_waiting_for_streaming_input s0)"
    using assms(1) by (simp add: settled_def)
  have e: "request_id (sr_key r0) = rid" "req_id r0 = rid" "entries rid (queued [] s0) = {#}" "count (mset (left_running u s0)) rid = 1"
    "entries rid (left_queued u s0) = {#}"
    using located_get [OF l, of rid] assms(3,4) left_entries [OF assms(1,2)] by (simp_all add: place_ok_def)
  have key: "sr_key r \<notin># queued [] s"
    using without_entries(2) [OF e(3)] e(1) assms(7,10) by simp
  have rq: "requests s rid = Some r" using assms(5) by simp
  have run: "mset (left_running u s0) = add_mset rid (mset (left_running u' s0))"
    "mset (left_running u' s0) = filter_mset (\<lambda>x. x \<noteq> rid) (mset (left_running u s0))"
    using e(4) by (auto simp: left_running_def u' multiset_eq_iff)
  have sets: "stopped_running u' \<subseteq> insert rid P" "request_id ` stopped_preempted u' \<subseteq> insert rid P"
    using assms(1) by (auto simp: settled_def u')
  show ?thesis
  proof (cases rule: handle_stopped_cases [OF h(1) rq assms(8) key])
    case (1 r')
    then have f: "free_request svc rid (put_req rid r' s) = Inr s'" using h(2) by simp
    note frame = free_request_frame [OF f]
    have Q: "left_queued u' s' = filter_mset (\<lambda>q. request_id q \<noteq> rid) (left_queued u s0)"
      using without_entries(1) [OF e(5)] frame(3) [of "[]"] assms(10) by (simp add: left_queued_def u' put_frame)
    have "located (left_running u' s0) (left_queued u' s') ((requests s0)(rid := None)) (num_waiting_for_streaming_input s0 - is_streaming (Some r0))"
      by (rule located_drop [OF l assms(3) run(2) Q])
    with frame assms show ?thesis by (simp add: settled_def sets put_frame left_running_def is_streaming_def)
  next
    case (2 r')
    have s': "s' = s1" using h(2) 2 by simp
    have Q: "left_queued u' s' = add_mset (sr_key r') (left_queued u s0)"
      using 2 assms(1,2,7,10) e(1) by (auto simp: left_queued_def u' s' settled_def)
    have "located (left_running u' s0) (left_queued u' s') ((requests s0)(rid \<mapsto> r')) (num_waiting_for_streaming_input s0 + is_streaming (Some r'))"
      by (rule located_unrun [OF l run(1) assms(3) _ _ _ Q]) (use 2 assms e in simp_all)
    with 2 assms s' show ?thesis by (simp add: settled_def sets left_running_def)
  qed
qed

lemma stop_queued_settled:
  assumes "settled P u s0" "rid \<notin> P" "requests s0 rid = Some r0" "status r0 \<noteq> RUNNING" "status r0 \<noteq> WAITING_FOR_STREAMING_REQ"
    and "requests s = (requests s0)(rid \<mapsto> r)" "sr_key r = sr_key r0" "\<not> resumable r"
    and "running s = running s0" "queued [] s = queued [] s0" "num_waiting_for_streaming_input s = num_waiting_for_streaming_input s0"
    and "stop_step svc rid (status r0) (u, s) = Inr (u', s')"
  shows "settled (insert rid P) u' s' \<and> running s' = running s0 \<and> (\<forall>x. x \<noteq> rid \<longrightarrow> requests s' x = requests s0 x)"
proof -
  have f: "free_request svc rid s = Inr s'" and u': "u' = u\<lparr>stopped_preempted := insert (sr_key r0) (stopped_preempted u)\<rparr>"
    using assms(4,6-8,12) by (auto simp: stop_step_def handle_stopped_request_def get_req_def bindE_eq_Inr)
  note frame = free_request_frame [OF f]
  have l: "located (left_running u s0) (left_queued u s0) (requests s0) (num_waiting_for_streaming_input s0)"
    using assms(1) by (simp add: settled_def)
  have e: "request_id (sr_key r0) = rid" "count (mset (left_running u s0)) rid = 0" "entries rid (left_queued u s0) = {#sr_key r0#}"
    using located_get [OF l, of rid] assms(3,4) by (simp_all add: place_ok_def)
  have "q = sr_key r0 \<longleftrightarrow> request_id q = rid" if "q \<in># left_queued u s0" for q
  proof
    assume "request_id q = rid"
    with that have "q \<in># entries rid (left_queued u s0)" by (simp add: entries_def)
    with e(3) show "q = sr_key r0" by simp
  qed (use e(1) in simp)
  then have "filter_mset (\<lambda>q. q \<noteq> sr_key r0) (left_queued u s0) = filter_mset (\<lambda>q. request_id q \<noteq> rid) (left_queued u s0)"
    by (intro filter_mset_cong) auto
  then have Q: "left_queued u' s' = filter_mset (\<lambda>q. request_id q \<noteq> rid) (left_queued u s0)"
    using frame(3) [of "[]"] assms(10) by (simp add: left_queued_def u' filter_filter_mset conj_commute)
  have run: "mset (left_running u' s0) = filter_mset (\<lambda>x. x \<noteq> rid) (mset (left_running u s0))"
    using e(2) by (auto simp: left_running_def u' multiset_eq_iff)
  have "located (left_running u' s0) (left_queued u' s') ((requests s0)(rid := None)) (num_waiting_for_streaming_input s0 - is_streaming (Some r0))"
    by (rule located_drop [OF l assms(3) run Q])
  moreover have "stopped_running u' \<subseteq> insert rid P" "request_id ` stopped_preempted u' \<subseteq> insert rid P"
    using assms(1) e(1) by (auto simp: settled_def u')
  ultimately show ?thesis using frame assms by (simp add: settled_def left_running_def is_streaming_def)
qed

lemma settled_put:
  assumes "settled P u s" "requests s rid = Some r" "req_id r' = req_id r" "sr_key r' = sr_key r" "status r' = status r"
    and "requests s' = (requests s)(rid \<mapsto> r')" "running s' = running s" "queued [] s' = queued [] s"
    "num_waiting_for_streaming_input s' = num_waiting_for_streaming_input s"
  shows "settled (insert rid P) u s'"
proof -
  have "located (left_running u s) (left_queued u s) (requests s) (num_waiting_for_streaming_input s)"
    using assms(1) by (simp add: settled_def)
  from located_put [OF this assms(2-5)] assms(1,6-9) show ?thesis by (auto simp: settled_def left_running_def left_queued_def)
qed

text \<open>
  The three ways in which an output is processed: its request is gone, the output is dropped, or
  its tokens are delivered.
\<close>

lemma update_one_cases:
  assumes "update_one c svc so mo (rid, n) (u, s) = Inr (u', s')"
  obtains (gone) "requests s rid = None" "u' = u" "s' = s"
    | (dropped) r r1 where "requests s rid = Some r" "u' = u" "s' = put_req rid r1 s" "req_id r1 = req_id r" "sr_key r1 = sr_key r"
        "status r1 = status r"
    | (tokens) r r4 u1 stopped k m where "requests s rid = Some r" "delivered stopped r r4"
        "stopped_running u1 = stopped_running u" "stopped_preempted u1 = stopped_preempted u"
        "(if stopped then stop_step svc rid (status r) (u1, (put_req rid r4 s)\<lparr>s_kv := k, s_enc := m\<rparr>)
          else Inr (u1, (put_req rid r4 s)\<lparr>s_kv := k, s_enc := m\<rparr>)) = Inr (u', s')"
proof (cases "requests s rid")
  case None
  then have "u' = u \<and> s' = s" using assms by (auto simp: update_one_def bindE_eq_Inr)
  then show thesis by (intro gone) (simp_all add: None)
next
  case (Some r)
  obtain stale r1 where r1: "settle_step n r = Inr (stale, r1)" using assms by (auto simp: update_one_def Some bindE_eq_Inr)
  note same = settle_step_frame [OF r1]
  show thesis
  proof (cases "is_finished (status r1) \<or> stale \<and> drop_stale_output r1")
    case True
    then have "u' = u \<and> s' = put_req rid r1 s" using assms by (auto simp: update_one_def Some r1 bindE_eq_Inr)
    then show thesis by (intro dropped [OF Some, of r1]) (simp_all add: same)
  next
    case False
    define r2 where "r2 = reject_drafts c stale (case map_of (out_spec so) rid of None \<Rightarrow> [] | Some ts \<Rightarrow> ts) (mo_sampled mo rid) r1"
    have r2: "req_id r2 = req_id r" "sr_key r2 = sr_key r" "status r2 = status r" "resumable r2 = resumable r"
      using same by (simp_all add: r2_def)
    note run = assms [unfolded update_one_def prod.case Some option.case r1 bindE_simps(2) if_not_P [OF False] Let_def r2_def [symmetric]]
    let ?u = "\<lambda>kept stopped r3. if kept \<noteq> [] \<or> mo_pooled mo rid \<or> stopped then u\<lparr>engine_outputs := engine_outputs u
                @ [(rid, kept, if stopped then get_finished_reason (status r3) else None)]\<rparr> else u"
    let ?r = "\<lambda>kept stopped r3. if kept \<noteq> [] \<or> mo_pooled mo rid \<or> stopped then r3\<lparr>has_prefill_stats := False\<rparr> else r3"
    obtain m y where y: "finish_step c svc mo rid stale r2 (s_kv s) = Inr y"
      and ys: "(\<lambda>((kept, stopped), r3, k).
          if stopped then stop_step svc rid (status r2) (?u kept stopped r3, (put_req rid (?r kept stopped r3) s)\<lparr>s_kv := k, s_enc := m\<rparr>)
          else Inr (?u kept stopped r3, (put_req rid (?r kept stopped r3) s)\<lparr>s_kv := k, s_enc := m\<rparr>)) y = Inr (u', s')"
      using run by (elim bindE_InrE [of "py_assert _"] bindE_InrE) (rule that, assumption, assumption)
    obtain kept stopped r3 k where fs: "y = ((kept, stopped), r3, k)" by (metis prod.exhaust)
    note out = ys [unfolded fs prod.case]
    have "delivered stopped r r3" using finish_step_delivered [OF y [unfolded fs]] r2 by (simp add: delivered_def)
    then have d: "delivered stopped r (if kept \<noteq> [] \<or> mo_pooled mo rid \<or> stopped then r3\<lparr>has_prefill_stats := False\<rparr> else r3)"
      by (simp add: delivered_def)
    show thesis by (rule tokens [OF Some d _ _ out [unfolded r2(3)]]) simp_all
  qed
qed

lemma update_one_settled:
  assumes "settled P u s" "rid \<notin> P" "\<And>r. requests s rid = Some r \<Longrightarrow> session_ok r"
    and "update_one c svc so mo (rid, n) (u, s) = Inr (u', s')"
  shows "settled (insert rid P) u' s' \<and> running s' = running s \<and> (\<forall>x. x \<noteq> rid \<longrightarrow> requests s' x = requests s x)"
  using assms(4)
proof (cases rule: update_one_cases)
  case gone
  with assms(1) show ?thesis by (auto simp: settled_def)
next
  case (dropped r r1)
  with settled_put [OF assms(1) dropped(1), of r1 s'] show ?thesis by (simp add: put_frame)
next
  case (tokens r r4 u1 stopped k m)
  have inv: "settled P u1 s" using assms(1) tokens(3,4) by (simp add: settled_def left_running_def left_queued_def)
  let ?s1 = "(put_req rid r4 s)\<lparr>s_kv := k, s_enc := m\<rparr>"
  have f: "requests ?s1 = (requests s)(rid \<mapsto> r4)" "running ?s1 = running s" "queued [] ?s1 = queued [] s"
    "num_waiting_for_streaming_input ?s1 = num_waiting_for_streaming_input s"
    by (simp_all add: put_req_def queued_def)
  have same: "req_id r4 = req_id r" "sr_key r4 = sr_key r" "resumable r4 \<longrightarrow> resumable r" using tokens(2) by (simp_all add: delivered_def)
  show ?thesis
  proof (cases stopped)
    case False
    with tokens(2,5) settled_put [OF inv tokens(1) same(1,2) _ f] f show ?thesis by (auto simp: delivered_def)
  next
    case True
    then have fin: "is_finished (status r4)" and step: "stop_step svc rid (status r) (u1, ?s1) = Inr (u', s')"
      using tokens(2,5) by (simp_all add: delivered_def)
    show ?thesis
    proof (cases "status r = RUNNING")
      case True
      from stop_running_settled [OF inv assms(2) tokens(1) True f(1) same(1,2) fin f(2-4)] step True show ?thesis by simp
    next
      case False
      with assms(3) [OF tokens(1)] same(3) have "status r \<noteq> WAITING_FOR_STREAMING_REQ" "\<not> resumable r4" by (auto simp: session_ok_def)
      from stop_queued_settled [OF inv assms(2) tokens(1) False this(1) f(1) same(2) this(2) f(2-4) step] show ?thesis .
    qed
  qed
qed

lemma update_all_settled:
  assumes "foldE (update_one c svc so mo) xs (u, s) = Inr (u', s')" "settled P u s" "distinct (map fst xs)" "fst ` set xs \<inter> P = {}"
    and "\<And>rid n r. (rid, n) \<in> set xs \<Longrightarrow> requests s rid = Some r \<Longrightarrow> session_ok r"
  shows "settled (P \<union> fst ` set xs) u' s' \<and> running s' = running s"
  using assms
proof (induction xs arbitrary: u s P)
  case (Cons e xs)
  obtain rid n where e: "e = (rid, n)" by fastforce
  obtain u1 s1 where one: "update_one c svc so mo (rid, n) (u, s) = Inr (u1, s1)" and rest: "foldE (update_one c svc so mo) xs (u1, s1) = Inr (u', s')"
    using Cons.prems(1) by (auto simp: e bindE_eq_Inr)
  have st: "settled (insert rid P) u1 s1" "running s1 = running s" "\<And>x. x \<noteq> rid \<Longrightarrow> requests s1 x = requests s x"
    using update_one_settled [OF Cons.prems(2) _ _ one] Cons.prems(4,5) by (auto simp: e)
  have "settled (insert rid P \<union> fst ` set xs) u' s' \<and> running s' = running s1"
  proof (rule Cons.IH [OF rest st(1)])
    show "session_ok r" if "(x, k) \<in> set xs" "requests s1 x = Some r" for x k r
    proof -
      have "x \<noteq> rid" using that(1) Cons.prems(3) by (force simp: e)
      with that st(3) Cons.prems(5) show ?thesis by (metis list.set_intros(2))
    qed
  qed (use Cons.prems(3,4) in \<open>auto simp: e\<close>)
  with st(2) show ?case by (simp add: e)
qed simp

text \<open>
  The guard under which the outputs of a step are processed: the keys of \<open>num_scheduled_tokens\<close> are
  those of a dictionary, and every streaming session of the step is still running.
\<close>

definition sessions_running :: "sched_output \<Rightarrow> ('k, 'm) sched \<Rightarrow> bool" where
  "sessions_running so s \<longleftrightarrow> distinct (map fst (out_num_scheduled so))
     \<and> list_all (\<lambda>(rid, n). case requests s rid of None \<Rightarrow> True | Some r \<Rightarrow> session_ok r) (out_num_scheduled so)"

lemma update_from_output_placed:
  assumes "placed [] s" "sessions_running so s"
  shows "post (update_from_output c svc so mo s) (\<lambda>(outs, s'). placed [] s')"
proof (rule postI, clarify)
  fix outs s' assume run: "update_from_output c svc so mo s = Inr (outs, s')"
  let ?u0 = "\<lparr>stopped_running = {}, stopped_preempted = {}, engine_outputs = []\<rparr>"
  obtain k u s1 failed s5 k7 where fold: "foldE (update_one c svc so mo) (out_num_scheduled so) (?u0, s\<lparr>s_kv := k\<rparr>) = Inr (u, s1)"
    and fin: "(if grammar_compile_error_reqs (remove_stopped u s1) \<noteq> {}
        then finish_requests svc (svc_set_order svc (grammar_compile_error_reqs (remove_stopped u s1))) FINISHED_ERROR
               ((remove_stopped u s1)\<lparr>grammar_compile_error_reqs := {}\<rparr>)
        else Inr ([], (remove_stopped u s1)\<lparr>grammar_compile_error_reqs := {}\<rparr>)) = Inr (failed, s5)" and s': "s' = s5\<lparr>s_kv := k7\<rparr>"
    using run unfolding update_from_output_def Let_def
    by (elim bindE_InrE) (clarsimp split: prod.splits simp del: if_split elim!: bindE_InrE)
  have "settled {} ?u0 (s\<lparr>s_kv := k\<rparr>)" using assms(1) by (simp add: settled_def placed_def left_running_def left_queued_def queued_def)
  from update_all_settled [OF fold this] assms(2) have st: "settled (fst ` set (out_num_scheduled so)) u s1" "running s1 = running s"
    by (fastforce simp: sessions_running_def list_all_iff)+
  have run3: "running (remove_stopped u s1) = left_running u s1"
    using remove_all_filter [of "running s1" "stopped_running u"] located_distinct [OF assms(1) [unfolded placed_def]] st(2)
    by (auto simp: remove_stopped_def Let_def left_running_def)
  have q3: "queued [] (remove_stopped u s1) = left_queued u s1" by (auto simp: remove_stopped_def Let_def left_queued_def queued_def rq_elems_remove_many)
  have "placed [] (remove_stopped u s1)" using st(1) run3 q3 by (simp add: placed_def settled_def remove_stopped_def Let_def)
  then have p: "placed [] ((remove_stopped u s1)\<lparr>grammar_compile_error_reqs := {}\<rparr>)" by simp
  have "placed [] s5"
  proof (cases "grammar_compile_error_reqs (remove_stopped u s1) = {}")
    case True
    with fin p show ?thesis by auto
  next
    case False
    with fin have "finish_requests svc (svc_set_order svc (grammar_compile_error_reqs (remove_stopped u s1))) FINISHED_ERROR
        ((remove_stopped u s1)\<lparr>grammar_compile_error_reqs := {}\<rparr>) = Inr (failed, s5)" by simp
    from postD [OF finish_requests_placed [OF p] this] show ?thesis by simp
  qed
  then show "placed [] s'" by (simp add: s')
qed

lemma update_drafts_placed: "placed X s \<Longrightarrow> placed X (update_draft_token_ids validate drafts s)"
proof -
  have inv: "placed X (foldl f s drafts)" if "placed X s" "\<And>s e. placed X s \<Longrightarrow> placed X (f s e)" for f s
    using that by (induction drafts arbitrary: s) auto
  show "placed X s \<Longrightarrow> ?thesis"
    unfolding update_draft_token_ids_def by (rule inv) (auto split: option.split prod.split intro!: placed_put)
qed

section \<open>Reachable states\<close>

text \<open>
  The operations of the scheduler in any order: requests arrive, steps are scheduled, outputs of
  earlier steps are processed, requests are aborted, drafts arrive, the scheduler is paused and its
  caches are reset.  The outputs of a step are processed under the guard \<open>sessions_running\<close>, which
  the code does not check.  The run may begin with any states \<open>k\<close> and \<open>m\<close> of the cache managers:
  where the requests are does not depend on them.
\<close>

inductive sched_run :: "sched_config \<Rightarrow> ('k, 'm) services \<Rightarrow> ('k, 'm) sched \<Rightarrow> bool" for c svc where
  run_init: "sched_run c svc (sched_init c k m)"
| run_add: "sched_run c svc s \<Longrightarrow> fresh_request r \<Longrightarrow> add_request svc r s = Inr s' \<Longrightarrow> sched_run c svc s'"
| run_schedule: "sched_run c svc s \<Longrightarrow> schedule c svc throttle s = Inr (out, s') \<Longrightarrow> sched_run c svc s'"
| run_update: "sched_run c svc s \<Longrightarrow> sessions_running out s \<Longrightarrow> update_from_output c svc out mo s = Inr (outs, s') \<Longrightarrow> sched_run c svc s'"
| run_finish: "sched_run c svc s \<Longrightarrow> finish_requests svc ids st s = Inr (valid, s') \<Longrightarrow> sched_run c svc s'"
| run_drafts: "sched_run c svc s \<Longrightarrow> sched_run c svc (update_draft_token_ids validate drafts s)"
| run_pause: "sched_run c svc s \<Longrightarrow> sched_run c svc (set_pause_state p s)"
| run_reset: "sched_run c svc s \<Longrightarrow> sched_reset_prefix_cache svc b s = Inr (ok, s') \<Longrightarrow> sched_run c svc s'"
| run_reset_encoder: "sched_run c svc s \<Longrightarrow> sched_run c svc (reset_encoder_cache svc s)"

lemma sched_init_placed: "placed [] (sched_init c k m)"
  by (simp add: placed_def located_def place_ok_def sched_init_def queued_def streaming_def)

lemma sched_run_placed: "sched_run c svc s \<Longrightarrow> placed [] s"
proof (induction rule: sched_run.induct)
  case (run_schedule s throttle out s')
  with postD [OF schedule_placed] show ?case by fastforce
next
  case (run_update s out mo outs s')
  with postD [OF update_from_output_placed] show ?case by fastforce
next
  case (run_finish s ids st valid s')
  with postD [OF finish_requests_placed] show ?case by fastforce
next
  case (run_reset s b ok s')
  with postD [OF reset_prefix_cache_placed] show ?case by fastforce
qed (auto simp: sched_init_placed set_pause_state_def reset_encoder_cache_def update_drafts_placed
  dest: postD [OF add_request_placed])

definition live :: "request_status set \<Rightarrow> ('k, 'm) sched \<Rightarrow> string set" where
  "live sts s = {rid. \<exists>r. requests s rid = Some r \<and> status r \<in> sts}"

definition waiting_ids :: "('k, 'm) sched \<Rightarrow> string list" where
  "waiting_ids s = map request_id (rq_elems (waiting s)) @ map request_id (rq_elems (skipped_waiting s))"

lemma count_ids: "count (image_mset request_id Q) rid = size (entries rid Q)"
  by (induction Q) auto

lemma placed_counts:
  assumes "placed [] s"
  shows "count (mset (running s)) rid = of_bool (rid \<in> live {RUNNING} s)"
    "count (mset (waiting_ids s)) rid = of_bool (rid \<in> live (- {RUNNING}) s)" "rid \<notin> live {st. is_finished st} s"
proof -
  have ok: "place_ok (running s) (queued [] s) rid (requests s rid)" using assms by (simp add: placed_def located_def)
  have ids: "mset (waiting_ids s) = image_mset request_id (queued [] s)" by (simp add: waiting_ids_def queued_def)
  have run: "\<not> is_finished RUNNING" by (simp add: is_finished_def less_request_status_def)
  show "count (mset (running s)) rid = of_bool (rid \<in> live {RUNNING} s)" "rid \<notin> live {st. is_finished st} s"
    using ok run by (auto simp: place_ok_def live_def queued_status_def count_mset_0_iff split: option.splits if_splits)
  show "count (mset (waiting_ids s)) rid = of_bool (rid \<in> live (- {RUNNING}) s)"
    unfolding ids count_ids using ok by (auto simp: place_ok_def live_def split: option.splits if_splits)
qed

lemma placed_places:
  assumes "placed [] s"
  shows "distinct (running s @ waiting_ids s)" "set (running s) = live {RUNNING} s" "set (waiting_ids s) = live (- {RUNNING}) s"
    "live {st. is_finished st} s = {}"
proof -
  note counts = placed_counts [OF assms]
  have mem: "rid \<in> set xs \<longleftrightarrow> count (mset xs) rid \<noteq> 0" for rid and xs :: "string list" by (simp add: count_mset_0_iff)
  show r: "set (running s) = live {RUNNING} s" and w: "set (waiting_ids s) = live (- {RUNNING}) s" "live {st. is_finished st} s = {}"
    using counts by (auto simp: mem)
  have "live {RUNNING} s \<inter> live (- {RUNNING}) s = {}" by (auto simp: live_def)
  moreover have "distinct (running s)" "distinct (waiting_ids s)"
    using counts(1,2) r w by (auto simp: distinct_count_atmost_1)
  ultimately show "distinct (running s @ waiting_ids s)" using r w by simp
qed

lemma placed_unfinished:
  assumes "placed [] s" "pause_mode s = UNPAUSED"
  shows "get_num_unfinished_requests s = int (card (live (- {WAITING_FOR_STREAMING_REQ}) s))"
proof -
  let ?all = "running s @ waiting_ids s"
  note places = placed_places [OF assms(1)]
  have str: "live {WAITING_FOR_STREAMING_REQ} s = streaming (requests s)" by (auto simp: live_def streaming_def)
  have all: "set ?all = live (- {WAITING_FOR_STREAMING_REQ}) s \<union> live {WAITING_FOR_STREAMING_REQ} s"
    using places(2,3) by (auto simp: live_def)
  have "length ?all = card (set ?all)" using places(1) by (simp only: distinct_card)
  also have "\<dots> = card (live (- {WAITING_FOR_STREAMING_REQ}) s) + card (live {WAITING_FOR_STREAMING_REQ} s)"
    unfolding all by (rule card_Un_disjoint) (use all in \<open>auto simp: live_def intro: finite_subset [of _ "set ?all"]\<close>)
  finally have "int (length ?all) = int (card (live (- {WAITING_FOR_STREAMING_REQ}) s)) + num_waiting_for_streaming_input s"
    using assms(1) by (simp add: placed_def located_def str)
  with assms(2) show ?thesis by (simp add: get_num_unfinished_requests_def waiting_ids_def rq_len_elems)
qed

end
