(* ===== verification/Sched_Theorems.thy ===== *)
theory Sched_Theorems
  imports Sched_Conserve Sched_Props
begin

text \<open>
  The properties of the scheduler, with the concrete runs that instantiate them, and the runs that
  show where its bookkeeping goes wrong.
\<close>

section \<open>A concrete scheduler\<close>

declare get_num_common_prefix_blocks_def [code del]
declare refl [code abort: get_num_common_prefix_blocks]
declare hasher_loop.simps [code] hybrid_loop.simps [code]

definition sample_sched_config :: sched_config where
  "sample_sched_config = \<lparr>policy = FCFS, async_scheduling = False, max_num_running_reqs = 4, max_num_scheduled_tokens = 8,
     max_num_batched_tokens = 8, draft_slots = 0, long_prefill_token_threshold = 0, model_len = 100,
     num_sampled_tokens_per_step = 1, num_spec_tokens = 0, dynamic_sd_lookup = None, num_lookahead_tokens = 0,
     num_prefill_lookahead = 0, enable_chunked_prefill = True, scheduler_reserve_full_isl = False, is_encoder_decoder = False,
     is_mm_encoder_only = False, max_num_encoder_input_tokens = 0, max_loras = Some 1, use_v2_model_runner = False, pp_size = 2,
     need_mamba_block_aligned_split = False, mamba_block_size = 0, mamba_use_eagle = False,
     mamba_has_prefill_checkpoint_blocks = False, mamba_partial_cache_hit = False, cfg_hash_block_size = 2\<rparr>"

definition sample_sreq :: "string \<Rightarrow> int list \<Rightarrow> int option \<Rightarrow> sreq" where
  "sample_sreq rid ts lora =
     request.extend ((sample_request rid ts [])\<lparr>lora_request := map_option (\<lambda>i. \<lparr>lora_name = ''l'', adapter_id = i\<rparr>) lora\<rparr>)
       (sreq.fields (QReq 0 0 rid 0) [] [] 10
          (Some \<lparr>eos_token_id = None, stop_token_ids = [], min_tokens = 0, repetition_detection = None\<rparr>)
          False None [] 0 0 False False 0 0 True No_Grammar False None)"

definition sample_hash :: hash_fn where
  "sample_hash = (\<lambda>(parent, toks, extra). parent @ map word_of_int toks)"

definition sample_services :: "(sched_blocks, enc_cache) services" where
  "sample_services = vllm_services sample_hash [] 2 sorted_list_of_set sorted_list_of_set 0 False"

definition sample_output :: "(string \<times> int list) list \<Rightarrow> model_output" where
  "sample_output toks = \<lparr>mo_sampled = (\<lambda>rid. case map_of toks rid of None \<Rightarrow> [] | Some ts \<Rightarrow> ts), mo_pooled = (\<lambda>_. False),
     mo_accepted = (\<lambda>_ _. True)\<rparr>"

abbreviation cfg :: sched_config where "cfg \<equiv> sample_sched_config"
abbreviation svc :: "(sched_blocks, enc_cache) services" where "svc \<equiv> sample_services"

text \<open>One group of full attention over four usable blocks of two tokens.\<close>

definition small_kvm :: "kvm res" where
  "small_kvm = kv_cache_manager_init (sample_config\<lparr>num_blocks := 5, kv_cache_groups := [kv_cache_groups sample_config ! 0]\<rparr>)
     100 2 2 None False False 0 False False False 1 1 0 []"

definition sample_sched :: "(sched_blocks, enc_cache) sched res" where
  "sample_sched = bindE small_kvm (\<lambda>k. Inr (sched_init cfg (sched_blocks_init k False) (enc_init 10)))"

text \<open>An update that is refused when the guard of \<open>sched_run\<close> fails.\<close>

definition guarded_update :: "sched_output \<Rightarrow> (string \<times> int list) list \<Rightarrow> (sched_blocks, enc_cache) sched \<Rightarrow> (sched_blocks, enc_cache) sched res" where
  "guarded_update out toks s =
     bindE (py_assert (sessions_running out s)) (\<lambda>_. bindE (update_from_output cfg svc out (sample_output toks) s) (\<lambda>(_, s1). Inr s1))"

definition sample_two :: "(sched_blocks, enc_cache) sched res" where
  "sample_two = bindE sample_sched (\<lambda>s. bindE (add_request svc (sample_sreq ''a'' [1, 2, 3] None) s)
     (add_request svc (sample_sreq ''b'' [4, 5, 6, 7, 8, 9] None)))"

definition sample_step :: "(sched_blocks, enc_cache) sched res" where
  "sample_step = bindE sample_two (\<lambda>s. bindE (schedule cfg svc False s) (\<lambda>(out, s1). guarded_update out [(''a'', [7])] s1))"

lemma sample_sched_reachable: "sample_sched = Inr s \<Longrightarrow> sched_run cfg svc s"
  by (auto simp: sample_sched_def bindE_eq_Inr intro: run_init)

lemma sample_sreq_fresh: "fresh_request (sample_sreq rid ts lora)"
  by (simp add: fresh_request_def sample_sreq_def sample_request_def request.defs sreq.defs)

lemma guarded_update_reachable: "sched_run cfg svc s \<Longrightarrow> guarded_update out toks s = Inr s' \<Longrightarrow> sched_run cfg svc s'"
  by (auto simp: guarded_update_def bindE_eq_Inr intro: run_update)

lemma sample_two_reachable: "sample_two = Inr s \<Longrightarrow> sched_run cfg svc s"
  unfolding sample_two_def by (elim bindE_InrE) (blast intro: run_add sample_sreq_fresh sample_sched_reachable)

lemma sample_step_reachable:
  assumes "sample_step = Inr s"
  shows "sched_run cfg svc s"
proof -
  obtain s1 out s2 where "sample_two = Inr s1" "schedule cfg svc False s1 = Inr (out, s2)" "guarded_update out [(''a'', [7])] s2 = Inr s"
    using assms unfolding sample_step_def by (elim bindE_InrE) (auto split: prod.splits)
  then show ?thesis by (metis guarded_update_reachable run_schedule sample_two_reachable)
qed

section \<open>Where requests are\<close>

text \<open>
  C5. Requests are neither lost nor duplicated, as long as no streaming session is preempted between
  a step that scheduled it and the processing of that step.  In every state that the scheduler
  reaches by arrivals, steps, outputs, abortions, preemptions and cache resets, the outputs of a
  step being processed only while each resumable session of the step that still exists is running
  (the guard \<open>sessions_running\<close> of \<open>sched_run\<close>; it says nothing of requests that are not
  sessions), a request in the table is in exactly one place: the running list holds the requests with
  status RUNNING, each once; the two waiting queues together hold all the others, each once; no
  finished request is kept.  The guard is needed: \<open>preempted_session_lost\<close> is a run of the code
  without it after which a session is in no queue.
\<close>

theorem requests_conserved:
  assumes "sched_run c svc s"
  shows "distinct (running s @ waiting_ids s) \<and> set (running s) = live {RUNNING} s \<and> set (waiting_ids s) = live (- {RUNNING}) s
    \<and> live {st. is_finished st} s = {}"
  using placed_places [OF sched_run_placed [OF assms]] by simp


theorem requests_conserved_witness:
  "\<exists>s. sample_step = Inr s \<and> live {RUNNING} s = {''a''} \<and> live (- {RUNNING}) s = {''b''}"
proof -
  have "satisfies (\<lambda>s. running s = [''a''] \<and> waiting_ids s = [''b'']) sample_step" by code_simp
  then obtain s where s: "sample_step = Inr s" "running s = [''a'']" "waiting_ids s = [''b'']" by (elim satisfiesE) blast
  with requests_conserved [OF sample_step_reachable [OF s(1)]] show ?thesis by auto
qed


text \<open>
  The number of unfinished requests that the engine polls is right.  In every state reached by
  \<open>sched_run\<close> (outputs are processed under the guard \<open>sessions_running\<close>), when the scheduler is not
  paused, it is the number of live requests that do not wait for the next input of a streaming
  session.  The engine therefore neither stops while a request is left nor spins without one.
\<close>

theorem unfinished_count_correct:
  assumes "sched_run c svc s" "pause_mode s = UNPAUSED"
  shows "get_num_unfinished_requests s = int (card (live (- {WAITING_FOR_STREAMING_REQ}) s))"
  using placed_unfinished [OF sched_run_placed [OF assms(1)] assms(2)] .

theorem unfinished_count_correct_witness:
  "\<exists>s. sample_step = Inr s \<and> get_num_unfinished_requests s = 2 \<and> card (live (- {WAITING_FOR_STREAMING_REQ}) s) = 2"
proof -
  have "satisfies (\<lambda>s. pause_mode s = UNPAUSED \<and> get_num_unfinished_requests s = 2) sample_step" by code_simp
  then obtain s where s: "sample_step = Inr s" "pause_mode s = UNPAUSED" "get_num_unfinished_requests s = 2" by (elim satisfiesE) blast
  from unfinished_count_correct [OF sample_step_reachable [OF s(1)] s(2)] s show ?thesis by auto
qed

section \<open>The limits of a step\<close>

text \<open>
  C6. A step stays within its limits, whatever it preempts on the way.  The scheduled tokens do not
  exceed \<open>max_num_scheduled_tokens\<close>, neither budget is overdrawn, the running list does not exceed
  \<open>max_num_running_reqs\<close>, and every scheduled request has at least one token, appears once and is
  running.  So the assertions at the end of \<open>schedule\<close> never fail.
\<close>

theorem schedule_limits:
  assumes "schedule_loops c (vllm_services H none_hash hash_bs input_order id_order lookahead no_chunk) throttle s = Inr (l, s')"
    and "config_ok c" "step_ok c s"
  shows "(\<Sum>e\<leftarrow>num_scheduled l. snd e) \<le> max_num_scheduled_tokens c \<and> 0 \<le> token_budget l \<and> 0 \<le> input_budget l
    \<and> int (length (running s')) \<le> max_num_running_reqs c
    \<and> length (scheduled_new l) + length (scheduled_resumed l) + length (scheduled_running l) \<le> length (running s')
    \<and> (\<forall>e \<in> set (num_scheduled l). 0 < snd e \<and> fst e \<in> set (running s')) \<and> distinct (map fst (num_scheduled l))"
  by (rule vs.step_within_limits [OF assms])

lemma sample_sorted:
  assumes "sample_two = Inr s"
  shows "feats_sorted s"
proof -
  obtain s0 s1 where s: "sample_sched = Inr s0" "add_request svc (sample_sreq ''a'' [1, 2, 3] None) s0 = Inr s1"
    "add_request svc (sample_sreq ''b'' [4, 5, 6, 7, 8, 9] None) s1 = Inr s"
    using assms unfolding sample_two_def by (elim bindE_InrE)
  have "requests s0 = Map.empty" using s(1) by (auto simp: sample_sched_def bindE_eq_Inr sched_init_def)
  then have "requests s1 = [''a'' \<mapsto> sample_sreq ''a'' [1, 2, 3] None]"
    using s(2) by (auto simp: add_request_def sample_sreq_def sample_request_def request.defs sreq.defs put_req_def enqueue_frame Let_def)
  then have "requests s = [''a'' \<mapsto> sample_sreq ''a'' [1, 2, 3] None, ''b'' \<mapsto> sample_sreq ''b'' [4, 5, 6, 7, 8, 9] None]"
    using s(3) by (auto simp: add_request_def sample_sreq_def sample_request_def request.defs sreq.defs put_req_def enqueue_frame Let_def)
  then show ?thesis by (auto simp: feats_sorted_def key_sorted_def sample_sreq_def request.defs sreq.defs split: if_splits)
qed

theorem schedule_limits_witness:
  "\<exists>s l s'. sample_two = Inr s \<and> schedule_loops cfg svc False s = Inr (l, s') \<and> (\<Sum>e\<leftarrow>num_scheduled l. snd e) \<le> 8
     \<and> num_scheduled l = [(''a'', 3)]"
proof -
  have "satisfies (\<lambda>s. int (length (running s)) \<le> 4 \<and> satisfies (\<lambda>(l, s'). num_scheduled l = [(''a'', 3)]) (schedule_loops cfg svc False s)) sample_two"
    by code_simp
  then obtain s l s' where s: "sample_two = Inr s" "int (length (running s)) \<le> 4" "schedule_loops cfg svc False s = Inr (l, s')"
    "num_scheduled l = [(''a'', 3)]"
    by (elim satisfiesE conjE) (auto simp: satisfies_def split: sum.splits prod.splits)
  have "config_ok cfg" by (simp add: config_ok_def sample_sched_config_def)
  moreover have "step_ok cfg s"
    using s(2) sample_sorted [OF s(1)] sched_run_placed [OF sample_two_reachable [OF s(1)]] by (simp add: step_ok_def sample_sched_config_def)
  ultimately have "(\<Sum>e\<leftarrow>num_scheduled l. snd e) \<le> max_num_scheduled_tokens cfg"
    using schedule_limits [OF s(3) [unfolded sample_services_def]] by simp
  with s show ?thesis by (auto simp: sample_sched_config_def)
qed

end
