(* ===== verification/Sched_Findings.thy ===== *)
theory Sched_Findings
  imports Sched_Theorems
begin

text \<open>
  Three reachable runs in which the bookkeeping of the scheduler goes wrong: the limit on LoRA
  adapters, a streaming session that stops while it is preempted, and the block hashes of a session.
\<close>

section \<open>The limit on adapters\<close>

text \<open>
  With one adapter slot: \<open>a\<close> is in flight while \<open>b\<close> is admitted, because a running request that has no
  token to schedule in a step does not count; then both have tokens.
\<close>

definition lora_run :: "(sched_blocks, enc_cache) sched res" where
  "lora_run =
     bindE sample_sched (\<lambda>s0. bindE (add_request svc (sample_sreq ''a'' [1, 2] (Some 1)) s0) (\<lambda>s1.
     bindE (schedule cfg svc False s1) (\<lambda>(o1, s2).
     bindE (add_request svc (sample_sreq ''b'' [3, 4] (Some 2)) s2) (\<lambda>s3.
     bindE (schedule cfg svc False s3) (\<lambda>(o2, s4).
     bindE (guarded_update o1 [(''a'', [7])] s4) (guarded_update o2 [(''b'', [8])]))))))"

lemma bindE_pairE:
  "bindE m (\<lambda>(a, b). f a b) = Inr y \<Longrightarrow> (\<And>a b. m = Inr (a, b) \<Longrightarrow> f a b = Inr y \<Longrightarrow> thesis) \<Longrightarrow> thesis"
  by (cases m) auto

lemma lora_run_reachable:
  assumes "lora_run = Inr s"
  shows "sched_run cfg svc s"
proof -
  from assms obtain s0 s1 o1 s2 s3 o2 s4 s5 where run: "sample_sched = Inr s0" "add_request svc (sample_sreq ''a'' [1, 2] (Some 1)) s0 = Inr s1"
    "schedule cfg svc False s1 = Inr (o1, s2)" "add_request svc (sample_sreq ''b'' [3, 4] (Some 2)) s2 = Inr s3"
    "schedule cfg svc False s3 = Inr (o2, s4)" "guarded_update o1 [(''a'', [7])] s4 = Inr s5" "guarded_update o2 [(''b'', [8])] s5 = Inr s"
    unfolding lora_run_def by (elim bindE_pairE bindE_InrE)
  have "sched_run cfg svc s2" by (rule run_schedule [OF run_add [OF sample_sched_reachable [OF run(1)] sample_sreq_fresh run(2)] run(3)])
  then have "sched_run cfg svc s4" by (rule run_schedule [OF run_add [OF _ sample_sreq_fresh run(4)] run(5)])
  then show ?thesis by (rule guarded_update_reachable [OF guarded_update_reachable [OF _ run(6)] run(7)])
qed

definition fails_with :: "py_exn \<Rightarrow> 'a res \<Rightarrow> bool" where
  "fails_with e m = (case m of Inl e' \<Rightarrow> e' = e | Inr _ \<Rightarrow> False)"

lemma fails_withD: "fails_with e m \<Longrightarrow> m = Inl e"
  by (auto simp: fails_with_def split: sum.splits)

lemma lora_run_adapters:
  "satisfies (\<lambda>s. map (\<lambda>rid. Option.bind (requests s rid) lora_int_id) (running s) = [Some 1, Some 2]) lora_run"
  by code_simp

lemma lora_run_fails: "satisfies (\<lambda>s. fails_with AssertionError (schedule cfg svc False s)) lora_run"
  by code_simp

lemma lora_run_two_slots: "satisfies (\<lambda>s. satisfies (\<lambda>_. True) (schedule (cfg\<lparr>max_loras := Some 2\<rparr>) svc False s)) lora_run"
  by code_simp

lemma satisfies_Inr: "satisfies P (Inr x) \<longleftrightarrow> P x"
  by (simp add: satisfies_def)

text \<open>
  The limit on LoRA adapters is not kept.  The run starts with the constructors, has one adapter slot and
  ends in a state in which the two running requests use the adapters 1 and 2: the check at admission
  counts only the running requests that were scheduled in the same step.  The next \<open>schedule\<close>
  fails its assertion, and the adapters are the reason: with two slots the same call returns.
\<close>

theorem lora_limit_not_kept:
  "\<exists>s. lora_run = Inr s \<and> sched_run cfg svc s \<and> max_loras cfg = Some 1
     \<and> map (\<lambda>rid. Option.bind (requests s rid) lora_int_id) (running s) = [Some 1, Some 2]
     \<and> schedule cfg svc False s = Inl AssertionError
     \<and> (\<exists>x. schedule (cfg\<lparr>max_loras := Some 2\<rparr>) svc False s = Inr x)"
proof -
  obtain s where s: "lora_run = Inr s" using lora_run_adapters by (elim satisfiesE)
  note facts = lora_run_adapters lora_run_fails lora_run_two_slots
  note facts = facts [unfolded s satisfies_Inr]
  have two: "\<exists>x. schedule (cfg\<lparr>max_loras := Some 2\<rparr>) svc False s = Inr x" by (rule satisfiesE [OF facts(3)]) (rule exI)
  have one: "max_loras cfg = Some 1" by (simp add: sample_sched_config_def)
  show ?thesis
    by (rule exI [of _ s], intro conjI) (rule s, rule lora_run_reachable [OF s], rule one, rule facts(1), rule fails_withD [OF facts(2)], rule two)
qed

section \<open>A session that stops while it is preempted\<close>

text \<open>A memory that grants tokens to requests up to a capacity, in place of the KV-cache manager.\<close>

definition token_memory :: "int \<Rightarrow> ((string \<times> int) list, unit) services" where
  "token_memory capacity =
     \<lparr>svc_alloc = (\<lambda>r n _ _ _ _ _ _ k. Inr (if sum_list (map snd k) + n \<le> capacity then (Some [], k @ [(req_id r, n)]) else (None, k))),
      svc_lookup = (\<lambda>r k. Inr (([], 0, 0), k)), svc_get_blocks = (\<lambda>rid k. []), svc_record_stats = (\<lambda>r p n k. Inr k),
      svc_free = (\<lambda>r k. Inr (dict_del (req_id r) k)), svc_cache = (\<lambda>r n k. Inr k), svc_reset_cache = (\<lambda>k. Inr (True, k)),
      svc_common_prefix = (\<lambda>rid k. ([], k)), svc_copies = (\<lambda>k. Inr ([], k)), svc_new_block_ids = (\<lambda>k. ([], k)),
      svc_advance = (\<lambda>_ k. k), svc_new_step = id, svc_process = (\<lambda>_ k. Inr k), svc_take_events = (\<lambda>k. ([], k)), svc_make_stats = (\<lambda>k. (None, k)),
      svc_set_order = sorted_list_of_set, svc_hash = Inr, svc_enc_try = (\<lambda>e nc n b sh m. Inl AssertionError),
      svc_enc_alloc = (\<lambda>e v m. Inr m), svc_enc_free = (\<lambda>e m. Inr m), svc_enc_free_inputs = (\<lambda>nc np e m. Inr m),
      svc_enc_freed = (\<lambda>m. ([], m)), svc_enc_reset = id\<rparr>"

text \<open>
  The session \<open>a\<close> has its first token in flight when \<open>b\<close> needs memory and preempts it.  The token is
  delivered all the same and ends the turn: \<open>a\<close> is queued to wait for its next input, and at the end
  of the same call it is removed from the queues as a request that stopped while preempted.
\<close>

definition session_sreq :: "string \<Rightarrow> int list \<Rightarrow> sreq" where
  "session_sreq rid ts = (sample_sreq rid ts None)\<lparr>resumable := True, sr_max_tokens := 1\<rparr>"

lemma session_sreq_fresh: "fresh_request (session_sreq rid ts)"
  using sample_sreq_fresh [of rid ts None] by (simp add: fresh_request_def session_sreq_def)

abbreviation mem :: "((string \<times> int) list, unit) services" where "mem \<equiv> token_memory 5"

definition lost_run :: "(sched_output \<times> ((string \<times> int) list, unit) sched) res" where
  "lost_run =
     bindE (add_request mem (sample_sreq ''b'' [1, 2] None) (sched_init cfg [] ())) (\<lambda>s1.
     bindE (schedule cfg mem False s1) (\<lambda>(o1, s2).
     bindE (add_request mem (session_sreq ''a'' [5, 6, 7]) s2) (\<lambda>s3.
     bindE (schedule cfg mem False s3) (\<lambda>(o2, s4).
     bindE (py_assert (sessions_running o1 s4)) (\<lambda>_.
     bindE (update_from_output cfg mem o1 (sample_output [(''b'', [8])]) s4) (\<lambda>(_, s5).
     bindE (schedule cfg mem False s5) (\<lambda>(o3, s6). Inr (o2, s6))))))))"

lemma lost_run_reachable:
  assumes "lost_run = Inr (out, s)"
  shows "sched_run cfg mem s"
proof -
  from assms obtain s1 o1 s2 s3 s4 u es s5 o3 where run: "add_request mem (sample_sreq ''b'' [1, 2] None) (sched_init cfg [] ()) = Inr s1"
    "schedule cfg mem False s1 = Inr (o1, s2)" "add_request mem (session_sreq ''a'' [5, 6, 7]) s2 = Inr s3"
    "schedule cfg mem False s3 = Inr (out, s4)" "py_assert (sessions_running o1 s4) = Inr u"
    "update_from_output cfg mem o1 (sample_output [(''b'', [8])]) s4 = Inr (es, s5)" "schedule cfg mem False s5 = Inr (o3, s)"
    unfolding lost_run_def by (elim bindE_pairE bindE_InrE) simp
  have "sched_run cfg mem s2" by (rule run_schedule [OF run_add [OF run_init sample_sreq_fresh run(1)] run(2)])
  then have "sched_run cfg mem s4" by (rule run_schedule [OF run_add [OF _ session_sreq_fresh run(3)] run(4)])
  then have "sched_run cfg mem s5" by (rule run_update [OF _ _ run(6)]) (use run(5) in \<open>simp add: py_assert_def split: if_splits\<close>)
  then show ?thesis by (rule run_schedule [OF _ run(7)])
qed

text \<open>
  A streaming session can be lost.  From a reachable state, the output of an earlier step ends the
  turn of a preempted session; afterwards the session is in the table, waiting for its next input,
  but neither in the running list nor in a waiting queue, so that it is never scheduled again.
\<close>

theorem preempted_session_lost:
  "\<exists>s out outs s'. sched_run cfg mem s \<and> update_from_output cfg mem out (sample_output [(''a'', [9])]) s = Inr (outs, s')
     \<and> ''a'' \<in> live {WAITING_FOR_STREAMING_REQ} s' \<and> ''a'' \<notin> set (running s') \<and> ''a'' \<notin> set (waiting_ids s')"
proof -
  have "satisfies (\<lambda>(out, s). satisfies (\<lambda>(outs, s'). map_option status (requests s' ''a'') = Some WAITING_FOR_STREAMING_REQ
      \<and> ''a'' \<notin> set (running s') \<and> ''a'' \<notin> set (waiting_ids s')) (update_from_output cfg mem out (sample_output [(''a'', [9])]) s)) lost_run"
    by code_simp
  then obtain out s outs s' where run: "lost_run = Inr (out, s)"
    "update_from_output cfg mem out (sample_output [(''a'', [9])]) s = Inr (outs, s')"
    "map_option status (requests s' ''a'') = Some WAITING_FOR_STREAMING_REQ" "''a'' \<notin> set (running s')" "''a'' \<notin> set (waiting_ids s')"
    by (elim satisfiesE) (auto elim!: satisfiesE)
  have "''a'' \<in> live {WAITING_FOR_STREAMING_REQ} s'" using run(3) by (auto simp: live_def)
  with run lost_run_reachable [OF run(1)] show ?thesis by blast
qed

section \<open>The block hashes of a session\<close>

text \<open>
  The session has the prompt \<open>[1]\<close> and samples 7, which completes the block \<open>[1, 7]\<close>.  The next input
  discards the 7, whose KV entry was never computed, and appends 9.
\<close>

definition stale_run :: "(sched_blocks, enc_cache) sched res" where
  "stale_run =
     bindE sample_sched (\<lambda>s0. bindE (add_request svc (session_sreq ''a'' [1]) s0) (\<lambda>s1.
     bindE (schedule cfg svc False s1) (\<lambda>(o1, s2).
     bindE (guarded_update o1 [(''a'', [7])] s2) (add_request svc (session_sreq ''a'' [9])))))"

lemma stale_run_reachable:
  assumes "stale_run = Inr s"
  shows "sched_run cfg svc s"
proof -
  from assms obtain s0 s1 o1 s2 s3 where run: "sample_sched = Inr s0" "add_request svc (session_sreq ''a'' [1]) s0 = Inr s1"
    "schedule cfg svc False s1 = Inr (o1, s2)" "guarded_update o1 [(''a'', [7])] s2 = Inr s3" "add_request svc (session_sreq ''a'' [9]) s3 = Inr s"
    unfolding stale_run_def by (elim bindE_pairE bindE_InrE)
  have "sched_run cfg svc s2" by (rule run_schedule [OF run_add [OF sample_sched_reachable [OF run(1)] session_sreq_fresh run(2)] run(3)])
  then show ?thesis by (rule run_add [OF guarded_update_reachable [OF _ run(4)] session_sreq_fresh run(5)])
qed

text \<open>
  A session keeps the hash of a token that it discarded.  A state is reachable in which a session
  with the tokens \<open>[1, 9]\<close> carries the block hash of a request with the tokens \<open>[1, 7]\<close>, under which
  the block that it computes next would be cached.
\<close>

theorem session_keeps_stale_hash:
  "\<exists>s r h. sched_run cfg svc s \<and> requests s ''a'' = Some r \<and> all_token_ids r = [1, 9]
     \<and> update_block_hashes sample_hash [] 2 (sample_request ''x'' [1, 7] []) = Some (Inr h) \<and> block_hashes r = block_hashes h
     \<and> block_hashes r \<noteq> []"
proof -
  have "satisfies (\<lambda>s. case requests s ''a'' of None \<Rightarrow> False | Some r \<Rightarrow> all_token_ids r = [1, 9] \<and> block_hashes r = [[1, 7]]) stale_run"
    by code_simp
  then obtain s r where s: "stale_run = Inr s" "requests s ''a'' = Some r" "all_token_ids r = [1, 9]" "block_hashes r = [[1, 7]]"
    by (elim satisfiesE) (auto split: option.splits)
  have "case update_block_hashes sample_hash [] 2 (sample_request ''x'' [1, 7] []) of Some (Inr h) \<Rightarrow> block_hashes h = [[1, 7]] | _ \<Rightarrow> False"
    by code_simp
  then obtain h where "update_block_hashes sample_hash [] 2 (sample_request ''x'' [1, 7] []) = Some (Inr h)" "block_hashes h = [[1, 7]]"
    by (auto split: option.splits sum.splits)
  with s stale_run_reachable [OF s(1)] show ?thesis by auto
qed

end
