(* ===== verification/KV_Spec.thy ===== *)
theory KV_Spec
  imports Coordinator
begin

text \<open>
  \<^verbatim>\<open>vllm/v1/kv_cache_interface.py\<close> and \<^verbatim>\<open>vllm/v1/kv_cache_layout.py\<close>: the KV-cache specs of
  the layers of a model with their page and memory sizes, the rules that merge specs of one
  group, and the byte strides of a physical layout.  A spec class is a constructor of
  \<open>attn_kind\<close> over the fields of \<open>AttentionSpec\<close>, or \<open>MambaSpec\<close>; \<open>isinstance\<close> is a case analysis.
  A data type of the tensor library is known by its name and the bytes of an element.  Classes a
  platform registers on top of the built-in ones are not modelled.
\<close>

section \<open>Python helpers\<close>

type_synonym 'v odict = "(string \<times> 'v) list"

definition dict_get :: "('k \<times> 'v) list \<Rightarrow> 'k \<Rightarrow> 'v res" where
  "dict_get d k = (case map_of d k of None \<Rightarrow> Inl KeyError | Some v \<Rightarrow> Inr v)"

text \<open>\<open>max\<close> and \<open>min\<close> of a sequence.\<close>

definition py_max :: "int list \<Rightarrow> int res" where
  "py_max xs = (case xs of [] \<Rightarrow> Inl ValueError | y # ys \<Rightarrow> Inr (fold max ys y))"

definition py_min :: "int list \<Rightarrow> int res" where
  "py_min xs = (case xs of [] \<Rightarrow> Inl ValueError | y # ys \<Rightarrow> Inr (fold min ys y))"

text \<open>\<open>all(f(x) for x in xs)\<close> where evaluating \<open>f\<close> may raise.\<close>

fun allE :: "('a \<Rightarrow> bool res) \<Rightarrow> 'a list \<Rightarrow> bool res" where
  "allE f [] = Inr True"
| "allE f (x # xs) = bindE (f x) (\<lambda>b. if b then allE f xs else Inr False)"

text \<open>A value computed with a division by \<open>b\<close>.\<close>

definition divE :: "int \<Rightarrow> 'a \<Rightarrow> 'a res" where
  "divE b x = (if b = 0 then Inl ZeroDivisionError else Inr x)"

text \<open>\<open>defaultdict(list)\<close>: append a value to the list of a key; new keys go to the end.\<close>

fun dict_append :: "'k \<Rightarrow> 'v list \<Rightarrow> ('k \<times> 'v list) list \<Rightarrow> ('k \<times> 'v list) list" where
  "dict_append k vs [] = [(k, vs)]"
| "dict_append k vs ((k', ws) # d) = (if k' = k then (k', ws @ vs) # d else (k', ws) # dict_append k vs d)"

section \<open>Configuration\<close>

text \<open>The layouts; the stride order lists the logical axes L, B, H, N, C from the outermost in.\<close>

datatype kv_cache_layout = LBHNC | LBNHC | LHBNC | BLHNC | BLNHC | BHLNC

definition stride_order :: "kv_cache_layout \<Rightarrow> nat list" where
  "stride_order l = (case l of
     LBHNC \<Rightarrow> [0, 1, 2, 3, 4] | LBNHC \<Rightarrow> [0, 1, 3, 2, 4] | LHBNC \<Rightarrow> [0, 2, 1, 3, 4]
   | BLHNC \<Rightarrow> [1, 0, 2, 3, 4] | BLNHC \<Rightarrow> [1, 0, 3, 2, 4] | BHLNC \<Rightarrow> [1, 2, 0, 3, 4])"

definition is_layer_compact :: "kv_cache_layout \<Rightarrow> bool" where
  "is_layer_compact l \<longleftrightarrow> stride_order l ! 0 = 0"

definition is_block_compact :: "kv_cache_layout \<Rightarrow> bool" where
  "is_block_compact l \<longleftrightarrow> set (take 2 (stride_order l)) = {0, 1}"

definition is_block_outermost :: "kv_cache_layout \<Rightarrow> bool" where
  "is_block_outermost l \<longleftrightarrow> stride_order l ! 0 = 1"

record spec_decode =
  use_eagle_method :: bool
  use_multi_module_mtp :: bool
  num_speculative_tokens :: int

text \<open>The fields of the configuration objects that sizing the cache reads.\<close>

record vllm_config =
  max_model_len :: int
  original_max_model_len :: int
  is_deepseek_v4 :: bool
  decode_context_parallel_size :: int
  max_in_flight_tokens :: int
  max_num_encoder_input_tokens :: int
  disable_hybrid_kv_cache_manager :: bool
  cache_block_size :: int
  cache_mamba_mode :: string
  num_gpu_blocks_override :: "int option"
  enable_prefix_caching :: bool
  prefix_match_unit :: "int option"
  retention_interval :: "int option"
  kv_cache_layout :: "kv_cache_layout option"
  has_kv_transfer :: bool
  speculative_config :: "spec_decode option"

section \<open>Specs\<close>

datatype kv_quant_mode = NONE | FP8_PER_TENSOR | INT8_PER_TOKEN_HEAD | FP8_PER_TOKEN_HEAD | INT4_PER_TOKEN_HEAD
  | NVFP4 | TURBOQUANT_K8V4 | TURBOQUANT_4BIT_NC | TURBOQUANT_K3V4_NC | TURBOQUANT_3BIT_NC

datatype torch_dtype = TorchDtype string int

fun get_dtype_size :: "torch_dtype \<Rightarrow> int" where
  "get_dtype_size (TorchDtype name element_size) = element_size"

text \<open>
  \<open>tokens_per_state\<close> is an \<open>int\<close> or a \<open>Fraction\<close>; a fraction is given by its numerator and its
  denominator and is not integral.
\<close>

datatype tps = IntTps int | FracTps int int

record attn =
  block_size :: int
  num_kv_heads :: int
  head_size :: int
  dtype :: torch_dtype
  head_size_v :: int
  kv_quant_mode :: kv_quant_mode
  page_size_padded :: "int option"
  num_head_slots :: "int option"
  state_content_bytes :: "int option"
  tokens_per_state :: tps

record full_fields =
  sliding_window :: "int option"
  attention_chunk_size :: "int option"
  non_causal :: bool

record mla_fields =
  cache_dtype_str :: "string option"
  alignment :: "int option"
  model_version :: "string option"

record mamba =
  mamba_block_size :: int
  shapes :: "int list list"
  dtypes :: "torch_dtype list"
  mamba_page_size_padded :: "int option"
  mamba_type :: string
  mamba_cache_mode :: string
  num_speculative_blocks :: int
  num_prefill_checkpoint_blocks :: int
  mamba_num_heads :: int
  mamba_tokens_per_state :: int
  tp_replicated :: bool

text \<open>The last argument of the MLA classes is \<open>non_causal_multi_token_decode\<close>.\<close>

datatype attn_kind =
    FullAttentionSpec full_fields
  | MLAAttentionSpec full_fields mla_fields bool
  | HiddenStateCacheSpec full_fields mla_fields bool
  | RSWASpec full_fields int
  | SinkFullAttentionSpec full_fields "int option"
  | ChunkedLocalAttentionSpec int
  | SlidingWindowSpec int int
  | SlidingWindowMLASpec int int mla_fields
  | CircularBufferSpec
  | EncoderOnlyAttentionSpec
  | CrossAttentionSpec

datatype layer_spec = Attn attn attn_kind | MambaSpec mamba

section \<open>Classes\<close>

fun attn_of :: "layer_spec \<Rightarrow> attn option" where
  "attn_of (Attn a k) = Some a"
| "attn_of (MambaSpec m) = None"

text \<open>The fields of \<open>FullAttentionSpec\<close>, for it and its subclasses.\<close>

fun full_of :: "layer_spec \<Rightarrow> (attn \<times> full_fields) option" where
  "full_of (Attn a (FullAttentionSpec f)) = Some (a, f)"
| "full_of (Attn a (MLAAttentionSpec f m b)) = Some (a, f)"
| "full_of (Attn a (HiddenStateCacheSpec f m b)) = Some (a, f)"
| "full_of (Attn a (RSWASpec f w)) = Some (a, f)"
| "full_of (Attn a (SinkFullAttentionSpec f n)) = Some (a, f)"
| "full_of _ = None"

fun mla_of :: "layer_spec \<Rightarrow> (attn \<times> mla_fields \<times> bool) option" where
  "mla_of (Attn a (MLAAttentionSpec f m b)) = Some (a, m, b)"
| "mla_of (Attn a (HiddenStateCacheSpec f m b)) = Some (a, m, b)"
| "mla_of _ = None"

text \<open>Window and retained tokens of \<open>SlidingWindowSpec\<close> and its subclass.\<close>

fun swa_of :: "layer_spec \<Rightarrow> (int \<times> int) option" where
  "swa_of (Attn a (SlidingWindowSpec w e)) = Some (w, e)"
| "swa_of (Attn a (SlidingWindowMLASpec w e m)) = Some (w, e)"
| "swa_of _ = None"

fun swmla_of :: "layer_spec \<Rightarrow> (attn \<times> int \<times> int \<times> mla_fields) option" where
  "swmla_of (Attn a (SlidingWindowMLASpec w e m)) = Some (a, w, e, m)"
| "swmla_of _ = None"

fun rswa_of :: "layer_spec \<Rightarrow> int option" where
  "rswa_of (Attn a (RSWASpec f w)) = Some w"
| "rswa_of _ = None"

fun chunked_of :: "layer_spec \<Rightarrow> int option" where
  "chunked_of (Attn a (ChunkedLocalAttentionSpec n)) = Some n"
| "chunked_of _ = None"

fun is_circular :: "layer_spec \<Rightarrow> bool" where
  "is_circular (Attn a k) = (k = CircularBufferSpec)"
| "is_circular (MambaSpec m) = False"

fun is_cross :: "layer_spec \<Rightarrow> bool" where
  "is_cross (Attn a k) = (k = CrossAttentionSpec)"
| "is_cross (MambaSpec m) = False"

fun is_hidden_state :: "layer_spec \<Rightarrow> bool" where
  "is_hidden_state (Attn a (HiddenStateCacheSpec f m b)) = True"
| "is_hidden_state _ = False"

fun is_mamba :: "layer_spec \<Rightarrow> bool" where
  "is_mamba (MambaSpec m) = True"
| "is_mamba (Attn a k) = False"

fun layer_block_size :: "layer_spec \<Rightarrow> int" where
  "layer_block_size (Attn a k) = block_size a"
| "layer_block_size (MambaSpec m) = mamba_block_size m"

definition layer_prefix_cacheable :: "layer_spec \<Rightarrow> bool" where
  "layer_prefix_cacheable s \<longleftrightarrow> \<not> is_circular s"

section \<open>Sizes\<close>

text \<open>The shared \<open>num_states\<close>/\<open>get_num_kernel_states\<close> of \<open>KVCacheSpec\<close>.\<close>

fun num_states_for :: "tps \<Rightarrow> int \<Rightarrow> int" where
  "num_states_for (IntTps t) bs = (if 0 < t then bs div t else 1)"
| "num_states_for (FracTps n d) bs = (if 0 < n then (bs * d) div n else 1)"

definition num_heads :: "attn \<Rightarrow> int" where
  "num_heads a = (case num_head_slots a of Some n \<Rightarrow> n | None \<Rightarrow> num_kv_heads a)"

definition state_content_size_bytes :: "attn \<Rightarrow> int" where
  "state_content_size_bytes a = (case state_content_bytes a of
     Some n \<Rightarrow> n | None \<Rightarrow> (head_size a + head_size_v a) * get_dtype_size (dtype a))"

definition unpadded_page_size_bytes :: "attn \<Rightarrow> int" where
  "unpadded_page_size_bytes a = num_heads a * num_states_for (tokens_per_state a) (block_size a) * state_content_size_bytes a"

definition mamba_state_content_size_bytes :: "mamba \<Rightarrow> int" where
  "mamba_state_content_size_bytes m = (\<Sum>(shape, d)\<leftarrow>zip (shapes m) (dtypes m). prod_list shape * get_dtype_size d)"

text \<open>A page that is padded to a size below its content raises.\<close>

definition padded_size :: "int option \<Rightarrow> int \<Rightarrow> int res" where
  "padded_size padded n = (case padded of
     None \<Rightarrow> Inr n | Some p \<Rightarrow> bindE (py_assert (n \<le> p)) (\<lambda>_. Inr p))"

fun page_size_bytes :: "layer_spec \<Rightarrow> int res" where
  "page_size_bytes (Attn a k) = padded_size (page_size_padded a) (unpadded_page_size_bytes a)"
| "page_size_bytes (MambaSpec m) = padded_size (mamba_page_size_padded m) (mamba_state_content_size_bytes m)"

text \<open>\<open>max_memory_usage_bytes\<close>: the pages of a longest request, times the page size.\<close>

definition full_max_pages :: "vllm_config \<Rightarrow> attn \<Rightarrow> int" where
  "full_max_pages c a =
     cdiv (if 1 < decode_context_parallel_size c then cdiv (max_model_len c) (decode_context_parallel_size c)
           else max_model_len c) (block_size a)"

fun max_memory_usage_bytes :: "vllm_config \<Rightarrow> layer_spec \<Rightarrow> int res" where
  "max_memory_usage_bytes c (Attn a k) = (case k of
     ChunkedLocalAttentionSpec n \<Rightarrow>
       bindE (divE (block_size a) (chunked_max_admission_blocks_per_request n (block_size a) (max_in_flight_tokens c) (max_model_len c)))
         (\<lambda>blocks. bindE (page_size_bytes (Attn a k)) (\<lambda>page. Inr (blocks * page)))
   | SlidingWindowSpec w e \<Rightarrow> bindE (py_assert (decode_context_parallel_size c = 1)) (\<lambda>_.
       bindE (divE (block_size a) (swa_max_admission_blocks_per_request w e (block_size a) (max_in_flight_tokens c) (max_model_len c)))
         (\<lambda>blocks. bindE (page_size_bytes (Attn a k)) (\<lambda>page. Inr (blocks * page))))
   | SlidingWindowMLASpec w e m \<Rightarrow> bindE (py_assert (decode_context_parallel_size c = 1)) (\<lambda>_.
       bindE (divE (block_size a) (swa_max_admission_blocks_per_request w e (block_size a) (max_in_flight_tokens c) (max_model_len c)))
         (\<lambda>blocks. bindE (page_size_bytes (Attn a k)) (\<lambda>page. Inr (blocks * page))))
   | CircularBufferSpec \<Rightarrow> page_size_bytes (Attn a k)
   | EncoderOnlyAttentionSpec \<Rightarrow> Inr 0
   | CrossAttentionSpec \<Rightarrow>
       bindE (divE (block_size a) (cdiv (max_num_encoder_input_tokens c) (block_size a)))
         (\<lambda>blocks. bindE (page_size_bytes (Attn a k)) (\<lambda>page. Inr (blocks * page)))
   | _ \<Rightarrow>
       bindE (divE (block_size a) (full_max_pages c a))
         (\<lambda>blocks. bindE (page_size_bytes (Attn a k)) (\<lambda>page. Inr (blocks * page))))"
| "max_memory_usage_bytes c (MambaSpec m) =
     (if cache_mamba_mode c = ''all''
      then bindE (divE (mamba_block_size m) (cdiv (max_model_len c) (mamba_block_size m) + num_speculative_blocks m))
        (\<lambda>blocks. bindE (page_size_bytes (MambaSpec m)) (\<lambda>page. Inr (blocks * page)))
      else if cache_mamba_mode c = ''align''
      then bindE (page_size_bytes (MambaSpec m)) (\<lambda>page. Inr (page * (2 + num_speculative_blocks m + num_prefill_checkpoint_blocks m)))
      else bindE (page_size_bytes (MambaSpec m)) (\<lambda>page. Inr (page * (1 + num_speculative_blocks m))))"

section \<open>Construction\<close>

text \<open>\<open>_apply_alignment_padding\<close> and the \<open>__post_init__\<close> methods.\<close>

definition apply_alignment_padding :: "mla_fields \<Rightarrow> attn \<Rightarrow> attn res" where
  "apply_alignment_padding m a = (case alignment m of
     None \<Rightarrow> Inr a
   | Some al \<Rightarrow> bindE (divE al (round_up (unpadded_page_size_bytes a) al)) (\<lambda>padded.
       Inr (if padded \<noteq> unpadded_page_size_bytes a then a\<lparr>page_size_padded := Some padded\<rparr> else a)))"

definition post_init :: "attn \<Rightarrow> attn_kind \<Rightarrow> layer_spec res" where
  "post_init a k = (case k of
     MLAAttentionSpec f m b \<Rightarrow> bindE (apply_alignment_padding m a) (\<lambda>a'. Inr (Attn a' k))
   | HiddenStateCacheSpec f m b \<Rightarrow> bindE (apply_alignment_padding m a) (\<lambda>a'. Inr (Attn a' k))
   | SlidingWindowMLASpec w e m \<Rightarrow>
       bindE (py_assert (model_version m = None \<or> model_version m = Some ''deepseek_v4'')) (\<lambda>_.
       bindE (apply_alignment_padding m a) (\<lambda>a'. Inr (Attn a' k)))
   | _ \<Rightarrow> Inr (Attn a k))"

text \<open>\<open>dataclasses.replace\<close> runs the constructor again.\<close>

definition replace_block_size :: "int \<Rightarrow> layer_spec \<Rightarrow> layer_spec res" where
  "replace_block_size bs s = (case s of
     Attn a k \<Rightarrow> post_init (a\<lparr>block_size := bs\<rparr>) k
   | MambaSpec m \<Rightarrow> Inr (MambaSpec (m\<lparr>mamba_block_size := bs\<rparr>)))"

definition replace_page_size_padded :: "int \<Rightarrow> layer_spec \<Rightarrow> layer_spec res" where
  "replace_page_size_padded p s = (case s of
     Attn a k \<Rightarrow> post_init (a\<lparr>page_size_padded := Some p\<rparr>) k
   | MambaSpec m \<Rightarrow> Inr (MambaSpec (m\<lparr>mamba_page_size_padded := Some p\<rparr>)))"

section \<open>Merging\<close>

text \<open>The windows that occur in a group: none, one, or a \<open>ValueError\<close>.\<close>

definition merge_window_sizes :: "int option list \<Rightarrow> int option res" where
  "merge_window_sizes ws = (case remdups (List.map_filter id ws) of
     [] \<Rightarrow> Inr None | [w] \<Rightarrow> Inr (Some w) | _ \<Rightarrow> Inl ValueError)"

text \<open>
  \<open>FullAttentionSpec.merge\<close>, for its own class and, with the default for the field it forgets,
  for \<open>SinkFullAttentionSpec.merge\<close>.
\<close>

definition full_merge :: "(attn \<Rightarrow> attn) \<Rightarrow> layer_spec list \<Rightarrow> (attn \<times> full_fields) res" where
  "full_merge defaults specs = (case those (map full_of specs) of
     None \<Rightarrow> Inl AssertionError
   | Some [] \<Rightarrow> Inl IndexError
   | Some ((a, f) # fs) \<Rightarrow>
       bindE (py_assert (list_all (\<lambda>s. mla_of s = None) specs)) (\<lambda>_.
       bindE (merge_window_sizes (map (sliding_window \<circ> snd) ((a, f) # fs))) (\<lambda>sw.
       bindE (merge_window_sizes (map (attention_chunk_size \<circ> snd) ((a, f) # fs))) (\<lambda>cs.
       bindE (py_assert (list_all (\<lambda>p. fst p = defaults a) ((a, f) # fs))) (\<lambda>_.
       bindE (py_assert (sw = None \<or> cs = None)) (\<lambda>_.
       Inr (defaults a, \<lparr>sliding_window = sw, attention_chunk_size = cs,
                         non_causal = list_ex (non_causal \<circ> snd) ((a, f) # fs)\<rparr>)))))))"

text \<open>The fields of an MLA spec that all layers of a group share.\<close>

definition same_mla :: "(attn \<times> mla_fields \<times> bool) \<Rightarrow> (attn \<times> mla_fields \<times> bool) \<Rightarrow> bool" where
  "same_mla x y = (case (x, y) of ((a, m, b), (a', m', b')) \<Rightarrow>
     cache_dtype_str m = cache_dtype_str m' \<and> tokens_per_state a = tokens_per_state a' \<and>
     model_version m = model_version m' \<and> b = b')"

definition mla_merge :: "layer_spec list \<Rightarrow> (attn \<times> full_fields \<times> mla_fields \<times> bool) res" where
  "mla_merge specs = (case those (map mla_of specs) of
     None \<Rightarrow> Inl AssertionError
   | Some [] \<Rightarrow> Inl AssertionError
   | Some ((a, m, b) # ms) \<Rightarrow>
       bindE (py_assert (list_all (same_mla (a, m, b)) ms)) (\<lambda>_.
       bindE (py_assert (list_all (\<lambda>p. fst p = a\<lparr>head_size_v := 0\<rparr>) ((a, m, b) # ms))) (\<lambda>_.
       Inr (a\<lparr>head_size_v := 0\<rparr>, \<lparr>sliding_window = None, attention_chunk_size = None, non_causal = False\<rparr>,
            m\<lparr>alignment := None\<rparr>, b))))"

definition same_swmla :: "(attn \<times> int \<times> int \<times> mla_fields) \<Rightarrow> (attn \<times> int \<times> int \<times> mla_fields) \<Rightarrow> bool" where
  "same_swmla x y = (case (x, y) of ((a, w, e, m), (a', w', e', m')) \<Rightarrow>
     cache_dtype_str m = cache_dtype_str m' \<and> tokens_per_state a = tokens_per_state a' \<and>
     model_version m = model_version m' \<and> w = w' \<and> e = e')"

definition swmla_merge :: "layer_spec list \<Rightarrow> layer_spec res" where
  "swmla_merge specs = (case those (map swmla_of specs) of
     None \<Rightarrow> Inl AssertionError
   | Some [] \<Rightarrow> Inl AssertionError
   | Some ((a, w, e, m) # ms) \<Rightarrow>
       bindE (py_assert (list_all (same_swmla (a, w, e, m)) ms)) (\<lambda>_.
       post_init (a\<lparr>head_size_v := 0, kv_quant_mode := NONE\<rparr>) (SlidingWindowMLASpec w e (m\<lparr>alignment := None\<rparr>))))"

definition rswa_merge :: "layer_spec list \<Rightarrow> layer_spec res" where
  "rswa_merge specs = (case those (map rswa_of specs) of
     None \<Rightarrow> Inl AssertionError
   | Some [] \<Rightarrow> Inl AssertionError
   | Some (w # ws) \<Rightarrow>
       bindE (py_assert (list_all (\<lambda>v. v = w) ws)) (\<lambda>_.
       bindE (full_merge id specs) (\<lambda>(a, f). Inr (Attn a (RSWASpec f w)))))"

text \<open>\<open>specs[0].merge(specs)\<close>: the class of the first spec decides.\<close>

definition merge :: "layer_spec list \<Rightarrow> layer_spec res" where
  "merge specs = (case specs of
     [] \<Rightarrow> Inl IndexError
   | Attn a (FullAttentionSpec f) # _ \<Rightarrow>
       bindE (full_merge id specs) (\<lambda>(a, f). Inr (Attn a (FullAttentionSpec f)))
   | Attn a (SinkFullAttentionSpec f sink_len) # _ \<Rightarrow>
       bindE (full_merge (tokens_per_state_update (\<lambda>_. IntTps 1)) specs)
         (\<lambda>(a, f). Inr (Attn a (SinkFullAttentionSpec f sink_len)))
   | Attn a (RSWASpec f w) # _ \<Rightarrow> rswa_merge specs
   | Attn a (MLAAttentionSpec f m b) # _ \<Rightarrow>
       bindE (mla_merge specs) (\<lambda>(a, f, m, b). Inr (Attn a (MLAAttentionSpec f m b)))
   | Attn a (HiddenStateCacheSpec f m b) # _ \<Rightarrow>
       bindE (mla_merge specs) (\<lambda>(a, f, m, b). Inr (Attn a (HiddenStateCacheSpec f m b)))
   | Attn a (SlidingWindowMLASpec w e m) # _ \<Rightarrow> swmla_merge specs
   | s # ss \<Rightarrow> bindE (py_assert (list_all (\<lambda>s'. s' = s) ss)) (\<lambda>_. Inr s))"

section \<open>Specs of one type\<close>

text \<open>
  \<open>KVCacheSpecRegistry.get_uniform_type_base_spec\<close> with the built-in registrations: the instances
  of the base class a spec is grouped under; \<open>EncoderOnlyAttentionSpec\<close> is not registered.
\<close>

definition uniform_type_base :: "layer_spec \<Rightarrow> (layer_spec \<Rightarrow> bool) option" where
  "uniform_type_base s =
     (if full_of s \<noteq> None then Some (\<lambda>t. full_of t \<noteq> None)
      else if swmla_of s \<noteq> None then Some (\<lambda>t. swmla_of t \<noteq> None)
      else if swa_of s \<noteq> None then Some (\<lambda>t. swa_of t \<noteq> None)
      else if is_circular s then Some is_circular
      else if chunked_of s \<noteq> None then Some (\<lambda>t. chunked_of t \<noteq> None)
      else if is_cross s then Some is_cross
      else if is_mamba s then Some is_mamba
      else None)"

definition mamba_uniform :: "mamba \<Rightarrow> layer_spec \<Rightarrow> bool res" where
  "mamba_uniform m s = (case s of
     Attn a k \<Rightarrow> Inr False
   | MambaSpec m' \<Rightarrow>
       if num_speculative_blocks m' = num_speculative_blocks m
          \<and> num_prefill_checkpoint_blocks m' = num_prefill_checkpoint_blocks m
       then bindE (page_size_bytes (MambaSpec m')) (\<lambda>p'. bindE (page_size_bytes (MambaSpec m)) (\<lambda>p.
         Inr (p' = p \<and> tp_replicated m' = tp_replicated m)))
       else Inr False)"

definition is_uniform_with_collection :: "layer_spec \<Rightarrow> layer_spec list \<Rightarrow> bool res" where
  "is_uniform_with_collection s specs = (case s of
     MambaSpec m \<Rightarrow> allE (mamba_uniform m) specs
   | Attn a (ChunkedLocalAttentionSpec n) \<Rightarrow> Inr (list_all (\<lambda>t. chunked_of t = Some n) specs)
   | Attn a (SlidingWindowSpec w e) \<Rightarrow> Inr (list_all (\<lambda>t. map_option fst (swa_of t) = Some w) specs)
   | Attn a (SlidingWindowMLASpec w e m) \<Rightarrow>
       Inr (list_all (\<lambda>t. map_option (\<lambda>(_, w, _, _). w) (swmla_of t) = Some w) specs)
   | Attn a CircularBufferSpec \<Rightarrow> Inr (list_all is_circular specs)
   | _ \<Rightarrow> (case uniform_type_base s of
       None \<Rightarrow> Inl AssertionError
     | Some isinst \<Rightarrow> Inr (list_all isinst specs)))"

definition is_uniform_type :: "layer_spec odict \<Rightarrow> bool res" where
  "is_uniform_type d =
     (if 1 < length (remdups (map (layer_block_size \<circ> snd) d)) then Inr False
      else case d of
        [] \<Rightarrow> Inl StopIteration
      | (_, first_spec) # _ \<Rightarrow> is_uniform_with_collection first_spec (map snd d))"

text \<open>The spec of a group: that of its layers, or one spec per layer.\<close>

datatype group_spec = LayerSpec layer_spec | UniformTypeKVCacheSpecs int "layer_spec odict"

definition from_specs :: "layer_spec odict \<Rightarrow> group_spec option res" where
  "from_specs d = bindE (is_uniform_type d) (\<lambda>b.
     if b then case d of
         [] \<Rightarrow> Inl StopIteration
       | (_, s) # _ \<Rightarrow> Inr (Some (UniformTypeKVCacheSpecs (layer_block_size s) d))
     else Inr None)"

fun iter_layer_specs :: "group_spec \<Rightarrow> layer_spec list" where
  "iter_layer_specs (LayerSpec s) = [s]"
| "iter_layer_specs (UniformTypeKVCacheSpecs bs d) = map snd d"

fun group_block_size :: "group_spec \<Rightarrow> int" where
  "group_block_size (LayerSpec s) = layer_block_size s"
| "group_block_size (UniformTypeKVCacheSpecs bs d) = bs"

fun group_prefix_cacheable :: "group_spec \<Rightarrow> bool" where
  "group_prefix_cacheable (LayerSpec s) = layer_prefix_cacheable s"
| "group_prefix_cacheable (UniformTypeKVCacheSpecs bs d) = list_all (layer_prefix_cacheable \<circ> snd) d"

text \<open>The pages of a longest request in one layer, \<open>cdiv(max_memory_usage_bytes, page_size_bytes)\<close>.\<close>

definition layer_pages :: "vllm_config \<Rightarrow> layer_spec \<Rightarrow> int res" where
  "layer_pages c s = bindE (max_memory_usage_bytes c s) (\<lambda>mem. bindE (page_size_bytes s) (\<lambda>page.
     divE page (cdiv mem page)))"

text \<open>The largest number of layers that share a page size, \<open>Counter.most_common(1)[0][1]\<close>.\<close>

definition get_max_layers_per_page_size :: "layer_spec odict \<Rightarrow> int res" where
  "get_max_layers_per_page_size d = bindE (mapE (page_size_bytes \<circ> snd) d) (\<lambda>pages.
     if pages = [] then Inl IndexError else py_max (map (\<lambda>p. int (count_list pages p)) (remdups pages)))"

section \<open>Strides\<close>

text \<open>\<open>compute_layer_kv_cache_shape_bytes\<close> for whole manager blocks: the extents of B, H, N and C.\<close>

fun layer_shape :: "layer_spec \<Rightarrow> int \<Rightarrow> int list" where
  "layer_shape (Attn a k) nb =
     [nb, num_heads a, num_states_for (tokens_per_state a) (block_size a), state_content_size_bytes a]"
| "layer_shape (MambaSpec m) nb =
     [nb, mamba_num_heads m, num_states_for (IntTps (mamba_tokens_per_state m)) (mamba_block_size m),
      mamba_state_content_size_bytes m]"

fun layer_page_size_padded :: "layer_spec \<Rightarrow> int option" where
  "layer_page_size_padded (Attn a k) = page_size_padded a"
| "layer_page_size_padded (MambaSpec m) = mamba_page_size_padded m"

text \<open>The position after both L and B in the stride order.\<close>

definition page_grid_end :: "nat list \<Rightarrow> nat" where
  "page_grid_end order = Suc (max (length (takeWhile (\<lambda>d. d \<noteq> 0) order)) (length (takeWhile (\<lambda>d. d \<noteq> 1) order)))"

definition stride_step :: "int option \<Rightarrow> nat \<Rightarrow> int list \<Rightarrow> int option list \<Rightarrow> nat \<times> nat \<Rightarrow> int list \<times> int \<Rightarrow> (int list \<times> int) res" where
  "stride_step padded grid_end shape fixed i st = (case (i, st) of ((phys, axis), (strides, stride)) \<Rightarrow>
     bindE (case padded of
       Some p \<Rightarrow> if phys = grid_end - 1 then bindE (divE p (max stride p mod p)) (\<lambda>r. bindE (py_assert (r = 0)) (\<lambda>_. Inr (max stride p))) else Inr stride
     | None \<Rightarrow> Inr stride) (\<lambda>stride'.
     let s = (case fixed ! axis of Some f \<Rightarrow> if f = 0 then stride' else f | None \<Rightarrow> stride')
     in Inr (strides[axis := s], s * shape ! axis)))"

definition compute_layout_strides :: "layer_spec \<Rightarrow> int \<Rightarrow> int \<Rightarrow> kv_cache_layout \<Rightarrow> int option list \<Rightarrow> int list res" where
  "compute_layout_strides s nb num_layers layout fixed =
     bindE (py_assert (length fixed = 5)) (\<lambda>_.
     bindE (py_assert (list_all (\<lambda>f. case f of None \<Rightarrow> True | Some x \<Rightarrow> 0 < x) fixed)) (\<lambda>_.
     bindE (divE (layer_block_size s) (num_layers # layer_shape s nb)) (\<lambda>shape.
     let order = stride_order layout; grid_end = page_grid_end order
     in bindE (case layer_page_size_padded s of
            None \<Rightarrow> Inr ()
          | Some _ \<Rightarrow> py_assert (prod_list (map (\<lambda>d. shape ! d) (take grid_end order)) = num_layers * nb)) (\<lambda>_.
        bindE (foldE (stride_step (layer_page_size_padded s) grid_end shape fixed) (rev (enumerate 0 order)) (replicate 5 0, 1))
          (\<lambda>(strides, _). Inr strides)))))"

end
