(* ===== verification/KV_Config.thy ===== *)
theory KV_Config
  imports KV_Spec
begin

text \<open>
  The second half of \<^verbatim>\<open>vllm/v1/core/kv_cache_utils.py\<close>: how the engine sizes the KV cache at
  start-up.  The layers of all workers are put into groups that share a block table, page sizes
  are unified, the memory of each worker is turned into a number of blocks, and every layer gets
  its place in the allocation.  A dict is an association list in insertion order.  Log messages
  are left out; \<open>get_kv_cache_capacity\<close>, which only reports a floating-point figure, is too.
\<close>

section \<open>Groups and configurations\<close>

record cache_group =
  layer_names :: "string list"
  kv_cache_spec :: group_spec
  is_eagle_group :: bool
  enable_kv_transfer :: bool

record cache_tensor =
  tensor_size :: int
  tensor_layers :: "string list"
  layer_stride :: int
  block_stride :: int
  tensor_offset :: int

record cache_config =
  num_blocks :: int
  kv_cache_tensors :: "cache_tensor list"
  kv_cache_groups :: "cache_group list"
  prefix_cache_retention_interval :: "int option"

definition mk_group :: "string list \<Rightarrow> group_spec \<Rightarrow> cache_group" where
  "mk_group names s = \<lparr>layer_names = names, kv_cache_spec = s, is_eagle_group = False, enable_kv_transfer = True\<rparr>"

section \<open>Block sizes\<close>

definition resolve_dcp_kv_block_size :: "group_spec \<Rightarrow> int \<Rightarrow> int" where
  "resolve_dcp_kv_block_size s dcp =
     (if iter_layer_specs s \<noteq> [] \<and> list_all (\<lambda>t. attn_of t \<noteq> None) (iter_layer_specs s)
      then group_block_size s * dcp else group_block_size s)"

fun layer_tokens_per_state :: "layer_spec \<Rightarrow> tps" where
  "layer_tokens_per_state (Attn a k) = tokens_per_state a"
| "layer_tokens_per_state (MambaSpec m) = IntTps (mamba_tokens_per_state m)"

fun mamba_mode_of :: "layer_spec \<Rightarrow> string option" where
  "mamba_mode_of (MambaSpec m) = Some (mamba_cache_mode m)"
| "mamba_mode_of (Attn a k) = None"

text \<open>The compressions that a prefix-cache boundary must respect, \<open>prefix_alignments\<close>.\<close>

definition prefix_alignments :: "cache_group list \<Rightarrow> int list" where
  "prefix_alignments groups =
     [t. g \<leftarrow> groups, s \<leftarrow> iter_layer_specs (kv_cache_spec g), layer_prefix_cacheable s,
         t \<leftarrow> (case layer_tokens_per_state s of IntTps t \<Rightarrow> if 1 < t then [t] else [] | FracTps n d \<Rightarrow> [])]"

definition resolve_kv_cache_block_sizes :: "cache_config \<Rightarrow> vllm_config \<Rightarrow> (int \<times> int) res" where
  "resolve_kv_cache_block_sizes cfg c =
     (let dcp = decode_context_parallel_size c; groups = kv_cache_groups cfg
      in if length groups \<le> 1 then Inr (cache_block_size c * dcp, cache_block_size c * dcp)
      else
        let sizes = map (\<lambda>g. resolve_dcp_kv_block_size (kv_cache_spec g) dcp) groups;
            scheduler_block_size = fold lcm sizes 1
        in if \<not> (enable_prefix_caching c \<or> has_kv_transfer c) then Inr (scheduler_block_size, scheduler_block_size)
        else if list_ex (\<lambda>g. list_ex (\<lambda>s. mamba_mode_of s \<noteq> None \<and> mamba_mode_of s \<noteq> Some ''align'') (iter_layer_specs (kv_cache_spec g))) groups
        then Inr (scheduler_block_size, scheduler_block_size)
        else
          let cacheable = map snd (filter (\<lambda>(g, n). group_prefix_cacheable (kv_cache_spec g)) (zip groups sizes));
              hashing_sizes = (if cacheable = [] then sizes else cacheable);
              hash_block_size = (case prefix_match_unit c of Some u \<Rightarrow> u | None \<Rightarrow> fold gcd hashing_sizes 0)
          in bindE (divE hash_block_size (list_ex (\<lambda>n. n mod hash_block_size \<noteq> 0) hashing_sizes)) (\<lambda>bad.
             if bad then Inl ValueError
             else
               let partial_mamba = list_ex (\<lambda>(g, n). list_ex (\<lambda>s. mamba_mode_of s = Some ''align''
                     \<and> (dcp = 1 \<and> hash_block_size < n \<or> 1 < dcp \<and> hash_block_size \<le> n)) (iter_layer_specs (kv_cache_spec g))) (zip groups sizes);
                   cache_hit_alignment = (if partial_mamba then hash_block_size else scheduler_block_size)
               in if list_ex (\<lambda>t. cache_hit_alignment mod t \<noteq> 0) (prefix_alignments groups) then Inl ValueError
                  else Inr (scheduler_block_size, hash_block_size)))"

section \<open>Uniform models\<close>

definition check_kv_cache_spec_registry :: "layer_spec odict \<Rightarrow> unit res" where
  "check_kv_cache_spec_registry d = (if list_ex (\<lambda>(_, s). uniform_type_base s = None) d then Inl ValueError else Inr ())"

text \<open>Only an \<open>AssertionError\<close> of \<open>merge\<close> is caught.\<close>

definition is_kv_cache_spec_uniform :: "layer_spec odict \<Rightarrow> bool res" where
  "is_kv_cache_spec_uniform d =
     (if d = [] then Inr True
      else case merge (map snd d) of
        Inr _ \<Rightarrow> Inr True
      | Inl e \<Rightarrow> if e = AssertionError then Inr False else Inl e)"

definition create_kv_cache_group_specs :: "layer_spec odict \<Rightarrow> string list list \<Rightarrow> cache_group list res" where
  "create_kv_cache_group_specs d grouped_layer_names = mapE (\<lambda>names.
     bindE (mapE (dict_get d) names) (\<lambda>specs. bindE (merge specs) (\<lambda>s. Inr (mk_group names (LayerSpec s))))) grouped_layer_names"

definition get_kv_cache_groups_uniform_spec :: "layer_spec odict \<Rightarrow> cache_group list res" where
  "get_kv_cache_groups_uniform_spec d = create_kv_cache_group_specs d [map fst d]"

section \<open>Unifying page sizes\<close>

definition unify_layer :: "int \<Rightarrow> layer_spec \<Rightarrow> layer_spec res" where
  "unify_layer max_page s = bindE (page_size_bytes s) (\<lambda>page.
     if page = max_page then Inr s
     else bindE
       (if is_mamba s then replace_page_size_padded max_page s
        else bindE (divE page (max_page mod page)) (\<lambda>r.
          if r = 0 then replace_block_size (layer_block_size s * (max_page div page)) s
          else if attn_of s \<noteq> None \<and> mla_of s = None then replace_page_size_padded max_page s
          else Inl NotImplementedError)) (\<lambda>s'.
     bindE (page_size_bytes s') (\<lambda>page'. bindE (py_assert (page' = max_page)) (\<lambda>_. Inr s'))))"

definition unify_kv_cache_spec_page_size :: "layer_spec odict \<Rightarrow> layer_spec odict res" where
  "unify_kv_cache_spec_page_size d = bindE (mapE (page_size_bytes \<circ> snd) d) (\<lambda>pages.
     if length (remdups pages) \<le> 1 then Inr d
     else bindE (py_max pages) (\<lambda>max_page.
       mapE (\<lambda>(name, s). bindE (unify_layer max_page s) (\<lambda>s'. Inr (name, s'))) d))"

section \<open>Groups of equal page size\<close>

text \<open>\<open>layers[i::n]\<close>.\<close>

definition py_every :: "nat \<Rightarrow> nat \<Rightarrow> 'a list \<Rightarrow> 'a list" where
  "py_every i n xs = map snd (filter (\<lambda>(k, _). i \<le> k \<and> (k - i) mod n = 0) (enumerate 0 xs))"

definition same_type_layers :: "layer_spec odict \<Rightarrow> (layer_spec \<times> string list) list" where
  "same_type_layers d = fold (\<lambda>(name, s). dict_append s [name]) d []"

text \<open>A spec joins the first bucket it can be merged with.\<close>

fun place_in_bucket :: "layer_spec \<Rightarrow> string list \<Rightarrow> (string list \<times> layer_spec list) list \<Rightarrow> (string list \<times> layer_spec list) list res" where
  "place_in_bucket s ns [] = Inr [(ns, [s])]"
| "place_in_bucket s ns ((names, specs) # bs) = (case merge (specs @ [s]) of
     Inr _ \<Rightarrow> Inr ((names @ ns, specs @ [s]) # bs)
   | Inl e \<Rightarrow> if e = AssertionError \<or> e = ValueError
       then bindE (place_in_bucket s ns bs) (\<lambda>bs'. Inr ((names, specs) # bs'))
       else Inl e)"

definition split_bucket :: "int \<Rightarrow> string list \<Rightarrow> string list list" where
  "split_bucket group_size layers =
     (let n = cdiv (int (length layers)) group_size in map (\<lambda>i. py_every i (nat n) layers) [0..<nat n])"

definition get_kv_cache_groups_uniform_page_size :: "layer_spec odict \<Rightarrow> cache_group list res" where
  "get_kv_cache_groups_uniform_page_size d =
     bindE (foldE (\<lambda>(s, ns). place_in_bucket s ns) (same_type_layers d) []) (\<lambda>buckets.
     let layer_buckets = map fst buckets; lens = map (int \<circ> length) layer_buckets
     in bindE (py_min lens) (\<lambda>min_num_layers. bindE (py_max lens) (\<lambda>max_num_layers.
        let group_size = (if 2 * max_num_layers < 3 * min_num_layers then max_num_layers else min_num_layers)
        in create_kv_cache_group_specs d (concat (map (split_bucket group_size) layer_buckets)))))"

section \<open>Full allocation for local attention\<close>

definition promoted_page_size_padded :: "attn \<Rightarrow> int \<Rightarrow> int option res" where
  "promoted_page_size_padded a bs = (case page_size_padded a of
     None \<Rightarrow> Inr None
   | Some p \<Rightarrow> bindE (divE (block_size a) (unpadded_page_size_bytes a * bs div block_size a)) (\<lambda>u. Inr (Some (max p u))))"

text \<open>\<open>replace_as\<close> with the promotion of the class.\<close>

definition promoted_kind :: "attn_kind \<Rightarrow> attn_kind option" where
  "promoted_kind k = (case k of
     SlidingWindowMLASpec w e m \<Rightarrow>
       Some (MLAAttentionSpec \<lparr>sliding_window = Some w, attention_chunk_size = None, non_causal = False\<rparr> m False)
   | SlidingWindowSpec w e \<Rightarrow>
       Some (FullAttentionSpec \<lparr>sliding_window = Some w, attention_chunk_size = None, non_causal = False\<rparr>)
   | ChunkedLocalAttentionSpec n \<Rightarrow>
       Some (FullAttentionSpec \<lparr>sliding_window = None, attention_chunk_size = Some n, non_causal = False\<rparr>)
   | _ \<Rightarrow> None)"

definition promote_layer :: "int option \<Rightarrow> layer_spec \<Rightarrow> layer_spec res" where
  "promote_layer full_block_size s = (case s of
     MambaSpec m \<Rightarrow> Inr s
   | Attn a k \<Rightarrow> (case promoted_kind k of
       None \<Rightarrow> Inr s
     | Some k' \<Rightarrow>
         let bs = (case full_block_size of Some b \<Rightarrow> if b = 0 then block_size a else b | None \<Rightarrow> block_size a)
         in bindE (promoted_page_size_padded a bs) (\<lambda>p. post_init (a\<lparr>block_size := bs, page_size_padded := p\<rparr>) k')))"

definition uniform_spec_or_type :: "layer_spec odict \<Rightarrow> bool res" where
  "uniform_spec_or_type d = bindE (is_kv_cache_spec_uniform d) (\<lambda>b. if b then Inr True else is_uniform_type d)"

definition promote_local_kv_cache_specs :: "layer_spec odict \<Rightarrow> layer_spec odict res" where
  "promote_local_kv_cache_specs d = bindE (uniform_spec_or_type d) (\<lambda>uniform.
     if uniform then Inr d
     else
       let specs = map snd d;
           full_block_sizes = remdups (map layer_block_size (filter (\<lambda>s. full_of s \<noteq> None) specs));
           full_block_size = (case full_block_sizes of [b] \<Rightarrow> Some b | _ \<Rightarrow> None)
       in bindE
         (if list_ex (\<lambda>s. full_of s \<noteq> None) specs \<and> list_ex (\<lambda>s. swa_of s \<noteq> None \<or> chunked_of s \<noteq> None) specs
          then mapE (\<lambda>(name, s). bindE (promote_layer full_block_size s) (\<lambda>s'. Inr (name, s'))) d
          else Inr d) (\<lambda>d'.
       bindE (uniform_spec_or_type d') (\<lambda>b. if b then Inr d' else Inl ValueError)))"

definition get_full_allocation_fallback_groups :: "layer_spec odict \<Rightarrow> cache_group list option res" where
  "get_full_allocation_fallback_groups d =
     (let specs = map snd d
      in if list_ex is_hidden_state specs then Inr None
      else if list_ex (\<lambda>s. swmla_of s \<noteq> None \<or> chunked_of s \<noteq> None) specs then Inr None
      else if \<not> (list_ex (\<lambda>s. mla_of s \<noteq> None) specs \<and> list_ex (\<lambda>s. swa_of s \<noteq> None) specs) then Inr None
      else case promote_local_kv_cache_specs d of
        Inl e \<Rightarrow> if e = ValueError then Inr None else Inl e
      | Inr promoted \<Rightarrow> bindE (from_specs promoted) (\<lambda>u. case u of
          None \<Rightarrow> Inr None
        | Some s \<Rightarrow> Inr (Some [mk_group (map fst promoted) s])))"

definition unify_hybrid_kv_cache_specs :: "layer_spec odict \<Rightarrow> layer_spec odict res" where
  "unify_hybrid_kv_cache_specs d = bindE (uniform_spec_or_type d) (\<lambda>b. if b then Inr d else promote_local_kv_cache_specs d)"

section \<open>Packed groups\<close>

definition gcd_padding :: "int list \<Rightarrow> int \<Rightarrow> int" where
  "gcd_padding values d = (\<Sum>x\<leftarrow>values. (d - x mod d) mod d)"

definition approximate_gcd :: "int list \<Rightarrow> int \<Rightarrow> int res" where
  "approximate_gcd values lower_bound =
     (if values = [] then Inl ValueError
      else if list_ex (\<lambda>x. x \<le> 0) values then Inl ValueError
      else
        let min_d = max 1 lower_bound
        in bindE (py_max values) (\<lambda>max_d.
          if max_d < min_d then Inr min_d
          else Inr (fst (fold (\<lambda>d (best_d, best_pad).
              let pad = gcd_padding values d
              in case best_pad of
                   None \<Rightarrow> (d, Some pad)
                 | Some p \<Rightarrow> if pad < p \<or> pad = p \<and> best_d < d then (d, Some pad) else (best_d, best_pad))
            (py_range min_d (max_d + 1)) (min_d, None)))))"

text \<open>A layer joins the first bucket it is of one type with.\<close>

fun bucket_insert :: "string \<times> layer_spec \<Rightarrow> layer_spec odict list \<Rightarrow> layer_spec odict list res" where
  "bucket_insert x [] = Inr [[x]]"
| "bucket_insert x (b # bs) = bindE (is_uniform_type (b @ [x])) (\<lambda>uniform.
     if uniform then Inr ((b @ [x]) # bs) else bindE (bucket_insert x bs) (\<lambda>bs'. Inr (b # bs')))"

record bucket_info =
  bucket_specs :: "layer_spec odict"
  bucket_spec :: group_spec
  page_size_layers :: "(int \<times> string list) list"
  balanced :: bool

definition analyse_bucket :: "layer_spec odict \<Rightarrow> bucket_info res" where
  "analyse_bucket b = bindE (from_specs b) (\<lambda>u. case u of
     None \<Rightarrow> Inl AssertionError
   | Some s \<Rightarrow> bindE (foldE (\<lambda>(name, l) acc. bindE (page_size_bytes l) (\<lambda>p. Inr (dict_append p [name] acc))) b []) (\<lambda>psl.
       Inr \<lparr>bucket_specs = b, bucket_spec = s, page_size_layers = psl,
            balanced = (length (remdups (map (length \<circ> snd) psl)) = 1)\<rparr>))"

definition num_groups_for :: "int option \<Rightarrow> bucket_info \<Rightarrow> int res" where
  "num_groups_for repeats b = (case repeats of
     Some r \<Rightarrow> if balanced b then bindE (get_max_layers_per_page_size (bucket_specs b)) (\<lambda>n. divE r (cdiv n r)) else Inr 1
   | None \<Rightarrow> Inr 1)"

definition widest_group_bytes :: "(int \<times> string list) list \<Rightarrow> int \<Rightarrow> int res" where
  "widest_group_bytes psl n = divE n (\<Sum>(page, names)\<leftarrow>psl. cdiv (int (length names)) n * page)"

definition first_is_mamba :: "bucket_info \<Rightarrow> bool" where
  "first_is_mamba b = (case bucket_specs b of [] \<Rightarrow> False | (_, s) # _ \<Rightarrow> is_mamba s)"

definition first_page_size :: "bucket_info \<Rightarrow> int res" where
  "first_page_size b = (case bucket_specs b of [] \<Rightarrow> Inl StopIteration | (_, s) # _ \<Rightarrow> page_size_bytes s)"

text \<open>\<open>max(xs, default=0)\<close>.\<close>

definition py_max_default :: "int list \<Rightarrow> int" where
  "py_max_default xs = (case xs of [] \<Rightarrow> 0 | y # ys \<Rightarrow> fold max ys y)"

text \<open>\<open>list(zip(*xss))\<close>.\<close>

definition zip_all :: "'a list list \<Rightarrow> 'a list list" where
  "zip_all xss = (case map length xss of
     [] \<Rightarrow> [] | n # ns \<Rightarrow> map (\<lambda>i. map (\<lambda>xs. xs ! i) xss) [0..<fold min ns n])"

definition num_bucket_groups :: "int option \<Rightarrow> int \<Rightarrow> bucket_info \<Rightarrow> int res" where
  "num_bucket_groups repeats anchor_bytes b =
     bindE (num_groups_for repeats b) (\<lambda>n.
     if anchor_bytes \<noteq> 0 \<and> first_is_mamba b
     then bindE (first_page_size b) (\<lambda>page. bindE (divE page (max (anchor_bytes div page) 1)) (\<lambda>states.
       Inr (max n (cdiv (int (length (bucket_specs b))) states))))
     else Inr n)"

definition pattern_group :: "bucket_info \<Rightarrow> nat \<Rightarrow> nat \<Rightarrow> cache_group res" where
  "pattern_group b n i =
     (let names = concat (py_every i n (zip_all (map snd (page_size_layers b))))
      in bindE (mapE (\<lambda>name. bindE (dict_get (bucket_specs b) name) (\<lambda>s. Inr (name, s))) names) (\<lambda>d.
         bindE (from_specs d) (\<lambda>u. case u of None \<Rightarrow> Inl AssertionError | Some s \<Rightarrow> Inr (mk_group names s))))"

definition bucket_groups :: "int option \<Rightarrow> int \<Rightarrow> bucket_info \<Rightarrow> cache_group list res" where
  "bucket_groups repeats anchor_bytes b = bindE (num_bucket_groups repeats anchor_bytes b) (\<lambda>n.
     if n = 1 then Inr [mk_group (map fst (bucket_specs b)) (bucket_spec b)]
     else mapE (pattern_group b (nat n)) [0..<nat n])"

text \<open>The repeats of the pattern that the groups of a balanced bucket cover, \<open>repeats_per_group\<close>.\<close>

definition repeats_per_group :: "bucket_info list \<Rightarrow> int option res" where
  "repeats_per_group bucketed =
     bindE (mapE (get_max_layers_per_page_size \<circ> bucket_specs)
       (filter (\<lambda>b. balanced b \<and> 1 < length (page_size_layers b)) bucketed)) (\<lambda>mins.
     if py_max_default mins = 0 then Inr None
     else bindE (mapE (get_max_layers_per_page_size \<circ> bucket_specs) (filter balanced bucketed)) (\<lambda>counts.
       bindE (approximate_gcd counts (py_max_default mins)) (\<lambda>r. Inr (Some r))))"

definition packed_anchor_bytes :: "int option \<Rightarrow> bucket_info list \<Rightarrow> int res" where
  "packed_anchor_bytes repeats bucketed =
     bindE (mapE (\<lambda>b. bindE (if first_is_mamba b then Inr (int (length (bucket_specs b))) else num_groups_for repeats b)
       (widest_group_bytes (page_size_layers b))) bucketed) (\<lambda>widths. Inr (py_max_default widths))"

definition uses_eagle :: "vllm_config \<Rightarrow> bool" where
  "uses_eagle c = (case speculative_config c of None \<Rightarrow> False | Some s \<Rightarrow> use_eagle_method s)"

definition annotate_last_layer :: "string \<Rightarrow> cache_group list \<Rightarrow> cache_group list" where
  "annotate_last_layer name groups =
     (let before = takeWhile (\<lambda>g. name \<notin> set (layer_names g)) groups
      in before @ (case drop (length before) groups of [] \<Rightarrow> [] | g # gs \<Rightarrow> g\<lparr>is_eagle_group := True\<rparr> # gs))"

definition annotate_eagle_groups :: "vllm_config \<Rightarrow> layer_spec odict \<Rightarrow> bool \<Rightarrow> cache_group list \<Rightarrow> cache_group list res" where
  "annotate_eagle_groups c d deepseek_fallback groups =
     (if \<not> uses_eagle c then Inr groups
      else
        let marked = map (\<lambda>g. if list_ex (\<lambda>s. case mla_of s of Some (_, _, b) \<Rightarrow> b | None \<Rightarrow> False) (iter_layer_specs (kv_cache_spec g))
                              then g\<lparr>is_eagle_group := True\<rparr> else g) groups
        in if \<not> deepseek_fallback then Inr marked
           else if d = [] then Inl StopIteration
           else Inr (annotate_last_layer (fst (last d)) marked))"

definition get_resolved_kv_cache_layout :: "vllm_config \<Rightarrow> kv_cache_layout res" where
  "get_resolved_kv_cache_layout c = (case vllm_config.kv_cache_layout c of None \<Rightarrow> Inl ValueError | Some l \<Rightarrow> Inr l)"

definition get_packed_kv_cache_groups :: "vllm_config \<Rightarrow> layer_spec odict \<Rightarrow> cache_group list option res" where
  "get_packed_kv_cache_groups c d =
     bindE (get_resolved_kv_cache_layout c) (\<lambda>layout.
     bindE (mapE (page_size_bytes \<circ> snd) d) (\<lambda>pages.
     if \<not> is_block_outermost layout \<or> length (remdups pages) \<le> 1 then Inr None
     else
       bindE (foldE bucket_insert d []) (\<lambda>buckets.
       bindE (mapE analyse_bucket buckets) (\<lambda>bucketed.
       bindE (repeats_per_group bucketed) (\<lambda>repeats.
       bindE (packed_anchor_bytes repeats bucketed) (\<lambda>anchor_bytes.
       bindE (mapE (bucket_groups repeats anchor_bytes) bucketed) (\<lambda>gs.
       bindE (annotate_eagle_groups c d (uses_eagle c \<and> is_deepseek_v4 c) (concat gs)) (\<lambda>groups.
       Inr (Some groups)))))))))"

section \<open>All groups of a model\<close>

definition largest_divisor_at_most :: "int \<Rightarrow> int \<Rightarrow> int" where
  "largest_divisor_at_most v limit =
     (case filter (\<lambda>d. v mod d = 0) (py_range_down (min v limit) 0) of [] \<Rightarrow> 1 | d # _ \<Rightarrow> d)"

fun group_page_size :: "group_spec \<Rightarrow> int res" where
  "group_page_size (LayerSpec s) = page_size_bytes s"
| "group_page_size (UniformTypeKVCacheSpecs bs d) = bindE (mapE (page_size_bytes \<circ> snd) d) (\<lambda>ps. Inr (sum_list ps))"

definition get_uniform_page_size :: "group_spec list \<Rightarrow> int res" where
  "get_uniform_page_size specs = bindE (mapE group_page_size specs) (\<lambda>pages.
     case remdups pages of [p] \<Rightarrow> Inr p | _ \<Rightarrow> Inl AssertionError)"

text \<open>A hidden-state layer is padded to the common page.\<close>

definition align_hidden_state :: "int \<Rightarrow> int \<Rightarrow> layer_spec \<Rightarrow> layer_spec res" where
  "align_hidden_state common_page group_bs s = (case s of
     MambaSpec m \<Rightarrow> Inr s
   | Attn a k \<Rightarrow>
       let per_token = num_kv_heads a * head_size a * get_dtype_size (dtype a)
       in bindE (divE per_token (max (common_page div per_token) 1)) (\<lambda>max_bs.
          bindE (divE common_page (largest_divisor_at_most group_bs max_bs)) (\<lambda>new_bs.
          post_init (a\<lparr>block_size := new_bs, page_size_padded := Some common_page\<rparr>) k)))"

definition get_kv_cache_groups :: "vllm_config \<Rightarrow> layer_spec odict \<Rightarrow> cache_group list res" where
  "get_kv_cache_groups c d0 =
     bindE (if disable_hybrid_kv_cache_manager c then unify_hybrid_kv_cache_specs d0 else Inr d0) (\<lambda>d.
     if d = [] then Inr []
     else bindE (is_kv_cache_spec_uniform d) (\<lambda>uniform.
     if uniform then get_kv_cache_groups_uniform_spec d
     else bindE (from_specs d) (\<lambda>u. case u of
       Some s \<Rightarrow> Inr [mk_group (map fst d) s]
     | None \<Rightarrow>
       let hidden = filter (is_hidden_state \<circ> snd) d; filtered = filter (\<lambda>x. \<not> is_hidden_state (snd x)) d
       in bindE (get_packed_kv_cache_groups c filtered) (\<lambda>packed.
          if packed \<noteq> None \<and> packed \<noteq> Some []
          then Inr (the packed @ map (\<lambda>(name, s). mk_group [name] (LayerSpec s)) hidden)
          else case unify_kv_cache_spec_page_size filtered of
            Inl e \<Rightarrow>
              if e = NotImplementedError
              then bindE (get_full_allocation_fallback_groups d) (\<lambda>f. case f of None \<Rightarrow> Inl e | Some gs \<Rightarrow> Inr gs)
              else Inl e
          | Inr filtered' \<Rightarrow>
              bindE (get_kv_cache_groups_uniform_page_size filtered') (\<lambda>groups.
              bindE (if hidden = [] then Inr groups
                else bindE (get_uniform_page_size (map kv_cache_spec groups)) (\<lambda>common_page.
                  bindE (mapE (\<lambda>(name, s).
                      bindE (align_hidden_state common_page (fold gcd (map (group_block_size \<circ> kv_cache_spec) groups) 0) s)
                        (\<lambda>s'. Inr (mk_group [name] (LayerSpec s')))) hidden) (\<lambda>hs.
                  Inr (groups @ hs)))) (\<lambda>all_groups.
              annotate_eagle_groups c d False all_groups))))))"

section \<open>Dictionaries of lists\<close>

lemma dict_append_mset: "mset (concat (map snd (dict_append k vs d))) = mset (concat (map snd d)) + mset vs"
  by (induction k vs d rule: dict_append.induct) auto

lemma dict_append_sum:
  "(\<Sum>(k, vs)\<leftarrow>dict_append k' vs' d. int (length vs) * f k) = (\<Sum>(k, vs)\<leftarrow>d. int (length vs) * f k) + int (length vs') * f k'"
  by (induction k' vs' d rule: dict_append.induct) (auto simp: algebra_simps)

lemma dict_append_entry:
  assumes "(k, ws) \<in> set (dict_append k' vs d)"
  shows "(k, ws) \<in> set d \<or> k = k' \<and> (ws = vs \<or> (\<exists>us. (k', us) \<in> set d \<and> ws = us @ vs))"
  using assms by (induction k' vs d rule: dict_append.induct) (auto split: if_splits)

lemma dict_append_keys: "set (map fst (dict_append k vs d)) = insert k (set (map fst d))"
  by (induction k vs d rule: dict_append.induct) auto

lemma dict_append_distinct: "distinct (map fst d) \<Longrightarrow> distinct (map fst (dict_append k vs d))"
  by (induction k vs d rule: dict_append.induct) (auto simp: dict_append_keys [unfolded set_map])

text \<open>Grouping the entries of a dict by a key keeps every entry once.\<close>

definition dict_group :: "('a \<Rightarrow> 'k) \<Rightarrow> (string \<times> 'a) list \<Rightarrow> ('k \<times> string list) list \<Rightarrow> ('k \<times> string list) list" where
  "dict_group f d acc = fold (\<lambda>(name, x). dict_append (f x) [name]) d acc"

lemma dict_group_Cons: "dict_group f ((n, x) # d) acc = dict_group f d (dict_append (f x) [n] acc)"
  by (simp add: dict_group_def)

lemma same_type_layers_group: "same_type_layers d = dict_group id d []"
  by (simp add: same_type_layers_def dict_group_def)

lemma dict_group_mset: "mset (concat (map snd (dict_group f d acc))) = mset (concat (map snd acc)) + mset (map fst d)"
proof (induction d arbitrary: acc)
  case Nil
  then show ?case by (simp add: dict_group_def)
next
  case (Cons x d)
  then show ?case by (cases x) (simp add: dict_group_Cons dict_append_mset)
qed

lemma dict_group_sum:
  "(\<Sum>(k, ns)\<leftarrow>dict_group f d acc. int (length ns) * g k) = (\<Sum>(k, ns)\<leftarrow>acc. int (length ns) * g k) + (\<Sum>(n, x)\<leftarrow>d. g (f x))"
proof (induction d arbitrary: acc)
  case Nil
  then show ?case by (simp add: dict_group_def)
next
  case (Cons x d)
  then show ?case by (cases x) (simp add: dict_group_Cons dict_append_sum)
qed

lemma dict_group_entries:
  assumes "\<And>k ns. (k, ns) \<in> set acc \<Longrightarrow> ns \<noteq> [] \<and> (\<forall>n \<in> set ns. P n k)"
    and "\<And>n x. (n, x) \<in> set d \<Longrightarrow> P n (f x)"
    and "(k, ns) \<in> set (dict_group f d acc)"
  shows "ns \<noteq> [] \<and> (\<forall>n \<in> set ns. P n k)"
  using assms
proof (induction d arbitrary: acc)
  case Nil
  then show ?case by (simp add: dict_group_def)
next
  case (Cons x d)
  obtain n y where x: "x = (n, y)" by (cases x)
  show ?case
  proof (rule Cons.IH)
    show "(k, ns) \<in> set (dict_group f d (dict_append (f y) [n] acc))" using Cons.prems(3) by (simp add: x dict_group_Cons)
    show "ns \<noteq> [] \<and> (\<forall>n \<in> set ns. P n k)" if "(k, ns) \<in> set (dict_append (f y) [n] acc)" for k ns
      using dict_append_entry [OF that] Cons.prems(1) [of k] Cons.prems(2) [of n y] by (fastforce simp: x)
  qed (use Cons.prems(2) in simp)
qed

lemma dict_group_distinct: "distinct (map fst acc) \<Longrightarrow> distinct (map fst (dict_group f d acc))"
proof (induction d arbitrary: acc)
  case Nil
  then show ?case by (simp add: dict_group_def)
next
  case (Cons x d)
  then show ?case by (cases x) (simp add: dict_group_Cons dict_append_distinct)
qed

lemma dict_get_distinct: "distinct (map fst d) \<Longrightarrow> (k, v) \<in> set d \<Longrightarrow> dict_get d k = Inr v"
  by (simp add: dict_get_def)

lemma py_max_ge: "py_max xs = Inr m \<Longrightarrow> x \<in> set xs \<Longrightarrow> x \<le> m"
proof -
  have fold: "y \<le> fold max ys y \<and> (\<forall>x \<in> set ys. x \<le> fold max ys y)" for ys :: "int list" and y
    by (induction ys arbitrary: y) force+
  show "py_max xs = Inr m \<Longrightarrow> x \<in> set xs \<Longrightarrow> x \<le> m"
    using fold by (auto simp: py_max_def split: list.splits)
qed

lemma py_max_in: "py_max xs = Inr m \<Longrightarrow> m \<in> set xs"
proof -
  have fold: "fold max ys y \<in> insert y (set ys)" for ys :: "int list" and y
    by (induction ys arbitrary: y) (auto simp: max_def)
  show "py_max xs = Inr m \<Longrightarrow> m \<in> set xs" using fold by (auto simp: py_max_def split: list.splits)
qed

lemma py_min_in: "py_min xs = Inr m \<Longrightarrow> m \<in> set xs"
proof -
  have fold: "fold min ys y \<in> insert y (set ys)" for ys :: "int list" and y
    by (induction ys arbitrary: y) (auto simp: min_def)
  show "py_min xs = Inr m \<Longrightarrow> m \<in> set xs" using fold by (auto simp: py_min_def split: list.splits)
qed

lemma py_min_le: "py_min xs = Inr m \<Longrightarrow> x \<in> set xs \<Longrightarrow> m \<le> x"
proof -
  have fold: "fold min ys y \<le> y \<and> (\<forall>x \<in> set ys. fold min ys y \<le> x)" for ys :: "int list" and y
    by (induction ys arbitrary: y) force+
  show "py_min xs = Inr m \<Longrightarrow> x \<in> set xs \<Longrightarrow> m \<le> x"
    using fold by (auto simp: py_min_def split: list.splits)
qed

lemma mapE_Inr: "mapE f xs = Inr ys \<longleftrightarrow> list_all2 (\<lambda>x y. f x = Inr y) xs ys"
  by (induction xs arbitrary: ys) (auto simp: bindE_eq_Inr list_all2_Cons1)

lemma mapE_map_list: "mapE f (map g xs) = mapE (\<lambda>x. f (g x)) xs"
  by (induction xs) auto

lemma mapE_mem: "mapE f xs = Inr ys \<Longrightarrow> x \<in> set xs \<Longrightarrow> \<exists>y \<in> set ys. f x = Inr y"
  by (induction xs arbitrary: ys) (auto simp: bindE_eq_Inr)

lemma mapE_mem_result: "mapE f xs = Inr ys \<Longrightarrow> y \<in> set ys \<Longrightarrow> \<exists>x \<in> set xs. f x = Inr y"
  by (induction xs arbitrary: ys) (auto simp: bindE_eq_Inr)

end
