(* ===== verification/KV_Sizing.thy ===== *)
theory KV_Sizing
  imports KV_Config
begin

text \<open>
  The sizing of the KV cache in \<^verbatim>\<open>vllm/v1/core/kv_cache_utils.py\<close>: from the groups of a model
  and the memory of each worker to the number of blocks, the longest model length that fits and
  the placement of every layer in the allocation.
\<close>

section \<open>From groups to a configuration\<close>

definition get_per_layer_spec :: "cache_group \<Rightarrow> string \<Rightarrow> layer_spec res" where
  "get_per_layer_spec g name = (case kv_cache_spec g of
     LayerSpec s \<Rightarrow> Inr s
   | UniformTypeKVCacheSpecs bs d \<Rightarrow> dict_get d name)"

definition layer_page_sizes :: "cache_group \<Rightarrow> int list res" where
  "layer_page_sizes g = mapE (\<lambda>name. bindE (get_per_layer_spec g name) page_size_bytes) (layer_names g)"

text \<open>\<open>_get_kv_cache_bytes_per_block\<close> and its alias \<open>_pool_bytes_per_block\<close>: the widest group.\<close>

definition pool_bytes_per_block :: "cache_group list \<Rightarrow> int res" where
  "pool_bytes_per_block groups =
     bindE (mapE (\<lambda>g. bindE (layer_page_sizes g) (\<lambda>ps. Inr (sum_list ps))) groups) (\<lambda>widths.
     bindE (py_max widths) (\<lambda>b. bindE (py_assert (0 < b)) (\<lambda>_. Inr b)))"

definition validate_kv_cache_layout :: "kv_cache_layout \<Rightarrow> cache_group list \<Rightarrow> unit res" where
  "validate_kv_cache_layout layout groups = bindE (mapE layer_page_sizes groups) (\<lambda>pss.
     if length (remdups (concat pss)) = 1 then Inr ()
     else if \<not> is_block_compact layout \<or> (1 < length groups \<and> is_layer_compact layout) then Inl ValueError
     else Inr ())"

definition may_override_num_blocks :: "vllm_config \<Rightarrow> int \<Rightarrow> int" where
  "may_override_num_blocks c n = (case num_gpu_blocks_override c of None \<Rightarrow> n | Some k \<Rightarrow> k)"

text \<open>\<open>layers_by_spec\<close> of a group.\<close>

definition layers_by_spec :: "cache_group \<Rightarrow> (layer_spec \<times> string list) list" where
  "layers_by_spec g = (case kv_cache_spec g of
     LayerSpec s \<Rightarrow> if layer_names g = [] then [] else [(s, layer_names g)]
   | UniformTypeKVCacheSpecs bs d \<Rightarrow> same_type_layers d)"

definition place_spec :: "kv_cache_layout \<Rightarrow> int option \<Rightarrow> int \<Rightarrow> int \<Rightarrow> layer_spec \<times> string list
    \<Rightarrow> cache_tensor list \<times> int \<Rightarrow> (cache_tensor list \<times> int) res" where
  "place_spec layout interleaved nb alloc_size x st = (case (x, st) of ((s, names), (tensors, byte_offset)) \<Rightarrow>
     bindE (compute_layout_strides s nb (int (length names)) layout [None, interleaved, None, None, None]) (\<lambda>strides.
     bindE (page_size_bytes s) (\<lambda>page.
     bindE (divE page (byte_offset * max (strides ! 0) page div page)) (\<lambda>offset.
     Inr (tensors @ [\<lparr>tensor_size = alloc_size, tensor_layers = names, layer_stride = strides ! 0,
                      block_stride = strides ! 1, tensor_offset = offset\<rparr>],
          byte_offset + int (length names) * page)))))"

definition group_tensors :: "kv_cache_layout \<Rightarrow> int option \<Rightarrow> int \<Rightarrow> int \<Rightarrow> cache_group \<Rightarrow> cache_tensor list res" where
  "group_tensors layout interleaved nb alloc_size g =
     bindE (foldE (place_spec layout interleaved nb alloc_size) (layers_by_spec g) ([], 0)) (\<lambda>(tensors, _). Inr tensors)"

definition get_kv_cache_config_from_groups :: "vllm_config \<Rightarrow> cache_group list \<Rightarrow> int \<Rightarrow> cache_config res" where
  "get_kv_cache_config_from_groups c groups available_memory =
     (if groups = []
      then Inr \<lparr>num_blocks = 1, kv_cache_tensors = [], kv_cache_groups = groups,
                prefix_cache_retention_interval = retention_interval c\<rparr>
      else
        bindE (get_resolved_kv_cache_layout c) (\<lambda>layout.
        bindE (validate_kv_cache_layout layout groups) (\<lambda>_.
        bindE (pool_bytes_per_block groups) (\<lambda>bytes_per_block.
        let interleaved = (if is_block_outermost layout then Some bytes_per_block else None);
            nb = may_override_num_blocks c (available_memory div bytes_per_block)
        in bindE (mapE (group_tensors layout interleaved nb (bytes_per_block * nb)) groups) (\<lambda>tensors.
           Inr \<lparr>num_blocks = nb, kv_cache_tensors = concat tensors, kv_cache_groups = groups,
                prefix_cache_retention_interval = retention_interval c\<rparr>)))))"

section \<open>Memory of the longest request\<close>

text \<open>The blocks one request of \<open>max_model_len\<close> tokens takes from the pool.\<close>

definition group_pages :: "vllm_config \<Rightarrow> cache_group \<Rightarrow> int res" where
  "group_pages c g = (case kv_cache_spec g of
     LayerSpec s \<Rightarrow> layer_pages c s
   | UniformTypeKVCacheSpecs bs d \<Rightarrow> bindE (mapE (layer_pages c \<circ> snd) d) py_max)"

definition max_memory_usage_bytes_from_groups :: "vllm_config \<Rightarrow> cache_group list \<Rightarrow> int res" where
  "max_memory_usage_bytes_from_groups c groups =
     (if groups = [] then Inr 0
      else bindE (pool_bytes_per_block groups) (\<lambda>b. bindE (mapE (group_pages c) groups) (\<lambda>pages. Inr (b * sum_list pages))))"

text \<open>The loop of both binary searches for the maximum model length.\<close>

function search_max_len :: "(int \<Rightarrow> bool res) \<Rightarrow> int \<Rightarrow> int \<Rightarrow> int \<Rightarrow> int res" where
  "search_max_len fits left right result =
     (if left \<le> right
      then let mid = (left + right) div 2
           in bindE (fits mid) (\<lambda>ok. if ok then search_max_len fits (mid + 1) right mid
                                     else search_max_len fits left (mid - 1) result)
      else Inr result)"
  by pat_completeness auto

termination
  by (relation "measure (\<lambda>(fits, left, right, result). nat (right - left + 1))") auto

declare search_max_len.simps [simp del]

definition fits_in_groups :: "vllm_config \<Rightarrow> cache_group list \<Rightarrow> int \<Rightarrow> int \<Rightarrow> bool res" where
  "fits_in_groups c groups available_memory len =
     bindE (max_memory_usage_bytes_from_groups (c\<lparr>max_model_len := len\<rparr>) groups) (\<lambda>needed. Inr (needed \<le> available_memory))"

definition estimate_max_model_len_from_groups :: "vllm_config \<Rightarrow> cache_group list \<Rightarrow> int \<Rightarrow> int res" where
  "estimate_max_model_len_from_groups c groups available_memory =
     bindE (fits_in_groups c groups available_memory 1) (\<lambda>ok.
     if \<not> ok then Inr 0 else search_max_len (fits_in_groups c groups available_memory) 1 (max_model_len c) 1)"

definition check_enough_kv_cache_memory :: "vllm_config \<Rightarrow> cache_group list \<Rightarrow> int \<Rightarrow> unit res" where
  "check_enough_kv_cache_memory c groups available_memory =
     (if available_memory \<le> 0 then Inl ValueError
      else bindE (max_memory_usage_bytes_from_groups c groups) (\<lambda>needed.
        if available_memory < needed
        then bindE (estimate_max_model_len_from_groups c groups available_memory) (\<lambda>_. Inl ValueError)
        else Inr ()))"

definition auto_fit_max_model_len :: "vllm_config \<Rightarrow> cache_group list list \<Rightarrow> int list \<Rightarrow> vllm_config res" where
  "auto_fit_max_model_len c projected available_memory =
     (if list_all (\<lambda>gs. gs = []) projected then Inr c
      else if available_memory = [] then Inl IndexError
      else bindE (foldE (\<lambda>(groups, mem) best.
          if groups = [] then Inr best
          else bindE (estimate_max_model_len_from_groups c groups mem) (\<lambda>worker_max. Inr (min worker_max best)))
          (zip projected available_memory) (max_model_len c)) (\<lambda>auto_fit_max.
        if auto_fit_max \<le> 0 then Inl ValueError
        else Inr (if max_model_len c \<le> auto_fit_max then c else c\<lparr>max_model_len := auto_fit_max\<rparr>)))"

section \<open>All workers\<close>

definition project_group :: "layer_spec odict \<Rightarrow> cache_group \<Rightarrow> cache_group res" where
  "project_group worker_spec g =
     (let names = filter (\<lambda>n. map_of worker_spec n \<noteq> None) (layer_names g)
      in bindE (case kv_cache_spec g of
           UniformTypeKVCacheSpecs bs d \<Rightarrow>
             if names = [] then Inr (kv_cache_spec g)
             else bindE (mapE (\<lambda>n. bindE (dict_get d n) (\<lambda>s. Inr (n, s))) names) (\<lambda>d'. Inr (UniformTypeKVCacheSpecs bs d'))
         | LayerSpec s \<Rightarrow> Inr (kv_cache_spec g)) (\<lambda>spec.
         Inr \<lparr>layer_names = names, kv_cache_spec = spec, is_eagle_group = is_eagle_group g \<and> names \<noteq> [], enable_kv_transfer = True\<rparr>))"

definition project_kv_cache_groups_to_worker :: "cache_group list \<Rightarrow> layer_spec odict \<Rightarrow> cache_group list res" where
  "project_kv_cache_groups_to_worker groups worker_spec = mapE (project_group worker_spec) groups"

text \<open>The union of the specs of the workers; a layer that two workers hold has one spec.\<close>

definition merge_worker_specs :: "layer_spec odict list \<Rightarrow> layer_spec odict res" where
  "merge_worker_specs specs = foldE (\<lambda>(name, s) d. case map_of d name of
     None \<Rightarrow> Inr (d @ [(name, s)])
   | Some s' \<Rightarrow> bindE (py_assert (s' = s)) (\<lambda>_. Inr d)) (concat specs) []"

definition extra_retained_tokens :: "vllm_config \<Rightarrow> int" where
  "extra_retained_tokens c = (case speculative_config c of
     None \<Rightarrow> 0 | Some s \<Rightarrow> if use_multi_module_mtp s then num_speculative_tokens s - 1 else 0)"

definition retain_tokens :: "int \<Rightarrow> layer_spec \<Rightarrow> layer_spec res" where
  "retain_tokens e s = (case s of
     Attn a (SlidingWindowSpec w _) \<Rightarrow> post_init a (SlidingWindowSpec w e)
   | Attn a (SlidingWindowMLASpec w _ m) \<Rightarrow> post_init a (SlidingWindowMLASpec w e m)
   | _ \<Rightarrow> Inr s)"

text \<open>The memory an override of the number of blocks amounts to.\<close>

definition effective_memory :: "vllm_config \<Rightarrow> cache_group list \<Rightarrow> int \<Rightarrow> int res" where
  "effective_memory c groups mem = (case num_gpu_blocks_override c of
     None \<Rightarrow> Inr mem
   | Some k \<Rightarrow> if groups = [] then Inr mem else bindE (pool_bytes_per_block groups) (\<lambda>b. Inr (k * b)))"

text \<open>The memory besides the null block.\<close>

definition usable_memory :: "cache_group list \<Rightarrow> int \<Rightarrow> int res" where
  "usable_memory groups mem = (if groups = [] then Inr mem else bindE (pool_bytes_per_block groups) (\<lambda>b. Inr (mem - b)))"

definition shrink_config :: "vllm_config \<Rightarrow> int \<Rightarrow> cache_config \<Rightarrow> cache_config res" where
  "shrink_config c min_num_blocks cfg =
     (if num_blocks cfg = min_num_blocks then Inr cfg
      else bindE (pool_bytes_per_block (kv_cache_groups cfg)) (\<lambda>b.
        get_kv_cache_config_from_groups c (kv_cache_groups cfg) (min_num_blocks * b)))"

text \<open>The configurations of the workers and the configuration with the model length that was fitted.\<close>

definition plan_workers :: "vllm_config \<Rightarrow> cache_group list list \<Rightarrow> layer_spec odict list \<Rightarrow> int list \<Rightarrow> (vllm_config \<times> cache_config list) res" where
  "plan_workers c projected specs available_memory0 =
     bindE (mapE (\<lambda>(gs, mem). effective_memory c gs mem) (zip projected available_memory0)) (\<lambda>available_memory1.
     let available_memory = (if num_gpu_blocks_override c = None then available_memory0 else available_memory1)
     in bindE (mapE (\<lambda>(gs, mem). usable_memory gs mem) (zip projected available_memory)) (\<lambda>check_memory.
     bindE (if original_max_model_len c = - 1 then auto_fit_max_model_len c projected check_memory else Inr c) (\<lambda>c'.
     bindE (foldE (\<lambda>(gs, mem) _. if gs = [] then Inr () else check_enough_kv_cache_memory c' gs mem) (zip projected check_memory) ()) (\<lambda>_.
     bindE (mapE (\<lambda>(gs, spec, mem).
         bindE (py_assert (sum_list (map (length \<circ> layer_names) gs) = length spec)) (\<lambda>_.
         get_kv_cache_config_from_groups c' gs mem)) (zip projected (zip specs available_memory))) (\<lambda>configs.
     bindE (py_min (map num_blocks configs)) (\<lambda>min_num_blocks.
     bindE (mapE (shrink_config c' min_num_blocks) configs) (\<lambda>shrunk. Inr (c', shrunk))))))))"

definition get_kv_cache_configs :: "vllm_config \<Rightarrow> layer_spec odict list \<Rightarrow> int list \<Rightarrow> (vllm_config \<times> cache_config list) res" where
  "get_kv_cache_configs c specs available_memory =
     bindE (merge_worker_specs specs) (\<lambda>d.
     bindE (check_kv_cache_spec_registry d) (\<lambda>_.
     bindE (mapE (\<lambda>(name, s). bindE (retain_tokens (extra_retained_tokens c) s) (\<lambda>s'. Inr (name, s'))) d) (\<lambda>d'.
     bindE (get_kv_cache_groups c d') (\<lambda>groups.
     bindE (mapE (project_kv_cache_groups_to_worker groups) specs) (\<lambda>projected.
     plan_workers c projected specs available_memory)))))"

definition scheduler_group :: "cache_group \<Rightarrow> cache_group res" where
  "scheduler_group g = (case kv_cache_spec g of
     LayerSpec s \<Rightarrow> Inr g
   | UniformTypeKVCacheSpecs bs [] \<Rightarrow> Inl StopIteration
   | UniformTypeKVCacheSpecs bs ((_, s) # _) \<Rightarrow> Inr (g\<lparr>kv_cache_spec := LayerSpec s\<rparr>))"

definition generate_scheduler_kv_cache_config :: "cache_config list \<Rightarrow> cache_config res" where
  "generate_scheduler_kv_cache_config configs = (case configs of
     [] \<Rightarrow> Inl IndexError
   | cfg # _ \<Rightarrow>
       bindE (py_assert (list_all (\<lambda>c. num_blocks c = num_blocks cfg) configs)) (\<lambda>_.
       bindE (mapE scheduler_group (kv_cache_groups cfg)) (\<lambda>gs. Inr (cfg\<lparr>kv_cache_groups := gs\<rparr>))))"

end
