(* ===== verification/KV_Layout.thy ===== *)
theory KV_Layout
  imports KV_Sizing
begin

text \<open>
  The views a worker makes of its allocation (\<^verbatim>\<open>allocate_kv_cache\<close> of \<^verbatim>\<open>vllm/v1/worker/utils.py\<close> and
  \<^verbatim>\<open>create_kv_cache_views\<close> of \<^verbatim>\<open>vllm/v1/kv_cache_interface.py\<close>), and their soundness: every cell of
  every layer lies inside the allocation, and two cells of one group never share a byte.  A view is
  known by its offset, shape and strides in bytes, before it is reinterpreted in the data type of the
  layer; kernel blocks smaller than a manager block are not modelled.
\<close>

section \<open>Views\<close>

record kv_view =
  view_offset :: int
  view_shape :: "int list"
  view_strides :: "int list"

definition create_kv_cache_views :: "layer_spec \<Rightarrow> int \<Rightarrow> kv_cache_layout \<Rightarrow> cache_tensor \<Rightarrow> kv_view list res" where
  "create_kv_cache_views s nb layout t =
     bindE (divE (layer_block_size s) (layer_shape s nb)) (\<lambda>shape.
     bindE (divE nb (nb div nb)) (\<lambda>ratio.
     bindE (compute_layout_strides s nb (int (length (tensor_layers t))) layout
        [Some (layer_stride t), Some (block_stride t), None, None, None]) (\<lambda>strides.
     Inr (map (\<lambda>l. \<lparr>view_offset = tensor_offset t + int l * strides ! 0, view_shape = shape, view_strides = tl strides\<rparr>)
        [0..<length (tensor_layers t)]))))"

text \<open>
  The size of the backing buffer (on ROCm it is rounded up to pages of 4096 bytes) and the entries of
  the dict from layer names to views, in the order they are assigned.  The warm-up of the GEMM
  workspaces that precedes the allocation on ROCm is left out.
\<close>

definition backing_size :: "bool \<Rightarrow> int \<Rightarrow> int" where
  "backing_size is_rocm raw_size = (if is_rocm then (raw_size + 4096 - 1) div 4096 * 4096 else raw_size)"

definition allocate_kv_cache :: "bool \<Rightarrow> cache_config \<Rightarrow> kv_cache_layout \<Rightarrow> (int \<times> kv_view odict) res" where
  "allocate_kv_cache is_rocm cfg layout =
     (if kv_cache_tensors cfg = [] then Inr (0, [])
      else let sizes = remdups (map tensor_size (kv_cache_tensors cfg)) in
        bindE (py_assert (length sizes = 1)) (\<lambda>_.
        bindE (mapE (\<lambda>t. case tensor_layers t of
            [] \<Rightarrow> Inl IndexError
          | name # _ \<Rightarrow> (case find (\<lambda>g. name \<in> set (layer_names g)) (kv_cache_groups cfg) of
              None \<Rightarrow> Inl StopIteration
            | Some g \<Rightarrow> bindE (get_per_layer_spec g name) (\<lambda>s.
                bindE (create_kv_cache_views s (num_blocks cfg) layout t) (\<lambda>vs. Inr (zip (tensor_layers t) vs)))))
          (kv_cache_tensors cfg)) (\<lambda>vss. Inr (backing_size is_rocm (hd sizes), concat vss))))"

lemma backing_size_bounds:
  "raw \<le> backing_size is_rocm raw" "backing_size is_rocm raw \<le> raw + (if is_rocm then 4095 else 0)"
  by (auto simp: backing_size_def minus_mod_eq_div_mult [symmetric])

text \<open>The byte of cell \<open>(b, h, n, x)\<close> of a view, and the cells a view has.\<close>

type_synonym cell = "int \<times> int \<times> int \<times> int"

definition cell_address :: "kv_view \<Rightarrow> cell \<Rightarrow> int" where
  "cell_address v i = (case i of (b, h, n, x) \<Rightarrow>
     view_offset v + b * view_strides v ! 0 + h * view_strides v ! 1 + n * view_strides v ! 2 + x * view_strides v ! 3)"

definition in_view :: "kv_view \<Rightarrow> cell \<Rightarrow> bool" where
  "in_view v i = (case i of (b, h, n, x) \<Rightarrow>
     0 \<le> b \<and> b < view_shape v ! 0 \<and> 0 \<le> h \<and> h < view_shape v ! 1 \<and>
     0 \<le> n \<and> n < view_shape v ! 2 \<and> 0 \<le> x \<and> x < view_shape v ! 3)"

section \<open>Mixed radix\<close>

lemma radix_bound:
  fixes i x m :: int
  assumes "0 \<le> i" "i < n" "0 \<le> x" "x < m"
  shows "0 \<le> i * m + x" "i * m + x < n * m"
proof -
  have "i * m + x < (i + 1) * m" using assms by (simp add: algebra_simps)
  also have "\<dots> \<le> n * m" using assms by (intro mult_right_mono) auto
  finally show "i * m + x < n * m" .
qed (use assms in simp)

lemma radix_eq:
  fixes i x m :: int
  assumes "0 \<le> x" "x < m" "0 \<le> y" "y < m"
  shows "i * m + x = j * m + y \<longleftrightarrow> i = j \<and> x = y"
proof
  assume eq: "i * m + x = j * m + y"
  have "(i * m + x) div m = i" "(j * m + y) div m = j" using assms by simp_all
  with eq have "i = j" by simp
  with eq show "i = j \<and> x = y" by simp
qed auto

lemma radix3_bound:
  fixes i j x :: int
  assumes "0 \<le> i" "i < k" "0 \<le> j" "j < n" "0 \<le> x" "x < m"
  shows "0 \<le> (i * n + j) * m + x" "(i * n + j) * m + x < k * n * m"
  using radix_bound [OF radix_bound(1,2) [OF assms(1-4)] assms(5,6)] by simp_all

lemma radix3_eq:
  fixes i j x :: int
  assumes "0 \<le> j" "j < n" "0 \<le> x" "x < m" "0 \<le> j'" "j' < n" "0 \<le> x'" "x' < m"
  shows "(i * n + j) * m + x = (i' * n + j') * m + x' \<longleftrightarrow> i = i' \<and> j = j' \<and> x = x'"
  using radix_eq [OF assms(3,4,7,8), of "i * n + j" "i' * n + j'"] radix_eq [OF assms(1,2,5,6), of i i'] by auto

section \<open>The strides of each layout\<close>

text \<open>The extents of a spec and the size of its page.\<close>

definition extents :: "layer_spec \<Rightarrow> int \<times> int \<times> int" where
  "extents s = (let shape = layer_shape s 1 in (shape ! 1, shape ! 2, shape ! 3))"

definition layer_page :: "layer_spec \<Rightarrow> int" where
  "layer_page s = (case extents s of (H, N, C) \<Rightarrow> (case layer_page_size_padded s of None \<Rightarrow> H * N * C | Some p \<Rightarrow> p))"

text \<open>
  Specs whose page is a grid of positive extents.  The state of a Mamba layer is one opaque cell
  row: its head count and its tokens per state keep their defaults.
\<close>

definition spec_wf :: "layer_spec \<Rightarrow> bool" where
  "spec_wf s = (case extents s of (H, N, C) \<Rightarrow>
     0 < H \<and> 0 < N \<and> 0 < C \<and> 0 < layer_block_size s \<and> H * N * C \<le> layer_page s \<and>
     (case s of MambaSpec m \<Rightarrow> mamba_num_heads m = 1 \<and> mamba_tokens_per_state m \<le> 0 | Attn a k \<Rightarrow> True))"

lemma layer_shape_extents: "extents s = (H, N, C) \<Longrightarrow> layer_shape s nb = [nb, H, N, C]"
  by (cases s) (auto simp: extents_def)

lemma page_size_spec_wf:
  assumes "spec_wf s"
  shows "page_size_bytes s = Inr (layer_page s)" "0 < layer_page s"
proof -
  obtain H N C where e: "extents s = (H, N, C)" by (cases "extents s") auto
  have pos: "0 < H * N * C" "H * N * C \<le> layer_page s" using assms e by (simp_all add: spec_wf_def)
  then show "0 < layer_page s" by simp
  show "page_size_bytes s = Inr (layer_page s)"
    using assms e by (cases s) (auto simp: spec_wf_def extents_def layer_page_def padded_size_def unpadded_page_size_bytes_def
      split: option.splits)
qed

text \<open>The bytes between two rows of states in the layouts that split a page by its heads.\<close>

definition row_page :: "layer_spec \<Rightarrow> int" where
  "row_page s = (case extents s of (H, N, C) \<Rightarrow> (case layer_page_size_padded s of None \<Rightarrow> N * C | Some p \<Rightarrow> p))"

definition or_stride :: "int option \<Rightarrow> int \<Rightarrow> int" where
  "or_stride f s = (case f of None \<Rightarrow> s | Some x \<Rightarrow> x)"

definition layout_strides :: "kv_cache_layout \<Rightarrow> layer_spec \<Rightarrow> int \<Rightarrow> int \<Rightarrow> int option \<Rightarrow> int option \<Rightarrow> int list" where
  "layout_strides layout s nb nl fl fb = (case extents s of (H, N, C) \<Rightarrow>
     let page = layer_page s; q = row_page s
     in case layout of
       LBHNC \<Rightarrow> [or_stride fl (or_stride fb page * nb), or_stride fb page, N * C, C, 1]
     | LBNHC \<Rightarrow> [or_stride fl (or_stride fb page * nb), or_stride fb page, C, C * H, 1]
     | BLHNC \<Rightarrow> [or_stride fl page, or_stride fb (or_stride fl page * nl), N * C, C, 1]
     | BLNHC \<Rightarrow> [or_stride fl page, or_stride fb (or_stride fl page * nl), C, C * H, 1]
     | LHBNC \<Rightarrow> [or_stride fl (or_stride fb q * nb * H), or_stride fb q, or_stride fb q * nb, C, 1]
     | BHLNC \<Rightarrow> [or_stride fl q, or_stride fb (or_stride fl q * nl * H), or_stride fl q * nl, C, 1])"

text \<open>Layouts whose page is one contiguous run need nothing of a padded page; the others need one head.\<close>

definition layout_fits :: "kv_cache_layout \<Rightarrow> layer_spec \<Rightarrow> bool" where
  "layout_fits layout s \<longleftrightarrow> is_block_compact layout \<or> layer_page_size_padded s = None \<or> fst (extents s) = 1"

lemma layout_simps [simp]:
  "is_block_compact LBHNC" "is_block_compact LBNHC" "is_block_compact BLHNC" "is_block_compact BLNHC"
  "\<not> is_block_compact LHBNC" "\<not> is_block_compact BHLNC"
  "is_layer_compact LBHNC" "is_layer_compact LBNHC" "is_layer_compact LHBNC"
  "\<not> is_layer_compact BLHNC" "\<not> is_layer_compact BLNHC" "\<not> is_layer_compact BHLNC"
  "is_block_outermost BLHNC" "is_block_outermost BLNHC" "is_block_outermost BHLNC"
  "\<not> is_block_outermost LBHNC" "\<not> is_block_outermost LBNHC" "\<not> is_block_outermost LHBNC"
  by (simp_all add: is_block_compact_def is_layer_compact_def is_block_outermost_def stride_order_def numeral_2_eq_2 doubleton_eq_iff)

lemma compute_layout_strides_eq:
  assumes "spec_wf s" "0 < nb" "0 < nl" "\<And>x. fl = Some x \<Longrightarrow> 0 < x" "\<And>x. fb = Some x \<Longrightarrow> 0 < x"
  shows "compute_layout_strides s nb nl layout [fl, fb, None, None, None] =
    (if layout_fits layout s then Inr (layout_strides layout s nb nl fl fb) else Inl AssertionError)"
proof -
  obtain H N C where e: "extents s = (H, N, C)" by (cases "extents s") auto
  have pos: "0 < H" "0 < N" "0 < C" "H * N * C \<le> layer_page s" "layer_block_size s \<noteq> 0"
    using assms(1) e by (auto simp: spec_wf_def)
  have or_fl: "(case fl of None \<Rightarrow> z | Some f \<Rightarrow> if f = 0 then z else f) = or_stride fl z" for z
    using assms(4) by (cases fl) (auto simp: or_stride_def)
  have or_fb: "(case fb of None \<Rightarrow> z | Some f \<Rightarrow> if f = 0 then z else f) = or_stride fb z" for z
    using assms(5) by (cases fb) (auto simp: or_stride_def)
  have ok: "case fl of None \<Rightarrow> True | Some x \<Rightarrow> 0 < x" "case fb of None \<Rightarrow> True | Some x \<Rightarrow> 0 < x"
    using assms(4,5) by (simp_all split: option.splits)
  note shape = layer_shape_extents [OF e, of nb]
  note eval = compute_layout_strides_def shape stride_step_def page_grid_end_def stride_order_def ok or_fl or_fb
    layout_strides_def layout_fits_def e layer_page_def row_page_def divE_def pos(5)
  show ?thesis
  proof (cases "layer_page_size_padded s")
    case None
    then show ?thesis
      by (cases layout) (simp_all add: eval numeral_nat Let_def mult.commute mult.left_commute)
  next
    case (Some p)
    have p: "H * N * C \<le> p" "0 < p" using pos Some e by (auto simp: layer_page_def intro: order.strict_trans2 [of 0 "H * N * C"])
    have "N * C \<le> H * (N * C)" using pos(1-3) mult_right_mono [of 1 H "N * C"] by simp
    then have "C * N \<le> p" using p(1) by (simp add: mult.commute mult.left_commute)
    then show ?thesis using p Some assms(2,3) pos(1-3)
      by (cases layout) (simp_all add: eval numeral_nat Let_def max_def mult.commute mult.left_commute)
  qed
qed


section \<open>Addresses within the region of a spec\<close>

text \<open>
  A cell of layer \<open>l\<close> as a number in mixed radix: the position of its byte in the region that the
  layers of one spec occupy.  In the block-outermost layouts the region repeats in every block.
\<close>

definition inner :: "kv_cache_layout \<Rightarrow> layer_spec \<Rightarrow> int \<Rightarrow> int \<Rightarrow> int \<Rightarrow> cell \<Rightarrow> int" where
  "inner layout s nb nl l i = (case (extents s, i) of ((H, N, C), (b, h, n, x)) \<Rightarrow>
     let page = layer_page s; q = row_page s
     in case layout of
       LBHNC \<Rightarrow> (l * nb + b) * page + ((h * N + n) * C + x)
     | LBNHC \<Rightarrow> (l * nb + b) * page + ((n * H + h) * C + x)
     | LHBNC \<Rightarrow> ((l * H + h) * nb + b) * q + (n * C + x)
     | BLHNC \<Rightarrow> l * page + ((h * N + n) * C + x)
     | BLNHC \<Rightarrow> l * page + ((n * H + h) * C + x)
     | BHLNC \<Rightarrow> (h * nl + l) * q + (n * C + x))"

definition region_scale :: "kv_cache_layout \<Rightarrow> int \<Rightarrow> int" where
  "region_scale layout nb = (if is_block_outermost layout then 1 else nb)"

definition cell_of :: "layer_spec \<Rightarrow> int \<Rightarrow> cell \<Rightarrow> bool" where
  "cell_of s nb i = (case (extents s, i) of ((H, N, C), (b, h, n, x)) \<Rightarrow>
     0 \<le> b \<and> b < nb \<and> 0 \<le> h \<and> h < H \<and> 0 \<le> n \<and> n < N \<and> 0 \<le> x \<and> x < C)"

lemma page_rows:
  assumes "spec_wf s" "layout_fits layout s" "\<not> is_block_compact layout" "extents s = (H, N, C)"
  shows "row_page s * H = layer_page s" "N * C \<le> row_page s" "row_page s \<le> layer_page s"
proof -
  have pos: "0 < H" "0 < N" "0 < C" "H * N * C \<le> layer_page s" using assms(1,4) by (auto simp: spec_wf_def)
  show "row_page s * H = layer_page s"
    using assms(2-4) by (auto simp: layout_fits_def row_page_def layer_page_def split: option.splits)
  show nc: "N * C \<le> row_page s"
    using assms(2-4) pos by (auto simp: layout_fits_def row_page_def layer_page_def split: option.splits)
  have "0 < N * C" using pos by simp
  with nc have "0 < row_page s" by simp
  with \<open>row_page s * H = layer_page s\<close> pos(1) show "row_page s \<le> layer_page s"
    using mult_left_mono [of 1 H "row_page s"] by simp
qed

lemma inner_bound:
  assumes "spec_wf s" "layout_fits layout s" "cell_of s nb i" "0 \<le> l" "l < nl"
  shows "0 \<le> inner layout s nb nl l i" "inner layout s nb nl l i < nl * layer_page s * region_scale layout nb"
proof -
  obtain H N C b h n x where e: "extents s = (H, N, C)" "i = (b, h, n, x)" by (cases "extents s"; cases i) auto
  have c: "0 \<le> b" "b < nb" "0 \<le> h" "h < H" "0 \<le> n" "n < N" "0 \<le> x" "x < C" using assms(3) e by (simp_all add: cell_of_def)
  have page: "H * N * C \<le> layer_page s" using assms(1) e by (simp add: spec_wf_def)
  note hn = radix3_bound [OF c(3-8)] and nh = radix3_bound [OF c(5,6,3,4,7,8)] and nx = radix_bound [OF c(5-8)]
  have nh': "(n * H + h) * C + x < layer_page s" using nh(2) page by (simp add: mult.commute mult.left_commute)
  have hn': "(h * N + n) * C + x < layer_page s" using hn(2) page by simp
  have lq: "n * C + x < row_page s" if "\<not> is_block_compact layout"
    using nx(2) page_rows(2) [OF assms(1,2) that e(1)] by simp
  note defs = inner_def e region_scale_def Let_def
  have "0 \<le> inner layout s nb nl l i \<and> inner layout s nb nl l i < nl * layer_page s * region_scale layout nb"
  proof (cases layout)
    case LBHNC
    then show ?thesis using radix3_bound [OF assms(4,5) c(1,2) hn(1) hn'] by (simp add: defs mult.commute mult.left_commute)
  next
    case LBNHC
    then show ?thesis using radix3_bound [OF assms(4,5) c(1,2) nh(1) nh'] by (simp add: defs mult.commute mult.left_commute)
  next
    case LHBNC
    note lh = radix_bound [OF assms(4,5) c(3,4)]
    have "layer_page s = row_page s * H" using page_rows(1) [OF assms(1,2) _ e(1)] LHBNC by simp
    then have eq: "nl * layer_page s * nb = nl * H * nb * row_page s" by simp
    show ?thesis using LHBNC radix3_bound [OF lh c(1,2) nx(1) lq] by (simp add: defs eq)
  next
    case BLHNC
    then show ?thesis using radix_bound [OF assms(4,5) hn(1) hn'] by (simp add: defs)
  next
    case BLNHC
    then show ?thesis using radix_bound [OF assms(4,5) nh(1) nh'] by (simp add: defs)
  next
    case BHLNC
    have "layer_page s = row_page s * H" using page_rows(1) [OF assms(1,2) _ e(1)] BHLNC by simp
    then have eq: "nl * layer_page s = H * nl * row_page s" by simp
    show ?thesis using BHLNC radix3_bound [OF c(3,4) assms(4,5) nx(1) lq] by (simp add: defs eq)
  qed
  then show "0 \<le> inner layout s nb nl l i" "inner layout s nb nl l i < nl * layer_page s * region_scale layout nb" by simp_all
qed


lemma inner_inj:
  assumes "spec_wf s" "layout_fits layout s" "cell_of s nb i" "cell_of s nb i'" "0 \<le> l" "l < nl" "0 \<le> l'" "l' < nl"
    and "inner layout s nb nl l i = inner layout s nb nl l' i'" "is_block_outermost layout \<Longrightarrow> fst i = fst i'"
  shows "l = l' \<and> i = i'"
proof -
  obtain H N C b h n x where e: "extents s = (H, N, C)" "i = (b, h, n, x)" by (cases "extents s"; cases i) auto
  obtain b' h' n' x' where e': "i' = (b', h', n', x')" by (cases i')
  have c: "0 \<le> b" "b < nb" "0 \<le> h" "h < H" "0 \<le> n" "n < N" "0 \<le> x" "x < C" using assms(3) e by (simp_all add: cell_of_def)
  have c': "0 \<le> b'" "b' < nb" "0 \<le> h'" "h' < H" "0 \<le> n'" "n' < N" "0 \<le> x'" "x' < C"
    using assms(4) e e' by (simp_all add: cell_of_def)
  have page: "H * N * C \<le> layer_page s" using assms(1) e by (simp add: spec_wf_def)
  then have page': "N * H * C \<le> layer_page s" by (simp add: mult.commute mult.left_commute)
  have hn: "0 \<le> (h * N + n) * C + x" "(h * N + n) * C + x < layer_page s" "0 \<le> (h' * N + n') * C + x'" "(h' * N + n') * C + x' < layer_page s"
    using radix3_bound [OF c(3-8)] radix3_bound [OF c'(3-8)] page by simp_all
  have nh: "0 \<le> (n * H + h) * C + x" "(n * H + h) * C + x < layer_page s" "0 \<le> (n' * H + h') * C + x'" "(n' * H + h') * C + x' < layer_page s"
    using radix3_bound [OF c(5,6,3,4,7,8)] radix3_bound [OF c'(5,6,3,4,7,8)] page' by simp_all
  note hn_eq = radix3_eq [OF c(5-8) c'(5-8), of h h'] and nh_eq = radix3_eq [OF c(3,4,7,8) c'(3,4,7,8), of n n']
  have nx: "0 \<le> n * C + x" "n * C + x < row_page s" "0 \<le> n' * C + x'" "n' * C + x' < row_page s" if "\<not> is_block_compact layout"
    using radix_bound [OF c(5-8)] radix_bound [OF c'(5-8)] page_rows(2) [OF assms(1,2) that e(1)] by simp_all
  note nx_eq = radix_eq [OF c(7,8) c'(7,8), of n n']
  note eq = assms(9) [unfolded inner_def e e' Let_def, simplified]
  show ?thesis
  proof (cases layout)
    case LBHNC
    then show ?thesis using eq radix3_eq [OF c(1,2) hn(1,2) c'(1,2) hn(3,4), of l l'] hn_eq by (simp add: e e')
  next
    case LBNHC
    then show ?thesis using eq radix3_eq [OF c(1,2) nh(1,2) c'(1,2) nh(3,4), of l l'] nh_eq by (simp add: e e')
  next
    case LHBNC
    then show ?thesis using eq radix3_eq [OF c(1,2) nx(1,2) c'(1,2) nx(3,4), of "l * H + h" "l' * H + h'"]
        radix_eq [OF c(3,4) c'(3,4), of l l'] nx_eq by (simp add: e e')
  next
    case BLHNC
    then show ?thesis using eq radix_eq [OF hn, of l l'] hn_eq assms(10) by (simp add: e e')
  next
    case BLNHC
    then show ?thesis using eq radix_eq [OF nh, of l l'] nh_eq assms(10) by (simp add: e e')
  next
    case BHLNC
    then show ?thesis using eq radix3_eq [OF assms(5,6) nx(1,2) assms(7,8) nx(3,4), of h h'] nx_eq assms(10) by (simp add: e e')
  qed
qed

text \<open>The address a view computes, with the strides of the configuration and of the view.\<close>

lemma strided_address:
  assumes "spec_wf s" "layout_fits layout s" "extents s = (H, N, C)"
    and "cs = layout_strides layout s nb nl None (if is_block_outermost layout then Some stride else None)"
    and "vs = layout_strides layout s nb nl (Some (cs ! 0)) (Some (cs ! 1))"
  shows "l * vs ! 0 + b * vs ! 1 + h * vs ! 2 + n * vs ! 3 + x * vs ! 4
    = inner layout s nb nl l (b, h, n, x) + (if is_block_outermost layout then b * stride else 0)"
  using assms page_rows(1) [OF assms(1,2) _ assms(3)]
  by (cases layout) (simp_all add: layout_strides_def inner_def Let_def or_stride_def numeral_nat algebra_simps)

lemma region_offset:
  assumes "spec_wf s" "layout_fits layout s" "0 < nb"
    and "cs = layout_strides layout s nb nl None (if is_block_outermost layout then Some stride else None)"
  shows "off * max (cs ! 0) (layer_page s) div layer_page s = off * region_scale layout nb"
proof -
  obtain H N C where e: "extents s = (H, N, C)" by (cases "extents s") auto
  have page: "0 < layer_page s" by (rule page_size_spec_wf [OF assms(1)])
  have rows: "row_page s * nb * H = layer_page s * nb" "row_page s \<le> layer_page s" if "\<not> is_block_compact layout"
    using page_rows(1,3) [OF assms(1,2) that e] by (simp_all flip: page_rows(1) [OF assms(1,2) that e])
  have le: "layer_page s \<le> layer_page s * nb" using page assms(3) by simp
  have "max (cs ! 0) (layer_page s) = layer_page s * region_scale layout nb"
    using rows(2) le assms(4) by (cases layout) (simp_all add: rows(1) layout_strides_def e Let_def or_stride_def region_scale_def max_absorb1 max_absorb2)
  then show ?thesis using page by (simp add: mult.left_commute)
qed

section \<open>The tensors of a group\<close>

text \<open>The bytes that the layers of one spec take in a block.\<close>

definition region_bytes :: "layer_spec \<times> string list \<Rightarrow> int" where
  "region_bytes x = int (length (snd x)) * layer_page (fst x)"

text \<open>The specs of a group with the byte offsets of their regions within a block.\<close>

fun place_offsets :: "int \<Rightarrow> (layer_spec \<times> string list) list \<Rightarrow> (layer_spec \<times> string list \<times> int) list" where
  "place_offsets off [] = []"
| "place_offsets off ((s, names) # xs) = (s, names, off) # place_offsets (off + region_bytes (s, names)) xs"

definition config_strides :: "kv_cache_layout \<Rightarrow> int \<Rightarrow> int \<Rightarrow> layer_spec \<Rightarrow> nat \<Rightarrow> int list" where
  "config_strides layout stride nb s n =
     layout_strides layout s nb (int n) None (if is_block_outermost layout then Some stride else None)"

definition tensor_for :: "kv_cache_layout \<Rightarrow> int \<Rightarrow> int \<Rightarrow> layer_spec \<times> string list \<times> int \<Rightarrow> cache_tensor" where
  "tensor_for layout stride nb x = (case x of (s, names, off) \<Rightarrow>
     \<lparr>tensor_size = stride * nb, tensor_layers = names, layer_stride = config_strides layout stride nb s (length names) ! 0,
      block_stride = config_strides layout stride nb s (length names) ! 1, tensor_offset = off * region_scale layout nb\<rparr>)"

lemma place_spec_eq:
  assumes "spec_wf s" "names \<noteq> []" "0 < nb" "0 < stride"
  shows "place_spec layout (if is_block_outermost layout then Some stride else None) nb (stride * nb) (s, names) (ts, off) =
    (if layout_fits layout s
     then Inr (ts @ [tensor_for layout stride nb (s, names, off)], off + region_bytes (s, names)) else Inl AssertionError)"
proof -
  have nl: "0 < int (length names)" using assms(2) by simp
  have strides: "compute_layout_strides s nb (int (length names)) layout [None, if is_block_outermost layout then Some stride else None, None, None, None]
      = (if layout_fits layout s then Inr (config_strides layout stride nb s (length names)) else Inl AssertionError)"
    unfolding config_strides_def by (rule compute_layout_strides_eq) (use assms nl in \<open>auto split: if_splits\<close>)
  show ?thesis
    using page_size_spec_wf [OF assms(1)] region_offset [OF assms(1) _ assms(3) config_strides_def, of layout off stride "length names"]
    by (simp add: place_spec_def strides divE_def tensor_for_def region_bytes_def)
qed

lemma place_specs_eq:
  assumes "0 < nb" "0 < stride" "\<And>s names. (s, names) \<in> set xs \<Longrightarrow> spec_wf s \<and> names \<noteq> []"
  shows "foldE (place_spec layout (if is_block_outermost layout then Some stride else None) nb (stride * nb)) xs (ts, off) =
    (if list_all (layout_fits layout \<circ> fst) xs
     then Inr (ts @ map (tensor_for layout stride nb) (place_offsets off xs), off + sum_list (map region_bytes xs))
     else Inl AssertionError)"
  using assms(3)
proof (induction xs arbitrary: ts off)
  case (Cons x xs)
  obtain s names where x: "x = (s, names)" by (cases x)
  have "spec_wf s" "names \<noteq> []" using Cons.prems [of s names] by (simp_all add: x)
  note step = place_spec_eq [OF this assms(1,2)]
  have "spec_wf t \<and> ns \<noteq> []" if "(t, ns) \<in> set xs" for t ns using Cons.prems [of t ns] that by simp
  note IH = Cons.IH [OF this]
  show ?case by (simp add: x step IH)
qed simp

lemma place_offsets_bounds:
  assumes "\<And>s names. (s, names) \<in> set xs \<Longrightarrow> 0 < layer_page s"
  shows "(\<forall>(s, names, o') \<in> set (place_offsets off xs). off \<le> o' \<and> o' + region_bytes (s, names) \<le> off + sum_list (map region_bytes xs))
    \<and> sorted_wrt (\<lambda>(s, names, o1) (s', names', o2). o1 + region_bytes (s, names) \<le> o2) (place_offsets off xs)"
  using assms
proof (induction xs arbitrary: off)
  case (Cons x xs)
  obtain s names where x: "x = (s, names)" by (cases x)
  have pos: "0 < layer_page t" if "(t, ns) \<in> set xs" for t ns using Cons.prems [of t ns] that by simp
  have "0 < layer_page s" using Cons.prems [of s names] by (simp add: x)
  then have here: "0 \<le> region_bytes (s, names)" by (simp add: region_bytes_def)
  have rest: "0 \<le> sum_list (map region_bytes xs)"
    by (rule sum_list_nonneg) (auto simp: region_bytes_def zero_le_mult_iff dest!: pos)
  show ?case using Cons.IH [of "off + region_bytes (s, names)", OF pos] here rest by (fastforce simp: x)
qed simp

section \<open>The views of a group\<close>

definition view_for :: "kv_cache_layout \<Rightarrow> int \<Rightarrow> int \<Rightarrow> layer_spec \<times> string list \<times> int \<Rightarrow> nat \<Rightarrow> kv_view" where
  "view_for layout stride nb x l = (case x of (s, names, off) \<Rightarrow>
     let cs = config_strides layout stride nb s (length names);
         vs = layout_strides layout s nb (int (length names)) (Some (cs ! 0)) (Some (cs ! 1))
     in \<lparr>view_offset = off * region_scale layout nb + int l * vs ! 0, view_shape = layer_shape s nb, view_strides = tl vs\<rparr>)"

lemma config_strides_pos:
  assumes "spec_wf s" "layout_fits layout s" "0 < nb" "0 < stride" "0 < n"
  shows "0 < config_strides layout stride nb s n ! 0" "0 < config_strides layout stride nb s n ! 1"
proof -
  obtain H N C where e: "extents s = (H, N, C)" by (cases "extents s") auto
  have pos: "0 < H" "0 < N" "0 < C" "0 < layer_page s" using assms(1) e page_size_spec_wf [OF assms(1)] by (auto simp: spec_wf_def)
  have "0 < row_page s" if "\<not> is_block_compact layout"
  proof -
    have "0 < N * C" using pos by simp
    with page_rows(2) [OF assms(1,2) that e] show ?thesis by simp
  qed
  then show "0 < config_strides layout stride nb s n ! 0" "0 < config_strides layout stride nb s n ! 1"
    using pos assms(3-5) by (cases layout; simp add: config_strides_def layout_strides_def e or_stride_def Let_def)+
qed

lemma create_views_eq:
  assumes "spec_wf s" "layout_fits layout s" "0 < nb" "0 < stride" "names \<noteq> []"
  shows "create_kv_cache_views s nb layout (tensor_for layout stride nb (s, names, off))
    = Inr (map (view_for layout stride nb (s, names, off)) [0..<length names])"
proof -
  have n: "0 < length names" using assms(5) by simp
  have "layer_block_size s \<noteq> 0" using assms(1) by (auto simp: spec_wf_def)
  with compute_layout_strides_eq [OF assms(1,3), of "int (length names)" "Some _" "Some _" layout]
    config_strides_pos [OF assms(1-4) n] n assms(2,3) show ?thesis
    by (simp add: create_kv_cache_views_def tensor_for_def divE_def view_for_def Let_def)
qed

lemma in_view_for: "in_view (view_for layout stride nb (s, names, off) l) i = cell_of s nb i"
  by (cases "extents s"; cases i) (simp add: in_view_def view_for_def Let_def cell_of_def layer_shape_extents)

lemma address_view_for:
  assumes "spec_wf s" "layout_fits layout s"
  shows "cell_address (view_for layout stride nb (s, names, off) l) i
    = (if is_block_outermost layout then fst i * stride else 0) + (off * region_scale layout nb + inner layout s nb (int (length names)) (int l) i)"
proof -
  obtain H N C where e: "extents s = (H, N, C)" by (cases "extents s") auto
  obtain b h n x where i: "i = (b, h, n, x)" by (cases i)
  define cs where "cs = config_strides layout stride nb s (length names)"
  define vs where "vs = layout_strides layout s nb (int (length names)) (Some (cs ! 0)) (Some (cs ! 1))"
  have tl: "tl vs ! k = vs ! Suc k" if "k < 4" for k
    using that by (simp add: vs_def layout_strides_def e Let_def nth_tl split: kv_cache_layout.split)
  have v: "view_for layout stride nb (s, names, off) l
      = \<lparr>view_offset = off * region_scale layout nb + int l * vs ! 0, view_shape = layer_shape s nb, view_strides = tl vs\<rparr>"
    by (simp add: view_for_def Let_def vs_def cs_def)
  have "cell_address (view_for layout stride nb (s, names, off) l) i
      = off * region_scale layout nb + (int l * vs ! 0 + b * vs ! 1 + h * vs ! 2 + n * vs ! 3 + x * vs ! 4)"
    by (simp add: cell_address_def v i tl) (simp add: numeral_nat)
  also have "\<dots> = off * region_scale layout nb + (inner layout s nb (int (length names)) (int l) i + (if is_block_outermost layout then b * stride else 0))"
    using strided_address [OF assms e cs_def [unfolded config_strides_def] vs_def, of "int l" b h n x] by (simp add: i)
  finally show ?thesis by (simp add: i)
qed

text \<open>The bytes of a region: within its share of a block, or of all blocks.\<close>

lemma address_bounds:
  assumes "spec_wf s" "layout_fits layout s" "cell_of s nb i" "l < length names" "0 \<le> off" "off + region_bytes (s, names) \<le> stride"
  shows "0 \<le> cell_address (view_for layout stride nb (s, names, off) l) i"
    "cell_address (view_for layout stride nb (s, names, off) l) i < stride * nb"
proof -
  let ?u = "inner layout s nb (int (length names)) (int l) i" and ?sc = "region_scale layout nb"
  have u: "0 \<le> ?u" "?u < region_bytes (s, names) * ?sc"
    using inner_bound [OF assms(1-3), of "int l" "int (length names)"] assms(4) by (simp_all add: region_bytes_def)
  have b: "0 \<le> fst i" "fst i < nb" using assms(3) by (auto simp: cell_of_def split: prod.splits)
  have sc: "0 < ?sc" using b by (simp add: region_scale_def)
  have lo: "0 \<le> off * ?sc + ?u" using u assms(5) sc by simp
  have "off * ?sc + ?u < (off + region_bytes (s, names)) * ?sc" using u by (simp add: algebra_simps)
  also have "\<dots> \<le> stride * ?sc" using assms(6) sc by (intro mult_right_mono) simp_all
  finally have hi: "off * ?sc + ?u < stride * ?sc" .
  show "0 \<le> cell_address (view_for layout stride nb (s, names, off) l) i"
    "cell_address (view_for layout stride nb (s, names, off) l) i < stride * nb"
    using lo hi b radix_bound [OF b lo, of stride] unfolding address_view_for [OF assms(1,2)]
    by (auto simp: region_scale_def mult.commute split: if_splits)
qed

lemma sorted_wrt_two: "sorted_wrt P xs \<Longrightarrow> x \<in> set xs \<Longrightarrow> y \<in> set xs \<Longrightarrow> x \<noteq> y \<Longrightarrow> P x y \<or> P y x"
  by (metis (no_types, lifting) in_set_conv_nth linorder_neqE_nat sorted_wrt_iff_nth_less)

lemma place_offsets_mem: "(s, names, off) \<in> set (place_offsets k xs) \<Longrightarrow> (s, names) \<in> set xs"
  by (induction k xs rule: place_offsets.induct) auto

lemma regions_apart:
  fixes m :: int
  assumes "0 < m" "o1 + r \<le> o2" "0 \<le> u" "u < r * m" "0 \<le> v"
  shows "o1 * m + u \<noteq> o2 * m + v"
proof -
  have "(o1 + r) * m \<le> o2 * m" using assms(1,2) by (intro mult_right_mono) simp_all
  with assms show ?thesis by (simp add: algebra_simps)
qed

text \<open>Two cells in regions that lie side by side within a block have different addresses.\<close>

lemma address_inj:
  assumes wf: "\<And>s names. (s, names) \<in> set xs \<Longrightarrow> spec_wf s \<and> layout_fits layout s"
    and fit: "sum_list (map region_bytes xs) \<le> stride"
    and x: "(s, names, off) \<in> set (place_offsets 0 xs)" "l < length names" "cell_of s nb i"
    and y: "(s', names', off') \<in> set (place_offsets 0 xs)" "l' < length names'" "cell_of s' nb i'"
    and eq: "cell_address (view_for layout stride nb (s, names, off) l) i = cell_address (view_for layout stride nb (s', names', off') l') i'"
  shows "(s, names, off) = (s', names', off') \<and> l = l' \<and> i = i'"
proof -
  note sx = wf [OF place_offsets_mem [OF x(1)]] and sy = wf [OF place_offsets_mem [OF y(1)]]
  have pos: "0 < layer_page t" if "(t, ns) \<in> set xs" for t ns using wf [OF that] page_size_spec_wf(2) by blast
  have off: "\<forall>(s, names, o') \<in> set (place_offsets 0 xs). 0 \<le> o' \<and> o' + region_bytes (s, names) \<le> sum_list (map region_bytes xs)"
    and sorted: "sorted_wrt (\<lambda>(s, names, o1) (s', names', o2). o1 + region_bytes (s, names) \<le> o2) (place_offsets 0 xs)"
    using place_offsets_bounds [of xs 0] pos by simp_all
  have bx: "0 \<le> off" "off + region_bytes (s, names) \<le> stride" and by': "0 \<le> off'" "off' + region_bytes (s', names') \<le> stride"
    using off x(1) y(1) fit by fastforce+
  let ?sc = "region_scale layout nb"
  let ?u = "inner layout s nb (int (length names)) (int l) i" and ?v = "inner layout s' nb (int (length names')) (int l') i'"
  have u: "0 \<le> ?u" "?u < region_bytes (s, names) * ?sc" and v: "0 \<le> ?v" "?v < region_bytes (s', names') * ?sc"
    using inner_bound [OF _ _ x(3), of layout "int l" "int (length names)"] inner_bound [OF _ _ y(3), of layout "int l'" "int (length names')"]
      sx sy x(2) y(2) by (simp_all add: region_bytes_def)
  have "0 \<le> fst i" "fst i < nb" using x(3) by (auto simp: cell_of_def split: prod.splits)
  then have sc: "0 < ?sc" by (simp add: region_scale_def)
  have z: "off * ?sc + ?u = off' * ?sc + ?v \<and> (is_block_outermost layout \<longrightarrow> fst i = fst i')"
  proof (cases "is_block_outermost layout")
    case True
    then have "off + ?u < stride" "off' + ?v < stride" using u v bx by' by (simp_all add: region_scale_def)
    moreover have "fst i * stride + (off + ?u) = fst i' * stride + (off' + ?v)"
      using eq sx sy True by (simp add: address_view_for region_scale_def)
    ultimately show ?thesis using radix_eq [of "off + ?u" stride "off' + ?v" "fst i" "fst i'"] u v bx by' True
      by (simp add: region_scale_def)
  next
    case False
    then show ?thesis using eq sx sy by (simp add: address_view_for)
  qed
  have same: "(s, names, off) = (s', names', off')"
  proof (rule ccontr)
    assume "(s, names, off) \<noteq> (s', names', off')"
    from sorted_wrt_two [OF sorted x(1) y(1) this] have "off + region_bytes (s, names) \<le> off' \<or> off' + region_bytes (s', names') \<le> off"
      by simp
    then show False using regions_apart [OF sc _ u v(1)] regions_apart [OF sc _ v u(1)] z by fastforce
  qed
  with z have "?u = ?v" by simp
  with inner_inj [of s layout nb i i' "int l" "int (length names)" "int l'"] x y sx z same show ?thesis by auto
qed

end
