(* ===== verification/KV_Samples.thy ===== *)
theory KV_Samples
  imports KV_Sizing
begin

text \<open>
  Concrete specs and configurations on which the witnesses of the KV-cache configuration evaluate
  the model.
\<close>

definition sample_attn :: "int \<Rightarrow> int \<Rightarrow> attn" where
  "sample_attn bs heads = \<lparr>block_size = bs, num_kv_heads = heads, head_size = 2, dtype = TorchDtype ''int8'' 1, head_size_v = 2,
     kv_quant_mode = NONE, page_size_padded = None, num_head_slots = None, state_content_bytes = None, tokens_per_state = IntTps 1\<rparr>"

definition plain_full :: full_fields where
  "plain_full = \<lparr>sliding_window = None, attention_chunk_size = None, non_causal = False\<rparr>"

definition plain_mla :: mla_fields where
  "plain_mla = \<lparr>cache_dtype_str = None, alignment = None, model_version = None\<rparr>"

definition sample_full :: "int \<Rightarrow> int \<Rightarrow> layer_spec" where
  "sample_full bs heads = Attn (sample_attn bs heads) (FullAttentionSpec plain_full)"

definition sample_swa :: "int \<Rightarrow> int \<Rightarrow> int \<Rightarrow> layer_spec" where
  "sample_swa bs heads window = Attn (sample_attn bs heads) (SlidingWindowSpec window 0)"

definition sample_swmla :: "int \<Rightarrow> int \<Rightarrow> layer_spec" where
  "sample_swmla bs heads = Attn ((sample_attn bs heads)\<lparr>head_size_v := 0\<rparr>) (SlidingWindowMLASpec 8 0 plain_mla)"

definition sample_vllm :: "kv_cache_layout \<Rightarrow> vllm_config" where
  "sample_vllm layout = \<lparr>max_model_len = 16, original_max_model_len = 16, is_deepseek_v4 = False, decode_context_parallel_size = 1,
     max_in_flight_tokens = 4, max_num_encoder_input_tokens = 0, disable_hybrid_kv_cache_manager = False, cache_block_size = 4,
     cache_mamba_mode = ''none'', num_gpu_blocks_override = None, enable_prefix_caching = True, prefix_match_unit = None,
     retention_interval = None, kv_cache_layout = Some layout, has_kv_transfer = False, speculative_config = None\<rparr>"

text \<open>A model of one full-attention and one sliding-window layer per stage.\<close>

definition sample_model :: "layer_spec odict" where
  "sample_model = [(''full.0'', sample_full 4 1), (''swa.0'', sample_swa 4 1 6)]"

text \<open>The layers of a second pipeline stage.\<close>

definition sample_stage :: "layer_spec odict" where
  "sample_stage = [(''full.1'', sample_full 4 1), (''swa.1'', sample_swa 4 1 6)]"

end
