(* ===== verification/KV_Layout_Props.thy ===== *)
theory KV_Layout_Props
  imports KV_Layout KV_Samples
begin

text \<open>
  Soundness of the placement of layers: the configuration built from well-formed groups gives every
  layer exactly one view, inside the allocation, and the views of one group never overlap.
\<close>

lemma divE_Inr: "divE b x = Inr y \<longleftrightarrow> b \<noteq> 0 \<and> x = y"
  by (simp add: divE_def)

section \<open>Well-formed groups\<close>

definition group_wf :: "cache_group \<Rightarrow> bool" where
  "group_wf g \<longleftrightarrow> distinct (layer_names g) \<and> (case kv_cache_spec g of
     LayerSpec s \<Rightarrow> spec_wf s
   | UniformTypeKVCacheSpecs bs d \<Rightarrow> map fst d = layer_names g \<and> list_all (spec_wf \<circ> snd) d)"

definition groups_wf :: "cache_group list \<Rightarrow> bool" where
  "groups_wf groups \<longleftrightarrow> list_all group_wf groups \<and> distinct (concat (map layer_names groups))"

lemma layers_by_spec_wf:
  assumes "group_wf g" "(s, names) \<in> set (layers_by_spec g)"
  shows "spec_wf s" "names \<noteq> []" "name \<in> set names \<Longrightarrow> name \<in> set (layer_names g) \<and> get_per_layer_spec g name = Inr s"
proof -
  have "names \<noteq> [] \<and> (\<forall>name \<in> set names. spec_wf s \<and> name \<in> set (layer_names g) \<and> get_per_layer_spec g name = Inr s)"
  proof (cases "kv_cache_spec g")
    case (LayerSpec t)
    then show ?thesis using assms by (auto simp: layers_by_spec_def group_wf_def get_per_layer_spec_def split: if_splits)
  next
    case (UniformTypeKVCacheSpecs bs d)
    then have d: "map fst d = layer_names g" "distinct (map fst d)" "list_all (spec_wf \<circ> snd) d" using assms(1) by (auto simp: group_wf_def)
    have "spec_wf (id t) \<and> n \<in> set (layer_names g) \<and> get_per_layer_spec g n = Inr (id t)" if "(n, t) \<in> set d" for n t
    proof -
      have "n \<in> set (map fst d)" using that by force
      then show ?thesis using that d dict_get_distinct [OF d(2) that]
        by (auto simp: get_per_layer_spec_def UniformTypeKVCacheSpecs list_all_iff)
    qed
    moreover have "(s, names) \<in> set (dict_group id d [])"
      using assms(2) UniformTypeKVCacheSpecs by (simp add: layers_by_spec_def same_type_layers_group)
    ultimately show ?thesis by (intro dict_group_entries [of "[]" _ d id s names]) simp_all
  qed
  then show "spec_wf s" "names \<noteq> []" "name \<in> set names \<Longrightarrow> name \<in> set (layer_names g) \<and> get_per_layer_spec g name = Inr s"
    by (auto simp: neq_Nil_conv)
qed

lemma layers_by_spec_names:
  assumes "group_wf g"
  shows "mset (concat (map snd (layers_by_spec g))) = mset (layer_names g)"
proof (cases "kv_cache_spec g")
  case (LayerSpec s)
  then show ?thesis by (simp add: layers_by_spec_def)
next
  case (UniformTypeKVCacheSpecs bs d)
  then have "map fst d = layer_names g" using assms by (simp add: group_wf_def)
  then show ?thesis using dict_group_mset [of id d "[]"]
    by (simp add: layers_by_spec_def UniformTypeKVCacheSpecs same_type_layers_group del: mset_map)
qed

lemma layer_page_sizes_wf:
  assumes "group_wf g"
  shows "\<exists>ps. layer_page_sizes g = Inr ps \<and> sum_list ps = sum_list (map region_bytes (layers_by_spec g))"
proof (cases "kv_cache_spec g")
  case (LayerSpec s)
  then have "page_size_bytes s = Inr (layer_page s)" using assms page_size_spec_wf by (auto simp: group_wf_def)
  then have "layer_page_sizes g = Inr (map (\<lambda>_. layer_page s) (layer_names g))"
    unfolding layer_page_sizes_def by (intro mapE_map) (simp add: get_per_layer_spec_def LayerSpec)
  then show ?thesis by (simp add: layers_by_spec_def LayerSpec region_bytes_def sum_list_triv)
next
  case (UniformTypeKVCacheSpecs bs d)
  then have d: "map fst d = layer_names g" "distinct (map fst d)" "list_all (spec_wf \<circ> snd) d" using assms by (auto simp: group_wf_def)
  have "bindE (get_per_layer_spec g (fst x)) page_size_bytes = Inr (layer_page (snd x))" if "x \<in> set d" for x
    using that d(3) dict_get_distinct [OF d(2), of "fst x" "snd x"] page_size_spec_wf [of "snd x"]
    by (auto simp: get_per_layer_spec_def UniformTypeKVCacheSpecs list_all_iff)
  then have "mapE (\<lambda>x. bindE (get_per_layer_spec g (fst x)) page_size_bytes) d = Inr (map (layer_page \<circ> snd) d)"
    by (intro mapE_map) simp
  then have "layer_page_sizes g = Inr (map (layer_page \<circ> snd) d)" by (simp add: layer_page_sizes_def mapE_map_list flip: d(1))
  moreover have "(\<Sum>(k, ns)\<leftarrow>same_type_layers d. int (length ns) * layer_page k) = sum_list (map (layer_page \<circ> snd) d)"
    using dict_group_sum [of layer_page id d "[]"] by (simp add: same_type_layers_group case_prod_unfold comp_def)
  then have "sum_list (map region_bytes (same_type_layers d)) = sum_list (map (layer_page \<circ> snd) d)"
    by (simp add: region_bytes_def [abs_def] case_prod_unfold)
  ultimately show ?thesis by (simp add: layers_by_spec_def UniformTypeKVCacheSpecs)
qed

text \<open>A block holds every group.\<close>

lemma pool_bytes_per_block_ge:
  assumes "pool_bytes_per_block groups = Inr b" "g \<in> set groups" "group_wf g"
  shows "0 < b" "sum_list (map region_bytes (layers_by_spec g)) \<le> b"
proof -
  from assms(1) obtain widths where w: "mapE (\<lambda>g. bindE (layer_page_sizes g) (\<lambda>ps. Inr (sum_list ps))) groups = Inr widths"
    "py_max widths = Inr b" "0 < b"
    by (auto simp: pool_bytes_per_block_def bindE_eq_Inr)
  then show "0 < b" by simp
  obtain ps where ps: "layer_page_sizes g = Inr ps" "sum_list ps = sum_list (map region_bytes (layers_by_spec g))"
    using layer_page_sizes_wf [OF assms(3)] by blast
  obtain w' where "w' \<in> set widths" "bindE (layer_page_sizes g) (\<lambda>ps. Inr (sum_list ps)) = Inr w'"
    using mapE_mem [OF w(1) assms(2)] by blast
  with ps py_max_ge [OF w(2)] show "sum_list (map region_bytes (layers_by_spec g)) \<le> b" by simp
qed

section \<open>The views of a configuration\<close>

text \<open>A group in a block of \<open>stride\<close> bytes, in a layout that its specs admit.\<close>

definition group_fits :: "kv_cache_layout \<Rightarrow> int \<Rightarrow> cache_group \<Rightarrow> bool" where
  "group_fits layout stride g \<longleftrightarrow> group_wf g \<and> sum_list (map region_bytes (layers_by_spec g)) \<le> stride
     \<and> list_all (layout_fits layout \<circ> fst) (layers_by_spec g)"

lemma group_fitsD:
  assumes "group_fits layout stride g"
  shows "group_wf g" "sum_list (map region_bytes (layers_by_spec g)) \<le> stride"
    "(s, names) \<in> set (layers_by_spec g) \<Longrightarrow> spec_wf s \<and> layout_fits layout s"
  using assms layers_by_spec_wf(1) by (auto simp: group_fits_def list_all_iff)

definition group_views :: "kv_cache_layout \<Rightarrow> int \<Rightarrow> int \<Rightarrow> cache_group \<Rightarrow> kv_view odict" where
  "group_views layout stride nb g = concat (map (\<lambda>(s, names, off).
     zip names (map (view_for layout stride nb (s, names, off)) [0..<length names])) (place_offsets 0 (layers_by_spec g)))"

lemma group_tensors_wf:
  assumes "group_wf g" "0 < nb" "0 < stride"
    and "group_tensors layout (if is_block_outermost layout then Some stride else None) nb (stride * nb) g = Inr ts"
  shows "ts = map (tensor_for layout stride nb) (place_offsets 0 (layers_by_spec g))"
    "list_all (layout_fits layout \<circ> fst) (layers_by_spec g)"
proof -
  have eq: "foldE (place_spec layout (if is_block_outermost layout then Some stride else None) nb (stride * nb)) (layers_by_spec g) ([], 0) =
    (if list_all (layout_fits layout \<circ> fst) (layers_by_spec g)
     then Inr (map (tensor_for layout stride nb) (place_offsets 0 (layers_by_spec g)), sum_list (map region_bytes (layers_by_spec g)))
     else Inl AssertionError)"
    using place_specs_eq [OF assms(2,3), of "layers_by_spec g" layout "[]" 0] layers_by_spec_wf [OF assms(1)] by simp
  show "ts = map (tensor_for layout stride nb) (place_offsets 0 (layers_by_spec g))"
    "list_all (layout_fits layout \<circ> fst) (layers_by_spec g)"
    using assms(4) unfolding group_tensors_def eq by (auto simp: list_all_iff split: if_splits)
qed

text \<open>What a configuration built from well-formed groups looks like.\<close>

definition placed_entries :: "cache_group list \<Rightarrow> (layer_spec \<times> string list \<times> int) list" where
  "placed_entries groups = concat (map (\<lambda>g. place_offsets 0 (layers_by_spec g)) groups)"

lemma config_from_groups_wf:
  assumes "get_kv_cache_config_from_groups c groups mem = Inr cfg" "groups \<noteq> []" "list_all group_wf groups" "0 < num_blocks cfg"
  obtains layout stride where "vllm_config.kv_cache_layout c = Some layout" "pool_bytes_per_block groups = Inr stride"
    "num_blocks cfg = may_override_num_blocks c (mem div stride)" "kv_cache_groups cfg = groups"
    "kv_cache_tensors cfg = map (tensor_for layout stride (num_blocks cfg)) (placed_entries groups)"
    "list_all (group_fits layout stride) groups"
proof -
  from assms(1,2) obtain layout stride tss where c: "get_resolved_kv_cache_layout c = Inr layout" "pool_bytes_per_block groups = Inr stride"
    "num_blocks cfg = may_override_num_blocks c (mem div stride)" "kv_cache_groups cfg = groups" "kv_cache_tensors cfg = concat tss"
    "mapE (group_tensors layout (if is_block_outermost layout then Some stride else None) (num_blocks cfg) (stride * num_blocks cfg)) groups = Inr tss"
    unfolding get_kv_cache_config_from_groups_def by (auto simp: bindE_eq_Inr Let_def)
  have stride: "0 < stride" using c(2) by (auto simp: pool_bytes_per_block_def bindE_eq_Inr)
  have wf: "group_wf g" if "g \<in> set groups" for g using assms(3) that by (simp add: list_all_iff)
  have "list_all2 (\<lambda>g ts. ts = map (tensor_for layout stride (num_blocks cfg)) (place_offsets 0 (layers_by_spec g))) groups tss"
    using c(6) unfolding mapE_Inr
    by (rule list.rel_mono_strong) (use wf stride assms(4) group_tensors_wf(1) in blast)
  then have "tss = map (\<lambda>g. map (tensor_for layout stride (num_blocks cfg)) (place_offsets 0 (layers_by_spec g))) groups"
    by (induction rule: list_all2_induct) auto
  with c(5) have tensors: "kv_cache_tensors cfg = map (tensor_for layout stride (num_blocks cfg)) (placed_entries groups)"
    by (simp add: placed_entries_def map_concat comp_def)
  have "group_fits layout stride g" if "g \<in> set groups" for g
    using mapE_mem [OF c(6) that] group_tensors_wf(2) [OF wf [OF that] assms(4) stride] wf [OF that]
      pool_bytes_per_block_ge(2) [OF c(2) that wf [OF that]] unfolding group_fits_def by blast
  then have "list_all (group_fits layout stride) groups" by (simp add: list_all_iff)
  moreover have "vllm_config.kv_cache_layout c = Some layout"
    using c(1) by (auto simp: get_resolved_kv_cache_layout_def split: option.splits)
  ultimately show ?thesis using that c(2-4) tensors by blast
qed

lemma distinct_concat_same:
  "distinct (concat (map f xs)) \<Longrightarrow> x \<in> set xs \<Longrightarrow> y \<in> set xs \<Longrightarrow> n \<in> set (f x) \<Longrightarrow> n \<in> set (f y) \<Longrightarrow> x = y"
  by (induction xs) auto

lemma placed_entries_mem:
  assumes "(s, names, off) \<in> set (placed_entries groups)"
  obtains g where "g \<in> set groups" "(s, names, off) \<in> set (place_offsets 0 (layers_by_spec g))" "(s, names) \<in> set (layers_by_spec g)"
  using assms place_offsets_mem by (auto simp: placed_entries_def)

lemma allocate_wf:
  assumes "groups_wf groups" "0 < num_blocks cfg" "0 < stride" "kv_cache_groups cfg = groups"
    "kv_cache_tensors cfg = map (tensor_for layout stride (num_blocks cfg)) (placed_entries groups)"
    "list_all (group_fits layout stride) groups"
  shows "allocate_kv_cache is_rocm cfg layout = Inr (if kv_cache_tensors cfg = [] then 0 else backing_size is_rocm (stride * num_blocks cfg),
    concat (map (group_views layout stride (num_blocks cfg)) groups))"
proof -
  let ?V = "\<lambda>(s, names, off). zip names (map (view_for layout stride (num_blocks cfg) (s, names, off)) [0..<length names])"
  let ?f = "\<lambda>t. case tensor_layers t of [] \<Rightarrow> Inl IndexError
    | name # _ \<Rightarrow> (case find (\<lambda>g. name \<in> set (layer_names g)) (kv_cache_groups cfg) of
        None \<Rightarrow> Inl StopIteration
      | Some g \<Rightarrow> bindE (get_per_layer_spec g name) (\<lambda>s.
          bindE (create_kv_cache_views s (num_blocks cfg) layout t) (\<lambda>vs. Inr (zip (tensor_layers t) vs))))"
  have views: "concat (map (group_views layout stride (num_blocks cfg)) groups) = concat (map ?V (placed_entries groups))"
    unfolding group_views_def placed_entries_def by (induction groups) simp_all
  have one: "?f (tensor_for layout stride (num_blocks cfg) e) = Inr (?V e)" if mem: "e \<in> set (placed_entries groups)" for e
  proof -
    obtain s names off where e: "e = (s, names, off)" by (cases e)
    obtain g where g: "g \<in> set groups" "(s, names) \<in> set (layers_by_spec g)" using placed_entries_mem [OF mem [unfolded e]] by blast
    have "group_fits layout stride g" using assms(6) g(1) by (simp add: list_all_iff)
    note wf = group_fitsD(1) [OF this] and fits = group_fitsD(3) [OF this g(2), THEN conjunct2]
    note s = layers_by_spec_wf [OF wf g(2)]
    obtain n ns where n: "names = n # ns" using s(2) by (cases names) auto
    have nm: "n \<in> set (layer_names g)" "get_per_layer_spec g n = Inr s" using s(3) [of n] n by simp_all
    have "find (\<lambda>g. n \<in> set (layer_names g)) groups = Some g"
    proof (cases "find (\<lambda>g. n \<in> set (layer_names g)) groups")
      case None
      then show ?thesis using g(1) nm(1) by (auto simp: find_None_iff)
    next
      case (Some g')
      then have "g' \<in> set groups" "n \<in> set (layer_names g')" by (auto simp: find_Some_iff)
      then show ?thesis using Some distinct_concat_same [of layer_names groups g' g n] assms(1) g(1) nm(1) by (simp add: groups_wf_def)
    qed
    then show ?thesis
      using create_views_eq [OF s(1) fits assms(2,3) s(2), of off] nm(2)
      by (simp add: e n assms(4) tensor_for_def)
  qed
  have "mapE ?f (kv_cache_tensors cfg) = Inr (map ?V (placed_entries groups))"
    unfolding assms(5) mapE_map_list by (rule mapE_map) (rule one)
  moreover have "remdups (map tensor_size (kv_cache_tensors cfg)) = [stride * num_blocks cfg]" if "kv_cache_tensors cfg \<noteq> []"
  proof -
    have one: "set (map tensor_size (kv_cache_tensors cfg)) = {stride * num_blocks cfg}"
      using that by (auto simp: assms(5) tensor_for_def image_iff split: prod.splits) (metis surj_pair list.set_intros(1) neq_Nil_conv)
    then have "length (remdups (map tensor_size (kv_cache_tensors cfg))) = 1" by (simp add: length_remdups_card_conv del: set_map)
    then obtain x where x: "remdups (map tensor_size (kv_cache_tensors cfg)) = [x]" by (auto simp: length_Suc_conv)
    have "set (remdups (map tensor_size (kv_cache_tensors cfg))) = {stride * num_blocks cfg}" using one by (simp only: set_remdups)
    with x show ?thesis by simp
  qed
  moreover have "concat (map ?V (placed_entries groups)) = []" if "kv_cache_tensors cfg = []"
    using that by (simp add: assms(5))
  ultimately show ?thesis unfolding allocate_kv_cache_def views by (cases "kv_cache_tensors cfg = []") (simp_all add: Let_def)
qed

lemma group_views_mem:
  assumes "(name, v) \<in> set (group_views layout stride nb g)" "group_wf g"
  obtains s names off l where "(s, names, off) \<in> set (place_offsets 0 (layers_by_spec g))" "l < length names" "name = names ! l"
    "v = view_for layout stride nb (s, names, off) l" "spec_wf s" "name \<in> set (layer_names g)"
proof -
  obtain s names off l where e: "(s, names, off) \<in> set (place_offsets 0 (layers_by_spec g))" "l < length names" "name = names ! l"
    "v = view_for layout stride nb (s, names, off) l"
    using assms(1) by (auto simp: group_views_def in_set_zip)
  note s = layers_by_spec_wf [OF assms(2) place_offsets_mem [OF e(1)]]
  show ?thesis using that [OF e s(1)] s(3) [of name] e by simp
qed

lemma group_views_names:
  assumes "group_wf g"
  shows "mset (map fst (group_views layout stride nb g)) = mset (layer_names g)"
proof -
  have "map fst (concat (map (\<lambda>(s, names, off). zip names (map (view_for layout stride nb (s, names, off)) [0..<length names])) (place_offsets k xs)))
      = concat (map snd xs)" for k xs
    by (induction k xs rule: place_offsets.induct) simp_all
  then show ?thesis using layers_by_spec_names [OF assms] by (simp add: group_views_def del: mset_map)
qed

text \<open>The views of a well-formed group are sound.\<close>

lemma group_views_sound:
  assumes "group_fits layout stride g" "(n1, v1) \<in> set (group_views layout stride nb g)" "in_view v1 i"
  shows "0 \<le> cell_address v1 i" "cell_address v1 i < stride * nb"
    and "(n2, v2) \<in> set (group_views layout stride nb g) \<Longrightarrow> in_view v2 j \<Longrightarrow> cell_address v1 i = cell_address v2 j \<Longrightarrow> n1 = n2 \<and> i = j"
proof -
  note wf = group_fitsD(3) [OF assms(1)] and gwf = group_fitsD(1) [OF assms(1)] and bytes = group_fitsD(2) [OF assms(1)]
  from group_views_mem [OF assms(2) gwf] obtain s names off l where e:
    "(s, names, off) \<in> set (place_offsets 0 (layers_by_spec g))" "l < length names" "n1 = names ! l"
    "v1 = view_for layout stride nb (s, names, off) l" .
  have "0 < layer_page t" if "(t, ns) \<in> set (layers_by_spec g)" for t ns using wf [OF that] page_size_spec_wf(2) by blast
  then have "0 \<le> off" "off + region_bytes (s, names) \<le> stride"
    using place_offsets_bounds [of "layers_by_spec g" 0] e(1) bytes by fastforce+
  note b = address_bounds [OF _ _ _ e(2) this, of layout nb i]
  show "0 \<le> cell_address v1 i" "cell_address v1 i < stride * nb"
    using b wf [OF place_offsets_mem [OF e(1)]] assms(3) by (simp_all add: e(4) in_view_for)
  assume v2: "(n2, v2) \<in> set (group_views layout stride nb g)" "in_view v2 j" and eq: "cell_address v1 i = cell_address v2 j"
  from group_views_mem [OF v2(1) gwf] obtain s' names' off' l' where e':
    "(s', names', off') \<in> set (place_offsets 0 (layers_by_spec g))" "l' < length names'" "n2 = names' ! l'"
    "v2 = view_for layout stride nb (s', names', off') l'" .
  show "n1 = n2 \<and> i = j"
    using address_inj [of "layers_by_spec g" layout stride s names off l nb i s' names' off' l' j] wf bytes assms(3) v2(2) eq e e'
    by (simp add: in_view_for)
qed

lemma all_views_sound:
  assumes "groups_wf groups" "list_all (group_fits layout stride) groups"
    and "(n1, v1) \<in> set (concat (map (group_views layout stride nb) groups))" "in_view v1 i"
  shows "0 \<le> cell_address v1 i \<and> cell_address v1 i < stride * nb"
    and "g \<in> set groups \<Longrightarrow> n1 \<in> set (layer_names g) \<Longrightarrow> n2 \<in> set (layer_names g) \<Longrightarrow>
      (n2, v2) \<in> set (concat (map (group_views layout stride nb) groups)) \<Longrightarrow> in_view v2 j \<Longrightarrow>
      cell_address v1 i = cell_address v2 j \<Longrightarrow> n1 = n2 \<and> i = j"
proof -
  have fits: "group_fits layout stride g" if "g \<in> set groups" for g using assms(2) that by (simp add: list_all_iff)
  have own: "(n, v) \<in> set (group_views layout stride nb g)"
    if nv: "(n, v) \<in> set (concat (map (group_views layout stride nb) groups))" and n: "n \<in> set (layer_names g)" and g: "g \<in> set groups" for n v g
  proof -
    obtain g' where g': "g' \<in> set groups" "(n, v) \<in> set (group_views layout stride nb g')" using nv by auto
    then have "n \<in> set (layer_names g')" using group_views_mem [OF g'(2) group_fitsD(1) [OF fits]] by blast
    then show ?thesis using g' distinct_concat_same [OF _ g'(1) g, of layer_names n] n assms(1) by (simp add: groups_wf_def)
  qed
  obtain g1 where g1: "g1 \<in> set groups" "(n1, v1) \<in> set (group_views layout stride nb g1)" using assms(3) by auto
  then show "0 \<le> cell_address v1 i \<and> cell_address v1 i < stride * nb"
    using group_views_sound(1,2) [OF fits _ assms(4)] by blast
  assume g: "g \<in> set groups" "n1 \<in> set (layer_names g)" "n2 \<in> set (layer_names g)"
    "(n2, v2) \<in> set (concat (map (group_views layout stride nb) groups))" "in_view v2 j" "cell_address v1 i = cell_address v2 j"
  show "n1 = n2 \<and> i = j"
    by (rule group_views_sound(3) [OF fits [OF g(1)] own [OF assms(3) g(2,1)] assms(4) own [OF g(4,3,1)] g(5,6)])
qed

definition sample_groups :: "cache_group list" where
  "sample_groups = [mk_group [''full.0'', ''full.1''] (UniformTypeKVCacheSpecs 4 [(''full.0'', sample_full 4 1), (''full.1'', sample_full 4 2)]),
     mk_group [''swa.0''] (LayerSpec (sample_swa 4 1 6))]"

text \<open>
  C7. The placement of the KV cache is sound: for a configuration built from well-formed groups a
  worker gets exactly one view per layer, and every byte of every view lies inside the buffer that
  is allocated, which has the planned size, on ROCm rounded up to 4096 bytes.  Unless the user
  overrides the number of blocks, the planned size is at most the available memory, so that on ROCm
  the rounding can exceed it by less than a page.  Two cells of the same cache group never share a
  byte, in each of the six layouts, with and without padded pages.  (Kernel blocks are taken to be
  blocks of the manager.)
\<close>

theorem cache_layout_sound:
  assumes "get_kv_cache_config_from_groups c groups mem = Inr cfg" "groups_wf groups" "0 < num_blocks cfg"
    and "vllm_config.kv_cache_layout c = Some layout"
  shows "\<exists>buf_size views. allocate_kv_cache is_rocm cfg layout = Inr (buf_size, views)
    \<and> mset (map fst views) = mset (concat (map layer_names groups))
    \<and> (\<forall>t \<in> set (kv_cache_tensors cfg). buf_size = backing_size is_rocm (tensor_size t)
          \<and> tensor_size t \<le> buf_size \<and> buf_size \<le> tensor_size t + (if is_rocm then 4095 else 0)
          \<and> (num_gpu_blocks_override c = None \<longrightarrow> tensor_size t \<le> mem))
    \<and> (\<forall>(name, v) \<in> set views. \<forall>i. in_view v i \<longrightarrow>
          0 \<le> cell_address v i \<and> cell_address v i < buf_size \<and> (\<forall>t \<in> set (kv_cache_tensors cfg). cell_address v i < tensor_size t))
    \<and> (\<forall>g \<in> set groups. \<forall>(n1, v1) \<in> set views. \<forall>(n2, v2) \<in> set views. \<forall>i j.
          n1 \<in> set (layer_names g) \<longrightarrow> n2 \<in> set (layer_names g) \<longrightarrow> in_view v1 i \<longrightarrow> in_view v2 j \<longrightarrow>
          cell_address v1 i = cell_address v2 j \<longrightarrow> n1 = n2 \<and> i = j)"
proof (cases "groups = []")
  case True
  with assms(1) have "kv_cache_tensors cfg = []" by (auto simp: get_kv_cache_config_from_groups_def)
  with True show ?thesis by (simp add: allocate_kv_cache_def)
next
  case False
  have wf: "list_all group_wf groups" using assms(2) by (simp add: groups_wf_def)
  from config_from_groups_wf [OF assms(1) False wf assms(3)] assms(4) obtain stride where c:
    "pool_bytes_per_block groups = Inr stride" "num_blocks cfg = may_override_num_blocks c (mem div stride)" "kv_cache_groups cfg = groups"
    "kv_cache_tensors cfg = map (tensor_for layout stride (num_blocks cfg)) (placed_entries groups)"
    "list_all (group_fits layout stride) groups"
    by (metis option.inject)
  let ?views = "concat (map (group_views layout stride (num_blocks cfg)) groups)"
  have stride: "0 < stride" using c(1) by (auto simp: pool_bytes_per_block_def bindE_eq_Inr)
  have size: "tensor_size t = stride * num_blocks cfg" if "t \<in> set (kv_cache_tensors cfg)" for t
    using that by (auto simp: c(4) tensor_for_def split: prod.splits)
  have fits: "stride * num_blocks cfg \<le> mem" if "num_gpu_blocks_override c = None"
    using stride that by (simp add: c(2) may_override_num_blocks_def flip: minus_mod_eq_mult_div)
  define buf where "buf = (if kv_cache_tensors cfg = [] then 0 else backing_size is_rocm (stride * num_blocks cfg))"
  have inside: "0 \<le> cell_address v i \<and> cell_address v i < buf \<and> (\<forall>t \<in> set (kv_cache_tensors cfg). cell_address v i < tensor_size t)"
    if mem: "(name, v) \<in> set ?views" "in_view v i" for name v i
  proof -
    have "kv_cache_tensors cfg \<noteq> []" using mem(1) unfolding c(4) by (force simp: group_views_def placed_entries_def)
    then have "stride * num_blocks cfg \<le> buf" using backing_size_bounds(1) by (simp add: buf_def)
    then show ?thesis using all_views_sound(1) [OF assms(2) c(5) mem] size by fastforce
  qed
  have names: "mset (map fst ?views) = mset (concat (map layer_names groups))"
    using wf by (induction groups) (simp_all add: group_views_names del: mset_map)
  have "allocate_kv_cache is_rocm cfg layout = Inr (buf, ?views)" unfolding buf_def by (rule allocate_wf [OF assms(2,3) stride c(3-5)])
  moreover note names
  moreover have "\<forall>t \<in> set (kv_cache_tensors cfg). buf = backing_size is_rocm (tensor_size t)
      \<and> tensor_size t \<le> buf \<and> buf \<le> tensor_size t + (if is_rocm then 4095 else 0) \<and> (num_gpu_blocks_override c = None \<longrightarrow> tensor_size t \<le> mem)"
  proof
    fix t assume t: "t \<in> set (kv_cache_tensors cfg)"
    then have "buf = backing_size is_rocm (stride * num_blocks cfg)" by (auto simp: buf_def)
    with size [OF t] fits backing_size_bounds [where raw = "stride * num_blocks cfg" and is_rocm = is_rocm]
    show "buf = backing_size is_rocm (tensor_size t) \<and> tensor_size t \<le> buf \<and> buf \<le> tensor_size t + (if is_rocm then 4095 else 0)
      \<and> (num_gpu_blocks_override c = None \<longrightarrow> tensor_size t \<le> mem)" by simp
  qed
  moreover have "\<forall>(name, v) \<in> set ?views. \<forall>i. in_view v i \<longrightarrow>
      0 \<le> cell_address v i \<and> cell_address v i < buf \<and> (\<forall>t \<in> set (kv_cache_tensors cfg). cell_address v i < tensor_size t)"
    using inside by blast
  moreover have "\<forall>g \<in> set groups. \<forall>(n1, v1) \<in> set ?views. \<forall>(n2, v2) \<in> set ?views. \<forall>i j.
      n1 \<in> set (layer_names g) \<longrightarrow> n2 \<in> set (layer_names g) \<longrightarrow> in_view v1 i \<longrightarrow> in_view v2 j \<longrightarrow>
      cell_address v1 i = cell_address v2 j \<longrightarrow> n1 = n2 \<and> i = j"
    using all_views_sound(2) [OF assms(2) c(5)] by blast
  ultimately show ?thesis by blast
qed

theorem cache_layout_sound_witness:
  "\<exists>cfg views. get_kv_cache_config_from_groups (sample_vllm BLHNC) sample_groups 1000 = Inr cfg \<and> num_blocks cfg = 20
    \<and> allocate_kv_cache True cfg BLHNC = Inr (4096, views) \<and> mset (map fst views) = mset [''full.0'', ''full.1'', ''swa.0'']"
proof -
  have "satisfies (\<lambda>cfg. num_blocks cfg = 20 \<and> satisfies (\<lambda>x. fst x = 4096) (allocate_kv_cache True cfg BLHNC))
    (get_kv_cache_config_from_groups (sample_vllm BLHNC) sample_groups 1000)" by code_simp
  then obtain cfg x where cfg: "get_kv_cache_config_from_groups (sample_vllm BLHNC) sample_groups 1000 = Inr cfg" "num_blocks cfg = 20"
    "allocate_kv_cache True cfg BLHNC = Inr x" "fst x = 4096"
    by (elim satisfiesE conjE) blast
  have "groups_wf sample_groups" by code_simp
  from cache_layout_sound [OF cfg(1) this, where is_rocm = True] cfg(2) obtain buf_size views where
    "allocate_kv_cache True cfg BLHNC = Inr (buf_size, views)" "mset (map fst views) = mset (concat (map layer_names sample_groups))"
    by (auto simp: sample_vllm_def simp del: mset_map)
  with cfg show ?thesis by (auto simp: sample_groups_def mk_group_def simp del: mset_map)
qed

end
