(* ===== verification/KV_Groups.thy ===== *)
theory KV_Groups
  imports KV_Layout_Props
begin

text \<open>
  The grouping of layers: every path of \<open>get_kv_cache_groups\<close> puts each layer of the model into
  exactly one group, the spec of a group describes its layers, and the layers of a group of one
  type need the same number of blocks.
\<close>

section \<open>Splitting lists\<close>

lemma mset_filter_classes:
  "mset (concat (map (\<lambda>i. filter (\<lambda>x. f x = i) xs) [0..<n])) = mset (filter (\<lambda>x. f x < n) xs)"
proof (induction n)
  case (Suc n)
  have "mset (filter (\<lambda>x. f x < n) xs) + mset (filter (\<lambda>x. f x = n) xs) = mset (filter (\<lambda>x. f x < Suc n) xs)"
    by (induction xs) (auto simp: less_Suc_eq)
  then show ?case using Suc by simp
qed simp

text \<open>The slices \<open>layers[i::n]\<close> for \<open>i < n\<close> split the list.\<close>

lemma mset_py_every:
  assumes "0 < n"
  shows "mset (concat (map (\<lambda>i. py_every i n xs) [0..<n])) = mset xs"
proof -
  have cong: "i \<le> k \<and> (k - i) mod n = 0 \<longleftrightarrow> k mod n = i" if "i < n" for i k
  proof
    assume k: "i \<le> k \<and> (k - i) mod n = 0"
    then obtain q where "k - i = n * q" by (auto simp: mod_eq_0_iff_dvd)
    with k have "k = i + n * q" by simp
    then show "k mod n = i" using that by simp
  next
    assume "k mod n = i"
    then have "i \<le> k" "n dvd k - i" using mod_less_eq_dividend [of k n] dvd_minus_mod [of n k] by simp_all
    then show "i \<le> k \<and> (k - i) mod n = 0" by simp
  qed
  have "py_every i n xs = map snd (filter (\<lambda>x. fst x mod n = i) (enumerate 0 xs))" if "i < n" for i
    by (simp only: py_every_def case_prod_unfold cong [OF that])
  then have "concat (map (\<lambda>i. py_every i n xs) [0..<n]) = map snd (concat (map (\<lambda>i. filter (\<lambda>x. fst x mod n = i) (enumerate 0 xs)) [0..<n]))"
    unfolding map_concat map_map comp_def by (intro arg_cong [where f = concat] map_cong) simp_all
  then have "mset (concat (map (\<lambda>i. py_every i n xs) [0..<n]))
      = image_mset snd (mset (concat (map (\<lambda>i. filter (\<lambda>x. fst x mod n = i) (enumerate 0 xs)) [0..<n])))" by (simp only: mset_map)
  also have "\<dots> = image_mset snd (mset (filter (\<lambda>x. fst x mod n < n) (enumerate 0 xs)))" by (simp only: mset_filter_classes)
  also have "filter (\<lambda>x. fst x mod n < n) (enumerate 0 xs) = enumerate 0 xs" using assms by (intro filter_True) simp
  also have "image_mset snd (mset (enumerate 0 xs)) = mset xs" by (simp only: map_snd_enumerate flip: mset_map)
  finally show ?thesis .
qed

text \<open>Transposing lists of equal length keeps their elements.\<close>

lemma mset_zip_all:
  assumes "\<forall>xs \<in> set xss. length xs = n"
  shows "mset (concat (zip_all xss)) = mset (concat xss)"
proof (cases xss)
  case (Cons ys yss)
  have "fold min (map length zss) n = n" if "\<forall>xs \<in> set zss. length xs = n" for zss :: "'a list list"
    using that by (induction zss) auto
  then have z: "zip_all xss = map (\<lambda>i. map (\<lambda>xs. xs ! i) xss) [0..<n]" using assms Cons by (simp add: zip_all_def)
  have "mset (concat (map (\<lambda>i. map (\<lambda>xs. xs ! i) zss) [0..<n])) = mset (concat zss)"
    if "\<forall>xs \<in> set zss. length xs = n" for zss :: "'a list list"
    using that
  proof (induction zss)
    case (Cons zs zss)
    have "mset (concat (map (\<lambda>i. f i # g i) js)) = mset (map f js) + mset (concat (map g js))" for f :: "nat \<Rightarrow> 'a" and g js
      by (induction js) auto
    moreover have "map (\<lambda>i. zs ! i) [0..<n] = zs" using Cons.prems map_nth [of zs] by simp
    ultimately show ?case using Cons by (simp del: mset_map)
  qed simp
  then show ?thesis using assms z by simp
qed (simp add: zip_all_def)

section \<open>Groups of equal page size\<close>

lemma mapE_keys:
  assumes "mapE (\<lambda>(name, s). bindE (f s) (\<lambda>s'. Inr (name, s'))) d = Inr d'"
  shows "map fst d' = map fst d" "(name, s') \<in> set d' \<Longrightarrow> \<exists>s. (name, s) \<in> set d \<and> f s = Inr s'"
proof -
  show "map fst d' = map fst d" using assms by (induction d arbitrary: d') (auto simp: bindE_eq_Inr)
  show "(name, s') \<in> set d' \<Longrightarrow> \<exists>s. (name, s) \<in> set d \<and> f s = Inr s'"
    using mapE_mem_result [OF assms] by (fastforce simp: bindE_eq_Inr)
qed

lemma create_groups_names:
  assumes "create_kv_cache_group_specs d names = Inr groups"
  shows "map layer_names groups = names" "g \<in> set groups \<Longrightarrow> \<exists>specs s. mapE (dict_get d) (layer_names g) = Inr specs \<and> merge specs = Inr s \<and> kv_cache_spec g = LayerSpec s"
  using assms unfolding create_kv_cache_group_specs_def
  by (induction names arbitrary: groups) (auto simp: bindE_eq_Inr mk_group_def)

lemma place_in_bucket_names:
  assumes "place_in_bucket s ns bs = Inr bs'" "ns \<noteq> []" "\<forall>b \<in> set bs. fst b \<noteq> []"
  shows "mset (concat (map fst bs')) = mset (concat (map fst bs)) + mset ns \<and> (\<forall>b \<in> set bs'. fst b \<noteq> [])"
  using assms
  by (induction s ns bs arbitrary: bs' rule: place_in_bucket.induct) (auto simp: bindE_eq_Inr split: sum.splits if_splits, fastforce+)

lemma place_all_names:
  assumes "foldE (\<lambda>(s, ns). place_in_bucket s ns) xs bs = Inr bs'" "\<forall>x \<in> set xs. snd x \<noteq> []" "\<forall>b \<in> set bs. fst b \<noteq> []"
  shows "mset (concat (map fst bs')) = mset (concat (map fst bs)) + mset (concat (map snd xs)) \<and> (\<forall>b \<in> set bs'. fst b \<noteq> [])"
  using assms
proof (induction xs arbitrary: bs)
  case (Cons x xs)
  then obtain bs1 where b: "place_in_bucket (fst x) (snd x) bs = Inr bs1" "foldE (\<lambda>(s, ns). place_in_bucket s ns) xs bs1 = Inr bs'"
    by (auto simp: bindE_eq_Inr case_prod_unfold)
  have "mset (concat (map fst bs1)) = mset (concat (map fst bs)) + mset (snd x)" "\<forall>b \<in> set bs1. fst b \<noteq> []"
    using place_in_bucket_names [OF b(1)] Cons.prems by simp_all
  with Cons.IH [OF b(2)] Cons.prems show ?case by simp
qed simp

lemma split_bucket_names:
  assumes "0 < group_size"
  shows "mset (concat (split_bucket group_size layers)) = mset layers"
proof (cases "layers = []")
  case True
  then show ?thesis by (simp add: split_bucket_def cdiv_def)
next
  case False
  then have "0 < cdiv (int (length layers)) group_size" using assms by (intro cdiv_pos) simp_all
  then show ?thesis unfolding split_bucket_def Let_def by (intro mset_py_every) simp
qed

lemma uniform_page_size_names:
  assumes "get_kv_cache_groups_uniform_page_size d = Inr groups"
  shows "mset (concat (map layer_names groups)) = mset (map fst d)"
proof -
  from assms obtain buckets lo hi where b: "foldE (\<lambda>(s, ns). place_in_bucket s ns) (same_type_layers d) [] = Inr buckets"
    "py_min (map (int \<circ> length) (map fst buckets)) = Inr lo" "py_max (map (int \<circ> length) (map fst buckets)) = Inr hi"
    "create_kv_cache_group_specs d (concat (map (split_bucket (if 2 * hi < 3 * lo then hi else lo)) (map fst buckets))) = Inr groups"
    by (auto simp: get_kv_cache_groups_uniform_page_size_def bindE_eq_Inr Let_def)
  have ne: "\<forall>x \<in> set (same_type_layers d). snd x \<noteq> []"
    using dict_group_entries [of "[]" "\<lambda>_ _. True" d id] by (auto simp: same_type_layers_group)
  have names: "mset (concat (map fst buckets)) = mset (map fst d)" "\<forall>b \<in> set buckets. fst b \<noteq> []"
    using place_all_names [OF b(1) ne] dict_group_mset [of id d "[]"] by (simp_all add: same_type_layers_group del: mset_map)
  have "0 < hi" "0 < lo" using py_max_in [OF b(3)] py_min_in [OF b(2)] names(2) by auto
  then have "mset (concat (concat (map (split_bucket (if 2 * hi < 3 * lo then hi else lo)) xs))) = mset (concat xs)" for xs
    by (induction xs) (simp_all add: split_bucket_names)
  from this [of "map fst buckets"] show ?thesis unfolding create_groups_names(1) [OF b(4)] names(1) .
qed

section \<open>Unified and promoted specs\<close>

lemma post_init_kind: "post_init a k = Inr s \<Longrightarrow> \<exists>a'. s = Attn a' k"
  by (auto simp: post_init_def bindE_eq_Inr split: attn_kind.splits)

lemma unify_names: "unify_kv_cache_spec_page_size d = Inr d' \<Longrightarrow> map fst d' = map fst d"
  by (auto simp: unify_kv_cache_spec_page_size_def bindE_eq_Inr dest: mapE_keys(1) split: if_splits)

lemma promote_names: "promote_local_kv_cache_specs d = Inr d' \<Longrightarrow> map fst d' = map fst d"
  by (auto simp: promote_local_kv_cache_specs_def bindE_eq_Inr Let_def dest!: mapE_keys(1) split: if_splits)

lemma hybrid_names: "unify_hybrid_kv_cache_specs d = Inr d' \<Longrightarrow> map fst d' = map fst d"
  by (auto simp: unify_hybrid_kv_cache_specs_def bindE_eq_Inr dest: promote_names split: if_splits)

lemma fallback_names: "get_full_allocation_fallback_groups d = Inr (Some groups) \<Longrightarrow> concat (map layer_names groups) = map fst d"
  by (auto simp: get_full_allocation_fallback_groups_def bindE_eq_Inr Let_def mk_group_def dest!: promote_names split: if_splits sum.splits option.splits)

lemma annotate_names:
  assumes "annotate_eagle_groups c d b groups = Inr groups'"
  shows "map layer_names groups' = map layer_names groups \<and> map kv_cache_spec groups' = map kv_cache_spec groups"
proof -
  have last: "map layer_names (annotate_last_layer name gs) = map layer_names gs \<and> map kv_cache_spec (annotate_last_layer name gs) = map kv_cache_spec gs" for name gs
    by (induction gs) (auto simp: annotate_last_layer_def Let_def)
  show ?thesis using assms by (auto simp: annotate_eagle_groups_def Let_def last comp_def if_distrib split: if_splits)
qed

section \<open>Packed groups\<close>

lemma bucket_insert_layers:
  "bucket_insert x bs = Inr bs' \<Longrightarrow> mset (concat bs') = mset (concat bs) + {#x#}"
  by (induction x bs arbitrary: bs' rule: bucket_insert.induct) (auto simp: bindE_eq_Inr split: if_splits)

lemma bucket_fold_layers:
  "foldE bucket_insert xs bs = Inr bs' \<Longrightarrow> mset (concat bs') = mset (concat bs) + mset xs"
proof (induction xs arbitrary: bs)
  case (Cons x xs)
  then obtain bs1 where b: "bucket_insert x bs = Inr bs1" "foldE bucket_insert xs bs1 = Inr bs'" by (auto simp: bindE_eq_Inr)
  from Cons.IH [OF b(2)] bucket_insert_layers [OF b(1)] show ?case by simp
qed simp

lemma page_size_layers_group:
  assumes "foldE (\<lambda>(name, l) acc. bindE (page_size_bytes l) (\<lambda>p. Inr (dict_append p [name] acc))) b acc = Inr psl"
  shows "\<exists>ps. mapE (page_size_bytes \<circ> snd) b = Inr ps \<and> psl = dict_group id (zip (map fst b) ps) acc"
  using assms
proof (induction b arbitrary: acc)
  case (Cons x b)
  obtain name l where x: "x = (name, l)" by (cases x)
  from Cons.prems obtain p where p: "page_size_bytes l = Inr p"
    "foldE (\<lambda>(name, l) acc. bindE (page_size_bytes l) (\<lambda>p. Inr (dict_append p [name] acc))) b (dict_append p [name] acc) = Inr psl"
    by (auto simp: x bindE_eq_Inr)
  from Cons.IH [OF p(2)] obtain ps where "mapE (page_size_bytes \<circ> snd) b = Inr ps"
    "psl = dict_group id (zip (map fst b) ps) (dict_append p [name] acc)" by blast
  with p(1) show ?case by (intro exI [of _ "p # ps"]) (simp add: x dict_group_Cons comp_def id_def)
qed (simp add: dict_group_def)

lemma analyse_bucket_result:
  assumes "analyse_bucket b = Inr i"
  obtains ps where "bucket_specs i = b" "from_specs b = Inr (Some (bucket_spec i))" "mapE (page_size_bytes \<circ> snd) b = Inr ps"
    "page_size_layers i = dict_group id (zip (map fst b) ps) []" "balanced i = (length (remdups (map (length \<circ> snd) (page_size_layers i))) = 1)"
    "mset (concat (map snd (page_size_layers i))) = mset (map fst b)"
proof -
  from assms obtain s psl where i: "from_specs b = Inr (Some s)"
    "foldE (\<lambda>(name, l) acc. bindE (page_size_bytes l) (\<lambda>p. Inr (dict_append p [name] acc))) b [] = Inr psl"
    "i = \<lparr>bucket_specs = b, bucket_spec = s, page_size_layers = psl, balanced = (length (remdups (map (length \<circ> snd) psl)) = 1)\<rparr>"
    by (auto simp: analyse_bucket_def bindE_eq_Inr split: option.splits)
  from page_size_layers_group [OF i(2)] obtain ps where ps: "mapE (page_size_bytes \<circ> snd) b = Inr ps" "psl = dict_group id (zip (map fst b) ps) []"
    by blast
  have "length ps = length b" using ps(1) by (auto simp: mapE_Inr dest: list_all2_lengthD)
  then have "mset (concat (map snd psl)) = mset (map fst b)"
    unfolding ps(2) dict_group_mset by (simp add: map_fst_zip del: mset_map)
  then show ?thesis using that [of ps] i ps by simp
qed

lemma same_elements: "length (remdups xs) = 1 \<Longrightarrow> \<exists>n. \<forall>x \<in> set xs. x = n"
  by (metis One_nat_def card_1_singletonE length_remdups_card_conv singletonD)

lemma allE_True: "allE f xs = Inr True \<Longrightarrow> x \<in> set xs \<Longrightarrow> f x = Inr True"
  by (induction xs) (auto simp: bindE_eq_Inr split: if_splits)

text \<open>A bucket of Mamba layers has one page size.\<close>

lemma mamba_bucket_pages:
  assumes "from_specs b = Inr (Some s)" "b = (n, MambaSpec m) # b'" "mapE (page_size_bytes \<circ> snd) b = Inr ps"
  shows "\<exists>p. set ps \<subseteq> {p}"
proof -
  have "allE (mamba_uniform m) (map snd b) = Inr True"
    using assms(1,2) by (auto simp: from_specs_def bindE_eq_Inr is_uniform_type_def is_uniform_with_collection_def split: if_splits)
  note uni = allE_True [OF this]
  have "\<exists>p. page_size_bytes (MambaSpec m) = Inr p" using assms(2,3) by (auto simp: bindE_eq_Inr)
  then obtain p where p: "page_size_bytes (MambaSpec m) = Inr p" by blast
  have "q = p" if q: "q \<in> set ps" for q
  proof -
    obtain x where x: "x \<in> set b" "page_size_bytes (snd x) = Inr q" using mapE_mem_result [OF assms(3) q] by auto
    have "mamba_uniform m (snd x) = Inr True" by (rule uni) (use x(1) in auto)
    then show ?thesis using x(2) p by (auto simp: mamba_uniform_def bindE_eq_Inr split: layer_spec.splits if_splits)
  qed
  then show ?thesis by blast
qed

lemma one_page_size:
  assumes "set ps \<subseteq> {p}"
  shows "length (dict_group id (zip ns ps) []) \<le> 1"
proof -
  let ?g = "dict_group id (zip ns ps) []"
  have zip: "x = p" if "(n, x) \<in> set (zip ns ps)" for n x using that assms by (auto dest: set_zip_rightD)
  have "k = p" if "(k, vs) \<in> set ?g" for k vs
  proof -
    have "vs \<noteq> [] \<and> (\<forall>n \<in> set vs. k = p)"
      by (rule dict_group_entries [of "[]" "\<lambda>_ k. k = p" "zip ns ps" id]) (use that zip in auto)
    then show ?thesis by (cases vs) auto
  qed
  then have "set (map fst ?g) \<subseteq> {p}" by auto
  from card_mono [OF _ this] have "card (set (map fst ?g)) \<le> 1" by simp
  then show ?thesis using distinct_card [OF dict_group_distinct [of "[]" id "zip ns ps"]] by simp
qed

lemma max_layers_pos:
  assumes "get_max_layers_per_page_size d = Inr n"
  shows "1 \<le> n"
proof -
  from assms obtain ps :: "int list" where "(if ps = [] then Inl IndexError else py_max (map (\<lambda>p. int (count_list ps p)) (remdups ps))) = Inr n"
    unfolding get_max_layers_per_page_size_def bindE_eq_Inr by blast
  then have ps: "py_max (map (\<lambda>p. int (count_list ps p)) (remdups ps)) = Inr n" by (simp split: if_splits)
  from py_max_in [OF ps] obtain p where "p \<in> set ps" "n = int (count_list ps p)" by auto
  then show ?thesis using count_list_pos [of ps p] by simp
qed

lemma approximate_gcd_pos: "approximate_gcd xs lo = Inr d \<Longrightarrow> 1 \<le> d"
proof -
  have "1 \<le> fst (fold (\<lambda>d (best_d, best_pad).
        let pad = gcd_padding xs d
        in case best_pad of None \<Rightarrow> (d, Some pad) | Some p \<Rightarrow> if pad < p \<or> pad = p \<and> best_d < d then (d, Some pad) else (best_d, best_pad))
      ds (d0, p0))" if "1 \<le> d0" "\<forall>d \<in> set ds. 1 \<le> d" for ds d0 p0
    using that by (induction ds arbitrary: d0 p0) (auto simp: Let_def split: option.splits if_splits)
  then show "approximate_gcd xs lo = Inr d \<Longrightarrow> 1 \<le> d"
    by (auto simp: approximate_gcd_def bindE_eq_Inr Let_def split: if_splits)
qed

lemma mset_concat_cong: "mset xss = mset yss \<Longrightarrow> mset (concat xss) = mset (concat yss)"
  by (metis mset_concat mset_map sum_mset_sum_list)

lemma first_is_mambaD:
  assumes "first_is_mamba i" "bucket_specs i = b"
  obtains n m b' where "b = (n, MambaSpec m) # b'"
  using assms by (auto simp: first_is_mamba_def elim: is_mamba.elims split: list.splits)

text \<open>A bucket that is split repeats its pattern of page sizes.\<close>

lemma split_bucket_balanced:
  assumes "analyse_bucket b = Inr i" "balanced i \<or> first_is_mamba i"
  shows "mset (concat (zip_all (map snd (page_size_layers i)))) = mset (map fst b)"
proof -
  from analyse_bucket_result [OF assms(1)] obtain ps where i: "bucket_specs i = b" "from_specs b = Inr (Some (bucket_spec i))"
    "mapE (page_size_bytes \<circ> snd) b = Inr ps" "page_size_layers i = dict_group id (zip (map fst b) ps) []"
    "balanced i = (length (remdups (map (length \<circ> snd) (page_size_layers i))) = 1)"
    "mset (concat (map snd (page_size_layers i))) = mset (map fst b)" .
  have "\<exists>n. \<forall>xs \<in> set (map snd (page_size_layers i)). length xs = n"
  proof (cases "balanced i")
    case True
    then show ?thesis using i(5) same_elements [of "map (length \<circ> snd) (page_size_layers i)"] by auto
  next
    case False
    with assms(2) have "first_is_mamba i" by simp
    from first_is_mambaD [OF this i(1)] obtain n m b' where "b = (n, MambaSpec m) # b'" .
    with mamba_bucket_pages [OF i(2) _ i(3)] obtain p where "set ps \<subseteq> {p}" by blast
    with one_page_size i(4) have "length (page_size_layers i) \<le> 1" by simp
    then show ?thesis by (cases "page_size_layers i") auto
  qed
  then show ?thesis using mset_zip_all i(6) by metis
qed

lemma num_groups_for_pos:
  assumes "num_groups_for repeats i = Inr n" "\<forall>r. repeats = Some r \<longrightarrow> 1 \<le> r"
  shows "1 \<le> n" "n \<noteq> 1 \<Longrightarrow> balanced i"
proof -
  show "n \<noteq> 1 \<Longrightarrow> balanced i" using assms(1) by (auto simp: num_groups_for_def split: option.splits if_splits)
  show "1 \<le> n"
  proof (cases "\<exists>r. repeats = Some r \<and> balanced i")
    case True
    with assms(1) obtain r k where r: "repeats = Some r" "get_max_layers_per_page_size (bucket_specs i) = Inr k" "n = cdiv k r"
      by (auto simp: num_groups_for_def bindE_eq_Inr divE_def split: if_splits)
    have "0 < cdiv k r" by (rule cdiv_pos) (use assms(2) r(1) max_layers_pos [OF r(2)] in simp_all)
    with r(3) show ?thesis by simp
  next
    case False
    then show ?thesis using assms(1) by (auto simp: num_groups_for_def split: option.splits if_splits)
  qed
qed

lemma num_bucket_groups_pos:
  assumes "num_bucket_groups repeats anchor i = Inr n" "\<forall>r. repeats = Some r \<longrightarrow> 1 \<le> r"
  shows "1 \<le> n" "n \<noteq> 1 \<Longrightarrow> balanced i \<or> first_is_mamba i"
proof -
  from assms(1) obtain n0 where n0: "num_groups_for repeats i = Inr n0" "n0 \<le> n" "n \<noteq> n0 \<longrightarrow> first_is_mamba i"
    unfolding num_bucket_groups_def by (elim bindE_InrE) (auto simp: bindE_eq_Inr split: if_splits)
  then show "1 \<le> n" "n \<noteq> 1 \<Longrightarrow> balanced i \<or> first_is_mamba i" using num_groups_for_pos [OF n0(1) assms(2)] by auto
qed

lemma pattern_group_names:
  "pattern_group i n j = Inr g \<Longrightarrow> layer_names g = concat (py_every j n (zip_all (map snd (page_size_layers i))))"
  by (auto simp: pattern_group_def bindE_eq_Inr Let_def mk_group_def split: option.splits)

lemma concat_map_concat: "concat (map (\<lambda>j. concat (f j)) js) = concat (concat (map f js))"
  by (induction js) simp_all

lemma bucket_groups_names:
  assumes "analyse_bucket b = Inr i" "bucket_groups repeats anchor i = Inr groups" "\<forall>r. repeats = Some r \<longrightarrow> 1 \<le> r"
  shows "mset (concat (map layer_names groups)) = mset (map fst b)"
proof -
  have b: "bucket_specs i = b" using analyse_bucket_result [OF assms(1)] by blast
  from assms(2) obtain n where n: "num_bucket_groups repeats anchor i = Inr n"
    "(if n = 1 then Inr [mk_group (map fst (bucket_specs i)) (bucket_spec i)] else mapE (pattern_group i (nat n)) [0..<nat n]) = Inr groups"
    unfolding bucket_groups_def bindE_eq_Inr by blast
  note n1 = num_bucket_groups_pos [OF n(1) assms(3)]
  show ?thesis
  proof (cases "n = 1")
    case True
    then show ?thesis using n(2) b by (auto simp: mk_group_def)
  next
    case False
    note zip = split_bucket_balanced [OF assms(1) n1(2) [OF False]]
    have "map layer_names groups = map (\<lambda>j. concat (py_every j (nat n) (zip_all (map snd (page_size_layers i))))) [0..<nat n]"
      using n(2) False by (intro nth_equalityI) (auto simp: mapE_Inr list_all2_conv_all_nth pattern_group_names)
    then have "mset (concat (map layer_names groups))
        = mset (concat (concat (map (\<lambda>j. py_every j (nat n) (zip_all (map snd (page_size_layers i)))) [0..<nat n])))"
      by (simp add: concat_map_concat)
    also have "\<dots> = mset (concat (zip_all (map snd (page_size_layers i))))"
      by (intro mset_concat_cong mset_py_every) (use n1(1) in simp)
    finally show ?thesis using zip by simp
  qed
qed

lemma repeats_per_group_pos: "repeats_per_group infos = Inr (Some r) \<Longrightarrow> 1 \<le> r"
  by (auto simp: repeats_per_group_def bindE_eq_Inr dest: approximate_gcd_pos split: if_splits)

lemma packed_result:
  assumes "get_packed_kv_cache_groups c d = Inr (Some groups)"
  obtains buckets infos repeats anchor gs where "foldE bucket_insert d [] = Inr buckets" "mapE analyse_bucket buckets = Inr infos"
    "mapE (bucket_groups repeats anchor) infos = Inr gs"
    "annotate_eagle_groups c d (uses_eagle c \<and> is_deepseek_v4 c) (concat gs) = Inr groups" "\<forall>r. repeats = Some r \<longrightarrow> 1 \<le> r"
proof -
  from assms obtain buckets infos repeats anchor gs where p: "foldE bucket_insert d [] = Inr buckets" "mapE analyse_bucket buckets = Inr infos"
    "repeats_per_group infos = Inr repeats" "mapE (bucket_groups repeats anchor) infos = Inr gs"
    "annotate_eagle_groups c d (uses_eagle c \<and> is_deepseek_v4 c) (concat gs) = Inr groups"
    unfolding get_packed_kv_cache_groups_def by (auto simp: bindE_eq_Inr split: if_splits)
  show ?thesis by (rule that [OF p(1,2,4,5)]) (use p(3) repeats_per_group_pos in blast)
qed

lemma packed_names:
  assumes "get_packed_kv_cache_groups c d = Inr (Some groups)"
  shows "mset (concat (map layer_names groups)) = mset (map fst d)"
proof -
  from packed_result [OF assms] obtain buckets infos repeats anchor gs where p: "foldE bucket_insert d [] = Inr buckets"
    "mapE analyse_bucket buckets = Inr infos" "mapE (bucket_groups repeats anchor) infos = Inr gs"
    "annotate_eagle_groups c d (uses_eagle c \<and> is_deepseek_v4 c) (concat gs) = Inr groups" "\<forall>r. repeats = Some r \<longrightarrow> 1 \<le> r" .
  have "mset (concat (map layer_names (concat gs))) = mset (map fst (concat buckets))"
    using p(2,3)
  proof (induction buckets arbitrary: infos gs)
    case (Cons b buckets)
    then show ?case using bucket_groups_names [OF _ _ p(5), of b] by (auto simp: bindE_eq_Inr simp del: mset_map)
  qed simp
  also have "\<dots> = mset (map fst d)" using bucket_fold_layers [OF p(1)] by simp
  finally show ?thesis using annotate_names [OF p(4)] by simp
qed

section \<open>Typed groups\<close>

text \<open>
  The type of a group: it has layers, and a group that keeps one spec per layer keeps exactly the
  specs of its layers, of one type, all with the property \<open>P\<close>.
\<close>

definition group_typed :: "(layer_spec \<Rightarrow> bool) \<Rightarrow> cache_group \<Rightarrow> bool" where
  "group_typed P g \<longleftrightarrow> layer_names g \<noteq> [] \<and> (case kv_cache_spec g of
     LayerSpec s \<Rightarrow> True
   | UniformTypeKVCacheSpecs bs d \<Rightarrow> map fst d = layer_names g \<and> is_uniform_type d = Inr True \<and> list_all (P \<circ> snd) d)"

lemma from_specs_Some: "from_specs d = Inr (Some s) \<Longrightarrow> d \<noteq> [] \<and> is_uniform_type d = Inr True \<and> (\<exists>bs. s = UniformTypeKVCacheSpecs bs d)"
  by (auto simp: from_specs_def bindE_eq_Inr split: if_splits list.splits)

lemma from_specs_typed: "from_specs d = Inr (Some s) \<Longrightarrow> list_all (P \<circ> snd) d \<Longrightarrow> group_typed P (mk_group (map fst d) s)"
  by (auto dest!: from_specs_Some simp: group_typed_def mk_group_def)

lemma layer_group_typed: "names \<noteq> [] \<Longrightarrow> group_typed P (mk_group names (LayerSpec s))"
  by (simp add: group_typed_def mk_group_def)

lemma create_groups_typed:
  assumes "create_kv_cache_group_specs d names = Inr groups"
  shows "list_all (group_typed P) groups"
proof -
  have "group_typed P g" if "g \<in> set groups" for g
    using create_groups_names(2) [OF assms that] by (auto simp: group_typed_def merge_def)
  then show ?thesis by (simp add: list_all_iff)
qed

lemma pattern_group_typed:
  assumes "pattern_group i n j = Inr g" "list_all (P \<circ> snd) (bucket_specs i)"
  shows "group_typed P g"
proof -
  from assms(1) obtain names e s where e: "mapE (\<lambda>name. bindE (dict_get (bucket_specs i) name) (\<lambda>s. Inr (name, s))) names = Inr e"
    "from_specs e = Inr (Some s)" "g = mk_group names s"
    by (auto simp: pattern_group_def bindE_eq_Inr Let_def split: option.splits)
  have "map fst e = names" using e(1) by (induction names arbitrary: e) (auto simp: bindE_eq_Inr)
  moreover have "list_all (P \<circ> snd) e"
    using mapE_mem_result [OF e(1)] assms(2) unfolding list_all_iff
    by (fastforce simp: bindE_eq_Inr dict_get_def dest: map_of_SomeD split: option.splits)
  ultimately show ?thesis using from_specs_typed [OF e(2)] e(3) by blast
qed

lemma bucket_groups_typed:
  assumes "analyse_bucket b = Inr i" "bucket_groups repeats anchor i = Inr groups" "list_all (P \<circ> snd) b"
  shows "list_all (group_typed P) groups"
proof -
  from analyse_bucket_result [OF assms(1)] have b: "bucket_specs i = b" "from_specs b = Inr (Some (bucket_spec i))" by blast+
  from assms(2) obtain n where
    "(if n = 1 then Inr [mk_group (map fst (bucket_specs i)) (bucket_spec i)] else mapE (pattern_group i (nat n)) [0..<nat n]) = Inr groups"
    unfolding bucket_groups_def bindE_eq_Inr by blast
  then show ?thesis using from_specs_typed [OF b(2) assms(3)] b(1) assms(3)
    by (auto simp: list_all_iff split: if_splits dest!: mapE_mem_result intro: pattern_group_typed)
qed

lemma group_typed_cong: "layer_names g = layer_names h \<Longrightarrow> kv_cache_spec g = kv_cache_spec h \<Longrightarrow> group_typed P g = group_typed P h"
  by (simp only: group_typed_def)

lemma annotate_typed:
  assumes "annotate_eagle_groups c d b groups = Inr groups'" "list_all (group_typed P) groups"
  shows "list_all (group_typed P) groups'"
proof -
  have eq: "map layer_names groups' = map layer_names groups" "map kv_cache_spec groups' = map kv_cache_spec groups"
    using annotate_names [OF assms(1)] by simp_all
  have len: "length groups' = length groups" using eq(1) by (rule map_eq_imp_length_eq)
  have "group_typed P (groups' ! k)" if "k < length groups" for k
    using that assms(2) arg_cong [OF eq(1), of "\<lambda>l. l ! k"] arg_cong [OF eq(2), of "\<lambda>l. l ! k"] len
      group_typed_cong [of "groups' ! k" "groups ! k"] by (simp add: list_all_length)
  then show ?thesis by (simp add: list_all_length len)
qed

lemma packed_typed:
  assumes "get_packed_kv_cache_groups c d = Inr (Some groups)" "list_all (P \<circ> snd) d"
  shows "list_all (group_typed P) groups"
proof -
  from packed_result [OF assms(1)] obtain buckets infos repeats anchor gs where p: "foldE bucket_insert d [] = Inr buckets"
    "mapE analyse_bucket buckets = Inr infos" "mapE (bucket_groups repeats anchor) infos = Inr gs"
    "annotate_eagle_groups c d (uses_eagle c \<and> is_deepseek_v4 c) (concat gs) = Inr groups" .
  have "set (concat buckets) = set d" using bucket_fold_layers [OF p(1)] by (metis add.left_neutral concat.simps(1) mset.simps(1) set_mset_mset)
  then have "list_all (P \<circ> snd) (concat buckets)" using assms(2) by (simp add: list_all_iff del: set_concat)
  with p(2,3) have "list_all (group_typed P) (concat gs)"
  proof (induction buckets arbitrary: infos gs)
    case (Cons b buckets)
    then show ?case using bucket_groups_typed [of b _ repeats anchor _ P] by (auto simp: bindE_eq_Inr comp_def)
  qed simp
  with p(4) show ?thesis by (rule annotate_typed)
qed

text \<open>What each path of the grouping returns.\<close>

lemma get_kv_cache_groups_cases:
  assumes "get_kv_cache_groups c d0 = Inr groups"
  obtains (free) d where "d = []" "groups = []" "map fst d0 = map fst d"
  | (uniform) d where "map fst d0 = map fst d" "create_kv_cache_group_specs d [map fst d] = Inr groups"
  | (one_type) d s where "map fst d0 = map fst d" "d = d0 \<or> unify_hybrid_kv_cache_specs d0 = Inr d" "from_specs d = Inr (Some s)"
      "groups = [mk_group (map fst d) s]"
  | (packed) d gs where "map fst d0 = map fst d" "d = d0 \<or> unify_hybrid_kv_cache_specs d0 = Inr d"
      "get_packed_kv_cache_groups c (filter (\<lambda>x. \<not> is_hidden_state (snd x)) d) = Inr (Some gs)"
      "groups = gs @ map (\<lambda>(name, s). mk_group [name] (LayerSpec s)) (filter (is_hidden_state \<circ> snd) d)"
  | (fallback) d where "map fst d0 = map fst d" "d = d0 \<or> unify_hybrid_kv_cache_specs d0 = Inr d"
      "get_full_allocation_fallback_groups d = Inr (Some groups)"
  | (paged) d d' gs hs where "map fst d0 = map fst d" "unify_kv_cache_spec_page_size (filter (\<lambda>x. \<not> is_hidden_state (snd x)) d) = Inr d'"
      "get_kv_cache_groups_uniform_page_size d' = Inr gs" "annotate_eagle_groups c d False (gs @ hs) = Inr groups"
      "map layer_names hs = map (\<lambda>x. [fst x]) (filter (is_hidden_state \<circ> snd) d)" "list_all (\<lambda>h. \<exists>s. kv_cache_spec h = LayerSpec s) hs"
proof -
  let ?hidden = "\<lambda>d. filter (is_hidden_state \<circ> snd) d"
  let ?plain = "\<lambda>d. filter (\<lambda>x. \<not> is_hidden_state (snd x)) d"
  let ?aligned = "\<lambda>d gs. if ?hidden d = [] then Inr gs
      else bindE (get_uniform_page_size (map kv_cache_spec gs)) (\<lambda>common_page.
        bindE (mapE (\<lambda>(name, s).
          bindE (align_hidden_state common_page (fold gcd (map (group_block_size \<circ> kv_cache_spec) gs) 0) s)
            (\<lambda>s'. Inr (mk_group [name] (LayerSpec s')))) (?hidden d)) (\<lambda>hs. Inr (gs @ hs)))"
  let ?rest = "\<lambda>d packed. if packed \<noteq> None \<and> packed \<noteq> Some []
      then Inr (the packed @ map (\<lambda>(name, s). mk_group [name] (LayerSpec s)) (?hidden d))
      else case unify_kv_cache_spec_page_size (?plain d) of
        Inl e \<Rightarrow> if e = NotImplementedError
          then bindE (get_full_allocation_fallback_groups d) (\<lambda>f. case f of None \<Rightarrow> Inl e | Some gs \<Rightarrow> Inr gs) else Inl e
      | Inr d' \<Rightarrow> bindE (get_kv_cache_groups_uniform_page_size d') (\<lambda>gs.
          bindE (?aligned d gs) (annotate_eagle_groups c d False))"
  from assms obtain d where d: "(if disable_hybrid_kv_cache_manager c then unify_hybrid_kv_cache_specs d0 else Inr d0) = Inr d"
    and r: "(if d = [] then Inr [] else bindE (is_kv_cache_spec_uniform d) (\<lambda>uniform.
      if uniform then get_kv_cache_groups_uniform_spec d
      else bindE (from_specs d) (\<lambda>u. case u of Some s \<Rightarrow> Inr [mk_group (map fst d) s]
        | None \<Rightarrow> bindE (get_packed_kv_cache_groups c (?plain d)) (?rest d)))) = Inr groups"
    unfolding get_kv_cache_groups_def Let_def bindE_eq_Inr by blast
  have hybrid: "d = d0 \<or> unify_hybrid_kv_cache_specs d0 = Inr d" using d by (simp split: if_splits)
  then have names: "map fst d0 = map fst d" using hybrid_names by metis
  show ?thesis
  proof (cases "d = []")
    case True
    then show ?thesis using r names free by simp
  next
    case False
    with r obtain un where un: "(if un then get_kv_cache_groups_uniform_spec d
      else bindE (from_specs d) (\<lambda>u. case u of Some s \<Rightarrow> Inr [mk_group (map fst d) s]
        | None \<Rightarrow> bindE (get_packed_kv_cache_groups c (?plain d)) (?rest d))) = Inr groups"
      by (simp only: if_False bindE_eq_Inr) blast
    show ?thesis
    proof (cases un)
      case True
      then show ?thesis using un names uniform by (simp add: get_kv_cache_groups_uniform_spec_def)
    next
      case False
      with un obtain u where u: "from_specs d = Inr u" "(case u of Some s \<Rightarrow> Inr [mk_group (map fst d) s]
        | None \<Rightarrow> bindE (get_packed_kv_cache_groups c (?plain d)) (?rest d)) = Inr groups"
        by (simp only: if_False bindE_eq_Inr) blast
      show ?thesis
      proof (cases u)
        case (Some s)
        then show ?thesis using u names hybrid one_type by simp
      next
        case None
        with u obtain p where p: "get_packed_kv_cache_groups c (?plain d) = Inr p" "?rest d p = Inr groups"
          by (simp only: option.case bindE_eq_Inr) blast
        show ?thesis
        proof (cases "p \<noteq> None \<and> p \<noteq> Some []")
          case True
          then obtain gs where "p = Some gs" by auto
          then show ?thesis using p True names hybrid packed by simp
        next
          case no_pack: False
          show ?thesis
          proof (cases "unify_kv_cache_spec_page_size (?plain d)")
            case (Inl e)
            with p(2) no_pack have "e = NotImplementedError"
              by (simp only: if_False sum.case split: if_splits) simp
            with p(2) no_pack Inl obtain f where "get_full_allocation_fallback_groups d = Inr f" "(case f of None \<Rightarrow> Inl e | Some gs \<Rightarrow> Inr gs) = Inr groups"
              by (simp only: if_False simp_thms if_True sum.case bindE_eq_Inr) blast
            then have "get_full_allocation_fallback_groups d = Inr (Some groups)" by (simp split: option.splits)
            then show ?thesis using names hybrid fallback by blast
          next
            case (Inr d')
            with p(2) no_pack obtain gs all where gs: "get_kv_cache_groups_uniform_page_size d' = Inr gs"
              "?aligned d gs = Inr all" "annotate_eagle_groups c d False all = Inr groups"
              by (simp only: if_False sum.case bindE_eq_Inr) blast
            obtain hs where hs: "all = gs @ hs" "map layer_names hs = map (\<lambda>x. [fst x]) (?hidden d)"
              "list_all (\<lambda>h. \<exists>s. kv_cache_spec h = LayerSpec s) hs"
            proof -
              have map: "map layer_names hs = map (\<lambda>x. [fst x]) xs \<and> list_all (\<lambda>h. \<exists>s. kv_cache_spec h = LayerSpec s) hs"
                if "mapE (\<lambda>(name, s). bindE (f s) (\<lambda>s'. Inr (mk_group [name] (LayerSpec s')))) xs = Inr hs" for f xs hs
                using that by (induction xs arbitrary: hs) (auto simp: bindE_eq_Inr mk_group_def)
              show ?thesis
              proof (cases "?hidden d = []")
                case True
                then show ?thesis using gs(2) that [of "[]"] by simp
              next
                case False
                with gs(2) show ?thesis using that map by (simp only: if_False bindE_eq_Inr) blast
              qed
            qed
            show ?thesis by (rule paged [OF names Inr gs(1) gs(3) [unfolded hs(1)] hs(2,3)])
          qed
        qed
      qed
    qed
  qed
qed

lemma partition_filter: "mset (map f (filter (\<lambda>x. \<not> P x) xs)) + mset (map f (filter P xs)) = mset (map f xs)"
  by (induction xs) auto

lemma single_names: "map layer_names hs = map (\<lambda>x. [fst x]) xs \<Longrightarrow> concat (map layer_names hs) = map fst xs"
  by simp

lemma get_groups_names:
  assumes "get_kv_cache_groups c d = Inr groups"
  shows "mset (concat (map layer_names groups)) = mset (map fst d)"
proof -
  note part = partition_filter [of fst "is_hidden_state \<circ> snd", unfolded comp_apply]
  show ?thesis using assms
  proof (cases rule: get_kv_cache_groups_cases)
    case (uniform d1)
    then show ?thesis using create_groups_names(1) [OF uniform(2)] by simp
  next
    case (one_type d1 s)
    then show ?thesis by (simp add: mk_group_def del: mset_map)
  next
    case (packed d1 gs)
    have "map layer_names (map (\<lambda>(name, s). mk_group [name] (LayerSpec s)) hs) = map (\<lambda>x. [fst x]) hs" for hs
      by (simp add: mk_group_def case_prod_unfold)
    from single_names [OF this] show ?thesis
      using packed packed_names [OF packed(3)] part [of d1] by (simp add: comp_def del: mset_map)
  next
    case (fallback d1)
    then show ?thesis using fallback_names by simp
  next
    case (paged d1 d2 gs hs)
    have "mset (concat (map layer_names gs)) = mset (map fst (filter (\<lambda>x. \<not> is_hidden_state (snd x)) d1))"
      using uniform_page_size_names [OF paged(3)] unify_names [OF paged(2)] by (simp del: mset_map)
    then show ?thesis
      using annotate_names [OF paged(4)] single_names [OF paged(5)] paged(1) part [of d1] by (simp add: comp_def del: mset_map)
  qed simp
qed

text \<open>
  A class of specs that promotion to full attention does not leave.  Within such a class every path of
  the grouping stays: the layers of all groups are in the class.
\<close>

locale spec_class =
  fixes P :: "layer_spec \<Rightarrow> bool"
  assumes promoted: "promote_layer b s = Inr s' \<Longrightarrow> P s \<Longrightarrow> P s'"
begin

lemma promoted_class:
  assumes "promote_local_kv_cache_specs d = Inr d'" "list_all (P \<circ> snd) d"
  shows "list_all (P \<circ> snd) d'"
proof -
  have "list_all (P \<circ> snd) e" if "mapE (\<lambda>(name, s). bindE (promote_layer b s) (\<lambda>s'. Inr (name, s'))) d = Inr e" for b e
    using mapE_keys(2) [OF that] assms(2) promoted unfolding list_all_iff by fastforce
  with assms(1,2) show ?thesis by (auto simp: promote_local_kv_cache_specs_def bindE_eq_Inr Let_def split: if_splits)
qed

lemma fallback_typed:
  assumes "get_full_allocation_fallback_groups d = Inr (Some groups)" "list_all (P \<circ> snd) d"
  shows "list_all (group_typed P) groups"
proof -
  from assms(1) obtain e s where "promote_local_kv_cache_specs d = Inr e" "from_specs e = Inr (Some s)" "groups = [mk_group (map fst e) s]"
    by (auto simp: get_full_allocation_fallback_groups_def bindE_eq_Inr Let_def split: if_splits sum.splits option.splits)
  then show ?thesis using promoted_class assms(2) from_specs_typed by simp
qed

lemma hybrid_class:
  "d = d0 \<or> unify_hybrid_kv_cache_specs d0 = Inr d \<Longrightarrow> list_all (P \<circ> snd) d0 \<Longrightarrow> list_all (P \<circ> snd) d"
  by (auto simp: unify_hybrid_kv_cache_specs_def bindE_eq_Inr intro: promoted_class split: if_splits)

lemma get_groups_typed:
  assumes "get_kv_cache_groups c d = Inr groups" "list_all (P \<circ> snd) d"
  shows "list_all (group_typed P) groups"
  using assms(1)
proof (cases rule: get_kv_cache_groups_cases)
  case (uniform d1)
  then show ?thesis using create_groups_typed by blast
next
  case (one_type d1 s)
  then show ?thesis using from_specs_typed [OF one_type(3)] hybrid_class [OF one_type(2) assms(2)] by simp
next
  case (packed d1 gs)
  have "list_all (P \<circ> snd) (filter Q d1)" for Q using hybrid_class [OF packed(2) assms(2)] by (simp add: list_all_iff)
  then show ?thesis using packed_typed [OF packed(3)] packed(4) by (auto simp: list_all_iff intro: layer_group_typed)
next
  case (fallback d1)
  then show ?thesis using fallback_typed hybrid_class [OF fallback(2) assms(2)] by blast
next
  case (paged d1 d2 gs hs)
  have hs: "list_all (group_typed P) hs"
  proof -
    have "layer_names h \<noteq> []" if "h \<in> set hs" for h
      using paged(5) that by (metis (mono_tags, lifting) image_iff list.set_map not_Cons_self2)
    then show ?thesis using paged(6) by (auto simp: list_all_iff group_typed_def)
  qed
  have "list_all (group_typed P) gs"
    using paged(3) by (auto simp: get_kv_cache_groups_uniform_page_size_def bindE_eq_Inr Let_def intro: create_groups_typed)
  then show ?thesis using annotate_typed [OF paged(4)] hs by simp
qed simp

end

interpretation any_spec: spec_class "\<lambda>_. True"
  by unfold_locales simp

text \<open>
  C10. Every path of \<open>get_kv_cache_groups\<close> partitions the layers of the model: each layer is named by
  exactly one group, no group is empty, and a group that keeps one spec per layer keeps the specs of
  exactly its own layers, in order, all of one type.
\<close>
theorem groups_partition:
  assumes "get_kv_cache_groups c d = Inr groups"
  shows "mset (concat (map layer_names groups)) = mset (map fst d) \<and> list_all (group_typed (\<lambda>_. True)) groups"
proof
  show "mset (concat (map layer_names groups)) = mset (map fst d)" using assms by (rule get_groups_names)
  show "list_all (group_typed (\<lambda>_. True)) groups"
    using assms by (rule any_spec.get_groups_typed) (simp add: list_all_iff)
qed

theorem groups_partition_witness:
  "\<exists>groups. get_kv_cache_groups (sample_vllm BLHNC) sample_model = Inr groups \<and> length groups = 2
    \<and> mset (concat (map layer_names groups)) = mset [''full.0'', ''swa.0'']"
proof -
  have "satisfies (\<lambda>groups. length groups = 2) (get_kv_cache_groups (sample_vllm BLHNC) sample_model)" by code_simp
  then obtain groups where g: "get_kv_cache_groups (sample_vllm BLHNC) sample_model = Inr groups" "length groups = 2"
    by (elim satisfiesE)
  from groups_partition [OF g(1)] g show ?thesis by (simp add: sample_model_def del: mset_map)
qed

end
