(* ===== verification/KV_Unify.thy ===== *)
theory KV_Unify
  imports KV_Groups
begin

text \<open>
  What merging and unifying specs keeps: the merged spec of a group has the block size and the page
  size of each of its layers, unified layers share the largest page size and keep their class, and
  the resolved block sizes divide one another.
\<close>

section \<open>Merged specs\<close>

text \<open>The part of a spec the pages are computed from.\<close>

lemma same_pages: "attn_of s = Some a \<Longrightarrow> attn_of t = Some a \<Longrightarrow>
    layer_block_size s = layer_block_size t \<and> page_size_bytes s = page_size_bytes t"
  by (cases s; cases t) auto

lemma full_attn: "full_of s = Some (a, f) \<Longrightarrow> attn_of s = Some a"
  by (cases s rule: full_of.cases) auto

lemma mla_attn: "mla_of s = Some (a, m) \<Longrightarrow> attn_of s = Some a"
  by (cases s rule: mla_of.cases) auto

lemma those_mem: "those (map f xs) = Some ys \<Longrightarrow> x \<in> set xs \<Longrightarrow> \<exists>y \<in> set ys. f x = Some y"
  by (induction xs arbitrary: ys) (auto split: option.splits)

lemma full_merge_attn:
  assumes "full_merge defaults specs = Inr (a, f)" "t \<in> set specs"
  shows "attn_of t = Some a"
proof -
  obtain ps where ps: "those (map full_of specs) = Some ps"
    using assms(1) by (auto simp: full_merge_def split: option.splits)
  with assms(1) have "list_all (\<lambda>p. fst p = a) ps"
    by (auto simp: full_merge_def bindE_eq_Inr split: list.splits)
  with those_mem [OF ps assms(2)] full_attn show ?thesis by (fastforce simp: list_all_iff)
qed

lemma mla_merge_attn:
  assumes "mla_merge specs = Inr (a, f, m)" "t \<in> set specs"
  shows "attn_of t = Some a"
proof -
  obtain ps where ps: "those (map mla_of specs) = Some ps"
    using assms(1) by (auto simp: mla_merge_def split: option.splits)
  with assms(1) have "list_all (\<lambda>p. fst p = a) ps"
    by (auto simp: mla_merge_def bindE_eq_Inr split: list.splits)
  with those_mem [OF ps assms(2)] mla_attn show ?thesis by (fastforce simp: list_all_iff)
qed

text \<open>A merged spec is one of the specs, or comes from one of the two merges that compare all fields.\<close>

lemma merge_result:
  assumes "merge specs = Inr s" "swmla_of s = None"
  shows "(\<forall>t \<in> set specs. t = s) \<or> (\<exists>defaults a f. full_merge defaults specs = Inr (a, f) \<and> attn_of s = Some a)
    \<or> (\<exists>a f m. mla_merge specs = Inr (a, f, m) \<and> attn_of s = Some a)"
proof (cases specs)
  case (Cons s0 ss)
  show ?thesis
  proof (cases s0)
    case (MambaSpec m)
    then show ?thesis using assms Cons by (auto simp: merge_def bindE_eq_Inr list_all_iff)
  next
    case (Attn a k)
    show ?thesis
    proof (cases k)
      case (SlidingWindowMLASpec w e m)
      then show ?thesis using assms Cons Attn
        by (auto simp: merge_def swmla_merge_def bindE_eq_Inr dest!: post_init_kind split: option.splits list.splits)
    next
      case (RSWASpec f w)
      with assms(1) Cons Attn have "rswa_merge specs = Inr s" by (simp add: merge_def)
      then show ?thesis by (auto simp: rswa_merge_def bindE_eq_Inr split: option.splits list.splits)
    qed (use assms Cons Attn in \<open>force simp: merge_def bindE_eq_Inr list_all_iff\<close>)+
  qed
qed simp

text \<open>
  C29. The spec of a merged group describes each of its layers: the layers of the group have the block
  size and the page size of the merged spec.  \<open>SlidingWindowMLASpec.merge\<close> is left out, which does
  not compare these fields.
\<close>

theorem merge_keeps_sizes:
  assumes "merge specs = Inr s" "swmla_of s = None" "t \<in> set specs"
  shows "layer_block_size t = layer_block_size s \<and> page_size_bytes t = page_size_bytes s"
  using merge_result [OF assms(1,2)] full_merge_attn [OF _ assms(3)] mla_merge_attn [OF _ assms(3)] same_pages assms(3) by metis

theorem merge_keeps_sizes_witness:
  "\<exists>s. merge [sample_full 4 1, sample_full 4 1] = Inr s \<and> layer_block_size s = 4 \<and> page_size_bytes s = Inr 16"
proof -
  have "satisfies (\<lambda>s. swmla_of s = None) (merge [sample_full 4 1, sample_full 4 1])" by code_simp
  then obtain s where s: "merge [sample_full 4 1, sample_full 4 1] = Inr s" "swmla_of s = None" by (elim satisfiesE)
  have "layer_block_size (sample_full 4 1) = 4" "page_size_bytes (sample_full 4 1) = Inr 16" by code_simp+
  with merge_keeps_sizes [OF s, of "sample_full 4 1"] s(1) show ?thesis by simp
qed

section \<open>Unified page sizes\<close>

text \<open>A unified layer has the common page, a multiple of its block size, and its class and window.\<close>

definition unified_with :: "int \<Rightarrow> layer_spec \<Rightarrow> layer_spec \<Rightarrow> bool" where
  "unified_with page s s' \<longleftrightarrow> page_size_bytes s' = Inr page \<and> layer_block_size s dvd layer_block_size s' \<and>
     (case (s, s') of (Attn a k, Attn a' k') \<Rightarrow> k' = k | (MambaSpec m, MambaSpec m') \<Rightarrow> True | _ \<Rightarrow> False)"

lemma post_init_attn: "post_init a k = Inr s \<Longrightarrow> \<exists>a'. s = Attn a' k \<and> block_size a' = block_size a"
  by (auto simp: post_init_def apply_alignment_padding_def bindE_eq_Inr split: attn_kind.splits option.splits)

lemma unify_layer_correct: "unify_layer page s = Inr s' \<Longrightarrow> unified_with page s s'"
  by (cases s) (auto simp: unify_layer_def replace_page_size_padded_def replace_block_size_def unified_with_def bindE_eq_Inr
      dest!: post_init_attn split: if_splits)

lemma unified_refl: "page_size_bytes s = Inr page \<Longrightarrow> unified_with page s s"
  by (cases s) (simp_all add: unified_with_def)

text \<open>
  C28. \<open>unify_kv_cache_spec_page_size\<close> brings all layers to the largest page size among them: it keeps
  the layers and their order, and a layer keeps its class and gets a multiple of its block size.
\<close>

theorem page_sizes_unified:
  assumes "unify_kv_cache_spec_page_size d = Inr d'" "d \<noteq> []"
  shows "\<exists>page. (\<forall>x \<in> set d. \<exists>p. page_size_bytes (snd x) = Inr p \<and> p \<le> page) \<and> (\<exists>x \<in> set d. page_size_bytes (snd x) = Inr page)
    \<and> list_all2 (\<lambda>x y. fst y = fst x \<and> unified_with page (snd x) (snd y)) d d'"
proof -
  from assms(1) obtain pages where pages: "mapE (page_size_bytes \<circ> snd) d = Inr pages"
    and r: "(if length (remdups pages) \<le> 1 then Inr d else bindE (py_max pages) (\<lambda>max_page.
       mapE (\<lambda>(name, s). bindE (unify_layer max_page s) (\<lambda>s'. Inr (name, s'))) d)) = Inr d'"
    unfolding unify_kv_cache_spec_page_size_def bindE_eq_Inr by blast
  have "length pages = length d" using pages by (auto simp: mapE_Inr dest: list_all2_lengthD)
  with assms(2) have "pages \<noteq> []" by auto
  then obtain page where page: "py_max pages = Inr page" by (cases pages) (auto simp: py_max_def)
  have le: "\<forall>x \<in> set d. \<exists>p. page_size_bytes (snd x) = Inr p \<and> p \<le> page"
    using mapE_mem [OF pages] py_max_ge [OF page] by fastforce
  have mem: "\<exists>x \<in> set d. page_size_bytes (snd x) = Inr page"
    using mapE_mem_result [OF pages py_max_in [OF page]] by auto
  have "list_all2 (\<lambda>x y. fst y = fst x \<and> unified_with page (snd x) (snd y)) d d'"
  proof (cases "length (remdups pages) \<le> 1")
    case True
    then have "card (set pages) \<le> 1" by (simp add: length_remdups_card_conv)
    then have "\<forall>p \<in> set pages. p = page" using py_max_in [OF page] by (metis One_nat_def List.finite_set card_le_Suc0_iff_eq)
    then have "\<forall>x \<in> set d. page_size_bytes (snd x) = Inr page" using mapE_mem [OF pages] by fastforce
    with r True show ?thesis by (auto simp: list_all2_same unified_refl)
  next
    case False
    with r page have "mapE (\<lambda>(name, s). bindE (unify_layer page s) (\<lambda>s'. Inr (name, s'))) d = Inr d'" by simp
    then show ?thesis unfolding mapE_Inr
      by (rule list_all2_mono) (auto simp: bindE_eq_Inr dest: unify_layer_correct)
  qed
  with le mem show ?thesis by blast
qed

theorem page_sizes_unified_witness:
  "\<exists>d'. unify_kv_cache_spec_page_size [(''a'', sample_full 4 2), (''b'', sample_swa 4 1 6)] = Inr d'
    \<and> list_all2 (\<lambda>x y. fst y = fst x \<and> unified_with 32 (snd x) (snd y)) [(''a'', sample_full 4 2), (''b'', sample_swa 4 1 6)] d'"
proof -
  let ?d = "[(''a'', sample_full 4 2), (''b'', sample_swa 4 1 6)]"
  have pages: "page_size_bytes (sample_full 4 2) = Inr 32" "page_size_bytes (sample_swa 4 1 6) = Inr 16" by code_simp+
  have "satisfies (\<lambda>_. True) (unify_kv_cache_spec_page_size ?d)" by code_simp
  then obtain d' where d': "unify_kv_cache_spec_page_size ?d = Inr d'" by (elim satisfiesE)
  from page_sizes_unified [OF d'] obtain page where p: "page = 32 \<or> page = 16" "32 \<le> page"
    "list_all2 (\<lambda>x y. fst y = fst x \<and> unified_with page (snd x) (snd y)) ?d d'" using pages by auto
  with d' show ?thesis by auto
qed

section \<open>Resolved block sizes\<close>

lemma fold_lcm_dvd: "x \<in> set xs \<or> x dvd (y :: int) \<Longrightarrow> x dvd fold lcm xs y"
  by (induction xs arbitrary: y) (auto intro: dvd_trans)

lemma fold_lcm_least: "\<lbrakk>\<forall>x \<in> set xs. x dvd (m :: int); y dvd m\<rbrakk> \<Longrightarrow> fold lcm xs y dvd m"
  by (induction xs arbitrary: y) simp_all

text \<open>Blocks finer than a scheduler block are hashed: somebody reads the hashes, and no Mamba group is outside the mode \<open>align\<close>.\<close>

definition hashes_blocks :: "vllm_config \<Rightarrow> cache_group list \<Rightarrow> bool" where
  "hashes_blocks c groups \<longleftrightarrow> (enable_prefix_caching c \<or> has_kv_transfer c) \<and>
     \<not> list_ex (\<lambda>g. list_ex (\<lambda>s. mamba_mode_of s \<noteq> None \<and> mamba_mode_of s \<noteq> Some ''align'') (iter_layer_specs (kv_cache_spec g))) groups"

lemma if_Inl_Inr: "(if b then Inl e else m) = Inr x \<longleftrightarrow> \<not> b \<and> m = Inr x"
  by simp

text \<open>
  C30. The block sizes of a model with several groups fit together.  The block of the scheduler is the
  least common multiple of the blocks of all groups, and a multiple of the block that is hashed.
  With prefix caching or a KV connector, and no Mamba group outside the mode \<open>align\<close>, the hashed
  block divides the block of each group that can be cached; otherwise it is the block of the
  scheduler.
\<close>

theorem block_sizes_divide:
  assumes "resolve_kv_cache_block_sizes cfg c = Inr (scheduler_bs, hash_bs)" "1 < length (kv_cache_groups cfg)"
  shows "(\<forall>g \<in> set (kv_cache_groups cfg). resolve_dcp_kv_block_size (kv_cache_spec g) (decode_context_parallel_size c) dvd scheduler_bs)
    \<and> (\<forall>m. (\<forall>g \<in> set (kv_cache_groups cfg). resolve_dcp_kv_block_size (kv_cache_spec g) (decode_context_parallel_size c) dvd m) \<longrightarrow> scheduler_bs dvd m)
    \<and> hash_bs dvd scheduler_bs
    \<and> (if hashes_blocks c (kv_cache_groups cfg)
        then \<forall>g \<in> set (kv_cache_groups cfg). group_prefix_cacheable (kv_cache_spec g) \<longrightarrow>
          hash_bs dvd resolve_dcp_kv_block_size (kv_cache_spec g) (decode_context_parallel_size c)
        else hash_bs = scheduler_bs)"
proof -
  let ?groups = "kv_cache_groups cfg"
  define f :: "cache_group \<Rightarrow> int" where "f = (\<lambda>g. resolve_dcp_kv_block_size (kv_cache_spec g) (decode_context_parallel_size c))"
  define sizes where "sizes = map f ?groups"
  define cacheable where "cacheable = map snd (filter (\<lambda>(g, n). group_prefix_cacheable (kv_cache_spec g)) (zip ?groups sizes))"
  have cache: "set cacheable = f ` {g \<in> set ?groups. group_prefix_cacheable (kv_cache_spec g)}"
    unfolding cacheable_def sizes_def by (auto simp: zip_map2 zip_same_conv_map image_iff)
  have sched: "\<forall>g \<in> set ?groups. f g dvd fold lcm sizes 1" by (simp add: sizes_def fold_lcm_dvd)
  let ?mamba = "list_ex (\<lambda>g. list_ex (\<lambda>s. mamba_mode_of s \<noteq> None \<and> mamba_mode_of s \<noteq> Some ''align'') (iter_layer_specs (kv_cache_spec g))) ?groups"
  let ?hashing = "if cacheable = [] then sizes else cacheable"
  have "\<not> length ?groups \<le> 1" using assms(2) by simp
  note r = assms(1) [unfolded resolve_kv_cache_block_sizes_def Let_def if_not_P [OF this] f_def [symmetric] sizes_def [symmetric] cacheable_def [symmetric]]
  have "scheduler_bs = fold lcm sizes 1 \<and> (if hashes_blocks c ?groups then \<forall>n \<in> set ?hashing. hash_bs dvd n else hash_bs = scheduler_bs)"
  proof (cases "hashes_blocks c ?groups")
    case True
    then have on: "enable_prefix_caching c \<or> has_kv_transfer c" and mamba: "\<not> ?mamba" unfolding hashes_blocks_def by blast+
    from r [unfolded if_not_P [OF mamba]] on show ?thesis
      by (simp only: not_False_eq_True simp_thms if_False if_True bindE_eq_Inr divE_Inr if_Inl_Inr sum.inject prod.inject True list_ex_iff dvd_eq_mod_eq_0) blast
  next
    case False
    then have "\<not> (enable_prefix_caching c \<or> has_kv_transfer c) \<or> ?mamba" unfolding hashes_blocks_def by blast
    with r have "fold lcm sizes 1 = scheduler_bs \<and> fold lcm sizes 1 = hash_bs"
      by (elim disjE) (simp only: if_True if_False if_cancel sum.inject prod.inject simp_thms, blast)+
    with False show ?thesis by simp
  qed
  then have s: "scheduler_bs = fold lcm sizes 1"
    and hash: "hash_bs = scheduler_bs \<or> (\<forall>n \<in> set ?hashing. hash_bs dvd n)"
    and no_hash: "hashes_blocks c ?groups \<Longrightarrow> \<forall>n \<in> set ?hashing. hash_bs dvd n"
    and plain: "\<not> hashes_blocks c ?groups \<Longrightarrow> hash_bs = scheduler_bs" by (auto split: if_split_asm)
  have "hash_bs dvd scheduler_bs"
  proof (cases "hash_bs = scheduler_bs")
    case False
    obtain g where "f g \<in> set (if cacheable = [] then sizes else cacheable)" "g \<in> set ?groups"
    proof (cases "cacheable = []")
      case True
      obtain g where "g \<in> set ?groups" using assms(2) by (cases ?groups) auto
      with True that show ?thesis by (auto simp: sizes_def)
    next
      case False
      then have "set cacheable \<noteq> {}" by simp
      with cache that False show ?thesis by auto
    qed
    with hash False sched s show ?thesis by (metis dvd_trans)
  qed simp
  moreover have "\<forall>g \<in> set ?groups. group_prefix_cacheable (kv_cache_spec g) \<longrightarrow> hash_bs dvd f g" if "hashes_blocks c ?groups"
  proof (intro ballI impI)
    fix g assume "g \<in> set ?groups" "group_prefix_cacheable (kv_cache_spec g)"
    then have "f g \<in> set cacheable" using cache by auto
    with no_hash [OF that] show "hash_bs dvd f g" by (auto split: if_splits)
  qed
  moreover have "scheduler_bs dvd m" if "\<forall>g \<in> set ?groups. f g dvd m" for m
    unfolding s by (rule fold_lcm_least) (use that in \<open>simp_all add: sizes_def\<close>)
  ultimately show ?thesis using sched s plain unfolding f_def by simp
qed

theorem block_sizes_divide_witness:
  "\<exists>scheduler_bs hash_bs cfg. get_kv_cache_config_from_groups (sample_vllm BLHNC) sample_groups 1000 = Inr cfg
    \<and> resolve_kv_cache_block_sizes cfg (sample_vllm BLHNC) = Inr (scheduler_bs, hash_bs) \<and> hash_bs dvd scheduler_bs"
proof -
  let ?c = "sample_vllm BLHNC"
  have "satisfies (\<lambda>cfg. 1 < length (kv_cache_groups cfg) \<and> satisfies (\<lambda>_. True) (resolve_kv_cache_block_sizes cfg ?c))
    (get_kv_cache_config_from_groups ?c sample_groups 1000)" by code_simp
  then obtain cfg sizes where cfg: "get_kv_cache_config_from_groups ?c sample_groups 1000 = Inr cfg" "1 < length (kv_cache_groups cfg)"
    "resolve_kv_cache_block_sizes cfg ?c = Inr sizes" by (auto elim!: satisfiesE)
  obtain scheduler_bs hash_bs where sizes: "sizes = (scheduler_bs, hash_bs)" by (cases sizes)
  from block_sizes_divide [OF cfg(3) [unfolded sizes] cfg(2)] cfg sizes show ?thesis by blast
qed

end
