(* ===== verification/KV_Sizing_Props.thy ===== *)
theory KV_Sizing_Props
  imports KV_Layout_Props
begin

text \<open>
  The size of the KV cache: the number of blocks a longest request takes, the fitting of the model
  length by binary search, and the guarantee that every worker ends up with the same number of
  blocks and that a longest request fits beside the null block on each of them.
\<close>

section \<open>Blocks of a longest request\<close>

definition layer_blocks :: "vllm_config \<Rightarrow> layer_spec \<Rightarrow> int" where
  "layer_blocks c s = (case s of
     Attn a k \<Rightarrow> (case k of
       ChunkedLocalAttentionSpec n \<Rightarrow>
         chunked_max_admission_blocks_per_request n (block_size a) (max_in_flight_tokens c) (max_model_len c)
     | SlidingWindowSpec w e \<Rightarrow>
         swa_max_admission_blocks_per_request w e (block_size a) (max_in_flight_tokens c) (max_model_len c)
     | SlidingWindowMLASpec w e m \<Rightarrow>
         swa_max_admission_blocks_per_request w e (block_size a) (max_in_flight_tokens c) (max_model_len c)
     | CircularBufferSpec \<Rightarrow> 1
     | EncoderOnlyAttentionSpec \<Rightarrow> 0
     | CrossAttentionSpec \<Rightarrow> cdiv (max_num_encoder_input_tokens c) (block_size a)
     | _ \<Rightarrow> full_max_pages c a)
   | MambaSpec m \<Rightarrow>
       (if cache_mamba_mode c = ''all'' then cdiv (max_model_len c) (mamba_block_size m) + num_speculative_blocks m
        else if cache_mamba_mode c = ''align'' then 2 + num_speculative_blocks m + num_prefill_checkpoint_blocks m
        else 1 + num_speculative_blocks m))"

lemma cdiv_mult_self:
  assumes "b \<noteq> 0"
  shows "cdiv (a * b) b = a" "cdiv (b * a) b = a" "cdiv b b = 1"
proof -
  have "(- a) * (- b) div - b = - a" for a using assms by (intro nonzero_mult_div_cancel_right) simp
  then show "cdiv (a * b) b = a" for a by (simp add: cdiv_def)
  from this [of a] this [of 1] show "cdiv (b * a) b = a" "cdiv b b = 1" by (simp_all add: mult.commute)
qed

text \<open>The pages of a layer are the blocks of a request: the page size cancels.\<close>

lemma max_memory_usage_blocks:
  assumes "max_memory_usage_bytes c s = Inr mem" "page_size_bytes s = Inr page"
  shows "mem = layer_blocks c s * page"
  using assms
  by (cases s) (auto simp: layer_blocks_def bindE_eq_Inr divE_Inr split: attn_kind.splits if_splits)

lemma layer_pages_blocks: "layer_pages c s = Inr p \<Longrightarrow> p = layer_blocks c s"
  by (auto simp: layer_pages_def bindE_eq_Inr divE_Inr cdiv_mult_self dest: max_memory_usage_blocks)

text \<open>Whether the pages are defined does not depend on the model length.\<close>

lemma layer_pages_defined:
  "layer_pages c s = Inr p \<Longrightarrow> \<exists>q. layer_pages (c\<lparr>max_model_len := n\<rparr>) s = Inr q"
  by (cases s) (auto simp: layer_pages_def bindE_eq_Inr divE_Inr full_max_pages_def split: attn_kind.splits if_splits)

lemma layer_blocks_mono:
  assumes "0 < layer_block_size s" "m \<le> n"
  shows "layer_blocks (c\<lparr>max_model_len := m\<rparr>) s \<le> layer_blocks (c\<lparr>max_model_len := n\<rparr>) s"
  using assms
  by (cases s) (auto simp: layer_blocks_def full_max_pages_def swa_max_admission_blocks_per_request_def
      chunked_max_admission_blocks_per_request_def intro!: cdiv_mono min.mono split: attn_kind.splits)

lemma py_max_mono:
  assumes "list_all2 (\<le>) xs ys" "py_max xs = Inr m"
  shows "\<exists>n. py_max ys = Inr n \<and> m \<le> n"
proof -
  obtain n where n: "py_max ys = Inr n" using assms by (cases xs; cases ys) (auto simp: py_max_def)
  obtain i where "i < length xs" "m = xs ! i" using py_max_in [OF assms(2)] by (auto simp: in_set_conv_nth)
  with assms(1) have "m \<le> ys ! i" "ys ! i \<in> set ys" by (auto simp: list_all2_conv_all_nth)
  with py_max_ge [OF n] n show ?thesis by force
qed

lemma mapE_rel:
  assumes "mapE f xs = Inr ys" "\<And>x y. x \<in> set xs \<Longrightarrow> f x = Inr y \<Longrightarrow> \<exists>z. g x = Inr z \<and> R y z"
  shows "\<exists>zs. mapE g xs = Inr zs \<and> list_all2 R ys zs"
  using assms
proof (induction xs arbitrary: ys)
  case (Cons x xs)
  then obtain y ys' where y: "f x = Inr y" "mapE f xs = Inr ys'" "ys = y # ys'" by (auto simp: bindE_eq_Inr)
  moreover obtain z where "g x = Inr z" "R y z" using Cons.prems(2) [of x y] y(1) by auto
  moreover obtain zs where "mapE g xs = Inr zs" "list_all2 R ys' zs" using Cons.IH [OF y(2)] Cons.prems(2) by fastforce
  ultimately show ?case by auto
qed simp

text \<open>The specs of all layers of a group have blocks of positive size.\<close>

definition blocks_positive :: "cache_group \<Rightarrow> bool" where
  "blocks_positive g \<longleftrightarrow> list_all (\<lambda>s. 0 < layer_block_size s) (iter_layer_specs (kv_cache_spec g))"

lemma layer_pages_mono:
  assumes "layer_pages (c\<lparr>max_model_len := m\<rparr>) s = Inr p" "0 < layer_block_size s" "m \<le> n"
  shows "\<exists>q. layer_pages (c\<lparr>max_model_len := n\<rparr>) s = Inr q \<and> p \<le> q"
  using layer_pages_defined [OF assms(1), of n] layer_pages_blocks [OF assms(1)] layer_blocks_mono [OF assms(2,3), of c]
  by (auto dest: layer_pages_blocks)

lemma group_pages_mono:
  assumes "group_pages (c\<lparr>max_model_len := m\<rparr>) g = Inr p" "blocks_positive g" "m \<le> n"
  shows "\<exists>q. group_pages (c\<lparr>max_model_len := n\<rparr>) g = Inr q \<and> p \<le> q"
proof (cases "kv_cache_spec g")
  case (LayerSpec s)
  then show ?thesis using assms layer_pages_mono by (auto simp: group_pages_def blocks_positive_def)
next
  case (UniformTypeKVCacheSpecs bs d)
  with assms(1) obtain ps where ps: "mapE (layer_pages (c\<lparr>max_model_len := m\<rparr>) \<circ> snd) d = Inr ps" "py_max ps = Inr p"
    by (auto simp: group_pages_def bindE_eq_Inr)
  have "\<exists>qs. mapE (layer_pages (c\<lparr>max_model_len := n\<rparr>) \<circ> snd) d = Inr qs \<and> list_all2 (\<le>) ps qs"
    by (rule mapE_rel [OF ps(1)])
      (use assms(2,3) layer_pages_mono in \<open>fastforce simp: UniformTypeKVCacheSpecs blocks_positive_def list_all_iff\<close>)
  with py_max_mono [OF _ ps(2)] UniformTypeKVCacheSpecs show ?thesis by (auto simp: group_pages_def)
qed

lemma group_pages_defined:
  assumes "group_pages c g = Inr p"
  shows "\<exists>q. group_pages (c\<lparr>max_model_len := n\<rparr>) g = Inr q"
proof (cases "kv_cache_spec g")
  case (LayerSpec s)
  then show ?thesis using assms layer_pages_defined by (auto simp: group_pages_def)
next
  case (UniformTypeKVCacheSpecs bs d)
  with assms obtain ps where ps: "mapE (layer_pages c \<circ> snd) d = Inr ps" "py_max ps = Inr p"
    by (auto simp: group_pages_def bindE_eq_Inr)
  have "\<exists>qs. mapE (layer_pages (c\<lparr>max_model_len := n\<rparr>) \<circ> snd) d = Inr qs \<and> list_all2 (\<lambda>_ _. True) ps qs"
    by (rule mapE_rel [OF ps(1)]) (use layer_pages_defined in fastforce)
  then obtain qs where qs: "mapE (layer_pages (c\<lparr>max_model_len := n\<rparr>) \<circ> snd) d = Inr qs" "length qs = length ps"
    by (auto dest: list_all2_lengthD)
  then have "\<exists>q. py_max qs = Inr q" using ps(2) by (cases qs; cases ps) (auto simp: py_max_def)
  with qs UniformTypeKVCacheSpecs show ?thesis by (auto simp: group_pages_def)
qed

lemma usage_mono:
  assumes "max_memory_usage_bytes_from_groups (c\<lparr>max_model_len := m\<rparr>) groups = Inr u" "list_all blocks_positive groups" "m \<le> n"
  shows "\<exists>v. max_memory_usage_bytes_from_groups (c\<lparr>max_model_len := n\<rparr>) groups = Inr v \<and> u \<le> v"
proof (cases "groups = []")
  case False
  with assms(1) obtain b ps where b: "pool_bytes_per_block groups = Inr b" "mapE (group_pages (c\<lparr>max_model_len := m\<rparr>)) groups = Inr ps"
    "u = b * sum_list ps"
    by (auto simp: max_memory_usage_bytes_from_groups_def bindE_eq_Inr)
  obtain qs where qs: "mapE (group_pages (c\<lparr>max_model_len := n\<rparr>)) groups = Inr qs" "list_all2 (\<le>) ps qs"
    using mapE_rel [OF b(2), of "group_pages (c\<lparr>max_model_len := n\<rparr>)" "(\<le>)"] group_pages_mono assms(2,3) by (auto simp: list_all_iff)
  from qs(2) have "sum_list ps \<le> sum_list qs" by (induction rule: list_all2_induct) auto
  moreover have "0 < b" using b(1) by (auto simp: pool_bytes_per_block_def bindE_eq_Inr)
  ultimately show ?thesis using False b qs(1) by (simp add: max_memory_usage_bytes_from_groups_def)
qed (use assms in \<open>simp add: max_memory_usage_bytes_from_groups_def\<close>)

lemma usage_defined:
  assumes "max_memory_usage_bytes_from_groups c groups = Inr u"
  shows "\<exists>v. max_memory_usage_bytes_from_groups (c\<lparr>max_model_len := n\<rparr>) groups = Inr v"
proof (cases "groups = []")
  case False
  with assms obtain b ps where b: "pool_bytes_per_block groups = Inr b" "mapE (group_pages c) groups = Inr ps"
    by (auto simp: max_memory_usage_bytes_from_groups_def bindE_eq_Inr)
  obtain qs where "mapE (group_pages (c\<lparr>max_model_len := n\<rparr>)) groups = Inr qs"
    using mapE_rel [OF b(2), of "group_pages (c\<lparr>max_model_len := n\<rparr>)" "\<lambda>_ _. True"] group_pages_defined by blast
  with b False show ?thesis by (simp add: max_memory_usage_bytes_from_groups_def)
qed (simp add: max_memory_usage_bytes_from_groups_def)

section \<open>The binary search\<close>

text \<open>On a monotone test that does not raise, the loop returns the last value that passes.\<close>

lemma search_max_len_exact:
  assumes "\<And>len. fits len = Inr (F len)" "\<And>m n. m \<le> n \<Longrightarrow> F n \<Longrightarrow> F m"
    and "F result" "1 \<le> result" "1 \<le> left" "left - 1 \<le> result" "result \<le> bound" "right \<le> bound"
    and "\<And>len. right < len \<Longrightarrow> len \<le> bound \<Longrightarrow> \<not> F len"
  shows "\<exists>r. search_max_len fits left right result = Inr r \<and> F r \<and> 1 \<le> r \<and> r \<le> bound \<and> (\<forall>len. r < len \<longrightarrow> len \<le> bound \<longrightarrow> \<not> F len)"
  using assms(3-9)
proof (induction "nat (right - left + 1)" arbitrary: left right result rule: less_induct)
  case less
  let ?P = "\<lambda>m. \<exists>r. m = Inr r \<and> F r \<and> 1 \<le> r \<and> r \<le> bound \<and> (\<forall>len. r < len \<longrightarrow> len \<le> bound \<longrightarrow> \<not> F len)"
  show ?case
  proof (cases "left \<le> right")
    case True
    let ?mid = "(left + right) div 2"
    have mid: "left \<le> ?mid" "?mid \<le> right" using True by auto
    show ?thesis
    proof (cases "F ?mid")
      case pass: True
      have "?P (search_max_len fits (?mid + 1) right ?mid)"
        by (rule less.hyps) (use less.prems pass mid True in auto)
      then show ?thesis using True pass by (subst search_max_len.simps) (simp add: assms(1) Let_def)
    next
      case fail: False
      have "\<not> F len" if "?mid - 1 < len" for len using assms(2) [of ?mid len] fail that by auto
      then have "?P (search_max_len fits left (?mid - 1) result)"
        by (intro less.hyps) (use less.prems fail mid True in auto)
      then show ?thesis using True fail by (subst search_max_len.simps) (simp add: assms(1) Let_def)
    qed
  next
    case False
    then show ?thesis using less.prems by (subst search_max_len.simps) auto
  qed
qed

text \<open>
  C11. Fitting the model length is exact: the binary search returns the largest length up to the
  requested one whose longest request fits the given memory, and 0 exactly when not even one
  token fits.
\<close>

theorem max_model_len_exact:
  assumes "list_all blocks_positive groups" "max_memory_usage_bytes_from_groups c groups = Inr needed" "1 \<le> max_model_len c"
  shows "\<exists>r. estimate_max_model_len_from_groups c groups mem = Inr r
    \<and> (if fits_in_groups c groups mem 1 = Inr True
       then 1 \<le> r \<and> r \<le> max_model_len c \<and> fits_in_groups c groups mem r = Inr True
         \<and> (\<forall>len. r < len \<longrightarrow> len \<le> max_model_len c \<longrightarrow> fits_in_groups c groups mem len = Inr False)
       else r = 0)"
proof -
  define use where "use len = projr (max_memory_usage_bytes_from_groups (c\<lparr>max_model_len := len\<rparr>) groups)" for len
  have use: "max_memory_usage_bytes_from_groups (c\<lparr>max_model_len := len\<rparr>) groups = Inr (use len)" for len
    using usage_defined [OF assms(2), of len] by (auto simp: use_def)
  have fits: "fits_in_groups c groups mem len = Inr (use len \<le> mem)" for len by (simp add: fits_in_groups_def use)
  have mono: "use m \<le> use n" if "m \<le> n" for m n using usage_mono [OF use assms(1) that] use by auto
  show ?thesis
  proof (cases "use 1 \<le> mem")
    case True
    have "\<exists>r. search_max_len (fits_in_groups c groups mem) 1 (max_model_len c) 1 = Inr r \<and> use r \<le> mem \<and> 1 \<le> r \<and> r \<le> max_model_len c
        \<and> (\<forall>len. r < len \<longrightarrow> len \<le> max_model_len c \<longrightarrow> \<not> use len \<le> mem)"
      by (rule search_max_len_exact [where F = "\<lambda>len. use len \<le> mem"]) (use fits True assms(3) in \<open>auto dest: mono\<close>)
    with True show ?thesis by (auto simp: estimate_max_model_len_from_groups_def fits)
  next
    case False
    then show ?thesis by (simp add: estimate_max_model_len_from_groups_def fits)
  qed
qed

theorem max_model_len_exact_witness:
  "\<exists>r. estimate_max_model_len_from_groups (sample_vllm BLHNC) sample_groups 200 = Inr r \<and> 1 \<le> r \<and> r < 16
    \<and> fits_in_groups (sample_vllm BLHNC) sample_groups 200 r = Inr True
    \<and> fits_in_groups (sample_vllm BLHNC) sample_groups 200 (r + 1) = Inr False"
proof -
  let ?c = "sample_vllm BLHNC"
  have ok: "list_all blocks_positive sample_groups" and m: "max_model_len ?c = 16"
    and fits: "fits_in_groups ?c sample_groups 200 1 = Inr True" "fits_in_groups ?c sample_groups 200 16 = Inr False" by code_simp+
  have "satisfies (\<lambda>_. True) (max_memory_usage_bytes_from_groups ?c sample_groups)" by code_simp
  then obtain needed where needed: "max_memory_usage_bytes_from_groups ?c sample_groups = Inr needed" by (elim satisfiesE)
  from max_model_len_exact [OF ok needed, of 200] fits(1) m obtain r where r:
    "estimate_max_model_len_from_groups ?c sample_groups 200 = Inr r" "1 \<le> r" "r \<le> 16" "fits_in_groups ?c sample_groups 200 r = Inr True"
    "\<And>len. r < len \<Longrightarrow> len \<le> 16 \<Longrightarrow> fits_in_groups ?c sample_groups 200 len = Inr False"
    by auto
  moreover have "r \<noteq> 16" using r(4) fits(2) by auto
  ultimately show ?thesis by auto
qed

end
