(* ===== verification/KV_Capacity.thy ===== *)
theory KV_Capacity
  imports KV_Groups KV_Sizing_Props
begin

text \<open>
  The capacity the start-up promises: after \<open>get_kv_cache_configs\<close> every worker has the same number
  of blocks, a longest request takes the same blocks on each of them, and it fits beside the null
  block.  The workers may hold different layers of a group; the promise rests on the layers of one
  type needing the same number of blocks.
\<close>

section \<open>Layers of one type\<close>

text \<open>\<open>get_kv_cache_configs\<close> gives all sliding windows the same number of extra tokens.\<close>

definition extra_tokens_are :: "int \<Rightarrow> layer_spec \<Rightarrow> bool" where
  "extra_tokens_are e s \<longleftrightarrow> (case swa_of s of None \<Rightarrow> True | Some (_, e') \<Rightarrow> e' = e)"

interpretation extra_tokens: spec_class "extra_tokens_are e" for e
  by unfold_locales
    (auto simp: promote_layer_def promoted_kind_def bindE_eq_Inr extra_tokens_are_def Let_def
      dest!: post_init_kind split: layer_spec.splits option.splits attn_kind.splits)

lemma retain_tokens_extra: "retain_tokens e s = Inr s' \<Longrightarrow> extra_tokens_are e s'"
  by (auto simp: retain_tokens_def extra_tokens_are_def dest!: post_init_kind split: layer_spec.splits attn_kind.splits)

lemma uniform_block_size:
  assumes "is_uniform_type d = Inr True" "x \<in> set d" "y \<in> set d"
  shows "layer_block_size (snd x) = layer_block_size (snd y)"
proof -
  have "\<not> 1 < length (remdups (map (layer_block_size \<circ> snd) d))" using assms(1) by (auto simp: is_uniform_type_def)
  then have "card (set (map (layer_block_size \<circ> snd) d)) \<le> 1" by (simp add: length_remdups_card_conv)
  moreover have "(layer_block_size \<circ> snd) x \<in> set (map (layer_block_size \<circ> snd) d)"
    "(layer_block_size \<circ> snd) y \<in> set (map (layer_block_size \<circ> snd) d)" using assms(2,3) by auto
  ultimately show ?thesis by (metis List.finite_set card_le_Suc0_iff_eq One_nat_def comp_apply)
qed

lemma blocks_of_class:
  "full_of s \<noteq> None \<Longrightarrow> layer_blocks c s = cdiv (if 1 < decode_context_parallel_size c
     then cdiv (max_model_len c) (decode_context_parallel_size c) else max_model_len c) (layer_block_size s)"
  "swa_of s = Some (w, e) \<Longrightarrow>
     layer_blocks c s = swa_max_admission_blocks_per_request w e (layer_block_size s) (max_in_flight_tokens c) (max_model_len c)"
  "chunked_of s = Some n \<Longrightarrow>
     layer_blocks c s = chunked_max_admission_blocks_per_request n (layer_block_size s) (max_in_flight_tokens c) (max_model_len c)"
  "is_circular s \<Longrightarrow> layer_blocks c s = 1"
  "is_cross s \<Longrightarrow> layer_blocks c s = cdiv (max_num_encoder_input_tokens c) (layer_block_size s)"
  by (cases s, auto simp: layer_blocks_def full_max_pages_def split: attn_kind.splits)+

text \<open>Two layers that are of the type of a third need the same blocks.\<close>

lemma collection_blocks:
  assumes "is_uniform_with_collection s0 specs = Inr True" "s \<in> set specs" "t \<in> set specs"
    and "layer_block_size s = layer_block_size t" "extra_tokens_are e s" "extra_tokens_are e t"
  shows "layer_blocks c s = layer_blocks c t"
proof -
  have swa: ?thesis if "swa_of s = Some (w, e1)" "swa_of t = Some (w, e2)" for w e1 e2
    using that assms(4-6) by (simp add: blocks_of_class(2) extra_tokens_are_def)
  have swmla: "\<exists>e. swa_of u = Some (w, e)" if "\<exists>a e m. swmla_of u = Some (a, w, e, m)" for u w
    using that by (cases u rule: swmla_of.cases) auto
  have mamba: ?thesis if "mamba_uniform m s = Inr True" "mamba_uniform m t = Inr True" for m
    using that assms(4)
    by (cases s; cases t) (auto simp: mamba_uniform_def layer_blocks_def bindE_eq_Inr split: if_splits)
  show ?thesis
  proof (cases s0)
    case (MambaSpec m)
    with assms(1) have "allE (mamba_uniform m) specs = Inr True" by (simp add: is_uniform_with_collection_def)
    from allE_True [OF this assms(2)] allE_True [OF this assms(3)] show ?thesis by (rule mamba)
  next
    case (Attn a k)
    have windows: ?thesis if "\<forall>u \<in> set specs. \<exists>e. swa_of u = Some (w, e)" for w using that assms(2,3) swa by blast
    from Attn assms(1-4) show ?thesis
      by (cases k) (fastforce simp: is_uniform_with_collection_def uniform_type_base_def list_all_iff blocks_of_class
          intro: windows swmla)+
  qed
qed

lemma uniform_blocks:
  assumes "is_uniform_type d = Inr True" "list_all (extra_tokens_are e \<circ> snd) d" "x \<in> set d" "y \<in> set d"
  shows "layer_blocks c (snd x) = layer_blocks c (snd y)"
proof -
  obtain s0 where "is_uniform_with_collection s0 (map snd d) = Inr True"
    using assms(1) by (auto simp: is_uniform_type_def split: if_splits list.splits)
  then show ?thesis
    using assms(2-4) uniform_block_size [OF assms(1,3,4)]
    by (intro collection_blocks [where e = e and specs = "map snd d"]) (auto simp: list_all_iff)
qed

section \<open>Projected groups\<close>

text \<open>The blocks of a longest request in a group, on any worker.\<close>

definition group_blocks :: "vllm_config \<Rightarrow> cache_group \<Rightarrow> int" where
  "group_blocks c g = (case iter_layer_specs (kv_cache_spec g) of [] \<Rightarrow> 0 | s # _ \<Rightarrow> layer_blocks c s)"

lemma project_group_specs:
  assumes "project_group w g = Inr h"
  shows "set (iter_layer_specs (kv_cache_spec h)) \<subseteq> set (iter_layer_specs (kv_cache_spec g))"
proof (cases "kv_cache_spec g")
  case (LayerSpec s)
  then show ?thesis using assms by (auto simp: project_group_def Let_def)
next
  case (UniformTypeKVCacheSpecs bs d)
  have "snd ` set d' \<subseteq> snd ` set d" if "mapE (\<lambda>n. bindE (dict_get d n) (\<lambda>s. Inr (n, s))) names = Inr d'" for names d'
    using mapE_mem_result [OF that] by (fastforce simp: bindE_eq_Inr dict_get_def dest: map_of_SomeD split: option.splits)
  moreover from assms obtain d' where "kv_cache_spec h = UniformTypeKVCacheSpecs bs d'"
    "d' = d \<or> (\<exists>names. mapE (\<lambda>n. bindE (dict_get d n) (\<lambda>s. Inr (n, s))) names = Inr d')"
    by (auto simp: UniformTypeKVCacheSpecs project_group_def Let_def bindE_eq_Inr split: if_splits) blast
  ultimately show ?thesis by (simp add: UniformTypeKVCacheSpecs) blast
qed

lemma projected_blocks:
  assumes "group_typed (extra_tokens_are e) g" "project_group w g = Inr h" "s \<in> set (iter_layer_specs (kv_cache_spec h))"
  shows "layer_blocks c s = group_blocks c g"
proof (cases "kv_cache_spec g")
  case (LayerSpec t)
  then show ?thesis using project_group_specs [OF assms(2)] assms(3) by (auto simp: group_blocks_def)
next
  case (UniformTypeKVCacheSpecs bs d)
  with assms(1) have d: "d \<noteq> []" "is_uniform_type d = Inr True" "list_all (extra_tokens_are e \<circ> snd) d"
    by (auto simp: group_typed_def)
  obtain y where "y \<in> set d" "snd y = s"
    using project_group_specs [OF assms(2)] assms(3) by (auto simp: UniformTypeKVCacheSpecs)
  then show ?thesis using uniform_blocks [OF d(2,3), of y "hd d" c] d(1) UniformTypeKVCacheSpecs
    by (cases d) (auto simp: group_blocks_def)
qed

lemma group_pages_layer:
  assumes "group_pages c g = Inr p"
  shows "\<exists>s \<in> set (iter_layer_specs (kv_cache_spec g)). p = layer_blocks c s"
proof (cases "kv_cache_spec g")
  case (LayerSpec s)
  then show ?thesis using assms layer_pages_blocks by (simp add: group_pages_def)
next
  case (UniformTypeKVCacheSpecs bs d)
  with assms obtain ps where ps: "mapE (layer_pages c \<circ> snd) d = Inr ps" "py_max ps = Inr p"
    by (auto simp: group_pages_def bindE_eq_Inr)
  from mapE_mem_result [OF ps(1) py_max_in [OF ps(2)]] obtain x where "x \<in> set d" "p = layer_blocks c (snd x)"
    by (auto dest: layer_pages_blocks)
  then show ?thesis by (auto simp: UniformTypeKVCacheSpecs)
qed

lemma projected_pages:
  assumes "group_typed (extra_tokens_are e) g" "project_group w g = Inr h" "group_pages c h = Inr p"
  shows "p = group_blocks c g"
  using group_pages_layer [OF assms(3)] projected_blocks [OF assms(1,2)] by blast

lemma projected_worker_pages:
  assumes "list_all (group_typed (extra_tokens_are e)) groups" "project_kv_cache_groups_to_worker groups w = Inr gs"
    "mapE (group_pages c) gs = Inr pages"
  shows "pages = map (group_blocks c) groups"
  using assms unfolding project_kv_cache_groups_to_worker_def
  by (induction groups arbitrary: gs pages) (auto simp: bindE_eq_Inr dest: projected_pages)

section \<open>One worker\<close>

lemma config_from_groups_result:
  assumes "get_kv_cache_config_from_groups c gs mem = Inr cfg"
  shows "kv_cache_groups cfg = gs"
    and "gs = [] \<Longrightarrow> num_blocks cfg = 1"
    and "gs \<noteq> [] \<Longrightarrow> \<exists>b. pool_bytes_per_block gs = Inr b \<and> 0 < b \<and> num_blocks cfg = may_override_num_blocks c (mem div b)"
  using assms by (auto simp: get_kv_cache_config_from_groups_def pool_bytes_per_block_def bindE_eq_Inr Let_def split: if_splits)

lemma worker_capacity:
  assumes "usable_memory gs mem = Inr m" "gs = [] \<or> check_enough_kv_cache_memory c gs m = Inr ()"
    and "get_kv_cache_config_from_groups c gs mem = Inr cfg"
    and "\<forall>k. num_gpu_blocks_override c = Some k \<longrightarrow> effective_memory c gs mem0 = Inr mem"
  shows "\<exists>pages. mapE (group_pages c) gs = Inr pages \<and> sum_list pages + 1 \<le> num_blocks cfg"
proof (cases "gs = []")
  case True
  then show ?thesis using config_from_groups_result(2) [OF assms(3)] by simp
next
  case False
  from config_from_groups_result(3) [OF assms(3) False] obtain b where b: "pool_bytes_per_block gs = Inr b" "0 < b"
    "num_blocks cfg = may_override_num_blocks c (mem div b)" by blast
  from False assms(1,2) b(1) obtain pages where pages: "mapE (group_pages c) gs = Inr pages" "b * sum_list pages \<le> mem - b"
    by (auto simp: usable_memory_def check_enough_kv_cache_memory_def max_memory_usage_bytes_from_groups_def bindE_eq_Inr split: if_splits)
  then have "(sum_list pages + 1) * b \<le> mem" by (simp add: algebra_simps)
  moreover have "mem = k * b" if "num_gpu_blocks_override c = Some k" for k
    using assms(4) that False b(1) by (simp add: effective_memory_def)
  ultimately have "sum_list pages + 1 \<le> num_blocks cfg"
    using b(2,3) zdiv_mono1 [of "(sum_list pages + 1) * b" mem b] by (cases "num_gpu_blocks_override c") (auto simp: may_override_num_blocks_def)
  with pages(1) show ?thesis by blast
qed

lemma shrink_result:
  assumes "shrink_config c n cfg = Inr cfg'" "num_gpu_blocks_override c = None \<or> num_blocks cfg = n"
  shows "num_blocks cfg' = n \<and> kv_cache_groups cfg' = kv_cache_groups cfg"
proof (cases "num_blocks cfg = n")
  case True
  then show ?thesis using assms(1) by (simp add: shrink_config_def)
next
  case False
  with assms(1) obtain b where b: "pool_bytes_per_block (kv_cache_groups cfg) = Inr b"
    "get_kv_cache_config_from_groups c (kv_cache_groups cfg) (n * b) = Inr cfg'"
    by (auto simp: shrink_config_def bindE_eq_Inr)
  have "kv_cache_groups cfg \<noteq> []" using b(1) by (auto simp: pool_bytes_per_block_def bindE_eq_Inr py_max_def)
  then show ?thesis using config_from_groups_result [OF b(2)] b(1) assms(2) False by (auto simp: may_override_num_blocks_def)
qed

section \<open>All workers\<close>

lemma auto_fit_override: "auto_fit_max_model_len c projected mems = Inr c' \<Longrightarrow> num_gpu_blocks_override c' = num_gpu_blocks_override c"
  by (auto simp: auto_fit_max_model_len_def bindE_eq_Inr split: if_splits)

lemma foldE_unit: "foldE (\<lambda>x _. f x) xs () = Inr () \<Longrightarrow> x \<in> set xs \<Longrightarrow> f x = Inr ()"
  by (induction xs) (auto simp: bindE_eq_Inr)

lemma mapE_nth: "mapE f xs = Inr ys \<Longrightarrow> length ys = length xs \<and> (\<forall>i < length xs. f (xs ! i) = Inr (ys ! i))"
  by (simp add: mapE_Inr list_all2_conv_all_nth)

lemma plan_workers_result:
  assumes "plan_workers c projected specs mems = Inr (c', cfgs)"
  obtains avail chk configs n where "num_gpu_blocks_override c' = num_gpu_blocks_override c"
    "\<forall>i < length avail. num_gpu_blocks_override c \<noteq> None \<longrightarrow> effective_memory c (projected ! i) (mems ! i) = Inr (avail ! i)"
    "mapE (\<lambda>(gs, mem). usable_memory gs mem) (zip projected avail) = Inr chk"
    "foldE (\<lambda>(gs, mem) _. if gs = [] then Inr () else check_enough_kv_cache_memory c' gs mem) (zip projected chk) () = Inr ()"
    "mapE (\<lambda>(gs, spec, mem). bindE (py_assert (sum_list (map (length \<circ> layer_names) gs) = length spec)) (\<lambda>_.
       get_kv_cache_config_from_groups c' gs mem)) (zip projected (zip specs avail)) = Inr configs"
    "py_min (map num_blocks configs) = Inr n" "mapE (shrink_config c' n) configs = Inr cfgs"
proof -
  from assms obtain avail1 where e: "mapE (\<lambda>(gs, mem). effective_memory c gs mem) (zip projected mems) = Inr avail1"
    and r: "(let avail = (if num_gpu_blocks_override c = None then mems else avail1)
     in bindE (mapE (\<lambda>(gs, mem). usable_memory gs mem) (zip projected avail)) (\<lambda>chk.
     bindE (if original_max_model_len c = - 1 then auto_fit_max_model_len c projected chk else Inr c) (\<lambda>c'.
     bindE (foldE (\<lambda>(gs, mem) _. if gs = [] then Inr () else check_enough_kv_cache_memory c' gs mem) (zip projected chk) ()) (\<lambda>_.
     bindE (mapE (\<lambda>(gs, spec, mem). bindE (py_assert (sum_list (map (length \<circ> layer_names) gs) = length spec)) (\<lambda>_.
         get_kv_cache_config_from_groups c' gs mem)) (zip projected (zip specs avail))) (\<lambda>configs.
     bindE (py_min (map num_blocks configs)) (\<lambda>n.
     bindE (mapE (shrink_config c' n) configs) (\<lambda>shrunk. Inr (c', shrunk)))))))) = Inr (c', cfgs)"
    unfolding plan_workers_def bindE_eq_Inr by blast
  define avail where "avail = (if num_gpu_blocks_override c = None then mems else avail1)"
  have eff: "\<forall>i < length avail. num_gpu_blocks_override c \<noteq> None \<longrightarrow> effective_memory c (projected ! i) (mems ! i) = Inr (avail ! i)"
    using mapE_nth [OF e] by (auto simp: avail_def)
  from r obtain chk where k: "mapE (\<lambda>(gs, mem). usable_memory gs mem) (zip projected avail) = Inr chk"
    and r2: "bindE (if original_max_model_len c = - 1 then auto_fit_max_model_len c projected chk else Inr c) (\<lambda>c'.
     bindE (foldE (\<lambda>(gs, mem) _. if gs = [] then Inr () else check_enough_kv_cache_memory c' gs mem) (zip projected chk) ()) (\<lambda>_.
     bindE (mapE (\<lambda>(gs, spec, mem). bindE (py_assert (sum_list (map (length \<circ> layer_names) gs) = length spec)) (\<lambda>_.
         get_kv_cache_config_from_groups c' gs mem)) (zip projected (zip specs avail))) (\<lambda>configs.
     bindE (py_min (map num_blocks configs)) (\<lambda>n.
     bindE (mapE (shrink_config c' n) configs) (\<lambda>shrunk. Inr (c', shrunk)))))) = Inr (c', cfgs)"
    unfolding Let_def bindE_eq_Inr avail_def by blast
  from r2 have c': "(if original_max_model_len c = - 1 then auto_fit_max_model_len c projected chk else Inr c) = Inr c'"
    unfolding bindE_eq_Inr by auto
  then have o: "num_gpu_blocks_override c' = num_gpu_blocks_override c" using auto_fit_override by (auto split: if_splits)
  from r2 c' obtain configs n where
    "foldE (\<lambda>(gs, mem) _. if gs = [] then Inr () else check_enough_kv_cache_memory c' gs mem) (zip projected chk) () = Inr ()"
    "mapE (\<lambda>(gs, spec, mem). bindE (py_assert (sum_list (map (length \<circ> layer_names) gs) = length spec)) (\<lambda>_.
       get_kv_cache_config_from_groups c' gs mem)) (zip projected (zip specs avail)) = Inr configs"
    "py_min (map num_blocks configs) = Inr n" "mapE (shrink_config c' n) configs = Inr cfgs"
    unfolding bindE_eq_Inr by auto
  with that o eff k show ?thesis by blast
qed

lemma plan_capacity:
  assumes "plan_workers c projected specs mems = Inr (c', cfgs)"
    and same: "\<forall>gs \<in> set projected. \<forall>pages. mapE (group_pages c') gs = Inr pages \<longrightarrow> pages = B"
  shows "\<exists>n. sum_list B + 1 \<le> n \<and> cfgs \<noteq> [] \<and> (\<forall>cfg \<in> set cfgs. num_blocks cfg = n
    \<and> kv_cache_groups cfg \<in> set projected \<and> mapE (group_pages c') (kv_cache_groups cfg) = Inr B)"
proof -
  from plan_workers_result [OF assms(1)] obtain avail chk configs n where p: "num_gpu_blocks_override c' = num_gpu_blocks_override c"
    "\<forall>i < length avail. num_gpu_blocks_override c \<noteq> None \<longrightarrow> effective_memory c (projected ! i) (mems ! i) = Inr (avail ! i)"
    "mapE (\<lambda>(gs, mem). usable_memory gs mem) (zip projected avail) = Inr chk"
    "foldE (\<lambda>(gs, mem) _. if gs = [] then Inr () else check_enough_kv_cache_memory c' gs mem) (zip projected chk) () = Inr ()"
    "mapE (\<lambda>(gs, spec, mem). bindE (py_assert (sum_list (map (length \<circ> layer_names) gs) = length spec)) (\<lambda>_.
       get_kv_cache_config_from_groups c' gs mem)) (zip projected (zip specs avail)) = Inr configs"
    "py_min (map num_blocks configs) = Inr n" "mapE (shrink_config c' n) configs = Inr cfgs" .
  have worker: "kv_cache_groups cfg \<in> set projected \<and> mapE (group_pages c') (kv_cache_groups cfg) = Inr B \<and> sum_list B + 1 \<le> num_blocks cfg
      \<and> (\<forall>k. num_gpu_blocks_override c = Some k \<longrightarrow> num_blocks cfg = (if B = [] then 1 else k))" if cfg: "cfg \<in> set configs" for cfg
  proof -
    obtain i where i: "i < length configs" "cfg = configs ! i" using cfg by (auto simp: in_set_conv_nth)
    with mapE_nth [OF p(5)] have len: "i < length projected" "i < length avail"
      and config: "get_kv_cache_config_from_groups c' (projected ! i) (avail ! i) = Inr cfg" by (auto simp: bindE_eq_Inr)
    have usable: "usable_memory (projected ! i) (avail ! i) = Inr (chk ! i)" "i < length chk"
      using mapE_nth [OF p(3)] len by auto
    have "(projected ! i, chk ! i) \<in> set (zip projected chk)" using len(1) usable(2) by (auto simp: set_zip)
    from foldE_unit [OF p(4) [unfolded case_prod_unfold] this]
    have chk: "projected ! i = [] \<or> check_enough_kv_cache_memory c' (projected ! i) (chk ! i) = Inr ()" by (simp split: if_splits)
    have "\<forall>k. num_gpu_blocks_override c' = Some k \<longrightarrow> effective_memory c' (projected ! i) (mems ! i) = Inr (avail ! i)"
    proof -
      have "effective_memory c' = effective_memory c" by (simp add: effective_memory_def fun_eq_iff p(1))
      then show ?thesis using p(1,2) len(2) by simp
    qed
    from worker_capacity [OF usable(1) chk config this] bspec [OF same, of "projected ! i"] len(1)
    have B: "mapE (group_pages c') (projected ! i) = Inr B" "sum_list B + 1 \<le> num_blocks cfg" by auto
    then have "B = [] \<longleftrightarrow> projected ! i = []" by (cases "projected ! i") (auto simp: bindE_eq_Inr)
    with B config_from_groups_result [OF config] len(1) p(1) show ?thesis by (auto simp: may_override_num_blocks_def)
  qed
  have n: "sum_list B + 1 \<le> n" using py_min_in [OF p(6)] worker by auto
  have "num_blocks cfg' = n \<and> kv_cache_groups cfg' \<in> set projected \<and> mapE (group_pages c') (kv_cache_groups cfg') = Inr B" if mem: "cfg' \<in> set cfgs" for cfg'
  proof -
    obtain cfg where cfg: "cfg \<in> set configs" "shrink_config c' n cfg = Inr cfg'" using mapE_mem_result [OF p(7) mem] by auto
    have "num_gpu_blocks_override c' = None \<or> num_blocks cfg = n"
      using worker [OF cfg(1)] py_min_in [OF p(6)] worker p(1) by (cases "num_gpu_blocks_override c") auto
    from shrink_result [OF cfg(2) this] worker [OF cfg(1)] show ?thesis by simp
  qed
  moreover have "cfgs \<noteq> []" using p(6,7) by (cases configs) (auto simp: py_min_def bindE_eq_Inr)
  ultimately show ?thesis using n by blast
qed

text \<open>The groups of the model behind the configurations of the workers.\<close>

lemma configs_of_groups:
  assumes "get_kv_cache_configs c specs mems = Inr (c', cfgs)"
  obtains n e groups where "list_all (group_typed (extra_tokens_are e)) groups" "cfgs \<noteq> []"
    "sum_list (map (group_blocks c') groups) + 1 \<le> n"
    "\<forall>cfg \<in> set cfgs. num_blocks cfg = n \<and> mapE (group_pages c') (kv_cache_groups cfg) = Inr (map (group_blocks c') groups)
       \<and> (\<exists>w. project_kv_cache_groups_to_worker groups w = Inr (kv_cache_groups cfg))"
proof -
  let ?e = "extra_retained_tokens c"
  from assms obtain d d' groups projected where g:
    "mapE (\<lambda>(name, s). bindE (retain_tokens ?e s) (\<lambda>s'. Inr (name, s'))) d = Inr d'"
    "get_kv_cache_groups c d' = Inr groups" "mapE (project_kv_cache_groups_to_worker groups) specs = Inr projected"
    "plan_workers c projected specs mems = Inr (c', cfgs)"
    unfolding get_kv_cache_configs_def bindE_eq_Inr by blast
  have "list_all (extra_tokens_are ?e \<circ> snd) d'"
    using mapE_keys(2) [OF g(1)] retain_tokens_extra by (fastforce simp: list_all_iff)
  from extra_tokens.get_groups_typed [OF g(2) this]
  have typed: "list_all (group_typed (extra_tokens_are ?e)) groups" .
  have proj: "\<exists>w. project_kv_cache_groups_to_worker groups w = Inr gs" if "gs \<in> set projected" for gs
    using mapE_mem_result [OF g(3) that] by blast
  then have "\<forall>gs \<in> set projected. \<forall>pages. mapE (group_pages c') gs = Inr pages \<longrightarrow> pages = map (group_blocks c') groups"
    using projected_worker_pages [OF typed] by blast
  from plan_capacity [OF g(4) this] obtain n where n: "sum_list (map (group_blocks c') groups) + 1 \<le> n" "cfgs \<noteq> []"
    "\<forall>cfg \<in> set cfgs. num_blocks cfg = n \<and> kv_cache_groups cfg \<in> set projected
       \<and> mapE (group_pages c') (kv_cache_groups cfg) = Inr (map (group_blocks c') groups)" by blast
  show ?thesis by (rule that [OF typed n(2,1)]) (use n(3) proj in blast)
qed

text \<open>
  C8. The start-up keeps its promise of capacity: all workers of \<open>get_kv_cache_configs\<close> get the same
  number of blocks, the groups of every worker need the same blocks for a request of the (fitted)
  maximum length, and these blocks and the null block fit together.
\<close>

theorem capacity_guaranteed:
  assumes "get_kv_cache_configs c specs mems = Inr (c', cfgs)"
  shows "\<exists>n pages. sum_list pages + 1 \<le> n
    \<and> (\<forall>cfg \<in> set cfgs. num_blocks cfg = n \<and> mapE (group_pages c') (kv_cache_groups cfg) = Inr pages)"
proof -
  from configs_of_groups [OF assms] obtain n groups where "sum_list (map (group_blocks c') groups) + 1 \<le> n"
    "\<forall>cfg \<in> set cfgs. num_blocks cfg = n \<and> mapE (group_pages c') (kv_cache_groups cfg) = Inr (map (group_blocks c') groups)"
    by metis
  then show ?thesis by blast
qed

theorem capacity_guaranteed_witness:
  "\<exists>c cfgs n pages. get_kv_cache_configs (sample_vllm BLHNC) [sample_model, sample_stage] [400, 300] = Inr (c, cfgs) \<and> length cfgs = 2
    \<and> sum_list pages + 1 \<le> n \<and> (\<forall>cfg \<in> set cfgs. num_blocks cfg = n \<and> mapE (group_pages c) (kv_cache_groups cfg) = Inr pages)"
proof -
  have "satisfies (\<lambda>x. length (snd x) = 2) (get_kv_cache_configs (sample_vllm BLHNC) [sample_model, sample_stage] [400, 300])" by code_simp
  then obtain c cfgs where g: "get_kv_cache_configs (sample_vllm BLHNC) [sample_model, sample_stage] [400, 300] = Inr (c, cfgs)" "length cfgs = 2"
    by (elim satisfiesE) auto
  from capacity_guaranteed [OF g(1)] g show ?thesis by blast
qed

end
