(* ===== verification/KV_Queries.thy ===== *)
theory KV_Queries
  imports KV_Capacity
begin

text \<open>
  What the rest of the engine asks of the KV-cache configuration: the queries of
  \<^verbatim>\<open>vllm/v1/kv_cache_interface.py\<close> on specs and on \<open>KVCacheConfig\<close>, the width of a block table and
  the blocks a longest request takes.  The configuration of the scheduler, which keeps one spec
  per group, and those of the workers give the same answers.
\<close>

section \<open>Quantisation modes\<close>

definition is_per_token_head :: "kv_quant_mode \<Rightarrow> bool" where
  "is_per_token_head q \<longleftrightarrow> q \<in> {INT8_PER_TOKEN_HEAD, FP8_PER_TOKEN_HEAD, INT4_PER_TOKEN_HEAD}"

definition is_nvfp4 :: "kv_quant_mode \<Rightarrow> bool" where
  "is_nvfp4 q \<longleftrightarrow> q = NVFP4"

definition is_turboquant :: "kv_quant_mode \<Rightarrow> bool" where
  "is_turboquant q \<longleftrightarrow> q \<in> {TURBOQUANT_K8V4, TURBOQUANT_4BIT_NC, TURBOQUANT_K3V4_NC, TURBOQUANT_3BIT_NC}"

definition startswith :: "string \<Rightarrow> string \<Rightarrow> bool" where
  "startswith s p \<longleftrightarrow> take (length p) s = p"

text \<open>\<open>str.upper\<close> on the letters of ASCII.\<close>

definition upper :: "string \<Rightarrow> string" where
  "upper s = map (\<lambda>ch. if 97 \<le> (of_char ch :: nat) \<and> (of_char ch :: nat) \<le> 122 then char_of ((of_char ch :: nat) - 32) else ch) s"

text \<open>The members whose name begins with \<open>TURBOQUANT_\<close>, by name.\<close>

definition turboquant_names :: "(string \<times> kv_quant_mode) list" where
  "turboquant_names = [(''TURBOQUANT_K8V4'', TURBOQUANT_K8V4), (''TURBOQUANT_4BIT_NC'', TURBOQUANT_4BIT_NC),
     (''TURBOQUANT_K3V4_NC'', TURBOQUANT_K3V4_NC), (''TURBOQUANT_3BIT_NC'', TURBOQUANT_3BIT_NC)]"

definition get_kv_quant_mode :: "string \<Rightarrow> kv_quant_mode res" where
  "get_kv_quant_mode s =
     (if s = ''int4_per_token_head'' then Inr INT4_PER_TOKEN_HEAD
      else if s = ''int8_per_token_head'' then Inr INT8_PER_TOKEN_HEAD
      else if s = ''fp8_per_token_head'' then Inr FP8_PER_TOKEN_HEAD
      else if startswith s ''nvfp4'' then Inr NVFP4
      else if startswith s ''turboquant_'' then dict_get turboquant_names (upper s)
      else if startswith s ''fp8'' then Inr FP8_PER_TENSOR
      else Inr NONE)"

definition is_quantized_kv_cache :: "string \<Rightarrow> bool res" where
  "is_quantized_kv_cache s = bindE (get_kv_quant_mode s) (\<lambda>q. Inr (q \<noteq> NONE))"

definition kv_cache_uses_per_token_head_scales :: "string \<Rightarrow> bool res" where
  "kv_cache_uses_per_token_head_scales s = bindE (get_kv_quant_mode s) (\<lambda>q. Inr (is_per_token_head q))"

section \<open>Kinds\<close>

datatype kv_cache_spec_kind = FULL_ATTENTION | MLA_ATTENTION | SLIDING_WINDOW | SLIDING_WINDOW_MLA | MAMBA
  | CHUNKED_LOCAL_ATTENTION | SINK_FULL_ATTENTION | ENCODER_ONLY_ATTENTION | CROSS_ATTENTION | UNKNOWN

fun layer_kind :: "layer_spec \<Rightarrow> kv_cache_spec_kind" where
  "layer_kind (MambaSpec m) = MAMBA"
| "layer_kind (Attn a k) = (case k of
     SlidingWindowMLASpec w e m \<Rightarrow> SLIDING_WINDOW_MLA
   | MLAAttentionSpec f m b \<Rightarrow> MLA_ATTENTION
   | HiddenStateCacheSpec f m b \<Rightarrow> MLA_ATTENTION
   | SinkFullAttentionSpec f n \<Rightarrow> SINK_FULL_ATTENTION
   | FullAttentionSpec f \<Rightarrow> FULL_ATTENTION
   | RSWASpec f w \<Rightarrow> FULL_ATTENTION
   | ChunkedLocalAttentionSpec n \<Rightarrow> CHUNKED_LOCAL_ATTENTION
   | SlidingWindowSpec w e \<Rightarrow> SLIDING_WINDOW
   | EncoderOnlyAttentionSpec \<Rightarrow> ENCODER_ONLY_ATTENTION
   | CrossAttentionSpec \<Rightarrow> CROSS_ATTENTION
   | CircularBufferSpec \<Rightarrow> UNKNOWN)"

text \<open>With no layers, the set of base specs is empty and the kind unknown.\<close>

definition get_kv_cache_spec_kind :: "group_spec \<Rightarrow> kv_cache_spec_kind" where
  "get_kv_cache_spec_kind g = (case g of
     LayerSpec s \<Rightarrow> layer_kind s
   | UniformTypeKVCacheSpecs bs d \<Rightarrow>
       (case remdups (map (layer_kind \<circ> snd) d) of
          [k] \<Rightarrow> k
        | _ \<Rightarrow> if d \<noteq> [] \<and> list_all (\<lambda>x. full_of (snd x) \<noteq> None) d then FULL_ATTENTION else UNKNOWN))"

definition is_full_attention_spec :: "group_spec \<Rightarrow> bool" where
  "is_full_attention_spec g \<longleftrightarrow> iter_layer_specs g \<noteq> [] \<and> list_all (\<lambda>s. full_of s \<noteq> None) (iter_layer_specs g)"

definition get_kv_cache_spec_sliding_window :: "group_spec \<Rightarrow> int option" where
  "get_kv_cache_spec_sliding_window g = (case g of
     LayerSpec s \<Rightarrow> map_option fst (swa_of s)
   | UniformTypeKVCacheSpecs bs d \<Rightarrow> (case remdups (map (map_option fst \<circ> swa_of \<circ> snd) d) of [w] \<Rightarrow> w | _ \<Rightarrow> None))"

section \<open>Queries on a configuration\<close>

definition transfer_group_ids :: "cache_config \<Rightarrow> nat list" where
  "transfer_group_ids cfg = map fst (filter (enable_kv_transfer \<circ> snd) (enumerate 0 (kv_cache_groups cfg)))"

definition transfer_groups :: "cache_config \<Rightarrow> cache_group list" where
  "transfer_groups cfg = map (\<lambda>i. kv_cache_groups cfg ! i) (transfer_group_ids cfg)"

text \<open>A dict comprehension: for a layer that two groups name, the last one counts.\<close>

definition transfer_group_index_by_layer :: "cache_config \<Rightarrow> (string \<rightharpoonup> nat)" where
  "transfer_group_index_by_layer cfg =
     map_of (rev [(name, i). (i, g) \<leftarrow> enumerate 0 (transfer_groups cfg), name \<leftarrow> layer_names g])"

definition select_transfer_block_ids :: "cache_config \<Rightarrow> 'a list \<Rightarrow> 'a list res" where
  "select_transfer_block_ids cfg block_ids =
     (if length block_ids \<noteq> length (kv_cache_groups cfg) then Inl ValueError
      else Inr (map (\<lambda>i. block_ids ! i) (transfer_group_ids cfg)))"

definition has_mamba_layers :: "cache_config \<Rightarrow> bool" where
  "has_mamba_layers cfg \<longleftrightarrow> list_ex (\<lambda>g. list_ex is_mamba (iter_layer_specs (kv_cache_spec g))) (kv_cache_groups cfg)"

definition kv_cache_precisions :: "cache_config \<Rightarrow> (torch_dtype \<times> kv_quant_mode) list" where
  "kv_cache_precisions cfg =
     [(dtype a, attn.kv_quant_mode a). g \<leftarrow> kv_cache_groups cfg, s \<leftarrow> iter_layer_specs (kv_cache_spec g),
        a \<leftarrow> (case attn_of s of None \<Rightarrow> [] | Some a \<Rightarrow> [a])]"

definition has_mixed_precision_kv_cache :: "cache_config \<Rightarrow> bool" where
  "has_mixed_precision_kv_cache cfg \<longleftrightarrow> 1 < length (remdups (kv_cache_precisions cfg))"

definition config_needs_kv_cache_zeroing :: "cache_config \<Rightarrow> bool" where
  "config_needs_kv_cache_zeroing cfg \<longleftrightarrow> has_mamba_layers cfg \<or> has_mixed_precision_kv_cache cfg"

text \<open>The index of a layer is that of a transferable group that names it.\<close>

lemma transfer_index_sound:
  assumes "transfer_group_index_by_layer cfg name = Some i"
  shows "i < length (transfer_groups cfg) \<and> name \<in> set (layer_names (transfer_groups cfg ! i))"
proof -
  from map_of_SomeD [OF assms [unfolded transfer_group_index_by_layer_def]]
  obtain g where "(i, g) \<in> set (enumerate 0 (transfer_groups cfg))" "name \<in> set (layer_names g)" by auto
  then show ?thesis by (auto simp: in_set_enumerate_eq)
qed

lemma transfer_group_ids_mem:
  "i \<in> set (transfer_group_ids cfg) \<longleftrightarrow> i < length (kv_cache_groups cfg) \<and> enable_kv_transfer (kv_cache_groups cfg ! i)"
  by (force simp: transfer_group_ids_def in_set_enumerate_eq image_iff)

text \<open>The selected block ids are those of the transferable groups, in the order of these groups.\<close>

lemma select_transfer_block_ids_nth:
  assumes "select_transfer_block_ids cfg block_ids = Inr ids" "i < length (transfer_groups cfg)"
  shows "\<exists>j < length block_ids. ids ! i = block_ids ! j \<and> transfer_groups cfg ! i = kv_cache_groups cfg ! j
    \<and> enable_kv_transfer (kv_cache_groups cfg ! j)"
proof -
  have i: "i < length (transfer_group_ids cfg)" using assms(2) by (simp add: transfer_groups_def)
  from assms(1) have ids: "length block_ids = length (kv_cache_groups cfg)" "ids = map (\<lambda>i. block_ids ! i) (transfer_group_ids cfg)"
    by (auto simp: select_transfer_block_ids_def split: if_splits)
  have "transfer_group_ids cfg ! i \<in> set (transfer_group_ids cfg)" using i by simp
  with ids i show ?thesis by (auto simp: transfer_groups_def transfer_group_ids_mem)
qed

section \<open>Block tables\<close>

fun max_num_blocks_per_req :: "vllm_config \<Rightarrow> int \<Rightarrow> layer_spec \<Rightarrow> int res" where
  "max_num_blocks_per_req c max_len (Attn a k) =
     (if k = CircularBufferSpec then Inr 1
      else divE (block_size a * decode_context_parallel_size c) (cdiv max_len (block_size a * decode_context_parallel_size c)))"
| "max_num_blocks_per_req c max_len (MambaSpec m) =
     (if cache_mamba_mode c = ''align''
      then divE (mamba_block_size m) (cdiv max_len (mamba_block_size m) + num_speculative_blocks m)
      else bindE (max_memory_usage_bytes c (MambaSpec m)) (\<lambda>mem. bindE (page_size_bytes (MambaSpec m)) (\<lambda>page. divE page (cdiv mem page))))"

definition group_max_num_blocks_per_req :: "vllm_config \<Rightarrow> int \<Rightarrow> group_spec \<Rightarrow> int res" where
  "group_max_num_blocks_per_req c max_len g = (case g of
     LayerSpec s \<Rightarrow> max_num_blocks_per_req c max_len s
   | UniformTypeKVCacheSpecs bs d \<Rightarrow>
       bindE (mapE (max_num_blocks_per_req c max_len \<circ> snd) d) (\<lambda>ws. case remdups ws of [w] \<Rightarrow> Inr w | _ \<Rightarrow> Inl AssertionError))"

text \<open>\<open>max_memory_usage_bytes\<close> of a group.\<close>

definition group_max_memory_usage_bytes :: "vllm_config \<Rightarrow> group_spec \<Rightarrow> int res" where
  "group_max_memory_usage_bytes c g = (case g of
     LayerSpec s \<Rightarrow> max_memory_usage_bytes c s
   | UniformTypeKVCacheSpecs bs d \<Rightarrow>
       bindE (mapE (layer_pages c \<circ> snd) d) (\<lambda>pages. bindE (py_max pages) (\<lambda>max_num_pages.
       bindE (group_page_size g) (\<lambda>page. Inr (max_num_pages * page)))))"

text \<open>The divisor of \<open>get_max_concurrency_for_kv_cache_config\<close>.\<close>

definition num_blocks_per_request :: "vllm_config \<Rightarrow> cache_config \<Rightarrow> int res" where
  "num_blocks_per_request c cfg =
     bindE (mapE (\<lambda>g. bindE (group_max_memory_usage_bytes c (kv_cache_spec g)) (\<lambda>mem.
       bindE (group_page_size (kv_cache_spec g)) (\<lambda>page. divE page (cdiv mem page)))) (kv_cache_groups cfg)) (\<lambda>ns. Inr (sum_list ns))"

lemma remdups_singleton: "set xs = {x} \<Longrightarrow> remdups xs = [x]"
proof -
  assume "set xs = {x}"
  then have "set (remdups xs) = {x}" "length (remdups xs) = 1" by (simp_all add: length_remdups_card_conv)
  then show "remdups xs = [x]" by (cases "remdups xs") auto
qed

lemma collection_class:
  assumes "is_uniform_with_collection s0 specs = Inr True" "t \<in> set specs"
  shows "is_mamba t = is_mamba s0" "is_circular t = is_circular s0"
proof -
  have cls: "\<not> is_mamba u \<and> \<not> is_circular u" if "full_of u \<noteq> None \<or> swa_of u \<noteq> None \<or> swmla_of u \<noteq> None \<or> chunked_of u \<noteq> None \<or> is_cross u" for u
    using that by (cases u) (auto split: attn_kind.splits)
  have "is_mamba t = is_mamba s0 \<and> is_circular t = is_circular s0"
  proof (cases s0)
    case (MambaSpec m)
    with assms have "mamba_uniform m t = Inr True" by (auto simp: is_uniform_with_collection_def dest: allE_True)
    then show ?thesis using MambaSpec by (cases t) (auto simp: mamba_uniform_def)
  next
    case (Attn a k)
    then show ?thesis using assms cls [of t]
      by (cases k; cases t) (auto simp: is_uniform_with_collection_def uniform_type_base_def list_all_iff)
  qed
  then show "is_mamba t = is_mamba s0" "is_circular t = is_circular s0" by simp_all
qed

lemma collection_widths:
  assumes "is_uniform_with_collection s0 specs = Inr True" "s \<in> set specs" "t \<in> set specs" "layer_block_size s = layer_block_size t"
    and "max_num_blocks_per_req c n s = Inr v" "max_num_blocks_per_req c n t = Inr w"
  shows "v = w"
proof (cases "is_mamba s")
  case False
  then show ?thesis using assms(4-6) collection_class [OF assms(1,2)] collection_class [OF assms(1,3)]
    by (cases s; cases t) (auto simp: divE_Inr split: if_splits)
next
  case True
  then obtain m m' where m: "s = MambaSpec m" "t = MambaSpec m'"
    using collection_class(1) [OF assms(1,2)] collection_class(1) [OF assms(1,3)] by (cases s; cases t) auto
  have blocks: "layer_blocks c' s = layer_blocks c' t" for c'
    using collection_blocks [OF assms(1-4), of 0 c'] by (simp add: m extra_tokens_are_def)
  show ?thesis
  proof (cases "cache_mamba_mode c = ''align''")
    case True
    from blocks [of "c\<lparr>cache_mamba_mode := ''none''\<rparr>"] have "num_speculative_blocks m = num_speculative_blocks m'"
      by (simp add: m layer_blocks_def)
    with True assms(4-6) show ?thesis by (simp add: m divE_Inr)
  next
    case False
    with assms(5,6) have "layer_pages c s = Inr v" "layer_pages c t = Inr w" by (simp_all add: m layer_pages_def)
    then show ?thesis using blocks layer_pages_blocks by metis
  qed
qed

text \<open>The layers of a group of one type need block tables of one width, so the assertion holds.\<close>

lemma block_table_width:
  assumes "from_specs d = Inr (Some g)" "mapE (max_num_blocks_per_req c n \<circ> snd) d = Inr ws"
  shows "\<exists>w. group_max_num_blocks_per_req c n g = Inr w \<and> (\<forall>x \<in> set d. max_num_blocks_per_req c n (snd x) = Inr w)"
proof -
  from from_specs_Some [OF assms(1)] obtain bs where g: "d \<noteq> []" "is_uniform_type d = Inr True" "g = UniformTypeKVCacheSpecs bs d" by blast
  obtain s0 where s0: "is_uniform_with_collection s0 (map snd d) = Inr True"
    using g(2) by (auto simp: is_uniform_type_def split: if_splits list.splits)
  obtain x w where x: "x \<in> set d" "max_num_blocks_per_req c n (snd x) = Inr w"
    using g(1) mapE_mem [OF assms(2), of "hd d"] by (cases d) auto
  have eq: "v = w" if "y \<in> set d" "max_num_blocks_per_req c n (snd y) = Inr v" for y v
    by (rule collection_widths [OF s0 _ _ uniform_block_size [OF g(2) that(1) x(1)] that(2) x(2)]) (use that(1) x(1) in auto)
  have "max_num_blocks_per_req c n (snd y) = Inr w" if "y \<in> set d" for y
    using mapE_mem [OF assms(2) that] eq [OF that] by auto
  moreover have "set ws = {w}"
  proof -
    have "v = w" if v: "v \<in> set ws" for v using mapE_mem_result [OF assms(2) v] eq by auto
    moreover have "w \<in> set ws" using mapE_mem [OF assms(2) x(1)] x(2) by auto
    ultimately show ?thesis by blast
  qed
  then have "remdups ws = [w]" by (rule remdups_singleton)
  ultimately show ?thesis using assms(2) g(3) by (auto simp: group_max_num_blocks_per_req_def)
qed

section \<open>The configuration of the scheduler\<close>

lemma request_blocks_group:
  "group_pages c g = Inr p \<Longrightarrow> bindE (group_max_memory_usage_bytes c (kv_cache_spec g)) (\<lambda>mem.
     bindE (group_page_size (kv_cache_spec g)) (\<lambda>page. divE page (cdiv mem page))) = Inr m \<Longrightarrow> m = p"
  by (cases "kv_cache_spec g")
    (auto simp: group_pages_def group_max_memory_usage_bytes_def layer_pages_def bindE_eq_Inr divE_Inr cdiv_mult_self simp del: group_page_size.simps(2))

lemma scheduler_group_blocks:
  assumes "group_typed (extra_tokens_are e) g" "project_group w g = Inr h" "group_pages c h = Inr p"
  shows "\<exists>h' s. scheduler_group h = Inr h' \<and> kv_cache_spec h' = LayerSpec s \<and> layer_pages c s = Inr p"
proof (cases "kv_cache_spec h")
  case (LayerSpec s)
  then show ?thesis using assms(3) by (simp add: scheduler_group_def group_pages_def)
next
  case (UniformTypeKVCacheSpecs bs d)
  with assms(3) obtain ps where ps: "mapE (layer_pages c \<circ> snd) d = Inr ps" "py_max ps = Inr p"
    by (auto simp: group_pages_def bindE_eq_Inr)
  then obtain x d' where d: "d = x # d'" by (cases d) (auto simp: py_max_def)
  with ps(1) obtain q where q: "layer_pages c (snd x) = Inr q" by (auto simp: bindE_eq_Inr)
  have "layer_blocks c (snd x) = group_blocks c g"
    by (rule projected_blocks [OF assms(1,2)]) (simp add: UniformTypeKVCacheSpecs d)
  with layer_pages_blocks [OF q] projected_pages [OF assms] q have "layer_pages c (snd x) = Inr p" by simp
  then show ?thesis using d by (cases x) (simp add: scheduler_group_def UniformTypeKVCacheSpecs)
qed

lemma scheduler_groups_blocks:
  assumes "list_all (group_typed (extra_tokens_are e)) groups" "project_kv_cache_groups_to_worker groups w = Inr hs"
    and "mapE (group_pages c) hs = Inr pages"
  shows "\<exists>hs'. mapE scheduler_group hs = Inr hs' \<and> mapE (\<lambda>g. bindE (group_max_memory_usage_bytes c (kv_cache_spec g)) (\<lambda>mem.
     bindE (group_page_size (kv_cache_spec g)) (\<lambda>page. divE page (cdiv mem page)))) hs' = Inr pages"
  using assms unfolding project_kv_cache_groups_to_worker_def
proof (induction groups arbitrary: hs pages)
  case (Cons g groups)
  then obtain h hs1 p ps where h: "project_group w g = Inr h" "mapE (project_group w) groups = Inr hs1" "hs = h # hs1"
    "group_pages c h = Inr p" "mapE (group_pages c) hs1 = Inr ps" "pages = p # ps"
    by (auto simp: bindE_eq_Inr)
  from Cons.prems(1) have "group_typed (extra_tokens_are e) g" "list_all (group_typed (extra_tokens_are e)) groups" by simp_all
  with scheduler_group_blocks [OF _ h(1,4)] Cons.IH [OF _ h(2,5)] show ?case
    by (fastforce simp: h(3,6) group_max_memory_usage_bytes_def layer_pages_def)
qed simp

lemma request_blocks_worker:
  assumes "mapE (group_pages c) gs = Inr pages" "mapE (\<lambda>g. bindE (group_max_memory_usage_bytes c (kv_cache_spec g)) (\<lambda>mem.
     bindE (group_page_size (kv_cache_spec g)) (\<lambda>page. divE page (cdiv mem page)))) gs = Inr ns"
  shows "ns = pages"
  using assms by (induction gs arbitrary: pages ns) (auto simp: bindE_eq_Inr dest: request_blocks_group [unfolded bindE_eq_Inr])

text \<open>
  C9. The scheduler and the workers agree on the capacity: the configuration of the scheduler can
  be built, has the number of blocks of every worker, and although it keeps one spec of each group
  only, the blocks it computes for a longest request are those of each worker; they fit beside the
  null block.
\<close>

theorem scheduler_config_agrees:
  assumes "get_kv_cache_configs c specs mems = Inr (c', cfgs)"
  shows "\<exists>s n. generate_scheduler_kv_cache_config cfgs = Inr s \<and> num_blocks_per_request c' s = Inr n \<and> n + 1 \<le> num_blocks s
    \<and> (\<forall>cfg \<in> set cfgs. num_blocks cfg = num_blocks s \<and> (\<forall>m. num_blocks_per_request c' cfg = Inr m \<longrightarrow> m = n))"
proof -
  from configs_of_groups [OF assms] obtain n e groups where g: "list_all (group_typed (extra_tokens_are e)) groups" "cfgs \<noteq> []"
    "sum_list (map (group_blocks c') groups) + 1 \<le> n"
    "\<forall>cfg \<in> set cfgs. num_blocks cfg = n \<and> mapE (group_pages c') (kv_cache_groups cfg) = Inr (map (group_blocks c') groups)
       \<and> (\<exists>w. project_kv_cache_groups_to_worker groups w = Inr (kv_cache_groups cfg))" .
  obtain cfg rest where cfgs: "cfgs = cfg # rest" using g(2) by (cases cfgs) auto
  then obtain w where w: "project_kv_cache_groups_to_worker groups w = Inr (kv_cache_groups cfg)"
    "mapE (group_pages c') (kv_cache_groups cfg) = Inr (map (group_blocks c') groups)" "num_blocks cfg = n" using g(4) by auto
  from scheduler_groups_blocks [OF g(1) w(1,2)] obtain hs where hs: "mapE scheduler_group (kv_cache_groups cfg) = Inr hs"
    "num_blocks_per_request c' (cfg\<lparr>kv_cache_groups := hs\<rparr>) = Inr (sum_list (map (group_blocks c') groups))"
    by (auto simp: num_blocks_per_request_def)
  have "generate_scheduler_kv_cache_config cfgs = Inr (cfg\<lparr>kv_cache_groups := hs\<rparr>)"
    using g(4) hs(1) w(3) by (auto simp: generate_scheduler_kv_cache_config_def cfgs list_all_iff)
  moreover have "m = sum_list (map (group_blocks c') groups)" if "x \<in> set cfgs" "num_blocks_per_request c' x = Inr m" for x m
    using that g(4) request_blocks_worker by (fastforce simp: num_blocks_per_request_def bindE_eq_Inr)
  ultimately show ?thesis using hs(2) g(3,4) w(3) by (intro exI conjI) auto
qed

theorem scheduler_config_agrees_witness:
  "\<exists>c cfgs s n. get_kv_cache_configs (sample_vllm BLHNC) [sample_model, sample_stage] [400, 300] = Inr (c, cfgs) \<and> length cfgs = 2
    \<and> generate_scheduler_kv_cache_config cfgs = Inr s \<and> num_blocks_per_request c s = Inr n \<and> n + 1 \<le> num_blocks s"
proof -
  have "satisfies (\<lambda>x. length (snd x) = 2) (get_kv_cache_configs (sample_vllm BLHNC) [sample_model, sample_stage] [400, 300])" by code_simp
  then obtain c cfgs where g: "get_kv_cache_configs (sample_vllm BLHNC) [sample_model, sample_stage] [400, 300] = Inr (c, cfgs)" "length cfgs = 2"
    by (elim satisfiesE) auto
  from scheduler_config_agrees [OF g(1)] g show ?thesis by blast
qed

end
