(* ===== verification/KV_Findings.thy ===== *)
theory KV_Findings
  imports KV_Queries
begin

text \<open>
  Inputs on which the start-up of the KV cache fails or accepts what it means to reject.
\<close>

text \<open>
  A pipeline stage without any cached layer: its projected groups are all empty but their list is
  not, so the guards \<open>if not groups\<close> do not apply and the widest group has zero bytes.
\<close>

lemma stage_without_layers: "get_kv_cache_configs (sample_vllm BLHNC) [sample_model, []] [400, 400] = Inl AssertionError"
  by code_simp

text \<open>
  A stage that holds no layer of a group with one spec per layer keeps the spec of the whole group,
  so tensors are planned for layers it does not have and the allocation finds no group for them.
  Here the two sliding-window layers are put into two groups, of which each stage holds one.
\<close>

definition stage_models :: "layer_spec odict list" where
  "stage_models = [[(''full.0'', sample_full 4 1), (''full.1'', sample_full 4 2), (''swa.0'', sample_swa 4 1 6)],
                   [(''swa.1'', sample_swa 4 1 6)]]"

lemma foreign_layers_planned:
  "satisfies (\<lambda>(c, cfgs). length cfgs = 2 \<and> list_all (\<lambda>cfg. allocate_kv_cache True cfg BLHNC = Inl StopIteration) cfgs)
     (get_kv_cache_configs (sample_vllm BLHNC) stage_models [4000, 4000])"
  by code_simp

text \<open>\<open>SlidingWindowMLASpec.merge\<close> takes layers of different block and page sizes for one spec.\<close>

lemma swmla_merge_mixes_sizes:
  "satisfies (\<lambda>s. layer_block_size s = 4 \<and> page_size_bytes s \<noteq> page_size_bytes (sample_swmla 8 1)) (merge [sample_swmla 4 1, sample_swmla 8 1])"
  by code_simp

text \<open>
  Promoted to full attention, two window sizes make \<open>merge_window_sizes\<close> raise a \<open>ValueError\<close>, which
  \<open>is_kv_cache_spec_uniform\<close> does not catch, although the promoted layers are of one type.
\<close>

definition two_windows :: "layer_spec odict" where
  "two_windows = [(''full.0'', sample_full 4 1), (''swa.0'', sample_swa 4 1 6), (''swa.1'', sample_swa 4 1 8)]"

definition promoted_windows :: "layer_spec odict" where
  "promoted_windows = [(''full.0'', sample_full 4 1),
     (''swa.0'', Attn (sample_attn 4 1) (FullAttentionSpec (plain_full\<lparr>sliding_window := Some 6\<rparr>))),
     (''swa.1'', Attn (sample_attn 4 1) (FullAttentionSpec (plain_full\<lparr>sliding_window := Some 8\<rparr>)))]"

lemma two_windows_not_unified:
  "get_kv_cache_groups (sample_vllm BLHNC\<lparr>disable_hybrid_kv_cache_manager := True\<rparr>) two_windows = Inl ValueError
    \<and> is_kv_cache_spec_uniform promoted_windows = Inl ValueError \<and> is_uniform_type promoted_windows = Inr True"
  by code_simp

text \<open>
  Unifying page sizes scales the block of a layer that is already padded, but its page stays the
  padded one, and the final check fails.
\<close>

lemma padded_layer_not_unified:
  "unify_kv_cache_spec_page_size [(''a'', sample_full 4 4), (''b'', Attn (sample_attn 4 1\<lparr>page_size_padded := Some 32\<rparr>) (SlidingWindowSpec 6 0))]
     = Inl AssertionError"
  by code_simp

text \<open>\<open>SinkFullAttentionSpec.merge\<close> forgets \<open>tokens_per_state\<close>, so it rejects even a single compressed layer.\<close>

lemma sink_merge_rejects:
  "merge [Attn (sample_attn 4 1\<lparr>tokens_per_state := IntTps 2\<rparr>) (SinkFullAttentionSpec plain_full (Some 1))] = Inl AssertionError"
  by code_simp

text \<open>
  A sliding-window layer and a sliding-window MLA layer of the same window are of one type although
  their registered base specs differ, so the kind of their group is unknown.
\<close>

definition mixed_windows :: "layer_spec odict" where
  "mixed_windows = [(''swa.0'', sample_swa 4 1 8), (''swa.1'', sample_swmla 4 1)]"

lemma mixed_window_kind:
  "is_uniform_type mixed_windows = Inr True \<and> get_kv_cache_spec_kind (UniformTypeKVCacheSpecs 4 mixed_windows) = UNKNOWN"
  by code_simp

end
