(* ===== verification/Ngram.thy ===== *)
theory Ngram
  imports Prelude
begin

text \<open>
  \<^verbatim>\<open>vllm/v1/spec_decode/ngram_proposer.py\<close>: prompt-lookup drafting.  The proposer looks for an earlier
  occurrence of the last tokens of a request and drafts the tokens that followed it.  The search
  is a failure-function loop over the reversed tokens, capped at \<open>max_ngram\<close>; it is shown to return
  the longest matching n-gram at its earliest position.  The compiled arrays are lists; a read
  beyond an array would be an \<open>IndexError\<close>.
\<close>

section \<open>The search\<close>

partial_function (option) ngram_loop ::
    "int list \<Rightarrow> nat \<Rightarrow> nat \<Rightarrow> nat \<Rightarrow> nat \<Rightarrow> nat \<Rightarrow> nat list \<Rightarrow> (nat \<times> nat) res option"
where
  "ngram_loop tokens max_ngram i prev_lps longest_ngram position lps =
     (if length tokens \<le> i then Some (Inr (longest_ngram, position))
      else if length tokens \<le> prev_lps then Some (Inl IndexError)
      else if tokens ! prev_lps = tokens ! i
      then let prev_lps' = prev_lps + 1;
               lps' = (if i < max_ngram then lps[i := prev_lps'] else lps);
               longest_ngram' = (if longest_ngram \<le> prev_lps' then prev_lps' else longest_ngram);
               position' = (if longest_ngram \<le> prev_lps' then i else position)
           in ngram_loop tokens max_ngram (i + 1)
                (if prev_lps' = max_ngram then lps' ! (max_ngram - 1) else prev_lps') longest_ngram' position' lps'
      else if prev_lps \<noteq> 0
      then (if length lps < prev_lps then Some (Inl IndexError)
            else ngram_loop tokens max_ngram i (lps ! (prev_lps - 1)) longest_ngram position lps)
      else ngram_loop tokens max_ngram (i + 1) 0 longest_ngram position lps)"

declare ngram_loop.simps [code]

definition find_longest_matched_ngram_and_propose_tokens :: "int list \<Rightarrow> int \<Rightarrow> int \<Rightarrow> int \<Rightarrow> int \<Rightarrow> int list res option" where
  "find_longest_matched_ngram_and_propose_tokens origin_tokens min_ngram max_ngram max_model_len k0 =
     (let total_token = int (length origin_tokens); k = min k0 (max_model_len - total_token)
      in if total_token < min_ngram then Some (Inr [])
      else if k \<le> 0 then Some (Inr [])
      else if max_ngram < 0 then Some (Inl ValueError)
      else case ngram_loop (rev origin_tokens) (nat max_ngram) 1 0 0 0 (replicate (nat max_ngram) 0) of
        None \<Rightarrow> None
      | Some (Inl e) \<Rightarrow> Some (Inl e)
      | Some (Inr (longest_ngram, position)) \<Rightarrow>
          if int longest_ngram < min_ngram then Some (Inr [])
          else let start_position = total_token - 1 - int position + int longest_ngram
               in Some (Inr (py_slice origin_tokens start_position (start_position + min k (total_token - start_position)))))"

text \<open>
  \<open>propose\<close> with \<open>batch_propose\<close>: a request is given by its sampled tokens, \<open>num_tokens_no_spec\<close> and its row
  of \<open>token_ids_cpu\<close>.  The parallel loop writes the draft of each request into its own row of a
  buffer, from which the caller reads it back.
\<close>

type_synonym ngram_request = "int list \<times> int \<times> int list"

definition propose_one :: "int \<Rightarrow> int \<Rightarrow> int \<Rightarrow> int \<Rightarrow> ngram_request \<Rightarrow> int list res option" where
  "propose_one min_n max_n max_model_len k r = (case r of (sampled_ids, n, row) \<Rightarrow>
     if sampled_ids = [] \<or> max_model_len \<le> n then Some (Inr [])
     else find_longest_matched_ngram_and_propose_tokens (py_slice row 0 n) min_n max_n max_model_len k)"

fun propose_all :: "int \<Rightarrow> int \<Rightarrow> int \<Rightarrow> int \<Rightarrow> ngram_request list \<Rightarrow> int list list res option" where
  "propose_all min_n max_n max_model_len k [] = Some (Inr [])"
| "propose_all min_n max_n max_model_len k (r # rs) = (case propose_one min_n max_n max_model_len k r of
     None \<Rightarrow> None
   | Some (Inl e) \<Rightarrow> Some (Inl e)
   | Some (Inr d) \<Rightarrow> (case propose_all min_n max_n max_model_len k rs of
       None \<Rightarrow> None | Some (Inl e) \<Rightarrow> Some (Inl e) | Some (Inr ds) \<Rightarrow> Some (Inr (d # ds))))"

definition propose :: "int \<Rightarrow> int \<Rightarrow> int \<Rightarrow> int \<Rightarrow> int \<Rightarrow> ngram_request list \<Rightarrow> int list list res option" where
  "propose self_k min_n max_n max_model_len num_speculative_tokens rs =
     (if self_k < num_speculative_tokens then Some (Inl AssertionError)
      else propose_all min_n max_n max_model_len num_speculative_tokens rs)"

section \<open>Borders\<close>

text \<open>The first \<open>v\<close> tokens are a proper suffix of the first \<open>i\<close>.\<close>

definition border :: "'a list \<Rightarrow> nat \<Rightarrow> nat \<Rightarrow> bool" where
  "border ts i v \<longleftrightarrow> v < i \<and> (\<forall>x < v. ts ! x = ts ! (i - v + x))"

lemma border_0 [simp]: "border ts i 0 \<longleftrightarrow> 0 < i"
  by (simp add: border_def)

lemma border_less: "border ts i v \<Longrightarrow> v < i"
  by (simp add: border_def)

lemma border_Suc: "border ts (Suc i) (Suc v) \<longleftrightarrow> border ts i v \<and> ts ! v = ts ! i"
  by (auto simp: border_def less_Suc_eq)

lemma border_trans:
  assumes "border ts i u" "border ts u v"
  shows "border ts i v"
  unfolding border_def
proof (intro conjI allI impI)
  show "v < i" using assms by (simp add: border_def)
  fix x assume x: "x < v"
  have "ts ! x = ts ! (u - v + x)" "u - v + x < u" using assms(2) x by (auto simp: border_def)
  moreover have "i - u + (u - v + x) = i - v + x" using assms by (auto simp: border_def)
  ultimately show "ts ! x = ts ! (i - v + x)" using assms(1) by (auto simp: border_def)
qed

text \<open>Of two borders the shorter one is a border of the longer one.\<close>

lemma border_chain:
  assumes "border ts i u" "border ts i v" "v < u"
  shows "border ts u v"
  unfolding border_def
proof (intro conjI allI impI)
  fix x assume x: "x < v"
  have "ts ! (u - v + x) = ts ! (i - u + (u - v + x))" using assms x by (auto simp: border_def)
  moreover have "i - u + (u - v + x) = i - v + x" using assms by (auto simp: border_def)
  ultimately show "ts ! x = ts ! (u - v + x)" using assms(2) x by (auto simp: border_def)
qed (rule assms(3))

section \<open>The invariant of the loop\<close>

text \<open>\<open>prev_lps\<close> is a border of the prefix, and the longer ones below the cap do not extend.\<close>

definition candidate :: "'a list \<Rightarrow> nat \<Rightarrow> nat \<Rightarrow> nat \<Rightarrow> bool" where
  "candidate ts m i u \<longleftrightarrow> border ts i u \<and> u < m \<and> (\<forall>v. border ts i v \<longrightarrow> v < m \<longrightarrow> u < v \<longrightarrow> ts ! v \<noteq> ts ! i)"

text \<open>The table holds the longest border of each prefix up to the cap.\<close>

definition table_ok :: "'a list \<Rightarrow> nat \<Rightarrow> nat \<Rightarrow> nat list \<Rightarrow> bool" where
  "table_ok ts m i lps \<longleftrightarrow> length lps = m
     \<and> (\<forall>j < m. j < i \<longrightarrow> border ts (Suc j) (lps ! j) \<and> (\<forall>v. border ts (Suc j) v \<longrightarrow> v \<le> lps ! j))
     \<and> (\<forall>j < m. i \<le> j \<longrightarrow> lps ! j = 0)"

text \<open>The best match so far: the longest up to the cap, at the last position.\<close>

definition best_so_far :: "'a list \<Rightarrow> nat \<Rightarrow> nat \<Rightarrow> nat \<Rightarrow> nat \<Rightarrow> bool" where
  "best_so_far ts m i longest pos \<longleftrightarrow> longest \<le> m \<and> (0 < longest \<longrightarrow> 0 < pos \<and> pos < i \<and> border ts (Suc pos) longest)
     \<and> (\<forall>j v. 0 < j \<longrightarrow> j < i \<longrightarrow> border ts (Suc j) v \<longrightarrow> v \<le> m \<longrightarrow> v \<le> longest \<and> (v = longest \<longrightarrow> 0 < v \<longrightarrow> j \<le> pos))"

lemma longest_extension:
  assumes "candidate ts m i u" "ts ! u = ts ! i" "border ts (Suc i) v" "v \<le> m"
  shows "v \<le> Suc u"
proof (cases v)
  case (Suc w)
  with assms(3) have "border ts i w" "ts ! w = ts ! i" by (simp_all add: border_Suc)
  then have "\<not> u < w" using assms(1,4) Suc by (auto simp: candidate_def)
  then show ?thesis using Suc by simp
qed simp

lemma no_extension:
  assumes "candidate ts m i 0" "ts ! 0 \<noteq> ts ! i" "border ts (Suc i) v" "v \<le> m"
  shows "v = 0"
proof (cases v)
  case (Suc w)
  with assms(3) have "border ts i w" "ts ! w = ts ! i" by (simp_all add: border_Suc)
  then show ?thesis using assms(1,2,4) Suc by (cases w) (auto simp: candidate_def)
qed simp

lemma fall_back:
  assumes "candidate ts m i u" "ts ! u \<noteq> ts ! i" "u \<noteq> 0" "table_ok ts m i lps"
  shows "candidate ts m i (lps ! (u - 1))" "lps ! (u - 1) < u"
proof -
  have u: "border ts i u" "u < m" "u < i" using assms(1) by (auto simp: candidate_def dest: border_less)
  with assms(3,4) have l: "border ts u (lps ! (u - 1))" "\<And>v. border ts u v \<Longrightarrow> v \<le> lps ! (u - 1)"
    by (auto simp: table_ok_def dest: spec [of _ "u - 1"])
  show "lps ! (u - 1) < u" using l(1) by (rule border_less)
  have "ts ! v \<noteq> ts ! i" if "border ts i v" "v < m" "lps ! (u - 1) < v" for v
  proof (cases "v < u")
    case True
    with border_chain [OF u(1) that(1)] l(2) [of v] that(3) show ?thesis by simp
  next
    case False
    then show ?thesis using assms(1,2) that by (cases "v = u") (auto simp: candidate_def)
  qed
  then show "candidate ts m i (lps ! (u - 1))"
    using border_trans [OF u(1) l(1)] \<open>lps ! (u - 1) < u\<close> u(2) by (auto simp: candidate_def)
qed

lemma table_extend:
  assumes "table_ok ts m i lps" "candidate ts m i u" "ts ! u = ts ! i"
  shows "table_ok ts m (Suc i) (if i < m then lps[i := Suc u] else lps)"
proof -
  have "border ts (Suc i) (Suc u)" using assms(2,3) by (simp add: border_Suc candidate_def)
  moreover have "v \<le> Suc u" if "border ts (Suc i) v" "i < m" for v
    using longest_extension [OF assms(2,3) that(1)] border_less [OF that(1)] that(2) by simp
  ultimately show ?thesis using assms(1) by (auto simp: table_ok_def less_Suc_eq nth_list_update)
qed

lemma table_skip:
  assumes "table_ok ts m i lps" "candidate ts m i 0" "ts ! 0 \<noteq> ts ! i"
  shows "table_ok ts m (Suc i) lps"
proof -
  have "v = 0" if "border ts (Suc i) v" "i < m" for v
    using no_extension [OF assms(2,3) that(1)] border_less [OF that(1)] that(2) by simp
  then show ?thesis using assms(1) by (auto simp: table_ok_def less_Suc_eq)
qed

text \<open>After a match the next candidate is the new border or, at the cap, the next shorter one.\<close>

lemma candidate_extend:
  assumes "candidate ts m i u" "ts ! u = ts ! i" "table_ok ts m (Suc i) lps"
  shows "candidate ts m (Suc i) (if Suc u = m then lps ! (m - 1) else Suc u)"
proof -
  have new: "border ts (Suc i) (Suc u)" using assms(1,2) by (simp add: border_Suc candidate_def)
  have u: "u < m" using assms(1) by (simp add: candidate_def)
  show ?thesis
  proof (cases "Suc u = m")
    case True
    then have "m - 1 < Suc i" "m - 1 < m" using border_less [OF new] by auto
    with assms(3) True have l: "border ts m (lps ! (m - 1))" "\<And>v. border ts m v \<Longrightarrow> v \<le> lps ! (m - 1)"
      by (auto simp: table_ok_def dest: spec [of _ "m - 1"])
    have "v \<le> lps ! (m - 1)" if "border ts (Suc i) v" "v < m" for v
      using border_chain [OF new that(1)] that(2) True l(2) by simp
    then show ?thesis using border_trans [OF new] l(1) True border_less [OF l(1)] by (fastforce simp: candidate_def)
  next
    case False
    have "v \<le> Suc u" if "border ts (Suc i) v" "v < m" for v using longest_extension [OF assms(1,2) that(1)] that(2) by simp
    then show ?thesis using False new u by (fastforce simp: candidate_def)
  qed
qed

lemma best_extend:
  assumes "best_so_far ts m i longest pos" "candidate ts m i u" "ts ! u = ts ! i" "0 < i"
  shows "best_so_far ts m (Suc i) (if longest \<le> Suc u then Suc u else longest) (if longest \<le> Suc u then i else pos)"
proof -
  have new: "border ts (Suc i) (Suc u)" "Suc u \<le> m" using assms(2,3) by (simp_all add: border_Suc candidate_def)
  have max: "v \<le> Suc u" if "border ts (Suc i) v" "v \<le> m" for v using longest_extension [OF assms(2,3) that] .
  have old: "v \<le> longest" "v = longest \<Longrightarrow> 0 < v \<Longrightarrow> j \<le> pos" if "0 < j" "j < i" "border ts (Suc j) v" "v \<le> m" for j v
    using assms(1) that by (auto simp: best_so_far_def)
  show ?thesis
  proof (cases "longest \<le> Suc u")
    case True
    have "v \<le> Suc u \<and> j \<le> i" if "0 < j" "j < Suc i" "border ts (Suc j) v" "v \<le> m" for j v
      using max [of v] old(1) [OF that(1) _ that(3,4)] that True by (cases "j = i") auto
    then show ?thesis using True new assms(4) by (simp add: best_so_far_def)
  next
    case False
    have "v \<le> longest \<and> (v = longest \<longrightarrow> 0 < v \<longrightarrow> j \<le> pos)" if "0 < j" "j < Suc i" "border ts (Suc j) v" "v \<le> m" for j v
      using max [of v] old [OF that(1) _ that(3,4)] that False by (cases "j = i") auto
    moreover have "longest \<le> m \<and> 0 < pos \<and> pos < i \<and> border ts (Suc pos) longest" using assms(1) False by (simp add: best_so_far_def)
    ultimately show ?thesis using False by (simp add: best_so_far_def)
  qed
qed

lemma best_skip:
  assumes "best_so_far ts m i longest pos" "candidate ts m i 0" "ts ! 0 \<noteq> ts ! i"
  shows "best_so_far ts m (Suc i) longest pos"
  using assms(1) no_extension [OF assms(2,3)] by (fastforce simp: best_so_far_def less_Suc_eq)

text \<open>The loop ends without an out-of-range read, with the best match of the whole list.\<close>

lemma ngram_loop_best:
  assumes "candidate ts m i u" "table_ok ts m i lps" "best_so_far ts m i longest pos" "0 < i" "i \<le> length ts"
  shows "\<exists>longest' pos'. ngram_loop ts m i u longest pos lps = Some (Inr (longest', pos')) \<and> best_so_far ts m (length ts) longest' pos'"
  using assms
proof (induction "2 * (length ts - i) + u" arbitrary: i u lps longest pos rule: less_induct)
  case less
  note c = less.prems(1) and t = less.prems(2) and b = less.prems(3)
  have u: "u < i" "u < m" "border ts i u" using c by (auto simp: candidate_def dest: border_less)
  have len: "length lps = m" using t by (simp add: table_ok_def)
  show ?case
  proof (cases "i = length ts")
    case True
    then show ?thesis using b by (subst ngram_loop.simps) simp
  next
    case False
    with less.prems(5) have i: "i < length ts" by simp
    show ?thesis
    proof (cases "ts ! u = ts ! i")
      case True
      let ?lps = "if i < m then lps[i := Suc u] else lps" and ?u = "if Suc u = m then (if i < m then lps[i := Suc u] else lps) ! (m - 1) else Suc u"
      have t': "table_ok ts m (Suc i) ?lps" by (rule table_extend [OF t c True])
      have c': "candidate ts m (Suc i) ?u" by (rule candidate_extend [OF c True t'])
      have "?u \<le> Suc u" using c' u(2) by (auto simp: candidate_def)
      then have "2 * (length ts - Suc i) + ?u < 2 * (length ts - i) + u" using i by simp
      from less.hyps [OF this c' t' best_extend [OF b c True less.prems(4)]] i
      show ?thesis using i u(1) True by (subst ngram_loop.simps) (simp add: Let_def)
    next
      case miss: False
      show ?thesis
      proof (cases "u = 0")
        case True
        have "candidate ts m (Suc i) 0"
          using no_extension [of ts m i] c miss True u(2) by (fastforce simp: candidate_def)
        moreover have "2 * (length ts - Suc i) + 0 < 2 * (length ts - i) + u" using i by simp
        ultimately have "\<exists>longest' pos'. ngram_loop ts m (Suc i) 0 longest pos lps = Some (Inr (longest', pos')) \<and> best_so_far ts m (length ts) longest' pos'"
          using table_skip best_skip t b c miss True i by (intro less.hyps) auto
        then show ?thesis using i u(1) miss True by (subst ngram_loop.simps) auto
      next
        case False
        note fb = fall_back [OF c miss False t]
        have "2 * (length ts - i) + lps ! (u - 1) < 2 * (length ts - i) + u" using fb(2) by simp
        from less.hyps [OF this fb(1) t b less.prems(4,5)]
        show ?thesis using i u len miss False by (subst ngram_loop.simps) simp
      qed
    qed
  qed
qed

section \<open>Correctness\<close>

text \<open>The last \<open>l\<close> tokens also occur at the earlier position \<open>s\<close>.\<close>

definition occurs :: "int list \<Rightarrow> nat \<Rightarrow> nat \<Rightarrow> bool" where
  "occurs ts l s \<longleftrightarrow> s + l < length ts \<and> take l (drop s ts) = drop (length ts - l) ts"

lemma occurs_nth: "occurs ts l s \<longleftrightarrow> s + l < length ts \<and> (\<forall>y < l. ts ! (s + y) = ts ! (length ts - l + y))"
  by (auto simp: occurs_def list_eq_iff_nth_eq)

lemma border_occurs:
  assumes "j < length ts"
  shows "border (rev ts) (Suc j) v \<longleftrightarrow> occurs ts v (length ts - 1 - j)"
proof (cases "v \<le> j")
  case True
  let ?n = "length ts"
  have "(\<forall>x < v. rev ts ! x = rev ts ! (Suc j - v + x)) \<longleftrightarrow> (\<forall>y < v. rev ts ! (v - 1 - y) = rev ts ! (Suc j - v + (v - 1 - y)))"
  proof
    assume r: "\<forall>y < v. rev ts ! (v - 1 - y) = rev ts ! (Suc j - v + (v - 1 - y))"
    show "\<forall>x < v. rev ts ! x = rev ts ! (Suc j - v + x)"
    proof (intro allI impI)
      fix x assume "x < v"
      with spec [OF r, of "v - 1 - x"] show "rev ts ! x = rev ts ! (Suc j - v + x)" by simp
    qed
  qed simp
  also have "\<dots> \<longleftrightarrow> (\<forall>y < v. ts ! (?n - v + y) = ts ! (?n - 1 - j + y))"
  proof -
    have "rev ts ! (v - 1 - y) = ts ! (?n - v + y) \<and> rev ts ! (Suc j - v + (v - 1 - y)) = ts ! (?n - 1 - j + y)" if "y < v" for y
    proof -
      have "?n - Suc (v - 1 - y) = ?n - v + y" "Suc j - v + (v - 1 - y) = j - y" "?n - Suc (j - y) = ?n - 1 - j + y"
        using that True assms by auto
      then show ?thesis using that True assms by (simp add: rev_nth)
    qed
    then show ?thesis by auto
  qed
  finally show ?thesis using True assms unfolding border_def occurs_nth by auto
next
  case False
  then show ?thesis by (simp add: border_def occurs_def)
qed

lemma ngram_search:
  assumes "0 < m" "1 \<le> length ts"
  shows "\<exists>l pos. ngram_loop ts m 1 0 0 0 (replicate m 0) = Some (Inr (l, pos)) \<and> best_so_far ts m (length ts) l pos"
proof -
  have "candidate ts m 1 0" "table_ok ts m 1 (replicate m 0)" "best_so_far ts m 1 0 0"
    using assms by (auto simp: candidate_def table_ok_def best_so_far_def border_def)
  from ngram_loop_best [OF this] assms(2) show ?thesis by auto
qed

lemma best_occurs:
  assumes "best_so_far (rev ts) m (length ts) l pos"
  shows "0 < l \<Longrightarrow> l \<le> m \<and> pos < length ts \<and> occurs ts l (length ts - 1 - pos)"
    and "0 < l' \<Longrightarrow> l' \<le> m \<Longrightarrow> occurs ts l' s \<Longrightarrow> l' \<le> l \<and> (l' = l \<longrightarrow> length ts - 1 - pos \<le> s)"
proof -
  show "0 < l \<Longrightarrow> l \<le> m \<and> pos < length ts \<and> occurs ts l (length ts - 1 - pos)"
    using assms border_occurs [of pos ts l] by (auto simp: best_so_far_def)
  assume l': "0 < l'" "l' \<le> m" and o: "occurs ts l' s"
  define j where "j = length ts - 1 - s"
  have s: "s + l' < length ts" using o by (simp add: occurs_def)
  then have j: "0 < j" "j < length ts" "length ts - 1 - j = s" using l'(1) by (auto simp: j_def)
  have "border (rev ts) (Suc j) l'" unfolding border_occurs [OF j(2)] j(3) by (rule o)
  with assms j(1,2) l' have "l' \<le> l \<and> (l' = l \<longrightarrow> j \<le> pos)" unfolding best_so_far_def by blast
  then show "l' \<le> l \<and> (l' = l \<longrightarrow> length ts - 1 - pos \<le> s)" using s by (auto simp: j_def)
qed

lemma draft_slice:
  assumes "0 < k" "a < length ts"
  shows "py_slice ts (int a) (int a + min k (int (length ts) - int a)) = take (nat k) (drop a ts)"
proof -
  have "int a + min k (int (length ts) - int a) = int (a + min (nat k) (length ts - a))" using assms by (auto simp: min_def)
  then have "py_slice ts (int a) (int a + min k (int (length ts) - int a)) = drop a (take (a + min (nat k) (length ts - a)) ts)"
    by (simp only: py_slice_nonneg of_nat_0_le_iff nat_int)
  also have "\<dots> = take (min (nat k) (length ts - a)) (drop a ts)" by (simp add: take_drop add.commute)
  also have "\<dots> = take (nat k) (drop a ts)" by (metis length_drop take_take take_all order_refl min.commute)
  finally show ?thesis .
qed

lemma ngram_correct:
  assumes "1 \<le> min_ngram" "min_ngram \<le> max_ngram"
  shows "\<exists>draft. find_longest_matched_ngram_and_propose_tokens ts min_ngram max_ngram max_model_len k = Some (Inr draft)
    \<and> (if 0 < min k (max_model_len - int (length ts)) \<and> (\<exists>l s. min_ngram \<le> int l \<and> int l \<le> max_ngram \<and> occurs ts l s)
       then \<exists>l s. min_ngram \<le> int l \<and> int l \<le> max_ngram \<and> occurs ts l s
         \<and> (\<forall>l' s'. int l' \<le> max_ngram \<longrightarrow> occurs ts l' s' \<longrightarrow> l' \<le> l \<and> (l' = l \<longrightarrow> s \<le> s'))
         \<and> draft = take (nat (min k (max_model_len - int (length ts)))) (drop (s + l) ts)
       else draft = [])"
proof (cases "int (length ts) < min_ngram \<or> min k (max_model_len - int (length ts)) \<le> 0")
  case True
  moreover have "\<not> (\<exists>l s. min_ngram \<le> int l \<and> int l \<le> max_ngram \<and> occurs ts l s)" if "int (length ts) < min_ngram"
    using that by (auto simp: occurs_def)
  ultimately show ?thesis by (auto simp: find_longest_matched_ngram_and_propose_tokens_def Let_def)
next
  case False
  let ?n = "length ts" and ?k = "min k (max_model_len - int (length ts))"
  have k: "0 < ?k" and n: "1 \<le> length (rev ts)" and m: "0 < nat max_ngram" using False assms by auto
  from ngram_search [OF m n] obtain l pos where
    run: "ngram_loop (rev ts) (nat max_ngram) 1 0 0 0 (replicate (nat max_ngram) 0) = Some (Inr (l, pos))"
    and best: "best_so_far (rev ts) (nat max_ngram) ?n l pos" by auto
  have max: "l' \<le> l \<and> (l' = l \<longrightarrow> ?n - 1 - pos \<le> s)" if "int l' \<le> max_ngram" "occurs ts l' s" "0 < l'" for l' s
    using best_occurs(2) [OF best that(3) _ that(2)] that(1) by simp
  have res: "find_longest_matched_ngram_and_propose_tokens ts min_ngram max_ngram max_model_len k =
    (if int l < min_ngram then Some (Inr [])
     else let start = int ?n - 1 - int pos + int l in Some (Inr (py_slice ts start (start + min ?k (int ?n - start)))))"
    using False assms run by (auto simp: find_longest_matched_ngram_and_propose_tokens_def Let_def)
  show ?thesis
  proof (cases "int l < min_ngram")
    case True
    have "\<not> occurs ts l' s" if "min_ngram \<le> int l'" "int l' \<le> max_ngram" for l' s
      using max [of l' s] that True assms(1) by auto
    with True res show ?thesis by auto
  next
    case found: False
    then have l: "0 < l" using assms(1) by auto
    from best_occurs(1) [OF best this] have p: "l \<le> nat max_ngram" "pos < ?n" "occurs ts l (?n - 1 - pos)" by auto
    have start: "int ?n - 1 - int pos + int l = int (?n - 1 - pos + l)" using p(2) by simp
    have lt: "?n - 1 - pos + l < ?n" using p(3) by (simp add: occurs_def)
    have "find_longest_matched_ngram_and_propose_tokens ts min_ngram max_ngram max_model_len k
        = Some (Inr (take (nat ?k) (drop (?n - 1 - pos + l) ts)))"
      unfolding res start Let_def draft_slice [OF k lt] using found by simp
    moreover have "l' \<le> l \<and> (l' = l \<longrightarrow> ?n - 1 - pos \<le> s)" if "int l' \<le> max_ngram" "occurs ts l' s" for l' s
      using max [OF that] l by (cases "l' = 0") auto
    moreover have "min_ngram \<le> int l" "int l \<le> max_ngram" using found p(1) assms by auto
    ultimately show ?thesis using p(3) k by auto
  qed
qed

lemma ngram_total:
  assumes "1 \<le> min_ngram" "min_ngram \<le> max_ngram"
  shows "\<exists>d. find_longest_matched_ngram_and_propose_tokens ts min_ngram max_ngram max_model_len k = Some (Inr d)
    \<and> (d = [] \<or> int (length d) \<le> k \<and> int (length ts) + int (length d) \<le> max_model_len)"
  using ngram_correct [OF assms, of ts max_model_len k] by (fastforce split: if_splits)

text \<open>
  C17. The n-gram search is exact: it ends without an out-of-range read, and drafts nothing unless some
  n-gram of an allowed length that ends the context occurs earlier; then it finds the longest such
  n-gram (up to \<open>max_ngram\<close>) at its earliest position and drafts the tokens that followed it, at most
  \<open>k\<close> and never beyond the model length.
\<close>

theorem ngram_exact:
  assumes "1 \<le> min_ngram" "min_ngram \<le> max_ngram"
  shows "\<exists>draft. find_longest_matched_ngram_and_propose_tokens ts min_ngram max_ngram max_model_len k = Some (Inr draft)
    \<and> (if 0 < min k (max_model_len - int (length ts)) \<and> (\<exists>l s. min_ngram \<le> int l \<and> int l \<le> max_ngram \<and> occurs ts l s)
       then \<exists>l s. min_ngram \<le> int l \<and> int l \<le> max_ngram \<and> occurs ts l s
         \<and> (\<forall>l' s'. int l' \<le> max_ngram \<longrightarrow> occurs ts l' s' \<longrightarrow> l' \<le> l \<and> (l' = l \<longrightarrow> s \<le> s'))
         \<and> draft = take (nat (min k (max_model_len - int (length ts)))) (drop (s + l) ts)
       else draft = [])"
  using assms by (rule ngram_correct)

theorem ngram_exact_witness:
  "find_longest_matched_ngram_and_propose_tokens [1, 2, 3, 4, 1, 2, 3] 2 4 100 2 = Some (Inr [4, 1])
    \<and> (\<exists>l s. occurs [1, 2, 3, 4, 1, 2, 3] l s \<and> [4, 1] = take 2 (drop (s + l) [1, 2, 3, 4, 1, 2, 3 :: int]))"
proof -
  let ?ts = "[1, 2, 3, 4, 1, 2, 3] :: int list"
  have run: "find_longest_matched_ngram_and_propose_tokens ?ts 2 4 100 2 = Some (Inr [4, 1])" by code_simp
  have occ: "occurs ?ts 3 0" by code_simp
  have "\<exists>l s. occurs ?ts l s \<and> [4, 1] = take 2 (drop (s + l) ?ts)"
    using ngram_exact [of 2 4 ?ts 100 2] run occ by (auto split: if_splits)
  with run show ?thesis by blast
qed

section \<open>The batch\<close>

lemma propose_one_bounded:
  assumes "1 \<le> min_n" "min_n \<le> max_n" "0 \<le> n" "n \<le> int (length row)"
  shows "\<exists>d. propose_one min_n max_n max_model_len k (sampled, n, row) = Some (Inr d)
    \<and> (d = [] \<or> int (length d) \<le> k \<and> n + int (length d) \<le> max_model_len \<and> sampled \<noteq> [])"
proof -
  have len: "int (length (py_slice row 0 n)) = n" using assms(3,4) by (simp add: py_slice_nonneg)
  show ?thesis
  proof (cases "sampled = [] \<or> max_model_len \<le> n")
    case True
    then show ?thesis by (simp add: propose_one_def)
  next
    case False
    from ngram_total [OF assms(1,2), of "py_slice row 0 n" max_model_len k] len False show ?thesis
      by (auto simp: propose_one_def)
  qed
qed

text \<open>Every request of a batch gets a draft, of at most the allowed number of tokens and within the model length.\<close>

lemma propose_total:
  assumes "1 \<le> min_n" "min_n \<le> max_n" "k \<le> self_k" "\<forall>(sampled, n, row) \<in> set rs. 0 \<le> n \<and> n \<le> int (length row)"
  shows "\<exists>ds. propose self_k min_n max_n max_model_len k rs = Some (Inr ds)
    \<and> list_all2 (\<lambda>(sampled, n, row) d. d = [] \<or> int (length d) \<le> k \<and> n + int (length d) \<le> max_model_len \<and> sampled \<noteq> []) rs ds"
proof -
  have "\<exists>ds. propose_all min_n max_n max_model_len k rs = Some (Inr ds)
    \<and> list_all2 (\<lambda>(sampled, n, row) d. d = [] \<or> int (length d) \<le> k \<and> n + int (length d) \<le> max_model_len \<and> sampled \<noteq> []) rs ds"
    using assms(4)
  proof (induction rs)
    case (Cons r rs)
    obtain sampled n row where r: "r = (sampled, n, row)" by (cases r)
    from propose_one_bounded [OF assms(1,2), of n row max_model_len k sampled] Cons show ?case
      by (fastforce simp: r)
  qed simp
  then show ?thesis using assms(3) by (simp add: propose_def)
qed

end
