(* ===== verification/Offload_Policy.thy ===== *)
theory Offload_Policy
  imports Complex_Main Block_Hash
begin

text \<open>
  \<^verbatim>\<open>vllm/v1/kv_offload/cpu/policies\<close>: the replacement policies of the CPU tier that offloaded blocks are
  kept in.  An \<open>OrderedDict\<close> is an association list in insertion order.  \<open>BlockStatus\<close> objects are
  owned by the policy; the manager's assignments to \<open>ref_cnt\<close> are the operation \<open>set_ref\<close> of the
  policy.  \<open>target_t1_size\<close> of ARC, a float, is an exact rational; \<open>ref_cnt\<close>, a C field of 32 bits, is an
  integer (it counts the transfers that use a block).
\<close>

section \<open>Blocks and ordered dictionaries\<close>

record block_status =
  bs_ref_cnt :: int
  bs_block_id :: int

definition new_block_status :: "int \<Rightarrow> block_status" where
  "new_block_status i = \<lparr>bs_ref_cnt = - 1, bs_block_id = i\<rparr>"

definition is_ready :: "block_status \<Rightarrow> bool" where
  "is_ready b \<longleftrightarrow> 0 \<le> bs_ref_cnt b"

type_synonym offload_key = bytes

fun od_set :: "'k \<Rightarrow> 'v \<Rightarrow> ('k \<times> 'v) list \<Rightarrow> ('k \<times> 'v) list" where
  "od_set k v [] = [(k, v)]"
| "od_set k v ((k', w) # d) = (if k' = k then (k, v) # d else (k', w) # od_set k v d)"

definition od_pop :: "'k \<Rightarrow> ('k \<times> 'v) list \<Rightarrow> ('k \<times> 'v) list" where
  "od_pop k d = filter (\<lambda>x. fst x \<noteq> k) d"

text \<open>An \<open>OrderedDict\<close> of which only the keys matter.\<close>

definition ks_add :: "'k \<Rightarrow> 'k list \<Rightarrow> 'k list" where
  "ks_add k ks = (if k \<in> set ks then ks else ks @ [k])"

definition ks_del :: "'k \<Rightarrow> 'k list \<Rightarrow> 'k list" where
  "ks_del k ks = filter (\<lambda>x. x \<noteq> k) ks"

text \<open>An assignment to \<open>ref_cnt\<close> of the block of a key.\<close>

definition od_set_ref :: "'k \<Rightarrow> int \<Rightarrow> ('k \<times> block_status) list \<Rightarrow> ('k \<times> block_status) list" where
  "od_set_ref k n d = map (\<lambda>(k', b). (k', if k' = k then b\<lparr>bs_ref_cnt := n\<rparr> else b)) d"

section \<open>The interface \<open>CachePolicy\<close>\<close>

record 'p policy_ops =
  pol_get :: "'p \<Rightarrow> offload_key \<Rightarrow> block_status option"
  pol_insert :: "offload_key \<Rightarrow> block_status \<Rightarrow> 'p \<Rightarrow> 'p"
  pol_remove :: "offload_key \<Rightarrow> 'p \<Rightarrow> 'p res"
  pol_touch :: "offload_key list \<Rightarrow> 'p \<Rightarrow> 'p"
  pol_evict :: "nat \<Rightarrow> offload_key list \<Rightarrow> 'p \<Rightarrow> ((offload_key \<times> block_status) list option \<times> 'p) res"
  pol_clear :: "'p \<Rightarrow> 'p"
  pol_mark_evictable :: "offload_key \<Rightarrow> 'p \<Rightarrow> 'p"
  pol_mark_non_evictable :: "offload_key \<Rightarrow> 'p \<Rightarrow> 'p res"
  pol_set_ref :: "offload_key \<Rightarrow> int \<Rightarrow> 'p \<Rightarrow> 'p"

section \<open>LRU\<close>

record lru =
  lru_evictable :: "offload_key list"
  lru_blocks :: "(offload_key \<times> block_status) list"

definition lru_init :: lru where
  "lru_init = \<lparr>lru_evictable = [], lru_blocks = []\<rparr>"

definition lru_get :: "lru \<Rightarrow> offload_key \<Rightarrow> block_status option" where
  "lru_get p = map_of (lru_blocks p)"

definition lru_insert :: "offload_key \<Rightarrow> block_status \<Rightarrow> lru \<Rightarrow> lru" where
  "lru_insert k b p = p\<lparr>lru_blocks := od_set k b (lru_blocks p),
     lru_evictable := (if bs_ref_cnt b = 0 then ks_add k (lru_evictable p) else lru_evictable p)\<rparr>"

definition lru_remove :: "offload_key \<Rightarrow> lru \<Rightarrow> lru res" where
  "lru_remove k p = (if lru_get p k = None then Inl KeyError
     else Inr (p\<lparr>lru_blocks := od_pop k (lru_blocks p), lru_evictable := ks_del k (lru_evictable p)\<rparr>))"

definition lru_touch :: "offload_key list \<Rightarrow> lru \<Rightarrow> lru" where
  "lru_touch ks p = fold (\<lambda>k p. if k \<in> set (lru_evictable p)
     then p\<lparr>lru_evictable := ks_del k (lru_evictable p) @ [k]\<rparr> else p) (rev ks) p"

definition lru_clear :: "lru \<Rightarrow> lru" where
  "lru_clear p = p\<lparr>lru_evictable := [], lru_blocks := []\<rparr>"

text \<open>The scan for \<open>n\<close> candidates from the least recently used end.\<close>

fun lru_scan :: "nat \<Rightarrow> offload_key list \<Rightarrow> (offload_key \<times> block_status) list \<Rightarrow> offload_key list \<Rightarrow> (offload_key \<times> block_status) list res" where
  "lru_scan n protected blocks [] = Inr []"
| "lru_scan n protected blocks (k # ks) =
     (if k \<in> set protected then lru_scan n protected blocks ks
      else case map_of blocks k of
        None \<Rightarrow> Inl KeyError
      | Some b \<Rightarrow> bindE (py_assert (bs_ref_cnt b = 0)) (\<lambda>_.
          if n = 1 then Inr [(k, b)]
          else bindE (lru_scan (n - 1) protected blocks ks) (\<lambda>cs. Inr ((k, b) # cs))))"

definition lru_evict :: "nat \<Rightarrow> offload_key list \<Rightarrow> lru \<Rightarrow> ((offload_key \<times> block_status) list option \<times> lru) res" where
  "lru_evict n protected p =
     (if n = 0 then Inr (Some [], p)
      else bindE (lru_scan n protected (lru_blocks p) (lru_evictable p)) (\<lambda>candidates.
        if length candidates < n then Inr (None, p)
        else Inr (Some candidates, p\<lparr>lru_evictable := fold (ks_del \<circ> fst) candidates (lru_evictable p),
                                     lru_blocks := fold (od_pop \<circ> fst) candidates (lru_blocks p)\<rparr>)))"

definition lru_mark_evictable :: "offload_key \<Rightarrow> lru \<Rightarrow> lru" where
  "lru_mark_evictable k p = p\<lparr>lru_evictable := ks_add k (lru_evictable p)\<rparr>"

definition lru_mark_non_evictable :: "offload_key \<Rightarrow> lru \<Rightarrow> lru res" where
  "lru_mark_non_evictable k p = (if k \<notin> set (lru_evictable p) then Inl KeyError
     else Inr (p\<lparr>lru_evictable := ks_del k (lru_evictable p)\<rparr>))"

definition lru_set_ref :: "offload_key \<Rightarrow> int \<Rightarrow> lru \<Rightarrow> lru" where
  "lru_set_ref k n p = p\<lparr>lru_blocks := od_set_ref k n (lru_blocks p)\<rparr>"

definition lru_ops :: "lru policy_ops" where
  "lru_ops = \<lparr>pol_get = lru_get, pol_insert = lru_insert, pol_remove = lru_remove, pol_touch = lru_touch, pol_evict = lru_evict,
     pol_clear = lru_clear, pol_mark_evictable = lru_mark_evictable, pol_mark_non_evictable = lru_mark_non_evictable,
     pol_set_ref = lru_set_ref\<rparr>"

section \<open>ARC\<close>

record arc =
  arc_capacity :: int
  arc_target_t1_size :: rat
  arc_t1 :: "(offload_key \<times> block_status) list"
  arc_t2 :: "(offload_key \<times> block_status) list"
  arc_b1 :: "offload_key list"
  arc_b2 :: "offload_key list"

definition arc_init :: "int \<Rightarrow> arc" where
  "arc_init cache_capacity = \<lparr>arc_capacity = cache_capacity, arc_target_t1_size = 0, arc_t1 = [], arc_t2 = [], arc_b1 = [], arc_b2 = []\<rparr>"

definition arc_get :: "arc \<Rightarrow> offload_key \<Rightarrow> block_status option" where
  "arc_get p k = (case map_of (arc_t1 p) k of Some b \<Rightarrow> Some b | None \<Rightarrow> map_of (arc_t2 p) k)"

definition arc_insert :: "offload_key \<Rightarrow> block_status \<Rightarrow> arc \<Rightarrow> arc" where
  "arc_insert k b p = p\<lparr>arc_t1 := od_set k b (arc_t1 p), arc_b1 := ks_del k (arc_b1 p), arc_b2 := ks_del k (arc_b2 p)\<rparr>"

definition arc_remove :: "offload_key \<Rightarrow> arc \<Rightarrow> arc res" where
  "arc_remove k p = Inr (if map_of (arc_t1 p) k \<noteq> None then p\<lparr>arc_t1 := od_pop k (arc_t1 p)\<rparr>
     else p\<lparr>arc_t2 := od_pop k (arc_t2 p)\<rparr>)"

definition arc_touch_one :: "offload_key \<Rightarrow> arc \<Rightarrow> arc" where
  "arc_touch_one k p = (case map_of (arc_t1 p) k of
     Some b \<Rightarrow>
       if \<not> is_ready b then p\<lparr>arc_t1 := od_pop k (arc_t1 p) @ [(k, b)]\<rparr>
       else p\<lparr>arc_t1 := od_pop k (arc_t1 p), arc_t2 := od_set k b (arc_t2 p)\<rparr>
   | None \<Rightarrow> (case map_of (arc_t2 p) k of
       Some b \<Rightarrow> p\<lparr>arc_t2 := od_pop k (arc_t2 p) @ [(k, b)]\<rparr>
     | None \<Rightarrow>
       if k \<in> set (arc_b1 p)
       then p\<lparr>arc_target_t1_size := min (arc_target_t1_size p + max 1 (of_nat (length (arc_b2 p)) / of_nat (length (arc_b1 p)))) (of_int (arc_capacity p)),
              arc_b1 := ks_del k (arc_b1 p) @ [k]\<rparr>
       else if k \<in> set (arc_b2 p)
       then p\<lparr>arc_target_t1_size := max (arc_target_t1_size p - max 1 (of_nat (length (arc_b1 p)) / of_nat (length (arc_b2 p)))) 0,
              arc_b2 := ks_del k (arc_b2 p) @ [k]\<rparr>
       else p))"

definition arc_touch :: "offload_key list \<Rightarrow> arc \<Rightarrow> arc" where
  "arc_touch ks p = fold arc_touch_one (rev ks) p"

definition arc_clear :: "arc \<Rightarrow> arc" where
  "arc_clear p = p\<lparr>arc_t1 := [], arc_t2 := [], arc_b1 := [], arc_b2 := [], arc_target_t1_size := 0\<rparr>"

text \<open>The iterators are the entries not yet visited.\<close>

fun next_candidate :: "offload_key list \<Rightarrow> (offload_key \<times> block_status) list \<Rightarrow> ((offload_key \<times> block_status) option \<times> (offload_key \<times> block_status) list)" where
  "next_candidate protected [] = (None, [])"
| "next_candidate protected ((k, b) # es) =
     (if bs_ref_cnt b = 0 \<and> k \<notin> set protected then (Some (k, b), es) else next_candidate protected es)"

fun arc_select :: "nat \<Rightarrow> offload_key list \<Rightarrow> int \<Rightarrow> int \<Rightarrow> (offload_key \<times> block_status) list \<Rightarrow> (offload_key \<times> block_status) list
    \<Rightarrow> (offload_key \<times> block_status \<times> bool) list option" where
  "arc_select 0 protected target virtual_t1_size t1_iter t2_iter = Some []"
| "arc_select (Suc n) protected target virtual_t1_size t1_iter t2_iter =
     (let (entry1, t1_iter') = (if target \<le> virtual_t1_size then next_candidate protected t1_iter else (None, t1_iter))
      in case entry1 of
           Some (k, b) \<Rightarrow> (case arc_select n protected target (virtual_t1_size - 1) t1_iter' t2_iter of
             None \<Rightarrow> None | Some cs \<Rightarrow> Some ((k, b, True) # cs))
         | None \<Rightarrow> (case next_candidate protected t2_iter of
             (None, _) \<Rightarrow> None
           | (Some (k, b), t2_iter') \<Rightarrow> (case arc_select n protected target virtual_t1_size t1_iter' t2_iter' of
               None \<Rightarrow> None | Some cs \<Rightarrow> Some ((k, b, False) # cs))))"

definition arc_apply :: "offload_key \<times> block_status \<times> bool \<Rightarrow> arc \<Rightarrow> arc" where
  "arc_apply c p = (case c of (k, b, from_t1) \<Rightarrow>
     if from_t1 then p\<lparr>arc_t1 := od_pop k (arc_t1 p), arc_b1 := ks_add k (arc_b1 p)\<rparr>
     else p\<lparr>arc_t2 := od_pop k (arc_t2 p), arc_b2 := ks_add k (arc_b2 p)\<rparr>)"

definition arc_trim :: "arc \<Rightarrow> arc" where
  "arc_trim p = p\<lparr>arc_b1 := drop (nat (int (length (arc_b1 p)) - arc_capacity p)) (arc_b1 p),
     arc_b2 := drop (nat (int (length (arc_b2 p)) - arc_capacity p)) (arc_b2 p)\<rparr>"

definition arc_evict :: "nat \<Rightarrow> offload_key list \<Rightarrow> arc \<Rightarrow> ((offload_key \<times> block_status) list option \<times> arc) res" where
  "arc_evict n protected p =
     (if n = 0 then Inr (Some [], p)
      else case arc_select n protected \<lfloor>arc_target_t1_size p\<rfloor> (int (length (arc_t1 p))) (arc_t1 p) (arc_t2 p) of
        None \<Rightarrow> Inr (None, p)
      | Some candidates \<Rightarrow> Inr (Some (map (\<lambda>(k, b, _). (k, b)) candidates), arc_trim (fold arc_apply candidates p)))"

definition arc_set_ref :: "offload_key \<Rightarrow> int \<Rightarrow> arc \<Rightarrow> arc" where
  "arc_set_ref k n p = (if map_of (arc_t1 p) k \<noteq> None then p\<lparr>arc_t1 := od_set_ref k n (arc_t1 p)\<rparr>
     else p\<lparr>arc_t2 := od_set_ref k n (arc_t2 p)\<rparr>)"

text \<open>The marks of the base class do nothing.\<close>

definition arc_ops :: "arc policy_ops" where
  "arc_ops = \<lparr>pol_get = arc_get, pol_insert = arc_insert, pol_remove = arc_remove, pol_touch = arc_touch, pol_evict = arc_evict,
     pol_clear = arc_clear, pol_mark_evictable = (\<lambda>k p. p), pol_mark_non_evictable = (\<lambda>k p. Inr p), pol_set_ref = arc_set_ref\<rparr>"

section \<open>The contract of a policy\<close>

text \<open>The keys of idle blocks: stored, and used by no transfer.\<close>

definition idle_keys :: "(offload_key \<rightharpoonup> block_status) \<Rightarrow> offload_key set" where
  "idle_keys G = {k. \<exists>b. G k = Some b \<and> bs_ref_cnt b = 0}"

text \<open>
  \<open>inv p E\<close>: the policy is well-formed and takes the keys \<open>E\<close> for evictable.  The contract states each
  operation by what a lookup returns afterwards; an eviction is asked for only when \<open>E\<close> are the idle
  keys, and is atomic.
\<close>

locale cache_policy =
  fixes ops :: "'p policy_ops" and inv :: "'p \<Rightarrow> offload_key set \<Rightarrow> bool"
  assumes finite_dom: "inv p E \<Longrightarrow> finite (dom (pol_get ops p))"
    and insert_law: "inv p E \<Longrightarrow> pol_get ops p k = None \<Longrightarrow> bs_ref_cnt b \<noteq> 0 \<Longrightarrow>
      inv (pol_insert ops k b p) E \<and> pol_get ops (pol_insert ops k b p) = (pol_get ops p)(k \<mapsto> b)"
    and remove_law: "inv p E \<Longrightarrow> pol_get ops p k \<noteq> None \<Longrightarrow> k \<notin> E \<Longrightarrow>
      \<exists>p'. pol_remove ops k p = Inr p' \<and> inv p' E \<and> pol_get ops p' = (pol_get ops p)(k := None)"
    and touch_law: "inv p E \<Longrightarrow> inv (pol_touch ops ks p) E \<and> pol_get ops (pol_touch ops ks p) = pol_get ops p"
    and set_ref_law: "inv p E \<Longrightarrow> pol_get ops p k = Some b \<Longrightarrow>
      inv (pol_set_ref ops k r p) E \<and> pol_get ops (pol_set_ref ops k r p) = (pol_get ops p)(k \<mapsto> b\<lparr>bs_ref_cnt := r\<rparr>)"
    and mark_law: "inv p E \<Longrightarrow> pol_get ops p k \<noteq> None \<Longrightarrow>
      inv (pol_mark_evictable ops k p) (insert k E) \<and> pol_get ops (pol_mark_evictable ops k p) = pol_get ops p"
    and unmark_law: "inv p E \<Longrightarrow> pol_get ops p k \<noteq> None \<Longrightarrow> k \<in> E \<Longrightarrow>
      \<exists>p'. pol_mark_non_evictable ops k p = Inr p' \<and> inv p' (E - {k}) \<and> pol_get ops p' = pol_get ops p"
    and evict_law: "inv p E \<Longrightarrow> E = idle_keys (pol_get ops p) \<Longrightarrow> pol_evict ops n protected p = Inr (None, p) \<or>
      (\<exists>vs p'. pol_evict ops n protected p = Inr (Some vs, p') \<and> length vs = n \<and> distinct (map fst vs)
        \<and> (\<forall>(k, b) \<in> set vs. pol_get ops p k = Some b \<and> bs_ref_cnt b = 0 \<and> k \<notin> set protected)
        \<and> inv p' (E - fst ` set vs) \<and> pol_get ops p' = pol_get ops p |` (- fst ` set vs))"
    and clear_law: "inv p E \<Longrightarrow> inv (pol_clear ops p) {} \<and> pol_get ops (pol_clear ops p) = Map.empty"

text \<open>A policy that refuses to evict only when too few blocks can be evicted.\<close>

locale complete_policy = cache_policy +
  assumes evict_complete: "inv p E \<Longrightarrow> E = idle_keys (pol_get ops p) \<Longrightarrow> pol_evict ops n protected p = Inr (None, p) \<Longrightarrow>
      card (E - set protected) < n"

section \<open>Ordered dictionaries as maps\<close>

lemma od_set_map_of [simp]: "map_of (od_set k v d) = (map_of d)(k \<mapsto> v)"
  by (induction k v d rule: od_set.induct) auto

lemma od_set_keys: "set (map fst (od_set k v d)) = insert k (set (map fst d))"
  by (induction k v d rule: od_set.induct) auto

lemma od_set_distinct: "distinct (map fst d) \<Longrightarrow> distinct (map fst (od_set k v d))"
  by (induction k v d rule: od_set.induct) (auto simp: od_set_keys [unfolded set_map])

lemma od_pop_map_of [simp]: "map_of (od_pop k d) = (map_of d)(k := None)"
  by (induction d) (auto simp: od_pop_def)

lemma od_pop_keys: "set (map fst (od_pop k d)) = set (map fst d) - {k}"
  by (auto simp: od_pop_def)

lemma od_pop_distinct: "distinct (map fst d) \<Longrightarrow> distinct (map fst (od_pop k d))"
  by (simp add: od_pop_def distinct_map inj_on_def)

lemma od_set_ref_map_of:
  "map_of d k = Some b \<Longrightarrow> map_of (od_set_ref k n d) = (map_of d)(k \<mapsto> b\<lparr>bs_ref_cnt := n\<rparr>)"
proof (rule ext)
  fix x assume b: "map_of d k = Some b"
  have "map_of (od_set_ref k n d) x = (case map_of d x of None \<Rightarrow> None | Some c \<Rightarrow> Some (if x = k then c\<lparr>bs_ref_cnt := n\<rparr> else c))"
    by (induction d) (auto simp: od_set_ref_def split: option.splits)
  with b show "map_of (od_set_ref k n d) x = ((map_of d)(k \<mapsto> b\<lparr>bs_ref_cnt := n\<rparr>)) x" by (auto split: option.splits)
qed

lemma od_set_ref_keys: "map fst (od_set_ref k n d) = map fst d"
  by (induction d) (auto simp: od_set_ref_def)

lemma ks_add_simps: "set (ks_add k ks) = insert k (set ks)" "distinct ks \<Longrightarrow> distinct (ks_add k ks)"
  by (auto simp: ks_add_def)

lemma ks_del_simps: "set (ks_del k ks) = set ks - {k}" "distinct ks \<Longrightarrow> distinct (ks_del k ks)"
  by (auto simp: ks_del_def)

lemma map_of_None_keys: "map_of d k = None \<longleftrightarrow> k \<notin> set (map fst d)"
  by (simp add: map_of_eq_None_iff)

lemma fold_ks_del: "fold (ks_del \<circ> fst) cs ks = filter (\<lambda>k. k \<notin> fst ` set cs) ks"
  by (induction cs arbitrary: ks) (auto simp: ks_del_def intro: filter_cong)

lemma fold_od_pop: "fold (od_pop \<circ> fst) cs d = filter (\<lambda>x. fst x \<notin> fst ` set cs) d"
  by (induction cs arbitrary: d) (auto simp: od_pop_def intro: filter_cong)

lemma restrict_UNIV [simp]: "m |` UNIV = m"
  by (simp add: restrict_map_def)

lemma map_of_filter_keys: "map_of (filter (\<lambda>x. fst x \<notin> K) d) = map_of d |` (- K)"
  by (induction d) (auto simp: restrict_map_def fun_eq_iff)

section \<open>LRU keeps the contract\<close>

definition lru_inv :: "lru \<Rightarrow> offload_key set \<Rightarrow> bool" where
  "lru_inv p E \<longleftrightarrow> distinct (map fst (lru_blocks p)) \<and> distinct (lru_evictable p) \<and> set (lru_evictable p) = E
     \<and> E \<subseteq> set (map fst (lru_blocks p))"

text \<open>The scan takes the first unprotected keys.\<close>

lemma lru_scan_eq:
  assumes "0 < n" "\<forall>k \<in> set ks. \<exists>b. map_of blocks k = Some b \<and> bs_ref_cnt b = 0"
  shows "lru_scan n protected blocks ks = Inr (map (\<lambda>k. (k, the (map_of blocks k))) (take n (filter (\<lambda>k. k \<notin> set protected) ks)))"
  using assms
proof (induction n protected blocks ks rule: lru_scan.induct)
  case (2 n protected blocks k ks)
  then obtain b where "map_of blocks k = Some b" "bs_ref_cnt b = 0" by auto
  moreover obtain n' where "n = Suc n'" using "2.prems"(1) by (cases n) auto
  ultimately show ?case using 2 by (cases n') auto
qed simp

lemma lru_evict_eq:
  fixes protected :: "offload_key list"
  assumes "lru_inv p E" "E = idle_keys (lru_get p)" "0 < n"
  defines "cs \<equiv> map (\<lambda>k. (k, the (lru_get p k))) (take n (filter (\<lambda>k. k \<notin> set protected) (lru_evictable p)))"
  shows "lru_evict n protected p = (if length cs < n then Inr (None, p)
    else Inr (Some cs, p\<lparr>lru_evictable := fold (ks_del \<circ> fst) cs (lru_evictable p), lru_blocks := fold (od_pop \<circ> fst) cs (lru_blocks p)\<rparr>))"
proof -
  have "\<forall>k \<in> set (lru_evictable p). \<exists>b. map_of (lru_blocks p) k = Some b \<and> bs_ref_cnt b = 0"
    using assms(1,2) by (auto simp: lru_inv_def idle_keys_def lru_get_def)
  from lru_scan_eq [OF assms(3) this] show ?thesis using assms(3) by (simp add: lru_evict_def cs_def lru_get_def)
qed

lemma od_filter_keys: "set (map fst (filter (\<lambda>x. fst x \<notin> K) d)) = set (map fst d) - K"
  by auto

lemma lru_inv_filter:
  assumes "lru_inv p E"
  shows "lru_inv (p\<lparr>lru_evictable := filter (\<lambda>k. k \<notin> K) (lru_evictable p), lru_blocks := filter (\<lambda>x. fst x \<notin> K) (lru_blocks p)\<rparr>) (E - K)"
  using assms unfolding lru_inv_def by (auto simp: od_filter_keys distinct_map_filter simp del: set_map)

lemma lru_evict_law:
  assumes "lru_inv p E" "E = idle_keys (lru_get p)"
  shows "lru_evict n protected p = Inr (None, p) \<or>
    (\<exists>vs p'. lru_evict n protected p = Inr (Some vs, p') \<and> length vs = n \<and> distinct (map fst vs)
      \<and> (\<forall>(k, b) \<in> set vs. lru_get p k = Some b \<and> bs_ref_cnt b = 0 \<and> k \<notin> set protected)
      \<and> lru_inv p' (E - fst ` set vs) \<and> lru_get p' = lru_get p |` (- fst ` set vs))"
proof (cases "n = 0")
  case True
  then show ?thesis using assms(1) by (simp add: lru_evict_def)
next
  case False
  define ks where "ks = take n (filter (\<lambda>k. k \<notin> set protected) (lru_evictable p))"
  define cs where "cs = map (\<lambda>k. (k, the (lru_get p k))) ks"
  let ?p = "p\<lparr>lru_evictable := fold (ks_del \<circ> fst) cs (lru_evictable p), lru_blocks := fold (od_pop \<circ> fst) cs (lru_blocks p)\<rparr>"
  have eq: "lru_evict n protected p = (if length cs < n then Inr (None, p) else Inr (Some cs, ?p))"
    using lru_evict_eq [OF assms] False by (simp add: cs_def ks_def)
  have keys: "map fst cs = ks" by (simp add: cs_def comp_def)
  have dist: "distinct (map fst cs)" unfolding keys ks_def using assms(1) by (simp add: lru_inv_def)
  have ks: "k \<in> idle_keys (lru_get p) \<and> k \<notin> set protected" if "k \<in> set ks" for k
    using in_set_takeD [OF that [unfolded ks_def]] assms by (auto simp: lru_inv_def)
  have idle: "\<forall>(k, b) \<in> set cs. lru_get p k = Some b \<and> bs_ref_cnt b = 0 \<and> k \<notin> set protected"
    using ks by (auto simp: cs_def idle_keys_def dest!: ks)
  have inv: "lru_inv ?p (E - fst ` set cs)" unfolding fold_ks_del fold_od_pop by (rule lru_inv_filter [OF assms(1)])
  have get: "lru_get ?p = lru_get p |` (- fst ` set cs)" by (simp add: lru_get_def fold_od_pop map_of_filter_keys)
  show ?thesis
  proof (cases "length cs < n")
    case True
    then show ?thesis using eq by simp
  next
    case full: False
    then have "length cs = n" by (simp add: cs_def ks_def)
    then show ?thesis using eq full dist idle inv get by (intro disjI2 exI conjI) simp_all
  qed
qed

lemma lru_evict_complete:
  assumes "lru_inv p E" "E = idle_keys (lru_get p)" "lru_evict n protected p = Inr (None, p)"
  shows "card (E - set protected) < n"
proof -
  have "n \<noteq> 0"
  proof
    assume "n = 0"
    then show False using assms(3) by (simp add: lru_evict_def)
  qed
  then have "length (filter (\<lambda>k. k \<notin> set protected) (lru_evictable p)) < n"
    using lru_evict_eq [OF assms(1,2), of n protected] assms(3) by (auto split: if_splits)
  moreover have "E - set protected = set (filter (\<lambda>k. k \<notin> set protected) (lru_evictable p))" using assms(1) by (auto simp: lru_inv_def)
  ultimately show ?thesis using card_length [of "filter (\<lambda>k. k \<notin> set protected) (lru_evictable p)"] by simp
qed

lemma lru_touch_law: "lru_inv p E \<Longrightarrow> lru_inv (lru_touch ks p) E \<and> lru_get (lru_touch ks p) = lru_get p"
proof -
  have "lru_inv p E \<Longrightarrow> lru_inv (fold (\<lambda>k p. if k \<in> set (lru_evictable p)
      then p\<lparr>lru_evictable := ks_del k (lru_evictable p) @ [k]\<rparr> else p) ks p) E
    \<and> lru_get (fold (\<lambda>k p. if k \<in> set (lru_evictable p) then p\<lparr>lru_evictable := ks_del k (lru_evictable p) @ [k]\<rparr> else p) ks p) = lru_get p"
    for ks
  proof (induction ks arbitrary: p)
    case (Cons k ks)
    have "lru_inv (if k \<in> set (lru_evictable p) then p\<lparr>lru_evictable := ks_del k (lru_evictable p) @ [k]\<rparr> else p) E"
      using Cons.prems by (auto simp: lru_inv_def ks_del_simps)
    from Cons.IH [OF this] show ?case by (simp add: lru_get_def)
  qed simp
  then show "lru_inv p E \<Longrightarrow> lru_inv (lru_touch ks p) E \<and> lru_get (lru_touch ks p) = lru_get p" unfolding lru_touch_def .
qed

interpretation lru: complete_policy lru_ops lru_inv
proof unfold_locales
  fix p E
  assume inv: "lru_inv p E"
  show "finite (dom (pol_get lru_ops p))" by (simp add: lru_ops_def lru_get_def finite_dom_map_of)
  show "lru_inv (pol_touch lru_ops ks p) E \<and> pol_get lru_ops (pol_touch lru_ops ks p) = pol_get lru_ops p" for ks
    using lru_touch_law [OF inv] by (simp add: lru_ops_def)
  show "lru_inv (pol_clear lru_ops p) {} \<and> pol_get lru_ops (pol_clear lru_ops p) = Map.empty"
    by (simp add: lru_ops_def lru_clear_def lru_inv_def lru_get_def)
  fix k
  show "pol_get lru_ops p k = None \<Longrightarrow> bs_ref_cnt b \<noteq> 0 \<Longrightarrow>
      lru_inv (pol_insert lru_ops k b p) E \<and> pol_get lru_ops (pol_insert lru_ops k b p) = (pol_get lru_ops p)(k \<mapsto> b)" for b
    using inv by (auto simp: lru_ops_def lru_insert_def lru_inv_def lru_get_def od_set_keys od_set_distinct simp del: set_map)
  show "pol_get lru_ops p k \<noteq> None \<Longrightarrow> k \<notin> E \<Longrightarrow>
      \<exists>p'. pol_remove lru_ops k p = Inr p' \<and> lru_inv p' E \<and> pol_get lru_ops p' = (pol_get lru_ops p)(k := None)"
    using inv by (auto simp: lru_ops_def lru_remove_def lru_inv_def lru_get_def od_pop_keys od_pop_distinct ks_del_simps simp del: set_map)
  show "pol_get lru_ops p k = Some b \<Longrightarrow> lru_inv (pol_set_ref lru_ops k n p) E
      \<and> pol_get lru_ops (pol_set_ref lru_ops k n p) = (pol_get lru_ops p)(k \<mapsto> b\<lparr>bs_ref_cnt := n\<rparr>)" for b n
    using inv by (simp add: lru_ops_def lru_set_ref_def lru_inv_def lru_get_def od_set_ref_keys od_set_ref_map_of del: set_map)
  show "pol_get lru_ops p k \<noteq> None \<Longrightarrow> lru_inv (pol_mark_evictable lru_ops k p) (insert k E)
      \<and> pol_get lru_ops (pol_mark_evictable lru_ops k p) = pol_get lru_ops p"
    using inv by (auto simp: lru_ops_def lru_mark_evictable_def lru_inv_def lru_get_def ks_add_simps map_of_None_keys simp del: set_map)
  show "pol_get lru_ops p k \<noteq> None \<Longrightarrow> k \<in> E \<Longrightarrow>
      \<exists>p'. pol_mark_non_evictable lru_ops k p = Inr p' \<and> lru_inv p' (E - {k}) \<and> pol_get lru_ops p' = pol_get lru_ops p"
    using inv by (auto simp: lru_ops_def lru_mark_non_evictable_def lru_inv_def lru_get_def ks_del_simps simp del: set_map)
next
  fix p E n protected
  assume inv: "lru_inv p E" "E = idle_keys (pol_get lru_ops p)"
  show "pol_evict lru_ops n protected p = Inr (None, p) \<or>
      (\<exists>vs p'. pol_evict lru_ops n protected p = Inr (Some vs, p') \<and> length vs = n \<and> distinct (map fst vs)
        \<and> (\<forall>(k, b) \<in> set vs. pol_get lru_ops p k = Some b \<and> bs_ref_cnt b = 0 \<and> k \<notin> set protected)
        \<and> lru_inv p' (E - fst ` set vs) \<and> pol_get lru_ops p' = pol_get lru_ops p |` (- fst ` set vs))"
    using lru_evict_law inv by (simp add: lru_ops_def)
  show "pol_evict lru_ops n protected p = Inr (None, p) \<Longrightarrow> card (E - set protected) < n"
    using lru_evict_complete inv by (simp add: lru_ops_def)
qed

section \<open>ARC keeps the contract\<close>

text \<open>ARC reads the reference counts itself and does not depend on the marks.\<close>

definition arc_inv :: "arc \<Rightarrow> offload_key set \<Rightarrow> bool" where
  "arc_inv p E \<longleftrightarrow> distinct (map fst (arc_t1 p)) \<and> distinct (map fst (arc_t2 p))
     \<and> set (map fst (arc_t1 p)) \<inter> set (map fst (arc_t2 p)) = {}"

lemma arc_get_map: "arc_get p = map_of (arc_t2 p) ++ map_of (arc_t1 p)"
  by (rule ext) (simp add: arc_get_def map_add_def)

lemma arc_get_None: "arc_get p k = None \<longleftrightarrow> k \<notin> set (map fst (arc_t1 p)) \<and> k \<notin> set (map fst (arc_t2 p))"
  by (simp add: arc_get_map map_of_None_keys del: set_map)

lemma next_candidate_Some:
  assumes "next_candidate protected es = (Some (k, b), es')" "distinct (map fst es)"
  shows "(k, b) \<in> set es" "bs_ref_cnt b = 0" "k \<notin> set protected" "set es' \<subseteq> set es" "k \<notin> fst ` set es'" "distinct (map fst es')"
  using assms by (induction protected es rule: next_candidate.induct) (auto split: if_splits)

lemma next_candidate_None: "next_candidate protected es = (None, es') \<Longrightarrow> es' = []"
  by (induction protected es rule: next_candidate.induct) (auto split: if_splits)

text \<open>What a selection from two disjoint lists of entries returns.\<close>

definition selection :: "offload_key list \<Rightarrow> (offload_key \<times> block_status) list \<Rightarrow> (offload_key \<times> block_status) list
    \<Rightarrow> (offload_key \<times> block_status \<times> bool) list \<Rightarrow> bool" where
  "selection protected it1 it2 cs \<longleftrightarrow> distinct (map fst cs)
     \<and> (\<forall>(k, b, f) \<in> set cs. (k, b) \<in> set (if f then it1 else it2) \<and> bs_ref_cnt b = 0 \<and> k \<notin> set protected)"

lemma selection_mono:
  "selection protected it1' it2' cs \<Longrightarrow> set it1' \<subseteq> set it1 \<Longrightarrow> set it2' \<subseteq> set it2 \<Longrightarrow> selection protected it1 it2 cs"
  unfolding selection_def by (fastforce split: if_splits)

lemma selection_side:
  assumes "selection protected it1 it2 cs" "c \<in> set cs"
  shows "fst c \<in> fst ` set (if snd (snd c) then it1 else it2)"
proof -
  obtain k b f where c: "c = (k, b, f)" by (cases c)
  with assms have "(k, b) \<in> set (if f then it1 else it2)" by (auto simp: selection_def)
  then show ?thesis by (simp add: c rev_image_eqI)
qed

lemma selection_keys:
  assumes "selection protected it1 it2 cs"
  shows "fst ` set cs \<subseteq> fst ` set it1 \<union> fst ` set it2"
proof
  fix k assume "k \<in> fst ` set cs"
  then obtain c where "c \<in> set cs" "k = fst c" by blast
  with selection_side [OF assms, of c] show "k \<in> fst ` set it1 \<union> fst ` set it2" by (cases "snd (snd c)") auto
qed

lemma selection_Cons:
  assumes "selection protected it1' it2' cs" "set it1' \<subseteq> set it1" "set it2' \<subseteq> set it2"
    and "(k, b) \<in> set (if f then it1 else it2)" "bs_ref_cnt b = 0" "k \<notin> set protected" "k \<notin> fst ` set it1' \<union> fst ` set it2'"
  shows "selection protected it1 it2 ((k, b, f) # cs)"
proof -
  have "selection protected it1 it2 cs" by (rule selection_mono [OF assms(1-3)])
  moreover have "k \<notin> fst ` set cs" using selection_keys [OF assms(1)] assms(7) by blast
  ultimately show ?thesis using assms(4-6) by (auto simp: selection_def)
qed

lemma arc_select_sound:
  assumes "arc_select n protected target v it1 it2 = Some cs" "distinct (map fst it1)" "distinct (map fst it2)"
    "fst ` set it1 \<inter> fst ` set it2 = {}"
  shows "length cs = n \<and> selection protected it1 it2 cs"
  using assms
proof (induction n arbitrary: v it1 it2 cs)
  case 0
  then show ?case by (simp add: selection_def)
next
  case (Suc n)
  obtain e1 it1' where e1: "(if target \<le> v then next_candidate protected it1 else (None, it1)) = (e1, it1')" by fastforce
  show ?case
  proof (cases e1)
    case (Some x)
    obtain k b where x: "x = (k, b)" by (cases x)
    from e1 Some x have nc: "next_candidate protected it1 = (Some (k, b), it1')" by (auto split: if_splits)
    note c = next_candidate_Some [OF nc Suc.prems(2)]
    from Suc.prems(1) e1 Some x obtain cs' where cs: "arc_select n protected target (v - 1) it1' it2 = Some cs'" "cs = (k, b, True) # cs'"
      by (auto simp: Let_def split: option.splits)
    have dis: "fst ` set it1' \<inter> fst ` set it2 = {}" using Suc.prems(4) c(4) by blast
    have "k \<notin> fst ` set it2" using Suc.prems(4) c(1) by force
    with Suc.IH [OF cs(1) c(6) Suc.prems(3) dis] selection_Cons [of protected it1' it2 cs' it1 it2 k b True] c
    show ?thesis by (simp add: cs(2))
  next
    case None
    have it1': "set it1' \<subseteq> set it1" "distinct (map fst it1')"
      using e1 None Suc.prems(2) by (auto split: if_splits dest: next_candidate_None)
    obtain e2 it2' where e2: "next_candidate protected it2 = (e2, it2')" by fastforce
    from Suc.prems(1) e1 None e2 obtain k b where e2': "e2 = Some (k, b)" by (cases e2) (auto simp: Let_def)
    note c = next_candidate_Some [OF e2 [unfolded e2'] Suc.prems(3)]
    from Suc.prems(1) e1 None e2 e2' obtain cs' where cs: "arc_select n protected target v it1' it2' = Some cs'" "cs = (k, b, False) # cs'"
      by (auto simp: Let_def split: option.splits)
    have dis: "fst ` set it1' \<inter> fst ` set it2' = {}" using Suc.prems(4) it1'(1) c(4) by blast
    have "k \<notin> fst ` set it1'" using Suc.prems(4) it1'(1) c(1) by force
    with Suc.IH [OF cs(1) it1'(2) c(6) dis] selection_Cons [of protected it1' it2' cs' it1 it2 k b False] c it1'(1)
    show ?thesis by (simp add: cs(2))
  qed
qed

lemma fold_arc_apply:
  "arc_t1 (fold arc_apply cs p) = filter (\<lambda>x. \<forall>c \<in> set cs. snd (snd c) \<longrightarrow> fst x \<noteq> fst c) (arc_t1 p)"
  "arc_t2 (fold arc_apply cs p) = filter (\<lambda>x. \<forall>c \<in> set cs. \<not> snd (snd c) \<longrightarrow> fst x \<noteq> fst c) (arc_t2 p)"
  by (induction cs arbitrary: p) (auto simp: arc_apply_def od_pop_def intro!: filter_cong split: prod.splits)

text \<open>Each selected key is removed from the list it was taken from, and is in no other.\<close>

lemma arc_evicted_lists:
  assumes "arc_inv p E" "selection protected (arc_t1 p) (arc_t2 p) cs"
  defines "p' \<equiv> arc_trim (fold arc_apply cs p)"
  shows "arc_t1 p' = filter (\<lambda>x. fst x \<notin> fst ` set cs) (arc_t1 p)" "arc_t2 p' = filter (\<lambda>x. fst x \<notin> fst ` set cs) (arc_t2 p)"
proof -
  note side = selection_side [OF assms(2)]
  have disj: "fst ` set (arc_t1 p) \<inter> fst ` set (arc_t2 p) = {}" using assms(1) by (simp add: arc_inv_def)
  have no: "fst x \<noteq> fst c" if "x \<in> set (arc_t1 p)" "c \<in> set cs" "\<not> snd (snd c)" for x c
    using side [OF that(2)] disj imageI [OF that(1), of fst] that(3) by (simp add: disjoint_iff) metis
  have no': "fst x \<noteq> fst c" if "x \<in> set (arc_t2 p)" "c \<in> set cs" "snd (snd c)" for x c
    using side [OF that(2)] disj imageI [OF that(1), of fst] that(3) by (simp add: disjoint_iff) metis
  have "(\<forall>c \<in> set cs. snd (snd c) \<longrightarrow> fst x \<noteq> fst c) \<longleftrightarrow> fst x \<notin> fst ` set cs" if "x \<in> set (arc_t1 p)" for x
    using no [OF that] by blast
  moreover have "(\<forall>c \<in> set cs. \<not> snd (snd c) \<longrightarrow> fst x \<noteq> fst c) \<longleftrightarrow> fst x \<notin> fst ` set cs" if "x \<in> set (arc_t2 p)" for x
    using no' [OF that] by blast
  ultimately show "arc_t1 p' = filter (\<lambda>x. fst x \<notin> fst ` set cs) (arc_t1 p)" "arc_t2 p' = filter (\<lambda>x. fst x \<notin> fst ` set cs) (arc_t2 p)"
    by (simp_all add: p'_def arc_trim_def fold_arc_apply cong: filter_cong)
qed

lemma arc_evict_law:
  assumes "arc_inv p E"
  shows "arc_evict n protected p = Inr (None, p) \<or>
    (\<exists>vs p'. arc_evict n protected p = Inr (Some vs, p') \<and> length vs = n \<and> distinct (map fst vs)
      \<and> (\<forall>(k, b) \<in> set vs. arc_get p k = Some b \<and> bs_ref_cnt b = 0 \<and> k \<notin> set protected)
      \<and> arc_inv p' (E - fst ` set vs) \<and> arc_get p' = arc_get p |` (- fst ` set vs))"
proof (cases "n = 0")
  case True
  then show ?thesis using assms by (simp add: arc_evict_def)
next
  case False
  let ?sel = "arc_select n protected \<lfloor>arc_target_t1_size p\<rfloor> (int (length (arc_t1 p))) (arc_t1 p) (arc_t2 p)"
  show ?thesis
  proof (cases ?sel)
    case None
    then show ?thesis using False by (simp add: arc_evict_def)
  next
    case (Some cs)
    let ?p = "arc_trim (fold arc_apply cs p)"
    define vs where "vs = map (\<lambda>(k, b, _). (k, b)) cs"
    have d: "distinct (map fst (arc_t1 p))" "distinct (map fst (arc_t2 p))" "fst ` set (arc_t1 p) \<inter> fst ` set (arc_t2 p) = {}"
      using assms by (simp_all add: arc_inv_def)
    from arc_select_sound [OF Some d] have sel: "length cs = n" "selection protected (arc_t1 p) (arc_t2 p) cs" by simp_all
    note lists = arc_evicted_lists [OF assms sel(2)]
    have keys: "map fst vs = map fst cs" by (auto simp: vs_def case_prod_unfold)
    have found: "arc_get p k = Some b \<and> bs_ref_cnt b = 0 \<and> k \<notin> set protected" if "(k, b) \<in> set vs" for k b
    proof -
      from that obtain f where "(k, b, f) \<in> set cs" by (auto simp: vs_def)
      with sel(2) have c: "(k, b) \<in> set (if f then arc_t1 p else arc_t2 p)" "bs_ref_cnt b = 0" "k \<notin> set protected"
        by (auto simp: selection_def)
      have "arc_get p k = Some b"
      proof (cases f)
        case True
        then show ?thesis using c(1) d(1) by (simp add: arc_get_def)
      next
        case False
        then have "(k, b) \<in> set (arc_t2 p)" using c(1) by simp
        moreover from this d(3) have "map_of (arc_t1 p) k = None" by (force simp: map_of_eq_None_iff)
        ultimately show ?thesis using d(2) by (simp add: arc_get_def)
      qed
      with c show ?thesis by simp
    qed
    have fsts: "fst ` set vs = fst ` set cs" using arg_cong [OF keys, of set] by (simp only: set_map)
    have inv: "arc_inv ?p (E - fst ` set vs)" using assms by (auto simp: arc_inv_def lists distinct_map_filter)
    have get: "arc_get ?p = arc_get p |` (- fst ` set vs)"
      unfolding fsts by (simp add: arc_get_map lists map_of_filter_keys restrict_map_def map_add_def fun_eq_iff)
    have ev: "arc_evict n protected p = Inr (Some vs, ?p)" using Some False by (simp add: arc_evict_def vs_def)
    have "distinct (map fst vs)" using sel(2) unfolding keys by (simp add: selection_def)
    moreover have "\<forall>(k, b) \<in> set vs. arc_get p k = Some b \<and> bs_ref_cnt b = 0 \<and> k \<notin> set protected" using found by blast
    moreover have "length vs = n" using sel(1) by (simp add: vs_def)
    ultimately show ?thesis using inv get ev by blast
  qed
qed

lemma arc_touch_one_law:
  assumes "arc_inv p E"
  shows "arc_inv (arc_touch_one k p) E" "arc_get (arc_touch_one k p) = arc_get p"
proof -
  have t2: "map_of (arc_t2 p) k = None" "k \<notin> set (map fst (arc_t2 p))" if "map_of (arc_t1 p) k = Some b" for b
    using assms that by (force simp: arc_inv_def map_of_eq_None_iff dest: map_of_SomeD)+
  have t1: "k \<notin> set (map fst (arc_t1 p))" if "map_of (arc_t1 p) k = None" using that by (simp add: map_of_eq_None_iff)
  show "arc_get (arc_touch_one k p) = arc_get p"
    using t2 by (auto simp: arc_touch_one_def arc_get_map map_add_def fun_eq_iff split: option.splits)
  show "arc_inv (arc_touch_one k p) E" using assms t2 t1
    by (auto simp: arc_touch_one_def arc_inv_def od_pop_keys od_pop_distinct od_set_keys od_set_distinct
        split: option.splits simp del: set_map)
qed

lemma arc_touch_law: "arc_inv p E \<Longrightarrow> arc_inv (arc_touch ks p) E \<and> arc_get (arc_touch ks p) = arc_get p"
proof -
  have "arc_inv p E \<Longrightarrow> arc_inv (fold arc_touch_one ks p) E \<and> arc_get (fold arc_touch_one ks p) = arc_get p" for ks
    by (induction ks arbitrary: p) (auto simp: arc_touch_one_law)
  then show "arc_inv p E \<Longrightarrow> arc_inv (arc_touch ks p) E \<and> arc_get (arc_touch ks p) = arc_get p" unfolding arc_touch_def .
qed

lemma arc_t2_free: "arc_inv p E \<Longrightarrow> map_of (arc_t1 p) k = Some b \<Longrightarrow> map_of (arc_t2 p) k = None"
  by (force simp: arc_inv_def map_of_eq_None_iff dest: map_of_SomeD)

lemma arc_remove_law:
  assumes "arc_inv p E"
  shows "\<exists>p'. arc_remove k p = Inr p' \<and> arc_inv p' E \<and> arc_get p' = (arc_get p)(k := None)"
proof (cases "map_of (arc_t1 p) k")
  case None
  let ?p = "p\<lparr>arc_t2 := od_pop k (arc_t2 p)\<rparr>"
  have "arc_inv ?p E" using assms by (auto simp: arc_inv_def od_pop_keys od_pop_distinct simp del: set_map)
  moreover have "arc_get ?p = (arc_get p)(k := None)" using None by (auto simp: arc_get_map map_add_def fun_eq_iff split: option.splits)
  ultimately show ?thesis using None by (simp add: arc_remove_def)
next
  case (Some b)
  let ?p = "p\<lparr>arc_t1 := od_pop k (arc_t1 p)\<rparr>"
  have "arc_inv ?p E" using assms by (auto simp: arc_inv_def od_pop_keys od_pop_distinct simp del: set_map)
  moreover have "arc_get ?p = (arc_get p)(k := None)" using arc_t2_free [OF assms Some] by (auto simp: arc_get_map map_add_def fun_eq_iff)
  ultimately show ?thesis using Some by (simp add: arc_remove_def)
qed

lemma arc_set_ref_law:
  assumes "arc_inv p E" "arc_get p k = Some b"
  shows "arc_inv (arc_set_ref k n p) E" "arc_get (arc_set_ref k n p) = (arc_get p)(k \<mapsto> b\<lparr>bs_ref_cnt := n\<rparr>)"
proof -
  show "arc_inv (arc_set_ref k n p) E" using assms(1) by (simp add: arc_inv_def arc_set_ref_def od_set_ref_keys del: set_map)
  show "arc_get (arc_set_ref k n p) = (arc_get p)(k \<mapsto> b\<lparr>bs_ref_cnt := n\<rparr>)"
  proof (cases "map_of (arc_t1 p) k")
    case None
    then have "map_of (arc_t2 p) k = Some b" using assms(2) by (simp add: arc_get_def)
    from od_set_ref_map_of [OF this] None show ?thesis
      by (auto simp: arc_get_map arc_set_ref_def map_add_def fun_eq_iff split: option.splits)
  next
    case (Some c)
    then have "map_of (arc_t1 p) k = Some b" using assms(2) by (simp add: arc_get_def)
    from od_set_ref_map_of [OF this] Some show ?thesis
      by (auto simp: arc_get_map arc_set_ref_def map_add_def fun_eq_iff split: option.splits)
  qed
qed

interpretation arc: cache_policy arc_ops arc_inv
proof unfold_locales
  fix p E
  assume inv: "arc_inv p E"
  show "finite (dom (pol_get arc_ops p))" by (simp add: arc_ops_def arc_get_map finite_dom_map_of)
  show "arc_inv (pol_touch arc_ops ks p) E \<and> pol_get arc_ops (pol_touch arc_ops ks p) = pol_get arc_ops p" for ks
    using arc_touch_law [OF inv] by (simp add: arc_ops_def)
  show "arc_inv (pol_clear arc_ops p) {} \<and> pol_get arc_ops (pol_clear arc_ops p) = Map.empty"
    by (simp add: arc_ops_def arc_clear_def arc_inv_def arc_get_map)
  fix k
  show "pol_get arc_ops p k = None \<Longrightarrow> bs_ref_cnt b \<noteq> 0 \<Longrightarrow>
      arc_inv (pol_insert arc_ops k b p) E \<and> pol_get arc_ops (pol_insert arc_ops k b p) = (pol_get arc_ops p)(k \<mapsto> b)" for b
    using inv by (simp add: arc_ops_def arc_insert_def arc_inv_def arc_get_None od_set_keys od_set_distinct del: set_map)
      (simp add: arc_get_map)
  show "pol_get arc_ops p k \<noteq> None \<Longrightarrow> k \<notin> E \<Longrightarrow>
      \<exists>p'. pol_remove arc_ops k p = Inr p' \<and> arc_inv p' E \<and> pol_get arc_ops p' = (pol_get arc_ops p)(k := None)"
    using arc_remove_law [OF inv] by (simp add: arc_ops_def)
  show "pol_get arc_ops p k = Some b \<Longrightarrow> arc_inv (pol_set_ref arc_ops k n p) E
      \<and> pol_get arc_ops (pol_set_ref arc_ops k n p) = (pol_get arc_ops p)(k \<mapsto> b\<lparr>bs_ref_cnt := n\<rparr>)" for b n
    using arc_set_ref_law [OF inv] by (simp add: arc_ops_def)
  show "pol_get arc_ops p k \<noteq> None \<Longrightarrow> arc_inv (pol_mark_evictable arc_ops k p) (insert k E)
      \<and> pol_get arc_ops (pol_mark_evictable arc_ops k p) = pol_get arc_ops p"
    using inv by (simp add: arc_ops_def arc_inv_def)
  show "pol_get arc_ops p k \<noteq> None \<Longrightarrow> k \<in> E \<Longrightarrow>
      \<exists>p'. pol_mark_non_evictable arc_ops k p = Inr p' \<and> arc_inv p' (E - {k}) \<and> pol_get arc_ops p' = pol_get arc_ops p"
    using inv by (simp add: arc_ops_def arc_inv_def)
  show "pol_evict arc_ops n protected p = Inr (None, p) \<or>
      (\<exists>vs p'. pol_evict arc_ops n protected p = Inr (Some vs, p') \<and> length vs = n \<and> distinct (map fst vs)
        \<and> (\<forall>(k, b) \<in> set vs. pol_get arc_ops p k = Some b \<and> bs_ref_cnt b = 0 \<and> k \<notin> set protected)
        \<and> arc_inv p' (E - fst ` set vs) \<and> pol_get arc_ops p' = pol_get arc_ops p |` (- fst ` set vs))" for n protected
    using arc_evict_law [OF inv] by (simp add: arc_ops_def)
qed

end
