(* ===== verification/Offload_Manager.thy ===== *)
theory Offload_Manager
  imports Offload_Policy
begin

text \<open>
  \<^verbatim>\<open>vllm/v1/kv_offload/cpu/manager.py\<close>: the manager of the CPU tier.  It numbers the CPU blocks, keeps
  the blocks that loads and stores are using from being evicted, and counts accesses for store
  admission.  Its operations take the policy as a record of functions; the proofs use only the
  contract \<open>cache_policy\<close>, and both policies are instances.
\<close>

section \<open>State\<close>

datatype lookup_result = MISS | HIT | HIT_PENDING | RETRY

text \<open>\<open>OffloadingEvent\<close> of this tier.\<close>

record offload_event =
  oe_keys :: "offload_key list"
  oe_removed :: bool

record 'p offload_mgr =
  om_num_blocks :: int
  om_num_allocated_blocks :: int
  om_free_list :: "int list"
  om_events :: "offload_event list option"
  om_policy :: 'p
  om_num_evictable_cache_blocks :: int
  om_num_write_pending_blocks :: int
  om_store_threshold :: int
  om_max_tracker_size :: int
  om_stores_skipped :: int
  om_allocation_sizes :: "int list"
  om_counts :: "(offload_key \<times> int) list option"

definition om_init :: "int \<Rightarrow> 'p \<Rightarrow> bool \<Rightarrow> int \<Rightarrow> int \<Rightarrow> 'p offload_mgr" where
  "om_init num_blocks policy enable_events store_threshold max_tracker_size =
     \<lparr>om_num_blocks = num_blocks, om_num_allocated_blocks = 0, om_free_list = [],
      om_events = (if enable_events then Some [] else None), om_policy = policy, om_num_evictable_cache_blocks = 0,
      om_num_write_pending_blocks = 0, om_store_threshold = store_threshold, om_max_tracker_size = max_tracker_size,
      om_stores_skipped = 0, om_allocation_sizes = [], om_counts = (if 2 \<le> store_threshold then Some [] else None)\<rparr>"

section \<open>Block pool\<close>

definition om_get_num_free_blocks :: "'p offload_mgr \<Rightarrow> int" where
  "om_get_num_free_blocks m = int (length (om_free_list m)) + om_num_blocks m - om_num_allocated_blocks m"

text \<open>\<open>_allocate_blocks\<close> for \<open>n\<close> keys: fresh blocks first, then from the end of the free list.\<close>

definition om_allocate_blocks :: "nat \<Rightarrow> 'p offload_mgr \<Rightarrow> (block_status list \<times> 'p offload_mgr) res" where
  "om_allocate_blocks n m =
     (let num_fresh = min (int n) (om_num_blocks m - om_num_allocated_blocks m); num_reused = int n - num_fresh
      in bindE (py_assert (num_reused \<le> int (length (om_free_list m)))) (\<lambda>_.
         Inr (map new_block_status (py_range (om_num_allocated_blocks m) (om_num_allocated_blocks m + num_fresh)
                @ take (nat num_reused) (rev (om_free_list m))),
              m\<lparr>om_num_allocated_blocks := om_num_allocated_blocks m + max 0 num_fresh,
                om_free_list := take (length (om_free_list m) - nat num_reused) (om_free_list m)\<rparr>)))"

definition om_free_block :: "block_status \<Rightarrow> 'p offload_mgr \<Rightarrow> 'p offload_mgr" where
  "om_free_block b m = m\<lparr>om_free_list := om_free_list m @ [bs_block_id b]\<rparr>"

definition om_record_access :: "offload_key \<Rightarrow> 'p offload_mgr \<Rightarrow> 'p offload_mgr res" where
  "om_record_access k m = (case om_counts m of
     None \<Rightarrow> Inl AssertionError
   | Some counts \<Rightarrow> (case map_of counts k of
       Some c \<Rightarrow> Inr (m\<lparr>om_counts := Some (od_pop k counts @ [(k, c + 1)])\<rparr>)
     | None \<Rightarrow>
         if om_max_tracker_size m \<le> int (length counts)
         then (if counts = [] then Inl KeyError else Inr (m\<lparr>om_counts := Some (tl counts @ [(k, 1)])\<rparr>))
         else Inr (m\<lparr>om_counts := Some (counts @ [(k, 1)])\<rparr>)))"

definition om_emit :: "offload_key list \<Rightarrow> bool \<Rightarrow> 'p offload_mgr \<Rightarrow> 'p offload_mgr" where
  "om_emit ks removed m = (case om_events m of
     None \<Rightarrow> m
   | Some es \<Rightarrow> if ks = [] then m else m\<lparr>om_events := Some (es @ [\<lparr>oe_keys = ks, oe_removed = removed\<rparr>])\<rparr>)"

section \<open>Operations\<close>

definition om_lookup :: "'p policy_ops \<Rightarrow> offload_key \<Rightarrow> 'p offload_mgr \<Rightarrow> lookup_result" where
  "om_lookup ops k m = (case pol_get ops (om_policy m) k of
     None \<Rightarrow> MISS | Some b \<Rightarrow> if is_ready b then HIT else HIT_PENDING)"

definition om_load_one :: "'p policy_ops \<Rightarrow> offload_key \<Rightarrow> int list \<times> 'p offload_mgr \<Rightarrow> (int list \<times> 'p offload_mgr) res" where
  "om_load_one ops k st = (case st of (ids, m) \<Rightarrow> (case pol_get ops (om_policy m) k of
     None \<Rightarrow> Inl AssertionError
   | Some b \<Rightarrow> bindE (py_assert (is_ready b)) (\<lambda>_.
       bindE (if bs_ref_cnt b = 0
         then bindE (pol_mark_non_evictable ops k (om_policy m)) (\<lambda>p.
           bindE (py_assert (0 \<le> om_num_evictable_cache_blocks m - 1)) (\<lambda>_.
           Inr (m\<lparr>om_policy := p, om_num_evictable_cache_blocks := om_num_evictable_cache_blocks m - 1\<rparr>)))
         else Inr m) (\<lambda>m.
       Inr (ids @ [bs_block_id b], m\<lparr>om_policy := pol_set_ref ops k (bs_ref_cnt b + 1) (om_policy m)\<rparr>)))))"

definition om_prepare_load :: "'p policy_ops \<Rightarrow> offload_key list \<Rightarrow> 'p offload_mgr \<Rightarrow> (int list \<times> 'p offload_mgr) res" where
  "om_prepare_load ops ks m = foldE (om_load_one ops) ks ([], m)"

definition om_touch :: "'p policy_ops \<Rightarrow> offload_key list \<Rightarrow> 'p offload_mgr \<Rightarrow> 'p offload_mgr" where
  "om_touch ops ks m = m\<lparr>om_policy := pol_touch ops ks (om_policy m)\<rparr>"

definition om_loaded_one :: "'p policy_ops \<Rightarrow> offload_key \<Rightarrow> 'p offload_mgr \<Rightarrow> 'p offload_mgr res" where
  "om_loaded_one ops k m = (case pol_get ops (om_policy m) k of
     None \<Rightarrow> Inl AssertionError
   | Some b \<Rightarrow> bindE (py_assert (0 < bs_ref_cnt b)) (\<lambda>_.
       let p = pol_set_ref ops k (bs_ref_cnt b - 1) (om_policy m)
       in Inr (if bs_ref_cnt b - 1 = 0
          then m\<lparr>om_num_evictable_cache_blocks := om_num_evictable_cache_blocks m + 1, om_policy := pol_mark_evictable ops k p\<rparr>
          else m\<lparr>om_policy := p\<rparr>)))"

definition om_complete_load :: "'p policy_ops \<Rightarrow> offload_key list \<Rightarrow> 'p offload_mgr \<Rightarrow> 'p offload_mgr res" where
  "om_complete_load ops ks m = foldE (om_loaded_one ops) ks m"

text \<open>The admission of keys by their access counts.\<close>

definition om_admit :: "offload_key list \<Rightarrow> 'p offload_mgr \<Rightarrow> (offload_key list \<times> 'p offload_mgr) res" where
  "om_admit ks m =
     (if om_counts m = None then Inr (ks, m)
      else bindE (foldE om_record_access ks m) (\<lambda>m.
        let ks' = filter (\<lambda>k. om_store_threshold m \<le> (case map_of (the (om_counts m)) k of None \<Rightarrow> 0 | Some c \<Rightarrow> c)) ks
        in Inr (ks', m\<lparr>om_stores_skipped := om_stores_skipped m + (int (length ks) - int (length ks'))\<rparr>)))"

text \<open>Making room for \<open>n\<close> blocks: the evicted keys, or None if it is not possible.\<close>

definition om_make_room :: "'p policy_ops \<Rightarrow> nat \<Rightarrow> offload_key list \<Rightarrow> 'p offload_mgr \<Rightarrow> (offload_key list option \<times> 'p offload_mgr) res" where
  "om_make_room ops n protected m =
     (let num_blocks_to_evict = int n - om_get_num_free_blocks m
      in if num_blocks_to_evict \<le> 0 then Inr (Some [], m)
      else if om_num_evictable_cache_blocks m < num_blocks_to_evict then Inr (None, m)
      else bindE (pol_evict ops (nat num_blocks_to_evict) protected (om_policy m)) (\<lambda>(evicted, p). case evicted of
        None \<Rightarrow> Inr (None, m\<lparr>om_policy := p\<rparr>)
      | Some vs \<Rightarrow>
          bindE (py_assert (0 \<le> om_num_evictable_cache_blocks m - int (length vs))) (\<lambda>_.
          Inr (Some (map fst vs), fold (om_free_block \<circ> snd) vs
            (m\<lparr>om_policy := p, om_num_evictable_cache_blocks := om_num_evictable_cache_blocks m - int (length vs)\<rparr>)))))"

definition om_store_keys :: "'p policy_ops \<Rightarrow> offload_key list \<Rightarrow> offload_key list \<Rightarrow> 'p offload_mgr
    \<Rightarrow> ((offload_key list \<times> int list \<times> offload_key list) option \<times> 'p offload_mgr) res" where
  "om_store_keys ops ks keys_to_store m0 =
     bindE (om_make_room ops (length keys_to_store) ks m0) (\<lambda>(room, m1). case room of
       None \<Rightarrow> Inr (None, m1)
     | Some to_evict \<Rightarrow>
         bindE (om_allocate_blocks (length keys_to_store) (om_emit to_evict True m1)) (\<lambda>(blocks, m2).
         bindE (py_assert (length blocks = length keys_to_store)) (\<lambda>_.
         Inr (Some (keys_to_store, map bs_block_id blocks, to_evict),
              m2\<lparr>om_policy := fold (\<lambda>(k, b). pol_insert ops k b) (zip keys_to_store blocks) (om_policy m2),
                 om_num_write_pending_blocks := om_num_write_pending_blocks m2 + int (length keys_to_store)\<rparr>))))"

definition om_prepare_store :: "'p policy_ops \<Rightarrow> offload_key list \<Rightarrow> 'p offload_mgr
    \<Rightarrow> ((offload_key list \<times> int list \<times> offload_key list) option \<times> 'p offload_mgr) res" where
  "om_prepare_store ops ks0 m0 = bindE (om_admit ks0 m0) (\<lambda>(ks, m1).
     let keys_to_store = filter (\<lambda>k. pol_get ops (om_policy m1) k = None) ks
     in if keys_to_store = [] then Inr (Some ([], [], []), m1)
        else om_store_keys ops ks keys_to_store (m1\<lparr>om_allocation_sizes := om_allocation_sizes m1 @ [int (length keys_to_store)]\<rparr>))"

definition om_stored_one :: "'p policy_ops \<Rightarrow> offload_key \<Rightarrow> offload_key list \<times> 'p offload_mgr \<Rightarrow> offload_key list \<times> 'p offload_mgr" where
  "om_stored_one ops k st = (case st of (stored, m) \<Rightarrow> (case pol_get ops (om_policy m) k of
     None \<Rightarrow> (stored, m)
   | Some b \<Rightarrow>
       if is_ready b then (stored, m)
       else (stored @ [k],
             m\<lparr>om_num_write_pending_blocks := om_num_write_pending_blocks m - 1,
               om_num_evictable_cache_blocks := om_num_evictable_cache_blocks m + 1,
               om_policy := pol_mark_evictable ops k (pol_set_ref ops k 0 (om_policy m))\<rparr>)))"

definition om_failed_one :: "'p policy_ops \<Rightarrow> offload_key \<Rightarrow> 'p offload_mgr \<Rightarrow> 'p offload_mgr res" where
  "om_failed_one ops k m = (case pol_get ops (om_policy m) k of
     None \<Rightarrow> Inr m
   | Some b \<Rightarrow>
       if is_ready b then Inr m
       else bindE (pol_remove ops k (om_policy m)) (\<lambda>p.
         Inr (om_free_block b (m\<lparr>om_num_write_pending_blocks := om_num_write_pending_blocks m - 1, om_policy := p\<rparr>))))"

definition om_complete_store :: "'p policy_ops \<Rightarrow> offload_key list \<Rightarrow> bool \<Rightarrow> 'p offload_mgr \<Rightarrow> 'p offload_mgr res" where
  "om_complete_store ops ks success m =
     (if success then (case fold (om_stored_one ops) ks ([], m) of (stored, m) \<Rightarrow> Inr (om_emit stored False m))
      else foldE (om_failed_one ops) ks m)"

definition om_reset_cache :: "'p policy_ops \<Rightarrow> 'p offload_mgr \<Rightarrow> 'p offload_mgr" where
  "om_reset_cache ops m = m\<lparr>om_policy := pol_clear ops (om_policy m), om_num_evictable_cache_blocks := 0,
     om_num_write_pending_blocks := 0, om_free_list := [], om_num_allocated_blocks := 0\<rparr>"

definition om_take_events :: "'p offload_mgr \<Rightarrow> offload_event list \<times> 'p offload_mgr" where
  "om_take_events m = (case om_events m of None \<Rightarrow> ([], m) | Some es \<Rightarrow> (es, m\<lparr>om_events := Some []\<rparr>))"

text \<open>\<open>get_stats\<close>: the figures it reports; the batch statistics start anew.\<close>

record offload_stats =
  st_usage :: rat
  st_allocation_sizes :: "int list"
  st_write_usage :: rat
  st_read_usage :: rat
  st_stores_skipped :: "int option"

definition om_get_stats :: "'p offload_mgr \<Rightarrow> offload_stats \<times> 'p offload_mgr" where
  "om_get_stats m =
     (let num_used = om_num_allocated_blocks m - int (length (om_free_list m)) - om_num_evictable_cache_blocks m;
          usage = (if 0 < om_num_blocks m then of_int num_used / of_int (om_num_blocks m) else 0);
          write_usage = (if 0 < om_num_blocks m then of_int (om_num_write_pending_blocks m) / of_int (om_num_blocks m) else 0);
          counted = 2 \<le> om_store_threshold m
      in (\<lparr>st_usage = usage, st_allocation_sizes = om_allocation_sizes m, st_write_usage = write_usage,
           st_read_usage = max (usage - write_usage) 0, st_stores_skipped = (if counted then Some (om_stores_skipped m) else None)\<rparr>,
          m\<lparr>om_allocation_sizes := [], om_stores_skipped := (if counted then 0 else om_stores_skipped m)\<rparr>))"

section \<open>The state machine\<close>

text \<open>The keys of one store are distinct; everything else the operations check themselves.\<close>

inductive offload_reachable :: "'p policy_ops \<Rightarrow> 'p offload_mgr \<Rightarrow> 'p offload_mgr \<Rightarrow> bool" for ops m0 where
  start: "offload_reachable ops m0 m0"
| load: "offload_reachable ops m0 m \<Longrightarrow> om_prepare_load ops ks m = Inr (ids, m') \<Longrightarrow> offload_reachable ops m0 m'"
| loaded: "offload_reachable ops m0 m \<Longrightarrow> om_complete_load ops ks m = Inr m' \<Longrightarrow> offload_reachable ops m0 m'"
| touched: "offload_reachable ops m0 m \<Longrightarrow> offload_reachable ops m0 (om_touch ops ks m)"
| store: "offload_reachable ops m0 m \<Longrightarrow> distinct ks \<Longrightarrow> om_prepare_store ops ks m = Inr (out, m') \<Longrightarrow> offload_reachable ops m0 m'"
| stored: "offload_reachable ops m0 m \<Longrightarrow> om_complete_store ops ks success m = Inr m' \<Longrightarrow> offload_reachable ops m0 m'"
| reset: "offload_reachable ops m0 m \<Longrightarrow> offload_reachable ops m0 (om_reset_cache ops m)"
| events: "offload_reachable ops m0 m \<Longrightarrow> offload_reachable ops m0 (snd (om_take_events m))"
| stats: "offload_reachable ops m0 m \<Longrightarrow> offload_reachable ops m0 (snd (om_get_stats m))"

section \<open>The invariant\<close>

text \<open>The CPU blocks below \<open>alloc\<close> are divided between the stored keys and the free list.\<close>

definition pool_ok :: "(offload_key \<rightharpoonup> block_status) \<Rightarrow> int list \<Rightarrow> int \<Rightarrow> bool" where
  "pool_ok G free alloc \<longleftrightarrow> inj_on (\<lambda>k. bs_block_id (the (G k))) (dom G) \<and> distinct free
     \<and> (\<lambda>k. bs_block_id (the (G k))) ` dom G \<inter> set free = {}
     \<and> (\<lambda>k. bs_block_id (the (G k))) ` dom G \<union> set free = {0..<alloc}"

definition pending_keys :: "(offload_key \<rightharpoonup> block_status) \<Rightarrow> offload_key set" where
  "pending_keys G = {k. \<exists>b. G k = Some b \<and> bs_ref_cnt b = - 1}"

definition offload_ok :: "'p policy_ops \<Rightarrow> 'p offload_mgr \<Rightarrow> bool" where
  "offload_ok ops m \<longleftrightarrow> pool_ok (pol_get ops (om_policy m)) (om_free_list m) (om_num_allocated_blocks m)
     \<and> 0 \<le> om_num_allocated_blocks m \<and> om_num_allocated_blocks m \<le> om_num_blocks m
     \<and> (\<forall>k b. pol_get ops (om_policy m) k = Some b \<longrightarrow> - 1 \<le> bs_ref_cnt b)
     \<and> om_num_evictable_cache_blocks m = int (card (idle_keys (pol_get ops (om_policy m))))
     \<and> om_num_write_pending_blocks m = int (card (pending_keys (pol_get ops (om_policy m))))"

end
