(* ===== verification/Offload_Props.thy ===== *)
theory Offload_Props
  imports Offload_Manager
begin

text \<open>
  Proofs for the manager of the CPU tier.  The first part is about maps from keys to blocks: what an
  update, a removal, an eviction and an allocation do to the division of the blocks and to the two
  counters.  The second part, inside the contract \<open>cache_policy\<close>, shows that every operation of the
  manager keeps its invariant, for any policy; the results are then read off for LRU and ARC.
\<close>

section \<open>Keys by reference count\<close>

definition keys_with :: "int \<Rightarrow> (offload_key \<rightharpoonup> block_status) \<Rightarrow> offload_key set" where
  "keys_with r G = {k. \<exists>b. G k = Some b \<and> bs_ref_cnt b = r}"

lemma idle_pending_keys: "idle_keys G = keys_with 0 G" "pending_keys G = keys_with (- 1) G"
  by (simp_all add: idle_keys_def pending_keys_def keys_with_def)

lemma finite_keys_with: "finite (dom G) \<Longrightarrow> finite (keys_with r G)"
  by (rule finite_subset [of _ "dom G"]) (auto simp: keys_with_def)

lemma keys_with_upd: "keys_with r (G(k \<mapsto> b)) = (if bs_ref_cnt b = r then insert k (keys_with r G) else keys_with r G - {k})"
  by (auto simp: keys_with_def)

lemma keys_with_del: "keys_with r (G(k := None)) = keys_with r G - {k}"
  by (auto simp: keys_with_def)

lemma keys_with_mem: "k \<in> keys_with r G \<longleftrightarrow> (\<exists>b. G k = Some b \<and> bs_ref_cnt b = r)"
  by (simp add: keys_with_def)

text \<open>The number of keys with a count, after a change of one key.\<close>

lemma card_keys_del:
  assumes "finite (dom G)" "G k = Some b"
  shows "int (card (keys_with r (G(k := None)))) = int (card (keys_with r G)) - of_bool (bs_ref_cnt b = r)"
proof (cases "k \<in> keys_with r G")
  case True
  then have "card (keys_with r G) = Suc (card (keys_with r G - {k}))"
    using finite_keys_with [OF assms(1)] by (metis card.remove)
  with True assms(2) show ?thesis by (auto simp: keys_with_del keys_with_mem)
next
  case False
  with assms(2) show ?thesis by (auto simp: keys_with_del keys_with_mem)
qed

lemma card_keys_new:
  assumes "finite (dom G)" "G k = None"
  shows "int (card (keys_with r (G(k \<mapsto> b)))) = int (card (keys_with r G)) + of_bool (bs_ref_cnt b = r)"
proof -
  have "k \<notin> keys_with r G" using assms(2) by (simp add: keys_with_mem)
  then show ?thesis using finite_keys_with [OF assms(1), of r] by (auto simp: keys_with_upd)
qed

lemma card_keys_upd:
  assumes "finite (dom G)" "G k = Some b"
  shows "int (card (keys_with r (G(k \<mapsto> c)))) = int (card (keys_with r G)) - of_bool (bs_ref_cnt b = r) + of_bool (bs_ref_cnt c = r)"
proof -
  have "G(k \<mapsto> c) = (G(k := None))(k \<mapsto> c)" by simp
  then show ?thesis using card_keys_new [of "G(k := None)" k r c] card_keys_del [OF assms, of r] assms(1) by simp
qed

section \<open>The tier as a map\<close>

definition tier_ok :: "(offload_key \<rightharpoonup> block_status) \<Rightarrow> int list \<Rightarrow> int \<Rightarrow> int \<Rightarrow> int \<Rightarrow> int \<Rightarrow> bool" where
  "tier_ok G free alloc n evictable pending \<longleftrightarrow> finite (dom G) \<and> pool_ok G free alloc \<and> 0 \<le> alloc \<and> alloc \<le> n
     \<and> (\<forall>k b. G k = Some b \<longrightarrow> - 1 \<le> bs_ref_cnt b)
     \<and> evictable = int (card (keys_with 0 G)) \<and> pending = int (card (keys_with (- 1) G))"

definition block_of :: "(offload_key \<rightharpoonup> block_status) \<Rightarrow> offload_key \<Rightarrow> int" where
  "block_of G k = bs_block_id (the (G k))"

lemma pool_ok_iff: "pool_ok G free alloc \<longleftrightarrow> inj_on (block_of G) (dom G) \<and> distinct free
     \<and> block_of G ` dom G \<inter> set free = {} \<and> block_of G ` dom G \<union> set free = {0..<alloc}"
  by (simp add: pool_ok_def block_of_def [abs_def])

lemma pool_ok_new:
  assumes "pool_ok G free alloc" "G k = None" "i \<notin> {0..<alloc} \<and> free' = free \<and> {0..<alloc'} = insert i {0..<alloc} \<or> free = free' @ [i] \<and> alloc' = alloc"
    "bs_block_id b = i"
  shows "pool_ok (G(k \<mapsto> b)) free' alloc'"
proof -
  have im: "block_of (G(k \<mapsto> b)) ` dom G = block_of G ` dom G" using assms(2) by (intro image_cong) (auto simp: block_of_def)
  have inj: "inj_on (block_of (G(k \<mapsto> b))) (dom G) = inj_on (block_of G) (dom G)" using assms(2) by (intro inj_on_cong) (auto simp: block_of_def)
  have k: "k \<notin> dom G" "block_of (G(k \<mapsto> b)) k = i" using assms(2,4) by (auto simp: block_of_def)
  have d: "dom (G(k \<mapsto> b)) = insert k (dom G)" by simp
  from assms(1) have part: "block_of G ` dom G \<inter> set free = {}" "block_of G ` dom G \<union> set free = {0..<alloc}" unfolding pool_ok_iff by simp_all
  have i: "i \<notin> block_of G ` dom G"
  proof (cases "i \<in> set free")
    case False
    with assms(3) have "i \<notin> {0..<alloc}" by auto
    with part(2) show ?thesis by blast
  qed (use part(1) in blast)
  have inj': "inj_on (block_of (G(k \<mapsto> b))) (insert k (dom G))"
    using assms(1) i k(1) unfolding pool_ok_iff inj_on_insert by (simp add: inj im k(2) del: fun_upd_apply)
  have im': "block_of (G(k \<mapsto> b)) ` insert k (dom G) = insert i (block_of G ` dom G)" unfolding image_insert im k(2) ..
  have sets: "insert i B \<inter> set free' = {} \<and> insert i B \<union> set free' = {0..<alloc'} \<and> distinct free'"
    if "B \<inter> set free = {}" "B \<union> set free = {0..<alloc}" "i \<notin> B" "distinct free" for B
    using assms(3)
  proof
    assume new: "i \<notin> {0..<alloc} \<and> free' = free \<and> {0..<alloc'} = insert i {0..<alloc}"
    then have "i \<notin> set free" using that(2) by blast
    with new that show ?thesis by simp
  qed (use that in auto)
  show ?thesis using assms(1) inj' sets [OF part i] unfolding pool_ok_iff d im' by simp
qed

lemma pool_ok_del:
  assumes "pool_ok G free alloc" "G k = Some b"
  shows "pool_ok (G(k := None)) (free @ [bs_block_id b]) alloc"
proof -
  have k: "k \<in> dom G" "block_of G k = bs_block_id b" using assms(2) by (auto simp: block_of_def)
  have im: "block_of (G(k := None)) ` (dom G - {k}) = block_of G ` (dom G - {k})" by (intro image_cong) (auto simp: block_of_def)
  have inj: "inj_on (block_of (G(k := None))) (dom G - {k}) = inj_on (block_of G) (dom G - {k})" by (intro inj_on_cong) (auto simp: block_of_def)
  have part: "block_of G ` dom G = insert (bs_block_id b) (block_of G ` (dom G - {k}))"
    unfolding k(2) [symmetric] image_insert [symmetric] insert_Diff [OF k(1)] ..
  have out: "bs_block_id b \<notin> block_of G ` (dom G - {k})" 
    using assms(1) k(1) inj_on_image_mem_iff [of "block_of G" "dom G" k "dom G - {k}"] unfolding pool_ok_iff k(2) [symmetric] by auto
  have d: "dom (G(k := None)) = dom G - {k}" by simp
  have "inj_on (block_of G) (dom G - {k})" using assms(1) unfolding pool_ok_iff by (blast intro: inj_on_subset)
  then show ?thesis using assms(1) out unfolding pool_ok_iff d im inj part by auto
qed

lemma pool_ok_upd:
  assumes "pool_ok G free alloc" "G k = Some b" "bs_block_id c = bs_block_id b"
  shows "pool_ok (G(k \<mapsto> c)) free alloc"
proof -
  have "dom (G(k \<mapsto> c)) = dom G" "block_of (G(k \<mapsto> c)) = block_of G" using assms(2,3) by (auto simp: block_of_def fun_eq_iff)
  with assms(1) show ?thesis unfolding pool_ok_iff by simp
qed

lemma tier_upd:
  assumes "tier_ok G free alloc n e w" "G k = Some b" "- 1 \<le> r"
  shows "tier_ok (G(k \<mapsto> b\<lparr>bs_ref_cnt := r\<rparr>)) free alloc n (e - of_bool (bs_ref_cnt b = 0) + of_bool (r = 0))
    (w - of_bool (bs_ref_cnt b = - 1) + of_bool (r = - 1))"
  using assms card_keys_upd [of G k b _ "b\<lparr>bs_ref_cnt := r\<rparr>"] pool_ok_upd [of G free alloc k b "b\<lparr>bs_ref_cnt := r\<rparr>"]
  by (auto simp: tier_ok_def)

lemma tier_del:
  assumes "tier_ok G free alloc n e w" "G k = Some b"
  shows "tier_ok (G(k := None)) (free @ [bs_block_id b]) alloc n (e - of_bool (bs_ref_cnt b = 0)) (w - of_bool (bs_ref_cnt b = - 1))"
  using assms card_keys_del [of G k b] pool_ok_del [of G free alloc k b] by (auto simp: tier_ok_def)

lemma tier_fresh:
  assumes "tier_ok G free alloc n e w" "G k = None" "alloc < n"
  shows "tier_ok (G(k \<mapsto> new_block_status alloc)) free (alloc + 1) n e (w + 1)"
proof -
  have "{0..<alloc + 1} = insert alloc {0..<alloc}" using assms(1) by (auto simp: tier_ok_def)
  then show ?thesis using assms card_keys_new [of G k _ "new_block_status alloc"]
      pool_ok_new [of G free alloc k alloc free "alloc + 1" "new_block_status alloc"]
    by (auto simp: tier_ok_def new_block_status_def)
qed

lemma tier_reused:
  assumes "tier_ok G (free @ [i]) alloc n e w" "G k = None"
  shows "tier_ok (G(k \<mapsto> new_block_status i)) free alloc n e (w + 1)"
  using assms card_keys_new [of G k _ "new_block_status i"]
    pool_ok_new [of G "free @ [i]" alloc k i free alloc "new_block_status i"]
  by (auto simp: tier_ok_def new_block_status_def)

section \<open>Several blocks at once\<close>

lemma restrict_not_insert: "G |` (- insert k A) = (G(k := None)) |` (- A)"
  by (auto simp: restrict_map_def)

lemma tier_evict:
  assumes "tier_ok G free alloc n e w" "distinct (map fst vs)" "\<forall>(k, b) \<in> set vs. G k = Some b \<and> bs_ref_cnt b = 0"
  shows "tier_ok (G |` (- fst ` set vs)) (free @ map (bs_block_id \<circ> snd) vs) alloc n (e - int (length vs)) w"
  using assms
proof (induction vs arbitrary: G free e)
  case (Cons v vs)
  obtain k b where v: "v = (k, b)" by (cases v)
  have b: "G k = Some b" "bs_ref_cnt b = 0" using Cons.prems(3) v by auto
  have "\<forall>(k', b') \<in> set vs. (G(k := None)) k' = Some b' \<and> bs_ref_cnt b' = 0" using Cons.prems(2,3) v by force
  moreover have "tier_ok (G(k := None)) (free @ [bs_block_id b]) alloc n (e - 1) w" using tier_del [OF Cons.prems(1) b(1)] b(2) by simp
  ultimately show ?case using Cons.IH [of "G(k := None)" "free @ [bs_block_id b]" "e - 1"] Cons.prems(2)
    by (simp add: v restrict_not_insert diff_diff_eq del: fun_upd_apply Compl_insert)
qed simp

definition store_all :: "(offload_key \<times> block_status) list \<Rightarrow> (offload_key \<rightharpoonup> block_status) \<Rightarrow> (offload_key \<rightharpoonup> block_status)" where
  "store_all kbs G = fold (\<lambda>(k, b) G. G(k \<mapsto> b)) kbs G"

lemma store_all_simps [simp]: "store_all [] G = G" "store_all ((k, b) # kbs) G = store_all kbs (G(k \<mapsto> b))"
  "store_all (xs @ ys) G = store_all ys (store_all xs G)"
  by (simp_all add: store_all_def)

lemma store_all_other: "k \<notin> fst ` set kbs \<Longrightarrow> store_all kbs G k = G k"
  by (induction kbs arbitrary: G) auto

lemma store_all_at: "distinct (map fst kbs) \<Longrightarrow> (k, b) \<in> set kbs \<Longrightarrow> store_all kbs G k = Some b"
  by (induction kbs arbitrary: G) (auto simp: store_all_other)

lemma tier_allocate_fresh:
  assumes "tier_ok G free alloc n e w" "distinct ks" "\<forall>k \<in> set ks. G k = None" "alloc + int (length ks) \<le> n"
  shows "tier_ok (store_all (zip ks (map new_block_status (py_range alloc (alloc + int (length ks))))) G)
    free (alloc + int (length ks)) n e (w + int (length ks))"
  using assms
proof (induction ks arbitrary: G alloc w)
  case (Cons k ks)
  have step: "py_range alloc (alloc + int (length (k # ks))) = alloc # py_range (alloc + 1) (alloc + 1 + int (length ks))"
    by (simp add: py_range_def upto_rec1)
  have "tier_ok (G(k \<mapsto> new_block_status alloc)) free (alloc + 1) n e (w + 1)"
    using Cons.prems by (intro tier_fresh) simp_all
  moreover have "\<forall>x \<in> set ks. (G(k \<mapsto> new_block_status alloc)) x = None" using Cons.prems(2,3) by auto
  ultimately have "tier_ok (store_all (zip ks (map new_block_status (py_range (alloc + 1) (alloc + 1 + int (length ks))))) (G(k \<mapsto> new_block_status alloc)))
    free (alloc + 1 + int (length ks)) n e (w + 1 + int (length ks))" using Cons.prems(2,4) by (intro Cons.IH) (simp_all del: fun_upd_apply)
  then show ?case unfolding step by (simp add: ac_simps)
qed (simp add: py_range_def)

lemma tier_allocate_reused:
  assumes "tier_ok G free alloc n e w" "distinct ks" "\<forall>k \<in> set ks. G k = None" "length ks \<le> length free"
  shows "tier_ok (store_all (zip ks (map new_block_status (take (length ks) (rev free)))) G)
    (take (length free - length ks) free) alloc n e (w + int (length ks))"
  using assms
proof (induction ks arbitrary: G free w)
  case (Cons k ks)
  obtain free' i where free: "free = free' @ [i]" using Cons.prems(4) by (cases free rule: rev_cases) auto
  have "tier_ok (G(k \<mapsto> new_block_status i)) free' alloc n e (w + 1)"
    using Cons.prems(1,3) by (intro tier_reused) (simp_all add: free)
  moreover have "\<forall>x \<in> set ks. (G(k \<mapsto> new_block_status i)) x = None" using Cons.prems(2,3) by auto
  ultimately have "tier_ok (store_all (zip ks (map new_block_status (take (length ks) (rev free')))) (G(k \<mapsto> new_block_status i)))
    (take (length free' - length ks) free') alloc n e (w + 1 + int (length ks))" using Cons.prems(2,4) by (intro Cons.IH) (simp_all add: free del: fun_upd_apply)
  then show ?case by (simp add: free ac_simps)
qed simp

lemma length_py_range: "length (py_range a (a + int n)) = n"
  by (simp add: py_range_def)

text \<open>\<open>_allocate_blocks\<close> returns when enough blocks are free, and divides the blocks as before.\<close>

lemma allocate_total:
  fixes m :: "'p offload_mgr"
  assumes "tier_ok G (om_free_list m) (om_num_allocated_blocks m) (om_num_blocks m) e w" "distinct ks" "\<forall>k \<in> set ks. G k = None"
    "int (length ks) \<le> om_get_num_free_blocks m"
  shows "\<exists>bs alloc free. om_allocate_blocks (length ks) m = Inr (bs, m\<lparr>om_num_allocated_blocks := alloc, om_free_list := free\<rparr>)
    \<and> length bs = length ks \<and> (\<forall>b \<in> set bs. bs_ref_cnt b = - 1)
    \<and> tier_ok (store_all (zip ks bs) G) free alloc (om_num_blocks m) e (w + int (length ks))"
proof -
  let ?alloc = "om_num_allocated_blocks m" and ?n = "om_num_blocks m" and ?free = "om_free_list m"
  define f where "f = nat (min (int (length ks)) (?n - ?alloc))"
  define r where "r = length ks - f"
  have room: "?alloc \<le> ?n" using assms(1) by (simp add: tier_ok_def)
  then have f: "min (int (length ks)) (?n - ?alloc) = int f" "f \<le> length ks" "?alloc + int f \<le> ?n" by (auto simp: f_def)
  then have r: "int (length ks) - int f = int r" "length ks = f + r" by (auto simp: r_def)
  have enough: "r \<le> length ?free" using assms(4) f r by (auto simp: om_get_num_free_blocks_def min_def split: if_splits)
  let ?ks1 = "take f ks" and ?ks2 = "drop f ks"
  let ?bs1 = "map new_block_status (py_range ?alloc (?alloc + int f))" and ?bs2 = "map new_block_status (take r (rev ?free))"
  let ?G1 = "store_all (zip ?ks1 ?bs1) G"
  have len: "length ?ks1 = f" "length ?ks2 = r" "length ?bs1 = f" "length ?bs2 = r"
    using f(2) r(2) enough by (simp_all add: length_py_range)
  have t1: "tier_ok ?G1 ?free (?alloc + int f) ?n e (w + int f)"
    by (rule tier_allocate_fresh [OF assms(1) distinct_take [OF assms(2), of f], unfolded len(1)]) (use assms(3) f(3) in \<open>auto dest: in_set_takeD\<close>)
  have "\<forall>k \<in> set ?ks2. ?G1 k = None"
  proof
    fix k assume k: "k \<in> set ?ks2"
    then have "k \<notin> set ?ks1" using set_take_disj_set_drop_if_distinct [OF assms(2), of f f] by auto
    then have "k \<notin> fst ` set (zip ?ks1 ?bs1)" by (auto dest: set_zip_leftD)
    with k assms(3) show "?G1 k = None" by (auto simp: store_all_other dest: in_set_dropD)
  qed
  from tier_allocate_reused [OF t1 distinct_drop [OF assms(2)] this, unfolded len(2), OF enough]
  have t2: "tier_ok (store_all (zip ?ks2 ?bs2) ?G1) (take (length ?free - r) ?free) (?alloc + int f) ?n e (w + int f + int r)" .
  have zip: "zip ks (?bs1 @ ?bs2) = zip ?ks1 ?bs1 @ zip ?ks2 ?bs2"
    using zip_append [of ?ks1 ?bs1 ?ks2 ?bs2] len by simp
  have "om_allocate_blocks (length ks) m = Inr (?bs1 @ ?bs2, m\<lparr>om_num_allocated_blocks := ?alloc + int f, om_free_list := take (length ?free - r) ?free\<rparr>)"
    using f(1) r(1) enough by (simp add: om_allocate_blocks_def Let_def)
  moreover have "\<forall>b \<in> set (?bs1 @ ?bs2). bs_ref_cnt b = - 1" by (auto simp: new_block_status_def)
  moreover have "length (?bs1 @ ?bs2) = length ks" using len r(2) by simp
  moreover have "tier_ok (store_all (zip ks (?bs1 @ ?bs2)) G) (take (length ?free - r) ?free) (?alloc + int f) ?n e (w + int (length ks))"
    using t2 unfolding zip store_all_simps r(2) of_nat_add by (simp only: add.assoc)
  ultimately show ?thesis by blast
qed

lemma keys_with_store_all:
  assumes "\<forall>(k, b) \<in> set kbs. G k = None \<and> bs_ref_cnt b = - 1"
  shows "keys_with 0 (store_all kbs G) = keys_with 0 G"
proof -
  have "\<forall>(k, b) \<in> set kbs. k \<notin> keys_with 0 G \<and> bs_ref_cnt b = - 1" using assms by (auto simp: keys_with_mem)
  then show ?thesis by (induction kbs arbitrary: G) (auto simp: keys_with_upd)
qed

text \<open>The map after \<open>d\<close> was added to the count of a key once for each occurrence.\<close>

definition shift_refs :: "int \<Rightarrow> offload_key list \<Rightarrow> (offload_key \<rightharpoonup> block_status) \<Rightarrow> (offload_key \<rightharpoonup> block_status)" where
  "shift_refs d ks G k = map_option (\<lambda>b. b\<lparr>bs_ref_cnt := bs_ref_cnt b + d * int (count_list ks k)\<rparr>) (G k)"

lemma shift_refs_Nil [simp]: "shift_refs d [] G = G"
  by (simp add: shift_refs_def fun_eq_iff option.map_ident)

lemma shift_refs_Cons: "G k = Some b \<Longrightarrow> shift_refs d ks (G(k \<mapsto> b\<lparr>bs_ref_cnt := bs_ref_cnt b + d\<rparr>)) = shift_refs d (k # ks) G"
  by (auto simp: shift_refs_def fun_eq_iff algebra_simps)

lemma shift_refs_back: "shift_refs (- d) ks (shift_refs d ks G) = G"
  by (simp add: shift_refs_def fun_eq_iff option.map_comp comp_def option.map_ident)

lemma admit_shape:
  assumes "om_admit ks m = Inr (ks', m1)"
  shows "\<exists>P. ks' = filter P ks" "\<exists>c s. m1 = m\<lparr>om_counts := c, om_stores_skipped := s\<rparr> \<and> (c = None \<longleftrightarrow> om_counts m = None)"
    "om_counts m = None \<Longrightarrow> ks' = ks"
proof -
  have rec: "\<exists>c. m'' = m'\<lparr>om_counts := c\<rparr> \<and> c \<noteq> None" if "om_record_access k m' = Inr m''" for k and m' m'' :: "'a offload_mgr"
    using that by (auto simp: om_record_access_def split: option.splits if_splits)
  have recs: "foldE om_record_access xs m' = Inr m'' \<Longrightarrow> om_counts m' \<noteq> None \<Longrightarrow> \<exists>c. m'' = m'\<lparr>om_counts := c\<rparr> \<and> c \<noteq> None" for xs and m' m'' :: "'a offload_mgr"
  proof (induction xs arbitrary: m')
    case Nil
    then show ?case by (intro exI [of _ "om_counts m'"]) simp
  next
    case (Cons x xs)
    from Cons.prems(1) obtain u where u: "om_record_access x m' = Inr u" "foldE om_record_access xs u = Inr m''" by (auto simp: bindE_eq_Inr)
    from rec [OF u(1)] Cons.IH [OF u(2)] show ?case by auto
  qed
  have "(\<exists>P. ks' = filter P ks) \<and> (\<exists>c s. m1 = m\<lparr>om_counts := c, om_stores_skipped := s\<rparr> \<and> (c = None \<longleftrightarrow> om_counts m = None))"
  proof (cases "om_counts m = None")
    case True
    with assms have "ks' = filter (\<lambda>_. True) ks" "m1 = m\<lparr>om_counts := om_counts m, om_stores_skipped := om_stores_skipped m\<rparr>"
      by (simp_all add: om_admit_def)
    then show ?thesis by blast
  next
    case False
    with assms obtain u where u: "foldE om_record_access ks m = Inr u" by (auto simp: om_admit_def bindE_eq_Inr Let_def)
    from recs [OF u False] obtain c where "u = m\<lparr>om_counts := c\<rparr>" "c \<noteq> None" by blast
    with assms False u show ?thesis by (auto simp: om_admit_def Let_def)
  qed
  then show "\<exists>P. ks' = filter P ks" "\<exists>c s. m1 = m\<lparr>om_counts := c, om_stores_skipped := s\<rparr> \<and> (c = None \<longleftrightarrow> om_counts m = None)" by blast+
  show "ks' = ks" if "om_counts m = None" using assms that by (simp add: om_admit_def)
qed

lemma admit_total:
  fixes m :: "'p offload_mgr"
  assumes "1 \<le> om_max_tracker_size m"
  shows "\<exists>ks' m1. om_admit ks m = Inr (ks', m1)"
proof -
  have "\<exists>m'. om_record_access k m = Inr m' \<and> (1 \<le> om_max_tracker_size m' \<and> om_counts m' \<noteq> None)"
    if "1 \<le> om_max_tracker_size m \<and> om_counts m \<noteq> None" for k and m :: "'p offload_mgr"
    using that by (auto simp: om_record_access_def split: option.splits)
  from foldE_total [of "\<lambda>m. 1 \<le> om_max_tracker_size m \<and> om_counts m \<noteq> None" m ks om_record_access, OF _ this] assms
  show ?thesis by (auto simp: om_admit_def Let_def)
qed

section \<open>The operations keep the invariant\<close>

definition mgr_ok :: "'p policy_ops \<Rightarrow> ('p \<Rightarrow> offload_key set \<Rightarrow> bool) \<Rightarrow> 'p offload_mgr \<Rightarrow> bool" where
  "mgr_ok ops I m \<longleftrightarrow> I (om_policy m) (keys_with 0 (pol_get ops (om_policy m)))
     \<and> tier_ok (pol_get ops (om_policy m)) (om_free_list m) (om_num_allocated_blocks m) (om_num_blocks m)
         (om_num_evictable_cache_blocks m) (om_num_write_pending_blocks m)"

lemma mgr_ok_offload_ok: "mgr_ok ops I m \<Longrightarrow> offload_ok ops m"
  by (simp add: mgr_ok_def offload_ok_def tier_ok_def idle_pending_keys)

lemma mgr_ok_ref: "mgr_ok ops I m \<Longrightarrow> pol_get ops (om_policy m) k = Some b \<Longrightarrow> - 1 \<le> bs_ref_cnt b"
  by (simp add: mgr_ok_def tier_ok_def)

lemma tier_evictable_pos: "tier_ok G free alloc n e w \<Longrightarrow> G k = Some b \<Longrightarrow> bs_ref_cnt b = 0 \<Longrightarrow> 1 \<le> e"
  using finite_keys_with [of G 0] card_gt_0_iff [of "keys_with 0 G"] keys_with_mem [of k 0 G] by (auto simp: tier_ok_def)

text \<open>The parameters of the manager never change.\<close>

definition om_params :: "'p offload_mgr \<Rightarrow> int \<times> int \<times> int \<times> bool" where
  "om_params m = (om_num_blocks m, om_store_threshold m, om_max_tracker_size m, om_counts m = None)"

lemma params_emit: "om_params (om_emit ks r m) = om_params m"
  by (simp add: om_emit_def om_params_def split: option.splits)

lemma params_free: "om_params (fold (om_free_block \<circ> snd) vs m) = om_params m"
  by (induction vs arbitrary: m) (simp_all add: om_free_block_def om_params_def)

lemma params_load_one: "om_load_one ops k (ids, m) = Inr (ids', m') \<Longrightarrow> om_params m' = om_params m"
  by (auto simp: om_load_one_def om_params_def bindE_eq_Inr split: option.splits if_splits)

lemma params_loaded_one: "om_loaded_one ops k m = Inr m' \<Longrightarrow> om_params m' = om_params m"
  by (auto simp: om_loaded_one_def om_params_def bindE_eq_Inr Let_def split: option.splits if_splits)

lemma params_make_room: "om_make_room ops n ks m = Inr (room, m') \<Longrightarrow> om_params m' = om_params m"
  by (auto simp: om_make_room_def Let_def bindE_eq_Inr params_free split: option.splits if_splits) (simp_all add: om_params_def)

lemma params_allocate: "om_allocate_blocks n m = Inr (bs, m') \<Longrightarrow> om_params m' = om_params m"
  by (auto simp: om_allocate_blocks_def om_params_def Let_def bindE_eq_Inr)

lemma params_store_keys:
  assumes "om_store_keys ops ks new m = Inr (out, m')"
  shows "om_params m' = om_params m"
proof -
  from assms obtain room m1 where m1: "om_make_room ops (length new) ks m = Inr (room, m1)" unfolding om_store_keys_def bindE_eq_Inr by (metis surj_pair)
  note p1 = params_make_room [OF m1]
  show ?thesis
  proof (cases room)
    case None
    then show ?thesis using assms m1 p1 by (simp add: om_store_keys_def)
  next
    case (Some ev)
    with assms m1 obtain bs m2 where m2: "om_allocate_blocks (length new) (om_emit ev True m1) = Inr (bs, m2)"
      "om_params m' = om_params m2"
      by (auto simp: om_store_keys_def bindE_eq_Inr om_params_def)
    from params_allocate [OF m2(1)] show ?thesis using p1 m2(2) by (simp add: params_emit)
  qed
qed

lemma params_prepare_store:
  assumes "om_prepare_store ops ks m = Inr (out, m')"
  shows "om_params m' = om_params m"
proof -
  from assms obtain ks' m1 where m1: "om_admit ks m = Inr (ks', m1)" unfolding om_prepare_store_def bindE_eq_Inr by (metis surj_pair)
  have "om_params m1 = om_params m" using admit_shape(2) [OF m1] by (auto simp: om_params_def)
  with assms m1 show ?thesis
    by (auto simp: om_prepare_store_def Let_def split: if_splits dest!: params_store_keys) (simp add: om_params_def)
qed

lemma params_stored_one: "om_params (snd (om_stored_one ops k st)) = om_params (snd st)"
  by (auto simp: om_stored_one_def om_params_def split: prod.splits option.splits)

lemma params_failed_one: "om_failed_one ops k m = Inr m' \<Longrightarrow> om_params m' = om_params m"
  by (auto simp: om_failed_one_def om_params_def om_free_block_def bindE_eq_Inr split: option.splits if_splits)

lemma params_complete_store:
  assumes "om_complete_store ops ks success m = Inr m'"
  shows "om_params m' = om_params m"
proof (cases success)
  case True
  have "om_params (snd (fold (om_stored_one ops) ks st)) = om_params (snd st)" for st
    by (induction ks arbitrary: st) (simp_all add: params_stored_one)
  from this [of "([], m)"] True assms show ?thesis by (auto simp: om_complete_store_def params_emit split: prod.splits)
next
  case False
  with assms have "foldE (om_failed_one ops) ks m = Inr m'" by (simp add: om_complete_store_def)
  then show ?thesis by (rule foldE_invariant [where P = "\<lambda>x. om_params x = om_params m"]) (simp_all add: params_failed_one)
qed

lemma reachable_params:
  assumes "offload_reachable ops m0 m"
  shows "om_params m = om_params m0"
  using assms
proof induction
  case (load m ks ids m')
  from load.hyps(2) have "om_params (snd (ids, m')) = om_params m0" unfolding om_prepare_load_def
    by (rule foldE_invariant [where P = "\<lambda>x. om_params (snd x) = om_params m0"]) (auto simp: load.IH dest: params_load_one)
  then show ?case by simp
next
  case (loaded m ks m')
  from loaded.hyps(2) show ?case unfolding om_complete_load_def
    by (rule foldE_invariant [where P = "\<lambda>x. om_params x = om_params m0"]) (auto simp: loaded.IH dest: params_loaded_one)
next
  case (touched m ks)
  then show ?case by (simp add: om_touch_def om_params_def)
next
  case (reset m)
  then show ?case by (simp add: om_reset_cache_def om_params_def)
next
  case (events m)
  then show ?case by (simp add: om_take_events_def om_params_def split: option.splits)
next
  case (stats m)
  then show ?case by (simp add: om_get_stats_def om_params_def Let_def)
qed (simp_all add: params_prepare_store params_complete_store)

context cache_policy
begin

lemma load_one_total:
  assumes "mgr_ok ops inv m" "pol_get ops (om_policy m) k = Some b" "0 \<le> bs_ref_cnt b"
  shows "\<exists>m'. om_load_one ops k (ids, m) = Inr (ids @ [bs_block_id b], m') \<and> mgr_ok ops inv m'
    \<and> pol_get ops (om_policy m') = (pol_get ops (om_policy m))(k \<mapsto> b\<lparr>bs_ref_cnt := bs_ref_cnt b + 1\<rparr>)
    \<and> om_num_blocks m' = om_num_blocks m \<and> om_free_list m' = om_free_list m \<and> om_num_allocated_blocks m' = om_num_allocated_blocks m"
proof -
  let ?G = "pol_get ops (om_policy m)" and ?r = "bs_ref_cnt b + 1"
  have inv: "inv (om_policy m) (keys_with 0 ?G)" and tier: "tier_ok ?G (om_free_list m) (om_num_allocated_blocks m) (om_num_blocks m)
         (om_num_evictable_cache_blocks m) (om_num_write_pending_blocks m)"
    using assms(1) by (simp_all add: mgr_ok_def)
  have idle: "keys_with 0 (?G(k \<mapsto> b\<lparr>bs_ref_cnt := ?r\<rparr>)) = keys_with 0 ?G - {k}" using assms(3) by (simp add: keys_with_upd)
  have tier': "tier_ok (?G(k \<mapsto> b\<lparr>bs_ref_cnt := ?r\<rparr>)) (om_free_list m) (om_num_allocated_blocks m) (om_num_blocks m)
         (om_num_evictable_cache_blocks m - of_bool (bs_ref_cnt b = 0)) (om_num_write_pending_blocks m)"
    using tier_upd [OF tier assms(2), of ?r] assms(3) by simp
  have rdy: "is_ready b" using assms(3) by (simp add: is_ready_def)
  show ?thesis
  proof (cases "bs_ref_cnt b = 0")
    case True
    then have mem: "k \<in> keys_with 0 ?G" using assms(2) by (simp add: keys_with_mem)
    obtain p where p: "pol_mark_non_evictable ops k (om_policy m) = Inr p" "inv p (keys_with 0 ?G - {k})" "pol_get ops p = ?G"
      using unmark_law [OF inv _ mem] assms(2) by auto
    have "pol_get ops p k = Some b" using p(3) assms(2) by simp
    from set_ref_law [OF p(2) this, of ?r] tier' idle show ?thesis
      using tier_evictable_pos [OF tier assms(2) True] True assms(2) p rdy
      by (simp add: om_load_one_def mgr_ok_def del: fun_upd_apply)
  next
    case False
    then have "keys_with 0 ?G - {k} = keys_with 0 ?G" using assms(2) by (simp add: keys_with_mem)
    with set_ref_law [OF inv assms(2), of ?r] tier' idle False assms(2) rdy show ?thesis
      by (simp add: om_load_one_def mgr_ok_def del: fun_upd_apply Diff_insert0)
  qed
qed

lemma loaded_one_total:
  assumes "mgr_ok ops inv m" "pol_get ops (om_policy m) k = Some b" "0 < bs_ref_cnt b"
  shows "\<exists>m'. om_loaded_one ops k m = Inr m' \<and> mgr_ok ops inv m'
    \<and> pol_get ops (om_policy m') = (pol_get ops (om_policy m))(k \<mapsto> b\<lparr>bs_ref_cnt := bs_ref_cnt b - 1\<rparr>)
    \<and> om_num_blocks m' = om_num_blocks m \<and> om_free_list m' = om_free_list m \<and> om_num_allocated_blocks m' = om_num_allocated_blocks m"
proof -
  let ?G = "pol_get ops (om_policy m)" and ?r = "bs_ref_cnt b - 1"
  let ?p = "pol_set_ref ops k ?r (om_policy m)"
  have inv: "inv (om_policy m) (keys_with 0 ?G)" and tier: "tier_ok ?G (om_free_list m) (om_num_allocated_blocks m) (om_num_blocks m)
         (om_num_evictable_cache_blocks m) (om_num_write_pending_blocks m)"
    using assms(1) by (simp_all add: mgr_ok_def)
  have k: "k \<notin> keys_with 0 ?G" using assms(2,3) by (simp add: keys_with_mem)
  then have idle: "keys_with 0 (?G(k \<mapsto> b\<lparr>bs_ref_cnt := ?r\<rparr>)) = (if ?r = 0 then insert k (keys_with 0 ?G) else keys_with 0 ?G)"
    by (simp add: keys_with_upd)
  have tier': "tier_ok (?G(k \<mapsto> b\<lparr>bs_ref_cnt := ?r\<rparr>)) (om_free_list m) (om_num_allocated_blocks m) (om_num_blocks m)
         (om_num_evictable_cache_blocks m + of_bool (?r = 0)) (om_num_write_pending_blocks m)"
    using tier_upd [OF tier assms(2), of ?r] assms(3) by simp
  have p: "inv ?p (keys_with 0 ?G)" "pol_get ops ?p = ?G(k \<mapsto> b\<lparr>bs_ref_cnt := ?r\<rparr>)" using set_ref_law [OF inv assms(2), of ?r] by simp_all
  then have "pol_get ops ?p k \<noteq> None" by simp
  from mark_law [OF p(1) this] have q: "inv (pol_mark_evictable ops k ?p) (insert k (keys_with 0 ?G))" "pol_get ops (pol_mark_evictable ops k ?p) = pol_get ops ?p" by simp_all
  show ?thesis
  proof (cases "?r = 0")
    case True
    with idle tier' p q assms(2,3) show ?thesis by (simp add: om_loaded_one_def mgr_ok_def Let_def del: fun_upd_apply)
  next
    case False
    with idle tier' p assms(2,3) show ?thesis by (simp add: om_loaded_one_def mgr_ok_def Let_def del: fun_upd_apply)
  qed
qed

lemma stored_one_step:
  fixes m :: "'p offload_mgr" and k :: offload_key and stored :: "offload_key list"
  assumes "mgr_ok ops inv m"
  defines "G \<equiv> pol_get ops (om_policy m)"
  defines "m' \<equiv> snd (om_stored_one ops k (stored, m))"
  shows "mgr_ok ops inv m'" "om_num_blocks m' = om_num_blocks m"
    "pol_get ops (om_policy m') = (case G k of Some b \<Rightarrow> if is_ready b then G else G(k \<mapsto> b\<lparr>bs_ref_cnt := 0\<rparr>) | None \<Rightarrow> G)"
proof -
  have inv: "inv (om_policy m) (keys_with 0 G)" and tier: "tier_ok G (om_free_list m) (om_num_allocated_blocks m) (om_num_blocks m)
         (om_num_evictable_cache_blocks m) (om_num_write_pending_blocks m)"
    using assms(1) by (simp_all add: mgr_ok_def G_def)
  have "mgr_ok ops inv m' \<and> om_num_blocks m' = om_num_blocks m \<and>
    pol_get ops (om_policy m') = (case G k of Some b \<Rightarrow> if is_ready b then G else G(k \<mapsto> b\<lparr>bs_ref_cnt := 0\<rparr>) | None \<Rightarrow> G)"
  proof (cases "\<exists>b. G k = Some b \<and> \<not> is_ready b")
    case False
    then have "m' = m" by (auto simp: m'_def om_stored_one_def G_def split: option.splits)
    with False assms(1) show ?thesis by (auto simp: G_def split: option.splits)
  next
    case True
    then obtain b where b: "G k = Some b" "\<not> is_ready b" by blast
    then have r: "bs_ref_cnt b = - 1" using mgr_ok_ref [OF assms(1), of k b] by (simp add: is_ready_def G_def)
    let ?p = "pol_set_ref ops k 0 (om_policy m)"
    have p: "inv ?p (keys_with 0 G)" "pol_get ops ?p = G(k \<mapsto> b\<lparr>bs_ref_cnt := 0\<rparr>)"
      using set_ref_law [OF inv, of k b 0] b(1) by (simp_all add: G_def)
    then have "pol_get ops ?p k \<noteq> None" by simp
    note q = mark_law [OF p(1) this]
    have tier': "tier_ok (G(k \<mapsto> b\<lparr>bs_ref_cnt := 0\<rparr>)) (om_free_list m) (om_num_allocated_blocks m) (om_num_blocks m)
         (om_num_evictable_cache_blocks m + 1) (om_num_write_pending_blocks m - 1)"
      using tier_upd [OF tier b(1), of 0] r by simp
    have idle: "keys_with 0 (G(k \<mapsto> b\<lparr>bs_ref_cnt := 0\<rparr>)) = insert k (keys_with 0 G)" by (simp add: keys_with_upd)
    have m': "m' = m\<lparr>om_num_write_pending_blocks := om_num_write_pending_blocks m - 1,
      om_num_evictable_cache_blocks := om_num_evictable_cache_blocks m + 1, om_policy := pol_mark_evictable ops k ?p\<rparr>"
      using b by (simp add: m'_def om_stored_one_def G_def)
    show ?thesis using q p(2) tier' idle b by (simp add: m' mgr_ok_def del: fun_upd_apply)
  qed
  then show "mgr_ok ops inv m'" "om_num_blocks m' = om_num_blocks m"
    "pol_get ops (om_policy m') = (case G k of Some b \<Rightarrow> if is_ready b then G else G(k \<mapsto> b\<lparr>bs_ref_cnt := 0\<rparr>) | None \<Rightarrow> G)" by simp_all
qed

lemma failed_one_total:
  assumes "mgr_ok ops inv m"
  defines "G \<equiv> pol_get ops (om_policy m)"
  shows "\<exists>m'. om_failed_one ops k m = Inr m' \<and> mgr_ok ops inv m' \<and> om_num_blocks m' = om_num_blocks m
    \<and> pol_get ops (om_policy m') = (case G k of Some b \<Rightarrow> if is_ready b then G else G(k := None) | None \<Rightarrow> G)"
proof (cases "\<exists>b. G k = Some b \<and> \<not> is_ready b")
  case False
  then show ?thesis using assms(1) by (auto simp: om_failed_one_def G_def split: option.splits)
next
  case True
  have inv: "inv (om_policy m) (keys_with 0 G)" and tier: "tier_ok G (om_free_list m) (om_num_allocated_blocks m) (om_num_blocks m)
         (om_num_evictable_cache_blocks m) (om_num_write_pending_blocks m)"
    using assms(1) by (simp_all add: mgr_ok_def G_def)
  from True obtain b where b: "G k = Some b" "\<not> is_ready b" by blast
  then have r: "bs_ref_cnt b = - 1" using mgr_ok_ref [OF assms(1), of k b] by (simp add: is_ready_def G_def)
  then have k: "k \<notin> keys_with 0 G" using b(1) by (simp add: keys_with_mem)
  then have idle: "keys_with 0 (G(k := None)) = keys_with 0 G" by (simp add: keys_with_del)
  obtain p where p: "pol_remove ops k (om_policy m) = Inr p" "inv p (keys_with 0 G)" "pol_get ops p = G(k := None)"
    using remove_law [OF inv _ k] b(1) by (auto simp: G_def)
  have tier': "tier_ok (G(k := None)) (om_free_list m @ [bs_block_id b]) (om_num_allocated_blocks m) (om_num_blocks m)
         (om_num_evictable_cache_blocks m) (om_num_write_pending_blocks m - 1)"
    using tier_del [OF tier b(1)] r by simp
  show ?thesis using b p idle tier' by (simp add: om_failed_one_def om_free_block_def mgr_ok_def G_def del: fun_upd_apply)
qed

lemma make_room_cases:
  fixes m :: "'p offload_mgr" and n :: nat
  assumes "mgr_ok ops inv m"
  defines "G \<equiv> pol_get ops (om_policy m)" and "evict \<equiv> int n - om_get_num_free_blocks m"
  shows "om_make_room ops n protected m = Inr (None, m) \<and> 0 < evict
      \<and> (int (card (keys_with 0 G)) < evict \<or> pol_evict ops (nat evict) protected (om_policy m) = Inr (None, om_policy m))
    \<or> (\<exists>vs p. om_make_room ops n protected m
          = Inr (Some (map fst vs), m\<lparr>om_policy := p, om_num_evictable_cache_blocks := om_num_evictable_cache_blocks m - int (length vs),
              om_free_list := om_free_list m @ map (bs_block_id \<circ> snd) vs\<rparr>)
        \<and> int (length vs) = max 0 evict \<and> distinct (map fst vs)
        \<and> (\<forall>(k, b) \<in> set vs. G k = Some b \<and> bs_ref_cnt b = 0 \<and> k \<notin> set protected)
        \<and> inv p (keys_with 0 G - fst ` set vs) \<and> pol_get ops p = G |` (- fst ` set vs))"
proof (cases "evict \<le> 0")
  case True
  have "inv (om_policy m) (keys_with 0 G)" using assms(1) by (simp add: mgr_ok_def G_def)
  moreover from True have "om_make_room ops n protected m = Inr (Some [], m)" by (simp add: om_make_room_def evict_def)
  ultimately show ?thesis using True by (intro disjI2 exI [of _ "[]"] exI [of _ "om_policy m"]) (simp add: G_def)
next
  case pos: False
  have inv: "inv (om_policy m) (keys_with 0 G)" and tier: "tier_ok G (om_free_list m) (om_num_allocated_blocks m) (om_num_blocks m)
         (om_num_evictable_cache_blocks m) (om_num_write_pending_blocks m)"
    using assms(1) by (simp_all add: mgr_ok_def G_def)
  have ev: "om_num_evictable_cache_blocks m = int (card (keys_with 0 G))" using tier by (simp add: tier_ok_def)
  have free: "fold (om_free_block \<circ> snd) vs x = x\<lparr>om_free_list := om_free_list x @ map (bs_block_id \<circ> snd) vs\<rparr>" for vs and x :: "'p offload_mgr"
    by (induction vs arbitrary: x) (simp_all add: om_free_block_def)
  show ?thesis
  proof (cases "om_num_evictable_cache_blocks m < evict")
    case True
    then show ?thesis using pos ev by (simp add: om_make_room_def evict_def)
  next
    case False
    have "keys_with 0 G = idle_keys (pol_get ops (om_policy m))" by (simp add: idle_pending_keys G_def)
    from evict_law [OF inv this, of "nat evict" protected] show ?thesis
    proof (elim disjE exE conjE)
      assume "pol_evict ops (nat evict) protected (om_policy m) = Inr (None, om_policy m)"
      then show ?thesis using pos False by (simp add: om_make_room_def evict_def)
    next
      fix vs p
      assume "pol_evict ops (nat evict) protected (om_policy m) = Inr (Some vs, p)" "length vs = nat evict" "distinct (map fst vs)"
        "\<forall>(k, b) \<in> set vs. pol_get ops (om_policy m) k = Some b \<and> bs_ref_cnt b = 0 \<and> k \<notin> set protected"
        "inv p (keys_with 0 G - fst ` set vs)" "pol_get ops p = pol_get ops (om_policy m) |` (- fst ` set vs)"
      then show ?thesis using pos False by (intro disjI2 exI [of _ vs] exI [of _ p]) (simp add: om_make_room_def evict_def G_def free)
    qed
  qed
qed

lemma keys_with_restrict: "keys_with r (G |` (- A)) = keys_with r G - A"
  by (auto simp: keys_with_def restrict_map_def split: if_splits)

lemma make_room_ok:
  assumes "mgr_ok ops inv m" "om_make_room ops n protected m = Inr (Some evicted, m')"
  shows "mgr_ok ops inv m' \<and> int n \<le> om_get_num_free_blocks m' \<and> om_num_blocks m' = om_num_blocks m \<and> distinct evicted
    \<and> set evicted \<subseteq> keys_with 0 (pol_get ops (om_policy m)) - set protected
    \<and> pol_get ops (om_policy m') = pol_get ops (om_policy m) |` (- set evicted)
    \<and> om_num_write_pending_blocks m' = om_num_write_pending_blocks m"
proof -
  let ?G = "pol_get ops (om_policy m)"
  let ?m = "\<lambda>vs p. m\<lparr>om_policy := p, om_num_evictable_cache_blocks := om_num_evictable_cache_blocks m - int (length vs),
              om_free_list := om_free_list m @ map (bs_block_id \<circ> snd) vs\<rparr>"
  obtain vs p where eq: "om_make_room ops n protected m = Inr (Some (map fst vs), ?m vs p)"
    and vs: "int (length vs) = max 0 (int n - om_get_num_free_blocks m)" "distinct (map fst vs)"
      "\<forall>(k, b) \<in> set vs. ?G k = Some b \<and> bs_ref_cnt b = 0 \<and> k \<notin> set protected"
    and p: "inv p (keys_with 0 ?G - fst ` set vs)" "pol_get ops p = ?G |` (- fst ` set vs)"
    by (rule disjE [OF make_room_cases [OF assms(1), of n protected]]) (simp add: assms(2), blast)
  have m': "m' = ?m vs p" "evicted = map fst vs" using eq assms(2) by simp_all
  have "\<forall>(k, b) \<in> set vs. ?G k = Some b \<and> bs_ref_cnt b = 0" using vs(3) by blast
  with tier_evict [OF _ vs(2)] assms(1)
  have "tier_ok (?G |` (- fst ` set vs)) (om_free_list m @ map (bs_block_id \<circ> snd) vs) (om_num_allocated_blocks m) (om_num_blocks m)
         (om_num_evictable_cache_blocks m - int (length vs)) (om_num_write_pending_blocks m)" by (simp add: mgr_ok_def)
  then have "mgr_ok ops inv m'" using p by (simp add: mgr_ok_def m'(1) keys_with_restrict)
  moreover have "int n \<le> om_get_num_free_blocks m'" using vs(1) by (simp add: om_get_num_free_blocks_def m'(1))
  moreover have "set evicted \<subseteq> keys_with 0 ?G - set protected" using vs(3) by (auto simp: m'(2) keys_with_mem)
  ultimately show ?thesis using vs(2) p(2) by (simp add: m')
qed

lemma insert_all:
  assumes "inv p E" "distinct (map fst kbs)" "\<forall>(k, b) \<in> set kbs. pol_get ops p k = None \<and> bs_ref_cnt b = - 1"
  shows "inv (fold (\<lambda>(k, b). pol_insert ops k b) kbs p) E
    \<and> pol_get ops (fold (\<lambda>(k, b). pol_insert ops k b) kbs p) = store_all kbs (pol_get ops p)"
  using assms
proof (induction kbs arbitrary: p)
  case (Cons x kbs)
  obtain k b where x: "x = (k, b)" by (cases x)
  have kb: "pol_get ops p k = None" "bs_ref_cnt b \<noteq> 0" using Cons.prems(3) x by auto
  note ins = insert_law [OF Cons.prems(1) kb]
  have "\<forall>(k', b') \<in> set kbs. pol_get ops (pol_insert ops k b p) k' = None \<and> bs_ref_cnt b' = - 1"
    using Cons.prems(2,3) ins x by force
  with Cons.IH [of "pol_insert ops k b p"] Cons.prems(2) ins show ?case by (simp add: x del: fun_upd_apply)
qed simp

lemma store_keys_cases:
  assumes "mgr_ok ops inv m" "distinct new" "\<forall>k \<in> set new. pol_get ops (om_policy m) k = None" "set new \<subseteq> set ks"
  shows "om_store_keys ops ks new m = Inr (None, m) \<and> om_make_room ops (length new) ks m = Inr (None, m)
    \<or> (\<exists>bs evicted m'. om_store_keys ops ks new m = Inr (Some (new, map bs_block_id bs, evicted), m')
        \<and> mgr_ok ops inv m' \<and> om_num_blocks m' = om_num_blocks m
        \<and> length bs = length new \<and> (\<forall>b \<in> set bs. bs_ref_cnt b = - 1) \<and> distinct evicted
        \<and> set evicted \<subseteq> keys_with 0 (pol_get ops (om_policy m)) - set ks
        \<and> pol_get ops (om_policy m') = store_all (zip new bs) (pol_get ops (om_policy m) |` (- set evicted)))"
proof -
  let ?G = "pol_get ops (om_policy m)"
  from make_room_cases [OF assms(1), of "length new" ks] obtain room m1 where mr: "om_make_room ops (length new) ks m = Inr (room, m1)" "room = None \<Longrightarrow> m1 = m"
    by blast
  show ?thesis
  proof (cases room)
    case None
    then show ?thesis using mr by (simp add: om_store_keys_def)
  next
    case (Some evicted)
    let ?m1 = "om_emit evicted True m1" and ?G1 = "pol_get ops (om_policy m1)"
    note ok = make_room_ok [OF assms(1) mr(1) [unfolded Some]]
    have same: "om_policy ?m1 = om_policy m1" "om_free_list ?m1 = om_free_list m1" "om_num_allocated_blocks ?m1 = om_num_allocated_blocks m1"
      "om_num_blocks ?m1 = om_num_blocks m1" "om_num_evictable_cache_blocks ?m1 = om_num_evictable_cache_blocks m1"
      "om_num_write_pending_blocks ?m1 = om_num_write_pending_blocks m1" "om_get_num_free_blocks ?m1 = om_get_num_free_blocks m1"
      by (simp_all add: om_emit_def om_get_num_free_blocks_def split: option.splits)
    have G1: "?G1 = ?G |` (- set evicted)" using ok by simp
    have new: "\<forall>k \<in> set new. ?G1 k = None" using assms(3) by (simp add: G1 restrict_map_def)
    have tier: "tier_ok ?G1 (om_free_list ?m1) (om_num_allocated_blocks ?m1) (om_num_blocks ?m1)
         (om_num_evictable_cache_blocks m1) (om_num_write_pending_blocks m1)" and inv: "inv (om_policy m1) (keys_with 0 ?G1)"
      using conjunct1 [OF ok] by (simp_all add: mgr_ok_def same)
    obtain bs alloc free where bs: "om_allocate_blocks (length new) ?m1 = Inr (bs, ?m1\<lparr>om_num_allocated_blocks := alloc, om_free_list := free\<rparr>)"
      "length bs = length new" "\<forall>b \<in> set bs. bs_ref_cnt b = - 1"
      "tier_ok (store_all (zip new bs) ?G1) free alloc (om_num_blocks ?m1) (om_num_evictable_cache_blocks m1) (om_num_write_pending_blocks m1 + int (length new))"
      using allocate_total [OF tier assms(2) new] ok by (auto simp: same)
    have "\<forall>(k, b) \<in> set (zip new bs). ?G1 k = None \<and> bs_ref_cnt b = - 1" using new bs(3) by (auto dest: set_zip_leftD set_zip_rightD)
    moreover have "distinct (map fst (zip new bs))" using assms(2) bs(2) by simp
    ultimately have ins: "inv (fold (\<lambda>(k, b). pol_insert ops k b) (zip new bs) (om_policy m1)) (keys_with 0 (store_all (zip new bs) ?G1))"
        "pol_get ops (fold (\<lambda>(k, b). pol_insert ops k b) (zip new bs) (om_policy m1)) = store_all (zip new bs) ?G1"
      using insert_all [OF inv, of "zip new bs"] by (simp_all add: keys_with_store_all)
    let ?m' = "?m1\<lparr>om_num_allocated_blocks := alloc, om_free_list := free,
      om_policy := fold (\<lambda>(k, b). pol_insert ops k b) (zip new bs) (om_policy m1), om_num_write_pending_blocks := om_num_write_pending_blocks m1 + int (length new)\<rparr>"
    have run: "om_store_keys ops ks new m = Inr (Some (new, map bs_block_id bs, evicted), ?m')"
      using mr(1) bs(1,2) Some by (simp add: om_store_keys_def same)
    have "mgr_ok ops inv ?m'" using ins bs(4) by (simp add: mgr_ok_def same)
    moreover have "om_num_blocks ?m' = om_num_blocks m" using ok by (simp add: same)
    moreover have "pol_get ops (om_policy ?m') = store_all (zip new bs) (?G |` (- set evicted))" using ins(2) G1 by simp
    ultimately show ?thesis using run ok bs(2,3) by blast
  qed
qed

lemma prepare_load_total:
  assumes "mgr_ok ops inv m" "\<forall>k \<in> set ks. \<exists>b. pol_get ops (om_policy m) k = Some b \<and> 0 \<le> bs_ref_cnt b"
  shows "\<exists>m'. om_prepare_load ops ks m = Inr (map (block_of (pol_get ops (om_policy m))) ks, m') \<and> mgr_ok ops inv m'
    \<and> pol_get ops (om_policy m') = shift_refs 1 ks (pol_get ops (om_policy m)) \<and> om_num_blocks m' = om_num_blocks m
    \<and> om_free_list m' = om_free_list m \<and> om_num_allocated_blocks m' = om_num_allocated_blocks m"
proof -
  have "\<exists>m'. foldE (om_load_one ops) ks (ids, m) = Inr (ids @ map (block_of (pol_get ops (om_policy m))) ks, m') \<and> mgr_ok ops inv m'
    \<and> pol_get ops (om_policy m') = shift_refs 1 ks (pol_get ops (om_policy m)) \<and> om_num_blocks m' = om_num_blocks m
    \<and> om_free_list m' = om_free_list m \<and> om_num_allocated_blocks m' = om_num_allocated_blocks m" for ids
    using assms
  proof (induction ks arbitrary: m ids)
    case (Cons k ks)
    let ?G = "pol_get ops (om_policy m)"
    from Cons.prems(2) obtain b where b: "?G k = Some b" "0 \<le> bs_ref_cnt b" by auto
    from load_one_total [OF Cons.prems(1) b, of ids] obtain m1 where
      m1: "om_load_one ops k (ids, m) = Inr (ids @ [bs_block_id b], m1)" "mgr_ok ops inv m1"
      "pol_get ops (om_policy m1) = ?G(k \<mapsto> b\<lparr>bs_ref_cnt := bs_ref_cnt b + 1\<rparr>)" "om_num_blocks m1 = om_num_blocks m"
      "om_free_list m1 = om_free_list m" "om_num_allocated_blocks m1 = om_num_allocated_blocks m" by blast
    have rdy: "\<forall>k' \<in> set ks. \<exists>b'. pol_get ops (om_policy m1) k' = Some b' \<and> 0 \<le> bs_ref_cnt b'"
      using Cons.prems(2) b(2) by (auto simp: m1(3))
    have "block_of (pol_get ops (om_policy m1)) = block_of ?G" using b(1) by (auto simp: m1(3) block_of_def)
    moreover have "shift_refs 1 ks (pol_get ops (om_policy m1)) = shift_refs 1 (k # ks) ?G" unfolding m1(3) by (rule shift_refs_Cons [of ?G k b, OF b(1)])
    moreover have "block_of ?G k = bs_block_id b" using b(1) by (simp add: block_of_def)
    ultimately show ?case using Cons.IH [OF m1(2) rdy, of "ids @ [bs_block_id b]"] m1(1,4-6) by simp
  qed simp
  from this [of "[]"] show ?thesis by (simp add: om_prepare_load_def)
qed

lemma complete_load_total:
  assumes "mgr_ok ops inv m" "\<forall>k \<in> set ks. \<exists>b. pol_get ops (om_policy m) k = Some b \<and> int (count_list ks k) \<le> bs_ref_cnt b"
  shows "\<exists>m'. om_complete_load ops ks m = Inr m' \<and> mgr_ok ops inv m'
    \<and> pol_get ops (om_policy m') = shift_refs (- 1) ks (pol_get ops (om_policy m)) \<and> om_num_blocks m' = om_num_blocks m
    \<and> om_free_list m' = om_free_list m \<and> om_num_allocated_blocks m' = om_num_allocated_blocks m"
  using assms unfolding om_complete_load_def
proof (induction ks arbitrary: m)
  case (Cons k ks)
  let ?G = "pol_get ops (om_policy m)"
  from Cons.prems(2) obtain b where b: "?G k = Some b" "int (count_list (k # ks) k) \<le> bs_ref_cnt b" by auto
  then have "0 < bs_ref_cnt b" by simp
  from loaded_one_total [OF Cons.prems(1) b(1) this] obtain m1 where m1: "om_loaded_one ops k m = Inr m1" "mgr_ok ops inv m1"
    "pol_get ops (om_policy m1) = ?G(k \<mapsto> b\<lparr>bs_ref_cnt := bs_ref_cnt b - 1\<rparr>)" "om_num_blocks m1 = om_num_blocks m"
    "om_free_list m1 = om_free_list m" "om_num_allocated_blocks m1 = om_num_allocated_blocks m" by blast
  have held: "\<forall>k' \<in> set ks. \<exists>b'. pol_get ops (om_policy m1) k' = Some b' \<and> int (count_list ks k') \<le> bs_ref_cnt b'"
  proof
    fix k' assume k': "k' \<in> set ks"
    show "\<exists>b'. pol_get ops (om_policy m1) k' = Some b' \<and> int (count_list ks k') \<le> bs_ref_cnt b'"
    proof (cases "k' = k")
      case True
      then show ?thesis using b(2) by (simp add: m1(3))
    next
      case False
      then show ?thesis using Cons.prems(2) k' by (auto simp: m1(3))
    qed
  qed
  have "shift_refs (- 1) ks (pol_get ops (om_policy m1)) = shift_refs (- 1) (k # ks) ?G"
    using shift_refs_Cons [of ?G k b "- 1" ks, OF b(1)] by (simp add: m1(3) del: fun_upd_apply)
  then show ?case using Cons.IH [OF m1(2) held] m1(1,4-6) by simp
qed simp

text \<open>What a load that returned was given.\<close>

lemma load_one_ready:
  assumes "om_load_one ops k (ids, m) = Inr st"
  shows "\<exists>b. pol_get ops (om_policy m) k = Some b \<and> 0 \<le> bs_ref_cnt b"
  using assms by (auto simp: om_load_one_def is_ready_def bindE_eq_Inr split: option.splits)

lemma prepare_load_ok:
  assumes "mgr_ok ops inv m" "om_prepare_load ops ks m = Inr (ids, m')"
  shows "mgr_ok ops inv m'"
proof -
  have "mgr_ok ops inv (snd (ids, m'))"
  proof (rule foldE_invariant [OF assms(2) [unfolded om_prepare_load_def], of "\<lambda>st. mgr_ok ops inv (snd st)"])
    fix k and u v :: "int list \<times> 'p offload_mgr"
    assume u: "mgr_ok ops inv (snd u)" "om_load_one ops k u = Inr v"
    obtain ids' x where x: "u = (ids', x)" by (cases u)
    from load_one_ready [OF u(2) [unfolded x]] obtain b where "pol_get ops (om_policy x) k = Some b" "0 \<le> bs_ref_cnt b" by blast
    from load_one_total [OF _ this, of ids'] u x show "mgr_ok ops inv (snd v)" by auto
  qed (use assms(1) in simp)
  then show ?thesis by simp
qed

lemma complete_load_ok:
  assumes "mgr_ok ops inv m" "om_complete_load ops ks m = Inr m'"
  shows "mgr_ok ops inv m'"
proof (rule foldE_invariant [of "om_loaded_one ops" ks m m' "mgr_ok ops inv", OF assms(2) [unfolded om_complete_load_def] assms(1)])
  fix k u v
  assume u: "mgr_ok ops inv u" "om_loaded_one ops k u = Inr v"
  then obtain b where "pol_get ops (om_policy u) k = Some b" "0 < bs_ref_cnt b"
    by (auto simp: om_loaded_one_def bindE_eq_Inr split: option.splits)
  from loaded_one_total [OF u(1) this] u(2) show "mgr_ok ops inv v" by auto
qed

lemma prepare_store_cases:
  assumes "mgr_ok ops inv m" "distinct ks0" "om_admit ks0 m = Inr (ks, m1)"
  defines "G \<equiv> pol_get ops (om_policy m)"
  defines "new \<equiv> filter (\<lambda>k. G k = None) ks"
  shows "(\<exists>m'. om_prepare_store ops ks0 m = Inr (None, m') \<and> mgr_ok ops inv m' \<and> om_num_blocks m' = om_num_blocks m
        \<and> pol_get ops (om_policy m') = G \<and> om_get_num_free_blocks m' = om_get_num_free_blocks m \<and> om_make_room ops (length new) ks m' = Inr (None, m'))
    \<or> (\<exists>bs evicted m'. om_prepare_store ops ks0 m = Inr (Some (new, map bs_block_id bs, evicted), m')
        \<and> mgr_ok ops inv m' \<and> om_num_blocks m' = om_num_blocks m
        \<and> length bs = length new \<and> (\<forall>b \<in> set bs. bs_ref_cnt b = - 1) \<and> distinct evicted
        \<and> set evicted \<subseteq> keys_with 0 G - set ks
        \<and> pol_get ops (om_policy m') = store_all (zip new bs) (G |` (- set evicted)))"
proof -
  obtain c s where m1: "m1 = m\<lparr>om_counts := c, om_stores_skipped := s\<rparr>" using admit_shape(2) [OF assms(3)] by blast
  have ok1: "mgr_ok ops inv m1" using assms(1) by (simp add: m1 mgr_ok_def)
  have G: "pol_get ops (om_policy m1) = G" by (simp add: m1 G_def)
  show ?thesis
  proof (cases "new = []")
    case True
    then have "om_prepare_store ops ks0 m = Inr (Some ([], [], []), m1)" using assms(3) by (simp add: om_prepare_store_def G new_def)
    then show ?thesis using True ok1 G m1 by (intro disjI2 exI [of _ "[]"] exI [of _ "[]"] exI [of _ m1]) simp
  next
    case False
    define m2 where "m2 = m1\<lparr>om_allocation_sizes := om_allocation_sizes m1 @ [int (length new)]\<rparr>"
    have run: "om_prepare_store ops ks0 m = om_store_keys ops ks new m2" using False assms(3) unfolding om_prepare_store_def m2_def
      by (simp add: G new_def [symmetric])
    have ok2: "mgr_ok ops inv m2" using ok1 by (simp add: m2_def mgr_ok_def)
    have G2: "pol_get ops (om_policy m2) = G" by (simp add: m2_def G)
    obtain P where "ks = filter P ks0" using admit_shape(1) [OF assms(3)] by blast
    then have "distinct new" using assms(2) by (simp add: new_def)
    moreover have "\<forall>k \<in> set new. pol_get ops (om_policy m2) k = None" by (simp add: new_def G2)
    moreover have "set new \<subseteq> set ks" by (auto simp: new_def)
    moreover have same: "om_num_blocks m2 = om_num_blocks m" "om_get_num_free_blocks m2 = om_get_num_free_blocks m"
      by (simp_all add: m2_def m1 om_get_num_free_blocks_def)
    ultimately show ?thesis using ok2 same store_keys_cases [OF ok2, of new ks] unfolding run G2 by (metis G2)
  qed
qed

lemma prepare_store_ok:
  assumes "mgr_ok ops inv m" "distinct ks" "om_prepare_store ops ks m = Inr (out, m')"
  shows "mgr_ok ops inv m'"
proof -
  from assms(3) obtain ks' m1 where "om_admit ks m = Inr (ks', m1)" unfolding om_prepare_store_def bindE_eq_Inr by (metis surj_pair)
  from prepare_store_cases [OF assms(1,2) this] assms(3) show ?thesis by (elim disjE exE conjE) simp_all
qed

lemma complete_store_total:
  assumes "mgr_ok ops inv m"
  shows "\<exists>m'. om_complete_store ops ks success m = Inr m' \<and> mgr_ok ops inv m'"
proof (cases success)
  case True
  have "mgr_ok ops inv (snd st) \<Longrightarrow> mgr_ok ops inv (snd (fold (om_stored_one ops) ks st))" for st
  proof (induction ks arbitrary: st)
    case (Cons k ks)
    obtain stored x where st: "st = (stored, x)" by (cases st)
    have "mgr_ok ops inv (snd (om_stored_one ops k st))" using stored_one_step(1) Cons.prems unfolding st by simp
    then show ?case using Cons.IH by simp
  qed simp
  from this [of "([], m)"] assms True show ?thesis
    by (auto simp: om_complete_store_def om_emit_def mgr_ok_def split: prod.splits option.splits)
next
  case False
  have "\<exists>v. om_failed_one ops k u = Inr v \<and> mgr_ok ops inv v" if "mgr_ok ops inv u" for k u
    using failed_one_total [OF that, of k] by blast
  with foldE_total [of "mgr_ok ops inv" m ks "om_failed_one ops", OF assms] False show ?thesis by (simp add: om_complete_store_def)
qed

lemma reset_ok: "mgr_ok ops inv m \<Longrightarrow> mgr_ok ops inv (om_reset_cache ops m)"
  using clear_law [of "om_policy m"] by (auto simp: mgr_ok_def om_reset_cache_def tier_ok_def pool_ok_def keys_with_def)

lemma reachable_ok:
  assumes "offload_reachable ops m0 m" "mgr_ok ops inv m0"
  shows "mgr_ok ops inv m"
  using assms
proof induction
  case (stored m ks success m')
  then show ?case using complete_store_total [of m ks success] by auto
next
  case (touched m ks)
  then show ?case using touch_law [of "om_policy m" "keys_with 0 (pol_get ops (om_policy m))" ks] by (simp add: mgr_ok_def om_touch_def)
next
  case (events m)
  then show ?case by (simp add: mgr_ok_def om_take_events_def split: option.splits)
next
  case (stats m)
  then show ?case by (simp add: mgr_ok_def om_get_stats_def Let_def)
qed (auto intro: prepare_load_ok complete_load_ok prepare_store_ok reset_ok)

lemma init_ok:
  assumes "inv p {}" "pol_get ops p = Map.empty" "0 \<le> n"
  shows "mgr_ok ops inv (om_init n p events threshold tracker)"
  using assms by (simp add: mgr_ok_def om_init_def tier_ok_def pool_ok_def keys_with_def)

end

end
