(* ===== verification/Offload_Theorems.thy ===== *)
theory Offload_Theorems
  imports Offload_Props
begin

text \<open>
  What the manager of the CPU tier promises, stated on the map from keys to blocks, and proved for the
  LRU and the ARC policy through the contract \<open>cache_policy\<close>.
\<close>

section \<open>Contracts\<close>

text \<open>
  A store of the keys \<open>ks\<close> (those that the store threshold admits): the keys not stored yet get distinct
  blocks of the tier that no other key has; only idle blocks with keys outside \<open>ks\<close> are evicted; every
  other block stays as it was.
\<close>

definition store_contract :: "int \<Rightarrow> (offload_key \<rightharpoonup> block_status) \<Rightarrow> offload_key list \<Rightarrow> offload_key list \<times> int list \<times> offload_key list
    \<Rightarrow> (offload_key \<rightharpoonup> block_status) \<Rightarrow> bool" where
  "store_contract n G ks out G' \<longleftrightarrow> (case out of (new, ids, evicted) \<Rightarrow>
     new = filter (\<lambda>k. G k = None) ks \<and> length ids = length new \<and> distinct ids \<and> set ids \<subseteq> {0..<n}
     \<and> (\<forall>(k, i) \<in> set (zip new ids). G' k = Some (new_block_status i))
     \<and> (\<forall>k \<in> set evicted. G' k = None \<and> k \<notin> set ks \<and> (\<exists>b. G k = Some b \<and> bs_ref_cnt b = 0))
     \<and> (\<forall>k. k \<notin> set new \<union> set evicted \<longrightarrow> G' k = G k)
     \<and> (\<forall>k b. G k = Some b \<and> k \<notin> set evicted \<longrightarrow> bs_block_id b \<notin> set ids))"

definition store_sound :: "'p policy_ops \<Rightarrow> 'p offload_mgr \<Rightarrow> offload_key list \<Rightarrow> bool" where
  "store_sound ops m ks \<longleftrightarrow> (\<exists>admitted m1 out m'. om_admit ks m = Inr (admitted, m1) \<and> om_prepare_store ops ks m = Inr (out, m')
     \<and> set admitted \<subseteq> set ks \<and> (om_store_threshold m < 2 \<longrightarrow> admitted = ks)
     \<and> (case out of None \<Rightarrow> pol_get ops (om_policy m') = pol_get ops (om_policy m)
        | Some r \<Rightarrow> store_contract (om_num_blocks m) (pol_get ops (om_policy m)) admitted r (pol_get ops (om_policy m'))))"

text \<open>The end of a store: the blocks still being written become readable, or are given back.\<close>

definition finish_store :: "bool \<Rightarrow> offload_key list \<Rightarrow> (offload_key \<rightharpoonup> block_status) \<Rightarrow> (offload_key \<rightharpoonup> block_status)" where
  "finish_store success ks G k = (case G k of None \<Rightarrow> None
     | Some b \<Rightarrow> if k \<in> set ks \<and> \<not> is_ready b then (if success then Some (b\<lparr>bs_ref_cnt := 0\<rparr>) else None) else Some b)"

text \<open>A load and its completion.\<close>

definition load_sound :: "'p policy_ops \<Rightarrow> 'p offload_mgr \<Rightarrow> offload_key list \<Rightarrow> bool" where
  "load_sound ops m ks \<longleftrightarrow>
     (if \<forall>k \<in> set ks. om_lookup ops k m = HIT
      then \<exists>m' m''. om_prepare_load ops ks m = Inr (map (\<lambda>k. bs_block_id (the (pol_get ops (om_policy m) k))) ks, m')
        \<and> (\<forall>k b. k \<in> set ks \<and> pol_get ops (om_policy m') k = Some b \<longrightarrow> 0 < bs_ref_cnt b)
        \<and> om_complete_load ops ks m' = Inr m'' \<and> pol_get ops (om_policy m'') = pol_get ops (om_policy m)
        \<and> om_free_list m'' = om_free_list m \<and> om_num_allocated_blocks m'' = om_num_allocated_blocks m
        \<and> om_num_evictable_cache_blocks m'' = om_num_evictable_cache_blocks m
        \<and> om_num_write_pending_blocks m'' = om_num_write_pending_blocks m
      else om_prepare_load ops ks m = Inl AssertionError)"

section \<open>Blocks of a tier\<close>

lemma pool_card:
  assumes "pool_ok G free alloc" "finite (dom G)" "0 \<le> alloc"
  shows "int (card (dom G)) + int (length free) = alloc"
proof -
  have "card (block_of G ` dom G) = card (dom G)" using assms(1) by (simp add: pool_ok_iff card_image)
  moreover have "card (set free) = length free" using assms(1) by (simp add: pool_ok_iff distinct_card)
  moreover have "card (block_of G ` dom G \<union> set free) = card (block_of G ` dom G) + card (set free)"
    using assms(1,2) by (intro card_Un_disjoint) (simp_all add: pool_ok_iff)
  moreover have "card (block_of G ` dom G \<union> set free) = nat alloc" using assms(1) by (simp add: pool_ok_iff)
  ultimately show ?thesis using assms(3) by linarith
qed

lemma tier_free:
  assumes "mgr_ok ops I m"
  shows "om_get_num_free_blocks m = om_num_blocks m - int (card (dom (pol_get ops (om_policy m))))"
    "0 \<le> om_get_num_free_blocks m"
  using assms pool_card [of "pol_get ops (om_policy m)" "om_free_list m" "om_num_allocated_blocks m"]
  by (auto simp: mgr_ok_def tier_ok_def om_get_num_free_blocks_def)

lemma dom_store_all: "dom (store_all kbs G) = dom G \<union> fst ` set kbs"
proof (induction kbs arbitrary: G)
  case (Cons x kbs)
  then show ?case by (cases x) (simp add: Cons.IH del: fun_upd_apply)
qed simp

lemma store_contractI:
  assumes "mgr_ok ops I m'" "om_num_blocks m' = n" "pol_get ops (om_policy m') = store_all (zip new bs) (G |` (- set evicted))"
    and "new = filter (\<lambda>k. G k = None) ks" "distinct new" "length bs = length new" "\<forall>b \<in> set bs. bs_ref_cnt b = - 1"
    and "set evicted \<subseteq> keys_with 0 G - set ks"
  shows "store_contract n G ks (new, map bs_block_id bs, evicted) (pol_get ops (om_policy m'))"
proof -
  define G' where "G' = pol_get ops (om_policy m')"
  have pool: "pool_ok G' (om_free_list m') (om_num_allocated_blocks m')" "om_num_allocated_blocks m' \<le> n"
    using assms(1,2) by (simp_all add: mgr_ok_def tier_ok_def G'_def)
  have "{0..<om_num_allocated_blocks m'} \<subseteq> {0..<n}" using pool(2) by simp
  with pool(1) have inj: "inj_on (block_of G') (dom G')" and below: "block_of G' ` dom G' \<subseteq> {0..<n}" unfolding pool_ok_iff by blast+
  have keys: "map fst (zip new bs) = new" using assms(6) by simp
  then have fsts: "fst ` set (zip new bs) = set new" by (metis set_map)
  have dom: "dom G' = dom G - set evicted \<union> set new" by (auto simp: G'_def assms(3) dom_store_all fsts)
  have at: "G' k = Some b" if "(k, b) \<in> set (zip new bs)" for k b
    unfolding G'_def assms(3) by (rule store_all_at) (use that assms(5) keys in auto)
  have other: "G' k = (G |` (- set evicted)) k" if "k \<notin> set new" for k
    unfolding G'_def assms(3) by (rule store_all_other) (simp add: fsts that)
  have no_new: "k \<notin> set new" if "G k = Some b" for k b using that by (simp add: assms(4))
  have ids: "map bs_block_id bs = map (block_of G') new"
  proof (rule nth_equalityI)
    fix i assume i: "i < length (map bs_block_id bs)"
    then have "(new ! i, bs ! i) \<in> set (zip new bs)" using assms(6) by (auto simp: set_zip)
    from at [OF this] i assms(6) show "map bs_block_id bs ! i = map (block_of G') new ! i" by (simp add: block_of_def)
  qed (use assms(6) in simp)
  have "distinct (map (block_of G') new)" using assms(5) inj dom by (auto simp: distinct_map intro: inj_on_subset)
  moreover have "set (map (block_of G') new) \<subseteq> {0..<n}" using below dom by auto
  moreover have "G' k = Some (new_block_status i)" if "(k, i) \<in> set (zip new (map bs_block_id bs))" for k i
  proof -
    from that obtain b where b: "(k, b) \<in> set (zip new bs)" "i = bs_block_id b" by (auto simp: zip_map2)
    then have "bs_ref_cnt b = - 1" using assms(7) by (auto dest: set_zip_rightD)
    with at [OF b(1)] b(2) show ?thesis by (cases b) (simp add: new_block_status_def)
  qed
  moreover have "G' k = None \<and> k \<notin> set ks \<and> (\<exists>b. G k = Some b \<and> bs_ref_cnt b = 0)" if "k \<in> set evicted" for k
  proof -
    have "k \<in> keys_with 0 G" "k \<notin> set ks" using that assms(8) by blast+
    then obtain b where b: "G k = Some b" "bs_ref_cnt b = 0" "k \<notin> set ks" unfolding keys_with_mem by blast
    with other [OF no_new [OF b(1)]] that show ?thesis by simp
  qed
  moreover have "G' k = G k" if "k \<notin> set new \<union> set evicted" for k using other [of k] that by simp
  moreover have "bs_block_id b \<notin> set (map (block_of G') new)" if b: "G k = Some b" "k \<notin> set evicted" for k b
  proof
    assume "bs_block_id b \<in> set (map (block_of G') new)"
    moreover have "block_of G' k = bs_block_id b" using other [OF no_new [OF b(1)]] b by (simp add: block_of_def)
    ultimately obtain k' where "k' \<in> set new" "block_of G' k' = block_of G' k" by auto
    moreover from this have "k' = k" using inj_onD [OF inj, of k' k] dom b by auto
    ultimately show False using no_new [OF b(1)] by simp
  qed
  ultimately show ?thesis using assms(4,6) unfolding store_contract_def G'_def [symmetric] ids prod.case length_map by blast
qed

section \<open>The contracts hold for every policy\<close>

context cache_policy
begin

lemma store_sound_any:
  assumes "mgr_ok ops inv m" "distinct ks" "1 \<le> om_max_tracker_size m" "om_store_threshold m < 2 \<Longrightarrow> om_counts m = None"
  shows "store_sound ops m ks"
proof -
  obtain admitted m1 where adm: "om_admit ks m = Inr (admitted, m1)" using admit_total [OF assms(3)] by blast
  let ?G = "pol_get ops (om_policy m)" and ?new = "filter (\<lambda>k. pol_get ops (om_policy m) k = None) admitted"
  obtain P where "admitted = filter P ks" using admit_shape(1) [OF adm] by blast
  then have new: "distinct ?new" and sub: "set admitted \<subseteq> set ks" using assms(2) by auto
  have all: "om_store_threshold m < 2 \<longrightarrow> admitted = ks" by (intro impI admit_shape(3) [OF adm] assms(4))
  from prepare_store_cases [OF assms(1,2) adm] show ?thesis
  proof (elim disjE exE conjE)
    fix m' assume "om_prepare_store ops ks m = Inr (None, m')" "pol_get ops (om_policy m') = ?G"
    then show ?thesis using adm sub all by (auto simp: store_sound_def)
  next
    fix bs evicted m'
    assume run: "om_prepare_store ops ks m = Inr (Some (?new, map bs_block_id bs, evicted), m')" and ok: "mgr_ok ops inv m'"
      and n: "om_num_blocks m' = om_num_blocks m" and get: "pol_get ops (om_policy m') = store_all (zip ?new bs) (?G |` (- set evicted))"
      and bs: "length bs = length ?new" "\<forall>b \<in> set bs. bs_ref_cnt b = - 1" and ev: "set evicted \<subseteq> keys_with 0 ?G - set admitted"
    from store_contractI [OF ok n get HOL.refl new bs ev]
    have "case Some (?new, map bs_block_id bs, evicted) of None \<Rightarrow> pol_get ops (om_policy m') = ?G
      | Some r \<Rightarrow> store_contract (om_num_blocks m) ?G admitted r (pol_get ops (om_policy m'))" by simp
    with run adm sub all show ?thesis unfolding store_sound_def by blast
  qed
qed

text \<open>A store that succeeded had room: a block is free or is evicted for each new key.\<close>

lemma store_needs_room:
  assumes "mgr_ok ops inv m" "distinct ks" "om_admit ks m = Inr (admitted, m1)" "om_prepare_store ops ks m = Inr (Some out, m')"
  shows "int (length (filter (\<lambda>k. pol_get ops (om_policy m) k = None) admitted))
    \<le> om_get_num_free_blocks m + int (card (keys_with 0 (pol_get ops (om_policy m)) - set admitted))"
proof -
  let ?G = "pol_get ops (om_policy m)" and ?new = "filter (\<lambda>k. pol_get ops (om_policy m) k = None) admitted"
  let ?G' = "pol_get ops (om_policy m')"
  obtain bs evicted where ok: "mgr_ok ops inv m'" "om_num_blocks m' = om_num_blocks m" "length bs = length ?new"
      "set evicted \<subseteq> keys_with 0 ?G - set admitted" "?G' = store_all (zip ?new bs) (?G |` (- set evicted))"
    by (rule disjE [OF prepare_store_cases [OF assms(1-3)]]) (auto simp: assms(4))
  obtain P where "admitted = filter P ks" using admit_shape(1) [OF assms(3)] by blast
  then have "distinct ?new" using assms(2) by simp
  have fin: "finite (dom ?G)" "finite (dom ?G')" using assms(1) ok(1) by (simp_all add: mgr_ok_def tier_ok_def)
  have "fst ` set (zip ?new bs) = set ?new" using ok(3) by (metis map_fst_zip set_map)
  then have dom: "dom ?G' = (dom ?G - set evicted) \<union> set ?new" by (auto simp: ok(5) dom_store_all)
  have "(dom ?G - set evicted) \<inter> set ?new = {}" by auto
  then have "card (dom ?G') = card (dom ?G - set evicted) + length ?new"
    unfolding dom using fin(1) distinct_card [OF \<open>distinct ?new\<close>] card_Un_disjoint [of "dom ?G - set evicted" "set ?new"] by (simp only: finite_Diff finite_set)
  moreover have "card (dom ?G) \<le> card (dom ?G - set evicted) + card (set evicted)"
    using fin(1) card_Un_le [of "dom ?G - set evicted" "set evicted"] card_mono [of "dom ?G - set evicted \<union> set evicted" "dom ?G"] by auto
  moreover have "card (set evicted) \<le> card (keys_with 0 ?G - set admitted)"
    using ok(4) finite_keys_with [OF fin(1)] by (intro card_mono) auto
  moreover have "int (card (dom ?G')) \<le> om_num_blocks m" using tier_free [OF ok(1)] ok(2) by simp
  ultimately show ?thesis using tier_free(1) [OF assms(1)] by linarith
qed

lemma load_sound_any:
  assumes "mgr_ok ops inv m"
  shows "load_sound ops m ks"
proof (cases "\<forall>k \<in> set ks. om_lookup ops k m = HIT")
  case True
  let ?G = "pol_get ops (om_policy m)"
  have rdy: "\<forall>k \<in> set ks. \<exists>b. ?G k = Some b \<and> 0 \<le> bs_ref_cnt b"
    using True by (auto simp: om_lookup_def is_ready_def split: option.splits if_splits)
  obtain m' where m': "om_prepare_load ops ks m = Inr (map (block_of ?G) ks, m')" "mgr_ok ops inv m'"
      "pol_get ops (om_policy m') = shift_refs 1 ks ?G" "om_free_list m' = om_free_list m" "om_num_allocated_blocks m' = om_num_allocated_blocks m"
    using prepare_load_total [OF assms rdy] by blast
  have held: "\<exists>b. pol_get ops (om_policy m') k = Some b \<and> int (count_list ks k) \<le> bs_ref_cnt b" if "k \<in> set ks" for k
    using rdy that by (auto simp: m'(3) shift_refs_def)
  then obtain m'' where m'': "om_complete_load ops ks m' = Inr m''" "mgr_ok ops inv m''"
      "pol_get ops (om_policy m'') = shift_refs (- 1) ks (shift_refs 1 ks ?G)" "om_free_list m'' = om_free_list m'"
      "om_num_allocated_blocks m'' = om_num_allocated_blocks m'"
    using complete_load_total [OF m'(2), of ks] m'(3) by auto
  have G: "pol_get ops (om_policy m'') = ?G" unfolding m''(3) by (rule shift_refs_back)
  have pos: "0 < bs_ref_cnt b" if "k \<in> set ks" "pol_get ops (om_policy m') k = Some b" for k b
  proof -
    have "count_list ks k \<noteq> 0" using that(1) by (simp add: count_list_0_iff)
    with held [OF that(1)] that(2) show ?thesis by auto
  qed
  have "om_num_evictable_cache_blocks m'' = om_num_evictable_cache_blocks m \<and> om_num_write_pending_blocks m'' = om_num_write_pending_blocks m"
    using assms m''(2) by (simp add: mgr_ok_def tier_ok_def G)
  with m' m'' G pos True show ?thesis unfolding load_sound_def block_of_def [abs_def] by auto
next
  case False
  have "foldE (om_load_one ops) ks (ids, m) = Inl AssertionError" for ids
    using assms False
  proof (induction ks arbitrary: m ids)
    case (Cons k ks)
    show ?case
    proof (cases "\<exists>b. pol_get ops (om_policy m) k = Some b \<and> 0 \<le> bs_ref_cnt b")
      case True
      then obtain b where b: "pol_get ops (om_policy m) k = Some b" "0 \<le> bs_ref_cnt b" by blast
      from load_one_total [OF Cons.prems(1) b, of ids] obtain m1 where m1: "om_load_one ops k (ids, m) = Inr (ids @ [bs_block_id b], m1)"
        "mgr_ok ops inv m1" "pol_get ops (om_policy m1) = (pol_get ops (om_policy m))(k \<mapsto> b\<lparr>bs_ref_cnt := bs_ref_cnt b + 1\<rparr>)" by blast
      have "om_lookup ops k' m1 = om_lookup ops k' m" for k' using b by (simp add: om_lookup_def m1(3) is_ready_def)
      moreover have "om_lookup ops k m = HIT" using b by (simp add: om_lookup_def is_ready_def)
      ultimately have "\<not> (\<forall>k \<in> set ks. om_lookup ops k m1 = HIT)" using Cons.prems(2) by simp
      from Cons.IH [OF m1(2) this] m1(1) show ?thesis by simp
    next
      case False
      then show ?thesis by (auto simp: om_load_one_def is_ready_def py_assert_def split: option.splits)
    qed
  qed simp
  with False show ?thesis unfolding load_sound_def om_prepare_load_def by simp
qed

lemma finish_store_Cons: "finish_store success (k # ks) G = finish_store success ks
    (case G k of Some b \<Rightarrow> if is_ready b then G else if success then G(k \<mapsto> b\<lparr>bs_ref_cnt := 0\<rparr>) else G(k := None) | None \<Rightarrow> G)"
  by (auto simp: finish_store_def fun_eq_iff is_ready_def split: option.splits)

lemma store_finishes_any:
  assumes "mgr_ok ops inv m"
  shows "\<exists>m'. om_complete_store ops ks success m = Inr m' \<and> pol_get ops (om_policy m') = finish_store success ks (pol_get ops (om_policy m))"
proof (cases success)
  case True
  have "pol_get ops (om_policy (snd (fold (om_stored_one ops) ks (st, m)))) = finish_store True ks (pol_get ops (om_policy m))" for st
    using assms
  proof (induction ks arbitrary: st m)
    case Nil
    then show ?case by (simp add: finish_store_def fun_eq_iff split: option.splits)
  next
    case (Cons k ks)
    obtain st' m1 where m1: "om_stored_one ops k (st, m) = (st', m1)" by (cases "om_stored_one ops k (st, m)")
    note step = stored_one_step [OF Cons.prems, of k st, unfolded m1 snd_conv]
    show ?case using Cons.IH [OF step(1), of st'] by (simp add: m1 finish_store_Cons step(3) split: option.splits)
  qed
  from this [of "[]"] True show ?thesis by (auto simp: om_complete_store_def om_emit_def split: prod.splits option.splits)
next
  case False
  have "\<exists>m'. foldE (om_failed_one ops) ks m = Inr m' \<and> pol_get ops (om_policy m') = finish_store False ks (pol_get ops (om_policy m))"
    using assms
  proof (induction ks arbitrary: m)
    case Nil
    then show ?case by (simp add: finish_store_def fun_eq_iff split: option.splits)
  next
    case (Cons k ks)
    from failed_one_total [OF Cons.prems, of k] obtain m1 where m1: "om_failed_one ops k m = Inr m1" "mgr_ok ops inv m1"
      "pol_get ops (om_policy m1) = (case pol_get ops (om_policy m) k of
        Some b \<Rightarrow> if is_ready b then pol_get ops (om_policy m) else (pol_get ops (om_policy m))(k := None) | None \<Rightarrow> pol_get ops (om_policy m))" by blast
    from Cons.IH [OF m1(2)] m1(1) show ?case by (simp add: finish_store_Cons m1(3) cong: option.case_cong if_cong)
  qed
  with False show ?thesis by (simp add: om_complete_store_def)
qed

end

context complete_policy
begin

text \<open>A store is refused only when free and evictable blocks together are too few.\<close>

lemma store_complete:
  assumes "mgr_ok ops inv m" "distinct ks" "om_admit ks m = Inr (admitted, m1)"
  shows "(\<exists>m'. om_prepare_store ops ks m = Inr (None, m'))
    \<longleftrightarrow> om_get_num_free_blocks m + int (card (keys_with 0 (pol_get ops (om_policy m)) - set admitted))
        < int (length (filter (\<lambda>k. pol_get ops (om_policy m) k = None) admitted))"
proof
  let ?G = "pol_get ops (om_policy m)" and ?new = "filter (\<lambda>k. pol_get ops (om_policy m) k = None) admitted"
  assume "\<exists>m'. om_prepare_store ops ks m = Inr (None, m')"
  then obtain m' where m': "mgr_ok ops inv m'" "pol_get ops (om_policy m') = ?G" "om_get_num_free_blocks m' = om_get_num_free_blocks m"
      "om_make_room ops (length ?new) admitted m' = Inr (None, m')"
    using prepare_store_cases [OF assms] by auto
  define need where "need = int (length ?new) - om_get_num_free_blocks m"
  have fin: "finite (keys_with 0 ?G)" using assms(1) by (simp add: mgr_ok_def tier_ok_def finite_keys_with)
  have "0 < need \<and> (int (card (keys_with 0 ?G)) < need \<or> pol_evict ops (nat need) admitted (om_policy m') = Inr (None, om_policy m'))"
    by (rule disjE [OF make_room_cases [OF m'(1), of "length ?new" admitted]]) (use m'(2-4) in \<open>auto simp: need_def\<close>)
  then have "int (card (keys_with 0 ?G - set admitted)) < need"
  proof (elim conjE disjE)
    assume "int (card (keys_with 0 ?G)) < need"
    then show ?thesis using card_mono [OF fin, of "keys_with 0 ?G - set admitted"] by simp
  next
    assume refused: "0 < need" "pol_evict ops (nat need) admitted (om_policy m') = Inr (None, om_policy m')"
    have "inv (om_policy m') (keys_with 0 ?G)" using m'(1,2) by (simp add: mgr_ok_def)
    from evict_complete [OF this _ refused(2)] m'(2) refused(1) show ?thesis by (simp add: idle_pending_keys)
  qed
  then show "om_get_num_free_blocks m + int (card (keys_with 0 ?G - set admitted)) < int (length ?new)" by (simp add: need_def)
next
  let ?G = "pol_get ops (om_policy m)" and ?new = "filter (\<lambda>k. pol_get ops (om_policy m) k = None) admitted"
  assume small: "om_get_num_free_blocks m + int (card (keys_with 0 ?G - set admitted)) < int (length ?new)"
  from prepare_store_cases [OF assms] show "\<exists>m'. om_prepare_store ops ks m = Inr (None, m')"
  proof (elim disjE exE conjE)
    fix bs evicted m' assume "om_prepare_store ops ks m = Inr (Some (?new, map bs_block_id bs, evicted), m')"
    from store_needs_room [OF assms this] small show ?thesis by linarith
  qed blast
qed

end

section \<open>LRU and ARC\<close>

lemma lru_reachable_ok: "offload_reachable lru_ops (om_init n lru_init e t k) m \<Longrightarrow> 0 \<le> n \<Longrightarrow> mgr_ok lru_ops lru_inv m"
  by (erule lru.reachable_ok, rule lru.init_ok) (simp_all add: lru_inv_def lru_ops_def lru_get_def lru_init_def)

lemma arc_reachable_ok: "offload_reachable arc_ops (om_init n (arc_init n) e t k) m \<Longrightarrow> 0 \<le> n \<Longrightarrow> mgr_ok arc_ops arc_inv m"
  by (erule arc.reachable_ok, rule arc.init_ok) (simp_all add: arc_inv_def arc_ops_def arc_get_map arc_init_def)

lemma reachable_tracker:
  assumes "offload_reachable ops (om_init n p e t k) m"
  shows "om_max_tracker_size m = k" "om_store_threshold m = t" "om_store_threshold m < 2 \<Longrightarrow> om_counts m = None"
  using reachable_params [OF assms] by (simp_all add: om_params_def om_init_def split: if_splits)

text \<open>A run for the witnesses: two keys are stored, and one of them is being loaded.\<close>

definition tier_demo :: "'p policy_ops \<Rightarrow> 'p offload_mgr \<Rightarrow> 'p offload_mgr res" where
  "tier_demo ops m0 = bindE (om_prepare_store ops [[1], [2]] m0) (\<lambda>(_, m).
     bindE (om_complete_store ops [[1], [2]] True m) (\<lambda>m. bindE (om_prepare_load ops [[1]] m) (\<lambda>(_, m). Inr m)))"

lemma tier_demo_reachable:
  assumes "tier_demo ops m0 = Inr m"
  shows "offload_reachable ops m0 m"
proof -
  from assms obtain out m1 m2 ids where run: "om_prepare_store ops [[1], [2]] m0 = Inr (out, m1)"
    "om_complete_store ops [[1], [2]] True m1 = Inr m2" "om_prepare_load ops [[1]] m2 = Inr (ids, m)"
    by (auto simp: tier_demo_def bindE_eq_Inr)
  have "offload_reachable ops m0 m1" by (rule offload_reachable.store [OF offload_reachable.start _ run(1)]) simp
  then show ?thesis by (rule offload_reachable.load [OF offload_reachable.stored [OF _ run(2)] run(3)])
qed

text \<open>
  C12.  In every state the manager of the CPU tier can reach, with either policy, the blocks handed out so
  far are divided between the stored keys and the free list, no two keys share a block, and the two
  counters are the number of idle blocks and of blocks being written.
\<close>

theorem offload_consistent:
  assumes "0 \<le> num_blocks"
  shows "(\<forall>m. offload_reachable lru_ops (om_init num_blocks lru_init events threshold tracker) m \<longrightarrow> offload_ok lru_ops m)
    \<and> (\<forall>m. offload_reachable arc_ops (om_init num_blocks (arc_init num_blocks) events threshold tracker) m \<longrightarrow> offload_ok arc_ops m)"
  using lru_reachable_ok arc_reachable_ok mgr_ok_offload_ok assms by metis

lemma tier_demo_runs:
  "\<exists>m. tier_demo lru_ops (om_init 2 lru_init True 1 64000) = Inr m \<and> om_admit [[3], [4]] m = Inr ([[3], [4]], m)
    \<and> offload_reachable lru_ops (om_init 2 lru_init True 1 64000) m"
  "\<exists>m. tier_demo arc_ops (om_init 2 (arc_init 2) True 1 64000) = Inr m \<and> offload_reachable arc_ops (om_init 2 (arc_init 2) True 1 64000) m"
proof -
  have "case tier_demo lru_ops (om_init 2 lru_init True 1 64000) of Inl _ \<Rightarrow> False | Inr m \<Rightarrow> om_counts m = None" by code_simp
  then obtain m where "tier_demo lru_ops (om_init 2 lru_init True 1 64000) = Inr m" "om_admit [[3], [4]] m = Inr ([[3], [4]], m)"
    by (auto simp: om_admit_def split: sum.splits)
  then show "\<exists>m. tier_demo lru_ops (om_init 2 lru_init True 1 64000) = Inr m \<and> om_admit [[3], [4]] m = Inr ([[3], [4]], m)
    \<and> offload_reachable lru_ops (om_init 2 lru_init True 1 64000) m" using tier_demo_reachable by blast
  have "case tier_demo arc_ops (om_init 2 (arc_init 2) True 1 64000) of Inl _ \<Rightarrow> False | Inr m \<Rightarrow> True" by code_simp
  then obtain m where "tier_demo arc_ops (om_init 2 (arc_init 2) True 1 64000) = Inr m" by (auto split: sum.splits)
  then show "\<exists>m. tier_demo arc_ops (om_init 2 (arc_init 2) True 1 64000) = Inr m \<and> offload_reachable arc_ops (om_init 2 (arc_init 2) True 1 64000) m"
    using tier_demo_reachable by blast
qed

theorem offload_consistent_witness:
  "(\<exists>m. tier_demo lru_ops (om_init 2 lru_init True 1 64000) = Inr m \<and> offload_ok lru_ops m)
    \<and> (\<exists>m. tier_demo arc_ops (om_init 2 (arc_init 2) True 1 64000) = Inr m \<and> offload_ok arc_ops m)"
  using offload_consistent [of 2 True 1 64000, OF zero_le_numeral] tier_demo_runs by blast

text \<open>
  C13.  A store of distinct keys returns, with either policy.  Of its keys those are considered that the
  store threshold admits: all of them with a threshold below 2.  When there is no room, no block
  changes.  Otherwise every admitted key that is not stored yet gets a block of its own, which no
  other key has; blocks that a transfer is using, and the blocks of admitted keys, are not touched;
  only idle blocks of other keys are evicted.  (A key that is not admitted counts as another key,
  see \<open>stored_key_of_request_evicted\<close> below.)
\<close>

theorem store_protects_transfers:
  assumes "0 \<le> num_blocks" "1 \<le> tracker" "distinct ks"
  shows "(\<forall>m. offload_reachable lru_ops (om_init num_blocks lru_init events threshold tracker) m \<longrightarrow> store_sound lru_ops m ks)
    \<and> (\<forall>m. offload_reachable arc_ops (om_init num_blocks (arc_init num_blocks) events threshold tracker) m \<longrightarrow> store_sound arc_ops m ks)"
proof (intro conjI allI impI)
  fix m assume r: "offload_reachable lru_ops (om_init num_blocks lru_init events threshold tracker) m"
  show "store_sound lru_ops m ks"
    by (rule lru.store_sound_any [OF lru_reachable_ok [OF r assms(1)] assms(3)]) (use reachable_tracker [OF r] assms(2) in auto)
next
  fix m assume r: "offload_reachable arc_ops (om_init num_blocks (arc_init num_blocks) events threshold tracker) m"
  show "store_sound arc_ops m ks"
    by (rule arc.store_sound_any [OF arc_reachable_ok [OF r assms(1)] assms(3)]) (use reachable_tracker [OF r] assms(2) in auto)
qed

theorem store_protects_transfers_witness:
  "(\<exists>m. tier_demo lru_ops (om_init 2 lru_init True 1 64000) = Inr m \<and> store_sound lru_ops m [[3]])
    \<and> (\<exists>m. tier_demo arc_ops (om_init 2 (arc_init 2) True 1 64000) = Inr m \<and> store_sound arc_ops m [[3]])"
  using store_protects_transfers [of 2 64000 "[[3]]" True 1, OF zero_le_numeral one_le_numeral distinct_singleton] tier_demo_runs by blast



text \<open>
  C15.  A load of keys that are all readable returns their blocks, holds every one of them, and its
  completion brings the tier back to where it was; a load with any other key raises.
\<close>

theorem load_round_trip:
  assumes "0 \<le> num_blocks"
  shows "(\<forall>m. offload_reachable lru_ops (om_init num_blocks lru_init events threshold tracker) m \<longrightarrow> load_sound lru_ops m ks)
    \<and> (\<forall>m. offload_reachable arc_ops (om_init num_blocks (arc_init num_blocks) events threshold tracker) m \<longrightarrow> load_sound arc_ops m ks)"
  using lru_reachable_ok arc_reachable_ok lru.load_sound_any arc.load_sound_any assms by metis

theorem load_round_trip_witness:
  "(\<exists>m. tier_demo lru_ops (om_init 2 lru_init True 1 64000) = Inr m \<and> load_sound lru_ops m [[1], [2], [1]])
    \<and> (\<exists>m. tier_demo arc_ops (om_init 2 (arc_init 2) True 1 64000) = Inr m \<and> load_sound arc_ops m [[1], [2], [1]])"
  using load_round_trip [of 2 True 1 64000 "[[1], [2], [1]]", OF zero_le_numeral] tier_demo_runs by blast

text \<open>
  C16.  Completing a store returns: the blocks of its keys that were being written become readable when it
  succeeded and are given back when it failed, and all others stay as they were.
\<close>

theorem store_finishes:
  assumes "0 \<le> num_blocks"
  shows "(\<forall>m. offload_reachable lru_ops (om_init num_blocks lru_init events threshold tracker) m \<longrightarrow>
      (\<exists>m'. om_complete_store lru_ops ks success m = Inr m' \<and> lru_get (om_policy m') = finish_store success ks (lru_get (om_policy m))))
    \<and> (\<forall>m. offload_reachable arc_ops (om_init num_blocks (arc_init num_blocks) events threshold tracker) m \<longrightarrow>
      (\<exists>m'. om_complete_store arc_ops ks success m = Inr m' \<and> arc_get (om_policy m') = finish_store success ks (arc_get (om_policy m))))"
proof (intro conjI allI impI)
  fix m assume "offload_reachable lru_ops (om_init num_blocks lru_init events threshold tracker) m"
  from lru.store_finishes_any [OF lru_reachable_ok [OF this assms], of ks success]
  show "\<exists>m'. om_complete_store lru_ops ks success m = Inr m' \<and> lru_get (om_policy m') = finish_store success ks (lru_get (om_policy m))"
    by (simp add: lru_ops_def)
next
  fix m assume "offload_reachable arc_ops (om_init num_blocks (arc_init num_blocks) events threshold tracker) m"
  from arc.store_finishes_any [OF arc_reachable_ok [OF this assms], of ks success]
  show "\<exists>m'. om_complete_store arc_ops ks success m = Inr m' \<and> arc_get (om_policy m') = finish_store success ks (arc_get (om_policy m))"
    by (simp add: arc_ops_def)
qed

theorem store_finishes_witness:
  "\<exists>out m m'. om_prepare_store lru_ops [[1], [2]] (om_init 2 lru_init True 1 64000) = Inr (out, m) \<and> om_complete_store lru_ops [[1]] False m = Inr m'
    \<and> lru_get (om_policy m') = finish_store False [[1]] (lru_get (om_policy m))"
proof -
  have "case om_prepare_store lru_ops [[1], [2]] (om_init 2 lru_init True 1 64000) of Inl _ \<Rightarrow> False | Inr _ \<Rightarrow> True" by code_simp
  then obtain out m where m: "om_prepare_store lru_ops [[1], [2]] (om_init 2 lru_init True 1 64000) = Inr (out, m)" by (auto split: sum.splits)
  have "offload_reachable lru_ops (om_init 2 lru_init True 1 64000) m" by (rule offload_reachable.store [OF offload_reachable.start _ m]) simp
  with store_finishes [of 2 True 1 64000 "[[1]]" False, OF zero_le_numeral] m show ?thesis by blast
qed

section \<open>Findings\<close>

definition store_now :: "'p policy_ops \<Rightarrow> offload_key \<Rightarrow> 'p offload_mgr \<Rightarrow> 'p offload_mgr res" where
  "store_now ops k m = bindE (om_prepare_store ops [k] m) (\<lambda>(_, m). om_complete_store ops [k] True m)"

lemma store_now_reachable:
  assumes "offload_reachable ops m0 m" "store_now ops k m = Inr m'"
  shows "offload_reachable ops m0 m'"
proof -
  from assms(2) obtain out m1 where run: "om_prepare_store ops [k] m = Inr (out, m1)" "om_complete_store ops [k] True m1 = Inr m'"
    by (auto simp: store_now_def bindE_eq_Inr)
  have "offload_reachable ops m0 m1" by (rule offload_reachable.store [OF assms(1) _ run(1)]) simp
  then show ?thesis by (rule offload_reachable.stored [OF _ run(2)])
qed

lemma touches_reachable: "offload_reachable ops m0 m \<Longrightarrow> offload_reachable ops m0 (fold (\<lambda>k. om_touch ops [k]) ks m)"
  by (induction ks arbitrary: m) (simp_all add: offload_reachable.touched)

text \<open>States of a tier with three blocks, all of them handed out.\<close>

definition arc_tier :: "rat \<Rightarrow> (offload_key \<times> block_status) list \<Rightarrow> (offload_key \<times> block_status) list \<Rightarrow> offload_key list \<Rightarrow> int \<Rightarrow> int list \<Rightarrow> arc offload_mgr" where
  "arc_tier target t1 t2 b1 evictable sizes = (om_init 3 (arc_init 3) False 1 64000)\<lparr>om_num_allocated_blocks := 3,
     om_policy := \<lparr>arc_capacity = 3, arc_target_t1_size = target, arc_t1 = t1, arc_t2 = t2, arc_b1 = b1, arc_b2 = []\<rparr>,
     om_num_evictable_cache_blocks := evictable, om_allocation_sizes := sizes\<rparr>"

lemma arc_run:
  "foldE (store_now arc_ops) [[1], [2], [3]] (om_init 3 (arc_init 3) False 1 64000) = Inr (arc_tier 0 [([1], \<lparr>bs_ref_cnt = 0, bs_block_id = 0\<rparr>), ([2], \<lparr>bs_ref_cnt = 0, bs_block_id = 1\<rparr>), ([3], \<lparr>bs_ref_cnt = 0, bs_block_id = 2\<rparr>)] [] [] 3 [1, 1, 1])"
  "store_now arc_ops [4] (arc_tier 0 [([1], \<lparr>bs_ref_cnt = 0, bs_block_id = 0\<rparr>), ([2], \<lparr>bs_ref_cnt = 0, bs_block_id = 1\<rparr>), ([3], \<lparr>bs_ref_cnt = 0, bs_block_id = 2\<rparr>)] [] [] 3 [1, 1, 1]) = Inr (arc_tier 0 [([2], \<lparr>bs_ref_cnt = 0, bs_block_id = 1\<rparr>), ([3], \<lparr>bs_ref_cnt = 0, bs_block_id = 2\<rparr>), ([4], \<lparr>bs_ref_cnt = 0, bs_block_id = 0\<rparr>)] [] [[1]] 3 [1, 1, 1, 1])"
  "fold (\<lambda>k. om_touch arc_ops [k]) [[2], [3], [1], [1]] (arc_tier 0 [([2], \<lparr>bs_ref_cnt = 0, bs_block_id = 1\<rparr>), ([3], \<lparr>bs_ref_cnt = 0, bs_block_id = 2\<rparr>), ([4], \<lparr>bs_ref_cnt = 0, bs_block_id = 0\<rparr>)] [] [[1]] 3 [1, 1, 1, 1]) = (arc_tier 2 [([4], \<lparr>bs_ref_cnt = 0, bs_block_id = 0\<rparr>)] [([2], \<lparr>bs_ref_cnt = 0, bs_block_id = 1\<rparr>), ([3], \<lparr>bs_ref_cnt = 0, bs_block_id = 2\<rparr>)] [[1]] 3 [1, 1, 1, 1])"
  "om_prepare_load arc_ops [[2], [3]] (arc_tier 2 [([4], \<lparr>bs_ref_cnt = 0, bs_block_id = 0\<rparr>)] [([2], \<lparr>bs_ref_cnt = 0, bs_block_id = 1\<rparr>), ([3], \<lparr>bs_ref_cnt = 0, bs_block_id = 2\<rparr>)] [[1]] 3 [1, 1, 1, 1]) = Inr ([1, 2], (arc_tier 2 [([4], \<lparr>bs_ref_cnt = 0, bs_block_id = 0\<rparr>)] [([2], \<lparr>bs_ref_cnt = 1, bs_block_id = 1\<rparr>), ([3], \<lparr>bs_ref_cnt = 1, bs_block_id = 2\<rparr>)] [[1]] 1 [1, 1, 1, 1]))"
  by code_simp+

text \<open>
  ARC does not have the property of \<open>complete_policy\<close>: here the block of key 4 is idle and is not asked
  for, but \<open>evict\<close> does not look at T1 because T1 is smaller than its target, finds nothing in T2, and
  the store of one block is refused.  \<open>CachePolicy.evict\<close> is documented to return None only if the
  evictions cannot be satisfied.
\<close>

lemma arc_refuses_idle_block:
  "\<exists>m m'. offload_reachable arc_ops (om_init 3 (arc_init 3) False 1 64000) m \<and> [4] \<in> idle_keys (arc_get (om_policy m))
    \<and> om_prepare_store arc_ops [[5]] m = Inr (None, m')"
proof -
  let ?start = "om_init 3 (arc_init 3) False 1 64000"
  let ?m = "(arc_tier 2 [([4], \<lparr>bs_ref_cnt = 0, bs_block_id = 0\<rparr>)] [([2], \<lparr>bs_ref_cnt = 1, bs_block_id = 1\<rparr>), ([3], \<lparr>bs_ref_cnt = 1, bs_block_id = 2\<rparr>)] [[1]] 1 [1, 1, 1, 1])"
  have "offload_reachable arc_ops ?start (arc_tier 0 [([1], \<lparr>bs_ref_cnt = 0, bs_block_id = 0\<rparr>), ([2], \<lparr>bs_ref_cnt = 0, bs_block_id = 1\<rparr>), ([3], \<lparr>bs_ref_cnt = 0, bs_block_id = 2\<rparr>)] [] [] 3 [1, 1, 1])"
    by (rule foldE_invariant [where P = "offload_reachable arc_ops ?start", OF arc_run(1) offload_reachable.start]) (rule store_now_reachable)
  from touches_reachable [OF store_now_reachable [OF this arc_run(2)], of "[[2], [3], [1], [1]]", unfolded arc_run(3)]
  have "offload_reachable arc_ops ?start ?m" by (rule offload_reachable.load [OF _ arc_run(4)])
  moreover have "[4] \<in> idle_keys (arc_get (om_policy ?m))" by (simp add: idle_keys_def arc_get_def arc_tier_def)
  moreover have "case om_prepare_store arc_ops [[5]] ?m of Inr (None, _) \<Rightarrow> True | _ \<Rightarrow> False" by code_simp
  then have "\<exists>m'. om_prepare_store arc_ops [[5]] ?m = Inr (None, m')" by (auto split: sum.splits option.splits)
  ultimately show ?thesis by blast
qed

text \<open>
  A key that is already stored and is part of a store can be evicted by it: the keys that are protected
  are those left after admission, and the access count of a stored key can have been forgotten.
\<close>

lemma stored_key_of_request_evicted:
  "case foldE (store_now lru_ops) [[1], [1], [2], [3]] (om_init 1 lru_init False 2 2) of
     Inl _ \<Rightarrow> False
   | Inr m \<Rightarrow> om_lookup lru_ops [1] m = HIT
       \<and> (case om_prepare_store lru_ops [[2], [1]] m of Inr (Some out, _) \<Rightarrow> out = ([[2]], [0], [[1]]) | _ \<Rightarrow> False)"
  by code_simp

end
