(* ===== verification/Spec2Isabelle.thy ===== *)
theory Spec2Isabelle
  imports Math_Utils Request_Queue Pool_Props Cache_Hit_Props Sched_Props Lookup_Total Encoder_Sched Encdec_Props Sched_Utils Sched_Findings KV_Unify KV_Findings
    Ngram Offload_Theorems
begin

text \<open>
  Verification of the serving core of vLLM as vendored by rocm-gfx803.

  \<^bold>\<open>The program.\<close>  The repository holds patches and build tools for gfx803 devices and, under
  \<^verbatim>\<open>src/vllm/vllm\<close>, the inference server itself.  The part that decides what runs, and in which memory,
  is the V1 core (\<^verbatim>\<open>v1/core\<close>): a scheduler picks in every step the tokens of each request to compute
  (\<^verbatim>\<open>sched/scheduler.py\<close>, \<^verbatim>\<open>sched/async_scheduler.py\<close>); a KV-cache manager gives it blocks of device memory
  (\<^verbatim>\<open>kv_cache_manager.py\<close>) through a coordinator (\<^verbatim>\<open>kv_cache_coordinator.py\<close>) over one manager per group of
  layers (\<^verbatim>\<open>single_type_kv_cache_manager.py\<close>), all of which share one pool of blocks with reference
  counts, a free list and a prefix cache (\<^verbatim>\<open>block_pool.py\<close>, \<^verbatim>\<open>kv_cache_utils.py\<close>); an encoder cache holds
  the embeddings of multi-modal inputs (\<^verbatim>\<open>encoder_cache_manager.py\<close>).  Before the first step the engine
  sizes the cache: it reads the KV-cache spec of every layer of all workers
  (\<^verbatim>\<open>v1/kv_cache_interface.py\<close>), puts the layers into groups, turns the memory of each worker into a
  number of blocks and gives every layer its place in the allocation (the second half of
  \<^verbatim>\<open>kv_cache_utils.py\<close>, \<^verbatim>\<open>v1/worker/utils.py\<close>).  Blocks can be copied to a tier of CPU blocks with a
  replacement policy of its own (\<^verbatim>\<open>v1/kv_offload/cpu\<close>), and draft tokens can be proposed from the tokens
  of the request itself (\<^verbatim>\<open>v1/spec_decode/ngram_proposer.py\<close>).  A step is \<open>schedule\<close>, the model
  runner, \<open>update_from_output\<close>; with pipelining or asynchronous scheduling several steps are in flight.

  \<^bold>\<open>The model.\<close>  Each class is a record of its fields, each method a function on that record; an
  exception is the left value of \<open>py_exn + 'a\<close> and \<open>bindE\<close> sequences calls (\<open>Prelude\<close>, with Python's
  indexing, slicing and ranges).  Unbounded integers are \<open>int\<close>, floats that only order requests are
  rational, dictionaries are maps or, where their order matters, association lists.  Objects that
  the code shares (blocks of the pool, requests) are references into a table.  Hash functions, the
  iteration order of sets and the output of the model runner are parameters.

  \<^item> \<open>Math_Utils\<close>: \<^verbatim>\<open>utils/math_utils.py\<close>; rounding and powers of two, as exact characterisations.
  \<^item> \<open>Request_Status\<close>, \<open>Request_Queue\<close>: \<^verbatim>\<open>request.py\<close> and \<^verbatim>\<open>sched/request_queue.py\<close> with the binary heap of
    \<^verbatim>\<open>heapq\<close>.  The interface \<open>request_queue\<close> is the contract of both queues; the priority queue refines a
    sorted list, and repeated pops return every request once, in order.
  \<^item> \<open>Free_Queue\<close>: the doubly linked free list, on one store per link field.  The interface
    \<open>free_block_queue\<close> states each operation on the list of blocks it represents.
  \<^item> \<open>Block_Hash\<close>: the chained block hashes, their extra keys and cache keys.  The loop over blocks is a
    \<open>partial_function\<close>; it is proved to return for every positive block size.
  \<^item> \<open>Block_Map\<close>, \<open>Block_Pool\<close>, \<open>Pool_Inv\<close>, \<open>Pool_Props\<close>: the prefix-cache index (interface \<open>block_index\<close>), the
    pool, its invariant and its state machine: free list, reference counts and index agree in every
    reachable state, and what allocation, freeing, touching, caching, eviction and reset do.
  \<^item> \<open>Managers\<close>, \<open>Manager_Inv\<close>: the managers for full, sliding-window, chunked-local, cross and
    R-SWA attention and circular buffers, with partial-block hits and copy-on-write.
  \<^item> \<open>Cache_Hit\<close>, \<open>Cache_Hit_Props\<close>: the prefix-cache lookups; a hit claims only cached blocks and all
    that the attention window needs.
  \<^item> \<open>Lookup_Total\<close>: the lookup over all groups, the fixed-point iteration of the hybrid coordinator
    included, always returns and leaves a token to compute.
  \<^item> \<open>Coordinator\<close>, \<open>Coordinator_Inv\<close>, \<open>KV_Manager\<close>, \<open>Admission\<close>, \<open>KVM_Props\<close>, \<open>KVM_Steps\<close>: the coordinator
    classes and the manager.  The interfaces \<open>mgr_op\<close> and \<open>mgr_alloc\<close> state what an operation of one
    group's manager keeps and costs; the loop over groups is proved once and every manager
    operation is an instance.  The admission check is enough for the allocation to succeed;
    \<open>allocate_slots\<close> refuses a request only when the prediction exceeds the free blocks, and can raise
    only in the step that enters the new blocks into the prefix cache.
  \<^item> \<open>Sched_Blocks\<close>, \<open>Sched_Props\<close>: when the scheduler gives blocks back.  When frees are
    deferred, blocks of a step in flight stay referenced until it is processed; nothing is leaked.
  \<^item> \<open>Encoder_Cache\<close>, \<open>Encoder_Props\<close>, \<open>Encoder_Sched\<close>, \<open>Encdec_Props\<close>: both encoder cache managers and the
    admission of encoder inputs (interfaces \<open>encoder_manager\<close>, \<open>caching_manager\<close>).
  \<^item> \<open>Sched_Utils\<close>: \<^verbatim>\<open>sched/utils.py\<close>; stop conditions and repetition detection.
  \<^item> \<open>Scheduler\<close>, \<open>Sched_Step\<close>, \<open>Sched_Output\<close>: the scheduler: arrival, streaming sessions, abortion,
    preemption; the two loops of \<open>schedule\<close> and the end of a step; the processing of outputs, drafts,
    pausing and cache resets.  It calls the components above through the record \<open>services\<close>, and
    \<open>vllm_services\<close> is that record filled with their models.
  \<^item> \<open>Sched_Queues\<close>, \<open>Sched_Placed\<close>, \<open>Sched_Conserve\<close>: each request is in exactly one place.  \<open>located\<close> says
    so for one id; a handful of lemmas cover every way in which the scheduler moves a request.
  \<^item> \<open>Sched_Limits\<close>: the budgets of a step.  The interface \<open>sched_services\<close> holds the one law the
    scheduler needs of the encoder cache; \<open>vllm_services\<close> is its instance.
  \<^item> \<open>Sched_Theorems\<close>, \<open>Sched_Findings\<close>: the properties of the scheduler and its concrete runs, among them
    three reachable states in which the code fails or loses a request.

  \<^item> \<open>KV_Spec\<close>, \<open>KV_Config\<close>, \<open>KV_Sizing\<close>, \<open>KV_Layout\<close>, \<open>KV_Queries\<close>: the start-up: specs of all built-in classes
    (one constructor each), their page sizes, merging and types; the grouping of layers on all its
    paths (uniform, one type, packed, unified page sizes, full allocation); \<open>get_kv_cache_configs\<close> from
    specs and memories to the configurations of the workers; byte strides of the physical layouts
    and the views of \<open>allocate_kv_cache\<close>, with the address of every cell; the queries of the engine.
  \<^item> \<open>KV_Layout_Props\<close>: every layer gets one view, inside the allocation, and the cells of the layers of
    a group are disjoint.  \<open>KV_Sizing_Props\<close>: the search for the model length is exact.  \<open>KV_Groups\<close>: the
    groups partition the layers; the interface \<open>spec_class\<close> is a property of specs that promotion keeps,
    and all paths of the grouping keep it.  \<open>KV_Capacity\<close>: an instance of it gives the capacity all
    workers promise.  \<open>KV_Unify\<close>: merged specs, page sizes and block sizes.  \<open>KV_Samples\<close>, \<open>KV_Findings\<close>:
    concrete models and the inputs on which the start-up fails.

  \<^item> \<open>Offload_Policy\<close>: the policies LRU and ARC.  The interface \<open>cache_policy\<close> is what the manager of the tier
    relies on, each operation stated by the lookups after it; \<open>complete_policy\<close> adds that an eviction is
    refused only for want of idle blocks.  LRU is an instance of both, ARC of the first.
  \<^item> \<open>Offload_Manager\<close>, \<open>Offload_Props\<close>, \<open>Offload_Theorems\<close>: \<open>CPUOffloadingManager\<close> over any policy, its state
    machine, and the proofs inside the two interfaces: the division of the blocks and the counters
    are kept, transfers are never robbed of their blocks, loads and stores have the effect they
    promise.  Two concrete runs show where ARC and the store threshold break a documented promise.
  \<^item> \<open>Ngram\<close>: the n-gram drafter, a failure-function search, against its specification.

  \<^bold>\<open>Termination.\<close>  The loops of \<open>schedule\<close> are functions with a termination proof: the allocation loop
  shortens the running list with each preemption, the loop over running requests advances an index
  that preemption only moves back together with the list, the loop over waiting requests pops a
  queue; the binary search for the model length narrows an interval.  The loops that the code bounds
  by data (the hasher, the hybrid lookup and the n-gram search) are \<open>partial_function (option)\<close>, so
  that not returning would be \<open>None\<close>; \<open>Block_Hash\<close>, \<open>Lookup_Total\<close> and \<open>Ngram\<close> prove that they
  return.  No fuel is used.

  \<^bold>\<open>Hypotheses.\<close>  The invariants hold in every state reachable by the operations, from the constructor
  on.  The scheduler's relation \<open>sched_run\<close> has one guard beyond the types of the arguments: outputs
  are processed while every streaming session of the step is still running.  \<open>Sched_Findings\<close> shows
  that the guard is needed.  \<open>sched_run\<close> starts with any states of the cache managers, which the
  theorems on it do not read.  The flag \<open>defer_block_free\<close> is a parameter: the code sets it for a
  KV-consumer connector with several batches in flight, the theorems on deferred frees are for that
  case, and without it blocks are freed at once.  Queued requests are values, so that their key does
  not change in the queue (the one place where the code changes it, \<^verbatim>\<open>scheduler.py\<close> line 1526, is a
  finding).  The keys of one offloading store are taken to be distinct.

  \<^bold>\<open>Not modelled.\<close>  Configurations with a KV or encoder-cache connector (requests that wait for remote
  blocks, failed loads), Mamba managers and their copy-on-write of states (the chunk alignment
  that they ask of the scheduler is modelled), sink-attention managers, statistics, logging and
  the payload of the messages to the workers.  Of the start-up: specs that a platform registers,
  views for kernel blocks smaller than a block of the manager, the reinterpretation of a view in the
  data type of its layer (views are in bytes), the warm-up of the buffer on ROCm (its rounding to
  4096 bytes is modelled), and the capacity figures in floating point that are only reported (their
  integral divisor is modelled).  Of the offloading: the file-system and tiering back ends, the
  workers that copy, the 32-bit width of reference counts and the rounding of ARC's float target,
  which is an exact rational here.  The model runner, layers and kernels are numerical programs on
  tensors.  The older copy of the server under \<^verbatim>\<open>src/rocm7.14\<close> and the
  patches and containers of the repository are not modelled.
\<close>

end
